(* ===== verification/Prelude.thy ===== *)
theory Prelude
  imports Main "HOL-Library.Word"
begin

text \<open>
  Shared vocabulary of the development: machine-integer names, the outcome type of fallible
  Rust code, first-match search in arrays of slots, and little-endian byte strings.

  Rust's \<open>Result\<close> and \<open>panic!\<close> are both values here. A function that returns
  \<open>Result<T>\<close> returns \<open>Ok\<close> or \<open>Err\<close>; one that can abort the kernel may also
  return \<open>Panic\<close>. State is passed explicitly, so the state component of an \<open>Err\<close>
  shows what an early return leaves behind.
\<close>

unbundle bit_operations_syntax

section \<open>Machine integers\<close>

type_synonym u8 = "8 word"
type_synonym u16 = "16 word"
type_synonym u32 = "32 word"
type_synonym u64 = "64 word"
type_synonym usize = "64 word"
type_synonym i32 = "32 word"

named_theorems slot_simps \<open>rewriting of slot searches and slot updates\<close>
named_theorems byte_simps \<open>rewriting of byte encodings\<close>
named_theorems layout_simps \<open>constants of the memory layout\<close>

lemma unat_bound: "unat (w :: 'a::len word) < 2 ^ LENGTH('a)"
  by (rule unsigned_less)

section \<open>First match in an array\<close>

text \<open>
  The kernel scans its fixed arrays with \<open>for i in 0..N\<close> and stops at the first index whose
  element satisfies a test; \<open>find_index\<close> is that loop.
\<close>

primrec find_index :: "('a \<Rightarrow> bool) \<Rightarrow> 'a list \<Rightarrow> nat option" where
  "find_index P [] = None"
| "find_index P (x # xs) = (if P x then Some 0 else map_option Suc (find_index P xs))"

lemma find_index_None [slot_simps]: "find_index P xs = None \<longleftrightarrow> (\<forall>x\<in>set xs. \<not> P x)"
  by (induction xs) auto

lemma find_index_SomeD:
  "find_index P xs = Some i \<Longrightarrow> i < length xs \<and> P (xs ! i) \<and> (\<forall>j<i. \<not> P (xs ! j))"
proof (induction xs arbitrary: i)
  case Nil
  then show ?case by simp
next
  case (Cons x xs)
  show ?case
  proof (cases "P x")
    case True
    with Cons.prems show ?thesis by simp
  next
    case False
    with Cons.prems obtain k where k: "find_index P xs = Some k" "i = Suc k" by auto
    from Cons.IH [OF k(1)] False k(2) show ?thesis
      by (auto simp: less_Suc_eq_0_disj)
  qed
qed

lemma find_index_SomeI:
  assumes "i < length xs" "P (xs ! i)" "\<And>j. j < i \<Longrightarrow> \<not> P (xs ! j)"
  shows "find_index P xs = Some i"
proof (cases "find_index P xs")
  case None
  with assms(1,2) show ?thesis by (auto simp: find_index_None)
next
  case (Some k)
  note k = find_index_SomeD [OF this]
  with assms have "k = i" by (metis linorder_neqE_nat)
  with Some show ?thesis by simp
qed

lemma find_index_less: "find_index P xs = Some i \<Longrightarrow> i < length xs"
  by (simp add: find_index_SomeD)

lemma find_index_sat: "find_index P xs = Some i \<Longrightarrow> P (xs ! i)"
  by (simp add: find_index_SomeD)

lemma find_index_ex: "x \<in> set xs \<Longrightarrow> P x \<Longrightarrow> \<exists>i. find_index P xs = Some i"
  by (cases "find_index P xs") (auto simp: find_index_None)

lemma find_SomeD: "find P xs = Some x \<Longrightarrow> x \<in> set xs \<and> P x"
  by (induction xs) (auto split: if_splits)

lemma find_NoneD: "find P xs = None \<Longrightarrow> x \<in> set xs \<Longrightarrow> \<not> P x"
  by (induction xs) (auto split: if_splits)

section \<open>Slot arrays\<close>

text \<open>
  Most kernel tables are arrays of \<open>Option<T>\<close>. \<open>first_free\<close> is the scan for the first
  empty slot, \<open>find_slot\<close> the scan for the first occupied slot with a given property, and
  \<open>live_count\<close> the number of occupied slots.
\<close>

definition first_free :: "'a option list \<Rightarrow> nat option" where
  "first_free xs = find_index Option.is_none xs"

definition find_slot :: "('a \<Rightarrow> bool) \<Rightarrow> 'a option list \<Rightarrow> nat option" where
  "find_slot P xs = find_index (\<lambda>s. case s of None \<Rightarrow> False | Some x \<Rightarrow> P x) xs"

definition live_slots :: "'a option list \<Rightarrow> 'a list" where
  "live_slots xs = List.map_filter id xs"

lemma is_none_simps [simp]: "Option.is_none None" "\<not> Option.is_none (Some x)"
  by (simp_all add: Option.is_none_def)

lemma live_slots_Nil [simp]: "live_slots [] = []"
  by (simp add: live_slots_def List.map_filter_def)

lemma live_slots_Cons [simp]:
  "live_slots (x # xs) = (case x of None \<Rightarrow> live_slots xs | Some y \<Rightarrow> y # live_slots xs)"
  by (simp add: live_slots_def List.map_filter_def split: option.splits)

lemma live_slots_append [simp]: "live_slots (xs @ ys) = live_slots xs @ live_slots ys"
  by (induction xs) (auto split: option.splits)

lemma live_slots_replicate_None [simp]: "live_slots (replicate n None) = []"
  by (induction n) auto

lemma live_slots_map_Some [simp]: "live_slots (map Some xs) = xs"
  by (induction xs) auto

lemma set_live_slots: "set (live_slots xs) = {x. Some x \<in> set xs}"
  by (induction xs) (auto split: option.splits)

lemma length_live_slots_le: "length (live_slots xs) \<le> length xs"
  by (induction xs) (auto split: option.splits)

lemma first_free_None: "first_free xs = None \<longleftrightarrow> (\<forall>x\<in>set xs. x \<noteq> None)"
  by (auto simp: first_free_def find_index_None Option.is_none_def)

lemma first_free_None_full: "first_free xs = None \<longleftrightarrow> length (live_slots xs) = length xs"
proof (induction xs)
  case Nil
  then show ?case by (simp add: first_free_def)
next
  case (Cons x xs)
  then show ?case using length_live_slots_le [of xs]
    by (cases x) (auto simp: first_free_None)
qed

lemma first_freeD: "first_free xs = Some i \<Longrightarrow> i < length xs \<and> xs ! i = None"
  unfolding first_free_def by (drule find_index_SomeD) (auto simp: Option.is_none_def)

lemma first_free_before:
  "first_free xs = Some i \<Longrightarrow> j < i \<Longrightarrow> \<exists>y. xs ! j = Some y"
  unfolding first_free_def by (drule find_index_SomeD) (auto simp: Option.is_none_def)

lemma find_slot_None:
  "find_slot P xs = None \<longleftrightarrow> (\<forall>x. Some x \<in> set xs \<longrightarrow> \<not> P x)"
  unfolding find_slot_def find_index_None
  by (force split: option.splits)

lemma find_slotD:
  "find_slot P xs = Some i \<Longrightarrow> i < length xs \<and> (\<exists>x. xs ! i = Some x \<and> P x)"
  unfolding find_slot_def by (drule find_index_SomeD) (auto split: option.splits)

lemma find_slot_before:
  "find_slot P xs = Some i \<Longrightarrow> j < i \<Longrightarrow> xs ! j = Some x \<Longrightarrow> \<not> P x"
  unfolding find_slot_def by (drule find_index_SomeD) (auto split: option.splits)

lemma mset_live_slots_put:
  assumes "i < length xs" "xs ! i = None"
  shows "length (live_slots (xs[i := Some v])) = Suc (length (live_slots xs))"
  using assms
proof (induction xs arbitrary: i)
  case Nil
  then show ?case by simp
next
  case (Cons x xs)
  then show ?case by (cases i) (auto split: option.splits)
qed

lemma length_live_slots_take:
  assumes "i < length xs" "xs ! i = Some v"
  shows "Suc (length (live_slots (xs[i := None]))) = length (live_slots xs)"
  using assms
proof (induction xs arbitrary: i)
  case Nil
  then show ?case by simp
next
  case (Cons x xs)
  then show ?case by (cases i) (auto split: option.splits)
qed

lemma set_live_slots_put:
  assumes "i < length xs" "xs ! i = None"
  shows "set (live_slots (xs[i := Some v])) = insert v (set (live_slots xs))"
  using assms
proof (induction xs arbitrary: i)
  case Nil
  then show ?case by simp
next
  case (Cons x xs)
  then show ?case by (cases i) (auto split: option.splits)
qed

text \<open>Distinctness of a key over the occupied slots, the invariant of most tables.\<close>

definition distinct_keys :: "('a \<Rightarrow> 'k) \<Rightarrow> 'a option list \<Rightarrow> bool" where
  "distinct_keys k xs \<longleftrightarrow> distinct (map k (live_slots xs))"

lemma distinct_keys_put:
  assumes "i < length xs" "xs ! i = None" "distinct_keys k xs"
    and "k v \<notin> k ` set (live_slots xs)"
  shows "distinct_keys k (xs[i := Some v])"
  using assms unfolding distinct_keys_def
proof (induction xs arbitrary: i)
  case Nil
  then show ?case by simp
next
  case (Cons x xs)
  show ?case
  proof (cases i)
    case 0
    with Cons.prems show ?thesis by (auto split: option.splits)
  next
    case (Suc n)
    with Cons.prems have n: "n < length xs" "xs ! n = None" by auto
    have "distinct (map k (live_slots (xs[n := Some v])))"
      using Cons.IH [OF n] Cons.prems by (auto split: option.splits)
    then show ?thesis
      using Suc Cons.prems(3,4) set_live_slots_put [OF n, of v]
      by (cases x) auto
  qed
qed

lemma live_slots_take_subset: "set (live_slots (xs[i := None])) \<subseteq> set (live_slots xs)"
proof (induction xs arbitrary: i)
  case Nil
  then show ?case by simp
next
  case (Cons x xs)
  show ?case
    by (cases i) (use Cons.IH in \<open>auto split: option.splits\<close>)
qed

lemma distinct_keys_take:
  assumes "distinct_keys k xs"
  shows "distinct_keys k (xs[i := None])"
  using assms unfolding distinct_keys_def
proof (induction xs arbitrary: i)
  case Nil
  then show ?case by simp
next
  case (Cons x xs)
  have sub: "set (live_slots (xs[j := None])) \<subseteq> set (live_slots xs)" for j
    by (rule live_slots_take_subset)
  show ?case
  proof (cases i)
    case 0
    with Cons.prems show ?thesis by (auto split: option.splits)
  next
    case (Suc n)
    with Cons sub [of n] show ?thesis by (cases x) auto
  qed
qed

lemma distinct_keys_nth:
  assumes "distinct_keys k xs" "i < length xs" "j < length xs"
    and "xs ! i = Some a" "xs ! j = Some b" "k a = k b"
  shows "i = j"
  using assms unfolding distinct_keys_def
proof (induction xs arbitrary: i j)
  case Nil
  then show ?case by simp
next
  case (Cons x xs)
  have mem: "xs ! n = Some c \<Longrightarrow> n < length xs \<Longrightarrow> c \<in> set (live_slots xs)" for n c
    by (auto simp: set_live_slots in_set_conv_nth)
  show ?case
  proof (cases x)
    case None
    with Cons show ?thesis by (cases i; cases j) auto
  next
    case (Some y)
    have ne: "xs ! n = Some c \<Longrightarrow> n < length xs \<Longrightarrow> k c \<noteq> k y" for n c
    proof -
      assume "xs ! n = Some c" "n < length xs"
      then have "k c \<in> k ` set (live_slots xs)" using mem by blast
      with Cons.prems(1) Some show "k c \<noteq> k y" by auto
    qed
    from ne have ne': "xs ! n = Some c \<Longrightarrow> n < length xs \<Longrightarrow> k y \<noteq> k c" for n c
      by metis
    show ?thesis
      using Cons Some by (cases i; cases j) (auto dest: ne ne')
  qed
qed

lemma distinct_keys_find_slot:
  assumes "distinct_keys k xs" "i < length xs" "xs ! i = Some a"
  shows "find_slot (\<lambda>x. k x = k a) xs = Some i"
proof (cases "find_slot (\<lambda>x. k x = k a) xs")
  case None
  with assms(2,3) show ?thesis by (force simp: find_slot_None in_set_conv_nth)
next
  case (Some j)
  from find_slotD [OF this] obtain b where "j < length xs" "xs ! j = Some b" "k b = k a"
    by auto
  with assms have "j = i" by (metis distinct_keys_nth)
  with Some show ?thesis by simp
qed

section \<open>Slot arrays as maps\<close>

text \<open>The abstraction of a table with distinct keys: the occupied slot under each key.\<close>

definition slot_map :: "('a \<Rightarrow> 'k) \<Rightarrow> 'a option list \<Rightarrow> 'k \<Rightarrow> 'a option" where
  "slot_map k xs key = (case find_slot (\<lambda>x. k x = key) xs of None \<Rightarrow> None | Some i \<Rightarrow> xs ! i)"

lemma slot_map_Some:
  assumes "distinct_keys k xs"
  shows "slot_map k xs key = Some a \<longleftrightarrow> Some a \<in> set xs \<and> k a = key"
proof
  assume "slot_map k xs key = Some a"
  then show "Some a \<in> set xs \<and> k a = key"
    by (auto simp: slot_map_def split: option.splits dest!: find_slotD) (metis nth_mem)
next
  assume "Some a \<in> set xs \<and> k a = key"
  then obtain i where "i < length xs" "xs ! i = Some a" "k a = key" by (auto simp: in_set_conv_nth)
  with distinct_keys_find_slot [OF assms this(1,2)] show "slot_map k xs key = Some a"
    by (simp add: slot_map_def)
qed

lemma slot_map_None: "slot_map k xs key = None \<longleftrightarrow> (\<forall>a. Some a \<in> set xs \<longrightarrow> k a \<noteq> key)"
proof -
  have "slot_map k xs key = None \<longleftrightarrow> find_slot (\<lambda>x. k x = key) xs = None"
    by (auto simp: slot_map_def split: option.splits dest: find_slotD)
  then show ?thesis by (simp add: find_slot_None)
qed

lemma slot_map_eqI:
  assumes "distinct_keys k xs" "\<And>key a. m key = Some a \<longleftrightarrow> Some a \<in> set xs \<and> k a = key"
  shows "slot_map k xs = m"
proof
  fix key
  show "slot_map k xs key = m key"
    using slot_map_Some [OF assms(1), of key] assms(2) [of key]
    by (metis (no_types, lifting) not_Some_eq)
qed

lemma set_put: "i < length xs \<Longrightarrow> xs ! i = None \<Longrightarrow> Some a \<in> set (xs[i := Some v]) \<longleftrightarrow> a = v \<or> Some a \<in> set xs"
  using set_live_slots_put [of i xs v] by (auto simp: set_live_slots set_eq_iff)

lemma slot_map_put:
  assumes "distinct_keys k xs" "i < length xs" "xs ! i = None" "slot_map k xs (k v) = None"
  shows "distinct_keys k (xs[i := Some v])" "slot_map k (xs[i := Some v]) = (slot_map k xs)(k v \<mapsto> v)"
proof -
  show d: "distinct_keys k (xs[i := Some v])"
    using assms by (intro distinct_keys_put) (auto simp: slot_map_None set_live_slots)
  show "slot_map k (xs[i := Some v]) = (slot_map k xs)(k v \<mapsto> v)"
    using assms by (intro slot_map_eqI [OF d]) (auto simp: set_put slot_map_Some slot_map_None)
qed

lemma slot_map_take:
  assumes "distinct_keys k xs" "i < length xs" "xs ! i = Some a"
  shows "distinct_keys k (xs[i := None])" "slot_map k (xs[i := None]) = (slot_map k xs)(k a := None)"
proof -
  show d: "distinct_keys k (xs[i := None])" using assms(1) by (rule distinct_keys_take)
  have mem: "Some b \<in> set (xs[i := None]) \<longleftrightarrow> Some b \<in> set xs \<and> k b \<noteq> k a" for b
  proof
    assume "Some b \<in> set (xs[i := None])"
    then obtain j where j: "j < length xs" "xs[i := None] ! j = Some b" by (auto simp: in_set_conv_nth)
    then have ne: "j \<noteq> i" by auto
    with j have "xs ! j = Some b" by simp
    note ne this
    with distinct_keys_nth [OF assms(1) j(1) assms(2) this(2) assms(3)] ne j(1) assms(2)
    show "Some b \<in> set xs \<and> k b \<noteq> k a" by (metis nth_mem)
  next
    assume "Some b \<in> set xs \<and> k b \<noteq> k a"
    then obtain j where j: "j < length xs" "xs ! j = Some b" "k b \<noteq> k a" by (auto simp: in_set_conv_nth)
    with assms(3) have "j \<noteq> i" by auto
    with j show "Some b \<in> set (xs[i := None])"
      by (metis length_list_update nth_list_update_neq nth_mem)
  qed
  show "slot_map k (xs[i := None]) = (slot_map k xs)(k a := None)"
    using assms(1) by (intro slot_map_eqI [OF d]) (auto simp: mem slot_map_Some)
qed

lemma slot_map_upd:
  assumes "distinct_keys k xs" "i < length xs" "xs ! i = Some a" "k b = k a"
  shows "distinct_keys k (xs[i := Some b])" "slot_map k (xs[i := Some b]) = (slot_map k xs)(k a \<mapsto> b)"
proof -
  let ?ys = "xs[i := None]"
  note t = slot_map_take [OF assms(1-3)]
  have i: "i < length ?ys" "?ys ! i = None" using assms(2) by auto
  have f: "slot_map k ?ys (k b) = None" using t(2) assms(4) by simp
  show "distinct_keys k (xs[i := Some b])" "slot_map k (xs[i := Some b]) = (slot_map k xs)(k a \<mapsto> b)"
    using slot_map_put [OF t(1) i f] t(2) assms(4) by simp_all
qed

lemma card_dom_slot_map:
  assumes "distinct_keys k xs"
  shows "card (dom (slot_map k xs)) = length (live_slots xs)" "finite (dom (slot_map k xs))"
proof -
  have "dom (slot_map k xs) = k ` set (live_slots xs)"
    using assms by (auto simp: dom_def slot_map_Some set_live_slots)
  moreover have "card (k ` set (live_slots xs)) = length (map k (live_slots xs))"
    using assms unfolding distinct_keys_def by (metis distinct_card set_map)
  ultimately show "card (dom (slot_map k xs)) = length (live_slots xs)" "finite (dom (slot_map k xs))"
    by simp_all
qed

section \<open>Shifting an array\<close>

text \<open>
  The loop \<open>for j in a..b { xs[j] = xs[j + 1] }\<close>, with which the kernel's array queues close the
  gap a removed element leaves.
\<close>

definition shift_left :: "nat \<Rightarrow> nat \<Rightarrow> 'a list \<Rightarrow> 'a list" where
  "shift_left a b xs = fold (\<lambda>j ys. ys[j := ys ! Suc j]) [a..<b] xs"

lemma shift_left_eq:
  assumes "a \<le> b" "b < length xs"
  shows "shift_left a b xs = take a xs @ take (b - a) (drop (Suc a) xs) @ drop b xs"
  using assms
proof (induction b)
  case 0
  then show ?case by (simp add: shift_left_def)
next
  case (Suc b)
  show ?case
  proof (cases "a = Suc b")
    case True
    then show ?thesis by (simp add: shift_left_def)
  next
    case False
    then have le: "a \<le> b" "b < length xs" using Suc.prems by auto
    let ?p = "take a xs @ take (b - a) (drop (Suc a) xs)"
    have len: "length ?p = b" using le Suc.prems by simp
    have IH: "shift_left a b xs = ?p @ drop b xs" using Suc.IH le by simp
    have "shift_left a (Suc b) xs = (?p @ drop b xs)[b := (?p @ drop b xs) ! Suc b]"
      using IH le by (simp add: shift_left_def)
    also have "(?p @ drop b xs) ! Suc b = xs ! Suc b" using Suc.prems by (simp only: nth_append len) simp
    also have "(?p @ drop b xs)[b := xs ! Suc b] = ?p @ (drop b xs)[0 := xs ! Suc b]"
      by (subst list_update_append) (simp only: len, simp)
    also have "(drop b xs)[0 := xs ! Suc b] = xs ! Suc b # drop (Suc b) xs"
      using le by (metis Cons_nth_drop_Suc list_update_code(2))
    also have "?p @ xs ! Suc b # drop (Suc b) xs = take a xs @ take (Suc b - a) (drop (Suc a) xs) @ drop (Suc b) xs"
      using le Suc.prems by (simp add: Suc_diff_le take_Suc_conv_app_nth)
    finally show ?thesis .
  qed
qed

text \<open>Array queues: the occupied slots are a prefix.\<close>

definition prefix_slots :: "'a list \<Rightarrow> nat \<Rightarrow> 'a option list" where
  "prefix_slots q n = map Some q @ replicate (n - length q) None"

lemma length_prefix_slots [simp]: "length q \<le> n \<Longrightarrow> length (prefix_slots q n) = n"
  by (simp add: prefix_slots_def)

lemma live_prefix_slots [simp]: "live_slots (prefix_slots q n) = q"
  by (simp add: prefix_slots_def)

lemma first_free_prefix: "length q < n \<Longrightarrow> first_free (prefix_slots q n) = Some (length q)"
  unfolding first_free_def prefix_slots_def
  by (intro find_index_SomeI) (auto simp: nth_append)

lemma first_free_prefix_full: "length q = n \<Longrightarrow> first_free (prefix_slots q n) = None"
  by (simp add: prefix_slots_def first_free_None)

lemma prefix_slots_push: "length q < n \<Longrightarrow> (prefix_slots q n)[length q := Some x] = prefix_slots (q @ [x]) n"
  by (simp add: prefix_slots_def list_update_append Suc_diff_Suc [symmetric])

lemma prefix_slots_pop:
  assumes "length q < n"
  shows "(shift_left 0 (length q) ((prefix_slots (x # q) n)[0 := y]))[length q := None] = prefix_slots q n"
proof -
  let ?xs = "(prefix_slots (x # q) n)[0 := y]"
  have xs: "?xs = y # map Some q @ replicate (n - Suc (length q)) None"
    by (simp add: prefix_slots_def)
  have "shift_left 0 (length q) ?xs = take (length q) (drop 1 ?xs) @ drop (length q) ?xs"
    using assms by (subst shift_left_eq) (simp_all add: xs)
  also have "\<dots> = map Some q @ drop (length q) ?xs" by (simp add: xs)
  finally have "(shift_left 0 (length q) ?xs)[length q := None] = map Some q @ (drop (length q) ?xs)[0 := None]"
    by (simp add: list_update_append)
  also have "(drop (length q) ?xs)[0 := None] = None # drop (Suc (length q)) ?xs"
    using assms by (simp add: xs drop_Cons' nth_append list_update_append Cons_nth_drop_Suc [symmetric] split: if_splits)
  also have "drop (Suc (length q)) ?xs = replicate (n - Suc (length q)) None" by (simp add: xs)
  finally show ?thesis
    using assms by (simp add: prefix_slots_def Suc_diff_Suc [symmetric])
qed

section \<open>Page arithmetic on 64-bit words\<close>

lemma word_and_4095: "(x :: u64) AND 4095 = take_bit 12 x"
  by (simp add: take_bit_eq_mask mask_eq_exp_minus_1)

lemma unat_and_4095: "unat ((x :: u64) AND 4095) = unat x mod 4096"
  by (simp only: word_and_4095 unsigned_take_bit_eq) (simp add: take_bit_eq_mod)

lemma page_aligned_iff: "(x :: u64) AND 4095 = 0 \<longleftrightarrow> 4096 dvd unat x"
  using unat_and_4095 [of x] by (metis dvd_eq_mod_eq_0 unsigned_0 unsigned_word_eqI)

lemma unat_and_not_4095: "unat ((x :: u64) AND NOT 4095) = unat x - unat x mod 4096"
proof -
  have "(x AND NOT 4095) + (x AND 4095) = x"
    by (simp add: bit_eq_iff bit_simps disjunctive_add) blast
  then have eq: "x AND NOT 4095 = x - (x AND 4095)" by (simp add: algebra_simps)
  have "unat (x AND 4095) \<le> unat x" by (simp add: unat_and_4095)
  then show ?thesis unfolding eq by (simp add: unat_sub_if_size unat_and_4095)
qed

text \<open>The address field of a descriptor, bits 12 to 47, as the simplifier sees it on words.\<close>

lemma bit_field_int: "bit (0x0000FFFFFFFFF000 :: int) n \<longleftrightarrow> 12 \<le> n \<and> n < 48"
proof -
  have eq: "(0x0000FFFFFFFFF000 :: int) = push_bit 12 (mask 36)"
    by (simp add: mask_eq_exp_minus_1 push_bit_eq_mult)
  show ?thesis unfolding eq by (auto simp: bit_simps)
qed

lemma unat_add_no_wrap:
  "unat (a :: 'a::len word) + unat b < 2 ^ LENGTH('a) \<Longrightarrow> unat (a + b) = unat a + unat b"
  by (simp add: unat_word_ariths)

section \<open>Ranges\<close>

lemma upt_split: "i \<le> j \<Longrightarrow> j \<le> k \<Longrightarrow> [i..<k] = [i..<j] @ [j..<k]"
  by (metis le_Suc_ex upt_add_eq_append)

lemma take_upt_min: "take n [i..<j] = [i..<min (i + n) j]"
  by (cases "i + n \<le> j") (auto simp: take_upt min_def)

section \<open>Little-endian byte strings\<close>

primrec to_le :: "nat \<Rightarrow> nat \<Rightarrow> u8 list" where
  "to_le 0 n = []"
| "to_le (Suc k) n = word_of_nat n # to_le k (n div 256)"

primrec of_le :: "u8 list \<Rightarrow> nat" where
  "of_le [] = 0"
| "of_le (b # bs) = unat b + 256 * of_le bs"

lemma length_to_le [simp]: "length (to_le k n) = k"
  by (induction k arbitrary: n) auto

lemma unat_byte_of_nat: "unat (word_of_nat n :: u8) = n mod 256"
  by (simp add: unat_of_nat)

lemma of_le_to_le [byte_simps]: "of_le (to_le k n) = n mod 256 ^ k"
proof (induction k arbitrary: n)
  case 0
  then show ?case by simp
next
  case (Suc k)
  have "of_le (to_le (Suc k) n) = n mod 256 + 256 * (n div 256 mod 256 ^ k)"
    by (simp add: Suc.IH unat_byte_of_nat)
  also have "\<dots> = n mod (256 * 256 ^ k)"
    by (simp add: mod_mult2_eq)
  finally show ?case by simp
qed

lemma of_le_less: "of_le bs < 256 ^ length bs"
proof (induction bs)
  case Nil
  then show ?case by simp
next
  case (Cons b bs)
  have "unat b < 256" using unat_bound [of b] by simp
  then show ?case using Cons.IH by simp
qed

lemma to_le_of_le [byte_simps]: "to_le (length bs) (of_le bs) = bs"
proof (induction bs)
  case Nil
  then show ?case by simp
next
  case (Cons b bs)
  have b: "unat b < 256" using unat_bound [of b] by simp
  then have "(unat b + 256 * of_le bs) div 256 = of_le bs" by simp
  moreover have "unat (word_of_nat (unat b + 256 * of_le bs) :: u8) = unat b"
    using b by (simp only: unat_byte_of_nat) simp
  then have "(word_of_nat (unat b + 256 * of_le bs) :: u8) = b"
    by (simp only: word_unat_eq_iff)
  ultimately show ?case using Cons.IH by (simp del: of_nat_add of_nat_mult)
qed

definition word_to_le :: "nat \<Rightarrow> 'a::len word \<Rightarrow> u8 list" where
  "word_to_le k w = to_le k (unat w)"

definition word_of_le :: "u8 list \<Rightarrow> 'a::len word" where
  "word_of_le bs = word_of_nat (of_le bs)"

lemma length_word_to_le [simp]: "length (word_to_le k w) = k"
  by (simp add: word_to_le_def)

lemma word_of_le_to_le [byte_simps]:
  fixes w :: "'a::len word"
  assumes "LENGTH('a) \<le> 8 * k"
  shows "word_of_le (word_to_le k w) = w"
proof -
  have "unat w < 2 ^ LENGTH('a)" by (rule unat_bound)
  also have "\<dots> \<le> 2 ^ (8 * k)" using assms by (intro power_increasing) auto
  also have "(2::nat) ^ (8 * k) = 256 ^ k" by (simp add: power_mult)
  finally have "unat w mod 256 ^ k = unat w" by simp
  then show ?thesis by (simp add: word_of_le_def word_to_le_def of_le_to_le)
qed

lemma word_to_le_of_le [byte_simps]:
  assumes "8 * length bs \<le> LENGTH('a::len)"
  shows "word_to_le (length bs) (word_of_le bs :: 'a word) = bs"
proof -
  have "of_le bs < 256 ^ length bs" by (rule of_le_less)
  also have "(256::nat) ^ length bs = 2 ^ (8 * length bs)" by (simp add: power_mult)
  also have "\<dots> \<le> 2 ^ LENGTH('a)" using assms by (intro power_increasing) auto
  finally have "unat (word_of_nat (of_le bs) :: 'a word) = of_le bs"
    by (simp add: unat_of_nat)
  then show ?thesis by (simp add: word_to_le_def word_of_le_def to_le_of_le)
qed

section \<open>Text\<close>

text \<open>\<open>core::str::from_utf8\<close>: the well-formed byte sequences of the Unicode standard.\<close>

definition utf8_cont :: "u8 \<Rightarrow> bool" where
  "utf8_cont b \<longleftrightarrow> 0x80 \<le> b \<and> b \<le> 0xBF"

fun utf8_valid :: "u8 list \<Rightarrow> bool" where
  "utf8_valid [] = True"
| "utf8_valid (b # bs) =
     (if b < 0x80 then utf8_valid bs
      else if 0xC2 \<le> b \<and> b \<le> 0xDF then
        (case bs of c # cs \<Rightarrow> utf8_cont c \<and> utf8_valid cs | _ \<Rightarrow> False)
      else if 0xE0 \<le> b \<and> b \<le> 0xEF then
        (case bs of
           c # d # ds \<Rightarrow> (if b = 0xE0 then 0xA0 \<le> c \<and> c \<le> 0xBF else if b = 0xED then 0x80 \<le> c \<and> c \<le> 0x9F else utf8_cont c)
             \<and> utf8_cont d \<and> utf8_valid ds
         | _ \<Rightarrow> False)
      else if 0xF0 \<le> b \<and> b \<le> 0xF4 then
        (case bs of
           c # d # e # es \<Rightarrow> (if b = 0xF0 then 0x90 \<le> c \<and> c \<le> 0xBF else if b = 0xF4 then 0x80 \<le> c \<and> c \<le> 0x8F else utf8_cont c)
             \<and> utf8_cont d \<and> utf8_cont e \<and> utf8_valid es
         | _ \<Rightarrow> False)
      else False)"

end
