(* ===== verification/Shared_Types.thy ===== *)
theory Shared_Types
  imports Prelude
begin

text \<open>
  The types kernel and user space share (\<open>kernel/shared/src\<close>): status codes, handle
  values, object types, and the capability rights of \<open>kernel/src/object/rights.rs\<close>.
  \<open>res\<close> is the outcome of a kernel operation: \<open>Result<T>\<close> plus the abort of a
  Rust panic.
\<close>

section \<open>Status codes\<close>

datatype status =
    StatusOk | NotFound | NoMemory | InvalidArgs | BadHandle | WrongType | AccessDenied
  | AlreadyExists | NotEmpty | FileOpen | FileNotFound
  | ProcessNotFound | ThreadNotFound | InvalidImage
  | PeerClosed | NotAllowed | TryAgain | TimedOut | Canceled

primrec status_code :: "status \<Rightarrow> i32" where
  "status_code StatusOk = 0"
| "status_code NotFound = -1"
| "status_code NoMemory = -2"
| "status_code InvalidArgs = -3"
| "status_code BadHandle = -4"
| "status_code WrongType = -5"
| "status_code AccessDenied = -6"
| "status_code AlreadyExists = -10"
| "status_code NotEmpty = -11"
| "status_code FileOpen = -12"
| "status_code FileNotFound = -13"
| "status_code ProcessNotFound = -20"
| "status_code ThreadNotFound = -21"
| "status_code InvalidImage = -22"
| "status_code PeerClosed = -30"
| "status_code NotAllowed = -31"
| "status_code TryAgain = -40"
| "status_code TimedOut = -41"
| "status_code Canceled = -42"

text \<open>\<open>self as i32 as usize\<close> sign-extends the 32-bit discriminant.\<close>

definition to_raw :: "status \<Rightarrow> usize" where
  "to_raw s = scast (status_code s)"

definition from_raw :: "i32 \<Rightarrow> status" where
  "from_raw raw =
     (if raw = 0 then StatusOk
      else if raw = -1 then NotFound
      else if raw = -2 then NoMemory
      else if raw = -3 then InvalidArgs
      else if raw = -4 then BadHandle
      else if raw = -5 then WrongType
      else if raw = -6 then AccessDenied
      else if raw = -10 then AlreadyExists
      else if raw = -11 then NotEmpty
      else if raw = -12 then FileOpen
      else if raw = -13 then FileNotFound
      else if raw = -20 then ProcessNotFound
      else if raw = -21 then ThreadNotFound
      else if raw = -22 then InvalidImage
      else if raw = -30 then PeerClosed
      else if raw = -31 then NotAllowed
      else if raw = -40 then TryAgain
      else if raw = -41 then TimedOut
      else if raw = -42 then Canceled
      else InvalidArgs)"

definition is_ok :: "status \<Rightarrow> bool" where
  "is_ok s \<longleftrightarrow> s = StatusOk"

definition is_err :: "status \<Rightarrow> bool" where
  "is_err s \<longleftrightarrow> \<not> is_ok s"

section \<open>Outcomes\<close>

datatype 'a res = Ok 'a | Err status | Panic

primrec res_map :: "('a \<Rightarrow> 'b) \<Rightarrow> 'a res \<Rightarrow> 'b res" where
  "res_map f (Ok x) = Ok (f x)"
| "res_map f (Err e) = Err e"
| "res_map f Panic = Panic"

section \<open>Handle values and object types\<close>

type_synonym handle_value = u32

definition INVALID_HANDLE :: handle_value where
  "INVALID_HANDLE = 0"

datatype object_type =
    OtProcess | OtThread | OtVmo | OtVmar | OtChannel | OtPort | OtEvent | OtTimer
  | OtUserThread | OtJob | OtVmObject | OtUnknown

definition object_type_from_u32 :: "u32 \<Rightarrow> object_type" where
  "object_type_from_u32 val =
     (if val = 0 then OtProcess
      else if val = 1 then OtThread
      else if val = 2 then OtVmo
      else if val = 3 then OtVmar
      else if val = 4 then OtChannel
      else if val = 5 then OtPort
      else if val = 6 then OtEvent
      else if val = 7 then OtTimer
      else if val = 8 then OtUserThread
      else if val = 9 then OtJob
      else if val = 10 then OtVmObject
      else OtUnknown)"

primrec object_type_to_u32 :: "object_type \<Rightarrow> u32" where
  "object_type_to_u32 OtProcess = 0"
| "object_type_to_u32 OtThread = 1"
| "object_type_to_u32 OtVmo = 2"
| "object_type_to_u32 OtVmar = 3"
| "object_type_to_u32 OtChannel = 4"
| "object_type_to_u32 OtPort = 5"
| "object_type_to_u32 OtEvent = 6"
| "object_type_to_u32 OtTimer = 7"
| "object_type_to_u32 OtUserThread = 8"
| "object_type_to_u32 OtJob = 9"
| "object_type_to_u32 OtVmObject = 10"
| "object_type_to_u32 OtUnknown = 255"

section \<open>Capability rights\<close>

type_synonym rights = u32

definition RIGHT_NONE :: rights where "RIGHT_NONE = 0"
definition RIGHT_READ :: rights where "RIGHT_READ = 1"
definition RIGHT_WRITE :: rights where "RIGHT_WRITE = 2"
definition RIGHT_EXECUTE :: rights where "RIGHT_EXECUTE = 4"
definition RIGHT_MAP :: rights where "RIGHT_MAP = 8"
definition RIGHT_DUPLICATE :: rights where "RIGHT_DUPLICATE = 16"
definition RIGHT_TRANSFER :: rights where "RIGHT_TRANSFER = 32"
definition RIGHT_GET_PROPERTY :: rights where "RIGHT_GET_PROPERTY = 64"
definition RIGHT_SET_PROPERTY :: rights where "RIGHT_SET_PROPERTY = 128"
definition RIGHT_ENUMERATE :: rights where "RIGHT_ENUMERATE = 256"
definition RIGHT_SIGNAL :: rights where "RIGHT_SIGNAL = 512"

definition rights_contains :: "rights \<Rightarrow> rights \<Rightarrow> bool" where
  "rights_contains a b \<longleftrightarrow> a AND b = b"

definition rights_bitor :: "rights \<Rightarrow> rights \<Rightarrow> rights" where
  "rights_bitor a b = a OR b"

section \<open>Lemmas\<close>

lemma status_code_inj: "status_code s = status_code t \<longleftrightarrow> s = t"
  by (cases s; cases t) simp_all

lemma from_raw_status_code: "from_raw (status_code s) = s"
  by (cases s) (simp_all add: from_raw_def)

lemma status_code_signed: "sint (status_code s) \<le> 0 \<and> -42 \<le> sint (status_code s)"
  by (cases s) simp_all

lemma unat_minus_one: "unat (-1 :: u64) = 18446744073709551615"
  by (simp add: unsigned_minus_1_eq_mask mask_eq_exp_minus_1)

lemma ucast_minus_one: "(ucast (-1 :: u64) :: u32) = -1"
  by (simp add: bit_eq_iff bit_simps)

lemma ucast_to_raw: "(ucast (to_raw s) :: i32) = status_code s"
  by (cases s) (simp_all add: to_raw_def ucast_minus_one)

lemma object_type_roundtrip: "object_type_from_u32 (object_type_to_u32 t) = t"
  by (cases t) (simp_all add: object_type_from_u32_def)

lemma rights_contains_bits: "rights_contains a b \<longleftrightarrow> (\<forall>n. bit b n \<longrightarrow> bit a n)"
  using bit_imp_le_length [of b] by (force simp: rights_contains_def bit_eq_iff bit_simps)

lemma rights_contains_refl [simp]: "rights_contains a a"
  by (simp add: rights_contains_def)

lemma rights_contains_trans: "rights_contains a b \<Longrightarrow> rights_contains b c \<Longrightarrow> rights_contains a c"
  by (simp add: rights_contains_bits)

lemma rights_contains_or:
  "rights_contains a (rights_bitor b c) \<longleftrightarrow> rights_contains a b \<and> rights_contains a c"
  by (auto simp: rights_contains_bits rights_bitor_def bit_simps)

lemma rights_contains_zero [simp]: "rights_contains a 0"
  by (simp add: rights_contains_def)

text \<open>
  Every status survives the trip to user space and back: a system call returns
  \<open>to_raw\<close> as a 64-bit register value, the library truncates it to an \<open>i32\<close> and calls
  \<open>from_raw\<close>. No two statuses share a raw value, success is exactly zero, and every error
  is one of the top 42 register values, so it cannot be confused with a small result such as
  a handle, a length or a process id.
\<close>

theorem status_raw_roundtrip:
  "from_raw (ucast (to_raw s)) = s
   \<and> (to_raw s = to_raw t \<longleftrightarrow> s = t)
   \<and> (to_raw s = 0 \<longleftrightarrow> is_ok s)
   \<and> (is_ok s \<or> 2 ^ 64 - 42 \<le> unat (to_raw s))"
proof -
  have "to_raw s = to_raw t \<longleftrightarrow> s = t"
    using ucast_to_raw [of s] ucast_to_raw [of t] by (metis status_code_inj)
  moreover have "to_raw s = 0 \<longleftrightarrow> is_ok s"
    by (cases s) (simp_all add: to_raw_def is_ok_def)
  moreover have "is_ok s \<or> 2 ^ 64 - 42 \<le> unat (to_raw s)"
    by (cases s) (simp_all add: to_raw_def is_ok_def unat_minus_one)
  ultimately show ?thesis
    by (simp add: ucast_to_raw from_raw_status_code)
qed

end
