(* ===== verification/Phys_Alloc.thy ===== *)
theory Phys_Alloc
  imports Shared_Types
begin

text \<open>
  The physical page allocator, \<open>kernel/src/arch/aarch64/phys.rs\<close>: a cursor over RAM that only
  moves up, one tag byte per frame, a tracker of live page-table frames, and the cache of
  freed frames. Addresses are natural numbers: every address the allocator computes is below
  \<open>END_FREE_PAGE\<close>, so no addition wraps. The atomics are read and written in program
  order (the kernel runs on one core, so each \<open>compare_exchange\<close> of the cursor succeeds);
  log lines, the \<open>WATCH_PA\<close> instrumentation and cache maintenance have no effect on
  this state and are left out. \<open>PAGE_TAGS[pfn]\<close> aborts when the index is out of range.

  The second part states the contract the rest of the kernel relies on as the locale
  \<open>page_allocator\<close> and interprets it on \<open>alloc_page\<close>.
\<close>

section \<open>Frames and tags\<close>

definition PAGE_SIZE :: nat where [layout_simps]: "PAGE_SIZE = 4096"
definition RAM_BASE :: nat where [layout_simps]: "RAM_BASE = 0x40000000"
definition RAM_SIZE :: nat where [layout_simps]: "RAM_SIZE = 0x20000000"
definition MAX_PAGES :: nat where [layout_simps]: "MAX_PAGES = RAM_SIZE div 4096"
definition MAX_LIVE_PT :: nat where "MAX_LIVE_PT = 64"
definition PAGE_CACHE_SIZE :: nat where "PAGE_CACHE_SIZE = 64"

datatype page_tag = TagFree | TagPageTable | TagVmoData | TagVmarMeta | TagKernelStack | TagKernelHeap

primrec tag_byte :: "page_tag \<Rightarrow> u8" where
  "tag_byte TagFree = 0"
| "tag_byte TagPageTable = 1"
| "tag_byte TagVmoData = 2"
| "tag_byte TagVmarMeta = 3"
| "tag_byte TagKernelStack = 4"
| "tag_byte TagKernelHeap = 5"

definition pa_to_pfn :: "nat \<Rightarrow> nat" where
  "pa_to_pfn pa = (pa - RAM_BASE) div 4096"

definition pa_valid :: "nat \<Rightarrow> bool" where
  "pa_valid pa \<longleftrightarrow> RAM_BASE \<le> pa \<and> pa < RAM_BASE + RAM_SIZE"

record page_cache_entry =
  pce_pa :: nat
  pce_age :: nat
  pce_dirty :: bool

record page_cache =
  pc_entries :: "page_cache_entry option list"
  pc_count :: nat

record phys =
  next_free_page :: nat
  end_free_page :: nat
  free_pages_count :: usize
  total_pages_count :: nat
  live_pt_pages :: "nat list"
  page_tags :: "nat \<Rightarrow> u8"
  cache :: page_cache
  ram :: "nat \<Rightarrow> u8"

section \<open>Live page-table tracker\<close>

text \<open>
  The scan returns at a slot that already holds \<open>pa\<close> and fills the first slot that holds
  \<open>0\<close>; when neither comes up the page is not tracked (a warning is logged).
\<close>

fun register_scan :: "nat \<Rightarrow> nat list \<Rightarrow> nat list" where
  "register_scan pa [] = []"
| "register_scan pa (x # xs) =
     (if x = pa then x # xs
      else if x = 0 then pa # xs
      else x # register_scan pa xs)"

definition register_pt_page :: "nat \<Rightarrow> phys \<Rightarrow> phys" where
  "register_pt_page pa s =
     (if pa = 0 then s else s\<lparr>live_pt_pages := register_scan pa (live_pt_pages s)\<rparr>)"

definition unregister_pt_page :: "nat \<Rightarrow> phys \<Rightarrow> phys" where
  "unregister_pt_page pa s =
     (if pa = 0 then s
      else case find_index (\<lambda>x. x = pa) (live_pt_pages s) of
             None \<Rightarrow> s
           | Some i \<Rightarrow> s\<lparr>live_pt_pages := (live_pt_pages s)[i := 0]\<rparr>)"

definition is_live_pt_page :: "phys \<Rightarrow> nat \<Rightarrow> bool" where
  "is_live_pt_page s pa \<longleftrightarrow> pa \<noteq> 0 \<and> pa \<in> set (live_pt_pages s)"

definition page_tag_of :: "phys \<Rightarrow> nat \<Rightarrow> page_tag option" where
  "page_tag_of s pa =
     (if \<not> pa_valid pa then None
      else let t = page_tags s (pa_to_pfn pa) in
        if t = 0 then Some TagFree
        else if t = 1 then Some TagPageTable
        else if t = 2 then Some TagVmoData
        else if t = 3 then Some TagVmarMeta
        else if t = 4 then Some TagKernelStack
        else if t = 5 then Some TagKernelHeap
        else None)"

section \<open>Cache of freed frames\<close>

definition page_cache_new :: page_cache where
  "page_cache_new = \<lparr>pc_entries = replicate PAGE_CACHE_SIZE None, pc_count = 0\<rparr>"

text \<open>
  \<open>oldest_scan\<close> is the first loop of \<open>find_evictable\<close>: it keeps the first clean entry of
  strictly smallest age, starting from \<open>usize::MAX\<close>.
\<close>

fun oldest_scan :: "nat \<Rightarrow> page_cache_entry option list \<Rightarrow> nat option \<Rightarrow> nat \<Rightarrow> nat option" where
  "oldest_scan i [] best age = best"
| "oldest_scan i (None # es) best age = oldest_scan (Suc i) es best age"
| "oldest_scan i (Some e # es) best age =
     (if \<not> pce_dirty e \<and> pce_age e < age then oldest_scan (Suc i) es (Some i) (pce_age e)
      else oldest_scan (Suc i) es best age)"

definition find_evictable :: "page_cache \<Rightarrow> (nat \<times> nat) option" where
  "find_evictable c =
     (let pick = (\<lambda>i. case pc_entries c ! i of None \<Rightarrow> None | Some e \<Rightarrow> Some (i, pce_pa e)) in
      case oldest_scan 0 (pc_entries c) None (2 ^ 64 - 1) of
        Some i \<Rightarrow> pick i
      | None \<Rightarrow>
          (case find_slot pce_dirty (pc_entries c) of
             None \<Rightarrow> None
           | Some i \<Rightarrow> pick i))"

definition cache_put :: "nat \<Rightarrow> bool \<Rightarrow> page_cache \<Rightarrow> page_cache" where
  "cache_put pa dirty c =
     (case first_free (pc_entries c) of
        None \<Rightarrow> c
      | Some i \<Rightarrow> c\<lparr>pc_entries := (pc_entries c)[i := Some \<lparr>pce_pa = pa, pce_age = 0, pce_dirty = dirty\<rparr>],
                    pc_count := pc_count c + 1\<rparr>)"

definition add_page :: "nat \<Rightarrow> bool \<Rightarrow> page_cache \<Rightarrow> page_cache" where
  "add_page pa dirty c =
     (let c1 = (if PAGE_CACHE_SIZE \<le> pc_count c then
                  (case find_evictable c of
                     None \<Rightarrow> c
                   | Some (i, _) \<Rightarrow> c\<lparr>pc_entries := (pc_entries c)[i := None], pc_count := pc_count c - 1\<rparr>)
                else c)
      in cache_put pa dirty c1)"

definition mark_dirty :: "nat \<Rightarrow> page_cache \<Rightarrow> page_cache" where
  "mark_dirty pa c =
     (case find_slot (\<lambda>e. pce_pa e = pa) (pc_entries c) of
        None \<Rightarrow> c
      | Some i \<Rightarrow> c\<lparr>pc_entries := (pc_entries c)[i := map_option (\<lambda>e. e\<lparr>pce_dirty := True\<rparr>) (pc_entries c ! i)]\<rparr>)"

definition cache_tick :: "page_cache \<Rightarrow> page_cache" where
  "cache_tick c = c\<lparr>pc_entries := map (map_option (\<lambda>e. e\<lparr>pce_age := pce_age e + 1\<rparr>)) (pc_entries c)\<rparr>"

definition cache_sync :: "page_cache \<Rightarrow> nat \<times> page_cache" where
  "cache_sync c =
     (length (filter pce_dirty (live_slots (pc_entries c))),
      c\<lparr>pc_entries := map (map_option (\<lambda>e. if pce_dirty e then e\<lparr>pce_dirty := False\<rparr> else e)) (pc_entries c)\<rparr>)"

definition cache_drain :: "page_cache \<Rightarrow> nat \<times> page_cache" where
  "cache_drain c =
     (length (live_slots (pc_entries c)),
      c\<lparr>pc_entries := map (\<lambda>_. None) (pc_entries c), pc_count := 0\<rparr>)"

section \<open>Initialisation\<close>

definition align_down :: "nat \<Rightarrow> nat" where "align_down n = n - n mod 4096"
definition align_up :: "nat \<Rightarrow> nat" where "align_up n = align_down (n + 4095)"

definition is_page_reserved :: "nat \<Rightarrow> nat \<Rightarrow> nat \<Rightarrow> nat \<Rightarrow> bool" where
  "is_page_reserved page kernel_end_page dtb_start dtb_end \<longleftrightarrow>
     page < kernel_end_page \<or> (dtb_start \<noteq> 0 \<and> dtb_start \<le> page \<and> page < dtb_end)"

text \<open>The counting loop: first free page found, free pages, all pages, and where it stops.\<close>

function init_scan :: "nat \<Rightarrow> nat \<Rightarrow> (nat \<Rightarrow> bool) \<Rightarrow> nat option \<Rightarrow> nat \<Rightarrow> nat \<Rightarrow> nat option \<times> nat \<times> nat \<times> nat" where
  "init_scan cur ram_end reserved nxt free tot =
     (if cur + 4096 \<le> ram_end then
        (if reserved cur then init_scan (cur + 4096) ram_end reserved nxt free (tot + 1)
         else init_scan (cur + 4096) ram_end reserved
                (case nxt of None \<Rightarrow> Some cur | Some p \<Rightarrow> Some p) (free + 1) (tot + 1))
      else (nxt, free, tot, cur))"
  by pat_completeness auto
termination
  by (relation "measure (\<lambda>(cur, ram_end, _). ram_end - cur)") auto

declare init_scan.simps [simp del]

text \<open>
  \<open>kernel_end\<close> is the linker symbol \<open>_kernel_end\<close>; \<open>dtb\<close> is \<open>DTB_POINTER\<close> with
  the size read from the blob's second word, \<open>0\<close> standing for no device tree.
\<close>

definition phys_init :: "nat \<Rightarrow> nat \<Rightarrow> nat \<Rightarrow> nat \<Rightarrow> nat \<Rightarrow> phys \<Rightarrow> phys" where
  "phys_init ram_base ram_size kernel_end dtb_addr dtb_size s =
     (let kernel_end_page = align_up kernel_end;
          dtb_start = (if dtb_addr \<noteq> 0 then align_down dtb_addr else 0);
          dtb_end = (if dtb_addr \<noteq> 0 then align_up (dtb_addr + dtb_size) else 0);
          (nxt, free, tot, cur) =
            init_scan kernel_end_page (ram_base + ram_size)
              (\<lambda>p. is_page_reserved p kernel_end_page dtb_start dtb_end) None 0 0
      in s\<lparr>next_free_page := (case nxt of None \<Rightarrow> next_free_page s | Some p \<Rightarrow> p),
           end_free_page := cur,
           free_pages_count := word_of_nat free,
           total_pages_count := tot\<rparr>)"

definition phys_boot :: phys where
  "phys_boot = \<lparr>next_free_page = 0, end_free_page = 0, free_pages_count = 0, total_pages_count = 0,
     live_pt_pages = replicate MAX_LIVE_PT 0, page_tags = (\<lambda>_. 0), cache = page_cache_new,
     ram = (\<lambda>_. 0)\<rparr>"

section \<open>Allocation and release\<close>

definition zero_page :: "nat \<Rightarrow> (nat \<Rightarrow> u8) \<Rightarrow> nat \<Rightarrow> u8" where
  "zero_page pa m = (\<lambda>a. if pa \<le> a \<and> a < pa + 4096 then 0 else m a)"

definition take_page :: "page_tag \<Rightarrow> nat \<Rightarrow> phys \<Rightarrow> phys" where
  "take_page tag pa s = s\<lparr>next_free_page := pa + 4096,
     free_pages_count := free_pages_count s - 1,
     page_tags := (page_tags s)(pa_to_pfn pa := tag_byte tag),
     ram := zero_page pa (ram s)\<rparr>"

text \<open>
  The \<open>loop\<close> of \<open>alloc_page\<close>: a frame whose tag is not \<open>Free\<close> is skipped by
  advancing the cursor, a frame still tracked as a live page table aborts.
\<close>

function alloc_page :: "page_tag \<Rightarrow> phys \<Rightarrow> nat res \<times> phys" where
  "alloc_page tag s =
     (let pa = next_free_page s in
      if pa = 0 \<or> end_free_page s \<le> pa then (Err NoMemory, s)
      else if \<not> pa_valid pa then (Panic, s)
      else if page_tags s (pa_to_pfn pa) \<noteq> tag_byte TagFree
        then alloc_page tag (s\<lparr>next_free_page := pa + 4096\<rparr>)
      else if is_live_pt_page s pa then (Panic, s)
      else (Ok pa, take_page tag pa s))"
  by pat_completeness auto
termination
  by (relation "measure (\<lambda>(tag, s). end_free_page s - next_free_page s)") auto

declare alloc_page.simps [simp del]

definition free_page :: "nat \<Rightarrow> phys \<Rightarrow> status res \<times> phys" where
  "free_page pa s =
     (if \<not> pa_valid pa then (Panic, s)
      else let old = page_tags s (pa_to_pfn pa) in
        if old = tag_byte TagFree then (Panic, s)
        else let s1 = (if old = tag_byte TagPageTable then unregister_pt_page pa s else s);
                 s2 = s1\<lparr>page_tags := (page_tags s1)(pa_to_pfn pa := tag_byte TagFree)\<rparr>
             in (Ok StatusOk, s2\<lparr>cache := add_page pa False (cache s2)\<rparr>))"

definition alloc_pt_page :: "phys \<Rightarrow> nat res \<times> phys" where
  "alloc_pt_page = alloc_page TagPageTable"
definition alloc_vmo_data :: "phys \<Rightarrow> nat res \<times> phys" where
  "alloc_vmo_data = alloc_page TagVmoData"
definition alloc_vmo_meta :: "phys \<Rightarrow> nat res \<times> phys" where
  "alloc_vmo_meta = alloc_page TagVmoData"
definition alloc_vmar_meta :: "phys \<Rightarrow> nat res \<times> phys" where
  "alloc_vmar_meta = alloc_page TagVmarMeta"
definition alloc_kstack_page :: "phys \<Rightarrow> nat res \<times> phys" where
  "alloc_kstack_page = alloc_page TagKernelStack"
definition alloc_kheap_page :: "phys \<Rightarrow> nat res \<times> phys" where
  "alloc_kheap_page = alloc_page TagKernelHeap"

definition reclaim_page :: "phys \<Rightarrow> nat option \<times> phys" where
  "reclaim_page s =
     (case find_evictable (cache s) of
        None \<Rightarrow> (None, s)
      | Some (_, pa) \<Rightarrow> (Some pa, s\<lparr>cache := add_page pa False (cache s)\<rparr>))"

definition tick_page_cache :: "phys \<Rightarrow> phys" where
  "tick_page_cache s = s\<lparr>cache := cache_tick (cache s)\<rparr>"

definition sync_page_cache :: "phys \<Rightarrow> nat res \<times> phys" where
  "sync_page_cache s = (let (n, c) = cache_sync (cache s) in (Ok n, s\<lparr>cache := c\<rparr>))"

section \<open>Invariant\<close>

text \<open>
  Everything at or above the cursor is untouched: its tag byte is \<open>Free\<close> and it is not
  tracked as a page table. The set of frames ever handed out is therefore the frames between
  the base of RAM and the cursor.
\<close>

definition phys_inv :: "phys \<Rightarrow> bool" where
  "phys_inv s \<longleftrightarrow>
     4096 dvd next_free_page s \<and> RAM_BASE \<le> next_free_page s
     \<and> end_free_page s \<le> RAM_BASE + RAM_SIZE
     \<and> (\<forall>n\<ge>pa_to_pfn (next_free_page s). page_tags s n = 0)
     \<and> (\<forall>p\<in>set (live_pt_pages s). p < next_free_page s)"

definition used_pages :: "phys \<Rightarrow> nat set" where
  "used_pages s = {p. RAM_BASE \<le> p \<and> p < next_free_page s \<and> 4096 dvd p}"

lemma pfn_less:
  assumes "p < q" "4096 dvd q" "RAM_BASE \<le> q" "RAM_BASE \<le> p"
  shows "pa_to_pfn p < pa_to_pfn q"
proof -
  from assms(2) obtain k where k: "q = 4096 * k" by (rule dvdE)
  have b: "RAM_BASE = 4096 * 262144" by (simp add: layout_simps)
  from assms(3) k b have "262144 \<le> k" by simp
  moreover have "q - RAM_BASE = 4096 * (k - 262144)" using k b by (simp add: diff_mult_distrib2)
  ultimately have "pa_to_pfn q = k - 262144" by (simp add: pa_to_pfn_def)
  moreover have "p - RAM_BASE < 4096 * (k - 262144)"
    using assms(1,4) \<open>q - RAM_BASE = _\<close> by simp
  then have "(p - RAM_BASE) div 4096 < k - 262144"
    by (simp add: less_mult_imp_div_less mult.commute)
  ultimately show ?thesis by (simp add: pa_to_pfn_def)
qed

lemma pfn_mono: "p \<le> q \<Longrightarrow> pa_to_pfn p \<le> pa_to_pfn q"
  by (simp add: pa_to_pfn_def diff_le_mono div_le_mono)

lemma pfn_next: "RAM_BASE \<le> p \<Longrightarrow> pa_to_pfn (p + 4096) = Suc (pa_to_pfn p)"
  by (simp add: pa_to_pfn_def)

lemma aligned_unique:
  assumes "4096 dvd p" "4096 dvd n" "n \<le> p" "p < n + (4096 :: nat)"
  shows "p = n"
proof -
  from assms(1,2) obtain i j where "p = 4096 * i" "n = 4096 * j"
    by (meson dvdE)
  with assms(3,4) show ?thesis by simp
qed

lemma alloc_page_inv_eq:
  assumes "phys_inv s"
  shows "alloc_page tag s =
    (if end_free_page s \<le> next_free_page s then (Err NoMemory, s)
     else (Ok (next_free_page s), take_page tag (next_free_page s) s))"
proof -
  have "next_free_page s \<noteq> 0" "\<not> is_live_pt_page s (next_free_page s)"
    "page_tags s (pa_to_pfn (next_free_page s)) = 0"
    using assms by (auto simp: phys_inv_def is_live_pt_page_def layout_simps)
  moreover have "next_free_page s < end_free_page s \<Longrightarrow> pa_valid (next_free_page s)"
    using assms by (auto simp: phys_inv_def pa_valid_def)
  ultimately show ?thesis by (auto simp: alloc_page.simps [of tag s] Let_def)
qed

lemma take_page_inv:
  assumes "phys_inv s" "next_free_page s < end_free_page s"
  shows "phys_inv (take_page tag (next_free_page s) s)"
  using assms by (auto simp: phys_inv_def take_page_def pfn_next)

lemma alloc_page_inv: "phys_inv s \<Longrightarrow> phys_inv (snd (alloc_page tag s))"
  by (simp add: alloc_page_inv_eq take_page_inv)

lemma used_pages_take:
  assumes "phys_inv s"
  shows "used_pages (take_page tag (next_free_page s) s) = insert (next_free_page s) (used_pages s)"
proof -
  let ?n = "next_free_page s"
  have al: "4096 dvd ?n" "RAM_BASE \<le> ?n" using assms by (auto simp: phys_inv_def)
  have gap: "4096 dvd p \<Longrightarrow> p < ?n + 4096 \<longleftrightarrow> p < ?n \<or> p = ?n" for p
    using aligned_unique [of p ?n] al(1) by (metis not_less trans_less_add1 less_add_same_cancel1 zero_less_numeral)
  show ?thesis
  proof (rule set_eqI)
    fix x
    show "x \<in> used_pages (take_page tag ?n s) \<longleftrightarrow> x \<in> insert ?n (used_pages s)"
    proof (cases "4096 dvd x")
      case True
      then show ?thesis using gap [OF True] al by (simp add: used_pages_def take_page_def) blast
    next
      case False
      with al(1) have "x \<noteq> ?n" by blast
      with False show ?thesis by (simp add: used_pages_def take_page_def)
    qed
  qed
qed

lemma set_list_zero: "set (xs[i := 0 :: nat]) \<subseteq> insert 0 (set xs)"
  by (rule set_update_subset_insert)

lemma unregister_pt_page_inv:
  assumes "phys_inv s"
  shows "phys_inv (unregister_pt_page pa s)"
proof -
  have "0 < next_free_page s" using assms by (auto simp: phys_inv_def layout_simps)
  with assms show ?thesis
    by (auto simp: phys_inv_def unregister_pt_page_def split: option.splits
        dest!: set_mp [OF set_list_zero])
qed

lemma unregister_pt_page_frame [simp]:
  "next_free_page (unregister_pt_page pa s) = next_free_page s"
  "end_free_page (unregister_pt_page pa s) = end_free_page s"
  "page_tags (unregister_pt_page pa s) = page_tags s"
  "ram (unregister_pt_page pa s) = ram s"
  by (simp_all add: unregister_pt_page_def split: option.splits)

lemma set_register_scan: "set (register_scan pa xs) \<subseteq> insert pa (set xs)"
  by (induction xs) auto

lemma register_pt_page_inv:
  assumes "phys_inv s" "pa < next_free_page s"
  shows "phys_inv (register_pt_page pa s)"
  using assms set_register_scan [of pa "live_pt_pages s"]
  by (auto simp: phys_inv_def register_pt_page_def)

lemma register_pt_page_frame [simp]:
  "next_free_page (register_pt_page pa s) = next_free_page s"
  "end_free_page (register_pt_page pa s) = end_free_page s"
  "page_tags (register_pt_page pa s) = page_tags s"
  "ram (register_pt_page pa s) = ram s"
  by (simp_all add: register_pt_page_def)

lemma free_page_inv: "phys_inv s \<Longrightarrow> phys_inv (snd (free_page pa s))"
  using unregister_pt_page_inv [of s pa]
  by (auto simp: free_page_def Let_def phys_inv_def)

lemma free_page_frame [simp]:
  "next_free_page (snd (free_page pa s)) = next_free_page s"
  "end_free_page (snd (free_page pa s)) = end_free_page s"
  "ram (snd (free_page pa s)) = ram s"
  by (simp_all add: free_page_def Let_def)

lemma free_page_OkD:
  assumes "free_page pa s = (Ok x, s')"
  shows "pa_valid pa \<and> page_tags s (pa_to_pfn pa) \<noteq> 0
    \<and> page_tags s' = (page_tags s)(pa_to_pfn pa := 0)"
  using assms by (auto simp: free_page_def Let_def split: if_splits)

lemma free_page_below_cursor:
  assumes "phys_inv s" "free_page pa s = (Ok x, s')"
  shows "pa < next_free_page s"
proof (rule ccontr)
  assume "\<not> pa < next_free_page s"
  then have "pa_to_pfn (next_free_page s) \<le> pa_to_pfn pa" by (intro pfn_mono) simp
  with assms(1) free_page_OkD [OF assms(2)] show False by (auto simp: phys_inv_def)
qed

section \<open>Interface\<close>

text \<open>
  What the page tables, the memory objects and the heap rely on: a successful allocation
  returns an aligned, non-null frame that was never handed out before; nothing else about the
  set of frames in use changes, and the allocator never aborts.
\<close>

locale page_allocator =
  fixes alloc :: "'s \<Rightarrow> nat res \<times> 's"
    and used :: "'s \<Rightarrow> nat set"
    and inv :: "'s \<Rightarrow> bool"
  assumes alloc_fresh: "inv s \<Longrightarrow> alloc s = (Ok p, s') \<Longrightarrow>
            p \<notin> used s \<and> used s' = insert p (used s) \<and> 4096 dvd p \<and> p \<noteq> 0"
    and alloc_keeps: "inv s \<Longrightarrow> alloc s = (r, s') \<Longrightarrow> inv s'"
    and alloc_err: "inv s \<Longrightarrow> alloc s = (Err e, s') \<Longrightarrow> s' = s \<and> e = NoMemory"
    and alloc_total: "inv s \<Longrightarrow> fst (alloc s) \<noteq> Panic"
begin

lemma alloc_cases:
  assumes "inv s"
  obtains (ok) p s' where "alloc s = (Ok p, s')" "p \<notin> used s" "used s' = insert p (used s)"
      "4096 dvd p" "p \<noteq> 0" "inv s'"
    | (err) "alloc s = (Err NoMemory, s)"
proof (cases "alloc s")
  case (Pair r s')
  show ?thesis
  proof (cases r)
    case (Ok p)
    with Pair alloc_fresh [OF assms] alloc_keeps [OF assms Pair] show ?thesis
      by (intro ok) auto
  next
    case (Err e)
    with Pair alloc_err [OF assms] show ?thesis by (intro err) auto
  next
    case Panic
    with Pair alloc_total [OF assms] show ?thesis by simp
  qed
qed

lemma two_allocs_differ:
  assumes "inv s" "alloc s = (Ok p, s1)" "alloc s1 = (Ok q, s2)"
  shows "p \<noteq> q"
  using alloc_fresh [OF assms(1,2)] alloc_fresh [OF alloc_keeps [OF assms(1,2)] assms(3)] by auto

end

interpretation frames: page_allocator "alloc_page tag" used_pages phys_inv
proof unfold_locales
  fix s p s'
  assume "phys_inv s" "alloc_page tag s = (Ok p, s')"
  moreover from this have "next_free_page s \<noteq> 0"
    by (auto simp: phys_inv_def layout_simps)
  ultimately show "p \<notin> used_pages s \<and> used_pages s' = insert p (used_pages s) \<and> 4096 dvd p \<and> p \<noteq> 0"
    using used_pages_take [of s tag]
    by (auto simp: alloc_page_inv_eq phys_inv_def used_pages_def split: if_splits)
next
  fix s r s'
  assume "phys_inv s" "alloc_page tag s = (r, s')"
  then show "phys_inv s'" using alloc_page_inv [of s tag] by simp
next
  fix s e s'
  assume "phys_inv s" "alloc_page tag s = (Err e, s')"
  then show "s' = s \<and> e = NoMemory" by (auto simp: alloc_page_inv_eq split: if_splits)
next
  fix s
  assume "phys_inv s"
  then show "fst (alloc_page tag s) \<noteq> Panic" by (auto simp: alloc_page_inv_eq)
qed

section \<open>Runs of the allocator\<close>

datatype phys_op = OpAlloc page_tag | OpFree nat

text \<open>The frames a sequence of operations returns, and the state unless an operation aborts.\<close>

fun phys_run :: "phys_op list \<Rightarrow> phys \<Rightarrow> nat list \<times> phys option" where
  "phys_run [] s = ([], Some s)"
| "phys_run (OpAlloc t # ops) s =
     (case alloc_page t s of
        (Ok p, s') \<Rightarrow> (let (ps, r) = phys_run ops s' in (p # ps, r))
      | (Err e, s') \<Rightarrow> phys_run ops s'
      | (Panic, s') \<Rightarrow> ([], None))"
| "phys_run (OpFree pa # ops) s =
     (case free_page pa s of
        (Panic, s') \<Rightarrow> ([], None)
      | (_, s') \<Rightarrow> phys_run ops s')"

lemma phys_run_increasing:
  assumes "phys_inv s" "phys_run ops s = (ps, r)"
  shows "sorted_wrt (<) ps \<and> (\<forall>p\<in>set ps. next_free_page s \<le> p \<and> p < end_free_page s \<and> 4096 dvd p)"
  using assms
proof (induction ops s arbitrary: ps r rule: phys_run.induct)
  case (1 s)
  then show ?case by simp
next
  case (2 t ops s)
  show ?case
  proof (cases "end_free_page s \<le> next_free_page s")
    case True
    with 2 show ?thesis by (simp add: alloc_page_inv_eq)
  next
    case False
    let ?s = "take_page t (next_free_page s) s"
    have a: "alloc_page t s = (Ok (next_free_page s), ?s)"
      using False 2(3) by (simp add: alloc_page_inv_eq)
    obtain qs q where r: "phys_run ops ?s = (qs, q)" by (cases "phys_run ops ?s")
    have "phys_inv ?s" using 2(3) False by (simp add: take_page_inv)
    with 2(1) [OF a [symmetric] refl _ r] have
      "sorted_wrt (<) qs" "\<forall>p\<in>set qs. next_free_page s + 4096 \<le> p \<and> p < end_free_page s \<and> 4096 dvd p"
      by (auto simp: take_page_def)
    moreover have "ps = next_free_page s # qs" using 2(4) a r by simp
    ultimately show ?thesis using False 2(3) by (auto simp: phys_inv_def)
  qed
next
  case (3 pa ops s)
  obtain x s' where f: "free_page pa s = (x, s')" by (cases "free_page pa s")
  have i: "phys_inv s'" using free_page_inv [OF 3(3), of pa] f by simp
  have n: "next_free_page s' = next_free_page s" "end_free_page s' = end_free_page s"
    using free_page_frame(1,2) [of pa s] f by simp_all
  show ?case
    using 3 f i n by (cases x) auto
qed

lemma phys_run_inv:
  assumes "phys_inv s" "phys_run ops s = (ps, Some s')"
  shows "phys_inv s' \<and> next_free_page s \<le> next_free_page s'"
  using assms
proof (induction ops s arbitrary: ps rule: phys_run.induct)
  case (1 s)
  then show ?case by simp
next
  case (2 t ops s)
  show ?case
  proof (cases "end_free_page s \<le> next_free_page s")
    case True
    with 2 show ?thesis by (simp add: alloc_page_inv_eq)
  next
    case False
    let ?s = "take_page t (next_free_page s) s"
    have a: "alloc_page t s = (Ok (next_free_page s), ?s)"
      using False 2(3) by (simp add: alloc_page_inv_eq)
    obtain qs q where r: "phys_run ops ?s = (qs, q)" by (cases "phys_run ops ?s")
    have "phys_inv ?s" using 2(3) False by (simp add: take_page_inv)
    moreover have "q = Some s'" using 2(4) a r by simp
    ultimately have "phys_inv s' \<and> next_free_page ?s \<le> next_free_page s'"
      using 2(1) [OF a [symmetric] refl] r by simp
    then show ?thesis by (simp add: take_page_def)
  qed
next
  case (3 pa ops s)
  obtain x s1 where f: "free_page pa s = (x, s1)" by (cases "free_page pa s")
  have i: "phys_inv s1" using free_page_inv [OF 3(3), of pa] f by simp
  have n: "next_free_page s1 = next_free_page s"
    using free_page_frame(1) [of pa s] f by simp
  show ?case
    using 3 f i n by (cases x) auto
qed

text \<open>A frame below the cursor whose tag is \<open>Free\<close> stays that way: it is never handed out again.\<close>

lemma phys_run_free_stays:
  assumes "phys_inv s" "RAM_BASE \<le> pa" "pa < next_free_page s" "page_tags s (pa_to_pfn pa) = 0"
    and "phys_run ops s = (ps, Some s')"
  shows "page_tags s' (pa_to_pfn pa) = 0"
  using assms
proof (induction ops s arbitrary: ps rule: phys_run.induct)
  case (1 s)
  then show ?case by simp
next
  case (2 t ops s)
  show ?case
  proof (cases "end_free_page s \<le> next_free_page s")
    case True
    with 2 show ?thesis by (simp add: alloc_page_inv_eq)
  next
    case False
    let ?s = "take_page t (next_free_page s) s"
    have a: "alloc_page t s = (Ok (next_free_page s), ?s)"
      using False 2(3) by (simp add: alloc_page_inv_eq)
    obtain qs q where r: "phys_run ops ?s = (qs, q)" by (cases "phys_run ops ?s")
    have "pa_to_pfn pa < pa_to_pfn (next_free_page s)"
      using 2(3-5) by (intro pfn_less) (simp_all add: phys_inv_def)
    then have tag: "page_tags ?s (pa_to_pfn pa) = 0"
      using 2(6) by (simp add: take_page_def)
    have i: "phys_inv ?s" using 2(3) False by (simp add: take_page_inv)
    have "q = Some s'" using 2(7) a r by simp
    with 2(1) [OF a [symmetric] refl i 2(4) _ tag] r 2(5) show ?thesis
      by (simp add: take_page_def)
  qed
next
  case (3 p ops s)
  obtain x s1 where f: "free_page p s = (x, s1)" by (cases "free_page p s")
  have i: "phys_inv s1" using free_page_inv [OF 3(3), of p] f by simp
  have n: "next_free_page s1 = next_free_page s"
    using free_page_frame(1) [of p s] f by simp
  show ?case
  proof (cases x)
    case (Ok y)
    with f free_page_OkD [of p s y s1] 3(6) have "page_tags s1 (pa_to_pfn pa) = 0" by simp
    with 3 f i n Ok show ?thesis by simp
  next
    case (Err e)
    with f show ?thesis by (auto simp: free_page_def Let_def split: if_splits)
  next
    case Panic
    with 3 f show ?thesis by simp
  qed
qed

section \<open>Initialisation lemmas\<close>

lemma init_scan_end:
  assumes "cur \<le> ram_end" "init_scan cur ram_end res nxt free tot = (n, f, t, c)"
  shows "c \<le> ram_end \<and> ram_end < c + 4096 \<and> (4096 dvd cur \<longrightarrow> 4096 dvd c)"
  using assms
proof (induction cur ram_end res nxt free tot rule: init_scan.induct)
  case (1 cur ram_end res nxt free tot)
  show ?case
    using 1 by (cases "cur + 4096 \<le> ram_end"; cases "res cur")
      (simp_all add: init_scan.simps [of cur ram_end res nxt free tot])
qed

lemma init_scan_keeps_next:
  "init_scan cur ram_end res (Some p) free tot = (n, f, t, c) \<Longrightarrow> n = Some p"
proof (induction cur ram_end res "Some p" free tot rule: init_scan.induct)
  case (1 cur ram_end res free tot)
  then show ?case
    by (cases "cur + 4096 \<le> ram_end"; cases "res cur")
      (simp_all add: init_scan.simps [of cur ram_end res "Some p" free tot])
qed

lemma init_scan_first:
  assumes "cur + 4096 \<le> ram_end" "\<not> res cur"
    and "init_scan cur ram_end res None free tot = (n, f, t, c)"
  shows "n = Some cur"
  using assms init_scan_keeps_next [of "cur + 4096" ram_end res cur]
  by (simp add: init_scan.simps [of cur ram_end res None free tot])

lemma align_down_dvd [simp]: "4096 dvd align_down n"
  by (simp add: align_down_def)

lemma align_up_ge: "n \<le> align_up n"
proof -
  have "n + 4095 = 4096 * ((n + 4095) div 4096) + (n + 4095) mod 4096" by simp
  moreover have "(n + 4095) mod 4096 \<le> 4095" by simp
  ultimately show ?thesis by (simp add: align_up_def align_down_def)
qed

lemma align_down_le: "align_down n \<le> n"
  by (simp add: align_down_def)

lemma align_up_dvd [simp]: "4096 dvd align_up n"
  by (simp add: align_up_def)

text \<open>The state after boot when the kernel image ends inside RAM and is followed by a free frame.\<close>

lemma phys_init_boot:
  assumes "RAM_BASE \<le> align_up kernel_end"
    and "align_up kernel_end + 4096 \<le> ram_base + ram_size"
    and "ram_base + ram_size \<le> RAM_BASE + RAM_SIZE"
    and "dtb_addr = 0 \<or> align_up kernel_end < align_down dtb_addr"
  shows "let s = phys_init ram_base ram_size kernel_end dtb_addr dtb_size phys_boot in
    phys_inv s \<and> next_free_page s = align_up kernel_end
    \<and> end_free_page s \<le> ram_base + ram_size \<and> ram_base + ram_size < end_free_page s + 4096
    \<and> 4096 dvd end_free_page s"
proof -
  let ?k = "align_up kernel_end" and ?e = "ram_base + ram_size"
  let ?ds = "if dtb_addr \<noteq> 0 then align_down dtb_addr else 0"
  let ?de = "if dtb_addr \<noteq> 0 then align_up (dtb_addr + dtb_size) else 0"
  let ?res = "\<lambda>p. is_page_reserved p ?k ?ds ?de"
  obtain n f t c where r: "init_scan ?k ?e ?res None 0 0 = (n, f, t, c)"
    by (metis prod_cases4)
  have free: "\<not> ?res ?k" using assms(4) by (auto simp: is_page_reserved_def)
  have n: "n = Some ?k" by (rule init_scan_first [OF assms(2) free r])
  have c: "c \<le> ?e" "?e < c + 4096" "4096 dvd c"
    using init_scan_end [OF _ r] assms(2) by auto
  have live: "\<forall>p\<in>set (live_pt_pages phys_boot). p < ?k"
    using assms(1) by (simp add: phys_boot_def layout_simps)
  show ?thesis
    using n c assms(1,3) live r
    by (simp add: phys_init_def Let_def phys_inv_def phys_boot_def)
qed

text \<open>With room left, a run of allocations returns the next frames in address order.\<close>

lemma phys_run_allocs:
  assumes "phys_inv s" "next_free_page s + 4096 * n \<le> end_free_page s"
  shows "fst (phys_run (replicate n (OpAlloc t)) s) = map (\<lambda>i. next_free_page s + 4096 * i) [0..<n]"
  using assms
proof (induction n arbitrary: s)
  case 0
  then show ?case by simp
next
  case (Suc n)
  let ?s = "take_page t (next_free_page s) s"
  have a: "alloc_page t s = (Ok (next_free_page s), ?s)"
    using Suc.prems by (simp add: alloc_page_inv_eq)
  have i: "phys_inv ?s" using Suc.prems by (simp add: take_page_inv)
  have e: "next_free_page ?s = next_free_page s + 4096" "end_free_page ?s = end_free_page s"
    by (simp_all add: take_page_def)
  have "fst (phys_run (replicate n (OpAlloc t)) ?s) = map (\<lambda>i. next_free_page s + 4096 + 4096 * i) [0..<n]"
    using Suc.IH [OF i] e Suc.prems(2) by simp
  then have "fst (phys_run (replicate (Suc n) (OpAlloc t)) s)
    = next_free_page s # map (\<lambda>i. next_free_page s + 4096 + 4096 * i) [0..<n]"
    using a by (simp add: split_beta)
  also have "\<dots> = map (\<lambda>i. next_free_page s + 4096 * i) [0..<Suc n]"
    by (simp add: upt_conv_Cons map_Suc_upt [symmetric] comp_def del: upt_Suc)
  finally show ?case .
qed

section \<open>Properties\<close>

text \<open>
  C16. Physical frames are never handed out twice: over any sequence of allocations and
  releases that starts in a state satisfying the allocator's invariant (as after boot), the
  frames returned are strictly increasing, hence pairwise distinct, page aligned, inside the
  managed range, and outside everything handed out before the run; each allocated frame is
  zero-filled, and no allocation aborts.
\<close>

theorem alloc_never_reuses:
  assumes "phys_inv s" "phys_run ops s = (ps, r)"
  shows "distinct ps
    \<and> (\<forall>p\<in>set ps. 4096 dvd p \<and> pa_valid p \<and> p < end_free_page s \<and> p \<notin> used_pages s)
    \<and> fst (alloc_page t s) \<noteq> Panic
    \<and> (\<forall>p s'. alloc_page t s = (Ok p, s') \<longrightarrow> (\<forall>a. p \<le> a \<and> a < p + 4096 \<longrightarrow> ram s' a = 0))"
proof -
  note run = phys_run_increasing [OF assms]
  have "distinct ps" using run strict_sorted_iff by blast
  moreover have "\<forall>p\<in>set ps. 4096 dvd p \<and> pa_valid p \<and> p < end_free_page s \<and> p \<notin> used_pages s"
    using run assms(1) by (auto simp: pa_valid_def phys_inv_def used_pages_def)
  moreover have "fst (alloc_page t s) \<noteq> Panic" by (rule frames.alloc_total [OF assms(1)])
  moreover have "\<forall>p s'. alloc_page t s = (Ok p, s') \<longrightarrow> (\<forall>a. p \<le> a \<and> a < p + 4096 \<longrightarrow> ram s' a = 0)"
    using assms(1) by (auto simp: alloc_page_inv_eq take_page_def zero_page_def split: if_splits)
  ultimately show ?thesis by blast
qed

definition demo_phys :: phys where
  "demo_phys = phys_boot\<lparr>next_free_page := 0x40080000, end_free_page := 0x40090000\<rparr>"

lemma demo_phys_inv: "phys_inv demo_phys"
  by (simp add: demo_phys_def phys_boot_def phys_inv_def layout_simps)

lemma demo_alloc: "alloc_page t demo_phys = (Ok 0x40080000, take_page t 0x40080000 demo_phys)"
  using alloc_page_inv_eq [OF demo_phys_inv] by (simp add: demo_phys_def)

theorem alloc_never_reuses_witness:
  "phys_inv demo_phys
   \<and> fst (phys_run [OpAlloc TagVmoData, OpAlloc TagPageTable] demo_phys) = [0x40080000, 0x40081000]
   \<and> distinct (fst (phys_run [OpAlloc TagVmoData, OpAlloc TagPageTable] demo_phys))
   \<and> fst (alloc_page TagVmoData demo_phys) \<noteq> Panic"
proof -
  let ?ops = "[OpAlloc TagVmoData, OpAlloc TagPageTable]"
  let ?s1 = "take_page TagVmoData 0x40080000 demo_phys"
  have i1: "phys_inv ?s1"
    using take_page_inv [OF demo_phys_inv, of TagVmoData] by (simp add: demo_phys_def)
  have "alloc_page TagPageTable ?s1 = (Ok 0x40081000, take_page TagPageTable 0x40081000 ?s1)"
    using alloc_page_inv_eq [OF i1, of TagPageTable] by (simp add: take_page_def demo_phys_def)
  then have v: "fst (phys_run ?ops demo_phys) = [0x40080000, 0x40081000]"
    by (simp add: demo_alloc)
  show ?thesis
    using alloc_never_reuses [OF demo_phys_inv, of ?ops "fst (phys_run ?ops demo_phys)"
        "snd (phys_run ?ops demo_phys)" TagVmoData] demo_phys_inv v
    by simp
qed

text \<open>
  A double release always aborts the kernel: once a frame has been released, releasing it
  again is a panic whatever allocations and releases happened in between, because the cursor
  never returns to a frame and its tag stays \<open>Free\<close>.
\<close>

theorem double_free_panics:
  assumes "phys_inv s" "free_page pa s = (Ok x, s1)" "phys_run ops s1 = (ps, Some s2)"
  shows "fst (free_page pa s2) = Panic"
proof -
  have below: "pa < next_free_page s" by (rule free_page_below_cursor [OF assms(1,2)])
  have i1: "phys_inv s1" using free_page_inv [OF assms(1), of pa] assms(2) by simp
  have n1: "next_free_page s1 = next_free_page s"
    using free_page_frame(1) [of pa s] assms(2) by simp
  have f: "pa_valid pa" "page_tags s1 (pa_to_pfn pa) = 0"
    using free_page_OkD [OF assms(2)] by simp_all
  have "page_tags s2 (pa_to_pfn pa) = 0"
    using phys_run_free_stays [OF i1 _ _ f(2) assms(3)] below n1 f(1) by (simp add: pa_valid_def)
  then show ?thesis using f(1) by (simp add: free_page_def)
qed

theorem double_free_panics_witness:
  "fst (free_page 0x40080000 (snd (alloc_page TagVmoData demo_phys))) = Ok StatusOk
   \<and> fst (free_page 0x40080000 (snd (free_page 0x40080000 (snd (alloc_page TagVmoData demo_phys))))) = Panic"
proof -
  let ?s = "snd (alloc_page TagVmoData demo_phys)"
  have i: "phys_inv ?s" by (rule alloc_page_inv [OF demo_phys_inv])
  have f: "fst (free_page 0x40080000 ?s) = Ok StatusOk"
    by (simp add: demo_alloc free_page_def take_page_def pa_valid_def layout_simps Let_def)
  have "free_page 0x40080000 ?s = (Ok StatusOk, snd (free_page 0x40080000 ?s))"
    using f by (metis prod.collapse)
  from double_free_panics [OF i this, of "[]" "[]"] f show ?thesis by simp
qed

text \<open>
  The device tree is not protected: \<open>init\<close> counts the frames of the device-tree blob as
  reserved, but the allocator only consults the tag bytes, which \<open>init\<close> leaves \<open>Free\<close>.
  When the blob lies behind the first free frame, the cursor walks into it and its first frame
  is handed out after exactly the allocations that fill the gap.
\<close>

theorem device_tree_frame_is_allocated:
  assumes "RAM_BASE \<le> align_up kernel_end" "dtb_addr \<noteq> 0" "0 < dtb_size"
    and "align_up kernel_end < align_down dtb_addr"
    and "align_down dtb_addr + 4096 \<le> ram_base + ram_size"
    and "4096 dvd ram_base + ram_size" "ram_base + ram_size \<le> RAM_BASE + RAM_SIZE"
  shows "is_page_reserved (align_down dtb_addr) (align_up kernel_end) (align_down dtb_addr)
           (align_up (dtb_addr + dtb_size))
    \<and> align_down dtb_addr \<in> set (fst (phys_run
        (replicate (Suc ((align_down dtb_addr - align_up kernel_end) div 4096)) (OpAlloc t))
        (phys_init ram_base ram_size kernel_end dtb_addr dtb_size phys_boot)))"
proof -
  let ?s = "phys_init ram_base ram_size kernel_end dtb_addr dtb_size phys_boot"
  let ?k = "align_up kernel_end" and ?d = "align_down dtb_addr"
  let ?n = "(?d - ?k) div 4096"
  have k: "?k + 4096 \<le> ram_base + ram_size" using assms(4,5) by linarith
  have s: "phys_inv ?s" "next_free_page ?s = ?k"
      "end_free_page ?s \<le> ram_base + ram_size" "ram_base + ram_size < end_free_page ?s + 4096"
      "4096 dvd end_free_page ?s"
    using phys_init_boot [OF assms(1) k assms(7)] assms(4) by (simp_all add: Let_def)
  have n: "?k + 4096 * ?n = ?d"
    using assms(4) by (simp add: dvd_diff_nat)
  have "end_free_page ?s = ram_base + ram_size"
    using aligned_unique [OF assms(6) s(5) s(3,4)] by simp
  with assms(5) have room: "?d + 4096 \<le> end_free_page ?s" by simp
  have "fst (phys_run (replicate (Suc ?n) (OpAlloc t)) ?s) = map (\<lambda>i. ?k + 4096 * i) [0..<Suc ?n]"
    using phys_run_allocs [OF s(1), of "Suc ?n"] s(2) n room by simp
  then have "?d \<in> set (fst (phys_run (replicate (Suc ?n) (OpAlloc t)) ?s))"
    using n by (auto simp: image_iff intro!: bexI [of _ ?n])
  moreover have "is_page_reserved ?d ?k ?d (align_up (dtb_addr + dtb_size))"
    using assms(3,4) align_up_ge [of "dtb_addr + dtb_size"] align_down_le [of dtb_addr]
    by (simp add: is_page_reserved_def)
  ultimately show ?thesis by simp
qed

theorem device_tree_frame_is_allocated_witness:
  "0x40082000 \<in> set (fst (phys_run (replicate 3 (OpAlloc TagVmoData))
     (phys_init 0x40000000 0x90000 0x40080000 0x40082000 64 phys_boot)))"
proof -
  have a: "align_up 0x40080000 = 0x40080000" "align_down 0x40082000 = 0x40082000"
    by (simp_all add: align_up_def align_down_def)
  have n: "Suc ((0x40082000 - 0x40080000) div 4096) = (3::nat)" by simp
  show ?thesis
    using device_tree_frame_is_allocated [where kernel_end = "0x40080000" and dtb_addr = "0x40082000"
        and dtb_size = 64 and ram_base = "0x40000000" and ram_size = "0x90000" and t = TagVmoData,
        unfolded a n]
    by (simp add: layout_simps)
qed

end
