(* ===== verification/Vmo.thy ===== *)
theory Vmo
  imports Phys_Alloc
begin

text \<open>
  Virtual memory objects, \<open>kernel/src/memory/vmo.rs\<close>, and the page owner of
  \<open>kernel/src/memory/phys.rs\<close>. A VMO keeps its page slots in metadata frames: a header, 249
  slots per frame, and at the end of the first frame a table with the addresses of the other
  frames. The world \<open>kmem\<close> holds the frame allocator together with typed views of the
  metadata frames: header cells, \<open>Option<PhysAddr>\<close> slot cells and table cells, each
  addressed by physical address (the kernel's direct map is linear, so \<open>pa_to_kernel_va\<close>
  only renames addresses). A fresh metadata frame is zero-filled, and all-zero bytes are the
  empty slot. Data bytes live in the allocator's \<open>ram\<close>.

  Ownership is explicit: dropping a \<open>PhysPage\<close> releases its frame, so every early return
  and every dropped VMO runs \<open>free_page\<close>.
\<close>

section \<open>Layout\<close>

definition VMO_MAGIC :: u64 where "VMO_MAGIC = 0x564D4F4D41474341"
definition VMO_VERSION :: u64 where "VMO_VERSION = 1"
definition VMO_MAX_PAGES :: nat where [layout_simps]: "VMO_MAX_PAGES = 2048"
definition PA_TABLE_SIZE :: nat where [layout_simps]: "PA_TABLE_SIZE = 64"
definition PA_TABLE_BASE :: nat where [layout_simps]: "PA_TABLE_BASE = PAGE_SIZE - PA_TABLE_SIZE"

record vmo_header =
  h_magic :: u64
  h_version :: u64
  h_capacity_pages :: nat
  h_committed :: nat
  h_size_bytes :: nat
  h_meta_page_count :: nat

record vmo =
  vmo_id :: u64
  vmo_meta_page :: nat
  vmo_size :: nat
  vmo_is_cow :: bool
  vmo_parent_id :: "u64 option"
  vmo_extra_meta_pages :: "nat option list"
  vmo_committed_pages :: "nat option list"

definition header_size :: nat where [layout_simps]: "header_size = 48"
definition slot_size :: nat where [layout_simps]: "slot_size = 16"
definition slots_per_page :: nat where
  [layout_simps]: "slots_per_page = (PA_TABLE_BASE - header_size) div slot_size"

definition meta_pages_needed :: "nat \<Rightarrow> nat" where
  "meta_pages_needed page_count = (page_count + slots_per_page - 1) div slots_per_page"

record kmem =
  km_phys :: phys
  km_hdr :: "nat \<Rightarrow> vmo_header"
  km_slot :: "nat \<Rightarrow> nat option"
  km_pat :: "nat \<Rightarrow> nat"
  km_vmo_id :: u64

section \<open>Page ownership\<close>

text \<open>\<open>impl Drop for PhysPage\<close>; a list of owners is dropped front to back.\<close>

definition drop_phys_page :: "nat \<Rightarrow> phys \<Rightarrow> unit res \<times> phys" where
  "drop_phys_page pa s =
     (if pa = 0 then (Ok (), s)
      else case free_page pa s of
             (Panic, s') \<Rightarrow> (Panic, s')
           | (_, s') \<Rightarrow> (Ok (), s'))"

fun drop_phys_pages :: "nat list \<Rightarrow> phys \<Rightarrow> unit res \<times> phys" where
  "drop_phys_pages [] s = (Ok (), s)"
| "drop_phys_pages (pa # pas) s =
     (case drop_phys_page pa s of
        (Ok _, s') \<Rightarrow> drop_phys_pages pas s'
      | (r, s') \<Rightarrow> (r, s'))"

text \<open>Dropping a VMO drops its fields in declaration order.\<close>

definition vmo_owned :: "vmo \<Rightarrow> nat list" where
  "vmo_owned v = vmo_meta_page v # live_slots (vmo_extra_meta_pages v) @ live_slots (vmo_committed_pages v)"

definition vmo_drop :: "vmo \<Rightarrow> kmem \<Rightarrow> unit res \<times> kmem" where
  "vmo_drop v w = (let (r, p) = drop_phys_pages (vmo_owned v) (km_phys w) in (r, w\<lparr>km_phys := p\<rparr>))"

section \<open>Slots\<close>

definition slot_ptr :: "kmem \<Rightarrow> nat \<Rightarrow> nat \<Rightarrow> nat" where
  "slot_ptr w meta_pa page_idx =
     (let meta_idx = page_idx div slots_per_page;
          slot_off = page_idx mod slots_per_page;
          pa = (if meta_idx = 0 then meta_pa
                else km_pat w (meta_pa + PA_TABLE_BASE + (meta_idx - 1) * 8))
      in pa + header_size + slot_off * slot_size)"

definition page_slot :: "kmem \<Rightarrow> vmo \<Rightarrow> nat \<Rightarrow> nat" where
  "page_slot w v page_idx = slot_ptr w (vmo_meta_page v) page_idx"

definition slot_get :: "kmem \<Rightarrow> vmo \<Rightarrow> nat \<Rightarrow> nat option" where
  "slot_get w v page_idx = km_slot w (page_slot w v page_idx)"

definition slot_set :: "vmo \<Rightarrow> nat \<Rightarrow> nat option \<Rightarrow> kmem \<Rightarrow> kmem" where
  "slot_set v page_idx p w = w\<lparr>km_slot := (km_slot w)(page_slot w v page_idx := p)\<rparr>"

definition page_count :: "vmo \<Rightarrow> nat" where
  "page_count v = vmo_size v div PAGE_SIZE"

definition get_page_phys :: "kmem \<Rightarrow> vmo \<Rightarrow> nat \<Rightarrow> nat option" where
  "get_page_phys w v offset = (if vmo_size v \<le> offset then None else slot_get w v (offset div PAGE_SIZE))"

section \<open>Creation\<close>

definition alloc_meta :: "kmem \<Rightarrow> nat res \<times> kmem" where
  "alloc_meta w =
     (case alloc_vmo_meta (km_phys w) of
        (Ok pa, p) \<Rightarrow>
          (Ok pa, w\<lparr>km_phys := p,
             km_slot := (\<lambda>a. if pa \<le> a \<and> a < pa + 4096 then None else km_slot w a),
             km_pat := (\<lambda>a. if pa \<le> a \<and> a < pa + 4096 then 0 else km_pat w a)\<rparr>)
      | (Err e, p) \<Rightarrow> (Err e, w\<lparr>km_phys := p\<rparr>)
      | (Panic, p) \<Rightarrow> (Panic, w\<lparr>km_phys := p\<rparr>))"

text \<open>
  \<open>for i in 1..mpn\<close>: allocate a further metadata frame, record it in the table at the end of
  the first frame and in the RAII array. The array built so far is returned with the outcome,
  for the early return has to drop it.
\<close>

fun alloc_extra :: "nat \<Rightarrow> nat \<Rightarrow> nat \<Rightarrow> nat option list \<Rightarrow> kmem \<Rightarrow> unit res \<times> nat option list \<times> kmem" where
  "alloc_extra 0 i meta_pa extra w = (Ok (), extra, w)"
| "alloc_extra (Suc n) i meta_pa extra w =
     (case alloc_meta w of
        (Ok pa, w1) \<Rightarrow>
          alloc_extra n (Suc i) meta_pa (extra[i - 1 := Some pa])
            (w1\<lparr>km_pat := (km_pat w1)(meta_pa + PA_TABLE_BASE + (i - 1) * 8 := pa)\<rparr>)
      | (Err e, w1) \<Rightarrow> (Err e, extra, w1)
      | (Panic, w1) \<Rightarrow> (Panic, extra, w1))"

definition pages_for :: "usize \<Rightarrow> nat" where
  "pages_for sz = unat ((sz + 4095) div 4096)"

text \<open>
  The part \<open>create_physical\<close> and \<open>create_with_size\<close> have in common: checks, header, further
  metadata frames, and the release of everything acquired when a further frame is refused.
\<close>

definition create_meta :: "usize \<Rightarrow> nat \<Rightarrow> kmem \<Rightarrow> (nat \<times> nat option list) res \<times> kmem" where
  "create_meta sz committed w =
     (let pages = pages_for sz; mpn = meta_pages_needed pages in
      case alloc_meta w of
        (Ok meta_pa, w1) \<Rightarrow>
          (let hdr = \<lparr>h_magic = VMO_MAGIC, h_version = VMO_VERSION, h_capacity_pages = pages,
                      h_committed = committed, h_size_bytes = pages * PAGE_SIZE,
                      h_meta_page_count = mpn\<rparr>;
               w2 = w1\<lparr>km_hdr := (km_hdr w1)(meta_pa := hdr)\<rparr>;
               (r, extra, w3) = alloc_extra (mpn - 1) 1 meta_pa (replicate 8 None) w2
           in case r of
                Ok _ \<Rightarrow> (Ok (meta_pa, extra), w3)
              | Err e \<Rightarrow>
                  (let (d, p) = drop_phys_pages (live_slots extra @ [meta_pa]) (km_phys w3) in
                   (case d of Panic \<Rightarrow> Panic | _ \<Rightarrow> Err e, w3\<lparr>km_phys := p\<rparr>))
              | Panic \<Rightarrow> (Panic, w3))
      | (Err e, w1) \<Rightarrow> (Err e, w1)
      | (Panic, w1) \<Rightarrow> (Panic, w1))"

definition next_vmo_id :: "kmem \<Rightarrow> u64 \<times> kmem" where
  "next_vmo_id w = (km_vmo_id w, w\<lparr>km_vmo_id := km_vmo_id w + 1\<rparr>)"

definition create_with_size :: "usize \<Rightarrow> kmem \<Rightarrow> vmo res \<times> kmem" where
  "create_with_size sz w =
     (if sz = 0 then (Err InvalidArgs, w)
      else if VMO_MAX_PAGES < pages_for sz then (Err InvalidArgs, w)
      else case create_meta sz 0 w of
        (Ok (meta_pa, extra), w1) \<Rightarrow>
          (let (vid, w2) = next_vmo_id w1 in
           (Ok \<lparr>vmo_id = vid, vmo_meta_page = meta_pa, vmo_size = pages_for sz * PAGE_SIZE,
                vmo_is_cow = False, vmo_parent_id = None, vmo_extra_meta_pages = extra,
                vmo_committed_pages = replicate (pages_for sz) None\<rparr>, w2))
      | (Err e, w1) \<Rightarrow> (Err e, w1)
      | (Panic, w1) \<Rightarrow> (Panic, w1))"

fun fill_slots :: "nat \<Rightarrow> (nat \<Rightarrow> nat option) \<Rightarrow> vmo \<Rightarrow> kmem \<Rightarrow> kmem" where
  "fill_slots 0 f v w = w"
| "fill_slots (Suc n) f v w =
     (let w1 = fill_slots n f v w in
      case f n of None \<Rightarrow> w1 | Some pa \<Rightarrow> slot_set v n (Some pa) w1)"

definition create_physical :: "nat \<Rightarrow> usize \<Rightarrow> kmem \<Rightarrow> vmo res \<times> kmem" where
  "create_physical phys_addr sz w =
     (if sz = 0 then (Err InvalidArgs, w)
      else if VMO_MAX_PAGES < pages_for sz then (Err InvalidArgs, w)
      else case create_meta sz (pages_for sz) w of
        (Ok (meta_pa, extra), w1) \<Rightarrow>
          (let v = \<lparr>vmo_id = km_vmo_id w1, vmo_meta_page = meta_pa, vmo_size = pages_for sz * PAGE_SIZE,
                vmo_is_cow = False, vmo_parent_id = None, vmo_extra_meta_pages = extra,
                vmo_committed_pages = []\<rparr>;
               w2 = fill_slots (pages_for sz) (\<lambda>i. Some (phys_addr + i * PAGE_SIZE)) v w1
           in (Ok v, snd (next_vmo_id w2)))
      | (Err e, w1) \<Rightarrow> (Err e, w1)
      | (Panic, w1) \<Rightarrow> (Panic, w1))"

section \<open>Committing pages\<close>

definition commit_page :: "nat \<Rightarrow> vmo \<Rightarrow> kmem \<Rightarrow> (nat option) res \<times> vmo \<times> kmem" where
  "commit_page offset v w =
     (if vmo_size v \<le> offset then (Err InvalidArgs, v, w)
      else let page_idx = offset div PAGE_SIZE in
        if vmo_committed_pages v = [] then (Err NotAllowed, v, w)
        else if length (vmo_committed_pages v) \<le> page_idx then (Panic, v, w)
        else if vmo_committed_pages v ! page_idx \<noteq> None then (Ok None, v, w)
        else case alloc_vmo_data (km_phys w) of
          (Ok pa, p) \<Rightarrow>
            (let w1 = slot_set v page_idx (Some pa) (w\<lparr>km_phys := p\<rparr>);
                 h = km_hdr w1 (vmo_meta_page v);
                 w2 = w1\<lparr>km_hdr := (km_hdr w1)(vmo_meta_page v := h\<lparr>h_committed := h_committed h + 1\<rparr>)\<rparr>
             in (Ok (Some pa),
                 v\<lparr>vmo_committed_pages := (vmo_committed_pages v)[page_idx := Some pa]\<rparr>, w2))
        | (Err e, p) \<Rightarrow> (Err e, v, w\<lparr>km_phys := p\<rparr>)
        | (Panic, p) \<Rightarrow> (Panic, v, w\<lparr>km_phys := p\<rparr>))"

fun commit_loop :: "nat \<Rightarrow> nat \<Rightarrow> vmo \<Rightarrow> kmem \<Rightarrow> unit res \<times> vmo \<times> kmem" where
  "commit_loop 0 i v w = (Ok (), v, w)"
| "commit_loop (Suc n) i v w =
     (case commit_page (i * PAGE_SIZE) v w of
        (Ok _, v1, w1) \<Rightarrow> commit_loop n (Suc i) v1 w1
      | (Err e, v1, w1) \<Rightarrow> (Err e, v1, w1)
      | (Panic, v1, w1) \<Rightarrow> (Panic, v1, w1))"

definition commit_all :: "vmo \<Rightarrow> kmem \<Rightarrow> unit res \<times> vmo \<times> kmem" where
  "commit_all v w = commit_loop (vmo_size v div PAGE_SIZE) 0 v w"

section \<open>Reading and writing\<close>

definition copy_in :: "nat \<Rightarrow> u8 list \<Rightarrow> (nat \<Rightarrow> u8) \<Rightarrow> nat \<Rightarrow> u8" where
  "copy_in dst bs m = (\<lambda>a. if dst \<le> a \<and> a < dst + length bs then bs ! (a - dst) else m a)"

definition copy_out :: "nat \<Rightarrow> nat \<Rightarrow> (nat \<Rightarrow> u8) \<Rightarrow> u8 list" where
  "copy_out src n m = map (\<lambda>i. m (src + i)) [0..<n]"

text \<open>The chunk of one loop iteration: up to the end of the page, the buffer and the object.\<close>

definition chunk_len :: "nat \<Rightarrow> nat \<Rightarrow> nat \<Rightarrow> nat" where
  "chunk_len sz cur left =
     (let available = PAGE_SIZE - cur mod PAGE_SIZE;
          want = min available left;
          end' = min (cur + want) sz
      in end' - cur)"

lemma chunk_len_pos: "cur < sz \<Longrightarrow> 0 < left \<Longrightarrow> 0 < chunk_len sz cur left"
  by (simp add: chunk_len_def Let_def PAGE_SIZE_def)

lemma chunk_len_le: "chunk_len sz cur left \<le> left"
  by (auto simp: chunk_len_def Let_def)

text \<open>\<open>read\<close> fills a buffer of \<open>left\<close> bytes; the bytes it stores are the result.\<close>

function vmo_read_loop :: "kmem \<Rightarrow> vmo \<Rightarrow> nat \<Rightarrow> nat \<Rightarrow> u8 list" where
  "vmo_read_loop w v cur left =
     (if 0 < left \<and> cur < vmo_size v then
        (let real = chunk_len (vmo_size v) cur left;
             bs = (case slot_get w v (cur div PAGE_SIZE) of
                     Some pa \<Rightarrow> copy_out (pa + cur mod PAGE_SIZE) real (ram (km_phys w))
                   | None \<Rightarrow> replicate real 0)
         in bs @ vmo_read_loop w v (cur + real) (left - real))
      else [])"
  by pat_completeness auto
termination
  by (relation "measure (\<lambda>(w, v, cur, left). left)")
    (auto simp: chunk_len_pos)

declare vmo_read_loop.simps [simp del]

definition vmo_read :: "nat \<Rightarrow> nat \<Rightarrow> vmo \<Rightarrow> kmem \<Rightarrow> u8 list res" where
  "vmo_read offset len v w =
     (if vmo_size v \<le> offset then Ok [] else Ok (vmo_read_loop w v offset len))"

function vmo_write_loop :: "nat \<Rightarrow> nat \<Rightarrow> u8 list \<Rightarrow> vmo \<Rightarrow> kmem \<Rightarrow> nat res \<times> vmo \<times> kmem" where
  "vmo_write_loop written cur bs v w =
     (if bs \<noteq> [] \<and> cur < vmo_size v then
        (let page_idx = cur div PAGE_SIZE;
             (r, v1, w1) = (if slot_get w v page_idx = None
                            then commit_page (cur - cur mod PAGE_SIZE) v w else (Ok None, v, w))
         in case r of
              Ok _ \<Rightarrow>
                (case slot_get w1 v1 page_idx of
                   None \<Rightarrow> (Panic, v1, w1)
                 | Some pa \<Rightarrow>
                     (let real = chunk_len (vmo_size v) cur (length bs);
                          w2 = w1\<lparr>km_phys := (km_phys w1)\<lparr>ram :=
                                 copy_in (pa + cur mod PAGE_SIZE) (take real bs) (ram (km_phys w1))\<rparr>\<rparr>
                      in vmo_write_loop (written + real) (cur + real) (drop real bs) v1 w2))
            | Err e \<Rightarrow> (Err e, v1, w1)
            | Panic \<Rightarrow> (Panic, v1, w1))
      else (Ok written, v, w))"
  by pat_completeness auto
termination
  by (relation "measure (\<lambda>(written, cur, bs, v, w). length bs)") (auto simp: chunk_len_pos)

declare vmo_write_loop.simps [simp del]

definition vmo_write :: "nat \<Rightarrow> u8 list \<Rightarrow> vmo \<Rightarrow> kmem \<Rightarrow> nat res \<times> vmo \<times> kmem" where
  "vmo_write offset bs v w =
     (if vmo_size v \<le> offset then (Ok 0, v, w) else vmo_write_loop 0 offset bs v w)"

section \<open>Derived objects\<close>

text \<open>
  \<open>fork\<close>: for every page the parent has committed (or, for a borrowed object, every filled
  slot), commit the page in the fork and copy it through a 4 KiB buffer. When a step fails the
  half-built fork is dropped.
\<close>

fun fork_loop :: "nat \<Rightarrow> nat \<Rightarrow> vmo \<Rightarrow> vmo \<Rightarrow> kmem \<Rightarrow> unit res \<times> vmo \<times> kmem" where
  "fork_loop 0 i parent f w = (Ok (), f, w)"
| "fork_loop (Suc n) i parent f w =
     (let present = (if vmo_committed_pages parent \<noteq> [] then vmo_committed_pages parent ! i \<noteq> None
                     else slot_get w parent i \<noteq> None)
      in if \<not> present then fork_loop n (Suc i) parent f w
         else case commit_page (i * PAGE_SIZE) f w of
           (Ok _, f1, w1) \<Rightarrow>
             (case vmo_read (i * PAGE_SIZE) 4096 parent w1 of
                Ok buf \<Rightarrow>
                  (case vmo_write (i * PAGE_SIZE) (take 4096 (buf @ replicate 4096 0)) f1 w1 of
                     (Ok _, f2, w2) \<Rightarrow> fork_loop n (Suc i) parent f2 w2
                   | (Err e, f2, w2) \<Rightarrow> (Err e, f2, w2)
                   | (Panic, f2, w2) \<Rightarrow> (Panic, f2, w2))
              | Err e \<Rightarrow> (Err e, f1, w1)
              | Panic \<Rightarrow> (Panic, f1, w1))
         | (Err e, f1, w1) \<Rightarrow> (Err e, f1, w1)
         | (Panic, f1, w1) \<Rightarrow> (Panic, f1, w1))"

definition vmo_fork :: "u64 \<Rightarrow> vmo \<Rightarrow> kmem \<Rightarrow> vmo res \<times> kmem" where
  "vmo_fork new_id parent w =
     (case create_with_size (word_of_nat (vmo_size parent)) w of
        (Ok f0, w1) \<Rightarrow>
          (let f1 = f0\<lparr>vmo_id := new_id, vmo_is_cow := True, vmo_parent_id := Some (vmo_id parent)\<rparr> in
           case fork_loop (vmo_size parent div PAGE_SIZE) 0 parent f1 w1 of
             (Ok _, f2, w2) \<Rightarrow> (Ok f2, w2)
           | (Err e, f2, w2) \<Rightarrow>
               (case vmo_drop f2 w2 of (Panic, w3) \<Rightarrow> (Panic, w3) | (_, w3) \<Rightarrow> (Err e, w3))
           | (Panic, f2, w2) \<Rightarrow> (Panic, w2))
      | (Err e, w1) \<Rightarrow> (Err e, w1)
      | (Panic, w1) \<Rightarrow> (Panic, w1))"

text \<open>
  \<open>create_child_slice\<close>: the bounds check is the wrapping 64-bit sum \<open>offset + size\<close>, and
  \<open>committed_pages[start + i]\<close> aborts out of range. The slice records the parent's frames
  in its slots but not among the frames it owns.
\<close>

definition create_child_slice :: "u64 \<Rightarrow> usize \<Rightarrow> usize \<Rightarrow> vmo \<Rightarrow> kmem \<Rightarrow> vmo res \<times> kmem" where
  "create_child_slice new_id offset sz parent w =
     (if offset AND 4095 \<noteq> 0 \<or> sz AND 4095 \<noteq> 0 then (Err InvalidArgs, w)
      else if vmo_size parent < unat (offset + sz) then (Err InvalidArgs, w)
      else let pages = unat sz div PAGE_SIZE; start = unat offset div PAGE_SIZE in
        case create_with_size sz w of
          (Ok c0, w1) \<Rightarrow>
            (let c = c0\<lparr>vmo_id := new_id, vmo_parent_id := Some (vmo_id parent)\<rparr>;
                 h = km_hdr w1 (vmo_meta_page c);
                 w2 = w1\<lparr>km_hdr := (km_hdr w1)(vmo_meta_page c := h\<lparr>h_committed := pages\<rparr>)\<rparr>
             in if vmo_committed_pages parent \<noteq> [] then
                  (if length (vmo_committed_pages parent) < start + pages then (Panic, w2)
                   else (Ok c, fill_slots pages (\<lambda>i. vmo_committed_pages parent ! (start + i)) c w2))
                else (Ok c, fill_slots pages (\<lambda>i. slot_get w2 parent (start + i)) c w2))
        | (Err e, w1) \<Rightarrow> (Err e, w1)
        | (Panic, w1) \<Rightarrow> (Panic, w1))"

definition make_cow :: "vmo \<Rightarrow> vmo" where
  "make_cow v = v\<lparr>vmo_is_cow := True\<rparr>"

text \<open>
  \<open>impl Clone\<close>: new \<open>PhysPage\<close> owners for the same frames. The calls
  \<open>mem::forget(page.addr())\<close> forget a plain address, which has no destructor, so the clone
  and the original both own every frame.
\<close>

definition vmo_clone :: "vmo \<Rightarrow> vmo" where
  "vmo_clone v = v\<lparr>vmo_extra_meta_pages := vmo_extra_meta_pages v,
     vmo_committed_pages := (if vmo_committed_pages v = [] then []
                             else take (vmo_size v div PAGE_SIZE) (vmo_committed_pages v))\<rparr>"

section \<open>Well-formed objects and their bytes\<close>

text \<open>
  \<open>vmo_byte\<close> is the byte a reader sees: the stored byte of a committed page, zero otherwise. In
  a well-formed object the slots are distinct cells, distinct pages have distinct frames, and
  every frame is one the allocator will not hand out again (it lies below the cursor, or outside
  RAM for a device mapping).
\<close>

definition vmo_byte :: "kmem \<Rightarrow> vmo \<Rightarrow> nat \<Rightarrow> u8" where
  "vmo_byte w v i =
     (case slot_get w v (i div PAGE_SIZE) of
        None \<Rightarrow> 0
      | Some pa \<Rightarrow> ram (km_phys w) (pa + i mod PAGE_SIZE))"

lemma chunk_len_size: "cur < sz \<Longrightarrow> cur + chunk_len sz cur left \<le> sz"
  by (auto simp: chunk_len_def Let_def)

lemma chunk_len_page: "cur mod PAGE_SIZE + chunk_len sz cur left \<le> PAGE_SIZE"
proof -
  have "cur mod PAGE_SIZE < PAGE_SIZE" by (simp add: PAGE_SIZE_def)
  then show ?thesis by (auto simp: chunk_len_def Let_def)
qed

lemma same_page:
  assumes "cur mod PAGE_SIZE + j < PAGE_SIZE"
  shows "(cur + j) div PAGE_SIZE = cur div PAGE_SIZE \<and> (cur + j) mod PAGE_SIZE = cur mod PAGE_SIZE + j"
proof -
  have "cur + j = (cur mod PAGE_SIZE + j) + PAGE_SIZE * (cur div PAGE_SIZE)" by simp
  moreover have "PAGE_SIZE \<noteq> 0" by (simp add: PAGE_SIZE_def)
  ultimately show ?thesis
    using assms by (metis add.left_neutral div_less div_mult_self2 mod_less mod_mult_self2 add.commute)
qed

lemma vmo_read_loop_spec:
  "vmo_read_loop w v cur left = map (vmo_byte w v) [cur..<min (cur + left) (vmo_size v)]"
proof (induction w v cur left rule: vmo_read_loop.induct)
  case (1 w v cur left)
  show ?case
  proof (cases "0 < left \<and> cur < vmo_size v")
    case False
    then show ?thesis by (auto simp: vmo_read_loop.simps [of w v cur left])
  next
    case True
    let ?real = "chunk_len (vmo_size v) cur left"
    have real: "?real \<le> left" "cur + ?real \<le> vmo_size v"
      using True chunk_len_le chunk_len_size by auto
    have byte: "vmo_byte w v (cur + j) =
        (case slot_get w v (cur div PAGE_SIZE) of None \<Rightarrow> 0
         | Some pa \<Rightarrow> ram (km_phys w) (pa + cur mod PAGE_SIZE + j))" if "j < ?real" for j
    proof -
      have "cur mod PAGE_SIZE + j < PAGE_SIZE"
        using that chunk_len_page [of cur "vmo_size v" left] by simp
      from same_page [OF this] show ?thesis
        by (simp add: vmo_byte_def add.assoc split: option.splits)
    qed
    have "(case slot_get w v (cur div PAGE_SIZE) of
             Some pa \<Rightarrow> copy_out (pa + cur mod PAGE_SIZE) ?real (ram (km_phys w))
           | None \<Rightarrow> replicate ?real 0) = map (vmo_byte w v) [cur..<cur + ?real]"
      using byte by (auto simp: copy_out_def intro!: nth_equalityI split: option.splits)
    moreover have "[cur..<min (cur + left) (vmo_size v)]
        = [cur..<cur + ?real] @ [cur + ?real..<min (cur + left) (vmo_size v)]"
      using real by (intro upt_split) auto
    moreover have "vmo_read_loop w v (cur + ?real) (left - ?real)
        = map (vmo_byte w v) [cur + ?real..<min (cur + left) (vmo_size v)]"
      using 1 [OF True refl] real by simp
    ultimately show ?thesis using True by (simp add: vmo_read_loop.simps [of w v cur left] Let_def)
  qed
qed

definition frame_settled :: "phys \<Rightarrow> nat \<Rightarrow> bool" where
  "frame_settled s p \<longleftrightarrow> 4096 dvd p \<and> (p + 4096 \<le> next_free_page s \<or> RAM_BASE + RAM_SIZE \<le> p)"

definition vmo_wf :: "kmem \<Rightarrow> vmo \<Rightarrow> bool" where
  "vmo_wf w v \<longleftrightarrow>
     phys_inv (km_phys w)
     \<and> 4096 dvd vmo_size v
     \<and> (vmo_committed_pages v = [] \<or> length (vmo_committed_pages v) = page_count v)
     \<and> inj_on (page_slot w v) {..<page_count v}
     \<and> (\<forall>i<page_count v. \<forall>p. slot_get w v i = Some p \<longrightarrow> frame_settled (km_phys w) p)
     \<and> (\<forall>i<page_count v. \<forall>j<page_count v. \<forall>p.
          slot_get w v i = Some p \<and> slot_get w v j = Some p \<longrightarrow> i = j)
     \<and> (\<forall>i<page_count v. \<forall>p. vmo_committed_pages v \<noteq> [] \<and> vmo_committed_pages v ! i = Some p
          \<longrightarrow> slot_get w v i = Some p)"

lemma frame_settled_mono:
  "frame_settled s p \<Longrightarrow> next_free_page s \<le> next_free_page s' \<Longrightarrow> frame_settled s' p"
  by (auto simp: frame_settled_def)

lemma slot_get_frame:
  assumes "km_slot w' = km_slot w" "km_pat w' = km_pat w" "vmo_meta_page v' = vmo_meta_page v"
  shows "slot_get w' v' i = slot_get w v i" "page_slot w' v' i = page_slot w v i"
  using assms by (simp_all add: slot_get_def page_slot_def slot_ptr_def Let_def)

lemma page_slot_slot_set [simp]: "page_slot (slot_set v k p w) u i = page_slot w u i"
  by (simp add: page_slot_def slot_ptr_def slot_set_def Let_def)

lemma slot_get_slot_set:
  assumes "inj_on (page_slot w v) {..<n}" "i < n" "k < n"
  shows "slot_get (slot_set v k p w) v i = (if i = k then p else slot_get w v i)"
proof -
  have "page_slot w v i = page_slot w v k \<longleftrightarrow> i = k"
    using assms by (auto simp: inj_on_eq_iff)
  then show ?thesis
    by (simp add: slot_get_def) (simp add: slot_set_def)
qed

lemma offset_page: "4096 dvd vmo_size v \<Longrightarrow> i < vmo_size v \<Longrightarrow> i div PAGE_SIZE < page_count v"
  by (auto simp: page_count_def PAGE_SIZE_def dvd_def intro: less_mult_imp_div_less)

lemma aligned_step:
  assumes "4096 dvd a" "4096 dvd b" "a < (b :: nat)"
  shows "a + 4096 \<le> b"
proof -
  from assms(1,2) obtain i j where "a = 4096 * i" "b = 4096 * j" by (meson dvdE)
  with assms(3) show ?thesis by simp
qed

lemma RAM_end_dvd: "4096 dvd RAM_BASE + RAM_SIZE"
  by (simp add: RAM_BASE_def RAM_SIZE_def)

text \<open>What a commit does to a well-formed object.\<close>

lemma commit_page_step:
  assumes wf: "vmo_wf w v" and off: "offset < vmo_size v"
    and none: "slot_get w v (offset div PAGE_SIZE) = None"
    and eq: "commit_page offset v w = (r, v', w')"
  shows "(\<exists>pa. r = Ok (Some pa) \<and> vmo_wf w' v'
            \<and> vmo_size v' = vmo_size v \<and> vmo_meta_page v' = vmo_meta_page v
            \<and> vmo_committed_pages v' \<noteq> []
            \<and> slot_get w' v' (offset div PAGE_SIZE) = Some pa
            \<and> (\<forall>i<page_count v. i \<noteq> offset div PAGE_SIZE \<longrightarrow> slot_get w' v' i = slot_get w v i)
            \<and> (\<forall>i<vmo_size v. vmo_byte w' v' i = vmo_byte w v i))
         \<or> (\<exists>e. r = Err e \<and> v' = v \<and> w' = w \<and> (e = NoMemory \<or> e = NotAllowed \<and> vmo_committed_pages v = []))"
proof -
  let ?k = "offset div PAGE_SIZE" and ?s = "km_phys w"
  note wf' = wf [unfolded vmo_wf_def]
  have inv: "phys_inv ?s" using wf' by blast
  have k: "?k < page_count v" using wf' off by (intro offset_page) auto
  show ?thesis
  proof (cases "vmo_committed_pages v = []")
    case True
    with eq off show ?thesis by (auto simp: commit_page_def Let_def)
  next
    case False
    then have len: "length (vmo_committed_pages v) = page_count v" using wf' by blast
    have cnone: "vmo_committed_pages v ! ?k = None"
      using wf' k none False by (metis option.exhaust option.distinct(1))
    show ?thesis
    proof (cases "end_free_page ?s \<le> next_free_page ?s")
      case True
      then have "alloc_vmo_data ?s = (Err NoMemory, ?s)"
        by (simp add: alloc_vmo_data_def alloc_page_inv_eq [OF inv])
      with eq off False len k cnone show ?thesis
        by (auto simp: commit_page_def Let_def)
    next
      case room: False
      let ?pa = "next_free_page ?s"
      let ?s' = "take_page TagVmoData ?pa ?s"
      have al: "alloc_vmo_data ?s = (Ok ?pa, ?s')"
        using room by (simp add: alloc_vmo_data_def alloc_page_inv_eq [OF inv])
      let ?w1 = "slot_set v ?k (Some ?pa) (w\<lparr>km_phys := ?s'\<rparr>)"
      have r: "r = Ok (Some ?pa)"
        and v': "v' = v\<lparr>vmo_committed_pages := (vmo_committed_pages v)[?k := Some ?pa]\<rparr>"
        and w': "km_slot w' = km_slot ?w1" "km_pat w' = km_pat ?w1" "km_phys w' = ?s'"
        using eq off False len k cnone al
        by (auto simp: commit_page_def Let_def slot_set_def)
      have inj: "inj_on (page_slot (w\<lparr>km_phys := ?s'\<rparr>) v) {..<page_count v}"
        using wf' by (simp add: slot_get_frame(2) [of "w\<lparr>km_phys := ?s'\<rparr>" w v v] inj_on_def)
      have get: "slot_get w' v' i = (if i = ?k then Some ?pa else slot_get w v i)"
        if "i < page_count v" for i
      proof -
        have "slot_get w' v' i = slot_get ?w1 v i"
          using w' v' by (intro slot_get_frame) simp_all
        also have "\<dots> = (if i = ?k then Some ?pa else slot_get (w\<lparr>km_phys := ?s'\<rparr>) v i)"
          by (rule slot_get_slot_set [OF inj that k])
        finally show ?thesis by (simp add: slot_get_frame(1) [of "w\<lparr>km_phys := ?s'\<rparr>" w v v])
      qed
      have slots: "page_slot w' v' i = page_slot w v i" for i
        using w' v' by (simp add: page_slot_def slot_ptr_def slot_set_def Let_def)
      have pc: "page_count v' = page_count v" using v' by (simp add: page_count_def)
      have settled: "frame_settled ?s' p" if "frame_settled ?s p" for p
        using that by (rule frame_settled_mono) (simp add: take_page_def)
      have new: "frame_settled ?s' ?pa" using inv by (simp add: frame_settled_def take_page_def phys_inv_def)
      have old_ne: "p \<noteq> ?pa" if "frame_settled ?s p" for p
        using that room inv by (auto simp: frame_settled_def phys_inv_def)
      have wf1: "vmo_wf w' v'"
        unfolding vmo_wf_def pc
      proof (intro conjI allI impI)
        show "phys_inv (km_phys w')" using w' take_page_inv [OF inv] room by simp
        show "4096 dvd vmo_size v'" using wf' v' by simp
        show "vmo_committed_pages v' = [] \<or> length (vmo_committed_pages v') = page_count v"
          using v' len by simp
        show "inj_on (page_slot w' v') {..<page_count v}" using wf' slots by (simp add: inj_on_def)
      next
        fix i p assume "i < page_count v" "slot_get w' v' i = Some p"
        then show "frame_settled (km_phys w') p"
          using get wf' settled new w' by (auto split: if_splits)
      next
        fix i j p assume "i < page_count v" "j < page_count v"
          "slot_get w' v' i = Some p \<and> slot_get w' v' j = Some p"
        then show "i = j"
          using get wf' old_ne by (auto split: if_splits)
      next
        fix i p assume "i < page_count v" "vmo_committed_pages v' \<noteq> [] \<and> vmo_committed_pages v' ! i = Some p"
        then show "slot_get w' v' i = Some p"
          using get wf' v' len k by (auto simp: nth_list_update split: if_splits)
      qed
      have bytes: "vmo_byte w' v' i = vmo_byte w v i" if i: "i < vmo_size v" for i
      proof -
        have pg: "i div PAGE_SIZE < page_count v" using wf' i by (intro offset_page) auto
        have m: "i mod PAGE_SIZE < 4096" by (simp add: PAGE_SIZE_def)
        show ?thesis
        proof (cases "i div PAGE_SIZE = ?k")
          case True
          then show ?thesis
            using get [OF pg] none w' m by (simp add: vmo_byte_def take_page_def zero_page_def)
        next
          case other: False
          have top: "?pa + 4096 \<le> RAM_BASE + RAM_SIZE"
            using room inv RAM_end_dvd by (intro aligned_step) (auto simp: phys_inv_def)
          have "ram ?s' (p + i mod PAGE_SIZE) = ram ?s (p + i mod PAGE_SIZE)" if "frame_settled ?s p" for p
            using that m room inv top
            by (auto simp: frame_settled_def take_page_def zero_page_def phys_inv_def)
          then show ?thesis
            using get [OF pg] other w' wf' pg by (auto simp: vmo_byte_def split: option.splits)
        qed
      qed
      from r wf1 v' get k bytes False show ?thesis by auto
    qed
  qed
qed

text \<open>Storing bytes into the frame of one page changes just those bytes of the object.\<close>

lemma store_step:
  assumes wf: "vmo_wf w v" and cur: "cur < vmo_size v"
    and pa: "slot_get w v (cur div PAGE_SIZE) = Some pa"
    and fit: "cur mod PAGE_SIZE + length bs \<le> PAGE_SIZE" "cur + length bs \<le> vmo_size v"
    and w': "w' = w\<lparr>km_phys := (km_phys w)\<lparr>ram := copy_in (pa + cur mod PAGE_SIZE) bs (ram (km_phys w))\<rparr>\<rparr>"
  shows "vmo_wf w' v"
    and "i < vmo_size v \<Longrightarrow> vmo_byte w' v i = (if cur \<le> i \<and> i < cur + length bs then bs ! (i - cur) else vmo_byte w v i)"
proof -
  note wf' = wf [unfolded vmo_wf_def]
  have get: "slot_get w' v k = slot_get w v k" "page_slot w' v k = page_slot w v k" for k
    using w' by (auto intro!: slot_get_frame)
  show "vmo_wf w' v"
    using wf' get w' by (simp add: vmo_wf_def phys_inv_def frame_settled_def inj_on_def)
  assume i: "i < vmo_size v"
  have ip: "i div PAGE_SIZE < page_count v" and cp: "cur div PAGE_SIZE < page_count v"
    using wf' i cur by (auto intro!: offset_page)
  have m: "i mod PAGE_SIZE < 4096" "cur mod PAGE_SIZE < 4096" by (auto simp: PAGE_SIZE_def)
  have al: "4096 dvd pa" using wf' pa cp by (auto simp: frame_settled_def)
  show "vmo_byte w' v i = (if cur \<le> i \<and> i < cur + length bs then bs ! (i - cur) else vmo_byte w v i)"
  proof (cases "cur \<le> i \<and> i < cur + length bs")
    case True
    then obtain j where j: "i = cur + j" "j < length bs" by (metis add_less_cancel_left le_Suc_ex)
    with same_page [of cur j] fit show ?thesis
      using pa get w' by (simp add: vmo_byte_def copy_in_def)
  next
    case out: False
    have "copy_in (pa + cur mod PAGE_SIZE) bs (ram (km_phys w)) (q + i mod PAGE_SIZE)
        = ram (km_phys w) (q + i mod PAGE_SIZE)" if q: "slot_get w v (i div PAGE_SIZE) = Some q" for q
    proof (cases "i div PAGE_SIZE = cur div PAGE_SIZE")
      case True
      then have "q = pa" using q pa by simp
      moreover have "i = i mod PAGE_SIZE + PAGE_SIZE * (cur div PAGE_SIZE)"
        "cur = cur mod PAGE_SIZE + PAGE_SIZE * (cur div PAGE_SIZE)"
        using True by (metis mod_mult_div_eq, simp)
      ultimately have "\<not> (cur mod PAGE_SIZE \<le> i mod PAGE_SIZE
          \<and> i mod PAGE_SIZE < cur mod PAGE_SIZE + length bs)" and "q = pa"
        using out by linarith+
      then show ?thesis by (auto simp: copy_in_def)
    next
      case other: False
      have q_al: "4096 dvd q" "q \<noteq> pa"
        using wf' q pa ip cp other by (auto simp: frame_settled_def)
      then have "q + 4096 \<le> pa \<or> pa + 4096 \<le> q"
        using aligned_step [of q pa] aligned_step [of pa q] al by linarith
      then have "\<not> (pa + cur mod PAGE_SIZE \<le> q + i mod PAGE_SIZE
          \<and> q + i mod PAGE_SIZE < pa + cur mod PAGE_SIZE + length bs)"
        using fit(1) m by (auto simp: PAGE_SIZE_def)
      then show ?thesis by (auto simp: copy_in_def)
    qed
    with out get w' show ?thesis
      by (auto simp: vmo_byte_def split: option.splits)
  qed
qed

lemma vmo_write_loop_spec:
  assumes "vmo_wf w v" "vmo_write_loop written cur bs v w = (r, v', w')"
  shows "vmo_wf w' v' \<and> vmo_size v' = vmo_size v \<and> (vmo_committed_pages v' = [] \<longrightarrow> vmo_committed_pages v = []) \<and>
    (\<exists>k\<le>min (length bs) (vmo_size v - cur).
       (\<forall>i<vmo_size v. vmo_byte w' v' i = (if cur \<le> i \<and> i < cur + k then bs ! (i - cur) else vmo_byte w v i))
       \<and> (r = Ok (written + k) \<and> k = min (length bs) (vmo_size v - cur)
          \<or> r = Err NoMemory \<or> r = Err NotAllowed \<and> vmo_committed_pages v = []))"
  using assms
proof (induction written cur bs v w arbitrary: r v' w' rule: vmo_write_loop.induct)
  case (1 written cur bs v w)
  show ?case
  proof (cases "bs \<noteq> [] \<and> cur < vmo_size v")
    case False
    with 1 show ?thesis
      by (auto simp: vmo_write_loop.simps [of written cur bs v w])
  next
    case go: True
    let ?p = "cur div PAGE_SIZE" and ?real = "chunk_len (vmo_size v) cur (length bs)"
    obtain r1 v1 w1 where c: "(if slot_get w v ?p = None
        then commit_page (cur - cur mod PAGE_SIZE) v w else (Ok None, v, w)) = (r1, v1, w1)"
      by (metis prod_cases3)
    have off: "(cur - cur mod PAGE_SIZE) div PAGE_SIZE = ?p" "cur - cur mod PAGE_SIZE < vmo_size v"
      using go by (auto simp: minus_mod_eq_div_mult PAGE_SIZE_def)
    have c_cases: "(\<exists>x pa. r1 = Ok x \<and> vmo_wf w1 v1 \<and> vmo_size v1 = vmo_size v \<and> slot_get w1 v1 ?p = Some pa
          \<and> (vmo_committed_pages v1 = [] \<longrightarrow> vmo_committed_pages v = [])
          \<and> (\<forall>i<vmo_size v. vmo_byte w1 v1 i = vmo_byte w v i))
        \<or> (r1 = Err NoMemory \<or> r1 = Err NotAllowed \<and> vmo_committed_pages v = []) \<and> v1 = v \<and> w1 = w"
      using commit_page_step [OF 1(2) off(2), of r1 v1 w1] c off(1) 1(2)
      by (cases "slot_get w v ?p") auto
    show ?thesis
    proof (cases r1)
      case (Ok x)
      with c_cases obtain pa where st: "vmo_wf w1 v1" "vmo_size v1 = vmo_size v"
        "slot_get w1 v1 ?p = Some pa" "vmo_committed_pages v1 = [] \<longrightarrow> vmo_committed_pages v = []"
        and same: "\<forall>i<vmo_size v. vmo_byte w1 v1 i = vmo_byte w v i" by auto
      define w2 where "w2 = w1\<lparr>km_phys := (km_phys w1)\<lparr>ram :=
          copy_in (pa + cur mod PAGE_SIZE) (take ?real bs) (ram (km_phys w1))\<rparr>\<rparr>"
      have real: "?real \<le> length bs" "cur + ?real \<le> vmo_size v" "cur mod PAGE_SIZE + ?real \<le> PAGE_SIZE"
        using go chunk_len_le chunk_len_size chunk_len_page by auto
      have rec: "vmo_write_loop (written + ?real) (cur + ?real) (drop ?real bs) v1 w2 = (r, v', w')"
        using 1(3) go c Ok st by (simp add: vmo_write_loop.simps [of written cur bs v w] w2_def Let_def)
      have wf2: "vmo_wf w2 v1"
        and upd: "i < vmo_size v \<Longrightarrow> vmo_byte w2 v1 i = (if cur \<le> i \<and> i < cur + ?real then bs ! (i - cur) else vmo_byte w1 v1 i)" for i
        using store_step [OF st(1) _ st(3), of "take ?real bs" w2] go real st(2) by (auto simp: w2_def)
      from 1(1) [OF go refl c [symmetric] refl refl Ok st(3) refl w2_def wf2 rec] st(2)
      obtain k where com: "vmo_committed_pages v' = [] \<longrightarrow> vmo_committed_pages v1 = []"
        and IH: "vmo_wf w' v'" "vmo_size v' = vmo_size v"
        "k \<le> min (length (drop ?real bs)) (vmo_size v - (cur + ?real))"
        "\<forall>i<vmo_size v. vmo_byte w' v' i = (if cur + ?real \<le> i \<and> i < cur + ?real + k then drop ?real bs ! (i - (cur + ?real)) else vmo_byte w2 v1 i)"
        "r = Ok (written + ?real + k) \<and> k = min (length (drop ?real bs)) (vmo_size v - (cur + ?real))
          \<or> r = Err NoMemory \<or> r = Err NotAllowed \<and> vmo_committed_pages v1 = []"
        by auto
      have "vmo_byte w' v' i = (if cur \<le> i \<and> i < cur + (?real + k) then bs ! (i - cur) else vmo_byte w v i)"
        if "i < vmo_size v" for i
      proof (cases "cur + ?real \<le> i \<and> i < cur + ?real + k")
        case True
        then show ?thesis using IH(4) that real(1) by (simp add: nth_drop)
      next
        case False
        then have "vmo_byte w' v' i = vmo_byte w2 v1 i" using IH(4) that by (metis (lifting) if_not_P)
        also have "\<dots> = (if cur \<le> i \<and> i < cur + ?real then bs ! (i - cur) else vmo_byte w v i)"
          using upd [OF that] same that by simp
        finally show ?thesis using False by auto
      qed
      moreover have "?real + k \<le> min (length bs) (vmo_size v - cur)" using IH(3) real(1,2) by auto
      moreover have "r = Ok (written + (?real + k)) \<and> ?real + k = min (length bs) (vmo_size v - cur)
          \<or> r = Err NoMemory \<or> r = Err NotAllowed \<and> vmo_committed_pages v = []"
        using IH(5) st(4) real(1,2) by auto
      ultimately show ?thesis using IH(1,2) com st(4) by blast
    next
      case (Err e)
      with c_cases have "v1 = v" "w1 = w" "r1 = Err NoMemory \<or> r1 = Err NotAllowed \<and> vmo_committed_pages v = []"
        by auto
      moreover have "(r, v', w') = (Err e, v1, w1)"
        using 1(3) go c Err by (simp add: vmo_write_loop.simps [of written cur bs v w] Let_def)
      ultimately show ?thesis using Err 1(2) by auto
    next
      case Panic
      with c_cases show ?thesis by auto
    qed
  qed
qed

text \<open>The metadata frames of an object and what creation establishes about them.\<close>

definition meta_frame :: "kmem \<Rightarrow> nat \<Rightarrow> nat \<Rightarrow> nat" where
  "meta_frame w meta_pa m = (if m = 0 then meta_pa else km_pat w (meta_pa + PA_TABLE_BASE + (m - 1) * 8))"

definition fresh_meta :: "kmem \<Rightarrow> nat \<Rightarrow> nat \<Rightarrow> bool" where
  "fresh_meta w meta_pa j \<longleftrightarrow>
     phys_inv (km_phys w) \<and> inj_on (meta_frame w meta_pa) {..<j}
     \<and> (\<forall>m<j. frame_settled (km_phys w) (meta_frame w meta_pa m))
     \<and> (\<forall>m<j. \<forall>d<4096. km_slot w (meta_frame w meta_pa m + d) = None)"

lemma settled_far:
  assumes "phys_inv s" "next_free_page s < end_free_page s" "frame_settled s p"
  shows "p + 4096 \<le> next_free_page s \<or> next_free_page s + 4096 \<le> p"
proof -
  have "next_free_page s + 4096 \<le> RAM_BASE + RAM_SIZE"
    using assms RAM_end_dvd by (intro aligned_step) (auto simp: phys_inv_def)
  then show ?thesis using assms(3) by (auto simp: frame_settled_def)
qed

lemma settled_take:
  "phys_inv s \<Longrightarrow> frame_settled (take_page t (next_free_page s) s) (next_free_page s)"
  "frame_settled s p \<Longrightarrow> frame_settled (take_page t (next_free_page s) s) p"
  by (auto simp: frame_settled_def take_page_def phys_inv_def)

lemma alloc_meta_cases:
  assumes inv: "phys_inv (km_phys w)"
  obtains "alloc_meta w = (Err NoMemory, w)" "end_free_page (km_phys w) \<le> next_free_page (km_phys w)"
  | pa w' where "alloc_meta w = (Ok pa, w')" "pa = next_free_page (km_phys w)" "pa < end_free_page (km_phys w)"
      "km_phys w' = take_page TagVmoData pa (km_phys w)"
      "km_slot w' = (\<lambda>a. if pa \<le> a \<and> a < pa + 4096 then None else km_slot w a)"
      "km_pat w' = (\<lambda>a. if pa \<le> a \<and> a < pa + 4096 then 0 else km_pat w a)"
      "km_hdr w' = km_hdr w"
  using inv alloc_page_inv_eq [OF inv]
  by (cases "end_free_page (km_phys w) \<le> next_free_page (km_phys w)")
    (auto simp: alloc_meta_def alloc_vmo_meta_def)


lemma fresh_meta_extend:
  assumes fr: "fresh_meta w meta_pa i" and i: "1 \<le> i" "i \<le> 8"
    and al: "alloc_meta w = (Ok pa, w1)"
    and w2: "w2 = w1\<lparr>km_pat := (km_pat w1)(meta_pa + PA_TABLE_BASE + (i - 1) * 8 := pa)\<rparr>"
  shows "fresh_meta w2 meta_pa (Suc i)"
proof -
  let ?s = "km_phys w"
  note fr' = fr [unfolded fresh_meta_def]
  have inv: "phys_inv ?s" using fr' by blast
  obtain "pa = next_free_page ?s" and room: "pa < end_free_page ?s"
    and w1: "km_phys w1 = take_page TagVmoData pa ?s"
      "km_slot w1 = (\<lambda>a. if pa \<le> a \<and> a < pa + 4096 then None else km_slot w a)"
      "km_pat w1 = (\<lambda>a. if pa \<le> a \<and> a < pa + 4096 then 0 else km_pat w a)"
    using al by (cases rule: alloc_meta_cases [OF inv]) auto
  note pa = this(1)
  have far: "p + 4096 \<le> pa \<or> pa + 4096 \<le> p" if "frame_settled ?s p" for p
    using settled_far [OF inv _ that] room pa by simp
  have head: "frame_settled ?s meta_pa" using fr' i by (force simp: meta_frame_def)
  have off: "PA_TABLE_BASE + m * 8 < 4096" if "m < 8" for m
    using that by (simp add: PA_TABLE_BASE_def PAGE_SIZE_def PA_TABLE_SIZE_def)
  have frame: "meta_frame w2 meta_pa m = (if m = i then pa else meta_frame w meta_pa m)" if "m \<le> i" for m
  proof (cases "m = 0")
    case False
    then have "meta_pa + PA_TABLE_BASE + (m - 1) * 8 \<noteq> meta_pa + PA_TABLE_BASE + (i - 1) * 8 \<or> m = i"
      using i by auto
    moreover have "PA_TABLE_BASE + (m - 1) * 8 < 4096" using off [of "m - 1"] that i False by simp
    ultimately show ?thesis using False far [OF head] w1 w2
      by (auto simp: meta_frame_def)
  qed (use i in \<open>simp add: meta_frame_def\<close>)
  have ne: "meta_frame w meta_pa m \<noteq> pa" if "m < i" for m
    using far fr' that by (metis add_leE less_irrefl not_add_less1 le_add1 add_le_same_cancel1 not_numeral_le_zero)
  show ?thesis
    unfolding fresh_meta_def
  proof (intro conjI allI impI)
    show "phys_inv (km_phys w2)" using w1 w2 take_page_inv [OF inv] room pa by simp
    show "inj_on (meta_frame w2 meta_pa) {..<Suc i}"
      using fr' frame ne ne [symmetric] by (auto simp: inj_on_def less_Suc_eq simp del: not_less_iff_gr_or_eq)
  next
    fix m assume "m < Suc i"
    then show "frame_settled (km_phys w2) (meta_frame w2 meta_pa m)"
      using frame [of m] fr' w1 w2 pa settled_take inv by (auto simp: less_Suc_eq)
  next
    fix m d :: nat assume "m < Suc i" "d < 4096"
    then show "km_slot w2 (meta_frame w2 meta_pa m + d) = None"
      using frame [of m] fr' w1 w2 by (auto simp: less_Suc_eq)
  qed
qed

lemma alloc_extra_spec:
  assumes "fresh_meta w meta_pa i" "1 \<le> i" "i + n \<le> 9"
    and "alloc_extra n i meta_pa extra w = (r, extra', w')"
  shows "r = Ok () \<and> fresh_meta w' meta_pa (i + n) \<or> r = Err NoMemory"
  using assms
proof (induction n arbitrary: i extra w)
  case 0
  then show ?case by simp
next
  case (Suc n)
  have inv: "phys_inv (km_phys w)" using Suc.prems(1) by (simp add: fresh_meta_def)
  show ?case
  proof (cases rule: alloc_meta_cases [OF inv])
    case 1
    with Suc.prems show ?thesis by simp
  next
    case (2 pa w1)
    then show ?thesis
      using Suc.IH [OF fresh_meta_extend [OF Suc.prems(1,2) _ 2(1) refl]] Suc.prems by simp
  qed
qed

lemma page_slot_inj:
  assumes fr: "fresh_meta w meta_pa j" and n: "n \<le> j * slots_per_page"
  shows "inj_on (slot_ptr w meta_pa) {..<n}"
    and "i < n \<Longrightarrow> km_slot w (slot_ptr w meta_pa i) = None"
proof -
  have sp: "slots_per_page = 249" by (simp add: layout_simps)
  have eq: "slot_ptr w meta_pa i = meta_frame w meta_pa (i div 249) + (48 + i mod 249 * 16)" for i
    by (simp add: slot_ptr_def meta_frame_def Let_def sp header_size_def slot_size_def)
  have bnd: "48 + i mod 249 * 16 < 4096" for i :: nat
  proof -
    have "i mod 249 < 249" by simp
    then show ?thesis by linarith
  qed
  have idx: "i div 249 < j" if "i < n" for i
    using that n sp by (simp add: less_mult_imp_div_less)
  have al: "4096 dvd meta_frame w meta_pa (i div 249)" if "i < n" for i
    using fr idx [OF that] by (simp add: fresh_meta_def frame_settled_def)
  show "inj_on (slot_ptr w meta_pa) {..<n}"
  proof (rule inj_onI)
    fix a b assume ab: "a \<in> {..<n}" "b \<in> {..<n}" "slot_ptr w meta_pa a = slot_ptr w meta_pa b"
    let ?f = "meta_frame w meta_pa (a div 249)" and ?g = "meta_frame w meta_pa (b div 249)"
    have "?f = ?g"
      using aligned_step [of ?f ?g] aligned_step [of ?g ?f] al [of a] al [of b] ab bnd [of a] bnd [of b]
      by (simp add: eq) (metis linorder_neqE_nat)
    with fr idx ab have "a div 249 = b div 249" by (auto simp: fresh_meta_def inj_on_def)
    moreover have "a mod 249 = b mod 249" using ab(3) \<open>?f = ?g\<close> by (simp add: eq)
    ultimately show "a = b" by (metis mod_mult_div_eq)
  qed
  show "i < n \<Longrightarrow> km_slot w (slot_ptr w meta_pa i) = None"
    using fr idx bnd by (simp add: fresh_meta_def eq)
qed

lemma create_meta_spec:
  assumes inv: "phys_inv (km_phys w)" and pg: "pages_for sz \<le> VMO_MAX_PAGES"
    and eq: "create_meta sz c w = (Ok (meta_pa, extra), w')"
  shows "fresh_meta w' meta_pa (max 1 (meta_pages_needed (pages_for sz)))"
proof -
  let ?m = "meta_pages_needed (pages_for sz)"
  show ?thesis
  proof (cases rule: alloc_meta_cases [OF inv])
    case 1
    with eq show ?thesis by (simp add: create_meta_def Let_def)
  next
    case (2 pa w1)
    let ?hdr = "\<lparr>h_magic = VMO_MAGIC, h_version = VMO_VERSION, h_capacity_pages = pages_for sz,
        h_committed = c, h_size_bytes = pages_for sz * PAGE_SIZE, h_meta_page_count = ?m\<rparr>"
    let ?w2 = "w1\<lparr>km_hdr := (km_hdr w1)(pa := ?hdr)\<rparr>"
    obtain r extra' w3 where ex: "alloc_extra (?m - 1) 1 pa (replicate 8 None) ?w2 = (r, extra', w3)"
      by (metis prod_cases3)
    have one: "fresh_meta ?w2 pa 1"
      using 2 take_page_inv [OF inv] settled_take(1) [OF inv] inv
      by (auto simp: fresh_meta_def meta_frame_def inj_on_def)
    have "1 + (?m - 1) \<le> 9"
      using pg by (auto simp: meta_pages_needed_def layout_simps)
    from alloc_extra_spec [OF one _ this ex]
    have "r = Ok () \<and> fresh_meta w3 pa (1 + (?m - 1)) \<or> r = Err NoMemory" by simp
    moreover have "r = Ok () \<and> w' = w3 \<and> meta_pa = pa"
      using eq 2(1) ex by (auto simp: create_meta_def Let_def split: res.splits prod.splits)
    moreover have "1 + (?m - 1) = max 1 ?m" by simp
    ultimately show ?thesis by (metis res.distinct(1))
  qed
qed

lemma page_slot_fresh:
  assumes "fresh_meta w (vmo_meta_page v) (max 1 (meta_pages_needed n))"
  shows "inj_on (page_slot w v) {..<n}" and "i < n \<Longrightarrow> slot_get w v i = None"
proof -
  have "n \<le> max 1 (meta_pages_needed n) * slots_per_page"
    by (simp add: meta_pages_needed_def layout_simps)
  from page_slot_inj [OF assms this]
  show "inj_on (page_slot w v) {..<n}" "i < n \<Longrightarrow> slot_get w v i = None"
    by (simp_all add: inj_on_def page_slot_def slot_get_def)
qed

lemma create_with_size_OkD:
  assumes "create_with_size sz w = (Ok v, w')"
  shows "pages_for sz \<le> VMO_MAX_PAGES
    \<and> (\<exists>extra w1. create_meta sz 0 w = (Ok (vmo_meta_page v, extra), w1) \<and> w' = w1\<lparr>km_vmo_id := km_vmo_id w1 + 1\<rparr>)
    \<and> vmo_size v = pages_for sz * PAGE_SIZE \<and> vmo_committed_pages v = replicate (pages_for sz) None"
proof -
  obtain r w1 where c: "create_meta sz 0 w = (r, w1)" by (metis prod.exhaust)
  have sz: "sz \<noteq> 0"
    using assms by (cases "sz = 0") (simp_all add: create_with_size_def)
  have pg: "\<not> VMO_MAX_PAGES < pages_for sz"
    using assms sz by (cases "VMO_MAX_PAGES < pages_for sz") (simp_all add: create_with_size_def)
  show ?thesis
  proof (cases r)
    case (Ok x)
    obtain m extra where x: "x = (m, extra)" by (cases x)
    have "v = \<lparr>vmo_id = km_vmo_id w1, vmo_meta_page = m, vmo_size = pages_for sz * PAGE_SIZE,
                vmo_is_cow = False, vmo_parent_id = None, vmo_extra_meta_pages = extra,
                vmo_committed_pages = replicate (pages_for sz) None\<rparr>"
      and "w' = w1\<lparr>km_vmo_id := km_vmo_id w1 + 1\<rparr>"
      using assms unfolding create_with_size_def if_not_P [OF sz] if_not_P [OF pg] c Ok x
      by (simp_all add: next_vmo_id_def)
    with c Ok x pg show ?thesis by simp
  qed (use assms sz pg c in \<open>simp_all add: create_with_size_def\<close>)
qed

lemma fresh_meta_vmo_id: "fresh_meta (w\<lparr>km_vmo_id := x\<rparr>) = fresh_meta w"
proof -
  have "meta_frame (w\<lparr>km_vmo_id := x\<rparr>) = meta_frame w" by (simp add: meta_frame_def fun_eq_iff)
  then show ?thesis by (intro ext) (simp add: fresh_meta_def)
qed

lemma create_with_size_wf:
  assumes inv: "phys_inv (km_phys w)" and eq: "create_with_size sz w = (Ok v, w')"
  shows "vmo_wf w' v" "i < page_count v \<Longrightarrow> slot_get w' v i = None"
proof -
  from create_with_size_OkD [OF eq] obtain extra w1
    where c: "create_meta sz 0 w = (Ok (vmo_meta_page v, extra), w1)"
      and pg: "pages_for sz \<le> VMO_MAX_PAGES"
      and v: "vmo_size v = pages_for sz * PAGE_SIZE" "vmo_committed_pages v = replicate (pages_for sz) None"
      and w': "w' = w1\<lparr>km_vmo_id := km_vmo_id w1 + 1\<rparr>" by auto
  have pc: "page_count v = pages_for sz" using v by (simp add: page_count_def PAGE_SIZE_def)
  have fr: "fresh_meta w' (vmo_meta_page v) (max 1 (meta_pages_needed (pages_for sz)))"
    using create_meta_spec [OF inv pg c] w' by (simp only: fresh_meta_vmo_id)
  note fresh = page_slot_fresh [OF fr]
  show "vmo_wf w' v"
    using fresh fr v pc by (auto simp: vmo_wf_def PAGE_SIZE_def fresh_meta_def)
  show "i < page_count v \<Longrightarrow> slot_get w' v i = None" using fresh pc by simp
qed

section \<open>The byte array\<close>

text \<open>
  The contract of an object: a list of bytes of fixed length, where a write replaces a range
  and a read returns one. \<open>vmo_writes\<close> performs a sequence of writes and collects the outcomes.
\<close>

definition splice :: "nat \<Rightarrow> u8 list \<Rightarrow> u8 list \<Rightarrow> u8 list" where
  "splice off bs xs = take off xs @ take (length xs - off) bs @ drop (off + length bs) xs"

definition vmo_contents :: "kmem \<Rightarrow> vmo \<Rightarrow> u8 list" where
  "vmo_contents w v = map (vmo_byte w v) [0..<vmo_size v]"

fun vmo_writes :: "(nat \<times> u8 list) list \<Rightarrow> vmo \<Rightarrow> kmem \<Rightarrow> nat res list \<times> vmo \<times> kmem" where
  "vmo_writes [] v w = ([], v, w)"
| "vmo_writes ((off, bs) # ws) v w =
     (let (r, v1, w1) = vmo_write off bs v w; (rs, v2, w2) = vmo_writes ws v1 w1 in (r # rs, v2, w2))"

lemma length_splice [simp]: "length (splice off bs xs) = length xs"
  by (auto simp: splice_def)

lemma nth_splice:
  "i < length xs \<Longrightarrow> splice off bs xs ! i = (if off \<le> i \<and> i < off + length bs then bs ! (i - off) else xs ! i)"
  by (auto simp: splice_def nth_append)

lemma vmo_read_contents: "vmo_read off n v w = Ok (take n (drop off (vmo_contents w v)))"
  by (auto simp: vmo_read_def vmo_read_loop_spec vmo_contents_def drop_map take_map take_upt_min)

lemma vmo_write_contents:
  assumes wf: "vmo_wf w v" and cm: "vmo_committed_pages v \<noteq> [] \<or> vmo_size v = 0"
    and eq: "vmo_write off bs v w = (r, v', w')"
  shows "vmo_wf w' v' \<and> (vmo_committed_pages v' \<noteq> [] \<or> vmo_size v' = 0) \<and> vmo_size v' = vmo_size v
    \<and> (r = Ok (min (length bs) (vmo_size v - off)) \<and> vmo_contents w' v' = splice off bs (vmo_contents w v)
       \<or> r = Err NoMemory)"
proof (cases "vmo_size v \<le> off")
  case True
  then show ?thesis using assms by (auto simp: vmo_write_def splice_def vmo_contents_def)
next
  case False
  then have "vmo_write_loop 0 off bs v w = (r, v', w')" using eq by (simp add: vmo_write_def)
  from vmo_write_loop_spec [OF wf this] obtain k where
    st: "vmo_wf w' v'" "vmo_size v' = vmo_size v" "vmo_committed_pages v' = [] \<longrightarrow> vmo_committed_pages v = []"
    and k: "k \<le> min (length bs) (vmo_size v - off)"
    and bytes: "\<forall>i<vmo_size v. vmo_byte w' v' i = (if off \<le> i \<and> i < off + k then bs ! (i - off) else vmo_byte w v i)"
    and r: "r = Ok (0 + k) \<and> k = min (length bs) (vmo_size v - off)
          \<or> r = Err NoMemory \<or> r = Err NotAllowed \<and> vmo_committed_pages v = []" by blast
  have ne: "vmo_committed_pages v \<noteq> []" using cm False by auto
  have "vmo_contents w' v' = splice off bs (vmo_contents w v)" if k: "k = min (length bs) (vmo_size v - off)"
  proof (rule nth_equalityI)
    fix i assume "i < length (vmo_contents w' v')"
    then have i: "i < vmo_size v" using st by (simp add: vmo_contents_def)
    then have "off \<le> i \<and> i < off + k \<longleftrightarrow> off \<le> i \<and> i < off + length bs" using k by auto
    then show "vmo_contents w' v' ! i = splice off bs (vmo_contents w v) ! i"
      using i st by (simp add: vmo_contents_def nth_splice bytes)
  qed (use st in \<open>simp add: vmo_contents_def\<close>)
  with r st ne show ?thesis by auto
qed

lemma vmo_writes_contents:
  assumes "vmo_wf w v" "vmo_committed_pages v \<noteq> [] \<or> vmo_size v = 0"
    and "vmo_writes ws v w = (rs, v', w')"
  shows "list_all2 (\<lambda>r (off, bs). r = Ok (min (length bs) (vmo_size v - off)) \<or> r = Err NoMemory) rs ws
    \<and> vmo_wf w' v'
    \<and> (Err NoMemory \<notin> set rs \<longrightarrow> vmo_contents w' v' = fold (\<lambda>(off, bs). splice off bs) ws (vmo_contents w v))"
  using assms
proof (induction ws arbitrary: v w rs)
  case Nil
  then show ?case by simp
next
  case (Cons x ws)
  obtain off bs where x: "x = (off, bs)" by (cases x)
  obtain r v1 w1 where w1: "vmo_write off bs v w = (r, v1, w1)" by (metis prod_cases3)
  obtain rs' where rs': "vmo_writes ws v1 w1 = (rs', v', w')" "rs = r # rs'"
    using Cons.prems(3) x w1 by (auto split: prod.splits)
  note st = vmo_write_contents [OF Cons.prems(1,2) w1]
  show ?case using Cons.IH [OF _ _ rs'(1)] st rs' x by auto
qed

lemma vmo_contents_fresh:
  assumes "phys_inv (km_phys w)" "create_with_size sz w = (Ok v, w')"
  shows "vmo_contents w' v = replicate (vmo_size v) 0"
proof (rule nth_equalityI)
  fix i assume "i < length (vmo_contents w' v)"
  then have i: "i < vmo_size v" by (simp add: vmo_contents_def)
  have "i div PAGE_SIZE < page_count v"
    using create_with_size_wf(1) [OF assms] i by (intro offset_page) (auto simp: vmo_wf_def)
  then show "vmo_contents w' v ! i = replicate (vmo_size v) 0 ! i"
    using i create_with_size_wf(2) [OF assms] by (simp add: vmo_contents_def vmo_byte_def)
qed (simp add: vmo_contents_def)

text \<open>
  C5. A virtual memory object is a zero-filled byte array of its page-rounded size. Take the
  object \<open>create_with_size\<close> returns and perform any sequence of writes on it. Every write
  either reports the number of bytes that fit before the end of the object or fails for lack of
  memory; it never panics although pages are committed on demand behind the scenes. If no write
  failed, a read of any range returns that range of the zero-filled array with the written
  ranges replaced in order.
\<close>

theorem vmo_is_byte_array:
  assumes "phys_inv (km_phys w)" "create_with_size sz w = (Ok v0, w0)"
    and "vmo_writes ws v0 w0 = (rs, v, w')"
  shows "vmo_size v0 = pages_for sz * PAGE_SIZE
    \<and> list_all2 (\<lambda>r (off, bs). r = Ok (min (length bs) (vmo_size v0 - off)) \<or> r = Err NoMemory) rs ws
    \<and> (Err NoMemory \<in> set rs
       \<or> vmo_read off n v w' = Ok (take n (drop off
            (fold (\<lambda>(off, bs). splice off bs) ws (replicate (vmo_size v0) 0)))))"
proof -
  note ok = create_with_size_OkD [OF assms(2)]
  have "vmo_committed_pages v0 \<noteq> [] \<or> vmo_size v0 = 0" using ok by auto
  from vmo_writes_contents [OF create_with_size_wf(1) [OF assms(1,2)] this assms(3)] ok
  show ?thesis by (auto simp: vmo_read_contents vmo_contents_fresh [OF assms(1,2)])
qed

definition demo_kmem :: kmem where
  "demo_kmem = \<lparr>km_phys = demo_phys, km_hdr = (\<lambda>_. undefined), km_slot = (\<lambda>_. None),
                km_pat = (\<lambda>_. 0), km_vmo_id = 1\<rparr>"

lemma demo_pages: "pages_for 5000 = 2"
  by (simp add: pages_for_def)

lemma demo_meta_pages: "meta_pages_needed 2 = 1"
  by (simp add: meta_pages_needed_def layout_simps)

lemma demo_create:
  "fst (create_with_size 5000 demo_kmem) =
     Ok \<lparr>vmo_id = 1, vmo_meta_page = 0x40080000, vmo_size = 8192, vmo_is_cow = False, vmo_parent_id = None,
         vmo_extra_meta_pages = replicate 8 None, vmo_committed_pages = replicate 2 None\<rparr>"
  by (simp add: create_with_size_def create_meta_def demo_pages demo_meta_pages alloc_meta_def demo_kmem_def
      alloc_vmo_meta_def demo_alloc next_vmo_id_def PAGE_SIZE_def VMO_MAX_PAGES_def Let_def)

theorem vmo_is_byte_array_witness:
  "\<exists>v0 w0 rs v w. create_with_size 5000 demo_kmem = (Ok v0, w0)
     \<and> vmo_writes [(4094, [1, 2, 3]), (4095, [7])] v0 w0 = (rs, v, w)
     \<and> (Err NoMemory \<in> set rs \<or> rs = [Ok 3, Ok 1] \<and> vmo_read 4093 5 v w = Ok [0, 1, 7, 3, 0])"
proof -
  obtain v0 w0 where c: "create_with_size 5000 demo_kmem = (Ok v0, w0)"
    using demo_create by (metis prod.collapse)
  have sz: "vmo_size v0 = 8192" using demo_create c by simp
  obtain rs v w where ws: "vmo_writes [(4094, [1, 2, 3]), (4095, [7])] v0 w0 = (rs, v, w)"
    by (metis prod_cases3)
  have "phys_inv (km_phys demo_kmem)" by (simp add: demo_kmem_def demo_phys_inv)
  from vmo_is_byte_array [OF this c ws, of 4093 5] sz
  have "list_all2 (\<lambda>r (off, bs). r = Ok (min (length bs) (8192 - off)) \<or> r = Err NoMemory) rs
          [(4094, [1, 2, 3 :: u8]), (4095, [7])]"
    and "Err NoMemory \<in> set rs \<or> vmo_read 4093 5 v w = Ok (take 5 (drop 4093
            (fold (\<lambda>(off, bs). splice off bs) [(4094, [1, 2, 3]), (4095, [7])] (replicate 8192 0))))"
    by auto
  moreover have "take 5 (drop 4093 (fold (\<lambda>(off, bs). splice off bs)
      [(4094, [1, 2, 3 :: u8]), (4095, [7])] (replicate 8192 0))) = [0, 1, 7, 3, 0]"
  proof -
    have "take 5 (drop 4093 xs) = map (\<lambda>i. xs ! (4093 + i)) [0..<5]" if "length xs = 8192" for xs :: "u8 list"
      using that by (intro nth_equalityI) auto
    then show ?thesis by (simp add: nth_splice upt_rec)
  qed
  ultimately show ?thesis using c ws by (auto simp: list_all2_Cons2)
qed

lemma drop_phys_page_tags:
  assumes "drop_phys_page pa s = (r, s')"
  shows "page_tags s n = 0 \<Longrightarrow> page_tags s' n = 0"
  using assms
  by (auto simp: drop_phys_page_def free_page_def Let_def split: if_splits)

lemma drop_phys_pages_tags:
  "drop_phys_pages pas s = (r, s') \<Longrightarrow> page_tags s n = 0 \<Longrightarrow> page_tags s' n = 0"
proof (induction pas arbitrary: s)
  case Nil
  then show ?case by simp
next
  case (Cons pa pas)
  obtain r1 s1 where d: "drop_phys_page pa s = (r1, s1)" by (metis prod.exhaust)
  with Cons.prems drop_phys_page_tags [OF d] show ?case
    by (cases r1) (auto intro: Cons.IH)
qed

lemma drop_phys_page_freed:
  assumes "drop_phys_page pa s = (Ok (), s')" "pa \<noteq> 0"
  shows "page_tags s' (pa_to_pfn pa) = 0"
  using assms by (auto simp: drop_phys_page_def free_page_def Let_def split: if_splits)

lemma drop_phys_page_twice:
  assumes "page_tags s (pa_to_pfn pa) = 0" "pa \<noteq> 0"
  shows "drop_phys_page pa s = (Panic, s)"
  using assms by (simp add: drop_phys_page_def free_page_def Let_def)

text \<open>
  Dropping a VMO and a clone of it aborts the kernel. \<open>Clone\<close> builds new owners for the
  same frames and the original keeps its own, so once one of the two has been dropped, dropping
  the other releases the metadata frame a second time. A duplicated VMO handle holds such a
  clone, so closing both handles reaches this.
\<close>

theorem clone_drop_panics:
  assumes "vmo_meta_page v \<noteq> 0" "vmo_drop v w = (Ok (), w')"
  shows "fst (vmo_drop (vmo_clone v) w') = Panic"
proof -
  obtain s1 s2 where s1: "drop_phys_page (vmo_meta_page v) (km_phys w) = (Ok (), s1)"
    and s2: "drop_phys_pages (live_slots (vmo_extra_meta_pages v) @ live_slots (vmo_committed_pages v)) s1 = (Ok (), s2)"
    and w': "w' = w\<lparr>km_phys := s2\<rparr>"
    using assms(2) by (auto simp: vmo_drop_def vmo_owned_def split: prod.splits res.splits)
  have "page_tags s2 (pa_to_pfn (vmo_meta_page v)) = 0"
    using drop_phys_page_freed [OF s1 assms(1)] by (rule drop_phys_pages_tags [OF s2])
  from drop_phys_page_twice [OF this assms(1)] show ?thesis
    using w' by (simp add: vmo_drop_def vmo_owned_def vmo_clone_def)
qed

lemma demo_create_phys:
  "km_phys (snd (create_with_size 5000 demo_kmem)) = take_page TagVmoData 0x40080000 demo_phys"
  by (simp add: create_with_size_def create_meta_def demo_pages demo_meta_pages alloc_meta_def demo_kmem_def
      alloc_vmo_meta_def demo_alloc next_vmo_id_def PAGE_SIZE_def VMO_MAX_PAGES_def Let_def)

theorem clone_drop_panics_witness:
  "\<exists>v w w'. create_with_size 5000 demo_kmem = (Ok v, w) \<and> vmo_drop v w = (Ok (), w')
     \<and> fst (vmo_drop (vmo_clone v) w') = Panic"
proof -
  obtain v w where c: "create_with_size 5000 demo_kmem = (Ok v, w)"
    using demo_create by (metis prod.collapse)
  have v: "vmo_owned v = [0x40080000]"
    using demo_create c by (simp add: vmo_owned_def numeral_2_eq_2)
  have "fst (vmo_drop v w) = Ok ()"
    using v c demo_create_phys
    by (simp add: vmo_drop_def drop_phys_page_def free_page_def take_page_def pa_valid_def RAM_BASE_def RAM_SIZE_def
        Let_def split: prod.splits)
  then obtain w' where d: "vmo_drop v w = (Ok (), w')" by (metis prod.collapse)
  have "vmo_meta_page v \<noteq> 0" using v by (simp add: vmo_owned_def)
  from clone_drop_panics [OF this d] c d show ?thesis by blast
qed

text \<open>
  The bounds check of \<open>create_child_slice\<close> wraps. A caller that asks for two pages
  starting at the last page of the address space passes the check, since \<open>offset + size\<close> is
  4096 modulo \<open>2^64\<close>, and the slice then indexes the parent's page array out of range: whenever
  the new object's own metadata can be allocated, the kernel panics.
\<close>

theorem child_slice_wraps:
  assumes "vmo_committed_pages parent \<noteq> []" "length (vmo_committed_pages parent) \<le> VMO_MAX_PAGES"
    and "PAGE_SIZE \<le> vmo_size parent"
    and "create_with_size 8192 w = (Ok c, w')"
  shows "fst (create_child_slice new_id 0xFFFFFFFFFFFFF000 8192 parent w) = Panic"
proof -
  have "unat (0xFFFFFFFFFFFFF000 :: u64) div PAGE_SIZE = 4503599627370495"
    by (simp add: PAGE_SIZE_def)
  moreover have "(0xFFFFFFFFFFFFF000 :: u64) AND 4095 = 0" by simp
  ultimately show ?thesis
    using assms by (simp add: create_child_slice_def Let_def PAGE_SIZE_def VMO_MAX_PAGES_def)
qed

theorem child_slice_wraps_witness:
  "\<exists>v w. create_with_size 5000 demo_kmem = (Ok v, w)
     \<and> fst (create_child_slice 9 0xFFFFFFFFFFFFF000 8192 v demo_kmem) = Panic"
proof -
  obtain v w where c: "create_with_size 5000 demo_kmem = (Ok v, w)"
    using demo_create by (metis prod.collapse)
  have v: "vmo_size v = 8192" "vmo_committed_pages v = replicate 2 None"
    using demo_create c by simp_all
  have p: "pages_for 8192 = 2" by (simp add: pages_for_def)
  have "\<exists>c'. fst (create_with_size 8192 demo_kmem) = Ok c'"
    by (simp add: create_with_size_def create_meta_def p demo_meta_pages alloc_meta_def demo_kmem_def
      alloc_vmo_meta_def demo_alloc next_vmo_id_def PAGE_SIZE_def VMO_MAX_PAGES_def Let_def)
  then obtain c' w' where "create_with_size 8192 demo_kmem = (Ok c', w')" by (metis prod.collapse)
  from child_slice_wraps [OF _ _ _ this, of v 9] v c show ?thesis
    by (auto simp: PAGE_SIZE_def VMO_MAX_PAGES_def)
qed

end
