(* ===== verification/Vmar.thy ===== *)
theory Vmar
  imports Phys_Alloc
begin

text \<open>
  Virtual memory address regions, \<open>kernel/src/memory/vmar.rs\<close>. Addresses and sizes stay 64-bit
  words, because the code adds them without overflow checks. The first-fit search of
  \<open>allocate_subregion\<close> is an unbounded \<open>loop\<close>: here it is a partial function whose value
  \<open>None\<close> means that it does not return, and its termination is proved for well-formed regions.
\<close>

section \<open>Data\<close>

type_synonym vmar_flags = u32

definition VMAR_READ :: vmar_flags where "VMAR_READ = 1"
definition VMAR_WRITE :: vmar_flags where "VMAR_WRITE = 2"
definition VMAR_EXECUTE :: vmar_flags where "VMAR_EXECUTE = 4"
definition VMAR_USER :: vmar_flags where "VMAR_USER = 8"

definition readable :: "vmar_flags \<Rightarrow> bool" where "readable f \<longleftrightarrow> f AND VMAR_READ \<noteq> 0"
definition writable :: "vmar_flags \<Rightarrow> bool" where "writable f \<longleftrightarrow> f AND VMAR_WRITE \<noteq> 0"
definition executable :: "vmar_flags \<Rightarrow> bool" where "executable f \<longleftrightarrow> f AND VMAR_EXECUTE \<noteq> 0"
definition user :: "vmar_flags \<Rightarrow> bool" where "user f \<longleftrightarrow> f AND VMAR_USER \<noteq> 0"

definition MAX_CHILDREN :: nat where "MAX_CHILDREN = 32"
definition MAX_MAPPINGS :: nat where "MAX_MAPPINGS = 32"

record mapping_entry =
  mp_vmo_id :: u64
  mp_vmo_offset :: usize
  mp_virt_addr :: usize
  mp_size :: usize
  mp_flags :: vmar_flags
  mp_installed :: bool

record sub_region =
  sr_base :: usize
  sr_size :: usize
  sr_meta_pa :: "nat option"

record vmar =
  vmar_base :: usize
  vmar_size :: usize
  vmar_meta_page :: nat
  vmar_children :: "sub_region list"
  vmar_mappings :: "mapping_entry list"

section \<open>Operations\<close>

definition page_round :: "usize \<Rightarrow> usize" where
  "page_round x = (x + 4095) AND NOT 4095"

definition vmar_create :: "usize \<Rightarrow> usize \<Rightarrow> phys \<Rightarrow> vmar res \<times> phys" where
  "vmar_create base sz s =
     (if base AND 4095 \<noteq> 0 \<or> sz = 0 then (Err InvalidArgs, s)
      else case alloc_vmar_meta s of
        (Ok pa, s') \<Rightarrow>
          (Ok \<lparr>vmar_base = base, vmar_size = page_round sz, vmar_meta_page = pa,
               vmar_children = [], vmar_mappings = []\<rparr>, s')
      | (Err e, s') \<Rightarrow> (Err e, s')
      | (Panic, s') \<Rightarrow> (Panic, s'))"

definition overlaps :: "usize \<Rightarrow> usize \<Rightarrow> usize \<Rightarrow> usize \<Rightarrow> bool" where
  "overlaps candidate sz b s \<longleftrightarrow> candidate < b + s \<and> b < candidate + sz"

text \<open>The two inner \<open>for\<close> loops: the first live child, else the first mapping, in the way.\<close>

definition blocker :: "vmar \<Rightarrow> usize \<Rightarrow> usize \<Rightarrow> (usize \<times> usize) option" where
  "blocker v sz candidate =
     (case find (\<lambda>c. sr_meta_pa c \<noteq> None \<and> overlaps candidate sz (sr_base c) (sr_size c)) (vmar_children v) of
        Some c \<Rightarrow> Some (sr_base c, sr_size c)
      | None \<Rightarrow>
          (case find (\<lambda>m. overlaps candidate sz (mp_virt_addr m) (mp_size m)) (vmar_mappings v) of
             Some m \<Rightarrow> Some (mp_virt_addr m, mp_size m)
           | None \<Rightarrow> None))"

partial_function (option) search_gap :: "vmar \<Rightarrow> usize \<Rightarrow> usize \<Rightarrow> usize res option" where
  "search_gap v sz candidate =
     (if vmar_base v + vmar_size v < candidate + sz then Some (Err NoMemory)
      else case blocker v sz candidate of
        Some b \<Rightarrow> search_gap v sz (page_round (fst b + snd b))
      | None \<Rightarrow> Some (Ok candidate))"

definition allocate_subregion :: "usize \<Rightarrow> vmar \<Rightarrow> phys \<Rightarrow> (vmar res \<times> vmar \<times> phys) option" where
  "allocate_subregion sz v s =
     (if sz = 0 then Some (Err InvalidArgs, v, s)
      else let size' = page_round sz in
        if MAX_CHILDREN \<le> length (vmar_children v) then Some (Err NoMemory, v, s)
        else case search_gap v size' (vmar_base v) of
          None \<Rightarrow> None
        | Some (Ok candidate) \<Rightarrow>
            (case vmar_create candidate size' s of
               (Ok child, s') \<Rightarrow>
                 Some (Ok child,
                   v\<lparr>vmar_children := vmar_children v @
                      [\<lparr>sr_base = candidate, sr_size = size', sr_meta_pa = Some (vmar_meta_page child)\<rparr>]\<rparr>, s')
             | (Err e, s') \<Rightarrow> Some (Err e, v, s')
             | (Panic, s') \<Rightarrow> Some (Panic, v, s'))
        | Some (Err e) \<Rightarrow> Some (Err e, v, s)
        | Some Panic \<Rightarrow> Some (Panic, v, s))"

definition reserve_mapping ::
  "u64 \<Rightarrow> usize \<Rightarrow> usize \<Rightarrow> usize \<Rightarrow> vmar_flags \<Rightarrow> vmar \<Rightarrow> unit res \<times> vmar" where
  "reserve_mapping vid vmo_offset virt_addr sz flags v =
     (if sz = 0 \<or> virt_addr AND 4095 \<noteq> 0 \<or> vmo_offset AND 4095 \<noteq> 0 then (Err InvalidArgs, v)
      else if virt_addr < vmar_base v \<or> vmar_base v + vmar_size v < virt_addr + sz then (Err InvalidArgs, v)
      else if MAX_MAPPINGS \<le> length (vmar_mappings v) then (Err NoMemory, v)
      else (Ok (), v\<lparr>vmar_mappings := vmar_mappings v @
              [\<lparr>mp_vmo_id = vid, mp_vmo_offset = vmo_offset, mp_virt_addr = virt_addr, mp_size = sz,
                mp_flags = flags, mp_installed = True\<rparr>]\<rparr>))"

section \<open>Well-formed regions\<close>

text \<open>Occupied ranges of a region, over the naturals: a list of (start, length).\<close>

definition occupied :: "vmar \<Rightarrow> (nat \<times> nat) list" where
  "occupied v = map (\<lambda>c. (unat (sr_base c), unat (sr_size c))) (vmar_children v)
     @ map (\<lambda>m. (unat (mp_virt_addr m), unat (mp_size m))) (vmar_mappings v)"

definition vmar_end :: "vmar \<Rightarrow> nat" where
  "vmar_end v = unat (vmar_base v) + unat (vmar_size v)"

definition disjoint_ranges :: "nat \<times> nat \<Rightarrow> nat \<times> nat \<Rightarrow> bool" where
  "disjoint_ranges a b \<longleftrightarrow> fst a + snd a \<le> fst b \<or> fst b + snd b \<le> fst a"

definition free_range :: "vmar \<Rightarrow> nat \<Rightarrow> nat \<Rightarrow> bool" where
  "free_range v n p \<longleftrightarrow> 4096 dvd p \<and> unat (vmar_base v) \<le> p \<and> p + n \<le> vmar_end v
     \<and> (\<forall>r\<in>set (occupied v). disjoint_ranges (p, n) r)"

definition vmar_wf :: "vmar \<Rightarrow> bool" where
  "vmar_wf v \<longleftrightarrow>
     4096 dvd unat (vmar_base v) \<and> 4096 dvd unat (vmar_size v) \<and> vmar_end v < 2 ^ 64
     \<and> (\<forall>c\<in>set (vmar_children v). sr_meta_pa c \<noteq> None)
     \<and> (\<forall>r\<in>set (occupied v). unat (vmar_base v) \<le> fst r \<and> fst r + snd r \<le> vmar_end v \<and> 0 < snd r)
     \<and> sorted_wrt disjoint_ranges (map (\<lambda>c. (unat (sr_base c), unat (sr_size c))) (vmar_children v))"

lemma unat_page_round:
  assumes "unat x + 4095 < 2 ^ 64"
  shows "unat (page_round x) = (unat x + 4095) div 4096 * 4096"
proof -
  have "unat (x + 4095) = unat x + 4095" using assms by (subst unat_add_no_wrap) auto
  then show ?thesis
    by (simp only: page_round_def unat_and_not_4095 minus_mod_eq_div_mult)
qed

lemma round_up_bounds:
  fixes n :: nat
  shows "n \<le> (n + 4095) div 4096 * 4096" "4096 dvd (n + 4095) div 4096 * 4096"
    "4096 dvd e \<Longrightarrow> n \<le> e \<Longrightarrow> (n + 4095) div 4096 * 4096 \<le> e"
    "4096 dvd p \<Longrightarrow> p < (n + 4095) div 4096 * 4096 \<Longrightarrow> p < n"
proof -
  show "4096 dvd (n + 4095) div 4096 * 4096" by simp
  have m: "(n + 4095) mod 4096 < 4096" by simp
  have eq: "(n + 4095) div 4096 * 4096 = n + 4095 - (n + 4095) mod 4096"
    by (simp only: minus_mod_eq_div_mult)
  show "n \<le> (n + 4095) div 4096 * 4096" using m eq by linarith
  show "4096 dvd e \<Longrightarrow> n \<le> e \<Longrightarrow> (n + 4095) div 4096 * 4096 \<le> e"
    by (auto elim!: dvdE)
  show "4096 dvd p \<Longrightarrow> p < (n + 4095) div 4096 * 4096 \<Longrightarrow> p < n"
    by (auto elim!: dvdE) 
qed


lemma blocker_SomeD:
  assumes "blocker v sz p = Some (b, s)"
  shows "(unat b, unat s) \<in> set (occupied v) \<and> overlaps p sz b s"
  using assms by (auto simp: blocker_def occupied_def dest!: find_SomeD split: option.splits)

lemma blocker_NoneD:
  assumes "blocker v sz p = None" "vmar_wf v" "r \<in> set (occupied v)"
  shows "\<exists>b s. r = (unat b, unat s) \<and> \<not> overlaps p sz b s"
proof -
  let ?C = "\<lambda>c. sr_meta_pa c \<noteq> None \<and> overlaps p sz (sr_base c) (sr_size c)"
  let ?M = "\<lambda>m. overlaps p sz (mp_virt_addr m) (mp_size m)"
  have none: "find ?C (vmar_children v) = None" "find ?M (vmar_mappings v) = None"
    using assms(1) by (auto simp: blocker_def split: option.splits)
  have live: "\<forall>c\<in>set (vmar_children v). sr_meta_pa c \<noteq> None" using assms(2) by (simp add: vmar_wf_def)
  from assms(3) consider c where "c \<in> set (vmar_children v)" "r = (unat (sr_base c), unat (sr_size c))"
    | m where "m \<in> set (vmar_mappings v)" "r = (unat (mp_virt_addr m), unat (mp_size m))"
    by (auto simp: occupied_def)
  then show ?thesis
  proof cases
    case 1
    with find_NoneD [OF none(1) 1(1)] live show ?thesis by blast
  next
    case 2
    with find_NoneD [OF none(2) 2(1)] show ?thesis by blast
  qed
qed

lemma overlaps_ranges:
  assumes "unat b + unat s < 2 ^ 64" "unat p + unat sz < 2 ^ 64" "0 < unat s" "0 < unat sz"
  shows "overlaps p sz b s \<longleftrightarrow> \<not> disjoint_ranges (unat p, unat sz) (unat b, unat s)"
  using assms by (auto simp: overlaps_def disjoint_ranges_def word_less_nat_alt unat_add_no_wrap)

text \<open>
  The search returns, and it is first fit: the lowest page-aligned free range, or an error when
  there is none. \<open>room\<close> excludes sizes whose sums with region addresses wrap.
\<close>

lemma search_gap_spec:
  assumes wf: "vmar_wf v" and room: "vmar_end v + unat sz < 2 ^ 64" "0 < unat sz"
    and p: "4096 dvd unat p" "unat (vmar_base v) \<le> unat p" "unat p \<le> vmar_end v"
  shows "\<exists>r. search_gap v sz p = Some r
    \<and> (case r of
         Ok q \<Rightarrow> unat p \<le> unat q \<and> free_range v (unat sz) (unat q)
                 \<and> (\<forall>x. unat p \<le> x \<and> x < unat q \<longrightarrow> \<not> free_range v (unat sz) x)
       | Err e \<Rightarrow> e = NoMemory \<and> (\<forall>x\<ge>unat p. \<not> free_range v (unat sz) x)
       | Panic \<Rightarrow> False)"
  using p
proof (induction "vmar_end v - unat p" arbitrary: p rule: less_induct)
  case less
  have ends: "unat (vmar_base v + vmar_size v) = vmar_end v"
    using wf by (simp add: vmar_end_def vmar_wf_def unat_add_no_wrap)
  have psz: "unat (p + sz) = unat p + unat sz"
    using room less.prems by (simp add: unat_add_no_wrap)
  show ?case
  proof (cases "vmar_end v < unat p + unat sz")
    case True
    then have "search_gap v sz p = Some (Err NoMemory)"
      by (simp add: search_gap.simps word_less_nat_alt ends psz)
    with True show ?thesis by (auto simp: free_range_def)
  next
    case False
    then have step: "search_gap v sz p = (case blocker v sz p of
        Some b \<Rightarrow> search_gap v sz (page_round (fst b + snd b)) | None \<Rightarrow> Some (Ok p))"
      by (subst search_gap.simps) (simp add: word_less_nat_alt ends psz)
    have rng: "unat b + unat s \<le> vmar_end v \<and> 0 < unat s \<and> unat (vmar_base v) \<le> unat b"
      if "(unat b, unat s) \<in> set (occupied v)" for b s
      using wf that by (force simp: vmar_wf_def)
    have ov: "overlaps p sz b s \<longleftrightarrow> \<not> disjoint_ranges (unat p, unat sz) (unat b, unat s)"
      if "(unat b, unat s) \<in> set (occupied v)" for b s
      using rng [OF that] room less.prems by (intro overlaps_ranges) auto
    show ?thesis
    proof (cases "blocker v sz p")
      case None
      have "free_range v (unat sz) (unat p)"
        using blocker_NoneD [OF None wf] ov False less.prems by (fastforce simp: free_range_def)
      with None step show ?thesis by auto
    next
      case (Some bs)
      obtain b s where bs: "bs = (b, s)" by (cases bs)
      from blocker_SomeD [OF Some [unfolded bs]]
      have occ: "(unat b, unat s) \<in> set (occupied v)" and o: "overlaps p sz b s" by auto
      note r = rng [OF occ]
      let ?q = "page_round (b + s)"
      have sum: "unat (b + s) = unat b + unat s" using r room by (simp add: unat_add_no_wrap)
      have al: "4096 dvd vmar_end v" using wf by (simp add: vmar_wf_def vmar_end_def)
      have "vmar_end v + 4095 < 2 ^ 64"
      proof -
        from al obtain k where k: "vmar_end v = 4096 * k" by (rule dvdE)
        then have "k < 4503599627370496" using room by simp
        then show ?thesis using k by simp
      qed
      then have q: "unat ?q = (unat b + unat s + 4095) div 4096 * 4096"
        using r sum by (subst unat_page_round) simp_all
      have hit: "unat p < unat b + unat s" "unat b < unat p + unat sz"
        using o ov [OF occ] by (auto simp: disjoint_ranges_def)
      have q': "4096 dvd unat ?q" "unat p < unat ?q" "unat ?q \<le> vmar_end v"
        using q hit r al round_up_bounds [of "unat b + unat s"] by auto
      have skip: "\<not> free_range v (unat sz) x" if "unat p \<le> x" "x < unat ?q" for x
      proof
        assume f: "free_range v (unat sz) x"
        then have "x < unat b + unat s"
          using that(2) q round_up_bounds(4) [of x "unat b + unat s"] by (simp add: free_range_def)
        moreover have "disjoint_ranges (x, unat sz) (unat b, unat s)" using f occ by (auto simp: free_range_def)
        ultimately show False using that(1) hit by (auto simp: disjoint_ranges_def)
      qed
      have "vmar_end v - unat ?q < vmar_end v - unat p" using q' by linarith
      from less.hyps [OF this q'(1) _ q'(3)] q'(2) less.prems(2)
      obtain res where res: "search_gap v sz ?q = Some res"
        "case res of Ok q \<Rightarrow> unat ?q \<le> unat q \<and> free_range v (unat sz) (unat q)
                 \<and> (\<forall>x. unat ?q \<le> x \<and> x < unat q \<longrightarrow> \<not> free_range v (unat sz) x)
         | Err e \<Rightarrow> e = NoMemory \<and> (\<forall>x\<ge>unat ?q. \<not> free_range v (unat sz) x) | Panic \<Rightarrow> False"
        by auto
      have "search_gap v sz p = Some res" using step Some bs res(1) by simp
      moreover have "case res of Ok q \<Rightarrow> unat p \<le> unat q \<and> free_range v (unat sz) (unat q)
                 \<and> (\<forall>x. unat p \<le> x \<and> x < unat q \<longrightarrow> \<not> free_range v (unat sz) x)
         | Err e \<Rightarrow> e = NoMemory \<and> (\<forall>x\<ge>unat p. \<not> free_range v (unat sz) x) | Panic \<Rightarrow> False"
        using res(2) skip q'(2) by (cases res) (auto simp: not_le intro: leI)
      ultimately show ?thesis by blast
    qed
  qed
qed


section \<open>What the operations guarantee\<close>

lemma vmar_create_OkD:
  assumes "vmar_create base sz s = (Ok v, s')"
  shows "vmar_base v = base \<and> vmar_size v = page_round sz \<and> vmar_children v = [] \<and> vmar_mappings v = []
    \<and> alloc_vmar_meta s = (Ok (vmar_meta_page v), s') \<and> 4096 dvd unat base"
  using assms
  by (cases "alloc_vmar_meta s"; cases "fst (alloc_vmar_meta s)")
    (auto simp: vmar_create_def page_aligned_iff split: if_splits)

lemma vmar_create_wf:
  assumes "vmar_create base sz s = (Ok v, s')" "unat base + unat sz + 4095 < 2 ^ 64"
  shows "vmar_wf v"
proof -
  have "unat (page_round sz) = (unat sz + 4095) div 4096 * 4096"
    using assms(2) by (intro unat_page_round) simp
  moreover have "(unat sz + 4095) div 4096 * 4096 \<le> unat sz + 4095" by simp
  ultimately show ?thesis
    using vmar_create_OkD [OF assms(1)] assms(2)
    by (simp add: vmar_wf_def vmar_end_def occupied_def)
qed

lemma vmar_wf_add_child:
  assumes wf: "vmar_wf v" and fr: "free_range v (unat sz) (unat b)" and sz: "0 < unat sz"
  shows "vmar_wf (v\<lparr>vmar_children := vmar_children v @ [\<lparr>sr_base = b, sr_size = sz, sr_meta_pa = Some pa\<rparr>]\<rparr>)"
  using assms
  by (auto simp: vmar_wf_def vmar_end_def occupied_def free_range_def sorted_wrt_append disjoint_ranges_def ball_Un)


definition demo_vmar :: vmar where
  "demo_vmar = \<lparr>vmar_base = 0x10000000, vmar_size = 0x10000, vmar_meta_page = 0x40001000,
     vmar_children = [\<lparr>sr_base = 0x10000000, sr_size = 0x2000, sr_meta_pa = Some 0x40002000\<rparr>],
     vmar_mappings = [\<lparr>mp_vmo_id = 1, mp_vmo_offset = 0, mp_virt_addr = 0x10003000, mp_size = 0x1000,
                       mp_flags = VMAR_READ, mp_installed = True\<rparr>]\<rparr>"


text \<open>
  \<open>reserve_mapping\<close> does not keep a region well formed. Its bounds check adds
  \<open>virt_addr + size\<close> modulo \<open>2^64\<close> and it never looks at the ranges already in use: inside
  any region that ends below the top of the address space, every page-aligned start address
  is accepted together with a size that reaches past the end of the address space, even where
  another mapping or child already lies.
\<close>

theorem reserve_mapping_wraps:
  assumes "vmar_wf v" "vmar_base v < vmar_base v + vmar_size v" "0 < vmar_base v"
    and "4096 dvd unat va" "vmar_base v \<le> va" "length (vmar_mappings v) < MAX_MAPPINGS"
  shows "\<exists>v'. reserve_mapping vid 0 va (- va) flags v = (Ok (), v')
     \<and> vmar_mappings v' \<noteq> [] \<and> unat va + unat (- va) = 2 ^ 64 \<and> \<not> vmar_wf v'"
proof -
  have va: "va \<noteq> 0" using assms(3,5) by auto
  have full: "unat va + unat (- va) = 2 ^ 64"
  proof -
    have "(unat va + unat (- va)) mod 2 ^ 64 = unat (va + - va)" by (simp only: unat_word_ariths) simp
    then have "2 ^ 64 dvd unat va + unat (- va)" by (simp add: mod_eq_0_iff_dvd)
    moreover have "0 < unat va" "unat va < 2 ^ 64" "unat (- va) < 2 ^ 64"
      using va unat_bound [of va] unat_bound [of "- va"] by (auto simp: unat_gt_0)
    ultimately show ?thesis by (auto elim!: dvdE simp: less_Suc_eq)
  qed
  show ?thesis
    using assms va full
    by (auto simp: reserve_mapping_def page_aligned_iff vmar_wf_def occupied_def vmar_end_def not_less
        word_le_nat_alt word_less_nat_alt)
qed

theorem reserve_mapping_wraps_witness:
  "vmar_wf demo_vmar \<and> (\<exists>v'. reserve_mapping 7 0 0x10003000 (- 0x10003000) VMAR_WRITE demo_vmar = (Ok (), v')
      \<and> \<not> vmar_wf v')"
proof -
  have wf: "vmar_wf demo_vmar"
    by (simp add: demo_vmar_def vmar_wf_def vmar_end_def occupied_def)
  have "vmar_base demo_vmar < vmar_base demo_vmar + vmar_size demo_vmar" "0 < vmar_base demo_vmar"
    "4096 dvd unat (0x10003000 :: u64)" "vmar_base demo_vmar \<le> 0x10003000"
    "length (vmar_mappings demo_vmar) < MAX_MAPPINGS"
    by (simp_all add: demo_vmar_def MAX_MAPPINGS_def)
  from reserve_mapping_wraps [OF wf this, of 7 VMAR_WRITE] wf show ?thesis by blast
qed

end
