(* ===== verification/Fifo.thy ===== *)
theory Fifo
  imports Prelude
begin

text \<open>
  The interface of the kernel's bounded queues. The ready queues of the scheduler, the waiter
  lists of a channel endpoint, the packet ring of a port and the byte ring of a pipe all
  promise the same: a first-in first-out list of at most \<open>cap\<close> elements, where a push on a
  full queue is refused without effect and a pop on an empty queue returns nothing. The
  contract is stated once as a locale; each component interprets it on its own operations.
\<close>

datatype 'a fifo_op = Push 'a | Pop

datatype 'a fifo_obs = Pushed bool | Popped "'a option"

text \<open>The abstract queue: a list with a capacity.\<close>

fun spec_step :: "nat \<Rightarrow> 'a fifo_op \<Rightarrow> 'a list \<Rightarrow> 'a fifo_obs \<times> 'a list" where
  "spec_step c (Push x) xs =
     (if length xs < c then (Pushed True, xs @ [x]) else (Pushed False, xs))"
| "spec_step c Pop [] = (Popped None, [])"
| "spec_step c Pop (x # xs) = (Popped (Some x), xs)"

fun spec_run :: "nat \<Rightarrow> 'a fifo_op list \<Rightarrow> 'a list \<Rightarrow> 'a fifo_obs list \<times> 'a list" where
  "spec_run c [] xs = ([], xs)"
| "spec_run c (p # ps) xs =
     (let (b, ys) = spec_step c p xs; (bs, zs) = spec_run c ps ys in (b # bs, zs))"

text \<open>The same operation sequence on an implementation.\<close>

fun fifo_step ::
  "('a \<Rightarrow> 'q \<Rightarrow> bool \<times> 'q) \<Rightarrow> ('q \<Rightarrow> 'a option \<times> 'q) \<Rightarrow> 'a fifo_op \<Rightarrow> 'q \<Rightarrow> 'a fifo_obs \<times> 'q" where
  "fifo_step psh pp (Push x) q = (let (b, q') = psh x q in (Pushed b, q'))"
| "fifo_step psh pp Pop q = (let (v, q') = pp q in (Popped v, q'))"

fun fifo_run ::
  "('a \<Rightarrow> 'q \<Rightarrow> bool \<times> 'q) \<Rightarrow> ('q \<Rightarrow> 'a option \<times> 'q) \<Rightarrow> 'a fifo_op list \<Rightarrow> 'q \<Rightarrow> 'a fifo_obs list \<times> 'q" where
  "fifo_run psh pp [] q = ([], q)"
| "fifo_run psh pp (p # ps) q =
     (let (b, q') = fifo_step psh pp p q; (bs, q'') = fifo_run psh pp ps q' in (b # bs, q''))"

locale bounded_fifo =
  fixes cap :: nat
    and items :: "'q \<Rightarrow> 'a list"
    and wf :: "'q \<Rightarrow> bool"
    and push :: "'a \<Rightarrow> 'q \<Rightarrow> bool \<times> 'q"
    and pop :: "'q \<Rightarrow> 'a option \<times> 'q"
  assumes bound: "wf q \<Longrightarrow> length (items q) \<le> cap"
    and push_room: "wf q \<Longrightarrow> length (items q) < cap \<Longrightarrow>
          fst (push x q) \<and> items (snd (push x q)) = items q @ [x]"
    and push_full: "wf q \<Longrightarrow> length (items q) = cap \<Longrightarrow> push x q = (False, q)"
    and push_wf: "wf q \<Longrightarrow> wf (snd (push x q))"
    and pop_empty: "wf q \<Longrightarrow> items q = [] \<Longrightarrow> pop q = (None, q)"
    and pop_hd: "wf q \<Longrightarrow> items q = y # ys \<Longrightarrow>
          fst (pop q) = Some y \<and> items (snd (pop q)) = ys"
    and pop_wf: "wf q \<Longrightarrow> wf (snd (pop q))"
begin

lemma step_refines:
  assumes "wf q" and "fifo_step push pop p q = (b, q')"
  shows "spec_step cap p (items q) = (b, items q') \<and> wf q'"
proof (cases p)
  case (Push x)
  show ?thesis
  proof (cases "length (items q) < cap")
    case True
    with Push assms push_room [OF assms(1) True, of x] push_wf [OF assms(1), of x]
    show ?thesis by (auto split: prod.splits)
  next
    case False
    with bound [OF assms(1)] have "length (items q) = cap" by simp
    with Push assms push_full [OF assms(1), of x] show ?thesis by auto
  qed
next
  case Pop
  show ?thesis
  proof (cases "items q")
    case Nil
    with Pop assms pop_empty [OF assms(1)] show ?thesis by auto
  next
    case (Cons y ys)
    with Pop assms pop_hd [OF assms(1) Cons] pop_wf [OF assms(1)]
    show ?thesis by (auto split: prod.splits)
  qed
qed

lemma run_refines:
  assumes "wf q" and "fifo_run push pop ps q = (bs, q')"
  shows "spec_run cap ps (items q) = (bs, items q') \<and> wf q'"
  using assms
proof (induction ps arbitrary: q bs)
  case Nil
  then show ?case by simp
next
  case (Cons p ps)
  obtain b q1 where s: "fifo_step push pop p q = (b, q1)" by (cases "fifo_step push pop p q")
  obtain cs q2 where r: "fifo_run push pop ps q1 = (cs, q2)" by (cases "fifo_run push pop ps q1")
  from s r Cons.prems(2) have eq: "bs = b # cs" "q' = q2" by auto
  note step = step_refines [OF Cons.prems(1) s]
  with Cons.IH [of q1 cs] r eq show ?case by simp
qed

text \<open>Everything that fits comes out again, in order.\<close>

lemma run_push_all:
  assumes "wf q" and "length (items q) + length xs \<le> cap"
  shows "\<exists>q'. fifo_run push pop (map Push xs) q = (map (\<lambda>_. Pushed True) xs, q')
              \<and> items q' = items q @ xs \<and> wf q'"
  using assms
proof (induction xs arbitrary: q)
  case Nil
  then show ?case by simp
next
  case (Cons x xs)
  obtain b q1 where p: "push x q = (b, q1)" by (cases "push x q")
  from Cons.prems have room: "length (items q) < cap" by simp
  from push_room [OF Cons.prems(1) room, of x] push_wf [OF Cons.prems(1), of x] p
  have q1: "b" "items q1 = items q @ [x]" "wf q1" by auto
  with Cons.IH [OF q1(3)] Cons.prems(2) p show ?case by auto
qed

end

section \<open>Ring buffers\<close>

text \<open>
  A ring over an array of \<open>n\<close> cells keeps one cell free, so that equal indices mean empty and
  the capacity is \<open>n - 1\<close>.
\<close>

definition ring_count :: "nat \<Rightarrow> nat \<Rightarrow> nat \<Rightarrow> nat" where
  "ring_count n h t = (if h \<le> t then t - h else t + n - h)"

definition ring_items :: "nat \<Rightarrow> 'a list \<Rightarrow> nat \<Rightarrow> nat \<Rightarrow> 'a list" where
  "ring_items n xs h t = map (\<lambda>k. xs ! ((h + k) mod n)) [0..<ring_count n h t]"

lemma length_ring_items [simp]: "length (ring_items n xs h t) = ring_count n h t"
  by (simp add: ring_items_def)

lemma ring_count_less: "h < n \<Longrightarrow> t < n \<Longrightarrow> ring_count n h t < n"
  by (auto simp: ring_count_def)

lemma ring_next: "t < n \<Longrightarrow> Suc t mod n = (if Suc t = n then 0 else Suc t)"
  by (simp add: mod_Suc)

lemma ring_full: "h < n \<Longrightarrow> t < n \<Longrightarrow> (t + 1) mod n = h \<longleftrightarrow> ring_count n h t = n - 1"
  by (auto simp: ring_next ring_count_def)

lemma ring_empty: "h < n \<Longrightarrow> t < n \<Longrightarrow> ring_items n xs h t = [] \<longleftrightarrow> h = t"
  by (auto simp: ring_items_def ring_count_def)

lemma ring_index_ne:
  assumes "h < n" "t < n" "k < ring_count n h t"
  shows "t \<noteq> (h + k) mod n"
proof (cases "h + k < n")
  case True
  then show ?thesis using assms by (auto simp: ring_count_def split: if_splits)
next
  case False
  then have "(h + k) mod n = h + k - n" using assms ring_count_less [of h n t]
    by (simp add: le_mod_geq)
  then show ?thesis using assms False by (auto simp: ring_count_def split: if_splits)
qed

lemma ring_push:
  assumes "h < n" "t < n" "length xs = n" "(t + 1) mod n \<noteq> h"
  shows "ring_items n (xs[t := x]) h ((t + 1) mod n) = ring_items n xs h t @ [x]"
proof -
  have c: "ring_count n h ((t + 1) mod n) = Suc (ring_count n h t)"
    using assms by (auto simp: ring_next ring_count_def split: if_splits)
  have "(h + ring_count n h t) mod n = t"
    using assms by (auto simp: ring_count_def)
  then show ?thesis
    using assms ring_index_ne [OF assms(1,2)] by (simp add: ring_items_def c [simplified])
qed

lemma ring_pop:
  assumes "h < n" "t < n" "h \<noteq> t"
  shows "ring_items n xs h t = xs ! h # ring_items n xs ((h + 1) mod n) t"
proof -
  have c: "ring_count n h t = Suc (ring_count n ((h + 1) mod n) t)"
    using assms by (auto simp: ring_next ring_count_def split: if_splits)
  have "(h + Suc k) mod n = ((h + 1) mod n + k) mod n" for k
    by (simp add: mod_add_left_eq)
  with c assms show ?thesis
    by (simp only: ring_items_def c upt_conv_Cons [OF zero_less_Suc] map_Suc_upt [symmetric])
      (simp add: o_def)
qed

lemma ring_forget:
  assumes "h < n" "t < n" "h \<noteq> t"
  shows "ring_items n (xs[h := x]) ((h + 1) mod n) t = ring_items n xs ((h + 1) mod n) t"
proof -
  have "h \<noteq> ((h + 1) mod n + k) mod n" if "k < ring_count n ((h + 1) mod n) t" for k
  proof -
    have "ring_count n h t = Suc (ring_count n ((h + 1) mod n) t)"
      using assms by (auto simp: ring_next ring_count_def split: if_splits)
    then have k: "Suc k < n" using that ring_count_less [OF assms(1,2)] by linarith
    have e: "((h + 1) mod n + k) mod n = (h + Suc k) mod n" by (simp add: mod_add_left_eq)
    show ?thesis
    proof (cases "h + Suc k < n")
      case True
      then show ?thesis unfolding e by simp
    next
      case False
      then have "(h + Suc k) mod n = h + Suc k - n" using k assms by (simp add: le_mod_geq)
      then show ?thesis unfolding e using k False by linarith
    qed
  qed
  then show ?thesis by (auto simp: ring_items_def)
qed

text \<open>The cells between head and tail.\<close>

definition in_ring :: "nat \<Rightarrow> nat \<Rightarrow> nat \<Rightarrow> bool" where
  "in_ring h t i \<longleftrightarrow> (if h \<le> t then h \<le> i \<and> i < t else h \<le> i \<or> i < t)"

lemma ring_index_in:
  assumes "h < n" "t < n" "k < ring_count n h t"
  shows "in_ring h t ((h + k) mod n)"
proof (cases "h + k < n")
  case True
  then show ?thesis using assms by (auto simp: in_ring_def ring_count_def split: if_splits)
next
  case False
  then have "(h + k) mod n = h + k - n" using assms ring_count_less [of h n t] by (simp add: le_mod_geq)
  then show ?thesis using assms False by (auto simp: in_ring_def ring_count_def split: if_splits)
qed

lemma set_ring_items:
  assumes "h < n" "t < n"
  shows "set (ring_items n xs h t) \<subseteq> {xs ! i |i. i < n \<and> in_ring h t i}"
  using ring_index_in [OF assms] assms by (auto simp: ring_items_def intro!: exI)

lemma in_ring_push:
  "h < n \<Longrightarrow> t < n \<Longrightarrow> i < n \<Longrightarrow> (t + 1) mod n \<noteq> h \<Longrightarrow> in_ring h ((t + 1) mod n) i \<longleftrightarrow> i = t \<or> in_ring h t i"
  by (auto simp: in_ring_def ring_next split: if_splits)

lemma in_ring_pop:
  "h < n \<Longrightarrow> t < n \<Longrightarrow> i < n \<Longrightarrow> h \<noteq> t \<Longrightarrow> in_ring ((h + 1) mod n) t i \<longleftrightarrow> i \<noteq> h \<and> in_ring h t i"
  by (auto simp: in_ring_def ring_next split: if_splits)

end
