(* ===== verification/Port.thy ===== *)
theory Port
  imports Phys_Alloc Fifo
begin

text \<open>
  Port objects, \<open>kernel/src/ipc/port.rs\<close>: creation and the packet ring. The sixteen packet slots
  live in a frame the port allocates and nobody else addresses, so they are a field here. The
  blocking halves of \<open>wait\<close> and the hand-over to a waiter, which involve the scheduler, are
  modelled with the other blocking calls.
\<close>

section \<open>Data and operations\<close>

definition PORT_QUEUE_MAX :: nat where "PORT_QUEUE_MAX = 16"

record port_packet =
  pk_key :: u64
  pk_trigger :: u32
  pk_status :: i32
  pk_bytes :: "u8 list"

record port =
  port_id :: u32
  port_queue_len :: u32
  port_queue_va :: nat
  port_slots :: "port_packet option list"
  port_head :: nat
  port_tail :: nat
  port_waiter :: "nat option"

definition port_new :: "u32 \<Rightarrow> u32 \<Rightarrow> phys \<Rightarrow> port res \<times> u32 \<times> phys" where
  "port_new queue_len id_counter s =
     (if queue_len = 0 \<or> PORT_QUEUE_MAX < unat queue_len then (Err InvalidArgs, id_counter, s)
      else case alloc_kheap_page s of
        (Ok pa, s') \<Rightarrow>
          (Ok \<lparr>port_id = id_counter, port_queue_len = queue_len, port_queue_va = pa,
               port_slots = replicate PORT_QUEUE_MAX None, port_head = 0, port_tail = 0,
               port_waiter = None\<rparr>, id_counter + 1, s')
      | (Err e, s') \<Rightarrow> (Err e, id_counter, s')
      | (Panic, s') \<Rightarrow> (Panic, id_counter, s'))"

text \<open>The non-blocking part of \<open>wait\<close>: take the packet at the head, if any.\<close>

definition port_take :: "port \<Rightarrow> port_packet option \<times> port" where
  "port_take p =
     (if port_head p \<noteq> port_tail p then
        (case port_slots p ! port_head p of
           Some pkt \<Rightarrow> (Some pkt, p\<lparr>port_slots := (port_slots p)[port_head p := None],
                                  port_head := (port_head p + 1) mod PORT_QUEUE_MAX\<rparr>)
         | None \<Rightarrow> (None, p))
      else (None, p))"

text \<open>The same part of \<open>wait_with_timeout\<close>, which advances the head from the tail.\<close>

definition port_take_timeout :: "port \<Rightarrow> port_packet option \<times> port" where
  "port_take_timeout p =
     (if port_head p \<noteq> port_tail p then
        (case port_slots p ! port_head p of
           Some pkt \<Rightarrow> (Some pkt, p\<lparr>port_slots := (port_slots p)[port_head p := None],
                                  port_head := (port_tail p + 1) mod PORT_QUEUE_MAX\<rparr>)
         | None \<Rightarrow> (None, p))
      else (None, p))"

text \<open>The part of \<open>queue\<close> that runs when no thread waits.\<close>

definition port_put :: "port_packet \<Rightarrow> port \<Rightarrow> bool \<times> port" where
  "port_put pkt p =
     (let next_tail = (port_tail p + 1) mod PORT_QUEUE_MAX in
      if next_tail = port_head p then (False, p)
      else (True, p\<lparr>port_slots := (port_slots p)[port_tail p := Some pkt], port_tail := next_tail\<rparr>))"

section \<open>The ring\<close>

definition port_items :: "port \<Rightarrow> port_packet list" where
  "port_items p = map the (ring_items PORT_QUEUE_MAX (port_slots p) (port_head p) (port_tail p))"

definition port_wf :: "port \<Rightarrow> bool" where
  "port_wf p \<longleftrightarrow>
     length (port_slots p) = PORT_QUEUE_MAX \<and> port_head p < PORT_QUEUE_MAX \<and> port_tail p < PORT_QUEUE_MAX
     \<and> (\<forall>i<PORT_QUEUE_MAX. port_slots p ! i \<noteq> None \<longleftrightarrow> in_ring (port_head p) (port_tail p) i)"

lemma port_new_wf:
  assumes "port_new n c s = (Ok p, c', s')"
  shows "port_wf p \<and> port_items p = [] \<and> port_waiter p = None"
  using assms
  by (cases "alloc_kheap_page s"; cases "fst (alloc_kheap_page s)")
    (auto simp: port_new_def port_wf_def port_items_def ring_items_def ring_count_def PORT_QUEUE_MAX_def
      in_ring_def split: if_splits)

lemma port_empty: "port_wf p \<Longrightarrow> port_items p = [] \<longleftrightarrow> port_head p = port_tail p"
  by (simp add: port_items_def port_wf_def ring_empty)

lemma port_take_step:
  assumes wf: "port_wf p" and ne: "port_head p \<noteq> port_tail p"
  shows "\<exists>pkt. fst (port_take p) = Some pkt \<and> port_wf (snd (port_take p))
    \<and> port_items p = pkt # port_items (snd (port_take p))"
proof -
  let ?n = PORT_QUEUE_MAX and ?xs = "port_slots p" and ?h = "port_head p" and ?t = "port_tail p"
  have bnd: "?h < ?n" "?t < ?n" using wf by (auto simp: port_wf_def)
  have step: "ring_items ?n ?xs ?h ?t = ?xs ! ?h # ring_items ?n ?xs ((?h + 1) mod ?n) ?t"
    by (rule ring_pop [OF bnd ne])
  have "in_ring ?h ?t ?h" using ne by (simp add: in_ring_def)
  then obtain pkt where pkt: "?xs ! ?h = Some pkt" using wf bnd by (auto simp: port_wf_def)
  have take: "port_take p = (Some pkt, p\<lparr>port_slots := ?xs[?h := None], port_head := (?h + 1) mod ?n\<rparr>)"
    using ne pkt by (simp add: port_take_def)
  have "(?h + 1) mod ?n < ?n" by (simp add: PORT_QUEUE_MAX_def)
  then have "port_wf (snd (port_take p))"
    using wf in_ring_pop [OF bnd _ ne] by (simp add: take port_wf_def nth_list_update)
  moreover have "port_items p = pkt # port_items (snd (port_take p))"
    unfolding port_items_def take step using pkt ring_forget [OF bnd ne, of ?xs None] by simp
  ultimately show ?thesis using take by simp
qed

interpretation port_ring: bounded_fifo 15 port_items port_wf port_put port_take
proof unfold_locales
  fix p assume wf: "port_wf p"
  then show "length (port_items p) \<le> 15"
    using ring_count_less [of "port_head p" PORT_QUEUE_MAX "port_tail p"]
    by (simp add: port_items_def port_wf_def PORT_QUEUE_MAX_def)
  have full: "(port_tail p + 1) mod PORT_QUEUE_MAX = port_head p \<longleftrightarrow> length (port_items p) = 15"
    using wf ring_full [of "port_head p" PORT_QUEUE_MAX "port_tail p"]
    by (simp add: port_items_def port_wf_def PORT_QUEUE_MAX_def)
  have push: "ring_items PORT_QUEUE_MAX ((port_slots p)[port_tail p := Some x]) (port_head p)
      ((port_tail p + 1) mod PORT_QUEUE_MAX)
    = ring_items PORT_QUEUE_MAX (port_slots p) (port_head p) (port_tail p) @ [Some x]"
    if "(port_tail p + 1) mod PORT_QUEUE_MAX \<noteq> port_head p" for x
    using wf that by (intro ring_push) (auto simp: port_wf_def)
  show "fst (port_put x p) \<and> port_items (snd (port_put x p)) = port_items p @ [x]"
    if "length (port_items p) < 15" for x
    using that full push by (auto simp: port_put_def port_items_def)
  show "port_put x p = (False, p)" if "length (port_items p) = 15" for x
    using that full by (simp add: port_put_def)
  show "port_wf (snd (port_put x p))" for x
  proof (cases "(port_tail p + 1) mod PORT_QUEUE_MAX = port_head p")
    case True
    then show ?thesis using wf by (simp add: port_put_def)
  next
    case False
    have "(port_tail p + 1) mod PORT_QUEUE_MAX < PORT_QUEUE_MAX" by (simp add: PORT_QUEUE_MAX_def)
    then show ?thesis
      using wf False in_ring_push [OF _ _ _ False]
      by (simp add: port_put_def port_wf_def Let_def nth_list_update)
  qed
  show "port_take p = (None, p)" if "port_items p = []"
    using that port_empty [OF wf] by (simp add: port_take_def)
  show "fst (port_take p) = Some y \<and> port_items (snd (port_take p)) = ys" if "port_items p = y # ys" for y ys
    using port_take_step [OF wf] port_empty [OF wf] that by auto
  show "port_wf (snd (port_take p))"
    using port_take_step [OF wf] wf by (cases "port_head p = port_tail p") (auto simp: port_take_def)
qed

text \<open>
  C36. The packet ring of a port is a queue of fifteen packets. From a freshly created port,
  any interleaving of \<open>queue\<close> and \<open>wait\<close> calls that finds nobody blocked observes exactly what
  a list of capacity 15 would: a packet is accepted unless fifteen are waiting, and packets come
  out complete and in order. The queue length the creator asked for plays no role.
\<close>

theorem port_ring_is_fifo:
  assumes "port_new queue_len c s = (Ok p, c', s')" "fifo_run port_put port_take ops p = (obs, p')"
  shows "spec_run 15 ops [] = (obs, port_items p')"
  using port_ring.run_refines [OF _ assms(2)] port_new_wf [OF assms(1)] by auto

definition demo_packet :: "u64 \<Rightarrow> port_packet" where
  "demo_packet k = \<lparr>pk_key = k, pk_trigger = 0, pk_status = 0, pk_bytes = replicate 64 0\<rparr>"

theorem port_ring_is_fifo_witness:
  "\<exists>p c s obs p'. port_new 4 1 demo_phys = (Ok p, c, s)
     \<and> fifo_run port_put port_take [Push (demo_packet 5), Push (demo_packet 6), Pop] p = (obs, p')
     \<and> obs = [Pushed True, Pushed True, Popped (Some (demo_packet 5))] \<and> port_items p' = [demo_packet 6]"
proof -
  have "\<exists>p c s. port_new 4 1 demo_phys = (Ok p, c, s)"
    by (simp add: port_new_def alloc_kheap_page_def demo_alloc PORT_QUEUE_MAX_def)
  then obtain p c s where p: "port_new 4 1 demo_phys = (Ok p, c, s)" by blast
  obtain obs p' where r: "fifo_run port_put port_take [Push (demo_packet 5), Push (demo_packet 6), Pop] p = (obs, p')"
    by (metis prod.exhaust)
  from port_ring_is_fifo [OF p r] have "obs = [Pushed True, Pushed True, Popped (Some (demo_packet 5))]"
    "port_items p' = [demo_packet 6]" by simp_all
  with p r show ?thesis by blast
qed

text \<open>
  \<open>wait_with_timeout\<close> loses packets. When at least two packets are queued it returns the
  first one and then moves the head to one past the tail, so the ring afterwards claims to be
  full, the remaining packets are reordered behind a run of empty slots, and the next \<open>wait\<close>
  finds an empty slot at the head and blocks although packets are queued.
\<close>

theorem port_timeout_loses_packets:
  assumes "port_wf p" "port_items p = a # b # rest" "length (port_items p) < 15"
  shows "\<exists>p'. port_take_timeout p = (Some a, p') \<and> length (port_items p') = 15
     \<and> port_take p' = (None, p')"
proof -
  let ?n = PORT_QUEUE_MAX and ?xs = "port_slots p" and ?h = "port_head p" and ?t = "port_tail p"
  have bnd: "?h < 16" "?t < 16" "length ?xs = 16" using assms(1) by (auto simp: port_wf_def PORT_QUEUE_MAX_def)
  have ne: "?h \<noteq> ?t" using assms(1,2) port_empty by force
  have h: "?xs ! ?h = Some a"
    using port_take_step [OF assms(1) ne] assms(2) ne by (auto simp: port_take_def split: option.splits)
  have len: "length (port_items p) = ring_count 16 ?h ?t"
    by (simp add: port_items_def PORT_QUEUE_MAX_def)
  let ?t' = "(?t + 1) mod 16"
  have far: "?t' \<noteq> ?h" using assms(3) len ring_full [of ?h 16 ?t] bnd by auto
  have t': "?t' < 16" by simp
  have none: "?xs[?h := None] ! ?t' = None"
  proof -
    have "\<not> in_ring ?h ?t ?t'" using bnd far by (auto simp: in_ring_def ring_next split: if_splits)
    then have "?xs ! ?t' = None" using assms(1) t' unfolding port_wf_def PORT_QUEUE_MAX_def by blast
    then show ?thesis using far by simp
  qed
  have "port_take_timeout p = (Some a, p\<lparr>port_slots := ?xs[?h := None], port_head := ?t'\<rparr>)" (is "_ = (_, ?p')")
    using ne h by (simp add: port_take_timeout_def PORT_QUEUE_MAX_def)
  moreover have "length (port_items ?p') = 15"
    using bnd by (auto simp: port_items_def ring_count_def PORT_QUEUE_MAX_def ring_next)
  moreover have "port_take ?p' = (None, ?p')" using none by (simp add: port_take_def)
  ultimately show ?thesis by blast
qed

theorem port_timeout_loses_packets_witness:
  "\<exists>p p'. port_items p = [demo_packet 5, demo_packet 6]
     \<and> port_take_timeout p = (Some (demo_packet 5), p') \<and> length (port_items p') = 15
     \<and> port_take p' = (None, p')"
proof -
  let ?p = "\<lparr>port_id = 1, port_queue_len = 4, port_queue_va = 0,
    port_slots = [Some (demo_packet 5), Some (demo_packet 6)] @ replicate 14 None,
    port_head = 0, port_tail = 2, port_waiter = None\<rparr>"
  have wf: "port_wf ?p"
    by (auto simp: port_wf_def PORT_QUEUE_MAX_def in_ring_def nth_Cons less_2_cases_iff split: nat.splits)
  have items: "port_items ?p = [demo_packet 5, demo_packet 6]"
    by (simp add: port_items_def ring_items_def ring_count_def PORT_QUEUE_MAX_def upt_rec)
  from port_timeout_loses_packets [OF wf items] items show ?thesis by auto
qed

end
