(* ===== verification/Keyed_Table.thy ===== *)
theory Keyed_Table
  imports Prelude
begin

text \<open>
  The interface of the kernel's fixed-size tables with unique keys: handle tables, the service
  registry. A table refuses a new entry when it is full; otherwise an insertion under a fresh
  key is a map update. The second interface adds removal.
\<close>

fun put_all :: "('k \<Rightarrow> 'v \<Rightarrow> 't \<Rightarrow> 't option) \<Rightarrow> ('k \<times> 'v) list \<Rightarrow> 't \<Rightarrow> 't option" where
  "put_all psh [] t = Some t"
| "put_all psh ((k, v) # kvs) t =
     (case psh k v t of None \<Rightarrow> None | Some t' \<Rightarrow> put_all psh kvs t')"

locale keyed_table =
  fixes inv :: "'t \<Rightarrow> bool"
    and lookup :: "'t \<Rightarrow> 'k \<Rightarrow> 'v option"
    and put :: "'k \<Rightarrow> 'v \<Rightarrow> 't \<Rightarrow> 't option"
  assumes put_inv: "inv t \<Longrightarrow> lookup t k = None \<Longrightarrow> put k v t = Some t' \<Longrightarrow> inv t'"
    and lookup_put: "inv t \<Longrightarrow> lookup t k = None \<Longrightarrow> put k v t = Some t' \<Longrightarrow> lookup t' = (lookup t)(k \<mapsto> v)"
begin

lemma lookup_put_all:
  assumes "inv t" "distinct (map fst kvs)" "\<And>k. k \<in> fst ` set kvs \<Longrightarrow> lookup t k = None"
    and "put_all put kvs t = Some t'"
  shows "inv t' \<and> lookup t' = lookup t ++ map_of (rev kvs)"
  using assms
proof (induction kvs arbitrary: t)
  case Nil
  then show ?case by simp
next
  case (Cons kv kvs)
  obtain k v where kv: "kv = (k, v)" by (cases kv)
  with Cons.prems(4) obtain t1 where t1: "put k v t = Some t1" "put_all put kvs t1 = Some t'"
    by (auto split: option.splits)
  have fresh: "lookup t k = None" using Cons.prems(3) kv by simp
  note step = put_inv [OF Cons.prems(1) fresh t1(1)] lookup_put [OF Cons.prems(1) fresh t1(1)]
  have "lookup t1 k' = None" if "k' \<in> fst ` set kvs" for k'
    using that step(2) Cons.prems(2,3) kv by auto
  from Cons.IH [OF step(1) _ this t1(2)] Cons.prems(2) kv step(2)
  show ?case by (simp add: map_of_append [symmetric] fun_eq_iff map_add_def split: option.splits)
qed

end

locale removable_table = keyed_table +
  fixes del :: "'k \<Rightarrow> 't \<Rightarrow> 't"
  assumes del_inv: "inv t \<Longrightarrow> inv (del k t)"
    and lookup_del: "inv t \<Longrightarrow> lookup (del k t) = (lookup t)(k := None)"
begin

lemma lookup_put_del:
  assumes "inv t" "lookup t k = None" "put k v t = Some t'"
  shows "lookup (del k t') = lookup t"
  using lookup_del [OF put_inv [OF assms]] lookup_put [OF assms] assms(2) by (simp add: fun_eq_iff)

lemma del_twice: "inv t \<Longrightarrow> lookup (del k (del k t)) = lookup (del k t)"
  by (simp add: lookup_del del_inv fun_eq_iff)

end

end
