(* ===== verification/Handle_Table.thy ===== *)
theory Handle_Table
  imports Vmo Vmar Port Keyed_Table
begin

text \<open>
  Capability handles, \<open>kernel/src/object/handle_table.rs\<close>. A process owns a table of twelve
  slots; a slot holds a handle value, the rights and the kernel object itself. The global value
  counter and the slots are passed explicitly. An object that does not fit is dropped by the
  code, so \<open>ht_add\<close> also returns what it drops. Channels are boxed and referred to by address.
\<close>

section \<open>Data\<close>

definition MAX_HANDLES :: nat where "MAX_HANDLES = 12"

datatype kobject =
    KVmo vmo
  | KVmar vmar
  | KChannel nat
  | KPort port
  | KProcess u64
  | KThread nat

fun kobject_type :: "kobject \<Rightarrow> object_type" where
  "kobject_type (KVmo _) = OtVmo"
| "kobject_type (KVmar _) = OtVmar"
| "kobject_type (KChannel _) = OtChannel"
| "kobject_type (KPort _) = OtPort"
| "kobject_type (KProcess _) = OtProcess"
| "kobject_type (KThread _) = OtThread"

fun kobject_duplicate :: "kobject \<Rightarrow> kobject res" where
  "kobject_duplicate (KVmo v) = Ok (KVmo (vmo_clone v))"
| "kobject_duplicate _ = Err NotAllowed"

record handle_slot =
  hs_value :: handle_value
  hs_rights :: rights
  hs_object :: kobject

type_synonym handle_table = "handle_slot option list"

section \<open>Operations\<close>

text \<open>
  \<open>HandleSlots::new\<close>; \<open>slot_size\<close> is the compiler's \<open>size_of::<Option<Slot>>()\<close>. The loop
  allocates further frames when the slots need more than one.
\<close>

fun alloc_pages :: "nat \<Rightarrow> phys \<Rightarrow> unit res \<times> phys" where
  "alloc_pages 0 s = (Ok (), s)"
| "alloc_pages (Suc n) s =
     (case alloc_kheap_page s of
        (Ok _, s') \<Rightarrow> alloc_pages n s'
      | (_, s') \<Rightarrow> (Panic, s'))"

definition ht_new :: "nat \<Rightarrow> phys \<Rightarrow> handle_table res \<times> phys" where
  "ht_new slot_sz s =
     (if PAGE_SIZE < MAX_HANDLES * slot_sz then (Panic, s)
      else case alloc_kheap_page s of
        (Ok _, s1) \<Rightarrow>
          (case alloc_pages ((MAX_HANDLES * slot_sz + PAGE_SIZE - 1) div PAGE_SIZE - 1) s1 of
             (Ok _, s2) \<Rightarrow> (Ok (replicate MAX_HANDLES None), s2)
           | (_, s2) \<Rightarrow> (Panic, s2))
      | (_, s1) \<Rightarrow> (Panic, s1))"

definition check_rights :: "rights \<Rightarrow> rights \<Rightarrow> bool" where
  "check_rights have required \<longleftrightarrow> (if required = 0 then True else have AND required = required)"

definition ht_put :: "handle_value \<Rightarrow> rights \<times> kobject \<Rightarrow> handle_table \<Rightarrow> handle_table option" where
  "ht_put hv v t =
     (case first_free t of
        Some i \<Rightarrow> Some (t[i := Some \<lparr>hs_value = hv, hs_rights = fst v, hs_object = snd v\<rparr>])
      | None \<Rightarrow> None)"

definition ht_add ::
  "kobject \<Rightarrow> rights \<Rightarrow> u32 \<Rightarrow> handle_table \<Rightarrow> handle_value res \<times> kobject option \<times> u32 \<times> handle_table" where
  "ht_add obj r ctr t =
     (case ht_put ctr (r, obj) t of
        Some t' \<Rightarrow> (Ok ctr, None, ctr + 1, t')
      | None \<Rightarrow> (Err NoMemory, Some obj, ctr + 1, t))"

definition ht_add_raw ::
  "u32 \<Rightarrow> kobject \<Rightarrow> rights \<Rightarrow> handle_table \<Rightarrow> unit res \<times> kobject option \<times> handle_table" where
  "ht_add_raw raw_val obj r t =
     (case ht_put raw_val (r, obj) t of
        Some t' \<Rightarrow> (Ok (), None, t')
      | None \<Rightarrow> (Err NoMemory, Some obj, t))"

text \<open>
  \<open>with\<close> runs a closure on the object in place; the closure may change the object and the rest
  of the kernel state, and its error is passed on.
\<close>

definition ht_with ::
  "handle_value \<Rightarrow> rights \<Rightarrow> (kobject \<Rightarrow> 's \<Rightarrow> 'r res \<times> kobject \<times> 's) \<Rightarrow> handle_table \<Rightarrow> 's \<Rightarrow> 'r res \<times> handle_table \<times> 's" where
  "ht_with hv required f t s =
     (case find_slot (\<lambda>x. hs_value x = hv) t of
        None \<Rightarrow> (Err BadHandle, t, s)
      | Some i \<Rightarrow>
          (case t ! i of
             None \<Rightarrow> (Panic, t, s)
           | Some slot \<Rightarrow>
               if \<not> check_rights (hs_rights slot) required then (Err AccessDenied, t, s)
               else let (r, obj', s') = f (hs_object slot) s
                    in (r, t[i := Some (slot\<lparr>hs_object := obj'\<rparr>)], s')))"

definition with_vmo ::
  "handle_value \<Rightarrow> rights \<Rightarrow> (vmo \<Rightarrow> 's \<Rightarrow> 'r \<times> vmo \<times> 's) \<Rightarrow> handle_table \<Rightarrow> 's \<Rightarrow> 'r res \<times> handle_table \<times> 's" where
  "with_vmo hv required f = ht_with hv required (\<lambda>obj s.
     case obj of KVmo v \<Rightarrow> (let (r, v', s') = f v s in (Ok r, KVmo v', s')) | _ \<Rightarrow> (Err WrongType, obj, s))"

definition with_vmar ::
  "handle_value \<Rightarrow> rights \<Rightarrow> (vmar \<Rightarrow> 's \<Rightarrow> 'r \<times> vmar \<times> 's) \<Rightarrow> handle_table \<Rightarrow> 's \<Rightarrow> 'r res \<times> handle_table \<times> 's" where
  "with_vmar hv required f = ht_with hv required (\<lambda>obj s.
     case obj of KVmar v \<Rightarrow> (let (r, v', s') = f v s in (Ok r, KVmar v', s')) | _ \<Rightarrow> (Err WrongType, obj, s))"

definition with_channel ::
  "handle_value \<Rightarrow> rights \<Rightarrow> (nat \<Rightarrow> 's \<Rightarrow> 'r \<times> 's) \<Rightarrow> handle_table \<Rightarrow> 's \<Rightarrow> 'r res \<times> handle_table \<times> 's" where
  "with_channel hv required f = ht_with hv required (\<lambda>obj s.
     case obj of KChannel c \<Rightarrow> (let (r, s') = f c s in (Ok r, obj, s')) | _ \<Rightarrow> (Err WrongType, obj, s))"

definition with_port ::
  "handle_value \<Rightarrow> rights \<Rightarrow> (port \<Rightarrow> 's \<Rightarrow> 'r \<times> port \<times> 's) \<Rightarrow> handle_table \<Rightarrow> 's \<Rightarrow> 'r res \<times> handle_table \<times> 's" where
  "with_port hv required f = ht_with hv required (\<lambda>obj s.
     case obj of KPort p \<Rightarrow> (let (r, p', s') = f p s in (Ok r, KPort p', s')) | _ \<Rightarrow> (Err WrongType, obj, s))"

definition with_process ::
  "handle_value \<Rightarrow> rights \<Rightarrow> (u64 \<Rightarrow> 's \<Rightarrow> 'r \<times> 's) \<Rightarrow> handle_table \<Rightarrow> 's \<Rightarrow> 'r res \<times> handle_table \<times> 's" where
  "with_process hv required f = ht_with hv required (\<lambda>obj s.
     case obj of KProcess pid \<Rightarrow> (let (r, s') = f pid s in (Ok r, obj, s')) | _ \<Rightarrow> (Err WrongType, obj, s))"

definition with_thread ::
  "handle_value \<Rightarrow> rights \<Rightarrow> (nat \<Rightarrow> 's \<Rightarrow> 'r \<times> 's) \<Rightarrow> handle_table \<Rightarrow> 's \<Rightarrow> 'r res \<times> handle_table \<times> 's" where
  "with_thread hv required f = ht_with hv required (\<lambda>obj s.
     case obj of KThread tid \<Rightarrow> (let (r, s') = f tid s in (Ok r, obj, s')) | _ \<Rightarrow> (Err WrongType, obj, s))"

definition duplicate_handle ::
  "handle_value \<Rightarrow> rights \<Rightarrow> u32 \<Rightarrow> handle_table \<Rightarrow> handle_value res \<times> kobject option \<times> u32 \<times> handle_table" where
  "duplicate_handle hv required ctr t =
     (case find_slot (\<lambda>x. hs_value x = hv) t of
        None \<Rightarrow> (Err BadHandle, None, ctr, t)
      | Some i \<Rightarrow>
          (case t ! i of
             None \<Rightarrow> (Panic, None, ctr, t)
           | Some slot \<Rightarrow>
               if \<not> check_rights (hs_rights slot) required then (Err AccessDenied, None, ctr, t)
               else case kobject_duplicate (hs_object slot) of
                      Ok obj \<Rightarrow> ht_add obj (hs_rights slot) ctr t
                    | Err e \<Rightarrow> (Err e, None, ctr, t)
                    | Panic \<Rightarrow> (Panic, None, ctr, t)))"

definition remove_with_rights :: "handle_value \<Rightarrow> handle_table \<Rightarrow> (kobject \<times> rights) res \<times> handle_table" where
  "remove_with_rights hv t =
     (case find_slot (\<lambda>x. hs_value x = hv) t of
        None \<Rightarrow> (Err BadHandle, t)
      | Some i \<Rightarrow>
          (case t ! i of
             None \<Rightarrow> (Panic, t)
           | Some slot \<Rightarrow> (Ok (hs_object slot, hs_rights slot), t[i := None])))"

definition ht_remove :: "handle_value \<Rightarrow> handle_table \<Rightarrow> kobject res \<times> handle_table" where
  "ht_remove hv t = (let (r, t') = remove_with_rights hv t in (res_map fst r, t'))"

definition ht_close :: "handle_value \<Rightarrow> handle_table \<Rightarrow> kobject res \<times> handle_table" where
  "ht_close = ht_remove"

definition live_count :: "handle_table \<Rightarrow> nat" where
  "live_count t = length (live_slots t)"

section \<open>The table as a map\<close>

definition ht_lookup :: "handle_table \<Rightarrow> handle_value \<Rightarrow> (rights \<times> kobject) option" where
  "ht_lookup t hv = map_option (\<lambda>s. (hs_rights s, hs_object s)) (slot_map hs_value t hv)"

definition ht_wf :: "handle_table \<Rightarrow> bool" where
  "ht_wf t \<longleftrightarrow> length t = MAX_HANDLES \<and> distinct_keys hs_value t"

definition ht_del :: "handle_value \<Rightarrow> handle_table \<Rightarrow> handle_table" where
  "ht_del hv t = snd (remove_with_rights hv t)"

lemma check_rights_eq: "check_rights r q \<longleftrightarrow> rights_contains r q"
  by (simp add: check_rights_def rights_contains_def)

lemma ht_find_cases:
  obtains "find_slot (\<lambda>x. hs_value x = hv) t = None" "ht_lookup t hv = None"
  | i slot where "find_slot (\<lambda>x. hs_value x = hv) t = Some i" "i < length t" "t ! i = Some slot"
      "hs_value slot = hv" "ht_lookup t hv = Some (hs_rights slot, hs_object slot)"
  by (cases "find_slot (\<lambda>x. hs_value x = hv) t")
    (auto simp: ht_lookup_def slot_map_def dest!: find_slotD)

lemma ht_put_SomeD:
  assumes wf: "ht_wf t" and fresh: "ht_lookup t hv = None" and eq: "ht_put hv v t = Some t'"
  shows "ht_wf t'" "ht_lookup t' = (ht_lookup t)(hv \<mapsto> v)"
proof -
  from eq obtain i where i: "first_free t = Some i"
    and t': "t' = t[i := Some \<lparr>hs_value = hv, hs_rights = fst v, hs_object = snd v\<rparr>]"
    by (auto simp: ht_put_def split: option.splits)
  let ?s = "\<lparr>hs_value = hv, hs_rights = fst v, hs_object = snd v\<rparr>"
  have "slot_map hs_value t (hs_value ?s) = None" using fresh by (simp add: ht_lookup_def)
  note p = slot_map_put [OF _ _ _ this, of i]
  show "ht_wf t'" "ht_lookup t' = (ht_lookup t)(hv \<mapsto> v)"
    using wf p first_freeD [OF i] by (auto simp: t' ht_wf_def ht_lookup_def fun_eq_iff)
qed

lemma ht_put_None: "ht_wf t \<Longrightarrow> ht_put hv v t = None \<longleftrightarrow> card (dom (ht_lookup t)) = MAX_HANDLES"
proof -
  assume wf: "ht_wf t"
  have "dom (ht_lookup t) = dom (slot_map hs_value t)" by (auto simp: ht_lookup_def dom_def)
  then have "card (dom (ht_lookup t)) = MAX_HANDLES \<longleftrightarrow> first_free t = None"
    using wf card_dom_slot_map [of hs_value t] by (simp add: ht_wf_def first_free_None_full)
  then show ?thesis by (simp add: ht_put_def split: option.splits)
qed

lemma ht_del_lookup:
  assumes wf: "ht_wf t"
  shows "ht_wf (ht_del hv t)" "ht_lookup (ht_del hv t) = (ht_lookup t)(hv := None)"
proof -
  have "ht_wf (ht_del hv t) \<and> ht_lookup (ht_del hv t) = (ht_lookup t)(hv := None)"
  proof (cases rule: ht_find_cases [of hv t])
    case 1
    then show ?thesis using wf by (auto simp: ht_del_def remove_with_rights_def fun_eq_iff)
  next
    case (2 i slot)
    then show ?thesis
      using wf slot_map_take [of hs_value t i slot]
      by (auto simp: ht_del_def remove_with_rights_def ht_wf_def ht_lookup_def fun_eq_iff)
  qed
  then show "ht_wf (ht_del hv t)" "ht_lookup (ht_del hv t) = (ht_lookup t)(hv := None)" by auto
qed

interpretation handles: removable_table ht_wf ht_lookup ht_put ht_del
  by unfold_locales (fact ht_put_SomeD ht_del_lookup)+

lemma ht_with_lookup:
  assumes wf: "ht_wf t" and eq: "ht_with hv req f t s = (r, t', s')"
  shows "case ht_lookup t hv of
      None \<Rightarrow> r = Err BadHandle \<and> t' = t \<and> s' = s
    | Some (rt, obj) \<Rightarrow>
        if \<not> rights_contains rt req then r = Err AccessDenied \<and> t' = t \<and> s' = s
        else \<exists>obj'. f obj s = (r, obj', s') \<and> ht_wf t' \<and> ht_lookup t' = (ht_lookup t)(hv \<mapsto> (rt, obj'))"
proof (cases rule: ht_find_cases [of hv t])
  case 1
  then show ?thesis using eq by (simp add: ht_with_def)
next
  case (2 i slot)
  obtain r1 o1 s1 where f: "f (hs_object slot) s = (r1, o1, s1)" by (metis prod_cases3)
  have "ht_wf (t[i := Some (slot\<lparr>hs_object := o1\<rparr>)])
      \<and> ht_lookup (t[i := Some (slot\<lparr>hs_object := o1\<rparr>)]) = (ht_lookup t)(hv \<mapsto> (hs_rights slot, o1))"
    using wf 2 slot_map_upd [of hs_value t i slot "slot\<lparr>hs_object := o1\<rparr>"]
    by (auto simp: ht_wf_def ht_lookup_def fun_eq_iff)
  then show ?thesis using eq 2 f by (auto simp: ht_with_def check_rights_eq)
qed

section \<open>Capability spaces\<close>

text \<open>
  The contract: a finite map from handle values to rights and objects with at most twelve
  entries, fresh values from a counter, and access only with sufficient rights.
\<close>

datatype cap_op =
    CAdd kobject rights
  | CDup handle_value rights
  | CRemove handle_value
  | CUse handle_value rights "kobject \<Rightarrow> unit res \<times> kobject"

datatype cap_obs = GotHandle "handle_value res" | GotObject "(kobject \<times> rights) res" | Done "unit res"

type_synonym cap_space = "nat \<times> (handle_value \<rightharpoonup> rights \<times> kobject)"

definition cs_add :: "kobject \<Rightarrow> rights \<Rightarrow> cap_space \<Rightarrow> cap_obs \<times> cap_space" where
  "cs_add obj r = (\<lambda>(n, m).
     if card (dom m) = MAX_HANDLES then (GotHandle (Err NoMemory), (n + 1, m))
     else (GotHandle (Ok (word_of_nat n)), (n + 1, m(word_of_nat n \<mapsto> (r, obj)))))"

fun cs_step :: "cap_op \<Rightarrow> cap_space \<Rightarrow> cap_obs \<times> cap_space" where
  "cs_step (CAdd obj r) c = cs_add obj r c"
| "cs_step (CDup hv req) (n, m) =
     (case m hv of
        None \<Rightarrow> (GotHandle (Err BadHandle), (n, m))
      | Some (r, obj) \<Rightarrow>
          if \<not> rights_contains r req then (GotHandle (Err AccessDenied), (n, m))
          else case obj of KVmo v \<Rightarrow> cs_add (KVmo (vmo_clone v)) r (n, m)
               | _ \<Rightarrow> (GotHandle (Err NotAllowed), (n, m)))"
| "cs_step (CRemove hv) (n, m) =
     (case m hv of
        None \<Rightarrow> (GotObject (Err BadHandle), (n, m))
      | Some (r, obj) \<Rightarrow> (GotObject (Ok (obj, r)), (n, m(hv := None))))"
| "cs_step (CUse hv req f) (n, m) =
     (case m hv of
        None \<Rightarrow> (Done (Err BadHandle), (n, m))
      | Some (r, obj) \<Rightarrow>
          if \<not> rights_contains r req then (Done (Err AccessDenied), (n, m))
          else (Done (fst (f obj)), (n, m(hv \<mapsto> (r, snd (f obj))))))"

fun cs_run :: "cap_op list \<Rightarrow> cap_space \<Rightarrow> cap_obs list \<times> cap_space" where
  "cs_run [] c = ([], c)"
| "cs_run (p # ps) c = (let (b, c1) = cs_step p c; (bs, c2) = cs_run ps c1 in (b # bs, c2))"

text \<open>The same operations on the table.\<close>

fun ht_step :: "cap_op \<Rightarrow> u32 \<times> handle_table \<Rightarrow> cap_obs \<times> u32 \<times> handle_table" where
  "ht_step (CAdd obj r) (ctr, t) = (let (x, _, c) = ht_add obj r ctr t in (GotHandle x, c))"
| "ht_step (CDup hv req) (ctr, t) = (let (x, _, c) = duplicate_handle hv req ctr t in (GotHandle x, c))"
| "ht_step (CRemove hv) (ctr, t) = (let (x, t') = remove_with_rights hv t in (GotObject x, ctr, t'))"
| "ht_step (CUse hv req f) (ctr, t) =
     (let (x, t', _) = ht_with hv req (\<lambda>obj s. (fst (f obj), snd (f obj), s)) t () in (Done x, ctr, t'))"

fun ht_run :: "cap_op list \<Rightarrow> u32 \<times> handle_table \<Rightarrow> cap_obs list \<times> u32 \<times> handle_table" where
  "ht_run [] c = ([], c)"
| "ht_run (p # ps) c = (let (b, c1) = ht_step p c; (bs, c2) = ht_run ps c1 in (b # bs, c2))"

definition cap_rel :: "u32 \<times> handle_table \<Rightarrow> cap_space \<Rightarrow> bool" where
  "cap_rel x c \<longleftrightarrow> fst x = word_of_nat (fst c) \<and> ht_wf (snd x) \<and> snd c = ht_lookup (snd x)
     \<and> (\<forall>hv\<in>dom (snd c). unat hv < fst c)"

lemma ht_add_refines:
  assumes rel: "cap_rel (ctr, t) (n, m)" and n: "n < 2 ^ 32"
    and eq: "ht_add obj r ctr t = (x, d, c)"
  shows "\<exists>c'. cs_add obj r (n, m) = (GotHandle x, c') \<and> cap_rel c c' \<and> fst c' \<le> n + 1"
proof -
  have r: "ctr = word_of_nat n" "ht_wf t" "m = ht_lookup t" "\<forall>hv\<in>dom m. unat hv < n"
    using rel by (auto simp: cap_rel_def)
  have un: "unat (word_of_nat n :: u32) = n" using n by (simp add: unat_of_nat)
  have fresh: "ht_lookup t ctr = None"
    using r un by (metis domI less_irrefl option.exhaust)
  show ?thesis
  proof (cases "ht_put ctr (r, obj) t")
    case None
    with eq r ht_put_None [OF r(2), of ctr "(r, obj)"] show ?thesis
      by (auto simp: ht_add_def cs_add_def cap_rel_def less_Suc_eq)
  next
    case (Some t')
    note p = ht_put_SomeD [OF r(2) fresh Some]
    have "card (dom m) \<noteq> MAX_HANDLES" using ht_put_None [OF r(2), of ctr "(r, obj)"] Some r(3) by simp
    then show ?thesis using eq Some r p un
      by (auto simp: ht_add_def cs_add_def cap_rel_def less_Suc_eq split: if_splits)
  qed
qed

lemma ht_step_refines:
  assumes rel: "cap_rel (ctr, t) (n, m)" and n: "n < 2 ^ 32" and eq: "ht_step p (ctr, t) = (b, c)"
  shows "\<exists>c'. cs_step p (n, m) = (b, c') \<and> cap_rel c c' \<and> fst c' \<le> n + 1"
proof -
  have r: "ctr = word_of_nat n" "ht_wf t" "m = ht_lookup t" "\<forall>hv\<in>dom m. unat hv < n"
    using rel by (auto simp: cap_rel_def)
  show ?thesis
  proof (cases p)
    case (CAdd obj rt)
    obtain x d c1 where a: "ht_add obj rt ctr t = (x, d, c1)" by (metis prod_cases3)
    from ht_add_refines [OF rel n a] CAdd eq a show ?thesis by auto
  next
    case (CDup hv req)
    show ?thesis
    proof (cases rule: ht_find_cases [of hv t])
      case 1
      then show ?thesis using CDup eq r rel by (auto simp: duplicate_handle_def)
    next
      case (2 i slot)
      show ?thesis
      proof (cases "rights_contains (hs_rights slot) req \<and> (\<exists>v. hs_object slot = KVmo v)")
        case True
        then obtain v where v: "hs_object slot = KVmo v" by blast
        obtain x d c1 where a: "ht_add (KVmo (vmo_clone v)) (hs_rights slot) ctr t = (x, d, c1)"
          by (metis prod_cases3)
        from ht_add_refines [OF rel n a] CDup eq 2 v True r a show ?thesis
          by (auto simp: duplicate_handle_def check_rights_eq)
      next
        case False
        then show ?thesis using CDup eq 2 r rel
          by (cases "hs_object slot") (auto simp: duplicate_handle_def check_rights_eq)
      qed
    qed
  next
    case (CRemove hv)
    have t': "snd (remove_with_rights hv t) = ht_del hv t" by (simp add: ht_del_def)
    have rel': "cap_rel (ctr, ht_del hv t) (n, m(hv := None))"
      using r ht_del_lookup [OF r(2), of hv] by (auto simp: cap_rel_def)
    show ?thesis
    proof (cases rule: ht_find_cases [of hv t])
      case 1
      then show ?thesis using CRemove eq r rel by (auto simp: remove_with_rights_def)
    next
      case (2 i slot)
      then have "remove_with_rights hv t = (Ok (hs_object slot, hs_rights slot), ht_del hv t)"
        by (simp add: remove_with_rights_def ht_del_def)
      then show ?thesis using CRemove eq r rel' 2 by auto
    qed
  next
    case (CUse hv req f)
    obtain x t' u where w: "ht_with hv req (\<lambda>obj s. (fst (f obj), snd (f obj), s)) t () = (x, t', u)"
      by (rule prod_cases3)
    from ht_with_lookup [OF r(2) w] CUse eq w r rel show ?thesis
      by (cases "m hv") (auto simp: cap_rel_def split: if_splits prod.splits)
  qed
qed

lemma ht_run_refines:
  assumes "cap_rel (ctr, t) (n, m)" "n + length ps < 2 ^ 32" "ht_run ps (ctr, t) = (bs, c)"
  shows "\<exists>c'. cs_run ps (n, m) = (bs, c') \<and> cap_rel c c'"
  using assms
proof (induction ps arbitrary: ctr t n m bs)
  case Nil
  then show ?case by auto
next
  case (Cons p ps)
  obtain b ctr1 t1 where s: "ht_step p (ctr, t) = (b, ctr1, t1)" by (metis prod_cases3)
  obtain bs' where r: "ht_run ps (ctr1, t1) = (bs', c)" "bs = b # bs'"
    using Cons.prems(3) s by (auto split: prod.splits)
  from ht_step_refines [OF Cons.prems(1) _ s] Cons.prems(2)
  obtain n1 m1 where c1: "cs_step p (n, m) = (b, n1, m1)" "cap_rel (ctr1, t1) (n1, m1)" "n1 \<le> n + 1"
    by (metis add_lessD1 fst_conv prod.exhaust)
  have "n1 + length ps < 2 ^ 32" using Cons.prems(2) c1(3) by simp
  from Cons.IH [OF c1(2) this r(1)] c1(1) r(2) show ?case by auto
qed

text \<open>
  C2. A handle table is a capability space. Take a fresh table and the global counter at any
  value \<open>n\<close>, and run any sequence of additions, duplications, removals and uses that cannot
  exhaust the 32-bit counter. Every result agrees with the map specification: values are fresh,
  at most twelve capabilities exist, an unknown handle is \<open>BadHandle\<close>, an object is reached
  only when the stored rights contain the required ones, a duplicate carries exactly the
  rights of its original and exists for memory objects only, a removed handle is gone and no
  other entry changes. The scan for a slot never fails an \<open>unwrap\<close>.
\<close>

theorem handle_table_is_capability_space:
  assumes "ht_new slot_sz s = (Ok t, s')" "n + length ps < 2 ^ 32"
    and "ht_run ps (word_of_nat n, t) = (bs, ctr, t')"
  shows "\<exists>n' m'. cs_run ps (n, Map.empty) = (bs, n', m') \<and> m' = ht_lookup t' \<and> live_count t' = card (dom m')"
proof -
  have t: "t = replicate MAX_HANDLES None"
    using assms(1) by (auto simp: ht_new_def split: if_splits prod.splits res.splits)
  have wf: "ht_wf t" by (simp add: t ht_wf_def distinct_keys_def)
  have "ht_lookup t = Map.empty"
    by (auto simp: t ht_lookup_def slot_map_None fun_eq_iff)
  with wf have "cap_rel (word_of_nat n, t) (n, Map.empty)" by (simp add: cap_rel_def)
  from ht_run_refines [OF this assms(2,3)] obtain n' m' where
    c: "cs_run ps (n, Map.empty) = (bs, n', m')" "cap_rel (ctr, t') (n', m')" by auto
  have "dom (ht_lookup t') = dom (slot_map hs_value t')" by (auto simp: ht_lookup_def dom_def)
  with c(2) card_dom_slot_map [of hs_value t'] have "m' = ht_lookup t' \<and> live_count t' = card (dom m')"
    by (auto simp: cap_rel_def ht_wf_def live_count_def)
  with c(1) show ?thesis by blast
qed

theorem handle_table_is_capability_space_witness:
  "\<exists>t s bs ctr t'. ht_new 300 demo_phys = (Ok t, s)
     \<and> ht_run [CAdd (KProcess 7) RIGHT_READ, CUse 1000 RIGHT_WRITE (\<lambda>x. (Ok (), x)), CRemove 1000, CRemove 1000]
         (word_of_nat 1000, t) = (bs, ctr, t')
     \<and> bs = [GotHandle (Ok 1000), Done (Err AccessDenied), GotObject (Ok (KProcess 7, RIGHT_READ)), GotObject (Err BadHandle)]"
proof -
  have "\<exists>t s. ht_new 300 demo_phys = (Ok t, s)"
    by (simp add: ht_new_def alloc_kheap_page_def demo_alloc MAX_HANDLES_def PAGE_SIZE_def)
  then obtain t s where t: "ht_new 300 demo_phys = (Ok t, s)" by blast
  let ?ps = "[CAdd (KProcess 7) RIGHT_READ, CUse 1000 RIGHT_WRITE (\<lambda>x. (Ok (), x)), CRemove 1000, CRemove 1000]"
  obtain bs ctr t' where r: "ht_run ?ps (word_of_nat 1000, t) = (bs, ctr, t')" by (metis prod_cases3)
  have "1000 + length ?ps < 2 ^ 32" by simp
  from handle_table_is_capability_space [OF t this r]
  have "fst (cs_run ?ps (1000, Map.empty)) = bs" by auto
  then have "bs = [GotHandle (Ok 1000), Done (Err AccessDenied), GotObject (Ok (KProcess 7, RIGHT_READ)), GotObject (Err BadHandle)]"
    by (simp add: cs_add_def MAX_HANDLES_def rights_contains_def RIGHT_READ_def RIGHT_WRITE_def)
  with t r show ?thesis by blast
qed

end
