(* ===== verification/Thread.thy ===== *)
theory Thread
  imports Handle_Table
begin

text \<open>
  Thread control blocks, \<open>kernel/src/task/thread.rs\<close>, with the saved register context of
  \<open>kernel/src/arch/aarch64/mod.rs\<close>. The addresses of the assembly trampolines
  \<open>thread_bootstrap\<close> and \<open>user_eret_stub\<close> are link-time constants and appear as arguments. A
  thread refers to the handle table of its process by the process id.
\<close>

section \<open>Data\<close>

definition KERNEL_STACK_PAGES :: nat where "KERNEL_STACK_PAGES = 4"
definition KERNEL_STACK_SIZE :: nat where "KERNEL_STACK_SIZE = KERNEL_STACK_PAGES * PAGE_SIZE"
definition DEFAULT_TIME_SLICE :: nat where "DEFAULT_TIME_SLICE = 5"
definition KERNEL_OFFSET :: u64 where "KERNEL_OFFSET = 0xFFFF800000000000"

definition pa_to_kernel_va :: "nat \<Rightarrow> u64" where
  "pa_to_kernel_va pa = word_of_nat pa + KERNEL_OFFSET"

datatype priority = Realtime | HighPrio | NormalPrio | LowPrio | IdlePrio

primrec priority_index :: "priority \<Rightarrow> nat" where
  "priority_index Realtime = 0"
| "priority_index HighPrio = 1"
| "priority_index NormalPrio = 2"
| "priority_index LowPrio = 3"
| "priority_index IdlePrio = 4"

datatype thread_state = Initial | Ready | Running | Blocked | Sleeping | Dead

record thread_context =
  cx_x :: "u64 list"
  cx_r :: "u64 list"
  cx_sp :: u64
  cx_user_sp :: u64
  cx_elr :: u64
  cx_spsr :: u64
  cx_process_id :: u64
  cx_l0_user_pa :: u64
  cx_page_table_gen :: u64

record thread =
  th_id :: nat
  th_name :: string
  th_state :: thread_state
  th_priority :: priority
  th_time_slice :: nat
  th_remaining_ticks :: nat
  th_process_id :: u64
  th_entry :: u64
  th_kernel_stack_base_pa :: nat
  th_kernel_stack_size :: nat
  th_kernel_sp :: u64
  th_context :: thread_context
  th_ipc_buf_ptr :: u64
  th_ipc_buf_len :: nat
  th_ipc_actual_len :: nat
  th_ipc_transfer_handles :: "u32 option list"
  th_handle_table :: "u64 option"
  th_ipc_transfer_slots :: "(kobject \<times> rights) option list"
  th_port_packet_slot :: "port_packet option"

section \<open>Contexts\<close>

definition context_default :: thread_context where
  "context_default = \<lparr>cx_x = replicate 19 0, cx_r = replicate 12 0, cx_sp = 0, cx_user_sp = 0, cx_elr = 0,
     cx_spsr = 0, cx_process_id = 0, cx_l0_user_pa = 0, cx_page_table_gen = 0\<rparr>"

definition context_new_kernel :: "u64 \<Rightarrow> u64 \<Rightarrow> u64 \<Rightarrow> thread_context" where
  "context_new_kernel bootstrap entry stack_top =
     context_default\<lparr>cx_sp := stack_top, cx_elr := bootstrap, cx_spsr := 5,
       cx_r := (replicate 12 0)[0 := entry, 11 := bootstrap]\<rparr>"

definition context_new_user :: "u64 \<Rightarrow> u64 \<Rightarrow> u64 \<Rightarrow> u64 \<Rightarrow> thread_context" where
  "context_new_user eret_stub entry stack_top kernel_stack_top =
     (let high = (if kernel_stack_top < KERNEL_OFFSET then kernel_stack_top OR KERNEL_OFFSET else kernel_stack_top)
      in context_default\<lparr>cx_sp := high, cx_user_sp := stack_top, cx_elr := entry, cx_spsr := 0,
           cx_r := (replicate 12 0)[0 := entry, 1 := stack_top, 11 := eret_stub]\<rparr>)"

definition context_set_page_table :: "u64 \<Rightarrow> u64 \<Rightarrow> thread_context \<Rightarrow> thread_context" where
  "context_set_page_table pid l0 c = c\<lparr>cx_process_id := pid, cx_l0_user_pa := l0\<rparr>"

section \<open>Creation\<close>

text \<open>
  The four kernel-stack frames: the first allocation gives the base, the others are requested
  and their addresses dropped; any failure is returned, and the frames allocated before it stay
  allocated.
\<close>

fun alloc_more_stack :: "nat \<Rightarrow> phys \<Rightarrow> unit res \<times> phys" where
  "alloc_more_stack 0 s = (Ok (), s)"
| "alloc_more_stack (Suc n) s =
     (case alloc_kstack_page s of
        (Ok _, s') \<Rightarrow> alloc_more_stack n s'
      | (Err e, s') \<Rightarrow> (Err e, s')
      | (Panic, s') \<Rightarrow> (Panic, s'))"

definition alloc_stack :: "phys \<Rightarrow> nat res \<times> phys" where
  "alloc_stack s =
     (case alloc_kstack_page s of
        (Ok pa0, s1) \<Rightarrow>
          (case alloc_more_stack (KERNEL_STACK_PAGES - 1) s1 of
             (Ok _, s2) \<Rightarrow> (Ok pa0, s2)
           | (Err e, s2) \<Rightarrow> (Err e, s2)
           | (Panic, s2) \<Rightarrow> (Panic, s2))
      | (Err e, s1) \<Rightarrow> (Err e, s1)
      | (Panic, s1) \<Rightarrow> (Panic, s1))"

definition make_thread ::
  "string \<Rightarrow> priority \<Rightarrow> u64 \<Rightarrow> nat \<Rightarrow> thread_context \<Rightarrow> nat \<Rightarrow> thread" where
  "make_thread name prio entry pa0 ctx tid =
     \<lparr>th_id = tid, th_name = name, th_state = Initial, th_priority = prio,
      th_time_slice = DEFAULT_TIME_SLICE, th_remaining_ticks = DEFAULT_TIME_SLICE, th_process_id = 0,
      th_entry = entry, th_kernel_stack_base_pa = pa0, th_kernel_stack_size = KERNEL_STACK_SIZE,
      th_kernel_sp = pa_to_kernel_va pa0 + word_of_nat KERNEL_STACK_SIZE, th_context = ctx,
      th_ipc_buf_ptr = 0, th_ipc_buf_len = 0, th_ipc_actual_len = 0,
      th_ipc_transfer_handles = replicate 4 None, th_handle_table = None,
      th_ipc_transfer_slots = [None, None], th_port_packet_slot = None\<rparr>"

definition new_kernel_with_priority ::
  "u64 \<Rightarrow> string \<Rightarrow> u64 \<Rightarrow> priority \<Rightarrow> nat \<Rightarrow> phys \<Rightarrow> thread res \<times> nat \<times> phys" where
  "new_kernel_with_priority bootstrap name entry prio ctr s =
     (case alloc_stack s of
        (Ok pa0, s') \<Rightarrow>
          (let top = pa_to_kernel_va pa0 + word_of_nat KERNEL_STACK_SIZE
           in (Ok (make_thread name prio entry pa0 (context_new_kernel bootstrap entry top) ctr), ctr + 1, s'))
      | (Err e, s') \<Rightarrow> (Err e, ctr, s')
      | (Panic, s') \<Rightarrow> (Panic, ctr, s'))"

definition new_user_with_priority ::
  "u64 \<Rightarrow> string \<Rightarrow> u64 \<Rightarrow> u64 \<Rightarrow> priority \<Rightarrow> nat \<Rightarrow> phys \<Rightarrow> thread res \<times> nat \<times> phys" where
  "new_user_with_priority eret_stub name entry stack_top prio ctr s =
     (case alloc_stack s of
        (Ok pa0, s') \<Rightarrow>
          (let top = pa_to_kernel_va pa0 + word_of_nat KERNEL_STACK_SIZE
           in (Ok (make_thread name prio entry pa0 (context_new_user eret_stub entry stack_top top) ctr), ctr + 1, s'))
      | (Err e, s') \<Rightarrow> (Err e, ctr, s')
      | (Panic, s') \<Rightarrow> (Panic, ctr, s'))"

definition new_kernel :: "u64 \<Rightarrow> string \<Rightarrow> u64 \<Rightarrow> nat \<Rightarrow> phys \<Rightarrow> thread res \<times> nat \<times> phys" where
  "new_kernel bootstrap name entry = new_kernel_with_priority bootstrap name entry NormalPrio"

definition new_user :: "u64 \<Rightarrow> string \<Rightarrow> u64 \<Rightarrow> u64 \<Rightarrow> nat \<Rightarrow> phys \<Rightarrow> thread res \<times> nat \<times> phys" where
  "new_user eret_stub name entry stack_top = new_user_with_priority eret_stub name entry stack_top NormalPrio"

section \<open>Time slices\<close>

definition reset_time_slice :: "thread \<Rightarrow> thread" where
  "reset_time_slice t = t\<lparr>th_remaining_ticks := th_time_slice t\<rparr>"

primrec decayed :: "priority \<Rightarrow> priority" where
  "decayed Realtime = HighPrio"
| "decayed HighPrio = NormalPrio"
| "decayed NormalPrio = LowPrio"
| "decayed LowPrio = LowPrio"
| "decayed IdlePrio = IdlePrio"

definition decay_priority :: "thread \<Rightarrow> thread" where
  "decay_priority t = reset_time_slice (t\<lparr>th_priority := decayed (th_priority t)\<rparr>)"

section \<open>Kernel stacks\<close>

lemma alloc_kstack_cases:
  assumes "phys_inv s"
  shows "alloc_kstack_page s =
    (if end_free_page s \<le> next_free_page s then (Err NoMemory, s)
     else (Ok (next_free_page s), take_page TagKernelStack (next_free_page s) s))"
  by (simp add: alloc_kstack_page_def alloc_page_inv_eq [OF assms])

lemma alloc_more_stack_OkD:
  assumes "phys_inv s" "alloc_more_stack n s = (Ok (), s')"
  shows "phys_inv s' \<and> next_free_page s' = next_free_page s + 4096 * n
    \<and> (\<forall>i<n. page_tags s' (pa_to_pfn (next_free_page s + 4096 * i)) = tag_byte TagKernelStack)
    \<and> (\<forall>p<pa_to_pfn (next_free_page s). page_tags s' p = page_tags s p)"
  using assms
proof (induction n arbitrary: s)
  case 0
  then show ?case by simp
next
  case (Suc n)
  let ?s1 = "take_page TagKernelStack (next_free_page s) s"
  have room: "\<not> end_free_page s \<le> next_free_page s" and r: "alloc_more_stack n ?s1 = (Ok (), s')"
    using Suc.prems by (auto simp: alloc_kstack_cases split: if_splits)
  have inv: "phys_inv ?s1" using take_page_inv [OF Suc.prems(1)] room by simp
  have nf: "next_free_page ?s1 = next_free_page s + 4096" by (simp add: take_page_def)
  note IH = Suc.IH [OF inv r, unfolded nf]
  have base: "RAM_BASE \<le> next_free_page s" using Suc.prems(1) by (simp add: phys_inv_def)
  have pfn: "pa_to_pfn (next_free_page s + 4096) = Suc (pa_to_pfn (next_free_page s))"
    by (rule pfn_next [OF base])
  have "page_tags s' (pa_to_pfn (next_free_page s)) = tag_byte TagKernelStack"
    using IH pfn by (simp add: take_page_def)
  moreover have "page_tags s' (pa_to_pfn (next_free_page s + 4096 * i)) = tag_byte TagKernelStack"
    if "0 < i" "i < Suc n" for i
  proof -
    obtain j where "i = Suc j" using \<open>0 < i\<close> by (cases i) auto
    then show ?thesis using IH that by (simp add: algebra_simps)
  qed
  ultimately have "\<forall>i<Suc n. page_tags s' (pa_to_pfn (next_free_page s + 4096 * i)) = tag_byte TagKernelStack"
    by (metis add_0_right gr0I mult_0_right)
  moreover have "\<forall>p<pa_to_pfn (next_free_page s). page_tags s' p = page_tags s p"
    using IH pfn by (simp add: take_page_def)
  ultimately show ?case using IH by simp
qed

lemma alloc_more_stack_ok:
  assumes "phys_inv s" "next_free_page s + 4096 * n \<le> end_free_page s"
  shows "\<exists>s'. alloc_more_stack n s = (Ok (), s')"
  using assms
proof (induction n arbitrary: s)
  case 0
  then show ?case by simp
next
  case (Suc n)
  let ?s1 = "take_page TagKernelStack (next_free_page s) s"
  have "phys_inv ?s1" using take_page_inv [OF Suc.prems(1)] Suc.prems(2) by simp
  with Suc.IH [of ?s1] Suc.prems show ?case
    by (simp add: alloc_kstack_cases take_page_def)
qed

text \<open>
  A kernel stack is one contiguous range. The code allocates four frames, keeps only the
  address of the first and sets the stack pointer 16 KiB above it; when it succeeds the four
  frames from that address on are exactly the ones it was given, all tagged as kernel stack,
  and none of them had been handed out before.
\<close>

theorem kernel_stack_contiguous:
  assumes "phys_inv s" "new_user_with_priority stub name entry user_top prio ctr s = (Ok t, ctr', s')"
  shows "th_kernel_stack_base_pa t = next_free_page s
    \<and> next_free_page s' = next_free_page s + KERNEL_STACK_SIZE
    \<and> (\<forall>i<KERNEL_STACK_PAGES. page_tags s' (pa_to_pfn (th_kernel_stack_base_pa t + 4096 * i)) = tag_byte TagKernelStack
          \<and> th_kernel_stack_base_pa t + 4096 * i \<notin> used_pages s)
    \<and> th_kernel_sp t = pa_to_kernel_va (th_kernel_stack_base_pa t) + word_of_nat KERNEL_STACK_SIZE
    \<and> phys_inv s' \<and> th_id t = ctr \<and> ctr' = ctr + 1"
proof -
  let ?s1 = "take_page TagKernelStack (next_free_page s) s"
  have st: "alloc_stack s = (Ok (th_kernel_stack_base_pa t), s')"
    and t: "th_kernel_sp t = pa_to_kernel_va (th_kernel_stack_base_pa t) + word_of_nat KERNEL_STACK_SIZE"
      "th_id t = ctr" "ctr' = ctr + 1"
    using assms(2) by (cases "alloc_stack s"; cases "fst (alloc_stack s)";
      force simp: new_user_with_priority_def make_thread_def)+
  have room: "\<not> end_free_page s \<le> next_free_page s" and pa: "th_kernel_stack_base_pa t = next_free_page s"
    and more: "alloc_more_stack 3 ?s1 = (Ok (), s')"
    using st by (auto simp: alloc_stack_def alloc_kstack_cases [OF assms(1)] KERNEL_STACK_PAGES_def
        split: if_splits prod.splits res.splits)
  have "alloc_more_stack (Suc 3) s = (Ok (), s')"
    using more room by (simp only: alloc_more_stack.simps alloc_kstack_cases [OF assms(1)]) simp
  from alloc_more_stack_OkD [OF assms(1) this] pa t show ?thesis
    by (auto simp: KERNEL_STACK_PAGES_def KERNEL_STACK_SIZE_def PAGE_SIZE_def used_pages_def)
qed

theorem kernel_stack_contiguous_witness:
  "\<exists>t s. new_user_with_priority 0 ''sh'' 0x400000 0x500000 NormalPrio 1 demo_phys = (Ok t, 2, s)
     \<and> th_kernel_stack_base_pa t = 0x40080000 \<and> next_free_page s = 0x40084000"
proof -
  have d: "next_free_page demo_phys = 0x40080000" "end_free_page demo_phys = 0x40090000"
    by (simp_all add: demo_phys_def)
  have "\<exists>s. alloc_more_stack (Suc 3) demo_phys = (Ok (), s)"
    by (rule alloc_more_stack_ok [OF demo_phys_inv]) (simp add: d)
  then have "\<exists>s. alloc_stack demo_phys = (Ok 0x40080000, s)"
    by (auto simp only: alloc_more_stack.simps alloc_kstack_cases [OF demo_phys_inv] d alloc_stack_def KERNEL_STACK_PAGES_def
        split: prod.splits res.splits) simp_all
  then have "\<exists>t c s. new_user_with_priority 0 ''sh'' 0x400000 0x500000 NormalPrio 1 demo_phys = (Ok t, c, s)"
    by (auto simp: new_user_with_priority_def Let_def)
  then obtain t c s where r: "new_user_with_priority 0 ''sh'' 0x400000 0x500000 NormalPrio 1 demo_phys = (Ok t, c, s)"
    by blast
  from kernel_stack_contiguous [OF demo_phys_inv r] r d show ?thesis
    by (auto simp: KERNEL_STACK_SIZE_def KERNEL_STACK_PAGES_def PAGE_SIZE_def)
qed

end
