(* ===== verification/Scheduler.thy ===== *)
theory Scheduler
  imports Thread
begin

text \<open>
  The scheduler, \<open>kernel/src/task/scheduler.rs\<close>: array ready queues per priority level, the
  selection of the next thread, and the state changes of a context switch up to the switch
  itself. The spin lock and the interrupt mask are not modelled: the kernel runs on one core and
  every operation holds the lock from start to end. The register switch is the outcome
  \<open>SSwitch\<close>; what runs when the thread is resumed is \<open>schedule_resume\<close>. The process table is
  consulted for the page-table root of a process, so that function is an argument.
\<close>

section \<open>Ready queues\<close>

definition MAX_THREADS :: nat where "MAX_THREADS = 16"
definition PRIORITY_LEVELS :: nat where "PRIORITY_LEVELS = 5"

record thread_queue =
  tq_items :: "nat option list"
  tq_count :: nat

definition tq_new :: thread_queue where
  "tq_new = \<lparr>tq_items = replicate MAX_THREADS None, tq_count = 0\<rparr>"

definition tq_push :: "nat \<Rightarrow> thread_queue \<Rightarrow> bool \<times> thread_queue" where
  "tq_push tid q =
     (if MAX_THREADS \<le> tq_count q then (False, q)
      else (True, q\<lparr>tq_items := (tq_items q)[tq_count q := Some tid], tq_count := tq_count q + 1\<rparr>))"

definition tq_pop :: "thread_queue \<Rightarrow> nat option \<times> thread_queue" where
  "tq_pop q =
     (if tq_count q = 0 then (None, q)
      else let c = tq_count q - 1 in
        (tq_items q ! 0, q\<lparr>tq_items := (shift_left 0 c (tq_items q))[c := None], tq_count := c\<rparr>))"

definition tq_is_empty :: "thread_queue \<Rightarrow> bool" where
  "tq_is_empty q \<longleftrightarrow> tq_count q = 0"

section \<open>Scheduler state and operations\<close>

record sched =
  sc_threads :: "thread option list"
  sc_queues :: "thread_queue list"
  sc_current :: "nat option"
  sc_running :: bool
  sc_ttbr0 :: "(u64 \<times> u16) option"

definition sched_new :: sched where
  "sched_new = \<lparr>sc_threads = replicate MAX_THREADS None, sc_queues = replicate PRIORITY_LEVELS tq_new,
     sc_current = None, sc_running = False, sc_ttbr0 = None\<rparr>"

definition find_empty_slot :: "sched \<Rightarrow> nat option" where
  "find_empty_slot s = first_free (sc_threads s)"

definition push_level :: "nat \<Rightarrow> nat \<Rightarrow> sched \<Rightarrow> bool \<times> sched" where
  "push_level lvl idx s =
     (let (ok, q) = tq_push idx (sc_queues s ! lvl) in (ok, s\<lparr>sc_queues := (sc_queues s)[lvl := q]\<rparr>))"

definition set_thread :: "nat \<Rightarrow> thread \<Rightarrow> sched \<Rightarrow> sched" where
  "set_thread i t s = s\<lparr>sc_threads := (sc_threads s)[i := Some t]\<rparr>"

definition sched_add :: "thread \<Rightarrow> sched \<Rightarrow> unit res \<times> sched" where
  "sched_add t s =
     (case find_empty_slot s of
        Some idx \<Rightarrow>
          (let s1 = set_thread idx (t\<lparr>th_state := Ready\<rparr>) s;
               (ok, s2) = push_level (priority_index (th_priority t)) idx s1
           in if ok then (Ok (), s2)
              else (Panic, s2\<lparr>sc_threads := (sc_threads s2)[idx := None]\<rparr>))
      | None \<Rightarrow> (Panic, s))"

text \<open>\<open>(0..PRIORITY_LEVELS).find_map(|i| self.queues[i].pop_highest_priority())\<close>.\<close>

fun pop_first :: "thread_queue list \<Rightarrow> nat option \<times> thread_queue list" where
  "pop_first [] = (None, [])"
| "pop_first (q # qs) =
     (case tq_pop q of
        (Some x, q') \<Rightarrow> (Some x, q' # qs)
      | (None, q') \<Rightarrow> (let (r, qs') = pop_first qs in (r, q' # qs')))"

definition alive :: "thread option \<Rightarrow> bool" where
  "alive t \<longleftrightarrow> (case t of None \<Rightarrow> False | Some th \<Rightarrow> th_state th \<noteq> Dead)"

fun pop_loop :: "nat \<Rightarrow> sched \<Rightarrow> nat option res \<times> sched" where
  "pop_loop 0 s = (Ok None, s)"
| "pop_loop (Suc n) s =
     (case pop_first (sc_queues s) of
        (None, qs) \<Rightarrow> (Ok (find_index alive (sc_threads s)), s\<lparr>sc_queues := qs\<rparr>)
      | (Some idx, qs) \<Rightarrow>
          (let s1 = s\<lparr>sc_queues := qs\<rparr> in
           if length (sc_threads s) \<le> idx then (Panic, s1)
           else if alive (sc_threads s ! idx) then (Ok (Some idx), s1)
           else pop_loop n s1))"

definition pop_next_from_all_queues :: "sched \<Rightarrow> nat option res \<times> sched" where
  "pop_next_from_all_queues s = pop_loop MAX_THREADS s"

definition requeue_current :: "nat \<Rightarrow> sched \<Rightarrow> sched" where
  "requeue_current idx s =
     (case sc_threads s ! idx of
        None \<Rightarrow> s
      | Some t \<Rightarrow> snd (push_level (priority_index (th_priority t)) idx s))"

definition start_thread :: "nat \<Rightarrow> sched \<Rightarrow> sched" where
  "start_thread idx s =
     (case sc_threads s ! idx of
        None \<Rightarrow> s
      | Some t \<Rightarrow> set_thread idx (reset_time_slice (t\<lparr>th_state := Running\<rparr>)) s)"

datatype sched_outcome =
    SReturn
  | SSwitch "nat option" nat
  | SIdle
  | SHalt
  | SPanic

definition sched_run :: "sched \<Rightarrow> sched_outcome \<times> sched" where
  "sched_run s =
     (case pop_next_from_all_queues (s\<lparr>sc_running := True\<rparr>) of
        (Ok (Some idx), s1) \<Rightarrow> (SSwitch None idx, start_thread idx (s1\<lparr>sc_current := Some idx\<rparr>))
      | (_, s1) \<Rightarrow> (SPanic, s1))"

text \<open>The accounting of the outgoing thread at the start of \<open>schedule\<close>.\<close>

definition tick_thread :: "thread \<Rightarrow> thread" where
  "tick_thread t =
     (let t1 = (if th_state t = Running then t\<lparr>th_state := Ready\<rparr> else t);
          t2 = t1\<lparr>th_remaining_ticks := th_remaining_ticks t1 - 1\<rparr>
      in if th_remaining_ticks t2 = 0 then decay_priority t2 else t2)"

definition set_ttbr0 :: "(u64 \<Rightarrow> (u64 \<times> u16) option) \<Rightarrow> u64 \<Rightarrow> sched \<Rightarrow> sched" where
  "set_ttbr0 l0_of pid s = (case l0_of pid of None \<Rightarrow> s | Some x \<Rightarrow> s\<lparr>sc_ttbr0 := Some x\<rparr>)"

definition schedule_out :: "nat \<Rightarrow> sched \<Rightarrow> thread_state \<times> sched" where
  "schedule_out prev s =
     (let (st, s1) = (case sc_threads s ! prev of
             None \<Rightarrow> (Dead, s)
           | Some t \<Rightarrow> (th_state (tick_thread t), set_thread prev (tick_thread t) s))
      in (st, if st = Ready then requeue_current prev s1 else s1))"

definition schedule :: "(u64 \<Rightarrow> (u64 \<times> u16) option) \<Rightarrow> sched \<Rightarrow> sched_outcome \<times> sched" where
  "schedule l0_of s =
     (if \<not> sc_running s then (SReturn, s)
      else case sc_current s of
        None \<Rightarrow> (SReturn, s)
      | Some prev \<Rightarrow>
          (let (prev_state, s1) = schedule_out prev s in
           case pop_next_from_all_queues s1 of
             (Ok (Some nxt), s2) \<Rightarrow>
               (let s3 = (start_thread nxt s2)\<lparr>sc_current := Some nxt\<rparr> in
                case (sc_threads s3 ! prev, sc_threads s3 ! nxt) of
                  (Some p, Some n) \<Rightarrow>
                    (if prev = nxt \<and> prev_state \<noteq> Dead
                     then (SReturn, set_ttbr0 l0_of (th_process_id p) s3)
                     else (SSwitch (Some prev) nxt, set_ttbr0 l0_of (th_process_id n) s3))
                | _ \<Rightarrow> (SPanic, s3))
           | (Ok None, s2) \<Rightarrow>
               (if list_all (\<lambda>t. \<not> alive t) (sc_threads s2) then (SHalt, s2)
                else (SIdle, s2\<lparr>sc_current := None\<rparr>))
           | (_, s2) \<Rightarrow> (SPanic, s2)))"

text \<open>What a thread that was switched out does first when it runs again.\<close>

definition schedule_resume :: "(u64 \<Rightarrow> (u64 \<times> u16) option) \<Rightarrow> nat \<Rightarrow> sched \<Rightarrow> sched" where
  "schedule_resume l0_of prev s =
     (case sc_threads s ! prev of None \<Rightarrow> s | Some t \<Rightarrow> set_ttbr0 l0_of (th_process_id t) s)"

definition get_current_thread :: "sched \<Rightarrow> nat option" where
  "get_current_thread s =
     (case sc_current s of
        None \<Rightarrow> None
      | Some idx \<Rightarrow> (case sc_threads s ! idx of None \<Rightarrow> None | Some _ \<Rightarrow> Some idx))"

definition get_thread :: "nat \<Rightarrow> sched \<Rightarrow> nat option" where
  "get_thread tid s = find_slot (\<lambda>t. th_id t = tid) (sc_threads s)"

definition wakeable :: "nat \<Rightarrow> thread \<Rightarrow> bool" where
  "wakeable tid t \<longleftrightarrow> th_id t = tid \<and> (th_state t = Blocked \<or> th_state t = Sleeping)"

definition wake_thread :: "nat \<Rightarrow> sched \<Rightarrow> sched" where
  "wake_thread tid s =
     (case find_slot (wakeable tid) (sc_threads s) of
        None \<Rightarrow> s
      | Some i \<Rightarrow>
          (case sc_threads s ! i of
             None \<Rightarrow> s
           | Some t \<Rightarrow> requeue_current i (set_thread i (t\<lparr>th_state := Ready\<rparr>) s)))"

text \<open>Direct writes to a thread's state through the pointers the scheduler hands out.\<close>

definition set_state :: "nat \<Rightarrow> thread_state \<Rightarrow> sched \<Rightarrow> sched" where
  "set_state i st s =
     (case sc_threads s ! i of None \<Rightarrow> s | Some t \<Rightarrow> set_thread i (t\<lparr>th_state := st\<rparr>) s)"

section \<open>The ready queues are FIFO\<close>

definition tq_list :: "thread_queue \<Rightarrow> nat list" where
  "tq_list q = live_slots (tq_items q)"

definition tq_wf :: "thread_queue \<Rightarrow> bool" where
  "tq_wf q \<longleftrightarrow> tq_items q = prefix_slots (tq_list q) MAX_THREADS \<and> tq_count q = length (tq_list q)
     \<and> length (tq_list q) \<le> MAX_THREADS"

lemma tq_new_wf: "tq_wf tq_new" "tq_list tq_new = []"
  by (simp_all add: tq_wf_def tq_new_def tq_list_def prefix_slots_def)

lemma tq_push_step:
  assumes "tq_wf q" "length (tq_list q) < MAX_THREADS"
  shows "fst (tq_push x q)" "tq_wf (snd (tq_push x q))" "tq_list (snd (tq_push x q)) = tq_list q @ [x]"
proof -
  have items: "tq_items q = prefix_slots (tq_list q) MAX_THREADS" "tq_count q = length (tq_list q)"
    using assms(1) by (auto simp: tq_wf_def)
  have eq: "tq_push x q = (True, q\<lparr>tq_items := prefix_slots (tq_list q @ [x]) MAX_THREADS, tq_count := Suc (length (tq_list q))\<rparr>)"
    using assms items prefix_slots_push [OF assms(2), of x] by (simp add: tq_push_def)
  show "fst (tq_push x q)" "tq_wf (snd (tq_push x q))" "tq_list (snd (tq_push x q)) = tq_list q @ [x]"
    using assms(2) by (simp_all add: eq tq_wf_def tq_list_def)
qed

lemma tq_pop_step:
  assumes "tq_wf q" "tq_list q = y # ys"
  shows "fst (tq_pop q) = Some y" "tq_wf (snd (tq_pop q))" "tq_list (snd (tq_pop q)) = ys"
proof -
  have items: "tq_items q = prefix_slots (y # ys) MAX_THREADS" "tq_count q = Suc (length ys)"
    and len: "length ys < MAX_THREADS"
    using assms by (auto simp: tq_wf_def)
  have hd: "prefix_slots (y # ys) MAX_THREADS ! 0 = Some y" by (simp add: prefix_slots_def)
  have "(prefix_slots (y # ys) MAX_THREADS)[0 := Some y] = prefix_slots (y # ys) MAX_THREADS"
    by (simp add: prefix_slots_def)
  with prefix_slots_pop [OF len, of y "Some y"]
  have "(shift_left 0 (length ys) (prefix_slots (y # ys) MAX_THREADS))[length ys := None] = prefix_slots ys MAX_THREADS"
    by simp
  then have eq: "tq_pop q = (Some y, q\<lparr>tq_items := prefix_slots ys MAX_THREADS, tq_count := length ys\<rparr>)"
    using items hd by (simp add: tq_pop_def)
  show "fst (tq_pop q) = Some y" "tq_wf (snd (tq_pop q))" "tq_list (snd (tq_pop q)) = ys"
    using len by (simp_all add: eq tq_wf_def tq_list_def)
qed

lemma tq_pop_empty: "tq_wf q \<Longrightarrow> tq_list q = [] \<Longrightarrow> tq_pop q = (None, q)"
  by (simp add: tq_pop_def tq_wf_def)

interpretation ready: bounded_fifo MAX_THREADS tq_list tq_wf tq_push tq_pop
proof unfold_locales
  fix q :: thread_queue and x :: nat assume wf: "tq_wf q"
  show "length (tq_list q) \<le> MAX_THREADS" using wf by (simp add: tq_wf_def)
  show "length (tq_list q) = MAX_THREADS \<Longrightarrow> tq_push x q = (False, q)"
    using wf by (simp add: tq_push_def tq_wf_def)
  then show "tq_wf (snd (tq_push x q))"
    using wf tq_push_step [OF wf] by (cases "length (tq_list q) < MAX_THREADS") (auto simp: tq_wf_def)
  show "tq_wf (snd (tq_pop q))"
    using wf tq_pop_step [OF wf] tq_pop_empty [OF wf] by (cases "tq_list q") auto
qed (auto simp: tq_push_step tq_pop_step tq_pop_empty)

section \<open>Selection of the next thread\<close>

primrec queue_lists :: "thread_queue list \<Rightarrow> nat list" where
  "queue_lists [] = []"
| "queue_lists (q # qs) = tq_list q @ queue_lists qs"

definition queued :: "sched \<Rightarrow> nat list" where
  "queued s = queue_lists (sc_queues s)"

definition alive_at :: "sched \<Rightarrow> nat \<Rightarrow> bool" where
  "alive_at s i \<longleftrightarrow> alive (sc_threads s ! i)"

definition pick_next :: "sched \<Rightarrow> nat option" where
  "pick_next s =
     (case filter (alive_at s) (queued s) of
        x # _ \<Rightarrow> Some x
      | [] \<Rightarrow> find_index alive (sc_threads s))"

definition after_pick :: "sched \<Rightarrow> nat list" where
  "after_pick s = tl (dropWhile (\<lambda>i. \<not> alive_at s i) (queued s))"

lemma after_pick_dead: "filter (alive_at s) (queued s) = [] \<Longrightarrow> after_pick s = []"
  unfolding after_pick_def by (metis dropWhile_eq_Nil_conv filter_empty_conv list.sel(2))

definition queues_wf :: "sched \<Rightarrow> bool" where
  "queues_wf s \<longleftrightarrow> length (sc_threads s) = MAX_THREADS \<and> length (sc_queues s) = PRIORITY_LEVELS
     \<and> list_all tq_wf (sc_queues s) \<and> distinct (queued s) \<and> (\<forall>i\<in>set (queued s). i < MAX_THREADS)"

lemma pop_first_spec:
  assumes "list_all tq_wf qs" "pop_first qs = (r, qs')"
  shows "list_all tq_wf qs' \<and> length qs' = length qs \<and>
    (case queue_lists qs of
       [] \<Rightarrow> r = None \<and> queue_lists qs' = []
     | x # xs \<Rightarrow> r = Some x \<and> queue_lists qs' = xs)"
  using assms
proof (induction qs arbitrary: r qs')
  case Nil
  then show ?case by simp
next
  case (Cons q qs)
  show ?case
  proof (cases "tq_list q")
    case Nil
    then have p: "tq_pop q = (None, q)" using Cons.prems by (simp add: tq_pop_empty)
    obtain r1 qs1 where r: "pop_first qs = (r1, qs1)" by (metis prod.exhaust)
    with Cons.IH [OF _ r] Cons.prems p Nil show ?thesis by (auto split: list.splits)
  next
    case (Cons y ys)
    have wf: "tq_wf q" using Cons.prems by simp
    obtain q' where p: "tq_pop q = (Some y, q')" "tq_wf q'" "tq_list q' = ys"
      using tq_pop_step [OF wf Cons] by (metis prod.collapse)
    then show ?thesis using Cons Cons.prems by auto
  qed
qed

lemma pop_loop_spec:
  assumes "queues_wf s" "pop_loop n s = (r, s')"
  shows "queues_wf s' \<and> (\<exists>qs. s' = s\<lparr>sc_queues := qs\<rparr>) \<and>
    (if length (queued s) < n \<or> filter (alive_at s) (queued s) \<noteq> [] \<and> length (queued s) \<le> n
     then r = Ok (pick_next s) \<and> queued s' = after_pick s
     else length (queued s) = n \<longrightarrow> r = Ok None \<and> queued s' = [])"
  using assms
proof (induction n arbitrary: s)
  case 0
  then show ?case by (auto intro: exI [of _ "sc_queues s"])
next
  case (Suc n)
  obtain p qs where p: "pop_first (sc_queues s) = (p, qs)" by (metis prod.exhaust)
  have qwf: "list_all tq_wf (sc_queues s)" using Suc.prems(1) by (simp add: queues_wf_def)
  note ps = pop_first_spec [OF qwf p]
  let ?s1 = "s\<lparr>sc_queues := qs\<rparr>"
  have alive1: "alive_at ?s1 = alive_at s" by (simp add: alive_at_def fun_eq_iff)
  show ?case
  proof (cases "queued s")
    case Nil
    then have "p = None" "queued ?s1 = []" using ps by (auto simp: queued_def)
    then show ?thesis using Suc.prems p ps Nil
      by (auto simp: pick_next_def after_pick_def queues_wf_def)
  next
    case (Cons x xs)
    then have px: "p = Some x" and q1: "queued ?s1 = xs" using ps by (auto simp: queued_def)
    have xlt: "x < length (sc_threads s)" using Suc.prems(1) Cons by (simp add: queues_wf_def)
    have wf1: "queues_wf ?s1" using Suc.prems(1) ps q1 Cons by (simp add: queues_wf_def)
    show ?thesis
    proof (cases "alive_at s x")
      case True
      then have "pop_loop (Suc n) s = (Ok (Some x), ?s1)"
        using p px xlt by (simp add: alive_at_def)
      then show ?thesis using Suc.prems True Cons wf1 q1
        by (auto simp: pick_next_def after_pick_def)
    next
      case False
      then have "pop_loop n ?s1 = (r, s')"
        using Suc.prems(2) p px xlt by (simp add: alive_at_def)
      note IH = Suc.IH [OF wf1 this]
      have "pick_next s = pick_next ?s1" using False Cons q1 alive1 by (simp add: pick_next_def split: list.splits)
      moreover have "after_pick s = after_pick ?s1" using False Cons q1 alive1 by (simp add: after_pick_def)
      ultimately show ?thesis using IH q1 alive1 Cons False by auto
    qed
  qed
qed

lemma pop_next_spec:
  assumes wf: "queues_wf s"
  obtains qs where "pop_next_from_all_queues s = (Ok (pick_next s), s\<lparr>sc_queues := qs\<rparr>)"
    "queues_wf (s\<lparr>sc_queues := qs\<rparr>)" "queued (s\<lparr>sc_queues := qs\<rparr>) = after_pick s"
proof -
  obtain r s' where p: "pop_loop MAX_THREADS s = (r, s')" by (metis prod.exhaust)
  note ps = pop_loop_spec [OF wf p]
  have sub: "set (queued s) \<subseteq> {..<MAX_THREADS}" and dist: "distinct (queued s)"
    using wf by (auto simp: queues_wf_def)
  have len: "length (queued s) \<le> MAX_THREADS"
    using card_mono [OF _ sub] distinct_card [OF dist] by simp
  have "r = Ok (pick_next s) \<and> queued s' = after_pick s"
  proof (cases "length (queued s) < MAX_THREADS \<or> filter (alive_at s) (queued s) \<noteq> []")
    case True
    then show ?thesis using ps len by auto
  next
    case False
    then have full: "length (queued s) = MAX_THREADS" and dead: "filter (alive_at s) (queued s) = []"
      using len by auto
    have "set (queued s) = {..<MAX_THREADS}"
      using sub full distinct_card [OF dist] by (intro card_subset_eq) auto
    then have "\<forall>i<MAX_THREADS. \<not> alive_at s i" using dead by (auto simp: filter_empty_conv)
    then have "find_index alive (sc_threads s) = None"
      using wf by (auto simp: find_index_None in_set_conv_nth alive_at_def queues_wf_def)
    then have "pick_next s = None" using dead by (simp add: pick_next_def)
    then show ?thesis using ps full dead after_pick_dead [OF dead] by simp
  qed
  with ps p that show ?thesis by (auto simp: pop_next_from_all_queues_def)
qed

lemma pick_next_alive:
  assumes "queues_wf s" "pick_next s = Some i"
  shows "i < MAX_THREADS \<and> alive_at s i \<and> i \<notin> set (after_pick s)"
proof (cases "filter (alive_at s) (queued s)")
  case Nil
  then have "find_index alive (sc_threads s) = Some i" using assms(2) by (simp add: pick_next_def)
  moreover have "after_pick s = []" by (rule after_pick_dead [OF Nil])
  ultimately show ?thesis
    using assms(1) find_index_SomeD [of alive "sc_threads s" i] by (simp add: alive_at_def queues_wf_def)
next
  case (Cons x xs)
  then have x: "i = x" using assms(2) by (simp add: pick_next_def)
  from Cons have "x \<in> set (filter (alive_at s) (queued s))" by simp
  then have "x \<in> set (queued s)" "alive_at s x" by simp_all
  moreover have "dropWhile (\<lambda>i. \<not> alive_at s i) (queued s) = x # after_pick s"
  proof -
    have "dropWhile (\<lambda>i. \<not> alive_at s i) ys = x # tl (dropWhile (\<lambda>i. \<not> alive_at s i) ys)"
      if "filter (alive_at s) ys = x # zs" for ys zs
      using that by (induction ys) (auto split: if_splits)
    from this [OF Cons] show ?thesis by (simp add: after_pick_def)
  qed
  then have "x \<notin> set (after_pick s)"
    using assms(1) distinct_dropWhile [of "queued s"] by (metis distinct.simps(2) queues_wf_def)
  ultimately show ?thesis using x assms(1) by (auto simp: queues_wf_def)
qed

section \<open>Invariant\<close>

text \<open>
  A queued index names a thread that is ready, or that has been killed since it was queued;
  nothing is queued twice; the current thread is not queued; and a running thread is the
  current one.
\<close>

definition sched_wf :: "sched \<Rightarrow> bool" where
  "sched_wf s \<longleftrightarrow> queues_wf s
     \<and> (\<forall>i\<in>set (queued s). \<exists>t. sc_threads s ! i = Some t \<and> (th_state t = Ready \<or> th_state t = Dead))
     \<and> (\<forall>c. sc_current s = Some c \<longrightarrow> c < MAX_THREADS \<and> sc_threads s ! c \<noteq> None \<and> c \<notin> set (queued s))
     \<and> (\<forall>i t. i < MAX_THREADS \<and> sc_threads s ! i = Some t \<and> th_state t = Running \<longrightarrow> sc_current s = Some i)"

lemma sched_wf_running:
  "sched_wf s \<Longrightarrow> i < MAX_THREADS \<Longrightarrow> sc_threads s ! i = Some t \<Longrightarrow> th_state t = Running \<Longrightarrow> sc_current s = Some i"
  unfolding sched_wf_def by blast

lemma sched_wf_queues: "sched_wf s \<Longrightarrow> queues_wf s"
  unfolding sched_wf_def by blast

lemma sched_wf_length: "sched_wf s \<Longrightarrow> length (sc_threads s) = MAX_THREADS"
  using sched_wf_queues unfolding queues_wf_def by blast

lemma sched_wf_queued:
  "sched_wf s \<Longrightarrow> i \<in> set (queued s) \<Longrightarrow> \<exists>t. sc_threads s ! i = Some t \<and> (th_state t = Ready \<or> th_state t = Dead)"
  unfolding sched_wf_def by blast

lemma sched_wf_current:
  "sched_wf s \<Longrightarrow> sc_current s = Some c \<Longrightarrow> c < MAX_THREADS \<and> sc_threads s ! c \<noteq> None \<and> c \<notin> set (queued s)"
  unfolding sched_wf_def by blast

lemma sched_wfI:
  assumes "queues_wf s"
    and "\<And>i. i \<in> set (queued s) \<Longrightarrow> \<exists>t. sc_threads s ! i = Some t \<and> (th_state t = Ready \<or> th_state t = Dead)"
    and "\<And>c. sc_current s = Some c \<Longrightarrow> c < MAX_THREADS \<and> sc_threads s ! c \<noteq> None \<and> c \<notin> set (queued s)"
    and "\<And>i t. i < MAX_THREADS \<Longrightarrow> sc_threads s ! i = Some t \<Longrightarrow> th_state t = Running \<Longrightarrow> sc_current s = Some i"
  shows "sched_wf s"
  using assms unfolding sched_wf_def by blast

lemma queue_lists_push:
  assumes "lvl < length qs" "tq_list q' = tq_list (qs ! lvl) @ [x]"
  shows "\<exists>a b. queue_lists qs = a @ b \<and> queue_lists (qs[lvl := q']) = a @ x # b"
  using assms
proof (induction qs arbitrary: lvl)
  case Nil
  then show ?case by simp
next
  case (Cons q qs)
  show ?case
  proof (cases lvl)
    case 0
    then show ?thesis using Cons.prems by auto
  next
    case (Suc n)
    with Cons.IH [of n] Cons.prems obtain a b where
      "queue_lists qs = a @ b" "queue_lists (qs[n := q']) = a @ x # b" by auto
    then show ?thesis using Suc by (intro exI [of _ "tq_list q @ a"] exI [of _ b]) simp
  qed
qed

lemma length_queue_le:
  "q \<in> set qs \<Longrightarrow> length (tq_list q) \<le> length (queue_lists qs)"
  by (induction qs) auto

lemma priority_index_less [simp]: "priority_index p < PRIORITY_LEVELS"
  by (cases p) (simp_all add: PRIORITY_LEVELS_def)

text \<open>Queueing an index that is not queued always succeeds: fewer than sixteen are.\<close>

lemma push_level_spec:
  assumes wf: "queues_wf s" and lvl: "lvl < PRIORITY_LEVELS" and x: "x < MAX_THREADS" "x \<notin> set (queued s)"
    and eq: "push_level lvl x s = (ok, s')"
  shows "ok \<and> (\<exists>qs. s' = s\<lparr>sc_queues := qs\<rparr>) \<and> queues_wf s' \<and> set (queued s') = insert x (set (queued s))"
proof -
  let ?q = "sc_queues s ! lvl"
  have mem: "?q \<in> set (sc_queues s)" using wf lvl by (simp add: queues_wf_def)
  have qwf: "tq_wf ?q" using wf mem by (simp add: queues_wf_def list_all_iff)
  have "insert x (set (queued s)) \<subseteq> {..<MAX_THREADS}" using wf x by (auto simp: queues_wf_def)
  from card_mono [OF _ this] have "Suc (length (queued s)) \<le> MAX_THREADS"
    using wf x distinct_card [of "queued s"] by (simp add: queues_wf_def)
  then have room: "length (tq_list ?q) < MAX_THREADS"
    using length_queue_le [OF mem] by (simp add: queued_def)
  obtain q' where q': "tq_push x ?q = (True, q')" "tq_wf q'" "tq_list q' = tq_list ?q @ [x]"
    using tq_push_step [OF qwf room, of x] by (metis prod.collapse)
  have s': "ok" "s' = s\<lparr>sc_queues := (sc_queues s)[lvl := q']\<rparr>" using eq q' by (auto simp: push_level_def)
  obtain a b where ab: "queued s = a @ b" "queued s' = a @ x # b"
    using queue_lists_push [OF _ q'(3)] wf lvl s' by (auto simp: queued_def queues_wf_def)
  have "list_all tq_wf ((sc_queues s)[lvl := q'])"
    using wf q'(2) set_update_subset_insert [of "sc_queues s" lvl q'] by (auto simp: queues_wf_def list_all_iff)
  then have "queues_wf s'" using wf ab x s' by (auto simp: queues_wf_def)
  then show ?thesis using s' ab by auto
qed

lemma requeue_spec:
  assumes "queues_wf s" "i < MAX_THREADS" "i \<notin> set (queued s)" "sc_threads s ! i = Some t"
  shows "(\<exists>qs. requeue_current i s = s\<lparr>sc_queues := qs\<rparr>) \<and> queues_wf (requeue_current i s)
    \<and> set (queued (requeue_current i s)) = insert i (set (queued s))"
proof -
  obtain ok s' where p: "push_level (priority_index (th_priority t)) i s = (ok, s')" by (metis prod.exhaust)
  from push_level_spec [OF assms(1) priority_index_less assms(2,3) p] assms(4) p
  show ?thesis by (auto simp: requeue_current_def)
qed

lemma queues_wf_set_thread [simp]:
  "queues_wf (set_thread i t s) = queues_wf s" "queued (set_thread i t s) = queued s"
  by (auto simp: queues_wf_def queued_def set_thread_def)

lemma set_thread_frame [simp]:
  "sc_threads (set_thread i t s) = (sc_threads s)[i := Some t]" "sc_queues (set_thread i t s) = sc_queues s"
  "sc_current (set_thread i t s) = sc_current s" "sc_running (set_thread i t s) = sc_running s"
  "sc_ttbr0 (set_thread i t s) = sc_ttbr0 s"
  by (simp_all add: set_thread_def)

lemma tick_thread_state:
  "th_state (tick_thread t) = (if th_state t = Running then Ready else th_state t)"
  by (simp add: tick_thread_def decay_priority_def reset_time_slice_def Let_def)

lemma schedule_out_spec:
  assumes wf: "sched_wf s" and cur: "sc_current s = Some prev" and t: "sc_threads s ! prev = Some t"
    and eq: "schedule_out prev s = (st, s1)"
  shows "st = th_state (tick_thread t) \<and> queues_wf s1
    \<and> sc_threads s1 = (sc_threads s)[prev := Some (tick_thread t)]
    \<and> sc_current s1 = sc_current s \<and> sc_running s1 = sc_running s \<and> sc_ttbr0 s1 = sc_ttbr0 s
    \<and> set (queued s1) = (if st = Ready then insert prev (set (queued s)) else set (queued s))"
proof -
  let ?t = "tick_thread t" and ?s = "set_thread prev (tick_thread t) s"
  have pr: "prev < MAX_THREADS" "prev \<notin> set (queued s)" "queues_wf s"
    using wf cur by (auto simp: sched_wf_def)
  have len: "prev < length (sc_threads s)" using pr by (simp add: queues_wf_def)
  have th: "sc_threads ?s ! prev = Some ?t" using len by (simp add: set_thread_def)
  have "(st, s1) = (th_state ?t, if th_state ?t = Ready then requeue_current prev ?s else ?s)"
    using eq t by (auto simp: schedule_out_def Let_def)
  moreover have "(\<exists>qs. requeue_current prev ?s = ?s\<lparr>sc_queues := qs\<rparr>) \<and> queues_wf (requeue_current prev ?s)
      \<and> set (queued (requeue_current prev ?s)) = insert prev (set (queued s))"
    using requeue_spec [of ?s prev ?t] pr th by simp
  ultimately show ?thesis using pr(3) by auto
qed

lemma start_thread_eq:
  "sc_threads s ! i = Some t \<Longrightarrow>
     start_thread i s = s\<lparr>sc_threads := (sc_threads s)[i := Some (reset_time_slice (t\<lparr>th_state := Running\<rparr>))]\<rparr>"
  by (simp add: start_thread_def set_thread_def)

lemma set_ttbr0_frame [simp]:
  "sc_threads (set_ttbr0 f p s) = sc_threads s" "sc_queues (set_ttbr0 f p s) = sc_queues s"
  "sc_current (set_ttbr0 f p s) = sc_current s" "sc_running (set_ttbr0 f p s) = sc_running s"
  by (simp_all add: set_ttbr0_def split: option.splits)

lemma sched_wf_cong:
  assumes "sc_threads s' = sc_threads s" "sc_queues s' = sc_queues s" "sc_current s' = sc_current s"
  shows "sched_wf s' = sched_wf s"
  using assms by (simp add: sched_wf_def queues_wf_def queued_def)

lemma after_pick_subset: "set (after_pick s) \<subseteq> set (queued s)"
  unfolding after_pick_def by (metis list.set_sel(2) set_dropWhileD subsetI tl_Nil)

text \<open>The state after a thread has been chosen and started is well formed again.\<close>

lemma chosen_wf:
  assumes qwf: "queues_wf s1" "queues_wf (s1\<lparr>sc_queues := qs\<rparr>)" "queued (s1\<lparr>sc_queues := qs\<rparr>) = after_pick s1"
    and ready: "\<forall>i\<in>set (queued s1). \<exists>t. sc_threads s1 ! i = Some t \<and> (th_state t = Ready \<or> th_state t = Dead)"
    and norun: "\<forall>i<MAX_THREADS. \<forall>t. sc_threads s1 ! i = Some t \<longrightarrow> th_state t \<noteq> Running"
    and pick: "pick_next s1 = Some n"
  obtains tn where "sc_threads s1 ! n = Some tn" "th_state tn \<noteq> Dead" "n < MAX_THREADS"
    "start_thread n (s1\<lparr>sc_queues := qs\<rparr>) = s1\<lparr>sc_queues := qs,
       sc_threads := (sc_threads s1)[n := Some (reset_time_slice (tn\<lparr>th_state := Running\<rparr>))]\<rparr>"
    "sched_wf ((start_thread n (s1\<lparr>sc_queues := qs\<rparr>))\<lparr>sc_current := Some n\<rparr>)"
proof -
  have n: "n < MAX_THREADS" "alive_at s1 n" "n \<notin> set (after_pick s1)"
    using pick_next_alive [OF qwf(1) pick] by auto
  then obtain tn where tn: "sc_threads s1 ! n = Some tn" "th_state tn \<noteq> Dead"
    by (auto simp: alive_at_def alive_def split: option.splits)
  let ?s2 = "s1\<lparr>sc_queues := qs\<rparr>"
  have st: "start_thread n ?s2 = s1\<lparr>sc_queues := qs,
       sc_threads := (sc_threads s1)[n := Some (reset_time_slice (tn\<lparr>th_state := Running\<rparr>))]\<rparr>"
    using tn start_thread_eq [of ?s2 n tn] by simp
  have len: "n < length (sc_threads s1)" using qwf(1) n by (simp add: queues_wf_def)
  have q: "queued (s1\<lparr>sc_queues := qs, sc_threads := xs, sc_current := c\<rparr>) = after_pick s1" for xs c
    using qwf(3) by (simp add: queued_def)
  have "sched_wf ((start_thread n ?s2)\<lparr>sc_current := Some n\<rparr>)"
    unfolding sched_wf_def st
  proof (intro conjI ballI allI impI)
    show "queues_wf (s1\<lparr>sc_queues := qs,
        sc_threads := (sc_threads s1)[n := Some (reset_time_slice (tn\<lparr>th_state := Running\<rparr>))], sc_current := Some n\<rparr>)"
      using qwf(2) by (simp add: queues_wf_def queued_def)
  next
    fix i assume i: "i \<in> set (queued (s1\<lparr>sc_queues := qs,
        sc_threads := (sc_threads s1)[n := Some (reset_time_slice (tn\<lparr>th_state := Running\<rparr>))], sc_current := Some n\<rparr>))"
    then have "i \<noteq> n" "i \<in> set (queued s1)" using q n(3) after_pick_subset [of s1] by auto
    then show "\<exists>t. sc_threads (s1\<lparr>sc_queues := qs,
        sc_threads := (sc_threads s1)[n := Some (reset_time_slice (tn\<lparr>th_state := Running\<rparr>))], sc_current := Some n\<rparr>) ! i = Some t
        \<and> (th_state t = Ready \<or> th_state t = Dead)"
      using ready by simp
  qed (use n q len norun in \<open>auto simp: nth_list_update split: if_splits\<close>)
  with that [OF tn n(1) st] show ?thesis .
qed

lemma schedule_spec:
  assumes wf: "sched_wf s" and run: "sc_running s" "sc_current s = Some prev"
    and eq: "schedule l0_of s = (r, s')"
  shows "sched_wf s' \<and>
    (case r of
       SHalt \<Rightarrow> \<forall>i<MAX_THREADS. \<not> alive_at s' i
     | SIdle \<Rightarrow> False
     | SPanic \<Rightarrow> False
     | _ \<Rightarrow> (\<exists>n tn. sc_current s' = Some n \<and> pick_next (snd (schedule_out prev s)) = Some n
              \<and> sc_threads s' ! n = Some tn \<and> th_state tn = Running
              \<and> th_remaining_ticks tn = th_time_slice tn
              \<and> (r = SReturn \<and> n = prev \<or> r = SSwitch (Some prev) n)
              \<and> (l0_of (th_process_id tn) \<noteq> None \<longrightarrow> sc_ttbr0 s' = l0_of (th_process_id tn))))"
proof -
  obtain t where t: "sc_threads s ! prev = Some t" using wf run by (auto simp: sched_wf_def)
  obtain st s1 where out: "schedule_out prev s = (st, s1)" by (metis prod.exhaust)
  note so = schedule_out_spec [OF wf run(2) t out]
  have pr: "prev < MAX_THREADS" "prev < length (sc_threads s)" "prev \<notin> set (queued s)"
    using wf run by (auto simp: sched_wf_def queues_wf_def)
  have prev1: "sc_threads s1 ! prev = Some (tick_thread t)" using so pr by simp
  have qwf: "queues_wf s1" using so by simp
  have ready: "\<forall>i\<in>set (queued s1). \<exists>t. sc_threads s1 ! i = Some t \<and> (th_state t = Ready \<or> th_state t = Dead)"
  proof
    fix i assume i: "i \<in> set (queued s1)"
    show "\<exists>t. sc_threads s1 ! i = Some t \<and> (th_state t = Ready \<or> th_state t = Dead)"
    proof (cases "i = prev")
      case True
      then have "st = Ready" using i so pr(3) by (auto split: if_splits)
      then show ?thesis using True prev1 so by simp
    next
      case False
      then have mem: "i \<in> set (queued s)" and th: "sc_threads s1 ! i = sc_threads s ! i"
        using i so by (auto split: if_splits)
      from wf mem have "\<exists>t. sc_threads s ! i = Some t \<and> (th_state t = Ready \<or> th_state t = Dead)"
        unfolding sched_wf_def by blast
      then show ?thesis by (simp only: th)
    qed
  qed
  have norun: "\<forall>i<MAX_THREADS. \<forall>t. sc_threads s1 ! i = Some t \<longrightarrow> th_state t \<noteq> Running"
  proof (intro allI impI)
    fix i u assume i: "i < MAX_THREADS" "sc_threads s1 ! i = Some u"
    show "th_state u \<noteq> Running"
    proof (cases "i = prev")
      case True
      then have "u = tick_thread t" using i prev1 by simp
      then show ?thesis using tick_thread_state [of t] by (simp split: if_splits)
    next
      case False
      then have "sc_threads s ! i = Some u" using i so by simp
      then show ?thesis using sched_wf_running [OF wf i(1)] run(2) False by auto
    qed
  qed
  obtain qs where pop: "pop_next_from_all_queues s1 = (Ok (pick_next s1), s1\<lparr>sc_queues := qs\<rparr>)"
    and q2: "queues_wf (s1\<lparr>sc_queues := qs\<rparr>)" "queued (s1\<lparr>sc_queues := qs\<rparr>) = after_pick s1"
    by (rule pop_next_spec [OF qwf])
  show ?thesis
  proof (cases "pick_next s1")
    case None
    then have none: "find_index alive (sc_threads s1) = None" "after_pick s1 = []"
      using after_pick_dead by (auto simp: pick_next_def split: list.splits)
    then have dead: "list_all (\<lambda>t. \<not> alive t) (sc_threads s1)"
      by (simp add: find_index_None list_all_iff)
    then have res: "r = SHalt" "s' = s1\<lparr>sc_queues := qs\<rparr>"
      using eq run out pop None by (auto simp: schedule_def)
    have cur: "sc_current s' = Some prev" "sc_threads s' = sc_threads s1" using res so run by simp_all
    have "sched_wf s'"
    proof (rule sched_wfI)
      show "queues_wf s'" using res q2 by simp
      show "sc_current s' = Some i" if "i < MAX_THREADS" "sc_threads s' ! i = Some t" "th_state t = Running" for i t
        using norun that cur(2) by auto
    qed (use res q2 none cur prev1 pr in auto)
    moreover have "\<forall>i<MAX_THREADS. \<not> alive_at s' i"
      using dead res q2(1) by (simp add: list_all_length alive_at_def queues_wf_def)
    ultimately show ?thesis using res by simp
  next
    case (Some n)
    obtain tn where tn: "sc_threads s1 ! n = Some tn" "th_state tn \<noteq> Dead" "n < MAX_THREADS"
      and st3: "start_thread n (s1\<lparr>sc_queues := qs\<rparr>) = s1\<lparr>sc_queues := qs,
         sc_threads := (sc_threads s1)[n := Some (reset_time_slice (tn\<lparr>th_state := Running\<rparr>))]\<rparr>"
      and wf3: "sched_wf ((start_thread n (s1\<lparr>sc_queues := qs\<rparr>))\<lparr>sc_current := Some n\<rparr>)"
      by (rule chosen_wf [OF qwf q2 ready norun Some])
    let ?tn = "reset_time_slice (tn\<lparr>th_state := Running\<rparr>)"
    define s3 where "s3 = (start_thread n (s1\<lparr>sc_queues := qs\<rparr>))\<lparr>sc_current := Some n\<rparr>"
    have n3: "sc_threads s3 ! n = Some ?tn" using st3 tn(3) qwf by (simp add: s3_def queues_wf_def)
    obtain p where p3: "sc_threads s3 ! prev = Some p" "prev = n \<longrightarrow> p = ?tn"
      using st3 n3 prev1 by (cases "prev = n") (auto simp: s3_def)
    have res: "r = (if prev = n \<and> st \<noteq> Dead then SReturn else SSwitch (Some prev) n)"
      "s' = set_ttbr0 l0_of (th_process_id ?tn) s3"
    proof -
      have "schedule l0_of s = (case (sc_threads s3 ! prev, sc_threads s3 ! n) of
            (Some p, Some q) \<Rightarrow>
              (if prev = n \<and> st \<noteq> Dead then (SReturn, set_ttbr0 l0_of (th_process_id p) s3)
               else (SSwitch (Some prev) n, set_ttbr0 l0_of (th_process_id q) s3))
          | _ \<Rightarrow> (SPanic, s3))"
        unfolding s3_def using run out pop Some by (simp add: schedule_def Let_def split: option.splits)
      then have "(r, s') = (if prev = n \<and> st \<noteq> Dead then (SReturn, set_ttbr0 l0_of (th_process_id p) s3)
               else (SSwitch (Some prev) n, set_ttbr0 l0_of (th_process_id ?tn) s3))"
        using eq n3 p3(1) by simp
      then show "r = (if prev = n \<and> st \<noteq> Dead then SReturn else SSwitch (Some prev) n)"
        "s' = set_ttbr0 l0_of (th_process_id ?tn) s3"
        using p3(2) by (auto split: if_splits)
    qed
    have "sched_wf s'" using wf3 sched_wf_cong [of s' s3] res by (simp add: s3_def)
    moreover have "sc_current s' = Some n" "sc_threads s' ! n = Some ?tn" using res n3 by (simp_all add: s3_def)
    moreover have "l0_of (th_process_id ?tn) \<noteq> None \<longrightarrow> sc_ttbr0 s' = l0_of (th_process_id ?tn)"
      using res by (auto simp: set_ttbr0_def)
    moreover have "th_state ?tn = Running" "th_remaining_ticks ?tn = th_time_slice ?tn"
      by (simp_all add: reset_time_slice_def)
    ultimately show ?thesis using res(1) out Some by (auto split: if_splits)
  qed
qed

lemma sched_new_wf: "sched_wf sched_new"
  by (rule sched_wfI)
    (auto simp: sched_new_def queues_wf_def queued_def MAX_THREADS_def PRIORITY_LEVELS_def
      eval_nat_numeral tq_new_wf less_Suc_eq)

definition threads_made :: "sched \<Rightarrow> nat" where
  "threads_made s = length (live_slots (sc_threads s))"

lemma threads_made_update:
  "i < length (sc_threads s) \<Longrightarrow> sc_threads s ! i \<noteq> None \<Longrightarrow>
     length (live_slots ((sc_threads s)[i := Some t])) = threads_made s"
proof -
  assume i: "i < length (sc_threads s)" "sc_threads s ! i \<noteq> None"
  then obtain u where u: "sc_threads s ! i = Some u" by blast
  have "(sc_threads s)[i := Some t] = (sc_threads s)[i := None, i := Some t]" by simp
  then show ?thesis
    using mset_live_slots_put [of i "(sc_threads s)[i := None]" t] length_live_slots_take [OF i(1) u] i
    by (simp add: threads_made_def)
qed

lemma sched_add_spec:
  assumes wf: "sched_wf s" and eq: "sched_add t s = (r, s')"
  shows "if threads_made s < MAX_THREADS
         then r = Ok () \<and> sched_wf s' \<and> threads_made s' = Suc (threads_made s)
              \<and> sc_current s' = sc_current s \<and> sc_running s' = sc_running s
              \<and> (\<forall>i u. sc_threads s ! i = Some u \<longrightarrow> sc_threads s' ! i = Some u)
         else r = Panic"
proof -
  have len: "length (sc_threads s) = MAX_THREADS" and qwf: "queues_wf s"
    using wf by (auto intro: sched_wf_length sched_wf_queues)
  show ?thesis
  proof (cases "first_free (sc_threads s)")
    case None
    then have "r = Panic" using eq by (simp add: sched_add_def find_empty_slot_def)
    moreover have "threads_made s = MAX_THREADS"
      using None len by (simp add: first_free_None_full threads_made_def)
    ultimately show ?thesis by simp
  next
    case (Some i)
    note i = first_freeD [OF Some]
    let ?t = "t\<lparr>th_state := Ready\<rparr>" and ?s1 = "set_thread i (t\<lparr>th_state := Ready\<rparr>) s"
    have "length (live_slots (sc_threads s)) \<noteq> length (sc_threads s)"
      using Some by (metis first_free_None_full option.distinct(1))
    then have room: "threads_made s < MAX_THREADS"
      using length_live_slots_le [of "sc_threads s"] len by (simp add: threads_made_def)
    have notq: "i \<notin> set (queued s)" using sched_wf_queued [OF wf, of i] i by auto
    obtain ok s2 where p: "push_level (priority_index (th_priority t)) i ?s1 = (ok, s2)" by (metis prod.exhaust)
    have ps: "ok" "\<exists>qs. s2 = ?s1\<lparr>sc_queues := qs\<rparr>" "queues_wf s2" "set (queued s2) = insert i (set (queued s))"
      using push_level_spec [OF _ priority_index_less _ _ p] qwf notq i len by auto
    have res: "r = Ok ()" "s' = s2"
      using eq Some p ps(1) by (auto simp: sched_add_def find_empty_slot_def)
    have th: "sc_threads s2 = (sc_threads s)[i := Some ?t]" "sc_current s2 = sc_current s" "sc_running s2 = sc_running s"
      using ps(2) by auto
    have keep: "sc_threads s2 ! j = sc_threads s ! j" if "j \<noteq> i" for j using th that by simp
    have new: "sc_threads s2 ! i = Some ?t" using th i by simp
    have "sched_wf s2"
    proof (rule sched_wfI [OF ps(3)])
      fix j assume "j \<in> set (queued s2)"
      then show "\<exists>t. sc_threads s2 ! j = Some t \<and> (th_state t = Ready \<or> th_state t = Dead)"
        using new keep [of j] sched_wf_queued [OF wf, of j] ps(4) by (cases "j = i") auto
    next
      fix c assume c: "sc_current s2 = Some c"
      then have "c < MAX_THREADS \<and> sc_threads s ! c \<noteq> None \<and> c \<notin> set (queued s)"
        using sched_wf_current [OF wf] th by simp
      moreover from this have "c \<noteq> i" using i by auto
      ultimately show "c < MAX_THREADS \<and> sc_threads s2 ! c \<noteq> None \<and> c \<notin> set (queued s2)"
        using keep [of c] ps(4) by simp
    next
      fix j u assume j: "j < MAX_THREADS" "sc_threads s2 ! j = Some u" "th_state u = Running"
      then have "j \<noteq> i" using new by auto
      then show "sc_current s2 = Some j" using sched_wf_running [OF wf j(1)] j keep th by auto
    qed
    moreover have "threads_made s2 = Suc (threads_made s)"
      using mset_live_slots_put [OF i [THEN conjunct1] i [THEN conjunct2]] th by (simp add: threads_made_def)
    moreover have "\<forall>j u. sc_threads s ! j = Some u \<longrightarrow> sc_threads s2 ! j = Some u"
      using keep i by (metis option.distinct(1))
    ultimately show ?thesis using room res th by simp
  qed
qed

lemma set_state_eq:
  "sc_threads s ! i = Some t \<Longrightarrow> set_state i st s = set_thread i (t\<lparr>th_state := st\<rparr>) s"
  by (simp add: set_state_def)

lemma set_state_wf:
  assumes wf: "sched_wf s" and i: "i < MAX_THREADS"
    and st: "st = Dead \<or> st = Ready \<or> st \<noteq> Running \<and> sc_current s = Some i"
  shows "sched_wf (set_state i st s)" "threads_made (set_state i st s) = threads_made s"
proof -
  have len: "i < length (sc_threads s)" using sched_wf_length [OF wf] i by simp
  have "sched_wf (set_state i st s) \<and> threads_made (set_state i st s) = threads_made s"
  proof (cases "sc_threads s ! i")
    case None
    then show ?thesis using wf by (simp add: set_state_def)
  next
    case (Some t)
    let ?s = "set_thread i (t\<lparr>th_state := st\<rparr>) s"
    have new: "sc_threads ?s ! i = Some (t\<lparr>th_state := st\<rparr>)" using len by simp
    have keep: "sc_threads ?s ! j = sc_threads s ! j" if "j \<noteq> i" for j using that by simp
    have notr: "st \<noteq> Running" using st by auto
    have "sched_wf ?s"
    proof (rule sched_wfI)
      show "queues_wf ?s" using sched_wf_queues [OF wf] by simp
    next
      fix j assume "j \<in> set (queued ?s)"
      then have j: "j \<in> set (queued s)" by simp
      then have "j = i \<longrightarrow> sc_current s \<noteq> Some i" using sched_wf_current [OF wf] by auto
      then have "j = i \<longrightarrow> st = Dead \<or> st = Ready" using st by auto
      then show "\<exists>t. sc_threads ?s ! j = Some t \<and> (th_state t = Ready \<or> th_state t = Dead)"
        using new keep [of j] sched_wf_queued [OF wf j] by (cases "j = i") auto
    next
      fix c assume "sc_current ?s = Some c"
      then show "c < MAX_THREADS \<and> sc_threads ?s ! c \<noteq> None \<and> c \<notin> set (queued ?s)"
        using sched_wf_current [OF wf, of c] new keep [of c] by (cases "c = i") auto
    next
      fix j u assume j: "j < MAX_THREADS" "sc_threads ?s ! j = Some u" "th_state u = Running"
      then have "j \<noteq> i" using new notr by auto
      then show "sc_current ?s = Some j" using sched_wf_running [OF wf j(1)] j keep by auto
    qed
    moreover have "threads_made ?s = threads_made s"
      using threads_made_update [OF len] Some by (simp add: threads_made_def)
    ultimately show ?thesis using set_state_eq [OF Some] by simp
  qed
  then show "sched_wf (set_state i st s)" "threads_made (set_state i st s) = threads_made s" by auto
qed

lemma wake_thread_wf:
  assumes wf: "sched_wf s" and cur: "\<And>c t. sc_current s = Some c \<Longrightarrow> sc_threads s ! c = Some t \<Longrightarrow> th_state t = Running"
  shows "sched_wf (wake_thread tid s) \<and> threads_made (wake_thread tid s) = threads_made s
    \<and> sc_current (wake_thread tid s) = sc_current s \<and> sc_running (wake_thread tid s) = sc_running s
    \<and> (\<forall>c t. sc_current s = Some c \<and> sc_threads (wake_thread tid s) ! c = Some t \<longrightarrow> th_state t = Running)"
proof (cases "find_slot (wakeable tid) (sc_threads s)")
  case None
  then show ?thesis using wf cur by (auto simp: wake_thread_def)
next
  case (Some i)
  from find_slotD [OF Some] obtain t where i: "i < length (sc_threads s)" "sc_threads s ! i = Some t" "wakeable tid t"
    by auto
  have st: "th_state t = Blocked \<or> th_state t = Sleeping" using i(3) by (simp add: wakeable_def)
  have lt: "i < MAX_THREADS" using i(1) sched_wf_length [OF wf] by simp
  have notq: "i \<notin> set (queued s)" using sched_wf_queued [OF wf, of i] i(2) st by auto
  have notc: "sc_current s \<noteq> Some i" using cur i(2) st by auto
  let ?t = "t\<lparr>th_state := Ready\<rparr>" and ?s1 = "set_thread i (t\<lparr>th_state := Ready\<rparr>) s"
  have s': "wake_thread tid s = requeue_current i ?s1" using Some i(2) by (simp add: wake_thread_def)
  have th1: "sc_threads ?s1 ! i = Some ?t" using i(1) by simp
  have rq: "(\<exists>qs. requeue_current i ?s1 = ?s1\<lparr>sc_queues := qs\<rparr>) \<and> queues_wf (requeue_current i ?s1)
      \<and> set (queued (requeue_current i ?s1)) = insert i (set (queued s))"
    using requeue_spec [OF _ lt _ th1] sched_wf_queues [OF wf] notq by simp
  define s2 where "s2 = requeue_current i ?s1"
  have fr: "sc_threads s2 = (sc_threads s)[i := Some ?t]" "sc_current s2 = sc_current s" "sc_running s2 = sc_running s"
    and q2: "queues_wf s2" "set (queued s2) = insert i (set (queued s))"
    using rq by (auto simp: s2_def)
  have keep: "sc_threads s2 ! j = sc_threads s ! j" if "j \<noteq> i" for j using fr that by simp
  have new: "sc_threads s2 ! i = Some ?t" using fr i by simp
  have "sched_wf s2"
  proof (rule sched_wfI [OF q2(1)])
    fix j assume "j \<in> set (queued s2)"
    then show "\<exists>t. sc_threads s2 ! j = Some t \<and> (th_state t = Ready \<or> th_state t = Dead)"
      using new keep [of j] sched_wf_queued [OF wf, of j] q2(2) by (cases "j = i") auto
  next
    fix c assume c: "sc_current s2 = Some c"
    then have "c \<noteq> i" using notc fr by auto
    then show "c < MAX_THREADS \<and> sc_threads s2 ! c \<noteq> None \<and> c \<notin> set (queued s2)"
      using sched_wf_current [OF wf, of c] c fr keep [of c] q2(2) by auto
  next
    fix j u assume j: "j < MAX_THREADS" "sc_threads s2 ! j = Some u" "th_state u = Running"
    then have "j \<noteq> i" using new by auto
    then show "sc_current s2 = Some j" using sched_wf_running [OF wf j(1)] j keep fr by auto
  qed
  moreover have "threads_made s2 = threads_made s"
    using threads_made_update [OF i(1)] i(2) fr by (simp add: threads_made_def)
  moreover have "\<forall>c t. sc_current s = Some c \<and> sc_threads s2 ! c = Some t \<longrightarrow> th_state t = Running"
  proof (intro allI impI)
    fix c u assume c: "sc_current s = Some c \<and> sc_threads s2 ! c = Some u"
    then have "c \<noteq> i" using notc by auto
    then show "th_state u = Running" using c cur keep by auto
  qed
  ultimately show ?thesis using s' fr by (simp add: s2_def)
qed

lemma sched_run_wf:
  assumes wf: "sched_wf s" and idle: "sc_current s = None" and eq: "sched_run s = (SSwitch p i, s')"
  shows "sched_wf s' \<and> sc_running s' \<and> threads_made s' = threads_made s
    \<and> (\<exists>t. sc_current s' = Some i \<and> sc_threads s' ! i = Some t \<and> th_state t = Running)"
proof -
  let ?s1 = "s\<lparr>sc_running := True\<rparr>"
  have wf1: "queues_wf ?s1" using sched_wf_queues [OF wf] by (simp add: queues_wf_def queued_def)
  have q1: "queued ?s1 = queued s" by (simp add: queued_def)
  have ready: "\<forall>i\<in>set (queued ?s1). \<exists>t. sc_threads ?s1 ! i = Some t \<and> (th_state t = Ready \<or> th_state t = Dead)"
    using sched_wf_queued [OF wf] q1 by simp
  have norun: "\<forall>i<MAX_THREADS. \<forall>t. sc_threads ?s1 ! i = Some t \<longrightarrow> th_state t \<noteq> Running"
    using sched_wf_running [OF wf] idle by auto
  obtain qs where pop: "pop_next_from_all_queues ?s1 = (Ok (pick_next ?s1), ?s1\<lparr>sc_queues := qs\<rparr>)"
    and q2: "queues_wf (?s1\<lparr>sc_queues := qs\<rparr>)" "queued (?s1\<lparr>sc_queues := qs\<rparr>) = after_pick ?s1"
    by (rule pop_next_spec [OF wf1])
  have pick: "pick_next ?s1 = Some i" and s': "s' = start_thread i (?s1\<lparr>sc_queues := qs, sc_current := Some i\<rparr>)"
    using eq pop by (auto simp: sched_run_def split: option.splits)
  obtain tn where tn: "sc_threads ?s1 ! i = Some tn" "th_state tn \<noteq> Dead" "i < MAX_THREADS"
    and st: "start_thread i (?s1\<lparr>sc_queues := qs\<rparr>) = ?s1\<lparr>sc_queues := qs,
       sc_threads := (sc_threads ?s1)[i := Some (reset_time_slice (tn\<lparr>th_state := Running\<rparr>))]\<rparr>"
    and wf3: "sched_wf ((start_thread i (?s1\<lparr>sc_queues := qs\<rparr>))\<lparr>sc_current := Some i\<rparr>)"
    by (rule chosen_wf [OF wf1 q2 ready norun pick])
  have eq3: "s' = (start_thread i (?s1\<lparr>sc_queues := qs\<rparr>))\<lparr>sc_current := Some i\<rparr>"
    using s' tn(1) by (simp add: start_thread_def set_thread_def)
  have len: "i < length (sc_threads s)" using tn(3) sched_wf_length [OF wf] by simp
  show ?thesis
    using wf3 eq3 st len tn(1) threads_made_update [OF len, of "reset_time_slice (tn\<lparr>th_state := Running\<rparr>)"]
    by (simp add: threads_made_def reset_time_slice_def)
qed

section \<open>Reachable scheduler states\<close>

text \<open>
  The scheduler as a state machine. The steps are the calls the rest of the kernel makes: a new
  thread, the first switch, a timer preemption, the current thread blocking or exiting (it marks
  itself and calls \<open>schedule\<close>), a fault or a signal killing another thread, a wake-up, and the
  port code's direct write of \<open>Ready\<close>. The index counts the threads ever created.
\<close>

inductive sched_reach :: "(u64 \<Rightarrow> (u64 \<times> u16) option) \<Rightarrow> nat \<Rightarrow> sched \<Rightarrow> bool" for l0_of where
  boot: "sched_reach l0_of 0 sched_new"
| add: "sched_reach l0_of n s \<Longrightarrow> sched_add t s = (Ok (), s') \<Longrightarrow> sched_reach l0_of (Suc n) s'"
| run: "sched_reach l0_of n s \<Longrightarrow> \<not> sc_running s \<Longrightarrow> sched_run s = (SSwitch p i, s') \<Longrightarrow> sched_reach l0_of n s'"
| preempt: "sched_reach l0_of n s \<Longrightarrow> schedule l0_of s = (r, s') \<Longrightarrow> r \<noteq> SHalt \<Longrightarrow> sched_reach l0_of n s'"
| leave: "sched_reach l0_of n s \<Longrightarrow> sc_current s = Some c \<Longrightarrow> st \<noteq> Running \<Longrightarrow>
    schedule l0_of (set_state c st s) = (r, s') \<Longrightarrow> r \<noteq> SHalt \<Longrightarrow> sched_reach l0_of n s'"
| kill: "sched_reach l0_of n s \<Longrightarrow> i < MAX_THREADS \<Longrightarrow> sc_current s \<noteq> Some i \<Longrightarrow> sched_reach l0_of n (set_state i Dead s)"
| make_ready: "sched_reach l0_of n s \<Longrightarrow> i < MAX_THREADS \<Longrightarrow> sc_current s \<noteq> Some i \<Longrightarrow> sched_reach l0_of n (set_state i Ready s)"
| wake: "sched_reach l0_of n s \<Longrightarrow> sched_reach l0_of n (wake_thread tid s)"

definition sched_inv :: "nat \<Rightarrow> sched \<Rightarrow> bool" where
  "sched_inv n s \<longleftrightarrow> sched_wf s \<and> threads_made s = n \<and> (sc_running s \<or> sc_current s = None)
     \<and> (\<forall>c t. sc_current s = Some c \<and> sc_threads s ! c = Some t \<longrightarrow> th_state t = Running)"

lemma set_state_frame [simp]:
  "sc_current (set_state i st s) = sc_current s" "sc_running (set_state i st s) = sc_running s"
  by (simp_all add: set_state_def split: option.splits)

lemma schedule_threads_made:
  assumes wf: "sched_wf s" and run: "sc_running s" "sc_current s = Some prev"
    and eq: "schedule l0_of s = (r, s')" and ok: "r \<noteq> SHalt"
  shows "threads_made s' = threads_made s \<and> sc_running s'"
proof -
  obtain t where t: "sc_threads s ! prev = Some t" using sched_wf_current [OF wf run(2)] by auto
  obtain st s1 where out: "schedule_out prev s = (st, s1)" by (metis prod.exhaust)
  note so = schedule_out_spec [OF wf run(2) t out]
  have len: "prev < length (sc_threads s)" using sched_wf_current [OF wf run(2)] sched_wf_length [OF wf] by simp
  have made1: "threads_made s1 = threads_made s" using so threads_made_update [OF len] t by (simp add: threads_made_def)
  obtain qs where pop: "pop_next_from_all_queues s1 = (Ok (pick_next s1), s1\<lparr>sc_queues := qs\<rparr>)"
    using so by (elim conjE) (rule pop_next_spec)
  note sc = schedule_spec [OF wf run eq]
  show ?thesis
  proof (cases "pick_next s1")
    case None
    then show ?thesis using sc eq run out pop ok by (auto simp: schedule_def split: if_splits)
  next
    case (Some n)
    have n: "n < length (sc_threads s1)" "sc_threads s1 ! n \<noteq> None"
      using pick_next_alive [of s1 n] so Some len by (auto simp: queues_wf_def alive_at_def alive_def split: option.splits)
    then obtain tn where tn: "sc_threads s1 ! n = Some tn" by blast
    let ?s3 = "(start_thread n (s1\<lparr>sc_queues := qs\<rparr>))\<lparr>sc_current := Some n\<rparr>"
    have "sc_threads s' = sc_threads ?s3 \<and> sc_running s' = sc_running ?s3"
      using eq run out pop Some by (auto simp: schedule_def Let_def split: option.splits if_splits)
    then show ?thesis
      using tn start_thread_eq [of "s1\<lparr>sc_queues := qs\<rparr>" n tn] threads_made_update [OF n] made1 so run
      by (simp add: threads_made_def)
  qed
qed

lemma schedule_inv:
  assumes wf: "sched_wf s" and made: "threads_made s = n" and run: "sc_running s" "sc_current s = Some prev"
    and eq: "schedule l0_of s = (r, s')" and ok: "r \<noteq> SHalt"
  shows "sched_inv n s'"
  using schedule_spec [OF wf run eq] schedule_threads_made [OF wf run eq ok] made ok
  by (cases r) (auto simp: sched_inv_def)

lemma sched_reach_inv: "sched_reach l0_of n s \<Longrightarrow> sched_inv n s"
proof (induction rule: sched_reach.induct)
  case boot
  show ?case using sched_new_wf by (simp add: sched_inv_def sched_new_def threads_made_def)
next
  case (add n s t s')
  then have wf: "sched_wf s" "threads_made s = n" by (auto simp: sched_inv_def)
  have cur: "th_state u = Running" if "sc_current s = Some c" "sc_threads s ! c = Some u" for c u
    using add.IH that by (simp add: sched_inv_def)
  have sp: "sched_wf s'" "threads_made s' = Suc n" "sc_current s' = sc_current s" "sc_running s' = sc_running s"
    and keep: "\<And>i u. sc_threads s ! i = Some u \<Longrightarrow> sc_threads s' ! i = Some u"
    using sched_add_spec [OF wf(1) add(2)] wf(2) by (auto split: if_splits)
  have "th_state u = Running" if c: "sc_current s' = Some c" "sc_threads s' ! c = Some u" for c u
  proof -
    obtain v where "sc_threads s ! c = Some v" using sched_wf_current [OF wf(1), of c] c(1) sp(3) by auto
    then show ?thesis using keep cur c sp(3) by force
  qed
  moreover have "sc_running s \<or> sc_current s = None" using add.IH by (simp add: sched_inv_def)
  ultimately show ?case using sp by (simp add: sched_inv_def)
next
  case (run n s p i s')
  then have "sched_wf s" "sc_current s = None" "threads_made s = n" by (auto simp: sched_inv_def)
  with sched_run_wf [OF this(1,2) run(3)] show ?case by (auto simp: sched_inv_def)
next
  case (preempt n s r s')
  show ?case
  proof (cases "sc_running s \<and> (\<exists>c. sc_current s = Some c)")
    case True
    then show ?thesis using schedule_inv [OF _ _ _ _ preempt(2,3)] preempt.IH by (auto simp: sched_inv_def)
  next
    case False
    then have "s' = s" using preempt(2)
      by (cases "sc_running s"; cases "sc_current s") (simp_all add: schedule_def)
    then show ?thesis using preempt.IH by simp
  qed
next
  case (leave n s c st r s')
  have wf: "sched_wf s" "threads_made s = n" "sc_running s" using leave by (auto simp: sched_inv_def)
  have c: "c < MAX_THREADS" using sched_wf_current [OF wf(1) leave(2)] by simp
  note ss = set_state_wf [OF wf(1) c, of st]
  show ?case
    using schedule_inv [OF _ _ _ _ leave(4,5)] ss wf leave(2,3) by auto
next
  case (kill n s i)
  then show ?case using set_state_wf [of s i Dead]
    by (auto simp: sched_inv_def set_state_def split: option.splits)
next
  case (make_ready n s i)
  then show ?case using set_state_wf [of s i Ready]
    by (auto simp: sched_inv_def set_state_def split: option.splits)
next
  case (wake n s tid)
  then have "sched_wf s" "\<And>c t. sc_current s = Some c \<Longrightarrow> sc_threads s ! c = Some t \<Longrightarrow> th_state t = Running"
    by (auto simp: sched_inv_def)
  from wake_thread_wf [OF this, where tid = tid] wake.IH show ?case by (auto simp: sched_inv_def)
qed

lemma sched_run_ok:
  assumes wf: "sched_wf s" and a: "i < MAX_THREADS" "alive_at s i"
  shows "\<exists>j s'. sched_run s = (SSwitch None j, s')"
proof -
  let ?s1 = "s\<lparr>sc_running := True\<rparr>"
  have wf1: "queues_wf ?s1" using sched_wf_queues [OF wf] by (simp add: queues_wf_def queued_def)
  obtain qs where pop: "pop_next_from_all_queues ?s1 = (Ok (pick_next ?s1), ?s1\<lparr>sc_queues := qs\<rparr>)"
    by (rule pop_next_spec [OF wf1])
  have "find_index alive (sc_threads s) \<noteq> None"
    using a sched_wf_length [OF wf]
    by (auto simp: find_index_None alive_at_def intro!: bexI [of _ "sc_threads s ! i"])
  then have "pick_next ?s1 \<noteq> None" by (auto simp: pick_next_def split: list.splits)
  then show ?thesis using pop by (auto simp: sched_run_def)
qed

lemma reach_adds: "k \<le> MAX_THREADS \<Longrightarrow> \<exists>s. sched_reach l0_of k s \<and> \<not> sc_running s"
proof (induction k)
  case 0
  show ?case by (intro exI conjI, rule sched_reach.boot) (simp add: sched_new_def)
next
  case (Suc k)
  then obtain s where s: "sched_reach l0_of k s" "\<not> sc_running s" by auto
  let ?t = "make_thread ''t'' NormalPrio 0 0 context_default k"
  have inv: "sched_wf s" "threads_made s = k" using sched_reach_inv [OF s(1)] by (auto simp: sched_inv_def)
  obtain r s' where a: "sched_add ?t s = (r, s')" by (metis prod.exhaust)
  then show ?case using sched_add_spec [OF inv(1) a] inv(2) Suc.prems s
    by (auto intro: sched_reach.add)
qed

text \<open>
  C1. Scheduling is safe in every reachable state. Whatever sequence of thread creation,
  preemption, blocking, exit, kill and wake-up led here: no index is queued twice, a queued
  thread is never running or blocked, at most one thread is running and it is the current
  one, and calling \<open>schedule\<close> again neither fails an \<open>unwrap\<close> nor loses the CPU with a live
  thread left; it resumes a live thread or, when every thread is dead, halts.
\<close>

theorem scheduler_safe:
  assumes "sched_reach l0_of n s" "schedule l0_of s = (r, s')"
  shows "distinct (queued s)
    \<and> (\<forall>i\<in>set (queued s). \<exists>t. sc_threads s ! i = Some t \<and> (th_state t = Ready \<or> th_state t = Dead))
    \<and> (\<forall>i t. i < MAX_THREADS \<and> sc_threads s ! i = Some t \<and> th_state t = Running \<longrightarrow> sc_current s = Some i)
    \<and> r \<noteq> SPanic \<and> r \<noteq> SIdle
    \<and> (sc_current s' = None \<or> (\<exists>c. sc_current s' = Some c \<and> (alive_at s' c \<or> r = SHalt)))"
proof -
  have inv: "sched_inv n s" by (rule sched_reach_inv [OF assms(1)])
  then have wf: "sched_wf s" by (simp add: sched_inv_def)
  have st: "distinct (queued s)" using sched_wf_queues [OF wf] by (simp add: queues_wf_def)
  have "r \<noteq> SPanic \<and> r \<noteq> SIdle \<and> (sc_current s' = None \<or> (\<exists>c. sc_current s' = Some c \<and> (alive_at s' c \<or> r = SHalt)))"
  proof (cases "sc_running s \<and> sc_current s \<noteq> None")
    case True
    then obtain c where c: "sc_running s" "sc_current s = Some c" by auto
    from schedule_spec [OF wf c assms(2)] show ?thesis
      by (cases r) (auto simp: alive_at_def alive_def)
  next
    case False
    then have "r = SReturn" "s' = s" using assms(2)
      by (cases "sc_running s"; cases "sc_current s"; simp add: schedule_def)+
    moreover have "alive_at s c" if c: "sc_current s = Some c" for c
    proof -
      obtain t where "sc_threads s ! c = Some t" using sched_wf_current [OF wf c] by auto
      then show ?thesis using inv c by (auto simp: sched_inv_def alive_at_def alive_def)
    qed
    ultimately show ?thesis by (cases "sc_current s") auto
  qed
  with st sched_wf_queued [OF wf] sched_wf_running [OF wf] show ?thesis by blast
qed

lemma reach_one_running:
  "\<exists>s c t. sched_reach l0_of 1 s \<and> sc_running s \<and> sc_current s = Some c \<and> sc_threads s ! c = Some t \<and> th_state t = Running"
proof -
  let ?t = "make_thread ''t'' NormalPrio 0 0 context_default 0"
  obtain r s where a: "sched_add ?t sched_new = (r, s)" by (metis prod.exhaust)
  have "threads_made sched_new < MAX_THREADS" by (simp add: threads_made_def sched_new_def MAX_THREADS_def)
  with sched_add_spec [OF sched_new_wf a]
  have s: "r = Ok ()" "sched_wf s" "threads_made s = 1" "sc_current s = None" "\<not> sc_running s"
    by (auto simp: threads_made_def sched_new_def)
  have r1: "sched_reach l0_of 1 s"
    using sched_reach.add [OF sched_reach.boot, of ?t s l0_of] a s by simp
  have ff: "first_free (sc_threads sched_new) = Some 0"
    unfolding first_free_def by (rule find_index_SomeI) (simp_all add: sched_new_def MAX_THREADS_def)
  have "sc_threads s = (sc_threads sched_new)[0 := Some (?t\<lparr>th_state := Ready\<rparr>)]"
    using a s(1) ff by (auto simp: sched_add_def find_empty_slot_def push_level_def set_thread_def split: prod.splits if_splits)
  then have "alive_at s 0" by (simp add: alive_at_def alive_def sched_new_def MAX_THREADS_def)
  with sched_run_ok [OF s(2), of 0] obtain j s' where run: "sched_run s = (SSwitch None j, s')"
    by (auto simp: MAX_THREADS_def)
  from sched_run_wf [OF s(2,4) run] sched_reach.run [OF r1 s(5) run] show ?thesis by blast
qed

theorem scheduler_safe_witness:
  "\<exists>s c r s'. sched_reach (\<lambda>_. None) 1 s \<and> sc_current s = Some c \<and> schedule (\<lambda>_. None) s = (r, s') \<and> r \<noteq> SPanic \<and> r \<noteq> SIdle"
proof -
  obtain s c where s: "sched_reach (\<lambda>_. None) 1 s" "sc_current s = Some c" using reach_one_running by blast
  obtain r s' where r: "schedule (\<lambda>_. None) s = (r, s')" by (metis prod.exhaust)
  from scheduler_safe [OF s(1) r] s r show ?thesis by blast
qed

text \<open>
  Thread slots are never reclaimed: the table counts every thread ever created, dead ones
  included, so exactly sixteen creations succeed over the lifetime of the kernel and the
  seventeenth call of \<open>add\<close> panics, whatever has exited in between.
\<close>

theorem seventeenth_thread_panics:
  assumes "sched_reach l0_of n s"
  shows "n \<le> MAX_THREADS \<and> (fst (sched_add t s) = Ok () \<longleftrightarrow> n < MAX_THREADS)
    \<and> (fst (sched_add t s) = Panic \<longleftrightarrow> n = MAX_THREADS)"
proof -
  have inv: "sched_wf s" "threads_made s = n" using sched_reach_inv [OF assms] by (auto simp: sched_inv_def)
  obtain r s' where a: "sched_add t s = (r, s')" by (metis prod.exhaust)
  have "threads_made s \<le> MAX_THREADS"
    using length_live_slots_le [of "sc_threads s"] sched_wf_length [OF inv(1)] by (simp add: threads_made_def)
  then show ?thesis using sched_add_spec [OF inv(1) a] a inv(2) by (auto split: if_splits)
qed

theorem seventeenth_thread_panics_witness:
  "\<exists>s. sched_reach (\<lambda>_. None) 16 s \<and> fst (sched_add (make_thread ''x'' NormalPrio 0 0 context_default 99) s) = Panic"
proof -
  obtain s where s: "sched_reach (\<lambda>_. None) 16 s" using reach_adds [of 16] by (auto simp: MAX_THREADS_def)
  from seventeenth_thread_panics [OF s] s show ?thesis by (auto simp: MAX_THREADS_def)
qed

text \<open>
  A blocked thread can be resumed without a wake-up. When the ready queues are empty,
  the fallback of \<open>pop_next_from_all_queues\<close> takes the first thread that is not dead, in
  whatever state it is: if every live thread is blocked, \<open>schedule\<close> still marks one of them
  running and resumes it, and the blocking call it sits in returns as if it had been woken.
\<close>

theorem blocked_thread_resumed:
  assumes wf: "sched_wf s" and run: "sc_running s" "sc_current s = Some prev"
    and empty: "queued s = []"
    and blocked: "\<forall>i t. i < MAX_THREADS \<and> sc_threads s ! i = Some t \<longrightarrow> th_state t = Blocked \<or> th_state t = Dead"
    and prev: "alive_at s prev"
    and eq: "schedule l0_of s = (r, s')"
  shows "\<exists>n t t'. sc_threads s ! n = Some t \<and> th_state t = Blocked
    \<and> sc_current s' = Some n \<and> sc_threads s' ! n = Some t' \<and> th_state t' = Running"
proof -
  obtain t where t: "sc_threads s ! prev = Some t" using sched_wf_current [OF wf run(2)] by auto
  have pl: "prev < MAX_THREADS" "prev < length (sc_threads s)"
    using sched_wf_current [OF wf run(2)] sched_wf_length [OF wf] by auto
  have tb: "th_state t = Blocked" using blocked t prev pl by (auto simp: alive_at_def alive_def)
  obtain st s1 where out: "schedule_out prev s = (st, s1)" by (metis prod.exhaust)
  note so = schedule_out_spec [OF wf run(2) t out]
  have st: "st = Blocked" using so tb by (simp add: tick_thread_state)
  then have "set (queued s1) = {}" using so empty by simp
  then have q1: "queued s1 = []" by simp
  have pick: "pick_next s1 = find_index alive (sc_threads s1)" using q1 by (simp add: pick_next_def)
  have alive1: "alive_at s1 prev" using so pl st by (simp add: alive_at_def alive_def)
  moreover have "sc_threads s1 ! prev \<in> set (sc_threads s1)" using so pl by (intro nth_mem) simp
  ultimately have some: "pick_next s1 \<noteq> None"
    using pick by (auto simp: find_index_None alive_at_def)
  then obtain n where n: "pick_next s1 = Some n" by blast
  have na: "n < MAX_THREADS" "alive_at s1 n" using pick_next_alive [of s1 n] so n by auto
  have "\<exists>u. sc_threads s ! n = Some u \<and> th_state u = Blocked"
  proof (cases "n = prev")
    case True
    then show ?thesis using t tb by simp
  next
    case False
    then have "sc_threads s1 ! n = sc_threads s ! n" using so by simp
    then show ?thesis using na blocked by (auto simp: alive_at_def alive_def split: option.splits)
  qed
  moreover have "\<not> (\<forall>i<MAX_THREADS. \<not> alive_at s' i) \<or> r \<noteq> SHalt"
  proof (rule ccontr)
    assume "\<not> ?thesis"
    then have "r = SHalt" by blast
    obtain qs where "pop_next_from_all_queues s1 = (Ok (pick_next s1), s1\<lparr>sc_queues := qs\<rparr>)"
      using so by (elim conjE) (rule pop_next_spec)
    with \<open>r = SHalt\<close> eq run out n show False
      by (auto simp: schedule_def Let_def split: option.splits if_splits)
  qed
  ultimately show ?thesis
    using schedule_spec [OF wf run eq] out n by (cases r) auto
qed


text \<open>
  C18. What \<open>schedule\<close> does. From a well-formed state with a current thread it first accounts
  for that thread (running becomes ready and is queued behind its level, one tick is spent, a
  spent slice lowers the priority), then chooses the first live entry of the ready queues in
  priority order, or the first live thread when no queue has one. The chosen thread is running
  with a full time slice, it is current, the page-table base is that of its process when the
  process has one, and the state is well formed again. The result is \<open>SReturn\<close> only when the
  same thread continues.
\<close>

theorem schedule_correct:
  assumes wf: "sched_wf s" and run: "sc_running s" "sc_current s = Some prev"
    and eq: "schedule l0_of s = (r, s')"
  shows "sched_wf s' \<and>
    (case r of
       SHalt \<Rightarrow> \<forall>i<MAX_THREADS. \<not> alive_at s' i
     | SIdle \<Rightarrow> False
     | SPanic \<Rightarrow> False
     | _ \<Rightarrow> (\<exists>n tn. sc_current s' = Some n \<and> pick_next (snd (schedule_out prev s)) = Some n
              \<and> sc_threads s' ! n = Some tn \<and> th_state tn = Running
              \<and> th_remaining_ticks tn = th_time_slice tn
              \<and> (r = SReturn \<and> n = prev \<or> r = SSwitch (Some prev) n)
              \<and> (l0_of (th_process_id tn) \<noteq> None \<longrightarrow> sc_ttbr0 s' = l0_of (th_process_id tn))))"
  by (rule schedule_spec [OF assms])

theorem schedule_correct_witness:
  "\<exists>s prev r s'. sched_wf s \<and> sc_running s \<and> sc_current s = Some prev \<and> schedule (\<lambda>_. None) s = (r, s') \<and> sched_wf s'"
proof -
  obtain s c where s: "sched_reach (\<lambda>_. None) 1 s" "sc_running s" "sc_current s = Some c" using reach_one_running by blast
  have wf: "sched_wf s" using sched_reach_inv [OF s(1)] by (simp add: sched_inv_def)
  obtain r s' where r: "schedule (\<lambda>_. None) s = (r, s')" by (metis prod.exhaust)
  from schedule_correct [OF wf s(2,3) r] wf s r show ?thesis by blast
qed

theorem blocked_thread_resumed_witness:
  "\<exists>s c r s' n t t'. sc_current s = Some c \<and> schedule (\<lambda>_. None) s = (r, s')
     \<and> sc_threads s ! n = Some t \<and> th_state t = Blocked
     \<and> sc_threads s' ! n = Some t' \<and> th_state t' = Running"
proof -
  obtain s c t where s: "sched_reach (\<lambda>_. None) 1 s" "sc_running s" "sc_current s = Some c"
    "sc_threads s ! c = Some t" "th_state t = Running" using reach_one_running by blast
  have inv: "sched_wf s" "threads_made s = 1" using sched_reach_inv [OF s(1)] by (auto simp: sched_inv_def)
  have c: "c < MAX_THREADS" "c \<notin> set (queued s)" using sched_wf_current [OF inv(1) s(3)] by auto
  have len: "length (sc_threads s) = MAX_THREADS" by (rule sched_wf_length [OF inv(1)])
  have only: "i = c" if i: "i < MAX_THREADS" "sc_threads s ! i = Some u" for i u
  proof (rule ccontr)
    assume ne: "i \<noteq> c"
    have "length (live_slots ((sc_threads s)[c := None])) = 0"
      using length_live_slots_take [of c "sc_threads s"] s(4) c len inv(2) by (simp add: threads_made_def)
    then have "live_slots ((sc_threads s)[c := None]) = []" by simp
    then have "Some u \<notin> set ((sc_threads s)[c := None])"
      using set_live_slots [of "(sc_threads s)[c := None]"] by auto
    moreover have "(sc_threads s)[c := None] ! i = Some u" using ne i by simp
    ultimately show False using i len by (metis length_list_update nth_mem)
  qed
  have "queued s = []"
  proof (rule ccontr)
    assume "queued s \<noteq> []"
    then obtain i where i: "i \<in> set (queued s)" by (cases "queued s") auto
    then have "i < MAX_THREADS" using sched_wf_queues [OF inv(1)] by (simp add: queues_wf_def)
    with only sched_wf_queued [OF inv(1) i] i c(2) show False by blast
  qed
  let ?s = "set_state c Blocked s"
  have b: "sc_threads ?s ! c = Some (t\<lparr>th_state := Blocked\<rparr>)"
    using s(4) c len by (simp add: set_state_eq)
  have blocked: "\<forall>i u. i < MAX_THREADS \<and> sc_threads ?s ! i = Some u \<longrightarrow> th_state u = Blocked \<or> th_state u = Dead"
  proof (intro allI impI)
    fix i u assume i: "i < MAX_THREADS \<and> sc_threads ?s ! i = Some u"
    show "th_state u = Blocked \<or> th_state u = Dead"
    proof (cases "i = c")
      case True
      then show ?thesis using i b by auto
    next
      case False
      then have "sc_threads s ! i = Some u" using i s(4) by (simp add: set_state_eq)
      then show ?thesis using only i False by blast
    qed
  qed
  obtain r s' where r: "schedule (\<lambda>_. None) ?s = (r, s')" by (metis prod.exhaust)
  have wf: "sched_wf ?s" using set_state_wf [OF inv(1) c(1)] s(3) by simp
  have "sc_running ?s" "sc_current ?s = Some c" using s by simp_all
  moreover have "queued ?s = []" using \<open>queued s = []\<close> set_state_eq [OF s(4)] by simp
  moreover have "alive_at ?s c" using b by (simp add: alive_at_def alive_def)
  ultimately show ?thesis using blocked_thread_resumed [OF wf _ _ _ blocked _ r] r by blast
qed

end
