(* ===== verification/Ipc.thy ===== *)
theory Ipc
  imports Scheduler
begin

text \<open>
  Channels, the blocking side of ports and the service registry: \<open>kernel/src/ipc/channel.rs\<close>,
  \<open>port.rs\<close>, \<open>registry.rs\<close>. Endpoints are heap objects addressed by number, since both ends point
  at each other and handle tables hold the boxes. A blocking call is split where the code calls
  \<open>schedule\<close>: the first half ends with \<open>Blocks\<close> and the second half is what the thread does
  once it runs again. Buffers are addresses in the kernel's memory \<open>ip_mem\<close>.

  Objects that a call consumes and cannot place are dropped on the spot; \<open>drop_object\<close> runs their
  destructors, and \<open>ip_panic\<close> records that a destructor aborted the kernel.
\<close>

section \<open>Data\<close>

definition MAX_WAITERS :: nat where "MAX_WAITERS = 8"
definition MAX_SERVICES :: nat where "MAX_SERVICES = 8"

datatype channel_state = Open | HalfClosed | Closed

record channel =
  ch_id :: u32
  ch_state :: channel_state
  ch_read_refs :: u32
  ch_write_refs :: u32
  ch_peer :: "nat option"
  ch_send_waiters :: "nat option list"
  ch_recv_waiters :: "nat option list"

record service_entry =
  se_name :: "u8 list"
  se_name_len :: nat
  se_channel :: nat

record ipc =
  ip_sched :: sched
  ip_tables :: "u64 \<Rightarrow> handle_table"
  ip_hctr :: u32
  ip_chans :: "nat \<rightharpoonup> channel"
  ip_next_chan :: nat
  ip_chan_ctr :: u32
  ip_mem :: "nat \<Rightarrow> u8"
  ip_kmem :: kmem
  ip_services :: "service_entry option list"
  ip_panic :: bool

datatype 'a call = Returns "'a res" | Blocks

section \<open>Waiter lists\<close>

definition push_waiter :: "nat \<Rightarrow> nat option list \<Rightarrow> bool \<times> nat option list" where
  "push_waiter tid w = (case first_free w of Some i \<Rightarrow> (True, w[i := Some tid]) | None \<Rightarrow> (False, w))"

definition pop_waiter :: "nat option list \<Rightarrow> nat option \<times> nat option list" where
  "pop_waiter w =
     (case find_slot (\<lambda>_. True) w of
        Some i \<Rightarrow> (w ! i, (shift_left i (MAX_WAITERS - 1) (w[i := None]))[MAX_WAITERS - 1 := None])
      | None \<Rightarrow> (None, w))"

definition remove_waiter :: "nat \<Rightarrow> nat option list \<Rightarrow> nat option list" where
  "remove_waiter tid w =
     (case find_slot (\<lambda>x. x = tid) w of
        Some i \<Rightarrow> (shift_left i (MAX_WAITERS - 1) (w[i := None]))[MAX_WAITERS - 1 := None]
      | None \<Rightarrow> w)"

definition push_sender :: "nat \<Rightarrow> channel \<Rightarrow> bool \<times> channel" where
  "push_sender tid c = (let (b, w) = push_waiter tid (ch_send_waiters c) in (b, c\<lparr>ch_send_waiters := w\<rparr>))"

definition pop_sender :: "channel \<Rightarrow> nat option \<times> channel" where
  "pop_sender c = (let (r, w) = pop_waiter (ch_send_waiters c) in (r, c\<lparr>ch_send_waiters := w\<rparr>))"

definition push_receiver :: "nat \<Rightarrow> channel \<Rightarrow> bool \<times> channel" where
  "push_receiver tid c = (let (b, w) = push_waiter tid (ch_recv_waiters c) in (b, c\<lparr>ch_recv_waiters := w\<rparr>))"

definition pop_receiver :: "channel \<Rightarrow> nat option \<times> channel" where
  "pop_receiver c = (let (r, w) = pop_waiter (ch_recv_waiters c) in (r, c\<lparr>ch_recv_waiters := w\<rparr>))"

definition remove_receiver :: "nat \<Rightarrow> channel \<Rightarrow> channel" where
  "remove_receiver tid c = c\<lparr>ch_recv_waiters := remove_waiter tid (ch_recv_waiters c)\<rparr>"

section \<open>State access\<close>

definition channel_new :: "ipc \<Rightarrow> channel res \<times> ipc" where
  "channel_new s =
     (Ok \<lparr>ch_id = ip_chan_ctr s, ch_state = Open, ch_read_refs = 1, ch_write_refs = 1, ch_peer = None,
          ch_send_waiters = replicate MAX_WAITERS None, ch_recv_waiters = replicate MAX_WAITERS None\<rparr>,
      s\<lparr>ip_chan_ctr := ip_chan_ctr s + 1\<rparr>)"

text \<open>\<open>Box::new\<close>.\<close>

definition box_channel :: "channel \<Rightarrow> ipc \<Rightarrow> nat \<times> ipc" where
  "box_channel c s =
     (ip_next_chan s, s\<lparr>ip_chans := (ip_chans s)(ip_next_chan s \<mapsto> c), ip_next_chan := ip_next_chan s + 1\<rparr>)"

definition put_chan :: "nat \<Rightarrow> channel \<Rightarrow> ipc \<Rightarrow> ipc" where
  "put_chan a c s = s\<lparr>ip_chans := (ip_chans s)(a \<mapsto> c)\<rparr>"

definition upd_sched :: "(sched \<Rightarrow> sched) \<Rightarrow> ipc \<Rightarrow> ipc" where
  "upd_sched f s = s\<lparr>ip_sched := f (ip_sched s)\<rparr>"

definition th :: "ipc \<Rightarrow> nat \<Rightarrow> thread" where
  "th s i = the (sc_threads (ip_sched s) ! i)"

definition upd_thread :: "nat \<Rightarrow> (thread \<Rightarrow> thread) \<Rightarrow> ipc \<Rightarrow> ipc" where
  "upd_thread i f s = upd_sched (set_thread i (f (th s i))) s"

definition copy_mem :: "nat \<Rightarrow> nat \<Rightarrow> nat \<Rightarrow> ipc \<Rightarrow> ipc" where
  "copy_mem dst src n s = s\<lparr>ip_mem := copy_in dst (copy_out src n (ip_mem s)) (ip_mem s)\<rparr>"

section \<open>Closing and dropping\<close>

text \<open>\<open>for i in 0..MAX_WAITERS\<close>: take and wake the sender, then the receiver, of each index.\<close>

fun wake_all :: "(nat option \<times> nat option) list \<Rightarrow> sched \<Rightarrow> sched" where
  "wake_all [] s = s"
| "wake_all ((a, b) # ws) s =
     (let s1 = (case a of Some tid \<Rightarrow> wake_thread tid s | None \<Rightarrow> s);
          s2 = (case b of Some tid \<Rightarrow> wake_thread tid s1 | None \<Rightarrow> s1)
      in wake_all ws s2)"

definition wake_waiters :: "nat \<Rightarrow> ipc \<Rightarrow> ipc" where
  "wake_waiters a s =
     (case ip_chans s a of
        None \<Rightarrow> s
      | Some c \<Rightarrow>
          put_chan a (c\<lparr>ch_send_waiters := replicate MAX_WAITERS None, ch_recv_waiters := replicate MAX_WAITERS None\<rparr>)
            (upd_sched (wake_all (zip (ch_send_waiters c) (ch_recv_waiters c))) s))"

definition channel_close :: "nat \<Rightarrow> ipc \<Rightarrow> ipc" where
  "channel_close a s =
     (case ip_chans s a of
        None \<Rightarrow> s
      | Some c \<Rightarrow>
          (let s1 = wake_waiters a (put_chan a (c\<lparr>ch_state := Closed\<rparr>) s) in
           case ch_peer c of
             None \<Rightarrow> s1
           | Some p \<Rightarrow>
               (let s2 = (case ip_chans s1 a of None \<Rightarrow> s1 | Some c1 \<Rightarrow> put_chan a (c1\<lparr>ch_peer := None\<rparr>) s1) in
                case ip_chans s2 p of
                  None \<Rightarrow> s2
                | Some d \<Rightarrow> wake_waiters p (put_chan p (d\<lparr>ch_peer := None, ch_state := Closed\<rparr>) s2))))"

definition drop_channel :: "nat \<Rightarrow> ipc \<Rightarrow> ipc" where
  "drop_channel a s = (let s1 = channel_close a s in s1\<lparr>ip_chans := (ip_chans s1)(a := None)\<rparr>)"

definition drop_object :: "kobject \<Rightarrow> ipc \<Rightarrow> ipc" where
  "drop_object obj s =
     (case obj of
        KVmo v \<Rightarrow>
          (let (r, w) = vmo_drop v (ip_kmem s) in s\<lparr>ip_kmem := w, ip_panic := (ip_panic s \<or> r = Panic)\<rparr>)
      | KVmar v \<Rightarrow>
          (let (r, p) = drop_phys_page (vmar_meta_page v) (km_phys (ip_kmem s))
           in s\<lparr>ip_kmem := (ip_kmem s)\<lparr>km_phys := p\<rparr>, ip_panic := (ip_panic s \<or> r = Panic)\<rparr>)
      | KChannel a \<Rightarrow> drop_channel a s
      | _ \<Rightarrow> s)"

section \<open>Handle tables in the system state\<close>

definition tbl_add :: "u64 \<Rightarrow> kobject \<Rightarrow> rights \<Rightarrow> ipc \<Rightarrow> handle_value res \<times> ipc" where
  "tbl_add pid obj r s =
     (let (x, d, ctr, t) = ht_add obj r (ip_hctr s) (ip_tables s pid);
          s1 = s\<lparr>ip_hctr := ctr, ip_tables := (ip_tables s)(pid := t)\<rparr>
      in (x, case d of None \<Rightarrow> s1 | Some obj' \<Rightarrow> drop_object obj' s1))"

definition tbl_dup :: "u64 \<Rightarrow> handle_value \<Rightarrow> rights \<Rightarrow> ipc \<Rightarrow> handle_value res \<times> ipc" where
  "tbl_dup pid hv req s =
     (let (x, d, ctr, t) = duplicate_handle hv req (ip_hctr s) (ip_tables s pid);
          s1 = s\<lparr>ip_hctr := ctr, ip_tables := (ip_tables s)(pid := t)\<rparr>
      in (x, case d of None \<Rightarrow> s1 | Some obj' \<Rightarrow> drop_object obj' s1))"

definition tbl_remove :: "u64 \<Rightarrow> handle_value \<Rightarrow> ipc \<Rightarrow> (kobject \<times> rights) res \<times> ipc" where
  "tbl_remove pid hv s =
     (let (x, t) = remove_with_rights hv (ip_tables s pid) in (x, s\<lparr>ip_tables := (ip_tables s)(pid := t)\<rparr>))"

section \<open>Reading\<close>

text \<open>
  The stashed handles of a blocked sender go into the reader's table; those that do not fit are
  dropped.
\<close>

fun take_slots :: "nat \<Rightarrow> nat \<Rightarrow> u64 \<Rightarrow> (kobject \<times> rights) option list \<Rightarrow> nat \<Rightarrow> ipc \<Rightarrow> ipc" where
  "take_slots ci si pid [] h s = s"
| "take_slots ci si pid (None # xs) h s = take_slots ci si pid xs h s"
| "take_slots ci si pid (Some (obj, r) # xs) h s =
     (case tbl_add pid obj r s of
        (Ok hv, s1) \<Rightarrow>
          take_slots ci si pid xs (Suc h)
            (upd_thread ci (\<lambda>t. t\<lparr>th_ipc_transfer_handles := (th_ipc_transfer_handles t)[h := Some hv]\<rparr>) s1)
      | (_, s1) \<Rightarrow> take_slots ci si pid xs h s1)"

text \<open>The loop that moves received handles from the thread into the caller's slice.\<close>

definition extract_handles :: "nat \<Rightarrow> nat \<Rightarrow> ipc \<Rightarrow> u32 option list \<times> ipc" where
  "extract_handles ci hlen s =
     (let hs = th_ipc_transfer_handles (th s ci) in
      (map (\<lambda>i. if i < length hs then hs ! i else None) [0..<hlen],
       upd_thread ci (\<lambda>t. t\<lparr>th_ipc_transfer_handles :=
          map (\<lambda>i. if i < hlen then None else hs ! i) [0..<length hs]\<rparr>) s))"

definition receive_from :: "nat \<Rightarrow> nat \<Rightarrow> nat \<Rightarrow> nat \<Rightarrow> nat \<Rightarrow> ipc \<Rightarrow> (nat \<times> u32 option list) res \<times> ipc" where
  "receive_from ci si dst len hlen s =
     (let copy_len = min (th_ipc_buf_len (th s si)) len;
          s1 = copy_mem dst (unat (th_ipc_buf_ptr (th s si))) copy_len s;
          s2 = (case th_handle_table (th s1 ci) of
                  None \<Rightarrow> s1
                | Some pid \<Rightarrow>
                    (let slots = th_ipc_transfer_slots (th s1 si);
                         s' = upd_thread si (\<lambda>t. t\<lparr>th_ipc_transfer_slots := [None, None]\<rparr>) s1
                     in take_slots ci si pid slots 0 s'));
          s3 = upd_thread si (\<lambda>t. t\<lparr>th_ipc_actual_len := copy_len\<rparr>) s2;
          s4 = upd_sched (wake_thread (th_id (th s si))) s3;
          (hs, s5) = extract_handles ci hlen s4
      in (Ok (copy_len, hs), s5))"

definition block_reader :: "nat \<Rightarrow> nat \<Rightarrow> nat \<Rightarrow> nat \<Rightarrow> bool \<Rightarrow> ipc \<Rightarrow> bool \<times> ipc" where
  "block_reader a ci dst len clear s =
     (let s1 = upd_thread ci (\<lambda>t. t\<lparr>th_ipc_buf_ptr := word_of_nat dst, th_ipc_buf_len := len, th_ipc_actual_len := 0,
                 th_state := Blocked,
                 th_ipc_transfer_handles := (if clear then map (\<lambda>_. None) (th_ipc_transfer_handles t)
                                             else th_ipc_transfer_handles t)\<rparr>) s
      in case ip_chans s1 a of
           None \<Rightarrow> (False, s1)
         | Some c \<Rightarrow>
             (let (ok, c') = push_receiver (th_id (th s1 ci)) c in
              if ok then (True, put_chan a c' s1)
              else (False, upd_thread ci (\<lambda>t. t\<lparr>th_state := Running\<rparr>) s1)))"

text \<open>
  \<open>read\<close> up to the call of \<open>schedule\<close>. A popped sender that no longer exists is forgotten and the
  reader blocks. An endpoint that is not in the heap would be a dangling pointer; the model
  stops there.
\<close>

definition channel_read :: "nat \<Rightarrow> nat \<Rightarrow> nat \<Rightarrow> nat \<Rightarrow> ipc \<Rightarrow> (nat \<times> u32 option list) call \<times> ipc" where
  "channel_read a dst len hlen s =
     (case ip_chans s a of
        None \<Rightarrow> (Returns Panic, s)
      | Some c \<Rightarrow>
          if ch_state c = Closed then (Returns (Err PeerClosed), s)
          else case get_current_thread (ip_sched s) of
            None \<Rightarrow> (Returns (Err ThreadNotFound), s)
          | Some ci \<Rightarrow>
              (case ch_peer c of
                 None \<Rightarrow> (Returns (Err PeerClosed), s)
               | Some p \<Rightarrow>
                   (case ip_chans s p of
                      None \<Rightarrow> (Returns Panic, s)
                    | Some d \<Rightarrow>
                        (let (tid, d') = pop_sender d;
                             s1 = put_chan p d' s;
                             block = (let (ok, s2) = block_reader a ci dst len True s1 in
                                      if ok then (Blocks, s2) else (Returns (Err NoMemory), s2))
                         in case tid of
                              None \<Rightarrow> block
                            | Some t \<Rightarrow>
                                (case get_thread t (ip_sched s1) of
                                   None \<Rightarrow> block
                                 | Some si \<Rightarrow> (let (r, s2) = receive_from ci si dst len hlen s1 in (Returns r, s2)))))))"

definition channel_read_resumed :: "nat \<Rightarrow> nat \<Rightarrow> ipc \<Rightarrow> (nat \<times> u32 option list) res \<times> ipc" where
  "channel_read_resumed ci hlen s =
     (let n = th_ipc_actual_len (th s ci); (hs, s1) = extract_handles ci hlen s in (Ok (n, hs), s1))"

text \<open>
  \<open>read_with_timeout\<close>: the same start, except that stale received handles are not cleared; after
  the resumption a passed deadline wins over received data.
\<close>

definition channel_read_timeout :: "nat \<Rightarrow> nat \<Rightarrow> nat \<Rightarrow> nat \<Rightarrow> ipc \<Rightarrow> (nat \<times> u32 option list) call \<times> ipc" where
  "channel_read_timeout a dst len hlen s =
     (case ip_chans s a of
        None \<Rightarrow> (Returns Panic, s)
      | Some c \<Rightarrow>
          if ch_state c = Closed then (Returns (Err PeerClosed), s)
          else case get_current_thread (ip_sched s) of
            None \<Rightarrow> (Returns (Err ThreadNotFound), s)
          | Some ci \<Rightarrow>
              (case ch_peer c of
                 None \<Rightarrow> (Returns (Err PeerClosed), s)
               | Some p \<Rightarrow>
                   (case ip_chans s p of
                      None \<Rightarrow> (Returns Panic, s)
                    | Some d \<Rightarrow>
                        (let (tid, d') = pop_sender d;
                             s1 = put_chan p d' s;
                             block = (let (ok, s2) = block_reader a ci dst len False s1 in
                                      if ok then (Blocks, s2) else (Returns (Err NoMemory), s2))
                         in case tid of
                              None \<Rightarrow> block
                            | Some t \<Rightarrow>
                                (case get_thread t (ip_sched s1) of
                                   None \<Rightarrow> block
                                 | Some si \<Rightarrow> (let (r, s2) = receive_from ci si dst len hlen s1 in (Returns r, s2)))))))"

definition read_deadline :: "u64 \<Rightarrow> u64 \<Rightarrow> u64 option" where
  "read_deadline now timeout_ms = (if 0 < timeout_ms then Some (now + timeout_ms * 1000 div 10) else None)"

definition channel_read_timeout_resumed ::
  "nat \<Rightarrow> nat \<Rightarrow> nat \<Rightarrow> u64 option \<Rightarrow> u64 \<Rightarrow> ipc \<Rightarrow> (nat \<times> u32 option list) res \<times> ipc" where
  "channel_read_timeout_resumed a ci hlen deadline now s =
     (if (case deadline of None \<Rightarrow> False | Some d \<Rightarrow> d \<le> now)
      then (Err TimedOut,
            upd_thread ci (\<lambda>t. if th_state t = Blocked then t\<lparr>th_state := Ready\<rparr> else t)
              (case ip_chans s a of None \<Rightarrow> s | Some c \<Rightarrow> put_chan a (remove_receiver (th_id (th s ci)) c) s))
      else channel_read_resumed ci hlen s)"

section \<open>Writing\<close>

text \<open>
  One handle of a message: a duplicate is made and taken out again, or, when the object cannot be
  duplicated, the handle itself is taken out.
\<close>

definition detach_handle :: "u64 \<Rightarrow> handle_value \<Rightarrow> ipc \<Rightarrow> (kobject \<times> rights) option \<times> ipc" where
  "detach_handle pid hv s =
     (case tbl_dup pid hv 0 s of
        (Ok dup, s1) \<Rightarrow>
          (case tbl_remove pid dup s1 of (Ok x, s2) \<Rightarrow> (Some x, s2) | (_, s2) \<Rightarrow> (None, s2))
      | (_, s1) \<Rightarrow>
          (case tbl_remove pid hv s1 of (Ok x, s2) \<Rightarrow> (Some x, s2) | (_, s2) \<Rightarrow> (None, s2)))"

fun send_handles :: "u64 \<Rightarrow> u64 \<Rightarrow> nat \<Rightarrow> handle_value list \<Rightarrow> nat \<Rightarrow> ipc \<Rightarrow> ipc" where
  "send_handles pid rpid ri [] h s = s"
| "send_handles pid rpid ri (hv # hvs) h s =
     (case detach_handle pid hv s of
        (None, s1) \<Rightarrow> send_handles pid rpid ri hvs h s1
      | (Some (obj, r), s1) \<Rightarrow>
          (case tbl_add rpid obj r s1 of
             (Ok new, s2) \<Rightarrow>
               send_handles pid rpid ri hvs (Suc h)
                 (upd_thread ri (\<lambda>t. t\<lparr>th_ipc_transfer_handles := (th_ipc_transfer_handles t)[h := Some new]\<rparr>) s2)
           | (_, s2) \<Rightarrow> send_handles pid rpid ri hvs h s2))"

fun stash_handles :: "u64 \<Rightarrow> nat \<Rightarrow> handle_value list \<Rightarrow> nat \<Rightarrow> ipc \<Rightarrow> ipc" where
  "stash_handles pid ci [] h s = s"
| "stash_handles pid ci (hv # hvs) h s =
     (case detach_handle pid hv s of
        (None, s1) \<Rightarrow> stash_handles pid ci hvs h s1
      | (Some x, s1) \<Rightarrow>
          stash_handles pid ci hvs (Suc h)
            (upd_thread ci (\<lambda>t. t\<lparr>th_ipc_transfer_slots := (th_ipc_transfer_slots t)[h := Some x]\<rparr>) s1))"

fun restore_handles :: "u64 \<Rightarrow> (kobject \<times> rights) option list \<Rightarrow> ipc \<Rightarrow> ipc" where
  "restore_handles pid [] s = s"
| "restore_handles pid (None # xs) s = restore_handles pid xs s"
| "restore_handles pid (Some (obj, r) # xs) s = restore_handles pid xs (snd (tbl_add pid obj r s))"

fun drop_slots :: "(kobject \<times> rights) option list \<Rightarrow> ipc \<Rightarrow> ipc" where
  "drop_slots [] s = s"
| "drop_slots (None # xs) s = drop_slots xs s"
| "drop_slots (Some (obj, r) # xs) s = drop_slots xs (drop_object obj s)"

definition send_to :: "nat \<Rightarrow> nat \<Rightarrow> nat \<Rightarrow> nat \<Rightarrow> handle_value list \<Rightarrow> ipc \<Rightarrow> nat res \<times> ipc" where
  "send_to ci ri src len hs s =
     (let copy_len = min len (th_ipc_buf_len (th s ri));
          s1 = copy_mem (unat (th_ipc_buf_ptr (th s ri))) src copy_len s;
          s2 = (case (th_handle_table (th s1 ci), th_handle_table (th s1 ri)) of
                  (Some pid, Some rpid) \<Rightarrow> send_handles pid rpid ri (take 2 hs) 0 s1
                | _ \<Rightarrow> s1);
          s3 = upd_thread ri (\<lambda>t. t\<lparr>th_ipc_actual_len := copy_len\<rparr>) s2
      in (Ok copy_len, upd_sched (wake_thread (th_id (th s ri))) s3))"

definition block_writer :: "nat \<Rightarrow> nat \<Rightarrow> nat \<Rightarrow> nat \<Rightarrow> handle_value list \<Rightarrow> ipc \<Rightarrow> bool \<times> ipc" where
  "block_writer a ci src len hs s =
     (let s1 = upd_thread ci (\<lambda>t. t\<lparr>th_ipc_buf_ptr := word_of_nat src, th_ipc_buf_len := len, th_ipc_actual_len := 0,
                 th_state := Blocked\<rparr>) s;
          s2 = upd_thread ci (\<lambda>t. t\<lparr>th_ipc_transfer_slots := [None, None]\<rparr>) (drop_slots (th_ipc_transfer_slots (th s1 ci)) s1);
          s3 = (case th_handle_table (th s2 ci) of None \<Rightarrow> s2 | Some pid \<Rightarrow> stash_handles pid ci (take 2 hs) 0 s2)
      in case ip_chans s3 a of
           None \<Rightarrow> (False, s3)
         | Some c \<Rightarrow>
             (let (ok, c') = push_sender (th_id (th s3 ci)) c in
              if ok then (True, put_chan a c' s3)
              else
                (let s4 = (case th_handle_table (th s3 ci) of
                             None \<Rightarrow> s3
                           | Some pid \<Rightarrow> restore_handles pid (th_ipc_transfer_slots (th s3 ci))
                               (upd_thread ci (\<lambda>t. t\<lparr>th_ipc_transfer_slots := [None, None]\<rparr>) s3))
                 in (False, upd_thread ci (\<lambda>t. t\<lparr>th_state := Running\<rparr>) s4))))"

definition channel_write :: "nat \<Rightarrow> nat \<Rightarrow> nat \<Rightarrow> handle_value list \<Rightarrow> ipc \<Rightarrow> nat call \<times> ipc" where
  "channel_write a src len hs s =
     (case ip_chans s a of
        None \<Rightarrow> (Returns Panic, s)
      | Some c \<Rightarrow>
          if ch_state c = Closed then (Returns (Err PeerClosed), s)
          else case get_current_thread (ip_sched s) of
            None \<Rightarrow> (Returns (Err ThreadNotFound), s)
          | Some ci \<Rightarrow>
              (case ch_peer c of
                 None \<Rightarrow> (Returns (Err PeerClosed), s)
               | Some p \<Rightarrow>
                   (case ip_chans s p of
                      None \<Rightarrow> (Returns Panic, s)
                    | Some d \<Rightarrow>
                        (let (tid, d') = pop_receiver d;
                             s1 = put_chan p d' s;
                             block = (let (ok, s2) = block_writer a ci src len hs s1 in
                                      if ok then (Blocks, s2) else (Returns (Err NoMemory), s2))
                         in case tid of
                              None \<Rightarrow> block
                            | Some t \<Rightarrow>
                                (case get_thread t (ip_sched s1) of
                                   None \<Rightarrow> block
                                 | Some ri \<Rightarrow> (let (r, s2) = send_to ci ri src len hs s1 in (Returns r, s2)))))))"

definition channel_write_resumed :: "nat \<Rightarrow> ipc \<Rightarrow> nat res" where
  "channel_write_resumed ci s = Ok (th_ipc_actual_len (th s ci))"

section \<open>Ports\<close>

definition port_wait :: "port \<Rightarrow> ipc \<Rightarrow> port_packet call \<times> port \<times> ipc" where
  "port_wait p s =
     (case port_take p of
        (Some pkt, p') \<Rightarrow> (Returns (Ok pkt), p', s)
      | (None, _) \<Rightarrow>
          (case get_current_thread (ip_sched s) of
             None \<Rightarrow> (Returns (Err ThreadNotFound), p, s)
           | Some ci \<Rightarrow>
               (Blocks, p\<lparr>port_waiter := Some (th_id (th s ci))\<rparr>,
                upd_thread ci (\<lambda>t. t\<lparr>th_port_packet_slot := None, th_state := Blocked\<rparr>) s)))"

definition port_wait_resumed :: "nat \<Rightarrow> ipc \<Rightarrow> port_packet res \<times> ipc" where
  "port_wait_resumed ci s =
     (let slot = th_port_packet_slot (th s ci);
          s1 = upd_thread ci (\<lambda>t. t\<lparr>th_port_packet_slot := None\<rparr>) s
      in (case slot of None \<Rightarrow> Err Canceled | Some pkt \<Rightarrow> Ok pkt, s1))"

definition port_wait_timeout :: "port \<Rightarrow> ipc \<Rightarrow> port_packet call \<times> port \<times> ipc" where
  "port_wait_timeout p s =
     (case port_take_timeout p of
        (Some pkt, p') \<Rightarrow> (Returns (Ok pkt), p', s)
      | (None, _) \<Rightarrow>
          (case get_current_thread (ip_sched s) of
             None \<Rightarrow> (Returns (Err ThreadNotFound), p, s)
           | Some ci \<Rightarrow>
               (Blocks, p\<lparr>port_waiter := Some (th_id (th s ci))\<rparr>,
                upd_thread ci (\<lambda>t. t\<lparr>th_port_packet_slot := None, th_state := Blocked\<rparr>) s)))"

definition port_wait_timeout_resumed ::
  "nat \<Rightarrow> u64 option \<Rightarrow> u64 \<Rightarrow> port \<Rightarrow> ipc \<Rightarrow> port_packet res \<times> port \<times> ipc" where
  "port_wait_timeout_resumed ci deadline now p s =
     (if (case deadline of None \<Rightarrow> False | Some d \<Rightarrow> d \<le> now)
      then (Err TimedOut, p\<lparr>port_waiter := None\<rparr>,
            upd_thread ci (\<lambda>t. if th_state t = Blocked then t\<lparr>th_state := Ready\<rparr> else t) s)
      else let (r, s1) = port_wait_resumed ci s in (r, p, s1))"

definition port_queue :: "port_packet \<Rightarrow> port \<Rightarrow> ipc \<Rightarrow> unit res \<times> port \<times> ipc" where
  "port_queue pkt p s =
     (let p1 = p\<lparr>port_waiter := None\<rparr>;
          ring = (let (ok, p2) = port_put pkt p1 in (if ok then Ok () else Err TryAgain, p2, s))
      in case port_waiter p of
           None \<Rightarrow> ring
         | Some tid \<Rightarrow>
             (case get_thread tid (ip_sched s) of
                None \<Rightarrow> ring
              | Some wi \<Rightarrow>
                  (Ok (), p1, upd_thread wi (\<lambda>t. t\<lparr>th_port_packet_slot := Some pkt, th_state := Ready\<rparr>) s)))"

section \<open>Service registry\<close>

definition entry_name :: "service_entry \<Rightarrow> u8 list" where
  "entry_name e = take (se_name_len e) (se_name e)"

definition register_service :: "u8 list \<Rightarrow> nat \<Rightarrow> service_entry option list \<Rightarrow> unit res \<times> service_entry option list" where
  "register_service name ch reg =
     (if 16 < length name \<or> name = [] then (Err InvalidArgs, reg)
      else if find_slot (\<lambda>e. entry_name e = name) reg \<noteq> None then (Err AlreadyExists, reg)
      else case first_free reg of
        Some i \<Rightarrow> (Ok (), reg[i := Some \<lparr>se_name = name @ replicate (16 - length name) 0,
                                        se_name_len = length name, se_channel = ch\<rparr>])
      | None \<Rightarrow> (Err NoMemory, reg))"

definition lookup_service :: "u8 list \<Rightarrow> service_entry option list \<Rightarrow> nat res" where
  "lookup_service name reg =
     (if 16 < length name \<or> name = [] then Err InvalidArgs
      else case find_slot (\<lambda>e. entry_name e = name) reg of
        Some i \<Rightarrow> (case reg ! i of Some e \<Rightarrow> Ok (se_channel e) | None \<Rightarrow> Panic)
      | None \<Rightarrow> Err NotFound)"

section \<open>Waiter lists are FIFO\<close>

definition wait_wf :: "nat option list \<Rightarrow> bool" where
  "wait_wf w \<longleftrightarrow> w = prefix_slots (live_slots w) MAX_WAITERS \<and> length (live_slots w) \<le> MAX_WAITERS"

lemma wait_wf_empty: "wait_wf (replicate MAX_WAITERS None)"
  by (simp add: wait_wf_def prefix_slots_def)

lemma push_waiter_step:
  assumes "wait_wf w" "length (live_slots w) < MAX_WAITERS"
  shows "push_waiter tid w = (True, prefix_slots (live_slots w @ [tid]) MAX_WAITERS)"
proof -
  have w: "w = prefix_slots (live_slots w) MAX_WAITERS" using assms(1) by (simp add: wait_wf_def)
  have "first_free w = Some (length (live_slots w))"
    by (subst w) (rule first_free_prefix [OF assms(2)])
  moreover have "w[length (live_slots w) := Some tid] = prefix_slots (live_slots w @ [tid]) MAX_WAITERS"
    by (subst (1) w) (rule prefix_slots_push [OF assms(2)])
  ultimately show ?thesis by (simp add: push_waiter_def)
qed

lemma push_waiter_full:
  assumes "wait_wf w" "length (live_slots w) = MAX_WAITERS"
  shows "push_waiter tid w = (False, w)"
proof -
  have w: "w = prefix_slots (live_slots w) MAX_WAITERS" using assms(1) by (simp add: wait_wf_def)
  have "first_free w = None" by (subst w) (rule first_free_prefix_full [OF assms(2)])
  then show ?thesis by (simp add: push_waiter_def)
qed

lemma pop_waiter_step:
  assumes "wait_wf w" "live_slots w = x # q"
  shows "pop_waiter w = (Some x, prefix_slots q MAX_WAITERS)"
proof -
  have w: "w = prefix_slots (x # q) MAX_WAITERS" and len: "length q < MAX_WAITERS"
    using assms by (auto simp: wait_wf_def)
  have f: "find_slot (\<lambda>_. True) w = Some 0"
    unfolding find_slot_def by (rule find_index_SomeI) (simp_all add: w prefix_slots_def)
  have hd: "w ! 0 = Some x" by (simp add: w prefix_slots_def)
  have "(shift_left 0 (MAX_WAITERS - 1) (w[0 := None]))[MAX_WAITERS - 1 := None] = prefix_slots q MAX_WAITERS"
  proof -
    have ws: "w[0 := None] = None # map Some q @ replicate (MAX_WAITERS - Suc (length q)) None"
      by (simp add: w prefix_slots_def)
    have n: "MAX_WAITERS = Suc (length q + (MAX_WAITERS - Suc (length q)))" using len by simp
    have "shift_left 0 (MAX_WAITERS - 1) (w[0 := None])
        = take (MAX_WAITERS - 1) (drop 1 (w[0 := None])) @ drop (MAX_WAITERS - 1) (w[0 := None])"
      using len by (subst shift_left_eq) (simp_all add: ws)
    also have "take (MAX_WAITERS - 1) (drop 1 (w[0 := None])) = map Some q @ replicate (MAX_WAITERS - Suc (length q)) None"
      using len by (simp add: ws)
    finally have sh: "shift_left 0 (MAX_WAITERS - 1) (w[0 := None])
        = (map Some q @ replicate (MAX_WAITERS - Suc (length q)) None) @ drop (MAX_WAITERS - 1) (w[0 := None])" .
    have l: "length (map Some q @ replicate (MAX_WAITERS - Suc (length q)) None) = MAX_WAITERS - 1"
      using len by simp
    have dl: "length (drop (MAX_WAITERS - 1) (w[0 := None])) = 1" using len by (simp add: ws MAX_WAITERS_def)
    then obtain z where z: "drop (MAX_WAITERS - 1) (w[0 := None]) = [z]"
      by (metis One_nat_def length_0_conv length_Suc_conv)
    have "(shift_left 0 (MAX_WAITERS - 1) (w[0 := None]))[MAX_WAITERS - 1 := None]
        = map Some q @ replicate (MAX_WAITERS - Suc (length q)) None @ [None]"
      unfolding sh z using l by (simp add: list_update_append)
    also have "\<dots> = prefix_slots q MAX_WAITERS"
      using len by (simp add: prefix_slots_def replicate_append_same Suc_diff_Suc [symmetric])
    finally show ?thesis .
  qed
  with f hd show ?thesis by (simp add: pop_waiter_def)
qed

lemma pop_waiter_empty: "wait_wf w \<Longrightarrow> live_slots w = [] \<Longrightarrow> pop_waiter w = (None, w)"
proof -
  assume "wait_wf w" "live_slots w = []"
  then have "w = replicate MAX_WAITERS None" by (simp add: wait_wf_def prefix_slots_def)
  then have "find_slot (\<lambda>_. True) w = None" by (simp add: find_slot_None)
  then show ?thesis by (simp add: pop_waiter_def)
qed

lemma wait_wf_prefix: "length q \<le> MAX_WAITERS \<Longrightarrow> wait_wf (prefix_slots q MAX_WAITERS)"
  by (simp add: wait_wf_def)

interpretation waiters: bounded_fifo MAX_WAITERS live_slots wait_wf push_waiter pop_waiter
proof unfold_locales
  fix w :: "nat option list" and tid :: nat assume wf: "wait_wf w"
  show "length (live_slots w) \<le> MAX_WAITERS" using wf by (simp add: wait_wf_def)
  show "wait_wf (snd (push_waiter tid w))"
    using wf push_waiter_step [OF wf, of tid] push_waiter_full [OF wf, of tid]
    by (cases "length (live_slots w) < MAX_WAITERS") (auto simp: wait_wf_def)
  show "wait_wf (snd (pop_waiter w))"
    using wf pop_waiter_step [OF wf] pop_waiter_empty [OF wf]
    by (cases "live_slots w") (auto simp: wait_wf_def)
qed (auto simp: push_waiter_step push_waiter_full pop_waiter_step pop_waiter_empty)

section \<open>The registry is a map\<close>

definition reg_wf :: "service_entry option list \<Rightarrow> bool" where
  "reg_wf reg \<longleftrightarrow> length reg = MAX_SERVICES \<and> distinct_keys entry_name reg"

definition reg_lookup :: "service_entry option list \<Rightarrow> u8 list \<Rightarrow> nat option" where
  "reg_lookup reg name = map_option se_channel (slot_map entry_name reg name)"

definition valid_name :: "u8 list \<Rightarrow> bool" where
  "valid_name name \<longleftrightarrow> name \<noteq> [] \<and> length name \<le> 16"

definition reg_put :: "u8 list \<Rightarrow> nat \<Rightarrow> service_entry option list \<Rightarrow> service_entry option list option" where
  "reg_put name ch reg = (case register_service name ch reg of (Ok _, reg') \<Rightarrow> Some reg' | _ \<Rightarrow> None)"

lemma lookup_service_eq:
  "valid_name name \<Longrightarrow> lookup_service name reg = (case reg_lookup reg name of None \<Rightarrow> Err NotFound | Some ch \<Rightarrow> Ok ch)"
  by (cases "find_slot (\<lambda>e. entry_name e = name) reg")
    (auto simp: lookup_service_def valid_name_def reg_lookup_def slot_map_def dest!: find_slotD)

lemma reg_lookup_None: "reg_lookup reg name = None \<longleftrightarrow> find_slot (\<lambda>e. entry_name e = name) reg = None"
  by (auto simp: reg_lookup_def slot_map_None find_slot_None)

lemma register_OkD:
  assumes wf: "reg_wf reg" and eq: "register_service name ch reg = (Ok x, reg')"
  shows "reg_wf reg'" "valid_name name" "reg_lookup reg name = None" "reg_lookup reg' = (reg_lookup reg)(name \<mapsto> ch)"
proof -
  have v: "valid_name name" using eq by (auto simp: register_service_def valid_name_def split: if_splits)
  have none: "find_slot (\<lambda>e. entry_name e = name) reg = None"
    using eq by (auto simp: register_service_def split: if_splits)
  let ?e = "\<lparr>se_name = name @ replicate (16 - length name) 0, se_name_len = length name, se_channel = ch\<rparr>"
  have name: "entry_name ?e = name" by (simp add: entry_name_def)
  obtain i where i: "first_free reg = Some i" and reg': "reg' = reg[i := Some ?e]"
    using eq none v by (auto simp: register_service_def valid_name_def split: option.splits if_splits)
  have fresh: "slot_map entry_name reg (entry_name ?e) = None"
    using none name by (simp add: slot_map_def)
  note p = slot_map_put [OF _ _ _ fresh, of i]
  show "reg_wf reg'" "reg_lookup reg' = (reg_lookup reg)(name \<mapsto> ch)"
    using wf p first_freeD [OF i] name by (auto simp: reg' reg_wf_def reg_lookup_def fun_eq_iff)
  show "valid_name name" by (fact v)
  show "reg_lookup reg name = None" using none by (simp add: reg_lookup_None)
qed

interpretation services: keyed_table reg_wf reg_lookup reg_put
  by unfold_locales (auto simp: reg_put_def split: prod.splits res.splits dest: register_OkD)

section \<open>A message crosses a channel\<close>

text \<open>Scheduling changes a thread's state and time slice, never its message fields.\<close>

definition same_message :: "thread \<Rightarrow> thread \<Rightarrow> bool" where
  "same_message t u \<longleftrightarrow> th_id u = th_id t \<and> th_ipc_buf_ptr u = th_ipc_buf_ptr t \<and> th_ipc_buf_len u = th_ipc_buf_len t
     \<and> th_ipc_actual_len u = th_ipc_actual_len t \<and> th_ipc_transfer_handles u = th_ipc_transfer_handles t
     \<and> th_handle_table u = th_handle_table t \<and> th_ipc_transfer_slots u = th_ipc_transfer_slots t
     \<and> th_port_packet_slot u = th_port_packet_slot t"

lemma same_message_refl [simp]: "same_message t t"
  by (simp add: same_message_def)

lemma same_message_trans: "same_message t u \<Longrightarrow> same_message u v \<Longrightarrow> same_message t v"
  by (simp add: same_message_def)

lemma same_message_tick [simp]: "same_message t (tick_thread t)"
  by (simp add: same_message_def tick_thread_def decay_priority_def reset_time_slice_def Let_def)

lemma schedule_threads:
  assumes wf: "sched_wf s" and run: "sc_running s" "sc_current s = Some prev"
    and eq: "schedule l0_of s = (r, s')" and r: "r \<noteq> SHalt"
  obtains tp n tn where "sc_threads s ! prev = Some tp" "prev < MAX_THREADS" "n < MAX_THREADS"
    "(sc_threads s)[prev := Some (tick_thread tp)] ! n = Some tn" "sc_current s' = Some n"
    "sc_threads s' = (sc_threads s)[prev := Some (tick_thread tp), n := Some (reset_time_slice (tn\<lparr>th_state := Running\<rparr>))]"
proof -
  obtain tp where tp: "sc_threads s ! prev = Some tp" using sched_wf_current [OF wf run(2)] by auto
  have pl: "prev < length (sc_threads s)" using sched_wf_current [OF wf run(2)] sched_wf_length [OF wf] by simp
  obtain st s1 where out: "schedule_out prev s = (st, s1)" by (metis prod.exhaust)
  note so = schedule_out_spec [OF wf run(2) tp out]
  have t1: "sc_threads s1 = (sc_threads s)[prev := Some (tick_thread tp)]" using so tp by auto
  obtain qs where pop: "pop_next_from_all_queues s1 = (Ok (pick_next s1), s1\<lparr>sc_queues := qs\<rparr>)"
    using so by (elim conjE) (rule pop_next_spec)
  note sc = schedule_spec [OF wf run eq]
  show ?thesis
  proof (cases "pick_next s1")
    case None
    then show ?thesis using sc eq run out pop r by (auto simp: schedule_def split: if_splits)
  next
    case (Some n)
    have n: "n < length (sc_threads s1)" "sc_threads s1 ! n \<noteq> None"
      using pick_next_alive [of s1 n] so Some pl by (auto simp: queues_wf_def alive_at_def alive_def split: option.splits)
    then obtain tn where tn: "sc_threads s1 ! n = Some tn" by blast
    let ?s3 = "(start_thread n (s1\<lparr>sc_queues := qs\<rparr>))\<lparr>sc_current := Some n\<rparr>"
    have "sc_threads s' = sc_threads ?s3 \<and> sc_current s' = sc_current ?s3"
      using eq run out pop Some by (auto simp: schedule_def Let_def split: option.splits if_splits)
    then have "sc_threads s' = (sc_threads s1)[n := Some (reset_time_slice (tn\<lparr>th_state := Running\<rparr>))]"
      "sc_current s' = Some n"
      using tn start_thread_eq [of "s1\<lparr>sc_queues := qs\<rparr>" n tn] by simp_all
    then show ?thesis using that [OF tp] tn n pl t1 sched_wf_length [OF wf] by simp
  qed
qed

lemma schedule_keeps:
  assumes wf: "sched_wf s" and run: "sc_running s" "sc_current s = Some prev"
    and eq: "schedule l0_of s = (r, s')" and r: "r \<noteq> SHalt" and t: "sc_threads s ! i = Some t"
  shows "\<exists>t'. sc_threads s' ! i = Some t' \<and> same_message t t'
    \<and> (sc_current s' \<noteq> Some i \<longrightarrow> th_state t' = (if i = prev then th_state (tick_thread t) else th_state t))"
proof -
  obtain tp n tn where p: "sc_threads s ! prev = Some tp" "prev < MAX_THREADS" "n < MAX_THREADS"
    "(sc_threads s)[prev := Some (tick_thread tp)] ! n = Some tn" "sc_current s' = Some n"
    "sc_threads s' = (sc_threads s)[prev := Some (tick_thread tp), n := Some (reset_time_slice (tn\<lparr>th_state := Running\<rparr>))]"
    by (rule schedule_threads [OF wf run eq r])
  have len: "length (sc_threads s) = MAX_THREADS" by (rule sched_wf_length [OF wf])
  show ?thesis
  proof (cases "i = n")
    case True
    then have "same_message t tn" using p t len by (cases "n = prev") auto
    then have "same_message t (reset_time_slice (tn\<lparr>th_state := Running\<rparr>))"
      by (simp add: same_message_def reset_time_slice_def)
    then show ?thesis using True p len by simp
  next
    case False
    then have "sc_threads s' ! i = Some (if i = prev then tick_thread t else t)" using p t len by auto
    then show ?thesis by simp
  qed
qed

text \<open>The thread a thread id names depends on the ids in the slots alone.\<close>

definition thread_ids :: "sched \<Rightarrow> nat option list" where
  "thread_ids s = map (map_option th_id) (sc_threads s)"

lemma get_thread_ids: "get_thread tid s = find_index (\<lambda>x. x = Some tid) (thread_ids s)"
proof -
  have "find_slot (\<lambda>t. th_id t = tid) xs = find_index (\<lambda>x. x = Some tid) (map (map_option th_id) xs)" for xs
    by (induction xs) (auto simp: find_slot_def split: option.splits)
  then show ?thesis by (simp add: get_thread_def thread_ids_def)
qed

lemma thread_ids_set_thread:
  "i < length (sc_threads s) \<Longrightarrow> sc_threads s ! i = Some t \<Longrightarrow> th_id t' = th_id t \<Longrightarrow> thread_ids (set_thread i t' s) = thread_ids s"
  by (auto simp: thread_ids_def list_eq_iff_nth_eq nth_list_update)

lemma schedule_ids:
  assumes wf: "sched_wf s" and run: "sc_running s" "sc_current s = Some prev"
    and eq: "schedule l0_of s = (r, s')" and r: "r \<noteq> SHalt"
  shows "thread_ids s' = thread_ids s"
proof -
  obtain tp n tn where p: "sc_threads s ! prev = Some tp" "prev < MAX_THREADS" "n < MAX_THREADS"
    "(sc_threads s)[prev := Some (tick_thread tp)] ! n = Some tn" "sc_current s' = Some n"
    "sc_threads s' = (sc_threads s)[prev := Some (tick_thread tp), n := Some (reset_time_slice (tn\<lparr>th_state := Running\<rparr>))]"
    by (rule schedule_threads [OF wf run eq r])
  have tick: "th_id (tick_thread t) = th_id t" for t using same_message_tick [of t] by (simp add: same_message_def)
  let ?s1 = "set_thread prev (tick_thread tp) s"
  have len: "length (sc_threads s) = MAX_THREADS" by (rule sched_wf_length [OF wf])
  have "thread_ids (set_thread n (reset_time_slice (tn\<lparr>th_state := Running\<rparr>)) ?s1) = thread_ids ?s1"
    using p len by (intro thread_ids_set_thread [of _ _ tn]) (simp_all add: reset_time_slice_def)
  also have "\<dots> = thread_ids s" using p len by (intro thread_ids_set_thread [of _ _ tp]) (simp_all add: tick)
  finally show ?thesis using p by (simp add: thread_ids_def)
qed

lemma wake_thread_effect:
  assumes wf: "sched_wf s" and i: "get_thread tid s = Some i" and t: "sc_threads s ! i = Some t" "th_state t = Blocked"
  shows "\<exists>qs. wake_thread tid s = (set_thread i (t\<lparr>th_state := Ready\<rparr>) s)\<lparr>sc_queues := qs\<rparr>"
    and "i \<in> set (queued (wake_thread tid s))"
proof -
  from find_slotD [OF i [unfolded get_thread_def]]
  have il: "i < length (sc_threads s)" and ti: "th_id t = tid"
    using t by auto
  have ne: "\<And>j u. j < i \<Longrightarrow> sc_threads s ! j = Some u \<Longrightarrow> th_id u \<noteq> tid"
    using find_slot_before [OF i [unfolded get_thread_def]] by blast
  have f: "find_slot (wakeable tid) (sc_threads s) = Some i"
    unfolding find_slot_def by (rule find_index_SomeI) (use il t ti ne in \<open>auto simp: wakeable_def split: option.splits\<close>)
  have lt: "i < MAX_THREADS" using il sched_wf_length [OF wf] by simp
  have "i \<notin> set (queued s)" using sched_wf_queued [OF wf, of i] t by auto
  then have rq: "(\<exists>qs. requeue_current i (set_thread i (t\<lparr>th_state := Ready\<rparr>) s) = (set_thread i (t\<lparr>th_state := Ready\<rparr>) s)\<lparr>sc_queues := qs\<rparr>)
    \<and> set (queued (requeue_current i (set_thread i (t\<lparr>th_state := Ready\<rparr>) s))) = insert i (set (queued s))"
    using requeue_spec [of "set_thread i (t\<lparr>th_state := Ready\<rparr>) s" i] lt il sched_wf_queues [OF wf] by simp
  have "wake_thread tid s = requeue_current i (set_thread i (t\<lparr>th_state := Ready\<rparr>) s)"
    using f t by (simp add: wake_thread_def)
  with rq show "\<exists>qs. wake_thread tid s = (set_thread i (t\<lparr>th_state := Ready\<rparr>) s)\<lparr>sc_queues := qs\<rparr>"
    "i \<in> set (queued (wake_thread tid s))" by auto
qed

lemma sched_wf_set_thread:
  assumes wf: "sched_wf s" and t: "i < MAX_THREADS" "sc_threads s ! i = Some t"
    and st: "th_state t' = th_state t \<or> th_state t' = Dead \<or> th_state t' = Ready
       \<or> th_state t' \<noteq> Running \<and> sc_current s = Some i"
  shows "sched_wf (set_thread i t' s)"
proof -
  have len: "i < length (sc_threads s)" using sched_wf_length [OF wf] t by simp
  have base: "sched_wf (set_thread i t' s)" if wf: "sched_wf s" and u: "sc_threads s ! i = Some u" "th_state u = th_state t'"
    and len: "i < length (sc_threads s)" for s u
  proof (rule sched_wfI)
    show "queues_wf (set_thread i t' s)" using sched_wf_queues [OF wf] by simp
  next
    fix j assume "j \<in> set (queued (set_thread i t' s))"
    then show "\<exists>t. sc_threads (set_thread i t' s) ! j = Some t \<and> (th_state t = Ready \<or> th_state t = Dead)"
      using sched_wf_queued [OF wf, of j] u len by (cases "j = i") auto
  next
    fix c assume "sc_current (set_thread i t' s) = Some c"
    then show "c < MAX_THREADS \<and> sc_threads (set_thread i t' s) ! c \<noteq> None \<and> c \<notin> set (queued (set_thread i t' s))"
      using sched_wf_current [OF wf, of c] len by (cases "c = i") auto
  next
    fix j v assume "j < MAX_THREADS" "sc_threads (set_thread i t' s) ! j = Some v" "th_state v = Running"
    then show "sc_current (set_thread i t' s) = Some j"
      using sched_wf_running [OF wf, of j] u len by (cases "j = i") auto
  qed
  show ?thesis
  proof (cases "th_state t' = th_state t")
    case True
    then show ?thesis using base [OF wf t(2) _ len] by simp
  next
    case False
    let ?s = "set_state i (th_state t') s"
    have eq: "?s = set_thread i (t\<lparr>th_state := th_state t'\<rparr>) s" by (rule set_state_eq [OF t(2)])
    have "sched_wf ?s" using set_state_wf [OF wf t(1)] st False by auto
    moreover have "set_thread i t' ?s = set_thread i t' s" by (simp add: eq set_thread_def)
    moreover have "sc_threads ?s ! i = Some (t\<lparr>th_state := th_state t'\<rparr>)" "i < length (sc_threads ?s)"
      using len by (simp_all add: eq)
    ultimately show ?thesis using base [of ?s "t\<lparr>th_state := th_state t'\<rparr>"] by simp
  qed
qed

lemma th_upd_thread:
  "i < length (sc_threads (ip_sched s)) \<Longrightarrow> th (upd_thread i f s) j = (if j = i then f (th s i) else th s j)"
  by (simp add: th_def upd_thread_def upd_sched_def)

lemma upd_thread_frame [simp]:
  "ip_tables (upd_thread i f s) = ip_tables s" "ip_chans (upd_thread i f s) = ip_chans s"
  "ip_mem (upd_thread i f s) = ip_mem s" "ip_hctr (upd_thread i f s) = ip_hctr s"
  by (simp_all add: upd_thread_def upd_sched_def)

text \<open>A writer that finds no reader blocks with its buffer registered and its thread id queued.\<close>

lemma channel_write_blocks:
  assumes c: "ip_chans s a = Some c" "ch_state c \<noteq> Closed" "ch_peer c = Some b" "ip_chans s b = Some d" "a \<noteq> b"
    and recv: "wait_wf (ch_recv_waiters d)" "live_slots (ch_recv_waiters d) = []"
    and send: "wait_wf (ch_send_waiters c)" "length (live_slots (ch_send_waiters c)) < MAX_WAITERS"
    and wf: "sched_wf (ip_sched s)" and cur: "sc_current (ip_sched s) = Some wi"
    and w: "sc_threads (ip_sched s) ! wi = Some w" "th_ipc_transfer_slots w = [None, None]"
  shows "\<exists>s1 w1. channel_write a src len [] s = (Blocks, s1)
    \<and> ip_sched s1 = set_thread wi w1 (ip_sched s)
    \<and> w1 = w\<lparr>th_ipc_buf_ptr := word_of_nat src, th_ipc_buf_len := len, th_ipc_actual_len := 0,
             th_state := Blocked, th_ipc_transfer_slots := [None, None]\<rparr>
    \<and> ip_chans s1 = (ip_chans s)(a \<mapsto> c\<lparr>ch_send_waiters := prefix_slots (live_slots (ch_send_waiters c) @ [th_id w]) MAX_WAITERS\<rparr>)
    \<and> ip_mem s1 = ip_mem s \<and> ip_tables s1 = ip_tables s"
proof -
  have pop: "pop_receiver d = (None, d)" using pop_waiter_empty [OF recv] by (simp add: pop_receiver_def)
  have same: "put_chan b d s = s" using c(4) by (simp add: put_chan_def fun_upd_idem)
  have wl: "wi < length (sc_threads (ip_sched s))"
    using sched_wf_current [OF wf cur] sched_wf_length [OF wf] by simp
  have gc: "get_current_thread (ip_sched s) = Some wi" using cur w by (simp add: get_current_thread_def)
  let ?w1 = "w\<lparr>th_ipc_buf_ptr := word_of_nat src, th_ipc_buf_len := len, th_ipc_actual_len := 0, th_state := Blocked\<rparr>"
  let ?w2 = "?w1\<lparr>th_ipc_transfer_slots := [None, None]\<rparr>"
  have thw: "th s wi = w" using w by (simp add: th_def)
  define s2 where "s2 = s\<lparr>ip_sched := set_thread wi ?w2 (ip_sched s)\<rparr>"
  have "upd_thread wi (\<lambda>t. t\<lparr>th_ipc_transfer_slots := [None, None]\<rparr>)
      (upd_thread wi (\<lambda>t. t\<lparr>th_ipc_buf_ptr := word_of_nat src, th_ipc_buf_len := len, th_ipc_actual_len := 0, th_state := Blocked\<rparr>) s) = s2"
    using wl thw by (simp add: s2_def upd_thread_def upd_sched_def set_thread_def th_def)
  moreover have "th (upd_thread wi (\<lambda>t. t\<lparr>th_ipc_buf_ptr := word_of_nat src, th_ipc_buf_len := len,
      th_ipc_actual_len := 0, th_state := Blocked\<rparr>) s) wi = ?w1"
    using wl thw by (simp add: th_upd_thread)
  moreover have "th s2 wi = ?w2" using wl by (simp add: s2_def th_def)
  moreover have "ip_chans s2 a = Some c" using c by (simp add: s2_def)
  moreover have "push_sender (th_id w) c
      = (True, c\<lparr>ch_send_waiters := prefix_slots (live_slots (ch_send_waiters c) @ [th_id w]) MAX_WAITERS\<rparr>)"
    using push_waiter_step [OF send] by (simp add: push_sender_def)
  ultimately have "block_writer a wi src len [] s
      = (True, put_chan a (c\<lparr>ch_send_waiters := prefix_slots (live_slots (ch_send_waiters c) @ [th_id w]) MAX_WAITERS\<rparr>) s2)"
    using w(2) by (simp add: block_writer_def Let_def split: option.splits)
  then have "channel_write a src len [] s
      = (Blocks, put_chan a (c\<lparr>ch_send_waiters := prefix_slots (live_slots (ch_send_waiters c) @ [th_id w]) MAX_WAITERS\<rparr>) s2)"
    using c gc pop same by (simp add: channel_write_def)
  then show ?thesis by (simp add: s2_def put_chan_def)
qed

lemma copy_out_copy_in: "copy_out dst (length bs) (copy_in dst bs m) = bs"
  by (auto simp: copy_out_def copy_in_def intro: nth_equalityI)

lemma length_copy_out [simp]: "length (copy_out src n m) = n"
  by (simp add: copy_out_def)

text \<open>A reader that finds a blocked writer without handles takes its bytes and wakes it.\<close>

lemma receive_from_spec:
  assumes wf: "sched_wf (ip_sched s)"
    and w: "get_thread (th_id w) (ip_sched s) = Some wi" "sc_threads (ip_sched s) ! wi = Some w"
       "th_state w = Blocked" "th_ipc_transfer_slots w = [None, None]"
    and r: "ri < MAX_THREADS" "sc_threads (ip_sched s) ! ri = Some r" "ri \<noteq> wi"
    and eq: "receive_from ri wi dst m hl s = (x, s')"
  shows "(\<exists>hs. x = Ok (min (th_ipc_buf_len w) m, hs))
    \<and> copy_out dst (min (th_ipc_buf_len w) m) (ip_mem s')
      = copy_out (unat (th_ipc_buf_ptr w)) (min (th_ipc_buf_len w) m) (ip_mem s)
    \<and> ip_chans s' = ip_chans s \<and> ip_tables s' = ip_tables s
    \<and> wi \<in> set (queued (ip_sched s'))
    \<and> th_state (th s' wi) = Ready \<and> channel_write_resumed wi s' = Ok (min (th_ipc_buf_len w) m)"
proof -
  let ?n = "min (th_ipc_buf_len w) m"
  have len: "length (sc_threads (ip_sched s)) = MAX_THREADS" by (rule sched_wf_length [OF wf])
  have wl: "wi < MAX_THREADS" using find_slotD [OF w(1) [unfolded get_thread_def]] len by simp
  have thw: "th s wi = w" and thr: "th s ri = r" using w r by (simp_all add: th_def)
  define s1 where "s1 = copy_mem dst (unat (th_ipc_buf_ptr w)) ?n s"
  have w2: "w\<lparr>th_ipc_transfer_slots := [None, None]\<rparr> = w" using w(4) by simp
  have s1: "ip_sched s1 = ip_sched s" "ip_chans s1 = ip_chans s" "ip_tables s1 = ip_tables s"
    by (simp_all add: s1_def copy_mem_def)
  have same: "upd_thread wi (\<lambda>t. t\<lparr>th_ipc_transfer_slots := [None, None]\<rparr>) s1 = s1"
  proof -
    have id: "set_thread wi w (ip_sched s) = ip_sched s"
      using list_update_id [of "sc_threads (ip_sched s)" wi] w(2) by (simp add: set_thread_def)
    have "th s1 wi = w" using w s1 by (simp add: th_def)
    then show ?thesis unfolding upd_thread_def upd_sched_def by (simp add: w2 s1 id)
  qed
  define w3 where "w3 = w\<lparr>th_ipc_actual_len := ?n\<rparr>"
  define sc3 where "sc3 = set_thread wi w3 (ip_sched s)"
  define s3 where "s3 = s1\<lparr>ip_sched := sc3\<rparr>"
  have u3: "upd_thread wi (\<lambda>t. t\<lparr>th_ipc_actual_len := ?n\<rparr>) s1 = s3"
    using w s1 by (simp add: s3_def upd_thread_def upd_sched_def th_def w3_def sc3_def)
  have wf3: "sched_wf sc3" unfolding sc3_def by (rule sched_wf_set_thread [OF wf wl w(2)]) (simp add: w3_def)
  have g3: "get_thread (th_id w) sc3 = Some wi"
    using w(1) thread_ids_set_thread [of wi "ip_sched s" w w3] wl len w(2) by (simp add: get_thread_ids sc3_def w3_def)
  have t3: "sc_threads sc3 ! wi = Some w3" "th_state w3 = Blocked" "sc_threads sc3 ! ri = Some r"
    using wl len w r by (simp_all add: sc3_def w3_def)
  note wk = wake_thread_effect [OF wf3 g3 t3(1,2)]
  define sc4 where "sc4 = wake_thread (th_id w) sc3"
  obtain qs where sc4: "sc4 = (set_thread wi (w3\<lparr>th_state := Ready\<rparr>) sc3)\<lparr>sc_queues := qs\<rparr>"
    using wk(1) by (auto simp: sc4_def)
  have len4: "length (sc_threads sc4) = MAX_THREADS" using len by (simp add: sc4 sc3_def)
  define s4 where "s4 = s1\<lparr>ip_sched := sc4\<rparr>"
  have u4: "upd_sched (wake_thread (th_id w)) s3 = s4" by (simp add: s3_def s4_def sc4_def upd_sched_def)
  have th4: "th s4 wi = w3\<lparr>th_state := Ready\<rparr>" using wl len by (simp add: s4_def th_def sc4 sc3_def)
  obtain hs s5 where ex: "extract_handles ri hl s4 = (hs, s5)" by (metis prod.exhaust)
  then have s5: "s5 = upd_thread ri (\<lambda>t. t\<lparr>th_ipc_transfer_handles :=
       map (\<lambda>i. if i < hl then None else th_ipc_transfer_handles (th s4 ri) ! i) [0..<length (th_ipc_transfer_handles (th s4 ri))]\<rparr>) s4"
    by (simp add: extract_handles_def Let_def)
  have th1: "th s1 wi = w" "th s1 ri = r" using w r s1 by (simp_all add: th_def)
  have "receive_from ri wi dst m hl s = (Ok (?n, hs), s5)"
    using ex thw th1 w(4) same u3 u4
    by (simp add: receive_from_def s1_def [symmetric] split: option.splits)
  then have res: "x = Ok (?n, hs)" "s' = s5" using eq by simp_all
  have "th s5 wi = w3\<lparr>th_state := Ready\<rparr>"
    using th_upd_thread [of ri s4 _ wi] r len4 th4 by (simp add: s5 s4_def)
  moreover have "ip_mem s5 = copy_in dst (copy_out (unat (th_ipc_buf_ptr w)) ?n (ip_mem s)) (ip_mem s)"
    by (simp add: s5 s4_def s1_def copy_mem_def)
  moreover have "wi \<in> set (queued (ip_sched s5))"
    using wk(2) by (simp add: s5 upd_thread_def upd_sched_def s4_def sc4_def)
  moreover have "ip_chans s5 = ip_chans s" "ip_tables s5 = ip_tables s" by (simp_all add: s5 s4_def s1)
  ultimately show ?thesis
    using res copy_out_copy_in [of dst "copy_out (unat (th_ipc_buf_ptr w)) ?n (ip_mem s)"]
    by (simp add: channel_write_resumed_def w3_def)
qed

text \<open>
  C10. A message crosses a channel. A thread writes \<open>n\<close> bytes into its end of an open channel
  nobody waits on: it blocks. Whichever thread the scheduler runs next, if that thread reads from
  the other end it gets exactly the first \<open>min n m\<close> bytes the writer offered, at its buffer and as
  the returned length; the channel has no waiter left, and the writer is ready, queued, and returns
  the same length when it runs again.
\<close>

theorem channel_rendezvous:
  assumes c: "ip_chans s a = Some c" "ch_state c \<noteq> Closed" "ch_peer c = Some b"
    and d: "ip_chans s b = Some d" "ch_state d \<noteq> Closed" "ch_peer d = Some a" "a \<noteq> b"
    and idle: "ch_send_waiters c = replicate MAX_WAITERS None" "ch_recv_waiters d = replicate MAX_WAITERS None"
    and wf: "sched_wf (ip_sched s)" and cur: "sc_running (ip_sched s)" "sc_current (ip_sched s) = Some wi"
    and w: "sc_threads (ip_sched s) ! wi = Some w" "th_ipc_transfer_slots w = [None, None]"
       "get_thread (th_id w) (ip_sched s) = Some wi"
    and src: "src < 2 ^ 64"
  shows "\<exists>s1. channel_write a src n [] s = (Blocks, s1) \<and>
    (\<forall>l0_of r sc ri. schedule l0_of (ip_sched s1) = (r, sc) \<and> r \<noteq> SHalt \<and> sc_current sc = Some ri \<and> ri \<noteq> wi \<longrightarrow>
      (\<exists>hs s2. channel_read b dst m hl (s1\<lparr>ip_sched := sc\<rparr>) = (Returns (Ok (min n m, hs)), s2)
        \<and> copy_out dst (min n m) (ip_mem s2) = copy_out src (min n m) (ip_mem s)
        \<and> ip_chans s2 = ip_chans s \<and> wi \<in> set (queued (ip_sched s2)) \<and> th_state (th s2 wi) = Ready
        \<and> channel_write_resumed wi s2 = Ok (min n m)))"
proof -
  have wl: "wi < MAX_THREADS" using sched_wf_current [OF wf cur(2)] by simp
  have len: "length (sc_threads (ip_sched s)) = MAX_THREADS" by (rule sched_wf_length [OF wf])
  have wfs: "wait_wf (ch_recv_waiters d)" "live_slots (ch_recv_waiters d) = []"
    "wait_wf (ch_send_waiters c)" "live_slots (ch_send_waiters c) = []"
    using idle wait_wf_empty by simp_all
  obtain s1 w1 where s1: "channel_write a src n [] s = (Blocks, s1)" "ip_sched s1 = set_thread wi w1 (ip_sched s)"
    and w1: "w1 = w\<lparr>th_ipc_buf_ptr := word_of_nat src, th_ipc_buf_len := n, th_ipc_actual_len := 0,
             th_state := Blocked, th_ipc_transfer_slots := [None, None]\<rparr>"
    and ch1: "ip_chans s1 = (ip_chans s)(a \<mapsto> c\<lparr>ch_send_waiters := prefix_slots [th_id w] MAX_WAITERS\<rparr>)"
    and mem1: "ip_mem s1 = ip_mem s"
    using channel_write_blocks [OF c d(1,4) wfs(1,2,3) _ wf cur(2) w(1,2), of src n] wfs(4)
    by (auto simp: MAX_WAITERS_def)
  have wf1: "sched_wf (ip_sched s1)"
    unfolding s1(2) by (rule sched_wf_set_thread [OF wf wl w(1)]) (simp add: w1 cur)
  have run1: "sc_running (ip_sched s1)" "sc_current (ip_sched s1) = Some wi" using cur s1(2) by simp_all
  have t1: "sc_threads (ip_sched s1) ! wi = Some w1" using s1(2) wl len by simp
  have id1: "thread_ids (ip_sched s1) = thread_ids (ip_sched s)"
    unfolding s1(2) by (rule thread_ids_set_thread [OF _ w(1)]) (use wl len in \<open>simp_all add: w1\<close>)
  show ?thesis
  proof (intro exI [of _ s1] conjI allI impI s1(1))
    fix l0_of r sc ri
    assume A: "schedule l0_of (ip_sched s1) = (r, sc) \<and> r \<noteq> SHalt \<and> sc_current sc = Some ri \<and> ri \<noteq> wi"
    then have eq: "schedule l0_of (ip_sched s1) = (r, sc)" and r: "r \<noteq> SHalt" "sc_current sc = Some ri" "ri \<noteq> wi"
      by auto
    have wf2: "sched_wf sc" using schedule_spec [OF wf1 run1 eq] by simp
    obtain w2 where w2: "sc_threads sc ! wi = Some w2" "same_message w1 w2" "th_state w2 = Blocked"
      using schedule_keeps [OF wf1 run1 eq r(1) t1] r by (auto simp: tick_thread_state w1)
    obtain rt where rt: "ri < MAX_THREADS" "sc_threads sc ! ri = Some rt" using sched_wf_current [OF wf2 r(2)] by auto
    let ?s = "s1\<lparr>ip_sched := sc\<rparr>"
    have pop: "pop_sender (c\<lparr>ch_send_waiters := prefix_slots [th_id w] MAX_WAITERS\<rparr>) = (Some (th_id w), c)"
      using pop_waiter_step [OF wait_wf_prefix, of "[th_id w]" "th_id w" "[]"] idle
      by (simp add: pop_sender_def MAX_WAITERS_def prefix_slots_def)
    have get2: "get_thread (th_id w) sc = Some wi"
      using w(3) id1 schedule_ids [OF wf1 run1 eq r(1)] by (simp add: get_thread_ids)
    have ids: "th_id w2 = th_id w" and tb: "unat (th_ipc_buf_ptr w2) = src" "th_ipc_buf_len w2 = n"
      and sl: "th_ipc_transfer_slots w2 = [None, None]"
      using w2 w1 src by (simp_all add: same_message_def unsigned_of_nat take_bit_nat_eq_self)
    let ?s' = "put_chan a c ?s"
    obtain x s2 where rf: "receive_from ri wi dst m hl ?s' = (x, s2)" by (metis prod.exhaust)
    have "channel_read b dst m hl ?s = (Returns x, s2)"
      using d pop get2 rf ch1 r rt c by (simp add: channel_read_def get_current_thread_def put_chan_def)
    moreover have "ip_chans ?s' = ip_chans s" "ip_mem ?s' = ip_mem s" "ip_sched ?s' = sc"
      using ch1 c mem1 by (simp_all add: put_chan_def fun_upd_idem)
    ultimately show "\<exists>hs s2. channel_read b dst m hl ?s = (Returns (Ok (min n m, hs)), s2)
        \<and> copy_out dst (min n m) (ip_mem s2) = copy_out src (min n m) (ip_mem s)
        \<and> ip_chans s2 = ip_chans s \<and> wi \<in> set (queued (ip_sched s2)) \<and> th_state (th s2 wi) = Ready
        \<and> channel_write_resumed wi s2 = Ok (min n m)"
      using receive_from_spec [of ?s' w2 wi ri rt dst m hl x s2] wf2 get2 ids w2 sl rt r(3) rf tb by auto
  qed
qed


lemma schedule_picks:
  assumes wf: "sched_wf s" and run: "sc_running s" "sc_current s = Some prev"
    and pick: "pick_next (snd (schedule_out prev s)) = Some n"
    and eq: "schedule l0_of s = (r, s')"
  shows "r \<noteq> SHalt \<and> sc_current s' = Some n"
proof -
  obtain t where t: "sc_threads s ! prev = Some t" using sched_wf_current [OF wf run(2)] by auto
  obtain st s1 where out: "schedule_out prev s = (st, s1)" by (metis prod.exhaust)
  note so = schedule_out_spec [OF wf run(2) t out]
  obtain qs where "pop_next_from_all_queues s1 = (Ok (pick_next s1), s1\<lparr>sc_queues := qs\<rparr>)"
    using so by (elim conjE) (rule pop_next_spec)
  then have "r \<noteq> SHalt" using eq run out pick by (auto simp: schedule_def Let_def split: option.splits if_splits)
  then show ?thesis using schedule_spec [OF wf run eq] pick by (cases r) auto
qed

text \<open>Two threads, the first running and the second queued.\<close>

definition demo_thread :: "nat \<Rightarrow> thread_state \<Rightarrow> thread" where
  "demo_thread i st = (make_thread ''t'' NormalPrio 0 0 context_default i)\<lparr>th_state := st\<rparr>"

definition demo_sched :: sched where
  "demo_sched = \<lparr>sc_threads = Some (demo_thread 7 Running) # Some (demo_thread 8 Ready) # replicate 14 None,
     sc_queues = [tq_new, tq_new, \<lparr>tq_items = prefix_slots [1] MAX_THREADS, tq_count = 1\<rparr>, tq_new, tq_new],
     sc_current = Some 0, sc_running = True, sc_ttbr0 = None\<rparr>"

definition demo_channel :: "nat \<Rightarrow> channel" where
  "demo_channel p = \<lparr>ch_id = 1, ch_state = Open, ch_read_refs = 1, ch_write_refs = 1, ch_peer = Some p,
     ch_send_waiters = replicate MAX_WAITERS None, ch_recv_waiters = replicate MAX_WAITERS None\<rparr>"

definition demo_ipc :: ipc where
  "demo_ipc = \<lparr>ip_sched = demo_sched, ip_tables = (\<lambda>_. []), ip_hctr = 1,
     ip_chans = [1 \<mapsto> demo_channel 2, 2 \<mapsto> demo_channel 1], ip_next_chan = 3, ip_chan_ctr = 3,
     ip_mem = (\<lambda>a. word_of_nat a),
     ip_kmem = demo_kmem, ip_services = replicate MAX_SERVICES None, ip_panic = False\<rparr>"

lemma demo_queued: "queued demo_sched = [1]"
  by (simp add: queued_def demo_sched_def tq_list_def tq_new_def)

lemma demo_slot: "sc_threads demo_sched ! i = Some t \<Longrightarrow> i < MAX_THREADS
   \<Longrightarrow> i = 0 \<and> t = demo_thread 7 Running \<or> i = 1 \<and> t = demo_thread 8 Ready"
  by (auto simp: demo_sched_def nth_Cons MAX_THREADS_def split: nat.splits)

lemma demo_wf: "sched_wf demo_sched"
proof (rule sched_wfI)
  show "queues_wf demo_sched"
    using demo_queued tq_new_wf
    by (simp add: queues_wf_def demo_sched_def PRIORITY_LEVELS_def MAX_THREADS_def tq_wf_def tq_list_def)
next
  fix i assume "i \<in> set (queued demo_sched)"
  then show "\<exists>t. sc_threads demo_sched ! i = Some t \<and> (th_state t = Ready \<or> th_state t = Dead)"
    using demo_queued by (auto simp: demo_sched_def demo_thread_def)
next
  fix c assume "sc_current demo_sched = Some c"
  then show "c < MAX_THREADS \<and> sc_threads demo_sched ! c \<noteq> None \<and> c \<notin> set (queued demo_sched)"
    using demo_queued by (auto simp: demo_sched_def MAX_THREADS_def)
next
  fix i t assume "i < MAX_THREADS" "sc_threads demo_sched ! i = Some t" "th_state t = Running"
  then show "sc_current demo_sched = Some i"
    using demo_slot [of i t] by (auto simp: demo_sched_def demo_thread_def)
qed

lemma demo_writer: "sc_threads demo_sched ! 0 = Some (demo_thread 7 Running)"
  "th_ipc_transfer_slots (demo_thread 7 Running) = [None, None]"
  "get_thread (th_id (demo_thread 7 Running)) demo_sched = Some 0"
  by (simp_all add: demo_sched_def demo_thread_def make_thread_def get_thread_def find_slot_def)

lemma demo_write_sched:
  assumes "channel_write 1 100 3 [] demo_ipc = (Blocks, s1)"
  shows "sched_wf (ip_sched s1)" "sc_running (ip_sched s1)" "sc_current (ip_sched s1) = Some 0"
    "pick_next (snd (schedule_out 0 (ip_sched s1))) = Some 1"
proof -
  obtain w1 where s1: "ip_sched s1 = set_thread 0 w1 demo_sched" "th_state w1 = Blocked"
    using channel_write_blocks [of demo_ipc 1 "demo_channel 2" 2 "demo_channel 1" 0 "demo_thread 7 Running" 100 3] assms
      demo_wf demo_writer wait_wf_empty
    by (auto simp: demo_ipc_def demo_channel_def demo_sched_def MAX_WAITERS_def)
  show wf: "sched_wf (ip_sched s1)" unfolding s1(1)
    by (rule sched_wf_set_thread [OF demo_wf _ demo_writer(1)]) (simp_all add: MAX_THREADS_def s1 demo_sched_def)
  show "sc_running (ip_sched s1)" and cur: "sc_current (ip_sched s1) = Some 0" by (simp_all add: s1 demo_sched_def)
  have t: "sc_threads (ip_sched s1) ! 0 = Some w1" by (simp add: s1 demo_sched_def)
  obtain st s2 where out: "schedule_out 0 (ip_sched s1) = (st, s2)" by (metis prod.exhaust)
  note so = schedule_out_spec [OF wf cur t out]
  have "set (queued s2) = {1}" "distinct (queued s2)"
    using so s1 demo_queued by (auto simp: tick_thread_state queues_wf_def)
  then have "queued s2 = [1]"
    by (metis distinct_card card_1_singleton_iff length_Suc_conv length_0_conv One_nat_def list.set_intros(1) singletonD list.sel(1) card.empty is_singletonI is_singleton_altdef)
  moreover have "alive_at s2 1" using so s1 by (simp add: alive_at_def alive_def demo_sched_def demo_thread_def)
  ultimately show "pick_next (snd (schedule_out 0 (ip_sched s1))) = Some 1" by (simp add: out pick_next_def)
qed

theorem channel_rendezvous_witness:
  "\<exists>s1 r sc hs s2. channel_write 1 100 3 [] demo_ipc = (Blocks, s1) \<and> schedule (\<lambda>_. None) (ip_sched s1) = (r, sc)
    \<and> sc_current sc = Some 1
    \<and> channel_read 2 200 2 0 (s1\<lparr>ip_sched := sc\<rparr>) = (Returns (Ok (2, hs)), s2)
    \<and> copy_out 200 2 (ip_mem s2) = [100, 101] \<and> channel_write_resumed 0 s2 = Ok 2"
proof -
  have wf: "sched_wf (ip_sched demo_ipc)" using demo_wf by (simp add: demo_ipc_def)
  obtain s1 where s1: "channel_write 1 100 3 [] demo_ipc = (Blocks, s1)"
    and all: "\<forall>l0_of r sc ri. schedule l0_of (ip_sched s1) = (r, sc) \<and> r \<noteq> SHalt \<and> sc_current sc = Some ri \<and> ri \<noteq> 0 \<longrightarrow>
      (\<exists>hs s2. channel_read 2 200 2 0 (s1\<lparr>ip_sched := sc\<rparr>) = (Returns (Ok (min 3 2, hs)), s2)
        \<and> copy_out 200 (min 3 2) (ip_mem s2) = copy_out 100 (min 3 2) (ip_mem demo_ipc)
        \<and> ip_chans s2 = ip_chans demo_ipc \<and> 0 \<in> set (queued (ip_sched s2)) \<and> th_state (th s2 0) = Ready
        \<and> channel_write_resumed 0 s2 = Ok (min 3 2))"
    using channel_rendezvous [of demo_ipc 1 "demo_channel 2" 2 "demo_channel 1" 0 "demo_thread 7 Running" 100 3 200 2 0]
      wf demo_writer
    by (auto simp: demo_ipc_def demo_channel_def demo_sched_def)
  note d = demo_write_sched [OF s1]
  obtain r sc where sc: "schedule (\<lambda>_. None) (ip_sched s1) = (r, sc)" by (metis prod.exhaust)
  have "r \<noteq> SHalt \<and> sc_current sc = Some 1" by (rule schedule_picks [OF d sc])
  moreover from this obtain hs s2 where
    "channel_read 2 200 2 0 (s1\<lparr>ip_sched := sc\<rparr>) = (Returns (Ok (2, hs)), s2)"
    "copy_out 200 2 (ip_mem s2) = copy_out 100 2 (ip_mem demo_ipc)" "channel_write_resumed 0 s2 = Ok 2"
    using all [rule_format, of "\<lambda>_. None" r sc 1] sc by auto
  moreover have "copy_out 100 2 (ip_mem demo_ipc) = [100, 101]"
    by (simp add: demo_ipc_def copy_out_def numeral_2_eq_2)
  ultimately show ?thesis using s1 sc by metis
qed

section \<open>Closing\<close>

text \<open>A scheduler whose current thread, if any, is running: the state every kernel call starts in.\<close>

definition calling :: "sched \<Rightarrow> bool" where
  "calling s \<longleftrightarrow> sched_wf s \<and> (\<forall>c t. sc_current s = Some c \<and> sc_threads s ! c = Some t \<longrightarrow> th_state t = Running)"

lemma calling_wake: "calling s \<Longrightarrow> calling (wake_thread tid s)"
  using wake_thread_wf [of s tid] unfolding calling_def by force

definition woken :: "thread \<Rightarrow> thread \<Rightarrow> bool" where
  "woken t t' \<longleftrightarrow> t' = t \<or> (th_state t = Blocked \<or> th_state t = Sleeping) \<and> t' = t\<lparr>th_state := Ready\<rparr>"

lemma woken_trans: "woken t u \<Longrightarrow> woken u v \<Longrightarrow> woken t v"
  by (auto simp: woken_def)

lemma wake_thread_slot:
  assumes "calling s" "sc_threads s ! j = Some t"
  shows "\<exists>t'. sc_threads (wake_thread tid s) ! j = Some t' \<and> woken t t'"
proof (cases "find_slot (wakeable tid) (sc_threads s)")
  case None
  then show ?thesis using assms by (auto simp: wake_thread_def woken_def)
next
  case (Some i)
  from find_slotD [OF Some] obtain u where i: "i < length (sc_threads s)" "sc_threads s ! i = Some u" "wakeable tid u"
    by auto
  have wf: "sched_wf s" using assms by (simp add: calling_def)
  have lt: "i < MAX_THREADS" using i(1) sched_wf_length [OF wf] by simp
  have "i \<notin> set (queued s)" using sched_wf_queued [OF wf, of i] i by (auto simp: wakeable_def)
  then obtain qs where "requeue_current i (set_thread i (u\<lparr>th_state := Ready\<rparr>) s) = (set_thread i (u\<lparr>th_state := Ready\<rparr>) s)\<lparr>sc_queues := qs\<rparr>"
    using requeue_spec [of "set_thread i (u\<lparr>th_state := Ready\<rparr>) s" i] lt i sched_wf_queues [OF wf] by auto
  then have "sc_threads (wake_thread tid s) = (sc_threads s)[i := Some (u\<lparr>th_state := Ready\<rparr>)]"
    using Some i by (simp add: wake_thread_def)
  then show ?thesis using assms i by (cases "j = i") (auto simp: woken_def wakeable_def)
qed

lemma wake_thread_ids: "calling s \<Longrightarrow> thread_ids (wake_thread tid s) = thread_ids s"
proof -
  assume c: "calling s"
  have none: "sc_threads (wake_thread tid s) ! j = None" if "sc_threads s ! j = None" "j < MAX_THREADS" for j
  proof (cases "find_slot (wakeable tid) (sc_threads s)")
    case None
    then show ?thesis using that by (simp add: wake_thread_def)
  next
    case (Some i)
    from find_slotD [OF this] that have "j \<noteq> i" by auto
    then show ?thesis using Some that find_slotD [OF Some]
      by (auto simp: wake_thread_def requeue_current_def push_level_def split: option.splits prod.splits)
  qed
  have len: "length (sc_threads s) = MAX_THREADS" "length (sc_threads (wake_thread tid s)) = MAX_THREADS"
    using c calling_wake [OF c, of tid] by (auto simp: calling_def intro: sched_wf_length)
  have "map_option th_id (sc_threads (wake_thread tid s) ! j) = map_option th_id (sc_threads s ! j)"
    if "j < MAX_THREADS" for j
  proof (cases "sc_threads s ! j")
    case None
    then show ?thesis using none that by simp
  next
    case (Some t)
    from wake_thread_slot [OF c Some, of tid] Some show ?thesis by (auto simp: woken_def)
  qed
  then show ?thesis using len by (simp add: thread_ids_def list_eq_iff_nth_eq)
qed

primrec wake_list :: "nat list \<Rightarrow> sched \<Rightarrow> sched" where
  "wake_list [] s = s"
| "wake_list (tid # ts) s = wake_list ts (wake_thread tid s)"

lemma wake_list_append: "wake_list (xs @ ys) s = wake_list ys (wake_list xs s)"
  by (induction xs arbitrary: s) auto

primrec flatten_waiters :: "(nat option \<times> nat option) list \<Rightarrow> nat list" where
  "flatten_waiters [] = []"
| "flatten_waiters (w # ws) = live_slots [fst w, snd w] @ flatten_waiters ws"

lemma wake_all_list: "wake_all ws s = wake_list (flatten_waiters ws) s"
  by (induction ws s rule: wake_all.induct) (auto split: option.splits)

lemma set_flatten_zip:
  "length xs = length ys \<Longrightarrow> set (flatten_waiters (zip xs ys)) = set (live_slots xs) \<union> set (live_slots ys)"
  by (induction xs ys rule: list_induct2) (auto split: option.splits)

lemma wake_list_spec:
  assumes "calling s"
  shows "calling (wake_list ts s) \<and> thread_ids (wake_list ts s) = thread_ids s
    \<and> (\<forall>j t. sc_threads s ! j = Some t \<longrightarrow> (\<exists>t'. sc_threads (wake_list ts s) ! j = Some t' \<and> woken t t'
         \<and> (th_state t = Blocked \<and> th_id t \<in> set ts \<and> get_thread (th_id t) s = Some j \<longrightarrow> th_state t' = Ready)))"
  using assms
proof (induction ts arbitrary: s)
  case Nil
  then show ?case by (simp add: woken_def)
next
  case (Cons tid ts)
  let ?s = "wake_thread tid s"
  have c: "calling ?s" by (rule calling_wake [OF Cons.prems])
  have ids: "thread_ids ?s = thread_ids s" by (rule wake_thread_ids [OF Cons.prems])
  note IH = Cons.IH [OF c]
  have "\<exists>t'. sc_threads (wake_list ts ?s) ! j = Some t' \<and> woken t t'
         \<and> (th_state t = Blocked \<and> th_id t \<in> set (tid # ts) \<and> get_thread (th_id t) s = Some j \<longrightarrow> th_state t' = Ready)"
    if t: "sc_threads s ! j = Some t" for j t
  proof -
    obtain t1 where t1: "sc_threads ?s ! j = Some t1" "woken t t1"
      using wake_thread_slot [OF Cons.prems t, of tid] by auto
    obtain t2 where t2: "sc_threads (wake_list ts ?s) ! j = Some t2" "woken t1 t2"
      "th_state t1 = Blocked \<and> th_id t1 \<in> set ts \<and> get_thread (th_id t1) ?s = Some j \<longrightarrow> th_state t2 = Ready"
      using IH t1(1) by blast
    have get: "get_thread (th_id t) ?s = get_thread (th_id t) s" by (simp add: get_thread_ids ids)
    have id1: "th_id t1 = th_id t" using t1(2) by (auto simp: woken_def)
    have "th_state t2 = Ready"
      if b: "th_state t = Blocked" "th_id t \<in> set (tid # ts)" "get_thread (th_id t) s = Some j"
    proof (cases "th_state t1 = Ready")
      case True
      then show ?thesis using t2(2) by (auto simp: woken_def)
    next
      case False
      then have "t1 = t" using t1(2) by (auto simp: woken_def)
      moreover have "tid \<noteq> th_id t"
      proof
        assume "tid = th_id t"
        then obtain qs where "?s = (set_thread j (t\<lparr>th_state := Ready\<rparr>) s)\<lparr>sc_queues := qs\<rparr>"
          using wake_thread_effect(1) [of s tid j t] Cons.prems b t by (auto simp: calling_def)
        moreover have "j < length (sc_threads s)"
          using find_slotD [OF b(3) [unfolded get_thread_def]] by simp
        ultimately show False using t1(1) False by auto
      qed
      ultimately show ?thesis using b t2(3) get by auto
    qed
    then show ?thesis using t2(1) woken_trans [OF t1(2) t2(2)] by blast
  qed
  then show ?case using IH ids by simp
qed

lemma wake_waiters_spec:
  assumes c: "ip_chans s a = Some c" "length (ch_send_waiters c) = length (ch_recv_waiters c)"
  obtains ts where "set ts = set (live_slots (ch_send_waiters c)) \<union> set (live_slots (ch_recv_waiters c))"
    "wake_waiters a s = put_chan a (c\<lparr>ch_send_waiters := replicate MAX_WAITERS None, ch_recv_waiters := replicate MAX_WAITERS None\<rparr>)
       (upd_sched (wake_list ts) s)"
  using that [OF set_flatten_zip [OF c(2)]] c(1) by (simp add: wake_waiters_def wake_all_list [abs_def])

definition closed_end :: "channel \<Rightarrow> channel" where
  "closed_end c = c\<lparr>ch_state := Closed, ch_peer := None, ch_send_waiters := replicate MAX_WAITERS None,
     ch_recv_waiters := replicate MAX_WAITERS None\<rparr>"

definition waits_on :: "channel \<Rightarrow> nat set" where
  "waits_on c = set (live_slots (ch_send_waiters c)) \<union> set (live_slots (ch_recv_waiters c))"

lemma channel_close_eq:
  assumes c: "ip_chans s a = Some c" "ch_peer c = Some b" "length (ch_send_waiters c) = length (ch_recv_waiters c)"
    and d: "ip_chans s b = Some d" "length (ch_send_waiters d) = length (ch_recv_waiters d)" "a \<noteq> b"
  obtains ts where "set ts = waits_on c \<union> waits_on d"
    "channel_close a s = s\<lparr>ip_sched := wake_list ts (ip_sched s),
       ip_chans := (ip_chans s)(a \<mapsto> closed_end c, b \<mapsto> closed_end d)\<rparr>"
proof -
  let ?s1 = "put_chan a (c\<lparr>ch_state := Closed\<rparr>) s"
  obtain ts where ts: "set ts = waits_on c"
    and w1: "wake_waiters a ?s1 = put_chan a (c\<lparr>ch_state := Closed, ch_send_waiters := replicate MAX_WAITERS None,
        ch_recv_waiters := replicate MAX_WAITERS None\<rparr>) (upd_sched (wake_list ts) ?s1)"
    using wake_waiters_spec [of ?s1 a "c\<lparr>ch_state := Closed\<rparr>"] c(3) by (auto simp: put_chan_def waits_on_def)
  let ?s2 = "put_chan a (closed_end c) (upd_sched (wake_list ts) s)"
  let ?d = "d\<lparr>ch_peer := None, ch_state := Closed\<rparr>"
  obtain us where us: "set us = waits_on d"
    and w2: "wake_waiters b (put_chan b ?d ?s2) = put_chan b (?d\<lparr>ch_send_waiters := replicate MAX_WAITERS None,
        ch_recv_waiters := replicate MAX_WAITERS None\<rparr>) (upd_sched (wake_list us) (put_chan b ?d ?s2))"
    using wake_waiters_spec [of "put_chan b ?d ?s2" b ?d] d(2) by (auto simp: put_chan_def waits_on_def)
  let ?c1 = "c\<lparr>ch_state := Closed, ch_send_waiters := replicate MAX_WAITERS None, ch_recv_waiters := replicate MAX_WAITERS None\<rparr>"
  have ends: "?c1\<lparr>ch_peer := None\<rparr> = closed_end c"
    "?d\<lparr>ch_send_waiters := replicate MAX_WAITERS None, ch_recv_waiters := replicate MAX_WAITERS None\<rparr> = closed_end d"
    by (simp_all add: closed_end_def)
  have s2: "put_chan a (?c1\<lparr>ch_peer := None\<rparr>) (wake_waiters a ?s1) = ?s2"
    unfolding w1 ends by (simp add: put_chan_def upd_sched_def)
  have w1a: "ip_chans (wake_waiters a ?s1) a = Some ?c1" unfolding w1 by (simp add: put_chan_def)
  have s2b: "ip_chans ?s2 b = Some d" using d by (simp add: put_chan_def upd_sched_def)
  have "channel_close a s = wake_waiters b (put_chan b ?d ?s2)"
    unfolding channel_close_def Let_def c option.case w1a s2 s2b ..
  also have "\<dots> = put_chan b (closed_end d) (upd_sched (wake_list us) ?s2)"
    unfolding w2 ends by (simp add: put_chan_def upd_sched_def)
  finally have "channel_close a s = put_chan b (closed_end d) (upd_sched (wake_list us) ?s2)" .
  then have "channel_close a s = s\<lparr>ip_sched := wake_list (ts @ us) (ip_sched s),
       ip_chans := (ip_chans s)(a \<mapsto> closed_end c, b \<mapsto> closed_end d)\<rparr>"
    by (simp add: put_chan_def upd_sched_def wake_list_append)
  then show ?thesis using that [of "ts @ us"] ts us by simp
qed

text \<open>
  C29. Closing one end of a channel closes both and strands nobody. Both ends become closed and
  lose their peer and waiters; every thread that was blocked in a read or a write on either end is
  ready again, no other field of any thread changes and no thread stops being scheduled; and every
  later read or write on either end returns \<open>PeerClosed\<close> and changes nothing. A reader woken this
  way keeps its received length \<open>0\<close>, so its call returns \<open>Ok(0)\<close>, as for an empty message.
\<close>

theorem channel_close_wakes_everyone:
  assumes c: "ip_chans s a = Some c" "ch_peer c = Some b" "length (ch_send_waiters c) = length (ch_recv_waiters c)"
    and d: "ip_chans s b = Some d" "length (ch_send_waiters d) = length (ch_recv_waiters d)" "a \<noteq> b"
    and sched: "calling (ip_sched s)"
  shows "let s' = channel_close a s in
    calling (ip_sched s') \<and> ip_chans s' = (ip_chans s)(a \<mapsto> closed_end c, b \<mapsto> closed_end d)
    \<and> (\<forall>e src dst n m hl. e = a \<or> e = b \<longrightarrow> channel_read e dst m hl s' = (Returns (Err PeerClosed), s')
         \<and> channel_write e src n [] s' = (Returns (Err PeerClosed), s'))
    \<and> (\<forall>i t. sc_threads (ip_sched s) ! i = Some t \<longrightarrow>
         (\<exists>t'. sc_threads (ip_sched s') ! i = Some t' \<and> woken t t'
            \<and> (th_state t = Blocked \<and> th_id t \<in> waits_on c \<union> waits_on d \<and> get_thread (th_id t) (ip_sched s) = Some i
                \<longrightarrow> th_state t' = Ready \<and> (\<exists>hs s''. channel_read_resumed i 0 s' = (Ok (th_ipc_actual_len t, hs), s'')))))"
proof -
  obtain ts where ts: "set ts = waits_on c \<union> waits_on d"
    and eq: "channel_close a s = s\<lparr>ip_sched := wake_list ts (ip_sched s),
       ip_chans := (ip_chans s)(a \<mapsto> closed_end c, b \<mapsto> closed_end d)\<rparr>"
    by (rule channel_close_eq [OF c d])
  let ?s = "channel_close a s"
  note w = wake_list_spec [OF sched, of ts]
  have cl: "\<exists>x. ip_chans ?s e = Some x \<and> ch_state x = Closed" if "e = a \<or> e = b" for e
    using that d(3) by (auto simp: eq closed_end_def)
  have "channel_read e dst m hl ?s = (Returns (Err PeerClosed), ?s) \<and> channel_write e src n [] ?s = (Returns (Err PeerClosed), ?s)"
    if "e = a \<or> e = b" for e src dst n m hl
    using cl [OF that] by (auto simp: channel_read_def channel_write_def)
  moreover have "\<exists>t'. sc_threads (ip_sched ?s) ! i = Some t' \<and> woken t t'
            \<and> (th_state t = Blocked \<and> th_id t \<in> waits_on c \<union> waits_on d \<and> get_thread (th_id t) (ip_sched s) = Some i
                \<longrightarrow> th_state t' = Ready \<and> (\<exists>hs s''. channel_read_resumed i 0 ?s = (Ok (th_ipc_actual_len t, hs), s'')))"
    if t: "sc_threads (ip_sched s) ! i = Some t" for i t
  proof -
    obtain t' where t': "sc_threads (ip_sched ?s) ! i = Some t'" "woken t t'"
      "th_state t = Blocked \<and> th_id t \<in> set ts \<and> get_thread (th_id t) (ip_sched s) = Some i \<longrightarrow> th_state t' = Ready"
      using w t by (auto simp: eq)
    have "th_ipc_actual_len (th ?s i) = th_ipc_actual_len t" using t' by (auto simp: th_def woken_def)
    then have "\<exists>hs s''. channel_read_resumed i 0 ?s = (Ok (th_ipc_actual_len t, hs), s'')"
      by (simp add: channel_read_resumed_def Let_def split: prod.splits)
    then show ?thesis using t' ts by auto
  qed
  ultimately show ?thesis using w by (simp add: Let_def eq)
qed

text \<open>A thread that waits on the other end of the channel.\<close>

definition demo_waiting :: ipc where
  "demo_waiting = demo_ipc\<lparr>ip_sched := set_thread 1 (demo_thread 8 Blocked) (demo_sched\<lparr>sc_queues := replicate PRIORITY_LEVELS tq_new\<rparr>),
     ip_chans := [1 \<mapsto> demo_channel 2, 2 \<mapsto> (demo_channel 1)\<lparr>ch_recv_waiters := prefix_slots [8] MAX_WAITERS\<rparr>]\<rparr>"

lemma demo_waiting_slot: "sc_threads (ip_sched demo_waiting) ! i = Some t \<Longrightarrow> i < MAX_THREADS
   \<Longrightarrow> i = 0 \<and> t = demo_thread 7 Running \<or> i = 1 \<and> t = demo_thread 8 Blocked"
  by (auto simp: demo_waiting_def demo_sched_def nth_Cons MAX_THREADS_def split: nat.splits)

lemma demo_waiting_calling: "calling (ip_sched demo_waiting)"
proof -
  have q: "queued (ip_sched demo_waiting) = []"
    by (simp add: demo_waiting_def queued_def numeral_eq_Suc PRIORITY_LEVELS_def tq_list_def tq_new_def)
  have "queues_wf (ip_sched demo_waiting)"
    using tq_new_wf q
    by (simp add: queues_wf_def demo_waiting_def demo_sched_def MAX_THREADS_def PRIORITY_LEVELS_def list_all_iff)
  then have "sched_wf (ip_sched demo_waiting)"
  proof (rule sched_wfI)
    fix c assume "sc_current (ip_sched demo_waiting) = Some c"
    then show "c < MAX_THREADS \<and> sc_threads (ip_sched demo_waiting) ! c \<noteq> None \<and> c \<notin> set (queued (ip_sched demo_waiting))"
      using q by (auto simp: demo_waiting_def demo_sched_def MAX_THREADS_def)
  next
    fix i t assume "i < MAX_THREADS" "sc_threads (ip_sched demo_waiting) ! i = Some t" "th_state t = Running"
    then show "sc_current (ip_sched demo_waiting) = Some i"
      using demo_waiting_slot [of i t] by (auto simp: demo_waiting_def demo_sched_def demo_thread_def)
  qed (use q in auto)
  moreover have "th_state t = Running"
    if "sc_current (ip_sched demo_waiting) = Some c" "sc_threads (ip_sched demo_waiting) ! c = Some t" for c t
    using that by (auto simp: demo_waiting_def demo_sched_def demo_thread_def)
  ultimately show ?thesis by (simp add: calling_def)
qed

theorem channel_close_wakes_everyone_witness:
  "\<exists>t hs s''. sc_threads (ip_sched demo_waiting) ! 1 = Some (demo_thread 8 Blocked)
    \<and> sc_threads (ip_sched (channel_close 1 demo_waiting)) ! 1 = Some t \<and> th_state t = Ready
    \<and> channel_read_resumed 1 0 (channel_close 1 demo_waiting) = (Ok (0, hs), s'')"
proof -
  let ?d = "(demo_channel 1)\<lparr>ch_recv_waiters := prefix_slots [8] MAX_WAITERS\<rparr>"
  have ch: "ip_chans demo_waiting 1 = Some (demo_channel 2)" "ip_chans demo_waiting 2 = Some ?d"
    by (simp_all add: demo_waiting_def)
  have len: "ch_peer (demo_channel 2) = Some 2"
    "length (ch_send_waiters (demo_channel 2)) = length (ch_recv_waiters (demo_channel 2))"
    "length (ch_send_waiters ?d) = length (ch_recv_waiters ?d)"
    by (simp_all add: demo_channel_def MAX_WAITERS_def prefix_slots_def)
  have t: "sc_threads (ip_sched demo_waiting) ! 1 = Some (demo_thread 8 Blocked)"
    by (simp add: demo_waiting_def demo_sched_def)
  have st: "th_state (demo_thread 8 Blocked) = Blocked" "th_ipc_actual_len (demo_thread 8 Blocked) = 0"
    "th_id (demo_thread 8 Blocked) = 8"
    by (simp_all add: demo_thread_def make_thread_def)
  have w: "th_id (demo_thread 8 Blocked) \<in> waits_on (demo_channel 2) \<union> waits_on ?d"
    by (simp add: waits_on_def demo_thread_def make_thread_def prefix_slots_def)
  have g: "get_thread (th_id (demo_thread 8 Blocked)) (ip_sched demo_waiting) = Some 1"
    by (simp add: demo_waiting_def demo_sched_def get_thread_def find_slot_def demo_thread_def make_thread_def)
  have ne: "(1::nat) \<noteq> 2" by simp
  note cl = channel_close_wakes_everyone [OF ch(1) len(1,2) ch(2) len(3) ne demo_waiting_calling, unfolded Let_def,
      THEN conjunct2, THEN conjunct2, THEN conjunct2, THEN spec, THEN spec, THEN mp, OF t]
  have "th_state (demo_thread 8 Blocked) = Blocked
      \<and> th_id (demo_thread 8 Blocked) \<in> waits_on (demo_channel 2) \<union> waits_on ?d
      \<and> get_thread (th_id (demo_thread 8 Blocked)) (ip_sched demo_waiting) = Some 1"
    using st(1) w g by blast
  with cl t st(2) show ?thesis by metis
qed

section \<open>Names\<close>

text \<open>
  The service registry is a partial map from names to channels with a capacity of eight.
  Starting from the empty registry, any sequence of registrations under distinct names that all
  succeed leaves exactly those bindings; a lookup of a valid name returns its channel or
  \<open>NotFound\<close>; a second registration of a bound name fails with \<open>AlreadyExists\<close> and changes nothing,
  and one in a full registry with \<open>NoMemory\<close>.
\<close>

theorem registry_is_map:
  assumes "distinct (map fst kvs)" and "put_all reg_put kvs (replicate MAX_SERVICES None) = Some reg"
  shows "(\<forall>name. valid_name name \<longrightarrow> lookup_service name reg
           = (case map_of (rev kvs) name of None \<Rightarrow> Err NotFound | Some ch \<Rightarrow> Ok ch))
    \<and> (\<forall>name ch ch'. valid_name name \<and> map_of (rev kvs) name = Some ch
         \<longrightarrow> register_service name ch' reg = (Err AlreadyExists, reg))
    \<and> (\<forall>name ch. valid_name name \<and> map_of (rev kvs) name = None \<and> first_free reg = None
         \<longrightarrow> register_service name ch reg = (Err NoMemory, reg))"
proof -
  have wf: "reg_wf (replicate MAX_SERVICES None)"
    by (simp add: reg_wf_def distinct_keys_def)
  have empty: "reg_lookup (replicate MAX_SERVICES None) = (\<lambda>_. None)"
    by (simp add: fun_eq_iff reg_lookup_None find_slot_None)
  have r: "reg_lookup reg = map_of (rev kvs)"
    using services.lookup_put_all [OF wf assms(1) _ assms(2)] empty by simp
  have "lookup_service name reg = (case map_of (rev kvs) name of None \<Rightarrow> Err NotFound | Some ch \<Rightarrow> Ok ch)"
    if "valid_name name" for name
    using lookup_service_eq [OF that] r by simp
  moreover have "register_service name ch' reg = (Err AlreadyExists, reg)"
    if "valid_name name" "map_of (rev kvs) name = Some ch" for name ch ch'
  proof -
    have "find_slot (\<lambda>e. entry_name e = name) reg \<noteq> None" using that(2) r reg_lookup_None [of reg name] by simp
    then show ?thesis using that(1) by (auto simp: register_service_def valid_name_def)
  qed
  moreover have "register_service name ch reg = (Err NoMemory, reg)"
    if "valid_name name" "map_of (rev kvs) name = None" "first_free reg = None" for name ch
  proof -
    have "find_slot (\<lambda>e. entry_name e = name) reg = None" using that(2) r reg_lookup_None [of reg name] by simp
    then show ?thesis using that by (auto simp: register_service_def valid_name_def)
  qed
  ultimately show ?thesis by blast
qed

theorem registry_is_map_witness:
  "\<exists>reg. put_all reg_put [([1], 5), ([2, 3], 6)] (replicate MAX_SERVICES None) = Some reg
     \<and> lookup_service [2, 3] reg = Ok 6 \<and> lookup_service [9] reg = Err NotFound
     \<and> register_service [1] 7 reg = (Err AlreadyExists, reg)"
proof -
  have "put_all reg_put [([1], 5), ([2, 3], 6)] (replicate MAX_SERVICES None) \<noteq> None"
    by (simp add: reg_put_def register_service_def find_slot_def first_free_def entry_name_def MAX_SERVICES_def
        numeral_eq_Suc)
  then obtain reg where reg: "put_all reg_put [([1], 5), ([2, 3], 6)] (replicate MAX_SERVICES None) = Some reg" by blast
  from registry_is_map [OF _ reg] have
    "lookup_service [2, 3] reg = Ok 6 \<and> lookup_service [9] reg = Err NotFound
     \<and> register_service [1] 7 reg = (Err AlreadyExists, reg)"
    by (auto simp: valid_name_def)
  with reg show ?thesis by blast
qed

text \<open>
  A name outlives its channel. Dropping a registered endpoint frees the heap object, but the
  registry has no operation that removes an entry: the lookup still answers \<open>Ok\<close> with the address
  of an endpoint that no longer exists.
\<close>

theorem registry_dangles:
  assumes "reg_wf (ip_services s)" and "register_service name ch (ip_services s) = (Ok x, reg)"
  shows "let s' = drop_channel ch (s\<lparr>ip_services := reg\<rparr>)
    in lookup_service name (ip_services s') = Ok ch \<and> ip_chans s' ch = None"
proof -
  note r = register_OkD [OF assms]
  have keep: "ip_services (wake_waiters a t) = ip_services t" "ip_services (put_chan a c t) = ip_services t" for a c t
    by (simp_all add: wake_waiters_def put_chan_def upd_sched_def split: option.splits)
  have "ip_services (channel_close ch t) = ip_services t" for t
    by (simp add: channel_close_def keep Let_def split: option.splits)
  then have "ip_services (drop_channel ch (s\<lparr>ip_services := reg\<rparr>)) = reg"
    by (simp add: drop_channel_def Let_def)
  then show ?thesis using lookup_service_eq [OF r(2), of reg] r(4) by (simp add: drop_channel_def Let_def)
qed

theorem registry_dangles_witness:
  "\<exists>reg s'. register_service [7] 1 (ip_services demo_ipc) = (Ok (), reg) \<and> ip_chans demo_ipc 1 \<noteq> None
     \<and> s' = drop_channel 1 (demo_ipc\<lparr>ip_services := reg\<rparr>) \<and> lookup_service [7] (ip_services s') = Ok 1
     \<and> ip_chans s' 1 = None"
proof -
  have wf: "reg_wf (ip_services demo_ipc)" by (simp add: reg_wf_def distinct_keys_def demo_ipc_def)
  obtain reg where reg: "register_service [7] 1 (ip_services demo_ipc) = (Ok (), reg)"
    by (simp add: demo_ipc_def register_service_def find_slot_def first_free_def MAX_SERVICES_def numeral_eq_Suc)
  have "ip_chans demo_ipc 1 \<noteq> None" by (simp add: demo_ipc_def)
  with registry_dangles [OF wf reg] reg show ?thesis by (auto simp: Let_def)
qed

end
