(* ===== verification/Futex.thy ===== *)
theory Futex
  imports Ipc
begin

text \<open>
  Futexes: \<open>kernel/src/sync/futex.rs\<close>. The table has 64 buckets of eight waiter slots; the waiters of
  a bucket form a linked list through slot indices. \<open>wait\<close> is split at its call of \<open>schedule\<close>.
  The loop of \<open>remove_waiter\<close> follows the links and could run forever on a cyclic list; it is a
  \<open>partial_function\<close>, and the lemmas show that it ends on every list the operations build.
\<close>

section \<open>Data\<close>

definition MAX_FUTEX_WAITERS :: nat where "MAX_FUTEX_WAITERS = 8"

record futex_waiter =
  fw_thread :: nat
  fw_next :: "nat option"

record futex_entry =
  fe_addr :: nat
  fe_waiters :: "futex_waiter option list"
  fe_count :: nat
  fe_head :: "nat option"
  fe_tail :: "nat option"

type_synonym futex_table = "futex_entry option list"

definition futex_entry_new :: "nat \<Rightarrow> futex_entry" where
  "futex_entry_new addr = \<lparr>fe_addr = addr, fe_waiters = replicate MAX_FUTEX_WAITERS None, fe_count = 0,
     fe_head = None, fe_tail = None\<rparr>"

definition futex_table_new :: futex_table where
  "futex_table_new = replicate 64 None"

definition hash_addr :: "nat \<Rightarrow> nat" where
  "hash_addr addr = addr div 8 mod 64"

section \<open>Operations on one bucket\<close>

definition get_or_create_entry :: "nat \<Rightarrow> futex_table \<Rightarrow> futex_entry \<times> futex_table" where
  "get_or_create_entry addr t =
     (case t ! hash_addr addr of
        Some e \<Rightarrow> (e, t)
      | None \<Rightarrow> (futex_entry_new addr, t[hash_addr addr := Some (futex_entry_new addr)]))"

text \<open>\<open>entry.waiters[i].as_mut().map(|t| t.next = n)\<close>.\<close>

definition set_next :: "nat \<Rightarrow> nat option \<Rightarrow> futex_waiter option list \<Rightarrow> futex_waiter option list" where
  "set_next i n ws = (case ws ! i of None \<Rightarrow> ws | Some w \<Rightarrow> ws[i := Some (w\<lparr>fw_next := n\<rparr>)])"

definition add_waiter :: "nat \<Rightarrow> futex_entry \<Rightarrow> bool \<times> futex_entry" where
  "add_waiter tid e =
     (if MAX_FUTEX_WAITERS \<le> fe_count e then (False, e)
      else case first_free (fe_waiters e) of
        None \<Rightarrow> (False, e)
      | Some i \<Rightarrow>
          (let e1 = e\<lparr>fe_waiters := (fe_waiters e)[i := Some \<lparr>fw_thread = tid, fw_next = None\<rparr>],
                      fe_count := fe_count e + 1\<rparr>
           in (True,
               if fe_head e = None then e1\<lparr>fe_head := Some i, fe_tail := Some i\<rparr>
               else case fe_tail e of
                 None \<Rightarrow> e1
               | Some k \<Rightarrow> e1\<lparr>fe_waiters := set_next k (Some i) (fe_waiters e1), fe_tail := Some i\<rparr>)))"

partial_function (option) remove_futex_loop ::
  "nat \<Rightarrow> nat option \<Rightarrow> nat option \<Rightarrow> futex_entry \<Rightarrow> futex_entry option" where
  "remove_futex_loop tid prev cur e =
     (case cur of
        None \<Rightarrow> Some e
      | Some i \<Rightarrow>
          (case fe_waiters e ! i of
             None \<Rightarrow> Some e
           | Some w \<Rightarrow>
               if fw_thread w = tid then
                 (let e1 = (case prev of
                              Some p \<Rightarrow> e\<lparr>fe_waiters := set_next p (fw_next w) (fe_waiters e)\<rparr>
                            | None \<Rightarrow> e\<lparr>fe_head := fw_next w\<rparr>);
                      e2 = (if fe_tail e1 = Some i then e1\<lparr>fe_tail := prev\<rparr> else e1)
                  in Some (e2\<lparr>fe_waiters := (fe_waiters e2)[i := None], fe_count := fe_count e2 - 1\<rparr>))
               else remove_futex_loop tid (Some i) (fw_next w) e))"

definition remove_futex_waiter :: "nat \<Rightarrow> futex_entry \<Rightarrow> futex_entry option" where
  "remove_futex_waiter tid e = remove_futex_loop tid None (fe_head e) e"

text \<open>
  Each round of the wake loop empties a slot. Link indices come from the slot scan of
  \<open>add_waiter\<close>, so the index test never fails in the code.
\<close>

function wake_futex_loop ::
  "nat \<Rightarrow> nat option \<Rightarrow> nat \<Rightarrow> futex_waiter option list \<Rightarrow> sched \<Rightarrow> nat \<times> futex_waiter option list \<times> sched" where
  "wake_futex_loop count cur nw ws s =
     (case cur of
        None \<Rightarrow> (nw, ws, s)
      | Some i \<Rightarrow>
          if count \<le> nw \<or> length ws \<le> i then (nw, ws, s)
          else case ws ! i of
            None \<Rightarrow> (nw, ws, s)
          | Some w \<Rightarrow> wake_futex_loop count (fw_next w) (nw + 1) (ws[i := None]) (wake_thread (fw_thread w) s))"
  by pat_completeness auto
termination
proof (relation "measure (\<lambda>(count, cur, nw, ws, s). length (live_slots ws))")
  fix count cur nw ws s i w
  assume "cur = Some (i :: nat)" "\<not> (count \<le> (nw :: nat) \<or> length ws \<le> i)" "ws ! i = Some (w :: futex_waiter)"
  then have "length (live_slots (ws[i := None])) < length (live_slots ws)"
    using length_live_slots_take [of i ws] by simp
  then show "((count, fw_next w, nw + 1, ws[i := None], wake_thread (fw_thread w) s), count, cur, nw, ws, s)
      \<in> measure (\<lambda>(count, cur, nw, ws, s). length (live_slots ws))"
    by simp
qed simp

definition wake_from_entry :: "nat \<Rightarrow> futex_entry \<Rightarrow> sched \<Rightarrow> nat \<times> futex_entry \<times> sched" where
  "wake_from_entry count e s =
     (let (nw, ws, s') = wake_futex_loop count (fe_head e) 0 (fe_waiters e) s;
          e1 = e\<lparr>fe_waiters := ws\<rparr>
      in (nw, if 0 < nw then e1\<lparr>fe_head := None, fe_tail := None, fe_count := 0\<rparr> else e1, s'))"

section \<open>The system calls\<close>

text \<open>\<open>*(addr as *const u32)\<close>.\<close>

definition futex_load :: "nat \<Rightarrow> (nat \<Rightarrow> u8) \<Rightarrow> u32" where
  "futex_load addr m = word_of_le (copy_out addr 4 m)"

definition futex_wait :: "nat \<Rightarrow> u32 \<Rightarrow> (nat \<Rightarrow> u8) \<Rightarrow> futex_table \<Rightarrow> sched \<Rightarrow> unit call \<times> futex_table \<times> sched" where
  "futex_wait addr expected m t s =
     (if futex_load addr m \<noteq> expected then (Returns (Ok ()), t, s)
      else case get_current_thread s of
        None \<Rightarrow> (Returns (Err ThreadNotFound), t, s)
      | Some ci \<Rightarrow>
          (let tid = th_id (the (sc_threads s ! ci));
               (e, t1) = get_or_create_entry addr t;
               (ok, e1) = add_waiter tid e;
               t2 = t1[hash_addr addr := Some e1]
           in if ok then (Blocks, t2, set_state ci Blocked s) else (Returns (Err NoMemory), t2, s)))"

definition futex_wait_resumed :: "nat \<Rightarrow> nat \<Rightarrow> futex_table \<Rightarrow> (unit res \<times> futex_table) option" where
  "futex_wait_resumed addr tid t =
     (case t ! hash_addr addr of
        None \<Rightarrow> Some (Ok (), t)
      | Some e \<Rightarrow> map_option (\<lambda>e1. (Ok (), t[hash_addr addr := Some e1])) (remove_futex_waiter tid e))"

definition futex_wake :: "nat \<Rightarrow> nat \<Rightarrow> futex_table \<Rightarrow> sched \<Rightarrow> nat res \<times> futex_table \<times> sched" where
  "futex_wake addr count t s =
     (case t ! hash_addr addr of
        None \<Rightarrow> (Ok 0, t, s)
      | Some e \<Rightarrow>
          if fe_head e = None then (Ok 0, t, s)
          else (let (nw, e1, s1) = wake_from_entry count e s in (Ok nw, t[hash_addr addr := Some e1], s1)))"

definition futex_wake_all :: "nat \<Rightarrow> futex_table \<Rightarrow> sched \<Rightarrow> nat res \<times> futex_table \<times> sched" where
  "futex_wake_all addr = futex_wake addr (2 ^ 64 - 1)"

text \<open>\<open>requeue\<close> ignores its target address and repeats the wake loop.\<close>

definition futex_requeue :: "nat \<Rightarrow> nat \<Rightarrow> nat \<Rightarrow> futex_table \<Rightarrow> sched \<Rightarrow> nat res \<times> futex_table \<times> sched" where
  "futex_requeue addr count new_addr t s =
     (case t ! hash_addr addr of
        None \<Rightarrow> (Ok 0, t, s)
      | Some e \<Rightarrow>
          if fe_head e = None then (Ok 0, t, s)
          else (let (nw, e1, s1) = wake_from_entry count e s in (Ok nw, t[hash_addr addr := Some e1], s1)))"

section \<open>Waiter lists\<close>

text \<open>The slots from \<open>p\<close> on, in link order.\<close>

primrec chain_from :: "futex_waiter option list \<Rightarrow> nat option \<Rightarrow> nat list \<Rightarrow> bool" where
  "chain_from ws p [] \<longleftrightarrow> p = None"
| "chain_from ws p (i # is) \<longleftrightarrow> p = Some i \<and> i < length ws \<and> (\<exists>w. ws ! i = Some w \<and> chain_from ws (fw_next w) is)"

definition fx_wf :: "futex_entry \<Rightarrow> nat list \<Rightarrow> bool" where
  "fx_wf e is \<longleftrightarrow> length (fe_waiters e) = MAX_FUTEX_WAITERS \<and> chain_from (fe_waiters e) (fe_head e) is \<and> distinct is
     \<and> fe_tail e = (if is = [] then None else Some (last is)) \<and> fe_count e = length is"

definition fx_ids :: "futex_entry \<Rightarrow> nat list \<Rightarrow> nat list" where
  "fx_ids e is = map (\<lambda>i. fw_thread (the (fe_waiters e ! i))) is"

lemma chain_from_less: "chain_from ws p is \<Longrightarrow> i \<in> set is \<Longrightarrow> i < length ws \<and> ws ! i \<noteq> None"
  by (induction "is" arbitrary: p) auto

lemma chain_from_other: "j \<notin> set is \<Longrightarrow> chain_from (ws[j := x]) p is = chain_from ws p is"
  by (induction "is" arbitrary: p) auto

lemma length_set_next [simp]: "length (set_next i n ws) = length ws"
  by (simp add: set_next_def split: option.splits)

lemma set_next_other: "j \<noteq> i \<Longrightarrow> set_next i n ws ! j = ws ! j"
  by (simp add: set_next_def split: option.splits)

lemma set_next_thread: "fw_thread (the (set_next i n ws ! j)) = fw_thread (the (ws ! j))"
  by (cases "i < length ws"; cases "j = i") (auto simp: set_next_def list_update_beyond split: option.splits)

lemma chain_from_set_next: "j \<notin> set is \<Longrightarrow> chain_from (set_next j n ws) p is = chain_from ws p is"
  by (simp add: set_next_def chain_from_other split: option.splits)

text \<open>Redirecting the last link of a prefix splices another list behind it.\<close>

lemma chain_from_relink:
  assumes "chain_from ws p (xs @ zs)" "xs \<noteq> []" "distinct (xs @ ys)" "chain_from ws n ys"
  shows "chain_from (set_next (last xs) n ws) p (xs @ ys)"
  using assms
proof (induction xs arbitrary: p)
  case Nil
  then show ?case by simp
next
  case (Cons j xs)
  from Cons.prems obtain v where v: "j < length ws" "p = Some j" "ws ! j = Some v" "chain_from ws (fw_next v) (xs @ zs)"
    by auto
  show ?case
  proof (cases "xs = []")
    case True
    have "set_next j n ws ! j = Some (v\<lparr>fw_next := n\<rparr>)" using v by (simp add: set_next_def)
    then show ?thesis using v True Cons.prems by (simp add: chain_from_set_next)
  next
    case False
    then have "j \<noteq> last xs" using Cons.prems(3) last_in_set [of xs] by auto
    then show ?thesis using v False Cons.IH [OF v(4)] Cons.prems by (simp add: set_next_other)
  qed
qed

lemma fx_wf_new: "fx_wf (futex_entry_new a) []"
  by (simp add: fx_wf_def futex_entry_new_def)

text \<open>Adding a waiter appends to the list.\<close>

lemma add_waiter_spec:
  assumes wf: "fx_wf e is" and room: "length is < MAX_FUTEX_WAITERS" and free: "first_free (fe_waiters e) = Some i"
  shows "\<exists>e'. add_waiter tid e = (True, e') \<and> fx_wf e' (is @ [i]) \<and> fx_ids e' (is @ [i]) = fx_ids e is @ [tid]"
proof -
  note i = first_freeD [OF free]
  let ?w = "\<lparr>fw_thread = tid, fw_next = None\<rparr>" and ?ws = "(fe_waiters e)[i := Some \<lparr>fw_thread = tid, fw_next = None\<rparr>]"
  have ch: "chain_from (fe_waiters e) (fe_head e) is" and d: "distinct is" using wf by (auto simp: fx_wf_def)
  have ni: "i \<notin> set is" using chain_from_less [OF ch, of i] i by auto
  have ch1: "chain_from ?ws (fe_head e) is" using ch ni by (simp add: chain_from_other)
  show ?thesis
  proof (cases "is = []")
    case True
    then have "fe_head e = None" using ch by simp
    then show ?thesis using wf room free i True by (auto simp: add_waiter_def fx_wf_def fx_ids_def)
  next
    case False
    then obtain k where k: "last is = k" "k \<in> set is" "fe_tail e = Some k" using wf by (auto simp: fx_wf_def)
    have h: "fe_head e \<noteq> None" using ch False by (cases "is") auto
    have "chain_from (set_next k (Some i) ?ws) (fe_head e) (is @ [i])"
      using chain_from_relink [of ?ws _ "is" "[]" "[i]"] ch1 d False i ni k by simp
    moreover have "fw_thread (the (set_next k (Some i) ?ws ! j)) = fw_thread (the (fe_waiters e ! j))" if "j \<in> set is" for j
    proof -
      have "j \<noteq> i" using that ni by auto
      then show ?thesis by (simp add: set_next_thread)
    qed
    moreover have "fw_thread (the (set_next k (Some i) ?ws ! i)) = tid"
      using i by (simp add: set_next_thread)
    moreover define e' where "e' = e\<lparr>fe_waiters := set_next k (Some i) ?ws, fe_count := fe_count e + 1, fe_tail := Some i\<rparr>"
    moreover have "add_waiter tid e = (True, e')"
    proof -
      have "fe_count e = length is" using wf by (simp add: fx_wf_def)
      then show ?thesis using room free k(3) h by (auto simp: add_waiter_def e'_def Let_def)
    qed
    ultimately show ?thesis
      using wf ni by (intro exI [of _ e']) (simp add: fx_wf_def fx_ids_def)
  qed
qed

section \<open>Waking\<close>

lemma wake_futex_loop_spec:
  assumes "chain_from ws cur is" "distinct is"
  shows "\<exists>ws'. wake_futex_loop count cur nw ws s =
      (nw + min (count - nw) (length is), ws',
       wake_list (take (count - nw) (map (\<lambda>i. fw_thread (the (ws ! i))) is)) s)
    \<and> length ws' = length ws
    \<and> (\<forall>i. i \<notin> set (take (count - nw) is) \<longrightarrow> ws' ! i = ws ! i)"
  using assms
proof (induction "is" arbitrary: cur nw ws s)
  case Nil
  then show ?case by simp
next
  case (Cons i "is")
  from Cons.prems obtain w where w: "cur = Some i" "i < length ws" "ws ! i = Some w" "chain_from ws (fw_next w) is" by auto
  show ?case
  proof (cases "count \<le> nw")
    case True
    then show ?thesis using w by simp
  next
    case False
    then obtain k where k: "count - nw = Suc k" "count - (nw + 1) = k" by (metis Suc_diff_Suc Suc_eq_plus1 diff_Suc_Suc not_le_imp_less)
    let ?ws = "ws[i := None]" and ?s = "wake_thread (fw_thread w) s"
    have ch: "chain_from ?ws (fw_next w) is" using w(4) Cons.prems(2) by (simp add: chain_from_other)
    from Cons.IH [OF ch, of "nw + 1" ?s] Cons.prems(2) obtain ws' where ws':
      "wake_futex_loop count (fw_next w) (nw + 1) ?ws ?s
        = (nw + 1 + min k (length is), ws', wake_list (take k (map (\<lambda>i. fw_thread (the (?ws ! i))) is)) ?s)"
      "length ws' = length ws" "\<forall>j. j \<notin> set (take k is) \<longrightarrow> ws' ! j = ?ws ! j"
      using k(2) by auto
    have same: "map (\<lambda>j. fw_thread (the (?ws ! j))) is = map (\<lambda>j. fw_thread (the (ws ! j))) is"
      using Cons.prems(2) by (auto intro: arg_cong [where f = "\<lambda>x. fw_thread (the x)"] nth_list_update_neq)
    have "wake_futex_loop count cur nw ws s = wake_futex_loop count (fw_next w) (nw + 1) ?ws ?s"
      using w False by (subst wake_futex_loop.simps) simp
    then show ?thesis using ws' same k w(2,3) by (intro exI [of _ ws']) auto
  qed
qed

lemma wake_from_entry_spec:
  assumes wf: "fx_wf e is"
  shows "\<exists>e'. wake_from_entry count e s = (min count (length is), e', wake_list (take count (fx_ids e is)) s)
    \<and> (if is = [] \<or> count = 0 then e' = e else fx_wf e' []
        \<and> (\<forall>i \<in> set (drop count is). fe_waiters e' ! i = fe_waiters e ! i))"
proof -
  have ch: "chain_from (fe_waiters e) (fe_head e) is" and d: "distinct is" using wf by (auto simp: fx_wf_def)
  obtain ws' where ws': "wake_futex_loop count (fe_head e) 0 (fe_waiters e) s
      = (min count (length is), ws', wake_list (take count (fx_ids e is)) s)"
    "length ws' = length (fe_waiters e)" "\<forall>i. i \<notin> set (take count is) \<longrightarrow> ws' ! i = fe_waiters e ! i"
    using wake_futex_loop_spec [OF ch d, of count 0 s] by (auto simp: fx_ids_def)
  show ?thesis
  proof (cases "is = [] \<or> count = 0")
    case True
    then have "ws' = fe_waiters e" using ws' by (auto intro: nth_equalityI)
    then show ?thesis using True ws' by (auto simp: wake_from_entry_def)
  next
    case False
    have "i \<notin> set (take count is)" if "i \<in> set (drop count is)" for i
      using that d by (metis append_take_drop_id disjoint_iff distinct_append)
    then show ?thesis using False wf ws' by (auto simp: wake_from_entry_def fx_wf_def Let_def)
  qed
qed

section \<open>Leaving the list\<close>

lemma fx_ids_append: "fx_ids e (xs @ ys) = fx_ids e xs @ fx_ids e ys"
  by (simp add: fx_ids_def)

lemma unlink_spec:
  assumes wf: "fx_wf e (xs @ y # ys)" and w: "fe_waiters e ! y = Some w"
    and e1: "e1 = (if xs = [] then e\<lparr>fe_head := fw_next w\<rparr>
        else e\<lparr>fe_waiters := set_next (last xs) (fw_next w) (fe_waiters e)\<rparr>)"
    and e2: "e2 = (if fe_tail e1 = Some y then e1\<lparr>fe_tail := if xs = [] then None else Some (last xs)\<rparr> else e1)"
    and e3: "e3 = e2\<lparr>fe_waiters := (fe_waiters e2)[y := None], fe_count := fe_count e2 - 1\<rparr>"
  shows "fx_wf e3 (xs @ ys) \<and> fx_ids e3 (xs @ ys) = fx_ids e (xs @ ys)"
proof -
  let ?ws = "fe_waiters e"
  have ch: "chain_from ?ws (fe_head e) (xs @ y # ys)" and d: "distinct (xs @ y # ys)" using wf by (auto simp: fx_wf_def)
  have suffix: "chain_from ?ws p (as @ y # ys) \<Longrightarrow> chain_from ?ws (fw_next w) ys" for p as
    by (induction as arbitrary: p) (use w in auto)
  have tail: "chain_from ?ws (fw_next w) ys" by (rule suffix [OF ch])
  have chain: "chain_from (fe_waiters e1) (fe_head e1) (xs @ ys)"
    using chain_from_relink [OF ch, of ys "fw_next w"] d tail by (simp add: e1)
  have fr: "fe_head e2 = fe_head e1" "fe_waiters e2 = fe_waiters e1" "fe_count e2 = fe_count e" "fe_tail e1 = fe_tail e"
    "length (fe_waiters e1) = length ?ws"
    by (auto simp: e2 e1)
  have last: "last (xs @ y # ys) = (if ys = [] then y else last ys)" by simp
  have ne: "ys \<noteq> [] \<Longrightarrow> last ys \<noteq> y" using d last_in_set [of ys] by auto
  have tl: "fe_tail e2 = (if xs @ ys = [] then None else Some (last (xs @ ys)))"
    using wf fr ne by (auto simp: e2 fx_wf_def last)
  have "fx_wf e3 (xs @ ys)"
    using chain d fr tl wf by (auto simp: e3 fx_wf_def chain_from_other)
  moreover have "fw_thread (the ((fe_waiters e1)[y := None] ! j)) = fw_thread (the (?ws ! j))" if "j \<in> set (xs @ ys)" for j
  proof -
    have "j \<noteq> y" using that d by auto
    then show ?thesis by (simp add: e1 set_next_thread)
  qed
  ultimately show ?thesis by (simp add: fx_ids_def e3 fr)
qed

lemma remove_futex_loop_spec:
  assumes "fx_wf e (xs @ ys)" "tid \<notin> set (fx_ids e xs)"
    and "prev = (if xs = [] then None else Some (last xs))" "cur = (case ys of [] \<Rightarrow> None | y # _ \<Rightarrow> Some y)"
  shows "\<exists>e' zs. remove_futex_loop tid prev cur e = Some e' \<and> fx_wf e' zs \<and> fx_ids e' zs = remove1 tid (fx_ids e (xs @ ys))"
  using assms
proof (induction ys arbitrary: xs prev cur)
  case Nil
  then show ?case by (subst remove_futex_loop.simps) (auto simp: remove1_idem)
next
  case (Cons y ys)
  have sub: "chain_from ws p (as @ y # ys) \<Longrightarrow> \<exists>w. ws ! y = Some w \<and> fw_next w = (case ys of [] \<Rightarrow> None | z # _ \<Rightarrow> Some z)" for ws p as
    by (induction as arbitrary: p) (auto split: list.splits)
  obtain w where w: "fe_waiters e ! y = Some w" "fw_next w = (case ys of [] \<Rightarrow> None | z # _ \<Rightarrow> Some z)"
    using Cons.prems(1) sub unfolding fx_wf_def by blast
  have idy: "fx_ids e (xs @ y # ys) = fx_ids e xs @ fw_thread w # fx_ids e ys" by (simp add: fx_ids_def w)
  show ?case
  proof (cases "fw_thread w = tid")
    case True
    define e1 where "e1 = (if xs = [] then e\<lparr>fe_head := fw_next w\<rparr>
        else e\<lparr>fe_waiters := set_next (last xs) (fw_next w) (fe_waiters e)\<rparr>)"
    define e2 where "e2 = (if fe_tail e1 = Some y then e1\<lparr>fe_tail := if xs = [] then None else Some (last xs)\<rparr> else e1)"
    define e3 where "e3 = e2\<lparr>fe_waiters := (fe_waiters e2)[y := None], fe_count := fe_count e2 - 1\<rparr>"
    have "remove_futex_loop tid prev cur e = Some e3"
      using w True Cons.prems(3,4) by (subst remove_futex_loop.simps) (simp add: e1_def e2_def e3_def Let_def)
    moreover have "remove1 tid (fx_ids e (xs @ y # ys)) = fx_ids e (xs @ ys)"
      using idy True Cons.prems(2) by (simp add: remove1_append fx_ids_append)
    ultimately show ?thesis using unlink_spec [OF Cons.prems(1) w(1) e1_def e2_def e3_def] by auto
  next
    case False
    have "remove_futex_loop tid prev cur e = remove_futex_loop tid (Some y) (fw_next w) e"
      using w False Cons.prems(4) by (subst remove_futex_loop.simps) simp
    moreover have "tid \<notin> set (fx_ids e (xs @ [y]))" using Cons.prems(2) False w by (simp add: fx_ids_def)
    ultimately show ?thesis using Cons.IH [of "xs @ [y]" "Some y" "fw_next w"] Cons.prems(1) w(2) by simp
  qed
qed

lemma remove_futex_waiter_spec:
  assumes "fx_wf e is"
  shows "\<exists>e' zs. remove_futex_waiter tid e = Some e' \<and> fx_wf e' zs \<and> fx_ids e' zs = remove1 tid (fx_ids e is)"
proof -
  have "fe_head e = (case is of [] \<Rightarrow> None | y # _ \<Rightarrow> Some y)"
    using assms by (cases "is") (auto simp: fx_wf_def)
  then show ?thesis
    using remove_futex_loop_spec [of e "[]" "is" tid None] assms by (simp add: remove_futex_waiter_def fx_ids_def)
qed

section \<open>Properties\<close>

lemma hash_addr_less [simp]: "hash_addr addr < 64"
  by (simp add: hash_addr_def)

text \<open>
  C37. Waiting on a futex and leaving again. When the word has the expected value, a wait by the
  current thread appends its id to the bucket's list and blocks the thread; if the thread resumes
  while it is still listed, the rest of the call always finishes, and what it leaves is the list as
  it was before. When the word differs the call returns at once and nothing changes.
\<close>

theorem futex_wait_enqueues:
  assumes len: "length t = 64" and wf: "t ! hash_addr addr = Some e" "fx_wf e is" "first_free (fe_waiters e) \<noteq> None"
    and cur: "sc_current s = Some ci" "sc_threads s ! ci = Some tc" and fresh: "th_id tc \<notin> set (fx_ids e is)"
  shows "(futex_load addr m \<noteq> v \<longrightarrow> futex_wait addr v m t s = (Returns (Ok ()), t, s))
    \<and> (futex_load addr m = v \<longrightarrow>
      (\<exists>t' e' is'. futex_wait addr v m t s = (Blocks, t', set_state ci Blocked s)
         \<and> t' = t[hash_addr addr := Some e'] \<and> fx_wf e' is' \<and> fx_ids e' is' = fx_ids e is @ [th_id tc]
         \<and> (\<exists>e'' is''. futex_wait_resumed addr (th_id tc) t' = Some (Ok (), t[hash_addr addr := Some e''])
              \<and> fx_wf e'' is'' \<and> fx_ids e'' is'' = fx_ids e is)))"
proof -
  have cnt: "length is < MAX_FUTEX_WAITERS"
  proof (rule ccontr)
    assume "\<not> ?thesis"
    moreover have ch: "chain_from (fe_waiters e) (fe_head e) is" and d: "distinct is" and l: "length (fe_waiters e) = MAX_FUTEX_WAITERS"
      using wf by (auto simp: fx_wf_def)
    moreover have sub: "set is \<subseteq> {..<MAX_FUTEX_WAITERS}" using chain_from_less [OF ch] l by auto
    ultimately have "set is = {..<MAX_FUTEX_WAITERS}"
      using card_mono [OF finite_lessThan sub] by (intro card_subset_eq) (auto simp: distinct_card)
    then have "\<forall>x\<in>set (fe_waiters e). x \<noteq> None" using chain_from_less [OF ch] l by (auto simp: in_set_conv_nth)
    then show False using wf(3) by (simp add: first_free_None)
  qed
  obtain i where i: "first_free (fe_waiters e) = Some i" using wf(3) by blast
  obtain e' where e': "add_waiter (th_id tc) e = (True, e')" "fx_wf e' (is @ [i])"
    "fx_ids e' (is @ [i]) = fx_ids e is @ [th_id tc]"
    using add_waiter_spec [OF wf(2) cnt i] by blast
  have get: "get_or_create_entry addr t = (e, t)" using wf by (simp add: get_or_create_entry_def)
  have gc: "get_current_thread s = Some ci" using cur by (simp add: get_current_thread_def)
  have wait: "futex_wait addr v m t s = (Blocks, t[hash_addr addr := Some e'], set_state ci Blocked s)" if "futex_load addr m = v"
    using that gc get e' cur by (simp add: futex_wait_def)
  obtain e'' zs where r: "remove_futex_waiter (th_id tc) e' = Some e''" "fx_wf e'' zs"
    "fx_ids e'' zs = remove1 (th_id tc) (fx_ids e is @ [th_id tc])"
    using remove_futex_waiter_spec [OF e'(2), of "th_id tc"] e'(3) by auto
  moreover have "remove1 (th_id tc) (fx_ids e is @ [th_id tc]) = fx_ids e is" using fresh by (simp add: remove1_append)
  ultimately have "futex_wait_resumed addr (th_id tc) (t[hash_addr addr := Some e']) = Some (Ok (), t[hash_addr addr := Some e''])"
    "fx_ids e'' zs = fx_ids e is"
    using len by (simp_all add: futex_wait_resumed_def)
  then show ?thesis using wait e' r(2) by (auto simp: futex_wait_def)
qed

text \<open>
  Waking loses waiters. A wake for \<open>k\<close> threads wakes exactly the first \<open>k\<close> listed threads in
  the order they waited and reports their number; but it then empties the list, so whenever
  \<open>0 < k < n\<close> the other \<open>n - k\<close> waiters keep their slots, no later wake on the address, not even
  \<open>wake_all\<close>, wakes any of them, and each such call reports \<open>0\<close>.
\<close>

theorem futex_wake_loses_waiters:
  assumes len: "length t = 64" and wf: "t ! hash_addr addr = Some e" "fx_wf e is" and k: "0 < k" "k < length is"
  shows "\<exists>t' e'. futex_wake addr k t s = (Ok k, t', wake_list (take k (fx_ids e is)) s)
    \<and> t' ! hash_addr addr = Some e' \<and> (\<forall>i\<in>set (drop k is). fe_waiters e' ! i \<noteq> None)
    \<and> (\<forall>s'. futex_wake_all addr t' s' = (Ok 0, t', s'))"
proof -
  have ch: "chain_from (fe_waiters e) (fe_head e) is" using wf by (auto simp: fx_wf_def)
  have h: "fe_head e \<noteq> None" using ch k by (cases "is") auto
  obtain e' where e': "wake_from_entry k e s = (k, e', wake_list (take k (fx_ids e is)) s)" "fx_wf e' []"
    "\<forall>i \<in> set (drop k is). fe_waiters e' ! i = fe_waiters e ! i"
    using wake_from_entry_spec [OF wf(2), of k s] k by (auto split: if_splits)
  let ?t = "t[hash_addr addr := Some e']"
  have "futex_wake addr k t s = (Ok k, ?t, wake_list (take k (fx_ids e is)) s)"
    using wf h e' by (auto simp: futex_wake_def)
  moreover have "?t ! hash_addr addr = Some e'" using len by simp
  moreover have "fe_waiters e' ! i \<noteq> None" if "i \<in> set (drop k is)" for i
    using e'(3) that chain_from_less [OF ch, of i] in_set_dropD [OF that] by simp
  moreover have "fe_head e' = None" using e'(2) by (simp add: fx_wf_def)
  ultimately show ?thesis by (auto simp: futex_wake_all_def futex_wake_def)
qed

definition demo_futex_entry :: futex_entry where
  "demo_futex_entry = \<lparr>fe_addr = 64,
     fe_waiters = Some \<lparr>fw_thread = 8, fw_next = Some 1\<rparr> # Some \<lparr>fw_thread = 9, fw_next = None\<rparr> # replicate 6 None,
     fe_count = 2, fe_head = Some 0, fe_tail = Some 1\<rparr>"

lemma demo_futex_entry_wf: "fx_wf demo_futex_entry [0, Suc 0]" "fx_ids demo_futex_entry [0, Suc 0] = [8, 9]"
    "first_free (fe_waiters demo_futex_entry) \<noteq> None"
  by (simp_all add: fx_wf_def fx_ids_def demo_futex_entry_def MAX_FUTEX_WAITERS_def first_free_None)

theorem futex_wait_enqueues_witness:
  "\<exists>t' e' is'. futex_wait 64 0 (\<lambda>_. 0) (futex_table_new[hash_addr 64 := Some demo_futex_entry]) demo_sched
      = (Blocks, t', set_state 0 Blocked demo_sched)
    \<and> t' ! hash_addr 64 = Some e' \<and> fx_ids e' is' = [8, 9, 7]"
proof -
  let ?t = "futex_table_new[hash_addr 64 := Some demo_futex_entry]"
  have t: "length ?t = 64" "?t ! hash_addr 64 = Some demo_futex_entry" by (simp_all add: futex_table_new_def)
  have cur: "sc_current demo_sched = Some 0" by (simp add: demo_sched_def)
  have tid: "th_id (demo_thread 7 Running) = 7" by (simp add: demo_thread_def make_thread_def)
  have v: "futex_load 64 (\<lambda>_. 0) = 0" by (simp add: futex_load_def copy_out_def word_of_le_def numeral_eq_Suc)
  have fresh: "th_id (demo_thread 7 Running) \<notin> set (fx_ids demo_futex_entry [0, Suc 0])" by (simp add: tid demo_futex_entry_wf)
  from futex_wait_enqueues [OF t demo_futex_entry_wf(1,3) cur demo_writer(1) fresh, of "\<lambda>_. 0" 0] v t
  obtain t' e' is' where "futex_wait 64 0 (\<lambda>_. 0) ?t demo_sched = (Blocks, t', set_state 0 Blocked demo_sched)"
    "t' = ?t[hash_addr 64 := Some e']" "fx_ids e' is' = [8, 9, 7]"
    by (auto simp: tid demo_futex_entry_wf)
  then show ?thesis using t(1) by (metis hash_addr_less nth_list_update_eq)
qed

theorem futex_wake_loses_waiters_witness:
  "\<exists>t'. futex_wake 64 1 (futex_table_new[hash_addr 64 := Some demo_futex_entry]) demo_sched
      = (Ok 1, t', wake_thread 8 demo_sched)
    \<and> futex_wake_all 64 t' (wake_thread 8 demo_sched) = (Ok 0, t', wake_thread 8 demo_sched)"
proof -
  let ?t = "futex_table_new[hash_addr 64 := Some demo_futex_entry]"
  have t: "length ?t = 64" "?t ! hash_addr 64 = Some demo_futex_entry" by (simp_all add: futex_table_new_def)
  from futex_wake_loses_waiters [OF t demo_futex_entry_wf(1), of 1 demo_sched] show ?thesis
    by (auto simp: demo_futex_entry_wf)
qed

end
