(* ===== verification/Asid.thy ===== *)
theory Asid
  imports Shared_Types
begin

text \<open>
  Address-space identifiers, \<open>kernel/src/arch/aarch64/asid.rs\<close>: the allocator with its rollover
  generation, and the packing of a root table address and an identifier into \<open>TTBR0_EL1\<close>.
\<close>

record asid_state =
  next_asid :: u16
  rollover_gen :: u32

definition TTBR_ASID_SHIFT :: nat where "TTBR_ASID_SHIFT = 48"
definition ASID_KERNEL :: u16 where "ASID_KERNEL = 0"
definition MAX_USER_ASID :: u16 where "MAX_USER_ASID = 255"

definition asid_init :: asid_state where
  "asid_init = \<lparr>next_asid = 1, rollover_gen = 0\<rparr>"

definition asid_alloc :: "asid_state \<Rightarrow> u16 option \<times> asid_state" where
  "asid_alloc s =
     (let nxt = next_asid s in
      if nxt = 0 \<or> MAX_USER_ASID < nxt then
        (Some 1, s\<lparr>next_asid := 1, rollover_gen := rollover_gen s + 1\<rparr>)
      else (Some nxt, s\<lparr>next_asid := nxt + 1\<rparr>))"

definition asid_free :: "u16 \<Rightarrow> asid_state \<Rightarrow> asid_state" where
  "asid_free asid s = s"

definition pack_ttbr :: "u64 \<Rightarrow> u16 \<Rightarrow> u64" where
  "pack_ttbr l0_base_pa asid = (l0_base_pa AND 0x0000FFFFFFFFF000) OR push_bit TTBR_ASID_SHIFT (ucast asid)"

section \<open>Properties\<close>

definition asid_inv :: "asid_state \<Rightarrow> bool" where
  "asid_inv s \<longleftrightarrow> 1 \<le> unat (next_asid s) \<and> unat (next_asid s) \<le> 256"

fun asid_allocs :: "nat \<Rightarrow> asid_state \<Rightarrow> u16 option list \<times> asid_state" where
  "asid_allocs 0 s = ([], s)"
| "asid_allocs (Suc n) s =
     (let (a, s1) = asid_alloc s; (as, s2) = asid_allocs n s1 in (a # as, s2))"

lemma asid_init_inv: "asid_inv asid_init"
  by (simp add: asid_inv_def asid_init_def)

lemma asid_alloc_inv:
  assumes "asid_inv s" "asid_alloc s = (a, s')"
  shows "asid_inv s' \<and> (\<exists>n. a = Some n \<and> 1 \<le> unat n \<and> unat n \<le> 255)"
proof (cases "next_asid s = 0 \<or> MAX_USER_ASID < next_asid s")
  case True
  with assms show ?thesis by (auto simp: asid_alloc_def asid_inv_def)
next
  case False
  then have le: "unat (next_asid s) \<le> 255" by (simp add: MAX_USER_ASID_def word_less_nat_alt)
  then have "unat (next_asid s + 1) = unat (next_asid s) + 1"
    by (subst unat_add_no_wrap) auto
  with assms False le show ?thesis by (auto simp: asid_alloc_def asid_inv_def Let_def)
qed

lemma asid_allocs_range:
  assumes "asid_inv s" "asid_allocs n s = (as, s')"
  shows "asid_inv s' \<and> (\<forall>a\<in>set as. \<exists>k. a = Some k \<and> 1 \<le> unat k \<and> unat k \<le> 255)"
  using assms
proof (induction n arbitrary: s as)
  case 0
  then show ?case by simp
next
  case (Suc n)
  obtain a s1 where a: "asid_alloc s = (a, s1)" by (metis prod.exhaust)
  obtain as' where r: "asid_allocs n s1 = (as', s')" "as = a # as'"
    using Suc.prems(2) a by (auto split: prod.splits)
  from asid_alloc_inv [OF Suc.prems(1) a] Suc.IH [OF _ r(1)] r(2) show ?case by auto
qed

lemma page_addr_bits:
  assumes "4096 dvd unat (pa :: u64)" "unat pa < 2 ^ 48" "bit pa n"
  shows "12 \<le> n \<and> n < 48"
proof -
  have "take_bit 12 pa = 0" using assms(1) page_aligned_iff [of pa] by (simp add: word_and_4095)
  then have "\<not> bit (take_bit 12 pa) n" by simp
  then have "\<not> n < 12" using assms(3) by (simp only: bit_take_bit_iff) simp
  moreover have "take_bit 48 pa = pa"
    using assms(2) by (simp only: word_unat_eq_iff unsigned_take_bit_eq take_bit_nat_eq_self_iff)
  then have "n < 48" using assms(3) by (metis bit_take_bit_iff)
  ultimately show ?thesis by simp
qed

lemma pack_ttbr_fields:
  assumes "4096 dvd unat pa" "unat pa < 2 ^ 48"
  shows "pack_ttbr pa asid AND 0x0000FFFFFFFFF000 = pa" "ucast (drop_bit 48 (pack_ttbr pa asid)) = asid"
proof -
  show "pack_ttbr pa asid AND 0x0000FFFFFFFFF000 = pa"
    by (intro bit_word_eqI)
      (auto simp: pack_ttbr_def TTBR_ASID_SHIFT_def bit_simps bit_field_int dest: page_addr_bits [OF assms])
  show "ucast (drop_bit 48 (pack_ttbr pa asid)) = asid"
    by (intro bit_word_eqI)
      (auto simp: pack_ttbr_def TTBR_ASID_SHIFT_def bit_simps bit_field_int dest: page_addr_bits [OF assms])
qed

text \<open>
  User processes never receive the kernel's identifier: however many allocations were
  made since boot, every one succeeded with a value from 1 to 255. Together with a page-aligned
  root table below \<open>2^48\<close> the value is recovered intact from the packed \<open>TTBR0_EL1\<close> word, and so
  is the table address, so the two fields cannot disturb each other.
\<close>

theorem asid_and_ttbr_fields:
  assumes "a \<in> set (fst (asid_allocs n asid_init))" "4096 dvd unat pa" "unat pa < 2 ^ 48"
  shows "\<exists>k. a = Some k \<and> k \<noteq> ASID_KERNEL \<and> unat k \<le> 255
    \<and> pack_ttbr pa k AND 0x0000FFFFFFFFF000 = pa \<and> ucast (drop_bit 48 (pack_ttbr pa k)) = k"
proof -
  obtain as s where r: "asid_allocs n asid_init = (as, s)" by (metis prod.exhaust)
  from asid_allocs_range [OF asid_init_inv r] assms(1) r
  obtain k where "a = Some k" "1 \<le> unat k" "unat k \<le> 255" by auto
  with pack_ttbr_fields [OF assms(2,3)] show ?thesis by (auto simp: ASID_KERNEL_def)
qed

theorem asid_and_ttbr_fields_witness:
  "Some 2 \<in> set (fst (asid_allocs 3 asid_init)) \<and> ucast (drop_bit 48 (pack_ttbr 0x40081000 2)) = (2 :: u16)"
proof -
  have m: "Some 2 \<in> set (fst (asid_allocs 3 asid_init))"
    by (simp add: numeral_3_eq_3 asid_alloc_def asid_init_def MAX_USER_ASID_def)
  have "4096 dvd unat (0x40081000 :: u64)" "unat (0x40081000 :: u64) < 2 ^ 48" by simp_all
  from asid_and_ttbr_fields [OF m this] m show ?thesis by auto
qed

text \<open>
  The rollover hands out identifier 1 twice in a row. The comment on the allocator promises
  monotonic issue with one restart, but the restart stores 1 as the next identifier and also
  returns 1, so two processes created one after the other share their translation entries
  within the same generation.
\<close>

theorem asid_rollover_duplicates:
  assumes "MAX_USER_ASID < next_asid s"
  shows "\<exists>s1 s2. asid_alloc s = (Some 1, s1) \<and> asid_alloc s1 = (Some 1, s2)
    \<and> rollover_gen s1 = rollover_gen s + 1 \<and> rollover_gen s2 = rollover_gen s1"
  using assms by (simp add: asid_alloc_def MAX_USER_ASID_def)

theorem asid_rollover_duplicates_witness:
  "\<exists>s1 s2. asid_alloc \<lparr>next_asid = 256, rollover_gen = 0\<rparr> = (Some 1, s1) \<and> asid_alloc s1 = (Some 1, s2)"
  using asid_rollover_duplicates [of "\<lparr>next_asid = 256, rollover_gen = 0\<rparr>"]
  by (auto simp: MAX_USER_ASID_def)

end
