(* ===== verification/Page_Table.thy ===== *)
theory Page_Table
  imports Thread Asid "HOL-Library.Sublist"
begin

text \<open>
  Address translation: \<open>kernel/src/arch/aarch64/page_table.rs\<close> and \<open>mmu.rs\<close>. Tables are pages of
  512 descriptors; the model keeps them as a typed view \<open>pw_pte\<close> of physical memory, indexed by the
  table's address and the entry number. \<open>pw_trees\<close> holds the page-table handle of every process
  slot, because new tables are recorded in the handle of a process. Cache and TLB maintenance has no
  effect on this state.

  The two source files build tables with the same steps and different masks; the steps that occur
  in both are one definition with the masks and the registration as arguments, and the lemmas about
  them are proved once in the locale \<open>table_builder\<close>.
\<close>

section \<open>Descriptors\<close>

definition PTE_VALID :: u64 where "PTE_VALID = 1"
definition PTE_TYPE_BLOCK :: u64 where "PTE_TYPE_BLOCK = 1"
definition PTE_TYPE_TABLE :: u64 where "PTE_TYPE_TABLE = 3"
definition PTE_TYPE_PAGE :: u64 where "PTE_TYPE_PAGE = 3"
definition PTE_NORMAL_WB :: u64 where "PTE_NORMAL_WB = 0x700"
definition PTE_DEVICE :: u64 where "PTE_DEVICE = 0x404"
definition PTE_AF :: u64 where "PTE_AF = 0x400"
definition PTE_USER :: u64 where "PTE_USER = 0x40"
definition PTE_AP_RO :: u64 where "PTE_AP_RO = 0x80"
definition PTE_XN :: u64 where "PTE_XN = 0x40000000000000"
definition PTE_UXN :: u64 where "PTE_UXN = 0x20000000000000"

lemmas pte_consts = PTE_VALID_def PTE_TYPE_BLOCK_def PTE_TYPE_TABLE_def PTE_TYPE_PAGE_def PTE_NORMAL_WB_def
  PTE_DEVICE_def PTE_AF_def PTE_USER_def PTE_AP_RO_def PTE_XN_def PTE_UXN_def

datatype mem_attr = NormalCacheable | DeviceMemory

record map_flags =
  mf_attr :: mem_attr
  mf_readable :: bool
  mf_writable :: bool
  mf_executable :: bool
  mf_user :: bool

definition kernel_rw :: map_flags where
  "kernel_rw = \<lparr>mf_attr = NormalCacheable, mf_readable = True, mf_writable = True, mf_executable = False, mf_user = False\<rparr>"
definition kernel_ro :: map_flags where
  "kernel_ro = \<lparr>mf_attr = NormalCacheable, mf_readable = True, mf_writable = False, mf_executable = False, mf_user = False\<rparr>"
definition kernel_rx :: map_flags where
  "kernel_rx = \<lparr>mf_attr = NormalCacheable, mf_readable = True, mf_writable = False, mf_executable = True, mf_user = False\<rparr>"
definition user_rw :: map_flags where
  "user_rw = \<lparr>mf_attr = NormalCacheable, mf_readable = True, mf_writable = True, mf_executable = False, mf_user = True\<rparr>"
definition user_ro :: map_flags where
  "user_ro = \<lparr>mf_attr = NormalCacheable, mf_readable = True, mf_writable = False, mf_executable = False, mf_user = True\<rparr>"
definition user_rx :: map_flags where
  "user_rx = \<lparr>mf_attr = NormalCacheable, mf_readable = True, mf_writable = False, mf_executable = True, mf_user = True\<rparr>"
definition device_rw :: map_flags where
  "device_rw = \<lparr>mf_attr = DeviceMemory, mf_readable = True, mf_writable = True, mf_executable = False, mf_user = False\<rparr>"
definition device_rw_user :: map_flags where
  "device_rw_user = \<lparr>mf_attr = DeviceMemory, mf_readable = True, mf_writable = True, mf_executable = False, mf_user = True\<rparr>"

text \<open>\<open>pte_attr_bits\<close> of \<open>mmu.rs\<close>; the version of \<open>page_table.rs\<close> also sets the access flag.\<close>

definition mmu_attr_bits :: "map_flags \<Rightarrow> u64" where
  "mmu_attr_bits fl =
     (case mf_attr fl of NormalCacheable \<Rightarrow> PTE_NORMAL_WB | DeviceMemory \<Rightarrow> PTE_DEVICE)
     OR (if mf_user fl then (if mf_writable fl then PTE_USER else PTE_USER OR PTE_AP_RO)
         else if \<not> mf_writable fl then PTE_USER else 0)
     OR (if \<not> mf_executable fl then PTE_XN OR PTE_UXN else 0)"

definition pte_attr_bits :: "map_flags \<Rightarrow> u64" where
  "pte_attr_bits fl = mmu_attr_bits fl OR PTE_AF"

definition va_l0_index :: "u64 \<Rightarrow> nat" where "va_l0_index va = unat (drop_bit 39 va AND 0x1FF)"
definition va_l1_index :: "u64 \<Rightarrow> nat" where "va_l1_index va = unat (drop_bit 30 va AND 0x1FF)"
definition va_l2_index :: "u64 \<Rightarrow> nat" where "va_l2_index va = unat (drop_bit 21 va AND 0x1FF)"
definition va_l3_index :: "u64 \<Rightarrow> nat" where "va_l3_index va = unat (drop_bit 12 va AND 0x1FF)"

definition pa_to_pte_addr :: "nat \<Rightarrow> u64" where
  "pa_to_pte_addr pa = word_of_nat pa AND 0x0000FFFFFFFFF000"

definition pte_addr :: "u64 \<Rightarrow> nat" where
  "pte_addr e = unat (e AND 0x0000FFFFFFFFF000)"

definition pte_valid :: "u64 \<Rightarrow> bool" where
  "pte_valid e \<longleftrightarrow> e AND PTE_VALID \<noteq> 0"

definition pte_table :: "u64 \<Rightarrow> bool" where
  "pte_table e \<longleftrightarrow> e AND PTE_VALID \<noteq> 0 \<and> e AND 2 \<noteq> 0"

section \<open>State\<close>

record page_table_tree =
  pt_l0_pa :: nat
  pt_tracked :: "nat list"
  pt_count :: nat
  pt_generation :: u64
  pt_has_root :: bool

type_synonym pte_mem = "nat \<Rightarrow> nat \<Rightarrow> u64"

record ptw =
  pw_phys :: phys
  pw_pte :: pte_mem
  pw_trees :: "page_table_tree option list"

definition pt_new :: page_table_tree where
  "pt_new = \<lparr>pt_l0_pa = 0, pt_tracked = replicate 64 0, pt_count = 0, pt_generation = 0, pt_has_root = False\<rparr>"

abbreviation tree :: "nat \<Rightarrow> ptw \<Rightarrow> page_table_tree" where
  "tree k s \<equiv> the (pw_trees s ! k)"

definition set_tree :: "nat \<Rightarrow> page_table_tree \<Rightarrow> ptw \<Rightarrow> ptw" where
  "set_tree k t s = s\<lparr>pw_trees := (pw_trees s)[k := Some t]\<rparr>"

definition read_pte :: "nat \<Rightarrow> nat \<Rightarrow> ptw \<Rightarrow> u64" where
  "read_pte table_pa idx s = pw_pte s table_pa idx"

definition write_pte :: "nat \<Rightarrow> nat \<Rightarrow> u64 \<Rightarrow> ptw \<Rightarrow> ptw" where
  "write_pte table_pa idx e s = s\<lparr>pw_pte := (pw_pte s)(table_pa := (pw_pte s table_pa)(idx := e))\<rparr>"

text \<open>A page taken from the frame allocator is zero, so it holds 512 invalid descriptors.\<close>

definition alloc_table_page :: "ptw \<Rightarrow> nat res \<times> ptw" where
  "alloc_table_page s =
     (case alloc_pt_page (pw_phys s) of
        (Ok pa, p) \<Rightarrow> (Ok pa, s\<lparr>pw_phys := p, pw_pte := (pw_pte s)(pa := (\<lambda>_. 0))\<rparr>)
      | (r, p) \<Rightarrow> (r, s\<lparr>pw_phys := p\<rparr>))"

section \<open>The handle of a process\<close>

definition pt_track :: "nat \<Rightarrow> nat \<Rightarrow> ptw \<Rightarrow> ptw" where
  "pt_track k pa s =
     (let t = tree k s in
      if 64 \<le> pt_count t \<or> pa \<in> set (take (pt_count t) (pt_tracked t)) then s
      else (set_tree k (t\<lparr>pt_tracked := (pt_tracked t)[pt_count t := pa], pt_count := pt_count t + 1\<rparr>) s)
             \<lparr>pw_phys := register_pt_page pa (pw_phys s)\<rparr>)"

definition pt_set_root_raw :: "nat \<Rightarrow> nat \<Rightarrow> ptw \<Rightarrow> ptw" where
  "pt_set_root_raw k l0_pa s =
     pt_track k l0_pa (set_tree k ((tree k s)\<lparr>pt_l0_pa := l0_pa, pt_has_root := True,
        pt_generation := pt_generation (tree k s) + 1\<rparr>) s)"

definition table_entry :: "nat \<Rightarrow> u64" where
  "table_entry pa = pa_to_pte_addr pa OR PTE_VALID OR PTE_TYPE_TABLE"

definition pt_allocate_root :: "nat \<Rightarrow> ptw \<Rightarrow> unit res \<times> ptw" where
  "pt_allocate_root k s =
     (if pt_has_root (tree k s) then (Err AlreadyExists, s)
      else case alloc_table_page s of
        (Ok l0, s1) \<Rightarrow>
          (case alloc_table_page s1 of
             (Ok l1, s2) \<Rightarrow>
               (let s3 = write_pte l0 0 (table_entry l1 AND 0x0000FFFFFFFFF003) s2;
                    t = tree k s3
                in (Ok (), set_tree k (t\<lparr>pt_l0_pa := l0, pt_tracked := (pt_tracked t)[0 := l0, 1 := l1], pt_count := 2,
                        pt_generation := 1, pt_has_root := True\<rparr>) s3))
           | (Err e, s2) \<Rightarrow> (Err e, s2)
           | (Panic, s2) \<Rightarrow> (Panic, s2))
      | (Err e, s1) \<Rightarrow> (Err e, s1)
      | (Panic, s1) \<Rightarrow> (Panic, s1))"

text \<open>Copy loops: an entry is copied only when it is not zero.\<close>

definition copy_entries :: "nat list \<Rightarrow> nat \<Rightarrow> nat \<Rightarrow> ptw \<Rightarrow> ptw" where
  "copy_entries is src dst s =
     fold (\<lambda>i s. if read_pte src i s \<noteq> 0 then write_pte dst i (read_pte src i s) s else s) is s"

definition pt_clone_high_half :: "nat \<Rightarrow> nat \<Rightarrow> ptw \<Rightarrow> ptw" where
  "pt_clone_high_half k parent s =
     (if \<not> pt_has_root (tree k s) then s else copy_entries [256..<512] parent (pt_l0_pa (tree k s)) s)"

definition pt_clone_identity_block :: "nat \<Rightarrow> nat \<Rightarrow> ptw \<Rightarrow> ptw" where
  "pt_clone_identity_block k parent s =
     (if \<not> pt_has_root (tree k s) then s
      else let e = read_pte parent 0 s; mine = read_pte (pt_l0_pa (tree k s)) 0 s in
        if e = 0 \<or> pte_addr e = 0 \<or> mine = 0 \<or> pte_addr mine = 0 then s
        else copy_entries (filter (\<lambda>i. \<not> (i = 0 \<or> i = 2)) [0..<3]) (pte_addr e) (pte_addr mine) s)"

section \<open>Building tables\<close>

text \<open>
  \<open>shatter_l1_block\<close> and \<open>shatter_l2_block\<close>: a block descriptor becomes a table whose 512 entries
  map consecutive pieces of the block. \<open>attr\<close> are the attribute bits kept from the block.
\<close>

definition shatter_attr :: "u64 \<Rightarrow> u64 \<Rightarrow> u64" where
  "shatter_attr amask original = ((original AND amask) OR PTE_USER) AND NOT PTE_XN AND NOT PTE_UXN"

definition shatter_entry :: "nat \<Rightarrow> u64 \<Rightarrow> u64 \<Rightarrow> u64 \<Rightarrow> nat \<Rightarrow> u64" where
  "shatter_entry step typ amask original i =
     pa_to_pte_addr (pte_addr original + i * step) OR PTE_VALID OR typ OR shatter_attr amask original"

fun write_entries :: "nat \<Rightarrow> (nat \<Rightarrow> u64) \<Rightarrow> nat list \<Rightarrow> ptw \<Rightarrow> ptw" where
  "write_entries t f [] s = s"
| "write_entries t f (i # is) s = write_entries t f is (write_pte t i (f i) s)"

definition shatter_block ::
  "(nat \<Rightarrow> ptw \<Rightarrow> ptw) \<Rightarrow> u64 \<Rightarrow> u64 \<Rightarrow> nat \<Rightarrow> u64 \<Rightarrow> nat \<Rightarrow> nat \<Rightarrow> u64 \<Rightarrow> ptw \<Rightarrow> nat res \<times> ptw" where
  "shatter_block reg amask clean step typ table_pa idx original s =
     (case alloc_table_page s of
        (Ok n, s1) \<Rightarrow>
          (let s2 = write_entries n (shatter_entry step typ amask original) [0..<512] (reg n s1)
           in (Ok n, write_pte table_pa idx (table_entry n AND clean) s2))
      | r \<Rightarrow> r)"

definition shatter_l1_block :: "(nat \<Rightarrow> ptw \<Rightarrow> ptw) \<Rightarrow> u64 \<Rightarrow> u64 \<Rightarrow> nat \<Rightarrow> nat \<Rightarrow> u64 \<Rightarrow> ptw \<Rightarrow> nat res \<times> ptw" where
  "shatter_l1_block reg amask clean = shatter_block reg amask clean 0x200000 PTE_TYPE_BLOCK"

definition shatter_l2_block :: "(nat \<Rightarrow> ptw \<Rightarrow> ptw) \<Rightarrow> u64 \<Rightarrow> u64 \<Rightarrow> nat \<Rightarrow> nat \<Rightarrow> u64 \<Rightarrow> ptw \<Rightarrow> nat res \<times> ptw" where
  "shatter_l2_block reg amask clean = shatter_block reg amask clean 0x1000 PTE_TYPE_PAGE"

text \<open>
  One level of a mapping: follow a table, split a block, or install a new table. Recording the new
  table and writing its descriptor touch different parts of the state; \<open>map_page\<close> does them in the
  other order.
\<close>

definition ensure_table ::
  "(nat \<Rightarrow> ptw \<Rightarrow> ptw) \<Rightarrow> u64 \<Rightarrow> (u64 \<Rightarrow> ptw \<Rightarrow> nat res \<times> ptw) \<Rightarrow> nat \<Rightarrow> nat \<Rightarrow> ptw \<Rightarrow> nat res \<times> ptw" where
  "ensure_table reg clean on_block t i s =
     (let e = read_pte t i s in
      if pte_table e then (Ok (pte_addr e), s)
      else if pte_valid e then on_block e s
      else case alloc_table_page s of
        (Ok n, s1) \<Rightarrow> (Ok n, reg n (write_pte t i (table_entry n AND clean) s1))
      | r \<Rightarrow> r)"

definition map_steps ::
  "(nat \<Rightarrow> ptw \<Rightarrow> ptw) \<Rightarrow> (nat \<Rightarrow> ptw \<Rightarrow> ptw) \<Rightarrow> u64 \<Rightarrow> u64 \<Rightarrow> u64 \<Rightarrow> u64 \<Rightarrow> nat \<Rightarrow> u64 \<Rightarrow> nat \<Rightarrow> ptw \<Rightarrow> unit res \<times> ptw" where
  "map_steps reg sreg clean sclean amask attr l0_pa va pa s =
     (case ensure_table reg clean (\<lambda>e s. (Err NotAllowed, s)) l0_pa (va_l0_index va) s of
        (Ok l1, s1) \<Rightarrow>
          (case ensure_table reg clean (shatter_l1_block sreg amask sclean l1 (va_l1_index va)) l1 (va_l1_index va) s1 of
             (Ok l2, s2) \<Rightarrow>
               (case ensure_table reg clean (shatter_l2_block sreg amask sclean l2 (va_l2_index va)) l2 (va_l2_index va) s2 of
                  (Ok l3, s3) \<Rightarrow>
                    (Ok (), write_pte l3 (va_l3_index va) (pa_to_pte_addr pa OR PTE_VALID OR PTE_TYPE_PAGE OR attr) s3)
                | (Err x, s3) \<Rightarrow> (Err x, s3)
                | (Panic, s3) \<Rightarrow> (Panic, s3))
           | (Err x, s2) \<Rightarrow> (Err x, s2)
           | (Panic, s2) \<Rightarrow> (Panic, s2))
      | (Err x, s1) \<Rightarrow> (Err x, s1)
      | (Panic, s1) \<Rightarrow> (Panic, s1))"

definition pt_map_va :: "nat \<Rightarrow> u64 \<Rightarrow> u64 \<Rightarrow> map_flags \<Rightarrow> ptw \<Rightarrow> unit res \<times> ptw" where
  "pt_map_va k va pa flags s =
     (if va AND 0xFFF \<noteq> 0 \<or> pa AND 0xFFF \<noteq> 0 then (Err InvalidArgs, s)
      else if \<not> pt_has_root (tree k s) then (Err InvalidArgs, s)
      else map_steps (pt_track k) (pt_track k) 0x0000FFFFFFFFF003 0x0000FFFFFFFFF003 0x000F000000000FFF
             (pte_attr_bits flags) (pt_l0_pa (tree k s)) va (unat pa) s)"

section \<open>Walking\<close>

definition translate_user_va :: "nat \<Rightarrow> u64 \<Rightarrow> ptw \<Rightarrow> nat option" where
  "translate_user_va l0_pa va s =
     (let l0e = read_pte l0_pa (va_l0_index va) s in
      if l0e AND 1 = 0 then None
      else let l1e = read_pte (pte_addr l0e) (va_l1_index va) s in
      if l1e AND 1 = 0 then None
      else if l1e AND 2 = 0 then Some (unat (l1e AND 0x0000FFFFC0000000) + unat (va AND 0x3FFFFFFF))
      else let l2e = read_pte (pte_addr l1e) (va_l2_index va) s in
      if l2e AND 1 = 0 then None
      else if l2e AND 2 = 0 then Some (unat (l2e AND 0x0000FFFFFFE00000) + unat (va AND 0x1FFFFF))
      else let l3e = read_pte (pte_addr l2e) (va_l3_index va) s in
      if l3e AND 1 = 0 then None
      else Some (pte_addr l3e + unat (va AND 0xFFF)))"

definition pt_translate_va :: "nat \<Rightarrow> u64 \<Rightarrow> ptw \<Rightarrow> nat option" where
  "pt_translate_va k va s =
     (if \<not> pt_has_root (tree k s) then None else translate_user_va (pt_l0_pa (tree k s)) va s)"

section \<open>Mapping through \<open>mmu.rs\<close>\<close>

definition current_process_register_page_table :: "nat option \<Rightarrow> nat \<Rightarrow> ptw \<Rightarrow> ptw" where
  "current_process_register_page_table cur pa s =
     (case cur of
        None \<Rightarrow> s
      | Some k \<Rightarrow> (case pw_trees s ! k of None \<Rightarrow> s | Some _ \<Rightarrow> pt_track k pa s))"

definition register_page_table_for_l0 :: "nat \<Rightarrow> nat \<Rightarrow> ptw \<Rightarrow> ptw" where
  "register_page_table_for_l0 l0_pa pa s =
     (case find_slot (\<lambda>t. pt_has_root t \<and> pt_l0_pa t = l0_pa) (pw_trees s) of
        None \<Rightarrow> s
      | Some k \<Rightarrow> pt_track k pa s)"

text \<open>The base registers are arguments: \<open>ttbr0\<close> and \<open>ttbr1\<close> as \<open>mrs\<close> would read them.\<close>

definition root_for_va :: "u64 \<Rightarrow> u64 \<Rightarrow> u64 \<Rightarrow> u64" where
  "root_for_va ttbr0 ttbr1 va = (if KERNEL_OFFSET \<le> va then ttbr1 else if ttbr0 \<noteq> 0 then ttbr0 else ttbr1)"

definition map_page :: "nat option \<Rightarrow> u64 \<Rightarrow> u64 \<Rightarrow> u64 \<Rightarrow> u64 \<Rightarrow> map_flags \<Rightarrow> ptw \<Rightarrow> unit res \<times> ptw" where
  "map_page cur ttbr0 ttbr1 va pa flags s =
     (if va AND 0xFFF \<noteq> 0 \<or> pa AND 0xFFF \<noteq> 0 then (Err InvalidArgs, s)
      else map_steps (current_process_register_page_table cur) (current_process_register_page_table cur)
             0x07FFFFFFFFFFFFFF (NOT 0) 0xFFF0000000000FFF (mmu_attr_bits flags)
             (pte_addr (root_for_va ttbr0 ttbr1 va)) va (unat pa) s)"

definition map_page_under_l0 :: "nat option \<Rightarrow> nat \<Rightarrow> u64 \<Rightarrow> u64 \<Rightarrow> map_flags \<Rightarrow> ptw \<Rightarrow> unit res \<times> ptw" where
  "map_page_under_l0 cur l0_pa va pa flags s =
     (if va AND 0xFFF \<noteq> 0 \<or> pa AND 0xFFF \<noteq> 0 then (Err InvalidArgs, s)
      else map_steps (register_page_table_for_l0 l0_pa) (current_process_register_page_table cur)
             0x07FFFFFFFFFFFFFF (NOT 0) 0xFFF0000000000FFF (mmu_attr_bits flags) l0_pa va (unat pa) s)"

definition unmap_page :: "u64 \<Rightarrow> u64 \<Rightarrow> u64 \<Rightarrow> ptw \<Rightarrow> unit res \<times> ptw" where
  "unmap_page ttbr0 ttbr1 va s =
     (if va AND 0xFFF \<noteq> 0 then (Err InvalidArgs, s)
      else let l0e = read_pte (pte_addr (root_for_va ttbr0 ttbr1 va)) (va_l0_index va) s in
      if l0e AND PTE_VALID = 0 \<or> l0e AND 2 = 0 then (Ok (), s)
      else let l1e = read_pte (pte_addr l0e) (va_l1_index va) s in
      if l1e AND PTE_VALID = 0 \<or> l1e AND 2 = 0 then (Ok (), s)
      else let l2e = read_pte (pte_addr l1e) (va_l2_index va) s in
      if l2e AND PTE_VALID = 0 \<or> l2e AND 2 = 0 then (Ok (), s)
      else (Ok (), write_pte (pte_addr l2e) (va_l3_index va) 0 s))"

section \<open>Release\<close>

text \<open>
  \<open>free_tree\<close> frees the tracked pages, last first; the panics of \<open>free_page\<close> end the call.
\<close>

fun free_all :: "nat list \<Rightarrow> phys \<Rightarrow> unit res \<times> phys" where
  "free_all [] p = (Ok (), p)"
| "free_all (pa # pas) p =
     (case free_page pa p of
        (Panic, p1) \<Rightarrow> (Panic, p1)
      | (_, p1) \<Rightarrow> free_all pas p1)"

definition pt_free_tree :: "nat \<Rightarrow> ptw \<Rightarrow> unit res \<times> ptw" where
  "pt_free_tree k s =
     (let t = tree k s in
      if \<not> pt_has_root t then (Ok (), s)
      else case free_all (filter (\<lambda>pa. pa \<noteq> 0) (rev (take (pt_count t) (pt_tracked t)))) (pw_phys s) of
        (Ok _, p) \<Rightarrow> (Ok (), (set_tree k (t\<lparr>pt_l0_pa := 0, pt_count := 0, pt_generation := 0, pt_has_root := False\<rparr>) s)\<lparr>pw_phys := p\<rparr>)
      | (r, p) \<Rightarrow> (r, s\<lparr>pw_phys := p\<rparr>))"

text \<open>\<open>free_page_table_tree\<close>: the user half, leaves first; block descriptors are skipped.\<close>

definition child_tables :: "nat \<Rightarrow> nat list \<Rightarrow> ptw \<Rightarrow> nat list" where
  "child_tables t is s = map (\<lambda>i. pte_addr (read_pte t i s)) (filter (\<lambda>i. pte_table (read_pte t i s)) is)"

definition free_page_table_tree :: "nat \<Rightarrow> ptw \<Rightarrow> unit res \<times> ptw" where
  "free_page_table_tree l0_pa s =
     (let order = concat (map (\<lambda>l1. concat (map (\<lambda>l2. child_tables l2 [0..<512] s @ [l2]) (child_tables l1 [0..<512] s)) @ [l1])
                    (child_tables l0_pa [0..<256] s)) @ [l0_pa];
          (r, p) = free_all order (pw_phys s)
      in (r, s\<lparr>pw_phys := p\<rparr>))"

section \<open>Consistency check\<close>

text \<open>
  \<open>validate\<close> collects the reachable tables of the user half, at most 64 and without repetition, and
  compares them with the tracked ones.
\<close>

definition track_reachable :: "nat \<Rightarrow> nat list \<Rightarrow> nat list" where
  "track_reachable pa rs = (if 64 \<le> length rs \<or> pa \<in> set rs then rs else rs @ [pa])"

definition visited_tables :: "nat \<Rightarrow> ptw \<Rightarrow> nat list" where
  "visited_tables l0_pa s =
     l0_pa # concat (map (\<lambda>l1. l1 # concat (map (\<lambda>l2. l2 # child_tables l2 [0..<512] s) (child_tables l1 [0..<512] s)))
       (child_tables l0_pa [0..<256] s))"

definition pt_validate :: "nat \<Rightarrow> ptw \<Rightarrow> bool" where
  "pt_validate k s =
     (let t = tree k s; l0 = pt_l0_pa t; tracked = take (pt_count t) (pt_tracked t);
          reachable = fold track_reachable (visited_tables l0 s) []
      in \<not> pt_has_root t
         \<or> list_all (\<lambda>i. pte_valid (read_pte l0 i s) \<longrightarrow> pte_table (read_pte l0 i s)) [0..<256]
           \<and> list_all (\<lambda>l1. list_all (\<lambda>l2. list_all (\<lambda>l3.
                list_all (\<lambda>i. pte_valid (read_pte l3 i s) \<longrightarrow> read_pte l3 i s AND 2 \<noteq> 0) [0..<512])
                (child_tables l2 [0..<512] s)) (child_tables l1 [0..<512] s)) (child_tables l0 [0..<256] s)
           \<and> list_all (\<lambda>pa. pa \<noteq> 0 \<longrightarrow> pa \<in> set reachable) tracked
           \<and> list_all (\<lambda>pa. pa \<in> set tracked) reachable)"

section \<open>Descriptor arithmetic\<close>

lemma bit_C0000000_int: "bit (0x0000FFFFC0000000 :: int) n \<longleftrightarrow> 30 \<le> n \<and> n < 48"
proof -
  have "(0x0000FFFFC0000000 :: int) = push_bit 30 (mask 18)" by (simp add: push_bit_eq_mult mask_eq_exp_minus_1)
  then show ?thesis by (simp only: bit_push_bit_iff_int bit_mask_iff) auto
qed

lemma bit_FFE00000_int: "bit (0x0000FFFFFFE00000 :: int) n \<longleftrightarrow> 21 \<le> n \<and> n < 48"
proof -
  have "(0x0000FFFFFFE00000 :: int) = push_bit 21 (mask 27)" by (simp add: push_bit_eq_mult mask_eq_exp_minus_1)
  then show ?thesis by (simp only: bit_push_bit_iff_int bit_mask_iff) auto
qed

lemma field_push: "(e :: u64) AND 0x0000FFFFFFFFF000 = push_bit 12 (take_bit 36 (drop_bit 12 e))"
  "e AND 0x0000FFFFFFE00000 = push_bit 21 (take_bit 27 (drop_bit 21 e))"
  "e AND 0x0000FFFFC0000000 = push_bit 30 (take_bit 18 (drop_bit 30 e))"
  by (rule bit_word_eqI; auto simp: bit_simps bit_field_int bit_FFE00000_int bit_C0000000_int)+

text \<open>The output address of a descriptor whose region is \<open>2 ^ s\<close> bytes.\<close>

definition region_base :: "nat \<Rightarrow> u64 \<Rightarrow> nat" where
  "region_base s e = unat e div 2 ^ s mod 2 ^ (48 - s) * 2 ^ s"

lemma unat_field:
  assumes "a + b = 48"
  shows "unat (push_bit a (take_bit b (drop_bit a (e :: u64)))) = unat e div 2 ^ a mod 2 ^ b * 2 ^ a"
proof -
  have "unat e div 2 ^ a mod 2 ^ b * 2 ^ a < 2 ^ b * (2 ^ a :: nat)" by simp
  also have "\<dots> = 2 ^ 48" using assms by (simp add: power_add [symmetric] add.commute)
  also have "\<dots> < 2 ^ 64" by simp
  finally have lt: "unat e div 2 ^ a mod 2 ^ b * 2 ^ a < 2 ^ 64" .
  have "unat (push_bit a (take_bit b (drop_bit a e))) = take_bit 64 (push_bit a (unat (take_bit b (drop_bit a e))))"
    by (simp only: unsigned_push_bit_eq) simp
  also have "unat (take_bit b (drop_bit a e)) = unat e div 2 ^ a mod 2 ^ b"
    by (simp only: unsigned_take_bit_eq unsigned_drop_bit_eq) (simp only: take_bit_eq_mod drop_bit_eq_div mod_less [OF unat_bound])
  also have "take_bit 64 (push_bit a (unat e div 2 ^ a mod 2 ^ b)) = unat e div 2 ^ a mod 2 ^ b * 2 ^ a"
    using lt by (simp only: push_bit_eq_mult take_bit_nat_eq_self)
  finally show ?thesis .
qed

lemma pte_addr_eq: "pte_addr e = region_base 12 e"
  and block_l1_eq: "unat (e AND 0x0000FFFFC0000000) = region_base 30 e"
  and block_l2_eq: "unat (e AND 0x0000FFFFFFE00000) = region_base 21 e"
  unfolding pte_addr_def region_base_def field_push by (subst unat_field; simp)+

lemma index_eq: "unat (drop_bit s va AND 0x1FF) = unat (va :: u64) div 2 ^ s mod 512"
proof -
  have "(0x1FF :: u64) = mask 9" by (simp add: mask_eq_exp_minus_1)
  then have "drop_bit s va AND 0x1FF = take_bit 9 (drop_bit s va)" by (simp only: take_bit_eq_mask)
  moreover have "unat (take_bit 9 (drop_bit s va)) = unat va div 2 ^ s mod 2 ^ 9"
    by (simp only: unsigned_take_bit_eq unsigned_drop_bit_eq) (simp only: take_bit_eq_mod drop_bit_eq_div mod_less [OF unat_bound])
  ultimately show ?thesis by simp
qed

lemma offset_eq: "unat ((va :: u64) AND 0xFFF) = unat va mod 2 ^ 12"
  "unat (va AND 0x1FFFFF) = unat va mod 2 ^ 21" "unat (va AND 0x3FFFFFFF) = unat va mod 2 ^ 30"
proof -
  have m: "(0xFFF :: u64) = mask 12" "(0x1FFFFF :: u64) = mask 21" "(0x3FFFFFFF :: u64) = mask 30"
    by (simp_all add: mask_eq_exp_minus_1)
  show "unat (va AND 0xFFF) = unat va mod 2 ^ 12" "unat (va AND 0x1FFFFF) = unat va mod 2 ^ 21"
    "unat (va AND 0x3FFFFFFF) = unat va mod 2 ^ 30"
    unfolding m take_bit_eq_mask [symmetric] by (simp_all only: unsigned_take_bit_eq) (simp_all only: take_bit_eq_mod)
qed

lemma field_or: "pte_addr (a OR b) = pte_addr a" if "b AND 0x0000FFFFFFFFF000 = 0"
  using that by (simp add: pte_addr_def bit.conj_disj_distrib2)

lemma pte_addr_of_pa:
  assumes "4096 dvd pa" "pa < 2 ^ 48"
  shows "pte_addr (pa_to_pte_addr pa) = pa"
proof -
  have u: "unat (word_of_nat pa :: u64) = pa" using assms(2) by (simp add: unsigned_of_nat take_bit_nat_eq_self)
  have "pte_addr (pa_to_pte_addr pa) = region_base 12 (word_of_nat pa)"
    by (simp add: pte_addr_def pa_to_pte_addr_def and.assoc flip: pte_addr_eq)
  also have "\<dots> = pa div 4096 mod 2 ^ 36 * 4096" by (simp add: region_base_def u)
  also have "pa div 4096 mod 2 ^ 36 = pa div 4096" using assms(2) by (simp add: less_mult_imp_div_less)
  finally show ?thesis using assms(1) by simp
qed

section \<open>Walks and trees\<close>

text \<open>
  \<open>walk n\<close> is the translation that remains below a table of level \<open>3 - n\<close>; \<open>va_index n\<close> is the index
  into that table.
\<close>

definition va_index :: "nat \<Rightarrow> u64 \<Rightarrow> nat" where
  "va_index n va = unat va div 2 ^ (12 + 9 * n) mod 512"

primrec walk :: "nat \<Rightarrow> pte_mem \<Rightarrow> nat \<Rightarrow> u64 \<Rightarrow> nat option" where
  "walk 0 m t va = (let e = m t (va_index 0 va) in if pte_valid e then Some (pte_addr e + unat va mod 2 ^ 12) else None)"
| "walk (Suc n) m t va =
     (let e = m t (va_index (Suc n) va) in
      if \<not> pte_valid e then None
      else if pte_table e then walk n m (pte_addr e) va
      else Some (region_base (12 + 9 * Suc n) e + unat va mod 2 ^ (12 + 9 * Suc n)))"

definition va_path :: "u64 \<Rightarrow> nat list" where
  "va_path va = [va_index 3 va, va_index 2 va, va_index 1 va, va_index 0 va]"

primrec table_at :: "pte_mem \<Rightarrow> nat \<Rightarrow> nat list \<Rightarrow> nat option" where
  "table_at m r [] = Some r"
| "table_at m r (i # is) = (if pte_table (m r i) then table_at m (pte_addr (m r i)) is else None)"

lemma table_at_snoc:
  "table_at m r (p @ [i]) =
     (case table_at m r p of None \<Rightarrow> None | Some t \<Rightarrow> if pte_table (m t i) then Some (pte_addr (m t i)) else None)"
  by (induction p arbitrary: r) auto

text \<open>
  A well-formed tree below \<open>N\<close>: no table is referenced twice, every table lies below \<open>N\<close>, the root
  has no block entries, and blocks are aligned to their size.
\<close>

definition tree_wf :: "pte_mem \<Rightarrow> nat \<Rightarrow> nat \<Rightarrow> bool" where
  "tree_wf m r N \<longleftrightarrow>
     (\<forall>p q t. length p \<le> 3 \<and> length q \<le> 3 \<and> table_at m r p = Some t \<and> table_at m r q = Some t \<longrightarrow> p = q)
     \<and> (\<forall>p t. length p \<le> 3 \<and> table_at m r p = Some t \<longrightarrow> t < N)
     \<and> (\<forall>p t i. length p \<le> 2 \<and> table_at m r p = Some t \<and> pte_valid (m t i) \<and> \<not> pte_table (m t i) \<longrightarrow>
          p \<noteq> [] \<and> pte_addr (m t i) = region_base (12 + 9 * (3 - length p)) (m t i))"

lemma tree_wf_inj:
  "tree_wf m r N \<Longrightarrow> length p \<le> 3 \<Longrightarrow> length q \<le> 3 \<Longrightarrow> table_at m r p = Some t \<Longrightarrow> table_at m r q = Some t \<Longrightarrow> p = q"
  unfolding tree_wf_def by blast

lemma tree_wf_below: "tree_wf m r N \<Longrightarrow> length p \<le> 3 \<Longrightarrow> table_at m r p = Some t \<Longrightarrow> t < N"
  unfolding tree_wf_def by blast

lemma tree_wf_block:
  "tree_wf m r N \<Longrightarrow> length p \<le> 2 \<Longrightarrow> table_at m r p = Some t \<Longrightarrow> pte_valid (m t i) \<Longrightarrow> \<not> pte_table (m t i) \<Longrightarrow>
     p \<noteq> [] \<and> pte_addr (m t i) = region_base (12 + 9 * (3 - length p)) (m t i)"
  unfolding tree_wf_def by blast

lemma tree_wf_mono: "tree_wf m r N \<Longrightarrow> N \<le> N' \<Longrightarrow> tree_wf m r N'"
  unfolding tree_wf_def by (meson less_le_trans)

lemma length_va_path [simp]: "length (va_path va) = 4"
  by (simp add: va_path_def)

lemma va_path_nth: "n \<le> 3 \<Longrightarrow> va_path va ! (3 - n) = va_index n va"
proof -
  assume "n \<le> 3"
  then have "n = 0 \<or> n = 1 \<or> n = 2 \<or> n = 3" by auto
  then show ?thesis by (elim disjE) (simp_all add: va_path_def)
qed

lemma va_path_take: "n \<le> 3 \<Longrightarrow> take (4 - n) (va_path va) = take (3 - n) (va_path va) @ [va_index n va]"
proof -
  assume n: "n \<le> 3"
  then have "4 - n = Suc (3 - n)" "3 - n < length (va_path va)" by auto
  then show ?thesis using take_Suc_conv_app_nth [of "3 - n" "va_path va"] va_path_nth [OF n, of va] by simp
qed

lemma walk_at:
  assumes "n \<le> 3" "table_at m r (take (3 - n) (va_path va)) = Some t"
  shows "walk 3 m r va = walk n m t va"
  using assms
proof (induction "3 - n" arbitrary: n t)
  case 0
  then show ?case by simp
next
  case (Suc k)
  then have n: "Suc n \<le> 3" "k = 3 - Suc n" by auto
  have "take (3 - n) (va_path va) = take (3 - Suc n) (va_path va) @ [va_index (Suc n) va]"
    using va_path_take [OF n(1), of va] n by (simp add: Suc_diff_le)
  then obtain u where u: "table_at m r (take (3 - Suc n) (va_path va)) = Some u"
    "pte_table (m u (va_index (Suc n) va))" "t = pte_addr (m u (va_index (Suc n) va))"
    using Suc.prems(2) by (auto simp: table_at_snoc split: option.splits if_splits)
  have "walk 3 m r va = walk (Suc n) m u va" by (rule Suc.hyps(1) [OF n(2) n(1) u(1)])
  also have "\<dots> = walk n m t va" using u by (simp add: pte_table_def pte_valid_def Let_def)
  finally show ?case .
qed

text \<open>Changing one entry of one table affects only the paths through it.\<close>

lemma table_at_frame:
  assumes wf: "tree_wf m r N" and p: "table_at m r p = Some t" "length p \<le> 3"
    and same: "\<forall>u j. u < N \<and> \<not> (u = t \<and> j = i) \<longrightarrow> m' u j = m u j"
    and q: "length q \<le> 3" "\<not> prefix (p @ [i]) q"
  shows "table_at m' r q = table_at m r q"
  using q
proof (induction q rule: rev_induct)
  case Nil
  then show ?case by simp
next
  case (snoc j q)
  have IH: "table_at m' r q = table_at m r q" using snoc by (auto simp: prefix_append)
  show ?case
  proof (cases "table_at m r q")
    case None
    then show ?thesis by (simp add: table_at_snoc IH)
  next
    case (Some u)
    have "u < N" using tree_wf_below [OF wf _ Some] snoc.prems by simp
    moreover have "\<not> (u = t \<and> j = i)"
      using tree_wf_inj [OF wf, of q p u] snoc.prems Some p by auto
    ultimately show ?thesis using same by (simp add: table_at_snoc IH Some)
  qed
qed

lemma walk_frame_below:
  assumes wf: "tree_wf m r N" and p: "table_at m r p = Some t" "length p \<le> 3"
    and same: "\<forall>u j. u < N \<and> \<not> (u = t \<and> j = i) \<longrightarrow> m' u j = m u j"
    and va: "\<not> prefix (p @ [i]) (va_path va)"
  shows "n \<le> 3 \<Longrightarrow> table_at m r (take (3 - n) (va_path va)) = Some u \<Longrightarrow> walk n m' u va = walk n m u va"
proof (induction n arbitrary: u)
  case (Suc n)
  let ?j = "va_index (Suc n) va"
  have "u < N" using tree_wf_below [OF wf _ Suc.prems(2)] by simp
  moreover have ne: "\<not> (u = t \<and> ?j = i)"
  proof
    assume a: "u = t \<and> ?j = i"
    then have "take (3 - Suc n) (va_path va) = p" using tree_wf_inj [OF wf _ p(2) Suc.prems(2)] p(1) by auto
    then have "p @ [i] = take (4 - Suc n) (va_path va)" using va_path_take [OF Suc.prems(1), of va] a by simp
    then show False using va by (metis take_is_prefix)
  qed
  ultimately have e: "m' u ?j = m u ?j" using same by blast
  show ?case
  proof (cases "pte_table (m u ?j)")
    case True
    have "take (3 - n) (va_path va) = take (3 - Suc n) (va_path va) @ [?j]"
      using va_path_take [OF Suc.prems(1), of va] Suc.prems(1) by (simp add: Suc_diff_le)
    then have "table_at m r (take (3 - n) (va_path va)) = Some (pte_addr (m u ?j))"
      using True Suc.prems(2) by (simp add: table_at_snoc)
    with Suc.IH Suc.prems(1) e show ?thesis by (simp add: Let_def)
  next
    case False
    with e show ?thesis by (simp add: Let_def)
  qed
next
  case 0
  let ?j = "va_index 0 va"
  have "u < N" using tree_wf_below [OF wf _ 0(2)] by simp
  moreover have ne: "\<not> (u = t \<and> ?j = i)"
  proof
    assume a: "u = t \<and> ?j = i"
    then have "take 3 (va_path va) = p" using tree_wf_inj [OF wf _ p(2) 0(2)] p(1) by auto
    then have "p @ [i] = va_path va" using a by (auto simp: va_path_def)
    then show False using va by simp
  qed
  ultimately show ?case using same by simp
qed

lemma walk_frame:
  assumes "tree_wf m r N" "table_at m r p = Some t" "length p \<le> 3"
    and "\<forall>u j. u < N \<and> \<not> (u = t \<and> j = i) \<longrightarrow> m' u j = m u j" and "\<not> prefix (p @ [i]) (va_path va)"
  shows "walk 3 m' r va = walk 3 m r va"
  using walk_frame_below [OF assms, of 3 r] by simp

text \<open>What a table without children maps.\<close>

definition leaf_walk :: "nat \<Rightarrow> (nat \<Rightarrow> u64) \<Rightarrow> u64 \<Rightarrow> nat option" where
  "leaf_walk n f va =
     (let e = f (va_index n va) in
      if pte_valid e then Some (region_base (12 + 9 * n) e + unat va mod 2 ^ (12 + 9 * n)) else None)"

text \<open>
  Installing a fresh table \<open>t'\<close> with contents \<open>f\<close> at an entry that held no table keeps the tree
  well formed, and keeps the translation when \<open>f\<close> maps what the entry mapped.
\<close>

lemma link_spec:
  assumes wf: "tree_wf m r N" and p: "table_at m r p = Some t" "length p \<le> 2" and old: "\<not> pte_table (m t i)"
    and fresh: "N \<le> t'" "t' < N'" and e: "pte_table e" "pte_addr e = t'"
    and f: "length p \<le> 1 \<Longrightarrow> (\<forall>j. \<not> pte_table (f j)
        \<and> (pte_valid (f j) \<longrightarrow> pte_addr (f j) = region_base (12 + 9 * (2 - length p)) (f j)))"
    and same: "\<And>va. va_index (3 - length p) va = i \<Longrightarrow> leaf_walk (2 - length p) f va = walk (3 - length p) m t va"
    and m': "m' = m(t' := f, t := (m t)(i := e))"
  shows "tree_wf m' r N'" "table_at m' r (p @ [i]) = Some t'" "walk 3 m' r va = walk 3 m r va"
proof -
  have tN: "t < N" using tree_wf_below [OF wf _ p(1)] p(2) by simp
  then have ne: "t \<noteq> t'" using fresh by simp
  have keep: "\<forall>u j. u < N \<and> \<not> (u = t \<and> j = i) \<longrightarrow> m' u j = m u j" using fresh by (auto simp: m')
  have p3: "length p \<le> 3" using p(2) by simp
  note tf = table_at_frame [OF wf p(1) p3 keep]
  have tp: "table_at m' r p = Some t" using tf [of p] p3 p(1) by auto
  have ti: "m' t i = e" by (simp add: m')
  show link: "table_at m' r (p @ [i]) = Some t'" using tp e by (simp add: table_at_snoc ti)
  have ext: "table_at m' r (p @ [i] @ j # q) = None" if "length (p @ [i] @ j # q) \<le> 3" for j q
  proof -
    have "\<not> pte_table (m' t' j)" using f that ne by (simp add: m')
    moreover have "table_at m' r (xs @ ys) = (case table_at m' r xs of None \<Rightarrow> None | Some u \<Rightarrow> table_at m' u ys)" for xs ys
      by (induction xs arbitrary: r) auto
    note this [of "p @ [i]" "j # q"]
    ultimately show ?thesis using link by simp
  qed
  have cases: "(\<not> prefix (p @ [i]) q \<and> table_at m r q = Some u) \<or> (q = p @ [i] \<and> u = t')"
    if q: "length q \<le> 3" "table_at m' r q = Some u" for q u
  proof (cases "prefix (p @ [i]) q")
    case True
    then obtain z where z: "q = (p @ [i]) @ z" by (auto simp: prefix_def)
    show ?thesis
    proof (cases z)
      case Nil
      then show ?thesis using z q link by auto
    next
      case (Cons j y)
      then show ?thesis using ext [of j y] z q by simp
    qed
  next
    case False
    then show ?thesis using tf [OF q(1)] q(2) by simp
  qed
  have old_below: "u < N" if "length q \<le> 3" "table_at m r q = Some u" for q u using tree_wf_below [OF wf that] .
  show "tree_wf m' r N'"
    unfolding tree_wf_def
  proof (intro conjI allI impI)
    fix q q' u assume a: "length q \<le> 3 \<and> length q' \<le> 3 \<and> table_at m' r q = Some u \<and> table_at m' r q' = Some u"
    then show "q = q'"
      using cases [of q u] cases [of q' u] tree_wf_inj [OF wf, of q q' u] old_below [of q u] old_below [of q' u] fresh by auto
  next
    fix q u assume "length q \<le> 3 \<and> table_at m' r q = Some u"
    then show "u < N'" using cases [of q u] old_below [of q u] fresh by auto
  next
    fix q u j assume a: "length q \<le> 2 \<and> table_at m' r q = Some u \<and> pte_valid (m' u j) \<and> \<not> pte_table (m' u j)"
    have q3: "length q \<le> 3" using a by simp
    consider (old) "table_at m r q = Some u" | (new) "q = p @ [i]" "u = t'" using cases [OF q3, of u] a by auto
    then have "q \<noteq> [] \<and> pte_addr (m' u j) = region_base (12 + 9 * (3 - length q)) (m' u j)"
    proof cases
      case old
      then have "\<not> (u = t \<and> j = i)" using a e ti by auto
      then have "m' u j = m u j" using keep old_below [OF q3 old] by simp
      then show ?thesis using tree_wf_block [OF wf _ old, of j] a by simp
    next
      case new
      then have "m' u j = f j" "length p \<le> 1" using ne a by (auto simp: m')
      then show ?thesis using f a new by simp
    qed
    then show "q \<noteq> []" "pte_addr (m' u j) = region_base (12 + 9 * (3 - length q)) (m' u j)" by auto
  qed
  show "walk 3 m' r va = walk 3 m r va"
  proof (cases "prefix (p @ [i]) (va_path va)")
    case False
    show ?thesis by (rule walk_frame [OF wf p(1) p3 keep False])
  next
    case True
    let ?n = "2 - length p"
    have n: "3 - length p = Suc ?n" "?n \<le> 3" "3 - ?n = Suc (length p)" using p(2) by auto
    have tk: "p @ [i] = take (Suc (length p)) (va_path va)" using True by (auto simp: prefix_def)
    have pk: "p = take (length p) (va_path va)" using True by (auto simp: prefix_def)
    have idx: "va_index (3 - length p) va = i"
      using va_path_nth [of "3 - length p" va] tk p(2)
      by (metis diff_diff_cancel diff_le_self le_trans lessI nth_append_length nth_take p3)
    have "walk 3 m' r va = walk ?n m' t' va"
      by (rule walk_at [OF n(2)]) (use link tk n(3) in simp)
    also have "\<dots> = leaf_walk ?n f va"
    proof (cases ?n)
      case 0
      then show ?thesis using ne by (simp add: leaf_walk_def m' Let_def pte_addr_eq)
    next
      case (Suc k)
      then have "\<not> pte_table (f (va_index ?n va))" using f by simp
      then show ?thesis using Suc ne by (simp add: leaf_walk_def m' Let_def)
    qed
    also have "\<dots> = walk (3 - length p) m t va" by (rule same [OF idx])
    also have "\<dots> = walk 3 m r va"
      using walk_at [of "3 - length p" m r va t] p pk by (simp add: p3)
    finally show ?thesis .
  qed
qed

text \<open>Writing a page descriptor changes the translation of that page only.\<close>

lemma leaf_write_spec:
  assumes wf: "tree_wf m r N" and p: "table_at m r p = Some t" "length p = 3" and m': "m' = m(t := (m t)(i := e))"
  shows "tree_wf m' r N"
    "walk 3 m' r va = (if va_path va = p @ [i] then (if pte_valid e then Some (pte_addr e + unat va mod 2 ^ 12) else None)
       else walk 3 m r va)"
    "length q \<le> 3 \<Longrightarrow> table_at m' r q = table_at m r q"
proof -
  have keep: "\<forall>u j. u < N \<and> \<not> (u = t \<and> j = i) \<longrightarrow> m' u j = m u j" by (auto simp: m')
  have p3: "length p \<le> 3" using p(2) by simp
  have same: "table_at m' r q = table_at m r q" if "length q \<le> 3" for q
  proof -
    have "\<not> prefix (p @ [i]) q" using that p(2) by (auto dest: prefix_length_le)
    then show ?thesis using table_at_frame [OF wf p(1) p3 keep that] by simp
  qed
  show "length q \<le> 3 \<Longrightarrow> table_at m' r q = table_at m r q" by (rule same)
  have upper: "m' u j = m u j" if "length q \<le> 2" "table_at m r q = Some u" for q u j
    using tree_wf_inj [OF wf, of q p u] p that tree_wf_below [OF wf _ that(2)] keep by (cases "u = t") auto
  show "tree_wf m' r N"
    unfolding tree_wf_def
  proof (intro conjI allI impI)
    fix q q' u assume "length q \<le> 3 \<and> length q' \<le> 3 \<and> table_at m' r q = Some u \<and> table_at m' r q' = Some u"
    then show "q = q'" using same tree_wf_inj [OF wf, of q q' u] by auto
  next
    fix q u assume "length q \<le> 3 \<and> table_at m' r q = Some u"
    then show "u < N" using same tree_wf_below [OF wf, of q u] by auto
  next
    fix q u j assume a: "length q \<le> 2 \<and> table_at m' r q = Some u \<and> pte_valid (m' u j) \<and> \<not> pte_table (m' u j)"
    then have "table_at m r q = Some u" using same [of q] by simp
    then show "q \<noteq> []" "pte_addr (m' u j) = region_base (12 + 9 * (3 - length q)) (m' u j)"
      using tree_wf_block [OF wf, of q u j] a upper [of q u j] by auto
  qed
  show "walk 3 m' r va = (if va_path va = p @ [i] then (if pte_valid e then Some (pte_addr e + unat va mod 2 ^ 12) else None)
       else walk 3 m r va)"
  proof (cases "va_path va = p @ [i]")
    case True
    then have tk: "take 3 (va_path va) = p" using p(2) by simp
    have idx: "va_index 0 va = i" using True p(2) by (auto simp: va_path_def append_eq_conv_conj)
    have "walk 3 m' r va = walk 0 m' t va"
      by (rule walk_at) (use same [OF p3] p tk in simp_all)
    then show ?thesis using True idx by (simp add: m' Let_def)
  next
    case False
    have "\<not> prefix (p @ [i]) (va_path va)"
    proof
      assume "prefix (p @ [i]) (va_path va)"
      then obtain z where z: "va_path va = (p @ [i]) @ z" by (auto simp: prefix_def)
      from arg_cong [OF z, of length] p(2) have "z = []" by simp
      then show False using z False by simp
    qed
    then show ?thesis using False walk_frame [OF wf p(1) p3 keep] by simp
  qed
qed

section \<open>The steps of a mapping\<close>

lemma walk_unfold:
  "walk 3 m t va = (let e = m t (va_index 3 va) in if \<not> pte_valid e then None
     else if pte_table e then walk 2 m (pte_addr e) va else Some (region_base 39 e + unat va mod 2 ^ 39))"
  "walk 2 m t va = (let e = m t (va_index 2 va) in if \<not> pte_valid e then None
     else if pte_table e then walk 1 m (pte_addr e) va else Some (region_base 30 e + unat va mod 2 ^ 30))"
  "walk 1 m t va = (let e = m t (va_index 1 va) in if \<not> pte_valid e then None
     else if pte_table e then walk 0 m (pte_addr e) va else Some (region_base 21 e + unat va mod 2 ^ 21))"
  using walk.simps(2) [of 2 m t va] walk.simps(2) [of 1 m t va] walk.simps(2) [of 0 m t va]
  by (simp_all add: Let_def numeral_2_eq_2 [symmetric] del: walk.simps)

lemma translate_is_walk:
  assumes "tree_wf (pw_pte s) l0 N"
  shows "translate_user_va l0 va s = walk 3 (pw_pte s) l0 va"
proof -
  have idx: "va_l0_index va = va_index 3 va" "va_l1_index va = va_index 2 va" "va_l2_index va = va_index 1 va"
    "va_l3_index va = va_index 0 va"
    by (simp_all add: va_l0_index_def va_l1_index_def va_l2_index_def va_l3_index_def index_eq va_index_def)
  have root: "pte_table (pw_pte s l0 i)" if "pte_valid (pw_pte s l0 i)" for i
    using tree_wf_block [OF assms, of "[]" l0 i] that by auto
  have v: "pte_valid e \<longleftrightarrow> e AND 1 \<noteq> 0" "pte_table e \<longleftrightarrow> pte_valid e \<and> e AND 2 \<noteq> 0" for e
    by (simp_all add: pte_valid_def pte_table_def PTE_VALID_def)
  show ?thesis
    unfolding translate_user_va_def walk_unfold read_pte_def idx Let_def block_l1_eq block_l2_eq offset_eq
    using root [of "va_index 3 va"] by (simp add: v)
qed

lemma mod_mult_div: "0 < b \<Longrightarrow> a mod (b * c) div b = a div b mod (c :: nat)"
  by (simp add: mod_mult2_eq)

lemma region_base_alt: "s \<le> 48 \<Longrightarrow> region_base s e = unat e mod 2 ^ 48 div 2 ^ s * 2 ^ s"
proof -
  assume "s \<le> 48"
  then have eq: "(2 :: nat) ^ 48 = 2 ^ s * 2 ^ (48 - s)" by (simp only: power_add [symmetric]) simp
  show ?thesis unfolding region_base_def eq by (subst mod_mult_div) simp_all
qed

lemma region_base_less: "s \<le> 48 \<Longrightarrow> region_base s e + 2 ^ s \<le> 2 ^ 48" "2 ^ s dvd region_base s e"
proof -
  assume s: "s \<le> 48"
  have "unat e div 2 ^ s mod 2 ^ (48 - s) < 2 ^ (48 - s)" by simp
  then have "unat e div 2 ^ s mod 2 ^ (48 - s) + 1 \<le> 2 ^ (48 - s)" by linarith
  then have "(unat e div 2 ^ s mod 2 ^ (48 - s) + 1) * 2 ^ s \<le> 2 ^ (48 - s) * 2 ^ s"
    by (intro mult_right_mono) auto
  also have "\<dots> = 2 ^ 48" using s by (simp only: power_add [symmetric]) simp
  finally show "region_base s e + 2 ^ s \<le> 2 ^ 48" by (simp add: region_base_def algebra_simps)
qed (simp add: region_base_def)

lemma region_base_aligned:
  assumes "12 \<le> s" "s \<le> 48" "2 ^ s dvd region_base 12 e"
  shows "region_base s e = region_base 12 e"
proof -
  let ?y = "unat e mod 2 ^ 48" and ?z = "region_base 12 e"
  have z: "?z = ?y div 2 ^ 12 * 2 ^ 12" by (rule region_base_alt) simp
  have "?z \<le> ?y" unfolding z by (simp only: div_times_less_eq_dividend)
  moreover have "?y < ?z + 2 ^ 12" unfolding z using dividend_less_div_times [of "2 ^ 12" ?y] by (simp add: add.commute)
  moreover have "(2 :: nat) ^ 12 \<le> 2 ^ s" using assms(1) by (rule power_increasing) simp
  moreover obtain k where k: "?z = k * 2 ^ s" using assms(3) by (auto elim: dvdE)
  ultimately have "?y div 2 ^ s = k" by (intro div_nat_eqI) (auto simp: algebra_simps)
  then show ?thesis using region_base_alt [OF assms(2)] k by simp
qed

lemma va_split: "unat va mod 2 ^ (12 + 9 * Suc n) = va_index n va * 2 ^ (12 + 9 * n) + unat va mod 2 ^ (12 + 9 * n)"
proof -
  have eq: "(2 :: nat) ^ (12 + 9 * Suc n) = 2 ^ (12 + 9 * n) * 512" by (simp add: power_add)
  show ?thesis unfolding eq va_index_def by (subst mod_mult2_eq) (simp only: mult.commute)
qed

lemma va_index_less: "va_index n va < 512"
  by (simp add: va_index_def)

section \<open>Table pages\<close>

definition root_wf :: "nat \<Rightarrow> ptw \<Rightarrow> bool" where
  "root_wf l0 s \<longleftrightarrow> phys_inv (pw_phys s) \<and> tree_wf (pw_pte s) l0 (next_free_page (pw_phys s))"

lemma alloc_table_page_cases:
  assumes "phys_inv (pw_phys s)"
  obtains (none) "alloc_table_page s = (Err NoMemory, s)" "end_free_page (pw_phys s) \<le> next_free_page (pw_phys s)"
    | (some) n s1 where "alloc_table_page s = (Ok n, s1)" "n = next_free_page (pw_phys s)" "4096 dvd n" "n < 2 ^ 48"
        "phys_inv (pw_phys s1)" "next_free_page (pw_phys s1) = n + 4096" "pw_pte s1 = (pw_pte s)(n := (\<lambda>_. 0))"
        "pw_trees s1 = pw_trees s" "end_free_page (pw_phys s1) = end_free_page (pw_phys s)"
proof (cases "end_free_page (pw_phys s) \<le> next_free_page (pw_phys s)")
  case True
  then show ?thesis using none assms by (simp add: alloc_table_page_def alloc_pt_page_def alloc_page_inv_eq)
next
  case False
  let ?n = "next_free_page (pw_phys s)"
  have "?n < 2 ^ 48" "4096 dvd ?n" using assms False by (auto simp: phys_inv_def layout_simps)
  moreover have "phys_inv (take_page TagPageTable ?n (pw_phys s))" using take_page_inv [OF assms] False by simp
  moreover have "next_free_page (take_page TagPageTable ?n (pw_phys s)) = ?n + 4096"
    "end_free_page (take_page TagPageTable ?n (pw_phys s)) = end_free_page (pw_phys s)" by (simp_all add: take_page_def)
  ultimately show ?thesis using False assms
    by (intro some [of ?n "s\<lparr>pw_phys := take_page TagPageTable ?n (pw_phys s), pw_pte := (pw_pte s)(?n := (\<lambda>_. 0))\<rparr>"])
      (simp_all add: alloc_table_page_def alloc_pt_page_def alloc_page_inv_eq)
qed

lemma pw_pte_write_pte [simp]: "pw_pte (write_pte t i e s) = (pw_pte s)(t := (pw_pte s t)(i := e))"
  "pw_phys (write_pte t i e s) = pw_phys s" "pw_trees (write_pte t i e s) = pw_trees s"
  by (simp_all add: write_pte_def)

lemma pw_pte_write_entries:
  "distinct is \<Longrightarrow> pw_pte (write_entries t f is s) = (pw_pte s)(t := (\<lambda>j. if j \<in> set is then f j else pw_pte s t j))"
  "pw_phys (write_entries t f is s) = pw_phys s" "pw_trees (write_entries t f is s) = pw_trees s"
  by (induction t f "is" s rule: write_entries.induct) (auto simp: fun_eq_iff)

lemma zero_entry [simp]: "\<not> pte_valid 0" "\<not> pte_table 0"
  by (simp_all add: pte_valid_def pte_table_def)

text \<open>
  What one step of a mapping may do: translations and roots stay, the named table exists on success.
\<close>

definition same_roots :: "ptw \<Rightarrow> ptw \<Rightarrow> bool" where
  "same_roots s s' \<longleftrightarrow> (\<forall>j. pt_l0_pa (tree j s') = pt_l0_pa (tree j s) \<and> pt_has_root (tree j s') = pt_has_root (tree j s))"

lemma same_roots_trans: "same_roots s s1 \<Longrightarrow> same_roots s1 s2 \<Longrightarrow> same_roots s s2"
  by (simp add: same_roots_def)

lemma same_roots_trees: "pw_trees s' = pw_trees s \<Longrightarrow> same_roots s s'"
  by (simp add: same_roots_def)

definition frames_ok :: "ptw \<Rightarrow> 'r res \<Rightarrow> ptw \<Rightarrow> bool" where
  "frames_ok s r s' \<longleftrightarrow> end_free_page (pw_phys s') = end_free_page (pw_phys s)
     \<and> next_free_page (pw_phys s') \<le> next_free_page (pw_phys s) + 4096
     \<and> (\<forall>e. r = Err e \<longrightarrow> end_free_page (pw_phys s) \<le> next_free_page (pw_phys s))"

definition step_ok :: "nat \<Rightarrow> nat list \<Rightarrow> ptw \<Rightarrow> nat res \<Rightarrow> ptw \<Rightarrow> bool" where
  "step_ok l0 q s r s' \<longleftrightarrow> root_wf l0 s' \<and> same_roots s s' \<and> frames_ok s r s' \<and> (\<forall>va. walk 3 (pw_pte s') l0 va = walk 3 (pw_pte s) l0 va)
     \<and> (case r of Ok n \<Rightarrow> table_at (pw_pte s') l0 q = Some n | Err e \<Rightarrow> e = NoMemory | Panic \<Rightarrow> False)"

locale table_builder =
  fixes reg :: "nat \<Rightarrow> ptw \<Rightarrow> ptw" and sreg :: "nat \<Rightarrow> ptw \<Rightarrow> ptw" and clean sclean amask :: u64
  assumes reg_pte: "pw_pte (reg n s) = pw_pte s"
    and sreg_pte: "pw_pte (sreg n s) = pw_pte s"
    and reg_phys: "phys_inv (pw_phys s) \<Longrightarrow> n < next_free_page (pw_phys s) \<Longrightarrow>
      phys_inv (pw_phys (reg n s)) \<and> next_free_page (pw_phys (reg n s)) = next_free_page (pw_phys s)
      \<and> end_free_page (pw_phys (reg n s)) = end_free_page (pw_phys s)"
    and sreg_phys: "phys_inv (pw_phys s) \<Longrightarrow> n < next_free_page (pw_phys s) \<Longrightarrow>
      phys_inv (pw_phys (sreg n s)) \<and> next_free_page (pw_phys (sreg n s)) = next_free_page (pw_phys s)
      \<and> end_free_page (pw_phys (sreg n s)) = end_free_page (pw_phys s)"
    and reg_roots: "same_roots s (reg n s)" and sreg_roots: "same_roots s (sreg n s)"
    and clean: "clean AND 0x0000FFFFFFFFF003 = 0x0000FFFFFFFFF003"
    and sclean: "sclean AND 0x0000FFFFFFFFF003 = 0x0000FFFFFFFFF003"
    and amask: "amask AND 0x0000FFFFFFFFF000 = 0"
begin

lemma table_entry_clean:
  assumes "c AND 0x0000FFFFFFFFF003 = 0x0000FFFFFFFFF003" "4096 dvd n" "n < 2 ^ 48"
  shows "pte_table (table_entry n AND c) \<and> pte_addr (table_entry n AND c) = n"
proof -
  have m: "c AND b = b" if "0x0000FFFFFFFFF003 AND b = b" for b
    using arg_cong [OF assms(1), of "\<lambda>x. x AND b"] that by (simp add: and.assoc)
  have sub: "(x AND c) AND b = x AND b" if "0x0000FFFFFFFFF003 AND b = b" for x b
    using m [OF that] by (simp add: and.assoc)
  have "(table_entry n AND c) AND 1 = table_entry n AND 1" "(table_entry n AND c) AND 2 = table_entry n AND 2"
    "(table_entry n AND c) AND 0x0000FFFFFFFFF000 = table_entry n AND 0x0000FFFFFFFFF000"
    by (intro sub; simp)+
  moreover have "table_entry n AND 1 \<noteq> 0" "table_entry n AND 2 \<noteq> 0"
    by (simp_all add: table_entry_def pte_consts bit.conj_disj_distrib2 or_eq_0_iff)
  moreover have "pte_addr (table_entry n) = n"
    using pte_addr_of_pa [OF assms(2,3)] by (simp add: table_entry_def pte_consts field_or or.assoc)
  ultimately show ?thesis by (simp add: pte_table_def pte_addr_def PTE_VALID_def)
qed

end

lemma and_zero_sub: "X AND M = 0 \<Longrightarrow> (X AND Y) AND M = (0 :: 'a::len word)"
  by (metis and.assoc and.commute bit.conj_zero_left)

context table_builder
begin

lemma shatter_entry_fields:
  assumes orig: "\<not> pte_table original" "pte_valid original"
    and base: "pte_addr original = region_base (12 + 9 * Suc n) original" and n: "n \<le> 1" and j: "j < 512"
    and ty: "typ = (if n = 0 then PTE_TYPE_PAGE else PTE_TYPE_BLOCK)"
  shows "let e = shatter_entry (2 ^ (12 + 9 * n)) typ amask original j in
    pte_valid e \<and> (n = 1 \<longrightarrow> \<not> pte_table e) \<and> pte_addr e = pte_addr original + j * 2 ^ (12 + 9 * n)
    \<and> region_base (12 + 9 * n) e = pte_addr e"
proof -
  let ?s = "12 + 9 * n" and ?pa = "pte_addr original + j * 2 ^ (12 + 9 * n)"
  let ?e = "shatter_entry (2 ^ ?s) typ amask original j"
  have s48: "12 + 9 * Suc n \<le> 48" using n by simp
  have step: "(2 :: nat) ^ (12 + 9 * Suc n) = 512 * 2 ^ ?s" by (simp add: power_add)
  have "?pa + 2 ^ ?s = pte_addr original + (j + 1) * 2 ^ ?s" by (simp add: algebra_simps)
  also have "\<dots> \<le> pte_addr original + 512 * 2 ^ ?s" using j by (intro add_left_mono mult_right_mono) auto
  also have "\<dots> = region_base (12 + 9 * Suc n) original + 2 ^ (12 + 9 * Suc n)" by (simp only: base step)
  also have "\<dots> \<le> 2 ^ 48" by (rule region_base_less(1) [OF s48])
  finally have lt: "?pa + 2 ^ ?s \<le> 2 ^ 48" .
  have "2 ^ (12 + 9 * Suc n) dvd pte_addr original" unfolding base by (rule region_base_less(2))
  then have "2 ^ ?s dvd pte_addr original" unfolding step by (rule dvd_mult_right)
  then have al: "2 ^ ?s dvd ?pa" by simp
  have "(2 :: nat) ^ 12 dvd 2 ^ ?s" by (rule le_imp_power_dvd) simp
  then have "4096 dvd ?pa" using al dvd_trans by fastforce
  moreover have "?pa < 2 ^ 48" using lt by (meson less_le_trans less_add_same_cancel1 zero_less_numeral zero_less_power)
  ultimately have pa: "pte_addr (pa_to_pte_addr ?pa) = ?pa" by (rule pte_addr_of_pa)
  have tz: "(PTE_VALID OR typ) AND 0x0000FFFFFFFFF000 = 0" by (simp add: ty pte_consts)
  have "shatter_attr amask original AND 0x0000FFFFFFFFF000 = 0"
  proof -
    have "(original AND amask OR PTE_USER) AND 0x0000FFFFFFFFF000 = 0"
      using amask by (simp add: bit.conj_disj_distrib2 and.assoc PTE_USER_def)
    then show ?thesis unfolding shatter_attr_def by (rule and_zero_sub)
  qed
  then have fz: "(PTE_VALID OR typ OR shatter_attr amask original) AND 0x0000FFFFFFFFF000 = 0"
    using tz by (simp add: bit.conj_disj_distrib2)
  have addr: "pte_addr ?e = ?pa"
    using field_or [OF fz, of "pa_to_pte_addr ?pa"] pa by (simp add: shatter_entry_def or.assoc)
  have v: "pte_valid ?e" by (simp add: shatter_entry_def pte_valid_def PTE_VALID_def bit.conj_disj_distrib2 or_eq_0_iff)
  have nt: "\<not> pte_table ?e" if "n = 1"
  proof -
    have o2: "original AND 2 = 0" using orig by (auto simp: pte_table_def pte_valid_def)
    have "shatter_attr amask original AND 2 = 0"
    proof -
      have "(original AND amask OR PTE_USER) AND 2 = 0"
        using o2 by (simp add: bit.conj_disj_distrib2 PTE_USER_def and.commute [of original] and.assoc)
      then show ?thesis unfolding shatter_attr_def by (rule and_zero_sub)
    qed
    moreover have "pa_to_pte_addr ?pa AND 2 = 0" by (simp add: pa_to_pte_addr_def and.assoc)
    ultimately have "?e AND 2 = 0" using that by (simp add: shatter_entry_def ty pte_consts bit.conj_disj_distrib2)
    then show ?thesis by (simp add: pte_table_def)
  qed
  have "2 ^ ?s dvd region_base 12 ?e" using al addr by (simp add: pte_addr_eq)
  then have "region_base ?s ?e = region_base 12 ?e" using n by (intro region_base_aligned) auto
  then show ?thesis using v nt addr by (simp add: Let_def pte_addr_eq)
qed

end

context table_builder
begin

lemma shatter_spec:
  assumes wf: "root_wf l0 s" and p: "table_at (pw_pte s) l0 p = Some t" "length p \<le> 2"
    and e: "e = pw_pte s t i" "pte_valid e" "\<not> pte_table e"
    and n: "n = 2 - length p" and ty: "ty = (if n = 0 then PTE_TYPE_PAGE else PTE_TYPE_BLOCK)"
    and eq: "shatter_block sreg amask sclean (2 ^ (12 + 9 * n)) ty t i e s = (r, s')"
  shows "step_ok l0 (p @ [i]) s r s'"
proof -
  let ?m = "pw_pte s" and ?N = "next_free_page (pw_phys s)"
  have inv: "phys_inv (pw_phys s)" and tw: "tree_wf ?m l0 ?N" using wf by (auto simp: root_wf_def)
  have pe: "p \<noteq> []" and base: "pte_addr e = region_base (12 + 9 * (3 - length p)) e"
    using tree_wf_block [OF tw p(2,1), of i] e by auto
  have "0 < length p" using pe by simp
  then have "length p = 1 \<or> length p = 2" using p(2) by linarith
  then have n1: "n \<le> 1" "3 - length p = Suc n" "length p \<le> 1 \<longleftrightarrow> n = 1" unfolding n by (elim disjE; simp)+
  show ?thesis
    using inv
  proof (cases rule: alloc_table_page_cases)
    case none
    then show ?thesis using eq wf by (auto simp: shatter_block_def step_ok_def same_roots_trees frames_ok_def)
  next
    case (some k s1)
    let ?f = "\<lambda>j. if j < 512 then shatter_entry (2 ^ (12 + 9 * n)) ty amask e j else 0"
    have r: "r = Ok k" and s': "s' = write_pte t i (table_entry k AND sclean)
        (write_entries k (shatter_entry (2 ^ (12 + 9 * n)) ty amask e) [0..<512] (sreg k s1))"
      using eq some by (simp_all add: shatter_block_def Let_def)
    have tk: "t \<noteq> k" using tree_wf_below [OF tw _ p(1)] p(2) some(2) by simp
    have pte: "pw_pte s' = ?m(k := ?f, t := (?m t)(i := table_entry k AND sclean))"
      using tk by (simp add: s' pw_pte_write_entries sreg_pte some(7) fun_eq_iff)
    note te = table_entry_clean [OF sclean some(3,4)]
    note sf = shatter_entry_fields [OF e(3,2) base [unfolded n1(2)] n1(1) _ ty, unfolded Let_def]
    have f: "\<forall>j. \<not> pte_table (?f j) \<and> (pte_valid (?f j) \<longrightarrow> pte_addr (?f j) = region_base (12 + 9 * (2 - length p)) (?f j))"
      if "length p \<le> 1"
      using sf that n1(3) by (auto simp: n [symmetric])
    have same: "leaf_walk (2 - length p) ?f va = walk (3 - length p) ?m t va" if idx: "va_index (3 - length p) va = i" for va
    proof -
      note g = sf [OF va_index_less [of n va]]
      have "leaf_walk n ?f va = Some (pte_addr e + va_index n va * 2 ^ (12 + 9 * n) + unat va mod 2 ^ (12 + 9 * n))"
        using g va_index_less [of n va] by (simp add: leaf_walk_def Let_def)
      also have "\<dots> = Some (region_base (12 + 9 * Suc n) e + unat va mod 2 ^ (12 + 9 * Suc n))"
        unfolding va_split [of va n] base n1(2) by (simp only: add.assoc)
      also have "\<dots> = walk (Suc n) ?m t va" using e idx by (simp add: n1(2) Let_def del: mult_Suc_right)
      finally show ?thesis by (simp add: n1(2) n [symmetric])
    qed
    have old: "\<not> pte_table (?m t i)" using e by simp
    have lt: "k < k + 4096" by simp
    note link = link_spec [OF tw p old _ lt _ _ f same pte]
    have ph: "phys_inv (pw_phys s') \<and> next_free_page (pw_phys s') = k + 4096 \<and> end_free_page (pw_phys s') = end_free_page (pw_phys s)"
      using sreg_phys [of s1 k] some by (simp add: s' pw_pte_write_entries)
    have "same_roots s s'"
      using sreg_roots [of s1 k] some(8) by (simp add: s' same_roots_def pw_pte_write_entries)
    then show ?thesis using link te some(2) ph r by (auto simp: step_ok_def root_wf_def frames_ok_def)
  qed
qed

lemma ensure_spec:
  assumes wf: "root_wf l0 s" and p: "table_at (pw_pte s) l0 p = Some t" "length p \<le> 2"
    and blk: "\<And>r s'. pte_valid (pw_pte s t i) \<Longrightarrow> \<not> pte_table (pw_pte s t i) \<Longrightarrow> on_block (pw_pte s t i) s = (r, s')
        \<Longrightarrow> step_ok l0 (p @ [i]) s r s'"
    and eq: "ensure_table reg clean on_block t i s = (r, s')"
  shows "step_ok l0 (p @ [i]) s r s'"
proof -
  let ?m = "pw_pte s" and ?N = "next_free_page (pw_phys s)"
  have inv: "phys_inv (pw_phys s)" and tw: "tree_wf ?m l0 ?N" using wf by (auto simp: root_wf_def)
  show ?thesis
  proof (cases "pte_table (?m t i)")
    case True
    then show ?thesis using eq wf p by (auto simp: ensure_table_def read_pte_def step_ok_def table_at_snoc same_roots_trees frames_ok_def)
  next
    case nt: False
    show ?thesis
    proof (cases "pte_valid (?m t i)")
      case True
      then show ?thesis using eq nt blk by (simp add: ensure_table_def read_pte_def)
    next
      case nv: False
      show ?thesis
        using inv
      proof (cases rule: alloc_table_page_cases)
        case none
        then show ?thesis using eq nt nv wf by (auto simp: ensure_table_def read_pte_def step_ok_def same_roots_trees frames_ok_def)
      next
        case (some k s1)
        have tk: "t \<noteq> k" using tree_wf_below [OF tw _ p(1)] p(2) some(2) by simp
        have r: "r = Ok k" and s': "s' = reg k (write_pte t i (table_entry k AND clean) s1)"
          using eq some nt nv by (simp_all add: ensure_table_def read_pte_def)
        have pte: "pw_pte s' = ?m(k := (\<lambda>_. 0), t := (?m t)(i := table_entry k AND clean))"
          using tk by (simp add: s' reg_pte some(7) fun_eq_iff)
        have same: "leaf_walk (2 - length p) (\<lambda>_. 0) va = walk (3 - length p) ?m t va" if "va_index (3 - length p) va = i" for va
        proof -
          have "3 - length p = Suc (2 - length p)" using p(2) by simp
          then show ?thesis using nv that by (simp add: leaf_walk_def Let_def)
        qed
        have f: "\<forall>j. \<not> pte_table 0 \<and> (pte_valid 0 \<longrightarrow> pte_addr 0 = region_base (12 + 9 * (2 - length p)) 0)" if "length p \<le> 1" by simp
        have lt: "k < k + 4096" by simp
        note link = link_spec [OF tw p nt _ lt _ _ f same pte]
        have ph: "phys_inv (pw_phys s') \<and> next_free_page (pw_phys s') = k + 4096 \<and> end_free_page (pw_phys s') = end_free_page (pw_phys s)"
          using reg_phys [of "write_pte t i (table_entry k AND clean) s1" k] some by (simp add: s')
        have "same_roots s s'"
          using reg_roots [of "write_pte t i (table_entry k AND clean) s1" k] some(8) by (simp add: s' same_roots_def)
        then show ?thesis using link table_entry_clean [OF clean some(3,4)] some(2) ph r by (auto simp: step_ok_def root_wf_def frames_ok_def)
      qed
    qed
  qed
qed

lemma map_steps_spec:
  assumes wf: "root_wf l0 s" and pa: "4096 dvd pa" "pa < 2 ^ 48" and attr: "attr AND 0x0000FFFFFFFFF000 = 0"
    and eq: "map_steps reg sreg clean sclean amask attr l0 va pa s = (r, s')"
  shows "root_wf l0 s' \<and> same_roots s s' \<and> (r = Ok () \<or> r = Err NoMemory)
    \<and> (\<forall>va'. walk 3 (pw_pte s') l0 va' = (if r = Ok () \<and> va_path va' = va_path va then Some (pa + unat va' mod 2 ^ 12)
         else walk 3 (pw_pte s) l0 va'))
    \<and> (r = Err NoMemory \<longrightarrow> end_free_page (pw_phys s) \<le> next_free_page (pw_phys s) + 2 * 4096)
    \<and> (r = Ok () \<longrightarrow> (\<exists>t. table_at (pw_pte s') l0 (take 3 (va_path va)) = Some t))"
proof -
  have idx: "va_l0_index va = va_index 3 va" "va_l1_index va = va_index 2 va" "va_l2_index va = va_index 1 va"
    "va_l3_index va = va_index 0 va"
    by (simp_all add: va_l0_index_def va_l1_index_def va_l2_index_def va_l3_index_def index_eq va_index_def)
  let ?p1 = "[] @ [va_index 3 va]" and ?p2 = "([] @ [va_index 3 va]) @ [va_index 2 va]"
  let ?p3 = "(([] @ [va_index 3 va]) @ [va_index 2 va]) @ [va_index 1 va]"
  obtain r1 s1 where e1: "ensure_table reg clean (\<lambda>e s. (Err NotAllowed, s)) l0 (va_index 3 va) s = (r1, s1)" by (metis prod.exhaust)
  have "step_ok l0 ?p1 s r1 s1"
  proof (rule ensure_spec [OF wf _ _ _ e1])
    fix r s'
    assume "pte_valid (pw_pte s l0 (va_index 3 va))" "\<not> pte_table (pw_pte s l0 (va_index 3 va))"
    then show "step_ok l0 ?p1 s r s'" using tree_wf_block [of "pw_pte s" l0 _ "[]" l0] wf by (auto simp: root_wf_def)
  qed simp_all
  note s1 = this [unfolded step_ok_def]
  show ?thesis
  proof (cases r1)
    case (Ok l1)
    have wf1: "root_wf l0 s1" and t1: "table_at (pw_pte s1) l0 ?p1 = Some l1" using s1 Ok by simp_all
    obtain r2 s2 where e2: "ensure_table reg clean (shatter_l1_block sreg amask sclean l1 (va_index 2 va)) l1 (va_index 2 va) s1 = (r2, s2)"
      by (metis prod.exhaust)
    have "step_ok l0 ?p2 s1 r2 s2"
    proof (rule ensure_spec [OF wf1 t1 _ _ e2])
      fix r s'
      assume "pte_valid (pw_pte s1 l1 (va_index 2 va))" "\<not> pte_table (pw_pte s1 l1 (va_index 2 va))"
        "shatter_l1_block sreg amask sclean l1 (va_index 2 va) (pw_pte s1 l1 (va_index 2 va)) s1 = (r, s')"
      then show "step_ok l0 ?p2 s1 r s'"
        by (intro shatter_spec [OF wf1 t1, where n = 1, OF _ refl]) (simp_all add: shatter_l1_block_def)
    qed simp
    note s2 = this [unfolded step_ok_def]
    show ?thesis
    proof (cases r2)
      case (Ok l2)
      have wf2: "root_wf l0 s2" and t2: "table_at (pw_pte s2) l0 ?p2 = Some l2" using s2 Ok by simp_all
      obtain r3 s3 where e3: "ensure_table reg clean (shatter_l2_block sreg amask sclean l2 (va_index 1 va)) l2 (va_index 1 va) s2 = (r3, s3)"
        by (metis prod.exhaust)
      have "step_ok l0 ?p3 s2 r3 s3"
      proof (rule ensure_spec [OF wf2 t2 _ _ e3])
        fix r s'
        assume "pte_valid (pw_pte s2 l2 (va_index 1 va))" "\<not> pte_table (pw_pte s2 l2 (va_index 1 va))"
          "shatter_l2_block sreg amask sclean l2 (va_index 1 va) (pw_pte s2 l2 (va_index 1 va)) s2 = (r, s')"
        then show "step_ok l0 ?p3 s2 r s'"
          by (intro shatter_spec [OF wf2 t2, where n = 0, OF _ refl]) (simp_all add: shatter_l2_block_def)
      qed simp
      note s3 = this [unfolded step_ok_def]
      show ?thesis
      proof (cases r3)
        case (Ok l3)
        let ?e = "pa_to_pte_addr pa OR PTE_VALID OR PTE_TYPE_PAGE OR attr"
        have r: "r = Ok ()" and s': "s' = write_pte l3 (va_index 0 va) ?e s3"
          using eq e1 e2 e3 \<open>r1 = Ok l1\<close> \<open>r2 = Ok l2\<close> Ok by (simp_all add: map_steps_def idx)
        have fz: "(PTE_VALID OR PTE_TYPE_PAGE OR attr) AND 0x0000FFFFFFFFF000 = 0"
          using attr by (simp add: pte_consts bit.conj_disj_distrib2)
        have ev: "pte_addr ?e = pa" "pte_valid ?e"
          using field_or [OF fz, of "pa_to_pte_addr pa"] pte_addr_of_pa [OF pa]
          by (simp_all add: or.assoc pte_valid_def PTE_VALID_def bit.conj_disj_distrib2 or_eq_0_iff)
        have tw: "tree_wf (pw_pte s3) l0 (next_free_page (pw_phys s3))" and t3: "table_at (pw_pte s3) l0 ?p3 = Some l3"
          using s3 Ok by (simp_all add: root_wf_def)
        have path: "va_path va = ?p3 @ [va_index 0 va]" by (simp add: va_path_def)
        note lw = leaf_write_spec [OF tw t3 _ refl, where i = "va_index 0 va" and e = ?e]
        have "root_wf l0 s'" "same_roots s s'"
          using lw(1) s1 s2 s3 by (auto simp: root_wf_def s' same_roots_def)
        moreover have "walk 3 (pw_pte s') l0 va' = (if va_path va' = va_path va then Some (pa + unat va' mod 2 ^ 12)
            else walk 3 (pw_pte s) l0 va')" for va'
          using lw(2) [of va'] s1 s2 s3 ev by (simp add: s' path)
        moreover have "table_at (pw_pte s') l0 (take 3 (va_path va)) = Some l3"
          using lw(3) [of ?p3] t3 by (simp add: s' va_path_def)
        ultimately show ?thesis using r by simp
      next
        case (Err x)
        then show ?thesis using eq e1 e2 e3 s1 s2 s3 \<open>r1 = Ok l1\<close> \<open>r2 = Ok l2\<close>
          by (auto simp: map_steps_def idx frames_ok_def intro: same_roots_trans)
      next
        case Panic
        then show ?thesis using s3 by simp
      qed
    next
      case (Err x)
      then show ?thesis using eq e1 e2 s1 s2 \<open>r1 = Ok l1\<close> by (auto simp: map_steps_def idx frames_ok_def intro: same_roots_trans)
    next
      case Panic
      then show ?thesis using s2 by simp
    qed
  next
    case (Err x)
    then show ?thesis using eq e1 s1 by (auto simp: map_steps_def idx frames_ok_def)
  next
    case Panic
    then show ?thesis using s1 by simp
  qed
qed

end

section \<open>Both builders\<close>

lemma pt_track_pte: "pw_pte (pt_track k n s) = pw_pte s"
  by (simp add: pt_track_def set_tree_def Let_def)

lemma pt_track_phys:
  "phys_inv (pw_phys s) \<Longrightarrow> n < next_free_page (pw_phys s) \<Longrightarrow>
    phys_inv (pw_phys (pt_track k n s)) \<and> next_free_page (pw_phys (pt_track k n s)) = next_free_page (pw_phys s)
    \<and> end_free_page (pw_phys (pt_track k n s)) = end_free_page (pw_phys s)"
  by (simp add: pt_track_def set_tree_def Let_def register_pt_page_inv)

lemma pt_track_roots: "same_roots s (pt_track k n s)"
  unfolding same_roots_def
proof
  fix j
  show "pt_l0_pa (tree j (pt_track k n s)) = pt_l0_pa (tree j s) \<and> pt_has_root (tree j (pt_track k n s)) = pt_has_root (tree j s)"
    by (cases "k < length (pw_trees s)"; cases "j = k") (simp_all add: pt_track_def set_tree_def Let_def list_update_beyond)
qed

interpretation user_tree: table_builder "pt_track k" "pt_track k" "0x0000FFFFFFFFF003" "0x0000FFFFFFFFF003" "0x000F000000000FFF"
  for k
  by unfold_locales (simp_all add: pt_track_pte pt_track_phys pt_track_roots)

lemma current_register_laws:
  "pw_pte (current_process_register_page_table cur n s) = pw_pte s"
  "phys_inv (pw_phys s) \<Longrightarrow> n < next_free_page (pw_phys s) \<Longrightarrow>
    phys_inv (pw_phys (current_process_register_page_table cur n s))
    \<and> next_free_page (pw_phys (current_process_register_page_table cur n s)) = next_free_page (pw_phys s)
    \<and> end_free_page (pw_phys (current_process_register_page_table cur n s)) = end_free_page (pw_phys s)"
  "same_roots s (current_process_register_page_table cur n s)"
  by (auto simp: current_process_register_page_table_def pt_track_pte pt_track_phys pt_track_roots same_roots_trees split: option.splits)

lemma register_for_l0_laws:
  "pw_pte (register_page_table_for_l0 l0 n s) = pw_pte s"
  "phys_inv (pw_phys s) \<Longrightarrow> n < next_free_page (pw_phys s) \<Longrightarrow>
    phys_inv (pw_phys (register_page_table_for_l0 l0 n s))
    \<and> next_free_page (pw_phys (register_page_table_for_l0 l0 n s)) = next_free_page (pw_phys s)
    \<and> end_free_page (pw_phys (register_page_table_for_l0 l0 n s)) = end_free_page (pw_phys s)"
  "same_roots s (register_page_table_for_l0 l0 n s)"
  by (auto simp: register_page_table_for_l0_def pt_track_pte pt_track_phys pt_track_roots same_roots_trees split: option.splits)

interpretation mmu_current: table_builder "current_process_register_page_table cur" "current_process_register_page_table cur"
  "0x07FFFFFFFFFFFFFF" "NOT 0" "0xFFF0000000000FFF" for cur
  by unfold_locales (simp_all add: current_register_laws)

interpretation mmu_root: table_builder "register_page_table_for_l0 l0" "current_process_register_page_table cur"
  "0x07FFFFFFFFFFFFFF" "NOT 0" "0xFFF0000000000FFF" for l0 cur
  by unfold_locales (simp_all add: current_register_laws register_for_l0_laws)

lemma attr_bits_field: "mmu_attr_bits fl AND 0x0000FFFFFFFFF000 = 0" "pte_attr_bits fl AND 0x0000FFFFFFFFF000 = 0"
  by (cases "mf_attr fl"; simp add: pte_attr_bits_def mmu_attr_bits_def pte_consts)+

section \<open>Pages\<close>

definition page_of :: "u64 \<Rightarrow> nat" where
  "page_of va = unat va div 2 ^ 12 mod 2 ^ 36"

lemma va_index_page:
  assumes "n \<le> 3"
  shows "va_index n va = page_of va div 512 ^ n mod 512"
proof -
  let ?x = "unat va div 2 ^ 12"
  have e: "(2 :: nat) ^ (12 + 9 * n) = 2 ^ 12 * 512 ^ n" by (simp add: power_add power_mult)
  have i: "va_index n va = ?x div 512 ^ n mod 512" unfolding va_index_def e by (simp only: div_mult2_eq)
  have "(512 :: nat) ^ 4 = 512 ^ n * 512 ^ (4 - n)" using assms by (simp only: power_add [symmetric]) simp
  moreover have "(2 :: nat) ^ 36 = 512 ^ 4" by simp
  ultimately have "page_of va = ?x mod (512 ^ n * 512 ^ (4 - n))" unfolding page_of_def by simp
  then have "page_of va div 512 ^ n = ?x div 512 ^ n mod 512 ^ (4 - n)" by (simp only:) (rule mod_mult_div, simp)
  moreover have "(512 :: nat) dvd 512 ^ (4 - n)" using assms by (intro dvd_power) auto
  ultimately show ?thesis using i by (simp add: mod_mod_cancel)
qed

lemma va_path_page: "va_path va' = va_path va \<longleftrightarrow> page_of va' = page_of va"
proof
  assume a: "va_path va' = va_path va"
  have dig: "page_of va' div 512 ^ n mod 512 = page_of va div 512 ^ n mod 512" if "n \<le> 3" for n
    using a va_path_nth [OF that, of va'] va_path_nth [OF that, of va] va_index_page [OF that] by simp
  have d: "page_of va' mod 512 = page_of va mod 512" "page_of va' div 512 mod 512 = page_of va div 512 mod 512"
    "page_of va' div 512 ^ 2 mod 512 = page_of va div 512 ^ 2 mod 512" "page_of va' div 512 ^ 3 mod 512 = page_of va div 512 ^ 3 mod 512"
    using dig [of 0] dig [of 1] dig [of 2] dig [of 3] by simp_all
  have sum: "x = x mod 512 + 512 * (x div 512 mod 512) + 512 ^ 2 * (x div 512 ^ 2 mod 512) + 512 ^ 3 * (x div 512 ^ 3 mod 512)"
    if "x < 2 ^ 36" for x :: nat
  proof -
    define a b c where "a = x div 512" and "b = a div 512" and "c = b div 512"
    have q: "x div 512 ^ 2 = b" "x div 512 ^ 3 = c"
      by (simp_all only: power2_eq_square power3_eq_cube div_mult2_eq a_def b_def c_def mult.assoc)
    have "c < 512" unfolding c_def b_def a_def using that by (simp add: less_mult_imp_div_less flip: div_mult2_eq)
    then have "c mod 512 = c" by simp
    moreover have "x = 512 * a + x mod 512" "a = 512 * b + a mod 512" "b = 512 * c + b mod 512"
      by (simp_all only: a_def b_def c_def mult_div_mod_eq)
    ultimately show ?thesis unfolding q a_def [symmetric] by simp
  qed
  have "page_of va' < 2 ^ 36" "page_of va < 2 ^ 36" by (simp_all add: page_of_def)
  from sum [OF this(1)] sum [OF this(2)] d show "page_of va' = page_of va" by metis
next
  assume "page_of va' = page_of va"
  then show "va_path va' = va_path va" by (simp add: va_path_def va_index_page)
qed

section \<open>Properties\<close>

definition pt_wf :: "nat \<Rightarrow> ptw \<Rightarrow> bool" where
  "pt_wf k s \<longleftrightarrow> pt_has_root (tree k s) \<and> root_wf (pt_l0_pa (tree k s)) s"

lemma root_wf_translate: "root_wf l0 s \<Longrightarrow> translate_user_va l0 va s = walk 3 (pw_pte s) l0 va"
  unfolding root_wf_def by (blast intro: translate_is_walk)

text \<open>What one mapping does to all translations of the tree.\<close>

lemma pt_map_va_spec:
  assumes wf: "pt_wf k s" and al: "4096 dvd unat va" "4096 dvd unat pa" "unat pa < 2 ^ 48"
    and eq: "pt_map_va k va pa flags s = (r, s')"
  shows "pt_wf k s' \<and> same_roots s s'
    \<and> (r = Ok () \<or> r = Err NoMemory \<and> end_free_page (pw_phys s) \<le> next_free_page (pw_phys s) + 2 * 4096)
    \<and> (\<forall>va'. pt_translate_va k va' s' = (if r = Ok () \<and> page_of va' = page_of va then Some (unat pa + unat va' mod 2 ^ 12)
         else pt_translate_va k va' s))"
proof -
  let ?l0 = "pt_l0_pa (tree k s)"
  have root: "pt_has_root (tree k s)" "root_wf ?l0 s" using wf by (auto simp: pt_wf_def)
  have "va AND 0xFFF = 0" "pa AND 0xFFF = 0" using al by (simp_all add: page_aligned_iff)
  then have "map_steps (pt_track k) (pt_track k) 0x0000FFFFFFFFF003 0x0000FFFFFFFFF003 0x000F000000000FFF
      (pte_attr_bits flags) ?l0 va (unat pa) s = (r, s')"
    using eq root by (simp add: pt_map_va_def)
  note m = user_tree.map_steps_spec [OF root(2) al(2,3) attr_bits_field(2) this]
  have "pt_l0_pa (tree k s') = ?l0" "pt_has_root (tree k s')" using m root(1) by (auto simp: same_roots_def)
  then show ?thesis using m root
    by (auto simp: pt_wf_def pt_translate_va_def root_wf_translate va_path_page)
qed

text \<open>
  C4. Mapping a page maps exactly that page. On a well-formed tree \<open>map_va\<close> succeeds,
  or reports \<open>NoMemory\<close>, which needs fewer than three free frames. After a success every address of the page translates to the same offset in the
  frame; every other address, also one covered by a block that had to be split into smaller pieces,
  translates as before; after a failure nothing translates differently although tables may have
  been added. The tree stays well formed.
\<close>

theorem map_va_translates:
  assumes wf: "pt_wf k s" and al: "4096 dvd unat va" "4096 dvd unat pa" "unat pa < 2 ^ 48"
    and eq: "pt_map_va k va pa flags s = (r, s')"
  shows "pt_wf k s'
    \<and> (r = Ok () \<or> r = Err NoMemory \<and> end_free_page (pw_phys s) \<le> next_free_page (pw_phys s) + 2 * 4096)
    \<and> (\<forall>va'. pt_translate_va k va' s' = (if r = Ok () \<and> page_of va' = page_of va then Some (unat pa + unat va' mod 2 ^ 12)
         else pt_translate_va k va' s))"
  using pt_map_va_spec [OF assms] by blast

text \<open>
  Splitting a block loses its protection. Whatever permission bits the block descriptor had,
  each of the 512 page descriptors that replace it is accessible from user mode and executable, so
  mapping one page inside a kernel-only, never-execute block opens the rest of the block.
\<close>

theorem shatter_drops_protection:
  assumes "shatter_l2_block (pt_track k) 0x000F000000000FFF 0x0000FFFFFFFFF003 t i original s = (Ok n, s')"
    and "t \<noteq> n" "j < 512"
  shows "read_pte n j s' AND PTE_USER \<noteq> 0 \<and> read_pte n j s' AND PTE_XN = 0 \<and> read_pte n j s' AND PTE_UXN = 0"
proof -
  let ?f = "shatter_entry 0x1000 PTE_TYPE_PAGE 0x000F000000000FFF original"
  have "read_pte n j s' = ?f j"
    using assms
    by (auto simp: shatter_l2_block_def shatter_block_def read_pte_def Let_def pw_pte_write_entries split: prod.splits res.splits)
  moreover have "?f j AND PTE_USER \<noteq> 0"
    by (simp add: shatter_entry_def shatter_attr_def pte_consts bit.conj_disj_distrib2 or_eq_0_iff and.assoc)
  moreover have "?f j AND PTE_XN = 0" "?f j AND PTE_UXN = 0"
    by (simp_all add: shatter_entry_def shatter_attr_def pa_to_pte_addr_def pte_consts bit.conj_disj_distrib2 and.assoc)
  ultimately show ?thesis by simp
qed

text \<open>Clearing a page descriptor.\<close>

lemma unmap_walk:
  assumes wf: "root_wf l0 s" and l0: "pte_addr (root_for_va ttbr0 ttbr1 va) = l0" and al: "4096 dvd unat va"
    and tab: "table_at (pw_pte s) l0 (take 3 (va_path va)) = Some t"
    and eq: "unmap_page ttbr0 ttbr1 va s = (r, s')"
  shows "r = Ok () \<and> root_wf l0 s' \<and> walk 3 (pw_pte s') l0 va' = (if va_path va' = va_path va then None else walk 3 (pw_pte s) l0 va')"
proof -
  have idx: "va_l0_index va = va_index 3 va" "va_l1_index va = va_index 2 va" "va_l2_index va = va_index 1 va"
    "va_l3_index va = va_index 0 va"
    by (simp_all add: va_l0_index_def va_l1_index_def va_l2_index_def va_l3_index_def index_eq va_index_def)
  have va0: "va AND 0xFFF = 0" using al by (simp add: page_aligned_iff)
  have tk: "take 3 (va_path va) = [va_index 3 va, va_index 2 va, va_index 1 va]" by (simp add: va_path_def)
  let ?e0 = "pw_pte s l0 (va_index 3 va)" and ?e1 = "\<lambda>a. pw_pte s a (va_index 2 va)" and ?e2 = "\<lambda>a. pw_pte s a (va_index 1 va)"
  have e: "pte_table ?e0" "pte_table (?e1 (pte_addr ?e0))" "pte_table (?e2 (pte_addr (?e1 (pte_addr ?e0))))"
    "t = pte_addr (?e2 (pte_addr (?e1 (pte_addr ?e0))))"
    using tab unfolding tk by (auto split: if_splits)
  have r: "r = Ok ()" and s': "s' = write_pte t (va_index 0 va) 0 s"
    using eq va0 e l0 by (simp_all add: unmap_page_def read_pte_def idx pte_table_def Let_def)
  have tw: "tree_wf (pw_pte s) l0 (next_free_page (pw_phys s))" using wf by (simp add: root_wf_def)
  have p3: "length (take 3 (va_path va)) = 3" by simp
  note lw = leaf_write_spec [OF tw tab p3 refl, where i = "va_index 0 va" and e = 0]
  have "va_path va = take 3 (va_path va) @ [va_index 0 va]" by (simp add: va_path_def)
  then show ?thesis using r lw wf by (simp add: s' root_wf_def)
qed

text \<open>
  C34. Unmapping undoes mapping. After \<open>map_page\<close> succeeds on an address, \<open>unmap_page\<close> of the same
  address succeeds, the page is unmapped, and every address outside the page translates as it did
  before the mapping.
\<close>

theorem map_unmap_roundtrip:
  assumes wf: "root_wf (pte_addr (root_for_va ttbr0 ttbr1 va)) s" and al: "4096 dvd unat va" "4096 dvd unat pa" "unat pa < 2 ^ 48"
    and eq: "map_page cur ttbr0 ttbr1 va pa flags s = (Ok (), s1)" and un: "unmap_page ttbr0 ttbr1 va s1 = (r, s2)"
  shows "r = Ok () \<and> (let l0 = pte_addr (root_for_va ttbr0 ttbr1 va) in root_wf l0 s2 \<and>
    (\<forall>va'. translate_user_va l0 va' s2 = (if page_of va' = page_of va then None else translate_user_va l0 va' s)))"
proof -
  let ?l0 = "pte_addr (root_for_va ttbr0 ttbr1 va)"
  have "va AND 0xFFF = 0" "pa AND 0xFFF = 0" using al by (simp_all add: page_aligned_iff)
  then have ms: "map_steps (current_process_register_page_table cur) (current_process_register_page_table cur)
      0x07FFFFFFFFFFFFFF (NOT 0) 0xFFF0000000000FFF (mmu_attr_bits flags) ?l0 va (unat pa) s = (Ok (), s1)"
    using eq by (simp add: map_page_def)
  note m = mmu_current.map_steps_spec [OF wf al(2,3) attr_bits_field(1) ms]
  obtain t where t: "table_at (pw_pte s1) ?l0 (take 3 (va_path va)) = Some t"
    using m by blast
  have wf1: "root_wf ?l0 s1" using m by blast
  note u = unmap_walk [OF wf1 refl al(1) t un]
  have "translate_user_va ?l0 va' s2 = (if page_of va' = page_of va then None else translate_user_va ?l0 va' s)" for va'
    using u [of va'] m wf by (auto simp: root_wf_translate va_path_page)
  then show ?thesis using u by (auto simp: Let_def)
qed

text \<open>
  An address inside a block cannot be unmapped. When the walk of \<open>va\<close> ends at a 1 GiB or 2 MiB
  block, \<open>unmap_page\<close> returns success and changes nothing, so the address still translates.
\<close>

theorem unmap_page_ignores_blocks:
  assumes wf: "root_wf (pte_addr (root_for_va ttbr0 ttbr1 va)) s" and al: "4096 dvd unat va"
    and blk: "table_at (pw_pte s) (pte_addr (root_for_va ttbr0 ttbr1 va)) (take 3 (va_path va)) = None"
  shows "unmap_page ttbr0 ttbr1 va s = (Ok (), s)"
proof -
  have idx: "va_l0_index va = va_index 3 va" "va_l1_index va = va_index 2 va" "va_l2_index va = va_index 1 va"
    by (simp_all add: va_l0_index_def va_l1_index_def va_l2_index_def index_eq va_index_def)
  have tk: "take 3 (va_path va) = [va_index 3 va, va_index 2 va, va_index 1 va]" by (simp add: va_path_def)
  have "va AND 0xFFF = 0" using al by (simp add: page_aligned_iff)
  then show ?thesis using blk unfolding tk
    by (auto simp: unmap_page_def read_pte_def idx pte_table_def Let_def split: if_splits)
qed

definition demo_root :: page_table_tree where
  "demo_root = pt_new\<lparr>pt_l0_pa := 0x40000000, pt_has_root := True\<rparr>"

definition demo_ptw :: ptw where
  "demo_ptw = \<lparr>pw_phys = demo_phys, pw_pte = (\<lambda>_ _. 0), pw_trees = [Some demo_root]\<rparr>"

lemma demo_root_wf: "root_wf 0x40000000 demo_ptw"
proof -
  have "table_at (\<lambda>_ _. 0) r p = Some t \<longleftrightarrow> p = [] \<and> t = r" for r p t by (cases p) auto
  then show ?thesis
    using demo_phys_inv by (auto simp: root_wf_def tree_wf_def demo_ptw_def, auto simp: demo_phys_def)
qed

lemma demo_pt_wf: "pt_wf 0 demo_ptw"
  using demo_root_wf by (simp add: pt_wf_def) (simp add: demo_ptw_def demo_root_def)

theorem map_va_translates_witness:
  "\<exists>s'. pt_map_va 0 0x400000 0x50000000 user_rw demo_ptw = (Ok (), s') \<and> pt_translate_va 0 0x400123 demo_ptw = None
     \<and> pt_translate_va 0 0x400123 s' = Some 0x50000123 \<and> pt_translate_va 0 0x401000 s' = None"
proof -
  obtain r s' where m: "pt_map_va 0 0x400000 0x50000000 user_rw demo_ptw = (r, s')" by (metis prod.exhaust)
  have none: "pt_translate_va 0 va demo_ptw = None" for va
    by (simp add: pt_translate_va_def translate_user_va_def demo_ptw_def read_pte_def)
  have fr: "\<not> end_free_page (pw_phys demo_ptw) \<le> next_free_page (pw_phys demo_ptw) + 2 * 4096"
    by (simp add: demo_ptw_def demo_phys_def)
  have pg: "page_of 0x400123 = page_of 0x400000" "page_of 0x401000 \<noteq> page_of 0x400000" by (simp_all add: page_of_def)
  from map_va_translates [OF demo_pt_wf _ _ _ m] fr have
    "r = Ok ()" "pt_translate_va 0 0x400123 s' = Some 0x50000123" "pt_translate_va 0 0x401000 s' = None"
    using pg none by auto
  then show ?thesis using m none by blast
qed

theorem shatter_drops_protection_witness:
  "\<exists>n s'. shatter_l2_block (pt_track 0) 0x000F000000000FFF 0x0000FFFFFFFFF003 0x40000000 5 0x0060000040000701 demo_ptw = (Ok n, s')
     \<and> (0x0060000040000701 :: u64) AND PTE_XN \<noteq> 0 \<and> read_pte n 7 s' AND PTE_XN = 0 \<and> read_pte n 7 s' AND PTE_USER \<noteq> 0"
proof -
  obtain s' where s: "shatter_l2_block (pt_track 0) 0x000F000000000FFF 0x0000FFFFFFFFF003 0x40000000 5 0x0060000040000701 demo_ptw
      = (Ok 0x40080000, s')"
    by (simp add: shatter_l2_block_def shatter_block_def alloc_table_page_def alloc_pt_page_def demo_ptw_def demo_alloc Let_def)
  from shatter_drops_protection [OF s, of 7] s show ?thesis by (auto simp: PTE_XN_def)
qed

lemma demo_ttbr: "pte_addr (root_for_va 0x40000000 0 0x400000) = 0x40000000"
  by (simp add: root_for_va_def pte_addr_def KERNEL_OFFSET_def)

theorem map_unmap_roundtrip_witness:
  "\<exists>s1 s2. map_page None 0x40000000 0 0x400000 0x50000000 user_rw demo_ptw = (Ok (), s1)
     \<and> unmap_page 0x40000000 0 0x400000 s1 = (Ok (), s2) \<and> translate_user_va 0x40000000 0x400123 s2 = None"
proof -
  obtain r s1 where m: "map_page None 0x40000000 0 0x400000 0x50000000 user_rw demo_ptw = (r, s1)" by (metis prod.exhaust)
  have wf: "root_wf (pte_addr (root_for_va 0x40000000 0 0x400000)) demo_ptw" by (simp add: demo_ttbr demo_root_wf)
  have fr: "\<not> end_free_page (pw_phys demo_ptw) \<le> next_free_page (pw_phys demo_ptw) + 2 * 4096"
    by (simp add: demo_ptw_def demo_phys_def)
  have ms: "map_steps (current_process_register_page_table None) (current_process_register_page_table None)
      0x07FFFFFFFFFFFFFF (NOT 0) 0xFFF0000000000FFF (mmu_attr_bits user_rw) (pte_addr (root_for_va 0x40000000 0 0x400000)) 0x400000
      (unat (0x50000000 :: u64)) demo_ptw = (r, s1)"
    using m by (simp add: map_page_def)
  have "r = Ok ()" using mmu_current.map_steps_spec [OF wf _ _ attr_bits_field(1) ms] fr by auto
  then have m': "map_page None 0x40000000 0 0x400000 0x50000000 user_rw demo_ptw = (Ok (), s1)" using m by simp
  obtain r2 s2 where u: "unmap_page 0x40000000 0 0x400000 s1 = (r2, s2)" by (metis prod.exhaust)
  have pg: "page_of 0x400123 = page_of 0x400000" by (simp add: page_of_def)
  from map_unmap_roundtrip [OF wf _ _ _ m' u] pg have "r2 = Ok ()" "translate_user_va 0x40000000 0x400123 s2 = None"
    by (auto simp: demo_ttbr Let_def)
  then show ?thesis using m' u by blast
qed

text \<open>A root whose first entry leads to a table with one 1 GiB block.\<close>

definition demo_block_ptw :: ptw where
  "demo_block_ptw = demo_ptw\<lparr>pw_pte := (\<lambda>t i. if t = 0x40000000 \<and> i = 0 then 0x40001003
      else if t = 0x40001000 \<and> i = 1 then 0x40000701 else 0)\<rparr>"

theorem unmap_page_ignores_blocks_witness:
  "unmap_page 0x40000000 0 0x40000000 demo_block_ptw = (Ok (), demo_block_ptw)
     \<and> translate_user_va 0x40000000 0x40000000 demo_block_ptw = Some 0x40000000"
proof -
  let ?m = "pw_pte demo_block_ptw"
  have ent: "pte_table 0x40001003" "pte_addr 0x40001003 = 0x40001000" "\<not> pte_table 0x40000701" "pte_valid 0x40000701"
    "region_base 30 0x40000701 = 0x40000000" "pte_addr 0x40000701 = 0x40000000"
    by (simp_all add: pte_table_def pte_valid_def PTE_VALID_def pte_addr_def region_base_def)
  have t1: "table_at ?m 0x40001000 p = Some t \<longleftrightarrow> p = [] \<and> t = 0x40001000" for p t
    using ent by (cases p) (auto simp: demo_block_ptw_def)
  have t0: "table_at ?m 0x40000000 p = Some t \<longleftrightarrow> p = [] \<and> t = 0x40000000 \<or> p = [0] \<and> t = 0x40001000" for p t
    using ent t1 by (cases p) (auto simp: demo_block_ptw_def)
  have "tree_wf ?m 0x40000000 (next_free_page (pw_phys demo_block_ptw))"
    unfolding tree_wf_def t0 using ent by (auto simp: demo_block_ptw_def demo_ptw_def demo_phys_def)
  then have wf: "root_wf (pte_addr (root_for_va 0x40000000 0 0x40000000)) demo_block_ptw"
    using demo_phys_inv by (simp add: root_wf_def demo_block_ptw_def demo_ptw_def root_for_va_def pte_addr_def KERNEL_OFFSET_def)
  have rt: "pte_addr (root_for_va 0x40000000 0 0x40000000) = 0x40000000"
    by (simp add: root_for_va_def pte_addr_def KERNEL_OFFSET_def)
  have "table_at ?m (pte_addr (root_for_va 0x40000000 0 0x40000000)) (take 3 (va_path 0x40000000)) = None"
    unfolding rt
  proof (rule ccontr)
    assume "table_at ?m 0x40000000 (take 3 (va_path 0x40000000)) \<noteq> None"
    then obtain t where "table_at ?m 0x40000000 (take 3 (va_path 0x40000000)) = Some t" by blast
    then have "take 3 (va_path 0x40000000) = [] \<or> take 3 (va_path 0x40000000) = [0]" unfolding t0 by blast
    then show False by (simp add: va_path_def)
  qed
  from unmap_page_ignores_blocks [OF wf _ this] have "unmap_page 0x40000000 0 0x40000000 demo_block_ptw = (Ok (), demo_block_ptw)"
    by simp
  moreover have "translate_user_va 0x40000000 0x40000000 demo_block_ptw = Some 0x40000000"
    using ent by (simp add: translate_user_va_def read_pte_def va_l0_index_def va_l1_index_def demo_block_ptw_def)
  ultimately show ?thesis ..
qed

end
