(* ===== verification/User_Memory.thy ===== *)
theory User_Memory
  imports Page_Table
begin

text \<open>
  Access to user memory from system calls: the copy routines of
  \<open>kernel/src/syscall/handlers/ipc.rs\<close> and the pointer checks of
  \<open>kernel/src/syscall/validation.rs\<close>. Both walk the caller's page tables one page at a time and then
  touch the frame through the kernel's direct map. The loops take the translation as an argument;
  the system calls pass \<open>translate_user_va\<close> at the caller's root.

  The locale \<open>address_space\<close> states what the loops rely on: addresses of one page translate to
  consecutive physical addresses.
\<close>

section \<open>Copying\<close>

text \<open>
  One iteration copies up to the end of the page. The sum of the user pointer and the number of
  bytes copied wraps, as in a release build.
\<close>

definition page_chunk :: "nat \<Rightarrow> u64 \<Rightarrow> nat" where
  "page_chunk len va = min len (4096 - unat (va AND 0xfff))"

lemma page_chunk_pos: "0 < len \<Longrightarrow> 0 < page_chunk len va \<and> page_chunk len va \<le> len"
  by (auto simp: page_chunk_def unat_and_4095)

function copy_from_loop :: "(u64 \<Rightarrow> nat option) \<Rightarrow> (nat \<Rightarrow> u8) \<Rightarrow> u64 \<Rightarrow> nat \<Rightarrow> u8 list res" where
  "copy_from_loop tr mem va len =
     (if len = 0 then Ok []
      else case tr va of
        None \<Rightarrow> Err InvalidArgs
      | Some pa \<Rightarrow>
          (let chunk = page_chunk len va in
           case copy_from_loop tr mem (va + word_of_nat chunk) (len - chunk) of
             Ok bs \<Rightarrow> Ok (map mem [pa..<pa + chunk] @ bs)
           | r \<Rightarrow> r))"
  by pat_completeness auto
termination
  by (relation "measure (\<lambda>(tr, mem, va, len). len)") (use page_chunk_pos in fastforce)+

definition store_bytes :: "nat \<Rightarrow> u8 list \<Rightarrow> (nat \<Rightarrow> u8) \<Rightarrow> (nat \<Rightarrow> u8)" where
  "store_bytes pa bs mem = (\<lambda>a. if pa \<le> a \<and> a < pa + length bs then bs ! (a - pa) else mem a)"

function copy_to_loop :: "(u64 \<Rightarrow> nat option) \<Rightarrow> u8 list \<Rightarrow> u64 \<Rightarrow> (nat \<Rightarrow> u8) \<Rightarrow> unit res \<times> (nat \<Rightarrow> u8)" where
  "copy_to_loop tr src va mem =
     (if src = [] then (Ok (), mem)
      else case tr va of
        None \<Rightarrow> (Err InvalidArgs, mem)
      | Some pa \<Rightarrow>
          (let chunk = page_chunk (length src) va in
           copy_to_loop tr (drop chunk src) (va + word_of_nat chunk) (store_bytes pa (take chunk src) mem)))"
  by pat_completeness auto
termination
  by (relation "measure (\<lambda>(tr, src, va, mem). length src)") (use page_chunk_pos in fastforce)+

declare copy_from_loop.simps [simp del] copy_to_loop.simps [simp del]

definition safe_copy_from_user :: "nat \<Rightarrow> u64 \<Rightarrow> nat \<Rightarrow> ptw \<Rightarrow> u8 list res" where
  "safe_copy_from_user l0_pa src_user_va len s =
     (if l0_pa = 0 then Err InvalidArgs
      else copy_from_loop (\<lambda>va. translate_user_va l0_pa va s) (ram (pw_phys s)) src_user_va len)"

text \<open>A failing copy to the user has written the pages before the unmapped one.\<close>

definition safe_copy_to_user :: "nat \<Rightarrow> u8 list \<Rightarrow> u64 \<Rightarrow> ptw \<Rightarrow> unit res \<times> ptw" where
  "safe_copy_to_user l0_pa src dest_user_va s =
     (if l0_pa = 0 then (Err InvalidArgs, s)
      else let (r, mem) = copy_to_loop (\<lambda>va. translate_user_va l0_pa va s) src dest_user_va (ram (pw_phys s))
           in (r, s\<lparr>pw_phys := (pw_phys s)\<lparr>ram := mem\<rparr>\<rparr>))"

section \<open>Checking pointers\<close>

definition probe :: "nat \<Rightarrow> u64 \<Rightarrow> ptw \<Rightarrow> unit res" where
  "probe l0_pa va s = (if l0_pa = 0 then Err InvalidArgs else if translate_user_va l0_pa va s = None then Err InvalidArgs else Ok ())"

text \<open>
  The loop of \<open>validate_range\<close>, with \<open>ok\<close> for a successful probe. It may not end: the successor of
  the last page of the address space wraps to address 0.
\<close>

partial_function (option) validate_loop :: "(u64 \<Rightarrow> bool) \<Rightarrow> u64 \<Rightarrow> u64 \<Rightarrow> unit res option" where
  "validate_loop ok stop addr =
     (if \<not> ok addr then Some (Err InvalidArgs)
      else if stop - 1 \<le> addr then
        (if \<not> ok addr then Some (Err InvalidArgs)
         else let last = stop - 1 in
           if last AND 0xfff \<noteq> addr AND 0xfff then (if \<not> ok last then Some (Err InvalidArgs) else Some (Ok ()))
           else Some (Ok ()))
      else let next_page = (addr AND NOT 0xfff) + 0x1000 in
        validate_loop ok stop (if next_page < stop then next_page else stop - 1))"

definition validate_range :: "u64 \<Rightarrow> nat \<Rightarrow> nat \<Rightarrow> ptw \<Rightarrow> unit res option" where
  "validate_range ptr len l0_pa s =
     (if len = 0 then Some (probe l0_pa ptr s)
      else if 2 ^ 64 \<le> unat ptr + len then Some (Err InvalidArgs)
      else validate_loop (\<lambda>va. probe l0_pa va s = Ok ()) (ptr + word_of_nat len) ptr)"

section \<open>Pages of an address space\<close>

text \<open>The byte-wise view of a range: every byte translates, what is read, what is written.\<close>

definition range_mapped :: "(u64 \<Rightarrow> nat option) \<Rightarrow> u64 \<Rightarrow> nat \<Rightarrow> bool" where
  "range_mapped tr va len \<longleftrightarrow> (\<forall>i<len. tr (va + word_of_nat i) \<noteq> None)"

definition load_at :: "(u64 \<Rightarrow> nat option) \<Rightarrow> u64 \<Rightarrow> nat \<Rightarrow> (nat \<Rightarrow> u8) \<Rightarrow> u8 list" where
  "load_at tr va len mem = map (\<lambda>i. mem (the (tr (va + word_of_nat i)))) [0..<len]"

primrec store_at :: "(u64 \<Rightarrow> nat option) \<Rightarrow> u64 \<Rightarrow> u8 list \<Rightarrow> (nat \<Rightarrow> u8) \<Rightarrow> (nat \<Rightarrow> u8)" where
  "store_at tr va [] mem = mem"
| "store_at tr va (b # bs) mem = store_at tr (va + 1) bs (mem(the (tr va) := b))"

lemma word_add_of_nat: "(va :: u64) + word_of_nat (i + j) = va + word_of_nat i + word_of_nat j"
  by (simp add: add.assoc)

lemma range_mapped_split:
  assumes "c \<le> len"
  shows "range_mapped tr va len \<longleftrightarrow> range_mapped tr va c \<and> range_mapped tr (va + word_of_nat c) (len - c)"
proof -
  have "(\<forall>i<len. P i) \<longleftrightarrow> (\<forall>i<c. P i) \<and> (\<forall>i<len - c. P (c + i))" for P
    using assms by (metis add_diff_inverse_nat less_diff_conv2 linorder_not_less nat_add_left_cancel_less order_less_le_trans le_add_diff_inverse)
  from this [of "\<lambda>i. tr (va + word_of_nat i) \<noteq> None"] show ?thesis
    by (simp only: range_mapped_def word_add_of_nat)
qed

lemma load_at_split:
  assumes "c \<le> len"
  shows "load_at tr va len mem = load_at tr va c mem @ load_at tr (va + word_of_nat c) (len - c) mem"
proof -
  have "map (\<lambda>i. c + i) [0..<len - c] = [c..<len]" by (rule nth_equalityI) auto
  then have "[0..<len] = [0..<c] @ map (\<lambda>i. c + i) [0..<len - c]"
    using assms upt_split [of 0 c len] by simp
  then show ?thesis by (simp add: load_at_def word_add_of_nat del: of_nat_add)
qed

lemma store_at_append:
  "store_at tr va (bs @ cs) mem = store_at tr (va + word_of_nat (length bs)) cs (store_at tr va bs mem)"
  by (induction bs arbitrary: va mem) (simp_all add: add.assoc)

locale address_space =
  fixes tr :: "u64 \<Rightarrow> nat option"
  assumes same_page: "unat va mod 4096 + i < 4096 \<Longrightarrow> tr (va + word_of_nat i) = map_option (\<lambda>pa. pa + i) (tr va)"
begin

lemma chunk_same_page:
  assumes "i < page_chunk len va"
  shows "tr (va + word_of_nat i) = map_option (\<lambda>pa. pa + i) (tr va)"
  using assms by (intro same_page) (auto simp: page_chunk_def unat_and_4095)

lemma chunk_mapped: "tr va = Some pa \<Longrightarrow> range_mapped tr va (page_chunk len va)"
  by (simp add: range_mapped_def chunk_same_page)

lemma chunk_load: "tr va = Some pa \<Longrightarrow> load_at tr va (page_chunk len va) mem = map mem [pa..<pa + page_chunk len va]"
  unfolding load_at_def by (rule nth_equalityI) (auto simp: chunk_same_page)

lemma chunk_store:
  assumes "tr va = Some pa" "n \<le> page_chunk len va" "length bs = n"
  shows "store_at tr va bs mem = store_bytes pa bs mem"
  using assms
proof (induction bs arbitrary: n rule: rev_induct)
  case Nil
  show ?case by (rule ext) (auto simp: store_bytes_def)
next
  case (snoc b bs)
  have "store_at tr va bs mem = store_bytes pa bs mem" using snoc.prems by (intro snoc.IH [of "n - 1"]) auto
  moreover have "tr (va + word_of_nat (length bs)) = Some (pa + length bs)"
    using snoc.prems chunk_same_page [of "length bs" len va] by simp
  ultimately have "store_at tr va (bs @ [b]) mem = (store_bytes pa bs mem)(pa + length bs := b)"
    by (simp add: store_at_append)
  also have "\<dots> = store_bytes pa (bs @ [b]) mem"
    by (rule ext) (auto simp: store_bytes_def nth_append)
  finally show ?case .
qed

lemma copy_from_loop_bytes:
  "copy_from_loop tr mem va len = (if range_mapped tr va len then Ok (load_at tr va len mem) else Err InvalidArgs)"
proof (induction tr\<equiv>tr mem va len rule: copy_from_loop.induct)
  case (1 mem va len)
  show ?case
  proof (cases "len = 0")
    case True
    then show ?thesis by (simp add: copy_from_loop.simps [of _ _ _ 0] range_mapped_def load_at_def)
  next
    case False
    show ?thesis
    proof (cases "tr va")
      case None
      then have "\<not> range_mapped tr va len" using False by (auto simp: range_mapped_def intro!: exI [of _ 0])
      then show ?thesis using None False by (simp add: copy_from_loop.simps [of _ _ _ len])
    next
      case (Some pa)
      let ?c = "page_chunk len va"
      have c: "?c \<le> len" using page_chunk_pos [of len va] False by simp
      note IH = 1 [OF False Some refl]
      show ?thesis
        using range_mapped_split [OF c] chunk_mapped [OF Some, of len] load_at_split [OF c] chunk_load [OF Some, of len mem] False Some IH
        by (simp add: copy_from_loop.simps [of _ _ va len] Let_def)
    qed
  qed
qed

lemma copy_to_loop_bytes:
  assumes "range_mapped tr va (length src)"
  shows "copy_to_loop tr src va mem = (Ok (), store_at tr va src mem)"
  using assms
proof (induction tr\<equiv>tr src va mem rule: copy_to_loop.induct)
  case (1 src va mem)
  show ?case
  proof (cases "src = []")
    case True
    then show ?thesis by (simp add: copy_to_loop.simps [of _ "[]"])
  next
    case False
    let ?c = "page_chunk (length src) va"
    have c: "?c \<le> length src" using page_chunk_pos [of "length src" va] False by simp
    have "tr (va + word_of_nat 0) \<noteq> None" using 1(2) False unfolding range_mapped_def by blast
    then obtain pa where pa: "tr va = Some pa" by auto
    have "range_mapped tr (va + word_of_nat ?c) (length (drop ?c src))"
      using 1(2) range_mapped_split [OF c, of tr va] by simp
    from 1(1) [OF False pa refl this] have IH:
      "copy_to_loop tr (drop ?c src) (va + word_of_nat ?c) (store_bytes pa (take ?c src) mem)
         = (Ok (), store_at tr (va + word_of_nat ?c) (drop ?c src) (store_bytes pa (take ?c src) mem))" .
    have "store_at tr va (take ?c src) mem = store_bytes pa (take ?c src) mem"
      using c by (intro chunk_store [OF pa order_refl]) simp
    then have "store_at tr va src mem = store_at tr (va + word_of_nat ?c) (drop ?c src) (store_bytes pa (take ?c src) mem)"
      using store_at_append [of tr va "take ?c src" "drop ?c src" mem] c by simp
    then show ?thesis using IH False pa by (simp add: copy_to_loop.simps [of _ src va] Let_def)
  qed
qed

lemma copy_to_loop_unmapped:
  assumes "\<not> range_mapped tr va (length src)"
  shows "fst (copy_to_loop tr src va mem) = Err InvalidArgs"
  using assms
proof (induction tr\<equiv>tr src va mem rule: copy_to_loop.induct)
  case (1 src va mem)
  have ne: "src \<noteq> []" using 1(2) by (auto simp: range_mapped_def)
  show ?case
  proof (cases "tr va")
    case None
    then show ?thesis using ne by (simp add: copy_to_loop.simps [of _ src va])
  next
    case (Some pa)
    let ?c = "page_chunk (length src) va"
    have c: "?c \<le> length src" using page_chunk_pos [of "length src" va] ne by simp
    have "\<not> range_mapped tr (va + word_of_nat ?c) (length (drop ?c src))"
      using 1(2) range_mapped_split [OF c, of tr va] chunk_mapped [OF Some] by simp
    from 1(1) [OF ne Some refl this] show ?thesis using ne Some by (simp add: copy_to_loop.simps [of _ src va] Let_def)
  qed
qed

lemma store_at_frame: "a \<notin> (\<lambda>i. the (tr (va + word_of_nat i))) ` {..<length bs} \<Longrightarrow> store_at tr va bs mem a = mem a"
proof (induction bs arbitrary: mem rule: rev_induct)
  case (snoc b bs)
  then show ?case by (simp add: store_at_append lessThan_Suc)
qed simp

lemma load_store_at:
  assumes "\<forall>i<length bs. \<forall>j<length bs. the (tr (va + word_of_nat i)) = the (tr (va + word_of_nat j)) \<longrightarrow> i = j"
  shows "load_at tr va (length bs) (store_at tr va bs mem) = bs"
  using assms
proof (induction bs rule: rev_induct)
  case (snoc b bs)
  let ?f = "\<lambda>i. the (tr (va + word_of_nat i))" and ?m = "store_at tr va bs mem"
  have "\<forall>i<length bs. ?f i \<noteq> ?f (length bs)" using snoc.prems
    by (metis length_append_singleton lessI less_Suc_eq nless_le)
  then have "load_at tr va (length bs) (?m(?f (length bs) := b)) = load_at tr va (length bs) ?m"
    by (auto simp: load_at_def)
  moreover have "load_at tr va (length bs) ?m = bs" using snoc.prems by (intro snoc.IH) auto
  moreover have "load_at tr va (Suc n) m = load_at tr va n m @ [m (?f n)]" for n m by (simp add: load_at_def)
  moreover have "store_at tr va (bs @ [b]) mem = ?m(?f (length bs) := b)" by (simp add: store_at_append)
  ultimately show ?case by (simp only: length_append_singleton) simp
qed (simp add: load_at_def)

text \<open>\<open>validate_range\<close> checks every page once; below the last page it ends.\<close>

lemma same_page_mapped:
  assumes "unat a div 4096 = unat b div 4096"
  shows "tr a = None \<longleftrightarrow> tr b = None"
proof -
  have *: "tr x = None \<longleftrightarrow> tr y = None" if "unat x div 4096 = unat y div 4096" "unat x \<le> unat y" for x y
  proof -
    have y: "y = x + word_of_nat (unat y - unat x)" using that by (simp add: of_nat_diff)
    have "unat x mod 4096 + (unat y - unat x) = unat y mod 4096"
      using that(2) mod_mult_div_eq [of "unat x" 4096] mod_mult_div_eq [of "unat y" 4096] unfolding that(1) by linarith
    then have "unat x mod 4096 + (unat y - unat x) < 4096" by simp
    from same_page [OF this] y show ?thesis by (metis option.map_disc_iff)
  qed
  show ?thesis using * [of a b] * [of b a] assms by (cases "unat a \<le> unat b") auto
qed

lemma validate_loop_checks:
  assumes "unat addr < unat stop" "unat stop \<le> 2 ^ 64 - 4096"
  shows "validate_loop (\<lambda>va. tr va \<noteq> None) stop addr =
    Some (if \<forall>a. unat addr \<le> unat a \<and> unat a < unat stop \<longrightarrow> tr a \<noteq> None then Ok () else Err InvalidArgs)"
  using assms
proof (induction "unat stop - unat addr" arbitrary: addr rule: less_induct)
  case less
  have "stop \<noteq> 0" using less.prems by auto
  then have s1: "unat (stop - 1) = unat stop - 1" by (rule Word.unat_minus_one)
  let ?all = "\<lambda>addr. \<forall>a. unat addr \<le> unat a \<and> unat a < unat stop \<longrightarrow> tr a \<noteq> None"
  show ?case
  proof (cases "tr addr = None")
    case True
    then show ?thesis using less.prems by (subst validate_loop.simps) auto
  next
    case ok: False
    show ?thesis
    proof (cases "stop - 1 \<le> addr")
      case True
      then have "unat addr = unat stop - 1" using s1 less.prems by (simp add: word_le_nat_alt)
      then have eq: "addr = stop - 1" using s1 by (simp add: word_unat_eq_iff)
      have "?all addr"
      proof (intro allI impI)
        fix a :: u64 assume "unat addr \<le> unat a \<and> unat a < unat stop"
        then have "unat a = unat addr" using \<open>unat addr = unat stop - 1\<close> by linarith
        then have "a = addr" by (simp add: word_unat_eq_iff)
        then show "tr a \<noteq> None" using ok by simp
      qed
      then show ?thesis using ok eq by (subst validate_loop.simps) (simp add: Let_def)
    next
      case False
      let ?np = "(addr AND NOT 0xfff) + 0x1000" and ?q = "unat addr div 4096"
      have lt: "unat addr < unat stop - 1" using False s1 by (simp add: word_le_nat_alt)
      have np: "unat ?np = (?q + 1) * 4096"
      proof -
        have "unat (addr AND NOT 0xfff) = ?q * 4096" by (simp only: unat_and_not_4095 minus_mod_eq_div_mult)
        moreover have "?q * 4096 \<le> unat addr" by simp
        ultimately show ?thesis using less.prems by (subst unat_add_no_wrap) auto
      qed
      let ?nx = "if ?np < stop then ?np else stop - 1"
      have gt: "unat addr < unat ?nx" "unat ?nx < unat stop"
        using np lt less.prems s1 by (auto simp: word_less_nat_alt)
      have skip: "tr a \<noteq> None" if a: "unat addr \<le> unat a" "unat a < unat ?nx" for a
      proof -
        have "unat a < (?q + 1) * 4096"
          using a(2) np s1 by (auto simp: word_less_nat_alt split: if_splits)
        moreover have "?q * 4096 \<le> unat a" using a(1) by (meson div_times_less_eq_dividend le_trans)
        ultimately have "unat a div 4096 = ?q" by (intro div_nat_eqI) (auto simp: mult.commute)
        then show ?thesis using ok same_page_mapped [of a addr] by auto
      qed
      have "?all ?nx \<longleftrightarrow> ?all addr" using skip gt(1) by (meson le_trans less_imp_le linorder_not_less)
      moreover have "validate_loop (\<lambda>va. tr va \<noteq> None) stop addr = validate_loop (\<lambda>va. tr va \<noteq> None) stop ?nx"
        using ok False by (subst validate_loop.simps) (simp add: Let_def)
      moreover have "unat stop - unat ?nx < unat stop - unat addr" using gt by linarith
      note less.hyps [OF this gt(2) less.prems(2)]
      ultimately show ?thesis by simp
    qed
  qed
qed

end

lemma mod_add_in_page:
  assumes "4096 dvd (m :: nat)" "0 < m" "x mod 4096 + i < 4096"
  shows "(x + i) mod m = x mod m + i" "(x + i) div m = x div m"
proof -
  obtain k where k: "m = 4096 * k" using assms(1) by (auto elim: dvdE)
  then have k0: "0 < k" using assms(2) by simp
  have "x mod m = 4096 * (x div 4096 mod k) + x mod 4096" unfolding k by (rule mod_mult2_eq)
  moreover have "x div 4096 mod k + 1 \<le> k" using mod_less_divisor [OF k0, of "x div 4096"] by linarith
  then have "4096 * (x div 4096 mod k) + 4096 \<le> m"
    unfolding k using mult_le_mono2 [of "x div 4096 mod k + 1" k 4096] by simp
  ultimately have lt: "x mod m + i < m" using assms(3) by linarith
  have "(x + i) mod m = (x mod m + i) mod m" by (simp add: mod_add_left_eq)
  then show mod: "(x + i) mod m = x mod m + i" using lt by simp
  have "m * ((x + i) div m) = m * (x div m)"
    using mult_div_mod_eq [of m "x + i"] mult_div_mod_eq [of m x] mod by linarith
  then show "(x + i) div m = x div m" using assms(2) by simp
qed

lemma unat_add_in_page:
  assumes "unat (va :: u64) mod 4096 + i < 4096"
  shows "unat (va + word_of_nat i) = unat va + i"
proof -
  have "(unat va + i) mod 2 ^ 64 = unat va mod 2 ^ 64 + i" by (rule mod_add_in_page(1) [OF _ _ assms]) simp_all
  then have "unat va + i < 2 ^ 64" using unat_bound [of va] mod_less_divisor [of "2 ^ 64" "unat va + i"] by simp
  moreover have "unat (word_of_nat i :: u64) = i" using assms by (simp add: unsigned_of_nat take_bit_nat_eq_self)
  ultimately show ?thesis by (subst unat_add_no_wrap) simp_all
qed

lemma translate_same_page:
  assumes "unat va mod 4096 + i < 4096"
  shows "translate_user_va l0 (va + word_of_nat i) s = map_option (\<lambda>pa. pa + i) (translate_user_va l0 va s)"
proof -
  note u = unat_add_in_page [OF assms]
  note d = mod_add_in_page [OF _ _ assms]
  have idx: "va_l0_index (va + word_of_nat i) = va_l0_index va" "va_l1_index (va + word_of_nat i) = va_l1_index va"
    "va_l2_index (va + word_of_nat i) = va_l2_index va" "va_l3_index (va + word_of_nat i) = va_l3_index va"
    unfolding va_l0_index_def va_l1_index_def va_l2_index_def va_l3_index_def index_eq u by (simp_all add: d(2))
  show ?thesis
    unfolding translate_user_va_def idx Let_def offset_eq u by (simp add: d(1))
qed

interpretation user_space: address_space "\<lambda>va. translate_user_va l0_pa va s" for l0_pa s
  by unfold_locales (rule translate_same_page)

section \<open>Properties\<close>

lemma translate_cong: "pw_pte s' = pw_pte s \<Longrightarrow> translate_user_va l0 va s' = translate_user_va l0 va s"
  unfolding translate_user_va_def read_pte_def by (simp only:)

lemma unat_range: "i < len \<Longrightarrow> unat va + len \<le> 2 ^ 64 \<Longrightarrow> unat ((va :: u64) + word_of_nat i) = unat va + i"
  by (subst unat_add_no_wrap) (simp_all add: unsigned_of_nat take_bit_nat_eq_self)

lemma range_mapped_interval:
  assumes "unat ptr + len < 2 ^ 64"
  shows "range_mapped tr ptr len \<longleftrightarrow> (\<forall>a. unat ptr \<le> unat a \<and> unat a < unat ptr + len \<longrightarrow> tr a \<noteq> None)"
proof -
  have "a = ptr + word_of_nat (unat a - unat ptr)" if "unat ptr \<le> unat a" for a
    using that by (simp add: of_nat_diff)
  then have "tr a \<noteq> None" if "range_mapped tr ptr len" "unat ptr \<le> unat a" "unat a < unat ptr + len" for a
    using that unfolding range_mapped_def by (metis less_diff_conv2 add.commute)
  moreover have "unat ptr \<le> unat (ptr + word_of_nat i) \<and> unat (ptr + word_of_nat i) < unat ptr + len" if "i < len" for i
    using unat_range [OF that, of ptr] assms that by simp
  ultimately show ?thesis unfolding range_mapped_def by blast
qed

text \<open>
  C17. The copy routines are the byte-wise ones. \<open>safe_copy_from_user\<close> succeeds exactly when every
  byte of the range translates and returns the bytes at their physical addresses;
  \<open>safe_copy_to_user\<close> succeeds under the same condition and then has stored each byte at the
  translation of its address, in order. Neither depends on how the range falls into pages.
\<close>

theorem user_copy_bytewise:
  fixes l0_pa :: nat and s :: ptw
  defines "tr \<equiv> \<lambda>va. translate_user_va l0_pa va s"
  shows "safe_copy_from_user l0_pa va len s =
      (if l0_pa \<noteq> 0 \<and> range_mapped tr va len then Ok (load_at tr va len (ram (pw_phys s))) else Err InvalidArgs)
    \<and> fst (safe_copy_to_user l0_pa src va s) =
      (if l0_pa \<noteq> 0 \<and> range_mapped tr va (length src) then Ok () else Err InvalidArgs)
    \<and> (if l0_pa \<noteq> 0 \<and> range_mapped tr va (length src)
        then snd (safe_copy_to_user l0_pa src va s) = s\<lparr>pw_phys := (pw_phys s)\<lparr>ram := store_at tr va src (ram (pw_phys s))\<rparr>\<rparr>
        else pw_pte (snd (safe_copy_to_user l0_pa src va s)) = pw_pte s)"
  unfolding tr_def safe_copy_from_user_def safe_copy_to_user_def user_space.copy_from_loop_bytes
  using user_space.copy_to_loop_unmapped [of l0_pa s va src "ram (pw_phys s)"]
  by (auto simp: user_space.copy_to_loop_bytes Let_def split: prod.splits)

text \<open>
  Copy out, copy in. When a copy to the user succeeds and no two bytes of the range share a
  physical address, copying the same range back returns the bytes, every byte of memory that the
  range does not translate to is as before, and the page tables are untouched.
\<close>

theorem user_copy_roundtrip:
  assumes "safe_copy_to_user l0_pa src va s = (Ok (), s')"
    and "\<forall>i<length src. \<forall>j<length src.
      translate_user_va l0_pa (va + word_of_nat i) s = translate_user_va l0_pa (va + word_of_nat j) s \<longrightarrow> i = j"
  shows "safe_copy_from_user l0_pa va (length src) s' = Ok src \<and> pw_pte s' = pw_pte s
    \<and> (\<forall>a. (\<forall>i<length src. translate_user_va l0_pa (va + word_of_nat i) s \<noteq> Some a) \<longrightarrow> ram (pw_phys s') a = ram (pw_phys s) a)"
proof -
  let ?tr = "\<lambda>va. translate_user_va l0_pa va s" and ?m = "ram (pw_phys s)"
  have l0: "l0_pa \<noteq> 0" and ok: "fst (copy_to_loop ?tr src va ?m) = Ok ()"
    using assms(1) by (auto simp: safe_copy_to_user_def split: prod.splits if_splits)
  then have rm: "range_mapped ?tr va (length src)" using user_space.copy_to_loop_unmapped [of l0_pa s va src ?m] by auto
  have s': "s' = s\<lparr>pw_phys := (pw_phys s)\<lparr>ram := store_at ?tr va src ?m\<rparr>\<rparr>"
    using assms(1) l0 by (simp add: safe_copy_to_user_def user_space.copy_to_loop_bytes [OF rm])
  have tr': "(\<lambda>va. translate_user_va l0_pa va s') = ?tr" by (rule ext, rule translate_cong) (simp add: s')
  have sm: "?tr (va + word_of_nat i) = Some (the (?tr (va + word_of_nat i)))" if "i < length src" for i
    using rm that by (auto simp: range_mapped_def)
  have "load_at ?tr va (length src) (store_at ?tr va src ?m) = src"
    using assms(2) sm by (intro user_space.load_store_at) metis
  then have "safe_copy_from_user l0_pa va (length src) s' = Ok src"
    using l0 rm by (simp add: safe_copy_from_user_def tr' user_space.copy_from_loop_bytes) (simp add: s')
  moreover have "ram (pw_phys s') a = ?m a" if "\<forall>i<length src. ?tr (va + word_of_nat i) \<noteq> Some a" for a
    using that sm by (auto simp: s' intro!: user_space.store_at_frame)
  ultimately show ?thesis by (simp add: s')
qed

lemma validate_range_eq:
  assumes "l0_pa \<noteq> 0" "0 < len" "unat ptr + len \<le> 2 ^ 64 - 4096"
  shows "validate_range ptr len l0_pa s =
    Some (if range_mapped (\<lambda>va. translate_user_va l0_pa va s) ptr len then Ok () else Err InvalidArgs)"
proof -
  let ?tr = "\<lambda>va. translate_user_va l0_pa va s"
  have stop: "unat (ptr + word_of_nat len) = unat ptr + len"
    using assms by (subst unat_add_no_wrap) (simp_all add: unsigned_of_nat take_bit_nat_eq_self)
  have "(\<lambda>va. probe l0_pa va s = Ok ()) = (\<lambda>va. ?tr va \<noteq> None)" using assms(1) by (auto simp: probe_def fun_eq_iff)
  moreover have "\<not> 2 ^ 64 \<le> unat ptr + len" using assms(3) by simp
  ultimately have "validate_range ptr len l0_pa s = validate_loop (\<lambda>va. ?tr va \<noteq> None) (ptr + word_of_nat len) ptr"
    using assms(2) by (simp add: validate_range_def)
  also have "\<dots> = Some (if range_mapped ?tr ptr len then Ok () else Err InvalidArgs)"
    using assms(2,3) stop range_mapped_interval [of ptr len ?tr]
    by (subst user_space.validate_loop_checks) simp_all
  finally show ?thesis .
qed

text \<open>
  C35. The pointer check ends and is exact. For a non-empty buffer that ends below the last page of
  the address space the loop of \<open>validate_range\<close> returns; it accepts exactly the buffers all of whose
  bytes are mapped, although it probes one address per page; and an accepted buffer can be copied in
  either direction.
\<close>

theorem validate_range_exact:
  assumes "l0_pa \<noteq> 0" "0 < len" "unat ptr + len \<le> 2 ^ 64 - 4096"
  shows "\<exists>r. validate_range ptr len l0_pa s = Some r
    \<and> (r = Ok () \<longleftrightarrow> range_mapped (\<lambda>va. translate_user_va l0_pa va s) ptr len) \<and> (r \<noteq> Ok () \<longrightarrow> r = Err InvalidArgs)
    \<and> (r = Ok () \<longrightarrow> (\<exists>bs. safe_copy_from_user l0_pa ptr len s = Ok bs \<and> length bs = len)
        \<and> (\<forall>src. length src = len \<longrightarrow> fst (safe_copy_to_user l0_pa src ptr s) = Ok ()))"
  unfolding validate_range_eq [OF assms] using assms(1)
  by (auto simp: safe_copy_from_user_def safe_copy_to_user_def user_space.copy_from_loop_bytes
      user_space.copy_to_loop_bytes load_at_def split: prod.splits)

lemma copy_entries_spec:
  assumes "distinct is" "src \<noteq> dst"
  shows "pw_pte (copy_entries is src dst s) t i =
      (if t = dst \<and> i \<in> set is \<and> pw_pte s src i \<noteq> 0 then pw_pte s src i else pw_pte s t i)
    \<and> pw_phys (copy_entries is src dst s) = pw_phys s \<and> pw_trees (copy_entries is src dst s) = pw_trees s"
  using assms(1)
proof (induction "is" arbitrary: s)
  case Nil
  then show ?case by (simp add: copy_entries_def)
next
  case (Cons j js)
  have "copy_entries (j # js) src dst s =
      copy_entries js src dst (if read_pte src j s \<noteq> 0 then write_pte dst j (read_pte src j s) s else s)"
    by (simp add: copy_entries_def)
  then show ?case using Cons assms(2) by (auto simp: read_pte_def write_pte_def)
qed

text \<open>Below a root entry the translation is the walk of the table it names.\<close>

lemma translate_below_root:
  "translate_user_va l0 va s = (let e = pw_pte s l0 (va_index 3 va) in if pte_valid e then walk 2 (pw_pte s) (pte_addr e) va else None)"
proof -
  have idx: "va_l0_index va = va_index 3 va" "va_l1_index va = va_index 2 va" "va_l2_index va = va_index 1 va"
    "va_l3_index va = va_index 0 va"
    by (simp_all add: va_l0_index_def va_l1_index_def va_l2_index_def va_l3_index_def index_eq va_index_def)
  have v: "pte_valid e \<longleftrightarrow> e AND 1 \<noteq> 0" "pte_table e \<longleftrightarrow> pte_valid e \<and> e AND 2 \<noteq> 0" for e
    by (simp_all add: pte_valid_def pte_table_def PTE_VALID_def)
  show ?thesis
    unfolding translate_user_va_def walk_unfold read_pte_def idx Let_def block_l1_eq block_l2_eq offset_eq by (simp add: v)
qed

lemma walk_agree:
  assumes wf: "tree_wf m r N" and same: "\<And>t. t < N \<Longrightarrow> m' t = m t"
  shows "n + length p = 3 \<Longrightarrow> table_at m r p = Some t \<Longrightarrow> walk n m' t va = walk n m t va"
proof (induction n arbitrary: p t)
  case 0
  then show ?case using same [OF tree_wf_below [OF wf _ 0(2)]] by simp
next
  case (Suc n)
  let ?i = "va_index (Suc n) va"
  have m: "m' t = m t" using same [OF tree_wf_below [OF wf _ Suc.prems(2)]] Suc.prems(1) by simp
  have "table_at m r (p @ [?i]) = Some (pte_addr (m t ?i))" if "pte_table (m t ?i)"
    using that Suc.prems(2) by (simp add: table_at_snoc)
  then show ?case using Suc.IH [of "p @ [?i]"] Suc.prems(1) m by (simp add: Let_def)
qed

text \<open>
  Kernel pointers pass the check. A new process receives the upper half of the root table that
  is active when it is created, and the checks never compare an address with the user range, so
  every address above the split that the kernel maps is a valid user buffer: the check accepts it,
  reading returns the byte of kernel memory there and writing overwrites it.
\<close>

theorem kernel_pointer_accepted:
  assumes wf: "tree_wf (pw_pte s) parent N" and l0: "N \<le> l0" "pt_l0_pa (tree k s) = l0" "pt_has_root (tree k s)"
    and va: "256 \<le> va_l0_index va" "unat va + 1 \<le> 2 ^ 64 - 4096" and pa: "translate_user_va parent va s = Some pa"
  shows "let s' = pt_clone_high_half k parent s in
     validate_range va 1 l0 s' = Some (Ok ()) \<and> safe_copy_from_user l0 va 1 s' = Ok [ram (pw_phys s) pa]
     \<and> (\<exists>s''. safe_copy_to_user l0 [b] va s' = (Ok (), s'') \<and> ram (pw_phys s'') pa = b)"
proof -
  let ?s = "pt_clone_high_half k parent s" and ?e = "pw_pte s parent (va_index 3 va)" and ?tr = "\<lambda>va. translate_user_va l0 va (pt_clone_high_half k parent s)"
  have par: "parent < N" using tree_wf_below [OF wf, of "[]" parent] by simp
  then have ne: "parent \<noteq> l0" "l0 \<noteq> 0" using l0 by auto
  have s': "?s = copy_entries [256..<512] parent l0 s" using l0 by (simp add: pt_clone_high_half_def)
  have spec: "pw_pte ?s t i = (if t = l0 \<and> i \<in> set [256..<512] \<and> pw_pte s parent i \<noteq> 0 then pw_pte s parent i else pw_pte s t i)"
    "pw_phys ?s = pw_phys s" for t i
    unfolding s' by (rule copy_entries_spec [OF distinct_upt ne(1), THEN conjunct1],
        rule copy_entries_spec [OF distinct_upt ne(1), THEN conjunct2, THEN conjunct1])
  have e: "pte_valid ?e" "walk 2 (pw_pte s) (pte_addr ?e) va = Some pa"
    using pa by (auto simp: translate_below_root Let_def split: if_splits)
  then have tab: "table_at (pw_pte s) parent [va_index 3 va] = Some (pte_addr ?e)"
    using tree_wf_block [OF wf, of "[]" parent "va_index 3 va"] by auto
  have "va_index 3 va = va_l0_index va" by (simp add: va_l0_index_def index_eq va_index_def)
  then have "va_index 3 va \<in> set [256..<512]" using va(1) va_index_less [of 3 va] unfolding set_upt by simp
  moreover have "?e \<noteq> 0" using e(1) by (auto simp: pte_valid_def)
  ultimately have "pw_pte ?s l0 (va_index 3 va) = ?e" unfolding spec(1) by (simp only: simp_thms if_True)
  moreover have "walk 2 (pw_pte ?s) (pte_addr ?e) va = walk 2 (pw_pte s) (pte_addr ?e) va"
    using l0(1) by (intro walk_agree [OF wf _ _ tab] ext) (simp_all only: spec(1), auto)
  ultimately have tr: "?tr va = Some pa" using e by (simp add: translate_below_root)
  then have rm: "range_mapped ?tr va (Suc 0)" by (simp add: range_mapped_def)
  then have "validate_range va 1 l0 ?s = Some (Ok ())" using validate_range_eq [OF ne(2) _ va(2), of ?s] by simp
  moreover have "safe_copy_from_user l0 va 1 ?s = Ok [ram (pw_phys s) pa]"
    using rm tr ne by (simp add: safe_copy_from_user_def user_space.copy_from_loop_bytes load_at_def spec)
  moreover have "copy_to_loop ?tr [b] va (ram (pw_phys ?s)) = (Ok (), (ram (pw_phys ?s))(pa := b))"
    using user_space.copy_to_loop_bytes [of l0 ?s va "[b]" "ram (pw_phys ?s)"] rm tr by simp
  then have "safe_copy_to_user l0 [b] va ?s = (Ok (), ?s\<lparr>pw_phys := (pw_phys ?s)\<lparr>ram := (ram (pw_phys ?s))(pa := b)\<rparr>\<rparr>)"
    unfolding safe_copy_to_user_def using ne(2) by simp
  ultimately show ?thesis by (simp add: Let_def)
qed

section \<open>Witnesses\<close>

lemma demo_entries: "pte_table 0x40001003" "pte_valid 0x40001003" "pte_addr 0x40001003 = 0x40001000" "\<not> pte_table 0x40000701"
  "pte_valid 0x40000701" "region_base 30 0x40000701 = 0x40000000" "pte_addr 0x40000701 = 0x40000000"
  by (simp_all add: pte_table_def pte_valid_def PTE_VALID_def pte_addr_def region_base_def)

lemma demo_block_translate:
  assumes "0x40000000 \<le> unat va" "unat va < 0x80000000"
  shows "translate_user_va 0x40000000 va demo_block_ptw = Some (unat va)"
proof -
  have i: "va_index 3 va = 0" "va_index 2 va = 1" using assms by (simp_all add: va_index_def)
  have "unat va div 2 ^ 30 = 1" using assms by (intro div_nat_eqI) simp_all
  then have "0x40000000 + unat va mod 2 ^ 30 = unat va" using mult_div_mod_eq [of "2 ^ 30" "unat va"] by simp
  then show ?thesis
    unfolding translate_below_root walk_unfold i Let_def using demo_entries by (simp add: demo_block_ptw_def)
qed

lemma demo_range_mapped: "range_mapped (\<lambda>va. translate_user_va 0x40000000 va demo_block_ptw) 0x50000ffe 3"
  unfolding range_mapped_def
proof (intro allI impI)
  fix i :: nat assume "i < 3"
  then have "i = 0 \<or> i = 1 \<or> i = 2" by auto
  then show "translate_user_va 0x40000000 (0x50000ffe + word_of_nat i) demo_block_ptw \<noteq> None"
    by (elim disjE) (simp_all add: demo_block_translate)
qed

theorem user_copy_roundtrip_witness:
  "\<exists>s'. safe_copy_to_user 0x40000000 [1, 2, 3] 0x50000ffe demo_block_ptw = (Ok (), s')
     \<and> safe_copy_from_user 0x40000000 0x50000ffe 3 s' = Ok [1, 2, 3]"
proof -
  obtain s' where s': "safe_copy_to_user 0x40000000 [1, 2, 3] 0x50000ffe demo_block_ptw = (Ok (), s')"
    using user_space.copy_to_loop_bytes [of "0x40000000" demo_block_ptw "0x50000ffe" "[1, 2, 3]"] demo_range_mapped
    by (simp add: safe_copy_to_user_def numeral_3_eq_3)
  have three: "(\<forall>i<length [1, 2, 3 :: u8]. P i) \<longleftrightarrow> P 0 \<and> P 1 \<and> P 2" for P
    by (simp add: numeral_3_eq_3 All_less_Suc2 numeral_2_eq_2)
  have inj: "\<forall>i<length [1, 2, 3 :: u8]. \<forall>j<length [1, 2, 3 :: u8]. translate_user_va 0x40000000 (0x50000ffe + word_of_nat i) demo_block_ptw
      = translate_user_va 0x40000000 (0x50000ffe + word_of_nat j) demo_block_ptw \<longrightarrow> i = j"
    unfolding three by (simp add: demo_block_translate)
  show ?thesis using user_copy_roundtrip [OF s' inj] s' by (auto simp: numeral_3_eq_3)
qed

theorem validate_range_exact_witness:
  "validate_range 0x50000ffe 3 0x40000000 demo_block_ptw = Some (Ok ())"
proof -
  obtain r where "validate_range 0x50000ffe 3 0x40000000 demo_block_ptw = Some r"
    "r = Ok () \<longleftrightarrow> range_mapped (\<lambda>va. translate_user_va 0x40000000 va demo_block_ptw) 0x50000ffe 3"
    using validate_range_exact [of "0x40000000" 3 "0x50000ffe" demo_block_ptw] by auto
  then show ?thesis using demo_range_mapped by simp
qed

text \<open>A kernel table at \<open>0x40000000\<close> that maps the upper half, and a process with an empty root.\<close>

definition demo_kernel_ptw :: ptw where
  "demo_kernel_ptw = demo_ptw\<lparr>pw_pte := (\<lambda>t i. if t = 0x40000000 \<and> i = 256 then 0x40001003
      else if t = 0x40001000 \<and> i = 1 then 0x40000701 else 0),
    pw_trees := [Some (demo_root\<lparr>pt_l0_pa := 0x40002000\<rparr>)]\<rparr>"

theorem kernel_pointer_accepted_witness:
  "validate_range 0xFFFF800040000000 1 0x40002000 (pt_clone_high_half 0 0x40000000 demo_kernel_ptw) = Some (Ok ())
   \<and> safe_copy_from_user 0x40002000 0xFFFF800040000000 1 (pt_clone_high_half 0 0x40000000 demo_kernel_ptw)
     = Ok [ram demo_phys 0x40000000]"
proof -
  let ?m = "pw_pte demo_kernel_ptw"
  have t1: "table_at ?m 0x40001000 p = Some t \<longleftrightarrow> p = [] \<and> t = 0x40001000" for p t
    using demo_entries by (cases p) (auto simp: demo_kernel_ptw_def)
  have t0: "table_at ?m 0x40000000 p = Some t \<longleftrightarrow> p = [] \<and> t = 0x40000000 \<or> p = [256] \<and> t = 0x40001000" for p t
    using demo_entries t1 by (cases p) (auto simp: demo_kernel_ptw_def)
  have wf: "tree_wf ?m 0x40000000 0x40002000"
    unfolding tree_wf_def t0 using demo_entries by (auto simp: demo_kernel_ptw_def)
  have i: "va_index 3 0xFFFF800040000000 = 256" "va_index 2 0xFFFF800040000000 = 1" by (simp_all add: va_index_def)
  have tr: "translate_user_va 0x40000000 0xFFFF800040000000 demo_kernel_ptw = Some 0x40000000"
    unfolding translate_below_root walk_unfold i Let_def using demo_entries by (simp add: demo_kernel_ptw_def)
  have v: "256 \<le> va_l0_index 0xFFFF800040000000" by (simp add: va_l0_index_def)
  have k: "pt_l0_pa (tree 0 demo_kernel_ptw) = 0x40002000" "pt_has_root (tree 0 demo_kernel_ptw)" "pw_phys demo_kernel_ptw = demo_phys"
    by (simp_all add: demo_kernel_ptw_def demo_root_def demo_ptw_def)
  have b: "unat (0xFFFF800040000000 :: u64) + 1 \<le> 2 ^ 64 - 4096" by simp
  show ?thesis using kernel_pointer_accepted [OF wf order_refl k(1,2) v b tr, of 0] unfolding Let_def k(3) by blast
qed

end
