(* ===== verification/Pipe.thy ===== *)
theory Pipe
  imports Shared_Types Fifo
begin

text \<open>
  In-kernel pipes, \<open>kernel/src/vfs/pipe.rs\<close>: a table of sixteen byte rings with reference counts
  for their two ends. Indexing the table with an identifier of sixteen or more panics; identifiers
  come from a counter that only grows and is cut to 32 bits. The ring keeps one cell free, so that
  equal indices mean empty: it is another instance of the queue contract of \<open>Fifo\<close>.
\<close>

section \<open>State\<close>

definition PIPE_BUF_SIZE :: nat where "PIPE_BUF_SIZE = 4096"
definition MAX_PIPES :: nat where "MAX_PIPES = 16"

datatype pipe_role = RoleRead | RoleWrite

record pipe =
  pi_buf :: "u8 list"
  pi_head :: nat
  pi_tail :: nat
  pi_readers :: nat
  pi_writers :: nat

record pipe_table =
  pipes :: "pipe option list"
  next_pipe_id :: u64

definition pipe_new_uninit :: pipe where
  "pipe_new_uninit = \<lparr>pi_buf = replicate PIPE_BUF_SIZE 0, pi_head = 0, pi_tail = 0, pi_readers = 0, pi_writers = 0\<rparr>"

definition pipes_init :: pipe_table where
  "pipes_init = \<lparr>pipes = replicate MAX_PIPES None, next_pipe_id = 0\<rparr>"

section \<open>Operations\<close>

definition alloc_pipe :: "pipe_table \<Rightarrow> u32 res \<times> pipe_table" where
  "alloc_pipe s =
     (let new_id = ucast (next_pipe_id s) :: u32; s1 = s\<lparr>next_pipe_id := next_pipe_id s + 1\<rparr> in
      if MAX_PIPES \<le> unat new_id then (Err NoMemory, s1)
      else (Ok new_id, s1\<lparr>pipes := (pipes s)[unat new_id := Some (pipe_new_uninit\<lparr>pi_readers := 1, pi_writers := 1\<rparr>)]\<rparr>))"

definition pipe_clone_role :: "u32 \<Rightarrow> pipe_role \<Rightarrow> pipe_table \<Rightarrow> unit res \<times> pipe_table" where
  "pipe_clone_role pid role s =
     (if MAX_PIPES \<le> unat pid then (Panic, s)
      else case pipes s ! unat pid of
        None \<Rightarrow> (Ok (), s)
      | Some p \<Rightarrow>
          (let p' = (case role of RoleRead \<Rightarrow> p\<lparr>pi_readers := pi_readers p + 1\<rparr> | RoleWrite \<Rightarrow> p\<lparr>pi_writers := pi_writers p + 1\<rparr>)
           in (Ok (), s\<lparr>pipes := (pipes s)[unat pid := Some p']\<rparr>)))"

definition pipe_close_role :: "u32 \<Rightarrow> pipe_role \<Rightarrow> pipe_table \<Rightarrow> unit res \<times> pipe_table" where
  "pipe_close_role pid role s =
     (if MAX_PIPES \<le> unat pid then (Panic, s)
      else case pipes s ! unat pid of
        None \<Rightarrow> (Ok (), s)
      | Some p \<Rightarrow>
          (let p' = (case role of
                       RoleRead \<Rightarrow> (if 0 < pi_readers p then p\<lparr>pi_readers := pi_readers p - 1\<rparr> else p)
                     | RoleWrite \<Rightarrow> (if 0 < pi_writers p then p\<lparr>pi_writers := pi_writers p - 1\<rparr> else p));
               slot = (if pi_readers p' = 0 \<and> pi_writers p' = 0 then None else Some p')
           in (Ok (), s\<lparr>pipes := (pipes s)[unat pid := slot]\<rparr>)))"

text \<open>One iteration of the copy loops: a byte is taken from or put into the ring.\<close>

definition pipe_get :: "pipe \<Rightarrow> u8 option \<times> pipe" where
  "pipe_get p =
     (if pi_head p = pi_tail p then (None, p)
      else (Some (pi_buf p ! pi_tail p), p\<lparr>pi_tail := (pi_tail p + 1) mod PIPE_BUF_SIZE\<rparr>))"

definition pipe_put :: "u8 \<Rightarrow> pipe \<Rightarrow> bool \<times> pipe" where
  "pipe_put b p =
     (let next_head = (pi_head p + 1) mod PIPE_BUF_SIZE in
      if next_head = pi_tail p then (False, p)
      else (True, p\<lparr>pi_buf := (pi_buf p)[pi_head p := b], pi_head := next_head\<rparr>))"

fun read_loop :: "nat \<Rightarrow> pipe \<Rightarrow> u8 list \<times> pipe" where
  "read_loop 0 p = ([], p)"
| "read_loop (Suc n) p =
     (case pipe_get p of
        (None, p1) \<Rightarrow> ([], p1)
      | (Some b, p1) \<Rightarrow> (let (bs, p2) = read_loop n p1 in (b # bs, p2)))"

fun write_loop :: "u8 list \<Rightarrow> pipe \<Rightarrow> nat \<times> pipe" where
  "write_loop [] p = (0, p)"
| "write_loop (b # bs) p =
     (case pipe_put b p of
        (False, p1) \<Rightarrow> (0, p1)
      | (True, p1) \<Rightarrow> (let (n, p2) = write_loop bs p1 in (Suc n, p2)))"

definition pipe_read :: "u32 \<Rightarrow> nat \<Rightarrow> pipe_table \<Rightarrow> u8 list res \<times> pipe_table" where
  "pipe_read pid len s =
     (if MAX_PIPES \<le> unat pid then (Panic, s)
      else case pipes s ! unat pid of
        None \<Rightarrow> (Err BadHandle, s)
      | Some p \<Rightarrow>
          (if pi_writers p = 0 \<and> pi_head p = pi_tail p then (Ok [], s)
           else let (bs, p') = read_loop len p in (Ok bs, s\<lparr>pipes := (pipes s)[unat pid := Some p']\<rparr>)))"

definition pipe_write :: "u32 \<Rightarrow> u8 list \<Rightarrow> pipe_table \<Rightarrow> nat res \<times> pipe_table" where
  "pipe_write pid buf s =
     (if MAX_PIPES \<le> unat pid then (Panic, s)
      else case pipes s ! unat pid of
        None \<Rightarrow> (Err BadHandle, s)
      | Some p \<Rightarrow>
          (if pi_readers p = 0 then (Err PeerClosed, s)
           else let (n, p') = write_loop buf p in
             if n = 0 \<and> buf \<noteq> [] then (Err NotAllowed, s)
             else (Ok n, s\<lparr>pipes := (pipes s)[unat pid := Some p']\<rparr>)))"

section \<open>The ring is a queue\<close>

definition pipe_items :: "pipe \<Rightarrow> u8 list" where
  "pipe_items p = ring_items PIPE_BUF_SIZE (pi_buf p) (pi_tail p) (pi_head p)"

definition pipe_wf :: "pipe \<Rightarrow> bool" where
  "pipe_wf p \<longleftrightarrow> length (pi_buf p) = PIPE_BUF_SIZE \<and> pi_head p < PIPE_BUF_SIZE \<and> pi_tail p < PIPE_BUF_SIZE"

lemma pipe_empty: "pipe_wf p \<Longrightarrow> pipe_items p = [] \<longleftrightarrow> pi_head p = pi_tail p"
  by (auto simp: pipe_items_def pipe_wf_def ring_empty)

interpretation pipe_ring: bounded_fifo "PIPE_BUF_SIZE - 1" pipe_items pipe_wf pipe_put pipe_get
proof (unfold_locales, goal_cases)
  case (1 q)
  then show ?case using ring_count_less [of "pi_tail q" PIPE_BUF_SIZE "pi_head q"] by (simp add: pipe_items_def pipe_wf_def)
next
  case (2 q x)
  then have "(pi_head q + 1) mod PIPE_BUF_SIZE \<noteq> pi_tail q"
    using ring_full [of "pi_tail q" PIPE_BUF_SIZE "pi_head q"] by (auto simp: pipe_items_def pipe_wf_def)
  with 2 show ?case using ring_push [of "pi_tail q" PIPE_BUF_SIZE "pi_head q" "pi_buf q" x]
    by (simp add: pipe_put_def pipe_items_def pipe_wf_def)
next
  case (3 q x)
  then have "(pi_head q + 1) mod PIPE_BUF_SIZE = pi_tail q"
    using ring_full [of "pi_tail q" PIPE_BUF_SIZE "pi_head q"] by (simp add: pipe_items_def pipe_wf_def)
  then show ?case by (simp add: pipe_put_def)
next
  case (4 q x)
  then show ?case by (auto simp: pipe_put_def pipe_wf_def Let_def)
next
  case (5 q)
  then show ?case using pipe_empty by (simp add: pipe_get_def)
next
  case (6 q y ys)
  then have "pi_tail q \<noteq> pi_head q" using pipe_empty [of q] by auto
  with 6 show ?case using ring_pop [of "pi_tail q" PIPE_BUF_SIZE "pi_head q" "pi_buf q"]
    by (simp add: pipe_get_def pipe_items_def pipe_wf_def)
next
  case (7 q)
  then show ?case by (auto simp: pipe_get_def pipe_wf_def)
qed

lemma pipe_get_refs [simp]: "pi_readers (snd (pipe_get p)) = pi_readers p" "pi_writers (snd (pipe_get p)) = pi_writers p"
  by (simp_all add: pipe_get_def)

lemma pipe_put_refs [simp]: "pi_readers (snd (pipe_put b p)) = pi_readers p" "pi_writers (snd (pipe_put b p)) = pi_writers p"
  by (simp_all add: pipe_put_def Let_def)

lemma read_loop_spec:
  assumes "pipe_wf p" "read_loop n p = (bs, p')"
  shows "bs = take n (pipe_items p) \<and> pipe_items p' = drop n (pipe_items p) \<and> pipe_wf p'
    \<and> pi_readers p' = pi_readers p \<and> pi_writers p' = pi_writers p"
  using assms
proof (induction n arbitrary: p bs p')
  case (Suc n)
  obtain v p1 where g: "pipe_get p = (v, p1)" by (metis prod.exhaust)
  show ?case
  proof (cases "pipe_items p")
    case Nil
    then show ?thesis using Suc.prems pipe_ring.pop_empty [OF Suc.prems(1) Nil] by simp
  next
    case (Cons y ys)
    have v: "v = Some y" "pipe_items p1 = ys" "pipe_wf p1" "pi_readers p1 = pi_readers p" "pi_writers p1 = pi_writers p"
      using pipe_ring.pop_hd [OF Suc.prems(1) Cons] pipe_ring.pop_wf [OF Suc.prems(1)] pipe_get_refs [of p] by (auto simp: g)
    obtain cs p2 where r: "read_loop n p1 = (cs, p2)" by (metis prod.exhaust)
    then show ?thesis using Suc.IH [OF v(3) r] Suc.prems(2) v Cons by (simp add: g r)
  qed
qed simp

lemma write_loop_spec:
  assumes "pipe_wf p" "write_loop bs p = (n, p')"
  shows "n = min (length bs) (PIPE_BUF_SIZE - 1 - length (pipe_items p)) \<and> pipe_items p' = pipe_items p @ take n bs
    \<and> pipe_wf p' \<and> pi_readers p' = pi_readers p \<and> pi_writers p' = pi_writers p"
  using assms
proof (induction bs arbitrary: p n p')
  case (Cons b bs)
  obtain v p1 where g: "pipe_put b p = (v, p1)" by (metis prod.exhaust)
  show ?case
  proof (cases "length (pipe_items p) < PIPE_BUF_SIZE - 1")
    case False
    then have "length (pipe_items p) = PIPE_BUF_SIZE - 1" using pipe_ring.bound [OF Cons.prems(1)] by simp
    then show ?thesis using Cons.prems pipe_ring.push_full [OF Cons.prems(1)] by simp
  next
    case True
    have v: "v" "pipe_items p1 = pipe_items p @ [b]" "pipe_wf p1" "pi_readers p1 = pi_readers p" "pi_writers p1 = pi_writers p"
      using pipe_ring.push_room [OF Cons.prems(1) True, of b] pipe_ring.push_wf [OF Cons.prems(1), of b] pipe_put_refs [of b p]
      by (auto simp: g)
    obtain m p2 where r: "write_loop bs p1 = (m, p2)" by (metis prod.exhaust)
    have "n = Suc m" "p' = p2" using Cons.prems(2) v(1) by (simp_all add: g r)
    moreover have "PIPE_BUF_SIZE - 1 - length (pipe_items p) = Suc (PIPE_BUF_SIZE - 1 - Suc (length (pipe_items p)))"
      using True by simp
    ultimately show ?thesis using Cons.IH [OF v(3) r] v by simp
  qed
qed simp

section \<open>Properties\<close>

text \<open>A sequence of calls on one pipe: the bytes its writes accepted and the bytes its reads returned.\<close>

datatype stream_op = SWrite "u8 list" | SRead nat

fun stream_run :: "u32 \<Rightarrow> stream_op list \<Rightarrow> pipe_table \<Rightarrow> u8 list \<times> u8 list \<times> pipe_table" where
  "stream_run pid [] s = ([], [], s)"
| "stream_run pid (SWrite bs # ops) s =
     (let (r, s1) = pipe_write pid bs s; (w, rd, s2) = stream_run pid ops s1
      in ((case r of Ok n \<Rightarrow> take n bs | _ \<Rightarrow> []) @ w, rd, s2))"
| "stream_run pid (SRead n # ops) s =
     (let (r, s1) = pipe_read pid n s; (w, rd, s2) = stream_run pid ops s1
      in (w, (case r of Ok bs \<Rightarrow> bs | _ \<Rightarrow> []) @ rd, s2))"

text \<open>Slot \<open>pid\<close> holds an open pipe with contents \<open>xs\<close>.\<close>

definition holds :: "u32 \<Rightarrow> u8 list \<Rightarrow> pipe_table \<Rightarrow> bool" where
  "holds pid xs s \<longleftrightarrow> unat pid < MAX_PIPES \<and> length (pipes s) = MAX_PIPES
     \<and> (\<exists>p. pipes s ! unat pid = Some p \<and> pipe_wf p \<and> pipe_items p = xs \<and> 0 < pi_readers p \<and> 0 < pi_writers p)"

lemma pipe_write_spec:
  assumes "holds pid xs s"
  shows "\<exists>s'. let n = min (length bs) (PIPE_BUF_SIZE - 1 - length xs) in
      pipe_write pid bs s = (if n = 0 \<and> bs \<noteq> [] then Err NotAllowed else Ok n, s') \<and> holds pid (xs @ take n bs) s'"
proof -
  obtain p where p: "unat pid < MAX_PIPES" "length (pipes s) = MAX_PIPES" "pipes s ! unat pid = Some p" "pipe_wf p" "pipe_items p = xs"
      "0 < pi_readers p" "0 < pi_writers p"
    using assms by (auto simp: holds_def)
  obtain n p' where w: "write_loop bs p = (n, p')" by (metis prod.exhaust)
  note spec = write_loop_spec [OF p(4) w]
  show ?thesis
  proof (cases "n = 0 \<and> bs \<noteq> []")
    case True
    then have "pipe_write pid bs s = (Err NotAllowed, s)" using p w by (simp add: pipe_write_def)
    then show ?thesis using True spec p(5) assms by (auto simp: Let_def)
  next
    case False
    then have "pipe_write pid bs s = (Ok n, s\<lparr>pipes := (pipes s)[unat pid := Some p']\<rparr>)" using p w by (auto simp: pipe_write_def)
    then show ?thesis using False spec p by (auto simp: Let_def holds_def)
  qed
qed

lemma pipe_read_spec:
  assumes "holds pid xs s"
  shows "\<exists>s'. pipe_read pid n s = (Ok (take n xs), s') \<and> holds pid (drop n xs) s'"
proof -
  obtain p where p: "unat pid < MAX_PIPES" "length (pipes s) = MAX_PIPES" "pipes s ! unat pid = Some p" "pipe_wf p" "pipe_items p = xs"
      "0 < pi_readers p" "0 < pi_writers p"
    using assms by (auto simp: holds_def)
  obtain bs p' where r: "read_loop n p = (bs, p')" by (metis prod.exhaust)
  have "pipe_read pid n s = (Ok bs, s\<lparr>pipes := (pipes s)[unat pid := Some p']\<rparr>)" using p r by (simp add: pipe_read_def)
  then show ?thesis using read_loop_spec [OF p(4) r] p by (auto simp: holds_def)
qed


text \<open>
  C35. Pipe identifiers are never reclaimed. Whatever happens to the pipes in between, of the first
  \<open>2 ^ 32\<close> allocations only the first sixteen succeed; closing both ends of a pipe frees its slot but
  no later allocation can use it.
\<close>

fun alloc_run :: "(pipe option list \<Rightarrow> pipe option list) list \<Rightarrow> pipe_table \<Rightarrow> u32 res list \<times> pipe_table" where
  "alloc_run [] s = ([], s)"
| "alloc_run (f # fs) s =
     (let (r, s1) = alloc_pipe (s\<lparr>pipes := f (pipes s)\<rparr>); (rs, s2) = alloc_run fs s1 in (r # rs, s2))"

lemma unat_ucast_u32: "unat (w :: u64) < 2 ^ 32 \<Longrightarrow> unat (ucast w :: u32) = unat w"
  by (simp add: unsigned_ucast_eq take_bit_nat_eq_self)

theorem pipe_ids_run_out:
  assumes "length fs \<le> 2 ^ 32" "alloc_run fs pipes_init = (rs, s')" "i < length fs"
  shows "rs ! i = (if i < 16 then Ok (word_of_nat i) else Err NoMemory)"
proof -
  have "rs ! i = (if unat (next_pipe_id s) + i < 16 then Ok (word_of_nat (unat (next_pipe_id s) + i)) else Err NoMemory)"
    if "unat (next_pipe_id s) + length fs \<le> 2 ^ 32" "alloc_run fs s = (rs, s')" "i < length fs" for s s'
    using that
  proof (induction fs arbitrary: s rs i s')
    case (Cons f fs)
    obtain r s1 where a: "alloc_pipe (s\<lparr>pipes := f (pipes s)\<rparr>) = (r, s1)" by (metis prod.exhaust)
    obtain rs1 s2 where b: "alloc_run fs s1 = (rs1, s2)" by (metis prod.exhaust)
    have rs: "rs = r # rs1" using Cons.prems(2) a b by simp
    have lt: "unat (next_pipe_id s) < 2 ^ 32" using Cons.prems(1) by simp
    have nx: "unat (next_pipe_id s1) = unat (next_pipe_id s) + 1"
      using a lt by (auto simp: alloc_pipe_def Let_def unat_add_no_wrap split: if_splits)
    have id: "unat (ucast (next_pipe_id s) :: u32) = unat (next_pipe_id s)" by (rule unat_ucast_u32 [OF lt])
    then have "ucast (next_pipe_id s) = (word_of_nat (unat (next_pipe_id s)) :: u32)" by simp
    then have r: "r = (if unat (next_pipe_id s) < 16 then Ok (word_of_nat (unat (next_pipe_id s))) else Err NoMemory)"
      using a by (auto simp: alloc_pipe_def Let_def id MAX_PIPES_def)
    show ?case
    proof (cases i)
      case 0
      then show ?thesis using r rs by simp
    next
      case (Suc j)
      then show ?thesis using Cons.IH [OF _ b, of j] Cons.prems(1,3) nx rs by simp
    qed
  qed simp
  from this [of pipes_init] show ?thesis using assms by (simp add: pipes_init_def)
qed

definition demo_pipes :: pipe_table where
  "demo_pipes = snd (alloc_pipe pipes_init)"

lemma demo_pipes_holds: "holds 0 [] demo_pipes"
  by (auto simp: demo_pipes_def alloc_pipe_def pipes_init_def holds_def MAX_PIPES_def pipe_new_uninit_def pipe_wf_def pipe_items_def
      PIPE_BUF_SIZE_def ring_items_def ring_count_def Let_def)


theorem pipe_ids_run_out_witness:
  "fst (alloc_run (replicate 17 (\<lambda>_. replicate 16 None)) pipes_init) ! 16 = Err NoMemory
   \<and> fst (alloc_run (replicate 17 (\<lambda>_. replicate 16 None)) pipes_init) ! 2 = Ok 2"
proof -
  obtain rs s' where r: "alloc_run (replicate 17 (\<lambda>_. replicate 16 None)) pipes_init = (rs, s')" by (metis prod.exhaust)
  have i: "length (replicate 17 (\<lambda>_ :: pipe option list. replicate 16 (None :: pipe option))) = 17" by (rule length_replicate)
  show ?thesis using pipe_ids_run_out [OF _ r, of 16] pipe_ids_run_out [OF _ r, of 2] r unfolding i by simp
qed

end
