(* ===== verification/Process.thy ===== *)
theory Process
  imports User_Memory Pipe Vmar Scheduler
begin

text \<open>
  Processes: the table of \<open>kernel/src/task/process.rs\<close>, the signals of
  \<open>kernel/src/task/signals.rs\<close> and the process system calls of
  \<open>kernel/src/syscall/handlers/process.rs\<close>. The page-table handle of the process in slot \<open>k\<close> is
  \<open>pw_trees\<close> at \<open>k\<close>; the field \<open>vmos\<close> is left out because no code ever adds to it. A process name is
  a literal of the kernel or a reference into the interned name slots, as the source has it.
  Operations return a \<open>res\<close>; \<open>Panic\<close> is an abort of the kernel.
\<close>

section \<open>State\<close>

definition USER_FD_BASE :: u32 where "USER_FD_BASE = 3"
definition FD_TABLE_SIZE :: nat where "FD_TABLE_SIZE = 16"
definition CWD_MAX :: nat where "CWD_MAX = 128"
definition MAX_PROCESSES :: nat where "MAX_PROCESSES = 8"
definition NAME_SLOT_COUNT :: nat where "NAME_SLOT_COUNT = 8"
definition NAME_SLOT_CAP :: nat where "NAME_SLOT_CAP = 128"

datatype fd_entry = FdPipe u32 pipe_role

datatype process_state = ProcInitial | ProcRunning | ProcZombie | ProcDead

datatype name_ref = NameLit "u8 list" | NameSlot nat nat

record process =
  pr_id :: u64
  pr_name :: name_ref
  pr_state :: process_state
  pr_root_vmar :: vmar
  pr_handle_table :: handle_table
  pr_thread_count :: u64
  pr_cwd :: "u8 list"
  pr_cwd_len :: nat
  pr_fd_table :: "fd_entry option list"
  pr_next_fd :: u32
  pr_exit_status :: "i32 option"
  pr_parent_pid :: u64
  pr_sig_handlers :: "u8 list"
  pr_pending :: u32
  pr_asid :: u16

record pstate =
  ps_procs :: "process option list"
  ps_pt :: ptw
  ps_next_pid :: u64
  ps_asids :: asid_state
  ps_hctr :: u32
  ps_tid_ctr :: nat
  ps_pipes :: pipe_table
  ps_names :: "u8 list list"
  ps_name_cursor :: u64
  ps_sched :: sched

definition upd_phys :: "phys \<Rightarrow> pstate \<Rightarrow> pstate" where
  "upd_phys p s = s\<lparr>ps_pt := (ps_pt s)\<lparr>pw_phys := p\<rparr>\<rparr>"

definition upd_proc :: "nat \<Rightarrow> (process \<Rightarrow> process) \<Rightarrow> pstate \<Rightarrow> pstate" where
  "upd_proc k f s = s\<lparr>ps_procs := (ps_procs s)[k := map_option f (ps_procs s ! k)]\<rparr>"

abbreviation proc :: "nat \<Rightarrow> pstate \<Rightarrow> process" where
  "proc k s \<equiv> the (ps_procs s ! k)"

abbreviation l0_pa_of :: "nat \<Rightarrow> pstate \<Rightarrow> nat" where
  "l0_pa_of k s \<equiv> pt_l0_pa (tree k (ps_pt s))"

section \<open>The process table\<close>

definition vmar_new_dummy :: vmar where
  "vmar_new_dummy = \<lparr>vmar_base = 0, vmar_size = 0, vmar_meta_page = 0, vmar_children = [], vmar_mappings = []\<rparr>"

definition proc_new_dummy :: process where
  "proc_new_dummy = \<lparr>pr_id = 0, pr_name = NameLit [], pr_state = ProcInitial, pr_root_vmar = vmar_new_dummy,
     pr_handle_table = [], pr_thread_count = 0, pr_cwd = replicate CWD_MAX 0, pr_cwd_len = 0,
     pr_fd_table = replicate FD_TABLE_SIZE None, pr_next_fd = USER_FD_BASE, pr_exit_status = None, pr_parent_pid = 0,
     pr_sig_handlers = replicate 32 0, pr_pending = 0, pr_asid = ASID_KERNEL\<rparr>"

text \<open>
  \<open>init_in_place\<close> on slot \<open>k\<close>; \<open>slot_sz\<close> is the size of a handle slot, which the compiler decides.
\<close>

definition init_in_place :: "nat \<Rightarrow> nat \<Rightarrow> name_ref \<Rightarrow> pstate \<Rightarrow> unit res \<times> pstate" where
  "init_in_place slot_sz k name s =
     (case vmar_create 0 (256 * 1024 * 1024) (pw_phys (ps_pt s)) of
        (Ok v, p1) \<Rightarrow>
          (case ht_new slot_sz p1 of
             (Ok t, p2) \<Rightarrow>
               (let (a, as) = asid_alloc (ps_asids s);
                    p' = (proc k s)\<lparr>pr_id := ps_next_pid s, pr_name := name, pr_state := ProcInitial, pr_root_vmar := v,
                       pr_handle_table := t, pr_thread_count := 0, pr_cwd := 0x2F # replicate (CWD_MAX - 1) 0, pr_cwd_len := 1,
                       pr_exit_status := None, pr_parent_pid := 0, pr_sig_handlers := replicate 32 0, pr_pending := 0,
                       pr_fd_table := replicate FD_TABLE_SIZE None, pr_next_fd := USER_FD_BASE,
                       pr_asid := (case a of Some x \<Rightarrow> x | None \<Rightarrow> ASID_KERNEL)\<rparr>;
                    s1 = upd_phys p2 s
                in (Ok (), s1\<lparr>ps_procs := (ps_procs s1)[k := Some p'], ps_pt := set_tree k pt_new (ps_pt s1),
                      ps_next_pid := ps_next_pid s + 1, ps_asids := as\<rparr>))
           | (Err e, p2) \<Rightarrow> (Err e, upd_phys p2 s)
           | (Panic, p2) \<Rightarrow> (Panic, upd_phys p2 s))
      | (Err e, p1) \<Rightarrow> (Err e, upd_phys p1 s)
      | (Panic, p1) \<Rightarrow> (Panic, upd_phys p1 s))"

definition allocate_process :: "nat \<Rightarrow> name_ref \<Rightarrow> pstate \<Rightarrow> nat res \<times> pstate" where
  "allocate_process slot_sz name s =
     (case first_free (ps_procs s) of
        None \<Rightarrow> (Err NoMemory, s)
      | Some k \<Rightarrow>
          (let s1 = s\<lparr>ps_procs := (ps_procs s)[k := Some proc_new_dummy], ps_pt := set_tree k pt_new (ps_pt s)\<rparr>
           in case init_in_place slot_sz k name s1 of
                (Ok _, s2) \<Rightarrow> (Ok k, s2)
              | (Err e, s2) \<Rightarrow> (Err e, s2)
              | (Panic, s2) \<Rightarrow> (Panic, s2)))"

definition find_process_mut :: "u64 \<Rightarrow> pstate \<Rightarrow> nat option" where
  "find_process_mut pid s = find_slot (\<lambda>p. pr_id p = pid) (ps_procs s)"

definition find_process_l0_user_pa :: "pstate \<Rightarrow> u64 \<Rightarrow> (u64 \<times> u16) option" where
  "find_process_l0_user_pa s pid =
     (case find (\<lambda>k. case ps_procs s ! k of None \<Rightarrow> False | Some p \<Rightarrow> pr_id p = pid \<and> pt_has_root (tree k (ps_pt s)))
            [0..<length (ps_procs s)] of
        None \<Rightarrow> None
      | Some k \<Rightarrow> Some (word_of_nat (l0_pa_of k s), pr_asid (proc k s)))"

definition validate_process_page_table :: "u64 \<Rightarrow> pstate \<Rightarrow> bool" where
  "validate_process_page_table pid s = (case find_process_mut pid s of None \<Rightarrow> False | Some k \<Rightarrow> pt_validate k (ps_pt s))"

definition find_process_page_table_gen :: "u64 \<Rightarrow> pstate \<Rightarrow> u64 option" where
  "find_process_page_table_gen pid s = map_option (\<lambda>k. pt_generation (tree k (ps_pt s))) (find_process_mut pid s)"

definition add_thread :: "process \<Rightarrow> process" where
  "add_thread p = p\<lparr>pr_thread_count := pr_thread_count p + 1\<rparr>"

definition remove_thread :: "process \<Rightarrow> process" where
  "remove_thread p = (if 0 < pr_thread_count p then p\<lparr>pr_thread_count := pr_thread_count p - 1\<rparr> else p)"

text \<open>Dropping the process in slot \<open>k\<close>: its page tables, then the frame of its root region.\<close>

definition drop_process :: "nat \<Rightarrow> pstate \<Rightarrow> unit res \<times> pstate" where
  "drop_process k s =
     (case pt_free_tree k (ps_pt s) of
        (Ok _, w) \<Rightarrow>
          (let (r, p) = drop_phys_page (vmar_meta_page (pr_root_vmar (proc k s))) (pw_phys w)
           in (r, s\<lparr>ps_procs := (ps_procs s)[k := None], ps_pt := w\<lparr>pw_phys := p, pw_trees := (pw_trees w)[k := None]\<rparr>\<rparr>))
      | (r, w) \<Rightarrow> (r, s\<lparr>ps_pt := w\<rparr>))"

definition current_thread :: "pstate \<Rightarrow> thread option" where
  "current_thread s = (case get_current_thread (ps_sched s) of None \<Rightarrow> None | Some i \<Rightarrow> sc_threads (ps_sched s) ! i)"

definition current_process_id :: "pstate \<Rightarrow> u64 res" where
  "current_process_id s = (case current_thread s of None \<Rightarrow> Err NotFound | Some t \<Rightarrow> Ok (th_process_id t))"

definition current_process_l0_pa :: "pstate \<Rightarrow> nat" where
  "current_process_l0_pa s =
     (case current_thread s of
        None \<Rightarrow> 0
      | Some t \<Rightarrow> (case find_process_mut (th_process_id t) s of None \<Rightarrow> 0 | Some k \<Rightarrow> l0_pa_of k s))"

text \<open>The calls that start by resolving the caller: its identifier, then its slot.\<close>

definition caller_slot :: "status \<Rightarrow> pstate \<Rightarrow> (u64 \<times> nat) res" where
  "caller_slot e s =
     (case current_process_id s of
        Ok pid \<Rightarrow> (case find_process_mut pid s of None \<Rightarrow> Err e | Some k \<Rightarrow> Ok (pid, k))
      | Err x \<Rightarrow> Err x
      | Panic \<Rightarrow> Panic)"

section \<open>Signals\<close>

definition SIG_DFL :: u64 where "SIG_DFL = 0"
definition SIG_IGN :: u64 where "SIG_IGN = 1"
definition NSIG :: nat where "NSIG = 32"
definition SIG_DFL_KILL_EXIT :: i32 where "SIG_DFL_KILL_EXIT = -1"

definition sig_to_bit :: "u64 \<Rightarrow> u32 res" where
  "sig_to_bit sig = (if sig = 0 \<or> NSIG < unat sig then Err InvalidArgs else Ok (push_bit (unat sig - 1) 1))"

definition sigaction_set :: "u64 \<Rightarrow> u64 \<Rightarrow> pstate \<Rightarrow> u64 res \<times> pstate" where
  "sigaction_set sig handler s =
     (if sig = 0 \<or> NSIG < unat sig then (Err InvalidArgs, s)
      else if handler \<noteq> SIG_DFL \<and> handler \<noteq> SIG_IGN then (Err InvalidArgs, s)
      else case caller_slot NotFound s of
        Ok (pid, k) \<Rightarrow>
          (let idx = unat sig - 1 in
           (Ok (ucast (pr_sig_handlers (proc k s) ! idx)),
            upd_proc k (\<lambda>p. p\<lparr>pr_sig_handlers := (pr_sig_handlers p)[idx := ucast handler]\<rparr>) s))
      | Err e \<Rightarrow> (Err e, s)
      | Panic \<Rightarrow> (Panic, s))"

definition signal_send :: "u64 \<Rightarrow> u64 \<Rightarrow> pstate \<Rightarrow> unit res \<times> pstate" where
  "signal_send target sig s =
     (case sig_to_bit sig of
        Ok b \<Rightarrow>
          (case find_process_mut target s of
             None \<Rightarrow> (Err NotFound, s)
           | Some k \<Rightarrow> (Ok (), upd_proc k (\<lambda>p. p\<lparr>pr_pending := pr_pending p OR b\<rparr>) s))
      | Err e \<Rightarrow> (Err e, s)
      | Panic \<Rightarrow> (Panic, s))"

definition raise_signal :: "u64 \<Rightarrow> pstate \<Rightarrow> unit res \<times> pstate" where
  "raise_signal sig s =
     (if sig = 0 \<or> NSIG < unat sig then (Err InvalidArgs, s)
      else case current_process_id s of
        Ok pid \<Rightarrow> signal_send pid sig s
      | Err e \<Rightarrow> (Err NotFound, s)
      | Panic \<Rightarrow> (Panic, s))"

text \<open>The scan of \<open>dispatch_pending\<close> over the signals from \<open>n + 1\<close> on, with the mask read at its start.\<close>

fun dispatch_loop :: "u32 \<Rightarrow> nat list \<Rightarrow> process \<Rightarrow> bool \<times> process" where
  "dispatch_loop pending [] p = (False, p)"
| "dispatch_loop pending (n # ns) p =
     (let b = push_bit (n - 1) 1 in
      if pending AND b = 0 then dispatch_loop pending ns p
      else let p1 = p\<lparr>pr_pending := pr_pending p AND NOT b\<rparr> in
        if ucast (pr_sig_handlers p ! (n - 1)) = SIG_IGN then dispatch_loop pending ns p1
        else (True, p1\<lparr>pr_exit_status := Some SIG_DFL_KILL_EXIT, pr_state := ProcZombie, pr_pending := 0\<rparr>))"

definition dispatch_pending :: "u64 \<Rightarrow> pstate \<Rightarrow> bool res \<times> pstate" where
  "dispatch_pending caller s =
     (case find_process_mut caller s of
        None \<Rightarrow> (Err NotFound, s)
      | Some k \<Rightarrow>
          (let pending = pr_pending (proc k s) in
           if pending = 0 then (Ok False, s)
           else let (r, p) = dispatch_loop pending [1..<NSIG + 1] (proc k s) in (Ok r, upd_proc k (\<lambda>_. p) s)))"

definition reset_disposition :: "u64 \<Rightarrow> pstate \<Rightarrow> pstate" where
  "reset_disposition target s =
     (case find_process_mut target s of
        None \<Rightarrow> s
      | Some k \<Rightarrow> upd_proc k (\<lambda>p. p\<lparr>pr_sig_handlers := replicate 32 0, pr_pending := 0\<rparr>) s)"

section \<open>System calls on processes\<close>

definition sys_sigaction :: "u64 \<Rightarrow> u64 \<Rightarrow> pstate \<Rightarrow> u64 res \<times> pstate" where
  "sys_sigaction sig sa_handler = sigaction_set sig sa_handler"

definition sys_raise :: "u64 \<Rightarrow> pstate \<Rightarrow> unit res \<times> pstate" where
  "sys_raise sig s =
     (case raise_signal sig s of
        (Ok _, s1) \<Rightarrow>
          (case current_process_id s1 of
             Ok pid \<Rightarrow>
               (case find_process_mut pid s1 of
                  Some k \<Rightarrow> (if pr_state (proc k s1) = ProcZombie then (Err NotAllowed, s1) else (Ok (), s1))
                | None \<Rightarrow> (Ok (), s1))
           | Err e \<Rightarrow> (Err e, s1)
           | Panic \<Rightarrow> (Panic, s1))
      | r \<Rightarrow> r)"

text \<open>The broadcast of \<open>kill\<close> over the slots: it stops at the first error.\<close>

fun kill_children :: "u64 \<Rightarrow> u64 \<Rightarrow> process option list \<Rightarrow> nat \<Rightarrow> pstate \<Rightarrow> nat res \<times> pstate" where
  "kill_children caller sig [] count s = (Ok count, s)"
| "kill_children caller sig (None # slots) count s = kill_children caller sig slots count s"
| "kill_children caller sig (Some p # slots) count s =
     (if pr_parent_pid p = caller then
        (case signal_send (pr_id p) sig s of
           (Ok _, s1) \<Rightarrow> kill_children caller sig slots (count + 1) s1
         | (Err e, s1) \<Rightarrow> (Err e, s1)
         | (Panic, s1) \<Rightarrow> (Panic, s1))
      else kill_children caller sig slots count s)"

definition sys_kill :: "u64 \<Rightarrow> u64 \<Rightarrow> pstate \<Rightarrow> unit res \<times> pstate" where
  "sys_kill pid sig s =
     (case current_process_id s of
        Ok caller \<Rightarrow>
          (if sint pid < 0 then (Err InvalidArgs, s)
           else if pid = 0 then
             (case kill_children caller sig (ps_procs s) 0 s of
                (Ok n, s1) \<Rightarrow> (if n = 0 then Err NotFound else Ok (), s1)
              | (Err e, s1) \<Rightarrow> (Err e, s1)
              | (Panic, s1) \<Rightarrow> (Panic, s1))
           else if pid \<noteq> caller then
             (case find_process_mut pid s of
                None \<Rightarrow> (Err NotFound, s)
              | Some k \<Rightarrow> (if pr_parent_pid (proc k s) \<noteq> caller then (Err AccessDenied, s) else signal_send pid sig s))
           else signal_send pid sig s)
      | Err e \<Rightarrow> (Err e, s)
      | Panic \<Rightarrow> (Panic, s))"

text \<open>
  One iteration of the loop of \<open>sys_pause\<close>: it returns, or yields to the scheduler with its counter.
\<close>

definition pause_iter :: "u64 \<Rightarrow> u32 \<Rightarrow> pstate \<Rightarrow> (unit res + u32) \<times> pstate" where
  "pause_iter caller counter s =
     (case find_process_mut caller s of
        None \<Rightarrow> (Inl (Err NotFound), s)
      | Some k \<Rightarrow>
          (if pr_state (proc k s) = ProcZombie then (Inl (Ok ()), s)
           else if pr_pending (proc k s) = 0 then
             (let c = counter + 1; s1 = s\<lparr>ps_sched := snd (schedule (find_process_l0_user_pa s) (ps_sched s))\<rparr>
              in if 10000 < c then (Inl (Err TimedOut), s1) else (Inr c, s1))
           else case dispatch_pending caller s of
             (Ok True, s1) \<Rightarrow> (Inl (Ok ()), s1)
           | (Ok False, s1) \<Rightarrow> (Inr counter, s1\<lparr>ps_sched := snd (schedule (find_process_l0_user_pa s1) (ps_sched s1))\<rparr>)
           | (Err e, s1) \<Rightarrow> (Inl (Err e), s1)
           | (Panic, s1) \<Rightarrow> (Inl Panic, s1)))"

definition sys_getpid :: "pstate \<Rightarrow> u64 res" where
  "sys_getpid s = current_process_id s"

definition sys_gettid :: "pstate \<Rightarrow> u64 res" where
  "sys_gettid s = (case current_thread s of None \<Rightarrow> Err NotFound | Some t \<Rightarrow> Ok (word_of_nat (th_id t)))"

definition sys_getppid :: "pstate \<Rightarrow> u64 res" where
  "sys_getppid s =
     (case caller_slot NotFound s of
        Ok (pid, k) \<Rightarrow> Ok (pr_parent_pid (proc k s))
      | Err e \<Rightarrow> Err e
      | Panic \<Rightarrow> Panic)"

definition mark_process_zombie :: "u64 \<Rightarrow> i32 \<Rightarrow> pstate \<Rightarrow> pstate" where
  "mark_process_zombie pid code s =
     (case find_process_mut pid s of
        None \<Rightarrow> s
      | Some k \<Rightarrow> upd_proc k (\<lambda>p. p\<lparr>pr_exit_status := Some code, pr_state := ProcZombie\<rparr>) s)"

text \<open>
  \<open>sys_exit\<close>: \<open>respawn_init_if_anchor\<close> returns at once; the thread is parked and the scheduler picks
  the next one.
\<close>

definition park_thread :: "thread \<Rightarrow> thread" where
  "park_thread t = t\<lparr>th_state := Dead, th_context := (th_context t)\<lparr>cx_elr := 1, cx_spsr := 0\<rparr>\<rparr>"

definition respawn_init_if_anchor :: "u64 \<Rightarrow> pstate \<Rightarrow> pstate" where
  "respawn_init_if_anchor pid s = s"

definition sys_exit :: "i32 \<Rightarrow> pstate \<Rightarrow> sched_outcome \<times> pstate" where
  "sys_exit code s =
     (let s1 = (case get_current_thread (ps_sched s) of
                  None \<Rightarrow> s
                | Some i \<Rightarrow>
                    (let t = the (sc_threads (ps_sched s) ! i);
                         s0 = respawn_init_if_anchor (th_process_id t) (mark_process_zombie (th_process_id t) code s)
                     in s0\<lparr>ps_sched := set_thread i (park_thread t) (ps_sched s0)\<rparr>));
          (out, sc) = schedule (find_process_l0_user_pa s1) (ps_sched s1)
      in (out, s1\<lparr>ps_sched := sc\<rparr>))"

text \<open>\<open>wait4\<close>: the first zombie child that matches, else whether some child matches.\<close>

definition is_child :: "u64 \<Rightarrow> u64 \<Rightarrow> process \<Rightarrow> bool" where
  "is_child caller pid p \<longleftrightarrow> pr_parent_pid p = caller \<and> (if 0 < sint pid then pr_id p = pid else True)"

definition reapable :: "process \<Rightarrow> bool" where
  "reapable p \<longleftrightarrow> pr_exit_status p \<noteq> None \<and> pr_state p = ProcZombie"

definition sys_wait4 :: "u64 \<Rightarrow> u64 \<Rightarrow> pstate \<Rightarrow> u64 res \<times> pstate" where
  "sys_wait4 pid status_out s =
     (case current_process_id s of
        Ok caller \<Rightarrow>
          (if sint pid < -1 then (Err InvalidArgs, s)
           else case find_slot (\<lambda>p. is_child caller pid p \<and> reapable p) (ps_procs s) of
             Some k \<Rightarrow>
               (let code = the (pr_exit_status (proc k s));
                    l0 = (case find_process_mut caller s of Some c \<Rightarrow> l0_pa_of c s | None \<Rightarrow> 0);
                    s1 = (if status_out \<noteq> 0 then s\<lparr>ps_pt := snd (safe_copy_to_user l0 (word_to_le 4 code) status_out (ps_pt s))\<rparr> else s)
                in case drop_process k s1 of
                     (Panic, s2) \<Rightarrow> (Panic, s2)
                   | (_, s2) \<Rightarrow> (Ok (pr_id (proc k s)), s2))
           | None \<Rightarrow>
               (case find_slot (is_child caller pid) (ps_procs s) of
                  Some _ \<Rightarrow> (Err TryAgain, s)
                | None \<Rightarrow> (Err NotFound, s)))
      | Err e \<Rightarrow> (Err e, s)
      | Panic \<Rightarrow> (Panic, s))"

section \<open>Invariant\<close>

text \<open>
  Eight slots, each with a page-table handle exactly when it holds a process; identifiers other than
  that of an abandoned slot are unique and below the counter, which is not zero; the tables of a process have their
  sizes, dispositions are default or ignore, and a process has an exit code exactly when it is a
  zombie.
\<close>

definition proc_ok :: "process \<Rightarrow> bool" where
  "proc_ok p \<longleftrightarrow> length (pr_fd_table p) = FD_TABLE_SIZE \<and> length (pr_sig_handlers p) = 32 \<and> set (pr_sig_handlers p) \<subseteq> {0, 1}
     \<and> length (pr_cwd p) = CWD_MAX \<and> pr_cwd_len p \<le> CWD_MAX \<and> (pr_state p = ProcZombie \<longleftrightarrow> pr_exit_status p \<noteq> None)"

definition proc_wf :: "pstate \<Rightarrow> bool" where
  "proc_wf s \<longleftrightarrow> ps_next_pid s \<noteq> 0 \<and> length (ps_procs s) = MAX_PROCESSES \<and> length (pw_trees (ps_pt s)) = MAX_PROCESSES
     \<and> (\<forall>i<MAX_PROCESSES. ps_procs s ! i = None \<longleftrightarrow> pw_trees (ps_pt s) ! i = None)
     \<and> (\<forall>i<MAX_PROCESSES. \<forall>j<MAX_PROCESSES. \<forall>p q. ps_procs s ! i = Some p \<and> ps_procs s ! j = Some q
          \<and> pr_id p = pr_id q \<and> pr_id p \<noteq> 0 \<longrightarrow> i = j)
     \<and> (\<forall>i<MAX_PROCESSES. \<forall>p. ps_procs s ! i = Some p \<longrightarrow> unat (pr_id p) < unat (ps_next_pid s) \<and> proc_ok p)"

lemma proc_wf_cong:
  "proc_wf s \<Longrightarrow> ps_procs s' = ps_procs s \<Longrightarrow> pw_trees (ps_pt s') = pw_trees (ps_pt s) \<Longrightarrow> ps_next_pid s' = ps_next_pid s \<Longrightarrow> proc_wf s'"
  by (simp add: proc_wf_def)

lemma proc_wf_len: "proc_wf s \<Longrightarrow> length (ps_procs s) = MAX_PROCESSES"
  by (simp add: proc_wf_def)

lemma proc_wf_ok: "proc_wf s \<Longrightarrow> k < MAX_PROCESSES \<Longrightarrow> ps_procs s ! k = Some p \<Longrightarrow> proc_ok p"
  by (simp add: proc_wf_def)

lemma proc_wf_unique:
  "proc_wf s \<Longrightarrow> i < MAX_PROCESSES \<Longrightarrow> j < MAX_PROCESSES \<Longrightarrow> ps_procs s ! i = Some p \<Longrightarrow> ps_procs s ! j = Some q \<Longrightarrow>
     pr_id p = pr_id q \<Longrightarrow> pr_id p \<noteq> 0 \<Longrightarrow> i = j"
  unfolding proc_wf_def by blast

lemma ps_procs_upd_proc: "ps_procs (upd_proc k f s) ! i = (if i = k \<and> k < length (ps_procs s) then map_option f (ps_procs s ! k) else ps_procs s ! i)"
  by (cases "k < length (ps_procs s)") (auto simp: upd_proc_def nth_list_update list_update_beyond)

lemma upd_proc_simps [simp]: "ps_pt (upd_proc k f s) = ps_pt s" "ps_next_pid (upd_proc k f s) = ps_next_pid s"
  "length (ps_procs (upd_proc k f s)) = length (ps_procs s)" "ps_sched (upd_proc k f s) = ps_sched s"
  "(ps_procs (upd_proc k f s))[k := x] = (ps_procs s)[k := x]"
  by (simp_all add: upd_proc_def)

lemma upd_proc_wf:
  assumes "proc_wf s" "\<And>p. proc_ok p \<Longrightarrow> proc_ok (f p) \<and> pr_id (f p) = pr_id p"
  shows "proc_wf (upd_proc k f s)"
  unfolding proc_wf_def
proof (intro conjI allI impI)
  fix i j p q assume i: "i < MAX_PROCESSES" "j < MAX_PROCESSES"
    and a: "ps_procs (upd_proc k f s) ! i = Some p \<and> ps_procs (upd_proc k f s) ! j = Some q \<and> pr_id p = pr_id q \<and> pr_id p \<noteq> 0"
  have old: "\<exists>p0. ps_procs s ! n = Some p0 \<and> pr_id p0 = pr_id r" if "ps_procs (upd_proc k f s) ! n = Some r" "n < MAX_PROCESSES" for n r
    using that assms(2) proc_wf_ok [OF assms(1) that(2)] by (auto simp: ps_procs_upd_proc split: if_splits)
  obtain p0 where p0: "ps_procs s ! i = Some p0" "pr_id p0 = pr_id p" using old [of i p] a i by blast
  obtain q0 where q0: "ps_procs s ! j = Some q0" "pr_id q0 = pr_id q" using old [of j q] a i by blast
  show "i = j" using proc_wf_unique [OF assms(1) i p0(1) q0(1)] p0(2) q0(2) a by auto
next
  fix i p assume i: "i < MAX_PROCESSES" and a: "ps_procs (upd_proc k f s) ! i = Some p"
  obtain p0 where p0: "ps_procs s ! i = Some p0" "p = p0 \<or> p = f p0"
    using a by (auto simp: ps_procs_upd_proc split: if_splits)
  have ok: "proc_ok p0" "unat (pr_id p0) < unat (ps_next_pid s)" using assms(1) p0(1) i by (auto simp: proc_wf_def)
  show "unat (pr_id p) < unat (ps_next_pid (upd_proc k f s))" "proc_ok p" using ok p0(2) assms(2) [OF ok(1)] by auto
next
  fix i assume "i < MAX_PROCESSES"
  then show "ps_procs (upd_proc k f s) ! i = None \<longleftrightarrow> pw_trees (ps_pt (upd_proc k f s)) ! i = None"
    using assms(1) by (auto simp: proc_wf_def ps_procs_upd_proc)
qed (use assms(1) in \<open>simp_all add: proc_wf_def\<close>)

lemma current_process_id_cong: "ps_sched s' = ps_sched s \<Longrightarrow> current_process_id s' = current_process_id s"
  unfolding current_process_id_def current_thread_def by (simp only:)

lemma find_process_mutD:
  "find_process_mut pid s = Some k \<Longrightarrow> k < length (ps_procs s) \<and> (\<exists>p. ps_procs s ! k = Some p \<and> pr_id p = pid)"
  unfolding find_process_mut_def by (drule find_slotD) auto

text \<open>Releasing page tables changes neither memory nor descriptors.\<close>

lemma free_page_ram: "free_page pa p = (r, p') \<Longrightarrow> ram p' = ram p"
  by (auto simp: free_page_def Let_def unregister_pt_page_def split: if_splits option.splits)

lemma free_all_ram: "free_all pas p = (r, p') \<Longrightarrow> ram p' = ram p"
proof (induction pas arbitrary: p)
  case (Cons pa pas)
  obtain x p1 where "free_page pa p = (x, p1)" by (metis prod.exhaust)
  then show ?case using Cons free_page_ram by (cases x) auto
qed simp

lemma drop_phys_page_ram: "drop_phys_page pa p = (r, p') \<Longrightarrow> ram p' = ram p \<and> (r = Ok () \<or> r = Panic)"
  using free_page_ram by (auto simp: drop_phys_page_def split: if_splits prod.splits res.splits)

lemma pt_free_tree_frame:
  assumes "pt_free_tree k w = (r, w')"
  shows "ram (pw_phys w') = ram (pw_phys w) \<and> pw_pte w' = pw_pte w \<and> length (pw_trees w') = length (pw_trees w)
    \<and> (\<forall>i. i \<noteq> k \<longrightarrow> pw_trees w' ! i = pw_trees w ! i) \<and> (r = Ok () \<or> r = Panic)"
proof -
  have "(r = Ok () \<or> r = Panic) \<and> ram p' = ram p" if "free_all pas p = (r, p')" for pas p p' and r :: "unit res"
    using that free_all_ram
  proof (induction pas arbitrary: p)
    case (Cons pa pas)
    obtain x p1 where "free_page pa p = (x, p1)" by (metis prod.exhaust)
    then show ?case using Cons free_page_ram by (cases x) auto
  qed auto
  then show ?thesis using assms by (auto simp: pt_free_tree_def set_tree_def Let_def split: if_splits prod.splits res.splits)
qed

lemma drop_process_spec:
  assumes "drop_process k s = (r, s')" "r \<noteq> Panic"
  shows "r = Ok () \<and> ps_procs s' = (ps_procs s)[k := None] \<and> ps_sched s' = ps_sched s \<and> ps_next_pid s' = ps_next_pid s
    \<and> ram (pw_phys (ps_pt s')) = ram (pw_phys (ps_pt s)) \<and> pw_pte (ps_pt s') = pw_pte (ps_pt s)
    \<and> length (pw_trees (ps_pt s')) = length (pw_trees (ps_pt s))
    \<and> (\<forall>i. i \<noteq> k \<longrightarrow> pw_trees (ps_pt s') ! i = pw_trees (ps_pt s) ! i)
    \<and> (k < length (pw_trees (ps_pt s)) \<longrightarrow> pw_trees (ps_pt s') ! k = None)"
proof -
  obtain x w where f: "pt_free_tree k (ps_pt s) = (x, w)" by (metis prod.exhaust)
  obtain y p where d: "drop_phys_page (vmar_meta_page (pr_root_vmar (proc k s))) (pw_phys w) = (y, p)" by (metis prod.exhaust)
  show ?thesis
    using assms pt_free_tree_frame [OF f] drop_phys_page_ram [OF d] by (auto simp: drop_process_def f d)
qed

lemma drop_rootless:
  "\<not> pt_has_root (tree k (ps_pt s)) \<Longrightarrow> vmar_meta_page (pr_root_vmar (proc k s)) = 0 \<Longrightarrow> \<exists>s'. drop_process k s = (Ok (), s')"
  by (simp add: drop_process_def pt_free_tree_def drop_phys_page_def)

lemma drop_process_wf:
  assumes "proc_wf s" "drop_process k s = (r, s')" "r \<noteq> Panic" "k < MAX_PROCESSES"
  shows "proc_wf s'"
proof -
  note d = drop_process_spec [OF assms(2,3)]
  have len: "length (ps_procs s) = MAX_PROCESSES" "length (pw_trees (ps_pt s)) = MAX_PROCESSES" using assms(1) by (auto simp: proc_wf_def)
  have sl: "ps_procs s' ! i = (if i = k then None else ps_procs s ! i)" for i using d len assms(4) by (simp add: nth_list_update)
  have tr: "pw_trees (ps_pt s') ! i = (if i = k then None else pw_trees (ps_pt s) ! i)" for i using d len assms(4) by auto
  have l': "length (ps_procs s') = MAX_PROCESSES" "length (pw_trees (ps_pt s')) = MAX_PROCESSES" "ps_next_pid s' = ps_next_pid s"
    using d len by auto
  show ?thesis using assms(1) unfolding proc_wf_def sl tr l' by auto
qed

lemma sys_wait4_Ok:
  fixes st :: u64
  assumes "current_process_id s = Ok caller" "find_slot (\<lambda>p. is_child caller pid p \<and> reapable p) (ps_procs s) = Some k"
    and "\<not> sint pid < -1"
  defines "code \<equiv> the (pr_exit_status (proc k s))"
    and "l0 \<equiv> (case find_process_mut caller s of Some c \<Rightarrow> l0_pa_of c s | None \<Rightarrow> 0)"
  defines "s1 \<equiv> (if st \<noteq> 0 then s\<lparr>ps_pt := snd (safe_copy_to_user l0 (word_to_le 4 code) st (ps_pt s))\<rparr> else s)"
  shows "sys_wait4 pid st s = (case drop_process k s1 of (Panic, s2) \<Rightarrow> (Panic, s2) | (_, s2) \<Rightarrow> (Ok (pr_id (proc k s)), s2))"
  using assms by (simp add: sys_wait4_def Let_def)

lemma copy_to_user_frame: "pw_trees (snd (safe_copy_to_user l0 bs va w)) = pw_trees w"
  by (simp add: safe_copy_to_user_def split: prod.splits)


section \<open>Signal delivery\<close>

text \<open>Signal \<open>n\<close> is pending in mask \<open>m\<close>, and not ignored.\<close>

definition delivers :: "u32 \<Rightarrow> process \<Rightarrow> nat \<Rightarrow> bool" where
  "delivers m p n \<longleftrightarrow> bit m (n - 1) \<and> pr_sig_handlers p ! (n - 1) \<noteq> 1"

definition killed :: "process \<Rightarrow> process" where
  "killed p = p\<lparr>pr_exit_status := Some SIG_DFL_KILL_EXIT, pr_state := ProcZombie, pr_pending := 0\<rparr>"

lemma and_push_bit_1: "(m :: u32) AND push_bit k 1 = 0 \<longleftrightarrow> \<not> bit m k"
  by (simp add: bit_iff_and_push_bit_not_eq_0)

lemma and_pow2: "(m :: u32) AND 2 ^ k = 0 \<longleftrightarrow> \<not> bit m k"
  using and_push_bit_1 [of m k] by (simp only: push_bit_eq_mult mult_1)

lemma ucast_ign: "ucast (h :: u8) = SIG_IGN \<longleftrightarrow> h = 1"
proof
  assume "ucast h = SIG_IGN"
  then have "unat (ucast h :: u64) = 1" by (simp add: SIG_IGN_def)
  then have "unat h = 1" using unat_bound [of h] by (simp add: unsigned_ucast_eq take_bit_nat_eq_self)
  then show "h = 1" by (simp add: word_unat_eq_iff)
qed (simp add: SIG_IGN_def)

lemma dispatch_loop_spec:
  assumes "\<forall>n\<in>set ns. 1 \<le> n \<and> n \<le> 32" "dispatch_loop m ns p = (r, p')"
  shows "(r \<longleftrightarrow> (\<exists>n\<in>set ns. delivers m p n)) \<and> (if r then p' = killed p
    else p' = p\<lparr>pr_pending := pr_pending p'\<rparr> \<and> (\<forall>i. bit (pr_pending p') i \<longleftrightarrow> bit (pr_pending p) i \<and> \<not> (bit m i \<and> Suc i \<in> set ns)))"
  using assms
proof (induction ns arbitrary: p)
  case Nil
  then show ?case by auto
next
  case (Cons n ns)
  let ?p1 = "p\<lparr>pr_pending := pr_pending p AND NOT (push_bit (n - 1) 1)\<rparr>"
  have ns: "\<forall>n\<in>set ns. 1 \<le> n \<and> n \<le> 32" and n: "1 \<le> n" "n \<le> 32" using Cons.prems(1) by auto
  have same: "delivers m ?p1 j \<longleftrightarrow> delivers m p j" "killed ?p1 = killed p" for j by (simp_all add: delivers_def killed_def)
  have b1: "bit (pr_pending ?p1) i \<longleftrightarrow> bit (pr_pending p) i \<and> i \<noteq> n - 1" for i
    using n bit_imp_le_length [of "pr_pending p" i] by (auto simp: bit_simps)
  show ?case
  proof (cases "bit m (n - 1)")
    case False
    then have d: "dispatch_loop m ns p = (r, p')" using Cons.prems(2) by (simp add: and_pow2 Let_def)
    have "Suc i \<in> set (n # ns) \<and> bit m i \<longleftrightarrow> Suc i \<in> set ns \<and> bit m i" for i using False n by auto
    then show ?thesis using Cons.IH [OF ns d] False by (auto simp: delivers_def split: if_splits)
  next
    case True
    show ?thesis
    proof (cases "pr_sig_handlers p ! (n - 1) = 1")
      case ign: True
      then have d: "dispatch_loop m ns ?p1 = (r, p')" using Cons.prems(2) True by (simp add: and_pow2 Let_def SIG_IGN_def)
      have "Suc i \<in> set (n # ns) \<longleftrightarrow> i = n - 1 \<or> Suc i \<in> set ns" for i using n by auto
      then show ?thesis using Cons.IH [OF ns d] True ign unfolding same b1 by (auto simp: delivers_def split: if_splits)
    next
      case False
      then have "r" "p' = killed p" using Cons.prems(2) True by (simp_all add: and_pow2 Let_def ucast_ign killed_def)
      then show ?thesis using True False by (auto simp: delivers_def)
    qed
  qed
qed

lemma dispatch_pending_spec:
  assumes "find_process_mut c s = Some k" "ps_procs s ! k = Some p"
  shows "dispatch_pending c s = (let r = (\<exists>n\<in>{1..32}. delivers (pr_pending p) p n) in
    (Ok r, s\<lparr>ps_procs := (ps_procs s)[k := Some (if r then killed p else p\<lparr>pr_pending := 0\<rparr>)]\<rparr>))"
proof (cases "pr_pending p = 0")
  case True
  then have "p\<lparr>pr_pending := 0\<rparr> = p" by (metis process.surjective process.update_convs(14))
  then have "(ps_procs s)[k := Some (p\<lparr>pr_pending := 0\<rparr>)] = ps_procs s" using assms(2) by (metis list_update_id)
  then show ?thesis using assms True by (simp add: dispatch_pending_def delivers_def)
next
  case False
  have ns: "\<forall>n\<in>set [1..<NSIG + 1]. 1 \<le> n \<and> n \<le> 32" by (auto simp: NSIG_def)
  have sn: "set [1..<NSIG + 1] = {1..32}" by (auto simp: NSIG_def)
  obtain r p' where d: "dispatch_loop (pr_pending p) [1..<NSIG + 1] p = (r, p')" by (metis prod.exhaust)
  note spec = dispatch_loop_spec [OF ns d, unfolded sn]
  have "pr_pending p' = 0" if "\<not> r"
  proof (rule bit_word_eqI)
    fix i assume "i < LENGTH(32)"
    then show "bit (pr_pending p') i \<longleftrightarrow> bit (0 :: u32) i" using spec that by auto
  qed
  then have "p' = (if r then killed p else p\<lparr>pr_pending := 0\<rparr>)" using spec by metis
  moreover have "dispatch_pending c s = (Ok r, upd_proc k (\<lambda>_. p') s)"
    using assms False d by (simp add: dispatch_pending_def del: upt_Suc)
  ultimately show ?thesis using spec assms(2) by (simp add: upd_proc_def)
qed


section \<open>Witnesses\<close>

text \<open>Process 1 runs; its child 2 in the next slot has exited with code 7.\<close>

definition demo_caller :: thread where
  "demo_caller = (make_thread [] NormalPrio 0 0 context_default 1)\<lparr>th_process_id := 1, th_state := Running\<rparr>"

definition demo_child :: process where
  "demo_child = proc_new_dummy\<lparr>pr_id := 2, pr_parent_pid := 1, pr_exit_status := Some 7, pr_state := ProcZombie\<rparr>"

definition demo_pstate :: pstate where
  "demo_pstate = \<lparr>ps_procs = [Some (proc_new_dummy\<lparr>pr_id := 1\<rparr>), Some demo_child, None, None, None, None, None, None],
     ps_pt = demo_block_ptw\<lparr>pw_trees := [Some demo_root, Some pt_new, None, None, None, None, None, None]\<rparr>,
     ps_next_pid = 3, ps_asids = asid_init, ps_hctr = 1, ps_tid_ctr = 2, ps_pipes = pipes_init,
     ps_names = replicate NAME_SLOT_COUNT (replicate NAME_SLOT_CAP 0), ps_name_cursor = 0,
     ps_sched = \<lparr>sc_threads = Some demo_caller # replicate 15 None, sc_queues = [], sc_current = Some 0, sc_running = True, sc_ttbr0 = None\<rparr>\<rparr>"

lemma demo_procs: "ps_procs demo_pstate = [Some (proc_new_dummy\<lparr>pr_id := 1\<rparr>), Some demo_child, None, None, None, None, None, None]"
  by (simp add: demo_pstate_def)

lemma less_8_cases: "i < MAX_PROCESSES \<Longrightarrow> i = 0 \<or> i = 1 \<or> i = 2 \<or> i = 3 \<or> i = 4 \<or> i = 5 \<or> i = 6 \<or> i = 7"
  by (auto simp: MAX_PROCESSES_def)

lemma demo_proc_wf: "proc_wf demo_pstate"
proof -
  have ok: "proc_ok (proc_new_dummy\<lparr>pr_id := 1\<rparr>)" "proc_ok demo_child"
    by (auto simp: proc_ok_def proc_new_dummy_def demo_child_def FD_TABLE_SIZE_def CWD_MAX_def)
  have tr: "pw_trees (ps_pt demo_pstate) = [Some demo_root, Some pt_new, None, None, None, None, None, None]" "ps_next_pid demo_pstate = 3"
    by (simp_all add: demo_pstate_def)
  have two: "i = 0 \<and> p = proc_new_dummy\<lparr>pr_id := 1\<rparr> \<or> i = 1 \<and> p = demo_child"
    if "i < MAX_PROCESSES" "ps_procs demo_pstate ! i = Some p" for i p
    using less_8_cases [OF that(1)] that(2) by (elim disjE) (simp_all add: demo_procs)
  have "ps_procs demo_pstate ! i = None \<longleftrightarrow> pw_trees (ps_pt demo_pstate) ! i = None" if "i < MAX_PROCESSES" for i
    using less_8_cases [OF that] by (elim disjE) (simp_all add: demo_procs tr)
  moreover have ids: "pr_id (proc_new_dummy\<lparr>pr_id := 1\<rparr>) = 1" "pr_id demo_child = 2" by (simp_all add: demo_child_def)
  moreover have "i = j" if "i < MAX_PROCESSES" "j < MAX_PROCESSES" "ps_procs demo_pstate ! i = Some p" "ps_procs demo_pstate ! j = Some q"
      "pr_id p = pr_id q" for i j p q
    using two [OF that(1,3)] two [OF that(2,4)] that(5) ids by auto
  moreover have "unat (pr_id p) < unat (ps_next_pid demo_pstate) \<and> proc_ok p" if "i < MAX_PROCESSES" "ps_procs demo_pstate ! i = Some p" for i p
    using two [OF that] ok ids tr by auto
  moreover have "ps_next_pid demo_pstate \<noteq> 0" "length (ps_procs demo_pstate) = MAX_PROCESSES" "length (pw_trees (ps_pt demo_pstate)) = MAX_PROCESSES"
    by (simp_all add: demo_procs tr MAX_PROCESSES_def)
  ultimately show ?thesis unfolding proc_wf_def by blast
qed

lemma demo_current: "current_process_id demo_pstate = Ok 1"
  by (simp add: current_process_id_def current_thread_def get_current_thread_def demo_pstate_def demo_caller_def)

lemma demo_find: "find_process_mut 1 demo_pstate = Some 0" "find_process_mut 2 demo_pstate = Some 1"
  by (simp_all add: find_process_mut_def find_slot_def demo_procs demo_child_def)

lemma demo_ps_translate:
  "0x40000000 \<le> unat va \<Longrightarrow> unat va < 0x80000000 \<Longrightarrow> translate_user_va 0x40000000 va (ps_pt demo_pstate) = Some (unat va)"
  using demo_block_translate [of va] translate_cong [of "ps_pt demo_pstate" demo_block_ptw] by (simp add: demo_pstate_def)



end
