(* ===== verification/Process_Calls.thy ===== *)
theory Process_Calls
  imports Process
begin

text \<open>
  The remaining system calls of \<open>kernel/src/syscall/handlers/process.rs\<close>: names and working
  directories, process management, creation of processes and threads, and file descriptors over
  pipes; and the pointer checks of \<open>kernel/src/syscall/validation.rs\<close> that start from the caller.
  A call that takes the caller's handle table takes the slot \<open>c\<close> of the process that owns it.
\<close>

section \<open>Names\<close>

text \<open>
  \<open>intern_name\<close> hands out the eight slots in turn; a name is the first bytes of its slot, whatever
  the slot holds when the name is read.
\<close>

definition intern_name :: "u8 list \<Rightarrow> pstate \<Rightarrow> name_ref res \<times> pstate" where
  "intern_name name s =
     (if NAME_SLOT_CAP \<le> length name then (Err InvalidArgs, s)
      else let idx = unat (ps_name_cursor s) mod NAME_SLOT_COUNT;
               slot = name @ drop (length name) (ps_names s ! idx)
           in (Ok (NameSlot idx (length name)),
               s\<lparr>ps_names := (ps_names s)[idx := slot], ps_name_cursor := ps_name_cursor s + 1\<rparr>))"

definition name_bytes :: "pstate \<Rightarrow> name_ref \<Rightarrow> u8 list" where
  "name_bytes s n = (case n of NameLit bs \<Rightarrow> bs | NameSlot i len \<Rightarrow> take len (ps_names s ! i))"

section \<open>Working directory\<close>

definition sys_getcwd :: "u64 \<Rightarrow> u64 \<Rightarrow> pstate \<Rightarrow> nat res \<times> pstate" where
  "sys_getcwd buf_ptr buf_len s =
     (if buf_ptr = 0 then (Err InvalidArgs, s)
      else case caller_slot NotFound s of
        Ok (pid, k) \<Rightarrow>
          (let copy_len = min (pr_cwd_len (proc k s)) (unat buf_len); l0 = l0_pa_of k s in
           if copy_len = 0 then (Ok 0, s)
           else if l0 = 0 then (Err InvalidArgs, s)
           else case safe_copy_to_user l0 (take copy_len (pr_cwd (proc k s))) buf_ptr (ps_pt s) of
             (Ok _, w) \<Rightarrow> (Ok copy_len, s\<lparr>ps_pt := w\<rparr>)
           | (Err e, w) \<Rightarrow> (Err e, s\<lparr>ps_pt := w\<rparr>)
           | (Panic, w) \<Rightarrow> (Panic, s\<lparr>ps_pt := w\<rparr>))
      | Err e \<Rightarrow> (Err e, s)
      | Panic \<Rightarrow> (Panic, s))"

definition sys_chdir :: "u64 \<Rightarrow> u64 \<Rightarrow> pstate \<Rightarrow> nat res \<times> pstate" where
  "sys_chdir path_ptr path_len s =
     (if path_ptr = 0 \<or> path_len = 0 then (Err InvalidArgs, s)
      else case caller_slot NotFound s of
        Ok (pid, k) \<Rightarrow>
          (let copy_len = min (unat path_len) (length (pr_cwd (proc k s))); l0 = l0_pa_of k s in
           if l0 = 0 then (Err InvalidArgs, s)
           else case safe_copy_from_user l0 path_ptr copy_len (ps_pt s) of
             Ok path \<Rightarrow> (Ok 0, upd_proc k (\<lambda>p. p\<lparr>pr_cwd := path @ drop copy_len (pr_cwd p), pr_cwd_len := copy_len\<rparr>) s)
           | Err e \<Rightarrow> (Err e, s)
           | Panic \<Rightarrow> (Panic, s))
      | Err e \<Rightarrow> (Err e, s)
      | Panic \<Rightarrow> (Panic, s))"

section \<open>Process management\<close>

definition PROC_MGMT_CREATE :: u32 where "PROC_MGMT_CREATE = 0"
definition PROC_MGMT_EXIT :: u32 where "PROC_MGMT_EXIT = 1"
definition PROC_MGMT_WAIT :: u32 where "PROC_MGMT_WAIT = 2"
definition PROC_MGMT_LIST :: u32 where "PROC_MGMT_LIST = 3"
definition PROC_MGMT_RELEASE_PT :: u32 where "PROC_MGMT_RELEASE_PT = 4"

primrec state_code :: "process_state \<Rightarrow> u32" where
  "state_code ProcInitial = 0"
| "state_code ProcRunning = 1"
| "state_code ProcZombie = 2"
| "state_code ProcDead = 3"

text \<open>\<open>ProcListEntry::serialize\<close>: the name starts at byte 20 of 128; copying more than 108 bytes panics.\<close>

definition serialize_entry :: "u64 \<Rightarrow> u64 \<Rightarrow> u32 \<Rightarrow> u8 list \<Rightarrow> u8 list res" where
  "serialize_entry pid parent st name =
     (let name_len = min (length name) 112 in
      if 128 < 20 + name_len then Panic
      else Ok (word_to_le 8 pid @ word_to_le 8 parent @ word_to_le 4 st @ take name_len name @ replicate (128 - (20 + name_len)) 0))"

definition mgmt_create :: "nat \<Rightarrow> u64 \<Rightarrow> u64 \<Rightarrow> u64 \<Rightarrow> pstate \<Rightarrow> u64 res \<times> pstate" where
  "mgmt_create slot_sz parent_pid name_ptr l0_pa s =
     (if name_ptr = 0 then (Err InvalidArgs, s)
      else case safe_copy_from_user (current_process_l0_pa s) name_ptr 63 (ps_pt s) of
        Ok buf \<Rightarrow>
          (let name = take (case find_index (\<lambda>b. b = 0) buf of Some i \<Rightarrow> i | None \<Rightarrow> 63) buf in
           if \<not> utf8_valid name then (Err InvalidArgs, s)
           else case intern_name name s of
             (Ok nm, s1) \<Rightarrow>
               (if l0_pa = 0 \<or> unat l0_pa mod 4096 \<noteq> 0 then (Err InvalidArgs, s1)
                else case allocate_process slot_sz nm s1 of
                  (Ok k, s2) \<Rightarrow>
                    (let s3 = upd_proc k (\<lambda>p. p\<lparr>pr_parent_pid := parent_pid\<rparr>) s2
                     in (Ok (pr_id (proc k s3)), s3\<lparr>ps_pt := pt_set_root_raw k (unat l0_pa) (ps_pt s3)\<rparr>))
                | (Err e, s2) \<Rightarrow> (Err e, s2)
                | (Panic, s2) \<Rightarrow> (Panic, s2))
           | (Err e, s1) \<Rightarrow> (Err e, s1)
           | (Panic, s1) \<Rightarrow> (Panic, s1))
      | _ \<Rightarrow> (Err InvalidArgs, s))"

definition mgmt_wait :: "u64 \<Rightarrow> pstate \<Rightarrow> u64 res \<times> pstate" where
  "mgmt_wait target s =
     (case current_process_id s of
        Ok caller \<Rightarrow>
          (case find_slot (\<lambda>p. is_child caller target p \<and> reapable p) (ps_procs s) of
             Some k \<Rightarrow>
               (case drop_process k s of
                  (Panic, s1) \<Rightarrow> (Panic, s1)
                | (_, s1) \<Rightarrow> (Ok (ucast (the (pr_exit_status (proc k s)))), s1))
           | None \<Rightarrow> (Err TryAgain, s))
      | Err e \<Rightarrow> (Err e, s)
      | Panic \<Rightarrow> (Panic, s))"

fun list_loop :: "nat \<Rightarrow> u64 \<Rightarrow> nat \<Rightarrow> process option list \<Rightarrow> nat \<Rightarrow> pstate \<Rightarrow> nat res \<times> pstate" where
  "list_loop l0 buf max_n [] count s = (Ok count, s)"
| "list_loop l0 buf max_n (None # slots) count s = list_loop l0 buf max_n slots count s"
| "list_loop l0 buf max_n (Some p # slots) count s =
     (if max_n \<le> count then (Ok count, s)
      else case serialize_entry (pr_id p) (pr_parent_pid p) (state_code (pr_state p)) (name_bytes s (pr_name p)) of
        Ok bs \<Rightarrow>
          (let w = snd (safe_copy_to_user l0 bs (buf + word_of_nat count * 128) (ps_pt s))
           in list_loop l0 buf max_n slots (count + 1) (s\<lparr>ps_pt := w\<rparr>))
      | Err e \<Rightarrow> (Err e, s)
      | Panic \<Rightarrow> (Panic, s))"

definition sys_proc_mgmt :: "nat \<Rightarrow> u32 \<Rightarrow> u64 \<Rightarrow> u64 \<Rightarrow> u64 \<Rightarrow> pstate \<Rightarrow> u64 res \<times> pstate" where
  "sys_proc_mgmt slot_sz cmd arg1 arg2 arg3 s =
     (if cmd = PROC_MGMT_CREATE then mgmt_create slot_sz arg1 arg2 arg3 s
      else if cmd = PROC_MGMT_EXIT then
        (if find_process_mut arg1 s \<noteq> None then (Ok 0, mark_process_zombie arg1 (ucast arg2) s) else (Err NotFound, s))
      else if cmd = PROC_MGMT_WAIT then mgmt_wait arg1 s
      else if cmd = PROC_MGMT_LIST then
        (if arg1 = 0 \<or> arg2 = 0 then (Err InvalidArgs, s)
         else case list_loop (current_process_l0_pa s) arg1 (unat arg2) (ps_procs s) 0 s of
           (Ok n, s1) \<Rightarrow> (Ok (word_of_nat n), s1)
         | (Err e, s1) \<Rightarrow> (Err e, s1)
         | (Panic, s1) \<Rightarrow> (Panic, s1))
      else if cmd = PROC_MGMT_RELEASE_PT then
        (if arg1 = 0 \<or> unat arg1 mod 4096 \<noteq> 0 then (Err InvalidArgs, s)
         else case free_page_table_tree (unat arg1) (ps_pt s) of
           (Ok _, w) \<Rightarrow> (Ok 0, s\<lparr>ps_pt := w\<rparr>)
         | (Err e, w) \<Rightarrow> (Err e, s\<lparr>ps_pt := w\<rparr>)
         | (Panic, w) \<Rightarrow> (Panic, s\<lparr>ps_pt := w\<rparr>))
      else (Err NotAllowed, s))"

section \<open>Creating processes and threads\<close>

definition add_handle :: "nat \<Rightarrow> kobject \<Rightarrow> rights \<Rightarrow> pstate \<Rightarrow> handle_value res \<times> pstate" where
  "add_handle c obj r s =
     (let (h, _, ctr, t) = ht_add obj r (ps_hctr s) (pr_handle_table (proc c s))
      in (h, upd_proc c (\<lambda>p. p\<lparr>pr_handle_table := t\<rparr>) (s\<lparr>ps_hctr := ctr\<rparr>)))"

definition sys_process_create :: "nat \<Rightarrow> nat \<Rightarrow> pstate \<Rightarrow> handle_value res \<times> pstate" where
  "sys_process_create slot_sz c s =
     (case allocate_process slot_sz (NameLit (map (of_char :: char \<Rightarrow> u8) ''user-proc'')) s of
        (Ok k, s1) \<Rightarrow> add_handle c (KProcess (pr_id (proc k s1))) (RIGHT_READ OR RIGHT_WRITE) s1
      | (Err e, s1) \<Rightarrow> (Err e, s1)
      | (Panic, s1) \<Rightarrow> (Panic, s1))"

text \<open>\<open>eret_stub\<close> is the address of the assembly that enters user mode.\<close>

definition sys_thread_create :: "u64 \<Rightarrow> nat \<Rightarrow> u32 \<Rightarrow> u64 \<Rightarrow> u64 \<Rightarrow> pstate \<Rightarrow> handle_value res \<times> pstate" where
  "sys_thread_create eret_stub c process_handle entry stack_top s =
     (case with_process process_handle RIGHT_WRITE (\<lambda>pid s. (pid, s)) (pr_handle_table (proc c s)) s of
        (Ok pid, _, _) \<Rightarrow>
          (case find_process_mut pid s of
             None \<Rightarrow> (Err NotFound, s)
           | Some k \<Rightarrow>
               (case new_user eret_stub ''user-thread'' entry stack_top (ps_tid_ctr s) (pw_phys (ps_pt s)) of
                  (Ok t, ctr, ph) \<Rightarrow>
                    (let s1 = (upd_phys ph s)\<lparr>ps_tid_ctr := ctr\<rparr>;
                         (r, sc) = sched_add (t\<lparr>th_process_id := pid, th_handle_table := Some pid\<rparr>) (ps_sched s1);
                         s2 = s1\<lparr>ps_sched := sc\<rparr>
                     in case r of
                          Ok _ \<Rightarrow> add_handle c (KThread (th_id t)) (RIGHT_READ OR RIGHT_WRITE) s2
                        | Err e \<Rightarrow> (Err e, s2)
                        | Panic \<Rightarrow> (Panic, s2))
                | (Err e, ctr, ph) \<Rightarrow> (Err e, (upd_phys ph s)\<lparr>ps_tid_ctr := ctr\<rparr>)
                | (Panic, ctr, ph) \<Rightarrow> (Panic, (upd_phys ph s)\<lparr>ps_tid_ctr := ctr\<rparr>)))
      | (Err e, _, _) \<Rightarrow> (Err e, s)
      | (Panic, _, _) \<Rightarrow> (Panic, s))"

definition sys_thread_start :: "nat \<Rightarrow> u32 \<Rightarrow> pstate \<Rightarrow> unit res \<times> pstate" where
  "sys_thread_start c thread_handle s =
     (case with_thread thread_handle RIGHT_WRITE (\<lambda>tid s. (tid, s)) (pr_handle_table (proc c s)) s of
        (Ok tid, _, _) \<Rightarrow>
          (case get_thread tid (ps_sched s) of
             None \<Rightarrow> (Err NotFound, s)
           | Some i \<Rightarrow> (Ok (), s\<lparr>ps_sched := set_state i Ready (ps_sched s)\<rparr>))
      | (Err e, _, _) \<Rightarrow> (Err e, s)
      | (Panic, _, _) \<Rightarrow> (Panic, s))"

section \<open>File descriptors\<close>

text \<open>
  The scan of \<open>alloc_user_fd\<close>: sixteen rounds; an index of sixteen or more restarts at the first
  user descriptor, but an index wraps to 0 after fifteen.
\<close>

fun fd_scan :: "nat \<Rightarrow> u32 \<Rightarrow> process \<Rightarrow> u32 res \<times> process" where
  "fd_scan 0 start p = (Err NoMemory, p)"
| "fd_scan (Suc n) start p =
     (let st = (if FD_TABLE_SIZE \<le> unat start then USER_FD_BASE else start) in
      if pr_fd_table p ! unat st = None then (Ok st, p\<lparr>pr_next_fd := (st + 1) mod word_of_nat FD_TABLE_SIZE\<rparr>)
      else fd_scan n ((st + 1) mod word_of_nat FD_TABLE_SIZE) p)"

definition alloc_user_fd :: "process \<Rightarrow> u32 res \<times> process" where
  "alloc_user_fd p = fd_scan FD_TABLE_SIZE (max (pr_next_fd p) USER_FD_BASE) p"

definition set_fd :: "u32 \<Rightarrow> fd_entry \<Rightarrow> process \<Rightarrow> process" where
  "set_fd fd e p = p\<lparr>pr_fd_table := (pr_fd_table p)[unat fd := Some e]\<rparr>"

definition sys_pipe :: "u64 \<Rightarrow> pstate \<Rightarrow> unit res \<times> pstate" where
  "sys_pipe ufds s =
     (case caller_slot NotFound s of
        Ok (pid, k) \<Rightarrow>
          (if l0_pa_of k s = 0 \<or> ufds = 0 then (Err InvalidArgs, s)
           else case alloc_pipe (ps_pipes s) of
             (Ok pipe, ps) \<Rightarrow>
               (let s1 = s\<lparr>ps_pipes := ps\<rparr> in
                case alloc_user_fd (proc k s) of
                  (Ok rd, p1) \<Rightarrow>
                    (case alloc_user_fd p1 of
                       (Ok wr, p2) \<Rightarrow>
                         (let s2 = upd_proc k (\<lambda>_. set_fd wr (FdPipe pipe RoleWrite) (set_fd rd (FdPipe pipe RoleRead) p2)) s1;
                              w = snd (safe_copy_to_user (l0_pa_of k s) (word_to_le 4 rd @ word_to_le 4 wr) ufds (ps_pt s2))
                          in (Ok (), s2\<lparr>ps_pt := w\<rparr>))
                     | (Err e, p2) \<Rightarrow> (Err e, upd_proc k (\<lambda>_. p2) s1)
                     | (Panic, p2) \<Rightarrow> (Panic, upd_proc k (\<lambda>_. p2) s1))
                | (Err e, p1) \<Rightarrow> (Err e, upd_proc k (\<lambda>_. p1) s1)
                | (Panic, p1) \<Rightarrow> (Panic, upd_proc k (\<lambda>_. p1) s1))
           | (Err e, ps) \<Rightarrow> (Err e, s\<lparr>ps_pipes := ps\<rparr>)
           | (Panic, ps) \<Rightarrow> (Panic, s\<lparr>ps_pipes := ps\<rparr>))
      | Err e \<Rightarrow> (Err e, s)
      | Panic \<Rightarrow> (Panic, s))"

definition sys_dup2 :: "u32 \<Rightarrow> u32 \<Rightarrow> pstate \<Rightarrow> u32 res \<times> pstate" where
  "sys_dup2 oldfd newfd s =
     (case caller_slot NotFound s of
        Ok (pid, k) \<Rightarrow>
          (if oldfd = newfd then (Ok newfd, s)
           else if newfd = 0 \<or> newfd = 1 \<or> newfd = 2 then (Err NotAllowed, s)
           else if FD_TABLE_SIZE \<le> unat oldfd then (Err BadHandle, s)
           else case pr_fd_table (proc k s) ! unat oldfd of
             None \<Rightarrow> (Err BadHandle, s)
           | Some src \<Rightarrow>
               (if FD_TABLE_SIZE \<le> unat newfd then (Panic, s)
                else
                  let (r1, ps1) = (case pr_fd_table (proc k s) ! unat newfd of
                                     Some (FdPipe pipe role) \<Rightarrow> pipe_close_role pipe role (ps_pipes s)
                                   | None \<Rightarrow> (Ok (), ps_pipes s));
                      s1 = upd_proc k (set_fd newfd src) (s\<lparr>ps_pipes := ps1\<rparr>);
                      (r2, ps2) = (case src of FdPipe pipe role \<Rightarrow> pipe_clone_role pipe role (ps_pipes s1))
                  in if r1 = Panic then (Panic, s\<lparr>ps_pipes := ps1\<rparr>)
                     else if r2 = Panic then (Panic, s1)
                     else (Ok newfd, s1\<lparr>ps_pipes := ps2\<rparr>)))
      | Err e \<Rightarrow> (Err e, s)
      | Panic \<Rightarrow> (Panic, s))"

definition dispatch_pipe_io :: "u32 \<Rightarrow> u64 \<Rightarrow> u64 \<Rightarrow> bool \<Rightarrow> pstate \<Rightarrow> nat option res \<times> pstate" where
  "dispatch_pipe_io fd buf_ptr buf_len is_write s =
     (if FD_TABLE_SIZE \<le> unat fd \<or> fd < USER_FD_BASE then (Ok None, s)
      else case current_process_id s of
        Ok pid \<Rightarrow>
          (case find_process_mut pid s of
             None \<Rightarrow> (Ok None, s)
           | Some k \<Rightarrow>
               (case pr_fd_table (proc k s) ! unat fd of
                  None \<Rightarrow> (Ok None, s)
                | Some (FdPipe pipe role) \<Rightarrow>
                    (let want = min (unat buf_len) 4096; l0 = l0_pa_of k s in
                     if buf_ptr = 0 \<or> buf_len = 0 then (Ok (Some 0), s)
                     else if is_write then
                       (if role = RoleRead then (Err NotAllowed, s)
                        else if l0 = 0 then (Err InvalidArgs, s)
                        else case safe_copy_from_user l0 buf_ptr want (ps_pt s) of
                          Ok bs \<Rightarrow>
                            (case pipe_write pipe bs (ps_pipes s) of
                               (Ok n, ps) \<Rightarrow> (Ok (Some n), s\<lparr>ps_pipes := ps\<rparr>)
                             | (Err e, ps) \<Rightarrow> (Err e, s\<lparr>ps_pipes := ps\<rparr>)
                             | (Panic, ps) \<Rightarrow> (Panic, s\<lparr>ps_pipes := ps\<rparr>))
                        | Err e \<Rightarrow> (Err e, s)
                        | Panic \<Rightarrow> (Panic, s))
                     else if role = RoleWrite then (Err NotAllowed, s)
                     else case pipe_read pipe want (ps_pipes s) of
                       (Ok bs, ps) \<Rightarrow>
                         (let s1 = s\<lparr>ps_pipes := ps\<rparr> in
                          if 0 < length bs \<and> l0 \<noteq> 0
                          then (Ok (Some (length bs)), s1\<lparr>ps_pt := snd (safe_copy_to_user l0 bs buf_ptr (ps_pt s1))\<rparr>)
                          else (Ok (Some (length bs)), s1))
                     | (Err e, ps) \<Rightarrow> (Err e, s\<lparr>ps_pipes := ps\<rparr>)
                     | (Panic, ps) \<Rightarrow> (Panic, s\<lparr>ps_pipes := ps\<rparr>))))
      | Err e \<Rightarrow> (Err e, s)
      | Panic \<Rightarrow> (Panic, s))"

section \<open>Checking the caller's pointers and handles\<close>

definition current_l0_pa :: "pstate \<Rightarrow> nat res" where
  "current_l0_pa s =
     (case current_thread s of
        None \<Rightarrow> Err NotFound
      | Some t \<Rightarrow>
          (if th_process_id t = 0 then Err ProcessNotFound
           else case find_process_mut (th_process_id t) s of
             None \<Rightarrow> Err ProcessNotFound
           | Some k \<Rightarrow> Ok (l0_pa_of k s)))"

text \<open>\<open>validate_mut_pointer\<close> is the same code; \<open>sz\<close> is the size of the type pointed to.\<close>

definition validate_pointer :: "u64 \<Rightarrow> nat \<Rightarrow> pstate \<Rightarrow> unit res option" where
  "validate_pointer ptr sz s =
     (case current_l0_pa s of
        Ok l0 \<Rightarrow> (if ptr = 0 then Some (Err InvalidArgs) else validate_range ptr sz l0 (ps_pt s))
      | Err e \<Rightarrow> Some (Err e)
      | Panic \<Rightarrow> Some Panic)"

definition validate_buffer :: "u64 \<Rightarrow> u64 \<Rightarrow> pstate \<Rightarrow> unit res option" where
  "validate_buffer ptr len s =
     (case current_l0_pa s of
        Ok l0 \<Rightarrow>
          (if ptr = 0 \<and> 0 < len then Some (Err InvalidArgs)
           else if len = 0 then (if ptr \<noteq> 0 then validate_range ptr 1 l0 (ps_pt s) else Some (Ok ()))
           else validate_range ptr (unat len) l0 (ps_pt s))
      | Err e \<Rightarrow> Some (Err e)
      | Panic \<Rightarrow> Some Panic)"

definition validate_handle :: "u32 \<Rightarrow> handle_value res" where
  "validate_handle raw = (if raw = INVALID_HANDLE then Err BadHandle else Ok raw)"

definition validate_handle_access :: "handle_table \<Rightarrow> u32 \<Rightarrow> object_type \<Rightarrow> rights \<Rightarrow> handle_value res" where
  "validate_handle_access t raw expected required =
     (case validate_handle raw of
        Ok hv \<Rightarrow>
          (case ht_with hv required (\<lambda>obj s. (Ok (), obj, s)) t () of
             (Ok _, _, _) \<Rightarrow> Ok hv
           | (Err e, _, _) \<Rightarrow> Err e
           | (Panic, _, _) \<Rightarrow> Panic)
      | r \<Rightarrow> r)"

section \<open>The invariant is kept\<close>

lemma proc_new_dummy_ok: "proc_ok proc_new_dummy"
  by (auto simp: proc_ok_def proc_new_dummy_def FD_TABLE_SIZE_def CWD_MAX_def)

text \<open>Placing a process with a fresh identifier, or an abandoned one, into a slot.\<close>

lemma place_wf:
  assumes wf: "proc_wf s" and k: "k < MAX_PROCESSES" and ok: "proc_ok p"
    and fresh: "pr_id p = 0 \<or> (\<forall>i<MAX_PROCESSES. i \<noteq> k \<longrightarrow> (\<forall>q. ps_procs s ! i = Some q \<longrightarrow> pr_id q \<noteq> pr_id p))"
    and s': "ps_procs s' = (ps_procs s)[k := Some p]" "pw_trees (ps_pt s') = (pw_trees (ps_pt s))[k := Some t]"
      "unat (ps_next_pid s) \<le> unat (ps_next_pid s')" "unat (pr_id p) < unat (ps_next_pid s')"
  shows "proc_wf s'"
proof -
  have len: "length (ps_procs s) = MAX_PROCESSES" "length (pw_trees (ps_pt s)) = MAX_PROCESSES" using wf by (auto simp: proc_wf_def)
  have sl: "ps_procs s' ! i = (if i = k then Some p else ps_procs s ! i)" for i using s' len k by (simp add: nth_list_update)
  have tr: "pw_trees (ps_pt s') ! i = (if i = k then Some t else pw_trees (ps_pt s) ! i)" for i using s' len k by (simp add: nth_list_update)
  show ?thesis
    unfolding proc_wf_def sl tr
  proof (intro conjI allI impI)
    fix i j q r assume ij: "i < MAX_PROCESSES" "j < MAX_PROCESSES"
      and a: "(if i = k then Some p else ps_procs s ! i) = Some q \<and> (if j = k then Some p else ps_procs s ! j) = Some r
        \<and> pr_id q = pr_id r \<and> pr_id q \<noteq> 0"
    show "i = j" using a fresh ij proc_wf_unique [OF wf ij, of q r] by (auto split: if_splits)
  next
    fix i q assume i: "i < MAX_PROCESSES" and a: "(if i = k then Some p else ps_procs s ! i) = Some q"
    have old: "unat (pr_id q) < unat (ps_next_pid s)" "proc_ok q" if "ps_procs s ! i = Some q"
      using wf i that by (auto simp: proc_wf_def)
    show "unat (pr_id q) < unat (ps_next_pid s')" using a s'(3,4) old(1) by (auto split: if_splits intro: less_le_trans)
    show "proc_ok q" using a ok old(2) by (auto split: if_splits)
  qed (use wf len s' k in \<open>auto simp: proc_wf_def\<close>)
qed

lemma upd_phys_simps [simp]: "ps_procs (upd_phys p s) = ps_procs s" "pw_trees (ps_pt (upd_phys p s)) = pw_trees (ps_pt s)"
  "ps_next_pid (upd_phys p s) = ps_next_pid s" "ps_sched (upd_phys p s) = ps_sched s"
  by (simp_all add: upd_phys_def)

lemma set_tree_trees [simp]: "pw_trees (set_tree k t w) = (pw_trees w)[k := Some t]"
  by (simp add: set_tree_def)

lemma init_in_place_cases:
  assumes "init_in_place sz k name s = (r, s')"
  shows "(r = Ok () \<and> (\<exists>p. ps_procs s' = (ps_procs s)[k := Some p] \<and> proc_ok p \<and> pr_id p = ps_next_pid s
      \<and> pw_trees (ps_pt s') = (pw_trees (ps_pt s))[k := Some pt_new] \<and> ps_next_pid s' = ps_next_pid s + 1))
    \<or> (r \<noteq> Ok () \<and> ps_procs s' = ps_procs s \<and> pw_trees (ps_pt s') = pw_trees (ps_pt s) \<and> ps_next_pid s' = ps_next_pid s)"
proof -
  obtain x p1 where v: "vmar_create 0 (256 * 1024 * 1024) (pw_phys (ps_pt s)) = (x, p1)" by (metis prod.exhaust)
  show ?thesis
  proof (cases x)
    case (Ok vm)
    obtain y p2 where h: "ht_new sz p1 = (y, p2)" by (metis prod.exhaust)
    show ?thesis
    proof (cases y)
      case Ok_t: (Ok t)
      obtain a as where as: "asid_alloc (ps_asids s) = (a, as)" by (metis prod.exhaust)
      have "proc_ok (p\<lparr>pr_id := i, pr_name := name, pr_state := ProcInitial, pr_root_vmar := vm, pr_handle_table := t, pr_thread_count := 0,
          pr_cwd := 0x2F # replicate (CWD_MAX - 1) 0, pr_cwd_len := 1, pr_exit_status := None, pr_parent_pid := 0,
          pr_sig_handlers := replicate 32 0, pr_pending := 0, pr_fd_table := replicate FD_TABLE_SIZE None, pr_next_fd := USER_FD_BASE,
          pr_asid := b\<rparr>)" for p i b
        by (auto simp: proc_ok_def FD_TABLE_SIZE_def CWD_MAX_def)
      then show ?thesis using assms v h as Ok Ok_t by (intro disjI1) (auto simp: init_in_place_def Let_def)
    qed (use assms v h Ok in \<open>auto simp: init_in_place_def\<close>)
  qed (use assms v in \<open>auto simp: init_in_place_def\<close>)
qed

lemma proc_wf_below: "proc_wf s \<Longrightarrow> i < MAX_PROCESSES \<Longrightarrow> ps_procs s ! i = Some q \<Longrightarrow> unat (pr_id q) < unat (ps_next_pid s)"
  by (simp add: proc_wf_def)

lemma allocate_process_wf:
  assumes wf: "proc_wf s" and a: "allocate_process sz name s = (r, s')" and room: "unat (ps_next_pid s) < 2 ^ 64 - 1"
  shows "proc_wf s' \<and> unat (ps_next_pid s) \<le> unat (ps_next_pid s')"
proof (cases "first_free (ps_procs s)")
  case None
  then show ?thesis using a wf by (simp add: allocate_process_def)
next
  case (Some k)
  let ?s1 = "s\<lparr>ps_procs := (ps_procs s)[k := Some proc_new_dummy], ps_pt := set_tree k pt_new (ps_pt s)\<rparr>"
  have k: "k < MAX_PROCESSES" using first_freeD [OF Some] proc_wf_len [OF wf] by simp
  have pos: "0 < unat (ps_next_pid s)" using wf by (simp add: proc_wf_def unat_gt_0)
  have wf1: "proc_wf ?s1"
    by (rule place_wf [OF wf k proc_new_dummy_ok, of ?s1 pt_new]) (use pos in \<open>simp_all add: proc_new_dummy_def\<close>)
  obtain x s2 where i: "init_in_place sz k name ?s1 = (x, s2)" by (metis prod.exhaust)
  then have s': "s' = s2" using a Some by (cases x) (auto simp: allocate_process_def Let_def)
  have nx: "unat (ps_next_pid s + 1) = unat (ps_next_pid s) + 1" using room by (subst unat_add_no_wrap) auto
  from init_in_place_cases [OF i] show ?thesis
  proof (elim disjE)
    assume "x \<noteq> Ok () \<and> ps_procs s2 = ps_procs ?s1 \<and> pw_trees (ps_pt s2) = pw_trees (ps_pt ?s1) \<and> ps_next_pid s2 = ps_next_pid ?s1"
    then show ?thesis using proc_wf_cong [OF wf1, of s2] s' by simp
  next
    assume "x = Ok () \<and> (\<exists>p. ps_procs s2 = (ps_procs ?s1)[k := Some p] \<and> proc_ok p \<and> pr_id p = ps_next_pid ?s1
      \<and> pw_trees (ps_pt s2) = (pw_trees (ps_pt ?s1))[k := Some pt_new] \<and> ps_next_pid s2 = ps_next_pid ?s1 + 1)"
    then obtain p where p: "proc_ok p" "pr_id p = ps_next_pid s" "ps_procs s2 = (ps_procs s)[k := Some p]"
      "pw_trees (ps_pt s2) = (pw_trees (ps_pt s))[k := Some pt_new]" "ps_next_pid s2 = ps_next_pid s + 1" by auto
    have "\<forall>i<MAX_PROCESSES. i \<noteq> k \<longrightarrow> (\<forall>q. ps_procs s ! i = Some q \<longrightarrow> pr_id q \<noteq> pr_id p)"
      using proc_wf_below [OF wf] p(2) by (metis less_irrefl)
    then show ?thesis using place_wf [OF wf k p(1) _ p(3,4)] p(2,5) nx s' by simp
  qed
qed

lemma proc_wf_trees:
  assumes "proc_wf s" "ps_procs s' = ps_procs s" "ps_next_pid s' = ps_next_pid s" "length (pw_trees (ps_pt s')) = length (pw_trees (ps_pt s))"
    and "\<And>i. pw_trees (ps_pt s') ! i = None \<longleftrightarrow> pw_trees (ps_pt s) ! i = None"
  shows "proc_wf s'"
  using assms(1) unfolding proc_wf_def assms(2,3,4,5) .

text \<open>The calls that leave the table and its handles alone.\<close>

lemma proc_wf_upd [simp]: "proc_wf (s\<lparr>ps_sched := sc\<rparr>) = proc_wf s" "proc_wf (s\<lparr>ps_pipes := ps\<rparr>) = proc_wf s"
  "proc_wf (s\<lparr>ps_hctr := h\<rparr>) = proc_wf s" "proc_wf (s\<lparr>ps_tid_ctr := c\<rparr>) = proc_wf s"
  "proc_wf (s\<lparr>ps_names := nm, ps_name_cursor := cu\<rparr>) = proc_wf s" "proc_wf (upd_phys p s) = proc_wf s"
  by (simp_all add: proc_wf_def)

lemma proc_wf_copy: "proc_wf s \<Longrightarrow> proc_wf (s\<lparr>ps_pt := snd (safe_copy_to_user l0 bs va (ps_pt s))\<rparr>)"
  by (rule proc_wf_cong) (simp_all add: copy_to_user_frame)

lemma proc_wf_copyD: "proc_wf s \<Longrightarrow> safe_copy_to_user l0 bs va (ps_pt s) = (r, w) \<Longrightarrow> proc_wf (s\<lparr>ps_pt := w\<rparr>)"
  using proc_wf_copy [of s l0 bs va] by simp

lemma upd_at_wf:
  assumes "proc_wf s" "\<And>p. ps_procs s ! k = Some p \<Longrightarrow> proc_ok p \<Longrightarrow> proc_ok (f p) \<and> pr_id (f p) = pr_id p"
  shows "proc_wf (upd_proc k f s)"
proof -
  let ?g = "\<lambda>p. if ps_procs s ! k = Some p then f p else p"
  have "upd_proc k f s = upd_proc k ?g s" by (cases "ps_procs s ! k") (simp_all add: upd_proc_def)
  then show ?thesis using upd_proc_wf [OF assms(1), of ?g] assms(2) by auto
qed

lemma proc_okI_sig: "proc_ok p \<Longrightarrow> h = 0 \<or> h = 1 \<Longrightarrow> proc_ok (p\<lparr>pr_sig_handlers := (pr_sig_handlers p)[i := h]\<rparr>)"
  using set_update_subset_insert [of "pr_sig_handlers p" i h] by (auto simp: proc_ok_def)

lemma proc_ok_upds [simp]:
  "proc_ok (p\<lparr>pr_pending := x\<rparr>) = proc_ok p" "proc_ok (p\<lparr>pr_parent_pid := y\<rparr>) = proc_ok p"
  "proc_ok (p\<lparr>pr_handle_table := t\<rparr>) = proc_ok p" "proc_ok (p\<lparr>pr_next_fd := n\<rparr>) = proc_ok p"
  "proc_ok (set_fd fd e p) = proc_ok p"
  by (simp_all add: proc_ok_def set_fd_def)

lemma proc_ok_zombie: "proc_ok p \<Longrightarrow> proc_ok (p\<lparr>pr_exit_status := Some c, pr_state := ProcZombie\<rparr>)" "proc_ok p \<Longrightarrow> proc_ok (killed p)"
  by (simp_all add: proc_ok_def killed_def)

lemma ids [simp]: "pr_id (set_fd fd e p) = pr_id p" "pr_id (killed p) = pr_id p"
  by (simp_all add: set_fd_def killed_def)

lemma sigaction_set_wf: "proc_wf s \<Longrightarrow> sigaction_set sig h s = (r, s') \<Longrightarrow> proc_wf s'"
  by (auto simp: sigaction_set_def SIG_DFL_def SIG_IGN_def Let_def split: if_splits res.splits prod.splits
      intro!: upd_proc_wf proc_okI_sig)

lemma signal_send_wf: "proc_wf s \<Longrightarrow> signal_send t sig s = (r, s') \<Longrightarrow> proc_wf s'"
  by (auto simp: signal_send_def split: res.splits option.splits intro!: upd_proc_wf)

lemma raise_signal_wf: "proc_wf s \<Longrightarrow> raise_signal sig s = (r, s') \<Longrightarrow> proc_wf s'"
  by (auto simp: raise_signal_def signal_send_wf split: if_splits res.splits)

lemma sys_raise_wf: "proc_wf s \<Longrightarrow> sys_raise sig s = (r, s') \<Longrightarrow> proc_wf s'"
  by (auto simp: sys_raise_def split: res.splits prod.splits option.splits if_splits dest: raise_signal_wf)

lemma dispatch_pending_wf:
  assumes "proc_wf s" "dispatch_pending c s = (r, s')"
  shows "proc_wf s'"
proof (cases "find_process_mut c s")
  case None
  then show ?thesis using assms by (simp add: dispatch_pending_def)
next
  case (Some k)
  then obtain p where p: "ps_procs s ! k = Some p" using find_process_mutD by blast
  let ?q = "if \<exists>n\<in>{1..32}. delivers (pr_pending p) p n then killed p else p\<lparr>pr_pending := 0\<rparr>"
  have "s' = upd_proc k (\<lambda>_. ?q) s" using assms(2) p unfolding dispatch_pending_spec [OF Some p] by (simp add: upd_proc_def Let_def)
  moreover have "proc_wf (upd_proc k (\<lambda>_. ?q) s)"
    using p by (intro upd_at_wf [OF assms(1)]) (auto simp: proc_ok_zombie)
  ultimately show ?thesis by simp
qed

lemma kill_children_wf: "proc_wf s \<Longrightarrow> kill_children c sig slots n s = (r, s') \<Longrightarrow> proc_wf s'"
proof (induction c sig slots n s rule: kill_children.induct)
  case (3 caller sig p slots count s)
  obtain x s1 where x: "signal_send (pr_id p) sig s = (x, s1)" by (metis prod.exhaust)
  then show ?case using 3 signal_send_wf [OF 3(3) x] by (cases x) (auto split: if_splits)
qed auto

lemma sys_kill_wf: "proc_wf s \<Longrightarrow> sys_kill pid sig s = (r, s') \<Longrightarrow> proc_wf s'"
  by (auto simp: sys_kill_def split: res.splits prod.splits option.splits if_splits dest: signal_send_wf kill_children_wf)

lemma pause_iter_wf: "proc_wf s \<Longrightarrow> pause_iter c n s = (r, s') \<Longrightarrow> proc_wf s'"
  by (auto simp: pause_iter_def Let_def split: option.splits if_splits prod.splits res.splits bool.splits dest: dispatch_pending_wf)

lemma mark_process_zombie_wf: "proc_wf s \<Longrightarrow> proc_wf (mark_process_zombie pid c s)"
  by (auto simp: mark_process_zombie_def proc_ok_zombie split: option.splits intro!: upd_proc_wf)

lemma sys_exit_wf: "proc_wf s \<Longrightarrow> sys_exit c s = (r, s') \<Longrightarrow> proc_wf s'"
  by (auto simp: sys_exit_def Let_def respawn_init_if_anchor_def mark_process_zombie_wf split: option.splits prod.splits)

lemma sys_wait4_wf:
  assumes "proc_wf s" "sys_wait4 pid st s = (r, s')" "r \<noteq> Panic"
  shows "proc_wf s'"
proof (cases "current_process_id s")
  case (Ok caller)
  show ?thesis
  proof (cases "\<not> sint pid < -1 \<and> find_slot (\<lambda>p. is_child caller pid p \<and> reapable p) (ps_procs s) \<noteq> None")
    case False
    then have "s' = s" using assms(2) Ok by (auto simp: sys_wait4_def split: option.splits if_splits)
    then show ?thesis using assms(1) by simp
  next
    case True
    then obtain k where k: "find_slot (\<lambda>p. is_child caller pid p \<and> reapable p) (ps_procs s) = Some k" by blast
    have km: "k < MAX_PROCESSES" using find_slotD [OF k] proc_wf_len [OF assms(1)] by simp
    define s1 where "s1 = (if st \<noteq> 0 then s\<lparr>ps_pt := snd (safe_copy_to_user
        (case find_process_mut caller s of Some c \<Rightarrow> l0_pa_of c s | None \<Rightarrow> 0) (word_to_le 4 (the (pr_exit_status (proc k s)))) st (ps_pt s))\<rparr> else s)"
    have "proc_wf s1" using assms(1) by (simp add: s1_def proc_wf_copy)
    obtain x s2 where d: "drop_process k s1 = (x, s2)" by (metis prod.exhaust)
    have "(r, s') = (case drop_process k s1 of (Panic, s2) \<Rightarrow> (Panic, s2) | (_, s2) \<Rightarrow> (Ok (pr_id (proc k s)), s2))"
      using sys_wait4_Ok [OF Ok k, of st] True assms(2) unfolding s1_def by simp
    then have "s' = s2" "x \<noteq> Panic" using d assms(3) by (cases x; simp)+
    then show ?thesis using drop_process_wf [OF \<open>proc_wf s1\<close> d _ km] by simp
  qed
qed (use assms in \<open>auto simp: sys_wait4_def\<close>)

lemma intern_name_wf: "proc_wf s \<Longrightarrow> intern_name nm s = (r, s') \<Longrightarrow> proc_wf s' \<and> ps_next_pid s' = ps_next_pid s"
  by (auto simp: intern_name_def Let_def split: if_splits)

lemma sys_getcwd_wf: "proc_wf s \<Longrightarrow> sys_getcwd b n s = (r, s') \<Longrightarrow> proc_wf s'"
  by (auto simp: sys_getcwd_def Let_def split: if_splits res.splits prod.splits dest: proc_wf_copyD)

lemma copy_from_user_length: "safe_copy_from_user l0 va n w = Ok bs \<Longrightarrow> length bs = n"
  by (auto simp: safe_copy_from_user_def user_space.copy_from_loop_bytes load_at_def split: if_splits)

lemma sys_chdir_wf:
  assumes "proc_wf s" "sys_chdir b n s = (r, s')"
  shows "proc_wf s'"
proof -
  have "proc_wf (upd_proc k (\<lambda>p. p\<lparr>pr_cwd := path @ drop m (pr_cwd p), pr_cwd_len := m\<rparr>) s)"
    if "length path = m" "m \<le> length (pr_cwd (proc k s))" for k path m
    using that by (intro upd_at_wf [OF assms(1)]) (auto simp: proc_ok_def)
  then show ?thesis
    using assms copy_from_user_length by (auto simp: sys_chdir_def Let_def split: if_splits res.splits prod.splits)
qed

lemma put_Some_None: "xs ! k \<noteq> None \<Longrightarrow> xs[k := Some v] ! i = None \<longleftrightarrow> xs ! i = None"
  by (cases "k < length xs") (auto simp: nth_list_update list_update_beyond)

lemma pt_track_trees:
  assumes "pw_trees w ! k \<noteq> None"
  shows "length (pw_trees (pt_track k pa w)) = length (pw_trees w) \<and> (pw_trees (pt_track k pa w) ! i = None \<longleftrightarrow> pw_trees w ! i = None)"
  using assms put_Some_None [OF assms] by (simp add: pt_track_def Let_def)

lemma pt_set_root_raw_trees:
  assumes "pw_trees w ! k \<noteq> None"
  shows "length (pw_trees (pt_set_root_raw k pa w)) = length (pw_trees w) \<and> (pw_trees (pt_set_root_raw k pa w) ! i = None \<longleftrightarrow> pw_trees w ! i = None)"
proof -
  let ?w = "set_tree k ((tree k w)\<lparr>pt_l0_pa := pa, pt_has_root := True, pt_generation := pt_generation (tree k w) + 1\<rparr>) w"
  have i: "pw_trees ?w ! i = None \<longleftrightarrow> pw_trees w ! i = None" for i
    using put_Some_None [OF assms] by simp
  then have "pw_trees ?w ! k \<noteq> None" using assms by simp
  from pt_track_trees [OF this, of pa i] i show ?thesis by (simp add: pt_set_root_raw_def)
qed

lemma allocate_process_slot:
  assumes "proc_wf s" "allocate_process sz nm s = (Ok k, s')"
  shows "k < MAX_PROCESSES \<and> (\<exists>p. ps_procs s' ! k = Some p)"
proof -
  obtain j where j: "first_free (ps_procs s) = Some j" using assms(2) by (cases "first_free (ps_procs s)") (auto simp: allocate_process_def)
  let ?s1 = "s\<lparr>ps_procs := (ps_procs s)[j := Some proc_new_dummy], ps_pt := set_tree j pt_new (ps_pt s)\<rparr>"
  obtain x s2 where i: "init_in_place sz j nm ?s1 = (x, s2)" by (metis prod.exhaust)
  then have e: "k = j" "s' = s2" using assms(2) j by (cases x; auto simp: allocate_process_def Let_def)+
  have jm: "j < MAX_PROCESSES" "j < length (ps_procs s)" using first_freeD [OF j] proc_wf_len [OF assms(1)] by auto
  then show ?thesis using init_in_place_cases [OF i] e by auto
qed

lemma mgmt_create_wf:
  assumes wf: "proc_wf s" and room: "unat (ps_next_pid s) < 2 ^ 64 - 1"
    and c: "mgmt_create sz par np l0 s = (r, s')"
  shows "proc_wf s'"
proof -
  have al: "proc_wf s2" if "intern_name nm s = (Ok q, s1)" "allocate_process sz q s1 = (x, s2)" for nm q s1 x s2
    using intern_name_wf [OF wf that(1)] allocate_process_wf [OF _ that(2)] room by auto
  have fin: "proc_wf (s3\<lparr>ps_pt := pt_set_root_raw k (unat l0) (ps_pt s3)\<rparr>)"
    if "intern_name nm s = (Ok q, s1)" "allocate_process sz q s1 = (Ok k, s2)" "s3 = upd_proc k (\<lambda>p. p\<lparr>pr_parent_pid := par\<rparr>) s2"
    for nm q s1 k s2 s3
  proof -
    have wf1: "proc_wf s1" using intern_name_wf [OF wf that(1)] by simp
    have wf3: "proc_wf s3" unfolding that(3) by (rule upd_proc_wf [OF al [OF that(1,2)]]) simp
    have "pw_trees (ps_pt s3) ! k \<noteq> None"
      using allocate_process_slot [OF wf1 that(2)] al [OF that(1,2)] unfolding proc_wf_def that(3) by auto
    from pt_set_root_raw_trees [OF this] show ?thesis by (intro proc_wf_trees [OF wf3]) auto
  qed
  show ?thesis
    using c wf intern_name_wf [OF wf] al fin
    by (auto simp: mgmt_create_def Let_def split: if_splits res.splits prod.splits)
qed

lemma mgmt_wait_wf:
  assumes "proc_wf s" "mgmt_wait t s = (r, s')" "r \<noteq> Panic"
  shows "proc_wf s'"
  using assms drop_process_wf [OF assms(1)] find_slotD proc_wf_len [OF assms(1)]
  by (fastforce simp: mgmt_wait_def split: res.splits option.splits prod.splits)

lemma list_loop_wf: "proc_wf s \<Longrightarrow> list_loop l0 b m slots n s = (r, s') \<Longrightarrow> proc_wf s'"
proof (induction l0 b m slots n s rule: list_loop.induct)
  case (3 l0 buf max_n p slots count s)
  show ?case
    using 3(2,3) 3(1) proc_wf_copy [OF 3(2)]
    by (auto simp: Let_def split: if_splits res.splits)
qed auto

lemma sys_proc_mgmt_wf:
  assumes "proc_wf s" "unat (ps_next_pid s) < 2 ^ 64 - 1" "sys_proc_mgmt sz cmd a b c s = (r, s')" "r \<noteq> Panic"
  shows "proc_wf s'"
proof -
  have fr: "proc_wf (s\<lparr>ps_pt := w\<rparr>)" if "free_page_table_tree l (ps_pt s) = (x, w)" for l x w
    using that by (intro proc_wf_cong [OF assms(1)]) (auto simp: free_page_table_tree_def Let_def split: prod.splits)
  show ?thesis
    using assms mgmt_create_wf [OF assms(1,2)] mgmt_wait_wf [OF assms(1)] list_loop_wf [OF assms(1)] mark_process_zombie_wf [OF assms(1)] fr
    by (auto simp: sys_proc_mgmt_def split: if_splits res.splits prod.splits)
qed

lemma add_handle_wf: "proc_wf s \<Longrightarrow> add_handle c obj rt s = (r, s') \<Longrightarrow> proc_wf s'"
  by (auto simp: add_handle_def Let_def split: prod.splits intro!: upd_proc_wf)

lemma sys_process_create_wf:
  assumes "proc_wf s" "unat (ps_next_pid s) < 2 ^ 64 - 1" "sys_process_create sz c s = (r, s')"
  shows "proc_wf s'"
  using assms(3) allocate_process_wf [OF assms(1) _ assms(2)] add_handle_wf
  by (fastforce simp: sys_process_create_def split: prod.splits res.splits)

lemma sys_thread_create_wf: "proc_wf s \<Longrightarrow> sys_thread_create stub c h e st s = (r, s') \<Longrightarrow> proc_wf s'"
  by (auto simp: sys_thread_create_def Let_def split: prod.splits res.splits option.splits dest: add_handle_wf [rotated])

lemma sys_thread_start_wf: "proc_wf s \<Longrightarrow> sys_thread_start c h s = (r, s') \<Longrightarrow> proc_wf s'"
  by (auto simp: sys_thread_start_def split: prod.splits res.splits option.splits)

lemma fd_scan_ok: "fd_scan n st p = (r, p') \<Longrightarrow> (proc_ok p' \<longleftrightarrow> proc_ok p) \<and> pr_id p' = pr_id p"
  by (induction n st p rule: fd_scan.induct) (auto simp: Let_def split: if_splits)

lemma alloc_user_fd_ok: "alloc_user_fd p = (r, p') \<Longrightarrow> (proc_ok p' \<longleftrightarrow> proc_ok p) \<and> pr_id p' = pr_id p"
  unfolding alloc_user_fd_def by (rule fd_scan_ok)

lemma sys_pipe_wf:
  assumes "proc_wf s" "sys_pipe u s = (r, s')"
  shows "proc_wf s'"
proof -
  have const: "proc_wf (upd_proc k (\<lambda>_. q) (s\<lparr>ps_pipes := ps\<rparr>))" if "proc_ok (proc k s) \<longrightarrow> proc_ok q" "pr_id q = pr_id (proc k s)" for k q ps
    using assms(1) that by (intro upd_at_wf) auto
  have copy: "proc_wf (x\<lparr>ps_pt := snd (safe_copy_to_user l0 bs va (ps_pt x))\<rparr>)" if "proc_wf x" for x l0 bs va
    by (rule proc_wf_copy [OF that])
  obtain y where y: "caller_slot NotFound s = y" by blast
  show ?thesis
  proof (cases y)
    case (Ok pk)
    obtain pid k where pk: "pk = (pid, k)" by (metis prod.exhaust)
    obtain a ps where a: "alloc_pipe (ps_pipes s) = (a, ps)" by (metis prod.exhaust)
    obtain b p1 where b: "alloc_user_fd (proc k s) = (b, p1)" by (metis prod.exhaust)
    obtain d p2 where d: "alloc_user_fd p1 = (d, p2)" by (metis prod.exhaust)
    note ok = alloc_user_fd_ok [OF b] alloc_user_fd_ok [OF d]
    have c1: "proc_wf (upd_proc k (\<lambda>_. p1) (s\<lparr>ps_pipes := ps\<rparr>))" and c2: "proc_wf (upd_proc k (\<lambda>_. p2) (s\<lparr>ps_pipes := ps\<rparr>))"
      using ok by (auto intro!: const)
    have c3: "proc_wf (upd_proc k (\<lambda>_. set_fd wr e (set_fd rd e' p2)) (s\<lparr>ps_pipes := ps\<rparr>))" for wr e rd e'
      using ok by (auto intro!: const)
    have c4: "proc_wf ((upd_proc k (\<lambda>_. set_fd wr e (set_fd rd e' p2)) (s\<lparr>ps_pipes := ps\<rparr>))\<lparr>ps_pt := snd (safe_copy_to_user l0 bs va (ps_pt s))\<rparr>)"
      for wr e rd e' l0 bs va
      using copy [OF c3 [of wr e rd e'], of l0 bs va] by simp
    show ?thesis
      using assms y Ok pk a b d c1 c2 c4 by (cases a; cases b; cases d) (auto simp: sys_pipe_def Let_def split: if_splits)
  qed (use assms y in \<open>auto simp: sys_pipe_def\<close>)
qed

lemma sys_dup2_wf:
  assumes "proc_wf s" "sys_dup2 a b s = (r, s')"
  shows "proc_wf s'"
proof -
  have u: "proc_wf (upd_proc k (set_fd f e) x)" if "proc_wf x" for k f e x
    using that by (intro upd_proc_wf) auto
  have "proc_wf (s\<lparr>ps_pipes := ps\<rparr>)" for ps using assms(1) by simp
  note u [OF assms(1)] u [OF this]
  then show ?thesis using assms by (auto simp: sys_dup2_def Let_def split: res.splits prod.splits option.splits if_splits fd_entry.splits)
qed

lemma dispatch_pipe_io_wf:
  assumes "proc_wf s" "dispatch_pipe_io fd b n w s = (r, s')"
  shows "proc_wf s'"
proof -
  have "proc_wf (s\<lparr>ps_pipes := ps, ps_pt := snd (safe_copy_to_user l0 bs va (ps_pt s))\<rparr>)" for ps l0 bs va
    using proc_wf_copy [of "s\<lparr>ps_pipes := ps\<rparr>" l0 bs va] assms(1) by simp
  then show ?thesis using assms
    by (auto simp: dispatch_pipe_io_def Let_def split: res.splits prod.splits option.splits if_splits fd_entry.splits)
qed

section \<open>Properties\<close>

text \<open>
  One system call of some thread, or a step of the rest of the kernel, which may run other threads
  and write user memory but leaves the process table alone. A call that aborts the kernel is not a
  step.
\<close>

inductive proc_step :: "pstate \<Rightarrow> pstate \<Rightarrow> bool" where
  mgmt: "unat (ps_next_pid s) < 2 ^ 64 - 1 \<Longrightarrow> sys_proc_mgmt sz cmd a b c s = (r, s') \<Longrightarrow> r \<noteq> Panic \<Longrightarrow> proc_step s s'"
| create: "unat (ps_next_pid s) < 2 ^ 64 - 1 \<Longrightarrow> sys_process_create sz k s = (h, s') \<Longrightarrow> proc_step s s'"
| thread_create: "sys_thread_create stub k h e st s = (hr, s') \<Longrightarrow> proc_step s s'"
| thread_start: "sys_thread_start k h s = (u, s') \<Longrightarrow> proc_step s s'"
| exit: "sys_exit code s = (out, s') \<Longrightarrow> proc_step s s'"
| wait4: "sys_wait4 pid st s = (r, s') \<Longrightarrow> r \<noteq> Panic \<Longrightarrow> proc_step s s'"
| sigaction: "sys_sigaction sig hdl s = (r, s') \<Longrightarrow> proc_step s s'"
| raise: "sys_raise sig s = (u, s') \<Longrightarrow> proc_step s s'"
| kill: "sys_kill pid sig s = (u, s') \<Longrightarrow> proc_step s s'"
| pause: "pause_iter c n s = (pr, s') \<Longrightarrow> proc_step s s'"
| chdir: "sys_chdir p n s = (cr, s') \<Longrightarrow> proc_step s s'"
| getcwd: "sys_getcwd p n s = (cr, s') \<Longrightarrow> proc_step s s'"
| pipe: "sys_pipe p s = (u, s') \<Longrightarrow> proc_step s s'"
| dup2: "sys_dup2 f g s = (fr, s') \<Longrightarrow> proc_step s s'"
| io: "dispatch_pipe_io f p n w s = (ir, s') \<Longrightarrow> proc_step s s'"
| other: "ps_procs s' = ps_procs s \<Longrightarrow> pw_trees (ps_pt s') = pw_trees (ps_pt s) \<Longrightarrow> ps_next_pid s' = ps_next_pid s \<Longrightarrow> proc_step s s'"

inductive_cases proc_stepE: "proc_step s s'"

text \<open>The table at boot.\<close>

definition procs_booted :: "pstate \<Rightarrow> bool" where
  "procs_booted s \<longleftrightarrow> ps_procs s = replicate MAX_PROCESSES None \<and> pw_trees (ps_pt s) = replicate MAX_PROCESSES None \<and> ps_next_pid s = 1"

lemma procs_booted_wf: "procs_booted s \<Longrightarrow> proc_wf s"
  by (simp add: procs_booted_def proc_wf_def)

lemma proc_step_wf: "proc_step s s' \<Longrightarrow> proc_wf s \<Longrightarrow> proc_wf s'"
proof (induction rule: proc_step.induct)
  case (sigaction sig hdl s r s')
  then show ?case using sigaction_set_wf by (auto simp: sys_sigaction_def)
next
  case (other s' s)
  then show ?case using proc_wf_cong by blast
qed (blast intro: sys_proc_mgmt_wf sys_process_create_wf sys_thread_create_wf sys_thread_start_wf sys_exit_wf sys_wait4_wf sys_raise_wf
    sys_kill_wf pause_iter_wf sys_chdir_wf sys_getcwd_wf sys_pipe_wf sys_dup2_wf dispatch_pipe_io_wf)+

lemma proc_reachable_wf: "proc_step\<^sup>*\<^sup>* s s' \<Longrightarrow> proc_wf s \<Longrightarrow> proc_wf s'"
  by (induction rule: rtranclp_induct) (auto intro: proc_step_wf)

lemma find_process_mut_iff:
  assumes "proc_wf s" "pid \<noteq> 0"
  shows "find_process_mut pid s = Some k \<longleftrightarrow> k < MAX_PROCESSES \<and> (\<exists>p. ps_procs s ! k = Some p \<and> pr_id p = pid)"
proof
  assume "find_process_mut pid s = Some k"
  then show "k < MAX_PROCESSES \<and> (\<exists>p. ps_procs s ! k = Some p \<and> pr_id p = pid)"
    using find_process_mutD proc_wf_len [OF assms(1)] by fastforce
next
  assume a: "k < MAX_PROCESSES \<and> (\<exists>p. ps_procs s ! k = Some p \<and> pr_id p = pid)"
  then obtain p where p: "ps_procs s ! k = Some p" "pr_id p = pid" "k < MAX_PROCESSES" by blast
  show "find_process_mut pid s = Some k"
  proof (cases "find_process_mut pid s")
    case None
    have "Some p \<in> set (ps_procs s)" using p proc_wf_len [OF assms(1)] by (metis nth_mem)
    then show ?thesis using None p(2) by (fastforce simp: find_process_mut_def find_slot_def slot_simps)
  next
    case (Some j)
    then obtain q where q: "j < MAX_PROCESSES" "ps_procs s ! j = Some q" "pr_id q = pid"
      using find_process_mutD proc_wf_len [OF assms(1)] by fastforce
    then show ?thesis using proc_wf_unique [OF assms(1) p(3) q(1) p(1) q(2)] p(2) assms(2) Some by simp
  qed
qed


text \<open>A machine whose memory is exhausted: creating a process fails and its slot stays taken.\<close>

definition demo_booted :: pstate where
  "demo_booted = demo_pstate\<lparr>ps_procs := replicate MAX_PROCESSES None, ps_next_pid := 1,
     ps_pt := demo_ptw\<lparr>pw_phys := demo_phys\<lparr>next_free_page := 0x40090000\<rparr>, pw_trees := replicate MAX_PROCESSES None\<rparr>\<rparr>"


text \<open>The scan of descriptors is a cyclic search.\<close>

lemma fd_scan_cyclic:
  assumes "k < FD_TABLE_SIZE"
  shows "fd_scan n (word_of_nat k) p =
    (case find (\<lambda>i. pr_fd_table p ! i = None) (map (\<lambda>j. (k + j) mod FD_TABLE_SIZE) [0..<n]) of
       None \<Rightarrow> (Err NoMemory, p)
     | Some i \<Rightarrow> (Ok (word_of_nat i), p\<lparr>pr_next_fd := word_of_nat ((i + 1) mod FD_TABLE_SIZE)\<rparr>))"
  using assms
proof (induction n arbitrary: k)
  case (Suc n)
  have u: "unat (word_of_nat k :: u32) = k" using Suc.prems by (simp add: unat_of_nat FD_TABLE_SIZE_def)
  have w: "(word_of_nat k + 1) mod word_of_nat FD_TABLE_SIZE = (word_of_nat ((k + 1) mod FD_TABLE_SIZE) :: u32)"
    using Suc.prems by (intro word_unat_eq_iff [THEN iffD2]) (auto simp: unat_mod unat_of_nat FD_TABLE_SIZE_def unat_word_ariths)
  have l: "map (\<lambda>j. (k + j) mod FD_TABLE_SIZE) [0..<Suc n] =
      k # map (\<lambda>j. ((k + 1) mod FD_TABLE_SIZE + j) mod FD_TABLE_SIZE) [0..<n]"
    using Suc.prems by (simp add: upt_conv_Cons map_Suc_upt [symmetric] mod_simps del: upt_Suc)
  have s: "fd_scan (Suc n) (word_of_nat k) p = (if pr_fd_table p ! k = None then (Ok (word_of_nat k), p\<lparr>pr_next_fd := word_of_nat ((k + 1) mod FD_TABLE_SIZE)\<rparr>)
      else fd_scan n (word_of_nat ((k + 1) mod FD_TABLE_SIZE)) p)"
    using Suc.prems by (simp add: u w [simplified] Let_def)
  have m: "(k + 1) mod FD_TABLE_SIZE < FD_TABLE_SIZE" by (simp add: FD_TABLE_SIZE_def)
  show ?case unfolding l s Suc.IH [OF m] by simp
qed simp

lemma find_SomeI: "i < length xs \<Longrightarrow> P (xs ! i) \<Longrightarrow> (\<And>j. j < i \<Longrightarrow> \<not> P (xs ! j)) \<Longrightarrow> find P xs = Some (xs ! i)"
  by (auto simp: find_Some_iff)

lemma alloc_user_fd_cyclic:
  assumes "unat (pr_next_fd p) < FD_TABLE_SIZE" "k = unat (max (pr_next_fd p) USER_FD_BASE)"
  shows "alloc_user_fd p =
    (case find (\<lambda>i. pr_fd_table p ! i = None) (map (\<lambda>j. (k + j) mod FD_TABLE_SIZE) [0..<FD_TABLE_SIZE]) of
       None \<Rightarrow> (Err NoMemory, p)
     | Some i \<Rightarrow> (Ok (word_of_nat i), p\<lparr>pr_next_fd := word_of_nat ((i + 1) mod FD_TABLE_SIZE)\<rparr>))"
proof -
  have "k < FD_TABLE_SIZE" using assms by (auto simp: max_def USER_FD_BASE_def FD_TABLE_SIZE_def)
  from fd_scan_cyclic [OF this, of FD_TABLE_SIZE p] show ?thesis by (simp add: alloc_user_fd_def assms(2))
qed

text \<open>
  \<open>alloc_user_fd\<close> returns the first free descriptor of a cyclic search over all sixteen that
  starts at the cursor (at least 3), advances the cursor past it, and fails only when all sixteen
  are taken. The search passes through 0, 1 and 2, which its comment says are skipped: once every
  descriptor from the cursor to 15 is taken, a free descriptor 0 is handed out, and a later read or
  write on it is not treated as one on a pipe.
\<close>
theorem alloc_user_fd_hands_out_stdin:
  assumes "length (pr_fd_table p) = FD_TABLE_SIZE" "unat (pr_next_fd p) < FD_TABLE_SIZE"
    and "k = unat (max (pr_next_fd p) USER_FD_BASE)"
  shows "alloc_user_fd p =
      (case find (\<lambda>i. pr_fd_table p ! i = None) (map (\<lambda>j. (k + j) mod FD_TABLE_SIZE) [0..<FD_TABLE_SIZE]) of
         None \<Rightarrow> (Err NoMemory, p)
       | Some i \<Rightarrow> (Ok (word_of_nat i), p\<lparr>pr_next_fd := word_of_nat ((i + 1) mod FD_TABLE_SIZE)\<rparr>))
    \<and> (fst (alloc_user_fd p) = Err NoMemory \<longleftrightarrow> None \<notin> set (pr_fd_table p))
    \<and> ((\<forall>i. k \<le> i \<and> i < FD_TABLE_SIZE \<longrightarrow> pr_fd_table p ! i \<noteq> None) \<and> pr_fd_table p ! 0 = None \<longrightarrow>
         alloc_user_fd p = (Ok 0, p\<lparr>pr_next_fd := 1\<rparr>) \<and> dispatch_pipe_io 0 buf len w s = (Ok None, s))"
proof (intro conjI impI)
  let ?l = "map (\<lambda>j. (k + j) mod FD_TABLE_SIZE) [0..<FD_TABLE_SIZE]"
  note eq = alloc_user_fd_cyclic [OF assms(2,3)]
  have "unat USER_FD_BASE \<le> k" unfolding assms(3) by (simp add: word_le_nat_alt [symmetric])
  then have k: "k < FD_TABLE_SIZE" "0 < k" using assms(2,3) by (auto simp: max_def USER_FD_BASE_def FD_TABLE_SIZE_def split: if_splits)
  have "i \<in> set ?l" if "i < FD_TABLE_SIZE" for i
  proof (cases "k \<le> i")
    case True
    then show ?thesis using that by (auto intro!: image_eqI [of _ _ "i - k"])
  next
    case False
    then have "i = (k + (i + FD_TABLE_SIZE - k)) mod FD_TABLE_SIZE" using k that by simp
    then show ?thesis using False k by (auto intro!: image_eqI [of _ _ "i + FD_TABLE_SIZE - k"])
  qed
  moreover have "set ?l \<subseteq> {..<FD_TABLE_SIZE}" by (auto simp: FD_TABLE_SIZE_def)
  ultimately have all: "set ?l = {..<FD_TABLE_SIZE}" by blast
  show "fst (alloc_user_fd p) = Err NoMemory \<longleftrightarrow> None \<notin> set (pr_fd_table p)"
  proof (cases "find (\<lambda>i. pr_fd_table p ! i = None) ?l")
    case None
    then have "\<forall>i<FD_TABLE_SIZE. pr_fd_table p ! i \<noteq> None" unfolding find_None_iff all by auto
    then show ?thesis unfolding eq None using assms(1) by (auto simp: in_set_conv_nth)
  next
    case (Some i)
    then have "i \<in> set ?l" "pr_fd_table p ! i = None" by (auto simp only: find_Some_iff nth_mem)
    then have "None \<in> set (pr_fd_table p)" unfolding all using assms(1) by (metis lessThan_iff nth_mem)
    then show ?thesis unfolding eq Some by simp
  qed
  assume a: "(\<forall>i. k \<le> i \<and> i < FD_TABLE_SIZE \<longrightarrow> pr_fd_table p ! i \<noteq> None) \<and> pr_fd_table p ! 0 = None"
  have "find (\<lambda>i. pr_fd_table p ! i = None) ?l = Some (?l ! (FD_TABLE_SIZE - k))"
    using a k by (intro find_SomeI) auto
  then show "alloc_user_fd p = (Ok 0, p\<lparr>pr_next_fd := 1\<rparr>)" unfolding eq using k by (simp add: FD_TABLE_SIZE_def)
  show "dispatch_pipe_io 0 buf len w s = (Ok None, s)" by (simp add: dispatch_pipe_io_def USER_FD_BASE_def)
qed (rule alloc_user_fd_cyclic [OF assms(2,3)])

text \<open>A process with six pipes open: the seventh gets descriptors 15 and 0.\<close>

definition demo_six_pipes :: process where
  "demo_six_pipes = proc_new_dummy\<lparr>pr_fd_table := [None, None, None] @ replicate 13 (Some (FdPipe 1 RoleRead)), pr_next_fd := 0\<rparr>"

theorem alloc_user_fd_hands_out_stdin_witness: "alloc_user_fd demo_six_pipes = (Ok 0, demo_six_pipes\<lparr>pr_next_fd := 1\<rparr>)"
proof -
  have "\<forall>i. 3 \<le> i \<and> i < FD_TABLE_SIZE \<longrightarrow> pr_fd_table demo_six_pipes ! i \<noteq> None" "pr_fd_table demo_six_pipes ! 0 = None"
    by (auto simp: demo_six_pipes_def FD_TABLE_SIZE_def nth_append)
  moreover have "length (pr_fd_table demo_six_pipes) = FD_TABLE_SIZE" "unat (pr_next_fd demo_six_pipes) < FD_TABLE_SIZE"
      "3 = unat (max (pr_next_fd demo_six_pipes) USER_FD_BASE)"
    by (simp_all add: demo_six_pipes_def FD_TABLE_SIZE_def USER_FD_BASE_def)
  ultimately show ?thesis using alloc_user_fd_hands_out_stdin [of demo_six_pipes 3] by blast
qed

text \<open>
  An entry of the process list decodes to the identifier, parent, state and name it was made
  from when the name has at most 108 bytes. Names of up to 127 bytes are accepted when a process is
  created, and for one of more than 108 the entry overruns its 128 bytes: listing the processes then
  aborts the kernel.
\<close>
theorem process_list_entry:
  shows "(length name \<le> 108 \<longrightarrow> (\<exists>bs. serialize_entry pid parent st name = Ok bs \<and> length bs = 128
      \<and> word_of_le (take 8 bs) = pid \<and> word_of_le (take 8 (drop 8 bs)) = parent \<and> word_of_le (take 4 (drop 16 bs)) = st
      \<and> take (length name) (drop 20 bs) = name \<and> list_all (\<lambda>b. b = 0) (drop (20 + length name) bs)))
    \<and> (108 < length name \<and> length name < NAME_SLOT_CAP \<and> length (ps_names s) = NAME_SLOT_COUNT
         \<and> buf \<noteq> 0 \<and> max_n \<noteq> 0 \<and> ps_procs s ! 0 = Some p \<and> ps_procs s \<noteq> [] \<longrightarrow>
         (\<exists>nr s1. intern_name name s = (Ok nr, s1) \<and> fst (sys_proc_mgmt sz PROC_MGMT_LIST buf max_n c (upd_proc 0 (\<lambda>p. p\<lparr>pr_name := nr\<rparr>) s1)) = Panic))"
proof (intro conjI impI)
  assume l: "length name \<le> 108"
  let ?bs = "word_to_le 8 pid @ word_to_le 8 parent @ word_to_le 4 st @ name @ replicate (128 - (20 + length name)) 0"
  have "serialize_entry pid parent st name = Ok ?bs" using l by (simp add: serialize_entry_def Let_def min_def)
  moreover have "length ?bs = 128" using l by simp
  ultimately show "\<exists>bs. serialize_entry pid parent st name = Ok bs \<and> length bs = 128
      \<and> word_of_le (take 8 bs) = pid \<and> word_of_le (take 8 (drop 8 bs)) = parent \<and> word_of_le (take 4 (drop 16 bs)) = st
      \<and> take (length name) (drop 20 bs) = name \<and> list_all (\<lambda>b. b = 0) (drop (20 + length name) bs)"
    by (intro exI [of _ ?bs]) (auto simp: word_of_le_to_le list_all_iff)
next
  assume a: "108 < length name \<and> length name < NAME_SLOT_CAP \<and> length (ps_names s) = NAME_SLOT_COUNT
    \<and> buf \<noteq> 0 \<and> max_n \<noteq> 0 \<and> ps_procs s ! 0 = Some p \<and> ps_procs s \<noteq> []"
  let ?i = "unat (ps_name_cursor s) mod NAME_SLOT_COUNT"
  let ?s1 = "s\<lparr>ps_names := (ps_names s)[?i := name @ drop (length name) (ps_names s ! ?i)], ps_name_cursor := ps_name_cursor s + 1\<rparr>"
  let ?nr = "NameSlot ?i (length name)"
  let ?s2 = "upd_proc 0 (\<lambda>p. p\<lparr>pr_name := ?nr\<rparr>) ?s1"
  have i: "intern_name name s = (Ok ?nr, ?s1)" using a by (simp add: intern_name_def Let_def)
  obtain ps where ps: "ps_procs s = Some p # ps" using a by (cases "ps_procs s") auto
  have "?i < NAME_SLOT_COUNT" by (simp add: NAME_SLOT_COUNT_def)
  then have nb: "name_bytes ?s2 ?nr = name" using a by (simp add: name_bytes_def upd_proc_def)
  have p2: "ps_procs ?s2 = Some (p\<lparr>pr_name := ?nr\<rparr>) # ps" by (simp add: upd_proc_def ps)
  have "serialize_entry pid' parent' st' name = Panic" for pid' parent' st' using a by (simp add: serialize_entry_def Let_def)
  then have "list_loop l0 buf (unat max_n) (ps_procs ?s2) 0 ?s2 = (Panic, ?s2)" for l0
    using a nb unfolding p2 by (simp add: unat_gt_0)
  then have "fst (sys_proc_mgmt sz PROC_MGMT_LIST buf max_n c ?s2) = Panic"
    using a by (simp add: sys_proc_mgmt_def PROC_MGMT_LIST_def PROC_MGMT_CREATE_def PROC_MGMT_EXIT_def PROC_MGMT_WAIT_def)
  then show "\<exists>nr s1. intern_name name s = (Ok nr, s1) \<and> fst (sys_proc_mgmt sz PROC_MGMT_LIST buf max_n c (upd_proc 0 (\<lambda>p. p\<lparr>pr_name := nr\<rparr>) s1)) = Panic"
    using i by blast
qed

theorem process_list_entry_witness:
  "\<exists>nr s1. intern_name (replicate 120 65) demo_pstate = (Ok nr, s1)
     \<and> fst (sys_proc_mgmt 32 PROC_MGMT_LIST 0x50000000 8 0 (upd_proc 0 (\<lambda>p. p\<lparr>pr_name := nr\<rparr>) s1)) = Panic"
proof -
  have "length (ps_names demo_pstate) = NAME_SLOT_COUNT" by (simp add: demo_pstate_def)
  then show ?thesis
    using process_list_entry [of "replicate 120 65" 0 0 0 demo_pstate "0x50000000" 8 "proc_new_dummy\<lparr>pr_id := 1\<rparr>" 32 0]
    by (simp add: demo_procs NAME_SLOT_CAP_def)
qed

end
