(* ===== verification/Ohlink.thy ===== *)
theory Ohlink
  imports Prelude
begin

text \<open>
  The executable format of the system, \<open>tools/ohlink-toolchain/crates/ohlink-format/src\<close>: file
  headers, segment entries, symbols and relocations as byte strings, the checksum, and the builder
  and parser of whole files. The writes of fixed ranges of a zeroed array are concatenations here;
  \<open>put_at\<close> is \<open>copy_from_slice\<close> on a range. Sizes and offsets are 64-bit words that wrap as in a
  release build, and a slice whose start is past its end panics.
\<close>

section \<open>Errors and slices\<close>

datatype format_error =
    BufferTooSmall | InvalidMagic | InvalidVersion | ChecksumMismatch u32 u32
  | InvalidEntryIndex | Utf8Error | ParseError | BuildError

datatype 'a fres = FOk 'a | FErr format_error | FPanic

definition le_at :: "nat \<Rightarrow> nat \<Rightarrow> u8 list \<Rightarrow> 'a::len word" where
  "le_at k off bs = word_of_le (take k (drop off bs))"

definition put_at :: "nat \<Rightarrow> u8 list \<Rightarrow> u8 list \<Rightarrow> u8 list" where
  "put_at off bs buf = take off buf @ bs @ drop (off + length bs) buf"

section \<open>File header\<close>

record ohlk_header =
  oh_magic :: u32
  oh_version_major :: u16
  oh_version_minor :: u16
  oh_endian :: u8
  oh_arch :: u8
  oh_file_type :: u16
  oh_header_count :: u16
  oh_header_offset :: u32
  oh_data_offset :: u32
  oh_file_size :: u64
  oh_checksum :: u32
  oh_flags :: u32
  oh_entry_point :: u64
  oh_reserved :: "u8 list"

definition OHLK_MAGIC :: u32 where "OHLK_MAGIC = 0x4F484C4B"
definition HEADER_SIZE :: nat where "HEADER_SIZE = 64"
definition HEADER_OFFSET :: u32 where "HEADER_OFFSET = 0x40"

definition header_to_bytes :: "ohlk_header \<Rightarrow> u8 list" where
  "header_to_bytes h =
     word_to_le 4 (oh_magic h) @ word_to_le 2 (oh_version_major h) @ word_to_le 2 (oh_version_minor h)
     @ [oh_endian h, oh_arch h] @ word_to_le 2 (oh_file_type h) @ word_to_le 2 (oh_header_count h)
     @ word_to_le 4 (oh_header_offset h) @ word_to_le 4 (oh_data_offset h) @ word_to_le 8 (oh_file_size h)
     @ word_to_le 4 (oh_checksum h) @ word_to_le 4 (oh_flags h) @ word_to_le 8 (oh_entry_point h) @ oh_reserved h"

definition header_from_bytes :: "u8 list \<Rightarrow> ohlk_header fres" where
  "header_from_bytes bs =
     (if length bs < HEADER_SIZE then FErr BufferTooSmall
      else let magic = le_at 4 0 bs in
      if magic \<noteq> OHLK_MAGIC then FErr InvalidMagic
      else let major = le_at 2 4 bs in
      if major \<noteq> 1 then FErr InvalidVersion
      else FOk \<lparr>oh_magic = magic, oh_version_major = major, oh_version_minor = le_at 2 6 bs, oh_endian = bs ! 8, oh_arch = bs ! 9,
        oh_file_type = le_at 2 10 bs, oh_header_count = le_at 2 12 bs, oh_header_offset = le_at 4 14 bs,
        oh_data_offset = le_at 4 18 bs, oh_file_size = le_at 8 22 bs, oh_checksum = le_at 4 30 bs, oh_flags = le_at 4 34 bs,
        oh_entry_point = le_at 8 38 bs, oh_reserved = take 18 (drop 46 bs)\<rparr>)"

datatype file_type = Executable | Relocatable | SharedFile | KernelModule | Firmware | Bootloader

definition file_type_from_u16 :: "u16 \<Rightarrow> file_type" where
  "file_type_from_u16 v =
     (if v = 1 then Executable else if v = 2 then Relocatable else if v = 3 then SharedFile
      else if v = 4 then KernelModule else if v = 5 then Firmware else if v = 6 then Bootloader else Relocatable)"

primrec file_type_to_u16 :: "file_type \<Rightarrow> u16" where
  "file_type_to_u16 Executable = 1"
| "file_type_to_u16 Relocatable = 2"
| "file_type_to_u16 SharedFile = 3"
| "file_type_to_u16 KernelModule = 4"
| "file_type_to_u16 Firmware = 5"
| "file_type_to_u16 Bootloader = 6"

section \<open>Segment entries\<close>

datatype segment_type =
    SegText | SegData | SegRodata | SegBss | SegSymtab | SegStrtab | SegReloc | SegDynamic | SegImport
  | SegExport | SegGot | SegPlt | SegHash | SegTls | SegInit | SegFini | SegDebug | SegLine | SegCustom u32

definition segment_type_from_u32 :: "u32 \<Rightarrow> segment_type" where
  "segment_type_from_u32 v =
     (if v = 1 then SegText else if v = 2 then SegData else if v = 3 then SegRodata else if v = 4 then SegBss else if v = 5 then SegSymtab else if v = 6 then SegStrtab
      else if v = 7 then SegReloc else if v = 8 then SegDynamic else if v = 9 then SegImport else if v = 10 then SegExport else if v = 11 then SegGot else if v = 12 then SegPlt
      else if v = 13 then SegHash else if v = 14 then SegTls else if v = 15 then SegInit else if v = 16 then SegFini else if v = 17 then SegDebug else if v = 18 then SegLine
      else SegCustom v)"

primrec segment_type_to_u32 :: "segment_type \<Rightarrow> u32" where
  "segment_type_to_u32 SegText = 1"
| "segment_type_to_u32 SegData = 2"
| "segment_type_to_u32 SegRodata = 3"
| "segment_type_to_u32 SegBss = 4"
| "segment_type_to_u32 SegSymtab = 5"
| "segment_type_to_u32 SegStrtab = 6"
| "segment_type_to_u32 SegReloc = 7"
| "segment_type_to_u32 SegDynamic = 8"
| "segment_type_to_u32 SegImport = 9"
| "segment_type_to_u32 SegExport = 10"
| "segment_type_to_u32 SegGot = 11"
| "segment_type_to_u32 SegPlt = 12"
| "segment_type_to_u32 SegHash = 13"
| "segment_type_to_u32 SegTls = 14"
| "segment_type_to_u32 SegInit = 15"
| "segment_type_to_u32 SegFini = 16"
| "segment_type_to_u32 SegDebug = 17"
| "segment_type_to_u32 SegLine = 18"
| "segment_type_to_u32 (SegCustom v) = v"

record ohlk_entry =
  oe_ty :: u32
  oe_flags :: u32
  oe_file_offset :: u64
  oe_virtual_address :: u64
  oe_file_size :: u64
  oe_mem_size :: u64
  oe_alignment :: u64
  oe_link :: u32
  oe_info :: u32
  oe_name_offset :: u32

definition ENTRY_SIZE :: nat where "ENTRY_SIZE = 60"

definition entry_to_bytes :: "ohlk_entry \<Rightarrow> u8 list" where
  "entry_to_bytes e =
     word_to_le 4 (oe_ty e) @ word_to_le 4 (oe_flags e) @ word_to_le 8 (oe_file_offset e) @ word_to_le 8 (oe_virtual_address e)
     @ word_to_le 8 (oe_file_size e) @ word_to_le 8 (oe_mem_size e) @ word_to_le 8 (oe_alignment e)
     @ word_to_le 4 (oe_link e) @ word_to_le 4 (oe_info e) @ word_to_le 4 (oe_name_offset e)"

definition entry_from_bytes :: "u8 list \<Rightarrow> ohlk_entry fres" where
  "entry_from_bytes bs =
     (if length bs < ENTRY_SIZE then FErr BufferTooSmall
      else FOk \<lparr>oe_ty = le_at 4 0 bs, oe_flags = le_at 4 4 bs, oe_file_offset = le_at 8 8 bs, oe_virtual_address = le_at 8 16 bs,
        oe_file_size = le_at 8 24 bs, oe_mem_size = le_at 8 32 bs, oe_alignment = le_at 8 40 bs, oe_link = le_at 4 48 bs,
        oe_info = le_at 4 52 bs, oe_name_offset = le_at 4 56 bs\<rparr>)"

section \<open>Symbols\<close>

datatype symbol_type = SymNone | SymFunction | SymData | SymFile | SymSection

definition symbol_type_from_u8 :: "u8 \<Rightarrow> symbol_type" where
  "symbol_type_from_u8 v =
     (if v = 1 then SymFunction else if v = 2 then SymData else if v = 3 then SymFile else if v = 4 then SymSection else SymNone)"

primrec symbol_type_to_u8 :: "symbol_type \<Rightarrow> u8" where
  "symbol_type_to_u8 SymNone = 0"
| "symbol_type_to_u8 SymFunction = 1"
| "symbol_type_to_u8 SymData = 2"
| "symbol_type_to_u8 SymFile = 3"
| "symbol_type_to_u8 SymSection = 4"

datatype symbol_binding = BindLocal | BindGlobal | BindWeak

definition symbol_binding_from_u8 :: "u8 \<Rightarrow> symbol_binding" where
  "symbol_binding_from_u8 v = (if v = 1 then BindGlobal else if v = 2 then BindWeak else BindLocal)"

primrec symbol_binding_to_u8 :: "symbol_binding \<Rightarrow> u8" where
  "symbol_binding_to_u8 BindLocal = 0"
| "symbol_binding_to_u8 BindGlobal = 1"
| "symbol_binding_to_u8 BindWeak = 2"

datatype symbol_visibility = VisDefault | VisHidden | VisProtected

definition symbol_visibility_from_u8 :: "u8 \<Rightarrow> symbol_visibility" where
  "symbol_visibility_from_u8 v = (if v = 1 then VisHidden else if v = 2 then VisProtected else VisDefault)"

primrec symbol_visibility_to_u8 :: "symbol_visibility \<Rightarrow> u8" where
  "symbol_visibility_to_u8 VisDefault = 0"
| "symbol_visibility_to_u8 VisHidden = 1"
| "symbol_visibility_to_u8 VisProtected = 2"

record ohlk_symbol =
  os_name_offset :: u64
  os_value :: u64
  os_size :: u64
  os_ty :: u8
  os_binding :: u8
  os_visibility :: u8
  os_section_idx :: u16
  os_reserved :: "u8 list"

definition SYMBOL_SIZE :: nat where "SYMBOL_SIZE = 32"
definition UNDEFINED_SECTION :: u16 where "UNDEFINED_SECTION = 0xFFFF"

definition symbol_to_bytes :: "ohlk_symbol \<Rightarrow> u8 list" where
  "symbol_to_bytes s =
     word_to_le 8 (os_name_offset s) @ word_to_le 8 (os_value s) @ word_to_le 8 (os_size s)
     @ [os_ty s, os_binding s, os_visibility s] @ word_to_le 2 (os_section_idx s) @ replicate 3 0"

text \<open>\<open>copy_from_slice\<close> panics unless both slices have the same length; the array has 21 bytes.\<close>

definition symbol_from_bytes :: "u8 list \<Rightarrow> ohlk_symbol fres" where
  "symbol_from_bytes bs =
     (if length bs < SYMBOL_SIZE then FErr BufferTooSmall
      else let tail = take 3 (drop 29 bs) in
      if length tail \<noteq> 21 then FPanic
      else FOk \<lparr>os_name_offset = le_at 8 0 bs, os_value = le_at 8 8 bs, os_size = le_at 8 16 bs, os_ty = bs ! 24, os_binding = bs ! 25,
        os_visibility = bs ! 26, os_section_idx = le_at 2 27 bs, os_reserved = tail\<rparr>)"

section \<open>Relocations\<close>

datatype reloc_type = Abs64 | Call26 | AdrPrelPgHi21 | AddAbsLo12Nc | Ldst64AbsLo12Nc | Ldst32AbsLo12Nc | RelCustom u32

definition reloc_type_from_u32 :: "u32 \<Rightarrow> reloc_type" where
  "reloc_type_from_u32 v =
     (if v = 1 then Abs64 else if v = 2 then Call26 else if v = 3 then AdrPrelPgHi21 else if v = 4 then AddAbsLo12Nc
      else if v = 5 then Ldst64AbsLo12Nc else if v = 6 then Ldst32AbsLo12Nc else RelCustom v)"

primrec reloc_type_to_u32 :: "reloc_type \<Rightarrow> u32" where
  "reloc_type_to_u32 Abs64 = 1"
| "reloc_type_to_u32 Call26 = 2"
| "reloc_type_to_u32 AdrPrelPgHi21 = 3"
| "reloc_type_to_u32 AddAbsLo12Nc = 4"
| "reloc_type_to_u32 Ldst64AbsLo12Nc = 5"
| "reloc_type_to_u32 Ldst32AbsLo12Nc = 6"
| "reloc_type_to_u32 (RelCustom v) = v"

record ohlk_reloc =
  or_offset :: u64
  or_ty :: u32
  or_symbol_idx :: u32
  or_bit_size :: u8
  or_reserved8 :: u8
  or_reserved16 :: u16
  or_addend :: u64
  or_reserved :: "u8 list"

definition RELOC_SIZE :: nat where "RELOC_SIZE = 32"

definition reloc_to_bytes :: "ohlk_reloc \<Rightarrow> u8 list" where
  "reloc_to_bytes r =
     word_to_le 8 (or_offset r) @ word_to_le 4 (or_ty r) @ word_to_le 4 (or_symbol_idx r) @ [or_bit_size r, or_reserved8 r]
     @ word_to_le 2 (or_reserved16 r) @ word_to_le 8 (or_addend r) @ replicate 4 0"

definition reloc_from_bytes :: "u8 list \<Rightarrow> ohlk_reloc fres" where
  "reloc_from_bytes bs =
     (if length bs < RELOC_SIZE then FErr BufferTooSmall
      else FOk \<lparr>or_offset = le_at 8 0 bs, or_ty = le_at 4 8 bs, or_symbol_idx = le_at 4 12 bs, or_bit_size = bs ! 16,
        or_reserved8 = bs ! 17, or_reserved16 = le_at 2 18 bs, or_addend = le_at 8 20 bs, or_reserved = take 4 (drop 28 bs)\<rparr>)"

section \<open>Checksum\<close>

definition CRC32_TABLE :: "u32 list" where
  "CRC32_TABLE =
    [0x00000000, 0x77073096, 0xEE0E612C, 0x990951BA, 0x076DC419, 0x706AF48F, 0xE963A535, 0x9E6495A3,
     0x0EDB8832, 0x79DCB8A4, 0xE0D5E91E, 0x97D2D988, 0x09B64C2B, 0x7EB17CBD, 0xE7B82D07, 0x90BF1D91,
     0x1DB71064, 0x6AB020F2, 0xF3B97148, 0x84BE41DE, 0x1ADAD47D, 0x6DDDE4EB, 0xF4D4B551, 0x83D385C7,
     0x136C9856, 0x646BA8C0, 0xFD62F97A, 0x8A65C9EC, 0x14015C4F, 0x63066CD9, 0xFA0F3D63, 0x8D080DF5,
     0x3B6E20C8, 0x4C69105E, 0xD56041E4, 0xA2677172, 0x3C03E4D1, 0x4B04D447, 0xD20D85FD, 0xA50AB56B,
     0x35B5A8FA, 0x42B2986C, 0xDBBBC9D6, 0xACBCF940, 0x32D86CE3, 0x45DF5C75, 0xDCD60DCF, 0xABD13D59,
     0x26D930AC, 0x51DE003A, 0xC8D75180, 0xBFD06116, 0x21B4F4B5, 0x56B3C423, 0xCFBA9599, 0xB8BDA50F,
     0x2802B89E, 0x5F058808, 0xC60CD9B2, 0xB10BE924, 0x2F6F7C87, 0x58684C11, 0xC1611DAB, 0xB6662D3D,
     0x76DC4190, 0x01DB7106, 0x98D220BC, 0xEFD5102A, 0x71B18589, 0x06B6B51F, 0x9FBFE4A5, 0xE8B8D433,
     0x7807C9A2, 0x0F00F934, 0x9609A88E, 0xE10E9818, 0x7F6A0DBB, 0x086D3D2D, 0x91646C97, 0xE6635C01,
     0x6B6B51F4, 0x1C6C6162, 0x856530D8, 0xF262004E, 0x6C0695ED, 0x1B01A57B, 0x8208F4C1, 0xF50FC457,
     0x65B0D9C6, 0x12B7E950, 0x8BBEB8EA, 0xFCB9887C, 0x62DD1DDF, 0x15DA2D49, 0x8CD37CF3, 0xFBD44C65,
     0x4DB26158, 0x3AB551CE, 0xA3BC0074, 0xD4BB30E2, 0x4ADFA541, 0x3DD895D7, 0xA4D1C46D, 0xD3D6F4FB,
     0x4369E96A, 0x346ED9FC, 0xAD678846, 0xDA60B8D0, 0x44042D73, 0x33031DE5, 0xAA0A4C5F, 0xDD0D7CC9,
     0x5005713C, 0x270241AA, 0xBE0B1010, 0xC90C2086, 0x5768B525, 0x206F85B3, 0xB966D409, 0xCE61E49F,
     0x5EDEF90E, 0x29D9C998, 0xB0D09822, 0xC7D7A8B4, 0x59B33D17, 0x2EB40D81, 0xB7BD5C3B, 0xC0BA6CAD,
     0xEDB88320, 0x9ABFB3B6, 0x03B6E20C, 0x74B1D29A, 0xEAD54739, 0x9DD277AF, 0x04DB2615, 0x73DC1683,
     0xE3630B12, 0x94643B84, 0x0D6D6A3E, 0x7A6A5AA8, 0xE40ECF0B, 0x9309FF9D, 0x0A00AE27, 0x7D079EB1,
     0xF00F9344, 0x8708A3D2, 0x1E01F268, 0x6906C2FE, 0xF762575D, 0x806567CB, 0x196C3671, 0x6E6B06E7,
     0xFED41B76, 0x89D32BE0, 0x10DA7A5A, 0x67DD4ACC, 0xF9B9DF6F, 0x8EBEEFF9, 0x17B7BE43, 0x60B08ED5,
     0xD6D6A3E8, 0xA1D1937E, 0x38D8C2C4, 0x4FDFF252, 0xD1BB67F1, 0xA6BC5767, 0x3FB506DD, 0x48B2364B,
     0xD80D2BDA, 0xAF0A1B4C, 0x36034AF6, 0x41047A60, 0xDF60EFC3, 0xA867DF55, 0x316E8EEF, 0x4669BE79,
     0xCB61B38C, 0xBC66831A, 0x256FD2A0, 0x5268E236, 0xCC0C7795, 0xBB0B4703, 0x220216B9, 0x5505262F,
     0xC5BA3BBE, 0xB2BD0B28, 0x2BB45A92, 0x5CB36A04, 0xC2D7FFA7, 0xB5D0CF31, 0x2CD99E8B, 0x5BDEAE1D,
     0x9B64C2B0, 0xEC63F226, 0x756AA39C, 0x026D930A, 0x9C0906A9, 0xEB0E363F, 0x72076785, 0x05005713,
     0x95BF4A82, 0xE2B87A14, 0x7BB12BAE, 0x0CB61B38, 0x92D28E9B, 0xE5D5BE0D, 0x7CDCEFB7, 0x0BDBDF21,
     0x86D3D2D4, 0xF1D4E242, 0x68DDB3F8, 0x1FDA836E, 0x81BE16CD, 0xF6B9265B, 0x6FB077E1, 0x18B74777,
     0x88085AE6, 0xFF0F6A70, 0x66063BCA, 0x11010B5C, 0x8F659EFF, 0xF862AE69, 0x616BFFD3, 0x166CCF45,
     0xA00AE278, 0xD70DD2EE, 0x4E048354, 0x3903B3C2, 0xA7672661, 0xD06016F7, 0x4969474D, 0x3E6E77DB,
     0xAED16A4A, 0xD9D65ADC, 0x40DF0B66, 0x37D83BF0, 0xA9BCAE53, 0xDEBB9EC5, 0x47B2CF7F, 0x30B5FFE9,
     0xBDBDF21C, 0xCABAC28A, 0x53B39330, 0x24B4A3A6, 0xBAD03605, 0xCDD70693, 0x54DE5729, 0x23D967BF,
     0xB3667A2E, 0xC4614AB8, 0x5D681B02, 0x2A6F2B94, 0xB40BBE37, 0xC30C8EA1, 0x5A05DF1B, 0x2D02EF8D]"

definition crc_step :: "u32 \<Rightarrow> u8 \<Rightarrow> u32" where
  "crc_step crc b = drop_bit 8 crc XOR CRC32_TABLE ! unat ((crc XOR ucast b) AND 0xFF)"

definition crc32_ieee :: "u8 list \<Rightarrow> u32" where
  "crc32_ieee bs = NOT (foldl crc_step 0xFFFFFFFF bs)"

section \<open>Builder\<close>

record ohlk_builder =
  ob_header :: ohlk_header
  ob_entries :: "ohlk_entry list"
  ob_sections :: "u8 list list"

definition builder_new :: "u8 \<Rightarrow> u16 \<Rightarrow> u32 \<Rightarrow> u64 \<Rightarrow> ohlk_builder" where
  "builder_new arch file_type flags entry_point =
     \<lparr>ob_header = \<lparr>oh_magic = OHLK_MAGIC, oh_version_major = 1, oh_version_minor = 1, oh_endian = 0, oh_arch = arch,
        oh_file_type = file_type, oh_header_count = 0, oh_header_offset = HEADER_OFFSET, oh_data_offset = 0, oh_file_size = 0,
        oh_checksum = 0, oh_flags = flags, oh_entry_point = entry_point, oh_reserved = replicate 18 0\<rparr>,
      ob_entries = [], ob_sections = []\<rparr>"

definition add_segment :: "u32 \<Rightarrow> u32 \<Rightarrow> u8 list \<Rightarrow> u64 \<Rightarrow> u64 \<Rightarrow> u64 \<Rightarrow> ohlk_builder \<Rightarrow> u16 \<times> ohlk_builder" where
  "add_segment ty flags data mem_size va alignment b =
     (let e = \<lparr>oe_ty = ty, oe_flags = flags, oe_file_offset = 0, oe_virtual_address = va, oe_file_size = word_of_nat (length data),
            oe_mem_size = mem_size, oe_alignment = alignment, oe_link = 0, oe_info = 0, oe_name_offset = 0\<rparr>
      in (word_of_nat (length (ob_entries b)),
          b\<lparr>ob_entries := ob_entries b @ [e], ob_sections := ob_sections b @ [data],
            ob_header := (ob_header b)\<lparr>oh_header_count := word_of_nat (length (ob_entries b) + 1)\<rparr>\<rparr>))"

definition align_offset :: "u64 \<Rightarrow> u64 \<Rightarrow> u64" where
  "align_offset cur a = (let al = (if 0 < a then a else 16) in (cur + al - 1) AND NOT (al - 1))"

text \<open>The loop over the segments: pad, record the offset, append the bytes.\<close>

fun layout_loop :: "ohlk_entry list \<Rightarrow> u8 list list \<Rightarrow> u64 \<Rightarrow> u8 list \<Rightarrow> ohlk_entry list \<times> u8 list" where
  "layout_loop (e # es) (d # ds) cur buf =
     (let off = align_offset cur (oe_alignment e);
          buf1 = (if cur < off then buf @ replicate (unat (off - cur)) 0 else buf);
          (es', buf') = layout_loop es ds (off + word_of_nat (length d)) (buf1 @ d)
      in (e\<lparr>oe_file_offset := off\<rparr> # es', buf'))"
| "layout_loop es ds cur buf = (es, buf)"

fun write_entries_at :: "nat \<Rightarrow> ohlk_entry list \<Rightarrow> u8 list \<Rightarrow> u8 list" where
  "write_entries_at off [] buf = buf"
| "write_entries_at off (e # es) buf = write_entries_at (off + ENTRY_SIZE) es (put_at off (entry_to_bytes e) buf)"

definition builder_build :: "ohlk_builder \<Rightarrow> u8 list fres" where
  "builder_build b =
     (let data_start = HEADER_SIZE + length (ob_entries b) * ENTRY_SIZE;
          h1 = (ob_header b)\<lparr>oh_data_offset := word_of_nat data_start\<rparr>;
          (es, buf) = layout_loop (ob_entries b) (ob_sections b) (word_of_nat data_start) (replicate data_start 0);
          h2 = h1\<lparr>oh_file_size := word_of_nat (length buf)\<rparr>;
          buf2 = write_entries_at HEADER_SIZE es (put_at 0 (header_to_bytes h2) buf);
          buf3 = put_at 30 [0, 0, 0, 0] buf2
      in FOk (put_at 30 (word_to_le 4 (crc32_ieee buf3)) buf3))"

section \<open>Parser\<close>

record ohlk_parser =
  op_data :: "u8 list"
  op_header :: ohlk_header

definition masked_crc :: "nat \<Rightarrow> u8 list \<Rightarrow> u32" where
  "masked_crc limit data =
     NOT (foldl (\<lambda>crc i. crc_step crc (if 30 \<le> i \<and> i < 34 then 0 else data ! i)) 0xFFFFFFFF [0..<min limit (length data)])"

definition parser_new :: "u8 list \<Rightarrow> ohlk_parser fres" where
  "parser_new data =
     (if length data < HEADER_SIZE then FErr BufferTooSmall
      else case header_from_bytes data of
        FOk h \<Rightarrow>
          (if length data < unat (oh_file_size h) then FErr BufferTooSmall
           else let calc = (if 32 \<le> length data then masked_crc (unat (oh_file_size h)) data else 0) in
           if oh_checksum h \<noteq> calc then FErr (ChecksumMismatch (oh_checksum h) calc)
           else FOk \<lparr>op_data = data, op_header = h\<rparr>)
      | FErr e \<Rightarrow> FErr e
      | FPanic \<Rightarrow> FPanic)"

definition get_entry :: "u16 \<Rightarrow> ohlk_parser \<Rightarrow> ohlk_entry fres" where
  "get_entry index p =
     (if oh_header_count (op_header p) \<le> index then FErr InvalidEntryIndex
      else let start = unat (oh_header_offset (op_header p)) + unat index * ENTRY_SIZE in
      if length (op_data p) < start + ENTRY_SIZE then FErr BufferTooSmall
      else entry_from_bytes (take ENTRY_SIZE (drop start (op_data p))))"

definition get_segment_data :: "ohlk_entry \<Rightarrow> ohlk_parser \<Rightarrow> u8 list fres" where
  "get_segment_data e p =
     (let start = oe_file_offset e; fin = start + oe_file_size e in
      if length (op_data p) < unat fin then FErr BufferTooSmall
      else if fin < start then FPanic
      else FOk (take (unat (oe_file_size e)) (drop (unat start) (op_data p))))"

text \<open>The iterator ends at the first entry that cannot be read.\<close>

fun entries_from :: "nat \<Rightarrow> u16 \<Rightarrow> ohlk_parser \<Rightarrow> ohlk_entry list" where
  "entries_from 0 cur p = []"
| "entries_from (Suc n) cur p =
     (if cur < oh_header_count (op_header p) then
        (case get_entry cur p of
           FOk e \<Rightarrow> e # entries_from n (cur + 1) p
         | _ \<Rightarrow> [])
      else [])"

definition parser_entries :: "ohlk_parser \<Rightarrow> ohlk_entry list" where
  "parser_entries p = entries_from (unat (oh_header_count (op_header p))) 0 p"

section \<open>Slices\<close>

lemma put_at_length [simp]: "off + length bs \<le> length buf \<Longrightarrow> length (put_at off bs buf) = length buf"
  by (simp add: put_at_def)

lemma slice_put_same: "off + length bs \<le> length buf \<Longrightarrow> take (length bs) (drop off (put_at off bs buf)) = bs"
  by (simp add: put_at_def)

lemma slice_put_other:
  assumes "j + k \<le> off \<or> off + length bs \<le> j" "off + length bs \<le> length buf"
  shows "take k (drop j (put_at off bs buf)) = take k (drop j buf)"
  using assms(1)
proof
  assume "j + k \<le> off"
  then show ?thesis using assms(2) by (simp add: put_at_def take_drop min_def)
next
  assume "off + length bs \<le> j"
  then show ?thesis using assms(2) by (simp add: put_at_def)
qed

lemma le_at_append [simp]:
  "length xs \<le> off \<Longrightarrow> le_at k off (xs @ ys) = le_at k (off - length xs) ys"
  "k = length xs \<Longrightarrow> le_at k 0 (xs @ ys) = word_of_le xs"
  by (simp_all add: le_at_def)

lemma le_at_Cons [simp]: "0 < off \<Longrightarrow> le_at k off (x # xs) = le_at k (off - 1) xs"
  by (cases off) (simp_all add: le_at_def)

lemma le_at_exact: "k = length xs \<Longrightarrow> le_at k 0 xs = word_of_le xs"
  by (simp add: le_at_def)

lemma header_length: "length (oh_reserved h) = 18 \<Longrightarrow> length (header_to_bytes h) = HEADER_SIZE"
  by (simp add: header_to_bytes_def HEADER_SIZE_def)

lemma entry_length [simp]: "length (entry_to_bytes e) = ENTRY_SIZE"
  by (simp add: entry_to_bytes_def ENTRY_SIZE_def)

section \<open>Round trips of the records\<close>

lemma header_roundtrip:
  assumes "oh_magic h = OHLK_MAGIC" "oh_version_major h = 1" "length (oh_reserved h) = 18"
  shows "header_from_bytes (header_to_bytes h @ rest) = FOk h"
proof -
  have "HEADER_SIZE \<le> length (header_to_bytes h @ rest)" using header_length [OF assms(3)] by simp
  moreover have "le_at 4 0 (header_to_bytes h @ rest) = OHLK_MAGIC" "le_at 2 4 (header_to_bytes h @ rest) = (1 :: u16)"
    using assms(1,2) by (simp_all add: header_to_bytes_def word_of_le_to_le)
  ultimately show ?thesis
    using assms(1,2,3) by (cases h) (simp add: header_from_bytes_def, simp add: header_to_bytes_def word_of_le_to_le nth_append)
qed

lemma entry_roundtrip: "entry_from_bytes (entry_to_bytes e) = FOk e"
  by (cases e) (simp add: entry_from_bytes_def, simp add: entry_to_bytes_def word_of_le_to_le le_at_exact)

lemma reloc_roundtrip: "reloc_from_bytes (reloc_to_bytes r) = FOk (r\<lparr>or_reserved := replicate 4 0\<rparr>)"
  by (cases r) (simp add: reloc_from_bytes_def reloc_to_bytes_def RELOC_SIZE_def word_of_le_to_le nth_append)

lemma segment_type_roundtrip: "segment_type_to_u32 (segment_type_from_u32 v) = v"
  by (simp add: segment_type_from_u32_def)

lemma reloc_type_roundtrip: "reloc_type_to_u32 (reloc_type_from_u32 v) = v"
  by (simp add: reloc_type_from_u32_def)

section \<open>Layout of the segments\<close>

text \<open>The alignments the layout handles: none, or a power of two up to four gigabytes.\<close>

definition alignment_ok :: "u64 \<Rightarrow> bool" where
  "alignment_ok a \<longleftrightarrow> a = 0 \<or> (\<exists>k\<le>32. a = 2 ^ k)"

lemma unat_and_not_mask: "unat ((x :: u64) AND NOT (mask k)) = unat x - unat x mod 2 ^ k"
proof -
  have "(x AND NOT (mask k)) + take_bit k x = x"
    by (simp add: take_bit_eq_mask) (simp add: bit_eq_iff bit_simps disjunctive_add, blast)
  then have eq: "x AND NOT (mask k) = x - take_bit k x" by (simp add: algebra_simps)
  have u: "unat (take_bit k x) = unat x mod 2 ^ k" by (simp only: unsigned_take_bit_eq) (simp add: take_bit_eq_mod)
  show ?thesis unfolding eq by (subst unat_sub) (simp_all add: word_le_nat_alt u)
qed

lemma align_offset_bounds:
  assumes "alignment_ok a" "unat cur + 2 ^ 33 < 2 ^ 64"
  shows "unat cur \<le> unat (align_offset cur a) \<and> unat (align_offset cur a) \<le> unat cur + 2 ^ 32
    \<and> unat (if 0 < a then a else 16) dvd unat (align_offset cur a)"
proof -
  obtain k where k: "k \<le> 32" "(if 0 < a then a else 16) = 2 ^ k"
  proof (cases "a = 0")
    case True
    then show ?thesis using that [of 4] by simp
  next
    case False
    then show ?thesis using assms(1) that by (auto simp: alignment_ok_def word_gt_0)
  qed
  have p: "(2::nat) ^ k \<le> 2 ^ 32" using k(1) by (intro power_increasing) auto
  have "(2::nat) ^ k < 2 ^ 64" using p by simp
  then have "unat (word_of_nat (2 ^ k) :: u64) = 2 ^ k" by (simp only: unat_of_nat) simp
  then have u2: "unat (2 ^ k :: u64) = 2 ^ k" by simp
  have "unat (cur + 2 ^ k) = unat cur + 2 ^ k" using assms(2) p u2 by (subst unat_add_no_wrap) auto
  moreover have "1 \<le> unat cur + 2 ^ k" by (simp add: Suc_le_eq)
  then have "1 \<le> cur + 2 ^ k" using calculation by (simp add: word_le_nat_alt)
  ultimately have s: "unat (cur + 2 ^ k - 1) = unat cur + 2 ^ k - 1" by (subst unat_sub) simp_all
  have "align_offset cur a = (cur + 2 ^ k - 1) AND NOT (mask k)"
    unfolding align_offset_def Let_def k(2) by (simp add: mask_eq_exp_minus_1)
  then have u: "unat (align_offset cur a) = unat cur + 2 ^ k - 1 - (unat cur + 2 ^ k - 1) mod 2 ^ k"
    by (simp add: unat_and_not_mask s)
  have m: "(unat cur + 2 ^ k - 1) mod 2 ^ k < 2 ^ k" by simp
  have "2 ^ k dvd unat (align_offset cur a)" unfolding u by (simp add: minus_mod_eq_mult_div)
  then show ?thesis using u m p unfolding k(2) u2 by linarith
qed

text \<open>What one run of the loop guarantees for every segment.\<close>

definition placed :: "u8 list \<Rightarrow> u8 list \<Rightarrow> ohlk_entry \<Rightarrow> ohlk_entry \<Rightarrow> u8 list \<Rightarrow> bool" where
  "placed old new e e' d \<longleftrightarrow> e' = e\<lparr>oe_file_offset := oe_file_offset e'\<rparr> \<and> length old \<le> unat (oe_file_offset e')
     \<and> unat (oe_file_offset e') + length d \<le> length new
     \<and> take (length d) (drop (unat (oe_file_offset e')) new) = d
     \<and> unat (if 0 < oe_alignment e then oe_alignment e else 16) dvd unat (oe_file_offset e')"

lemma placed_mono: "placed (old @ x) new e e' d \<Longrightarrow> placed old new e e' d"
  by (auto simp: placed_def)

lemma layout_placed:
  assumes "list_all2 (\<lambda>e d. alignment_ok (oe_alignment e) \<and> length d \<le> 2 ^ 32) es ds"
    and "unat cur = length buf" "length buf + length es * 2 ^ 34 + 2 ^ 34 < 2 ^ 64" "layout_loop es ds cur buf = (es', buf')"
  shows "length es' = length es \<and> take (length buf) buf' = buf \<and> length buf \<le> length buf'
    \<and> length buf' \<le> length buf + length es * 2 ^ 34
    \<and> (\<forall>i<length es. placed buf buf' (es ! i) (es' ! i) (ds ! i))"
  using assms
proof (induction es ds arbitrary: cur buf es' buf' rule: list_all2_induct)
  case Nil
  then show ?case by simp
next
  case (Cons e es d ds)
  let ?off = "align_offset cur (oe_alignment e)"
  let ?buf1 = "buf @ replicate (unat ?off - unat cur) 0"
  let ?cur = "?off + word_of_nat (length d)"
  have al: "alignment_ok (oe_alignment e)" and ld: "length d \<le> 2 ^ 32" using Cons.hyps by auto
  have "unat cur + 2 ^ 33 < 2 ^ 64" using Cons.prems(1,2) by simp
  note b = align_offset_bounds [OF al this]
  have "(if cur < ?off then buf @ replicate (unat (?off - cur)) 0 else buf) = ?buf1"
    using b by (auto simp: word_less_nat_alt unat_sub word_le_nat_alt)
  moreover obtain es2 where l: "layout_loop es ds ?cur (?buf1 @ d) = (es2, buf')" "es' = e\<lparr>oe_file_offset := ?off\<rparr> # es2"
    using Cons.prems(3) calculation by (auto simp: Let_def split: prod.splits)
  have o1: "length ?buf1 = unat ?off" using b Cons.prems(1) by simp
  have ud: "unat (word_of_nat (length d) :: u64) = length d" using ld by (simp add: unat_of_nat)
  have c: "unat ?cur = length (?buf1 @ d)"
    using ud o1 b ld Cons.prems(1,2) by (subst unat_add_no_wrap) auto
  have len: "length (?buf1 @ d) + length es * 2 ^ 34 + 2 ^ 34 < 2 ^ 64" "length (?buf1 @ d) \<le> length buf + 2 ^ 34"
    using o1 b ld Cons.prems(1,2) by auto
  note IH = Cons.IH [OF c len(1) l(1)]
  have tk: "take (length (?buf1 @ d)) buf' = ?buf1 @ d" and le: "length (?buf1 @ d) \<le> length buf'" using IH by auto
  have "take (length buf) buf' = take (length buf) (take (length (?buf1 @ d)) buf')" by simp
  then have t1: "take (length buf) buf' = buf" unfolding tk by simp
  have lb: "length (?buf1 @ d) = length d + unat ?off" using o1 by (simp only: length_append)
  have "take (length d) (drop (unat ?off) buf') = drop (unat ?off) (take (length (?buf1 @ d)) buf')"
    unfolding lb by (rule take_drop)
  then have dd: "take (length d) (drop (unat ?off) buf') = d" unfolding tk using o1 by simp
  have p0: "placed buf buf' e (e\<lparr>oe_file_offset := ?off\<rparr>) d"
    using dd b o1 le Cons.prems(1) by (simp add: placed_def)
  have ps: "placed buf buf' (es ! i) (es2 ! i) (ds ! i)" if "i < length es" for i
    using IH that placed_mono [of buf] by (metis append.assoc)
  have "placed buf buf' ((e # es) ! i) (es' ! i) ((d # ds) ! i)" if "i < length (e # es)" for i
    using that p0 ps unfolding l(2) by (cases i) auto
  then show ?case using IH t1 le len(2) l(2) by auto
qed

section \<open>Building and parsing a file\<close>

lemma write_entries_at_length:
  "off + length es * ENTRY_SIZE \<le> length buf \<Longrightarrow> length (write_entries_at off es buf) = length buf"
  by (induction off es buf rule: write_entries_at.induct) auto

lemma write_entries_at_other:
  assumes "j + k \<le> off \<or> off + length es * ENTRY_SIZE \<le> j" "off + length es * ENTRY_SIZE \<le> length buf"
  shows "take k (drop j (write_entries_at off es buf)) = take k (drop j buf)"
  using assms
proof (induction off es buf rule: write_entries_at.induct)
  case (2 off e es buf)
  have "take k (drop j (write_entries_at (off + ENTRY_SIZE) es (put_at off (entry_to_bytes e) buf)))
      = take k (drop j (put_at off (entry_to_bytes e) buf))"
    using 2 by auto
  then show ?case using 2(2,3) slice_put_other [of j k off "entry_to_bytes e" buf] by auto
qed simp

lemma write_entries_at_nth:
  assumes "off + length es * ENTRY_SIZE \<le> length buf" "i < length es"
  shows "take ENTRY_SIZE (drop (off + i * ENTRY_SIZE) (write_entries_at off es buf)) = entry_to_bytes (es ! i)"
  using assms
proof (induction off es buf arbitrary: i rule: write_entries_at.induct)
  case (2 off e es buf)
  show ?case
  proof (cases i)
    case 0
    have "take ENTRY_SIZE (drop off (write_entries_at (off + ENTRY_SIZE) es (put_at off (entry_to_bytes e) buf)))
        = take ENTRY_SIZE (drop off (put_at off (entry_to_bytes e) buf))"
      using 2(2) by (intro write_entries_at_other) auto
    also have "\<dots> = entry_to_bytes e" using slice_put_same [of off "entry_to_bytes e" buf] 2(2) by auto
    finally show ?thesis by (simp add: 0)
  next
    case (Suc j)
    then show ?thesis using 2(1) [of j] 2(2,3) by (simp add: add.assoc)
  qed
qed simp

text \<open>The four bytes of the checksum inside a header.\<close>

lemma header_patch:
  assumes "length (oh_reserved h) = 18"
  shows "put_at 30 (word_to_le 4 c) (header_to_bytes h @ rest) = header_to_bytes (h\<lparr>oh_checksum := c\<rparr>) @ rest"
  using assms by (simp add: put_at_def header_to_bytes_def)

lemma zero_le: "word_to_le 4 (0 :: u32) = [0, 0, 0, 0]"
proof -
  have "(4 :: nat) = Suc (Suc (Suc (Suc 0)))" by simp
  then show ?thesis by (simp only: word_to_le_def to_le.simps) simp
qed

lemma masked_crc_eq:
  assumes "34 \<le> length data" "length data \<le> limit"
  shows "masked_crc limit data = crc32_ieee (put_at 30 [0, 0, 0, 0] data)"
proof -
  let ?f = "\<lambda>i. if 30 \<le> i \<and> i < 34 then 0 else data ! i"
  have m: "map ?f [0..<length data] = put_at 30 [0, 0, 0, 0] data"
  proof (rule nth_equalityI)
    fix i assume "i < length (map ?f [0..<length data])"
    then have i: "i < length data" by simp
    have "j < 4 \<Longrightarrow> (0 # 0 # 0 # 0 # xs) ! j = (0 :: u8)" for j xs by (auto simp: nth_Cons' )
    from this [of "i - 30"] show "map ?f [0..<length data] ! i = put_at 30 [0, 0, 0, 0] data ! i"
      using i assms(1) by (auto simp: put_at_def nth_append)
  qed (use assms in simp)
  have "foldl (\<lambda>crc i. crc_step crc (?f i)) a js = foldl crc_step a (map ?f js)" for a js
    by (induction js arbitrary: a) auto
  then show ?thesis using assms(2) m by (simp add: masked_crc_def crc32_ieee_def min_def)
qed

text \<open>The builder after \<open>add_segment\<close> for every element of a list of segments.\<close>

record segment =
  sg_ty :: u32
  sg_flags :: u32
  sg_data :: "u8 list"
  sg_mem_size :: u64
  sg_va :: u64
  sg_alignment :: u64

definition add_segments :: "segment list \<Rightarrow> ohlk_builder \<Rightarrow> ohlk_builder" where
  "add_segments gs b = foldl (\<lambda>b g. snd (add_segment (sg_ty g) (sg_flags g) (sg_data g) (sg_mem_size g) (sg_va g) (sg_alignment g) b)) b gs"

definition segment_entry :: "segment \<Rightarrow> ohlk_entry" where
  "segment_entry g = \<lparr>oe_ty = sg_ty g, oe_flags = sg_flags g, oe_file_offset = 0, oe_virtual_address = sg_va g,
     oe_file_size = word_of_nat (length (sg_data g)), oe_mem_size = sg_mem_size g, oe_alignment = sg_alignment g,
     oe_link = 0, oe_info = 0, oe_name_offset = 0\<rparr>"

lemma add_segments_eq:
  "ob_entries (add_segments gs b) = ob_entries b @ map segment_entry gs
   \<and> ob_sections (add_segments gs b) = ob_sections b @ map sg_data gs
   \<and> ob_header (add_segments gs b) = (if gs = [] then ob_header b else (ob_header b)\<lparr>oh_header_count := word_of_nat (length (ob_entries b) + length gs)\<rparr>)"
  by (induction gs arbitrary: b) (auto simp: add_segments_def add_segment_def Let_def segment_entry_def)

definition segments_fit :: "segment list \<Rightarrow> bool" where
  "segments_fit gs \<longleftrightarrow> length gs < 2 ^ 16 \<and> (\<forall>g\<in>set gs. alignment_ok (sg_alignment g) \<and> length (sg_data g) \<le> 2 ^ 32)"

lemma unat_small: "m < 2 ^ 32 \<Longrightarrow> unat (word_of_nat m :: u64) = m"
  by (simp add: unat_of_nat)

lemma build_spec:
  assumes fit: "segments_fit gs" and b: "builder_build (add_segments gs (builder_new arch ft fl ep)) = FOk file"
  obtains h es where "parser_new file = FOk \<lparr>op_data = file, op_header = h\<rparr>" "oh_header_count h = word_of_nat (length gs)"
    "oh_header_offset h = HEADER_OFFSET" "oh_arch h = arch" "oh_file_type h = ft" "oh_flags h = fl" "oh_entry_point h = ep"
    "oh_file_size h = word_of_nat (length file)"
    "length es = length gs" "HEADER_SIZE + length gs * ENTRY_SIZE \<le> length file"
    "\<And>i. i < length gs \<Longrightarrow> take ENTRY_SIZE (drop (HEADER_SIZE + i * ENTRY_SIZE) file) = entry_to_bytes (es ! i)"
    "\<And>i. i < length gs \<Longrightarrow> placed (replicate (HEADER_SIZE + length gs * ENTRY_SIZE) 0) file (segment_entry (gs ! i)) (es ! i) (sg_data (gs ! i))"
    "length file < 2 ^ 63"
proof -
  let ?b = "add_segments gs (builder_new arch ft fl ep)"
  let ?n = "HEADER_SIZE + length gs * ENTRY_SIZE"
  have ents: "ob_entries ?b = map segment_entry gs" "ob_sections ?b = map sg_data gs"
    and hdr: "ob_header ?b = (ob_header (builder_new arch ft fl ep))\<lparr>oh_header_count := word_of_nat (length gs)\<rparr>"
    using add_segments_eq [of gs "builder_new arch ft fl ep"] by (auto simp: builder_new_def)
  have n: "?n < 2 ^ 32" "length gs < 2 ^ 16" using fit by (auto simp: segments_fit_def HEADER_SIZE_def ENTRY_SIZE_def)
  obtain es buf where l: "layout_loop (map segment_entry gs) (map sg_data gs) (word_of_nat ?n) (replicate ?n 0) = (es, buf)"
    by (metis prod.exhaust)
  have al: "list_all2 (\<lambda>e d. alignment_ok (oe_alignment e) \<and> length d \<le> 2 ^ 32) (map segment_entry gs) (map sg_data gs)"
    using fit by (auto simp: segments_fit_def list_all2_conv_all_nth segment_entry_def)
  have un: "unat (word_of_nat ?n :: u64) = length (replicate ?n (0 :: u8))" using unat_small [of ?n] n(1) by (simp only: length_replicate)
  have "length (replicate ?n (0 :: u8)) + length (map segment_entry gs) * 2 ^ 34 + 2 ^ 34 < 2 ^ 64" using n by simp
  note lay = layout_placed [OF al un this l]
  have lb: "?n \<le> length buf" "length buf < 2 ^ 63" using lay n by auto
  define h where "h = (ob_header (builder_new arch ft fl ep))\<lparr>oh_header_count := word_of_nat (length gs), oh_data_offset := word_of_nat ?n, oh_file_size := word_of_nat (length buf)\<rparr>"
  have hr: "length (oh_reserved h) = 18" "oh_checksum h = 0" by (simp_all add: h_def builder_new_def)
  define buf1 where "buf1 = put_at 0 (header_to_bytes h) buf"
  define buf2 where "buf2 = write_entries_at HEADER_SIZE es buf1"
  have hl: "length (header_to_bytes h) = HEADER_SIZE" by (rule header_length [OF hr(1)])
  have l1: "length buf1 = length buf" using hl lb by (simp add: buf1_def)
  have en: "HEADER_SIZE + length es * ENTRY_SIZE \<le> length buf1" using l1 lb lay by simp
  have l2: "length buf2 = length buf" using write_entries_at_length [OF en] l1 by (simp add: buf2_def)
  have "take HEADER_SIZE (drop 0 buf2) = take HEADER_SIZE (drop 0 buf1)"
    unfolding buf2_def using en by (intro write_entries_at_other) auto
  also have "\<dots> = header_to_bytes h" unfolding buf1_def using hl by (simp add: put_at_def)
  finally have b2: "buf2 = header_to_bytes h @ drop HEADER_SIZE buf2" by (metis append_take_drop_id drop0)
  have z: "put_at 30 [0, 0, 0, 0] buf2 = buf2"
  proof -
    have "put_at 30 [0, 0, 0, 0] (header_to_bytes h @ drop HEADER_SIZE buf2)
        = header_to_bytes (h\<lparr>oh_checksum := 0\<rparr>) @ drop HEADER_SIZE buf2"
      using header_patch [OF hr(1), of 0] by (simp add: zero_le)
    moreover have "h\<lparr>oh_checksum := 0\<rparr> = h" using hr(2) by (cases h) simp
    ultimately show ?thesis using b2 by simp
  qed
  have "builder_build ?b = FOk (put_at 30 (word_to_le 4 (crc32_ieee (put_at 30 [0, 0, 0, 0] buf2))) (put_at 30 [0, 0, 0, 0] buf2))"
    unfolding builder_build_def ents hdr h_def buf1_def buf2_def by (simp only: length_map Let_def l prod.case)
  then have fl_eq: "file = put_at 30 (word_to_le 4 (crc32_ieee buf2)) buf2" using b unfolding z by simp
  let ?h = "h\<lparr>oh_checksum := crc32_ieee buf2\<rparr>"
  have f1: "file = header_to_bytes ?h @ drop HEADER_SIZE buf2" using header_patch [OF hr(1)] b2 fl_eq by metis
  have lf: "length file = length buf" unfolding fl_eq using l2 lb by (simp add: HEADER_SIZE_def)
  have "put_at 30 [0, 0, 0, 0] file = buf2"
  proof -
    have "put_at 30 [0, 0, 0, 0] file = header_to_bytes (?h\<lparr>oh_checksum := 0\<rparr>) @ drop HEADER_SIZE buf2"
      unfolding f1 using header_patch [of ?h 0] hr(1) by (simp add: zero_le)
    moreover have "?h\<lparr>oh_checksum := 0\<rparr> = h" using hr(2) by (cases h) simp
    ultimately show ?thesis using b2 by simp
  qed
  moreover have uf: "unat (oh_file_size ?h) = length file" using lb lf by (simp add: h_def unat_of_nat)
  moreover have "64 \<le> length file" using lf lb by (simp add: HEADER_SIZE_def)
  moreover have "header_from_bytes file = FOk ?h"
    unfolding f1 by (rule header_roundtrip) (simp_all add: h_def builder_new_def)
  ultimately have pn: "parser_new file = FOk \<lparr>op_data = file, op_header = ?h\<rparr>"
    using masked_crc_eq [of "file" "length file"] by (simp add: parser_new_def HEADER_SIZE_def)
  have out: "take k (drop j file) = take k (drop j buf)" if "?n \<le> j" for j k
  proof -
    have "take k (drop j file) = take k (drop j buf2)" unfolding fl_eq using that l2 lb
      by (intro slice_put_other) (auto simp: HEADER_SIZE_def)
    also have "\<dots> = take k (drop j buf1)" unfolding buf2_def using that en lay by (intro write_entries_at_other) auto
    also have "\<dots> = take k (drop j buf)" unfolding buf1_def using that hl lb by (intro slice_put_other) auto
    finally show ?thesis .
  qed
  have ent: "take ENTRY_SIZE (drop (HEADER_SIZE + i * ENTRY_SIZE) file) = entry_to_bytes (es ! i)" if "i < length gs" for i
  proof -
    have "take ENTRY_SIZE (drop (HEADER_SIZE + i * ENTRY_SIZE) file) = take ENTRY_SIZE (drop (HEADER_SIZE + i * ENTRY_SIZE) buf2)"
      unfolding fl_eq using l2 lb by (intro slice_put_other) (auto simp: HEADER_SIZE_def)
    then show ?thesis unfolding buf2_def using write_entries_at_nth [OF en, of i] that lay by simp
  qed
  have pl: "placed (replicate ?n 0) file (segment_entry (gs ! i)) (es ! i) (sg_data (gs ! i))" if "i < length gs" for i
  proof -
    have "placed (replicate ?n 0) buf (map segment_entry gs ! i) (es ! i) (map sg_data gs ! i)" using lay that by simp
    then show ?thesis using that out lf by (simp add: placed_def)
  qed
  show ?thesis
    by (rule that [OF pn _ _ _ _ _ _ _ _ _ ent pl]) (use lay lb lf uf in \<open>auto simp: h_def builder_new_def\<close>)
qed

lemma builder_build_total: "\<exists>f. builder_build b = FOk f"
  unfolding builder_build_def Let_def case_prod_beta by blast

lemma entries_from_eq:
  assumes "\<And>i. i < n \<Longrightarrow> get_entry (word_of_nat (c + i)) p = FOk (f (c + i))"
    and "unat (oh_header_count (op_header p)) = c + n"
  shows "entries_from n (word_of_nat c) p = map f [c..<c + n]"
  using assms
proof (induction n arbitrary: c)
  case (Suc n)
  have "c + Suc n < 2 ^ 16" using Suc.prems(2) unat_bound [of "oh_header_count (op_header p)"] by simp
  then have "word_of_nat c < oh_header_count (op_header p)" using Suc.prems(2) by (simp add: word_less_nat_alt unat_of_nat)
  moreover have "entries_from n (word_of_nat (c + 1)) p = map f [c + 1..<c + 1 + n]"
    using Suc.prems by (intro Suc.IH) (metis Suc_less_eq add_Suc_shift plus_1_eq_Suc add.commute, simp)
  moreover have "get_entry (word_of_nat c) p = FOk (f c)" using Suc.prems(1) [of 0] by simp
  moreover have "[c..<c + Suc n] = c # [c + 1..<c + 1 + n]" by (simp add: upt_conv_Cons del: upt_Suc)
  ultimately show ?case by (simp add: add.commute [of 1] del: upt_Suc)
qed simp

lemma build_parse_spec:
  assumes "segments_fit gs" and f: "builder_build (add_segments gs (builder_new arch ft fl ep)) = FOk f"
  shows "\<exists>p. parser_new f = FOk p
    \<and> oh_arch (op_header p) = arch \<and> oh_file_type (op_header p) = ft \<and> oh_flags (op_header p) = fl \<and> oh_entry_point (op_header p) = ep
    \<and> length (parser_entries p) = length gs
    \<and> (\<forall>i<length gs. let e = parser_entries p ! i in
         get_entry (word_of_nat i) p = FOk e \<and> e = (segment_entry (gs ! i))\<lparr>oe_file_offset := oe_file_offset e\<rparr>
         \<and> get_segment_data e p = FOk (sg_data (gs ! i))
         \<and> unat (if 0 < sg_alignment (gs ! i) then sg_alignment (gs ! i) else 16) dvd unat (oe_file_offset e))"
proof -
  from build_spec [OF assms(1) f] obtain h es where
    p: "parser_new f = FOk \<lparr>op_data = f, op_header = h\<rparr>" "oh_header_count h = word_of_nat (length gs)" "oh_header_offset h = HEADER_OFFSET"
      "oh_arch h = arch" "oh_file_type h = ft" "oh_flags h = fl" "oh_entry_point h = ep"
    and es: "length es = length gs" "HEADER_SIZE + length gs * ENTRY_SIZE \<le> length f"
      "\<And>i. i < length gs \<Longrightarrow> take ENTRY_SIZE (drop (HEADER_SIZE + i * ENTRY_SIZE) f) = entry_to_bytes (es ! i)"
      "\<And>i. i < length gs \<Longrightarrow> placed (replicate (HEADER_SIZE + length gs * ENTRY_SIZE) 0) f (segment_entry (gs ! i)) (es ! i) (sg_data (gs ! i))"
      "length f < 2 ^ 63"
    by metis
  let ?p = "\<lparr>op_data = f, op_header = h\<rparr>"
  have n: "length gs < 2 ^ 16" using assms(1) by (simp add: segments_fit_def)
  have cnt: "unat (oh_header_count h) = length gs" using p(2) n by (simp add: unat_of_nat)
  have ge: "get_entry (word_of_nat i) ?p = FOk (es ! i)" if i: "i < length gs" for i
  proof -
    have "unat (word_of_nat i :: u16) = i" using i n by (simp add: unat_of_nat)
    moreover have "HEADER_SIZE + i * ENTRY_SIZE + ENTRY_SIZE \<le> length f"
      using i es(2) by (auto simp: ENTRY_SIZE_def HEADER_SIZE_def)
    ultimately show ?thesis
      using i cnt es(3) [OF i] p(3) by (simp add: get_entry_def word_le_nat_alt entry_roundtrip HEADER_OFFSET_def HEADER_SIZE_def)
  qed
  have "entries_from (length gs) (word_of_nat 0) ?p = map ((!) es) [0..<0 + length gs]"
    using ge cnt by (intro entries_from_eq) auto
  then have pe: "parser_entries ?p = map ((!) es) [0..<length gs]" using cnt by (simp add: parser_entries_def)
  have gd: "get_segment_data (es ! i) ?p = FOk (sg_data (gs ! i))" if i: "i < length gs" for i
  proof -
    have pl: "placed (replicate (HEADER_SIZE + length gs * ENTRY_SIZE) 0) f (segment_entry (gs ! i)) (es ! i) (sg_data (gs ! i))"
      by (rule es(4) [OF i])
    have "length (sg_data (gs ! i)) \<le> 2 ^ 32" using assms(1) i by (auto simp: segments_fit_def)
    moreover have "oe_file_size (es ! i) = word_of_nat (length (sg_data (gs ! i)))"
      using pl unfolding placed_def by (metis ohlk_entry.select_convs(5) ohlk_entry.update_convs(3) segment_entry_def)
    ultimately have fs: "unat (oe_file_size (es ! i)) = length (sg_data (gs ! i))" by (simp add: unat_of_nat)
    then have u: "unat (oe_file_offset (es ! i) + oe_file_size (es ! i)) = unat (oe_file_offset (es ! i)) + length (sg_data (gs ! i))"
      using pl es(5) by (subst unat_add_no_wrap) (auto simp: placed_def)
    show ?thesis using pl u fs by (simp add: get_segment_data_def Let_def word_less_nat_alt placed_def)
  qed
  have al: "unat (if 0 < sg_alignment (gs ! i) then sg_alignment (gs ! i) else 16) dvd unat (oe_file_offset (es ! i))
      \<and> es ! i = (segment_entry (gs ! i))\<lparr>oe_file_offset := oe_file_offset (es ! i)\<rparr>" if "i < length gs" for i
  proof -
    have "oe_alignment (segment_entry (gs ! i)) = sg_alignment (gs ! i)" by (simp add: segment_entry_def)
    then show ?thesis using es(4) [OF that] by (simp only: placed_def)
  qed
  have "\<forall>i<length gs. let e = parser_entries ?p ! i in
       get_entry (word_of_nat i) ?p = FOk e \<and> e = (segment_entry (gs ! i))\<lparr>oe_file_offset := oe_file_offset e\<rparr>
       \<and> get_segment_data e ?p = FOk (sg_data (gs ! i))
       \<and> unat (if 0 < sg_alignment (gs ! i) then sg_alignment (gs ! i) else 16) dvd unat (oe_file_offset e)"
  proof (intro allI impI)
    fix i assume i: "i < length gs"
    then have "parser_entries ?p ! i = es ! i" by (simp add: pe)
    with i ge [OF i] gd [OF i] al [OF i] show "let e = parser_entries ?p ! i in
       get_entry (word_of_nat i) ?p = FOk e \<and> e = (segment_entry (gs ! i))\<lparr>oe_file_offset := oe_file_offset e\<rparr>
       \<and> get_segment_data e ?p = FOk (sg_data (gs ! i))
       \<and> unat (if 0 < sg_alignment (gs ! i) then sg_alignment (gs ! i) else 16) dvd unat (oe_file_offset e)"
      unfolding Let_def by metis
  qed
  then show ?thesis using p pe by (intro exI [of _ ?p]) simp
qed

text \<open>
  C12. For any list of fewer than 65536 segments with data of at most four gigabytes and power-of-two
  alignments, the file the builder writes is accepted by the parser, checksum included; the header
  carries what the builder was given, and every segment is read back: its entry differs from the one
  added only in the file offset, which is aligned, and its data are the bytes that were added.
\<close>
theorem ohlink_build_parse:
  assumes "segments_fit gs"
  shows "\<exists>f p. builder_build (add_segments gs (builder_new arch ft fl ep)) = FOk f \<and> parser_new f = FOk p
    \<and> oh_arch (op_header p) = arch \<and> oh_file_type (op_header p) = ft \<and> oh_flags (op_header p) = fl \<and> oh_entry_point (op_header p) = ep
    \<and> length (parser_entries p) = length gs
    \<and> (\<forall>i<length gs. let e = parser_entries p ! i in
         get_entry (word_of_nat i) p = FOk e \<and> e = (segment_entry (gs ! i))\<lparr>oe_file_offset := oe_file_offset e\<rparr>
         \<and> get_segment_data e p = FOk (sg_data (gs ! i))
         \<and> unat (if 0 < sg_alignment (gs ! i) then sg_alignment (gs ! i) else 16) dvd unat (oe_file_offset e))"
  using builder_build_total build_parse_spec [OF assms] by metis

definition demo_segments :: "segment list" where
  "demo_segments =
     [\<lparr>sg_ty = 1, sg_flags = 5, sg_data = [0x20, 0, 0x80, 0xD2, 0, 0, 0, 0x14], sg_mem_size = 8, sg_va = 0x40000000, sg_alignment = 16\<rparr>,
      \<lparr>sg_ty = 2, sg_flags = 3, sg_data = [1, 2, 3], sg_mem_size = 4096, sg_va = 0x40100000, sg_alignment = 0\<rparr>]"

theorem ohlink_build_parse_witness:
  "\<exists>f p e. builder_build (add_segments demo_segments (builder_new 1 1 0 0x40000000)) = FOk f \<and> parser_new f = FOk p
     \<and> get_entry 1 p = FOk e \<and> oe_ty e = 2 \<and> get_segment_data e p = FOk [1, 2, 3]"
proof -
  have "alignment_ok 16" "alignment_ok 0" unfolding alignment_ok_def by (auto intro: exI [of _ 4])
  then have fit: "segments_fit demo_segments" by (simp add: segments_fit_def demo_segments_def)
  obtain f p where fp: "builder_build (add_segments demo_segments (builder_new 1 1 0 0x40000000)) = FOk f" "parser_new f = FOk p"
    "\<forall>i<length demo_segments. let e = parser_entries p ! i in
         get_entry (word_of_nat i) p = FOk e \<and> e = (segment_entry (demo_segments ! i))\<lparr>oe_file_offset := oe_file_offset e\<rparr>
         \<and> get_segment_data e p = FOk (sg_data (demo_segments ! i))
         \<and> unat (if 0 < sg_alignment (demo_segments ! i) then sg_alignment (demo_segments ! i) else 16) dvd unat (oe_file_offset e)"
    using ohlink_build_parse [OF fit, of 1 1 0 "0x40000000"] by blast
  have "length demo_segments = 2" "sg_data (demo_segments ! 1) = [1, 2, 3]" "oe_ty (segment_entry (demo_segments ! 1)) = 2"
    by (simp_all add: demo_segments_def segment_entry_def)
  then have "get_entry 1 p = FOk (parser_entries p ! 1)" "oe_ty (parser_entries p ! 1) = 2" "get_segment_data (parser_entries p ! 1) p = FOk [1, 2, 3]"
    using fp(3) [rule_format, of 1] by (auto simp: Let_def dest: arg_cong [of _ _ oe_ty])
  then show ?thesis using fp by blast
qed

end
