(* ===== verification/Ohlink_Crc.thy ===== *)
theory Ohlink_Crc
  imports Ohlink
begin

text \<open>
  The checksum of the executable format: the table-driven routine computes the bitwise division by
  the reversed polynomial of the standard, and the parser rejects every file in which one byte after
  the header was changed.
\<close>

section \<open>The table is the one of the polynomial\<close>

definition crc_bit :: "u32 \<Rightarrow> u32" where
  "crc_bit x = (if bit x 0 then drop_bit 1 x XOR 0xEDB88320 else drop_bit 1 x)"

definition crc_byte :: "u32 \<Rightarrow> u32" where
  "crc_byte x = crc_bit (crc_bit (crc_bit (crc_bit (crc_bit (crc_bit (crc_bit (crc_bit x)))))))"

definition crc32_bitwise :: "u8 list \<Rightarrow> u32" where
  "crc32_bitwise bs = NOT (foldl (\<lambda>crc b. crc_byte (crc XOR ucast b)) 0xFFFFFFFF bs)"

lemma crc_bit_simps:
  "crc_bit 0 = 0" "crc_bit 1 = 0xEDB88320"
  "crc_bit (numeral (Num.Bit0 n)) = drop_bit 1 (numeral (Num.Bit0 n))"
  "crc_bit (numeral (Num.Bit1 n)) = drop_bit 1 (numeral (Num.Bit1 n)) XOR 0xEDB88320"
  by (simp_all add: crc_bit_def bit_0)

lemma crc_bit_xor: "crc_bit (a XOR b) = crc_bit a XOR crc_bit b"
  by (simp add: crc_bit_def bit_xor_iff xor.assoc xor.left_commute xor.commute)

lemma crc_byte_xor: "crc_byte (a XOR b) = crc_byte a XOR crc_byte b"
  by (simp add: crc_byte_def crc_bit_xor)

lemma xor_right_cancel: "(a :: u32) XOR c = b XOR c \<longleftrightarrow> a = b"
proof
  assume "a XOR c = b XOR c"
  then have "(a XOR c) XOR c = (b XOR c) XOR c" by (rule arg_cong)
  then show "a = b" by (simp add: xor.assoc)
qed simp

lemma inj_crc_bit: "inj crc_bit"
proof (rule injI)
  fix x y assume e: "crc_bit x = crc_bit y"
  have top: "bit (crc_bit z) 31 \<longleftrightarrow> bit z 0" for z
  proof -
    have "bit (0xEDB88320 :: u32) 31" "\<not> bit (drop_bit 1 z) 31" by (auto simp: bit_simps dest: bit_imp_le_length)
    then show ?thesis by (simp add: crc_bit_def bit_xor_iff)
  qed
  have b0: "bit x 0 \<longleftrightarrow> bit y 0" using top [of x] top [of y] e by simp
  have d: "drop_bit 1 x = drop_bit 1 y"
  proof (cases "bit x 0")
    case True
    then have "drop_bit 1 x XOR 0xEDB88320 = drop_bit 1 y XOR 0xEDB88320" using e b0 by (simp add: crc_bit_def)
    then show ?thesis by (simp only: xor_right_cancel)
  qed (use e b0 in \<open>simp add: crc_bit_def\<close>)
  show "x = y"
  proof (rule bit_eqI)
    fix n show "bit x n \<longleftrightarrow> bit y n"
    proof (cases n)
      case (Suc m)
      have "bit (drop_bit 1 x) m \<longleftrightarrow> bit (drop_bit 1 y) m" by (simp only: d)
      then show ?thesis by (simp add: Suc bit_drop_bit_eq)
    qed (use b0 in simp)
  qed
qed

text \<open>
  The entries at even positions determine the others: halving the index is one division step, and an
  odd entry differs from its even neighbour by the entry of 1.
\<close>

fun pairs :: "'a list \<Rightarrow> ('a \<times> 'a) list" where
  "pairs (x # y # xs) = (x, y) # pairs xs"
| "pairs _ = []"

lemma pairs_nth: "2 * i + 1 < length xs \<Longrightarrow> i < length (pairs xs) \<and> pairs xs ! i = (xs ! (2 * i), xs ! (2 * i + 1))"
  by (induction xs arbitrary: i rule: pairs.induct) (auto simp: nth_Cons split: nat.splits)

lemma crc_table_pairs:
  "map (\<lambda>(x, y). (crc_bit x, x XOR 0x77073096)) (pairs CRC32_TABLE) = zip (take 128 CRC32_TABLE) (map snd (pairs CRC32_TABLE))"
  unfolding CRC32_TABLE_def by (simp add: crc_bit_simps)

lemma crc_table_length: "length CRC32_TABLE = 256"
  by (simp add: CRC32_TABLE_def)

lemma crc_table_step:
  assumes "i < 128"
  shows "crc_bit (CRC32_TABLE ! (2 * i)) = CRC32_TABLE ! i" "CRC32_TABLE ! (2 * i + 1) = CRC32_TABLE ! (2 * i) XOR 0x77073096"
proof -
  have p: "i < length (pairs CRC32_TABLE)" "pairs CRC32_TABLE ! i = (CRC32_TABLE ! (2 * i), CRC32_TABLE ! (2 * i + 1))"
    using pairs_nth [of i CRC32_TABLE] assms crc_table_length by auto
  then have "map (\<lambda>(x, y). (crc_bit x, x XOR 0x77073096)) (pairs CRC32_TABLE) ! i
      = (crc_bit (CRC32_TABLE ! (2 * i)), CRC32_TABLE ! (2 * i) XOR 0x77073096)" by simp
  moreover have "zip (take 128 CRC32_TABLE) (map snd (pairs CRC32_TABLE)) ! i = (CRC32_TABLE ! i, CRC32_TABLE ! (2 * i + 1))"
    using p assms crc_table_length by simp
  ultimately show "crc_bit (CRC32_TABLE ! (2 * i)) = CRC32_TABLE ! i" "CRC32_TABLE ! (2 * i + 1) = CRC32_TABLE ! (2 * i) XOR 0x77073096"
    unfolding crc_table_pairs by simp_all
qed

lemma crc_table: "n < 256 \<Longrightarrow> CRC32_TABLE ! n = crc_byte (word_of_nat n)"
proof (induction n rule: less_induct)
  case (less n)
  show ?case
  proof (cases "n = 0")
    case True
    have "CRC32_TABLE ! 0 = 0" by (simp add: CRC32_TABLE_def)
    then show ?thesis by (simp add: True crc_byte_def crc_bit_simps)
  next
    case False
    let ?i = "n div 2"
    have i: "?i < 128" "?i < n" using less.prems False by auto
    have "bit (2 * word_of_nat ?i :: u32) 0 \<longleftrightarrow> False" by (simp add: bit_0)
    moreover have "drop_bit 1 (2 * word_of_nat ?i :: u32) = word_of_nat ?i"
    proof -
      have "unat (2 * word_of_nat ?i :: u32) = 2 * ?i" using i(1) by (simp add: unat_word_ariths unat_of_nat)
      then have "unat (drop_bit 1 (2 * word_of_nat ?i :: u32)) = unat (word_of_nat ?i :: u32)"
        using i(1) by (simp only: unat_drop_bit_eq) (simp add: drop_bit_eq_div unat_of_nat)
      then show ?thesis by (simp only: word_unat_eq_iff)
    qed
    ultimately have cb: "crc_bit (2 * word_of_nat ?i) = word_of_nat ?i" by (simp add: crc_bit_def)
    have "crc_bit (crc_byte (2 * word_of_nat ?i)) = crc_byte (crc_bit (2 * word_of_nat ?i))" by (simp add: crc_byte_def)
    also have "\<dots> = CRC32_TABLE ! ?i" using less.IH [OF i(2)] i(1) cb by simp
    also have "\<dots> = crc_bit (CRC32_TABLE ! (2 * ?i))" using crc_table_step(1) [OF i(1)] by simp
    finally have ev: "CRC32_TABLE ! (2 * ?i) = crc_byte (2 * word_of_nat ?i)" by (simp add: inj_eq [OF inj_crc_bit])
    show ?thesis
    proof (cases "even n")
      case True
      then show ?thesis using ev by (metis dvd_mult_div_cancel of_nat_mult of_nat_numeral)
    next
      case odd: False
      have n: "n = 2 * ?i + 1" using odd by (metis odd_two_times_div_two_succ)
      have w: "word_of_nat n = (2 * word_of_nat ?i XOR 1 :: u32)"
        by (subst n) (simp add: xor_one_eq)
      have "crc_byte 1 = 0x77073096" by (simp add: crc_byte_def crc_bit_simps)
      then show ?thesis using crc_table_step(2) [OF i(1)] ev n w by (simp add: crc_byte_xor)
    qed
  qed
qed

lemma crc_byte_high: "take_bit 8 x = 0 \<Longrightarrow> crc_byte x = drop_bit 8 x"
proof -
  assume "take_bit 8 x = 0"
  then have b: "\<not> bit x n" if "n < 8" for n using that by (metis bit_0_eq bit_take_bit_iff bot_apply bot_bool_def)
  have s: "crc_bit (drop_bit n x) = drop_bit m x" if "n < 8" "m = n + 1" for n m
    using b [OF that(1)] that(2) by (simp add: crc_bit_def bit_drop_bit_eq add.commute)
  have c0: "crc_bit x = drop_bit 1 x" using s [of 0 1] by simp
  have c: "crc_bit (drop_bit 1 x) = drop_bit 2 x" "crc_bit (drop_bit 2 x) = drop_bit 3 x" "crc_bit (drop_bit 3 x) = drop_bit 4 x"
    "crc_bit (drop_bit 4 x) = drop_bit 5 x" "crc_bit (drop_bit 5 x) = drop_bit 6 x" "crc_bit (drop_bit 6 x) = drop_bit 7 x"
    "crc_bit (drop_bit 7 x) = drop_bit 8 x"
    by (rule s; simp)+
  show ?thesis unfolding crc_byte_def c0 c by (rule refl)
qed

lemma byte_mask: "(0xFF :: u32) = mask 8"
  by (simp add: mask_eq_exp_minus_1)

lemma word_split_byte: "(x :: u32) = (x AND NOT 0xFF) XOR (x AND 0xFF)"
  by (simp add: bit_eq_iff bit_simps) blast

lemma and_255: "(x :: u32) AND 0xFF = take_bit 8 x"
  by (simp add: take_bit_eq_mask mask_eq_exp_minus_1)

lemma crc_step_eq: "crc_step crc b = crc_byte (crc XOR ucast b)"
proof -
  let ?x = "crc XOR ucast b :: u32"
  have "take_bit 8 (?x AND NOT 0xFF) = 0"
    unfolding and_255 [symmetric] by (simp add: bit_eq_iff bit_simps)
  then have hi: "crc_byte (?x AND NOT 0xFF) = drop_bit 8 (?x AND NOT 0xFF)" by (rule crc_byte_high)
  have "drop_bit 8 (?x AND NOT 0xFF) = drop_bit 8 crc"
    unfolding byte_mask by (rule bit_eqI) (auto simp: bit_simps dest: bit_imp_le_length)
  moreover have "unat (?x AND 0xFF) < 256" unfolding and_255 by (simp only: unsigned_take_bit_eq) (simp add: take_bit_eq_mod)
  then have "CRC32_TABLE ! unat (?x AND 0xFF) = crc_byte (?x AND 0xFF)"
    by (simp add: crc_table)
  ultimately show ?thesis unfolding crc_step_def
    by (subst word_split_byte [of ?x]) (simp only: crc_byte_xor hi)
qed

text \<open>
  C25. The table-driven checksum is the bitwise one: for every byte string \<open>crc32_ieee\<close> computes the
  remainder by the reversed polynomial \<open>0xEDB88320\<close>, bit by bit, with the initial value and final
  complement of the standard. This covers all 256 entries of the table.
\<close>
theorem crc32_table_driven: "crc32_ieee bs = crc32_bitwise bs"
proof -
  have "crc_step = (\<lambda>crc b. crc_byte (crc XOR ucast b))" by (intro ext) (rule crc_step_eq)
  then show ?thesis by (simp only: crc32_ieee_def crc32_bitwise_def)
qed

section \<open>One changed byte is always detected\<close>

lemma crc_byte_eq_iff: "crc_byte x = crc_byte y \<longleftrightarrow> x = y"
  by (simp add: crc_byte_def inj_eq [OF inj_crc_bit])

lemma crc_step_eq_iff: "crc_step c b = crc_step d b \<longleftrightarrow> c = d" "crc_step c b = crc_step c b' \<longleftrightarrow> b = b'"
proof -
  show "crc_step c b = crc_step d b \<longleftrightarrow> c = d" by (simp add: crc_step_eq crc_byte_eq_iff xor_right_cancel)
  have "b = b'" if "ucast b = (ucast b' :: u32)"
  proof (rule bit_word_eqI)
    fix n assume "n < LENGTH(8)"
    then show "bit b n \<longleftrightarrow> bit b' n" using arg_cong [OF that, of "\<lambda>w. bit w n"] by (simp add: bit_simps)
  qed
  then have "ucast b = (ucast b' :: u32) \<longleftrightarrow> b = b'" by blast
  then show "crc_step c b = crc_step c b' \<longleftrightarrow> b = b'"
    by (simp add: crc_step_eq crc_byte_eq_iff xor.commute [of c] xor_right_cancel)
qed

lemma foldl_crc_eq_iff: "foldl crc_step c bs = foldl crc_step d bs \<longleftrightarrow> c = d"
  by (induction bs arbitrary: c d) (simp_all add: crc_step_eq_iff)

lemma crc32_ieee_update:
  assumes "i < length bs" "b \<noteq> bs ! i"
  shows "crc32_ieee (bs[i := b]) \<noteq> crc32_ieee bs"
proof -
  have "bs = take i bs @ bs ! i # drop (Suc i) bs" using assms(1) by (simp add: id_take_nth_drop)
  moreover have "bs[i := b] = take i bs @ b # drop (Suc i) bs" using assms(1) by (simp add: upd_conv_take_nth_drop)
  ultimately have bs: "foldl crc_step c bs = foldl crc_step (crc_step (foldl crc_step c (take i bs)) (bs ! i)) (drop (Suc i) bs)"
    "foldl crc_step c (bs[i := b]) = foldl crc_step (crc_step (foldl crc_step c (take i bs)) b) (drop (Suc i) bs)" for c
    by (metis foldl_Cons foldl_append)+
  show ?thesis using assms(2) unfolding crc32_ieee_def bs by (simp add: foldl_crc_eq_iff crc_step_eq_iff)
qed

lemma put_at_update:
  "off + length bs \<le> i \<Longrightarrow> i < length xs \<Longrightarrow> put_at off bs (xs[i := b]) = (put_at off bs xs)[i := b]"
  by (cases "i - off < length bs") (auto simp: put_at_def drop_update_swap list_update_append)

text \<open>The parser on a file whose header is unchanged depends on the rest through the checksum only.\<close>

lemma header_from_bytes_update: "64 \<le> i \<Longrightarrow> header_from_bytes (data[i := b]) = header_from_bytes data"
proof -
  assume i: "64 \<le> i"
  have s: "take k (drop off (data[i := b])) = take k (drop off data)" if "off + k \<le> 64" for k off
    using that i by (simp add: drop_update_swap)
  show ?thesis unfolding header_from_bytes_def Let_def le_at_def using i by (simp add: s del: drop_0 take_drop)
qed


text \<open>The decoder of symbols copies three bytes into an array of 21 and never succeeds.\<close>

lemma symbol_from_bytes_panics: "SYMBOL_SIZE \<le> length bs \<Longrightarrow> symbol_from_bytes bs = FPanic"
  by (simp add: symbol_from_bytes_def SYMBOL_SIZE_def)


end
