(* ===== verification/Ohlink_Runner.thy ===== *)
theory Ohlink_Runner
  imports Ohlink
begin

text \<open>
  The emulator of the tool chain, \<open>tools/ohlink-toolchain/crates/ohlink-runner/src\<close>: its memory with
  the intercepted serial port, the processor with the few instructions it decodes, and the program
  that loads a file and runs it. The vector of sixteen megabytes is a function of the offset; every
  access the code makes to it is guarded by the bounds. Bytes written to the serial port are collected
  in \<open>mm_out\<close>; the warning for an unknown instruction only prints. Additions on addresses wrap.
\<close>

section \<open>Memory\<close>

record mmu =
  mm_base :: u64
  mm_ram :: "nat \<Rightarrow> u8"
  mm_out :: "u8 list"

definition UART_BASE :: u64 where "UART_BASE = 0x09000000"
definition RAM_DEFAULT_BASE :: u64 where "RAM_DEFAULT_BASE = 0x40000000"
definition RUNNER_RAM_SIZE :: nat where "RUNNER_RAM_SIZE = 16 * 1024 * 1024"

definition mmu_new :: mmu where
  "mmu_new = \<lparr>mm_base = RAM_DEFAULT_BASE, mm_ram = (\<lambda>_. 0), mm_out = []\<rparr>"

definition in_ram :: "mmu \<Rightarrow> u64 \<Rightarrow> bool" where
  "in_ram m addr \<longleftrightarrow> mm_base m \<le> addr \<and> addr < mm_base m + word_of_nat RUNNER_RAM_SIZE"

definition read8 :: "u64 \<Rightarrow> mmu \<Rightarrow> u8" where
  "read8 addr m = (if in_ram m addr then mm_ram m (unat (addr - mm_base m)) else 0)"

definition read32 :: "u64 \<Rightarrow> mmu \<Rightarrow> u32" where
  "read32 addr m =
     ucast (read8 addr m) OR push_bit 8 (ucast (read8 (addr + 1) m)) OR push_bit 16 (ucast (read8 (addr + 2) m))
     OR push_bit 24 (ucast (read8 (addr + 3) m))"

definition read64 :: "u64 \<Rightarrow> mmu \<Rightarrow> u64" where
  "read64 addr m = ucast (read32 addr m) OR push_bit 32 (ucast (read32 (addr + 4) m))"

definition write8 :: "u64 \<Rightarrow> u8 \<Rightarrow> mmu \<Rightarrow> mmu" where
  "write8 addr v m =
     (if addr = UART_BASE then m\<lparr>mm_out := mm_out m @ [v]\<rparr>
      else if in_ram m addr then m\<lparr>mm_ram := (mm_ram m)(unat (addr - mm_base m) := v)\<rparr>
      else m)"

definition write32 :: "u64 \<Rightarrow> u32 \<Rightarrow> mmu \<Rightarrow> mmu" where
  "write32 addr v m =
     write8 (addr + 3) (ucast (drop_bit 24 v AND 0xFF))
       (write8 (addr + 2) (ucast (drop_bit 16 v AND 0xFF))
         (write8 (addr + 1) (ucast (drop_bit 8 v AND 0xFF)) (write8 addr (ucast (v AND 0xFF)) m)))"

definition write64 :: "u64 \<Rightarrow> u64 \<Rightarrow> mmu \<Rightarrow> mmu" where
  "write64 addr v m = write32 (addr + 4) (ucast (drop_bit 32 v)) (write32 addr (ucast (v AND 0xFFFFFFFF)) m)"

fun load_segment :: "u64 \<Rightarrow> u8 list \<Rightarrow> mmu \<Rightarrow> mmu" where
  "load_segment start [] m = m"
| "load_segment start (b # bs) m = load_segment (start + 1) bs (write8 start b m)"

section \<open>Processor\<close>

record cpu =
  cp_regs :: "u64 list"
  cp_sp :: u64
  cp_pc :: u64
  cp_n :: bool
  cp_z :: bool
  cp_c :: bool
  cp_v :: bool

definition cpu_new :: "u64 \<Rightarrow> u64 \<Rightarrow> cpu" where
  "cpu_new entry_point stack_pointer =
     \<lparr>cp_regs = replicate 31 0, cp_sp = stack_pointer, cp_pc = entry_point, cp_n = False, cp_z = False, cp_c = False, cp_v = False\<rparr>"

definition get_reg :: "u8 \<Rightarrow> cpu \<Rightarrow> u64" where
  "get_reg idx c = (if idx < 31 then cp_regs c ! unat idx else 0)"

definition set_reg :: "u8 \<Rightarrow> u64 \<Rightarrow> cpu \<Rightarrow> cpu" where
  "set_reg idx v c = (if idx < 31 then c\<lparr>cp_regs := (cp_regs c)[unat idx := v]\<rparr> else c)"

text \<open>Register 31 is the stack pointer in the instructions that say so.\<close>

definition get_reg_sp :: "u8 \<Rightarrow> cpu \<Rightarrow> u64" where
  "get_reg_sp idx c = (if idx = 31 then cp_sp c else get_reg idx c)"

definition set_reg_sp :: "u8 \<Rightarrow> u64 \<Rightarrow> cpu \<Rightarrow> cpu" where
  "set_reg_sp idx v c = (if idx = 31 then c\<lparr>cp_sp := v\<rparr> else set_reg idx v c)"

definition field :: "nat \<Rightarrow> u32 \<Rightarrow> u32 \<Rightarrow> 'a::len word" where
  "field sh msk i = ucast (drop_bit sh i AND msk)"

text \<open>The branch displacement: 26 bits, sign-extended and scaled.\<close>

definition branch_offset :: "u32 \<Rightarrow> u64" where
  "branch_offset i =
     (let raw = i AND 0x3FFFFFF in
      push_bit 2 (if raw AND 0x2000000 \<noteq> 0 then scast (raw OR 0xFC000000) else ucast raw))"

definition cpu_step :: "cpu \<Rightarrow> mmu \<Rightarrow> bool \<times> cpu \<times> mmu" where
  "cpu_step c m =
     (let instr = read32 (cp_pc c) m in
      if instr = 0 then (False, c, m)
      else let curr = cp_pc c; c1 = c\<lparr>cp_pc := curr + 4\<rparr>;
               rd = field 0 0x1F instr; rn = field 5 0x1F instr; imm = field 10 0xFFF instr
      in
      if drop_bit 26 instr = 5 then
        (let target = curr + branch_offset instr in
         if target = curr then (False, c1, m) else (True, c1\<lparr>cp_pc := target\<rparr>, m))
      else if instr AND 0xFF800000 = 0xD2800000 then
        (True, set_reg rd (push_bit (unat (field 21 3 instr :: u8) * 16) (field 5 0xFFFF instr)) c1, m)
      else if instr AND 0xFF000000 = 0x91000000 then
        (True, set_reg_sp rd (get_reg_sp rn c1 + push_bit (unat (field 22 1 instr :: u8) * 12) imm) c1, m)
      else if instr AND 0xFFC00000 = 0xF9000000 then
        (True, c1, write64 (get_reg_sp rn c1 + imm * 8) (get_reg_sp rd c1) m)
      else if instr AND 0xFFC00000 = 0x39000000 then
        (True, c1, write8 (get_reg_sp rn c1 + imm) (ucast (get_reg rd c1 AND 0xFF)) m)
      else if instr AND 0xFFC00000 = 0xF9400000 then
        (True, set_reg_sp rd (read64 (get_reg_sp rn c1 + imm * 8) m) c1, m)
      else if instr AND 0xFFC00000 = 0x39400000 then
        (True, set_reg_sp rd (ucast (read8 (get_reg_sp rn c1 + imm) m)) c1, m)
      else if instr AND 0xFFFFFC1F = 0xD65F03C0 then
        (True, c1\<lparr>cp_pc := get_reg rn c1\<rparr>, m)
      else (True, c1, m))"

section \<open>Loading and running\<close>

datatype run_result = RunExit | RunPanic | RunStopped nat cpu mmu | RunLimit cpu mmu

definition MAX_CYCLES :: nat where "MAX_CYCLES = 100000"

text \<open>The loop counts the steps that ask to continue and gives up at the limit.\<close>

fun run_loop :: "nat \<Rightarrow> nat \<Rightarrow> cpu \<Rightarrow> mmu \<Rightarrow> run_result" where
  "run_loop 0 cycles c m = RunLimit c m"
| "run_loop (Suc n) cycles c m =
     (case cpu_step c m of
        (True, c1, m1) \<Rightarrow> run_loop n (cycles + 1) c1 m1
      | (False, c1, m1) \<Rightarrow> RunStopped cycles c1 m1)"

fun load_loop :: "ohlk_parser \<Rightarrow> ohlk_entry list \<Rightarrow> bool \<Rightarrow> mmu \<Rightarrow> run_result + bool \<times> mmu" where
  "load_loop p [] has_text m = Inr (has_text, m)"
| "load_loop p (e # es) has_text m =
     (case get_segment_data e p of
        FOk d \<Rightarrow>
          (if oe_ty e = segment_type_to_u32 SegText then load_loop p es True (load_segment RAM_DEFAULT_BASE d m)
           else if oe_ty e = segment_type_to_u32 SegData \<or> oe_ty e = segment_type_to_u32 SegRodata then
             load_loop p es has_text (load_segment (RAM_DEFAULT_BASE + 0x100000) d m)
           else load_loop p es has_text m)
      | FErr _ \<Rightarrow> Inl RunExit
      | FPanic \<Rightarrow> Inl RunPanic)"

definition runner_main :: "u8 list \<Rightarrow> run_result" where
  "runner_main data =
     (case parser_new data of
        FOk p \<Rightarrow>
          (if oh_arch (op_header p) \<noteq> 1 then RunExit
           else case load_loop p (parser_entries p) False mmu_new of
             Inl r \<Rightarrow> r
           | Inr (has_text, m) \<Rightarrow>
               (if \<not> has_text then RunExit
                else run_loop MAX_CYCLES 0 (cpu_new RAM_DEFAULT_BASE (RAM_DEFAULT_BASE + 8 * 1024 * 1024)) m))
      | FErr _ \<Rightarrow> RunExit
      | FPanic \<Rightarrow> RunPanic)"

section \<open>Loading\<close>

lemma write8_fields [simp]: "mm_base (write8 a v m) = mm_base m" "in_ram (write8 a v m) b = in_ram m b"
  by (simp_all add: write8_def in_ram_def)

lemma write8_out [simp]: "a \<noteq> UART_BASE \<Longrightarrow> mm_out (write8 a v m) = mm_out m"
  by (simp add: write8_def)

lemma read8_write8:
  assumes "a \<noteq> UART_BASE"
  shows "read8 b (write8 a v m) = (if b = a \<and> in_ram m a then v else read8 b m)"
proof -
  have "unat (x - mm_base m) = unat (y - mm_base m) \<longleftrightarrow> x = y" for x y by (simp add: word_unat_eq_iff [symmetric])
  then show ?thesis using assms by (auto simp: read8_def write8_def in_ram_def)
qed

lemma load_segment_fields:
  assumes "unat UART_BASE < unat start" "unat start + length bs < 2 ^ 64"
  shows "mm_base (load_segment start bs m) = mm_base m \<and> in_ram (load_segment start bs m) a = in_ram m a
    \<and> mm_out (load_segment start bs m) = mm_out m"
  using assms
proof (induction start bs m rule: load_segment.induct)
  case (2 start b bs m)
  have "start \<noteq> UART_BASE" using 2(2) by auto
  moreover have "bs = [] \<or> unat (start + 1) = unat start + 1" using 2(3) by (cases bs) (auto simp: unat_add_no_wrap)
  ultimately show ?case using 2 by auto
qed simp

lemma load_segment_read:
  assumes "unat UART_BASE < unat start" "unat start + length bs < 2 ^ 64"
  shows "read8 a (load_segment start bs m) =
    (if unat start \<le> unat a \<and> unat a < unat start + length bs \<and> in_ram m a then bs ! (unat a - unat start) else read8 a m)"
  using assms
proof (induction start bs m rule: load_segment.induct)
  case (2 start b bs m)
  have s: "start \<noteq> UART_BASE" using 2(2) by auto
  have eq: "unat a = unat start \<longleftrightarrow> a = start" by (simp add: word_unat_eq_iff)
  show ?case
  proof (cases "bs = []")
    case True
    then show ?thesis using s eq by (cases "a = start") (auto simp: read8_write8)
  next
    case False
    then have u: "unat (start + 1) = unat start + 1" using 2(3) by (cases bs) (auto simp: unat_add_no_wrap)
    have "read8 a (load_segment (start + 1) bs (write8 start b m)) =
      (if unat start + 1 \<le> unat a \<and> unat a < unat start + 1 + length bs \<and> in_ram m a then bs ! (unat a - (unat start + 1))
       else read8 a (write8 start b m))"
      using 2 u by simp
    also have "\<dots> = (if unat start \<le> unat a \<and> unat a < unat start + length (b # bs) \<and> in_ram m a
        then (b # bs) ! (unat a - unat start) else read8 a m)"
      using s eq by (cases "a = start") (auto simp: read8_write8 nth_Cons')
    finally show ?thesis by simp
  qed
qed auto

text \<open>What the loader leaves in memory: the text at the base, whatever the other segments hold.\<close>

definition has_code :: "u8 list \<Rightarrow> mmu \<Rightarrow> bool" where
  "has_code code m \<longleftrightarrow> (\<forall>i<length code. read8 (RAM_DEFAULT_BASE + word_of_nat i) m = code ! i)"

lemma load_loop_code:
  assumes "\<forall>e\<in>set es. \<exists>d. get_segment_data e p = FOk d \<and> length d \<le> 2 ^ 32 \<and> (oe_ty e = 1 \<longrightarrow> d = code)"
    and "length code \<le> 0x100000" "mm_base m = RAM_DEFAULT_BASE" "has \<longrightarrow> has_code code m"
  shows "\<exists>m'. load_loop p es has m = Inr (has \<or> (\<exists>e\<in>set es. oe_ty e = 1), m') \<and> mm_out m' = mm_out m \<and> mm_base m' = RAM_DEFAULT_BASE
    \<and> (has \<or> (\<exists>e\<in>set es. oe_ty e = 1) \<longrightarrow> has_code code m')"
  using assms
proof (induction es arbitrary: has m)
  case (Cons e es)
  obtain d where d: "get_segment_data e p = FOk d" "length d \<le> 2 ^ 32" "oe_ty e = 1 \<longrightarrow> d = code" using Cons.prems(1) by auto
  have rest: "\<forall>e\<in>set es. \<exists>d. get_segment_data e p = FOk d \<and> length d \<le> 2 ^ 32 \<and> (oe_ty e = 1 \<longrightarrow> d = code)" using Cons.prems(1) by simp
  have at: "unat (RAM_DEFAULT_BASE + word_of_nat i) = 0x40000000 + i" if "i < length code" for i
    using that Cons.prems(2) by (subst unat_add_no_wrap) (auto simp: RAM_DEFAULT_BASE_def unat_of_nat)
  have ram: "in_ram m (RAM_DEFAULT_BASE + word_of_nat i)" if "i < length code" for i
    unfolding in_ram_def Cons.prems(3) word_le_nat_alt word_less_nat_alt at [OF that]
    using that Cons.prems(2) by (simp add: RAM_DEFAULT_BASE_def RUNNER_RAM_SIZE_def)
  have tb: "unat UART_BASE < unat RAM_DEFAULT_BASE" "unat RAM_DEFAULT_BASE + length d < 2 ^ 64"
    and db: "unat UART_BASE < unat (RAM_DEFAULT_BASE + 0x100000)" "unat (RAM_DEFAULT_BASE + 0x100000) + length d < 2 ^ 64"
    using d(2) by (simp_all add: UART_BASE_def RAM_DEFAULT_BASE_def)
  let ?mt = "load_segment RAM_DEFAULT_BASE d m"
  let ?md = "load_segment (RAM_DEFAULT_BASE + 0x100000) d m"
  have tx: "has_code code ?mt" if "oe_ty e = 1"
    unfolding has_code_def
  proof (intro allI impI)
    fix i assume "i < length code"
    then show "read8 (RAM_DEFAULT_BASE + word_of_nat i) ?mt = code ! i"
      unfolding load_segment_read [OF tb] using at ram d(3) that by (simp add: RAM_DEFAULT_BASE_def)
  qed
  have dt: "has_code code ?md" if "has_code code m"
    unfolding has_code_def
  proof (intro allI impI)
    fix i assume i: "i < length code"
    then show "read8 (RAM_DEFAULT_BASE + word_of_nat i) ?md = code ! i"
      unfolding load_segment_read [OF db] at [OF i] using that Cons.prems(2) i
      by (simp add: RAM_DEFAULT_BASE_def) (simp add: has_code_def RAM_DEFAULT_BASE_def)
  qed
  consider (code_seg) "oe_ty e = 1" | (data_seg) "oe_ty e \<noteq> 1" "oe_ty e = 2 \<or> oe_ty e = 3" | (other) "oe_ty e \<noteq> 1" "oe_ty e \<noteq> 2" "oe_ty e \<noteq> 3" by blast
  then show ?case
  proof cases
    case code_seg
    then show ?thesis using Cons.IH [OF rest Cons.prems(2), of ?mt True] tx d(1) load_segment_fields [OF tb, of m] Cons.prems(3) by auto
  next
    case data_seg
    then show ?thesis using Cons.IH [OF rest Cons.prems(2), of ?md has] dt d(1) load_segment_fields [OF db, of m] Cons.prems(3,4) by auto
  next
    case other
    then show ?thesis using Cons.IH [OF rest Cons.prems(2), of m has] d(1) Cons.prems(3,4) by auto
  qed
qed simp

section \<open>Properties\<close>

text \<open>
  C24. From source segments to the first instruction: when a file is built for the emulated
  architecture from segments that fit, with one text segment of at most one megabyte, the emulator
  accepts the file, loads it and runs it from the base of memory with the bytes of that text segment
  there, whatever other segments the file has, and nothing has been printed before the first
  instruction. The run ends after at most 100000 steps by construction.
\<close>
theorem runner_loads_built_program:
  assumes "segments_fit gs" "k < length gs" "sg_ty (gs ! k) = 1" "\<forall>i<length gs. sg_ty (gs ! i) = 1 \<longrightarrow> i = k"
    and "length (sg_data (gs ! k)) \<le> 0x100000" "builder_build (add_segments gs (builder_new 1 ft fl ep)) = FOk f"
  shows "\<exists>m. runner_main f = run_loop MAX_CYCLES 0 (cpu_new RAM_DEFAULT_BASE (RAM_DEFAULT_BASE + 8 * 1024 * 1024)) m
    \<and> has_code (sg_data (gs ! k)) m \<and> mm_out m = []"
proof -
  obtain p where p: "parser_new f = FOk p" "oh_arch (op_header p) = 1" "length (parser_entries p) = length gs"
    and en: "\<And>i. i < length gs \<Longrightarrow> parser_entries p ! i = (segment_entry (gs ! i))\<lparr>oe_file_offset := oe_file_offset (parser_entries p ! i)\<rparr>
       \<and> get_segment_data (parser_entries p ! i) p = FOk (sg_data (gs ! i))"
    using build_parse_spec [OF assms(1,6)] unfolding Let_def by metis
  have ty: "oe_ty (parser_entries p ! i) = sg_ty (gs ! i)" if "i < length gs" for i
    using en [OF that] by (metis ohlk_entry.select_convs(1) ohlk_entry.update_convs(3) segment_entry_def)
  have all: "\<forall>e\<in>set (parser_entries p). \<exists>d. get_segment_data e p = FOk d \<and> length d \<le> 2 ^ 32 \<and> (oe_ty e = 1 \<longrightarrow> d = sg_data (gs ! k))"
  proof
    fix e assume "e \<in> set (parser_entries p)"
    then obtain i where i: "i < length gs" "e = parser_entries p ! i" using p(3) by (metis in_set_conv_nth)
    then have "get_segment_data e p = FOk (sg_data (gs ! i))" "oe_ty e = sg_ty (gs ! i)" using en ty by auto
    moreover have "length (sg_data (gs ! i)) \<le> 2 ^ 32" using assms(1) i(1) by (auto simp: segments_fit_def)
    ultimately show "\<exists>d. get_segment_data e p = FOk d \<and> length d \<le> 2 ^ 32 \<and> (oe_ty e = 1 \<longrightarrow> d = sg_data (gs ! k))"
      using assms(4) i(1) by auto
  qed
  have "\<exists>e\<in>set (parser_entries p). oe_ty e = 1" using ty [OF assms(2)] assms(2,3) p(3) by (metis nth_mem)
  then obtain m where "load_loop p (parser_entries p) False mmu_new = Inr (True, m)" "mm_out m = []" "has_code (sg_data (gs ! k)) m"
    using load_loop_code [OF all assms(5), of mmu_new False] by (auto simp: mmu_new_def)
  then show ?thesis using p(1,2) by (auto simp: runner_main_def)
qed

text \<open>The two instructions \<open>movz x0, #1\<close> and \<open>b .\<close> of the example: the run stops after one step.\<close>

lemma read32_code:
  assumes "has_code code m" "i + 3 < length code"
  shows "read32 (RAM_DEFAULT_BASE + word_of_nat i) m =
    ucast (code ! i) OR push_bit 8 (ucast (code ! (i + 1))) OR push_bit 16 (ucast (code ! (i + 2))) OR push_bit 24 (ucast (code ! (i + 3)))"
proof -
  have a: "RAM_DEFAULT_BASE + word_of_nat i + word_of_nat j = RAM_DEFAULT_BASE + word_of_nat (i + j)" for j by (simp add: add.assoc)
  have "read8 (RAM_DEFAULT_BASE + word_of_nat i + word_of_nat j) m = code ! (i + j)" if "j \<le> 3" for j
    unfolding a using assms that by (simp add: has_code_def del: of_nat_add)
  from this [of 0] this [of 1] this [of 2] this [of 3] show ?thesis by (simp add: read32_def)
qed

lemma run_loop_two:
  "cpu_step c m = (True, c1, m1) \<Longrightarrow> cpu_step c1 m1 = (False, c2, m2) \<Longrightarrow> run_loop (Suc (Suc n)) k c m = RunStopped (k + 1) c2 m2"
  by simp

theorem runner_loads_built_program_witness:
  "\<exists>f c m. builder_build (add_segments demo_segments (builder_new 1 1 0 0x40000000)) = FOk f
     \<and> runner_main f = RunStopped 1 c m \<and> get_reg 0 c = 1"
proof -
  obtain f where f: "builder_build (add_segments demo_segments (builder_new 1 1 0 0x40000000)) = FOk f" using builder_build_total by blast
  have "alignment_ok 16" "alignment_ok 0" unfolding alignment_ok_def by (auto intro: exI [of _ 4])
  then have fit: "segments_fit demo_segments" by (simp add: segments_fit_def demo_segments_def)
  let ?c0 = "cpu_new RAM_DEFAULT_BASE (RAM_DEFAULT_BASE + 8 * 1024 * 1024)"
  have one: "\<forall>i<length demo_segments. sg_ty (demo_segments ! i) = 1 \<longrightarrow> i = 0" by (simp add: demo_segments_def less_Suc_eq_0_disj)
  have "0 < length demo_segments" "sg_ty (demo_segments ! 0) = 1" "length (sg_data (demo_segments ! 0)) \<le> 0x100000"
    by (simp_all add: demo_segments_def)
  from runner_loads_built_program [OF fit this(1,2) one this(3) f] obtain m where
    m: "runner_main f = run_loop MAX_CYCLES 0 ?c0 m" "has_code (sg_data (demo_segments ! 0)) m" by blast
  have c: "has_code [0x20, 0, 0x80, 0xD2, 0, 0, 0, 0x14] m" using m(2) by (simp add: demo_segments_def)
  have i0: "read32 RAM_DEFAULT_BASE m = 0xD2800020" using read32_code [OF c, of 0] by simp
  have i1: "read32 (RAM_DEFAULT_BASE + 4) m = 0x14000000" using read32_code [OF c, of 4] by simp
  have f0: "cp_pc ?c0 = RAM_DEFAULT_BASE" by (simp add: cpu_new_def)
  define c1 where "c1 = (?c0\<lparr>cp_pc := RAM_DEFAULT_BASE + 4, cp_regs := (replicate 31 0)[0 := 1]\<rparr>)"
  have s0: "cpu_step ?c0 m = (True, c1, m)"
    unfolding cpu_step_def f0 i0 by (simp add: field_def set_reg_def c1_def cpu_new_def)
  have pc1: "cp_pc c1 = RAM_DEFAULT_BASE + 4" by (simp add: c1_def)
  have s1: "cpu_step c1 m = (False, c1\<lparr>cp_pc := RAM_DEFAULT_BASE + 8\<rparr>, m)"
    unfolding cpu_step_def pc1 i1 by (simp add: branch_offset_def)
  have mc: "MAX_CYCLES = Suc (Suc 99998)" by (simp add: MAX_CYCLES_def)
  have "runner_main f = RunStopped 1 (c1\<lparr>cp_pc := RAM_DEFAULT_BASE + 8\<rparr>) m"
    unfolding m(1) mc using run_loop_two [OF s0 s1, of 99998 0] by simp
  then show ?thesis using f by (auto simp: get_reg_def c1_def cpu_new_def)
qed

text \<open>
  The emulator never executes a return: the mask clears the register field that the pattern it
  compares with has set, so the test fails for every instruction word. At a return instruction the
  processor steps to the next word as if it were not there.
\<close>
theorem runner_ignores_ret:
  "(i AND 0xFFFFFC1F \<noteq> (0xD65F03C0 :: u32))
    \<and> (read32 (cp_pc c) m = 0xD65F03C0 \<longrightarrow> cpu_step c m = (True, c\<lparr>cp_pc := cp_pc c + 4\<rparr>, m))"
proof
  have "\<not> bit (i AND 0xFFFFFC1F) 6" "bit (0xD65F03C0 :: u32) 6" by (simp_all add: bit_simps)
  then show "i AND 0xFFFFFC1F \<noteq> 0xD65F03C0" by metis
  show "read32 (cp_pc c) m = 0xD65F03C0 \<longrightarrow> cpu_step c m = (True, c\<lparr>cp_pc := cp_pc c + 4\<rparr>, m)"
    by (simp add: cpu_step_def)
qed

text \<open>A processor at a return instruction at the base of memory.\<close>

theorem runner_ignores_ret_witness:
  "let m = load_segment RAM_DEFAULT_BASE [0xC0, 0x03, 0x5F, 0xD6] mmu_new; c = cpu_new RAM_DEFAULT_BASE 0
   in cpu_step c m = (True, c\<lparr>cp_pc := RAM_DEFAULT_BASE + 4\<rparr>, m)"
proof -
  let ?m = "load_segment RAM_DEFAULT_BASE [0xC0, 0x03, 0x5F, 0xD6] mmu_new"
  let ?c = "cpu_new RAM_DEFAULT_BASE 0"
  have "read32 (cp_pc ?c) ?m = 0xD65F03C0"
    by (simp add: read32_def read8_write8 cpu_new_def in_ram_def mmu_new_def UART_BASE_def RAM_DEFAULT_BASE_def RUNNER_RAM_SIZE_def)
  moreover have "cp_pc ?c = RAM_DEFAULT_BASE" by (simp add: cpu_new_def)
  ultimately show ?thesis using runner_ignores_ret [of 0 ?c ?m] by (simp only: Let_def)
qed

end
