(* ===== verification/Fdt.thy ===== *)
theory Fdt
  imports Prelude
begin

text \<open>
  The device-tree parser of the boot path, \<open>kernel/src/fdt.rs\<close>. The structure and strings blocks are
  slices of memory, here byte lists; the parser reads tokens through raw pointers, so a read that is
  not inside its slice is the outcome \<open>OutOfBounds\<close> of the model. Positions are natural numbers: they
  stay far below 64 bits because the sizes of the blocks and of properties are 32-bit fields.
\<close>

section \<open>Big-endian fields\<close>

definition word_of_be :: "u8 list \<Rightarrow> 'a::len word" where
  "word_of_be bs = word_of_le (rev bs)"

definition word_to_be :: "nat \<Rightarrow> 'a::len word \<Rightarrow> u8 list" where
  "word_to_be k w = rev (word_to_le k w)"

lemma word_to_be_length [simp]: "length (word_to_be k w) = k"
  by (simp add: word_to_be_def)

lemma word_of_be_to_be: "LENGTH('a) \<le> 8 * k \<Longrightarrow> word_of_be (word_to_be k w) = (w :: 'a::len word)"
  by (simp add: word_of_be_def word_to_be_def word_of_le_to_le)

datatype 'a fdt = Fdt 'a | OutOfBounds

definition be32_at :: "u8 list \<Rightarrow> nat \<Rightarrow> u32 fdt" where
  "be32_at bs pos = (if pos + 4 \<le> length bs then Fdt (word_of_be (take 4 (drop pos bs))) else OutOfBounds)"

definition align4 :: "nat \<Rightarrow> nat" where
  "align4 n = (n + 3) div 4 * 4"

section \<open>The parser\<close>

definition FDT_MAGIC :: u32 where "FDT_MAGIC = 0xD00DFEED"
definition FDT_BEGIN_NODE :: u32 where "FDT_BEGIN_NODE = 1"
definition FDT_END_NODE :: u32 where "FDT_END_NODE = 2"
definition FDT_PROP :: u32 where "FDT_PROP = 3"
definition FDT_NOP :: u32 where "FDT_NOP = 4"
definition FDT_END :: u32 where "FDT_END = 9"

lemmas fdt_tokens = FDT_BEGIN_NODE_def FDT_END_NODE_def FDT_PROP_def FDT_NOP_def FDT_END_def

record fdt_header =
  fh_magic :: u32
  fh_totalsize :: u32
  fh_off_dt_struct :: u32
  fh_off_dt_strings :: u32
  fh_off_mem_rsvmap :: u32
  fh_version :: u32
  fh_last_comp_version :: u32
  fh_boot_cpuid_phys :: u32
  fh_size_dt_strings :: u32
  fh_size_dt_struct :: u32

text \<open>Raw reads of memory at an address, as the header parser makes them.\<close>

definition mem_slice :: "(u64 \<Rightarrow> u8) \<Rightarrow> u64 \<Rightarrow> nat \<Rightarrow> u8 list" where
  "mem_slice mem a n = map (\<lambda>i. mem (a + word_of_nat i)) [0..<n]"

definition mem_be32 :: "(u64 \<Rightarrow> u8) \<Rightarrow> u64 \<Rightarrow> u32" where
  "mem_be32 mem a = word_of_be (mem_slice mem a 4)"

definition fdt_header_parse :: "(u64 \<Rightarrow> u8) \<Rightarrow> u64 \<Rightarrow> fdt_header option" where
  "fdt_header_parse mem p =
     (if mem_be32 mem p \<noteq> FDT_MAGIC then None
      else Some \<lparr>fh_magic = mem_be32 mem p, fh_totalsize = mem_be32 mem (p + 4), fh_off_dt_struct = mem_be32 mem (p + 8),
        fh_off_dt_strings = mem_be32 mem (p + 12), fh_off_mem_rsvmap = mem_be32 mem (p + 16), fh_version = mem_be32 mem (p + 20),
        fh_last_comp_version = mem_be32 mem (p + 24), fh_boot_cpuid_phys = mem_be32 mem (p + 28),
        fh_size_dt_strings = mem_be32 mem (p + 32), fh_size_dt_struct = mem_be32 mem (p + 36)\<rparr>)"

record fdt_parser =
  fp_struct_block :: "u8 list"
  fp_strings_block :: "u8 list"

definition fdt_parser_new :: "(u64 \<Rightarrow> u8) \<Rightarrow> u64 \<Rightarrow> fdt_header \<Rightarrow> fdt_parser" where
  "fdt_parser_new mem base h =
     \<lparr>fp_struct_block = mem_slice mem (base + ucast (fh_off_dt_struct h)) (unat (fh_size_dt_struct h)),
      fp_strings_block = mem_slice mem (base + ucast (fh_off_dt_strings h)) (unat (fh_size_dt_strings h))\<rparr>"

text \<open>The end of a zero-terminated string, or the end of the block.\<close>

definition scan_zero :: "u8 list \<Rightarrow> nat \<Rightarrow> nat" where
  "scan_zero bs from = from + length (takeWhile (\<lambda>b. b \<noteq> 0) (drop from bs))"

definition get_string :: "fdt_parser \<Rightarrow> nat \<Rightarrow> u8 list option" where
  "get_string p offset =
     (if length (fp_strings_block p) \<le> offset then None
      else let s = take (scan_zero (fp_strings_block p) offset - offset) (drop offset (fp_strings_block p))
           in if utf8_valid s then Some s else None)"

definition simple_name :: "u8 list \<Rightarrow> u8 list" where
  "simple_name n = takeWhile (\<lambda>b. b \<noteq> 0x40) n"

lemma align4_ge: "n \<le> align4 n"
  unfolding align4_def by presburger

function find_loop :: "fdt_parser \<Rightarrow> u8 list \<Rightarrow> u8 list \<Rightarrow> nat \<Rightarrow> int \<Rightarrow> int option \<Rightarrow> u8 list option fdt" where
  "find_loop p node pname pos depth target =
     (let blk = fp_struct_block p in
      if length blk \<le> pos then Fdt None
      else if length blk < pos + 4 then Fdt None
      else case be32_at blk pos of
        OutOfBounds \<Rightarrow> OutOfBounds
      | Fdt token \<Rightarrow>
          (if token = FDT_BEGIN_NODE then
             (let start = pos + 4; fin = scan_zero blk start in
              if length blk \<le> fin then Fdt None
              else let name = take (fin - start) (drop start blk);
                       target' = (if utf8_valid name \<and> target = None \<and> simple_name name = node then Some depth else target)
                   in find_loop p node pname (align4 (fin + 1)) (depth + 1) target')
           else if token = FDT_END_NODE then
             (if (case target of Some d \<Rightarrow> depth - 1 \<le> d | None \<Rightarrow> False) then Fdt None
              else find_loop p node pname (pos + 4) (depth - 1) target)
           else if token = FDT_PROP then
             (if length blk < pos + 12 then Fdt None
              else case (be32_at blk (pos + 4), be32_at blk (pos + 8)) of
                (Fdt data_size, Fdt name_offset) \<Rightarrow>
                  (if (case target of Some d \<Rightarrow> depth = d + 1 | None \<Rightarrow> False) \<and> get_string p (unat name_offset) = Some pname then
                     (if length blk < pos + 12 + unat data_size then Fdt None
                      else Fdt (Some (take (unat data_size) (drop (pos + 12) blk))))
                   else find_loop p node pname (align4 (pos + 12 + unat data_size)) depth target)
              | _ \<Rightarrow> OutOfBounds)
           else if token = FDT_NOP then find_loop p node pname (pos + 4) depth target
           else Fdt None))"
  by pat_completeness auto
termination
proof (relation "measure (\<lambda>(p, node, pname, pos, depth, target). length (fp_struct_block p) - pos)", goal_cases)
  case (2 p node pname pos)
  have "pos < align4 (scan_zero (fp_struct_block p) (pos + 4) + 1)"
    using align4_ge [of "scan_zero (fp_struct_block p) (pos + 4) + 1"] by (simp add: scan_zero_def)
  then show ?case using 2 by auto
next
  case (4 p node pname pos)
  have "pos < align4 (pos + 12 + n)" for n using align4_ge [of "pos + 12 + n"] by simp
  then show ?case using 4 by (auto intro!: diff_less_mono2)
qed auto

declare find_loop.simps [simp del]

definition find_node_property :: "fdt_parser \<Rightarrow> u8 list \<Rightarrow> u8 list \<Rightarrow> u8 list option fdt" where
  "find_node_property p node pname = find_loop p node pname 0 0 None"

section \<open>Boot information\<close>

record boot_info =
  bi_uart_base :: u64
  bi_uart_type :: "u8 list"
  bi_ram_base :: u64
  bi_ram_size :: u64
  bi_gicd_base :: u64
  bi_gicc_base :: u64

definition DEFAULT_RAM_BASE :: u64 where "DEFAULT_RAM_BASE = 0x40000000"
definition DEFAULT_RAM_SIZE :: u64 where "DEFAULT_RAM_SIZE = 512 * 1024 * 1024"
definition DEFAULT_UART_BASE :: u64 where "DEFAULT_UART_BASE = 0x09000000"

definition str :: "string \<Rightarrow> u8 list" where
  "str s = map of_char s"

definition be64 :: "u8 list \<Rightarrow> nat \<Rightarrow> u64" where
  "be64 bs i = word_of_be (take 8 (drop i bs))"

fun contains_bytes :: "u8 list \<Rightarrow> u8 list \<Rightarrow> bool" where
  "contains_bytes pat [] = (pat = [])"
| "contains_bytes pat (b # bs) = (take (length pat) (b # bs) = pat \<or> contains_bytes pat bs)"

definition fdt_bind :: "'a fdt \<Rightarrow> ('a \<Rightarrow> 'b fdt) \<Rightarrow> 'b fdt" where
  "fdt_bind x f = (case x of Fdt a \<Rightarrow> f a | OutOfBounds \<Rightarrow> OutOfBounds)"

text \<open>The chain of serial-port nodes: the first that has a \<open>reg\<close> property decides.\<close>

fun uart_lookup :: "fdt_parser \<Rightarrow> u8 list list \<Rightarrow> (u8 list \<times> u64) option fdt" where
  "uart_lookup p [] = Fdt None"
| "uart_lookup p (n # ns) =
     fdt_bind (find_node_property p n (str ''reg''))
       (\<lambda>r. case r of
          Some reg \<Rightarrow> Fdt (if 16 \<le> length reg then Some (n, be64 reg 0) else None)
        | None \<Rightarrow> uart_lookup p ns)"

definition uart_kind :: "fdt_parser \<Rightarrow> (u8 list \<times> u64) option \<Rightarrow> u8 list fdt" where
  "uart_kind p u =
     (case u of
        None \<Rightarrow> Fdt (str ''pl011'')
      | Some (n, _) \<Rightarrow>
          fdt_bind (find_node_property p n (str ''compatible''))
            (\<lambda>c. Fdt (case c of
                Some bs \<Rightarrow> (if utf8_valid bs \<and> \<not> contains_bytes (str ''pl011'') bs \<and> contains_bytes (str ''16550'') bs
                            then str ''ns16550'' else str ''pl011'')
              | None \<Rightarrow> str ''pl011'')))"

definition fdt_parse :: "(u64 \<Rightarrow> u8) \<Rightarrow> u64 \<Rightarrow> boot_info option fdt" where
  "fdt_parse mem ptr =
     (if ptr = 0 then Fdt None
      else case fdt_header_parse mem ptr of
        None \<Rightarrow> Fdt None
      | Some h \<Rightarrow>
          (let p = fdt_parser_new mem ptr h in
           fdt_bind (find_node_property p (str ''memory'') (str ''reg'')) (\<lambda>ram.
           fdt_bind (uart_lookup p [str ''pl011'', str ''uart'', str ''serial'']) (\<lambda>u.
           fdt_bind (uart_kind p u) (\<lambda>kind.
           fdt_bind (find_node_property p (str ''intc'') (str ''reg'')) (\<lambda>gic.
           let ram_ok = (case ram of Some reg \<Rightarrow> 16 \<le> length reg | None \<Rightarrow> False);
               gic_ok = (case gic of Some reg \<Rightarrow> 32 \<le> length reg | None \<Rightarrow> False)
           in Fdt (Some \<lparr>bi_uart_base = (case u of Some (_, b) \<Rightarrow> b | None \<Rightarrow> DEFAULT_UART_BASE), bi_uart_type = kind,
                bi_ram_base = (if ram_ok then be64 (the ram) 0 else DEFAULT_RAM_BASE),
                bi_ram_size = (if ram_ok then be64 (the ram) 8 else DEFAULT_RAM_SIZE),
                bi_gicd_base = (if gic_ok then be64 (the gic) 0 else 0),
                bi_gicc_base = (if gic_ok then be64 (the gic) 16 else 0)\<rparr>)))))))"

section \<open>Reads stay inside the blocks\<close>

lemma find_loop_in_bounds:
  "\<exists>r. find_loop p node pname pos depth target = Fdt r
     \<and> (\<forall>bs. r = Some bs \<longrightarrow> (\<exists>i. i + length bs \<le> length (fp_struct_block p) \<and> bs = take (length bs) (drop i (fp_struct_block p))))"
proof (induction p node pname pos depth target rule: find_loop.induct)
  case (1 p node pname pos depth target)
  let ?blk = "fp_struct_block p"
  show ?case
  proof (cases "length ?blk < pos + 4")
    case True
    then show ?thesis by (subst find_loop.simps) (auto simp: Let_def)
  next
    case False
    then have in4: "\<not> length ?blk \<le> pos" "\<not> length ?blk < pos + 4" by auto
    obtain tok where tok: "be32_at ?blk pos = Fdt tok" using False by (simp add: be32_at_def)
    note IH = 1 [OF refl in4 tok]
    have pr: "be32_at ?blk (pos + 4) = Fdt (word_of_be (take 4 (drop (pos + 4) ?blk)))"
      "be32_at ?blk (pos + 8) = Fdt (word_of_be (take 4 (drop (pos + 8) ?blk)))" if "\<not> length ?blk < pos + 12"
      using that by (simp_all add: be32_at_def)
    have hit: "\<exists>i. i + length (take k (drop (pos + 12) ?blk)) \<le> length ?blk
        \<and> take k (drop (pos + 12) ?blk) = take (length (take k (drop (pos + 12) ?blk))) (drop i ?blk)"
      if "\<not> length ?blk < pos + 12 + k" for k
      using that by (intro exI [of _ "pos + 12"]) auto
    show ?thesis
      using in4 tok IH pr hit
      by (subst find_loop.simps) (auto simp: Let_def split: option.splits)
  qed
qed

section \<open>Trees and their flattened form\<close>

text \<open>
  A device tree: a node has a name, properties (the offset of the name in the strings block, and the
  value) and child nodes. \<open>enc_node\<close> is its flattened form; \<open>dt_lookup\<close> is what looking a property up
  means: in the first node, parents before children, whose name up to the unit address is the one
  asked for, the first property with that name.
\<close>

datatype dt_node = DtNode "u8 list" "(u32 \<times> u8 list) list" "dt_node list"

definition pad4 :: "u8 list \<Rightarrow> u8 list" where
  "pad4 bs = bs @ replicate (align4 (length bs) - length bs) 0"

definition enc_prop :: "u32 \<times> u8 list \<Rightarrow> u8 list" where
  "enc_prop q = word_to_be 4 FDT_PROP @ word_to_be 4 (word_of_nat (length (snd q)) :: u32) @ word_to_be 4 (fst q) @ pad4 (snd q)"

fun enc_node :: "dt_node \<Rightarrow> u8 list" where
  "enc_node (DtNode n ps cs) =
     word_to_be 4 FDT_BEGIN_NODE @ pad4 (n @ [0]) @ concat (map enc_prop ps) @ concat (map enc_node cs) @ word_to_be 4 FDT_END_NODE"

fun dt_wf :: "dt_node \<Rightarrow> bool" where
  "dt_wf (DtNode n ps cs) \<longleftrightarrow> utf8_valid n \<and> 0 \<notin> set n \<and> (\<forall>q\<in>set ps. length (snd q) < 2 ^ 32) \<and> (\<forall>c\<in>set cs. dt_wf c)"

fun first_node :: "u8 list \<Rightarrow> dt_node \<Rightarrow> dt_node option" and first_in :: "u8 list \<Rightarrow> dt_node list \<Rightarrow> dt_node option" where
  "first_node node (DtNode n ps cs) = (if simple_name n = node then Some (DtNode n ps cs) else first_in node cs)"
| "first_in node [] = None"
| "first_in node (c # cs) = (case first_node node c of Some r \<Rightarrow> Some r | None \<Rightarrow> first_in node cs)"

definition prop_lookup :: "fdt_parser \<Rightarrow> u8 list \<Rightarrow> (u32 \<times> u8 list) list \<Rightarrow> u8 list option" where
  "prop_lookup p pname ps = map_option snd (find (\<lambda>q. get_string p (unat (fst q)) = Some pname) ps)"

definition dt_lookup :: "fdt_parser \<Rightarrow> u8 list \<Rightarrow> u8 list \<Rightarrow> dt_node \<Rightarrow> u8 list option" where
  "dt_lookup p node pname t = (case first_node node t of Some (DtNode _ ps _) \<Rightarrow> prop_lookup p pname ps | None \<Rightarrow> None)"

lemma align4_dvd: "4 dvd align4 n"
  by (simp add: align4_def)

lemma align4_add: "4 dvd m \<Longrightarrow> align4 (m + n) = m + align4 n"
  unfolding align4_def by (elim dvdE) (simp add: add.assoc div_mult_self4 distrib_right mult.commute)

lemma pad4_length [simp]: "length (pad4 bs) = align4 (length bs)"
  using align4_ge [of "length bs"] by (simp add: pad4_def)

lemma be32_here: "drop pos blk = word_to_be 4 (w :: u32) @ rest \<Longrightarrow> pos + 4 \<le> length blk \<and> be32_at blk pos = Fdt w"
proof -
  assume d: "drop pos blk = word_to_be 4 w @ rest"
  have "length (drop pos blk) = 4 + length rest" by (simp add: d)
  then have "pos + 4 \<le> length blk" by simp
  moreover have "be32_at blk pos = Fdt w" using calculation by (simp add: be32_at_def d word_of_be_to_be)
  ultimately show ?thesis by simp
qed

lemma drop_past: "drop pos blk = x @ y \<Longrightarrow> drop (pos + length x) blk = y"
  by (metis add.commute append_eq_conv_conj drop_drop)

text \<open>One token at a time.\<close>

lemma begin_step:
  assumes d: "drop pos (fp_struct_block p) = word_to_be 4 FDT_BEGIN_NODE @ pad4 (n @ [0]) @ rest"
    and "4 dvd pos" "0 \<notin> set n" "utf8_valid n"
  shows "find_loop p node pname pos depth target =
    find_loop p node pname (pos + (4 + align4 (length n + 1))) (depth + 1) (if target = None \<and> simple_name n = node then Some depth else target)"
proof -
  let ?blk = "fp_struct_block p"
  note here = be32_here [OF d]
  have d4: "drop (pos + 4) ?blk = pad4 (n @ [0]) @ rest" using drop_past [OF d] by simp
  then have d4': "drop (pos + 4) ?blk = n @ 0 # replicate (align4 (length n + 1) - (length n + 1)) 0 @ rest" by (simp add: pad4_def)
  have "takeWhile (\<lambda>b. b \<noteq> 0) (n @ 0 # xs) = n" for xs using assms(3) by (induction n) auto
  then have sc: "scan_zero ?blk (pos + 4) = pos + 4 + length n" unfolding scan_zero_def d4' by simp
  have "length (drop (pos + 4) ?blk) = align4 (length n + 1) + length rest" unfolding d4 by simp
  then have ln: "pos + 4 + length n < length ?blk" using align4_ge [of "length n + 1"] by simp
  have al: "align4 (pos + 4 + length n + 1) = pos + (4 + align4 (length n + 1))"
    using align4_add [of "pos + 4" "length n + 1"] assms(2) by (simp add: add.assoc)
  show ?thesis
    using here ln assms(4) by (subst find_loop.simps) (simp add: Let_def sc al [simplified] d4' fdt_tokens)
qed

lemma end_step:
  assumes d: "drop pos (fp_struct_block p) = word_to_be 4 FDT_END_NODE @ rest"
  shows "find_loop p node pname pos depth target =
    (if (case target of Some d \<Rightarrow> depth - 1 \<le> d | None \<Rightarrow> False) then Fdt None else find_loop p node pname (pos + 4) (depth - 1) target)"
  using be32_here [OF d] by (subst find_loop.simps) (auto simp: Let_def fdt_tokens split: option.splits)

lemma prop_step:
  assumes d: "drop pos (fp_struct_block p) = enc_prop q @ rest" and "4 dvd pos" "length (snd q) < 2 ^ 32"
  shows "find_loop p node pname pos depth target =
    (if (case target of Some d \<Rightarrow> depth = d + 1 | None \<Rightarrow> False) \<and> get_string p (unat (fst q)) = Some pname then Fdt (Some (snd q))
     else find_loop p node pname (pos + length (enc_prop q)) depth target)"
proof -
  let ?blk = "fp_struct_block p"
  let ?sz = "word_of_nat (length (snd q)) :: u32"
  have d0: "drop pos ?blk = word_to_be 4 FDT_PROP @ word_to_be 4 ?sz @ word_to_be 4 (fst q) @ pad4 (snd q) @ rest"
    using d by (simp add: enc_prop_def)
  have d4: "drop (pos + 4) ?blk = word_to_be 4 ?sz @ word_to_be 4 (fst q) @ pad4 (snd q) @ rest" using drop_past [OF d0] by simp
  have d8: "drop (pos + 8) ?blk = word_to_be 4 (fst q) @ pad4 (snd q) @ rest" using drop_past [OF d4] by (simp add: add.commute)
  have d12: "drop (pos + 12) ?blk = pad4 (snd q) @ rest" using drop_past [OF d8] by (simp add: add.commute)
  have sz: "unat ?sz = length (snd q)" using assms(3) by (simp add: unat_of_nat)
  have "length (drop (pos + 8) ?blk) = 4 + align4 (length (snd q)) + length rest" unfolding d8 by simp
  then have ln: "pos + 12 + length (snd q) \<le> length ?blk" using align4_ge [of "length (snd q)"] by simp
  have tk: "take (length (snd q)) (drop (pos + 12) ?blk) = snd q" unfolding d12 by (simp add: pad4_def)
  have al: "align4 (pos + 12 + length (snd q)) = pos + length (enc_prop q)"
    using align4_add [of "pos + 12" "length (snd q)"] assms(2) by (simp add: enc_prop_def add.assoc)
  show ?thesis
    using be32_here [OF d0] be32_here [OF d4] be32_here [OF d8] ln
    by (subst find_loop.simps) (simp add: Let_def fdt_tokens sz tk al split: option.splits)
qed

lemma enc_prop_dvd: "4 dvd length (enc_prop q)"
  by (simp add: enc_prop_def align4_dvd)

lemma concat_dvd: "(\<And>x. x \<in> set xs \<Longrightarrow> 4 dvd length (f x)) \<Longrightarrow> 4 dvd length (concat (map f xs))"
  by (induction xs) auto

lemma enc_node_dvd: "4 dvd length (enc_node t)"
  by (induction t rule: enc_node.induct) (simp add: align4_dvd concat_dvd enc_prop_dvd del: length_concat)

lemma props_step:
  assumes "drop pos (fp_struct_block p) = concat (map enc_prop ps) @ rest" "4 dvd pos" "\<forall>q\<in>set ps. length (snd q) < 2 ^ 32"
  shows "find_loop p node pname pos depth target =
    (case if (case target of Some d \<Rightarrow> depth = d + 1 | None \<Rightarrow> False) then prop_lookup p pname ps else None of
       Some v \<Rightarrow> Fdt (Some v)
     | None \<Rightarrow> find_loop p node pname (pos + length (concat (map enc_prop ps))) depth target)"
  using assms
proof (induction ps arbitrary: pos)
  case (Cons q ps)
  have d: "drop pos (fp_struct_block p) = enc_prop q @ concat (map enc_prop ps) @ rest" using Cons.prems(1) by simp
  have "4 dvd pos + length (enc_prop q)" using Cons.prems(2) enc_prop_dvd by simp
  note IH = Cons.IH [OF drop_past [OF d] this]
  show ?case
    using prop_step [OF d Cons.prems(2)] IH Cons.prems(3)
    by (auto simp: prop_lookup_def add.assoc split: option.splits if_splits)
qed (simp add: prop_lookup_def)

text \<open>A node inside the node already found: it is passed over.\<close>

definition passes :: "fdt_parser \<Rightarrow> u8 list \<Rightarrow> u8 list \<Rightarrow> u8 list \<Rightarrow> bool" where
  "passes p node pname x \<longleftrightarrow> (\<forall>pos rest d depth. drop pos (fp_struct_block p) = x @ rest \<longrightarrow> 4 dvd pos \<longrightarrow> d < depth \<longrightarrow>
     find_loop p node pname pos depth (Some d) = find_loop p node pname (pos + length x) depth (Some d))"

lemma passes_concat:
  "(\<And>x. x \<in> set xs \<Longrightarrow> passes p node pname (f x) \<and> 4 dvd length (f x)) \<Longrightarrow> passes p node pname (concat (map f xs))"
proof (induction xs)
  case (Cons x xs)
  have h: "passes p node pname (f x)" "4 dvd length (f x)" "passes p node pname (concat (map f xs))" using Cons by auto
  show ?case
    unfolding passes_def
  proof (intro allI impI)
    fix pos rest d depth
    assume d: "drop pos (fp_struct_block p) = concat (map f (x # xs)) @ rest" and a: "4 dvd pos" "(d :: int) < depth"
    have d1: "drop pos (fp_struct_block p) = f x @ concat (map f xs) @ rest" using d by simp
    have "find_loop p node pname pos depth (Some d) = find_loop p node pname (pos + length (f x)) depth (Some d)"
      using h(1) d1 a unfolding passes_def by blast
    also have "\<dots> = find_loop p node pname (pos + length (f x) + length (concat (map f xs))) depth (Some d)"
      using h(3) drop_past [OF d1] a h(2) unfolding passes_def by (simp del: length_concat)
    finally show "find_loop p node pname pos depth (Some d) = find_loop p node pname (pos + length (concat (map f (x # xs)))) depth (Some d)"
      by (simp add: add.assoc)
  qed
qed (simp add: passes_def)

lemma node_passed: "dt_wf t \<Longrightarrow> passes p node pname (enc_node t)"
proof (induction t rule: enc_node.induct)
  case (1 n ps cs)
  have cs: "passes p node pname (concat (map enc_node cs))" using 1 enc_node_dvd by (intro passes_concat) auto
  show ?case
    unfolding passes_def
  proof (intro allI impI)
    fix pos rest d depth
    assume dr: "drop pos (fp_struct_block p) = enc_node (DtNode n ps cs) @ rest" and a: "4 dvd pos" "(d :: int) < depth"
    let ?ps = "concat (map enc_prop ps)" and ?cs = "concat (map enc_node cs)"
    let ?b = "word_to_be 4 FDT_BEGIN_NODE @ pad4 (n @ [0])"
    have d0: "drop pos (fp_struct_block p) = word_to_be 4 FDT_BEGIN_NODE @ pad4 (n @ [0]) @ ?ps @ ?cs @ word_to_be 4 FDT_END_NODE @ rest" using dr by simp
    have lb: "length ?b = 4 + align4 (length n + 1)" by simp
    have d1: "drop (pos + (4 + align4 (length n + 1))) (fp_struct_block p) = ?ps @ ?cs @ word_to_be 4 FDT_END_NODE @ rest"
      using drop_past [of pos "fp_struct_block p" ?b] d0 unfolding lb by simp
    note d2 = drop_past [OF d1] and d3 = drop_past [OF drop_past [OF d1]]
    have al: "4 dvd pos + (4 + align4 (length n + 1))" "4 dvd length ?ps" using a(1) by (simp_all add: align4_dvd concat_dvd enc_prop_dvd del: length_concat)
    have "find_loop p node pname pos depth (Some d) = find_loop p node pname (pos + (4 + align4 (length n + 1))) (depth + 1) (Some d)"
      using begin_step [OF d0 a(1)] 1(2) by simp
    also have "\<dots> = find_loop p node pname (pos + (4 + align4 (length n + 1)) + length ?ps) (depth + 1) (Some d)"
      using props_step [OF d1 al(1)] 1(2) a(2) by simp
    also have "\<dots> = find_loop p node pname (pos + (4 + align4 (length n + 1)) + length ?ps + length ?cs) (depth + 1) (Some d)"
      using cs d2 al a(2) unfolding passes_def by (metis add_strict_increasing2 dvd_add int_one_le_iff_zero_less linorder_not_le order_refl zless_add1_eq)
    also have "\<dots> = find_loop p node pname (pos + (4 + align4 (length n + 1)) + length ?ps + length ?cs + 4) depth (Some d)"
      using end_step [OF d3] a(2) by simp
    finally show "find_loop p node pname pos depth (Some d) = find_loop p node pname (pos + length (enc_node (DtNode n ps cs))) depth (Some d)"
      by (simp add: add.assoc)
  qed
qed

text \<open>A node while nothing has been found: it is searched.\<close>

definition found :: "fdt_parser \<Rightarrow> u8 list \<Rightarrow> dt_node option \<Rightarrow> u8 list option fdt \<Rightarrow> u8 list option fdt" where
  "found p pname r alt = (case r of Some (DtNode _ ps _) \<Rightarrow> Fdt (prop_lookup p pname ps) | None \<Rightarrow> alt)"

lemma node_searched:
  "dt_wf t \<Longrightarrow> drop pos (fp_struct_block p) = enc_node t @ rest \<Longrightarrow> 4 dvd pos \<Longrightarrow>
     find_loop p node pname pos depth None = found p pname (first_node node t) (find_loop p node pname (pos + length (enc_node t)) depth None)"
  "\<forall>c\<in>set cs. dt_wf c \<Longrightarrow> drop pos (fp_struct_block p) = concat (map enc_node cs) @ rest \<Longrightarrow> 4 dvd pos \<Longrightarrow>
     find_loop p node pname pos depth None = found p pname (first_in node cs) (find_loop p node pname (pos + length (concat (map enc_node cs))) depth None)"
proof (induction node t and node cs arbitrary: pos rest depth and pos rest depth rule: first_node_first_in.induct)
  case (1 node n ps cs)
  let ?ps = "concat (map enc_prop ps)" and ?cs = "concat (map enc_node cs)"
  let ?b = "word_to_be 4 FDT_BEGIN_NODE @ pad4 (n @ [0])"
  let ?q = "pos + (4 + align4 (length n + 1))"
  have d0: "drop pos (fp_struct_block p) = word_to_be 4 FDT_BEGIN_NODE @ pad4 (n @ [0]) @ ?ps @ ?cs @ word_to_be 4 FDT_END_NODE @ rest"
    using 1(3) by simp
  have lb: "length ?b = 4 + align4 (length n + 1)" by simp
  have d1: "drop ?q (fp_struct_block p) = ?ps @ ?cs @ word_to_be 4 FDT_END_NODE @ rest"
    using drop_past [of pos "fp_struct_block p" ?b] d0 unfolding lb by simp
  note d2 = drop_past [OF d1] and d3 = drop_past [OF drop_past [OF d1]]
  have al: "4 dvd ?q" "4 dvd ?q + length ?ps" using 1(4) by (simp_all add: align4_dvd concat_dvd enc_prop_dvd del: length_concat)
  have wf: "utf8_valid n" "0 \<notin> set n" "\<forall>q\<in>set ps. length (snd q) < 2 ^ 32" "\<forall>c\<in>set cs. dt_wf c" using 1(2) by auto
  note b = begin_step [OF d0 1(4) wf(2,1), of node pname depth None]
  show ?case
  proof (cases "simple_name n = node")
    case True
    have pc: "passes p node pname ?cs" using node_passed wf(4) enc_node_dvd by (intro passes_concat) auto
    have "find_loop p node pname (?q + length ?ps) (depth + 1) (Some depth) = find_loop p node pname (?q + length ?ps + length ?cs) (depth + 1) (Some depth)"
      using pc d2 al(2) unfolding passes_def by (metis less_add_one)
    also have "\<dots> = Fdt None" using end_step [OF d3] by simp
    finally have "find_loop p node pname ?q (depth + 1) (Some depth) = Fdt (prop_lookup p pname ps)"
      using props_step [OF d1 al(1) wf(3), of node pname "depth + 1" "Some depth"] by (simp split: option.splits)
    then show ?thesis using b True by (simp add: found_def)
  next
    case False
    have "find_loop p node pname pos depth None = find_loop p node pname (?q + length ?ps) (depth + 1) None"
      using b False props_step [OF d1 al(1) wf(3), of node pname "depth + 1" None] by simp
    also have "\<dots> = found p pname (first_in node cs) (find_loop p node pname (?q + length ?ps + length ?cs) (depth + 1) None)"
      by (rule 1(1) [OF False wf(4) d2 al(2)])
    also have "find_loop p node pname (?q + length ?ps + length ?cs) (depth + 1) None = find_loop p node pname (?q + length ?ps + length ?cs + 4) depth None"
      using end_step [OF d3, of node pname "depth + 1" None] by simp
    finally show ?thesis using False by (simp add: add.assoc)
  qed
next
  case (2 node)
  then show ?case by (simp add: found_def)
next
  case (3 node c cs)
  have d: "drop pos (fp_struct_block p) = enc_node c @ concat (map enc_node cs) @ rest" using 3(4) by simp
  have al: "4 dvd pos + length (enc_node c)" using 3(5) enc_node_dvd by simp
  have h: "find_loop p node pname pos depth None = found p pname (first_node node c) (find_loop p node pname (pos + length (enc_node c)) depth None)"
    using 3(1) [OF _ d 3(5)] 3(3) by simp
  show ?case
  proof (cases "first_node node c")
    case None
    then show ?thesis using h 3(2) [OF None _ drop_past [OF d] al] 3(3) by (simp add: found_def add.assoc)
  next
    case (Some r)
    then show ?thesis using h by (cases r) (simp add: found_def)
  qed
qed

lemma find_on_encoding:
  assumes "dt_wf t" "fp_struct_block p = enc_node t @ word_to_be 4 FDT_END"
  shows "find_node_property p node pname = Fdt (dt_lookup p node pname t)"
proof -
  have "find_loop p node pname 0 0 None = found p pname (first_node node t) (find_loop p node pname (0 + length (enc_node t)) 0 None)"
    using assms by (intro node_searched(1) [where rest = "word_to_be 4 FDT_END"]) auto
  moreover have "drop (length (enc_node t)) (fp_struct_block p) = word_to_be 4 FDT_END @ []" using assms(2) by simp
  from be32_here [OF this] have "find_loop p node pname (length (enc_node t)) 0 None = Fdt None"
    by (subst find_loop.simps) (simp add: Let_def fdt_tokens)
  ultimately show ?thesis by (simp add: find_node_property_def found_def dt_lookup_def split: option.splits dt_node.splits)
qed

definition demo_tree :: dt_node where
  "demo_tree = DtNode [] [(0, [0, 0, 0, 2])]
     [DtNode (str ''memory@40000000'') [(4, [0, 0, 0, 0, 0x40, 0, 0, 0, 0, 0, 0, 0, 0x20, 0, 0, 0])] []]"

definition demo_fdt :: fdt_parser where
  "demo_fdt = \<lparr>fp_struct_block = enc_node demo_tree @ word_to_be 4 FDT_END, fp_strings_block = str ''foo'' @ [0] @ str ''reg'' @ [0]\<rparr>"

lemma demo_lookup:
  "find_node_property demo_fdt (str ''memory'') (str ''reg'') = Fdt (Some [0, 0, 0, 0, 0x40, 0, 0, 0, 0, 0, 0, 0, 0x20, 0, 0, 0])"
proof -
  have "dt_wf demo_tree" by (simp add: demo_tree_def str_def)
  moreover have "get_string demo_fdt 4 = Some (str ''reg'')"
    by (simp add: get_string_def demo_fdt_def str_def scan_zero_def)
  ultimately show ?thesis
    using find_on_encoding [of demo_tree demo_fdt "str ''memory''" "str ''reg''"]
    by (simp add: demo_fdt_def dt_lookup_def prop_lookup_def demo_tree_def simple_name_def str_def)
qed

section \<open>Properties\<close>

text \<open>
  C21. Looking a property up always terminates, never reads outside the structure block whatever its
  bytes are, and a value it returns is a slice of that block; so does the whole boot-time parse.
\<close>
theorem fdt_reads_in_bounds:
  "(\<exists>r. find_node_property p node pname = Fdt r
      \<and> (\<forall>bs. r = Some bs \<longrightarrow> (\<exists>i. i + length bs \<le> length (fp_struct_block p) \<and> bs = take (length bs) (drop i (fp_struct_block p)))))
   \<and> (\<exists>b. fdt_parse mem ptr = Fdt b \<and> (b = None \<longleftrightarrow> ptr = 0 \<or> mem_be32 mem ptr \<noteq> FDT_MAGIC))"
proof
  show "\<exists>r. find_node_property p node pname = Fdt r
      \<and> (\<forall>bs. r = Some bs \<longrightarrow> (\<exists>i. i + length bs \<le> length (fp_struct_block p) \<and> bs = take (length bs) (drop i (fp_struct_block p))))"
    unfolding find_node_property_def by (rule find_loop_in_bounds)
  have f: "\<exists>r. find_node_property q n pn = Fdt r" for q n pn
    unfolding find_node_property_def using find_loop_in_bounds by blast
  have u: "\<exists>r. uart_lookup q ns = Fdt r" for q ns
  proof (induction ns)
    case (Cons n ns)
    obtain r where "find_node_property q n (str ''reg'') = Fdt r" using f by blast
    then show ?case using Cons by (cases r) (auto simp: fdt_bind_def)
  qed simp
  have k: "\<exists>r. uart_kind q x = Fdt r" for q x
  proof (cases x)
    case (Some y)
    obtain r where "find_node_property q (fst y) (str ''compatible'') = Fdt r" using f by blast
    then show ?thesis using Some by (cases y) (simp add: uart_kind_def fdt_bind_def)
  qed (simp add: uart_kind_def)
  show "\<exists>b. fdt_parse mem ptr = Fdt b \<and> (b = None \<longleftrightarrow> ptr = 0 \<or> mem_be32 mem ptr \<noteq> FDT_MAGIC)"
  proof (cases "ptr = 0 \<or> mem_be32 mem ptr \<noteq> FDT_MAGIC")
    case True
    then show ?thesis by (auto simp: fdt_parse_def fdt_header_parse_def)
  next
    case False
    then obtain h where h: "fdt_header_parse mem ptr = Some h" by (simp add: fdt_header_parse_def)
    let ?q = "fdt_parser_new mem ptr h"
    obtain a b c d where "find_node_property ?q (str ''memory'') (str ''reg'') = Fdt a"
      "uart_lookup ?q [str ''pl011'', str ''uart'', str ''serial''] = Fdt b" "uart_kind ?q b = Fdt c"
      "find_node_property ?q (str ''intc'') (str ''reg'') = Fdt d" using f u k by metis
    then show ?thesis using False h by (simp add: fdt_parse_def fdt_bind_def Let_def del: uart_lookup.simps)
  qed
qed

theorem fdt_reads_in_bounds_witness:
  "\<exists>i. i + 16 \<le> length (fp_struct_block demo_fdt)
     \<and> take 16 (drop i (fp_struct_block demo_fdt)) = [0, 0, 0, 0, 0x40, 0, 0, 0, 0, 0, 0, 0, 0x20, 0, 0, 0]"
proof -
  let ?v = "[0, 0, 0, 0, 0x40, 0, 0, 0, 0, 0, 0, 0, 0x20, 0, 0, 0] :: u8 list"
  have "\<exists>i. i + length ?v \<le> length (fp_struct_block demo_fdt) \<and> ?v = take (length ?v) (drop i (fp_struct_block demo_fdt))"
    using conjunct1 [OF fdt_reads_in_bounds, of demo_fdt "str ''memory''" "str ''reg''"] unfolding demo_lookup by blast
  moreover have "length ?v = 16" by simp
  ultimately show ?thesis by metis
qed

text \<open>
  C19. On the flattened form of any well-formed device tree the lookup returns what the tree says:
  the first property of that name in the first node of that name, parents before children, and
  nothing when there is no such node or the node has no such property of its own.
\<close>
theorem fdt_lookup_correct:
  assumes "dt_wf t" "fp_struct_block p = enc_node t @ word_to_be 4 FDT_END"
  shows "find_node_property p node pname = Fdt (dt_lookup p node pname t)"
  by (rule find_on_encoding [OF assms])

theorem fdt_lookup_correct_witness:
  "find_node_property demo_fdt (str ''memory'') (str ''reg'')
   = Fdt (Some [0, 0, 0, 0, 0x40, 0, 0, 0, 0, 0, 0, 0, 0x20, 0, 0, 0])"
proof -
  have "dt_wf demo_tree" by (simp add: demo_tree_def str_def)
  moreover have "get_string demo_fdt 4 = Some (str ''reg'')"
    by (simp add: get_string_def demo_fdt_def str_def scan_zero_def)
  ultimately show ?thesis
    using fdt_lookup_correct [of demo_tree demo_fdt "str ''memory''" "str ''reg''"]
    by (simp add: demo_fdt_def dt_lookup_def prop_lookup_def demo_tree_def simple_name_def str_def)
qed

end
