(* ===== verification/Osh_Parser.thy ===== *)
theory Osh_Parser
  imports Prelude
begin

text \<open>
  The command-line parser of the shell, \<open>userspace/programs/osh/src/parser.rs\<close>. A Rust string is its
  list of Unicode code points: the loops of the source run over bytes and compare them with ASCII
  characters, which never occur inside the encoding of another character, so every index they slice
  at is a character boundary.
\<close>

type_synonym text_line = "nat list"

section \<open>Commands\<close>

record command =
  cmd_name :: text_line
  cmd_args :: "text_line list"
  cmd_arg_count :: nat

definition command_empty :: command where
  "command_empty = \<lparr>cmd_name = [], cmd_args = replicate 16 [], cmd_arg_count = 0\<rparr>"

record pipeline =
  pl_stages :: "command list"
  pl_stage_count :: nat

definition make_empty_pipeline :: pipeline where
  "make_empty_pipeline = \<lparr>pl_stages = replicate 4 command_empty, pl_stage_count = 0\<rparr>"

text \<open>\<open>str::trim\<close>: the characters with the Unicode property \<open>White_Space\<close>.\<close>

definition white_space :: "nat \<Rightarrow> bool" where
  "white_space c \<longleftrightarrow> 9 \<le> c \<and> c \<le> 13 \<or> c = 32 \<or> c = 0x85 \<or> c = 0xA0 \<or> c = 0x1680 \<or> 0x2000 \<le> c \<and> c \<le> 0x200A
     \<or> c = 0x2028 \<or> c = 0x2029 \<or> c = 0x202F \<or> c = 0x205F \<or> c = 0x3000"

definition trim :: "text_line \<Rightarrow> text_line" where
  "trim s = rev (dropWhile white_space (rev (dropWhile white_space s)))"

section \<open>Words\<close>

definition is_sep :: "nat \<Rightarrow> bool" where
  "is_sep c \<longleftrightarrow> c = 32 \<or> c = 9 \<or> c = 13 \<or> c = 10"

record word_state =
  ws_name :: text_line
  ws_args :: "text_line list"
  ws_arg_count :: nat
  ws_word_count :: nat
  ws_in_word :: bool
  ws_start :: nat

definition put_word :: "text_line \<Rightarrow> word_state \<Rightarrow> word_state" where
  "put_word w st =
     (if ws_word_count st = 0 then st\<lparr>ws_name := w\<rparr>
      else if ws_arg_count st < 16 then st\<lparr>ws_args := (ws_args st)[ws_arg_count st := w], ws_arg_count := ws_arg_count st + 1\<rparr>
      else st)"

text \<open>The loop over the characters from index \<open>i\<close> on.\<close>

fun word_loop :: "text_line \<Rightarrow> nat \<Rightarrow> text_line \<Rightarrow> word_state \<Rightarrow> word_state" where
  "word_loop s i [] st = st"
| "word_loop s i (c # cs) st =
     word_loop s (i + 1) cs
       (if is_sep c then
          (if ws_in_word st then
             (let st1 = put_word (take (i - ws_start st) (drop (ws_start st) s)) st
              in st1\<lparr>ws_word_count := ws_word_count st + 1, ws_in_word := False\<rparr>)
           else st)
        else if \<not> ws_in_word st then st\<lparr>ws_start := i, ws_in_word := True\<rparr>
        else st)"

definition split_words :: "text_line \<Rightarrow> command option" where
  "split_words line =
     (let s = trim line in
      if s = [] then None
      else let st = word_loop s 0 s \<lparr>ws_name = [], ws_args = replicate 16 [], ws_arg_count = 0, ws_word_count = 0, ws_in_word = False, ws_start = 0\<rparr>;
               st1 = (if ws_in_word st then put_word (drop (ws_start st) s) st else st)
           in if ws_name st1 = [] then None
              else Some \<lparr>cmd_name = ws_name st1, cmd_args = ws_args st1, cmd_arg_count = ws_arg_count st1\<rparr>)"

section \<open>Pipelines\<close>

definition PIPE :: nat where "PIPE = 124"

definition push_stage :: "text_line \<Rightarrow> pipeline \<Rightarrow> pipeline" where
  "push_stage stage p =
     (if trim stage = [] then p
      else case split_words stage of
        None \<Rightarrow> p
      | Some cmd \<Rightarrow>
          (if pl_stage_count p < 4
           then p\<lparr>pl_stages := (pl_stages p)[pl_stage_count p := cmd], pl_stage_count := pl_stage_count p + 1\<rparr>
           else p))"

fun stage_loop :: "text_line \<Rightarrow> nat \<Rightarrow> nat \<Rightarrow> text_line \<Rightarrow> pipeline \<Rightarrow> nat \<times> pipeline" where
  "stage_loop s start i [] p = (start, p)"
| "stage_loop s start i (c # cs) p =
     (if c = PIPE then stage_loop s (i + 1) (i + 1) cs (push_stage (take (i - start) (drop start s)) p)
      else stage_loop s start (i + 1) cs p)"

definition parse_line :: "text_line \<Rightarrow> pipeline option" where
  "parse_line line =
     (let s = trim line in
      if s = [] then None
      else let (start, p) = stage_loop s 0 0 s make_empty_pipeline;
               p1 = push_stage (drop start s) p
           in if pl_stage_count p1 = 0 then None else Some p1)"

section \<open>What a line means\<close>

fun pieces :: "('a \<Rightarrow> bool) \<Rightarrow> 'a list \<Rightarrow> 'a list list" where
  "pieces P [] = [[]]"
| "pieces P (x # xs) = (if P x then [] # pieces P xs else (case pieces P xs of y # ys \<Rightarrow> (x # y) # ys | [] \<Rightarrow> [[x]]))"

definition words_of :: "text_line \<Rightarrow> text_line list" where
  "words_of s = filter (\<lambda>w. w \<noteq> []) (pieces is_sep s)"

definition command_of :: "text_line list \<Rightarrow> command" where
  "command_of ws = \<lparr>cmd_name = hd ws, cmd_args = take 16 (tl ws) @ replicate (16 - length (tl ws)) [], cmd_arg_count = min 16 (length (tl ws))\<rparr>"

lemma pieces_nonempty: "pieces P xs \<noteq> []"
  by (induction xs) (auto split: list.splits)

text \<open>The state of the loop after the words \<open>L\<close>.\<close>

definition word_state_of :: "text_line list \<Rightarrow> bool \<Rightarrow> nat \<Rightarrow> word_state" where
  "word_state_of L b k = \<lparr>ws_name = (if L = [] then [] else hd L), ws_args = take 16 (tl L) @ replicate (16 - length (tl L)) [],
     ws_arg_count = min 16 (length (tl L)), ws_word_count = length L, ws_in_word = b, ws_start = k\<rparr>"

lemma put_word_state:
  "(put_word w (word_state_of L b k))\<lparr>ws_word_count := Suc (length L), ws_in_word := c\<rparr> = word_state_of (L @ [w]) c k"
proof (cases L)
  case Nil
  then show ?thesis by (simp add: put_word_def word_state_of_def)
next
  case (Cons x xs)
  show ?thesis
  proof (cases "length xs < 16")
    case True
    then have "replicate (16 - length xs) [] = [] # replicate (16 - Suc (length xs)) ([] :: text_line)"
      by (metis Suc_diff_Suc replicate_Suc)
    then show ?thesis using True Cons by (simp add: put_word_def word_state_of_def list_update_append)
  next
    case False
    then show ?thesis using Cons by (simp add: put_word_def word_state_of_def)
  qed
qed

text \<open>The words the loop has still to report, given the word it is inside of.\<close>

definition rest_words :: "text_line \<Rightarrow> text_line \<Rightarrow> text_line list" where
  "rest_words cur rest = filter (\<lambda>w. w \<noteq> []) ((cur @ hd (pieces is_sep rest)) # tl (pieces is_sep rest))"

lemma rest_words_Nil: "rest_words cur [] = (if cur = [] then [] else [cur])"
  by (simp add: rest_words_def)

lemma rest_words_sep: "is_sep c \<Longrightarrow> rest_words cur (c # cs) = (if cur = [] then [] else [cur]) @ rest_words [] cs"
  using pieces_nonempty [of is_sep cs] by (cases "pieces is_sep cs") (auto simp: rest_words_def)

lemma rest_words_other: "\<not> is_sep c \<Longrightarrow> rest_words cur (c # cs) = rest_words (cur @ [c]) cs"
  using pieces_nonempty [of is_sep cs] by (cases "pieces is_sep cs") (auto simp: rest_words_def)

lemma word_loop_words:
  assumes "s = d @ rest" "b \<Longrightarrow> k < length d"
  shows "\<exists>L' b' k'. word_loop s (length d) rest (word_state_of L b k) = word_state_of L' b' k' \<and> (b' \<longrightarrow> k' < length s)
    \<and> L' @ (if b' then [drop k' s] else []) = L @ rest_words (if b then drop k d else []) rest"
  using assms
proof (induction rest arbitrary: d L b k)
  case Nil
  then show ?case by (intro exI [of _ L] exI [of _ b] exI [of _ k]) (auto simp: rest_words_Nil)
next
  case (Cons c cs)
  have s: "s = (d @ [c]) @ cs" using Cons.prems(1) by simp
  have sl: "take (length d - k) (drop k s) = drop k d" using Cons.prems(1) by (cases "k \<le> length d") auto
  consider (sep_in) "is_sep c" b | (sep_out) "is_sep c" "\<not> b" | (chr_in) "\<not> is_sep c" b | (chr_out) "\<not> is_sep c" "\<not> b" by blast
  then show ?case
  proof cases
    case sep_in
    have st: "(let st1 = put_word (take (length d - k) (drop k s)) (word_state_of L b k)
        in st1\<lparr>ws_word_count := length L + 1, ws_in_word := False\<rparr>) = word_state_of (L @ [drop k d]) False k"
      using put_word_state [where w = "drop k d" and L = L and b = b and k = k and c = False] unfolding sl by simp
    have "drop k d \<noteq> []" using Cons.prems(2) sep_in by simp
    then show ?thesis using Cons.IH [OF s, where b = False and L = "L @ [drop k d]" and k = k] sep_in st by (simp add: rest_words_sep word_state_of_def Let_def)
  next
    case sep_out
    then show ?thesis using Cons.IH [OF s, where b = False and L = L and k = k] by (simp add: rest_words_sep word_state_of_def)
  next
    case chr_in
    then show ?thesis using Cons.IH [OF s, where b = True and L = L and k = k] Cons.prems(2) by (simp add: rest_words_other word_state_of_def less_Suc_eq)
  next
    case chr_out
    have "(word_state_of L False k)\<lparr>ws_start := length d, ws_in_word := True\<rparr> = word_state_of L True (length d)" by (simp add: word_state_of_def)
    then show ?thesis using Cons.IH [OF s, where b = True and L = L and k = "length d"] chr_out by (simp add: rest_words_other word_state_of_def)
  qed
qed

lemma put_word_fields:
  "ws_name (put_word w (word_state_of L b k)) = ws_name (word_state_of (L @ [w]) b k)"
  "ws_args (put_word w (word_state_of L b k)) = ws_args (word_state_of (L @ [w]) b k)"
  "ws_arg_count (put_word w (word_state_of L b k)) = ws_arg_count (word_state_of (L @ [w]) b k)"
  using put_word_state [where L = L and b = b and w = w and k = k and c = b, symmetric] by simp_all

lemma split_words_eq: "split_words line = (case words_of (trim line) of [] \<Rightarrow> None | w # ws \<Rightarrow> Some (command_of (w # ws)))"
proof (cases "trim line = []")
  case True
  then show ?thesis by (simp add: split_words_def words_of_def)
next
  case False
  let ?s = "trim line"
  let ?st = "\<lparr>ws_name = [], ws_args = replicate 16 [], ws_arg_count = 0, ws_word_count = 0, ws_in_word = False, ws_start = 0\<rparr>"
  have st: "?st = word_state_of [] False 0" by (simp add: word_state_of_def)
  obtain L b k where w: "word_loop ?s 0 ?s ?st = word_state_of L b k" "b \<longrightarrow> k < length ?s"
    "L @ (if b then [drop k ?s] else []) = rest_words [] ?s"
    using word_loop_words [of ?s "[]" ?s False 0 "[]"] unfolding st by auto
  have "rest_words [] ?s = words_of ?s"
    using pieces_nonempty [of is_sep ?s] by (cases "pieces is_sep ?s") (auto simp: rest_words_def words_of_def)
  with w(3) have ws: "words_of ?s = L @ (if b then [drop k ?s] else [])" by simp
  have ne: "\<forall>w\<in>set (words_of ?s). w \<noteq> []" by (simp add: words_of_def)
  let ?st1 = "if b then put_word (drop k ?s) (word_state_of L b k) else word_state_of L b k"
  have f: "ws_name ?st1 = ws_name (word_state_of (words_of ?s) b k)" "ws_args ?st1 = ws_args (word_state_of (words_of ?s) b k)"
    "ws_arg_count ?st1 = ws_arg_count (word_state_of (words_of ?s) b k)"
    unfolding ws by (simp_all add: put_word_fields)
  have b: "ws_in_word (word_state_of L x k) = x" "ws_start (word_state_of L x k) = k" for x by (simp_all add: word_state_of_def)
  have "split_words line = (if ws_name ?st1 = [] then None
      else Some \<lparr>cmd_name = ws_name ?st1, cmd_args = ws_args ?st1, cmd_arg_count = ws_arg_count ?st1\<rparr>)"
    using False by (simp add: split_words_def Let_def w(1) b)
  then show ?thesis
    using ne unfolding f by (cases "words_of ?s") (simp_all add: word_state_of_def command_of_def)
qed

section \<open>Stages\<close>

definition pipeline_of :: "command list \<Rightarrow> pipeline" where
  "pipeline_of cs = \<lparr>pl_stages = take 4 cs @ replicate (4 - length cs) command_empty, pl_stage_count = min 4 (length cs)\<rparr>"

lemma split_words_blank: "trim stage = [] \<Longrightarrow> split_words stage = None"
  by (simp add: split_words_eq words_of_def)

lemma push_stage_pipeline:
  "push_stage stage (pipeline_of cs) = pipeline_of (cs @ (case split_words stage of None \<Rightarrow> [] | Some c \<Rightarrow> [c]))"
proof (cases "split_words stage")
  case None
  then show ?thesis by (simp add: push_stage_def)
next
  case (Some c)
  then have "trim stage \<noteq> []" using split_words_blank by fastforce
  then show ?thesis
  proof (cases "length cs < 4")
    case True
    then have "replicate (4 - length cs) command_empty = command_empty # replicate (4 - Suc (length cs)) command_empty"
      by (metis Suc_diff_Suc replicate_Suc)
    then show ?thesis using True Some \<open>trim stage \<noteq> []\<close> by (simp add: push_stage_def pipeline_of_def list_update_append)
  next
    case False
    then show ?thesis using Some by (simp add: push_stage_def pipeline_of_def)
  qed
qed

definition commands_in :: "text_line list \<Rightarrow> command list" where
  "commands_in stages = concat (map (\<lambda>st. case split_words st of None \<Rightarrow> [] | Some c \<Rightarrow> [c]) stages)"

lemma stage_loop_stages:
  assumes "s = d @ rest" "start \<le> length d"
  shows "\<exists>start' p. stage_loop s start (length d) rest (pipeline_of cs) = (start', p)
    \<and> push_stage (drop start' s) p =
        pipeline_of (cs @ commands_in ((drop start d @ hd (pieces (\<lambda>c. c = PIPE) rest)) # tl (pieces (\<lambda>c. c = PIPE) rest)))"
  using assms
proof (induction rest arbitrary: d start cs)
  case Nil
  then show ?case by (simp add: push_stage_pipeline commands_in_def)
next
  case (Cons c r)
  have s: "s = (d @ [c]) @ r" using Cons.prems(1) by simp
  have sl: "take (length d - start) (drop start s) = drop start d" using Cons.prems by simp
  obtain y ys where y: "pieces (\<lambda>c. c = PIPE) r = y # ys" using pieces_nonempty [of "\<lambda>c. c = PIPE" r] by (cases "pieces (\<lambda>c. c = PIPE) r") auto
  show ?case
  proof (cases "c = PIPE")
    case True
    have "Suc (length d) \<le> length (d @ [c])" by simp
    from Cons.IH [OF s this, of "cs @ (case split_words (drop start d) of None \<Rightarrow> [] | Some c \<Rightarrow> [c])"] show ?thesis
      using True y by (auto simp: sl push_stage_pipeline commands_in_def)
  next
    case False
    have "start \<le> length (d @ [c])" using Cons.prems(2) by simp
    from Cons.IH [OF s this, of cs] show ?thesis using False y Cons.prems(2) by (auto simp: commands_in_def)
  qed
qed


end
