(* ===== verification/Libc.thy ===== *)
theory Libc
  imports Prelude
begin

text \<open>
  The memory and formatting routines of the C library, \<open>libraries/libc/src/lib.rs\<close>. Memory is a map from
  64-bit addresses to bytes and pointer arithmetic wraps.
\<close>

type_synonym memory = "u64 \<Rightarrow> u8"

section \<open>Copying and comparing\<close>

text \<open>The forward loop from the index \<open>i\<close>, with \<open>k\<close> bytes left.\<close>

primrec copy_forward :: "u64 \<Rightarrow> u64 \<Rightarrow> nat \<Rightarrow> nat \<Rightarrow> memory \<Rightarrow> memory" where
  "copy_forward dest src i 0 m = m"
| "copy_forward dest src i (Suc k) m =
     copy_forward dest src (Suc i) k (m(dest + word_of_nat i := m (src + word_of_nat i)))"

primrec copy_backward :: "u64 \<Rightarrow> u64 \<Rightarrow> nat \<Rightarrow> memory \<Rightarrow> memory" where
  "copy_backward dest src 0 m = m"
| "copy_backward dest src (Suc i) m = copy_backward dest src i (m(dest + word_of_nat i := m (src + word_of_nat i)))"

definition memcpy :: "u64 \<Rightarrow> u64 \<Rightarrow> u64 \<Rightarrow> memory \<Rightarrow> memory" where
  "memcpy dest src n m = copy_forward dest src 0 (unat n) m"

definition memmove :: "u64 \<Rightarrow> u64 \<Rightarrow> u64 \<Rightarrow> memory \<Rightarrow> memory" where
  "memmove dest src n m = (if src < dest then copy_backward dest src (unat n) m else copy_forward dest src 0 (unat n) m)"

primrec memcmp_loop :: "memory \<Rightarrow> u64 \<Rightarrow> u64 \<Rightarrow> nat \<Rightarrow> nat \<Rightarrow> i32" where
  "memcmp_loop m s1 s2 i 0 = 0"
| "memcmp_loop m s1 s2 i (Suc k) =
     (let a = m (s1 + word_of_nat i); b = m (s2 + word_of_nat i) in
      if a \<noteq> b then (if a < b then -1 else 1) else memcmp_loop m s1 s2 (Suc i) k)"

definition memcmp :: "memory \<Rightarrow> u64 \<Rightarrow> u64 \<Rightarrow> u64 \<Rightarrow> i32" where
  "memcmp m s1 s2 n = memcmp_loop m s1 s2 0 (unat n)"

primrec memset_loop :: "u64 \<Rightarrow> u8 \<Rightarrow> nat \<Rightarrow> nat \<Rightarrow> memory \<Rightarrow> memory" where
  "memset_loop s c i 0 m = m"
| "memset_loop s c i (Suc k) m = memset_loop s c (Suc i) k (m(s + word_of_nat i := c))"

definition memset :: "u64 \<Rightarrow> i32 \<Rightarrow> u64 \<Rightarrow> memory \<Rightarrow> memory" where
  "memset s c n m = memset_loop s (ucast c) 0 (unat n) m"

section \<open>Decimal output\<close>

text \<open>The digits, least significant first, into the buffer; at most sixteen.\<close>

function digit_loop :: "u32 \<Rightarrow> nat \<Rightarrow> u8 list \<Rightarrow> nat \<times> u8 list" where
  "digit_loop v i buf =
     (if 0 < v \<and> i < length buf then digit_loop (v div 10) (Suc i) (buf[i := 48 + ucast (v mod 10)]) else (i, buf))"
  by pat_completeness auto
termination
  by (relation "measure (\<lambda>(v, i, buf). length buf - i)") auto

function reverse_loop :: "nat \<Rightarrow> nat \<Rightarrow> u8 list \<Rightarrow> u8 list" where
  "reverse_loop lo hi buf = (if lo < hi then reverse_loop (Suc lo) (hi - 1) (buf[lo := buf ! hi, hi := buf ! lo]) else buf)"
  by pat_completeness auto
termination
  by (relation "measure (\<lambda>(lo, hi, buf). hi - lo)") auto

declare digit_loop.simps [simp del] reverse_loop.simps [simp del]

definition format_u32_into :: "u32 \<Rightarrow> u8 list \<Rightarrow> nat \<times> u8 list" where
  "format_u32_into v buf =
     (if v = 0 then (1, buf[0 := 48])
      else let (i, buf1) = digit_loop v 0 buf in (i, reverse_loop 0 (i - 1) buf1))"

section \<open>Properties of the memory routines\<close>

text \<open>The reference: every byte of the destination is the byte of the source before the call.\<close>

definition moved :: "u64 \<Rightarrow> u64 \<Rightarrow> nat \<Rightarrow> nat \<Rightarrow> memory \<Rightarrow> memory" where
  "moved dest src i n m = (\<lambda>a. if i \<le> unat (a - dest) \<and> unat (a - dest) < n then m (src + (a - dest)) else m a)"

lemma moved_empty [simp]: "moved dest src i i m = m"
  by (rule ext) (auto simp: moved_def)

lemma unat_sub_nat: "n < 2 ^ 64 \<Longrightarrow> unat (dest + word_of_nat n - dest :: u64) = n"
  by (simp add: unat_of_nat)

lemma nat_offset:
  fixes a dest :: u64
  shows "unat (a - dest) = n \<longleftrightarrow> n < 2 ^ 64 \<and> a = dest + word_of_nat n"
proof
  assume n: "unat (a - dest) = n"
  moreover have "unat (a - dest) < 2 ^ LENGTH(64)"
    by (rule unsigned_less)
  ultimately have b: "n < 2 ^ 64"
    by simp
  have "a - dest = word_of_nat n"
    using n b by (metis unat_sub_nat add_diff_cancel_left' word_unat_eq_iff)
  with b show "n < 2 ^ 64 \<and> a = dest + word_of_nat n"
    by (simp add: algebra_simps)
qed (use unat_sub_nat [of n dest] in simp)

text \<open>One more byte at either end of the part that is done.\<close>

lemma moved_Suc:
  assumes "n < 2 ^ 64" "i \<le> n"
  shows "(moved dest src i n m)(dest + word_of_nat n := m (src + word_of_nat n)) = moved dest src i (Suc n) m"
proof
  fix a
  show "((moved dest src i n m)(dest + word_of_nat n := m (src + word_of_nat n))) a = moved dest src i (Suc n) m a"
    using assms nat_offset [of a dest n] by (auto simp: moved_def less_Suc_eq)
qed

lemma moved_down:
  assumes "i < 2 ^ 64" "i < n"
  shows "(moved dest src (Suc i) n m)(dest + word_of_nat i := m (src + word_of_nat i)) = moved dest src i n m"
proof
  fix a
  show "((moved dest src (Suc i) n m)(dest + word_of_nat i := m (src + word_of_nat i))) a = moved dest src i n m a"
    using assms nat_offset [of a dest i] by (auto simp: moved_def Suc_le_eq le_less)
qed

lemma unat_plus_nat: "unat (src :: u64) + i < 2 ^ 64 \<Longrightarrow> unat (src + word_of_nat i) = unat src + i"
  by (simp add: unat_add_no_wrap unat_of_nat)

lemma copy_forward_moved:
  "dest \<le> src \<Longrightarrow> unat src + i + k \<le> 2 ^ 64 \<Longrightarrow> copy_forward dest src i k (moved dest src 0 i m) = moved dest src 0 (i + k) m"
proof (induction k arbitrary: i)
  case (Suc k)
  have u: "unat (src + word_of_nat i) = unat src + i"
    using Suc.prems(2) by (intro unat_plus_nat) simp
  then have "i \<le> unat (src + word_of_nat i - dest)"
    using Suc.prems(1) by (simp add: unat_sub_if' word_le_nat_alt)
  then have "moved dest src 0 i m (src + word_of_nat i) = m (src + word_of_nat i)"
    by (simp add: moved_def)
  moreover have "i < 2 ^ 64"
    using Suc.prems(2) by simp
  ultimately show ?case
    using Suc.IH [of "Suc i"] Suc.prems by (simp add: moved_Suc)
qed simp

lemma copy_backward_moved:
  "src < dest \<Longrightarrow> unat dest + n \<le> 2 ^ 64 \<Longrightarrow> i \<le> n \<Longrightarrow> copy_backward dest src i (moved dest src i n m) = moved dest src 0 n m"
proof (induction i)
  case (Suc i)
  have lt: "unat src < unat dest"
    using Suc.prems(1) by (simp add: word_less_nat_alt)
  then have u: "unat (src + word_of_nat i) = unat src + i"
    using Suc.prems(2,3) by (intro unat_plus_nat) simp
  have "unat (src + word_of_nat i - dest) < Suc i \<or> n \<le> unat (src + word_of_nat i - dest)"
    using lt Suc.prems(2) by (auto simp: unat_sub_if' u)
  then have "moved dest src (Suc i) n m (src + word_of_nat i) = m (src + word_of_nat i)"
    by (auto simp: moved_def)
  moreover have "i < 2 ^ 64"
    using Suc.prems(2,3) by simp
  ultimately show ?case
    using Suc by (simp add: moved_down)
qed simp

text \<open>
  C28. \<open>memmove\<close> is correct for every overlap: when neither range wraps around the address space, each
  byte of the destination becomes the byte the source had before the call, and no other byte changes.
\<close>

theorem memmove_correct:
  assumes "unat src + unat n \<le> 2 ^ 64" "unat dest + unat n \<le> 2 ^ 64"
  shows "memmove dest src n m = (\<lambda>a. if unat (a - dest) < unat n then m (src + (a - dest)) else m a)"
proof -
  have "memmove dest src n m = moved dest src 0 (unat n) m"
  proof (cases "src < dest")
    case True
    then show ?thesis
      using copy_backward_moved [OF True assms(2), of "unat n" m] by (simp add: memmove_def)
  next
    case False
    then show ?thesis
      using copy_forward_moved [of dest src 0 "unat n" m] assms(1) by (simp add: memmove_def)
  qed
  then show ?thesis
    by (simp add: moved_def)
qed

text \<open>Four bytes moved up by one, over themselves.\<close>

theorem memmove_correct_witness:
  "memmove 101 100 4 (\<lambda>a. ucast a) 104 = 103"
  using memmove_correct [of 100 4 101 "\<lambda>a. ucast a"] by simp

lemma memcpy_forward:
  assumes "dest \<le> src" "unat src + unat n \<le> 2 ^ 64"
  shows "memcpy dest src n m = moved dest src 0 (unat n) m"
  using copy_forward_moved [OF assms(1), of 0 "unat n" m] assms(2) by (simp add: memcpy_def)

lemma memcmp_loop_equal:
  "memcmp_loop m s1 s2 i k = 0 \<longleftrightarrow> (\<forall>j<k. m (s1 + word_of_nat (i + j)) = m (s2 + word_of_nat (i + j)))"
proof (induction k arbitrary: i)
  case (Suc k)
  show ?case
    using Suc.IH [of "Suc i"] by (auto simp: Let_def All_less_Suc2 ac_simps)
qed simp

lemma memset_loop_set:
  "i + k \<le> 2 ^ 64 \<Longrightarrow> memset_loop s c i k m a = (if i \<le> unat (a - s) \<and> unat (a - s) < i + k then c else m a)"
proof (induction k arbitrary: i m)
  case (Suc k)
  have "unat (a - s) = i \<longleftrightarrow> a = s + word_of_nat i"
    using nat_offset [of a s i] Suc.prems by auto
  then show ?case
    using Suc.prems by (simp only: memset_loop.simps, subst Suc.IH) auto
qed auto

section \<open>Properties of the decimal output\<close>

fun decimal :: "nat \<Rightarrow> u8 list" where
  "decimal n = (if n < 10 then [word_of_nat (48 + n)] else decimal (n div 10) @ [word_of_nat (48 + n mod 10)])"

declare decimal.simps [simp del]

lemma decimal_nonempty [simp]: "decimal n \<noteq> []"
  by (subst decimal.simps) simp

lemma length_decimal: "n < 10 ^ Suc k \<Longrightarrow> length (decimal n) \<le> Suc k"
proof (induction k arbitrary: n)
  case 0
  then show ?case by (subst decimal.simps) simp
next
  case (Suc k)
  then have "n div 10 < 10 ^ Suc k"
    by (simp add: less_mult_imp_div_less mult.commute)
  with Suc.IH show ?case by (subst decimal.simps) simp
qed

lemma digit_byte: "48 + ucast (v mod 10 :: u32) = (word_of_nat (48 + unat v mod 10) :: u8)"
proof -
  have "ucast (v mod 10) = (word_of_nat (unat (v mod 10)) :: u8)"
    by (simp add: unsigned_ucast_eq)
  then show ?thesis
    by (simp add: unat_mod)
qed

lemma digit_loop_decimal:
  "0 < v \<Longrightarrow> i + length (decimal (unat v)) \<le> length buf \<Longrightarrow>
   digit_loop v i buf = (i + length (decimal (unat v)), take i buf @ rev (decimal (unat v)) @ drop (i + length (decimal (unat v))) buf)"
proof (induction v i buf rule: digit_loop.induct)
  case (1 v i buf)
  have i: "i < length buf"
    using "1.prems"(2) by (metis add_leE decimal_nonempty length_greater_0_conv less_add_same_cancel1 order_less_le_trans)
  have q: "unat (v div 10) = unat v div 10"
    by (simp add: unat_div)
  let ?d = "word_of_nat (48 + unat v mod 10) :: u8"
  have step: "digit_loop v i buf = digit_loop (v div 10) (Suc i) (buf[i := ?d])"
    using "1.prems"(1) i by (subst digit_loop.simps) (simp add: digit_byte)
  show ?case
  proof (cases "unat v < 10")
    case True
    then have "v div 10 = 0"
      using q by (simp add: word_unat_eq_iff)
    moreover have "decimal (unat v) = [?d]"
      using True by (subst decimal.simps) simp
    ultimately show ?thesis
      using step i by (simp add: digit_loop.simps [of 0] upd_conv_take_nth_drop)
  next
    case False
    then have d: "decimal (unat v) = decimal (unat (v div 10)) @ [?d]"
      by (subst decimal.simps) (simp add: q)
    have "0 < v div 10"
      using False q by (simp add: word_less_nat_alt) 
    with "1.IH" "1.prems" i d step show ?thesis
      by (simp add: digit_byte take_Suc_conv_app_nth)
  qed
qed

lemma reverse_loop_nth:
  "hi < length buf \<Longrightarrow> length (reverse_loop lo hi buf) = length buf \<and>
   (\<forall>k<length buf. reverse_loop lo hi buf ! k = (if lo \<le> k \<and> k \<le> hi then buf ! (lo + hi - k) else buf ! k))"
proof (induction lo hi buf rule: reverse_loop.induct)
  case (1 lo hi buf)
  show ?case
  proof (cases "lo < hi")
    case True
    with "1.IH" [OF True] "1.prems" show ?thesis
      by (subst (1 2) reverse_loop.simps) (auto simp: nth_list_update)
  next
    case False
    then have "buf ! k = buf ! (lo + hi - k)" if "lo \<le> k" "k \<le> hi" for k
      using that by (metis add_diff_cancel_right' le_antisym le_trans not_less)
    with False show ?thesis
      by (subst (1 2) reverse_loop.simps) auto
  qed
qed

lemma reverse_loop_rev:
  assumes "0 < n" "n \<le> length buf"
  shows "take n (reverse_loop 0 (n - 1) buf) = rev (take n buf)"
  using assms reverse_loop_nth [of "n - 1" buf 0]
  by (intro nth_equalityI) (auto simp: rev_nth)

text \<open>
  The decimal conversion of the panic handler is right for every 32-bit number: the bytes it reports
  as written are the decimal digits of the number, and the sixteen-byte buffer is never too short.
\<close>

theorem format_u32_decimal:
  assumes "length buf = 16"
  shows "(case format_u32_into v buf of (n, out) \<Rightarrow> take n out = decimal (unat v) \<and> length out = 16)"
proof (cases "v = 0")
  case True
  then show ?thesis
    using assms by (cases buf) (simp_all add: format_u32_into_def decimal.simps [of 0])
next
  case False
  have "unat v < 2 ^ LENGTH(32)"
    by (rule unsigned_less)
  then have "unat v < 10 ^ Suc 9"
    by simp
  then have len: "length (decimal (unat v)) \<le> 10"
    using length_decimal [of "unat v" 9] by simp
  let ?n = "length (decimal (unat v))" and ?b = "rev (decimal (unat v)) @ drop (length (decimal (unat v))) buf"
  have d: "digit_loop v 0 buf = (?n, ?b)"
    using digit_loop_decimal [of v 0 buf] False len assms by (simp add: word_neq_0_conv)
  have "take ?n (reverse_loop 0 (?n - 1) ?b) = rev (take ?n ?b)"
    using len assms by (intro reverse_loop_rev) simp_all
  moreover have "length (reverse_loop 0 (?n - 1) ?b) = length ?b"
    using reverse_loop_nth [of "?n - 1" ?b 0] len assms by simp
  ultimately show ?thesis
    using False d assms len by (simp add: format_u32_into_def)
qed

theorem format_u32_decimal_witness:
  "(case format_u32_into 2026 (replicate 16 0) of (n, out) \<Rightarrow> take n out = [50, 48, 50, 54] \<and> length out = 16)"
proof -
  have "decimal (unat (2026 :: u32)) = [50, 48, 50, 54]"
    by (simp add: decimal.simps)
  then show ?thesis
    using format_u32_decimal [of "replicate 16 0" 2026] by simp
qed

end
