(* ===== verification/Ramfs.thy ===== *)
theory Ramfs
  imports Shared_Types
begin

text \<open>
  The in-memory file system of the file service, \<open>userspace/services/fileagent/src/ramfs.rs\<close>. Nodes are
  indices into parallel arrays of sixteen entries; the children of a directory form a list linked
  through \<open>NEXT_SIBLING\<close>. Indices are signed in the source and integers here, with \<open>-1\<close> for none. The
  loops that follow the links need not end, since nothing prevents a cycle: they are partial functions
  into \<open>option\<close>, and an operation whose value is \<open>None\<close> never returns. \<open>Crash\<close> is a Rust panic, which
  ends the service.
\<close>

section \<open>State\<close>

definition MAX_FILES :: nat where "MAX_FILES = 16"
definition MAX_NAME :: nat where "MAX_NAME = 64"
definition FILE_SIZE :: nat where "FILE_SIZE = 4096"

datatype node_type = NodeFile | NodeDirectory

datatype 'a outcome = Done 'a | Crash

record ramfs =
  rf_names :: "u8 list list"
  rf_name_lens :: "u8 list"
  rf_ntypes :: "u8 list"
  rf_sizes :: "u32 list"
  rf_parents :: "int list"
  rf_first_child :: "int list"
  rf_next_sibling :: "int list"
  rf_child_counts :: "u8 list"
  rf_datas :: "u8 list list"
  rf_root :: int
  rf_next_idx :: int

definition ramfs_static :: ramfs where
  "ramfs_static =
     \<lparr>rf_names = replicate MAX_FILES (replicate MAX_NAME 0), rf_name_lens = replicate MAX_FILES 0, rf_ntypes = replicate MAX_FILES 0,
      rf_sizes = replicate MAX_FILES 0, rf_parents = replicate MAX_FILES (-1), rf_first_child = replicate MAX_FILES (-1),
      rf_next_sibling = replicate MAX_FILES (-1), rf_child_counts = replicate MAX_FILES 0,
      rf_datas = replicate MAX_FILES (replicate FILE_SIZE 0), rf_root = -1, rf_next_idx = 0\<rparr>"

definition ramfs_init :: "ramfs \<Rightarrow> ramfs" where
  "ramfs_init r = r\<lparr>rf_root := 0, rf_next_idx := 1, rf_ntypes := (rf_ntypes r)[0 := 2], rf_name_lens := (rf_name_lens r)[0 := 1],
     rf_names := (rf_names r)[0 := (rf_names r ! 0)[0 := 0x2F]]\<rparr>"

section \<open>Nodes\<close>

definition free_scan :: "ramfs \<Rightarrow> nat option" where
  "free_scan r = find (\<lambda>j. rf_ntypes r ! j = 0) [1..<MAX_FILES]"

text \<open>The cursor is used while it is in range, whatever the node it points at holds.\<close>

definition alloc_idx :: "ramfs \<Rightarrow> int option \<times> ramfs" where
  "alloc_idx r =
     (let i = rf_next_idx r in
      if nat i < MAX_FILES \<and> 0 \<le> i then (Some i, r\<lparr>rf_next_idx := i + 1\<rparr>)
      else case free_scan r of
        Some j \<Rightarrow> (Some (int j), r\<lparr>rf_next_idx := int j + 1\<rparr>)
      | None \<Rightarrow> (None, r))"

partial_function (option) last_sibling :: "int list \<Rightarrow> int \<Rightarrow> int option" where
  "last_sibling ns cur = (if ns ! nat cur < 0 then Some cur else last_sibling ns (ns ! nat cur))"

definition type_byte :: "node_type \<Rightarrow> u8" where
  "type_byte t = (case t of NodeFile \<Rightarrow> 1 | NodeDirectory \<Rightarrow> 2)"

definition fill_node :: "nat \<Rightarrow> u8 list \<Rightarrow> node_type \<Rightarrow> int \<Rightarrow> ramfs \<Rightarrow> ramfs" where
  "fill_node i name t parent r =
     (let n = min (length name) (MAX_NAME - 1) in
      r\<lparr>rf_names := (rf_names r)[i := take n name @ drop n (rf_names r ! i)], rf_name_lens := (rf_name_lens r)[i := word_of_nat n],
        rf_ntypes := (rf_ntypes r)[i := type_byte t], rf_sizes := (rf_sizes r)[i := 0], rf_parents := (rf_parents r)[i := parent],
        rf_first_child := (rf_first_child r)[i := -1], rf_next_sibling := (rf_next_sibling r)[i := -1],
        rf_child_counts := (rf_child_counts r)[i := 0]\<rparr>)"

text \<open>Appending the node \<open>idx\<close> to the children of \<open>parent\<close>.\<close>

definition link_child :: "int \<Rightarrow> int \<Rightarrow> ramfs \<Rightarrow> ramfs option" where
  "link_child parent idx r =
     (let pu = nat parent; bump = (\<lambda>r. r\<lparr>rf_child_counts := (rf_child_counts r)[pu := rf_child_counts r ! pu + 1]\<rparr>) in
      if rf_first_child r ! pu < 0 then Some (bump (r\<lparr>rf_first_child := (rf_first_child r)[pu := idx]\<rparr>))
      else case last_sibling (rf_next_sibling r) (rf_first_child r ! pu) of
        None \<Rightarrow> None
      | Some l \<Rightarrow> Some (bump (r\<lparr>rf_next_sibling := (rf_next_sibling r)[nat l := idx]\<rparr>)))"

definition set_node :: "u8 list \<Rightarrow> node_type \<Rightarrow> int \<Rightarrow> ramfs \<Rightarrow> (int option \<times> ramfs) option" where
  "set_node name t parent r =
     (case alloc_idx r of
        (None, r1) \<Rightarrow> Some (None, r1)
      | (Some idx, r1) \<Rightarrow>
          (let r2 = fill_node (nat idx) name t parent r1 in
           if 0 \<le> parent then
             (case link_child parent idx r2 of None \<Rightarrow> None | Some r3 \<Rightarrow> Some (Some idx, r3))
           else Some (Some idx, r2)))"

definition node_name :: "ramfs \<Rightarrow> int \<Rightarrow> u8 list" where
  "node_name r x = take (unat (rf_name_lens r ! nat x)) (rf_names r ! nat x)"

partial_function (option) find_sibling :: "ramfs \<Rightarrow> u8 list \<Rightarrow> int \<Rightarrow> int option option" where
  "find_sibling r name cur =
     (if cur < 0 then Some None
      else if unat (rf_name_lens r ! nat cur) = length name \<and> node_name r cur = name then Some (Some cur)
      else find_sibling r name (rf_next_sibling r ! nat cur))"

definition find_child :: "int \<Rightarrow> u8 list \<Rightarrow> ramfs \<Rightarrow> int option option" where
  "find_child parent name r =
     (if parent < 0 \<or> MAX_FILES \<le> nat parent then Some None
      else find_sibling r name (rf_first_child r ! nat parent))"

definition create_file :: "int \<Rightarrow> u8 list \<Rightarrow> ramfs \<Rightarrow> (int option \<times> ramfs) option" where
  "create_file parent name r =
     (if parent < 0 \<or> MAX_FILES \<le> nat parent then Some (None, r)
      else if rf_ntypes r ! nat parent \<noteq> 2 then Some (None, r)
      else case find_child parent name r of
        None \<Rightarrow> None
      | Some (Some _) \<Rightarrow> Some (None, r)
      | Some None \<Rightarrow> set_node name NodeFile parent r)"

definition create_dir :: "int \<Rightarrow> u8 list \<Rightarrow> ramfs \<Rightarrow> (int option \<times> ramfs) option" where
  "create_dir parent name r =
     (if parent < 0 \<or> MAX_FILES \<le> nat parent then Some (None, r)
      else if rf_ntypes r ! nat parent \<noteq> 2 then Some (None, r)
      else case find_child parent name r of
        None \<Rightarrow> None
      | Some (Some _) \<Rightarrow> Some (None, r)
      | Some None \<Rightarrow> set_node name NodeDirectory parent r)"

section \<open>Paths\<close>

text \<open>\<open>path.split('/')\<close> without its empty pieces, and the path without a leading slash.\<close>

fun split_path :: "u8 list \<Rightarrow> u8 list \<Rightarrow> u8 list list" where
  "split_path acc [] = [acc]"
| "split_path acc (b # bs) = (if b = 0x2F then acc # split_path [] bs else split_path (acc @ [b]) bs)"

definition components :: "u8 list \<Rightarrow> u8 list list" where
  "components path = filter (\<lambda>c. c \<noteq> []) (split_path [] path)"

definition clean_path :: "u8 list \<Rightarrow> u8 list" where
  "clean_path path = (case path of b # bs \<Rightarrow> if b = 0x2F then bs else path | [] \<Rightarrow> [])"

fun resolve_loop :: "ramfs \<Rightarrow> u8 list list \<Rightarrow> int \<Rightarrow> int option option" where
  "resolve_loop r [] current = Some (Some current)"
| "resolve_loop r (c # cs) current =
     (case find_sibling r c (rf_first_child r ! nat current) of
        None \<Rightarrow> None
      | Some None \<Rightarrow> Some None
      | Some (Some x) \<Rightarrow> resolve_loop r cs x)"

definition resolve :: "u8 list \<Rightarrow> ramfs \<Rightarrow> int option option" where
  "resolve path r =
     (let clean = clean_path path in
      if rf_root r < 0 then Some None
      else if clean = [] then Some (Some (rf_root r))
      else resolve_loop r (components clean) (rf_root r))"

fun mkdir_loop :: "u8 list list \<Rightarrow> int \<Rightarrow> ramfs \<Rightarrow> (i32 \<times> ramfs) option" where
  "mkdir_loop [] current r = Some (0, r)"
| "mkdir_loop (c # cs) current r =
     (case find_sibling r c (rf_first_child r ! nat current) of
        None \<Rightarrow> None
      | Some (Some x) \<Rightarrow>
          (if cs = [] then Some (status_code AlreadyExists, r)
           else if rf_ntypes r ! nat x \<noteq> 2 then Some (status_code WrongType, r)
           else mkdir_loop cs x r)
      | Some None \<Rightarrow>
          (case create_dir current c r of
             None \<Rightarrow> None
           | Some (Some n, r1) \<Rightarrow> mkdir_loop cs n r1
           | Some (None, r1) \<Rightarrow> Some (status_code NoMemory, r1)))"

definition mkdir_path :: "u8 list \<Rightarrow> ramfs \<Rightarrow> (i32 \<times> ramfs) option" where
  "mkdir_path path r =
     (let clean = clean_path path in
      if clean = [] then Some (0, r)
      else if rf_root r < 0 then Some (status_code NotFound, r)
      else mkdir_loop (components clean) (rf_root r) r)"

definition last_slash :: "u8 list \<Rightarrow> nat option" where
  "last_slash bs = find (\<lambda>i. bs ! i = 0x2F) (rev [0..<length bs])"

definition create_file_path :: "u8 list \<Rightarrow> ramfs \<Rightarrow> (int option \<times> ramfs) option" where
  "create_file_path path r =
     (let clean = clean_path path in
      if clean = [] then Some (None, r)
      else case last_slash clean of
        None \<Rightarrow> create_file (rf_root r) clean r
      | Some i \<Rightarrow>
          (case resolve (take i clean) r of
             None \<Rightarrow> None
           | Some None \<Rightarrow> Some (None, r)
           | Some (Some p) \<Rightarrow> create_file p (drop (i + 1) clean) r))"

section \<open>Contents\<close>

definition bad_index :: "int \<Rightarrow> bool" where
  "bad_index idx \<longleftrightarrow> idx < 0 \<or> MAX_FILES \<le> nat idx"

definition ramfs_read :: "int \<Rightarrow> nat \<Rightarrow> nat \<Rightarrow> ramfs \<Rightarrow> i32 \<times> u8 list" where
  "ramfs_read idx buf_len offset r =
     (if bad_index idx \<or> rf_ntypes r ! nat idx = 0 then (-1, [])
      else let sz = unat (rf_sizes r ! nat idx) in
      if sz \<le> offset then (0, [])
      else let n = min buf_len (sz - offset) in (word_of_nat n, take n (drop offset (rf_datas r ! nat idx))))"

text \<open>\<open>FILE_SIZE - offset\<close> wraps when the offset is past the end; the slice then panics.\<close>

definition ramfs_write :: "int \<Rightarrow> u8 list \<Rightarrow> nat \<Rightarrow> ramfs \<Rightarrow> i32 outcome \<times> ramfs" where
  "ramfs_write idx data offset r =
     (if bad_index idx \<or> rf_ntypes r ! nat idx \<noteq> 1 then (Done (-1), r)
      else if FILE_SIZE < offset then (Crash, r)
      else let iu = nat idx; n = min (length data) (FILE_SIZE - offset); old = rf_datas r ! iu;
               new_size = word_of_nat (offset + n);
               r1 = r\<lparr>rf_datas := (rf_datas r)[iu := take offset old @ take n data @ drop (offset + n) old]\<rparr>
           in (Done (word_of_nat n), if rf_sizes r ! iu < new_size then r1\<lparr>rf_sizes := (rf_sizes r)[iu := new_size]\<rparr> else r1))"

definition stat_size :: "int \<Rightarrow> ramfs \<Rightarrow> i32" where
  "stat_size idx r = (if bad_index idx \<or> rf_ntypes r ! nat idx = 0 then -1 else rf_sizes r ! nat idx)"

definition stat_type :: "int \<Rightarrow> ramfs \<Rightarrow> node_type option" where
  "stat_type idx r =
     (if bad_index idx then None
      else if rf_ntypes r ! nat idx = 1 then Some NodeFile
      else if rf_ntypes r ! nat idx = 2 then Some NodeDirectory
      else None)"

section \<open>Removal and listing\<close>

definition unlink_node :: "nat \<Rightarrow> nat \<Rightarrow> int \<Rightarrow> ramfs \<Rightarrow> ramfs" where
  "unlink_node pu cu prev r =
     (let r1 = (if prev < 0 then r\<lparr>rf_first_child := (rf_first_child r)[pu := rf_next_sibling r ! cu]\<rparr>
                else r\<lparr>rf_next_sibling := (rf_next_sibling r)[nat prev := rf_next_sibling r ! cu]\<rparr>);
          r2 = r1\<lparr>rf_child_counts := (rf_child_counts r1)[pu := rf_child_counts r1 ! pu - 1]\<rparr>
      in r2\<lparr>rf_ntypes := (rf_ntypes r2)[cu := 0], rf_name_lens := (rf_name_lens r2)[cu := 0], rf_sizes := (rf_sizes r2)[cu := 0],
           rf_parents := (rf_parents r2)[cu := -1], rf_first_child := (rf_first_child r2)[cu := -1],
           rf_next_sibling := (rf_next_sibling r2)[cu := -1], rf_child_counts := (rf_child_counts r2)[cu := 0],
           rf_datas := (rf_datas r2)[cu := replicate FILE_SIZE 0]\<rparr>)"

partial_function (option) remove_loop :: "nat \<Rightarrow> int \<Rightarrow> int \<Rightarrow> int \<Rightarrow> ramfs \<Rightarrow> (bool \<times> ramfs) option" where
  "remove_loop pu child prev cur r =
     (if cur < 0 then Some (False, r)
      else if cur = child then Some (True, unlink_node pu (nat child) prev r)
      else remove_loop pu child cur (rf_next_sibling r ! nat cur) r)"

definition remove_node :: "int \<Rightarrow> int \<Rightarrow> ramfs \<Rightarrow> (bool \<times> ramfs) option" where
  "remove_node parent child r =
     (if bad_index parent \<or> bad_index child then Some (False, r)
      else if rf_ntypes r ! nat child = 2 \<and> 0 < rf_child_counts r ! nat child then Some (False, r)
      else if rf_ntypes r ! nat child = 0 then Some (False, r)
      else remove_loop (nat parent) child (-1) (rf_first_child r ! nat parent) r)"

definition parent_of :: "int \<Rightarrow> ramfs \<Rightarrow> int" where
  "parent_of child r = (if bad_index child then -1 else rf_parents r ! nat child)"

partial_function (option) readdir_loop :: "ramfs \<Rightarrow> nat \<Rightarrow> bool \<Rightarrow> int \<Rightarrow> u8 list \<Rightarrow> u8 list option" where
  "readdir_loop r buf_len first cur out =
     (if cur < 0 then Some out
      else if \<not> first \<and> buf_len \<le> length out then Some out
      else let out1 = (if first then out else out @ [10]);
               n = min (unat (rf_name_lens r ! nat cur)) (buf_len - length out1)
           in readdir_loop r buf_len False (rf_next_sibling r ! nat cur) (out1 @ take n (rf_names r ! nat cur)))"

definition readdir_names :: "int \<Rightarrow> nat \<Rightarrow> ramfs \<Rightarrow> (i32 \<times> u8 list) option" where
  "readdir_names parent buf_len r =
     (if bad_index parent \<or> rf_ntypes r ! nat parent \<noteq> 2 then Some (-1, [])
      else map_option (\<lambda>out. (word_of_nat (length out), out)) (readdir_loop r buf_len True (rf_first_child r ! nat parent) []))"

section \<open>Sibling lists\<close>

text \<open>\<open>chain ns c xs\<close>: following the links \<open>ns\<close> from \<open>c\<close> visits exactly the nodes \<open>xs\<close>.\<close>

fun chain :: "int list \<Rightarrow> int \<Rightarrow> nat list \<Rightarrow> bool" where
  "chain ns c [] \<longleftrightarrow> c < 0"
| "chain ns c (x # xs) \<longleftrightarrow> c = int x \<and> x < length ns \<and> chain ns (ns ! x) xs"

definition named :: "ramfs \<Rightarrow> u8 list \<Rightarrow> nat \<Rightarrow> bool" where
  "named r name x \<longleftrightarrow> unat (rf_name_lens r ! x) = length name \<and> node_name r (int x) = name"

lemma find_sibling_chain:
  "chain (rf_next_sibling r) c xs \<Longrightarrow> find_sibling r name c = Some (map_option int (find (named r name) xs))"
  by (induction xs arbitrary: c) (auto simp: find_sibling.simps [of r name] named_def)

lemma last_sibling_chain:
  "chain ns c xs \<Longrightarrow> xs \<noteq> [] \<Longrightarrow> last_sibling ns c = Some (int (last xs))"
proof (induction xs arbitrary: c)
  case (Cons x xs)
  then show ?case
    by (cases xs) (auto simp: last_sibling.simps [of ns])
qed simp

lemma chain_update: "chain ns c xs \<Longrightarrow> k \<notin> set xs \<Longrightarrow> chain (ns[k := v]) c xs"
  by (induction xs arbitrary: c) auto

lemma chain_snoc:
  "chain ns c xs \<Longrightarrow> distinct xs \<Longrightarrow> xs \<noteq> [] \<Longrightarrow> i \<notin> set xs \<Longrightarrow> i < length ns \<Longrightarrow> ns ! i < 0
   \<Longrightarrow> chain (ns[last xs := int i]) c (xs @ [i])"
proof (induction xs arbitrary: c)
  case (Cons x xs)
  show ?case
  proof (cases "xs = []")
    case False
    then have "last xs \<noteq> x"
      using Cons.prems(2) last_in_set [of xs] by auto
    with Cons False show ?thesis
      by auto
  qed (use Cons in auto)
qed simp

lemma chain_nodes: "chain ns c xs \<Longrightarrow> set xs \<subseteq> {..<length ns}"
  by (induction xs arbitrary: c) auto

lemma chain_unique: "chain ns c xs \<Longrightarrow> chain ns c ys \<Longrightarrow> xs = ys"
proof (induction xs arbitrary: c ys)
  case Nil
  then show ?case by (cases ys) auto
next
  case (Cons x xs)
  then show ?case by (cases ys) auto
qed

section \<open>The tree a state represents\<close>

definition rf_sized :: "ramfs \<Rightarrow> bool" where
  "rf_sized r \<longleftrightarrow> length (rf_names r) = MAX_FILES \<and> length (rf_name_lens r) = MAX_FILES \<and> length (rf_ntypes r) = MAX_FILES \<and>
     length (rf_sizes r) = MAX_FILES \<and> length (rf_parents r) = MAX_FILES \<and> length (rf_first_child r) = MAX_FILES \<and>
     length (rf_next_sibling r) = MAX_FILES \<and> length (rf_child_counts r) = MAX_FILES \<and> length (rf_datas r) = MAX_FILES \<and>
     (\<forall>x<MAX_FILES. length (rf_names r ! x) = MAX_NAME \<and> unat (rf_name_lens r ! x) < MAX_NAME \<and>
        length (rf_datas r ! x) = FILE_SIZE \<and> unat (rf_sizes r ! x) \<le> FILE_SIZE)"

definition children_ok :: "ramfs \<Rightarrow> (nat \<Rightarrow> nat list) \<Rightarrow> nat \<Rightarrow> bool" where
  "children_ok r K p \<longleftrightarrow> chain (rf_next_sibling r) (rf_first_child r ! p) (K p) \<and> distinct (K p) \<and>
     distinct (map (\<lambda>x. node_name r (int x)) (K p)) \<and>
     (\<forall>x\<in>set (K p). x \<noteq> 0 \<and> rf_ntypes r ! x \<noteq> 0 \<and> rf_parents r ! x = int p) \<and>
     unat (rf_child_counts r ! p) = length (K p) \<and> (K p \<noteq> [] \<longrightarrow> rf_ntypes r ! p = 2)"

text \<open>\<open>represents r K\<close>: in the state \<open>r\<close> the children of every node \<open>p\<close> are \<open>K p\<close>, in that order.\<close>

definition represents :: "ramfs \<Rightarrow> (nat \<Rightarrow> nat list) \<Rightarrow> bool" where
  "represents r K \<longleftrightarrow> rf_sized r \<and> rf_root r = 0 \<and> rf_ntypes r ! 0 = 2 \<and> (\<forall>p<MAX_FILES. children_ok r K p) \<and>
     (\<forall>x<MAX_FILES. x \<noteq> 0 \<longrightarrow> rf_ntypes r ! x \<noteq> 0 \<longrightarrow> (\<exists>p<MAX_FILES. rf_parents r ! x = int p \<and> x \<in> set (K p)))"

text \<open>Every node from the cursor on is free: true until the cursor has passed the last node once.\<close>

definition cursor_ok :: "ramfs \<Rightarrow> bool" where
  "cursor_ok r \<longleftrightarrow> 1 \<le> rf_next_idx r \<and> rf_next_idx r \<le> int MAX_FILES \<and>
     (\<forall>x<MAX_FILES. rf_next_idx r \<le> int x \<longrightarrow> rf_ntypes r ! x = 0)"

lemma children_okD:
  assumes "represents r K" "p < MAX_FILES"
  shows "chain (rf_next_sibling r) (rf_first_child r ! p) (K p)" "distinct (K p)"
    "distinct (map (\<lambda>x. node_name r (int x)) (K p))" "unat (rf_child_counts r ! p) = length (K p)"
    "K p \<noteq> [] \<Longrightarrow> rf_ntypes r ! p = 2"
    "x \<in> set (K p) \<Longrightarrow> x \<noteq> 0 \<and> x < MAX_FILES \<and> rf_ntypes r ! x \<noteq> 0 \<and> rf_parents r ! x = int p"
  using assms chain_nodes [of "rf_next_sibling r" "rf_first_child r ! p" "K p"]
  by (auto simp: represents_def children_ok_def rf_sized_def)

lemma named_iff:
  "rf_sized r \<Longrightarrow> x < MAX_FILES \<Longrightarrow> named r name x \<longleftrightarrow> node_name r (int x) = name"
  by (auto simp: named_def node_name_def rf_sized_def)

lemma find_child_represents:
  assumes "represents r K" "p < MAX_FILES"
  shows "find_child (int p) name r = Some (map_option int (find (\<lambda>x. node_name r (int x) = name) (K p)))"
proof -
  have "find (named r name) (K p) = find (\<lambda>x. node_name r (int x) = name) (K p)"
    using children_okD (6) [OF assms] assms(1) by (intro find_cong) (auto simp: named_iff represents_def)
  with find_sibling_chain [OF children_okD(1) [OF assms], of name] assms(2) show ?thesis
    by (simp add: find_child_def)
qed

section \<open>Creating a node\<close>

lemma alloc_idx_cursor:
  assumes "cursor_ok r" "rf_next_idx r = int i" "i < MAX_FILES"
  shows "alloc_idx r = (Some (int i), r\<lparr>rf_next_idx := int i + 1\<rparr>)" "i \<noteq> 0" "rf_ntypes r ! i = 0"
  using assms by (auto simp: alloc_idx_def cursor_ok_def Let_def)

text \<open>The effect of filling the free node \<open>i\<close> and appending it to the children of \<open>p\<close>.\<close>

definition grown :: "nat \<Rightarrow> u8 list \<Rightarrow> node_type \<Rightarrow> nat \<Rightarrow> (nat \<Rightarrow> nat list) \<Rightarrow> ramfs \<Rightarrow> ramfs" where
  "grown i name t p K r =
     (let f = fill_node i name t (int p) (r\<lparr>rf_next_idx := int i + 1\<rparr>);
          g = (if K p = [] then f\<lparr>rf_first_child := (rf_first_child f)[p := int i]\<rparr>
               else f\<lparr>rf_next_sibling := (rf_next_sibling f)[last (K p) := int i]\<rparr>)
      in g\<lparr>rf_child_counts := (rf_child_counts g)[p := rf_child_counts g ! p + 1]\<rparr>)"

lemma free_not_child:
  "represents r K \<Longrightarrow> i < MAX_FILES \<Longrightarrow> rf_ntypes r ! i = 0 \<Longrightarrow> p < MAX_FILES \<Longrightarrow> i \<notin> set (K p)"
  using children_okD(6) by blast

lemma free_no_children:
  "represents r K \<Longrightarrow> i < MAX_FILES \<Longrightarrow> rf_ntypes r ! i = 0 \<Longrightarrow> K i = []"
  using children_okD(5) by fastforce

lemma set_node_grown:
  assumes R: "represents r K" and A: "alloc_idx r = (Some (int i), r\<lparr>rf_next_idx := int i + 1\<rparr>)"
    and C: "i < MAX_FILES" and f: "rf_ntypes r ! i = 0" and p: "p < MAX_FILES" "rf_ntypes r ! p = 2"
  shows "set_node name t (int p) r = Some (Some (int i), grown i name t p K r)"
proof -
  have ne: "i \<noteq> p"
    using p(2) f by auto
  have sz: "rf_sized r"
    using R by (simp add: represents_def)
  have ch: "chain (rf_next_sibling r) (rf_first_child r ! p) (K p)"
    by (rule children_okD(1) [OF R p(1)])
  then have ch': "chain ((rf_next_sibling r)[i := -1]) (rf_first_child r ! p) (K p)"
    by (rule chain_update) (rule free_not_child [OF R C f p(1)])
  show ?thesis
  proof (cases "K p = []")
    case True
    with ch have "rf_first_child r ! p < 0" by simp
    with True ne A show ?thesis
      by (simp add: set_node_def link_child_def grown_def fill_node_def Let_def)
  next
    case False
    with ch have "\<not> rf_first_child r ! p < 0" by (cases "K p") auto
    with False ne A last_sibling_chain [OF ch' False] show ?thesis
      by (simp add: set_node_def link_child_def grown_def fill_node_def Let_def)
  qed
qed

lemma grown_fields:
  "rf_names (grown i name t p K r) = (rf_names r)[i := take (MAX_NAME - 1) name @ drop (min (length name) (MAX_NAME - 1)) (rf_names r ! i)]"
  "rf_name_lens (grown i name t p K r) = (rf_name_lens r)[i := word_of_nat (min (length name) (MAX_NAME - 1))]"
  "rf_ntypes (grown i name t p K r) = (rf_ntypes r)[i := type_byte t]"
  "rf_sizes (grown i name t p K r) = (rf_sizes r)[i := 0]"
  "rf_parents (grown i name t p K r) = (rf_parents r)[i := int p]"
  "rf_first_child (grown i name t p K r) = (if K p = [] then (rf_first_child r)[i := -1, p := int i] else (rf_first_child r)[i := -1])"
  "rf_next_sibling (grown i name t p K r) = (if K p = [] then (rf_next_sibling r)[i := -1] else (rf_next_sibling r)[i := -1, last (K p) := int i])"
  "rf_child_counts (grown i name t p K r) = (rf_child_counts r)[i := 0, p := (rf_child_counts r)[i := 0] ! p + 1]"
  "rf_datas (grown i name t p K r) = rf_datas r"
  "rf_root (grown i name t p K r) = rf_root r"
  "rf_next_idx (grown i name t p K r) = int i + 1"
  by (auto simp: grown_def fill_node_def Let_def min_def)

lemma grown_node_name:
  assumes "rf_sized r" "i < MAX_FILES" "x < MAX_FILES" "length name < MAX_NAME"
  shows "node_name (grown i name t p K r) (int x) = (if x = i then name else node_name r (int x))"
proof -
  have "length name < 64"
    using assms(4) by (simp add: MAX_NAME_def)
  then have "unat (word_of_nat (length name) :: u8) = length name"
    by (simp add: unat_of_nat)
  with assms show ?thesis
    by (auto simp: node_name_def grown_fields rf_sized_def nth_list_update min_def)
qed

lemma type_byte_nonzero [simp]: "type_byte t \<noteq> 0"
  by (simp add: type_byte_def split: node_type.split)

lemma grown_sized:
  assumes "rf_sized r" "i < MAX_FILES"
  shows "rf_sized (grown i name t p K r)"
proof -
  have "unat (word_of_nat (min (length name) (MAX_NAME - 1)) :: u8) < MAX_NAME"
    by (simp add: unat_of_nat MAX_NAME_def min_def)
  with assms show ?thesis
    unfolding rf_sized_def grown_fields by (auto simp: nth_list_update min_def MAX_NAME_def)
qed

lemma grown_chain_same:
  assumes R: "represents r K" and i: "i < MAX_FILES" "rf_ntypes r ! i = 0" and p: "p < MAX_FILES" "rf_ntypes r ! p = 2"
  shows "chain (rf_next_sibling (grown i name t p K r)) (rf_first_child (grown i name t p K r) ! p) (K p @ [i])"
proof -
  have sz: "length (rf_next_sibling r) = MAX_FILES" "length (rf_first_child r) = MAX_FILES"
    using R by (simp_all add: represents_def rf_sized_def)
  have ni: "i \<notin> set (K p)" and ne: "i \<noteq> p"
    using free_not_child [OF R i p(1)] i(2) p(2) by auto
  have ch: "chain ((rf_next_sibling r)[i := -1]) (rf_first_child r ! p) (K p)"
    by (rule chain_update [OF children_okD(1) [OF R p(1)] ni])
  show ?thesis
  proof (cases "K p = []")
    case True
    with ne sz i p show ?thesis by (simp add: grown_fields)
  next
    case False
    from chain_snoc [OF ch children_okD(2) [OF R p(1)] False ni] i sz False ne show ?thesis
      by (simp add: grown_fields)
  qed
qed

lemma grown_chain_other:
  assumes R: "represents r K" and i: "i < MAX_FILES" "rf_ntypes r ! i = 0" and p: "p < MAX_FILES" and q: "q < MAX_FILES" "q \<noteq> p"
  shows "chain (rf_next_sibling (grown i name t p K r)) (rf_first_child (grown i name t p K r) ! q) (K q)"
proof (cases "q = i")
  case True
  have "length (rf_first_child r) = MAX_FILES"
    using R by (simp add: represents_def rf_sized_def)
  with True q free_no_children [OF R i] i show ?thesis
    by (simp add: grown_fields)
next
  case False
  have ni: "i \<notin> set (K q)"
    by (rule free_not_child [OF R i q(1)])
  have "last (K p) \<notin> set (K q)" if "K p \<noteq> []"
    using children_okD(6) [OF R p last_in_set [OF that]] children_okD(6) [OF R q(1), of "last (K p)"] q(2) by auto
  then show ?thesis
    using False q ni children_okD(1) [OF R q(1)]
    by (auto simp: grown_fields intro!: chain_update)
qed

lemma grown_names:
  assumes R: "represents r K" and i: "i < MAX_FILES" "rf_ntypes r ! i = 0" and q: "q < MAX_FILES" and n: "length name < MAX_NAME"
  shows "map (\<lambda>x. node_name (grown i name t p K r) (int x)) (K q) = map (\<lambda>x. node_name r (int x)) (K q)"
  using R n i free_not_child [OF R i q] children_okD(6) [OF R q]
  by (auto simp: grown_node_name represents_def)

lemma grown_distinct_names:
  assumes R: "represents r K" and i: "i < MAX_FILES" "rf_ntypes r ! i = 0" and q: "q < MAX_FILES" and n: "length name < MAX_NAME"
  shows "distinct (map (\<lambda>x. node_name (grown i name t p K r) (int x)) (K q))"
  unfolding grown_names [OF assms] by (rule children_okD(3) [OF R q])

lemma grown_children_same:
  assumes R: "represents r K" and i: "i < MAX_FILES" "i \<noteq> 0" "rf_ntypes r ! i = 0" and p: "p < MAX_FILES" "rf_ntypes r ! p = 2"
    and n: "length name < MAX_NAME" and fresh: "name \<notin> (\<lambda>x. node_name r (int x)) ` set (K p)"
  shows "children_ok (grown i name t p K r) (K(p := K p @ [i])) p"
proof -
  have sz: "rf_sized r" "length (rf_parents r) = MAX_FILES" "length (rf_ntypes r) = MAX_FILES" "length (rf_child_counts r) = MAX_FILES"
    using R by (simp_all add: represents_def rf_sized_def)
  note K = children_okD [OF R p(1)] and ni = free_not_child [OF R i(1,3) p(1)]
  have ne: "i \<noteq> p" using i(3) p(2) by auto
  have "set (K p) \<subseteq> {1..<16}"
    using K(6) by (force simp: MAX_FILES_def)
  then have "length (K p) < 16"
    using card_mono [of "{1..<16}" "set (K p)"] distinct_card [OF K(2)] by simp
  then have c: "unat (rf_child_counts r ! p + 1) = Suc (length (K p))"
    using K(4) by (simp add: unat_word_ariths)
  show ?thesis
    using grown_chain_same [OF R i(1,3) p] K grown_distinct_names [OF R i(1,3) p(1) n, of t p] sz ni i p n ne c fresh
    by (simp add: children_ok_def grown_fields nth_list_update) (auto simp: grown_node_name grown_fields nth_list_update)
qed

lemma grown_children_other:
  assumes R: "represents r K" and i: "i < MAX_FILES" "i \<noteq> 0" "rf_ntypes r ! i = 0" and p: "p < MAX_FILES" and q: "q < MAX_FILES" "q \<noteq> p"
    and n: "length name < MAX_NAME"
  shows "children_ok (grown i name t p K r) (K(p := K p @ [i])) q"
proof -
  have sz: "length (rf_parents r) = MAX_FILES" "length (rf_ntypes r) = MAX_FILES" "length (rf_child_counts r) = MAX_FILES"
    using R by (simp_all add: represents_def rf_sized_def)
  have "x \<noteq> i" if "x \<in> set (K q)" for x
    using free_not_child [OF R i(1,3) q(1)] that by auto
  then show ?thesis
    using grown_chain_other [OF R i(1,3) p q] children_okD [OF R q(1)] grown_distinct_names [OF R i(1,3) q(1) n, of t p] sz i q
      free_no_children [OF R i(1,3)]
    by (auto simp: children_ok_def grown_fields nth_list_update)
qed

lemma grown_represents:
  assumes R: "represents r K" and i: "i < MAX_FILES" "i \<noteq> 0" "rf_ntypes r ! i = 0" and p: "p < MAX_FILES" "rf_ntypes r ! p = 2"
    and n: "length name < MAX_NAME" and fresh: "name \<notin> (\<lambda>x. node_name r (int x)) ` set (K p)"
  shows "represents (grown i name t p K r) (K(p := K p @ [i]))"
proof -
  have "children_ok (grown i name t p K r) (K(p := K p @ [i])) q" if "q < MAX_FILES" for q
    using grown_children_same [OF R i p n fresh] grown_children_other [OF R i p(1) that _ n] by metis
  moreover have "rf_sized (grown i name t p K r)"
    using R i(1) by (intro grown_sized) (simp_all add: represents_def)
  moreover have "\<exists>q<MAX_FILES. rf_parents (grown i name t p K r) ! x = int q \<and> x \<in> set ((K(p := K p @ [i])) q)"
    if x: "x < MAX_FILES" "x \<noteq> 0" "rf_ntypes (grown i name t p K r) ! x \<noteq> 0" for x
  proof (cases "x = i")
    case True
    with R p i show ?thesis
      by (intro exI [of _ p]) (simp add: grown_fields represents_def rf_sized_def)
  next
    case False
    with x R obtain q where "q < MAX_FILES" "rf_parents r ! x = int q" "x \<in> set (K q)"
      by (auto simp: grown_fields represents_def)
    with False show ?thesis
      by (intro exI [of _ q]) (auto simp: grown_fields)
  qed
  ultimately show ?thesis
    using R i by (simp add: represents_def grown_fields)
qed

lemma grown_cursor:
  assumes "cursor_ok r" "rf_next_idx r = int i" "i < MAX_FILES"
  shows "cursor_ok (grown i name t p K r)"
  using assms by (auto simp: cursor_ok_def grown_fields)

section \<open>Paths\<close>

text \<open>The node reached from \<open>p\<close> along a list of names, over the represented tree.\<close>

fun path_walk :: "ramfs \<Rightarrow> (nat \<Rightarrow> nat list) \<Rightarrow> u8 list list \<Rightarrow> nat \<Rightarrow> nat option" where
  "path_walk r K [] p = Some p"
| "path_walk r K (c # cs) p = (case find (\<lambda>x. node_name r (int x) = c) (K p) of None \<Rightarrow> None | Some x \<Rightarrow> path_walk r K cs x)"

lemma walk_append:
  "path_walk r K (cs @ ds) p = (case path_walk r K cs p of None \<Rightarrow> None | Some q \<Rightarrow> path_walk r K ds q)"
  by (induction cs arbitrary: p) (auto split: option.split)

lemma find_mem: "find P xs = Some x \<Longrightarrow> x \<in> set xs \<and> P x"
  by (induction xs) (auto split: if_splits)

lemma walk_live:
  "represents r K \<Longrightarrow> p < MAX_FILES \<Longrightarrow> rf_ntypes r ! p \<noteq> 0 \<Longrightarrow> path_walk r K cs p = Some q \<Longrightarrow> q < MAX_FILES \<and> rf_ntypes r ! q \<noteq> 0"
proof (induction cs arbitrary: p)
  case (Cons c cs)
  then obtain x where x: "find (\<lambda>x. node_name r (int x) = c) (K p) = Some x" "path_walk r K cs x = Some q"
    by (auto split: option.splits)
  from find_mem [OF x(1)] children_okD(6) [OF Cons.prems(1,2), of x] Cons.IH [OF Cons.prems(1) _ _ x(2)] show ?case
    by blast
qed simp

lemma find_sibling_represents:
  "represents r K \<Longrightarrow> p < MAX_FILES \<Longrightarrow>
   find_sibling r c (rf_first_child r ! p) = Some (map_option int (find (\<lambda>x. node_name r (int x) = c) (K p)))"
  using find_child_represents [of r K p c] by (simp add: find_child_def)

lemma resolve_loop_walk:
  "represents r K \<Longrightarrow> p < MAX_FILES \<Longrightarrow> resolve_loop r cs (int p) = Some (map_option int (path_walk r K cs p))"
proof (induction cs arbitrary: p)
  case (Cons c cs)
  show ?case
  proof (cases "find (\<lambda>x. node_name r (int x) = c) (K p)")
    case None
    with Cons.prems show ?thesis by (simp add: find_sibling_represents)
  next
    case (Some x)
    with find_mem [OF Some] children_okD(6) [OF Cons.prems, of x] Cons.IH [OF Cons.prems(1), of x] Cons.prems show ?thesis
      by (simp add: find_sibling_represents)
  qed
qed simp

lemma resolve_walk:
  assumes "represents r K"
  shows "resolve path r = Some (map_option int (path_walk r K (components (clean_path path)) 0))"
  using assms resolve_loop_walk [OF assms, of 0 "components (clean_path path)"]
  by (auto simp: resolve_def represents_def components_def Let_def MAX_FILES_def)

lemma split_path_snoc:
  "0x2F \<notin> set b \<Longrightarrow> split_path acc (a @ 0x2F # b) = split_path acc a @ [b]"
proof (induction a arbitrary: acc)
  case Nil
  have "split_path xs b = [xs @ b]" for xs
    using Nil by (induction b arbitrary: xs) auto
  then show ?case by simp
qed auto

lemma split_path_plain: "0x2F \<notin> set b \<Longrightarrow> split_path acc b = [acc @ b]"
  by (induction b arbitrary: acc) auto

lemma components_snoc:
  "0x2F \<notin> set b \<Longrightarrow> b \<noteq> [] \<Longrightarrow> components (a @ 0x2F # b) = components a @ [b]"
  by (simp add: components_def split_path_snoc)

lemma components_plain:
  "0x2F \<notin> set b \<Longrightarrow> b \<noteq> [] \<Longrightarrow> components b = [b]"
  by (simp add: components_def split_path_plain)

lemma components_slash: "components (0x2F # a) = components a"
  by (simp add: components_def)

lemma components_clean [simp]: "components (clean_path a) = components a"
  by (auto simp: clean_path_def components_slash split: list.split)

lemma last_slash_None: "last_slash bs = None \<longleftrightarrow> 0x2F \<notin> set bs"
  by (auto simp: last_slash_def find_None_iff in_set_conv_nth)

lemma last_slash_Some:
  assumes "last_slash bs = Some i"
  shows "bs = take i bs @ 0x2F # drop (i + 1) bs" "0x2F \<notin> set (drop (i + 1) bs)"
proof -
  obtain n where n: "n < length bs" "bs ! i = 0x2F" "i = rev [0..<length bs] ! n" "\<forall>m<n. bs ! (rev [0..<length bs] ! m) \<noteq> 0x2F"
    using assms by (auto simp: last_slash_def find_Some_iff)
  then have i: "i = length bs - 1 - n" "i < length bs"
    by (simp_all add: rev_nth)
  show "bs = take i bs @ 0x2F # drop (i + 1) bs"
    using id_take_nth_drop [OF i(2)] n(2) by simp
  show "0x2F \<notin> set (drop (i + 1) bs)"
  proof
    assume "0x2F \<in> set (drop (i + 1) bs)"
    then obtain k where k: "k < length bs - (i + 1)" "bs ! (i + 1 + k) = 0x2F"
      by (auto simp: in_set_conv_nth)
    define m where "m = length bs - 1 - (i + 1 + k)"
    have "m < n" "rev [0..<length bs] ! m = i + 1 + k"
      using k(1) i n(1) by (auto simp: m_def rev_nth)
    with n(4) k(2) show False by auto
  qed
qed

section \<open>Creating by path\<close>

lemma create_file_grown:
  assumes R: "represents r K" and A: "alloc_idx r = (Some (int i), r\<lparr>rf_next_idx := int i + 1\<rparr>)" "i < MAX_FILES" "rf_ntypes r ! i = 0"
    and p: "p < MAX_FILES" "rf_ntypes r ! p = 2" and f: "find_child (int p) name r = Some None"
  shows "create_file (int p) name r = Some (Some (int i), grown i name NodeFile p K r)"
    and "create_dir (int p) name r = Some (Some (int i), grown i name NodeDirectory p K r)"
  using f p set_node_grown [OF R A p] by (auto simp: create_file_def create_dir_def)

lemma find_child_None_iff:
  "represents r K \<Longrightarrow> p < MAX_FILES \<Longrightarrow>
   find_child (int p) name r = Some None \<longleftrightarrow> name \<notin> (\<lambda>x. node_name r (int x)) ` set (K p)"
  by (auto simp: find_child_represents find_None_iff)

lemma grown_find:
  assumes R: "represents r K" and i: "i < MAX_FILES" "rf_ntypes r ! i = 0" and q: "q < MAX_FILES" and n: "length name < MAX_NAME"
  shows "find (\<lambda>x. node_name (grown i name t p K r) (int x) = c) (K q) = find (\<lambda>x. node_name r (int x) = c) (K q)"
proof (intro find_cong)
  fix x assume "x \<in> set (K q)"
  with R i n free_not_child [OF R i q] children_okD(6) [OF R q, of x]
  show "(node_name (grown i name t p K r) (int x) = c) = (node_name r (int x) = c)"
    by (auto simp: grown_node_name represents_def)
qed simp

lemma find_append: "find P (xs @ ys) = (case find P xs of None \<Rightarrow> find P ys | Some x \<Rightarrow> Some x)"
  by (induction xs) auto

lemma grown_path_walk:
  assumes R: "represents r K" and i: "i < MAX_FILES" "i \<noteq> 0" "rf_ntypes r ! i = 0" and n: "length name < MAX_NAME"
  shows "q < MAX_FILES \<Longrightarrow> path_walk r K cs q = Some y \<Longrightarrow> path_walk (grown i name t p K r) (K(p := K p @ [i])) cs q = Some y"
proof (induction cs arbitrary: q)
  case (Cons c cs)
  from Cons.prems obtain x where x: "find (\<lambda>x. node_name r (int x) = c) (K q) = Some x" "path_walk r K cs x = Some y"
    by (auto split: option.splits)
  have "x < MAX_FILES"
    using children_okD(6) [OF R Cons.prems(1), of x] find_mem [OF x(1)] by blast
  with Cons.IH [OF _ x(2)] grown_find [OF R i(1,3) Cons.prems(1) n, of t p c] x(1) show ?case
    by (cases "q = p") (simp_all add: find_append)
qed simp

text \<open>A path that does not end in a slash splits at its last slash into the path of the directory and the name.\<close>

lemma clean_path_split:
  assumes "components path = cs @ [name]" "last path \<noteq> 0x2F"
  shows "clean_path path \<noteq> []"
    and "last_slash (clean_path path) = None \<Longrightarrow> clean_path path = name \<and> cs = []"
    and "last_slash (clean_path path) = Some j \<Longrightarrow> drop (j + 1) (clean_path path) = name \<and> components (take j (clean_path path)) = cs"
proof -
  have comp: "components (clean_path path) = cs @ [name]"
    using assms(1) by simp
  then show ne: "clean_path path \<noteq> []"
    by (auto simp: components_def)
  then have last: "last (clean_path path) \<noteq> 0x2F"
    using assms(2) by (auto simp: clean_path_def split: list.splits if_splits)
  show "clean_path path = name \<and> cs = []" if "last_slash (clean_path path) = None"
    using components_plain [of "clean_path path"] that ne comp by (simp add: last_slash_None)
  show "drop (j + 1) (clean_path path) = name \<and> components (take j (clean_path path)) = cs"
    if j: "last_slash (clean_path path) = Some j"
  proof -
    note d = last_slash_Some [OF j]
    have "drop (j + 1) (clean_path path) \<noteq> []"
      using d(1) last by (metis last_snoc)
    from components_snoc [OF d(2) this, of "take j (clean_path path)"] d(1) comp show ?thesis
      by simp
  qed
qed

lemma create_file_path_grown:
  assumes R: "represents r K" and C: "cursor_ok r" "rf_next_idx r = int i" "i < MAX_FILES"
    and path: "components path = cs @ [name]" "last path \<noteq> 0x2F"
    and dir: "path_walk r K cs 0 = Some p" "rf_ntypes r ! p = 2" and absent: "path_walk r K (cs @ [name]) 0 = None"
  shows "create_file_path path r = Some (Some (int i), grown i name NodeFile p K r)"
    and "p < MAX_FILES" "name \<notin> (\<lambda>x. node_name r (int x)) ` set (K p)"
proof -
  show p: "p < MAX_FILES"
    using walk_live [OF R _ _ dir(1)] R by (simp add: represents_def MAX_FILES_def)
  show fresh: "name \<notin> (\<lambda>x. node_name r (int x)) ` set (K p)"
    using absent dir(1) by (auto simp: walk_append find_None_iff split: option.splits)
  then have cf: "create_file (int p) name r = Some (Some (int i), grown i name NodeFile p K r)"
    using create_file_grown(1) [OF R alloc_idx_cursor(1) [OF C] C(3) alloc_idx_cursor(3) [OF C] p dir(2)] find_child_None_iff [OF R p] by simp
  note split = clean_path_split [OF path]
  show "create_file_path path r = Some (Some (int i), grown i name NodeFile p K r)"
  proof (cases "last_slash (clean_path path)")
    case None
    with split dir R cf show ?thesis
      by (auto simp: create_file_path_def Let_def represents_def)
  next
    case (Some j)
    with split(1) split(3) [OF Some] resolve_walk [OF R, of "take j (clean_path path)"] dir(1) cf show ?thesis
      by (simp add: create_file_path_def)
  qed
qed

lemma init_represents: "represents (ramfs_init ramfs_static) (\<lambda>_. [])"
  by (auto simp: represents_def children_ok_def rf_sized_def ramfs_init_def ramfs_static_def MAX_FILES_def MAX_NAME_def nth_list_update
      FILE_SIZE_def nth_Cons')

lemma init_cursor: "cursor_ok (ramfs_init ramfs_static)" "rf_next_idx (ramfs_init ramfs_static) = 1"
  by (auto simp: cursor_ok_def ramfs_init_def ramfs_static_def MAX_FILES_def nth_list_update)

section \<open>Removing a node\<close>

lemma remove_loop_chain:
  "chain (rf_next_sibling r) c (xs @ ch # ys) \<Longrightarrow> ch \<notin> set xs \<Longrightarrow>
   remove_loop pu (int ch) prev c r = Some (True, unlink_node pu ch (if xs = [] then prev else int (last xs)) r)"
  by (induction xs arbitrary: c prev) (auto simp: remove_loop.simps [of pu "int ch"])

lemma chain_suffix: "chain ns c (xs @ ch # ys) \<Longrightarrow> chain ns (ns ! ch) ys"
  by (induction xs arbitrary: c) auto

lemma chain_delete:
  "chain ns c (xs @ ch # ys) \<Longrightarrow> distinct (xs @ ch # ys) \<Longrightarrow> xs \<noteq> [] \<Longrightarrow> chain (ns[last xs := ns ! ch]) c (xs @ ys)"
proof (induction xs arbitrary: c)
  case (Cons x xs)
  show ?case
  proof (cases "xs = []")
    case True
    with Cons.prems show ?thesis
      by (auto intro!: chain_update)
  next
    case False
    then have "last xs \<noteq> x"
      using Cons.prems(2) last_in_set [of xs] by auto
    with Cons False show ?thesis by auto
  qed
qed simp

text \<open>The effect of unlinking \<open>ch\<close>, which stands between \<open>xs\<close> and \<open>ys\<close> among the children of \<open>p\<close>.\<close>

definition cut_state :: "nat \<Rightarrow> nat \<Rightarrow> nat list \<Rightarrow> ramfs \<Rightarrow> ramfs" where
  "cut_state p ch xs r = unlink_node p ch (if xs = [] then -1 else int (last xs)) r"

lemma cut_state_fields:
  "rf_names (cut_state p ch xs r) = rf_names r"
  "rf_name_lens (cut_state p ch xs r) = (rf_name_lens r)[ch := 0]"
  "rf_ntypes (cut_state p ch xs r) = (rf_ntypes r)[ch := 0]"
  "rf_sizes (cut_state p ch xs r) = (rf_sizes r)[ch := 0]"
  "rf_parents (cut_state p ch xs r) = (rf_parents r)[ch := -1]"
  "rf_first_child (cut_state p ch xs r) = (if xs = [] then (rf_first_child r)[p := rf_next_sibling r ! ch, ch := -1] else (rf_first_child r)[ch := -1])"
  "rf_next_sibling (cut_state p ch xs r) = (if xs = [] then (rf_next_sibling r)[ch := -1] else (rf_next_sibling r)[last xs := rf_next_sibling r ! ch, ch := -1])"
  "rf_child_counts (cut_state p ch xs r) = (rf_child_counts r)[p := rf_child_counts r ! p - 1, ch := 0]"
  "rf_datas (cut_state p ch xs r) = (rf_datas r)[ch := replicate FILE_SIZE 0]"
  "rf_root (cut_state p ch xs r) = rf_root r"
  "rf_next_idx (cut_state p ch xs r) = rf_next_idx r"
  by (simp_all add: cut_state_def unlink_node_def Let_def)

lemma remove_node_cut:
  assumes R: "represents r K" and p: "p < MAX_FILES" and K: "K p = xs @ ch # ys" and leaf: "K ch = []"
  shows "remove_node (int p) (int ch) r = Some (True, cut_state p ch xs r)"
proof -
  note D = children_okD [OF R p]
  have ch: "ch < MAX_FILES" "rf_ntypes r ! ch \<noteq> 0"
    using D(6) [of ch] K by auto
  have "rf_child_counts r ! ch = 0"
    using children_okD(4) [OF R ch(1)] leaf by (simp add: unat_eq_zero)
  with remove_loop_chain [OF D(1) [unfolded K], of p "-1"] D(2) K p ch show ?thesis
    by (simp add: remove_node_def bad_index_def cut_state_def)
qed

lemma cut_state_sized:
  "rf_sized r \<Longrightarrow> ch < MAX_FILES \<Longrightarrow> rf_sized (cut_state p ch xs r)"
  unfolding rf_sized_def cut_state_fields by (auto simp: nth_list_update MAX_NAME_def)

lemma cut_state_name: "x \<noteq> ch \<Longrightarrow> node_name (cut_state p ch xs r) (int x) = node_name r (int x)"
  by (simp add: node_name_def cut_state_fields)

lemma cut_names:
  "ch \<notin> set zs \<Longrightarrow> map (\<lambda>x. node_name (cut_state p ch xs r) (int x)) zs = map (\<lambda>x. node_name r (int x)) zs"
  by (induction zs) (auto simp: cut_state_name)

lemma cut_children_same:
  assumes R: "represents r K" and p: "p < MAX_FILES" and K: "K p = xs @ ch # ys" and leaf: "K ch = []"
  shows "children_ok (cut_state p ch xs r) (K(p := xs @ ys)) p"
proof -
  note D = children_okD [OF R p]
  have ne: "ch \<noteq> p"
    using leaf K by auto
  have d: "ch \<notin> set (xs @ ys)" "distinct (xs @ ys)"
    using D(2) K by auto
  have sz: "length (rf_parents r) = MAX_FILES" "length (rf_ntypes r) = MAX_FILES" "length (rf_child_counts r) = MAX_FILES"
      "length (rf_first_child r) = MAX_FILES"
    using R by (simp_all add: represents_def rf_sized_def)
  have "chain (rf_next_sibling (cut_state p ch xs r)) (rf_first_child (cut_state p ch xs r) ! p) (xs @ ys)"
  proof (cases "xs = []")
    case True
    with chain_suffix [OF D(1) [unfolded K]] d ne sz p show ?thesis
      by (auto simp: cut_state_fields intro!: chain_update)
  next
    case False
    from chain_delete [OF D(1) [unfolded K] D(2) [unfolded K] False] d ne False show ?thesis
      by (auto simp: cut_state_fields intro!: chain_update)
  qed
  moreover have "distinct (map (\<lambda>x. node_name (cut_state p ch xs r) (int x)) (xs @ ys))"
    using D(3) K by (subst cut_names [OF d(1)]) auto
  moreover have "unat (rf_child_counts r ! p - 1) = length (xs @ ys)"
    using D(4) K by (simp add: unat_sub word_le_nat_alt)
  ultimately show ?thesis
    using D(5,6) K d ne sz p unfolding children_ok_def by (simp add: cut_state_fields nth_list_update) auto
qed

lemma cut_children_other:
  assumes R: "represents r K" and p: "p < MAX_FILES" and K: "K p = xs @ ch # ys" and leaf: "K ch = []" and q: "q < MAX_FILES" "q \<noteq> p"
  shows "children_ok (cut_state p ch xs r) (K(p := xs @ ys)) q"
proof -
  note D = children_okD [OF R q(1)]
  have par: "x \<notin> set (K q)" if "x \<in> set (K p)" for x
    using children_okD(6) [OF R p that] D(6) [of x] q(2) by auto
  have nch: "ch \<notin> set (K q)" "xs \<noteq> [] \<Longrightarrow> last xs \<notin> set (K q)"
    using par K last_in_set [of xs] by auto
  then have ne: "ch \<noteq> x" if "x \<in> set (K q)" for x
    using that by auto
  have sz: "length (rf_parents r) = MAX_FILES" "length (rf_ntypes r) = MAX_FILES" "length (rf_child_counts r) = MAX_FILES"
      "length (rf_first_child r) = MAX_FILES"
    using R by (simp_all add: represents_def rf_sized_def)
  have "chain (rf_next_sibling (cut_state p ch xs r)) (rf_first_child (cut_state p ch xs r) ! q) (K q)"
    using D(1) nch q sz leaf by (cases "q = ch") (auto simp: cut_state_fields intro!: chain_update)
  moreover have "distinct (map (\<lambda>x. node_name (cut_state p ch xs r) (int x)) (K q))"
    using D(3) by (subst cut_names [OF nch(1)])
  ultimately show ?thesis
    using D(2,4,5,6) nch ne q sz leaf unfolding children_ok_def
    by (cases "q = ch") (auto simp: cut_state_fields nth_list_update)
qed

lemma cut_represents:
  assumes R: "represents r K" and p: "p < MAX_FILES" and K: "K p = xs @ ch # ys" and leaf: "K ch = []"
  shows "represents (cut_state p ch xs r) (K(p := xs @ ys))"
proof -
  have ch: "ch < MAX_FILES" "ch \<noteq> 0"
    using children_okD(6) [OF R p, of ch] K by auto
  have "children_ok (cut_state p ch xs r) (K(p := xs @ ys)) q" if "q < MAX_FILES" for q
    using cut_children_same [OF R p K leaf] cut_children_other [OF R p K leaf that] by metis
  moreover have "rf_sized (cut_state p ch xs r)"
    using R ch by (intro cut_state_sized) (simp_all add: represents_def)
  moreover have "\<exists>q<MAX_FILES. rf_parents (cut_state p ch xs r) ! x = int q \<and> x \<in> set ((K(p := xs @ ys)) q)"
    if x: "x < MAX_FILES" "x \<noteq> 0" "rf_ntypes (cut_state p ch xs r) ! x \<noteq> 0" for x
  proof -
    have ne: "x \<noteq> ch"
      using x R by (auto simp: cut_state_fields represents_def rf_sized_def)
    with x R obtain q where "q < MAX_FILES" "rf_parents r ! x = int q" "x \<in> set (K q)"
      by (auto simp: cut_state_fields represents_def)
    with ne K show ?thesis
      by (intro exI [of _ q]) (auto simp: cut_state_fields)
  qed
  ultimately show ?thesis
    using R ch by (simp add: represents_def cut_state_fields)
qed

lemma cut_cursor:
  assumes "rf_sized r" "cursor_ok r"
  shows "cursor_ok (cut_state p ch xs r)"
proof -
  have "(rf_ntypes r)[ch := 0] ! x = 0" if "rf_ntypes r ! x = 0" "x < length (rf_ntypes r)" for x
    using that by (cases "x = ch") auto
  with assms show ?thesis
    by (simp add: cursor_ok_def cut_state_fields rf_sized_def)
qed

section \<open>Contents of a file\<close>

definition contents :: "ramfs \<Rightarrow> nat \<Rightarrow> u8 list" where
  "contents r x = take (unat (rf_sizes r ! x)) (rf_datas r ! x)"

text \<open>Writing at an offset into a byte string: a gap is filled with zeros.\<close>

definition pwrite :: "u8 list \<Rightarrow> nat \<Rightarrow> u8 list \<Rightarrow> u8 list" where
  "pwrite c off d = take off c @ replicate (off - length c) 0 @ d @ drop (off + length d) c"

text \<open>The bytes of a node beyond its size are zero, and a free node is empty.\<close>

definition tails_zero :: "ramfs \<Rightarrow> bool" where
  "tails_zero r \<longleftrightarrow> (\<forall>x<MAX_FILES. drop (unat (rf_sizes r ! x)) (rf_datas r ! x) = replicate (FILE_SIZE - unat (rf_sizes r ! x)) 0 \<and>
     (rf_ntypes r ! x = 0 \<longrightarrow> rf_sizes r ! x = 0))"

lemma sized_data:
  assumes "rf_sized r" "x < MAX_FILES"
  shows "length (rf_datas r ! x) = FILE_SIZE" "unat (rf_sizes r ! x) \<le> FILE_SIZE" "length (rf_datas r) = MAX_FILES" "length (rf_sizes r) = MAX_FILES"
  using assms by (simp_all add: rf_sized_def)

lemma data_contents:
  assumes "rf_sized r" "tails_zero r" "x < MAX_FILES"
  shows "rf_datas r ! x = contents r x @ replicate (FILE_SIZE - unat (rf_sizes r ! x)) 0" "length (contents r x) = unat (rf_sizes r ! x)"
  using sized_data [OF assms(1,3)] assms(2,3) append_take_drop_id [of "unat (rf_sizes r ! x)" "rf_datas r ! x"]
  by (simp_all add: contents_def tails_zero_def)

lemma read_contents:
  assumes "rf_sized r" "x < MAX_FILES" "rf_ntypes r ! x \<noteq> 0"
  shows "ramfs_read (int x) len off r = (word_of_nat (length (take len (drop off (contents r x)))), take len (drop off (contents r x)))"
proof -
  let ?sz = "unat (rf_sizes r ! x)" and ?D = "rf_datas r ! x"
  have "take (min len (?sz - off)) (drop off ?D) = take len (drop off (contents r x))"
    by (simp add: contents_def drop_take)
  moreover have "length (take (min len (?sz - off)) (drop off ?D)) = min len (?sz - off)"
    using sized_data [OF assms(1,2)] by auto
  ultimately have "length (take len (drop off (contents r x))) = min len (?sz - off)"
    by (simp only:)
  with assms(2,3) \<open>take _ _ = take len _\<close> show ?thesis
    by (auto simp: ramfs_read_def bad_index_def Let_def contents_def simp del: length_take take_take)
qed

lemma splice_pwrite:
  fixes c d :: "u8 list"
  assumes "length c \<le> m" "off + length d \<le> m"
  shows "take off (c @ replicate (m - length c) 0) @ d @ drop (off + length d) (c @ replicate (m - length c) 0)
       = pwrite c off d @ replicate (m - max (length c) (off + length d)) 0"
  using assms by (auto simp: pwrite_def max_def min_def intro!: nth_equalityI)

text \<open>The state after \<open>d\<close> was stored at \<open>off\<close> in the node \<open>x\<close>.\<close>

definition stored :: "nat \<Rightarrow> u8 list \<Rightarrow> nat \<Rightarrow> ramfs \<Rightarrow> ramfs" where
  "stored x d off r = r\<lparr>rf_datas := (rf_datas r)[x := take off (rf_datas r ! x) @ d @ drop (off + length d) (rf_datas r ! x)],
     rf_sizes := (rf_sizes r)[x := word_of_nat (max (unat (rf_sizes r ! x)) (off + length d))]\<rparr>"

lemma write_stored:
  assumes "rf_sized r" "x < MAX_FILES" "rf_ntypes r ! x = 1" "off \<le> FILE_SIZE"
  shows "ramfs_write (int x) data off r =
    (Done (word_of_nat (min (length data) (FILE_SIZE - off))), stored x (take (FILE_SIZE - off) data) off r)"
proof -
  let ?n = "min (length data) (FILE_SIZE - off)"
  have "?n + off \<le> 4096"
    using assms(4) by (simp add: FILE_SIZE_def)
  then have "unat (word_of_nat (off + ?n) :: u32) = off + ?n"
    by (simp add: unat_of_nat del: of_nat_add)
  then have "rf_sizes r ! x < word_of_nat (off + ?n) \<longleftrightarrow> unat (rf_sizes r ! x) < off + ?n"
    by (simp add: word_less_nat_alt del: of_nat_add)
  moreover have "take ?n data = take (FILE_SIZE - off) data" "length (take (FILE_SIZE - off) data) = ?n"
    by (simp_all add: min_def)
  moreover have "(rf_sizes r)[x := rf_sizes r ! x] = rf_sizes r"
    by simp
  ultimately show ?thesis
    using assms by (auto simp: ramfs_write_def bad_index_def stored_def Let_def max_def simp del: length_take of_nat_add)
qed

lemma stored_contents:
  assumes "rf_sized r" "tails_zero r" "x < MAX_FILES" "off + length d \<le> FILE_SIZE"
  shows "rf_datas (stored x d off r) ! x = pwrite (contents r x) off d @ replicate (FILE_SIZE - max (length (contents r x)) (off + length d)) 0"
    "contents (stored x d off r) x = pwrite (contents r x) off d"
    "unat (rf_sizes (stored x d off r) ! x) = max (length (contents r x)) (off + length d)"
proof -
  note dc = data_contents [OF assms(1-3)] and sz = sized_data [OF assms(1,3)]
  show D: "rf_datas (stored x d off r) ! x = pwrite (contents r x) off d @ replicate (FILE_SIZE - max (length (contents r x)) (off + length d)) 0"
    using splice_pwrite [of "contents r x" FILE_SIZE off d] assms(3,4) dc sz by (simp add: stored_def)
  have "max (unat (rf_sizes r ! x)) (off + length d) < 2 ^ 32"
    using sz(2) assms(4) by (simp add: FILE_SIZE_def)
  then show S: "unat (rf_sizes (stored x d off r) ! x) = max (length (contents r x)) (off + length d)"
    using sz assms(3) dc(2) by (simp add: stored_def unat_of_nat)
  have "length (pwrite (contents r x) off d) = max (length (contents r x)) (off + length d)"
    by (auto simp: pwrite_def)
  then show "contents (stored x d off r) x = pwrite (contents r x) off d"
    unfolding contents_def [of "stored x d off r"] S D by simp
qed

lemma stored_other:
  "y \<noteq> x \<Longrightarrow> contents (stored x d off r) y = contents r y"
  by (simp add: contents_def stored_def)

lemma stored_keeps:
  assumes "represents r K" "tails_zero r" "x < MAX_FILES" "rf_ntypes r ! x = 1" "off + length d \<le> FILE_SIZE"
  shows "represents (stored x d off r) K" "tails_zero (stored x d off r)"
proof -
  have sz: "rf_sized r"
    using assms(1) by (simp add: represents_def)
  note sc = stored_contents [OF sz assms(2,3,5)] and len = data_contents(2) [OF sz assms(2,3)] and sd = sized_data [OF sz assms(3)]
  have pl: "length (pwrite (contents r x) off d) = max (length (contents r x)) (off + length d)"
    by (auto simp: pwrite_def)
  have "length (rf_datas (stored x d off r) ! x) = FILE_SIZE" "unat (rf_sizes (stored x d off r) ! x) \<le> FILE_SIZE"
    using sc len sd assms(5) pl by simp_all
  then have "length (rf_datas (stored x d off r) ! y) = FILE_SIZE \<and> unat (rf_sizes (stored x d off r) ! y) \<le> FILE_SIZE"
    if "y < MAX_FILES" for y
    using sized_data [OF sz that] by (cases "y = x") (simp_all add: stored_def)
  then have "rf_sized (stored x d off r)"
    using sz unfolding rf_sized_def by (simp add: stored_def)
  then show "represents (stored x d off r) K"
    using assms(1) by (simp add: represents_def children_ok_def stored_def node_name_def)
  have "drop (unat (rf_sizes (stored x d off r) ! y)) (rf_datas (stored x d off r) ! y) =
      replicate (FILE_SIZE - unat (rf_sizes (stored x d off r) ! y)) 0 \<and> (rf_ntypes (stored x d off r) ! y = 0 \<longrightarrow> rf_sizes (stored x d off r) ! y = 0)"
    if "y < MAX_FILES" for y
  proof (cases "y = x")
    case True
    with assms(4) have "rf_ntypes (stored x d off r) ! y \<noteq> 0"
      by (simp add: stored_def)
    with True show ?thesis
      by (simp add: sc pl)
  next
    case False
    with assms(2) that show ?thesis
      by (simp add: stored_def tails_zero_def)
  qed
  then show "tails_zero (stored x d off r)"
    by (simp add: tails_zero_def)
qed

section \<open>The invariant of the file system\<close>

definition fs_ok :: "ramfs \<Rightarrow> (nat \<Rightarrow> nat list) \<Rightarrow> bool" where
  "fs_ok r K \<longleftrightarrow> represents r K \<and> cursor_ok r \<and> tails_zero r"

lemma grown_tails:
  assumes "rf_sized r" "tails_zero r" "i < MAX_FILES" "rf_ntypes r ! i = 0"
  shows "tails_zero (grown i name t p K r)"
proof -
  have "drop (unat (rf_sizes (grown i name t p K r) ! y)) (rf_datas (grown i name t p K r) ! y) =
      replicate (FILE_SIZE - unat (rf_sizes (grown i name t p K r) ! y)) 0 \<and>
      (rf_ntypes (grown i name t p K r) ! y = 0 \<longrightarrow> rf_sizes (grown i name t p K r) ! y = 0)" if "y < MAX_FILES" for y
    using assms that by (cases "y = i") (auto simp: tails_zero_def grown_fields rf_sized_def)
  then show ?thesis
    by (simp add: tails_zero_def)
qed

lemma cut_tails:
  assumes "rf_sized r" "tails_zero r" "ch < MAX_FILES"
  shows "tails_zero (cut_state p ch xs r)"
proof -
  have "drop (unat (rf_sizes (cut_state p ch xs r) ! y)) (rf_datas (cut_state p ch xs r) ! y) =
      replicate (FILE_SIZE - unat (rf_sizes (cut_state p ch xs r) ! y)) 0 \<and>
      (rf_ntypes (cut_state p ch xs r) ! y = 0 \<longrightarrow> rf_sizes (cut_state p ch xs r) ! y = 0)" if "y < MAX_FILES" for y
    using assms that by (cases "y = ch") (auto simp: tails_zero_def cut_state_fields rf_sized_def)
  then show ?thesis
    by (simp add: tails_zero_def)
qed

lemma grown_contents:
  assumes "rf_sized r" "tails_zero r" "i < MAX_FILES" "rf_ntypes r ! i = 0"
  shows "contents (grown i name t p K r) y = contents r y"
  using assms by (cases "y = i") (simp_all add: contents_def grown_fields tails_zero_def rf_sized_def)

lemma cut_contents:
  assumes "rf_sized r" "ch < MAX_FILES"
  shows "contents (cut_state p ch xs r) y = (if y = ch then [] else contents r y)"
  using assms by (simp add: contents_def cut_state_fields rf_sized_def)

lemma fs_ok_init: "fs_ok (ramfs_init ramfs_static) (\<lambda>_. [])"
  using init_represents init_cursor by (simp add: fs_ok_def tails_zero_def ramfs_init_def ramfs_static_def)

lemma fs_ok_grown:
  assumes "fs_ok r K" "rf_next_idx r = int i" "i < MAX_FILES" "p < MAX_FILES" "rf_ntypes r ! p = 2" "length name < MAX_NAME"
    "name \<notin> (\<lambda>x. node_name r (int x)) ` set (K p)"
  shows "fs_ok (grown i name t p K r) (K(p := K p @ [i]))"
proof -
  have R: "represents r K" and C: "cursor_ok r" and T: "tails_zero r" and sz: "rf_sized r"
    using assms(1) by (simp_all add: fs_ok_def represents_def)
  note a = alloc_idx_cursor [OF C assms(2,3)]
  show ?thesis
    using grown_represents [OF R assms(3) a(2,3) assms(4-7)] grown_cursor [OF C assms(2,3)] grown_tails [OF sz T assms(3) a(3)]
    by (simp add: fs_ok_def)
qed

lemma fs_ok_cut:
  assumes "fs_ok r K" "p < MAX_FILES" "K p = xs @ ch # ys" "K ch = []"
  shows "fs_ok (cut_state p ch xs r) (K(p := xs @ ys))"
proof -
  have R: "represents r K" and sz: "rf_sized r"
    using assms(1) by (simp_all add: fs_ok_def represents_def)
  have "ch < MAX_FILES"
    using children_okD(6) [OF R assms(2), of ch] assms(3) by simp
  then show ?thesis
    using cut_represents [OF R assms(2-4)] cut_cursor [OF sz] cut_tails [OF sz] assms(1) by (simp add: fs_ok_def)
qed

lemma fs_ok_stored:
  assumes "fs_ok r K" "x < MAX_FILES" "rf_ntypes r ! x = 1" "off + length d \<le> FILE_SIZE"
  shows "fs_ok (stored x d off r) K"
  using assms stored_keeps [of r K x off d] by (simp add: fs_ok_def cursor_ok_def stored_def)

end
