(* ===== verification/Ramfs_Spec.thy ===== *)
theory Ramfs_Spec
  imports Ramfs
begin

text \<open>
  The correctness of the in-memory file system: a path names a node of a tree, a file is a byte string,
  and the states in which the node allocator breaks the tree.
\<close>

lemma fs_okD:
  assumes "fs_ok r K"
  shows "represents r K" "cursor_ok r" "tails_zero r" "rf_sized r" "rf_ntypes r ! 0 = 2"
  using assms by (simp_all add: fs_ok_def represents_def)

lemma create_file_path_effect:
  assumes fs: "fs_ok r K" and i: "rf_next_idx r = int i" "i < MAX_FILES"
    and path: "components path = cs @ [name]" "last path \<noteq> 0x2F" "length name < MAX_NAME"
    and dir: "path_walk r K cs 0 = Some p" "rf_ntypes r ! p = 2" and absent: "path_walk r K (cs @ [name]) 0 = None"
  shows "\<exists>r'. create_file_path path r = Some (Some (int i), r') \<and> fs_ok r' (K(p := K p @ [i])) \<and>
     resolve path r' = Some (Some (int i)) \<and> stat_type (int i) r' = Some NodeFile \<and> contents r' i = [] \<and>
     (\<forall>other y. resolve other r = Some (Some y) \<longrightarrow> resolve other r' = Some (Some y)) \<and> (\<forall>y. y \<noteq> i \<longrightarrow> contents r' y = contents r y)"
proof -
  let ?r = "grown i name NodeFile p K r" and ?K = "K(p := K p @ [i])"
  note ok = fs_okD [OF fs]
  note a = alloc_idx_cursor [OF ok(2) i] and cf = create_file_path_grown [OF ok(1,2) i path(1,2) dir absent]
  note gw = grown_path_walk [OF ok(1) i(2) a(2,3) path(3), where t = NodeFile and p = p]
  have fs': "fs_ok ?r ?K"
    by (rule fs_ok_grown [OF fs i cf(2) dir(2) path(3) cf(3)])
  have "path_walk ?r ?K [name] p = Some i"
    using grown_find [OF ok(1) i(2) a(3) cf(2) path(3)] grown_node_name [OF ok(4) i(2) i(2) path(3)] cf(3)
    by (force simp: find_append find_None_iff split: option.split dest: find_mem)
  with gw [OF _ dir(1)] have "path_walk ?r ?K (cs @ [name]) 0 = Some i"
    by (simp add: walk_append MAX_FILES_def)
  then have "resolve path ?r = Some (Some (int i))"
    using resolve_walk [OF fs_okD(1) [OF fs'], of path] path(1) by simp
  moreover have "resolve other ?r = Some (Some y)" if "resolve other r = Some (Some y)" for other y
    using that gw [of 0 "components other"] resolve_walk [OF ok(1), of other] resolve_walk [OF fs_okD(1) [OF fs'], of other]
    by (auto simp: MAX_FILES_def)
  moreover have "stat_type (int i) ?r = Some NodeFile" "contents ?r i = []"
    using i(2) ok(4) by (simp_all add: stat_type_def contents_def bad_index_def grown_fields type_byte_def rf_sized_def)
  ultimately show ?thesis
    using cf(1) fs' grown_contents [OF ok(4,3) i(2) a(3)] by (intro exI [of _ ?r]) simp
qed

text \<open>
  C22. Creating a file by a path whose directory exists and which names nothing yet takes the node at
  the cursor, appends it to the children of the directory and leaves every other list of children as it
  was; afterwards the path resolves to the new, empty file, every path that resolved before resolves to
  the same node, every other node has the contents it had, and the invariant holds again.
\<close>

theorem create_file_path_adds:
  assumes fs: "fs_ok r K" and i: "rf_next_idx r = int i" "i < MAX_FILES"
    and path: "components path = cs @ [name]" "last path \<noteq> 0x2F" "length name < MAX_NAME"
    and dir: "path_walk r K cs 0 = Some p" "rf_ntypes r ! p = 2" and absent: "path_walk r K (cs @ [name]) 0 = None"
  shows "\<exists>r'. create_file_path path r = Some (Some (int i), r') \<and> fs_ok r' (K(p := K p @ [i])) \<and>
     resolve path r' = Some (Some (int i)) \<and> stat_type (int i) r' = Some NodeFile \<and> contents r' i = [] \<and>
     (\<forall>other y. resolve other r = Some (Some y) \<longrightarrow> resolve other r' = Some (Some y)) \<and> (\<forall>y. y \<noteq> i \<longrightarrow> contents r' y = contents r y)"
  by (rule create_file_path_effect [OF assms])

text \<open>The file \<open>/a\<close> in the initial file system.\<close>

theorem create_file_path_adds_witness:
  "\<exists>r'. create_file_path [0x2F, 0x61] (ramfs_init ramfs_static) = Some (Some 1, r') \<and>
     resolve [0x2F, 0x61] r' = Some (Some 1) \<and> contents r' 1 = []"
proof -
  have "components [0x2F, 0x61] = [] @ [[0x61]]"
    by (simp add: components_def)
  then show ?thesis
    using create_file_path_adds [OF fs_ok_init, of 1 "[0x2F, 0x61]" "[]" "[0x61]" 0] init_cursor(2) fs_okD(5) [OF fs_ok_init]
    by (force simp: MAX_FILES_def MAX_NAME_def)
qed

lemma ramfs_write_effect:
  assumes "fs_ok r K" "x < MAX_FILES" "rf_ntypes r ! x = 1" "off \<le> FILE_SIZE"
  shows "\<exists>r'. ramfs_write (int x) data off r = (Done (word_of_nat (min (length data) (FILE_SIZE - off))), r') \<and> fs_ok r' K \<and>
     contents r' x = pwrite (contents r x) off (take (FILE_SIZE - off) data) \<and> (\<forall>y. y \<noteq> x \<longrightarrow> contents r' y = contents r y) \<and>
     ramfs_read (int x) len o2 r' = (word_of_nat (length (take len (drop o2 (contents r' x)))), take len (drop o2 (contents r' x)))"
proof -
  let ?d = "take (FILE_SIZE - off) data" and ?r = "stored x (take (FILE_SIZE - off) data) off r"
  note ok = fs_okD [OF assms(1)]
  have d: "off + length ?d \<le> FILE_SIZE"
    using assms(4) by simp
  have fs': "fs_ok ?r K"
    by (rule fs_ok_stored [OF assms(1-3) d])
  have "rf_ntypes ?r ! x \<noteq> 0"
    using assms(3) by (simp add: stored_def)
  from write_stored [OF ok(4) assms(2-4), of data] fs' stored_contents(2) [OF ok(4,3) assms(2) d] stored_other [of _ x ?d off r]
    read_contents [OF fs_okD(4) [OF fs'] assms(2) this, of len o2]
  show ?thesis by blast
qed

text \<open>
  C15. A file is a byte string of at most 4096 bytes. A write at an offset up to that limit overwrites or
  extends the string (a gap reads as zeros), reports the number of bytes that fitted, changes no other
  file and keeps the tree; a read at any offset then returns the bytes of the string from there.
\<close>

theorem file_is_byte_string:
  assumes "fs_ok r K" "x < MAX_FILES" "rf_ntypes r ! x = 1" "off \<le> FILE_SIZE"
  shows "\<exists>r'. ramfs_write (int x) data off r = (Done (word_of_nat (min (length data) (FILE_SIZE - off))), r') \<and> fs_ok r' K \<and>
     contents r' x = pwrite (contents r x) off (take (FILE_SIZE - off) data) \<and> (\<forall>y. y \<noteq> x \<longrightarrow> contents r' y = contents r y) \<and>
     ramfs_read (int x) len o2 r' = (word_of_nat (length (take len (drop o2 (contents r' x)))), take len (drop o2 (contents r' x)))"
  by (rule ramfs_write_effect [OF assms])

text \<open>Three bytes at offset 2 of a fresh file: the two bytes before them read as zero.\<close>

theorem file_is_byte_string_witness:
  "\<exists>r. rf_ntypes r ! 1 = 1 \<and> (\<exists>r'. ramfs_write 1 [7, 8, 9] 2 r = (Done 3, r') \<and> ramfs_read 1 4 1 r' = (4, [0, 7, 8, 9]))"
proof -
  let ?r = "grown 1 [0x61] NodeFile 0 (\<lambda>_. []) (ramfs_init ramfs_static)"
  have ok: "fs_ok ?r ((\<lambda>_. [])(0 := [] @ [1]))"
    using fs_ok_grown [OF fs_ok_init, of 1 0 "[0x61]" NodeFile] init_cursor(2) fs_okD(5) [OF fs_ok_init]
    by (simp add: MAX_FILES_def MAX_NAME_def)
  have "length (rf_ntypes (ramfs_init ramfs_static)) = 16" "length (rf_sizes (ramfs_init ramfs_static)) = 16"
    using fs_okD(4) [OF fs_ok_init] by (simp_all add: rf_sized_def MAX_FILES_def)
  then have t: "rf_ntypes ?r ! 1 = 1" "contents ?r 1 = []"
    by (simp_all add: grown_fields type_byte_def contents_def)
  from file_is_byte_string [OF ok, of 1 2 "[7, 8, 9]" 4 1] t show ?thesis
    by (intro exI [of _ ?r]) (auto simp: MAX_FILES_def FILE_SIZE_def pwrite_def numeral_2_eq_2)
qed

section \<open>A live node is allocated again\<close>

lemma find_sibling_loop:
  assumes loop: "rf_next_sibling r ! i = int i" "\<not> named r m i"
  shows "find_sibling r m (int i) = None"
proof -
  have "\<not> (r' = r \<and> m' = m \<and> c = int i)" if "find_sibling r' m' c = Some y" for r' m' c y
    using that
  proof (rule find_sibling.raw_induct [rotated])
    fix f r' m' c y
    assume IH: "\<And>r' m' c y. f r' m' c = Some y \<Longrightarrow> \<not> (r' = r \<and> m' = m \<and> c = int i)"
      and step: "(if c < 0 then Some None
        else if unat (rf_name_lens r' ! nat c) = length m' \<and> node_name r' c = m' then Some (Some c)
        else f r' m' (rf_next_sibling r' ! nat c)) = Some y"
    show "\<not> (r' = r \<and> m' = m \<and> c = int i)"
      using step loop IH [of r m "int i"] by (auto simp: named_def split: if_splits)
  qed
  then show ?thesis
    by (cases "find_sibling r m (int i)") auto
qed

text \<open>When the cursor stands at the first child of the directory, the new node is linked to itself.\<close>

lemma set_node_self_loop:
  assumes R: "represents r K" and i: "rf_next_idx r = int i" "i < MAX_FILES" and p: "p < MAX_FILES" "K p = i # ys" and ne: "i \<noteq> p"
  shows "\<exists>r'. set_node name t (int p) r = Some (Some (int i), r') \<and> rf_first_child r' ! p = int i \<and> rf_next_sibling r' ! i = int i \<and>
     rf_names r' = (rf_names r)[i := take (min (length name) (MAX_NAME - 1)) name @ drop (min (length name) (MAX_NAME - 1)) (rf_names r ! i)] \<and>
     rf_name_lens r' = (rf_name_lens r)[i := word_of_nat (min (length name) (MAX_NAME - 1))] \<and> rf_root r' = rf_root r"
proof -
  have sz: "length (rf_first_child r) = MAX_FILES" "length (rf_next_sibling r) = MAX_FILES"
    using R by (simp_all add: represents_def rf_sized_def)
  have fc: "rf_first_child r ! p = int i"
    using children_okD(1) [OF R p(1)] p(2) by simp
  have "last_sibling ((rf_next_sibling r)[i := -1]) (int i) = Some (int i)"
    using i(2) sz by (subst last_sibling.simps) simp
  with i fc ne sz show ?thesis
    by (simp add: set_node_def alloc_idx_def fill_node_def link_child_def Let_def)
qed

text \<open>Creating files in the root, one after the other.\<close>

fun create_all :: "u8 list list \<Rightarrow> ramfs \<Rightarrow> ramfs option" where
  "create_all [] r = Some r"
| "create_all (n # ns) r = (case create_file 0 n r of Some (Some _, r') \<Rightarrow> create_all ns r' | _ \<Rightarrow> None)"

lemma create_all_append:
  "create_all (xs @ ys) r = (case create_all xs r of None \<Rightarrow> None | Some r' \<Rightarrow> create_all ys r')"
  by (induction xs arbitrary: r) (auto split: option.split prod.split)

definition numbered :: "nat \<Rightarrow> u8 list" where
  "numbered k = [word_of_nat k]"

lemma numbered_eq: "k < 256 \<Longrightarrow> l < 256 \<Longrightarrow> numbered k = numbered l \<longleftrightarrow> k = l"
  by (auto simp: numbered_def word_unat_eq_iff unat_of_nat)

definition files_in_root :: "nat list \<Rightarrow> nat \<Rightarrow> nat list" where
  "files_in_root xs q = (if q = 0 then xs else [])"

lemma files_in_root_0 [simp]: "files_in_root xs 0 = xs"
  by (simp add: files_in_root_def)

lemma numbered_fresh:
  assumes "\<forall>x\<in>set xs. node_name r (int x) = numbered x" "set xs \<subseteq> {..<16}" "16 \<le> m" "m < 256"
  shows "numbered m \<notin> (\<lambda>x. node_name r (int x)) ` set xs"
proof
  assume "numbered m \<in> (\<lambda>x. node_name r (int x)) ` set xs"
  then obtain x where "x \<in> set xs" "numbered m = numbered x"
    using assms(1) by auto
  with assms(2-4) numbered_eq [of m x] show False by auto
qed

lemma files_in_root_upd: "(files_in_root xs)(0 := ys) = files_in_root ys"
  by (auto simp: files_in_root_def)

lemma create_numbered:
  "n \<le> 15 \<Longrightarrow> \<exists>r. create_all (map numbered [1..<Suc n]) (ramfs_init ramfs_static) = Some r \<and>
     fs_ok r (files_in_root [1..<Suc n]) \<and> rf_next_idx r = int (Suc n) \<and> (\<forall>k\<in>{1..n}. node_name r (int k) = numbered k)"
proof (induction n)
  case 0
  have "files_in_root [] = (\<lambda>_. [])"
    by (auto simp: files_in_root_def)
  then show ?case
    using fs_ok_init init_cursor(2) by simp
next
  case (Suc n)
  then obtain r where r: "create_all (map numbered [1..<Suc n]) (ramfs_init ramfs_static) = Some r"
      "fs_ok r (files_in_root [1..<Suc n])" "rf_next_idx r = int (Suc n)" "\<forall>k\<in>{1..n}. node_name r (int k) = numbered k"
    by auto
  let ?K = "files_in_root [1..<Suc n]" and ?name = "numbered (Suc n)"
  let ?r = "grown (Suc n) ?name NodeFile 0 ?K r"
  note ok = fs_okD [OF r(2)]
  have b: "Suc n < MAX_FILES" "(0::nat) < MAX_FILES" "length ?name < MAX_NAME"
    using Suc.prems by (simp_all add: MAX_FILES_def MAX_NAME_def numbered_def)
  note a = alloc_idx_cursor [OF ok(2) r(3) b(1)]
  have fresh: "?name \<notin> (\<lambda>x. node_name r (int x)) ` set (?K 0)"
    using r(4) Suc.prems by (auto simp: files_in_root_def numbered_eq)
  then have "find_child (int 0) ?name r = Some None"
    using find_child_None_iff [OF ok(1) b(2)] by blast
  then have "create_file 0 ?name r = Some (Some (int (Suc n)), ?r)"
    using create_file_grown(1) [OF ok(1) a(1) b(1) a(3) b(2) ok(5)] by simp
  moreover have "fs_ok ?r (files_in_root [1..<Suc (Suc n)])"
    using fs_ok_grown [OF r(2,3) b(1,2) ok(5) b(3) fresh, of NodeFile] by (simp add: files_in_root_upd)
  moreover have "\<forall>k\<in>{1..Suc n}. node_name ?r (int k) = numbered k"
    using grown_node_name [OF ok(4) b(1) _ b(3)] r(4) b(1)
    by (auto simp: le_Suc_eq simp del: upt_Suc of_nat_Suc)
  moreover have "[1..<Suc (Suc n)] = [1..<Suc n] @ [Suc n]"
    by simp
  ultimately show ?case
    using r(1) by (intro exI [of _ ?r]) (simp add: create_all_append grown_fields del: upt_Suc)
qed

text \<open>The table filled, its first file removed, and a file created in its place.\<close>

lemma reuse_first_node:
  "\<exists>r1 r2 r3. create_all (map numbered [1..<16]) (ramfs_init ramfs_static) = Some r1 \<and> remove_node 0 1 r1 = Some (True, r2) \<and>
     create_file 0 (numbered 16) r2 = Some (Some 1, r3) \<and> represents r3 (files_in_root (2 # [3..<16] @ [1])) \<and> rf_next_idx r3 = 2 \<and>
     (\<forall>k\<in>{2..15}. node_name r3 (int k) = numbered k) \<and> node_name r3 1 = numbered 16"
proof -
  obtain r1 where r1: "create_all (map numbered [1..<16]) (ramfs_init ramfs_static) = Some r1"
      "fs_ok r1 (files_in_root [1..<16])" "rf_next_idx r1 = 16" "\<forall>k\<in>{1..15}. node_name r1 (int k) = numbered k"
    using create_numbered [of 15] by (auto simp del: upt_Suc upt_rec_numeral)
  have K: "files_in_root [1..<16] 0 = [] @ 1 # [2..<16]" "files_in_root [1..<16] 1 = []" "[2..<16] = 2 # [3..<16]"
    by (simp_all add: files_in_root_def upt_conv_Cons del: upt_Suc upt_rec_numeral)
  have b: "(0::nat) < MAX_FILES" "(1::nat) < MAX_FILES" "length (numbered 16) < MAX_NAME"
    by (simp_all add: MAX_FILES_def MAX_NAME_def numbered_def)
  define r2 where "r2 = cut_state 0 1 [] r1"
  have rm: "remove_node 0 1 r1 = Some (True, r2)"
    using remove_node_cut [OF fs_okD(1) [OF r1(2)] b(1) K(1,2)] by (simp add: r2_def)
  have "fs_ok r2 (files_in_root [2..<16])"
    using fs_ok_cut [OF r1(2) b(1) K(1,2)] by (simp add: r2_def files_in_root_upd del: upt_Suc)
  note ok = fs_okD [OF this]
  have n2: "\<forall>k\<in>{2..15}. node_name r2 (int k) = numbered k"
    using r1(4) cut_state_name [of _ 1 0 "[]" r1] by (auto simp: r2_def)
  have free: "rf_ntypes r2 ! 1 = 0"
    using fs_okD(4) [OF r1(2)] by (simp add: r2_def cut_state_fields rf_sized_def MAX_FILES_def)
  then have "free_scan r2 = Some 1"
    by (simp add: free_scan_def MAX_FILES_def upt_conv_Cons)
  then have al: "alloc_idx r2 = (Some (int 1), r2\<lparr>rf_next_idx := int 1 + 1\<rparr>)"
    using r1(3) by (simp add: alloc_idx_def r2_def cut_state_fields MAX_FILES_def)
  have fresh: "numbered 16 \<notin> (\<lambda>x. node_name r2 (int x)) ` set (files_in_root [2..<16] 0)"
    unfolding files_in_root_0 by (rule numbered_fresh) (use n2 in \<open>auto simp: atLeastLessThan_def simp del: upt_Suc upt_rec_numeral\<close>)
  define r3 where "r3 = grown 1 (numbered 16) NodeFile 0 (files_in_root [2..<16]) r2"
  have "create_file 0 (numbered 16) r2 = Some (Some 1, r3)"
    using create_file_grown(1) [OF ok(1) al b(2) free b(1) ok(5)] find_child_None_iff [OF ok(1) b(1)] fresh
    by (simp add: r3_def)
  moreover have "represents r3 (files_in_root (2 # [3..<16] @ [1]))"
    using grown_represents [OF ok(1) b(2) _ free b(1) ok(5) b(3) fresh, of NodeFile]
    by (simp add: r3_def files_in_root_upd K(3) del: upt_Suc upt_rec_numeral)
  moreover have "\<forall>k\<in>{2..15}. node_name r3 (int k) = numbered k" "node_name r3 1 = numbered 16"
    using n2 grown_node_name [OF ok(4) b(2) _ b(3), where t = NodeFile and p = 0 and K = "files_in_root [2..<16]"]
    by (auto simp: r3_def MAX_FILES_def simp del: upt_Suc upt_rec_numeral) (metis One_nat_def of_nat_1 one_less_numeral_iff semiring_norm(76))
  moreover have "rf_next_idx r3 = 2"
    by (simp add: r3_def grown_fields)
  ultimately show ?thesis
    using r1(1) rm by blast
qed

text \<open>
  C40. Fifteen files fill the table. Removing the first and creating another one reuses its node and leaves
  the cursor at the next node, which is in use: the file created then takes over that node, the list of the
  directory ends in a cycle, and looking up an absent name in the directory never returns.
\<close>

theorem node_reuse_hangs:
  "\<exists>r1 r2 r3 r4. create_all (map numbered [1..<16]) (ramfs_init ramfs_static) = Some r1 \<and>
     remove_node 0 1 r1 = Some (True, r2) \<and> create_file 0 (numbered 16) r2 = Some (Some 1, r3) \<and>
     find_child 0 (numbered 2) r3 = Some (Some 2) \<and> create_file 0 (numbered 17) r3 = Some (Some 2, r4) \<and>
     find_child 0 (numbered 18) r4 = None"
proof -
  obtain r1 r2 r3 where r: "create_all (map numbered [1..<16]) (ramfs_init ramfs_static) = Some r1" "remove_node 0 1 r1 = Some (True, r2)"
     "create_file 0 (numbered 16) r2 = Some (Some 1, r3)" and R: "represents r3 (files_in_root (2 # [3..<16] @ [1]))"
     and nx: "rf_next_idx r3 = int 2" and nm: "\<forall>k\<in>{2..15}. node_name r3 (int k) = numbered k" "node_name r3 1 = numbered 16"
    using reuse_first_node by auto
  have b: "(0::nat) < MAX_FILES" "(2::nat) < MAX_FILES" "files_in_root (2 # [3..<16] @ [1]) 0 = 2 # [3..<16] @ [1]" "(2::nat) \<noteq> 0"
    by (simp_all add: MAX_FILES_def)
  have n2: "node_name r3 2 = numbered 2"
    using bspec [OF nm(1), of 2] by simp
  have "numbered 17 \<notin> (\<lambda>x. node_name r3 (int x)) ` set (2 # [3..<16])"
    by (rule numbered_fresh) (use nm(1) n2 in \<open>auto simp: atLeastLessThan_def simp del: upt_Suc upt_rec_numeral\<close>)
  then have "numbered 17 \<notin> (\<lambda>x. node_name r3 (int x)) ` set (2 # [3..<16] @ [1])"
    using nm(2) by (simp add: numbered_eq del: upt_Suc upt_rec_numeral)
  then have f17: "find_child 0 (numbered 17) r3 = Some None"
    using find_child_None_iff [OF R b(1), of "numbered 17"] b(3) by (simp del: upt_Suc upt_rec_numeral)
  have f2: "find_child 0 (numbered 2) r3 = Some (Some 2)"
    using find_child_represents [OF R b(1), of "numbered 2"] n2 by (simp del: upt_Suc upt_rec_numeral)
  obtain r4 where sn: "set_node (numbered 17) NodeFile (int 0) r3 = Some (Some (int 2), r4)" and
      r4: "rf_first_child r4 ! 0 = int 2" "rf_next_sibling r4 ! 2 = int 2" 
      "rf_name_lens r4 = (rf_name_lens r3)[2 := word_of_nat (min (length (numbered 17)) (MAX_NAME - 1))]"
      "rf_names r4 = (rf_names r3)[2 := take (min (length (numbered 17)) (MAX_NAME - 1)) (numbered 17) @ drop (min (length (numbered 17)) (MAX_NAME - 1)) (rf_names r3 ! 2)]"
    using set_node_self_loop [OF R nx b(2,1,3,4), of "numbered 17" NodeFile] by blast
  have "length (rf_names r3) = 16" "length (rf_name_lens r3) = 16" "rf_ntypes r3 ! 0 = 2"
    using R by (simp_all add: represents_def rf_sized_def MAX_FILES_def)
  then have "node_name r4 (int 2) = numbered 17"
    using r4(3,4) by (simp add: node_name_def numbered_def MAX_NAME_def)
  then have "\<not> named r4 (numbered 18) 2"
    by (simp add: named_def numbered_eq)
  with find_sibling_loop [OF r4(2)] r4(1) have "find_child 0 (numbered 18) r4 = None"
    by (simp add: find_child_def MAX_FILES_def)
  moreover have "create_file 0 (numbered 17) r3 = Some (Some 2, r4)"
    using sn f17 \<open>rf_ntypes r3 ! 0 = 2\<close> by (simp add: create_file_def MAX_FILES_def)
  ultimately show ?thesis
    using r f2 by blast
qed

end
