(* ===== verification/File_Agent.thy ===== *)
theory File_Agent
  imports Ramfs_Spec
begin

text \<open>
  The file service (\<open>userspace/services/fileagent/src\<close>): the open files of its sessions (\<open>vfs.rs\<close>), the
  commands of its protocol and the loop that serves a session (\<open>main.rs\<close>, \<open>protocol.rs\<close>). An operation
  returns \<open>None\<close> when it never ends, \<open>Crash\<close> when it panics, and otherwise its result and the new state.
  The messages read from the channel and the replies written to it are lists of bytes.
\<close>

section \<open>Open files\<close>

definition MAX_SESSIONS :: nat where "MAX_SESSIONS = 8"
definition MAX_FDS :: nat where "MAX_FDS = 16"

record open_file =
  of_node_idx :: int
  of_offset :: u32

record session =
  se_server_chan :: u64
  se_fds :: "open_file option list"

record agent =
  ag_sessions :: "session option list"
  ag_fs :: ramfs

definition tty_fd :: u32 where "tty_fd = 100"

definition ascii :: "string \<Rightarrow> u8 list" where
  "ascii s = map of_char s"

definition lookup_or_create :: "u8 list \<Rightarrow> u32 \<Rightarrow> ramfs \<Rightarrow> (int option \<times> ramfs) option" where
  "lookup_or_create clean flags r =
     (case resolve clean r of
        None \<Rightarrow> None
      | Some None \<Rightarrow> if flags AND 0x40 \<noteq> 0 then create_file_path clean r else Some (None, r)
      | Some (Some idx) \<Rightarrow> Some (Some idx, r))"

definition install_fd :: "nat \<Rightarrow> session \<Rightarrow> int \<Rightarrow> agent \<Rightarrow> i32 \<times> agent" where
  "install_fd si s idx a =
     (case find_index (\<lambda>f. f = None) (take MAX_FDS (se_fds s)) of
        None \<Rightarrow> (status_code NoMemory, a)
      | Some fd \<Rightarrow> (word_of_nat fd,
          a\<lparr>ag_sessions := (ag_sessions a)[si := Some (s\<lparr>se_fds := (se_fds s)[fd := Some \<lparr>of_node_idx = idx, of_offset = 0\<rparr>]\<rparr>)]\<rparr>))"

definition do_open :: "nat \<Rightarrow> u8 list \<Rightarrow> u32 \<Rightarrow> agent \<Rightarrow> (i32 \<times> agent) option" where
  "do_open si path flags a =
     (case ag_sessions a ! si of
        None \<Rightarrow> Some (-1, a)
      | Some s \<Rightarrow>
          if path = ascii ''dev/tty'' \<or> path = ascii ''/dev/tty'' then Some (tty_fd, a)
          else case lookup_or_create (clean_path path) flags (ag_fs a) of
            None \<Rightarrow> None
          | Some (None, r) \<Rightarrow> Some (status_code NotFound, a\<lparr>ag_fs := r\<rparr>)
          | Some (Some idx, r) \<Rightarrow> Some (install_fd si s idx (a\<lparr>ag_fs := r\<rparr>)))"

definition do_close :: "nat \<Rightarrow> u32 \<Rightarrow> agent \<Rightarrow> i32 \<times> agent" where
  "do_close si fd a =
     (if fd = tty_fd then (0, a)
      else case ag_sessions a ! si of
        None \<Rightarrow> (-1, a)
      | Some s \<Rightarrow>
          if unat fd < MAX_FDS then (0, a\<lparr>ag_sessions := (ag_sessions a)[si := Some (s\<lparr>se_fds := (se_fds s)[unat fd := None]\<rparr>)]\<rparr>)
          else (-1, a))"

text \<open>Advancing the offset of an open file by a positive result.\<close>

definition advance :: "nat \<Rightarrow> session \<Rightarrow> nat \<Rightarrow> open_file \<Rightarrow> i32 \<Rightarrow> agent \<Rightarrow> agent" where
  "advance si s fd f result a =
     (if 0 < sint result
      then a\<lparr>ag_sessions := (ag_sessions a)[si := Some (s\<lparr>se_fds := (se_fds s)[fd := Some (f\<lparr>of_offset := of_offset f + result\<rparr>)]\<rparr>)]\<rparr>
      else a)"

definition do_read :: "nat \<Rightarrow> u32 \<Rightarrow> nat \<Rightarrow> agent \<Rightarrow> (i32 \<times> u8 list) outcome \<times> agent" where
  "do_read si fd buf_len a =
     (if fd = tty_fd then (Done (0, []), a)
      else case ag_sessions a ! si of
        None \<Rightarrow> (Done (-1, []), a)
      | Some s \<Rightarrow>
          if MAX_FDS \<le> unat fd then (Crash, a)
          else case se_fds s ! unat fd of
            None \<Rightarrow> (Done (-1, []), a)
          | Some f \<Rightarrow>
              (let (result, bytes) = ramfs_read (of_node_idx f) buf_len (unat (of_offset f)) (ag_fs a)
               in (Done (result, bytes), advance si s (unat fd) f result a)))"

definition do_write :: "nat \<Rightarrow> u32 \<Rightarrow> u8 list \<Rightarrow> agent \<Rightarrow> i32 outcome \<times> agent" where
  "do_write si fd data a =
     (if fd = tty_fd then (Done (word_of_nat (length data)), a)
      else case ag_sessions a ! si of
        None \<Rightarrow> (Done (-1), a)
      | Some s \<Rightarrow>
          if MAX_FDS \<le> unat fd then (Crash, a)
          else case se_fds s ! unat fd of
            None \<Rightarrow> (Done (-1), a)
          | Some f \<Rightarrow>
              (case ramfs_write (of_node_idx f) data (unat (of_offset f)) (ag_fs a) of
                 (Crash, r) \<Rightarrow> (Crash, a\<lparr>ag_fs := r\<rparr>)
               | (Done result, r) \<Rightarrow> (Done result, advance si s (unat fd) f result (a\<lparr>ag_fs := r\<rparr>))))"

definition do_mkdir :: "u8 list \<Rightarrow> agent \<Rightarrow> (i32 \<times> agent) option" where
  "do_mkdir path a = map_option (\<lambda>(v, r). (v, a\<lparr>ag_fs := r\<rparr>)) (mkdir_path path (ag_fs a))"

definition remove_path :: "i32 \<Rightarrow> u8 list \<Rightarrow> agent \<Rightarrow> (i32 \<times> agent) option" where
  "remove_path failed path a =
     (case resolve path (ag_fs a) of
        None \<Rightarrow> None
      | Some None \<Rightarrow> Some (status_code NotFound, a)
      | Some (Some idx) \<Rightarrow>
          (let parent = parent_of idx (ag_fs a) in
           if parent < 0 then Some (status_code InvalidArgs, a)
           else case remove_node parent idx (ag_fs a) of
             None \<Rightarrow> None
           | Some (ok, r) \<Rightarrow> Some (if ok then 0 else failed, a\<lparr>ag_fs := r\<rparr>)))"

definition do_rmdir :: "u8 list \<Rightarrow> agent \<Rightarrow> (i32 \<times> agent) option" where
  "do_rmdir path a = remove_path (status_code NotEmpty) path a"

definition do_unlink :: "u8 list \<Rightarrow> agent \<Rightarrow> (i32 \<times> agent) option" where
  "do_unlink path a = remove_path (-1) path a"

definition do_readdir :: "nat \<Rightarrow> u32 \<Rightarrow> nat \<Rightarrow> agent \<Rightarrow> ((i32 \<times> u8 list) outcome \<times> agent) option" where
  "do_readdir si fd buf_len a =
     (case ag_sessions a ! si of
        None \<Rightarrow> Some (Done (-1, []), a)
      | Some s \<Rightarrow>
          if MAX_FDS \<le> unat fd then Some (Crash, a)
          else case se_fds s ! unat fd of
            None \<Rightarrow> Some (Done (-1, []), a)
          | Some f \<Rightarrow>
              (case readdir_names (of_node_idx f) buf_len (ag_fs a) of
                 None \<Rightarrow> None
               | Some (result, bytes) \<Rightarrow> Some (Done (result, bytes), advance si s (unat fd) f result a)))"

definition do_stat :: "u8 list \<Rightarrow> agent \<Rightarrow> (i32 \<times> u64) option" where
  "do_stat path a =
     (case resolve (clean_path path) (ag_fs a) of
        None \<Rightarrow> None
      | Some None \<Rightarrow> Some (-1, 0)
      | Some (Some idx) \<Rightarrow>
          Some (stat_size idx (ag_fs a),
            case stat_type idx (ag_fs a) of Some NodeFile \<Rightarrow> 1 | Some NodeDirectory \<Rightarrow> 2 | None \<Rightarrow> 0))"

section \<open>Commands\<close>

definition VFS_OPEN :: u8 where "VFS_OPEN = 1"
definition VFS_CLOSE :: u8 where "VFS_CLOSE = 2"
definition VFS_READ :: u8 where "VFS_READ = 3"
definition VFS_WRITE :: u8 where "VFS_WRITE = 5"
definition VFS_MKDIR :: u8 where "VFS_MKDIR = 6"
definition VFS_RMDIR :: u8 where "VFS_RMDIR = 7"
definition VFS_UNLINK :: u8 where "VFS_UNLINK = 8"
definition VFS_READDIR :: u8 where "VFS_READDIR = 9"
definition VFS_STAT :: u8 where "VFS_STAT = 10"

definition cmd_path :: "u8 list \<Rightarrow> u8 list" where
  "cmd_path buf =
     (if length buf \<le> 20 then []
      else let p = takeWhile (\<lambda>b. b \<noteq> 0) (drop 20 buf) in if utf8_valid p then p else [])"

definition cmd_arg32_1 :: "u8 list \<Rightarrow> u32" where
  "cmd_arg32_1 buf = (if length buf < 8 then 0 else word_of_le (take 4 (drop 4 buf)))"

definition cmd_arg32_2 :: "u8 list \<Rightarrow> u32" where
  "cmd_arg32_2 buf = (if length buf < 12 then 0 else word_of_le (take 4 (drop 8 buf)))"

definition write_response :: "i32 \<Rightarrow> u8 list" where
  "write_response val = word_to_le 8 (scast val :: u64)"

definition write_response_data :: "i32 \<Rightarrow> u8 list \<Rightarrow> u8 list" where
  "write_response_data val data = word_to_le 8 (scast val :: u64) @ take 128 data"

definition reply_data :: "i32 \<times> u8 list \<Rightarrow> u8 list" where
  "reply_data res = (case res of (result, bytes) \<Rightarrow> if 0 \<le> sint result then write_response_data result bytes else write_response result)"

text \<open>The part of the message \<open>VFS_WRITE\<close> writes; a length beyond the message is a panic.\<close>

definition write_data :: "u8 list \<Rightarrow> u8 list outcome" where
  "write_data buf =
     (let len = unat (cmd_arg32_2 buf) in
      if 20 < length buf \<and> 0 < len then (if 20 + len \<le> length buf then Done (take len (drop 20 buf)) else Crash)
      else if 20 < length buf then Done (drop 20 buf)
      else Done [])"

definition answered :: "(i32 \<times> agent) option \<Rightarrow> (u8 list option outcome \<times> agent) option" where
  "answered x = map_option (\<lambda>(v, a). (Done (Some (write_response v)), a)) x"

definition handle_cmd :: "nat \<Rightarrow> u8 list \<Rightarrow> agent \<Rightarrow> (u8 list option outcome \<times> agent) option" where
  "handle_cmd si buf a =
     (if buf = [] then Some (Done None, a)
      else let cmd = hd buf in
      if cmd = VFS_OPEN then answered (do_open si (cmd_path buf) (cmd_arg32_1 buf) a)
      else if cmd = VFS_CLOSE then answered (Some (do_close si (cmd_arg32_1 buf) a))
      else if cmd = VFS_READ then
        (case do_read si (cmd_arg32_1 buf) 1024 a of
           (Crash, a') \<Rightarrow> Some (Crash, a')
         | (Done res, a') \<Rightarrow> Some (Done (Some (reply_data res)), a'))
      else if cmd = VFS_WRITE then
        (case write_data buf of
           Crash \<Rightarrow> Some (Crash, a)
         | Done data \<Rightarrow>
             (case do_write si (cmd_arg32_1 buf) data a of
                (Crash, a') \<Rightarrow> Some (Crash, a')
              | (Done v, a') \<Rightarrow> Some (Done (Some (write_response v)), a')))
      else if cmd = VFS_MKDIR then answered (do_mkdir (cmd_path buf) a)
      else if cmd = VFS_RMDIR then answered (do_rmdir (cmd_path buf) a)
      else if cmd = VFS_UNLINK then answered (do_unlink (cmd_path buf) a)
      else if cmd = VFS_READDIR then
        (case do_readdir si (cmd_arg32_1 buf) 1024 a of
           None \<Rightarrow> None
         | Some (Crash, a') \<Rightarrow> Some (Crash, a')
         | Some (Done res, a') \<Rightarrow> Some (Done (Some (reply_data res)), a'))
      else if cmd = VFS_STAT then
        map_option (\<lambda>(sz, ty). (Done (Some (word_to_le 8 (scast sz :: u64) @ word_to_le 8 ty)), a)) (do_stat (cmd_path buf) a)
      else Some (Done (Some (write_response (status_code InvalidArgs))), a))"

section \<open>Sessions\<close>

definition agent_static :: agent where
  "agent_static = \<lparr>ag_sessions = replicate MAX_SESSIONS None, ag_fs = ramfs_static\<rparr>"

text \<open>The start of \<open>main\<close>: \<open>/dev\<close> must be created, else the service ends.\<close>

definition agent_start :: "agent option option" where
  "agent_start =
     (let a = agent_static\<lparr>ag_fs := ramfs_init (ag_fs agent_static)\<rparr> in
      map_option (\<lambda>(v, r). if sint v < 0 then None else Some (a\<lparr>ag_fs := r\<rparr>)) (mkdir_path (ascii ''/dev'') (ag_fs a)))"

definition session_new :: "u64 \<Rightarrow> session" where
  "session_new chan = \<lparr>se_server_chan = chan, se_fds = replicate 16 None\<rparr>"

definition accept_session :: "u64 \<Rightarrow> agent \<Rightarrow> nat option \<times> agent" where
  "accept_session chan a =
     (case find_index (\<lambda>s. s = None) (ag_sessions a) of
        None \<Rightarrow> (None, a)
      | Some i \<Rightarrow> (Some i, a\<lparr>ag_sessions := (ag_sessions a)[i := Some (session_new chan)]\<rparr>))"

text \<open>
  The loop that serves one session over the results of its \<open>channel_read\<close> calls: \<open>Some m\<close> is a message,
  \<open>None\<close> an error, which ends the session. The replies are collected in order.
\<close>

fun serve_session :: "nat \<Rightarrow> u8 list option list \<Rightarrow> agent \<Rightarrow> (u8 list list outcome \<times> agent) option" where
  "serve_session si [] a = Some (Done [], a)"
| "serve_session si (None # ms) a = Some (Done [], a\<lparr>ag_sessions := (ag_sessions a)[si := None]\<rparr>)"
| "serve_session si (Some m # ms) a =
     (if m = [] then serve_session si ms a
      else case handle_cmd si m a of
        None \<Rightarrow> None
      | Some (Crash, a') \<Rightarrow> Some (Crash, a')
      | Some (Done reply, a') \<Rightarrow>
          (case serve_session si ms a' of
             None \<Rightarrow> None
           | Some (Crash, a'') \<Rightarrow> Some (Crash, a'')
           | Some (Done rs, a'') \<Rightarrow> Some (Done (case reply of None \<Rightarrow> rs | Some x \<Rightarrow> x # rs), a'')))"

section \<open>What a command may do to the file system\<close>

text \<open>The cursor only moves up, and no node below it becomes a file.\<close>

definition fs_step :: "ramfs \<Rightarrow> ramfs \<Rightarrow> bool" where
  "fs_step r r' \<longleftrightarrow> rf_next_idx r \<le> rf_next_idx r' \<and>
     (\<forall>x. int x < rf_next_idx r \<longrightarrow> rf_ntypes r' ! x = 1 \<longrightarrow> rf_ntypes r ! x = 1)"

lemma fs_step_refl [simp]: "fs_step r r"
  by (simp add: fs_step_def)

lemma fs_step_trans: "fs_step r r' \<Longrightarrow> fs_step r' r'' \<Longrightarrow> fs_step r r''"
  by (fastforce simp: fs_step_def)

lemma fs_step_grown: "rf_next_idx r = int i \<Longrightarrow> fs_step r (grown i name t p K r)"
  by (simp add: fs_step_def grown_fields)

lemma fs_step_cut:
  assumes "rf_sized r" "ch < MAX_FILES"
  shows "fs_step r (cut_state p ch xs r)"
proof -
  have "(rf_ntypes r)[ch := 0] ! x = 1 \<Longrightarrow> rf_ntypes r ! x = 1" for x
    using assms by (cases "x = ch") (auto simp: rf_sized_def)
  then show ?thesis
    by (simp add: fs_step_def cut_state_fields)
qed

lemma cursor_range:
  assumes "fs_ok r K"
  obtains i where "rf_next_idx r = int i" "1 \<le> i" "i \<le> MAX_FILES"
proof
  show "rf_next_idx r = int (nat (rf_next_idx r))" "1 \<le> nat (rf_next_idx r)" "nat (rf_next_idx r) \<le> MAX_FILES"
    using fs_okD(2) [OF assms] by (auto simp: cursor_ok_def)
qed

lemma live_below_cursor:
  "fs_ok r K \<Longrightarrow> x < MAX_FILES \<Longrightarrow> rf_ntypes r ! x \<noteq> 0 \<Longrightarrow> int x < rf_next_idx r"
  using fs_okD(2) [of r K] by (force simp: cursor_ok_def)

text \<open>Creating an entry in a node always returns, and keeps the invariant while the cursor is in range.\<close>

lemma create_total:
  assumes fs: "fs_ok r K" and p: "p < MAX_FILES" and n: "length name < MAX_NAME" and room: "rf_next_idx r < int MAX_FILES"
  shows "\<exists>x r' K'. create_file (int p) name r = Some (x, r') \<and> fs_ok r' K' \<and> fs_step r r' \<and>
      (\<forall>y. x = Some y \<longrightarrow> y = rf_next_idx r \<and> rf_next_idx r' = rf_next_idx r + 1)"
    and "rf_ntypes r ! p = 2 \<Longrightarrow> find_child (int p) name r = Some None \<Longrightarrow>
      \<exists>i r' K'. create_dir (int p) name r = Some (Some (int i), r') \<and> i < MAX_FILES \<and> rf_ntypes r' ! i = 2 \<and> fs_ok r' K' \<and> fs_step r r' \<and>
        rf_next_idx r' = rf_next_idx r + 1"
proof -
  note ok = fs_okD [OF fs]
  obtain i where i: "rf_next_idx r = int i" "i < MAX_FILES"
    using cursor_range [OF fs] room by (metis of_nat_less_iff)
  note a = alloc_idx_cursor [OF ok(2) i]
  have G: "fs_ok (grown i name t p K r) (K(p := K p @ [i]))" if "rf_ntypes r ! p = 2" "find_child (int p) name r = Some None" for t
    using that(2) by (intro fs_ok_grown [OF fs i p that(1) n]) (simp add: find_child_None_iff [OF ok(1) p])
  note cg = create_file_grown [OF ok(1) a(1) i(2) a(3) p]
  show "\<exists>x r' K'. create_file (int p) name r = Some (x, r') \<and> fs_ok r' K' \<and> fs_step r r' \<and>
      (\<forall>y. x = Some y \<longrightarrow> y = rf_next_idx r \<and> rf_next_idx r' = rf_next_idx r + 1)"
  proof (cases "rf_ntypes r ! p = 2 \<and> find_child (int p) name r = Some None")
    case True
    then show ?thesis
      using cg(1) G i fs_step_grown [OF i(1)] by (simp add: grown_fields) blast
  next
    case False
    then have "create_file (int p) name r = Some (None, r)"
      using p find_child_represents [OF ok(1) p, of name] by (auto simp: create_file_def)
    then show ?thesis
      using fs by auto
  qed
  show "\<exists>i r' K'. create_dir (int p) name r = Some (Some (int i), r') \<and> i < MAX_FILES \<and> rf_ntypes r' ! i = 2 \<and> fs_ok r' K' \<and> fs_step r r' \<and>
        rf_next_idx r' = rf_next_idx r + 1"
    if "rf_ntypes r ! p = 2" "find_child (int p) name r = Some None"
  proof -
    have "rf_ntypes (grown i name NodeDirectory p K r) ! i = 2"
      using ok(4) i(2) by (simp add: grown_fields rf_sized_def type_byte_def)
    then show ?thesis
      using cg(2) [OF that] G [OF that] i fs_step_grown [OF i(1)] by (intro exI [of _ i]) (simp add: grown_fields, blast)
  qed
qed

lemma mkdir_loop_total:
  "fs_ok r K \<Longrightarrow> p < MAX_FILES \<Longrightarrow> rf_ntypes r ! p = 2 \<Longrightarrow> \<forall>c\<in>set cs. length c < MAX_NAME \<Longrightarrow>
   rf_next_idx r + int (length cs) \<le> int MAX_FILES \<Longrightarrow>
   \<exists>v r' K'. mkdir_loop cs (int p) r = Some (v, r') \<and> fs_ok r' K' \<and> fs_step r r'"
proof (induction cs arbitrary: r K p)
  case Nil
  then show ?case by auto
next
  case (Cons c cs)
  note R = fs_okD(1) [OF Cons.prems(1)]
  show ?case
  proof (cases "find (\<lambda>x. node_name r (int x) = c) (K p)")
    case None
    then have "find_child (int p) c r = Some None"
      by (simp add: find_child_represents [OF R Cons.prems(2)])
    with create_total(2) [OF Cons.prems(1,2), of c] Cons.prems(3-5) obtain i r1 K1
      where r1: "create_dir (int p) c r = Some (Some (int i), r1)" "i < MAX_FILES" "rf_ntypes r1 ! i = 2" "fs_ok r1 K1" "fs_step r r1"
        "rf_next_idx r1 = rf_next_idx r + 1"
      by auto
    from Cons.IH [OF r1(4,2,3)] Cons.prems(4,5) r1(6) obtain v r' K' where "mkdir_loop cs (int i) r1 = Some (v, r')" "fs_ok r' K'" "fs_step r1 r'"
      by auto
    with r1 None fs_step_trans [OF r1(5)] show ?thesis
      by (simp add: find_sibling_represents [OF R Cons.prems(2)]) blast
  next
    case (Some x)
    have x: "x < MAX_FILES"
      using children_okD(6) [OF R Cons.prems(2)] find_mem [OF Some] by blast
    show ?thesis
    proof (cases "cs \<noteq> [] \<and> rf_ntypes r ! x = 2")
      case True
      with Cons.IH [OF Cons.prems(1) x] Cons.prems(4,5) Some show ?thesis
        by (simp add: find_sibling_represents [OF R Cons.prems(2)])
    next
      case False
      with Some Cons.prems(1) show ?thesis
        by (auto simp: find_sibling_represents [OF R Cons.prems(2)])
    qed
  qed
qed

definition short_names :: "u8 list \<Rightarrow> bool" where
  "short_names path \<longleftrightarrow> (\<forall>c\<in>set (components path). length c < MAX_NAME)"

lemma root_dir: "fs_ok r K \<Longrightarrow> rf_root r = int 0 \<and> (0::nat) < MAX_FILES"
  by (simp add: fs_ok_def represents_def MAX_FILES_def)

lemma mkdir_path_total:
  assumes "fs_ok r K" "short_names path" "rf_next_idx r + int (length (components path)) \<le> int MAX_FILES"
  shows "\<exists>v r' K'. mkdir_path path r = Some (v, r') \<and> fs_ok r' K' \<and> fs_step r r'"
proof -
  note z = root_dir [OF assms(1)]
  from mkdir_loop_total [OF assms(1) conjunct2 [OF z] fs_okD(5) [OF assms(1)], of "components path"] assms z show ?thesis
    by (cases "clean_path path = []") (auto simp: mkdir_path_def short_names_def)
qed

lemma resolve_live:
  assumes "fs_ok r K"
  shows "resolve path r = Some None \<or> (\<exists>q. resolve path r = Some (Some (int q)) \<and> q < MAX_FILES \<and> rf_ntypes r ! q \<noteq> 0)"
proof -
  have "rf_ntypes r ! 0 \<noteq> 0" "(0::nat) < MAX_FILES"
    using fs_okD(5) [OF assms] by (simp_all add: MAX_FILES_def)
  with walk_live [OF fs_okD(1) [OF assms], of 0 "components path"] resolve_walk [OF fs_okD(1) [OF assms], of path] show ?thesis
    by (cases "path_walk r K (components path) 0") auto
qed

lemma last_name_short:
  assumes "short_names path" "last_slash (clean_path path) = Some i"
  shows "length (drop (i + 1) (clean_path path)) < MAX_NAME"
proof (cases "drop (i + 1) (clean_path path) = []")
  case False
  note d = last_slash_Some [OF assms(2)]
  have "drop (i + 1) (clean_path path) \<in> set (components path)"
    using components_snoc [OF d(2) False, of "take i (clean_path path)"] d(1) components_clean [of path] by simp
  with assms(1) show ?thesis
    unfolding short_names_def by blast
qed (simp add: MAX_NAME_def)

lemma create_file_path_total:
  assumes fs: "fs_ok r K" and short: "short_names path" and room: "rf_next_idx r < int MAX_FILES"
  shows "\<exists>x r' K'. create_file_path path r = Some (x, r') \<and> fs_ok r' K' \<and> fs_step r r' \<and>
      (\<forall>y. x = Some y \<longrightarrow> y = rf_next_idx r \<and> rf_next_idx r' = rf_next_idx r + 1)"
proof (cases "clean_path path = []")
  case True
  with fs show ?thesis by (auto simp: create_file_path_def)
next
  case False
  show ?thesis
  proof (cases "last_slash (clean_path path)")
    case None
    then have "components path = [clean_path path]"
      using False components_plain [of "clean_path path"] by (simp add: last_slash_None)
    then have "length (clean_path path) < MAX_NAME"
      using short by (simp add: short_names_def)
    from create_total(1) [OF fs conjunct2 [OF root_dir [OF fs]] this room] False None root_dir [OF fs] show ?thesis
      by (simp add: create_file_path_def)
  next
    case (Some i)
    from resolve_live [OF fs, of "take i (clean_path path)"] show ?thesis
    proof (elim disjE exE conjE)
      assume "resolve (take i (clean_path path)) r = Some None"
      with False Some fs show ?thesis
        by (auto simp: create_file_path_def)
    next
      fix q assume "resolve (take i (clean_path path)) r = Some (Some (int q))" "q < MAX_FILES"
      with create_total(1) [OF fs _ last_name_short [OF short Some] room] False Some show ?thesis
        by (simp add: create_file_path_def)
    qed
  qed
qed

lemma lookup_or_create_total:
  assumes fs: "fs_ok r K" and short: "short_names path" and room: "rf_next_idx r + int (length (components path)) \<le> int MAX_FILES"
  shows "\<exists>x r' K'. lookup_or_create path flags r = Some (x, r') \<and> fs_ok r' K' \<and> fs_step r r' \<and>
      (\<forall>y. x = Some y \<longrightarrow> 0 \<le> y \<and> y < rf_next_idx r')"
proof -
  obtain i where i: "rf_next_idx r = int i"
    using cursor_range [OF fs] by metis
  from resolve_live [OF fs, of path] show ?thesis
  proof (elim disjE exE conjE)
    assume none: "resolve path r = Some None"
    then have "components path \<noteq> []"
      using resolve_walk [OF fs_okD(1) [OF fs], of path] by auto
    then have "rf_next_idx r < int MAX_FILES"
      using room by (cases "components path") auto
    from create_file_path_total [OF fs short this] none fs i show ?thesis
      by (fastforce simp: lookup_or_create_def)
  next
    fix q assume "resolve path r = Some (Some (int q))" "q < MAX_FILES" "rf_ntypes r ! q \<noteq> 0"
    with live_below_cursor [OF fs] fs show ?thesis
      by (auto simp: lookup_or_create_def)
  qed
qed

lemma remove_loop_absent:
  "chain (rf_next_sibling r) c xs \<Longrightarrow> ch \<notin> set xs \<Longrightarrow> remove_loop pu (int ch) prev c r = Some (False, r)"
  by (induction xs arbitrary: c prev) (auto simp: remove_loop.simps [of pu "int ch"])

lemma remove_total:
  assumes fs: "fs_ok r K" and ch: "ch < MAX_FILES"
  shows "\<exists>b r' K'. remove_node parent (int ch) r = Some (b, r') \<and> fs_ok r' K' \<and> fs_step r r'"
proof (cases "bad_index parent \<or> rf_ntypes r ! ch = 0 \<or> rf_ntypes r ! ch = 2 \<and> 0 < rf_child_counts r ! ch")
  case True
  with fs show ?thesis by (auto simp: remove_node_def)
next
  case False
  note ok = fs_okD [OF fs]
  obtain p where p: "parent = int p" "p < MAX_FILES"
    using False by (metis bad_index_def nat_0_le not_le)
  have leaf: "K ch = []"
    using children_okD(4,5) [OF ok(1) ch] False by (cases "K ch = []") (auto simp: word_gt_0)
  show ?thesis
  proof (cases "ch \<in> set (K p)")
    case True
    then obtain xs ys where "K p = xs @ ch # ys"
      by (meson split_list)
    with remove_node_cut [OF ok(1) p(2) _ leaf] fs_ok_cut [OF fs p(2) _ leaf] fs_step_cut [OF ok(4) ch] p(1) show ?thesis
      by blast
  next
    case absent: False
    have "remove_node parent (int ch) r = Some (False, r)"
      using remove_loop_absent [OF children_okD(1) [OF ok(1) p(2)] absent] False p ch
      by (auto simp: remove_node_def bad_index_def)
    with fs show ?thesis by auto
  qed
qed

lemma readdir_loop_total:
  assumes "rf_sized r"
  shows "chain (rf_next_sibling r) c xs \<Longrightarrow> length out \<le> buf_len \<Longrightarrow> set xs \<subseteq> {..<MAX_FILES} \<Longrightarrow>
    \<exists>res. readdir_loop r buf_len first c out = Some res \<and> length res \<le> buf_len"
proof (induction xs arbitrary: c out first)
  case Nil
  then show ?case by (simp add: readdir_loop.simps [of r])
next
  case (Cons x xs)
  let ?out = "if first then out else out @ [10]"
  let ?n = "min (unat (rf_name_lens r ! x)) (buf_len - length ?out)"
  show ?case
  proof (cases "\<not> first \<and> buf_len \<le> length out")
    case True
    with Cons.prems show ?thesis by (simp add: readdir_loop.simps [of r])
  next
    case False
    then have "length (?out @ take ?n (rf_names r ! x)) \<le> buf_len"
      using Cons.prems(2) by auto
    from Cons.IH [of "rf_next_sibling r ! x", OF _ this, of False] Cons.prems False show ?thesis
      by (simp add: readdir_loop.simps [of r] Let_def)
  qed
qed

lemma readdir_total:
  assumes fs: "fs_ok r K"
  shows "\<exists>v out. readdir_names node buf_len r = Some (v, out) \<and> length out \<le> buf_len"
proof (cases "bad_index node \<or> rf_ntypes r ! nat node \<noteq> 2")
  case True
  then show ?thesis by (auto simp: readdir_names_def)
next
  case False
  then have p: "nat node < MAX_FILES"
    by (auto simp: bad_index_def)
  note ok = fs_okD [OF fs]
  have "set (K (nat node)) \<subseteq> {..<MAX_FILES}"
    using children_okD(6) [OF ok(1) p] by blast
  from readdir_loop_total [OF ok(4) children_okD(1) [OF ok(1) p] _ this, of "[]" buf_len True] False show ?thesis
    by (auto simp: readdir_names_def)
qed

section \<open>The invariant of the service\<close>

text \<open>
  An open file refers to a node below the cursor, so to no node that is still to be handed out, and the
  offset into a regular file is within it.
\<close>

definition file_ok :: "ramfs \<Rightarrow> open_file \<Rightarrow> bool" where
  "file_ok r f \<longleftrightarrow> 0 \<le> of_node_idx f \<and> of_node_idx f < rf_next_idx r \<and>
     (rf_ntypes r ! nat (of_node_idx f) = 1 \<longrightarrow> unat (of_offset f) \<le> FILE_SIZE)"

definition session_ok :: "ramfs \<Rightarrow> session \<Rightarrow> bool" where
  "session_ok r s \<longleftrightarrow> length (se_fds s) = MAX_FDS \<and> (\<forall>f. Some f \<in> set (se_fds s) \<longrightarrow> file_ok r f)"

definition agent_ok :: "agent \<Rightarrow> bool" where
  "agent_ok a \<longleftrightarrow> (\<exists>K. fs_ok (ag_fs a) K) \<and> length (ag_sessions a) = MAX_SESSIONS \<and>
     (\<forall>s. Some s \<in> set (ag_sessions a) \<longrightarrow> session_ok (ag_fs a) s)"

lemma file_ok_step: "file_ok r f \<Longrightarrow> fs_step r r' \<Longrightarrow> file_ok r' f"
  by (auto simp: file_ok_def fs_step_def)

lemma session_ok_step: "session_ok r s \<Longrightarrow> fs_step r r' \<Longrightarrow> session_ok r' s"
  using file_ok_step by (auto simp: session_ok_def)

lemma agent_ok_fs: "agent_ok a \<Longrightarrow> fs_ok r' K' \<Longrightarrow> fs_step (ag_fs a) r' \<Longrightarrow> agent_ok (a\<lparr>ag_fs := r'\<rparr>)"
  using session_ok_step by (auto simp: agent_ok_def)

lemma agent_ok_session:
  assumes "agent_ok a" "\<And>s'. x = Some s' \<Longrightarrow> session_ok (ag_fs a) s'"
  shows "agent_ok (a\<lparr>ag_sessions := (ag_sessions a)[si := x]\<rparr>)"
  using assms set_update_subset_insert [of "ag_sessions a" si x] by (auto simp: agent_ok_def)

lemma session_ok_fd:
  assumes "session_ok r s" "\<And>f. x = Some f \<Longrightarrow> file_ok r f"
  shows "session_ok r (s\<lparr>se_fds := (se_fds s)[fd := x]\<rparr>)"
  using assms set_update_subset_insert [of "se_fds s" fd x] by (auto simp: session_ok_def)

lemma agent_session: "agent_ok a \<Longrightarrow> si < MAX_SESSIONS \<Longrightarrow> ag_sessions a ! si = Some s \<Longrightarrow> session_ok (ag_fs a) s"
  by (metis agent_ok_def nth_mem)

lemma session_file: "session_ok r s \<Longrightarrow> fd < MAX_FDS \<Longrightarrow> se_fds s ! fd = Some f \<Longrightarrow> file_ok r f"
  by (metis session_ok_def nth_mem)

lemma agent_ok_advance:
  assumes "agent_ok a" "session_ok (ag_fs a) s" "file_ok (ag_fs a) f"
    and "rf_ntypes (ag_fs a) ! nat (of_node_idx f) = 1 \<Longrightarrow> 0 < sint result \<Longrightarrow> unat (of_offset f + result) \<le> FILE_SIZE"
  shows "agent_ok (advance si s fd f result a)"
  using assms by (auto simp: advance_def file_ok_def intro!: agent_ok_session session_ok_fd)

lemma agent_ok_install:
  assumes "agent_ok a" "session_ok (ag_fs a) s" "0 \<le> idx" "idx < rf_next_idx (ag_fs a)"
  shows "agent_ok (snd (install_fd si s idx a))"
  using assms by (auto simp: install_fd_def file_ok_def FILE_SIZE_def split: option.split intro!: agent_ok_session session_ok_fd)

lemma sum_offset:
  assumes "unat (off :: u32) \<le> FILE_SIZE" "n \<le> FILE_SIZE - unat off"
  shows "unat (off + word_of_nat n) \<le> FILE_SIZE"
proof -
  have "unat (word_of_nat n :: u32) = n"
    using assms(2) by (simp add: FILE_SIZE_def unat_of_nat)
  with assms show ?thesis
    by (simp add: unat_word_ariths FILE_SIZE_def)
qed

lemma do_open_ok:
  assumes ok: "agent_ok a" "si < MAX_SESSIONS" and short: "short_names path"
    and room: "rf_next_idx (ag_fs a) + int (length (components path)) \<le> int MAX_FILES"
  shows "\<exists>v a'. do_open si path flags a = Some (v, a') \<and> agent_ok a'"
proof (cases "ag_sessions a ! si")
  case None
  with ok show ?thesis by (simp add: do_open_def)
next
  case (Some s)
  obtain K where fs: "fs_ok (ag_fs a) K"
    using ok(1) by (auto simp: agent_ok_def)
  obtain x r' K' where l: "lookup_or_create (clean_path path) flags (ag_fs a) = Some (x, r')" "fs_ok r' K'" "fs_step (ag_fs a) r'"
      "\<forall>y. x = Some y \<longrightarrow> 0 \<le> y \<and> y < rf_next_idx r'"
    using lookup_or_create_total [OF fs, of "clean_path path" flags] short room by (auto simp: short_names_def)
  have a': "agent_ok (a\<lparr>ag_fs := r'\<rparr>)" "session_ok r' s"
    using agent_ok_fs [OF ok(1) l(2,3)] session_ok_step [OF agent_session [OF ok Some] l(3)] .
  show ?thesis
  proof (cases x)
    case None
    with Some l a' ok(1) show ?thesis by (simp add: do_open_def)
  next
    case (Some idx)
    have "agent_ok (snd (install_fd si s idx (a\<lparr>ag_fs := r'\<rparr>)))"
      using l(4) Some a' by (intro agent_ok_install) auto
    with \<open>ag_sessions a ! si = Some s\<close> Some l(1) ok(1) show ?thesis
      by (cases "install_fd si s idx (a\<lparr>ag_fs := r'\<rparr>)") (auto simp: do_open_def)
  qed
qed

lemma do_close_ok:
  assumes "agent_ok a" "si < MAX_SESSIONS"
  shows "agent_ok (snd (do_close si fd a))"
  using assms agent_session [OF assms]
  by (auto simp: do_close_def split: option.split intro!: agent_ok_session session_ok_fd)

lemma do_read_ok:
  assumes ok: "agent_ok a" "si < MAX_SESSIONS" and fd: "fd = tty_fd \<or> unat fd < MAX_FDS"
  shows "\<exists>res a'. do_read si fd n a = (Done res, a') \<and> agent_ok a'"
proof -
  obtain K where fs: "fs_ok (ag_fs a) K"
    using ok(1) by (auto simp: agent_ok_def)
  have adv: "agent_ok (advance si s (unat fd) f (fst (ramfs_read (of_node_idx f) n (unat (of_offset f)) (ag_fs a))) a)"
    if "ag_sessions a ! si = Some s" "unat fd < MAX_FDS" "se_fds s ! unat fd = Some f" for s f
  proof (rule agent_ok_advance [OF ok(1)])
    show so: "session_ok (ag_fs a) s" and fo: "file_ok (ag_fs a) f"
      using agent_session [OF ok that(1)] session_file [OF _ that(2,3)] by auto
    assume one: "rf_ntypes (ag_fs a) ! nat (of_node_idx f) = 1"
    obtain i where i: "of_node_idx f = int i" "i < MAX_FILES"
      using fo cursor_range [OF fs] by (metis file_ok_def zero_le_imp_eq_int of_nat_less_iff order_less_le_trans)
    let ?c = "contents (ag_fs a) i"
    have "length ?c \<le> FILE_SIZE"
      using sized_data [OF fs_okD(4) [OF fs] i(2)] by (simp add: contents_def)
    then have "length (take n (drop (unat (of_offset f)) ?c)) \<le> FILE_SIZE - unat (of_offset f)"
      by auto
    with read_contents [OF fs_okD(4) [OF fs] i(2), of n "unat (of_offset f)"] one i(1) fo
    show "unat (of_offset f + fst (ramfs_read (of_node_idx f) n (unat (of_offset f)) (ag_fs a))) \<le> FILE_SIZE"
      by (simp add: file_ok_def sum_offset del: length_take length_drop)
  qed
  show ?thesis
    using fd ok(1) adv by (fastforce simp: do_read_def split: option.split prod.split)
qed

lemma do_write_ok:
  assumes ok: "agent_ok a" "si < MAX_SESSIONS" and fd: "fd = tty_fd \<or> unat fd < MAX_FDS"
  shows "\<exists>v a'. do_write si fd data a = (Done v, a') \<and> agent_ok a'"
proof -
  obtain K where fs: "fs_ok (ag_fs a) K"
    using ok(1) by (auto simp: agent_ok_def)
  have step: "\<exists>v r'. ramfs_write (of_node_idx f) data (unat (of_offset f)) (ag_fs a) = (Done v, r') \<and>
      agent_ok (advance si s (unat fd) f v (a\<lparr>ag_fs := r'\<rparr>))"
    if s: "ag_sessions a ! si = Some s" "unat fd < MAX_FDS" "se_fds s ! unat fd = Some f" for s f
  proof -
    have so: "session_ok (ag_fs a) s" and fo: "file_ok (ag_fs a) f"
      using agent_session [OF ok s(1)] session_file [OF _ s(2,3)] by auto
    obtain i where i: "of_node_idx f = int i" "i < MAX_FILES"
      using fo cursor_range [OF fs] by (metis file_ok_def zero_le_imp_eq_int of_nat_less_iff order_less_le_trans)
    show ?thesis
    proof (cases "rf_ntypes (ag_fs a) ! i = 1")
      case False
      then have "ramfs_write (of_node_idx f) data (unat (of_offset f)) (ag_fs a) = (Done (-1), ag_fs a)"
        using i by (simp add: ramfs_write_def bad_index_def)
      moreover have "\<not> 0 < sint (-1 :: i32)"
        by simp
      ultimately show ?thesis
        using ok(1) by (simp add: advance_def)
    next
      case True
      let ?off = "unat (of_offset f)" and ?r = "stored i (take (FILE_SIZE - unat (of_offset f)) data) (unat (of_offset f)) (ag_fs a)"
      let ?n = "min (length data) (FILE_SIZE - ?off)"
      have off: "?off \<le> FILE_SIZE"
        using fo True i(1) by (simp add: file_ok_def)
      have "?off + length (take (FILE_SIZE - ?off) data) \<le> FILE_SIZE"
        using off by simp
      note fs' = fs_ok_stored [OF fs i(2) True this]
      have st: "fs_step (ag_fs a) ?r"
        by (simp add: fs_step_def stored_def)
      have "agent_ok (advance si s (unat fd) f (word_of_nat ?n) (a\<lparr>ag_fs := ?r\<rparr>))"
        using agent_ok_fs [OF ok(1) fs' st] session_ok_step [OF so st] file_ok_step [OF fo st] sum_offset [OF off, of ?n]
        by (intro agent_ok_advance) auto
      then show ?thesis
        using write_stored [OF fs_okD(4) [OF fs] i(2) True off, of data] i(1) by simp
    qed
  qed
  show ?thesis
    using fd ok(1) step by (fastforce simp: do_write_def split: option.split prod.split outcome.split)
qed

lemma do_readdir_ok:
  assumes ok: "agent_ok a" "si < MAX_SESSIONS" and fd: "unat fd < MAX_FDS"
  shows "\<exists>res a'. do_readdir si fd n a = Some (Done res, a') \<and> agent_ok a'"
proof -
  obtain K where fs: "fs_ok (ag_fs a) K"
    using ok(1) by (auto simp: agent_ok_def)
  have step: "\<exists>v out. readdir_names (of_node_idx f) n (ag_fs a) = Some (v, out) \<and> agent_ok (advance si s (unat fd) f v a)"
    if s: "ag_sessions a ! si = Some s" "se_fds s ! unat fd = Some f" for s f
  proof -
    have so: "session_ok (ag_fs a) s" and fo: "file_ok (ag_fs a) f"
      using agent_session [OF ok s(1)] session_file [OF _ fd s(2)] by auto
    obtain v out where r: "readdir_names (of_node_idx f) n (ag_fs a) = Some (v, out)"
      using readdir_total [OF fs] by metis
    have "v = -1" if "rf_ntypes (ag_fs a) ! nat (of_node_idx f) = 1"
      using r that by (simp add: readdir_names_def)
    then have "agent_ok (advance si s (unat fd) f v a)"
      by (intro agent_ok_advance [OF ok(1) so fo]) auto
    with r show ?thesis by blast
  qed
  show ?thesis
    using fd ok(1) step by (fastforce simp: do_readdir_def split: option.split)
qed

lemma do_mkdir_ok:
  assumes "agent_ok a" "short_names path" "rf_next_idx (ag_fs a) + int (length (components path)) \<le> int MAX_FILES"
  shows "\<exists>v a'. do_mkdir path a = Some (v, a') \<and> agent_ok a'"
proof -
  obtain K where "fs_ok (ag_fs a) K"
    using assms(1) by (auto simp: agent_ok_def)
  from mkdir_path_total [OF this assms(2,3)] agent_ok_fs [OF assms(1)] show ?thesis
    by (auto simp: do_mkdir_def)
qed

lemma remove_path_ok:
  assumes "agent_ok a"
  shows "\<exists>v a'. remove_path failed path a = Some (v, a') \<and> agent_ok a'"
proof -
  obtain K where fs: "fs_ok (ag_fs a) K"
    using assms by (auto simp: agent_ok_def)
  from resolve_live [OF fs, of path] show ?thesis
  proof (elim disjE exE conjE)
    fix q assume q: "resolve path (ag_fs a) = Some (Some (int q))" "q < MAX_FILES"
    from remove_total [OF fs q(2), of "parent_of (int q) (ag_fs a)"] q(1) agent_ok_fs [OF assms] assms show ?thesis
      by (fastforce simp: remove_path_def Let_def)
  qed (use assms in \<open>simp add: remove_path_def\<close>)
qed

lemma do_stat_total:
  assumes "agent_ok a"
  shows "\<exists>sz ty. do_stat path a = Some (sz, ty)"
proof -
  obtain K where fs: "fs_ok (ag_fs a) K"
    using assms by (auto simp: agent_ok_def)
  from resolve_live [OF fs, of "clean_path path"] show ?thesis
    by (auto simp: do_stat_def)
qed

text \<open>
  A request the service can answer: the names of its path are shorter than the name buffer and the nodes
  the path may need are below the end of the table, a descriptor is in range, and the length of a write is
  within the message.
\<close>

definition request_ok :: "u8 list \<Rightarrow> agent \<Rightarrow> bool" where
  "request_ok buf a \<longleftrightarrow>
     (hd buf = VFS_OPEN \<or> hd buf = VFS_MKDIR \<longrightarrow>
        short_names (cmd_path buf) \<and> rf_next_idx (ag_fs a) + int (length (components (cmd_path buf))) \<le> int MAX_FILES) \<and>
     (hd buf = VFS_READ \<or> hd buf = VFS_WRITE \<longrightarrow> cmd_arg32_1 buf = tty_fd \<or> unat (cmd_arg32_1 buf) < MAX_FDS) \<and>
     (hd buf = VFS_WRITE \<longrightarrow> write_data buf \<noteq> Crash) \<and>
     (hd buf = VFS_READDIR \<longrightarrow> unat (cmd_arg32_1 buf) < MAX_FDS)"

lemmas vfs_commands = VFS_OPEN_def VFS_CLOSE_def VFS_READ_def VFS_WRITE_def VFS_MKDIR_def VFS_RMDIR_def VFS_UNLINK_def VFS_READDIR_def VFS_STAT_def

text \<open>
  C13. While the table of nodes has room, the file service answers every request whose arguments are in
  range: the command ends, without a panic and with a reply, and the invariant of the service (the tree,
  the contents, and every open file of every session) holds again.
\<close>

theorem file_agent_serves:
  assumes ok: "agent_ok a" "si < MAX_SESSIONS" and req: "buf \<noteq> []" "request_ok buf a"
  shows "\<exists>reply a'. handle_cmd si buf a = Some (Done (Some reply), a') \<and> agent_ok a'"
proof -
  have ans: "\<exists>reply a'. answered x = Some (Done (Some reply), a') \<and> agent_ok a'" if "\<exists>v a'. x = Some (v, a') \<and> agent_ok a'" for x
    using that by (auto simp: answered_def)
  note H = handle_cmd_def Let_def
  have "hd buf = VFS_OPEN \<Longrightarrow> ?thesis"
    using ans [OF do_open_ok [OF ok, of "cmd_path buf" "cmd_arg32_1 buf"]] req by (simp add: H request_ok_def)
  moreover have "hd buf = VFS_CLOSE \<Longrightarrow> ?thesis"
    using do_close_ok [OF ok, of "cmd_arg32_1 buf"] ans [of "Some (do_close si (cmd_arg32_1 buf) a)"] req(1)
    by (simp add: H vfs_commands) (metis prod.collapse)
  moreover have "hd buf = VFS_READ \<Longrightarrow> ?thesis"
    using do_read_ok [OF ok, of "cmd_arg32_1 buf" 1024] req by (auto simp: H request_ok_def vfs_commands)
  moreover have "?thesis" if w: "hd buf = VFS_WRITE"
  proof -
    obtain data where d: "write_data buf = Done data"
      using req w by (cases "write_data buf") (auto simp: request_ok_def)
    then show ?thesis
      using do_write_ok [OF ok, of "cmd_arg32_1 buf" data] req w by (auto simp: H request_ok_def vfs_commands)
  qed
  moreover have "hd buf = VFS_MKDIR \<Longrightarrow> ?thesis"
    using ans [OF do_mkdir_ok [OF ok(1), of "cmd_path buf"]] req by (simp add: H request_ok_def vfs_commands)
  moreover have "hd buf = VFS_RMDIR \<Longrightarrow> ?thesis" "hd buf = VFS_UNLINK \<Longrightarrow> ?thesis"
    using ans [OF remove_path_ok [OF ok(1)]] req(1) by (simp_all add: H vfs_commands do_rmdir_def do_unlink_def)
  moreover have "hd buf = VFS_READDIR \<Longrightarrow> ?thesis"
    using do_readdir_ok [OF ok, of "cmd_arg32_1 buf" 1024] req by (auto simp: H request_ok_def vfs_commands)
  moreover have "hd buf = VFS_STAT \<Longrightarrow> ?thesis"
    using do_stat_total [OF ok(1), of "cmd_path buf"] ok(1) req(1) by (auto simp: H vfs_commands)
  moreover have "hd buf \<notin> {VFS_OPEN, VFS_CLOSE, VFS_READ, VFS_WRITE, VFS_MKDIR, VFS_RMDIR, VFS_UNLINK, VFS_READDIR, VFS_STAT} \<Longrightarrow> ?thesis"
    using req(1) ok(1) by (simp add: H)
  ultimately show ?thesis by blast
qed

text \<open>The service after its start, with one session.\<close>

definition demo_agent :: agent where
  "demo_agent = \<lparr>ag_sessions = Some (session_new 5) # replicate 7 None, ag_fs = ramfs_init ramfs_static\<rparr>"

lemma demo_agent_ok: "agent_ok demo_agent"
  using fs_ok_init by (auto simp: agent_ok_def demo_agent_def MAX_SESSIONS_def session_ok_def session_new_def MAX_FDS_def)

text \<open>The command that opens \<open>/a\<close>, creating it.\<close>

definition demo_open :: "u8 list" where
  "demo_open = [1, 0, 0, 0, 0x40, 0, 0, 0] @ replicate 12 0 @ [0x2F, 0x61]"

theorem file_agent_serves_witness:
  "\<exists>reply a'. handle_cmd 0 demo_open demo_agent = Some (Done (Some reply), a') \<and> agent_ok a'"
proof -
  have "cmd_path demo_open = [0x2F, 0x61]"
    by (simp add: cmd_path_def demo_open_def)
  then have "request_ok demo_open demo_agent"
    using init_cursor(2)
    by (simp add: request_ok_def vfs_commands short_names_def components_def MAX_NAME_def MAX_FILES_def demo_agent_def) (simp add: demo_open_def)
  then show ?thesis
    using file_agent_serves [OF demo_agent_ok, of 0 demo_open] by (simp add: MAX_SESSIONS_def demo_open_def)
qed

end
