(* ===== verification/Libc_Files.thy ===== *)
theory Libc_Files
  imports File_Agent
begin

text \<open>
  The file functions of the C library (\<open>libraries/libc/src/lib.rs\<close>): they keep the descriptors of the
  program and turn each call into a message to the file service. The channel system calls they use are
  fields of a record (\<open>transport\<close>) over a world \<open>'w\<close>; an operation that never returns is \<open>None\<close>. At the end
  the record is instantiated with a connection to the model of the service.
\<close>

section \<open>System calls the library uses\<close>

record 'w transport =
  t_lookup :: "u8 list \<Rightarrow> 'w \<Rightarrow> (u64 option \<times> 'w) option"
  t_write :: "u64 \<Rightarrow> u8 list \<Rightarrow> 'w \<Rightarrow> bool \<times> 'w"
  t_read :: "u64 \<Rightarrow> nat \<Rightarrow> 'w \<Rightarrow> (u8 list option \<times> 'w) option"
  t_close :: "u64 \<Rightarrow> 'w \<Rightarrow> 'w"
  t_console_read :: "i32 \<Rightarrow> nat \<Rightarrow> 'w \<Rightarrow> int \<times> u8 list \<times> 'w"
  t_console_write :: "i32 \<Rightarrow> u8 list \<Rightarrow> 'w \<Rightarrow> int \<times> 'w"

section \<open>Descriptors\<close>

datatype fd_type = Console | File (channel_handle: u64) (remote_fd: u32)

record user_fd_entry =
  fe_type :: fd_type
  fe_flags :: i32

type_synonym user_fd_table = "user_fd_entry option list"

definition USER_FD_TABLE :: user_fd_table where
  "USER_FD_TABLE = [Some \<lparr>fe_type = Console, fe_flags = 0\<rparr>, Some \<lparr>fe_type = Console, fe_flags = 1\<rparr>, Some \<lparr>fe_type = Console, fe_flags = 2\<rparr>] @
     replicate 61 None"

section \<open>Messages\<close>

text \<open>The 148-byte command: the code, the two 32-bit arguments, and the payload from byte 20 on.\<close>

definition command_buf :: "u8 \<Rightarrow> u32 \<Rightarrow> u32 \<Rightarrow> u8 list \<Rightarrow> u8 list" where
  "command_buf c a1 a2 payload =
     [c, 0, 0, 0] @ word_to_le 4 a1 @ word_to_le 4 a2 @ replicate 8 0 @ payload @ replicate (128 - length payload) 0"

definition i64_of_le :: "u8 list \<Rightarrow> int" where
  "i64_of_le bs = sint (word_of_le bs :: u64)"

definition send_vfs_cmd :: "'w transport \<Rightarrow> u64 \<Rightarrow> u8 list \<Rightarrow> 'w \<Rightarrow> (int \<times> 'w) option" where
  "send_vfs_cmd T ch cmd w =
     (let (ok, w1) = t_write T ch cmd w in
      if \<not> ok then Some (-1, w1)
      else case t_read T ch 8 w1 of
        None \<Rightarrow> None
      | Some (Some resp, w2) \<Rightarrow> Some (if 8 \<le> length resp then i64_of_le resp else -1, w2)
      | Some (None, w2) \<Rightarrow> Some (-1, w2))"

section \<open>Calls with a path\<close>

text \<open>A C string is scanned up to its zero byte, but for at most 127 bytes.\<close>

definition c_path :: "u8 list \<Rightarrow> u8 list" where
  "c_path s = take 127 (takeWhile (\<lambda>b. b \<noteq> 0) s)"

definition svc_vfs :: "u8 list" where
  "svc_vfs = ascii ''svc.vfs''"

definition first_free_fd :: "user_fd_table \<Rightarrow> nat option" where
  "first_free_fd tbl = map_option (\<lambda>k. k + 3) (find_index (\<lambda>e. e = None) (drop 3 tbl))"

definition libc_open :: "'w transport \<Rightarrow> u8 list \<Rightarrow> i32 \<Rightarrow> user_fd_table \<Rightarrow> 'w \<Rightarrow> (i32 \<times> user_fd_table \<times> 'w) option" where
  "libc_open T path flags tbl w =
     (case t_lookup T svc_vfs w of
        None \<Rightarrow> None
      | Some (None, w1) \<Rightarrow> Some (-1, tbl, w1)
      | Some (Some ch, w1) \<Rightarrow>
          (case send_vfs_cmd T ch (command_buf 1 flags 0 (c_path path)) w1 of
             None \<Rightarrow> None
           | Some (remote, w2) \<Rightarrow>
               if remote < 0 then Some (-1, tbl, t_close T ch w2)
               else case first_free_fd tbl of
                 None \<Rightarrow> Some (-1, tbl, t_close T ch w2)
               | Some fd \<Rightarrow> Some (word_of_nat fd, tbl[fd := Some \<lparr>fe_type = File ch (word_of_int remote), fe_flags = flags\<rparr>], w2)))"

definition open_str :: "'w transport \<Rightarrow> u8 list \<Rightarrow> i32 \<Rightarrow> user_fd_table \<Rightarrow> 'w \<Rightarrow> (i32 \<times> user_fd_table \<times> 'w) option" where
  "open_str T path flags tbl w = libc_open T (take 255 path @ [0]) flags tbl w"

text \<open>\<open>mkdir\<close>, \<open>rmdir\<close> and \<open>unlink\<close> differ in the command only.\<close>

definition path_call :: "u8 \<Rightarrow> 'w transport \<Rightarrow> u8 list \<Rightarrow> 'w \<Rightarrow> (i32 \<times> 'w) option" where
  "path_call c T path w =
     (case t_lookup T svc_vfs w of
        None \<Rightarrow> None
      | Some (None, w1) \<Rightarrow> Some (-1, w1)
      | Some (Some ch, w1) \<Rightarrow>
          (case send_vfs_cmd T ch (command_buf c 0 0 (c_path path)) w1 of
             None \<Rightarrow> None
           | Some (result, w2) \<Rightarrow> Some (word_of_int result, t_close T ch w2)))"

definition libc_mkdir :: "'w transport \<Rightarrow> u8 list \<Rightarrow> 'w \<Rightarrow> (i32 \<times> 'w) option" where
  "libc_mkdir T path w = path_call 6 T path w"

definition libc_rmdir :: "'w transport \<Rightarrow> u8 list \<Rightarrow> 'w \<Rightarrow> (i32 \<times> 'w) option" where
  "libc_rmdir T path w = path_call 7 T path w"

definition libc_unlink :: "'w transport \<Rightarrow> u8 list \<Rightarrow> 'w \<Rightarrow> (i32 \<times> 'w) option" where
  "libc_unlink T path w = path_call 8 T path w"

record file_stat =
  st_size :: int
  st_mode :: u32

definition libc_stat :: "'w transport \<Rightarrow> u8 list \<Rightarrow> file_stat \<Rightarrow> 'w \<Rightarrow> (i32 \<times> file_stat \<times> 'w) option" where
  "libc_stat T path buf w =
     (case t_lookup T svc_vfs w of
        None \<Rightarrow> None
      | Some (None, w1) \<Rightarrow> Some (-1, buf, w1)
      | Some (Some ch, w1) \<Rightarrow>
          (let (ok, w2) = t_write T ch (command_buf 10 0 0 (c_path path)) w1 in
           if \<not> ok then Some (-1, buf, t_close T ch w2)
           else case t_read T ch 16 w2 of
             None \<Rightarrow> None
           | Some (None, w3) \<Rightarrow> Some (-1, buf, t_close T ch w3)
           | Some (Some resp, w3) \<Rightarrow>
               if length resp < 16 then Some (-1, buf, t_close T ch w3)
               else let ntype = i64_of_le (take 8 (drop 8 resp)) in
               Some (0, \<lparr>st_size = i64_of_le (take 8 resp), st_mode = (if ntype = 2 then 0x4000 else if ntype = 1 then 0x8000 else 0)\<rparr>,
                 t_close T ch w3)))"

section \<open>Calls with a descriptor\<close>

definition fd_lookup :: "user_fd_table \<Rightarrow> i32 \<Rightarrow> user_fd_entry option" where
  "fd_lookup tbl fd = (if sint fd < 0 \<or> 64 \<le> sint fd then None else tbl ! nat (sint fd))"

text \<open>The exchange \<open>read\<close> and \<open>readdir\<close> share: the result and the bytes stored in the buffer of the caller.\<close>

definition fetch :: "u8 \<Rightarrow> 'w transport \<Rightarrow> u64 \<Rightarrow> u32 \<Rightarrow> u64 \<Rightarrow> 'w \<Rightarrow> (int \<times> u8 list \<times> 'w) option" where
  "fetch c T ch rfd count w =
     (let (ok, w1) = t_write T ch (command_buf c rfd (ucast count) []) w in
      if \<not> ok then Some (-1, [], w1)
      else case t_read T ch 136 w1 of
        None \<Rightarrow> None
      | Some (None, w2) \<Rightarrow> Some (-1, [], w2)
      | Some (Some resp, w2) \<Rightarrow>
          if length resp < 8 then Some (-1, [], w2)
          else let result = i64_of_le (take 8 resp) in
          if result < 0 then Some (-1, [], w2)
          else if 0 < result then
            (let copy_len = min (min (nat result) (unat count)) 128
             in Some (int copy_len, take copy_len (drop 8 resp @ replicate (136 - length resp) 0), w2))
          else Some (0, [], w2))"

definition libc_read :: "'w transport \<Rightarrow> i32 \<Rightarrow> u64 \<Rightarrow> user_fd_table \<Rightarrow> 'w \<Rightarrow> (int \<times> u8 list \<times> 'w) option" where
  "libc_read T fd count tbl w =
     (if count = 0 then Some (0, [], w)
      else case fd_lookup tbl fd of
        None \<Rightarrow> Some (-1, [], w)
      | Some e \<Rightarrow>
          (case fe_type e of
             Console \<Rightarrow> Some (t_console_read T fd (unat count) w)
           | File ch rfd \<Rightarrow> fetch 3 T ch rfd count w))"

definition libc_readdir :: "'w transport \<Rightarrow> i32 \<Rightarrow> u64 \<Rightarrow> user_fd_table \<Rightarrow> 'w \<Rightarrow> (int \<times> u8 list \<times> 'w) option" where
  "libc_readdir T fd count tbl w =
     (if count = 0 then Some (0, [], w)
      else case fd_lookup tbl fd of
        None \<Rightarrow> Some (-1, [], w)
      | Some e \<Rightarrow>
          (case fe_type e of
             Console \<Rightarrow> Some (-1, [], w)
           | File ch rfd \<Rightarrow> fetch 9 T ch rfd count w))"

definition libc_write :: "'w transport \<Rightarrow> i32 \<Rightarrow> u8 list \<Rightarrow> user_fd_table \<Rightarrow> 'w \<Rightarrow> (int \<times> 'w) option" where
  "libc_write T fd bytes tbl w =
     (if bytes = [] then Some (0, w)
      else case fd_lookup tbl fd of
        None \<Rightarrow> Some (-1, w)
      | Some e \<Rightarrow>
          (case fe_type e of
             Console \<Rightarrow> Some (t_console_write T fd bytes w)
           | File ch rfd \<Rightarrow>
               map_option (\<lambda>(result, w1). (if result < 0 then -1 else result, w1))
                 (send_vfs_cmd T ch (command_buf 5 rfd (word_of_nat (length bytes)) (take 128 bytes)) w)))"

definition libc_close :: "'w transport \<Rightarrow> i32 \<Rightarrow> user_fd_table \<Rightarrow> 'w \<Rightarrow> i32 \<times> user_fd_table \<times> 'w" where
  "libc_close T fd tbl w =
     (case fd_lookup tbl fd of
        None \<Rightarrow> (-1, tbl, w)
      | Some e \<Rightarrow>
          (let tbl1 = tbl[nat (sint fd) := None] in
           case fe_type e of
             Console \<Rightarrow> (0, tbl1, w)
           | File ch rfd \<Rightarrow> (0, tbl1, t_close T ch (snd (t_write T ch (command_buf 2 rfd 0 []) w)))))"

definition libc_getchar :: "'w transport \<Rightarrow> user_fd_table \<Rightarrow> 'w \<Rightarrow> (u8 option \<times> 'w) option" where
  "libc_getchar T tbl w =
     map_option (\<lambda>(n, bytes, w1). (if 0 < n then Some (case bytes of b # _ \<Rightarrow> b | [] \<Rightarrow> 0) else None, w1)) (libc_read T 0 1 tbl w)"

definition libc_putchar :: "'w transport \<Rightarrow> u8 \<Rightarrow> user_fd_table \<Rightarrow> 'w \<Rightarrow> 'w option" where
  "libc_putchar T c tbl w = map_option snd (libc_write T 1 [c] tbl w)"

section \<open>A connection to the file service\<close>

text \<open>
  The service serves one session at a time (\<open>main.rs\<close>): it accepts a connection, answers its messages until
  the channel is closed, and only then reads the next connection. A channel write is a rendezvous, so a
  second connection waits, for ever if the only client is the one that holds the first. A panic ends the
  service and closes its channels.
\<close>

datatype service_state = Serving | Panicked | Spinning

record connection =
  cn_agent :: agent
  cn_current :: "(u64 \<times> nat) option"
  cn_next :: u64
  cn_replies :: "u8 list list"
  cn_state :: service_state

definition service_lookup :: "u8 list \<Rightarrow> connection \<Rightarrow> (u64 option \<times> connection) option" where
  "service_lookup name w =
     (if name \<noteq> svc_vfs \<or> cn_state w = Panicked then Some (None, w)
      else if cn_current w \<noteq> None \<or> cn_state w = Spinning then None
      else let ch = cn_next w; w1 = w\<lparr>cn_next := ch + 1, cn_replies := []\<rparr> in
      case accept_session ch (cn_agent w) of
        (None, a) \<Rightarrow> Some (Some ch, w1)
      | (Some i, a) \<Rightarrow> Some (Some ch, w1\<lparr>cn_agent := a, cn_current := Some (ch, i)\<rparr>))"

definition service_write :: "u64 \<Rightarrow> u8 list \<Rightarrow> connection \<Rightarrow> bool \<times> connection" where
  "service_write ch m w =
     (case cn_current w of
        None \<Rightarrow> (False, w)
      | Some (c, i) \<Rightarrow>
          if c \<noteq> ch \<or> cn_state w = Panicked then (False, w)
          else case handle_cmd i m (cn_agent w) of
            None \<Rightarrow> (True, w\<lparr>cn_state := Spinning\<rparr>)
          | Some (Crash, a) \<Rightarrow> (True, w\<lparr>cn_agent := a, cn_state := Panicked\<rparr>)
          | Some (Done r, a) \<Rightarrow> (True, w\<lparr>cn_agent := a, cn_replies := cn_replies w @ (case r of None \<Rightarrow> [] | Some x \<Rightarrow> [x])\<rparr>))"

definition service_read :: "u64 \<Rightarrow> nat \<Rightarrow> connection \<Rightarrow> (u8 list option \<times> connection) option" where
  "service_read ch n w =
     (case cn_current w of
        None \<Rightarrow> Some (None, w)
      | Some (c, i) \<Rightarrow>
          if c \<noteq> ch then Some (None, w)
          else case cn_replies w of
            r # rs \<Rightarrow> Some (Some (take n r), w\<lparr>cn_replies := rs\<rparr>)
          | [] \<Rightarrow> if cn_state w = Panicked then Some (None, w) else None)"

definition service_close :: "u64 \<Rightarrow> connection \<Rightarrow> connection" where
  "service_close ch w =
     (case cn_current w of
        None \<Rightarrow> w
      | Some (c, i) \<Rightarrow>
          if c \<noteq> ch \<or> cn_state w \<noteq> Serving then w
          else w\<lparr>cn_agent := (cn_agent w)\<lparr>ag_sessions := (ag_sessions (cn_agent w))[i := None]\<rparr>, cn_current := None, cn_replies := []\<rparr>)"

definition file_service :: "connection transport" where
  "file_service = \<lparr>t_lookup = service_lookup, t_write = service_write, t_read = service_read, t_close = service_close,
     t_console_read = (\<lambda>fd n w. (-1, [], w)), t_console_write = (\<lambda>fd bs w. (-1, w))\<rparr>"

lemma file_service_simps [simp]:
  "t_lookup file_service = service_lookup" "t_write file_service = service_write" "t_read file_service = service_read"
  "t_close file_service = service_close"
  by (simp_all add: file_service_def)

section \<open>Encoding and decoding of messages\<close>

lemma command_buf_length: "length p \<le> 128 \<Longrightarrow> length (command_buf c a1 a2 p) = 148"
  by (simp add: command_buf_def)

lemma command_buf_args [simp]:
  "command_buf c a1 a2 p \<noteq> []" "hd (command_buf c a1 a2 p) = c"
  "cmd_arg32_1 (command_buf c a1 a2 p) = a1" "cmd_arg32_2 (command_buf c a1 a2 p) = a2"
  by (simp_all add: command_buf_def cmd_arg32_1_def cmd_arg32_2_def word_of_le_to_le take_Cons' drop_Cons')

lemma command_buf_payload: "drop 20 (command_buf c a1 a2 p) = p @ replicate (128 - length p) 0"
  by (simp add: command_buf_def drop_Cons')

lemma command_buf_path:
  assumes "0 \<notin> set p" "utf8_valid p" "length p < 128"
  shows "cmd_path (command_buf c a1 a2 p) = p"
proof -
  have "takeWhile (\<lambda>b. b \<noteq> 0) (p @ replicate (128 - length p) 0) = p"
    using assms(1,3) by (subst takeWhile_append2) (auto simp: Suc_diff_Suc)
  with assms show ?thesis
    by (simp add: cmd_path_def command_buf_payload command_buf_length)
qed

lemma command_buf_write_data:
  assumes "bytes \<noteq> []" "length bytes < 2 ^ 32"
  shows "write_data (command_buf c fd (word_of_nat (length bytes)) (take 128 bytes)) = (if length bytes \<le> 128 then Done bytes else Crash)"
proof -
  have "unat (word_of_nat (length bytes) :: u32) = length bytes"
    using assms(2) by (simp add: unat_of_nat)
  then show ?thesis
    using assms(1) by (simp add: write_data_def command_buf_payload command_buf_length)
qed

lemma i64_of_response: "i64_of_le (write_response v) = sint v"
  by (simp add: i64_of_le_def write_response_def word_of_le_to_le sint_up_scast is_up)

lemma sint_of_nat_small: "n < 2 ^ 31 \<Longrightarrow> sint (word_of_nat n :: i32) = int n"
  by (simp add: signed_of_nat signed_take_bit_int_eq_self)

lemma length_response [simp]: "length (write_response v) = 8"
  by (simp add: write_response_def)

section \<open>Exchanges with the service\<close>

lemma send_answered:
  assumes "cn_current w = Some (ch, i)" "cn_state w = Serving" "cn_replies w = []"
    and "handle_cmd i m (cn_agent w) = Some (Done (Some (write_response v)), a)"
  shows "send_vfs_cmd file_service ch m w = Some (sint v, w\<lparr>cn_agent := a\<rparr>)"
  using assms by (simp add: send_vfs_cmd_def service_write_def service_read_def i64_of_response)

lemma handle_open:
  "0 \<notin> set p \<Longrightarrow> utf8_valid p \<Longrightarrow> length p < 128 \<Longrightarrow> handle_cmd i (command_buf 1 flags 0 p) a = answered (do_open i p flags a)"
  by (simp add: handle_cmd_def VFS_OPEN_def command_buf_path)

lemma handle_read:
  "handle_cmd i (command_buf 3 rfd n []) a =
     (case do_read i rfd 1024 a of (Crash, a') \<Rightarrow> Some (Crash, a') | (Done res, a') \<Rightarrow> Some (Done (Some (reply_data res)), a'))"
  by (simp add: handle_cmd_def vfs_commands)

lemma handle_write:
  "handle_cmd i (command_buf 5 rfd n p) a =
     (case write_data (command_buf 5 rfd n p) of
        Crash \<Rightarrow> Some (Crash, a)
      | Done data \<Rightarrow> (case do_write i rfd data a of
          (Crash, a') \<Rightarrow> Some (Crash, a')
        | (Done v, a') \<Rightarrow> Some (Done (Some (write_response v)), a')))"
  by (simp add: handle_cmd_def vfs_commands split: outcome.split)

lemma handle_close: "handle_cmd i (command_buf 2 rfd n p) a = answered (Some (do_close i rfd a))"
  by (simp add: handle_cmd_def vfs_commands)


definition demo_connection :: connection where
  "demo_connection = \<lparr>cn_agent = demo_agent, cn_current = Some (5, 0), cn_next = 6, cn_replies = [], cn_state = Serving\<rparr>"

definition demo_table :: user_fd_table where
  "demo_table = USER_FD_TABLE[3 := Some \<lparr>fe_type = File 5 0, fe_flags = 0\<rparr>]"

lemma demo_fd: "fd_lookup demo_table 3 = Some \<lparr>fe_type = File 5 0, fe_flags = 0\<rparr>"
  by (simp add: fd_lookup_def demo_table_def USER_FD_TABLE_def)


text \<open>
  While a file is open, opening another one never returns: the service drives one session until its
  channel is closed, and each \<open>open\<close> is a session of its own.
\<close>

theorem second_open_blocks:
  assumes "cn_current w = Some (ch, i)" "cn_state w = Serving"
  shows "libc_open file_service path flags tbl w = None"
  using assms by (simp add: libc_open_def service_lookup_def)

theorem second_open_blocks_witness:
  "libc_open file_service (ascii ''/a'') 0x40 demo_table demo_connection = None"
  by (rule second_open_blocks [of _ 5 0]) (simp_all add: demo_connection_def)

section \<open>Reading\<close>

lemma fetch_file:
  assumes conn: "cn_current w = Some (ch, i)" "cn_state w = Serving" "cn_replies w = []"
    and fs: "fs_ok (ag_fs (cn_agent w)) K" and s: "ag_sessions (cn_agent w) ! i = Some s" "unat rfd < MAX_FDS" "se_fds s ! unat rfd = Some f"
    and x: "of_node_idx f = int x" "x < MAX_FILES" "rf_ntypes (ag_fs (cn_agent w)) ! x \<noteq> 0"
    and c: "c = drop (unat (of_offset f)) (contents (ag_fs (cn_agent w)) x)" and n: "0 < unat count"
  shows "fetch 3 file_service ch rfd count w =
    Some (int (min (min (length c) (unat count)) 128), take (min (unat count) 128) c,
      w\<lparr>cn_agent := advance i s (unat rfd) f (word_of_nat (min 1024 (length c))) (cn_agent w)\<rparr>)"
proof -
  let ?a = "cn_agent w" and ?n = "min 1024 (length c)"
  have fd: "rfd \<noteq> tty_fd"
    using s(2) by (auto simp: tty_fd_def MAX_FDS_def)
  have rd: "ramfs_read (of_node_idx f) 1024 (unat (of_offset f)) (ag_fs ?a) = (word_of_nat ?n, take 1024 c)"
    using read_contents [OF fs_okD(4) [OF fs] x(2,3), of 1024 "unat (of_offset f)"] x(1) c by (simp add: min.commute)
  have si: "sint (word_of_nat ?n :: i32) = int ?n"
    by (rule sint_of_nat_small) simp
  define res where "res = write_response_data (word_of_nat ?n) (take 1024 c)"
  have h: "handle_cmd i (command_buf 3 rfd (ucast count) []) ?a = Some (Done (Some res), advance i s (unat rfd) f (word_of_nat ?n) ?a)"
    using s fd rd si by (simp add: handle_read do_read_def reply_data_def res_def)
  have len: "length res = 8 + min 128 ?n" and hd8: "i64_of_le (take 8 res) = int ?n" and tl: "drop 8 res = take 128 c"
    using si i64_of_response [of "word_of_nat ?n"] by (simp_all add: res_def write_response_data_def write_response_def)
  have "take 136 res = res"
    using len by simp
  with conn h len hd8 tl n show ?thesis
    by (simp add: fetch_def service_write_def service_read_def Let_def) (auto simp: min_def)
qed

lemma advance_fields:
  "ag_fs (advance i s fd f v a) = ag_fs a" "length (ag_sessions (advance i s fd f v a)) = length (ag_sessions a)"
  "0 < sint v \<Longrightarrow> i < length (ag_sessions a) \<Longrightarrow>
     ag_sessions (advance i s fd f v a) ! i = Some (s\<lparr>se_fds := (se_fds s)[fd := Some (f\<lparr>of_offset := of_offset f + v\<rparr>)]\<rparr>)"
  by (simp_all add: advance_def)

lemma libc_read_file:
  "fd_lookup tbl fd = Some e \<Longrightarrow> fe_type e = File ch rfd \<Longrightarrow> count \<noteq> 0 \<Longrightarrow> libc_read T fd count tbl w = fetch 3 T ch rfd count w"
  by (simp add: libc_read_def)

text \<open>
  Reading a file of more than 128 bytes through the library loses the rest: the service moves the
  offset by up to 1024 bytes but sends only the first 128 of them, so the first \<open>read\<close> returns 128 bytes and
  the next one reports the end of the file.
\<close>

theorem libc_read_loses_data:
  assumes ok: "agent_ok (cn_agent w)" "i < MAX_SESSIONS" and conn: "cn_current w = Some (ch, i)" "cn_state w = Serving" "cn_replies w = []"
    and fd: "fd_lookup tbl fd = Some e" "fe_type e = File ch rfd"
    and s: "ag_sessions (cn_agent w) ! i = Some s" "unat rfd < MAX_FDS" "se_fds s ! unat rfd = Some f" "of_offset f = 0"
    and x: "of_node_idx f = int x" "rf_ntypes (ag_fs (cn_agent w)) ! x = 1" "contents (ag_fs (cn_agent w)) x = c" "128 < length c" "length c \<le> 1024"
  shows "\<exists>w' w''. libc_read file_service fd 1024 tbl w = Some (128, take 128 c, w') \<and> libc_read file_service fd 1024 tbl w' = Some (0, [], w'')"
proof -
  let ?a = "cn_agent w" and ?n = "length c"
  obtain K where fs: "fs_ok (ag_fs ?a) K"
    using ok(1) by (auto simp: agent_ok_def)
  have so: "session_ok (ag_fs ?a) s" and fo: "file_ok (ag_fs ?a) f"
    using agent_session [OF ok s(1)] session_file [OF _ s(2,3)] by auto
  have b: "i < length (ag_sessions ?a)" "unat rfd < length (se_fds s)"
    using ok so s(2) by (simp_all add: agent_ok_def session_ok_def)
  have xb: "x < MAX_FILES"
    using fo cursor_range [OF fs] x(1) by (metis file_ok_def of_nat_less_iff order_less_le_trans)
  have cnt: "unat (1024 :: u64) = 1024" "(1024 :: u64) \<noteq> 0"
    by simp_all
  define w' where "w' = w\<lparr>cn_agent := advance i s (unat rfd) f (word_of_nat ?n) ?a\<rparr>"
  let ?f = "f\<lparr>of_offset := word_of_nat ?n\<rparr>"
  have "libc_read file_service fd 1024 tbl w = Some (128, take 128 c, w')"
    using fetch_file [OF conn fs s(1-3) x(1) xb, of c 1024] x s(4) libc_read_file [OF fd cnt(2), of file_service w]
    by (simp add: w'_def min_def)
  moreover have "0 < sint (word_of_nat ?n :: i32)"
    using x(4,5) by (subst sint_of_nat_small) auto
  then have s': "ag_sessions (cn_agent w') ! i = Some (s\<lparr>se_fds := (se_fds s)[unat rfd := Some ?f]\<rparr>)"
    using advance_fields(3) [OF _ b(1)] s(4) by (simp add: w'_def)
  have w': "cn_current w' = Some (ch, i)" "cn_state w' = Serving" "cn_replies w' = []" "ag_fs (cn_agent w') = ag_fs ?a"
    using conn by (simp_all add: w'_def advance_fields)
  have "unat (word_of_nat ?n :: u32) = ?n"
    using x(5) by (simp add: unat_of_nat)
  then have "[] = drop (unat (of_offset ?f)) (contents (ag_fs (cn_agent w')) x)"
    using x(3) w'(4) by simp
  from fetch_file [OF w'(1-3) _ s' s(2) _ _ xb _ this, of K 1024] fs w'(4) b(2) x(1,2) libc_read_file [OF fd cnt(2), of file_service w']
  have "\<exists>w''. libc_read file_service fd 1024 tbl w' = Some (0, [], w'')"
    by simp
  ultimately show ?thesis by blast
qed

text \<open>A file of 200 bytes, open in the first session.\<close>

definition demo_tree_fs :: ramfs where
  "demo_tree_fs = stored 1 (replicate 200 65) 0 (grown 1 [0x61] NodeFile 0 (\<lambda>_. []) (ramfs_init ramfs_static))"

definition demo_reader :: connection where
  "demo_reader = demo_connection\<lparr>cn_agent := \<lparr>ag_sessions = Some \<lparr>se_server_chan = 5, se_fds = Some \<lparr>of_node_idx = 1, of_offset = 0\<rparr> # replicate 15 None\<rparr> #
     replicate 7 None, ag_fs = demo_tree_fs\<rparr>\<rparr>"

lemma demo_tree_fs_ok:
  "\<exists>K. fs_ok demo_tree_fs K" "rf_ntypes demo_tree_fs ! 1 = 1" "contents demo_tree_fs 1 = replicate 200 65" "rf_next_idx demo_tree_fs = 2"
proof -
  let ?r = "grown 1 [0x61] NodeFile 0 (\<lambda>_. []) (ramfs_init ramfs_static)"
  have g: "fs_ok ?r ((\<lambda>_. [])(0 := [] @ [1]))"
    using fs_ok_grown [OF fs_ok_init, of 1 0 "[0x61]" NodeFile] init_cursor(2) fs_okD(5) [OF fs_ok_init]
    by (simp add: MAX_FILES_def MAX_NAME_def)
  have sz: "length (rf_ntypes (ramfs_init ramfs_static)) = 16" "length (rf_sizes (ramfs_init ramfs_static)) = 16"
    using fs_okD(4) [OF fs_ok_init] by (simp_all add: rf_sized_def MAX_FILES_def)
  then have t: "rf_ntypes ?r ! 1 = 1" "contents ?r 1 = []"
    by (simp_all add: grown_fields type_byte_def contents_def)
  show "\<exists>K. fs_ok demo_tree_fs K"
    using fs_ok_stored [OF g, of 1 0 "replicate 200 65"] t by (auto simp: demo_tree_fs_def MAX_FILES_def FILE_SIZE_def)
  show "contents demo_tree_fs 1 = replicate 200 65"
    using stored_contents(2) [OF fs_okD(4,3) [OF g], of 1 0 "replicate 200 65"] t by (simp add: demo_tree_fs_def MAX_FILES_def FILE_SIZE_def pwrite_def)
  show "rf_ntypes demo_tree_fs ! 1 = 1" "rf_next_idx demo_tree_fs = 2"
    using t by (simp_all add: demo_tree_fs_def stored_def grown_fields)
qed

theorem libc_read_loses_data_witness:
  "\<exists>w' w''. libc_read file_service 3 1024 demo_table demo_reader = Some (128, replicate 128 65, w') \<and>
     libc_read file_service 3 1024 demo_table w' = Some (0, [], w'')"
proof -
  have "agent_ok (cn_agent demo_reader)"
    using demo_tree_fs_ok
    by (auto simp: demo_reader_def agent_ok_def MAX_SESSIONS_def session_ok_def MAX_FDS_def file_ok_def FILE_SIZE_def)
  then show ?thesis
    using libc_read_loses_data [of demo_reader 0 5 demo_table 3 _ 0 _ _ 1 "replicate 200 65"] demo_fd demo_tree_fs_ok
    by (simp add: demo_reader_def demo_connection_def MAX_SESSIONS_def MAX_FDS_def)
qed

section \<open>A file written and read back\<close>

text \<open>An idle service with a free session slot \<open>i\<close>, and a program with a free descriptor \<open>fd\<close>.\<close>

definition ready :: "connection \<Rightarrow> nat \<Rightarrow> user_fd_table \<Rightarrow> nat \<Rightarrow> bool" where
  "ready w i tbl fd \<longleftrightarrow> cn_current w = None \<and> cn_state w = Serving \<and>
     find_index (\<lambda>s. s = None) (ag_sessions (cn_agent w)) = Some i \<and> length tbl = 64 \<and> first_free_fd tbl = Some fd"

lemma readyD:
  assumes "ready w i tbl fd"
  shows "i < length (ag_sessions (cn_agent w))" "ag_sessions (cn_agent w) ! i = None" "fd < 64" "tbl ! fd = None" "fd_lookup (tbl[fd := x]) (word_of_nat fd) = x"
proof -
  show i: "i < length (ag_sessions (cn_agent w))" "ag_sessions (cn_agent w) ! i = None"
    using assms find_index_SomeD [of "\<lambda>s. s = None" "ag_sessions (cn_agent w)" i] by (auto simp: ready_def)
  obtain k where k: "find_index (\<lambda>e. e = None) (drop 3 tbl) = Some k" "fd = k + 3" "length tbl = 64"
    using assms by (auto simp: ready_def first_free_fd_def)
  with find_index_SomeD [OF k(1)] show fd: "fd < 64" "tbl ! fd = None"
    by (auto simp: add.commute)
  have "sint (word_of_nat fd :: i32) = int fd"
    using fd(1) by (intro sint_of_nat_small) simp
  then show "fd_lookup (tbl[fd := x]) (word_of_nat fd) = x"
    using fd(1) k(3) by (simp add: fd_lookup_def)
qed

definition opened :: "connection \<Rightarrow> nat \<Rightarrow> int \<Rightarrow> u32 \<Rightarrow> ramfs \<Rightarrow> connection" where
  "opened w i idx off r = w\<lparr>cn_next := cn_next w + 1, cn_replies := [], cn_current := Some (cn_next w, i),
     cn_agent := \<lparr>ag_sessions = (ag_sessions (cn_agent w))[i := Some \<lparr>se_server_chan = cn_next w,
       se_fds = Some \<lparr>of_node_idx = idx, of_offset = off\<rparr> # replicate 15 None\<rparr>], ag_fs = r\<rparr>\<rparr>"

definition plain_path :: "u8 list \<Rightarrow> bool" where
  "plain_path p \<longleftrightarrow> 0 \<notin> set p \<and> utf8_valid p \<and> length p < 128 \<and> p \<noteq> ascii ''dev/tty'' \<and> p \<noteq> ascii ''/dev/tty''"

lemma c_path_plain: "plain_path p \<Longrightarrow> c_path (p @ [0]) = p"
  by (subst c_path_def, subst takeWhile_append2) (auto simp: plain_path_def)

lemma libc_open_node:
  assumes w: "ready w i tbl fd" and p: "plain_path p" and l: "lookup_or_create (clean_path p) flags (ag_fs (cn_agent w)) = Some (Some idx, r)"
  shows "libc_open file_service (p @ [0]) flags tbl w =
    Some (word_of_nat fd, tbl[fd := Some \<lparr>fe_type = File (cn_next w) 0, fe_flags = flags\<rparr>], opened w i idx 0 r)"
proof -
  note R = readyD [OF w]
  let ?ch = "cn_next w" and ?a = "cn_agent w"
  let ?a1 = "?a\<lparr>ag_sessions := (ag_sessions ?a)[i := Some (session_new ?ch)]\<rparr>"
  let ?w1 = "w\<lparr>cn_next := ?ch + 1, cn_replies := [], cn_agent := ?a1, cn_current := Some (?ch, i)\<rparr>"
  have lk: "service_lookup svc_vfs w = Some (Some ?ch, ?w1)"
    using w by (simp add: service_lookup_def ready_def accept_session_def Let_def)
  have "do_open i p flags ?a1 = Some (0, cn_agent (opened w i idx 0 r))"
    using R(1) p l
    by (simp add: do_open_def plain_path_def install_fd_def session_new_def MAX_FDS_def opened_def numeral_eq_Suc)
  then have "handle_cmd i (command_buf 1 flags 0 p) ?a1 = Some (Done (Some (write_response 0)), cn_agent (opened w i idx 0 r))"
    using p by (simp add: handle_open plain_path_def answered_def)
  then have "send_vfs_cmd file_service ?ch (command_buf 1 flags 0 p) ?w1 = Some (0, ?w1\<lparr>cn_agent := cn_agent (opened w i idx 0 r)\<rparr>)"
    using send_answered [of ?w1 ?ch i _ 0] w by (simp add: ready_def)
  then show ?thesis
    using lk c_path_plain [OF p] w by (simp add: libc_open_def ready_def opened_def)
qed

lemma libc_write_opened:
  assumes w: "ready w i tbl fd" and fs: "fs_ok r K" "x < MAX_FILES" "rf_ntypes r ! x = 1" and b: "bytes \<noteq> []" "length bytes \<le> 128"
    and e: "fe_type e = File (cn_next w) 0"
  shows "libc_write file_service (word_of_nat fd) bytes (tbl[fd := Some e]) (opened w i (int x) 0 r) =
    Some (int (length bytes), opened w i (int x) (word_of_nat (length bytes)) (stored x bytes 0 r))"
proof -
  note R = readyD [OF w]
  let ?w = "opened w i (int x) 0 r"
  have st: "take FILE_SIZE bytes = bytes" "min (length bytes) FILE_SIZE = length bytes"
    using b(2) by (simp_all add: FILE_SIZE_def)
  have wr: "ramfs_write (int x) bytes 0 r = (Done (word_of_nat (length bytes)), stored x bytes 0 r)"
    using write_stored [OF fs_okD(4) [OF fs(1)] fs(2,3), of 0 bytes] by (simp add: st)
  have si: "sint (word_of_nat (length bytes) :: i32) = int (length bytes)"
    using b(2) by (intro sint_of_nat_small) simp
  have "do_write i 0 bytes (cn_agent ?w) = (Done (word_of_nat (length bytes)), cn_agent (opened w i (int x) (word_of_nat (length bytes)) (stored x bytes 0 r)))"
    using R(1) wr si b(1) by (simp add: do_write_def tty_fd_def opened_def MAX_FDS_def advance_def)
  moreover have "write_data (command_buf 5 0 (word_of_nat (length bytes)) (take 128 bytes)) = Done bytes"
    using command_buf_write_data [of bytes 5 0] b by simp
  ultimately have h: "handle_cmd i (command_buf 5 0 (word_of_nat (length bytes)) (take 128 bytes)) (cn_agent ?w) =
      Some (Done (Some (write_response (word_of_nat (length bytes)))), cn_agent (opened w i (int x) (word_of_nat (length bytes)) (stored x bytes 0 r)))"
    by (simp add: handle_write)
  have cw: "cn_current ?w = Some (cn_next w, i)" "cn_state ?w = Serving" "cn_replies ?w = []"
    using w by (simp_all add: opened_def ready_def)
  show ?thesis
    using send_answered [OF cw h] R(5) e b(1) si by (simp add: libc_write_def opened_def)
qed

lemma libc_close_opened:
  assumes w: "ready w i tbl fd" and e: "fe_type e = File (cn_next w) 0"
  shows "libc_close file_service (word_of_nat fd) (tbl[fd := Some e]) (opened w i idx off r) =
    (0, tbl, w\<lparr>cn_next := cn_next w + 1, cn_replies := [], cn_agent := (cn_agent w)\<lparr>ag_fs := r\<rparr>\<rparr>)"
proof -
  note R = readyD [OF w]
  have "sint (word_of_nat fd :: i32) = int fd"
    using R(3) by (intro sint_of_nat_small) simp
  moreover have "(ag_sessions (cn_agent w))[i := None] = ag_sessions (cn_agent w)" "tbl[fd := None] = tbl"
    using R(2,4) by (metis list_update_id)+
  ultimately show ?thesis
    using R(1,5) e w
    by (simp add: libc_close_def opened_def service_write_def handle_close answered_def do_close_def tty_fd_def MAX_FDS_def service_close_def ready_def)
qed

lemma path_walk_stored: "path_walk (stored x d off r) K cs q = path_walk r K cs q"
  by (induction cs arbitrary: q) (simp_all add: node_name_def stored_def split: option.split)

lemma clean_path_last: "components p \<noteq> [] \<Longrightarrow> last p \<noteq> 0x2F \<Longrightarrow> last (clean_path p) \<noteq> 0x2F"
  by (auto simp: clean_path_def components_def split: list.splits if_splits)

text \<open>
  C11. From \<open>open\<close> to \<open>read\<close> across the library and the service: a program that creates a file by a path that
  named nothing, writes up to 128 bytes, closes it, opens the path again and reads gets back exactly the
  bytes it wrote.
\<close>

theorem file_round_trip:
  assumes w: "ready w i tbl fd" and fs: "fs_ok (ag_fs (cn_agent w)) K" "rf_next_idx (ag_fs (cn_agent w)) = int n" "n < MAX_FILES"
    and p: "plain_path p" "components p = cs @ [name]" "last p \<noteq> 0x2F" "length name < MAX_NAME"
    and dir: "path_walk (ag_fs (cn_agent w)) K cs 0 = Some q" "rf_ntypes (ag_fs (cn_agent w)) ! q = 2" "path_walk (ag_fs (cn_agent w)) K (cs @ [name]) 0 = None"
    and b: "bytes \<noteq> []" "length bytes \<le> 128"
  shows "\<exists>fd1 tbl1 w1 w2 tbl2 w3 fd2 tbl3 w4 w5.
     libc_open file_service (p @ [0]) 0x40 tbl w = Some (fd1, tbl1, w1) \<and>
     libc_write file_service fd1 bytes tbl1 w1 = Some (int (length bytes), w2) \<and>
     libc_close file_service fd1 tbl1 w2 = (0, tbl2, w3) \<and>
     libc_open file_service (p @ [0]) 0 tbl2 w3 = Some (fd2, tbl3, w4) \<and>
     libc_read file_service fd2 128 tbl3 w4 = Some (int (length bytes), bytes, w5)"
proof -
  let ?r = "ag_fs (cn_agent w)"
  have c: "components (clean_path p) = cs @ [name]" "last (clean_path p) \<noteq> 0x2F"
    using p(2,3) clean_path_last [of p] by auto
  obtain r1 where r1: "create_file_path (clean_path p) ?r = Some (Some (int n), r1)" "fs_ok r1 (K(q := K q @ [n]))"
      "resolve (clean_path p) r1 = Some (Some (int n))" "stat_type (int n) r1 = Some NodeFile" "contents r1 n = []"
    using create_file_path_effect [OF fs c p(4) dir] by auto
  have "resolve (clean_path p) ?r = Some None"
    using resolve_walk [OF fs_okD(1) [OF fs(1)], of "clean_path p"] dir(3) p(2) by simp
  then have l1: "lookup_or_create (clean_path p) 0x40 ?r = Some (Some (int n), r1)"
    using r1(1) by (simp add: lookup_or_create_def)
  have nf: "rf_ntypes r1 ! n = 1"
    using r1(4) fs(3) by (auto simp: stat_type_def bad_index_def split: if_splits)
  define r2 where "r2 = stored n bytes 0 r1"
  have r2: "fs_ok r2 (K(q := K q @ [n]))" "contents r2 n = bytes" "rf_ntypes r2 ! n \<noteq> 0"
    using fs_ok_stored [OF r1(2) fs(3) nf, of 0 bytes] stored_contents(2) [OF fs_okD(4,3) [OF r1(2)] fs(3), of 0 bytes] b(2) r1(5) nf
    by (auto simp: r2_def FILE_SIZE_def pwrite_def stored_def)
  have "resolve (clean_path p) r2 = Some (Some (int n))"
    using resolve_walk [OF fs_okD(1) [OF r2(1)], of "clean_path p"] resolve_walk [OF fs_okD(1) [OF r1(2)], of "clean_path p"] r1(3)
    by (simp add: r2_def path_walk_stored)
  then have l2: "lookup_or_create (clean_path p) 0 r2 = Some (Some (int n), r2)"
    by (simp add: lookup_or_create_def)
  define w3 where "w3 = w\<lparr>cn_next := cn_next w + 1, cn_replies := [], cn_agent := (cn_agent w)\<lparr>ag_fs := r2\<rparr>\<rparr>"
  have ready3: "ready w3 i tbl fd"
    using w by (simp add: ready_def w3_def)
  let ?e = "\<lambda>ch fl. \<lparr>fe_type = File ch 0, fe_flags = fl\<rparr>"
  let ?f = "\<lparr>of_node_idx = int n, of_offset = 0\<rparr>" and ?w4 = "opened w3 i (int n) 0 r2"
  have o1: "libc_open file_service (p @ [0]) 0x40 tbl w = Some (word_of_nat fd, tbl[fd := Some (?e (cn_next w) 0x40)], opened w i (int n) 0 r1)"
    by (rule libc_open_node [OF w p(1) l1])
  have wr: "libc_write file_service (word_of_nat fd) bytes (tbl[fd := Some (?e (cn_next w) 0x40)]) (opened w i (int n) 0 r1) =
      Some (int (length bytes), opened w i (int n) (word_of_nat (length bytes)) r2)"
    unfolding r2_def by (rule libc_write_opened [OF w r1(2) fs(3) nf b]) simp
  have cl: "libc_close file_service (word_of_nat fd) (tbl[fd := Some (?e (cn_next w) 0x40)]) (opened w i (int n) (word_of_nat (length bytes)) r2) = (0, tbl, w3)"
    unfolding w3_def by (rule libc_close_opened [OF w]) simp
  have o2: "libc_open file_service (p @ [0]) 0 tbl w3 = Some (word_of_nat fd, tbl[fd := Some (?e (cn_next w3) 0)], ?w4)"
    by (rule libc_open_node [OF ready3 p(1)]) (simp add: w3_def l2)
  have w4: "cn_current ?w4 = Some (cn_next w3, i)" "cn_state ?w4 = Serving" "cn_replies ?w4 = []" "ag_fs (cn_agent ?w4) = r2"
      "ag_sessions (cn_agent ?w4) ! i = Some \<lparr>se_server_chan = cn_next w3, se_fds = Some ?f # replicate 15 None\<rparr>"
    using ready3 readyD(1) [OF ready3] by (simp_all add: opened_def ready_def)
  have "\<exists>w5. fetch 3 file_service (cn_next w3) 0 128 ?w4 = Some (int (length bytes), bytes, w5)"
    using fetch_file [OF w4(1-3) _ w4(5), of "K(q := K q @ [n])" 0 ?f n bytes 128] w4(4) r2 fs(3) b(2)
    by (simp add: MAX_FDS_def)
  then obtain w5 where "libc_read file_service (word_of_nat fd) 128 (tbl[fd := Some (?e (cn_next w3) 0)]) ?w4 = Some (int (length bytes), bytes, w5)"
    using readyD(5) [OF ready3, of "Some (?e (cn_next w3) 0)"] by (auto simp: libc_read_def)
  with o1 wr cl o2 show ?thesis by blast
qed

text \<open>The path \<open>/a\<close> and the bytes \<open>hi\<close>, with the service just started.\<close>

definition demo_idle :: connection where
  "demo_idle = \<lparr>cn_agent = \<lparr>ag_sessions = replicate 8 None, ag_fs = ramfs_init ramfs_static\<rparr>, cn_current = None, cn_next = 5, cn_replies = [], cn_state = Serving\<rparr>"

theorem file_round_trip_witness:
  "\<exists>fd1 tbl1 w1 w2 tbl2 w3 fd2 tbl3 w4 w5.
     libc_open file_service ([0x2F, 0x61] @ [0]) 0x40 USER_FD_TABLE demo_idle = Some (fd1, tbl1, w1) \<and>
     libc_write file_service fd1 [104, 105] tbl1 w1 = Some (int (length [104, 105 :: u8]), w2) \<and>
     libc_close file_service fd1 tbl1 w2 = (0, tbl2, w3) \<and>
     libc_open file_service ([0x2F, 0x61] @ [0]) 0 tbl2 w3 = Some (fd2, tbl3, w4) \<and>
     libc_read file_service fd2 128 tbl3 w4 = Some (int (length [104, 105 :: u8]), [104, 105], w5)"
proof (rule file_round_trip)
  show "ready demo_idle 0 USER_FD_TABLE 3"
    by (simp add: ready_def demo_idle_def USER_FD_TABLE_def first_free_fd_def numeral_eq_Suc)
  show "fs_ok (ag_fs (cn_agent demo_idle)) (\<lambda>_. [])" "rf_next_idx (ag_fs (cn_agent demo_idle)) = int 1" "rf_ntypes (ag_fs (cn_agent demo_idle)) ! 0 = 2"
    using fs_ok_init init_cursor(2) fs_okD(5) [OF fs_ok_init] by (simp_all add: demo_idle_def)
  show "components [0x2F, 0x61] = [] @ [[0x61]]" "plain_path [0x2F, 0x61]"
    by (simp_all add: components_def plain_path_def ascii_def)
  show "path_walk (ag_fs (cn_agent demo_idle)) (\<lambda>_. []) [] 0 = Some 0" "path_walk (ag_fs (cn_agent demo_idle)) (\<lambda>_. []) ([] @ [[0x61]]) 0 = None"
    by simp_all
qed (simp_all add: MAX_FILES_def MAX_NAME_def)

end
