(* ===== verification/Argv.thy ===== *)
theory Argv
  imports Prelude
begin

text \<open>
  Passing the arguments of a program: the kernel writes them onto the stack of the new process
  (\<open>launch_user_program_with_argv_id\<close> in \<open>kernel/src/task/process.rs\<close>), and the entry code of the C library
  (\<open>_hnx_user_entry\<close>, \<open>hnx_arg\<close> in \<open>libraries/libc/src/lib.rs\<close>) finds them again. User memory is a map
  from addresses to bytes: the stack is mapped, so \<open>safe_copy_to_user\<close> is a store. The area is at most
  4240 bytes below a stack top above 32 MiB, so the address arithmetic cannot wrap and is done in \<open>nat\<close>.
\<close>

section \<open>The kernel side\<close>

type_synonym user_mem = "nat \<Rightarrow> u8"

definition stack_store :: "nat \<Rightarrow> u8 list \<Rightarrow> user_mem \<Rightarrow> user_mem" where
  "stack_store a bs m = (\<lambda>x. if a \<le> x \<and> x < a + length bs then bs ! (x - a) else m x)"

definition pad16 :: "nat \<Rightarrow> nat" where
  "pad16 n = (n + 15) div 16 * 16"

text \<open>The loop over the strings: the addresses of the copies, the end of the area, and the memory.\<close>

fun argv_strings :: "u8 list list \<Rightarrow> nat \<Rightarrow> user_mem \<Rightarrow> nat list \<times> nat \<times> user_mem" where
  "argv_strings [] cursor m = ([], cursor, m)"
| "argv_strings (s # ss) cursor m =
     (let m1 = stack_store cursor s m;
          m2 = stack_store (cursor + length s) [0] m1;
          (vas, end_cursor, m3) = argv_strings ss (cursor + pad16 (length s)) m2
      in (cursor # vas, end_cursor, m3))"

fun argv_pointers :: "nat list \<Rightarrow> nat \<Rightarrow> user_mem \<Rightarrow> user_mem" where
  "argv_pointers [] p m = m"
| "argv_pointers (va # vas) p m = argv_pointers vas (p + 8) (stack_store p (word_to_le 8 (word_of_nat va :: u64)) m)"

definition argv_area :: "u8 list list \<Rightarrow> nat" where
  "argv_area args = length args * 8 + sum_list (map (\<lambda>s. pad16 (length s)) args) + 16"

text \<open>The pointer to the argument array (\<open>x1\<close>), the initial stack pointer, and the memory; there are sixteen slots.\<close>

definition argv_push :: "nat \<Rightarrow> u8 list list \<Rightarrow> user_mem \<Rightarrow> (nat \<times> nat \<times> user_mem) option" where
  "argv_push stack_top args m =
     (if 16 < length args then None
      else let new_sp = (stack_top - argv_area args) div 16 * 16;
               (vas, argv_ptr, m1) = argv_strings args new_sp m;
               m2 = argv_pointers vas argv_ptr m1;
               post_argv_sp = (argv_ptr + length args * 8 + 15) div 16 * 16
           in Some (argv_ptr, post_argv_sp, m2))"

section \<open>The program side\<close>

record argv_table =
  hnx_argc :: nat
  hnx_argv_ptrs :: "nat list"
  hnx_argv_lens :: "nat list"

text \<open>The length of the string at \<open>s\<close>, looking at no more than \<open>n\<close> bytes.\<close>

fun scan_len :: "user_mem \<Rightarrow> nat \<Rightarrow> nat \<Rightarrow> nat" where
  "scan_len m s 0 = 0"
| "scan_len m s (Suc n) = (if m s = 0 then 0 else Suc (scan_len m (Suc s) n))"

definition load_ptr :: "user_mem \<Rightarrow> nat \<Rightarrow> nat" where
  "load_ptr m p = unat (word_of_le (map m [p..<p + 8]) :: u64)"

definition entry_slot :: "user_mem \<Rightarrow> nat \<Rightarrow> nat \<Rightarrow> nat \<Rightarrow> nat \<times> nat" where
  "entry_slot m argv argc i =
     (let s = load_ptr m (argv + i * 8);
          next = (if i + 1 < argc then load_ptr m (argv + (i + 1) * 8) else s + 4096)
      in (s, scan_len m s (next - s)))"

definition hnx_user_entry :: "nat \<Rightarrow> nat \<Rightarrow> user_mem \<Rightarrow> argv_table \<Rightarrow> argv_table" where
  "hnx_user_entry argc argv m t =
     (if 0 < argc \<and> argv \<noteq> 0
      then let k = min argc 16; slots = map (entry_slot m argv argc) [0..<k]
           in \<lparr>hnx_argc = argc, hnx_argv_ptrs = map fst slots @ drop k (hnx_argv_ptrs t), hnx_argv_lens = map snd slots @ drop k (hnx_argv_lens t)\<rparr>
      else t\<lparr>hnx_argc := 0\<rparr>)"

definition hnx_arg :: "argv_table \<Rightarrow> user_mem \<Rightarrow> nat \<Rightarrow> u8 list" where
  "hnx_arg t m i =
     (if hnx_argc t \<le> i \<or> length (hnx_argv_lens t) \<le> i then []
      else let p = hnx_argv_ptrs t ! i; l = hnx_argv_lens t ! i in
      if p = 0 \<or> l = 0 then [] else map m [p..<p + l])"

definition argv_static :: argv_table where
  "argv_static = \<lparr>hnx_argc = 0, hnx_argv_ptrs = replicate 16 0xDEADBEEF, hnx_argv_lens = replicate 16 0xFFFFFFFFFFFFFFFF\<rparr>"

section \<open>The layout of the area\<close>

definition string_off :: "u8 list list \<Rightarrow> nat \<Rightarrow> nat" where
  "string_off args i = sum_list (map (\<lambda>s. pad16 (length s)) (take i args))"

lemma pad16_ge: "n \<le> pad16 n" and pad16_dvd: "16 dvd pad16 n"
  by (auto simp: pad16_def)

lemma pad16_gt: "n mod 16 \<noteq> 0 \<Longrightarrow> n < pad16 n"
proof -
  assume "n mod 16 \<noteq> 0"
  then have "n + 15 = (n div 16 + 1) * 16 + (n mod 16 - 1)" "n mod 16 - 1 < 16"
    using div_mult_mod_eq [of n 16] by (simp_all add: algebra_simps)
  then have "(n + 15) div 16 = n div 16 + 1"
    by (metis div_mult_self3 div_less add.commute add.right_neutral zero_neq_numeral)
  then show ?thesis
    using div_mult_mod_eq [of n 16] by (simp add: pad16_def)
qed

lemma pad16_eq: "n mod 16 = 0 \<Longrightarrow> pad16 n = n"
  by (auto simp: pad16_def elim: dvdE)

lemma stack_store_at [simp]: "k < length bs \<Longrightarrow> stack_store a bs m (a + k) = bs ! k"
  by (simp add: stack_store_def)

lemma stack_store_below [simp]: "x < a \<Longrightarrow> stack_store a bs m x = m x"
  by (simp add: stack_store_def)

lemma stack_store_above [simp]: "a + length bs \<le> x \<Longrightarrow> stack_store a bs m x = m x"
  by (simp add: stack_store_def)

lemma argv_strings_vas:
  "fst (argv_strings args c m) = map (\<lambda>i. c + string_off args i) [0..<length args]"
  "fst (snd (argv_strings args c m)) = c + string_off args (length args)"
proof (induction args arbitrary: c m)
  case (Cons s ss)
  have z: "[0..<Suc (length ss)] = 0 # map Suc [0..<length ss]"
    by (simp add: upt_conv_Cons map_Suc_upt del: upt_Suc)
  { case 1 show ?case
      using Cons.IH(1) by (simp add: Let_def split_beta string_off_def z o_def add.assoc del: upt_Suc) }
  { case 2 show ?case
      using Cons.IH(2) by (simp add: Let_def split_beta string_off_def) }
qed (simp_all add: string_off_def)

lemma argv_strings_below: "x < c \<Longrightarrow> snd (snd (argv_strings args c m)) x = m x"
proof (induction args arbitrary: c m)
  case (Cons s ss)
  then show ?case
    by (simp add: Let_def split_beta stack_store_def)
qed simp

lemma argv_strings_bytes:
  "i < length args \<Longrightarrow> k < length (args ! i) \<Longrightarrow> snd (snd (argv_strings args c m)) (c + string_off args i + k) = args ! i ! k"
proof (induction args arbitrary: c m i)
  case (Cons s ss)
  show ?case
  proof (cases i)
    case 0
    have "c + k < c + pad16 (length s)"
      using pad16_ge [of "length s"] Cons.prems 0 by simp
    with 0 Cons.prems show ?thesis
      by (simp add: Let_def split_beta argv_strings_below string_off_def)
  next
    case (Suc j)
    with Cons.IH [of j "c + pad16 (length s)" "stack_store (c + length s) [0] (stack_store c s m)"] Cons.prems show ?thesis
      by (simp add: Let_def split_beta string_off_def add.assoc)
  qed
qed simp

lemma argv_strings_nul:
  "i < length args \<Longrightarrow> length (args ! i) mod 16 \<noteq> 0 \<or> i + 1 = length args \<Longrightarrow>
   snd (snd (argv_strings args c m)) (c + string_off args i + length (args ! i)) = 0"
proof (induction args arbitrary: c m i)
  case (Cons s ss)
  show ?case
  proof (cases i)
    case 0
    then have "ss = [] \<or> c + length s < c + pad16 (length s)"
      using pad16_gt [of "length s"] Cons.prems by auto
    with 0 show ?thesis
      by (auto simp: Let_def split_beta argv_strings_below string_off_def stack_store_def)
  next
    case (Suc j)
    with Cons.IH [of j "c + pad16 (length s)" "stack_store (c + length s) [0] (stack_store c s m)"] Cons.prems show ?thesis
      by (simp add: Let_def split_beta string_off_def add.assoc)
  qed
qed simp

lemma argv_pointers_below: "x < p \<Longrightarrow> argv_pointers vas p m x = m x"
  by (induction vas arbitrary: p m) auto

lemma argv_pointers_at:
  "i < length vas \<Longrightarrow> k < 8 \<Longrightarrow> argv_pointers vas p m (p + i * 8 + k) = word_to_le 8 (word_of_nat (vas ! i) :: u64) ! k"
proof (induction vas arbitrary: p m i)
  case (Cons va vas)
  show ?case
  proof (cases i)
    case 0
    with Cons.prems show ?thesis
      by (simp add: argv_pointers_below)
  next
    case (Suc j)
    with Cons.IH [of j "p + 8"] Cons.prems show ?thesis
      by (simp add: algebra_simps)
  qed
qed simp

lemma string_off_Suc: "i < length args \<Longrightarrow> string_off args (Suc i) = string_off args i + pad16 (length (args ! i))"
  by (simp add: string_off_def take_Suc_conv_app_nth)

lemma string_off_mono: "i \<le> j \<Longrightarrow> j \<le> length args \<Longrightarrow> string_off args i \<le> string_off args j"
proof (induction j)
  case (Suc j)
  then show ?case by (cases "i = Suc j") (auto simp: string_off_Suc)
qed simp

lemma string_off_all: "string_off args (length args) = sum_list (map (\<lambda>s. pad16 (length s)) args)"
  by (simp add: string_off_def)

section \<open>What the program finds\<close>

lemma scan_len_string:
  "\<forall>k<length s. m (a + k) = s ! k \<Longrightarrow> 0 \<notin> set s \<Longrightarrow> length s \<le> n \<Longrightarrow> length s = n \<or> m (a + length s) = 0 \<Longrightarrow> scan_len m a n = length s"
proof (induction s arbitrary: a n)
  case Nil
  then show ?case by (cases n) auto
next
  case (Cons b s)
  then obtain n' where n: "n = Suc n'"
    by (cases n) auto
  have "\<forall>k<length s. m (Suc a + k) = s ! k"
    using Cons.prems(1) by auto
  with Cons.IH [of "Suc a" n'] Cons.prems n show ?case
    by force
qed

lemma scan_len_beyond: "\<forall>k\<le>l. m (a + k) \<noteq> 0 \<Longrightarrow> l < n \<Longrightarrow> l < scan_len m a n"
proof (induction l arbitrary: a n)
  case 0
  then show ?case by (cases n) auto
next
  case (Suc l)
  then obtain n' where n: "n = Suc n'"
    by (cases n) auto
  have "\<forall>k\<le>l. m (Suc a + k) \<noteq> 0"
    using Suc.prems(1) by auto
  moreover have "m a \<noteq> 0"
    using Suc.prems(1) by (metis add.right_neutral le0)
  ultimately show ?case
    using Suc.IH [of "Suc a" n'] Suc.prems(2) n by simp
qed

text \<open>The memory the program starts with, at the addresses of the area.\<close>

definition argv_mem :: "u8 list list \<Rightarrow> nat \<Rightarrow> user_mem \<Rightarrow> user_mem" where
  "argv_mem args c m = argv_pointers (map (\<lambda>i. c + string_off args i) [0..<length args]) (c + string_off args (length args))
     (snd (snd (argv_strings args c m)))"

lemma argv_push_mem:
  assumes "length args \<le> 16" "c = (stack_top - argv_area args) div 16 * 16" "p = c + string_off args (length args)"
  shows "argv_push stack_top args m = Some (p, (p + length args * 8 + 15) div 16 * 16, argv_mem args c m)"
  using assms argv_strings_vas [of args c m]
  by (cases "argv_strings args c m") (simp add: argv_push_def argv_mem_def Let_def)

lemma argv_mem_ptr:
  assumes "i < length args" "c + string_off args (length args) < 2 ^ 64"
  shows "load_ptr (argv_mem args c m) (c + string_off args (length args) + i * 8) = c + string_off args i"
proof -
  let ?p = "c + string_off args (length args) + i * 8"
  have b: "c + string_off args i < 2 ^ 64"
    using string_off_mono [of i "length args" args] assms by linarith
  have "map (argv_mem args c m) [?p..<?p + 8] = word_to_le 8 (word_of_nat (c + string_off args i) :: u64)"
    using argv_pointers_at [of i "map (\<lambda>i. c + string_off args i) [0..<length args]"] assms(1)
    by (intro nth_equalityI) (auto simp: argv_mem_def simp del: of_nat_add upt_Suc)
  then show ?thesis
    using b by (simp add: load_ptr_def word_of_le_to_le unat_of_nat del: of_nat_add upt_Suc)
qed

lemma argv_mem_string:
  assumes "i < length args" "k < length (args ! i)"
  shows "argv_mem args c m (c + string_off args i + k) = args ! i ! k"
proof -
  have "string_off args i + k < string_off args (length args)"
    using string_off_mono [of "Suc i" "length args" args] string_off_Suc [OF assms(1)] pad16_ge [of "length (args ! i)"] assms by simp
  then show ?thesis
    by (simp add: argv_mem_def argv_pointers_below argv_strings_bytes [OF assms])
qed

lemma argv_mem_nul:
  assumes "i < length args" "length (args ! i) mod 16 \<noteq> 0"
  shows "argv_mem args c m (c + string_off args i + length (args ! i)) = 0"
proof -
  have "string_off args i + length (args ! i) < string_off args (length args)"
    using string_off_mono [of "Suc i" "length args" args] string_off_Suc [OF assms(1)] pad16_gt [OF assms(2)] assms(1) by simp
  then show ?thesis
    using argv_strings_nul [of i args c m] assms by (simp add: argv_mem_def argv_pointers_below)
qed

text \<open>The slot the program fills for the argument \<open>i\<close>: an argument before the last one, or one whose length is not a multiple of 16.\<close>

lemma entry_slot_string:
  assumes i: "i < length args" and b: "c + string_off args (length args) < 2 ^ 64" and s: "0 \<notin> set (args ! i)" "length (args ! i) \<le> 4096"
    and pad: "i + 1 < length args \<or> length (args ! i) mod 16 \<noteq> 0"
  shows "entry_slot (argv_mem args c m) (c + string_off args (length args)) (length args) i = (c + string_off args i, length (args ! i))"
proof -
  let ?m = "argv_mem args c m" and ?a = "c + string_off args i" and ?l = "length (args ! i)"
  have nul: "?l mod 16 \<noteq> 0 \<Longrightarrow> ?m (?a + ?l) = 0"
    using argv_mem_nul [OF i] by simp
  have str: "\<forall>k<?l. ?m (?a + k) = args ! i ! k"
    using argv_mem_string [OF i] by simp
  have "scan_len ?m ?a (pad16 ?l) = ?l" 
    using pad16_ge [of ?l] pad16_eq [of ?l] nul by (intro scan_len_string [OF str s(1)]) (auto, metis gr0I)
  moreover have "scan_len ?m ?a 4096 = ?l" if "?l mod 16 \<noteq> 0"
    using s(2) nul that by (intro scan_len_string [OF str s(1)]) auto
  moreover have "c + string_off args (Suc i) - ?a = pad16 ?l"
    using string_off_Suc [OF i] by simp
  moreover have "load_ptr ?m (c + string_off args (length args) + (i + 1) * 8) = c + string_off args (Suc i)" if "i + 1 < length args"
    using argv_mem_ptr [of "i + 1" args c m] that b by simp
  ultimately show ?thesis
    using argv_mem_ptr [OF i b] pad by (auto simp: entry_slot_def Let_def)
qed

lemma hnx_arg_slot:
  assumes "i < length args" "length args \<le> 16" "argv \<noteq> 0" "length (hnx_argv_lens t) = 16" "entry_slot m argv (length args) i = (a, l)" "a \<noteq> 0"
  shows "hnx_arg (hnx_user_entry (length args) argv m t) m i = map m [a..<a + l]"
proof -
  have "0 < length args" "min (length args) 16 = length args"
    using assms(1,2) by auto
  then show ?thesis
    using assms by (simp add: hnx_arg_def hnx_user_entry_def Let_def nth_append)
qed

lemma argv_bounds:
  assumes "argv_area args + 16 \<le> stack_top" "stack_top < 2 ^ 64" "c = (stack_top - argv_area args) div 16 * 16"
  shows "c + string_off args (length args) + length args * 8 + 16 \<le> stack_top" "0 < c" "c + string_off args (length args) < 2 ^ 64"
proof -
  have "c \<le> stack_top - argv_area args"
    using assms(3) by simp
  then show b: "c + string_off args (length args) + length args * 8 + 16 \<le> stack_top"
    using assms(1) by (simp add: argv_area_def string_off_all)
  show "0 < c"
    using assms(1,3) by (simp add: div_greater_zero_iff)
  show "c + string_off args (length args) < 2 ^ 64"
    using b assms(2) by linarith
qed



text \<open>
  An argument list whose last string has a length that is a multiple of 16 arrives garbled: the copy is
  not padded, the first pointer of the argument array overwrites the terminating zero, and unless the low
  byte of that pointer is zero the program reads bytes of the pointer as part of the last argument.
\<close>

theorem argv_last_garbled:
  assumes args: "args \<noteq> []" "length args \<le> 16" "\<forall>s\<in>set args. 0 \<notin> set s \<and> length s \<le> 256" "length (last args) mod 16 = 0"
    and stack: "argv_area args + 16 \<le> stack_top" "stack_top < 2 ^ 64" "(stack_top - argv_area args) div 16 mod 16 \<noteq> 0"
    and t: "length (hnx_argv_lens t) = 16"
  shows "\<exists>argv sp m'. argv_push stack_top args m = Some (argv, sp, m') \<and>
     length (last args) < length (hnx_arg (hnx_user_entry (length args) argv m' t) m' (length args - 1))"
proof -
  define c where "c = (stack_top - argv_area args) div 16 * 16"
  note b = argv_bounds [OF stack(1,2) c_def]
  let ?p = "c + string_off args (length args)" and ?m = "argv_mem args c m" and ?i = "length args - 1"
  let ?a = "c + string_off args ?i" and ?l = "length (last args)"
  have i: "?i < length args" and last: "args ! ?i = last args"
    using args(1) by (simp_all add: last_conv_nth)
  have p: "?p = ?a + ?l"
    using string_off_Suc [OF i] pad16_eq [OF args(4)] last args(1) by simp
  have s: "0 \<notin> set (last args)" "?l \<le> 256"
    using args(1,3) by auto
  have "?m ?p = word_to_le 8 (word_of_nat c :: u64) ! 0"
    using argv_pointers_at [of 0 "map (\<lambda>i. c + string_off args i) [0..<length args]" 0 ?p] args(1)
    by (simp add: argv_mem_def string_off_def del: upt_Suc)
  moreover have "word_to_le 8 (word_of_nat c :: u64) ! 0 \<noteq> 0"
  proof -
    have "c < 2 ^ 64" "c mod 256 \<noteq> 0"
      using b(3) stack(3) mult_mod_right [of 16 "(stack_top - argv_area args) div 16" 16] by (auto simp: c_def mult.commute)
    then have "unat (word_of_nat c :: u64) mod 256 \<noteq> 0"
      by (simp add: unat_of_nat)
    then have "unat (word_of_nat (unat (word_of_nat c :: u64)) :: u8) \<noteq> 0"
      unfolding unat_byte_of_nat .
    moreover have "word_to_le (Suc 7) (word_of_nat c :: u64) ! 0 = word_of_nat (unat (word_of_nat c :: u64))"
      by (simp only: word_to_le_def to_le.simps nth_Cons_0)
    ultimately show ?thesis
      by force
  qed
  ultimately have zero: "?m ?p \<noteq> 0"
    by simp
  have nz: "?m (?a + k) \<noteq> 0" if "k \<le> ?l" for k
  proof (cases "k = ?l")
    case False
    then have "last args ! k \<in> set (last args)" "k < length (args ! ?i)"
      using that last by simp_all
    with argv_mem_string [OF i this(2), of c m] last s(1) show ?thesis
      by metis
  qed (use zero p in simp)
  have "entry_slot ?m ?p (length args) ?i = (?a, scan_len ?m ?a 4096)"
    using argv_mem_ptr [OF i b(3), of m] args(1) by (simp add: entry_slot_def Let_def)
  from hnx_arg_slot [OF i args(2) _ t this] b(2)
  have "length (hnx_arg (hnx_user_entry (length args) ?p ?m t) ?m ?i) = scan_len ?m ?a 4096"
    by simp
  then show ?thesis
    using scan_len_beyond [of ?l ?m ?a 4096] nz s(2) argv_push_mem [OF args(2) c_def refl, of m] by auto
qed

theorem argv_last_garbled_witness:
  "\<exists>argv sp m'. argv_push 65536 [replicate 16 97] (\<lambda>_. 0) = Some (argv, sp, m') \<and>
     16 < length (hnx_arg (hnx_user_entry 1 argv m' argv_static) m' 0)"
  using argv_last_garbled [of "[replicate 16 97]" "65536" argv_static "\<lambda>_. 0"]
  by (simp add: argv_area_def pad16_def argv_static_def)

end
