(* ===== verification/Slab.thy ===== *)
theory Slab
  imports Thread
begin

text \<open>
  The kernel heap, \<open>kernel/src/arch/aarch64/slab.rs\<close>: seven size classes, each with a free list threaded
  through its blocks. \<open>links\<close> is the word stored at the start of a free block. Heap pages have physical
  addresses below \<open>2 ^ 47\<close>, so their kernel addresses do not wrap and are natural numbers; 0 is the null
  pointer. The lock-free loops are step functions over a program counter, so that the steps of two
  callers can be interleaved; running them without interruption gives \<open>allocate\<close> and \<open>deallocate\<close>.
\<close>

section \<open>Model\<close>

definition CLASS_SIZES :: "nat list" where "CLASS_SIZES = [32, 64, 128, 256, 512, 1024, 2048]"
definition PAGE_HEADER :: nat where "PAGE_HEADER = 8"

definition class_index :: "nat \<Rightarrow> nat \<Rightarrow> nat option" where
  "class_index sz align = find_index (\<lambda>cs. max sz align \<le> cs) CLASS_SIZES"

definition blocks_per_page :: "nat \<Rightarrow> nat" where
  "blocks_per_page block_size = (PAGE_SIZE - PAGE_HEADER) div block_size"

record slab =
  sl_heads :: "nat list"
  sl_links :: "nat \<Rightarrow> nat"
  sl_phys :: phys

definition slab_new :: "phys \<Rightarrow> slab" where
  "slab_new ph = \<lparr>sl_heads = replicate 7 0, sl_links = (\<lambda>_. 0), sl_phys = ph\<rparr>"

definition heap_va :: "nat \<Rightarrow> nat" where
  "heap_va pa = pa + unat KERNEL_OFFSET"

text \<open>Linking the blocks of a page: block \<open>i\<close> to block \<open>i + 1\<close>, the last one to null.\<close>

definition block_at :: "nat \<Rightarrow> nat \<Rightarrow> nat \<Rightarrow> nat" where
  "block_at data_start b i = data_start + i * b"

primrec link_blocks :: "nat \<Rightarrow> nat \<Rightarrow> nat \<Rightarrow> (nat \<Rightarrow> nat) \<Rightarrow> nat \<Rightarrow> nat" where
  "link_blocks data_start b 0 m = m"
| "link_blocks data_start b (Suc i) m = (link_blocks data_start b i m)(block_at data_start b i := block_at data_start b (Suc i))"

definition refill :: "nat \<Rightarrow> slab \<Rightarrow> nat res \<times> slab" where
  "refill ci s =
     (let b = CLASS_SIZES ! ci; n = blocks_per_page b in
      if n = 0 then (Ok 0, s)
      else case alloc_kheap_page (sl_phys s) of
        (Ok pa, ph) \<Rightarrow>
          (let kva = heap_va pa; data_start = kva + PAGE_HEADER;
               m1 = (sl_links s)(kva := sl_heads s ! ci);
               m2 = (link_blocks data_start b (n - 1) m1)(block_at data_start b (n - 1) := 0)
           in (Ok data_start, s\<lparr>sl_heads := (sl_heads s)[ci := data_start], sl_links := m2, sl_phys := ph\<rparr>))
      | (Err e, ph) \<Rightarrow> (Ok 0, s\<lparr>sl_phys := ph\<rparr>)
      | (Panic, ph) \<Rightarrow> (Panic, s\<lparr>sl_phys := ph\<rparr>))"

text \<open>The loop of \<open>allocate\<close>: load the head, read its link, exchange; or refill an empty class.\<close>

datatype alloc_pc = ALoad | ARead nat | ACas nat nat | ARefill | ADone nat | APanic

definition alloc_step :: "nat \<Rightarrow> alloc_pc \<Rightarrow> slab \<Rightarrow> alloc_pc \<times> slab" where
  "alloc_step ci pc s =
     (case pc of
        ALoad \<Rightarrow> (if sl_heads s ! ci \<noteq> 0 then ARead (sl_heads s ! ci) else ARefill, s)
      | ARead head \<Rightarrow> (ACas head (sl_links s head), s)
      | ACas head nxt \<Rightarrow>
          if sl_heads s ! ci = head then (ADone head, s\<lparr>sl_heads := (sl_heads s)[ci := nxt]\<rparr>) else (ALoad, s)
      | ARefill \<Rightarrow>
          (case refill ci s of
             (Panic, s1) \<Rightarrow> (APanic, s1)
           | (_, s1) \<Rightarrow> (if sl_heads s1 ! ci = 0 then ADone 0 else ALoad, s1))
      | ADone p \<Rightarrow> (ADone p, s)
      | APanic \<Rightarrow> (APanic, s))"

primrec alloc_steps :: "nat \<Rightarrow> nat \<Rightarrow> alloc_pc \<Rightarrow> slab \<Rightarrow> alloc_pc \<times> slab" where
  "alloc_steps ci 0 pc s = (pc, s)"
| "alloc_steps ci (Suc n) pc s = (case alloc_step ci pc s of (pc1, s1) \<Rightarrow> alloc_steps ci n pc1 s1)"

datatype dealloc_pc = DLoad | DWrite nat | DCas nat | DDone

definition dealloc_step :: "nat \<Rightarrow> nat \<Rightarrow> dealloc_pc \<Rightarrow> slab \<Rightarrow> dealloc_pc \<times> slab" where
  "dealloc_step ci p pc s =
     (case pc of
        DLoad \<Rightarrow> (DWrite (sl_heads s ! ci), s)
      | DWrite head \<Rightarrow> (DCas head, s\<lparr>sl_links := (sl_links s)(p := head)\<rparr>)
      | DCas head \<Rightarrow> if sl_heads s ! ci = head then (DDone, s\<lparr>sl_heads := (sl_heads s)[ci := p]\<rparr>) else (DLoad, s)
      | DDone \<Rightarrow> (DDone, s))"

text \<open>Without interruption an allocation takes at most five steps and a deallocation three.\<close>

definition allocate :: "nat \<Rightarrow> nat \<Rightarrow> slab \<Rightarrow> nat res \<times> slab" where
  "allocate sz align s =
     (if 64 < align then (Ok 0, s)
      else case class_index sz align of
        None \<Rightarrow> (Ok 0, s)
      | Some ci \<Rightarrow>
          (case alloc_steps ci 5 ALoad s of
             (ADone p, s1) \<Rightarrow> (Ok p, s1)
           | (_, s1) \<Rightarrow> (Panic, s1)))"

definition deallocate :: "nat \<Rightarrow> nat \<Rightarrow> nat \<Rightarrow> slab \<Rightarrow> slab" where
  "deallocate p sz align s =
     (case class_index sz align of
        None \<Rightarrow> s
      | Some ci \<Rightarrow>
          let s1 = snd (dealloc_step ci p DLoad s);
              s2 = snd (dealloc_step ci p (DWrite (sl_heads s ! ci)) s1)
          in snd (dealloc_step ci p (DCas (sl_heads s ! ci)) s2))"

section \<open>Free lists and the grid of blocks\<close>

fun linked :: "(nat \<Rightarrow> nat) \<Rightarrow> nat \<Rightarrow> nat list \<Rightarrow> bool" where
  "linked m h [] \<longleftrightarrow> h = 0"
| "linked m h (x # xs) \<longleftrightarrow> h = x \<and> x \<noteq> 0 \<and> linked m (m x) xs"

text \<open>\<open>P\<close> gives the heap pages in use their class; the blocks of a class are the grid on its pages.\<close>

definition is_block :: "(nat \<rightharpoonup> nat) \<Rightarrow> nat \<Rightarrow> nat \<Rightarrow> bool" where
  "is_block P ci x \<longleftrightarrow> (\<exists>pg i. P pg = Some ci \<and> i < blocks_per_page (CLASS_SIZES ! ci) \<and> x = block_at (pg + PAGE_HEADER) (CLASS_SIZES ! ci) i)"

definition slab_wf :: "slab \<Rightarrow> (nat \<rightharpoonup> nat) \<Rightarrow> (nat \<Rightarrow> nat list) \<Rightarrow> (nat \<times> nat) set \<Rightarrow> bool" where
  "slab_wf s P F L \<longleftrightarrow> length (sl_heads s) = 7 \<and> phys_inv (sl_phys s) \<and>
     (\<forall>pg ci. P pg = Some ci \<longrightarrow> ci < 7 \<and> 4096 dvd pg \<and> 0 < pg \<and> pg \<in> heap_va ` used_pages (sl_phys s)) \<and>
     (\<forall>ci<7. linked (sl_links s) (sl_heads s ! ci) (F ci) \<and> distinct (F ci) \<and> (\<forall>x\<in>set (F ci). is_block P ci x \<and> (ci, x) \<notin> L)) \<and>
     (\<forall>(ci, x)\<in>L. ci < 7 \<and> is_block P ci x)"

lemma class_sizes: "ci < 7 \<Longrightarrow> CLASS_SIZES ! ci \<in> {32, 64, 128, 256, 512, 1024, 2048}"
  by (auto simp: CLASS_SIZES_def less_Suc_eq numeral_eq_Suc)

lemma class_bounds:
  assumes "ci < 7"
  shows "32 \<le> CLASS_SIZES ! ci" "0 < blocks_per_page (CLASS_SIZES ! ci)" "8 dvd CLASS_SIZES ! ci" "32 dvd CLASS_SIZES ! ci"
    "PAGE_HEADER + blocks_per_page (CLASS_SIZES ! ci) * (CLASS_SIZES ! ci) \<le> 4096"
  using class_sizes [OF assms] by (auto simp: blocks_per_page_def PAGE_SIZE_def PAGE_HEADER_def)

lemma linked_upd: "linked m h xs \<Longrightarrow> y \<notin> set xs \<Longrightarrow> linked (m(y := v)) h xs"
  by (induction xs arbitrary: h) auto

lemma linked_cong: "linked m h xs \<Longrightarrow> \<forall>x\<in>set xs. m' x = m x \<Longrightarrow> linked m' h xs"
  by (induction xs arbitrary: h) auto

lemma linked_hd: "linked m h xs \<Longrightarrow> h = (case xs of [] \<Rightarrow> 0 | x # _ \<Rightarrow> x)"
  by (cases xs) auto

lemma linked_map:
  "\<forall>j. k \<le> j \<longrightarrow> j < n - 1 \<longrightarrow> m (f j) = f (Suc j) \<Longrightarrow> m (f (n - 1)) = 0 \<Longrightarrow> \<forall>j<n. f j \<noteq> 0 \<Longrightarrow> k < n \<Longrightarrow>
   linked m (f k) (map f [k..<n])"
proof (induction "n - k" arbitrary: k)
  case (Suc d)
  show ?case
  proof (cases "Suc k = n")
    case True
    then show ?thesis
      using Suc.prems by auto
  next
    case False
    then have "linked m (f (Suc k)) (map f [Suc k..<n])"
      using Suc.hyps(2) Suc.prems by (intro Suc.hyps(1)) auto
    moreover have "[k..<n] = k # [Suc k..<n]"
      using Suc.prems(4) by (simp add: upt_conv_Cons)
    moreover have "m (f k) = f (Suc k)"
      using Suc.prems(1,4) False by auto
    ultimately show ?thesis
      using Suc.prems(3,4) by simp
  qed
qed simp

lemma block_at_inj: "0 < b \<Longrightarrow> block_at d b i = block_at d b j \<longleftrightarrow> i = j"
  by (simp add: block_at_def)

lemma link_blocks_other: "\<forall>j<i. x \<noteq> block_at d b j \<Longrightarrow> link_blocks d b i m x = m x"
  by (induction i) auto

lemma link_blocks_at: "0 < b \<Longrightarrow> j < i \<Longrightarrow> link_blocks d b i m (block_at d b j) = block_at d b (Suc j)"
  by (induction i) (auto simp: block_at_inj less_Suc_eq)

text \<open>A block lies inside its page, and two blocks of the grid are disjoint.\<close>

lemma block_in_page:
  assumes "ci < 7" "i < blocks_per_page (CLASS_SIZES ! ci)"
  shows "pg < block_at (pg + PAGE_HEADER) (CLASS_SIZES ! ci) i"
    "block_at (pg + PAGE_HEADER) (CLASS_SIZES ! ci) i + CLASS_SIZES ! ci \<le> pg + 4096"
proof -
  have "Suc i * (CLASS_SIZES ! ci) \<le> blocks_per_page (CLASS_SIZES ! ci) * (CLASS_SIZES ! ci)"
    using assms(2) by (intro mult_le_mono1) simp
  then show "block_at (pg + PAGE_HEADER) (CLASS_SIZES ! ci) i + CLASS_SIZES ! ci \<le> pg + 4096"
    using class_bounds(5) [OF assms(1)] by (simp add: block_at_def)
qed (simp add: block_at_def PAGE_HEADER_def)

lemma pages_apart: "4096 dvd (p :: nat) \<Longrightarrow> 4096 dvd q \<Longrightarrow> p \<noteq> q \<Longrightarrow> p + 4096 \<le> q \<or> q + 4096 \<le> p"
  by (auto elim!: dvdE)

lemma grid_disjoint:
  assumes P: "\<forall>pg ci. P pg = Some ci \<longrightarrow> ci < 7 \<and> 4096 dvd pg" and "is_block P ci x" "is_block P cj y" "(ci, x) \<noteq> (cj, y)"
  shows "x + CLASS_SIZES ! ci \<le> y \<or> y + CLASS_SIZES ! cj \<le> x"
proof -
  obtain pg i where x: "P pg = Some ci" "i < blocks_per_page (CLASS_SIZES ! ci)" "x = block_at (pg + PAGE_HEADER) (CLASS_SIZES ! ci) i"
    using assms(2) by (auto simp: is_block_def)
  obtain qg j where y: "P qg = Some cj" "j < blocks_per_page (CLASS_SIZES ! cj)" "y = block_at (qg + PAGE_HEADER) (CLASS_SIZES ! cj) j"
    using assms(3) by (auto simp: is_block_def)
  have "ci < 7" "cj < 7" "4096 dvd pg" "4096 dvd qg"
    using P x(1) y(1) by auto
  note bx = block_in_page [OF \<open>ci < 7\<close> x(2), of pg] and bj = block_in_page [OF \<open>cj < 7\<close> y(2), of qg]
  show ?thesis
  proof (cases "pg = qg")
    case True
    with x(1) y(1) have c: "ci = cj" by simp
    with True x(3) y(3) assms(4) have "i \<noteq> j" by auto
    then have "Suc i * (CLASS_SIZES ! ci) \<le> j * (CLASS_SIZES ! ci) \<or> Suc j * (CLASS_SIZES ! ci) \<le> i * (CLASS_SIZES ! ci)"
      by (metis Suc_leI linorder_neqE_nat mult_le_mono1)
    with True c x(3) y(3) show ?thesis
      by (auto simp: block_at_def)
  next
    case False
    from pages_apart [OF \<open>4096 dvd pg\<close> \<open>4096 dvd qg\<close> this] bx bj x(3) y(3) show ?thesis by auto
  qed
qed

lemma is_block_grow: "P pg = None \<Longrightarrow> is_block P cj x \<Longrightarrow> is_block (P(pg \<mapsto> ci)) cj x"
  unfolding is_block_def by (metis fun_upd_apply option.distinct(1))

lemma slab_wfD:
  assumes "slab_wf s P F L"
  shows "length (sl_heads s) = 7" "phys_inv (sl_phys s)"
    "P pg = Some ci \<Longrightarrow> ci < 7 \<and> 4096 dvd pg \<and> 0 < pg \<and> pg \<in> heap_va ` used_pages (sl_phys s)"
    "ci < 7 \<Longrightarrow> linked (sl_links s) (sl_heads s ! ci) (F ci) \<and> distinct (F ci) \<and> (\<forall>x\<in>set (F ci). is_block P ci x \<and> (ci, x) \<notin> L)"
    "(ci, x) \<in> L \<Longrightarrow> ci < 7 \<and> is_block P ci x"
  using assms by (auto simp: slab_wf_def)

lemma slab_wfI:
  assumes "length (sl_heads s) = 7" "phys_inv (sl_phys s)"
    "\<And>pg ci. P pg = Some ci \<Longrightarrow> ci < 7 \<and> 4096 dvd pg \<and> 0 < pg \<and> pg \<in> heap_va ` used_pages (sl_phys s)"
    "\<And>ci. ci < 7 \<Longrightarrow> linked (sl_links s) (sl_heads s ! ci) (F ci) \<and> distinct (F ci) \<and> (\<forall>x\<in>set (F ci). is_block P ci x \<and> (ci, x) \<notin> L)"
    "\<And>ci x. (ci, x) \<in> L \<Longrightarrow> ci < 7 \<and> is_block P ci x"
  shows "slab_wf s P F L"
  using assms unfolding slab_wf_def by blast

section \<open>Allocation and deallocation\<close>

text \<open>Taking the first block of a free list.\<close>

lemma alloc_steps_head:
  assumes "sl_heads s ! ci = x" "x \<noteq> 0" "3 \<le> n"
  shows "alloc_steps ci n ALoad s = (ADone x, s\<lparr>sl_heads := (sl_heads s)[ci := sl_links s x]\<rparr>)"
proof -
  have "alloc_steps ci k (ADone p) t = (ADone p, t)" for k p t
    by (induction k) (simp_all add: alloc_step_def)
  moreover obtain k where "n = Suc (Suc (Suc k))"
    using assms(3) by (metis add_Suc le_add_diff_inverse numeral_3_eq_3 plus_nat.add_0)
  ultimately show ?thesis
    using assms(1,2) by (simp add: alloc_step_def)
qed

lemma alloc_steps_pop:
  assumes "slab_wf s P F L" "ci < 7" "F ci = x # xs" "3 \<le> n"
  shows "alloc_steps ci n ALoad s = (ADone x, s\<lparr>sl_heads := (sl_heads s)[ci := sl_links s x]\<rparr>)"
  using slab_wfD(4) [OF assms(1,2)] assms(3,4) by (intro alloc_steps_head) auto

lemma popped_wf:
  assumes wf: "slab_wf s P F L" and ci: "ci < 7" and F: "F ci = x # xs"
  shows "slab_wf (s\<lparr>sl_heads := (sl_heads s)[ci := sl_links s x]\<rparr>) P (F(ci := xs)) (insert (ci, x) L)"
proof -
  note D = slab_wfD [OF wf]
  have x: "is_block P ci x" "x \<notin> set xs" "linked (sl_links s) (sl_links s x) xs"
    using D(4) [OF ci] F by auto
  have "linked (sl_links s) ((sl_heads s)[ci := sl_links s x] ! cj) ((F(ci := xs)) cj) \<and> distinct ((F(ci := xs)) cj) \<and>
      (\<forall>y\<in>set ((F(ci := xs)) cj). is_block P cj y \<and> (cj, y) \<notin> insert (ci, x) L)" if "cj < 7" for cj
    using D(4) [OF that] D(4) [OF ci] D(1) x F ci by (cases "cj = ci") auto
  with wf ci x(1) show ?thesis
    by (simp add: slab_wf_def)
qed

text \<open>A fresh page is disjoint from the blocks in use, and linking it leaves every other free list as it was.\<close>

lemma refill_wf:
  assumes wf: "slab_wf s P F L" and ci: "ci < 7" and F: "F ci = []"
  shows "refill ci s = (Ok 0, s) \<or>
    (\<exists>pg s1. refill ci s = (Ok (pg + PAGE_HEADER), s1) \<and> P pg = None \<and>
       slab_wf s1 (P(pg \<mapsto> ci)) (F(ci := map (block_at (pg + PAGE_HEADER) (CLASS_SIZES ! ci)) [0..<blocks_per_page (CLASS_SIZES ! ci)])) L)"
proof -
  note D = slab_wfD [OF wf] and B = class_bounds [OF ci]
  let ?b = "CLASS_SIZES ! ci" and ?n = "blocks_per_page (CLASS_SIZES ! ci)"
  consider (ok) pa ph where "alloc_page TagKernelHeap (sl_phys s) = (Ok pa, ph)" "pa \<notin> used_pages (sl_phys s)"
      "used_pages ph = insert pa (used_pages (sl_phys s))" "4096 dvd pa" "pa \<noteq> 0" "phys_inv ph"
    | (err) "alloc_page TagKernelHeap (sl_phys s) = (Err NoMemory, sl_phys s)"
    by (rule frames.alloc_cases [OF D(2), of TagKernelHeap])
  then show ?thesis
  proof cases
    case err
    then show ?thesis
      using B(2) by (simp add: refill_def alloc_kheap_page_def Let_def)
  next
    case (ok pa ph)
    let ?pg = "heap_va pa" and ?d = "heap_va pa + PAGE_HEADER"
    let ?m1 = "(sl_links s)(?pg := sl_heads s ! ci)"
    let ?m2 = "(link_blocks ?d ?b (?n - 1) ?m1)(block_at ?d ?b (?n - 1) := 0)"
    let ?F = "map (block_at ?d ?b) [0..<?n]" and ?P = "P(?pg \<mapsto> ci)"
    define s1 where "s1 = s\<lparr>sl_heads := (sl_heads s)[ci := ?d], sl_links := ?m2, sl_phys := ph\<rparr>"
    have r: "refill ci s = (Ok ?d, s1)"
      using ok(1) B(2) by (simp add: refill_def alloc_kheap_page_def Let_def s1_def)
    have pg: "4096 dvd ?pg" "0 < ?pg"
      using ok(4,5) by (auto simp: heap_va_def KERNEL_OFFSET_def)
    have new: "P ?pg = None"
      using D(3) [of ?pg] ok(2) by (cases "P ?pg") (auto simp: heap_va_def)
    have inp: "?pg < block_at ?d ?b i" "block_at ?d ?b i + ?b \<le> ?pg + 4096" if "i < ?n" for i
      using block_in_page [OF ci that] by auto
    have old: "x < ?pg \<or> ?pg + 4096 \<le> x" if b: "is_block P cj x" for cj x
    proof -
      obtain qg j where q: "P qg = Some cj" "j < blocks_per_page (CLASS_SIZES ! cj)" "x = block_at (qg + PAGE_HEADER) (CLASS_SIZES ! cj) j"
        using b by (auto simp: is_block_def)
      then have "cj < 7" "4096 dvd qg" "qg \<noteq> ?pg"
        using D(3) [OF q(1)] new by auto
      with block_in_page [OF \<open>cj < 7\<close> q(2), of qg] pages_apart [OF pg(1), of qg] class_bounds(1) [of cj] q(3) show ?thesis
        by auto
    qed
    have m2: "?m2 x = sl_links s x" if b: "is_block P cj x" for cj x
    proof -
      have "x \<noteq> block_at ?d ?b i" if "i < ?n" for i
        using old [OF b] inp [OF that] B(1) by auto
      moreover have "x \<noteq> ?pg"
        using old [OF b] by auto
      ultimately show ?thesis
        using B(2) by (simp add: link_blocks_other)
    qed
    have lk: "linked ?m2 ?d ?F"
    proof -
      have "\<forall>j. 0 \<le> j \<longrightarrow> j < ?n - 1 \<longrightarrow> ?m2 (block_at ?d ?b j) = block_at ?d ?b (Suc j)"
        using B(1) by (auto simp: link_blocks_at block_at_inj)
      moreover have "\<forall>j<?n. block_at ?d ?b j \<noteq> 0"
        using inp by fastforce
      ultimately show ?thesis
        using linked_map [of 0 ?n ?m2 "block_at ?d ?b"] B(2) by (simp add: block_at_def)
    qed
    have blk: "is_block ?P cj x" if "is_block P cj x" for cj x
      using is_block_grow [OF new that] .
    have Fb: "is_block ?P ci x \<and> (ci, x) \<notin> L" if x: "x \<in> set ?F" for x
    proof -
      obtain i where i: "i < ?n" "x = block_at ?d ?b i"
        using x by auto
      then have "\<not> is_block P cj x" for cj
        using old [of cj x] inp [OF i(1)] B(1) by auto
      then have "(ci, x) \<notin> L"
        using D(5) by blast
      moreover have "is_block ?P ci x"
        unfolding is_block_def using i by (intro exI [of _ ?pg] exI [of _ i]) simp
      ultimately show ?thesis by blast
    qed
    have lists: "linked ?m2 ((sl_heads s)[ci := ?d] ! cj) ((F(ci := ?F)) cj) \<and> distinct ((F(ci := ?F)) cj) \<and>
        (\<forall>x\<in>set ((F(ci := ?F)) cj). is_block ?P cj x \<and> (cj, x) \<notin> L)" if "cj < 7" for cj
    proof (cases "cj = ci")
      case True
      have "distinct ?F"
        using B(1) by (simp add: distinct_map inj_on_def block_at_inj)
      with True lk Fb D(1) ci show ?thesis by simp
    next
      case False
      have "linked ?m2 (sl_heads s ! cj) (F cj)"
      proof (rule linked_cong)
        show "linked (sl_links s) (sl_heads s ! cj) (F cj)"
          using D(4) [OF that] by blast
        show "\<forall>x\<in>set (F cj). ?m2 x = sl_links s x"
          using D(4) [OF that] m2 by blast
      qed
      with False D(4) [OF that] blk show ?thesis by auto
    qed
    have s1: "sl_heads s1 = (sl_heads s)[ci := ?d]" "sl_links s1 = ?m2" "sl_phys s1 = ph"
      by (simp_all add: s1_def)
    have "slab_wf s1 ?P (F(ci := ?F)) L"
    proof (rule slab_wfI)
      show "cj < 7 \<and> 4096 dvd qg \<and> 0 < qg \<and> qg \<in> heap_va ` used_pages (sl_phys s1)" if "?P qg = Some cj" for qg cj
        using that D(3) [of qg cj] pg ci ok(3) s1(3) by (cases "qg = ?pg") auto
      show "linked (sl_links s1) (sl_heads s1 ! cj) ((F(ci := ?F)) cj) \<and> distinct ((F(ci := ?F)) cj) \<and>
          (\<forall>x\<in>set ((F(ci := ?F)) cj). is_block ?P cj x \<and> (cj, x) \<notin> L)" if "cj < 7" for cj
        unfolding s1(1,2) by (rule lists [OF that])
      show "cj < 7 \<and> is_block ?P cj x" if "(cj, x) \<in> L" for cj x
        using D(5) [OF that] blk by blast
    qed (use D(1) ok(6) s1 in simp_all)
    with r new show ?thesis by blast
  qed
qed

lemma allocate_cases:
  assumes wf: "slab_wf s P F L" and ci: "class_index sz align = Some ci" and al: "align \<le> 64"
  shows "(\<exists>s'. allocate sz align s = (Ok 0, s') \<and> slab_wf s' P F L) \<or>
    (\<exists>p s' P' F'. allocate sz align s = (Ok p, s') \<and> p \<noteq> 0 \<and> (ci, p) \<notin> L \<and> is_block P' ci p \<and> (\<forall>cj x. is_block P cj x \<longrightarrow> is_block P' cj x) \<and>
       slab_wf s' P' F' (insert (ci, p) L))"
proof -
  have c7: "ci < 7"
    using ci find_index_less [of "\<lambda>cs. max sz align \<le> cs" CLASS_SIZES ci] by (simp add: class_index_def CLASS_SIZES_def)
  note D = slab_wfD [OF wf]
  show ?thesis
  proof (cases "F ci")
    case (Cons x xs)
    have x: "x \<noteq> 0" "(ci, x) \<notin> L" "is_block P ci x"
      using D(4) [OF c7] Cons by auto
    have "allocate sz align s = (Ok x, s\<lparr>sl_heads := (sl_heads s)[ci := sl_links s x]\<rparr>)"
      using alloc_steps_pop [OF wf c7 Cons, of 5] al ci by (simp add: allocate_def)
    with popped_wf [OF wf c7 Cons] x show ?thesis by blast
  next
    case Nil
    then have h0: "sl_heads s ! ci = 0"
      using D(4) [OF c7] by simp
    have two: "alloc_steps ci 5 ALoad s = alloc_steps ci 3 (fst (alloc_step ci ARefill s)) (snd (alloc_step ci ARefill s))"
    proof -
      have "alloc_steps ci (Suc (Suc 3)) ALoad s = alloc_steps ci 3 (fst (alloc_step ci ARefill s)) (snd (alloc_step ci ARefill s))"
        using h0 by (simp only: alloc_steps.simps) (simp add: alloc_step_def split_beta)
      then show ?thesis by simp
    qed
    from refill_wf [OF wf c7 Nil] show ?thesis
    proof (elim disjE exE conjE)
      assume "refill ci s = (Ok 0, s)"
      with h0 two have "alloc_steps ci 5 ALoad s = (ADone 0, s)"
        by (simp add: alloc_step_def numeral_3_eq_3)
      with al ci wf show ?thesis
        by (auto simp: allocate_def)
    next
      fix pg s1
      let ?F = "map (block_at (pg + PAGE_HEADER) (CLASS_SIZES ! ci)) [0..<blocks_per_page (CLASS_SIZES ! ci)]"
      assume r: "refill ci s = (Ok (pg + PAGE_HEADER), s1)" and new: "P pg = None" and wf0: "slab_wf s1 (P(pg \<mapsto> ci)) (F(ci := ?F)) L"
      define F1 where "F1 = F(ci := ?F)"
      obtain x xs where F: "F1 ci = x # xs"
        using class_bounds(2) [OF c7] by (cases "F1 ci") (auto simp: F1_def)
      have wf1: "slab_wf s1 (P(pg \<mapsto> ci)) F1 L"
        using wf0 by (simp add: F1_def)
      have x: "x \<noteq> 0" "(ci, x) \<notin> L" "is_block (P(pg \<mapsto> ci)) ci x" "sl_heads s1 ! ci = x"
        using slab_wfD(4) [OF wf1 c7] F by auto
      have "alloc_steps ci 5 ALoad s = (ADone x, s1\<lparr>sl_heads := (sl_heads s1)[ci := sl_links s1 x]\<rparr>)"
        using alloc_steps_pop [OF wf1 c7 F, of 3] two r x by (simp add: alloc_step_def)
      moreover have "is_block (P(pg \<mapsto> ci)) cj y" if "is_block P cj y" for cj y
        using is_block_grow [OF new that] .
      ultimately show ?thesis
        using popped_wf [OF wf1 c7 F] x al ci by (simp add: allocate_def) blast
    qed
  qed
qed

lemma deallocate_wf:
  assumes wf: "slab_wf s P F L" and ci: "class_index sz align = Some ci" and live: "(ci, p) \<in> L"
  shows "slab_wf (deallocate p sz align s) P (F(ci := p # F ci)) (L - {(ci, p)})"
proof -
  note D = slab_wfD [OF wf]
  have c7: "ci < 7" and b: "is_block P ci p"
    using D(5) [OF live] by auto
  then have "0 < p"
    by (auto simp: is_block_def block_at_def PAGE_HEADER_def)
  have s': "deallocate p sz align s = s\<lparr>sl_heads := (sl_heads s)[ci := p], sl_links := (sl_links s)(p := sl_heads s ! ci)\<rparr>"
    using ci by (simp add: deallocate_def dealloc_step_def Let_def)
  have nf: "p \<notin> set (F cj)" if "cj < 7" for cj
  proof
    assume p: "p \<in> set (F cj)"
    then have "is_block P cj p" "(cj, p) \<notin> L"
      using D(4) [OF that] by auto
    moreover have "\<forall>pg ci. P pg = Some ci \<longrightarrow> ci < 7 \<and> 4096 dvd pg"
      using D(3) by blast
    ultimately show False
      using grid_disjoint [of P ci p cj p] b live class_bounds(1) [OF c7] class_bounds(1) [OF that] by auto
  qed
  have lists: "linked ((sl_links s)(p := sl_heads s ! ci)) ((sl_heads s)[ci := p] ! cj) ((F(ci := p # F ci)) cj) \<and> distinct ((F(ci := p # F ci)) cj) \<and>
      (\<forall>x\<in>set ((F(ci := p # F ci)) cj). is_block P cj x \<and> (cj, x) \<notin> L - {(ci, p)})" if "cj < 7" for cj
  proof (cases "cj = ci")
    case True
    have "linked ((sl_links s)(p := sl_heads s ! ci)) (sl_heads s ! ci) (F ci)"
      using D(4) [OF c7] nf [OF c7] by (intro linked_upd) auto
    with True D(1) D(4) [OF c7] nf [OF c7] \<open>0 < p\<close> b c7 show ?thesis
      by simp
  next
    case False
    have "linked ((sl_links s)(p := sl_heads s ! ci)) (sl_heads s ! cj) (F cj)"
      using D(4) [OF that] nf [OF that] by (intro linked_upd) auto
    with False D(4) [OF that] show ?thesis
      by simp
  qed
  have sel: "sl_heads (deallocate p sz align s) = (sl_heads s)[ci := p]" "sl_links (deallocate p sz align s) = (sl_links s)(p := sl_heads s ! ci)"
      "sl_phys (deallocate p sz align s) = sl_phys s"
    by (simp_all add: s')
  show ?thesis
  proof (rule slab_wfI)
    show "cj < 7 \<and> 4096 dvd pg \<and> 0 < pg \<and> pg \<in> heap_va ` used_pages (sl_phys (deallocate p sz align s))" if "P pg = Some cj" for pg cj
      unfolding sel(3) by (rule D(3) [OF that])
    show "linked (sl_links (deallocate p sz align s)) (sl_heads (deallocate p sz align s) ! cj) ((F(ci := p # F ci)) cj) \<and>
        distinct ((F(ci := p # F ci)) cj) \<and> (\<forall>x\<in>set ((F(ci := p # F ci)) cj). is_block P cj x \<and> (cj, x) \<notin> L - {(ci, p)})" if "cj < 7" for cj
      unfolding sel(1,2) by (rule lists [OF that])
    show "cj < 7 \<and> is_block P cj x" if "(cj, x) \<in> L - {(ci, p)}" for cj x
      using D(5) [of cj x] that by blast
  qed (use D(1,2) sel in simp_all)
qed

section \<open>Clients\<close>

datatype slab_op = OpAllocate nat nat | OpFree nat

text \<open>A client that remembers its live blocks with their layouts and frees only those.\<close>

fun slab_exec :: "slab_op \<Rightarrow> slab \<times> (nat \<times> nat \<times> nat) list \<Rightarrow> slab \<times> (nat \<times> nat \<times> nat) list" where
  "slab_exec (OpAllocate sz align) (s, live) =
     (case allocate sz align s of (Ok p, s') \<Rightarrow> (s', if p = 0 then live else (p, sz, align) # live) | (_, s') \<Rightarrow> (s', live))"
| "slab_exec (OpFree k) (s, live) =
     (if k < length live then (case live ! k of (p, sz, align) \<Rightarrow> (deallocate p sz align s, take k live @ drop (Suc k) live)) else (s, live))"

definition block_key :: "nat \<times> nat \<times> nat \<Rightarrow> nat \<times> nat" where
  "block_key e = (case e of (p, sz, align) \<Rightarrow> (the (class_index sz align), p))"

definition client_ok :: "slab \<times> (nat \<times> nat \<times> nat) list \<Rightarrow> bool" where
  "client_ok c \<longleftrightarrow> (\<exists>P F. slab_wf (fst c) P F (block_key ` set (snd c))) \<and> distinct (map block_key (snd c)) \<and>
     (\<forall>(p, sz, align)\<in>set (snd c). class_index sz align \<noteq> None)"

lemma class_index_size:
  assumes "class_index sz align = Some ci"
  shows "ci < 7" "sz \<le> CLASS_SIZES ! ci" "align \<le> CLASS_SIZES ! ci"
  using find_index_SomeD [OF assms [unfolded class_index_def]] by (auto simp: CLASS_SIZES_def)

lemma allocate_none: "class_index sz align = None \<or> 64 < align \<Longrightarrow> allocate sz align s = (Ok 0, s)"
  by (auto simp: allocate_def)

lemma exec_allocate_ok:
  assumes ok: "client_ok (s, live)"
  shows "client_ok (slab_exec (OpAllocate sz align) (s, live))"
proof (cases "class_index sz align = None \<or> 64 < align")
  case True
  with ok show ?thesis by (simp add: allocate_none)
next
  case False
  then obtain ci where ci: "class_index sz align = Some ci" "align \<le> 64" by auto
  obtain P F where wf: "slab_wf s P F (block_key ` set live)"
    using ok by (auto simp: client_ok_def)
  have key: "block_key (p, sz, align) = (ci, p)" for p
    using ci by (simp add: block_key_def)
  from allocate_cases [OF wf ci] show ?thesis
  proof (elim disjE exE conjE)
    fix s' assume "allocate sz align s = (Ok 0, s')" "slab_wf s' P F (block_key ` set live)"
    with ok show ?thesis by (auto simp: client_ok_def)
  next
    fix p s' P' F'
    assume "allocate sz align s = (Ok p, s')" "p \<noteq> 0" "(ci, p) \<notin> block_key ` set live" "slab_wf s' P' F' (insert (ci, p) (block_key ` set live))"
    with ok ci key show ?thesis by (auto simp: client_ok_def)
  qed
qed

lemma exec_free_ok:
  assumes ok: "client_ok (s, live)"
  shows "client_ok (slab_exec (OpFree k) (s, live))"
proof (cases "k < length live")
  case False
  with ok show ?thesis by simp
next
  case True
  obtain p sz align where e: "live ! k = (p, sz, align)" by (metis prod_cases3)
  obtain P F where wf: "slab_wf s P F (block_key ` set live)"
    using ok by (auto simp: client_ok_def)
  have sp: "live = take k live @ (p, sz, align) # drop (Suc k) live"
    using id_take_nth_drop [OF True] e by simp
  obtain ci where ci: "class_index sz align = Some ci"
    using ok True e nth_mem [OF True] by (auto simp: client_ok_def)
  have key: "block_key (p, sz, align) = (ci, p)"
    using ci by (simp add: block_key_def)
  let ?rest = "take k live @ drop (Suc k) live"
  have d: "distinct (map block_key (take k live @ (p, sz, align) # drop (Suc k) live))"
    using ok sp by (simp add: client_ok_def)
  have set: "set live = insert (p, sz, align) (set ?rest)"
    using arg_cong [OF sp, of set] by simp
  have "(ci, p) \<notin> block_key ` set ?rest"
    using d key by auto
  then have "block_key ` set live - {(ci, p)} = block_key ` set ?rest"
    using set key by auto
  moreover have "(ci, p) \<in> block_key ` set live"
    using set key by force
  ultimately have "slab_wf (deallocate p sz align s) P (F(ci := p # F ci)) (block_key ` set ?rest)"
    using deallocate_wf [OF wf ci, of p] by simp
  moreover have "distinct (map block_key ?rest)"
    using d by auto
  moreover have "\<forall>(p, sz, align)\<in>set ?rest. class_index sz align \<noteq> None"
    using ok set by (auto simp: client_ok_def)
  ultimately show ?thesis
    using True e unfolding client_ok_def by auto
qed

lemma exec_ok: "client_ok c \<Longrightarrow> client_ok (slab_exec op c)"
  by (cases op; cases c) (simp_all only: exec_allocate_ok exec_free_ok)

lemma new_client_ok: "phys_inv ph \<Longrightarrow> client_ok (slab_new ph, [])"
  unfolding client_ok_def slab_wf_def
  by (intro conjI exI [of _ Map.empty] exI [of _ "\<lambda>_. []"]) (simp_all add: slab_new_def)

text \<open>
  C14. The kernel heap never hands out memory twice: after any sequence of allocations and of frees of live
  blocks, no allocation has panicked, every live block is non-null, and the ranges of any two of them are
  disjoint.
\<close>

theorem slab_blocks_disjoint:
  assumes "phys_inv ph" "fold slab_exec ops (slab_new ph, []) = (s, live)"
  shows "(\<forall>i j. i < j \<longrightarrow> j < length live \<longrightarrow>
      (case (live ! i, live ! j) of ((p, sz, _), (q, sz', _)) \<Rightarrow> p \<noteq> 0 \<and> (p + sz \<le> q \<or> q + sz' \<le> p))) \<and>
    fst (allocate sz align s) \<noteq> Panic"
proof -
  have "client_ok (fold slab_exec ops c)" if "client_ok c" for c
    using that by (induction ops arbitrary: c) (simp_all add: exec_ok)
  from this [OF new_client_ok [OF assms(1)]] assms(2) have ok: "client_ok (s, live)"
    by simp
  then obtain P F where wf: "slab_wf s P F (block_key ` set live)"
    by (auto simp: client_ok_def)
  have "\<forall>i j. i < j \<longrightarrow> j < length live \<longrightarrow>
      (case (live ! i, live ! j) of ((p, sz, _), (q, sz', _)) \<Rightarrow> p \<noteq> 0 \<and> (p + sz \<le> q \<or> q + sz' \<le> p))"
  proof (intro allI impI)
    fix i j assume ij: "i < j" "j < length live"
    obtain p sz al q sz' al' where e: "live ! i = (p, sz, al)" "live ! j = (q, sz', al')"
      by (metis prod_cases3)
    have mem: "live ! i \<in> set live" "live ! j \<in> set live"
      using ij by auto
    then obtain ci cj where c: "class_index sz al = Some ci" "class_index sz' al' = Some cj"
      using ok e by (fastforce simp: client_ok_def)
    have k: "block_key (live ! i) = (ci, p)" "block_key (live ! j) = (cj, q)"
      using c e by (simp_all add: block_key_def)
    have "map block_key live ! i \<noteq> map block_key live ! j"
      using ok ij nth_eq_iff_index_eq [of "map block_key live" i j] by (simp add: client_ok_def)
    then have ne: "(ci, p) \<noteq> (cj, q)"
      using k ij by simp
    have b: "is_block P ci p" "is_block P cj q"
      using slab_wfD(5) [OF wf, of ci p] slab_wfD(5) [OF wf, of cj q] mem k by (metis image_eqI)+
    have "\<forall>pg ci. P pg = Some ci \<longrightarrow> ci < 7 \<and> 4096 dvd pg"
      using slab_wfD(3) [OF wf] by blast
    from grid_disjoint [OF this b ne] class_index_size [OF c(1)] class_index_size [OF c(2)]
    have "p + sz \<le> q \<or> q + sz' \<le> p" by auto
    moreover have "p \<noteq> 0"
      using b(1) by (auto simp: is_block_def block_at_def PAGE_HEADER_def)
    ultimately show "case (live ! i, live ! j) of ((p, sz, _), (q, sz', _)) \<Rightarrow> p \<noteq> 0 \<and> (p + sz \<le> q \<or> q + sz' \<le> p)"
      using e by simp
  qed
  moreover have "fst (allocate sz align s) \<noteq> Panic"
  proof (cases "class_index sz align = None \<or> 64 < align")
    case True
    then show ?thesis by (simp add: allocate_none)
  next
    case False
    then show ?thesis
      using allocate_cases [OF wf, of sz align] by fastforce
  qed
  ultimately show ?thesis by blast
qed

theorem slab_blocks_disjoint_witness:
  "\<exists>s live. fold slab_exec [OpAllocate 24 8, OpAllocate 24 8] (slab_new demo_phys, []) = (s, live) \<and> fst (allocate 100 8 s) \<noteq> Panic"
proof -
  obtain s live where r: "fold slab_exec [OpAllocate 24 8, OpAllocate 24 8] (slab_new demo_phys, []) = (s, live)"
    by fastforce
  from slab_blocks_disjoint [OF demo_phys_inv r, of 100 8] r show ?thesis by blast
qed

section \<open>Alignment and interference\<close>

text \<open>
  The heap ignores the alignment it accepts: the blocks of a page start behind an eight-byte header, so
  every address it returns is 8 modulo 16 and an allocation with an alignment of 16, 32 or 64 is never
  aligned.
\<close>

theorem slab_never_aligned:
  assumes wf: "slab_wf s P F L" and al: "align \<in> {16, 32, 64}" and r: "allocate sz align s = (Ok p, s')" "p \<noteq> 0"
  shows "p mod 16 = 8 \<and> p mod align \<noteq> 0"
proof -
  obtain ci where ci: "class_index sz align = Some ci" "align \<le> 64"
    using r allocate_none [of sz align s] by (cases "class_index sz align"; cases "64 < align") auto
  have c7: "ci < 7"
    by (rule class_index_size(1) [OF ci(1)])
  obtain P' F' where wf': "slab_wf s' P' F' (insert (ci, p) L)" "is_block P' ci p"
    using allocate_cases [OF wf ci] r by auto
  then obtain pg i where pg: "P' pg = Some ci" and x2: "p = pg + 8 + i * (CLASS_SIZES ! ci)"
    by (auto simp: is_block_def block_at_def PAGE_HEADER_def)
  note x = conjunct1 [OF conjunct2 [OF slab_wfD(3) [OF wf'(1) pg]]] x2
  obtain a b where "pg = 4096 * a" "CLASS_SIZES ! ci = 32 * b"
    using x(1) class_bounds(4) [OF c7] by (auto elim!: dvdE)
  with x(2) have p: "p = 16 * (256 * a + 2 * i * b) + 8"
    by (simp add: algebra_simps)
  have m: "p mod 16 = 8"
    unfolding p by (metis mod_less mod_mult_self4 numeral_less_iff semiring_norm(76) semiring_norm(78))
  then have "\<not> 16 dvd p"
    by (simp add: dvd_eq_mod_eq_0)
  moreover have "16 dvd align"
    using al by auto
  ultimately have "\<not> align dvd p"
    using dvd_trans by blast
  with m show ?thesis
    by (simp add: dvd_eq_mod_eq_0)
qed

lemma new_slab_wf: "slab_wf (slab_new demo_phys) Map.empty (\<lambda>_. []) {}"
  unfolding slab_wf_def by (simp add: slab_new_def demo_phys_inv)

lemma demo_refill:
  "\<exists>s1 P a b xs. refill 0 (slab_new demo_phys) = (Ok a, s1) \<and> slab_wf s1 P ((\<lambda>_. [])(0 := a # b # xs)) {}"
proof -
  have "refill 0 (slab_new demo_phys) \<noteq> (Ok 0, slab_new demo_phys)"
    by (simp add: refill_def slab_new_def alloc_kheap_page_def demo_alloc CLASS_SIZES_def blocks_per_page_def PAGE_SIZE_def PAGE_HEADER_def Let_def)
  with refill_wf [OF new_slab_wf, of 0] obtain pg s1 where r: "refill 0 (slab_new demo_phys) = (Ok (pg + PAGE_HEADER), s1)"
      "slab_wf s1 [pg \<mapsto> 0] ((\<lambda>_. [])(0 := map (block_at (pg + PAGE_HEADER) 32) [0..<127])) {}"
    by (auto simp: CLASS_SIZES_def blocks_per_page_def PAGE_SIZE_def PAGE_HEADER_def simp del: upt_rec_numeral)
  have "[0..<127] = 0 # 1 # [2..<127]"
    by (simp add: upt_conv_Cons del: upt_rec_numeral)
  then have "map (block_at (pg + PAGE_HEADER) 32) [0..<127] = (pg + PAGE_HEADER) # (pg + PAGE_HEADER + 32) # map (block_at (pg + PAGE_HEADER) 32) [2..<127]"
    by (simp add: block_at_def del: upt_rec_numeral)
  with r show ?thesis by metis
qed

text \<open>
  C38. The compare-and-exchange of \<open>allocate\<close> is not safe against interference. An allocation that has
  loaded the head and its link is interrupted; the interrupting code takes the first two blocks and frees
  the first. The exchange then succeeds, makes the second block the head of the free list although it is
  still in use, and the next allocation returns it a second time.
\<close>

theorem slab_aba:
  assumes wf: "slab_wf s P F L" and ci: "class_index sz align = Some ci" "align \<le> 64" and F: "F ci = a # b # xs"
  shows "\<exists>s1 s2 s3 s4 s5. alloc_steps ci 2 ALoad s = (ACas a b, s) \<and>
     allocate sz align s = (Ok a, s1) \<and> allocate sz align s1 = (Ok b, s2) \<and> deallocate a sz align s2 = s3 \<and>
     alloc_step ci (ACas a b) s3 = (ADone a, s4) \<and> allocate sz align s4 = (Ok b, s5)"
proof -
  have c7: "ci < 7"
    by (rule class_index_size(1) [OF ci(1)])
  note D = slab_wfD(1,4) [OF wf]
  have l: "sl_heads s ! ci = a" "sl_links s a = b" "a \<noteq> 0" "b \<noteq> 0" "a \<noteq> b"
    using D(2) [OF c7] F by auto
  have pop: "allocate sz align t = (Ok x, t\<lparr>sl_heads := (sl_heads t)[ci := sl_links t x]\<rparr>)" if "sl_heads t ! ci = x" "x \<noteq> 0" for t x
    using alloc_steps_head [OF that, of 5] ci by (simp add: allocate_def)
  have "alloc_steps ci (Suc (Suc 0)) ALoad s = (ACas a b, s)"
    using l by (simp add: alloc_step_def)
  then have "alloc_steps ci 2 ALoad s = (ACas a b, s)"
    by (simp add: numeral_2_eq_2)
  moreover define s1 where "s1 = s\<lparr>sl_heads := (sl_heads s)[ci := b]\<rparr>"
  have "allocate sz align s = (Ok a, s1)" "sl_heads s1 ! ci = b"
    using pop [OF l(1,3)] l(2) D(1) c7 by (simp_all add: s1_def)
  moreover define s2 where "s2 = s1\<lparr>sl_heads := (sl_heads s1)[ci := sl_links s1 b]\<rparr>"
  have "allocate sz align s1 = (Ok b, s2)"
    using pop [OF \<open>sl_heads s1 ! ci = b\<close> l(4)] by (simp add: s2_def)
  moreover define s3 where "s3 = deallocate a sz align s2"
  have "sl_heads s3 ! ci = a" "length (sl_heads s3) = 7"
    using ci(1) D(1) c7 by (simp_all add: s3_def s2_def s1_def deallocate_def dealloc_step_def Let_def)
  moreover define s4 where "s4 = s3\<lparr>sl_heads := (sl_heads s3)[ci := b]\<rparr>"
  have "alloc_step ci (ACas a b) s3 = (ADone a, s4)" "sl_heads s4 ! ci = b"
    using \<open>sl_heads s3 ! ci = a\<close> \<open>length (sl_heads s3) = 7\<close> c7 by (simp_all add: alloc_step_def s4_def)
  moreover note pop [OF \<open>sl_heads s4 ! ci = b\<close> l(4)]
  ultimately show ?thesis
    unfolding s3_def by blast
qed

theorem slab_aba_witness:
  "\<exists>s a b s1 s2 s3 s4 s5. alloc_steps 0 2 ALoad s = (ACas a b, s) \<and> allocate 24 8 s = (Ok a, s1) \<and>
     allocate 24 8 s1 = (Ok b, s2) \<and> deallocate a 24 8 s2 = s3 \<and> alloc_step 0 (ACas a b) s3 = (ADone a, s4) \<and> allocate 24 8 s4 = (Ok b, s5)"
proof -
  obtain s P a b xs where wf: "slab_wf s P ((\<lambda>_. [])(0 := a # b # xs)) {}"
    using demo_refill by blast
  have "class_index 24 8 = Some 0"
    by (simp add: class_index_def CLASS_SIZES_def)
  from slab_aba [OF wf this _ fun_upd_same] show ?thesis by force
qed

theorem slab_never_aligned_witness:
  "\<exists>s p s'. allocate 24 16 s = (Ok p, s') \<and> p \<noteq> 0 \<and> p mod 16 \<noteq> 0"
proof -
  obtain s P a b xs where wf: "slab_wf s P ((\<lambda>_. [])(0 := a # b # xs)) {}"
    using demo_refill by blast
  have c: "class_index 24 16 = Some 0"
    by (simp add: class_index_def CLASS_SIZES_def)
  have "sl_heads s ! 0 = a" "a \<noteq> 0"
    using slab_wfD(4) [OF wf, of 0] by simp_all
  then have "allocate 24 16 s = (Ok a, s\<lparr>sl_heads := (sl_heads s)[0 := sl_links s a]\<rparr>)"
    using alloc_steps_head [of s 0 a 5] c by (simp add: allocate_def)
  with slab_never_aligned [OF wf _ this \<open>a \<noteq> 0\<close>] \<open>a \<noteq> 0\<close> show ?thesis
    by auto
qed

end
