(* ===== verification/Memory_Calls.thy ===== *)
theory Memory_Calls
  imports Process_Calls
begin

text \<open>
  The memory system calls, \<open>kernel/src/syscall/handlers/memory.rs\<close>, and the mapping of a memory object into
  an address space (\<open>Memory::map_vmo_segment\<close> in \<open>memory/memory_manager.rs\<close> has the same body). They join
  the handle tables, the memory objects, the address regions and the page tables: the state is the process
  state together with the metadata frames of the memory objects; both share the physical frames, which live
  in the page-table part. The calls name the process whose handle table they were given by its slot.
\<close>

record mstate =
  ms_ps :: pstate
  ms_meta :: kmem

definition kmem_at :: "kmem \<Rightarrow> ptw \<Rightarrow> kmem" where
  "kmem_at m p = m\<lparr>km_phys := pw_phys p\<rparr>"

definition phys_back :: "kmem \<Rightarrow> ptw \<Rightarrow> ptw" where
  "phys_back m p = p\<lparr>pw_phys := km_phys m\<rparr>"

definition ms_kmem :: "mstate \<Rightarrow> kmem" where
  "ms_kmem s = kmem_at (ms_meta s) (ps_pt (ms_ps s))"

definition set_kmem :: "kmem \<Rightarrow> mstate \<Rightarrow> mstate" where
  "set_kmem m s = s\<lparr>ms_meta := m, ms_ps := (ms_ps s)\<lparr>ps_pt := phys_back m (ps_pt (ms_ps s))\<rparr>\<rparr>"

primrec flatten_res :: "'a res res \<Rightarrow> 'a res" where
  "flatten_res (Ok r) = r"
| "flatten_res (Err e) = Err e"
| "flatten_res Panic = Panic"

abbreviation table_of :: "nat \<Rightarrow> mstate \<Rightarrow> handle_table" where
  "table_of c s \<equiv> pr_handle_table (proc c (ms_ps s))"

definition set_table :: "nat \<Rightarrow> handle_table \<Rightarrow> mstate \<Rightarrow> mstate" where
  "set_table c t s = s\<lparr>ms_ps := upd_proc c (\<lambda>p. p\<lparr>pr_handle_table := t\<rparr>) (ms_ps s)\<rparr>"

section \<open>Creating objects\<close>

text \<open>\<open>table.add\<close>: an object the table has no room for is dropped.\<close>

definition add_vmo :: "nat \<Rightarrow> vmo \<Rightarrow> mstate \<Rightarrow> handle_value res \<times> mstate" where
  "add_vmo c v s =
     (case ht_add (KVmo v) (RIGHT_READ OR RIGHT_WRITE) (ps_hctr (ms_ps s)) (table_of c s) of
        (r, back, ctr, t) \<Rightarrow>
          (let s1 = set_table c t s; s2 = s1\<lparr>ms_ps := (ms_ps s1)\<lparr>ps_hctr := ctr\<rparr>\<rparr> in
           case back of
             None \<Rightarrow> (r, s2)
           | Some _ \<Rightarrow> (case vmo_drop v (ms_kmem s2) of (Panic, m) \<Rightarrow> (Panic, set_kmem m s2) | (_, m) \<Rightarrow> (r, set_kmem m s2))))"

definition sys_vmo_create :: "nat \<Rightarrow> usize \<Rightarrow> mstate \<Rightarrow> handle_value res \<times> mstate" where
  "sys_vmo_create c sz s =
     (case create_with_size sz (ms_kmem s) of
        (Ok v, m) \<Rightarrow> add_vmo c v (set_kmem m s)
      | (Err e, m) \<Rightarrow> (Err e, set_kmem m s)
      | (Panic, m) \<Rightarrow> (Panic, set_kmem m s))"

text \<open>Running a closure on the object of a handle in the table of slot \<open>c\<close>.\<close>

definition use_vmo :: "nat \<Rightarrow> handle_value \<Rightarrow> rights \<Rightarrow> (vmo \<Rightarrow> mstate \<Rightarrow> 'r res \<times> vmo \<times> mstate) \<Rightarrow> mstate \<Rightarrow> 'r res \<times> mstate" where
  "use_vmo c hv required f s =
     (case with_vmo hv required f (table_of c s) s of (r, t, s') \<Rightarrow> (flatten_res r, set_table c t s'))"

definition sys_vmo_create_child :: "nat \<Rightarrow> handle_value \<Rightarrow> usize \<Rightarrow> usize \<Rightarrow> mstate \<Rightarrow> handle_value res \<times> mstate" where
  "sys_vmo_create_child c parent offset sz s =
     (case use_vmo c parent RIGHT_READ
             (\<lambda>v s. case create_child_slice (word_of_nat VMO_MAX_PAGES + 1000) offset sz v (ms_kmem s) of
                      (r, m) \<Rightarrow> (r, v, set_kmem m s)) s of
        (Ok child, s1) \<Rightarrow> add_vmo c child s1
      | (Err e, s1) \<Rightarrow> (Err e, s1)
      | (Panic, s1) \<Rightarrow> (Panic, s1))"

section \<open>Copying between an object and user memory\<close>

text \<open>
  The page of the object at an offset, committed when it is missing; then one chunk, which ends where the
  page of the object, the user page or the request ends. Both loops work on the page tables of one process.
\<close>

definition vmo_frame :: "nat \<Rightarrow> vmo \<Rightarrow> kmem \<Rightarrow> nat res \<times> vmo \<times> kmem" where
  "vmo_frame off v m =
     (case slot_get m v (off div 4096) of
        Some pa \<Rightarrow> (Ok pa, v, m)
      | None \<Rightarrow>
          (case commit_page (off - off mod 4096) v m of
             (Ok (Some pa), v1, m1) \<Rightarrow> (Ok pa, v1, m1)
           | (Ok None, v1, m1) \<Rightarrow> (Err NoMemory, v1, m1)
           | (Err e, v1, m1) \<Rightarrow> (Err e, v1, m1)
           | (Panic, v1, m1) \<Rightarrow> (Panic, v1, m1)))"

definition copy_chunk :: "nat \<Rightarrow> u64 \<Rightarrow> nat \<Rightarrow> nat" where
  "copy_chunk off va left = min (min (4096 - off mod 4096) (4096 - unat (va AND 4095))) left"

lemma copy_chunk_pos: "0 < left \<Longrightarrow> 0 < copy_chunk off va left \<and> copy_chunk off va left \<le> left"
  by (simp add: copy_chunk_def unat_and_4095)

definition copy_ram :: "nat \<Rightarrow> nat \<Rightarrow> nat \<Rightarrow> kmem \<Rightarrow> kmem" where
  "copy_ram dst src n m =
     m\<lparr>km_phys := (km_phys m)\<lparr>ram := copy_in dst (copy_out src n (ram (km_phys m))) (ram (km_phys m))\<rparr>\<rparr>"

function vmo_read_user :: "(u64 \<Rightarrow> nat option) \<Rightarrow> nat \<Rightarrow> u64 \<Rightarrow> nat \<Rightarrow> vmo \<Rightarrow> kmem \<Rightarrow> unit res \<times> vmo \<times> kmem" where
  "vmo_read_user tr off va left v m =
     (if left = 0 then (Ok (), v, m)
      else case tr va of
        None \<Rightarrow> (Err InvalidArgs, v, m)
      | Some user_pa \<Rightarrow>
          (case vmo_frame off v m of
             (Ok pa, v1, m1) \<Rightarrow>
               (let chunk = copy_chunk off va left in
                vmo_read_user tr (off + chunk) (va + word_of_nat chunk) (left - chunk) v1 (copy_ram user_pa (pa + off mod 4096) chunk m1))
           | (Err e, v1, m1) \<Rightarrow> (Err e, v1, m1)
           | (Panic, v1, m1) \<Rightarrow> (Panic, v1, m1)))"
  by pat_completeness auto
termination
  by (relation "measure (\<lambda>(tr, off, va, left, v, m). left)") (use copy_chunk_pos in fastforce)+

function vmo_write_user :: "(u64 \<Rightarrow> nat option) \<Rightarrow> nat \<Rightarrow> u64 \<Rightarrow> nat \<Rightarrow> vmo \<Rightarrow> kmem \<Rightarrow> unit res \<times> vmo \<times> kmem" where
  "vmo_write_user tr off va left v m =
     (if left = 0 then (Ok (), v, m)
      else case tr va of
        None \<Rightarrow> (Err InvalidArgs, v, m)
      | Some user_pa \<Rightarrow>
          (case vmo_frame off v m of
             (Ok pa, v1, m1) \<Rightarrow>
               (let chunk = copy_chunk off va left in
                vmo_write_user tr (off + chunk) (va + word_of_nat chunk) (left - chunk) v1 (copy_ram (pa + off mod 4096) user_pa chunk m1))
           | (Err e, v1, m1) \<Rightarrow> (Err e, v1, m1)
           | (Panic, v1, m1) \<Rightarrow> (Panic, v1, m1)))"
  by pat_completeness auto
termination
  by (relation "measure (\<lambda>(tr, off, va, left, v, m). left)") (use copy_chunk_pos in fastforce)+

declare vmo_read_user.simps [simp del] vmo_write_user.simps [simp del]

text \<open>
  The caller's tables are those of the current thread's process; the object comes from the handle table. The
  page tables do not change while the bytes are copied.
\<close>

definition caller_l0 :: "mstate \<Rightarrow> nat res" where
  "caller_l0 s =
     (case current_thread (ms_ps s) of
        None \<Rightarrow> Err InvalidArgs
      | Some t \<Rightarrow> (case find_process_mut (th_process_id t) (ms_ps s) of None \<Rightarrow> Err InvalidArgs | Some k \<Rightarrow> Ok (l0_pa_of k (ms_ps s))))"

definition copy_call ::
  "((u64 \<Rightarrow> nat option) \<Rightarrow> nat \<Rightarrow> u64 \<Rightarrow> nat \<Rightarrow> vmo \<Rightarrow> kmem \<Rightarrow> unit res \<times> vmo \<times> kmem) \<Rightarrow> rights \<Rightarrow> nat \<Rightarrow> handle_value
    \<Rightarrow> usize \<Rightarrow> u64 \<Rightarrow> usize \<Rightarrow> mstate \<Rightarrow> nat res \<times> mstate" where
  "copy_call loop required c h off va len s =
     (case caller_l0 s of
        Ok l0 \<Rightarrow>
          use_vmo c h required
            (\<lambda>v s. if vmo_size v \<le> unat off then (Ok 0, v, s)
                   else let real_len = min (unat len) (vmo_size v - unat off) in
                   case loop (\<lambda>a. translate_user_va l0 a (ps_pt (ms_ps s))) (unat off) va real_len v (ms_kmem s) of
                     (r, v1, m) \<Rightarrow> (res_map (\<lambda>_. real_len) r, v1, set_kmem m s)) s
      | Err e \<Rightarrow> (Err e, s)
      | Panic \<Rightarrow> (Panic, s))"

definition sys_vmo_read :: "nat \<Rightarrow> handle_value \<Rightarrow> usize \<Rightarrow> u64 \<Rightarrow> usize \<Rightarrow> mstate \<Rightarrow> nat res \<times> mstate" where
  "sys_vmo_read = copy_call vmo_read_user RIGHT_READ"

definition sys_vmo_write :: "nat \<Rightarrow> handle_value \<Rightarrow> usize \<Rightarrow> u64 \<Rightarrow> usize \<Rightarrow> mstate \<Rightarrow> nat res \<times> mstate" where
  "sys_vmo_write = copy_call vmo_write_user RIGHT_WRITE"

section \<open>Mapping\<close>

definition arch_flags :: "vmar_flags \<Rightarrow> map_flags" where
  "arch_flags f = kernel_rw\<lparr>mf_readable := readable f \<or> writable f \<or> executable f, mf_writable := writable f,
     mf_executable := executable f, mf_user := user f\<rparr>"

text \<open>The page loop on the tree of slot \<open>k\<close>: commit the page of the object, then map its frame.\<close>

fun map_vmo_pages ::
  "nat \<Rightarrow> nat \<Rightarrow> nat \<Rightarrow> usize \<Rightarrow> u64 \<Rightarrow> map_flags \<Rightarrow> vmo \<Rightarrow> kmem \<Rightarrow> ptw \<Rightarrow> unit res \<times> vmo \<times> kmem \<times> ptw" where
  "map_vmo_pages 0 i k off va fl v m p = (Ok (), v, m, p)"
| "map_vmo_pages (Suc n) i k off va fl v m p =
     (let vmo_off = unat (off + word_of_nat (i * 4096)) in
      case commit_page vmo_off v (kmem_at m p) of
        (Ok _, v1, m1) \<Rightarrow>
          (case get_page_phys m1 v1 vmo_off of
             None \<Rightarrow> (Panic, v1, m1, phys_back m1 p)
           | Some pa \<Rightarrow>
               (case pt_map_va k (va + word_of_nat (i * 4096)) (word_of_nat pa) fl (phys_back m1 p) of
                  (Ok _, p1) \<Rightarrow> map_vmo_pages n (Suc i) k off va fl v1 m1 p1
                | (Err e, p1) \<Rightarrow> (Err e, v1, m1, p1)
                | (Panic, p1) \<Rightarrow> (Panic, v1, m1, p1)))
      | (Err e, v1, m1) \<Rightarrow> (Err e, v1, m1, phys_back m1 p)
      | (Panic, v1, m1) \<Rightarrow> (Panic, v1, m1, phys_back m1 p))"

definition map_vmo :: "nat \<Rightarrow> usize \<Rightarrow> u64 \<Rightarrow> usize \<Rightarrow> vmar_flags \<Rightarrow> vmo \<Rightarrow> mstate \<Rightarrow> usize res \<times> vmo \<times> mstate" where
  "map_vmo k off target_va sz flags v s =
     (case reserve_mapping (vmo_id v) off target_va sz flags (pr_root_vmar (proc k (ms_ps s))) of
        (Ok _, vm) \<Rightarrow>
          (let s1 = s\<lparr>ms_ps := upd_proc k (\<lambda>p. p\<lparr>pr_root_vmar := vm\<rparr>) (ms_ps s)\<rparr> in
           case map_vmo_pages (unat sz div 4096) 0 k off target_va (arch_flags flags) v (ms_meta s1) (ps_pt (ms_ps s1)) of
             (r, v1, m, p) \<Rightarrow> (res_map (\<lambda>_. sz) r, v1, s1\<lparr>ms_meta := m, ms_ps := (ms_ps s1)\<lparr>ps_pt := p\<rparr>\<rparr>))
      | (Err e, vm) \<Rightarrow> (Err e, v, s)
      | (Panic, vm) \<Rightarrow> (Panic, v, s))"

definition sys_vmar_map :: "nat \<Rightarrow> handle_value \<Rightarrow> handle_value \<Rightarrow> usize \<Rightarrow> usize \<Rightarrow> usize \<Rightarrow> u32 \<Rightarrow> mstate \<Rightarrow> usize res \<times> mstate" where
  "sys_vmar_map c process h off sz vaddr_offset flags s =
     (case with_process process RIGHT_WRITE (\<lambda>pid s. (pid, s)) (table_of c s) s of
        (Ok pid, t, s1) \<Rightarrow>
          (case find_process_mut pid (ms_ps s) of
             None \<Rightarrow> (Err NotFound, s)
           | Some k \<Rightarrow> use_vmo c h RIGHT_READ (map_vmo k off (vmar_base (pr_root_vmar (proc k (ms_ps s))) + vaddr_offset) sz flags) s)
      | (Err e, t, s1) \<Rightarrow> (Err e, s)
      | (Panic, t, s1) \<Rightarrow> (Panic, s))"

definition sys_vmar_map_self :: "nat \<Rightarrow> handle_value \<Rightarrow> usize \<Rightarrow> usize \<Rightarrow> u32 \<Rightarrow> mstate \<Rightarrow> usize res \<times> mstate" where
  "sys_vmar_map_self c h vaddr_offset sz flags s =
     (case caller_slot NotFound (ms_ps s) of
        Ok (pid, k) \<Rightarrow>
          if \<not> user flags then (Err InvalidArgs, s)
          else use_vmo c h RIGHT_READ (map_vmo k 0 (vmar_base (pr_root_vmar (proc k (ms_ps s))) + vaddr_offset) sz flags) s
      | Err e \<Rightarrow> (Err e, s)
      | Panic \<Rightarrow> (Panic, s))"

text \<open>\<open>sys_vmar_unmap\<close>: the loop over the pages has an empty body.\<close>

definition sys_vmar_unmap :: "usize \<Rightarrow> usize \<Rightarrow> mstate \<Rightarrow> unit res \<times> mstate" where
  "sys_vmar_unmap vaddr_offset sz s =
     (case caller_slot NotFound (ms_ps s) of Ok _ \<Rightarrow> (Ok (), s) | Err e \<Rightarrow> (Err e, s) | Panic \<Rightarrow> (Panic, s))"

section \<open>Frames in use stay as they are\<close>

text \<open>
  Taking frames from the allocator moves its cursor up and clears the new frames; what lies below the cursor
  and what lies outside RAM keeps its bytes, and frames below the cursor keep their tags.
\<close>

definition grows :: "phys \<Rightarrow> phys \<Rightarrow> bool" where
  "grows s s' \<longleftrightarrow> next_free_page s \<le> next_free_page s'
     \<and> (\<forall>a. a < next_free_page s \<or> RAM_BASE + RAM_SIZE \<le> a \<longrightarrow> ram s' a = ram s a)
     \<and> (\<forall>n. n < pa_to_pfn (next_free_page s) \<longrightarrow> page_tags s' n = page_tags s n)"

lemma grows_refl [simp]: "grows s s"
  by (simp add: grows_def)

lemma grows_trans:
  assumes "grows s s1" "grows s1 s2"
  shows "grows s s2"
proof -
  have "pa_to_pfn (next_free_page s) \<le> pa_to_pfn (next_free_page s1)" using assms(1) by (simp add: grows_def pfn_mono)
  then show ?thesis using assms unfolding grows_def by auto
qed

lemma grows_ram: "grows s s' \<Longrightarrow> frame_settled s p \<Longrightarrow> i < 4096 \<Longrightarrow> ram s' (p + i) = ram s (p + i)"
  unfolding grows_def frame_settled_def by (meson add_less_cancel_left order_less_le_trans trans_le_add1)

lemma grows_settled: "grows s s' \<Longrightarrow> frame_settled s p \<Longrightarrow> frame_settled s' p"
  unfolding grows_def by (blast intro: frame_settled_mono)

lemma grows_alloc:
  assumes "phys_inv s" "alloc_page tag s = (r, s')"
  shows "grows s s'"
proof (cases "end_free_page s \<le> next_free_page s")
  case True
  then show ?thesis using assms by (simp add: alloc_page_inv_eq)
next
  case False
  then have s': "s' = take_page tag (next_free_page s) s" using assms by (simp add: alloc_page_inv_eq)
  have "next_free_page s + 4096 \<le> RAM_BASE + RAM_SIZE"
    using False assms(1) RAM_end_dvd by (intro aligned_step) (auto simp: phys_inv_def)
  then show ?thesis by (auto simp: s' grows_def take_page_def zero_page_def)
qed

lemma grows_register [simp]: "grows s (register_pt_page pa s)" "next_free_page (register_pt_page pa s) = next_free_page s"
  by (simp_all add: register_pt_page_def grows_def)

text \<open>The same for the steps of a mapping, with the invariant of the allocator and the number of frames taken.\<close>

definition takes :: "nat \<Rightarrow> phys \<Rightarrow> phys \<Rightarrow> bool" where
  "takes n s s' \<longleftrightarrow> phys_inv s' \<and> grows s s' \<and> end_free_page s' = end_free_page s \<and> next_free_page s' \<le> next_free_page s + n * 4096"

lemma takes_refl: "phys_inv s \<Longrightarrow> takes n s s"
  by (simp add: takes_def)

lemma takes_trans: "takes n s s1 \<Longrightarrow> takes m s1 s2 \<Longrightarrow> takes (n + m) s s2"
  unfolding takes_def by (auto intro: grows_trans)

lemma takes_alloc:
  assumes "phys_inv s" "alloc_page tag s = (r, s')"
  shows "takes 1 s s'" "r = Ok n \<Longrightarrow> n < next_free_page s'"
proof -
  show "takes 1 s s'"
    using assms grows_alloc [OF assms] alloc_page_inv [OF assms(1), of tag]
    by (auto simp: takes_def alloc_page_inv_eq take_page_def split: if_splits)
  show "r = Ok n \<Longrightarrow> n < next_free_page s'"
    using assms by (auto simp: alloc_page_inv_eq take_page_def split: if_splits)
qed

definition table_step :: "nat \<Rightarrow> ptw \<Rightarrow> ptw \<Rightarrow> bool" where
  "table_step n s s' \<longleftrightarrow> (phys_inv (pw_phys s) \<longrightarrow> takes n (pw_phys s) (pw_phys s'))"

lemma table_step_trans: "table_step n s s1 \<Longrightarrow> table_step m s1 s2 \<Longrightarrow> table_step (n + m) s s2"
  unfolding table_step_def using takes_trans by (auto simp: takes_def)

lemma table_step_phys: "pw_phys s' = pw_phys s \<Longrightarrow> table_step n s s'"
  by (simp add: table_step_def takes_refl)

lemma table_step_more: "table_step n s s' \<Longrightarrow> n \<le> m \<Longrightarrow> table_step m s s'"
  unfolding table_step_def takes_def using mult_le_mono1 [of n m 4096] by auto

lemma table_step_alloc:
  assumes "alloc_table_page s = (r, s')"
  shows "table_step 1 s s'" "phys_inv (pw_phys s) \<Longrightarrow> r = Ok n \<Longrightarrow> n < next_free_page (pw_phys s')"
proof -
  obtain r1 q where a: "alloc_page TagPageTable (pw_phys s) = (r1, q)" by (metis prod.exhaust)
  then have q: "pw_phys s' = q" "r = r1" using assms by (auto simp: alloc_table_page_def alloc_pt_page_def split: res.splits)
  show "table_step 1 s s'" "phys_inv (pw_phys s) \<Longrightarrow> r = Ok n \<Longrightarrow> n < next_free_page (pw_phys s')"
    using takes_alloc [OF _ a] by (auto simp: table_step_def q)
qed

lemma table_step_track: "n < next_free_page (pw_phys s) \<Longrightarrow> table_step 0 s (pt_track k n s)"
  unfolding table_step_def takes_def using pt_track_phys [of s n k] by (simp add: pt_track_def set_tree_def Let_def)

lemma table_step_new:
  assumes a: "alloc_table_page s = (Ok n, s1)" and p: "pw_phys s2 = pw_phys s1" and q: "pw_phys s3 = pw_phys (pt_track k n s2)"
  shows "table_step 1 s s3"
proof -
  note t = table_step_alloc [OF a]
  have "takes 1 (pw_phys s) (pw_phys s3)" if inv: "phys_inv (pw_phys s)"
  proof -
    have s1: "takes 1 (pw_phys s) (pw_phys s1)" and n: "n < next_free_page (pw_phys s2)" using t inv p by (auto simp: table_step_def)
    have "takes 0 (pw_phys s1) (pw_phys s3)"
      using table_step_track [OF n, of k] s1 p q by (simp add: table_step_def takes_def)
    from takes_trans [OF s1 this] show ?thesis by simp
  qed
  then show ?thesis by (simp add: table_step_def)
qed

lemma table_step_shatter:
  assumes "shatter_block (pt_track k) amask clean step typ t i e s = (r, s')"
  shows "table_step 1 s s'"
proof -
  obtain r1 s1 where a: "alloc_table_page s = (r1, s1)" by (metis prod.exhaust)
  show ?thesis
  proof (cases r1)
    case (Ok n)
    have "pw_phys s' = pw_phys (pt_track k n s1)"
      using assms a Ok by (auto simp: shatter_block_def Let_def pw_pte_write_entries)
    then show ?thesis using table_step_new [OF a [unfolded Ok] refl] by blast
  qed (use assms a table_step_alloc(1) [OF a] in \<open>auto simp: shatter_block_def\<close>)
qed

lemma table_step_ensure:
  assumes blk: "\<And>e r' s1. on_block e s = (r', s1) \<Longrightarrow> table_step 1 s s1"
    and eq: "ensure_table (pt_track k) clean on_block t i s = (r, s')"
  shows "table_step 1 s s'"
proof -
  obtain r1 s1 where a: "alloc_table_page s = (r1, s1)" by (metis prod.exhaust)
  have tr: "table_step 1 s (pt_track k n (write_pte t i x s1))" if "r1 = Ok n" for n x
    using a that by (intro table_step_new [of s n s1 "write_pte t i x s1" _ k]) auto
  show ?thesis using eq a tr blk table_step_alloc(1) [OF a]
    by (auto simp: ensure_table_def Let_def table_step_phys split: res.splits if_splits)
qed

lemma table_step_map:
  assumes "pt_map_va k va pa fl s = (r, s')"
  shows "table_step 3 s s'"
proof -
  let ?c = "0x0000FFFFFFFFF003 :: u64" and ?a = "0x000F000000000FFF :: u64"
  let ?e0 = "\<lambda>s. ensure_table (pt_track k) ?c (\<lambda>e s. (Err NotAllowed, s)) (pt_l0_pa (tree k s)) (va_l0_index va) s"
  let ?e1 = "\<lambda>l1. ensure_table (pt_track k) ?c (shatter_l1_block (pt_track k) ?a ?c l1 (va_l1_index va)) l1 (va_l1_index va)"
  let ?e2 = "\<lambda>l2. ensure_table (pt_track k) ?c (shatter_l2_block (pt_track k) ?a ?c l2 (va_l2_index va)) l2 (va_l2_index va)"
  have e0: "?e0 s = (q, s1) \<Longrightarrow> table_step 1 s s1" for q s1
    by (erule table_step_ensure [rotated]) (simp add: table_step_phys)
  have e1: "?e1 l s1 = (q, s2) \<Longrightarrow> table_step 1 s1 s2" for q l s1 s2
    by (erule table_step_ensure [rotated]) (unfold shatter_l1_block_def, rule table_step_shatter)
  have e2: "?e2 l s1 = (q, s2) \<Longrightarrow> table_step 1 s1 s2" for q l s1 s2
    by (erule table_step_ensure [rotated]) (unfold shatter_l2_block_def, rule table_step_shatter)
  have c0: "?e0 s = (q, s1) \<Longrightarrow> table_step 3 s s1" for q s1
    by (rule table_step_more [OF e0]) simp_all
  have c1: "?e0 s = (q, s1) \<Longrightarrow> ?e1 l s1 = (q', s2) \<Longrightarrow> table_step 3 s s2" for q q' l s1 s2
    by (rule table_step_more [OF table_step_trans [OF e0 e1]]) simp_all
  have c2: "?e0 s = (q, s1) \<Longrightarrow> ?e1 l s1 = (q', s2) \<Longrightarrow> ?e2 l' s2 = (q'', s3) \<Longrightarrow> table_step 3 s s3" for q q' q'' l l' s1 s2 s3
    by (rule table_step_more [OF table_step_trans [OF table_step_trans [OF e0 e1] e2]]) simp_all
  have w: "table_step 3 s s3 \<Longrightarrow> table_step 3 s (write_pte t i x s3)" for t i x s3 by (simp add: table_step_def)
  show ?thesis using assms
    by (auto simp: pt_map_va_def map_steps_def table_step_phys split: if_splits prod.splits res.splits
      dest: c0 c1 c2 intro: w)
qed

section \<open>Objects that own their pages\<close>

text \<open>
  An object made by \<open>create_with_size\<close> owns what it maps: its slots and its list of committed pages agree and
  its frames are RAM. (The slots of a child slice name frames of the parent that its own list does not have.)
\<close>

definition vmo_owns :: "kmem \<Rightarrow> vmo \<Rightarrow> bool" where
  "vmo_owns w v \<longleftrightarrow> vmo_committed_pages v \<noteq> []
     \<and> (\<forall>i<page_count v. vmo_committed_pages v ! i = slot_get w v i)
     \<and> (\<forall>i<page_count v. \<forall>p. slot_get w v i = Some p \<longrightarrow> p < RAM_BASE + RAM_SIZE)"

definition vmo_ok :: "kmem \<Rightarrow> vmo \<Rightarrow> bool" where
  "vmo_ok w v \<longleftrightarrow> vmo_wf w v \<and> vmo_owns w v"

lemma vmo_ok_inv: "vmo_ok w v \<Longrightarrow> phys_inv (km_phys w)"
  by (simp add: vmo_ok_def vmo_wf_def)

lemma vmo_ok_frame:
  assumes "vmo_ok w v" "i < page_count v" "slot_get w v i = Some p"
  shows "4096 dvd p" "p < 2 ^ 48" "frame_settled (km_phys w) p"
proof -
  show st: "frame_settled (km_phys w) p" using assms unfolding vmo_ok_def vmo_wf_def by blast
  then show "4096 dvd p" by (simp add: frame_settled_def)
  have "p < RAM_BASE + RAM_SIZE" using assms unfolding vmo_ok_def vmo_owns_def by blast
  then show "p < 2 ^ 48" by (simp add: RAM_BASE_def RAM_SIZE_def)
qed

text \<open>What the loops keep of an object: its size, its bytes, and the frames it has.\<close>

definition vmo_kept :: "kmem \<Rightarrow> vmo \<Rightarrow> kmem \<Rightarrow> vmo \<Rightarrow> bool" where
  "vmo_kept w v w' v' \<longleftrightarrow> vmo_ok w' v' \<and> vmo_size v' = vmo_size v \<and> vmo_id v' = vmo_id v \<and> grows (km_phys w) (km_phys w')
     \<and> (\<forall>i<vmo_size v. vmo_byte w' v' i = vmo_byte w v i)
     \<and> (\<forall>i<page_count v. \<forall>p. slot_get w v i = Some p \<longrightarrow> slot_get w' v' i = Some p)"

lemma vmo_kept_refl: "vmo_ok w v \<Longrightarrow> vmo_kept w v w v"
  by (simp add: vmo_kept_def)

lemma vmo_kept_trans: "vmo_kept w v w1 v1 \<Longrightarrow> vmo_kept w1 v1 w2 v2 \<Longrightarrow> vmo_kept w v w2 v2"
  unfolding vmo_kept_def page_count_def by (auto intro: grows_trans)

lemma commit_page_kept:
  assumes ok: "vmo_ok w v" and off: "offset < vmo_size v" and eq: "commit_page offset v w = (r, v', w')"
  shows "vmo_kept w v w' v' \<and> takes 1 (km_phys w) (km_phys w')
    \<and> (r = Err NoMemory \<and> end_free_page (km_phys w) \<le> next_free_page (km_phys w)
       \<or> (\<exists>x. r = Ok x) \<and> slot_get w' v' (offset div 4096) \<noteq> None)"
proof -
  let ?k = "offset div PAGE_SIZE" and ?s = "km_phys w"
  have wf: "vmo_wf w v" and ow: "vmo_owns w v" and inv: "phys_inv ?s" using ok by (auto simp: vmo_ok_def vmo_wf_def)
  have k: "?k < page_count v" using wf off by (intro offset_page) (auto simp: vmo_wf_def)
  have len: "length (vmo_committed_pages v) = page_count v" using wf ow by (auto simp: vmo_wf_def vmo_owns_def)
  show ?thesis
  proof (cases "slot_get w v ?k")
    case (Some p)
    then have "(r, v', w') = (Ok None, v, w)"
      using eq off ow k len by (auto simp: commit_page_def Let_def vmo_owns_def)
    then show ?thesis using Some vmo_kept_refl [OF ok] takes_refl [OF inv] by (simp add: PAGE_SIZE_def)
  next
    case None
    have cn: "vmo_committed_pages v ! ?k = None" using ow k None by (simp add: vmo_owns_def)
    from commit_page_step [OF wf off None eq] show ?thesis
    proof (elim disjE exE conjE)
      fix e assume e: "r = Err e" "v' = v" "w' = w" "e = NoMemory"
      then have "end_free_page ?s \<le> next_free_page ?s"
        using eq off ow len k cn inv
        by (auto simp: commit_page_def Let_def vmo_owns_def alloc_vmo_data_def alloc_page_inv_eq split: if_splits)
      then show ?thesis using e vmo_kept_refl [OF ok] takes_refl [OF inv] by simp
    next
      fix e assume "vmo_committed_pages v = []"
      then show ?thesis using ow by (simp add: vmo_owns_def)
    next
      fix pa assume h: "r = Ok (Some pa)" "vmo_wf w' v'" "vmo_size v' = vmo_size v" "slot_get w' v' ?k = Some pa"
        "\<forall>i<page_count v. i \<noteq> ?k \<longrightarrow> slot_get w' v' i = slot_get w v i" "\<forall>i<vmo_size v. vmo_byte w' v' i = vmo_byte w v i"
      have room: "\<not> end_free_page ?s \<le> next_free_page ?s" and pa: "pa = next_free_page ?s"
        and v': "v' = v\<lparr>vmo_committed_pages := (vmo_committed_pages v)[?k := Some pa]\<rparr>"
        and w': "km_phys w' = take_page TagVmoData pa ?s"
        using eq h(1) off ow len k cn inv
        by (auto simp: commit_page_def Let_def vmo_owns_def alloc_vmo_data_def alloc_page_inv_eq slot_set_def split: if_splits)
      have t: "takes 1 ?s (km_phys w')"
        using takes_alloc(1) [OF inv, of TagVmoData] room by (simp add: alloc_page_inv_eq [OF inv] w' pa)
      then have g: "grows ?s (km_phys w')" by (simp add: takes_def)
      have pc: "page_count v' = page_count v" using h(3) by (simp add: page_count_def)
      have "vmo_owns w' v'"
        unfolding vmo_owns_def pc
      proof (intro conjI allI impI)
        show "vmo_committed_pages v' \<noteq> []" using ow by (simp add: v' vmo_owns_def)
        fix i assume i: "i < page_count v"
        then show "vmo_committed_pages v' ! i = slot_get w' v' i"
          using h(4,5) ow len by (cases "i = ?k") (auto simp: v' vmo_owns_def)
        fix p assume "slot_get w' v' i = Some p"
        then show "p < RAM_BASE + RAM_SIZE"
          using i h(4,5) ow inv room pa by (cases "i = ?k") (auto simp: vmo_owns_def phys_inv_def)
      qed
      then show ?thesis using h g t v' None by (auto simp: vmo_kept_def vmo_ok_def PAGE_SIZE_def)
    qed
  qed
qed

text \<open>A mapping takes frames for its tables only.\<close>

lemma vmo_kept_grows:
  assumes ok: "vmo_ok w v" and g: "grows (km_phys w) q" and inv: "phys_inv q"
  shows "vmo_kept w v (w\<lparr>km_phys := q\<rparr>) v"
proof -
  let ?w = "w\<lparr>km_phys := q\<rparr>"
  have sg: "slot_get ?w v i = slot_get w v i" "page_slot ?w v i = page_slot w v i" for i by (rule slot_get_frame; simp)+
  have "vmo_byte ?w v i = vmo_byte w v i" if "i < vmo_size v" for i
  proof -
    have "i div PAGE_SIZE < page_count v" using that ok by (intro offset_page) (auto simp: vmo_ok_def vmo_wf_def)
    then show ?thesis
      using grows_ram [OF g vmo_ok_frame(3) [OF ok]] by (auto simp: vmo_byte_def sg PAGE_SIZE_def split: option.splits)
  qed
  moreover have "vmo_wf ?w v" using ok g inv grows_settled [OF g]
    by (simp add: vmo_ok_def vmo_wf_def sg inj_on_def)
  moreover have "vmo_owns ?w v" using ok by (simp add: vmo_ok_def vmo_owns_def sg)
  ultimately show ?thesis using g by (simp add: vmo_kept_def vmo_ok_def sg)
qed

section \<open>The page loop\<close>

lemma kmem_at_simps [simp]: "kmem_at m (phys_back m p) = m" "km_phys (kmem_at m p) = pw_phys p"
  "kmem_at (m\<lparr>km_phys := q\<rparr>) p = kmem_at m p" "pw_phys (phys_back m p) = km_phys m" "pw_pte (phys_back m p) = pw_pte p"
  "pw_trees (phys_back m p) = pw_trees p"
  by (simp_all add: kmem_at_def phys_back_def)

lemma kmem_at_upd: "kmem_at m p = m\<lparr>km_phys := pw_phys p\<rparr>"
  by (simp add: kmem_at_def)

lemma pt_wf_grows:
  assumes "pt_wf k p" "grows (pw_phys p) (km_phys m)" "phys_inv (km_phys m)"
  shows "pt_wf k (phys_back m p)"
  using assms tree_wf_mono [of "pw_pte p"] by (auto simp: pt_wf_def root_wf_def grows_def)

lemma pt_translate_back [simp]: "pt_translate_va k a (phys_back m p) = pt_translate_va k a p"
  unfolding pt_translate_va_def by (simp add: translate_cong [of "phys_back m p" p])

lemma page_in_range:
  assumes al: "4096 dvd unat va" and top: "unat va + n * 4096 \<le> 2 ^ 48" and j: "j < n"
  shows "unat (va + word_of_nat (j * 4096) :: u64) = unat va + j * 4096"
    and "page_of (va + word_of_nat (j * 4096)) = unat va div 4096 + j"
proof -
  have jn: "Suc j * 4096 \<le> n * 4096" using j by (intro mult_le_mono1) simp
  then have u: "unat (word_of_nat (j * 4096) :: u64) = j * 4096"
    using top by (simp only: unat_of_nat) simp
  show a: "unat (va + word_of_nat (j * 4096) :: u64) = unat va + j * 4096"
    using top jn by (subst unat_add_no_wrap) (simp_all only: u, simp)
  have "(unat va + j * 4096) div 4096 = unat va div 4096 + j" using al by (auto elim!: dvdE)
  moreover have "unat va + j * 4096 < 2 ^ 48" using top jn by simp
  then have "(unat va + j * 4096) div 4096 < 2 ^ 36" by (simp add: less_mult_imp_div_less)
  ultimately show "page_of (va + word_of_nat (j * 4096)) = unat va div 4096 + j"
    by (simp only: page_of_def a) simp
qed

definition mapped_from :: "nat \<Rightarrow> nat \<Rightarrow> u64 \<Rightarrow> usize \<Rightarrow> kmem \<Rightarrow> vmo \<Rightarrow> ptw \<Rightarrow> nat \<Rightarrow> bool" where
  "mapped_from k i va off m v p n \<longleftrightarrow> (\<forall>j. i \<le> j \<and> j < n \<longrightarrow>
     (\<exists>q. slot_get m v (unat off div 4096 + j) = Some q
        \<and> (\<forall>a. page_of a = unat va div 4096 + j \<longrightarrow> pt_translate_va k a p = Some (q + unat a mod 4096))))"

lemma map_vmo_pages_spec:
  assumes "pt_wf k p" "vmo_ok (kmem_at m p) v" "unat off + N * 4096 \<le> vmo_size v" "i + n = N"
    and "4096 dvd unat off" "4096 dvd unat va" "vmo_size v < 2 ^ 64" "unat va + N * 4096 \<le> 2 ^ 48"
    and "map_vmo_pages n i k off va fl v m p = (r, v', m', p')"
  shows "pt_wf k p' \<and> same_roots p p' \<and> vmo_kept (kmem_at m p) v (kmem_at m' p') v' \<and> takes (4 * n) (pw_phys p) (pw_phys p')
    \<and> (r = Ok () \<or> r = Err NoMemory \<and> end_free_page (pw_phys p) < next_free_page (pw_phys p) + 4 * n * 4096)
    \<and> (\<forall>a. \<not> (unat va div 4096 + i \<le> page_of a \<and> page_of a < unat va div 4096 + N) \<longrightarrow> pt_translate_va k a p' = pt_translate_va k a p)
    \<and> (r = Ok () \<longrightarrow> mapped_from k i va off (kmem_at m' p') v' p' N)"
  using assms
proof (induction n arbitrary: i v m p)
  case 0
  then have "phys_inv (pw_phys p)" using vmo_ok_inv [of "kmem_at m p"] by simp
  with 0 show ?case by (auto simp: mapped_from_def vmo_kept_refl same_roots_trees takes_refl)
next
  case (Suc n)
  note hyps = Suc.prems
  let ?o = "unat (off + word_of_nat (i * 4096))" and ?va = "va + word_of_nat (i * 4096)"
  have i: "i < N" using hyps(4) by simp
  have iN: "Suc i * 4096 \<le> N * 4096" using i by (intro mult_le_mono1) simp
  have "unat (word_of_nat (i * 4096) :: u64) = i * 4096" using hyps(8) iN by (simp only: unat_of_nat) simp
  then have o: "?o = unat off + i * 4096" using hyps(3,7) iN by (subst unat_add_no_wrap) simp_all
  have off: "?o < vmo_size v" using o hyps(3) iN by simp
  have opg: "?o div 4096 = unat off div 4096 + i" unfolding o using hyps(5) by (auto elim!: dvdE)
  note va = page_in_range [OF hyps(6) hyps(8) i]
  obtain rc v1 m1 where c: "commit_page ?o v (kmem_at m p) = (rc, v1, m1)" by (metis prod.exhaust)
  note ck = commit_page_kept [OF hyps(2) off c]
  then have k1: "vmo_kept (kmem_at m p) v m1 v1" by blast
  then have ok1: "vmo_ok m1 v1" and sz1: "vmo_size v1 = vmo_size v" and g1: "grows (pw_phys p) (km_phys m1)"
    by (auto simp: vmo_kept_def)
  have t1: "takes 1 (pw_phys p) (km_phys m1)" using ck by simp
  let ?p1 = "phys_back m1 p"
  have wf1: "pt_wf k ?p1" by (rule pt_wf_grows [OF hyps(1) g1 vmo_ok_inv [OF ok1]])
  show ?case
  proof (cases "rc = Err NoMemory")
    case True
    have "takes (4 * Suc n) (pw_phys p) (km_phys m1)" using t1 by (auto simp: takes_def)
    moreover have "end_free_page (pw_phys p) \<le> next_free_page (pw_phys p)" using ck True by simp
    ultimately show ?thesis using True c hyps(9) k1 wf1 by (auto simp: Let_def same_roots_trees)
  next
    case False
    then obtain x pa where rc: "rc = Ok x" and pa: "slot_get m1 v1 (?o div 4096) = Some pa" using ck by auto
    have pg: "?o div 4096 < page_count v1"
      using off sz1 ok1 offset_page [of v1 ?o] by (simp add: vmo_ok_def vmo_wf_def PAGE_SIZE_def)
    note fr = vmo_ok_frame [OF ok1 pg pa]
    have pau: "unat (word_of_nat pa :: u64) = pa" using fr(2) by (simp add: unat_of_nat)
    have gp: "get_page_phys m1 v1 ?o = Some pa" using pa off sz1 by (simp add: get_page_phys_def PAGE_SIZE_def)
    obtain rm p2 where mp: "pt_map_va k ?va (word_of_nat pa) fl ?p1 = (rm, p2)" by (metis prod.exhaust)
    have vad: "4096 dvd unat ?va" using va(1) hyps(6) by simp
    note ms = pt_map_va_spec [OF wf1 vad _ _ mp, unfolded pau va(2), OF fr(1,2)]
    then have wf2: "pt_wf k p2" and sr: "same_roots ?p1 p2"
      and rm: "rm = Ok () \<or> rm = Err NoMemory \<and> end_free_page (km_phys m1) \<le> next_free_page (km_phys m1) + 2 * 4096"
      and tr: "\<And>a. pt_translate_va k a p2 = (if rm = Ok () \<and> page_of a = unat va div 4096 + i then Some (pa + unat a mod 4096) else pt_translate_va k a p)"
      by auto
    have inv1: "phys_inv (pw_phys ?p1)" using vmo_ok_inv [OF ok1] by simp
    have t2: "takes 3 (km_phys m1) (pw_phys p2)" using table_step_map [OF mp] inv1 by (simp add: table_step_def)
    then have inv2: "phys_inv (pw_phys p2)" and g2: "grows (km_phys m1) (pw_phys p2)" by (simp_all add: takes_def)
    have t12: "takes 4 (pw_phys p) (pw_phys p2)" using takes_trans [OF t1 t2] by simp
    have k2: "vmo_kept m1 v1 (kmem_at m1 p2) v1"
      using vmo_kept_grows [OF ok1 g2 inv2] by (simp add: kmem_at_upd)
    note k12 = vmo_kept_trans [OF k1 k2]
    have sr1: "same_roots p p2" using sr by (simp add: same_roots_def)
    show ?thesis
    proof (cases "rm = Ok ()")
      case False
      then have e: "rm = Err NoMemory" using rm by simp
      have r: "r = Err NoMemory" "v' = v1" "m' = m1" "p' = p2" using hyps(9) c rc gp mp e by (simp_all add: Let_def)
      have "takes (4 * Suc n) (pw_phys p) (pw_phys p2)" using t12 by (auto simp: takes_def)
      moreover have "end_free_page (pw_phys p) < next_free_page (pw_phys p) + 4 * Suc n * 4096"
        using rm e t1 by (auto simp: takes_def)
      ultimately show ?thesis using r k12 wf2 sr1 tr e by auto
    next
      case True
      have rest: "map_vmo_pages n (Suc i) k off va fl v1 m1 p2 = (r, v', m', p')"
        using hyps(9) c rc gp mp True by (simp add: Let_def)
      have ok2: "vmo_ok (kmem_at m1 p2) v1" using k2 by (simp add: vmo_kept_def)
      have "unat off + N * 4096 \<le> vmo_size v1" "Suc i + n = N" "vmo_size v1 < 2 ^ 64" using hyps sz1 by simp_all
      note IH = Suc.IH [OF wf2 ok2 this(1,2) hyps(5,6) this(3) hyps(8) rest]
      then have kk: "vmo_kept (kmem_at m1 p2) v1 (kmem_at m' p') v'" by blast
      have kall: "vmo_kept (kmem_at m p) v (kmem_at m' p') v'" by (rule vmo_kept_trans [OF k12 kk])
      have sl: "slot_get (kmem_at m1 p2) v1 (unat off div 4096 + i) = Some pa"
        using pa opg slot_get_frame(1) [of "kmem_at m1 p2" m1 v1 v1] by (simp add: kmem_at_upd)
      then have sl': "slot_get (kmem_at m' p') v' (unat off div 4096 + i) = Some pa"
        using kk pg opg by (auto simp: vmo_kept_def)
      have this_page: "pt_translate_va k a p' = Some (pa + unat a mod 4096)" if "page_of a = unat va div 4096 + i" for a
        using IH that tr [of a] True by auto
      have "mapped_from k i va off (kmem_at m' p') v' p' N" if "r = Ok ()"
        unfolding mapped_from_def
      proof (intro allI impI)
        fix j assume j: "i \<le> j \<and> j < N"
        show "\<exists>q. slot_get (kmem_at m' p') v' (unat off div 4096 + j) = Some q \<and>
            (\<forall>a. page_of a = unat va div 4096 + j \<longrightarrow> pt_translate_va k a p' = Some (q + unat a mod 4096))"
        proof (cases "j = i")
          case True
          then show ?thesis using sl' this_page by blast
        next
          case False
          then show ?thesis using IH that j unfolding mapped_from_def by (metis le_neq_implies_less Suc_leI)
        qed
      qed
      moreover have "pt_translate_va k a p' = pt_translate_va k a p"
        if "\<not> (unat va div 4096 + i \<le> page_of a \<and> page_of a < unat va div 4096 + N)" for a
        using IH tr [of a] that i by auto
      moreover have "takes (4 * Suc n) (pw_phys p) (pw_phys p')"
        using takes_trans [OF t12, of "4 * n"] IH by simp
      moreover have "r = Ok () \<or> r = Err NoMemory \<and> end_free_page (pw_phys p) < next_free_page (pw_phys p) + 4 * Suc n * 4096"
        using IH t12 by (auto simp: takes_def)
      ultimately show ?thesis using IH kall same_roots_trans [OF sr1] by blast
    qed
  qed
qed

section \<open>Mapped memory is the object\<close>

lemma page_split: "4096 dvd (x :: nat) \<Longrightarrow> (x + b) div 4096 = x div 4096 + b div 4096 \<and> (x + b) mod 4096 = b mod 4096"
  by (auto elim!: dvdE)

lemma mapped_byte:
  assumes mp: "mapped_from k 0 va off w v p n" and al: "4096 dvd unat off" "4096 dvd unat va"
    and top: "unat va + n * 4096 \<le> 2 ^ 48" and b: "b < n * 4096"
  obtains q where "slot_get w v ((unat off + b) div 4096) = Some q"
    "pt_translate_va k (va + word_of_nat b) p = Some (q + (unat off + b) mod 4096)"
proof -
  have u: "unat (va + word_of_nat b) = unat va + b" using unat_range [of b "n * 4096" va] b top by simp
  have "(unat va + b) div 4096 < 2 ^ 36" using b top by (simp add: less_mult_imp_div_less)
  then have "page_of (va + word_of_nat b) = unat va div 4096 + b div 4096"
    using page_split [OF al(2), of b] by (simp add: page_of_def u)
  moreover have "b div 4096 < n" using b by (simp add: less_mult_imp_div_less)
  ultimately show ?thesis
    using mp that page_split [OF al(1), of b] page_split [OF al(2), of b] by (fastforce simp: mapped_from_def u)
qed

definition bytes_from :: "kmem \<Rightarrow> vmo \<Rightarrow> nat \<Rightarrow> nat \<Rightarrow> u8 list" where
  "bytes_from w v off n = take n (drop off (vmo_contents w v))"

lemma user_reads_vmo:
  assumes mp: "mapped_from k 0 va off (kmem_at m p) v p n" and al: "4096 dvd unat off" "4096 dvd unat va"
    and top: "unat va + n * 4096 \<le> 2 ^ 48" and sz: "unat off + n * 4096 \<le> vmo_size v"
    and l0: "pt_has_root (tree k p)" "pt_l0_pa (tree k p) \<noteq> 0"
  shows "safe_copy_from_user (pt_l0_pa (tree k p)) va (n * 4096) p = Ok (bytes_from (kmem_at m p) v (unat off) (n * 4096))"
proof -
  let ?tr = "\<lambda>a. translate_user_va (pt_l0_pa (tree k p)) a p" and ?b = "\<lambda>b. ram (pw_phys p) (the (pt_translate_va k (va + word_of_nat b) p))"
  have tr: "?tr a = pt_translate_va k a p" for a using l0(1) by (simp add: pt_translate_va_def)
  have byte: "vmo_byte (kmem_at m p) v (unat off + b) = ?b b" if "b < n * 4096" for b
    by (rule mapped_byte [OF mp al top that]) (simp add: vmo_byte_def PAGE_SIZE_def)
  have "range_mapped ?tr va (n * 4096)"
    unfolding range_mapped_def tr using mapped_byte [OF mp al top] by blast
  moreover have "load_at ?tr va (n * 4096) (ram (pw_phys p)) = bytes_from (kmem_at m p) v (unat off) (n * 4096)"
    unfolding load_at_def tr bytes_from_def vmo_contents_def
    using sz byte by (intro nth_equalityI) (simp_all add: nth_append)
  ultimately show ?thesis using l0(2) by (simp add: safe_copy_from_user_def user_space.copy_from_loop_bytes)
qed

lemma user_writes_vmo:
  assumes mp: "mapped_from k 0 va off (kmem_at m p) v p n" and al: "4096 dvd unat off" "4096 dvd unat va"
    and top: "unat va + n * 4096 \<le> 2 ^ 48" and sz: "unat off + n * 4096 \<le> vmo_size v"
    and l0: "pt_has_root (tree k p)" "pt_l0_pa (tree k p) \<noteq> 0" and ok: "vmo_ok (kmem_at m p) v" and len: "length bs \<le> n * 4096"
    and eq: "safe_copy_to_user (pt_l0_pa (tree k p)) bs va p = (r, p')"
  shows "r = Ok () \<and> vmo_contents (kmem_at m p') v = splice (unat off) bs (vmo_contents (kmem_at m p) v)"
proof -
  let ?tr = "\<lambda>a. translate_user_va (pt_l0_pa (tree k p)) a p"
  have tr: "?tr a = pt_translate_va k a p" for a using l0(1) by (simp add: pt_translate_va_def)
  have rm: "range_mapped ?tr va (length bs)"
    unfolding range_mapped_def tr
  proof (intro allI impI)
    fix i assume "i < length bs"
    then have "i < n * 4096" using len by simp
    then show "pt_translate_va k (va + word_of_nat i) p \<noteq> None" by (rule mapped_byte [OF mp al top]) simp
  qed
  then have r: "r = Ok ()" and eq': "safe_copy_to_user (pt_l0_pa (tree k p)) bs va p = (Ok (), p')"
    using eq l0(2) by (auto simp: safe_copy_to_user_def user_space.copy_to_loop_bytes Let_def)
  have pc: "x div 4096 < page_count v" if "x < vmo_size v" for x
    using that ok offset_page [of v x] by (simp add: vmo_ok_def vmo_wf_def PAGE_SIZE_def)
  have loc: "\<exists>q. slot_get (kmem_at m p) v ((unat off + i) div 4096) = Some q \<and> ?tr (va + word_of_nat i) = Some (q + (unat off + i) mod 4096)"
    if "i < length bs" for i
  proof -
    have "i < n * 4096" using that len by simp
    from mapped_byte [OF mp al top this] show ?thesis unfolding tr by metis
  qed
  have disj: "x = y" if x: "x < vmo_size v" and y: "y < vmo_size v" and s: "slot_get (kmem_at m p) v (x div 4096) = Some q"
      "slot_get (kmem_at m p) v (y div 4096) = Some q'" and e: "q + x mod 4096 = q' + y mod 4096" for x y q q'
  proof -
    have "4096 dvd q" "4096 dvd q'" using vmo_ok_frame(1) [OF ok pc [OF x] s(1)] vmo_ok_frame(1) [OF ok pc [OF y] s(2)] .
    then have "q = q'" "x mod 4096 = y mod 4096" using e page_split [of q "x mod 4096"] page_split [of q' "y mod 4096"] by auto
    then have "x div 4096 = y div 4096" using s ok pc [OF x] pc [OF y] unfolding vmo_ok_def vmo_wf_def by blast
    then show ?thesis using \<open>x mod 4096 = y mod 4096\<close> by (metis mod_mult_div_eq)
  qed
  have inj: "\<forall>i<length bs. \<forall>j<length bs. ?tr (va + word_of_nat i) = ?tr (va + word_of_nat j) \<longrightarrow> i = j"
  proof (intro allI impI)
    fix i j assume ij: "i < length bs" "j < length bs" "?tr (va + word_of_nat i) = ?tr (va + word_of_nat j)"
    obtain q where q: "slot_get (kmem_at m p) v ((unat off + i) div 4096) = Some q" "?tr (va + word_of_nat i) = Some (q + (unat off + i) mod 4096)"
      using loc [OF ij(1)] by blast
    obtain q' where q': "slot_get (kmem_at m p) v ((unat off + j) div 4096) = Some q'" "?tr (va + word_of_nat j) = Some (q' + (unat off + j) mod 4096)"
      using loc [OF ij(2)] by blast
    have "unat off + i < vmo_size v" "unat off + j < vmo_size v" using ij sz len by simp_all
    from disj [OF this q(1) q'(1)] have "unat off + i = unat off + j" using q(2) q'(2) ij(3) by simp
    then show "i = j" by simp
  qed
  note rt = user_copy_roundtrip [OF eq' inj]
  have trees: "pw_trees p' = pw_trees p" using eq' l0(2) by (auto simp: safe_copy_to_user_def split: prod.splits)
  have sg: "slot_get (kmem_at m p') v x = slot_get (kmem_at m p) v x" for x by (rule slot_get_frame) (simp_all add: kmem_at_def)
  have tr': "translate_user_va (pt_l0_pa (tree k p)) a p' = ?tr a" for a using rt by (intro translate_cong) simp
  have "range_mapped (\<lambda>a. translate_user_va (pt_l0_pa (tree k p)) a p') va (length bs)" using rm tr' by simp
  then have ld: "load_at ?tr va (length bs) (ram (pw_phys p')) = bs"
    using rt l0(2) tr' by (simp add: safe_copy_from_user_def user_space.copy_from_loop_bytes)
  have byte: "vmo_byte (kmem_at m p') v x = (if unat off \<le> x \<and> x < unat off + length bs then bs ! (x - unat off) else vmo_byte (kmem_at m p) v x)"
    if x: "x < vmo_size v" for x
  proof (cases "unat off \<le> x \<and> x < unat off + length bs")
    case True
    then have i: "x - unat off < length bs" by linarith
    have "ram (pw_phys p') (the (?tr (va + word_of_nat (x - unat off)))) = bs ! (x - unat off)"
      using arg_cong [OF ld, of "\<lambda>l. l ! (x - unat off)"] i by (simp add: load_at_def)
    then show ?thesis using loc [OF i] True by (auto simp: vmo_byte_def sg PAGE_SIZE_def)
  next
    case False
    have "ram (pw_phys p') (q + x mod 4096) = ram (pw_phys p) (q + x mod 4096)" if q: "slot_get (kmem_at m p) v (x div 4096) = Some q" for q
    proof -
      have "?tr (va + word_of_nat i) \<noteq> Some (q + x mod 4096)" if i: "i < length bs" for i
      proof
        assume e: "?tr (va + word_of_nat i) = Some (q + x mod 4096)"
        obtain q' where q': "slot_get (kmem_at m p) v ((unat off + i) div 4096) = Some q'" "?tr (va + word_of_nat i) = Some (q' + (unat off + i) mod 4096)"
          using loc [OF i] by blast
        have "unat off + i < vmo_size v" using i sz len by simp
        from disj [OF x this q q'(1)] have "x = unat off + i" using q'(2) e by simp
        then show False using False i by simp
      qed
      then show ?thesis using rt by blast
    qed
    then show ?thesis using False by (auto simp: vmo_byte_def sg PAGE_SIZE_def split: option.splits)
  qed
  have "vmo_contents (kmem_at m p') v = splice (unat off) bs (vmo_contents (kmem_at m p) v)"
    using byte by (intro nth_equalityI) (simp_all add: vmo_contents_def nth_splice)
  then show ?thesis using r by simp
qed

section \<open>The mapping calls\<close>

definition live_proc :: "nat \<Rightarrow> mstate \<Rightarrow> bool" where
  "live_proc c s \<longleftrightarrow> c < length (ps_procs (ms_ps s)) \<and> ps_procs (ms_ps s) ! c \<noteq> None"

lemma table_of_set_table [simp]: "live_proc c s \<Longrightarrow> table_of c (set_table c t s) = t"
  by (auto simp: live_proc_def set_table_def upd_proc_def)

lemma set_table_frame [simp]: "ps_pt (ms_ps (set_table c t s)) = ps_pt (ms_ps s)" "ms_meta (set_table c t s) = ms_meta s"
  "ms_kmem (set_table c t s) = ms_kmem s" "length (ps_procs (ms_ps (set_table c t s))) = length (ps_procs (ms_ps s))"
  by (simp_all add: set_table_def upd_proc_def ms_kmem_def)

lemma use_vmo_handle:
  assumes wf: "ht_wf (table_of c s)" and h: "ht_lookup (table_of c s) h = Some (rt, KVmo v)" "rights_contains rt req"
    and f: "f v s = (r, v', s1)" and live: "live_proc c s1"
    and eq: "use_vmo c h req f s = (q, s')"
  shows "q = r" "ht_lookup (table_of c s') = (ht_lookup (table_of c s))(h \<mapsto> (rt, KVmo v'))" "ht_wf (table_of c s')"
    "ps_pt (ms_ps s') = ps_pt (ms_ps s1)" "ms_meta s' = ms_meta s1" "ms_kmem s' = ms_kmem s1"
proof -
  obtain x t s2 where w: "with_vmo h req f (table_of c s) s = (x, t, s2)" by (metis prod_cases3)
  from ht_with_lookup [OF wf w [unfolded with_vmo_def]] h f have
    x: "x = Ok r" "s2 = s1" "ht_wf t" "ht_lookup t = (ht_lookup (table_of c s))(h \<mapsto> (rt, KVmo v'))"
    by auto
  have "q = r" "s' = set_table c t s1" using eq w x(1,2) by (simp_all add: use_vmo_def)
  then show "q = r" "ht_lookup (table_of c s') = (ht_lookup (table_of c s))(h \<mapsto> (rt, KVmo v'))" "ht_wf (table_of c s')"
    "ps_pt (ms_ps s') = ps_pt (ms_ps s1)" "ms_meta s' = ms_meta s1" "ms_kmem s' = ms_kmem s1"
    using x live by simp_all
qed

text \<open>A request that the address region accepts.\<close>

definition fits_region :: "u64 \<Rightarrow> usize \<Rightarrow> vmar \<Rightarrow> bool" where
  "fits_region va sz r \<longleftrightarrow> sz \<noteq> 0 \<and> vmar_base r \<le> va \<and> va + sz \<le> vmar_base r + vmar_size r \<and> length (vmar_mappings r) < MAX_MAPPINGS"

definition map_ok :: "nat \<Rightarrow> usize \<Rightarrow> u64 \<Rightarrow> usize \<Rightarrow> vmo \<Rightarrow> mstate \<Rightarrow> bool" where
  "map_ok k off va sz v s \<longleftrightarrow> pt_wf k (ps_pt (ms_ps s)) \<and> vmo_ok (ms_kmem s) v \<and> vmo_size v < 2 ^ 64
     \<and> 4096 dvd unat off \<and> 4096 dvd unat va \<and> 4096 dvd unat sz \<and> unat off + unat sz \<le> vmo_size v \<and> unat va + unat sz \<le> 2 ^ 48
     \<and> fits_region va sz (pr_root_vmar (proc k (ms_ps s)))"

lemma map_vmo_spec:
  assumes ok: "map_ok k off va sz v s" and eq: "map_vmo k off va sz flags v s = (r, v', s')"
  shows "(r = Ok sz \<or> r = Err NoMemory \<and> end_free_page (km_phys (ms_kmem s)) < next_free_page (km_phys (ms_kmem s)) + 4 * unat sz)
    \<and> pt_wf k (ps_pt (ms_ps s')) \<and> same_roots (ps_pt (ms_ps s)) (ps_pt (ms_ps s'))
    \<and> vmo_kept (ms_kmem s) v (ms_kmem s') v' \<and> length (ps_procs (ms_ps s')) = length (ps_procs (ms_ps s))
    \<and> (\<forall>c. live_proc c s \<longrightarrow> live_proc c s' \<and> table_of c s' = table_of c s)
    \<and> (\<forall>a. \<not> (unat va div 4096 \<le> page_of a \<and> page_of a < unat va div 4096 + unat sz div 4096)
         \<longrightarrow> pt_translate_va k a (ps_pt (ms_ps s')) = pt_translate_va k a (ps_pt (ms_ps s)))
    \<and> (r = Ok sz \<longrightarrow> mapped_from k 0 va off (ms_kmem s') v' (ps_pt (ms_ps s')) (unat sz div 4096))"
proof -
  note ok' = ok [unfolded map_ok_def fits_region_def]
  obtain vm where rv: "reserve_mapping (vmo_id v) off va sz flags (pr_root_vmar (proc k (ms_ps s))) = (Ok (), vm)"
    using ok' by (auto simp: reserve_mapping_def page_aligned_iff not_le [symmetric] simp del: not_le)
  let ?s1 = "s\<lparr>ms_ps := upd_proc k (\<lambda>p. p\<lparr>pr_root_vmar := vm\<rparr>) (ms_ps s)\<rparr>" and ?n = "unat sz div 4096"
  have pt1: "ps_pt (ms_ps ?s1) = ps_pt (ms_ps s)" by (simp add: upd_proc_def)
  obtain q v1 m p where mp: "map_vmo_pages ?n 0 k off va (arch_flags flags) v (ms_meta s) (ps_pt (ms_ps s)) = (q, v1, m, p)"
    by (metis prod_cases4)
  have r: "r = res_map (\<lambda>_. sz) q" and v1: "v' = v1" and s': "s' = ?s1\<lparr>ms_meta := m, ms_ps := (ms_ps ?s1)\<lparr>ps_pt := p\<rparr>\<rparr>"
    using eq rv mp pt1 by (simp_all add: map_vmo_def Let_def)
  have nn: "?n * 4096 = unat sz" using ok' by (simp add: dvd_div_mult_self)
  have "pt_wf k (ps_pt (ms_ps s))" "vmo_ok (kmem_at (ms_meta s) (ps_pt (ms_ps s))) v" "unat off + ?n * 4096 \<le> vmo_size v" "0 + ?n = ?n"
    "4096 dvd unat off" "4096 dvd unat va" "vmo_size v < 2 ^ 64" "unat va + ?n * 4096 \<le> 2 ^ 48"
    unfolding nn using ok' by (simp_all add: ms_kmem_def)
  note sp = map_vmo_pages_spec [OF this mp]
  have f: "ps_pt (ms_ps s') = p" "ms_kmem s' = kmem_at m p" "ms_kmem s = kmem_at (ms_meta s) (ps_pt (ms_ps s))"
    by (simp_all add: s' ms_kmem_def)
  have lp: "live_proc c s \<longrightarrow> live_proc c s' \<and> table_of c s' = table_of c s" for c
    by (cases "c = k") (auto simp: s' live_proc_def upd_proc_def)
  have len: "length (ps_procs (ms_ps s')) = length (ps_procs (ms_ps s))" by (simp add: s' upd_proc_def)
  have "q = Ok () \<or> q = Err NoMemory \<and> end_free_page (km_phys (ms_kmem s)) < next_free_page (km_phys (ms_kmem s)) + 4 * (?n * 4096)"
    using sp f by simp
  then have rr: "r = Ok sz \<longrightarrow> q = Ok ()"
    "r = Ok sz \<or> r = Err NoMemory \<and> end_free_page (km_phys (ms_kmem s)) < next_free_page (km_phys (ms_kmem s)) + 4 * unat sz"
    unfolding nn using r by auto
  show ?thesis unfolding v1 using sp rr lp len f by auto
qed

text \<open>
  C6. Mapped memory is the object. When a program maps the pages of a memory object it holds a readable
  handle to into its own address space, the call succeeds, or fewer than four free frames per page were left
  and it reports that. The object keeps its contents and its place in the handle table; after a success a copy from the mapped range in user space
  returns the bytes of the object, a copy to the range changes the object as a write to it would, and every
  address outside the range translates as before.
\<close>

theorem mapped_memory_is_the_object:
  assumes caller: "caller_slot NotFound (ms_ps s) = Ok (pid, k)" and l0: "l0_pa_of k (ms_ps s) \<noteq> 0"
    and tab: "live_proc c s" "ht_wf (table_of c s)" "ht_lookup (table_of c s) h = Some (rt, KVmo v)" "rights_contains rt RIGHT_READ"
    and va: "va = vmar_base (pr_root_vmar (proc k (ms_ps s))) + vaddr" and ok: "map_ok k 0 va sz v s" "user flags"
    and eq: "sys_vmar_map_self c h vaddr sz flags s = (r, s')"
  shows "(r = Ok sz \<or> r = Err NoMemory \<and> end_free_page (km_phys (ms_kmem s)) < next_free_page (km_phys (ms_kmem s)) + 4 * unat sz)
    \<and> (\<exists>v'. ht_lookup (table_of c s') = (ht_lookup (table_of c s))(h \<mapsto> (rt, KVmo v'))
    \<and> vmo_contents (ms_kmem s') v' = vmo_contents (ms_kmem s) v
    \<and> (\<forall>a. \<not> (unat va \<le> unat a \<and> unat a < unat va + unat sz) \<and> unat a < 2 ^ 48
         \<longrightarrow> pt_translate_va k a (ps_pt (ms_ps s')) = pt_translate_va k a (ps_pt (ms_ps s)))
    \<and> (r = Ok sz \<longrightarrow>
         safe_copy_from_user (l0_pa_of k (ms_ps s')) va (unat sz) (ps_pt (ms_ps s')) = Ok (take (unat sz) (vmo_contents (ms_kmem s) v))
         \<and> (\<forall>bs q p. length bs \<le> unat sz \<and> safe_copy_to_user (l0_pa_of k (ms_ps s')) bs va (ps_pt (ms_ps s')) = (q, p)
              \<longrightarrow> q = Ok () \<and> vmo_contents (kmem_at (ms_meta s') p) v' = splice 0 bs (vmo_contents (ms_kmem s) v))))"
proof -
  have use: "use_vmo c h RIGHT_READ (map_vmo k 0 va sz flags) s = (r, s')"
    using eq caller ok(2) va by (simp add: sys_vmar_map_self_def)
  obtain r1 v' s1 where mv: "map_vmo k 0 va sz flags v s = (r1, v', s1)" by (metis prod_cases3)
  note sp = map_vmo_spec [OF ok(1) mv]
  have live: "live_proc c s1" and t1: "table_of c s1 = table_of c s" using sp tab(1) by auto
  note u = use_vmo_handle [OF tab(2-4) mv live use]
  note ok' = ok(1) [unfolded map_ok_def]
  have nn: "unat sz div 4096 * 4096 = unat sz" using ok' by simp
  have kept: "vmo_kept (ms_kmem s) v (ms_kmem s') v'" using sp u(6) by simp
  then have sz: "vmo_size v' = vmo_size v" and vok: "vmo_ok (ms_kmem s') v'" and
    con: "vmo_contents (ms_kmem s') v' = vmo_contents (ms_kmem s) v"
    by (auto simp: vmo_kept_def vmo_contents_def)
  have km: "ms_kmem s' = kmem_at (ms_meta s') (ps_pt (ms_ps s'))" by (simp add: ms_kmem_def)
  have rt: "pt_has_root (tree k (ps_pt (ms_ps s')))" "pt_l0_pa (tree k (ps_pt (ms_ps s'))) \<noteq> 0"
    using sp u(4) l0 by (auto simp: pt_wf_def same_roots_def)
  have out: "pt_translate_va k a (ps_pt (ms_ps s')) = pt_translate_va k a (ps_pt (ms_ps s))"
    if "\<not> (unat va \<le> unat a \<and> unat a < unat va + unat sz)" "unat a < 2 ^ 48" for a
  proof -
    have pg: "page_of a = unat a div 4096" using that(2) by (simp add: page_of_def less_mult_imp_div_less)
    have "(unat va + unat sz) div 4096 = unat va div 4096 + unat sz div 4096" using ok' page_split by blast
    then have "\<not> (unat va div 4096 \<le> page_of a \<and> page_of a < unat va div 4096 + unat sz div 4096)"
      using that(1) ok' unfolding pg by (auto elim!: dvdE)
    then show ?thesis using sp u(4) by simp
  qed
  have acc: "safe_copy_from_user (l0_pa_of k (ms_ps s')) va (unat sz) (ps_pt (ms_ps s')) = Ok (take (unat sz) (vmo_contents (ms_kmem s) v))
      \<and> (\<forall>bs q p. length bs \<le> unat sz \<and> safe_copy_to_user (l0_pa_of k (ms_ps s')) bs va (ps_pt (ms_ps s')) = (q, p)
           \<longrightarrow> q = Ok () \<and> vmo_contents (kmem_at (ms_meta s') p) v' = splice 0 bs (vmo_contents (ms_kmem s) v))" if "r = Ok sz"
  proof -
    have mf: "mapped_from k 0 va 0 (kmem_at (ms_meta s') (ps_pt (ms_ps s'))) v' (ps_pt (ms_ps s')) (unat sz div 4096)"
      using sp that u km by simp
    have b: "4096 dvd unat (0 :: u64)" "4096 dvd unat va" "unat va + unat sz div 4096 * 4096 \<le> 2 ^ 48"
      "unat (0 :: u64) + unat sz div 4096 * 4096 \<le> vmo_size v'"
      unfolding nn using ok' sz by simp_all
    have vk: "vmo_ok (kmem_at (ms_meta s') (ps_pt (ms_ps s'))) v'" using vok km by simp
    note rd = user_reads_vmo [OF mf b rt, unfolded nn, folded km] and wr = user_writes_vmo [OF mf b rt vk, unfolded nn, folded km]
    have "safe_copy_from_user (l0_pa_of k (ms_ps s')) va (unat sz) (ps_pt (ms_ps s')) = Ok (take (unat sz) (vmo_contents (ms_kmem s) v))"
      using rd by (simp add: bytes_from_def con)
    moreover have "q = Ok () \<and> vmo_contents (kmem_at (ms_meta s') p) v' = splice 0 bs (vmo_contents (ms_kmem s) v)"
      if "length bs \<le> unat sz" "safe_copy_to_user (l0_pa_of k (ms_ps s')) bs va (ps_pt (ms_ps s')) = (q, p)" for bs q p
      using wr [OF that] by (simp add: con)
    ultimately show ?thesis by blast
  qed
  show ?thesis using sp u con out acc by blast
qed

section \<open>Witnesses\<close>

text \<open>A program that holds a handle to a fresh object of two pages.\<close>

definition demo_vmo :: vmo where
  "demo_vmo = \<lparr>vmo_id = 1, vmo_meta_page = 0x40080000, vmo_size = 8192, vmo_is_cow = False, vmo_parent_id = None,
     vmo_extra_meta_pages = replicate 8 None, vmo_committed_pages = replicate 2 None\<rparr>"

definition demo_mem :: kmem where
  "demo_mem = snd (create_with_size 5000 demo_kmem)"

definition demo_owner :: process where
  "demo_owner = proc_new_dummy\<lparr>pr_id := 1, pr_root_vmar := vmar_new_dummy\<lparr>vmar_size := 0x10000000\<rparr>,
     pr_handle_table := Some \<lparr>hs_value = 5, hs_rights = 3, hs_object = KVmo demo_vmo\<rparr> # replicate 11 None\<rparr>"

definition demo_ms :: mstate where
  "demo_ms = \<lparr>ms_ps = demo_pstate\<lparr>ps_procs := [Some demo_owner], ps_pt := demo_ptw\<lparr>pw_phys := km_phys demo_mem\<rparr>\<rparr>, ms_meta = demo_mem\<rparr>"

lemma demo_mem_create: "create_with_size 5000 demo_kmem = (Ok demo_vmo, demo_mem)"
  using demo_create by (metis demo_mem_def demo_vmo_def prod.collapse)

lemma vmo_ok_created:
  assumes "phys_inv (km_phys w)" "create_with_size sz w = (Ok v, w')" "0 < pages_for sz"
  shows "vmo_ok w' v"
  using create_with_size_wf [OF assms(1,2)] create_with_size_OkD [OF assms(2)] assms(3)
  by (auto simp: vmo_ok_def vmo_owns_def page_count_def PAGE_SIZE_def)

lemma demo_mem_phys: "km_phys demo_mem = take_page TagVmoData 0x40080000 demo_phys"
  by (simp only: demo_mem_def demo_create_phys)

lemma demo_mem_ok: "vmo_ok demo_mem demo_vmo" "phys_inv (km_phys demo_mem)" "grows demo_phys (km_phys demo_mem)"
proof -
  have inv: "phys_inv (km_phys demo_kmem)" by (simp add: demo_kmem_def demo_phys_inv)
  show ok: "vmo_ok demo_mem demo_vmo" by (rule vmo_ok_created [OF inv demo_mem_create]) (simp add: demo_pages)
  then show "phys_inv (km_phys demo_mem)" by (rule vmo_ok_inv)
  show "grows demo_phys (km_phys demo_mem)"
    using grows_alloc [OF demo_phys_inv demo_alloc [of TagVmoData]] by (simp add: demo_mem_phys)
qed

lemma demo_ms_kmem: "ms_kmem demo_ms = demo_mem"
  by (simp add: ms_kmem_def demo_ms_def kmem_at_def)

lemma demo_ms_wf: "pt_wf 0 (ps_pt (ms_ps demo_ms))"
  using pt_wf_grows [OF demo_pt_wf, of demo_mem] demo_mem_ok by (simp add: demo_ms_def phys_back_def demo_ptw_def)

lemma demo_ms_table: "ht_wf (table_of 0 demo_ms)" "ht_lookup (table_of 0 demo_ms) 5 = Some (3, KVmo demo_vmo)"
  by (simp_all add: demo_ms_def demo_owner_def ht_wf_def ht_lookup_def slot_map_def find_slot_def distinct_keys_def MAX_HANDLES_def)

lemma demo_slot_caller: "caller_slot NotFound (ms_ps demo_ms) = Ok (1, 0)"
  by (simp add: caller_slot_def current_process_id_def current_thread_def get_current_thread_def demo_ms_def demo_pstate_def
      demo_caller_def find_process_mut_def find_slot_def demo_owner_def)

theorem mapped_memory_is_the_object_witness:
  "\<exists>s' v'. sys_vmar_map_self 0 5 0x400000 0x2000 0xB demo_ms = (Ok 0x2000, s')
     \<and> ht_lookup (table_of 0 s') 5 = Some (3, KVmo v')
     \<and> safe_copy_from_user 0x40000000 0x400000 0x2000 (ps_pt (ms_ps s')) = Ok (vmo_contents demo_mem demo_vmo)"
proof -
  obtain r s' where eq: "sys_vmar_map_self 0 5 0x400000 0x2000 0xB demo_ms = (r, s')" by (metis prod.exhaust)
  have base: "pr_root_vmar (proc 0 (ms_ps demo_ms)) = vmar_new_dummy\<lparr>vmar_size := 0x10000000\<rparr>" by (simp add: demo_ms_def demo_owner_def)
  have va: "0x400000 = vmar_base (pr_root_vmar (proc 0 (ms_ps demo_ms))) + 0x400000" by (simp add: base vmar_new_dummy_def)
  have mo: "map_ok 0 0 0x400000 0x2000 demo_vmo demo_ms"
    unfolding map_ok_def fits_region_def base using demo_ms_wf demo_mem_ok(1)
    by (simp add: demo_ms_kmem demo_vmo_def vmar_new_dummy_def MAX_MAPPINGS_def)
  have us: "user 0xB" by (simp add: user_def VMAR_USER_def)
  have l0: "l0_pa_of 0 (ms_ps demo_ms) \<noteq> 0" "live_proc 0 demo_ms" "rights_contains 3 RIGHT_READ"
    by (simp_all add: demo_ms_def demo_ptw_def demo_root_def live_proc_def rights_contains_def RIGHT_READ_def)
  have room: "\<not> end_free_page (km_phys (ms_kmem demo_ms)) < next_free_page (km_phys (ms_kmem demo_ms)) + 4 * unat (0x2000 :: u64)"
    by (simp add: demo_ms_kmem demo_mem_phys take_page_def demo_phys_def)
  have full: "take 8192 (vmo_contents demo_mem demo_vmo) = vmo_contents demo_mem demo_vmo" by (simp add: vmo_contents_def demo_vmo_def)
  note th = mapped_memory_is_the_object [OF demo_slot_caller l0(1,2) demo_ms_table l0(3) va mo us eq]
  have r: "r = Ok 0x2000" using th room by blast
  obtain v' where v': "ht_lookup (table_of 0 s') = (ht_lookup (table_of 0 demo_ms))(5 \<mapsto> (3, KVmo v'))"
    "safe_copy_from_user (l0_pa_of 0 (ms_ps s')) 0x400000 (unat (0x2000 :: u64)) (ps_pt (ms_ps s')) = Ok (take (unat (0x2000 :: u64)) (vmo_contents (ms_kmem demo_ms) demo_vmo))"
    using th r by blast
  have us': "use_vmo 0 5 RIGHT_READ (map_vmo 0 0 0x400000 0x2000 0xB) demo_ms = (r, s')"
    using eq demo_slot_caller us va by (simp add: sys_vmar_map_self_def)
  obtain r1 v1 s1 where mv: "map_vmo 0 0 0x400000 0x2000 0xB demo_vmo demo_ms = (r1, v1, s1)" by (metis prod_cases3)
  note sp = map_vmo_spec [OF mo mv]
  have "ps_pt (ms_ps s') = ps_pt (ms_ps s1)" using use_vmo_handle(4) [OF demo_ms_table l0(3) mv _ us'] sp l0(2) by blast
  then have "l0_pa_of 0 (ms_ps s') = 0x40000000" using sp by (simp add: same_roots_def demo_ms_def demo_ptw_def demo_root_def)
  then show ?thesis using eq r v' by (simp add: demo_ms_kmem full)
qed

end
