(* ===== verification/Launch.thy ===== *)
theory Launch
  imports Memory_Calls Ohlink
begin

text \<open>
  Launching a program, \<open>launch_user_program_with_argv_id\<close> in \<open>kernel/src/task/process.rs\<close>: the image is
  parsed, a process slot and a page-table root are taken, every loadable segment becomes a memory object that
  is filled and mapped, a stack is added, and a thread is made ready at the entry point. The state is that of
  the memory calls together with the interrupt mask; the translation base register is the one the scheduler
  keeps. Cache maintenance, diagnostics and the checks that only print are left out.
\<close>

record lstate =
  ls_ms :: mstate
  ls_daif :: u64

section \<open>Address space\<close>

definition active_page_table :: "pstate \<Rightarrow> nat" where
  "active_page_table s = (case sc_ttbr0 (ps_sched s) of None \<Rightarrow> 0 | Some (l0, asid) \<Rightarrow> unat (l0 AND 0x0000FFFFFFFFF000))"

text \<open>The old value is the masked register, so the restored register has no address-space identifier.\<close>

definition restore_user_page_table :: "nat \<Rightarrow> nat \<Rightarrow> u16 \<Rightarrow> pstate \<Rightarrow> pstate" where
  "restore_user_page_table old new_l0 asid s =
     s\<lparr>ps_sched := (ps_sched s)\<lparr>sc_ttbr0 := Some (if old \<noteq> 0 then (word_of_nat old, 0) else (word_of_nat new_l0, asid))\<rparr>\<rparr>"

definition local_irq_save :: "lstate \<Rightarrow> u64 \<times> lstate" where
  "local_irq_save s = (ls_daif s, s\<lparr>ls_daif := ls_daif s OR 0x3C0\<rparr>)"

definition local_irq_restore :: "u64 \<Rightarrow> lstate \<Rightarrow> lstate" where
  "local_irq_restore d s = s\<lparr>ls_daif := d\<rparr>"

text \<open>The root, the two device pages (a failure to map them is only reported), and the kernel's entries.\<close>

definition map_device :: "nat \<Rightarrow> u64 \<Rightarrow> ptw \<Rightarrow> unit res \<times> ptw" where
  "map_device k a p = (case pt_map_va k a a device_rw_user p of (Panic, p1) \<Rightarrow> (Panic, p1) | (_, p1) \<Rightarrow> (Ok (), p1))"

definition setup_space :: "nat \<Rightarrow> nat \<Rightarrow> ptw \<Rightarrow> unit res \<times> ptw" where
  "setup_space k active p =
     (case pt_allocate_root k p of
        (Ok _, p1) \<Rightarrow>
          (case map_device k 0x09000000 p1 of
             (Ok _, p2) \<Rightarrow>
               (case map_device k 0x08010000 p2 of
                  (Ok _, p3) \<Rightarrow>
                    (Ok (), if active \<noteq> 0 then pt_clone_identity_block k active (pt_clone_high_half k active p3) else p3)
                | (r, p3) \<Rightarrow> (r, p3))
           | (r, p2) \<Rightarrow> (r, p2))
      | (r, p1) \<Rightarrow> (r, p1))"

section \<open>Segments\<close>

text \<open>
  \<open>new_backing\<close>: an object of the given size with all its pages. \<open>release\<close>: the object goes out of scope,
  on the way out of the function as well as at the end of an iteration.
\<close>

definition release :: "'r res \<Rightarrow> vmo \<Rightarrow> mstate \<Rightarrow> 'r res \<times> mstate" where
  "release r v s =
     (if r = Panic then (Panic, s)
      else case vmo_drop v (ms_kmem s) of (d, m) \<Rightarrow> (if d = Panic then Panic else r, set_kmem m s))"

definition new_backing :: "usize \<Rightarrow> mstate \<Rightarrow> vmo res \<times> mstate" where
  "new_backing sz s =
     (case create_with_size sz (ms_kmem s) of
        (Ok v, m) \<Rightarrow>
          (case commit_all v m of
             (Ok _, v1, m1) \<Rightarrow> (Ok v1, set_kmem m1 s)
           | (Err e, v1, m1) \<Rightarrow> release (Err e) v1 (set_kmem m1 s)
           | (Panic, v1, m1) \<Rightarrow> (Panic, set_kmem m1 s))
      | (Err e, m) \<Rightarrow> (Err e, set_kmem m s)
      | (Panic, m) \<Rightarrow> (Panic, set_kmem m s))"

fun map_frames :: "nat \<Rightarrow> nat \<Rightarrow> nat \<Rightarrow> u64 \<Rightarrow> map_flags \<Rightarrow> vmo \<Rightarrow> kmem \<Rightarrow> ptw \<Rightarrow> unit res \<times> ptw" where
  "map_frames 0 i k va fl v m p = (Ok (), p)"
| "map_frames (Suc n) i k va fl v m p =
     (case get_page_phys m v (i * 4096) of
        None \<Rightarrow> (Panic, p)
      | Some pa \<Rightarrow>
          (case pt_map_va k (va + word_of_nat (i * 4096)) (word_of_nat pa) fl p of
             (Ok _, p1) \<Rightarrow> map_frames n (Suc i) k va fl v m p1
           | (Err e, p1) \<Rightarrow> (Err e, p1)
           | (Panic, p1) \<Rightarrow> (Panic, p1)))"

definition map_backing :: "nat \<Rightarrow> u64 \<Rightarrow> usize \<Rightarrow> vmar_flags \<Rightarrow> map_flags \<Rightarrow> vmo \<Rightarrow> mstate \<Rightarrow> unit res \<times> mstate" where
  "map_backing k target sz flags fl v s =
     (case reserve_mapping (vmo_id v) 0 target sz flags (pr_root_vmar (proc k (ms_ps s))) of
        (Ok _, vm) \<Rightarrow>
          (let s1 = s\<lparr>ms_ps := upd_proc k (\<lambda>p. p\<lparr>pr_root_vmar := vm\<rparr>) (ms_ps s)\<rparr> in
           case map_frames (unat sz div 4096) 0 k target fl v (ms_meta s1) (ps_pt (ms_ps s1)) of
             (r, p) \<Rightarrow> (r, s1\<lparr>ms_ps := (ms_ps s1)\<lparr>ps_pt := p\<rparr>\<rparr>))
      | (Err e, vm) \<Rightarrow> (Err e, s)
      | (Panic, vm) \<Rightarrow> (Panic, s))"

definition segment_flags :: "u32 \<Rightarrow> vmar_flags" where
  "segment_flags ty = (if ty = 1 then VMAR_READ OR VMAR_EXECUTE OR VMAR_USER else VMAR_READ OR VMAR_WRITE OR VMAR_USER)"

definition segment_map_flags :: "u32 \<Rightarrow> map_flags" where
  "segment_map_flags ty = (if ty = 1 then user_rx else user_rw)"

definition aligned_vaddr :: "ohlk_entry \<Rightarrow> u64" where
  "aligned_vaddr e = oe_virtual_address e AND NOT 4095"

definition alignment_offset :: "ohlk_entry \<Rightarrow> u64" where
  "alignment_offset e = oe_virtual_address e - aligned_vaddr e"

definition aligned_size :: "ohlk_entry \<Rightarrow> u64" where
  "aligned_size e = (oe_mem_size e + alignment_offset e + 4095) AND NOT 4095"

definition write_payload :: "ohlk_entry \<Rightarrow> ohlk_parser \<Rightarrow> vmo \<Rightarrow> mstate \<Rightarrow> unit res \<times> vmo \<times> mstate" where
  "write_payload e parser v s =
     (if 0 < oe_file_size e
      then case get_segment_data e parser of
             FOk d \<Rightarrow>
               (case vmo_write (unat (alignment_offset e)) d v (ms_kmem s) of
                  (r, v1, m1) \<Rightarrow> (res_map (\<lambda>_. ()) r, v1, set_kmem m1 s))
           | FErr _ \<Rightarrow> (Err InvalidArgs, v, s)
           | FPanic \<Rightarrow> (Panic, v, s)
      else (Ok (), v, s))"

definition load_program_segment :: "nat \<Rightarrow> ohlk_parser \<Rightarrow> ohlk_entry \<Rightarrow> mstate \<Rightarrow> unit res \<times> mstate" where
  "load_program_segment k parser e s =
     (let target = vmar_base (pr_root_vmar (proc k (ms_ps s))) + aligned_vaddr e in
      case new_backing (aligned_size e) s of
        (Ok v, s1) \<Rightarrow>
          (case write_payload e parser v s1 of
             (Ok _, v2, s2) \<Rightarrow>
               (case map_backing k target (aligned_size e) (segment_flags (oe_ty e)) (segment_map_flags (oe_ty e)) v2 s2 of
                  (r, s3) \<Rightarrow> release r v2 s3)
           | (Err x, v2, s2) \<Rightarrow> release (Err x) v2 s2
           | (Panic, v2, s2) \<Rightarrow> (Panic, s2))
      | (Err x, s1) \<Rightarrow> (Err x, s1)
      | (Panic, s1) \<Rightarrow> (Panic, s1))"

text \<open>The entry point is taken from the last segment whose linked range holds it.\<close>

definition entry_in :: "u64 \<Rightarrow> u64 \<Rightarrow> ohlk_entry \<Rightarrow> u64 option \<Rightarrow> u64 option" where
  "entry_in base ep e found =
     (if oe_virtual_address e \<le> ep \<and> ep < oe_virtual_address e + oe_mem_size e
      then Some (base + oe_virtual_address e + (ep - oe_virtual_address e)) else found)"

definition loadable :: "ohlk_entry \<Rightarrow> bool" where
  "loadable e \<longleftrightarrow> oe_ty e = 1 \<or> oe_ty e = 2 \<or> oe_ty e = 3 \<or> oe_ty e = 4"

fun load_segments :: "u16 list \<Rightarrow> nat \<Rightarrow> ohlk_parser \<Rightarrow> u64 option \<Rightarrow> mstate \<Rightarrow> u64 option res \<times> mstate" where
  "load_segments [] k parser found s = (Ok found, s)"
| "load_segments (i # is) k parser found s =
     (case get_entry i parser of
        FOk e \<Rightarrow>
          if \<not> loadable e then load_segments is k parser found s
          else (case load_program_segment k parser e s of
                  (Ok _, s1) \<Rightarrow>
                    load_segments is k parser
                      (entry_in (vmar_base (pr_root_vmar (proc k (ms_ps s)))) (oh_entry_point (op_header parser)) e found) s1
                | (Err x, s1) \<Rightarrow> (Err x, s1)
                | (Panic, s1) \<Rightarrow> (Panic, s1))
      | FErr _ \<Rightarrow> load_segments is k parser found s
      | FPanic \<Rightarrow> (Panic, s))"

section \<open>Stack, arguments and thread\<close>

definition STACK_SIZE :: u64 where "STACK_SIZE = 16 * 1024"
definition STACK_OFFSET :: u64 where "STACK_OFFSET = 0x2000000"

definition stack_map_flags :: map_flags where
  "stack_map_flags = kernel_rw\<lparr>mf_user := True, mf_writable := True\<rparr>"

text \<open>The stack object stays in scope until the function returns.\<close>

definition load_stack :: "nat \<Rightarrow> u64 \<Rightarrow> mstate \<Rightarrow> vmo res \<times> mstate" where
  "load_stack k stack_va s =
     (case new_backing STACK_SIZE s of
        (Ok v, s1) \<Rightarrow>
          (case map_backing k stack_va STACK_SIZE (VMAR_READ OR VMAR_WRITE OR VMAR_USER) stack_map_flags v s1 of
             (Ok _, s2) \<Rightarrow> (Ok v, s2)
           | (Err e, s2) \<Rightarrow> release (Err e) v s2
           | (Panic, s2) \<Rightarrow> (Panic, s2))
      | (Err e, s1) \<Rightarrow> (Err e, s1)
      | (Panic, s1) \<Rightarrow> (Panic, s1))"

definition touch_stack :: "nat \<Rightarrow> u64 \<Rightarrow> ptw \<Rightarrow> ptw" where
  "touch_stack k stack_top p =
     (case pt_translate_va k (stack_top - 16) p of
        None \<Rightarrow> p
      | Some pa \<Rightarrow> p\<lparr>pw_phys := (pw_phys p)\<lparr>ram := store_bytes pa (replicate 8 0) (ram (pw_phys p))\<rparr>\<rparr>)"

definition pad16w :: "nat \<Rightarrow> u64" where
  "pad16w n = (word_of_nat n + 15) AND NOT 15"

text \<open>The strings with their terminators, then the pointers; \<open>arg_vas\<close> has sixteen slots.\<close>

fun copy_strings :: "nat \<Rightarrow> nat \<Rightarrow> u8 list list \<Rightarrow> u64 \<Rightarrow> ptw \<Rightarrow> (u64 list \<times> u64) res \<times> ptw" where
  "copy_strings l0 i [] cursor p = (Ok ([], cursor), p)"
| "copy_strings l0 i (a # as) cursor p =
     (case safe_copy_to_user l0 a cursor p of
        (Ok _, p1) \<Rightarrow>
          (case safe_copy_to_user l0 [0] (cursor + word_of_nat (length a)) p1 of
             (Ok _, p2) \<Rightarrow>
               if 16 \<le> i then (Panic, p2)
               else (case copy_strings l0 (Suc i) as (cursor + pad16w (length a)) p2 of
                       (Ok (vas, c), p3) \<Rightarrow> (Ok (cursor # vas, c), p3)
                     | (Err e, p3) \<Rightarrow> (Err e, p3)
                     | (Panic, p3) \<Rightarrow> (Panic, p3))
           | (Err e, p2) \<Rightarrow> (Err e, p2)
           | (Panic, p2) \<Rightarrow> (Panic, p2))
      | (Err e, p1) \<Rightarrow> (Err e, p1)
      | (Panic, p1) \<Rightarrow> (Panic, p1))"

fun copy_pointers :: "nat \<Rightarrow> u64 list \<Rightarrow> u64 \<Rightarrow> ptw \<Rightarrow> unit res \<times> ptw" where
  "copy_pointers l0 [] a p = (Ok (), p)"
| "copy_pointers l0 (va # vas) a p =
     (case safe_copy_to_user l0 (word_to_le 8 va) a p of
        (Ok _, p1) \<Rightarrow> copy_pointers l0 vas (a + 8) p1
      | (Err e, p1) \<Rightarrow> (Err e, p1)
      | (Panic, p1) \<Rightarrow> (Panic, p1))"

text \<open>The stack pointer and the address of the argument array.\<close>

definition push_args :: "nat \<Rightarrow> u64 \<Rightarrow> u8 list list \<Rightarrow> ptw \<Rightarrow> (u64 \<times> u64) res \<times> ptw" where
  "push_args l0 stack_top args p =
     (let bytes = word_of_nat (length args) * 8 :: u64;
          area = bytes + sum_list (map (\<lambda>a. pad16w (length a)) args) + 16;
          new_sp = (stack_top - area) AND NOT 15
      in case copy_strings l0 0 args new_sp p of
           (Ok (vas, argv), p1) \<Rightarrow>
             (case copy_pointers l0 vas argv p1 of
                (r, p2) \<Rightarrow> (res_map (\<lambda>_. ((argv + bytes + 15) AND NOT 15, argv)) r, p2))
         | (Err e, p1) \<Rightarrow> (Err e, p1)
         | (Panic, p1) \<Rightarrow> (Panic, p1))"

text \<open>The thread of the program before its arguments are known.\<close>

definition user_thread :: "nat \<Rightarrow> nat \<Rightarrow> u64 \<Rightarrow> thread \<Rightarrow> pstate \<Rightarrow> thread" where
  "user_thread k argc pid t s =
     t\<lparr>th_process_id := pid, th_handle_table := Some pid, th_state := Ready,
       th_context := (th_context t)\<lparr>cx_process_id := pid,
         cx_l0_user_pa := pack_ttbr (word_of_nat (l0_pa_of k s)) (pr_asid (proc k s)),
         cx_page_table_gen := pt_generation (tree k (ps_pt s)), cx_spsr := 0,
         cx_x := (cx_x (th_context t))[0 := word_of_nat argc, 1 := 0]\<rparr>\<rparr>"

definition with_args :: "u64 \<Rightarrow> u64 \<Rightarrow> thread \<Rightarrow> thread" where
  "with_args sp argv t = t\<lparr>th_context := (th_context t)\<lparr>cx_user_sp := sp, cx_x := (cx_x (th_context t))[1 := argv]\<rparr>\<rparr>"

definition start_user :: "u64 \<Rightarrow> nat \<Rightarrow> string \<Rightarrow> u64 \<Rightarrow> u64 \<Rightarrow> u8 list list \<Rightarrow> pstate \<Rightarrow> unit res \<times> pstate" where
  "start_user eret_stub k name entry stack_top args s =
     (case new_user eret_stub name entry stack_top (ps_tid_ctr s) (pw_phys (ps_pt s)) of
        (Ok t, ctr, ph) \<Rightarrow>
          (let s1 = (upd_phys ph s)\<lparr>ps_tid_ctr := ctr\<rparr>;
               t1 = user_thread k (length args) (pr_id (proc k s1)) t s1;
               (r, p) = (if args = [] then (Ok t1, ps_pt s1)
                         else case push_args (l0_pa_of k s1) stack_top args (ps_pt s1) of
                                (q, p) \<Rightarrow> (res_map (\<lambda>(sp, argv). with_args sp argv t1) q, p));
               s2 = s1\<lparr>ps_pt := p\<rparr>
           in case r of
                Ok t2 \<Rightarrow> (case sched_add t2 (ps_sched s2) of (q, sc) \<Rightarrow> (q, s2\<lparr>ps_sched := sc\<rparr>))
              | Err e \<Rightarrow> (Err e, s2)
              | Panic \<Rightarrow> (Panic, s2))
      | (Err e, ctr, ph) \<Rightarrow> (Err e, (upd_phys ph s)\<lparr>ps_tid_ctr := ctr\<rparr>)
      | (Panic, ctr, ph) \<Rightarrow> (Panic, (upd_phys ph s)\<lparr>ps_tid_ctr := ctr\<rparr>))"

section \<open>The launch\<close>

definition upd_ms :: "(mstate \<Rightarrow> 'r res \<times> mstate) \<Rightarrow> lstate \<Rightarrow> 'r res \<times> lstate" where
  "upd_ms f s = (case f (ls_ms s) of (r, m) \<Rightarrow> (r, s\<lparr>ls_ms := m\<rparr>))"

definition set_ps :: "pstate \<Rightarrow> mstate \<Rightarrow> mstate" where
  "set_ps p s = s\<lparr>ms_ps := p\<rparr>"

text \<open>From the stack on: everything that can fail while the stack object is in scope.\<close>

definition launch_thread :: "u64 \<Rightarrow> nat \<Rightarrow> string \<Rightarrow> u64 \<Rightarrow> u8 list list \<Rightarrow> nat \<Rightarrow> u64 \<Rightarrow> lstate \<Rightarrow> unit res \<times> lstate" where
  "launch_thread eret_stub k name entry args old_ttbr0 daif s =
     (let stack_va = vmar_base (pr_root_vmar (proc k (ms_ps (ls_ms s)))) + STACK_OFFSET;
          stack_top = (stack_va + STACK_SIZE) AND NOT 15
      in case upd_ms (load_stack k stack_va) s of
           (Ok v, s1) \<Rightarrow>
             (let ps = ms_ps (ls_ms s1); ps1 = ps\<lparr>ps_pt := touch_stack k stack_top (ps_pt ps)\<rparr> in
              case start_user eret_stub k name entry stack_top args ps1 of
                (Ok _, ps2) \<Rightarrow>
                  (let ps3 = restore_user_page_table old_ttbr0 (l0_pa_of k ps2) (pr_asid (proc k ps2)) ps2
                   in upd_ms (release (Ok ()) v) (local_irq_restore daif (s1\<lparr>ls_ms := set_ps ps3 (ls_ms s1)\<rparr>)))
              | (Err e, ps2) \<Rightarrow> upd_ms (release (Err e) v) (s1\<lparr>ls_ms := set_ps ps2 (ls_ms s1)\<rparr>)
              | (Panic, ps2) \<Rightarrow> (Panic, s1\<lparr>ls_ms := set_ps ps2 (ls_ms s1)\<rparr>))
         | (Err e, s1) \<Rightarrow> (Err e, s1)
         | (Panic, s1) \<Rightarrow> (Panic, s1))"

definition entry_indices :: "ohlk_parser \<Rightarrow> u16 list" where
  "entry_indices parser = map word_of_nat [0..<unat (oh_header_count (op_header parser))]"

definition launch_parsed ::
  "nat \<Rightarrow> u64 \<Rightarrow> name_ref \<Rightarrow> ohlk_parser \<Rightarrow> u8 list list \<Rightarrow> u64 \<Rightarrow> lstate \<Rightarrow> u64 res \<times> lstate" where
  "launch_parsed slot_sz eret_stub name parser args parent s =
     (case allocate_process slot_sz name (ms_ps (ls_ms s)) of
        (Ok k, ps1) \<Rightarrow>
          (let ps2 = upd_proc k (\<lambda>p. p\<lparr>pr_parent_pid := parent\<rparr>) ps1;
               pid = pr_id (proc k ps2); active = active_page_table ps2
           in case setup_space k active (ps_pt ps2) of
                (Ok _, pt) \<Rightarrow>
                  (let (daif, s1) = local_irq_save (s\<lparr>ls_ms := set_ps (ps2\<lparr>ps_pt := pt\<rparr>) (ls_ms s)\<rparr>) in
                   case upd_ms (load_segments (entry_indices parser) k parser None) s1 of
                     (Ok found, s2) \<Rightarrow>
                       (let base = vmar_base (pr_root_vmar (proc k (ms_ps (ls_ms s2))));
                            entry = (case found of Some pc \<Rightarrow> pc | None \<Rightarrow> base + oh_entry_point (op_header parser));
                            nm = map (\<lambda>b. char_of (unat b)) (name_bytes (ms_ps (ls_ms s2)) name)
                        in case launch_thread eret_stub k nm entry args active daif s2 of
                             (r, s3) \<Rightarrow> (res_map (\<lambda>_. pid) r, s3))
                   | (Err e, s2) \<Rightarrow> (Err e, s2)
                   | (Panic, s2) \<Rightarrow> (Panic, s2))
              | (Err e, pt) \<Rightarrow> (Err e, s\<lparr>ls_ms := set_ps (ps2\<lparr>ps_pt := pt\<rparr>) (ls_ms s)\<rparr>)
              | (Panic, pt) \<Rightarrow> (Panic, s\<lparr>ls_ms := set_ps (ps2\<lparr>ps_pt := pt\<rparr>) (ls_ms s)\<rparr>))
      | (Err e, ps1) \<Rightarrow> (Err e, s\<lparr>ls_ms := set_ps ps1 (ls_ms s)\<rparr>)
      | (Panic, ps1) \<Rightarrow> (Panic, s\<lparr>ls_ms := set_ps ps1 (ls_ms s)\<rparr>))"

definition launch_with_argv ::
  "nat \<Rightarrow> u64 \<Rightarrow> name_ref \<Rightarrow> u8 list \<Rightarrow> u8 list list \<Rightarrow> u64 \<Rightarrow> lstate \<Rightarrow> u64 res \<times> lstate" where
  "launch_with_argv slot_sz eret_stub name img args parent s =
     (case parser_new img of
        FOk parser \<Rightarrow> launch_parsed slot_sz eret_stub name parser args parent s
      | FErr _ \<Rightarrow> (Err InvalidArgs, s)
      | FPanic \<Rightarrow> (Panic, s))"

definition launch_user_program :: "nat \<Rightarrow> u64 \<Rightarrow> name_ref \<Rightarrow> u8 list \<Rightarrow> lstate \<Rightarrow> u64 res \<times> lstate" where
  "launch_user_program slot_sz eret_stub name img s = launch_with_argv slot_sz eret_stub name img [] 0 s"

end
