(* ===== verification/Launch_Memory.thy ===== *)
theory Launch_Memory
  imports Launch "HOL-Library.Multiset"
begin

text \<open>
  The memory of a launched program. The objects that back segments and stack go out of scope while their
  frames are mapped; the frames keep their bytes because the allocator never hands a frame out twice. This
  theory shows that releasing an object cannot abort and that the pages of a loaded program hold its image.
\<close>

section \<open>Frames an object owns\<close>

text \<open>The frames in \<open>ps\<close> were all taken after the cursor stood at \<open>lo\<close>, are different, and are marked as used.\<close>

definition owned_ok :: "nat \<Rightarrow> nat list \<Rightarrow> phys \<Rightarrow> bool" where
  "owned_ok lo ps s \<longleftrightarrow> distinct ps \<and> (\<forall>p\<in>set ps. RAM_BASE \<le> p \<and> lo \<le> p \<and> p + 4096 \<le> next_free_page s
     \<and> 4096 dvd p \<and> p < RAM_BASE + RAM_SIZE \<and> page_tags s (pa_to_pfn p) \<noteq> 0)"

lemma owned_ok_Nil [simp]: "owned_ok lo [] s"
  by (simp add: owned_ok_def)

lemma pfn_below: "RAM_BASE \<le> p \<Longrightarrow> p + 4096 \<le> n \<Longrightarrow> pa_to_pfn p < pa_to_pfn n"
  using pfn_mono [of "p + 4096" n] by (simp add: pfn_next)

lemma pfn_inj:
  assumes "pa_to_pfn p = pa_to_pfn q" "RAM_BASE \<le> p" "RAM_BASE \<le> q" "4096 dvd p" "4096 dvd q"
  shows "p = q"
proof -
  have "4096 dvd p - RAM_BASE" "4096 dvd q - RAM_BASE" using assms(4,5) by (simp_all add: RAM_BASE_def)
  then have "p - RAM_BASE = q - RAM_BASE" using assms(1) by (simp add: pa_to_pfn_def dvd_div_eq_iff)
  then show ?thesis using assms(2,3) by linarith
qed

lemma owned_ok_grows:
  assumes ow: "owned_ok lo ps s" and g: "grows s s'"
  shows "owned_ok lo ps s'"
proof -
  have "page_tags s' (pa_to_pfn p) = page_tags s (pa_to_pfn p)" if "p \<in> set ps" for p
    using that ow g pfn_below [of p "next_free_page s"] by (auto simp: owned_ok_def grows_def)
  then show ?thesis using ow g by (auto simp: owned_ok_def grows_def)
qed

lemma owned_ok_perm: "mset ps = mset qs \<Longrightarrow> owned_ok lo ps s \<longleftrightarrow> owned_ok lo qs s"
  unfolding owned_ok_def by (metis mset_eq_imp_distinct_iff mset_eq_setD)

lemma owned_ok_alloc:
  assumes inv: "phys_inv s" and ow: "owned_ok lo ps s" and lo: "lo \<le> next_free_page s" and tag: "tag_byte tag \<noteq> 0"
    and al: "alloc_page tag s = (Ok p, s')"
  shows "owned_ok lo (p # ps) s'" "p = next_free_page s"
proof -
  have p: "p = next_free_page s" and s': "s' = take_page tag p s" and room: "next_free_page s < end_free_page s"
    using al by (auto simp: alloc_page_inv_eq [OF inv] split: if_splits)
  show "p = next_free_page s" by (rule p)
  have "owned_ok lo ps s'" by (rule owned_ok_grows [OF ow grows_alloc [OF inv al]])
  moreover have "p \<notin> set ps" using ow p by (auto simp: owned_ok_def)
  moreover have "RAM_BASE \<le> p" "4096 dvd p" "p < RAM_BASE + RAM_SIZE" "page_tags s' (pa_to_pfn p) \<noteq> 0" "p + 4096 \<le> next_free_page s'"
    using inv room tag by (auto simp: p s' phys_inv_def take_page_def)
  ultimately show "owned_ok lo (p # ps) s'" using lo p by (auto simp: owned_ok_def)
qed

lemma vmo_tag [simp]: "tag_byte TagVmoData \<noteq> 0"
  by simp

text \<open>Releasing frames that are in use succeeds and changes no byte.\<close>

lemma drop_phys_pages_owned:
  assumes "owned_ok lo ps s" "phys_inv s" "drop_phys_pages ps s = (r, s')"
  shows "r = Ok () \<and> phys_inv s' \<and> next_free_page s' = next_free_page s \<and> end_free_page s' = end_free_page s \<and> ram s' = ram s"
  using assms
proof (induction ps arbitrary: s)
  case Nil
  then show ?case by simp
next
  case (Cons p ps)
  have p: "RAM_BASE \<le> p" "p < RAM_BASE + RAM_SIZE" "4096 dvd p" "page_tags s (pa_to_pfn p) \<noteq> 0" and ow: "owned_ok lo ps s" and np: "p \<notin> set ps"
    using Cons.prems(1) by (auto simp: owned_ok_def)
  obtain f s1 where f: "free_page p s = (f, s1)" by (metis prod.exhaust)
  have ok: "f = Ok StatusOk" using f p by (auto simp: free_page_def Let_def pa_valid_def split: if_splits)
  have p0: "p \<noteq> 0" using p(1) by (auto simp: RAM_BASE_def)
  have d: "drop_phys_pages ps s1 = (r, s')" using Cons.prems(3) f ok p0 by (simp add: drop_phys_page_def)
  have fr: "next_free_page s1 = next_free_page s" "end_free_page s1 = end_free_page s" "ram s1 = ram s"
    using free_page_frame [of p s] f by simp_all
  have tags: "page_tags s1 = (page_tags s)(pa_to_pfn p := 0)" using free_page_OkD [of p s] f ok by simp
  have "pa_to_pfn q \<noteq> pa_to_pfn p" if "q \<in> set ps" for q
    using pfn_inj [of q p] that ow np p unfolding owned_ok_def by blast
  then have "owned_ok lo ps s1" using ow unfolding owned_ok_def fr tags by simp
  moreover have "phys_inv s1" using free_page_inv [OF Cons.prems(2), of p] f by simp
  ultimately show ?case using Cons.IH [OF _ _ d] fr by simp
qed

section \<open>Creating an object\<close>

lemma mset_live_put: "i < length xs \<Longrightarrow> xs ! i = None \<Longrightarrow> mset (live_slots (xs[i := Some v])) = add_mset v (mset (live_slots xs))"
proof (induction xs arbitrary: i)
  case Nil
  then show ?case by simp
next
  case (Cons x xs)
  then show ?case by (cases i) (auto split: option.splits)
qed

lemma alloc_meta_owned:
  assumes inv: "phys_inv (km_phys w)" and ow: "owned_ok lo ps (km_phys w)" and lo: "lo \<le> next_free_page (km_phys w)"
    and al: "alloc_meta w = (r, w')"
  shows "takes 1 (km_phys w) (km_phys w') \<and> (r = Err NoMemory \<and> end_free_page (km_phys w) \<le> next_free_page (km_phys w) \<and> owned_ok lo ps (km_phys w')
    \<or> (\<exists>p. r = Ok p \<and> owned_ok lo (p # ps) (km_phys w')))"
proof (cases rule: alloc_meta_cases [OF inv])
  case 1
  then show ?thesis using al ow takes_refl [OF inv] by simp
next
  case (2 pa w1)
  then have a: "alloc_page TagVmoData (km_phys w) = (Ok pa, km_phys w')" and r: "r = Ok pa" using al by (auto simp: alloc_page_inv_eq [OF inv])
  from owned_ok_alloc [OF inv ow lo vmo_tag a] takes_alloc(1) [OF inv a] r show ?thesis by simp
qed

lemma alloc_extra_owned:
  assumes "alloc_extra n i meta extra w = (r, extra', w')" "1 \<le> i" "i + n \<le> 9" "length extra = 8" "\<forall>j. i - 1 \<le> j \<and> j < 8 \<longrightarrow> extra ! j = None"
    and "phys_inv (km_phys w)" "owned_ok lo (meta # live_slots extra) (km_phys w)" "lo \<le> next_free_page (km_phys w)"
  shows "takes n (km_phys w) (km_phys w') \<and> owned_ok lo (meta # live_slots extra') (km_phys w')
    \<and> (r = Ok () \<or> r = Err NoMemory \<and> end_free_page (km_phys w) < next_free_page (km_phys w) + n * 4096)"
  using assms
proof (induction n arbitrary: i extra w)
  case 0
  then show ?case by (simp add: takes_refl)
next
  case (Suc n)
  obtain q w1 where a: "alloc_meta w = (q, w1)" by (metis prod.exhaust)
  note st = alloc_meta_owned [OF Suc.prems(6-8) a]
  show ?case
  proof (cases "q = Err NoMemory")
    case True
    then have ow: "owned_ok lo (meta # live_slots extra) (km_phys w1)" and t: "takes 1 (km_phys w) (km_phys w1)"
      and full: "end_free_page (km_phys w) \<le> next_free_page (km_phys w)" using st by auto
    have "takes (Suc n) (km_phys w) (km_phys w1)" using t by (auto simp: takes_def)
    then show ?thesis using True a ow full Suc.prems(1) by auto
  next
    case False
    then obtain p where q: "q = Ok p" and ow: "owned_ok lo (p # meta # live_slots extra) (km_phys w1)" and t: "takes 1 (km_phys w) (km_phys w1)"
      using st by auto
    let ?w2 = "w1\<lparr>km_pat := (km_pat w1)(meta + PA_TABLE_BASE + (i - 1) * 8 := p)\<rparr>"
    have rest: "alloc_extra n (Suc i) meta (extra[i - 1 := Some p]) ?w2 = (r, extra', w')" using Suc.prems(1) a q by simp
    have i8: "i - 1 < length extra" "extra ! (i - 1) = None"
      using Suc.prems(2-4) Suc.prems(5) [rule_format, of "i - 1"] by simp_all
    have perm: "mset (meta # live_slots (extra[i - 1 := Some p])) = mset (p # meta # live_slots extra)" using mset_live_put [OF i8] by simp
    have ow': "owned_ok lo (meta # live_slots (extra[i - 1 := Some p])) (km_phys ?w2)"
      using owned_ok_perm [OF perm, THEN iffD2, OF ow] by simp
    have "\<forall>j. Suc i - 1 \<le> j \<and> j < 8 \<longrightarrow> extra[i - 1 := Some p] ! j = None"
      using Suc.prems(2) Suc.prems(5) [rule_format] by (auto simp: nth_list_update)
    moreover have "phys_inv (km_phys ?w2)" "lo \<le> next_free_page (km_phys ?w2)" using t Suc.prems(8) by (auto simp: takes_def grows_def)
    ultimately have IH: "takes n (km_phys w1) (km_phys w') \<and> owned_ok lo (meta # live_slots extra') (km_phys w')
      \<and> (r = Ok () \<or> r = Err NoMemory \<and> end_free_page (km_phys w1) < next_free_page (km_phys w1) + n * 4096)"
      using Suc.IH [OF rest] Suc.prems(3,4) ow' by simp
    have "takes (Suc n) (km_phys w) (km_phys w')" using takes_trans [OF t, of n] IH by simp
    then show ?thesis using IH t by (auto simp: takes_def)
  qed
qed

lemma create_owned:
  assumes inv: "phys_inv (km_phys w)" and sz: "sz \<noteq> 0" "pages_for sz \<le> VMO_MAX_PAGES" and eq: "create_with_size sz w = (r, w')"
  shows "takes 9 (km_phys w) (km_phys w') \<and> (\<exists>v. r = Ok v \<and> owned_ok (next_free_page (km_phys w)) (vmo_owned v) (km_phys w'))
    \<or> r = Err NoMemory \<and> end_free_page (km_phys w) < next_free_page (km_phys w) + 9 * 4096"
proof -
  let ?m = "meta_pages_needed (pages_for sz)" and ?lo = "next_free_page (km_phys w)"
  obtain q w1 where a: "alloc_meta w = (q, w1)" by (metis prod.exhaust)
  note st = alloc_meta_owned [OF inv owned_ok_Nil order_refl a]
  show ?thesis
  proof (cases "q = Err NoMemory")
    case True
    then show ?thesis using st eq sz a by (auto simp: create_with_size_def create_meta_def Let_def)
  next
    case False
    then obtain pa where q: "q = Ok pa" and ow: "owned_ok ?lo [pa] (km_phys w1)" and t: "takes 1 (km_phys w) (km_phys w1)" using st by auto
    let ?hdr = "\<lparr>h_magic = VMO_MAGIC, h_version = VMO_VERSION, h_capacity_pages = pages_for sz,
        h_committed = 0, h_size_bytes = pages_for sz * PAGE_SIZE, h_meta_page_count = ?m\<rparr>"
    let ?w2 = "w1\<lparr>km_hdr := (km_hdr w1)(pa := ?hdr)\<rparr>"
    obtain x extra w3 where ex: "alloc_extra (?m - 1) 1 pa (replicate 8 None) ?w2 = (x, extra, w3)" by (metis prod_cases3)
    have m: "1 + (?m - 1) \<le> 9" using sz(2) by (auto simp: meta_pages_needed_def layout_simps)
    have w2: "km_phys ?w2 = km_phys w1" by simp
    have "phys_inv (km_phys ?w2)" "?lo \<le> next_free_page (km_phys ?w2)" "owned_ok ?lo (pa # live_slots (replicate 8 None)) (km_phys ?w2)"
      using t ow unfolding w2 by (auto simp: takes_def grows_def)
    then have e: "takes (?m - 1) (km_phys w1) (km_phys w3) \<and> owned_ok ?lo (pa # live_slots extra) (km_phys w3)
        \<and> (x = Ok () \<or> x = Err NoMemory \<and> end_free_page (km_phys w1) < next_free_page (km_phys w1) + (?m - 1) * 4096)"
      using alloc_extra_owned [OF ex _ m, where lo = ?lo] unfolding w2 by simp
    have "takes (1 + (?m - 1)) (km_phys w) (km_phys w3)" using takes_trans [OF t] e by blast
    moreover have "(1 + (?m - 1)) * 4096 \<le> 9 * 4096" using m by (intro mult_le_mono1)
    ultimately have t9: "takes 9 (km_phys w) (km_phys w3)" by (auto simp: takes_def)
    show ?thesis
    proof (cases "x = Ok ()")
      case True
      let ?v = "\<lparr>vmo_id = km_vmo_id w3, vmo_meta_page = pa, vmo_size = pages_for sz * PAGE_SIZE,
                vmo_is_cow = False, vmo_parent_id = None, vmo_extra_meta_pages = extra, vmo_committed_pages = replicate (pages_for sz) None\<rparr>"
      have "r = Ok ?v" "km_phys w' = km_phys w3"
        using eq sz a q ex True by (auto simp: create_with_size_def create_meta_def Let_def next_vmo_id_def)
      moreover have "vmo_owned ?v = pa # live_slots extra" by (simp add: vmo_owned_def)
      ultimately show ?thesis using t9 e by auto
    next
      case False
      then have x: "x = Err NoMemory" using e by simp
      obtain d p where d: "drop_phys_pages (live_slots extra @ [pa]) (km_phys w3) = (d, p)" by (metis prod.exhaust)
      have "owned_ok ?lo (live_slots extra @ [pa]) (km_phys w3)" using e owned_ok_perm [of "live_slots extra @ [pa]" "pa # live_slots extra"] by simp
      from drop_phys_pages_owned [OF this _ d] have "d = Ok ()" using t9 by (simp add: takes_def)
      then have "r = Err NoMemory" using eq sz a q ex x d by (auto simp: create_with_size_def create_meta_def Let_def)
      moreover have "end_free_page (km_phys w) < ?lo + 9 * 4096"
        using e x t m mult_le_mono1 [of "1 + (?m - 1)" 9 4096] by (auto simp: takes_def)
      ultimately show ?thesis by simp
    qed
  qed
qed

section \<open>Committing and filling\<close>

lemma vmo_ok_shape:
  assumes "vmo_ok w v"
  shows "vmo_wf w v \<and> 4096 dvd vmo_size v \<and> vmo_committed_pages v \<noteq> [] \<and> length (vmo_committed_pages v) = page_count v
    \<and> page_count v * 4096 = vmo_size v"
proof -
  have wf: "vmo_wf w v" and ne: "vmo_committed_pages v \<noteq> []" using assms unfolding vmo_ok_def vmo_owns_def by blast+
  have "4096 dvd vmo_size v" "length (vmo_committed_pages v) = page_count v" using wf ne unfolding vmo_wf_def by blast+
  then show ?thesis using wf ne by (simp add: page_count_def PAGE_SIZE_def)
qed

lemma commit_page_owned:
  assumes ok: "vmo_ok w v" and off: "offset < vmo_size v" and ow: "owned_ok lo (vmo_owned v) (km_phys w)" and lo: "lo \<le> next_free_page (km_phys w)"
    and eq: "commit_page offset v w = (r, v', w')"
  shows "owned_ok lo (vmo_owned v') (km_phys w')"
proof -
  let ?k = "offset div PAGE_SIZE" and ?s = "km_phys w"
  note sh = vmo_ok_shape [OF ok]
  have inv: "phys_inv ?s" by (rule vmo_ok_inv [OF ok])
  have ne: "vmo_committed_pages v \<noteq> []" and len: "length (vmo_committed_pages v) = page_count v" using sh by blast+
  have k: "?k < page_count v" using sh off by (intro offset_page) auto
  show ?thesis
  proof (cases "vmo_committed_pages v ! ?k = None \<and> next_free_page ?s < end_free_page ?s")
    case False
    then have "v' = v \<and> km_phys w' = ?s"
    proof (cases "vmo_committed_pages v ! ?k")
      case None
      then have "alloc_page TagVmoData ?s = (Err NoMemory, ?s)" using False by (simp add: alloc_page_inv_eq [OF inv])
      then show ?thesis using eq off ne len k None by (auto simp: commit_page_def Let_def alloc_vmo_data_def)
    qed (use eq off ne len k in \<open>auto simp: commit_page_def Let_def\<close>)
    then show ?thesis using ow by simp
  next
    case True
    let ?p = "next_free_page ?s"
    have al: "alloc_page TagVmoData ?s = (Ok ?p, take_page TagVmoData ?p ?s)" using True by (simp add: alloc_page_inv_eq [OF inv])
    have v': "v' = v\<lparr>vmo_committed_pages := (vmo_committed_pages v)[?k := Some ?p]\<rparr>" and w': "km_phys w' = take_page TagVmoData ?p ?s"
      using eq off ne len k True al by (auto simp: commit_page_def Let_def alloc_vmo_data_def slot_set_def)
    have "mset (vmo_owned v') = mset (?p # vmo_owned v)"
      using mset_live_put [of ?k "vmo_committed_pages v"] True len k by (simp add: vmo_owned_def v')
    from owned_ok_perm [OF this, THEN iffD2] show ?thesis unfolding w' using owned_ok_alloc(1) [OF inv ow lo vmo_tag al] by simp
  qed
qed

lemma commit_loop_owned:
  assumes "vmo_ok w v" "owned_ok lo (vmo_owned v) (km_phys w)" "lo \<le> next_free_page (km_phys w)" "i + n \<le> page_count v"
    and "commit_loop n i v w = (r, v', w')"
  shows "vmo_kept w v w' v' \<and> owned_ok lo (vmo_owned v') (km_phys w') \<and> takes n (km_phys w) (km_phys w')
    \<and> (r = Ok () \<and> (\<forall>j. i \<le> j \<and> j < i + n \<longrightarrow> slot_get w' v' j \<noteq> None)
       \<or> r = Err NoMemory \<and> end_free_page (km_phys w) < next_free_page (km_phys w) + n * 4096)"
  using assms
proof (induction n arbitrary: i v w)
  case 0
  then show ?case by (auto simp: vmo_kept_refl takes_refl vmo_ok_inv)
next
  case (Suc n)
  have "Suc i * 4096 \<le> page_count v * 4096" using Suc.prems(4) by (intro mult_le_mono1) simp
  then have off: "i * PAGE_SIZE < vmo_size v" using vmo_ok_shape [OF Suc.prems(1)] by (simp add: PAGE_SIZE_def)
  obtain q v1 w1 where c: "commit_page (i * PAGE_SIZE) v w = (q, v1, w1)" by (metis prod_cases3)
  note kp = commit_page_kept [OF Suc.prems(1) off c]
  note ow1 = commit_page_owned [OF Suc.prems(1) off Suc.prems(2,3) c]
  have ip: "i * PAGE_SIZE div 4096 = i" by (simp add: PAGE_SIZE_def)
  show ?case
  proof (cases "q = Err NoMemory")
    case True
    then have "takes 1 (km_phys w) (km_phys w1)" and full: "end_free_page (km_phys w) \<le> next_free_page (km_phys w)" using kp by auto
    then have "takes (Suc n) (km_phys w) (km_phys w1)" by (auto simp: takes_def)
    then show ?thesis using True c kp ow1 full Suc.prems(5) by auto
  next
    case False
    then obtain x where q: "q = Ok x" and k1: "vmo_kept w v w1 v1" and t1: "takes 1 (km_phys w) (km_phys w1)" and sl: "slot_get w1 v1 i \<noteq> None"
      using kp unfolding ip by auto
    have rest: "commit_loop n (Suc i) v1 w1 = (r, v', w')" using Suc.prems(5) c q by simp
    have pc: "page_count v1 = page_count v" using k1 by (simp add: vmo_kept_def page_count_def)
    have "vmo_ok w1 v1" "lo \<le> next_free_page (km_phys w1)" "Suc i + n \<le> page_count v1"
      using k1 t1 Suc.prems(3,4) pc by (auto simp: vmo_kept_def takes_def grows_def)
    note IH = Suc.IH [OF this(1) ow1 this(2,3) rest]
    have kall: "vmo_kept w v w' v'" using vmo_kept_trans [OF k1] IH by blast
    obtain p where p: "slot_get w1 v1 i = Some p" using sl by auto
    have "i < page_count v1" using pc Suc.prems(4) by simp
    then have sl': "slot_get w' v' i = Some p" using IH p unfolding vmo_kept_def by blast
    have "takes (Suc n) (km_phys w) (km_phys w')" using takes_trans [OF t1, of n] IH by simp
    moreover have "r = Ok () \<and> (\<forall>j. i \<le> j \<and> j < i + Suc n \<longrightarrow> slot_get w' v' j \<noteq> None)
        \<or> r = Err NoMemory \<and> end_free_page (km_phys w) < next_free_page (km_phys w) + Suc n * 4096"
    proof (cases "r = Ok ()")
      case True
      have "slot_get w' v' j \<noteq> None" if "i \<le> j \<and> j < i + Suc n" for j
        using IH True sl' that by (cases "j = i") auto
      then show ?thesis using True by blast
    next
      case False
      then show ?thesis using IH t1 by (auto simp: takes_def)
    qed
    ultimately show ?thesis using IH kall by blast
  qed
qed

text \<open>A write to an object with all its pages touches only its frames.\<close>

definition all_committed :: "kmem \<Rightarrow> vmo \<Rightarrow> bool" where
  "all_committed w v \<longleftrightarrow> (\<forall>i<page_count v. slot_get w v i \<noteq> None)"

definition in_frames :: "kmem \<Rightarrow> vmo \<Rightarrow> nat \<Rightarrow> bool" where
  "in_frames w v a \<longleftrightarrow> (\<exists>i<page_count v. \<exists>p. slot_get w v i = Some p \<and> p \<le> a \<and> a < p + 4096)"

definition ram_changed :: "kmem \<Rightarrow> vmo \<Rightarrow> kmem \<Rightarrow> bool" where
  "ram_changed w v w' \<longleftrightarrow> (\<exists>f. w' = w\<lparr>km_phys := (km_phys w)\<lparr>ram := f\<rparr>\<rparr> \<and> (\<forall>a. \<not> in_frames w v a \<longrightarrow> f a = ram (km_phys w) a))"

lemma ram_changed_refl: "ram_changed w v w"
  unfolding ram_changed_def by (rule exI [of _ "ram (km_phys w)"]) simp

lemma ram_changed_frame:
  assumes "ram_changed w v w'"
  shows "slot_get w' u i = slot_get w u i" "in_frames w' u a = in_frames w u a"
proof -
  show sg: "slot_get w' u i = slot_get w u i" for i using assms by (intro slot_get_frame) (auto simp: ram_changed_def)
  then show "in_frames w' u a = in_frames w u a" by (simp add: in_frames_def)
qed

lemma ram_changed_trans:
  assumes "ram_changed w v w1" "ram_changed w1 v w2"
  shows "ram_changed w v w2"
proof -
  obtain f where f: "w1 = w\<lparr>km_phys := (km_phys w)\<lparr>ram := f\<rparr>\<rparr>" "\<forall>a. \<not> in_frames w v a \<longrightarrow> f a = ram (km_phys w) a"
    using assms(1) by (auto simp: ram_changed_def)
  obtain g where g: "w2 = w1\<lparr>km_phys := (km_phys w1)\<lparr>ram := g\<rparr>\<rparr>" "\<forall>a. \<not> in_frames w1 v a \<longrightarrow> g a = ram (km_phys w1) a"
    using assms(2) by (auto simp: ram_changed_def)
  have "\<forall>a. \<not> in_frames w v a \<longrightarrow> g a = ram (km_phys w) a"
    using f g(2) ram_changed_frame(2) [OF assms(1)] by simp
  then show ?thesis unfolding ram_changed_def using f(1) g(1) by (intro exI [of _ g]) simp
qed

lemma vmo_write_loop_committed:
  assumes "4096 dvd vmo_size v" "all_committed w v" "vmo_write_loop n cur bs v w = (r, v', w')"
  shows "v' = v \<and> ram_changed w v w' \<and> (\<exists>m. r = Ok m)"
  using assms
proof (induction n cur bs v w rule: vmo_write_loop.induct)
  case (1 n cur bs v w)
  show ?case
  proof (cases "bs \<noteq> [] \<and> cur < vmo_size v")
    case False
    then show ?thesis using 1(4) by (subst (asm) vmo_write_loop.simps) (auto simp: ram_changed_refl)
  next
    case True
    let ?real = "chunk_len (vmo_size v) cur (length bs)"
    have pg: "cur div PAGE_SIZE < page_count v" using True 1(2) by (intro offset_page) auto
    then obtain pa where pa: "slot_get w v (cur div PAGE_SIZE) = Some pa" using 1(3) unfolding all_committed_def by blast
    let ?w2 = "w\<lparr>km_phys := (km_phys w)\<lparr>ram := copy_in (pa + cur mod PAGE_SIZE) (take ?real bs) (ram (km_phys w))\<rparr>\<rparr>"
    have rest: "vmo_write_loop (n + ?real) (cur + ?real) (drop ?real bs) v ?w2 = (r, v', w')"
      using 1(4) True pa by (subst (asm) vmo_write_loop.simps) (simp add: Let_def)
    have "cur mod PAGE_SIZE + ?real \<le> 4096" using chunk_len_page [of cur "vmo_size v" "length bs"] by (simp add: PAGE_SIZE_def)
    then have "in_frames w v a" if "pa + cur mod PAGE_SIZE \<le> a" "a < pa + cur mod PAGE_SIZE + length (take ?real bs)" for a
      unfolding in_frames_def using that pg pa by (intro exI [of _ "cur div PAGE_SIZE"] conjI exI [of _ pa]) auto
    then have rc: "ram_changed w v ?w2"
      unfolding ram_changed_def copy_in_def by (intro exI conjI) (rule refl, auto)
    have "all_committed ?w2 v" using 1(3) ram_changed_frame(1) [OF rc] by (simp add: all_committed_def)
    with 1(1) [OF True refl _ _ _ _ _ refl refl, of "(Ok None, v, w)"] 1(2) rest pa
    have "v' = v \<and> ram_changed ?w2 v w' \<and> (\<exists>m. r = Ok m)" by (simp add: Let_def)
    then show ?thesis using ram_changed_trans [OF rc] by blast
  qed
qed

section \<open>Backing objects\<close>

text \<open>What a step of the loader keeps: the bytes of every frame handed out before.\<close>

definition kept_below :: "phys \<Rightarrow> phys \<Rightarrow> bool" where
  "kept_below s s' \<longleftrightarrow> phys_inv s' \<and> end_free_page s' = end_free_page s \<and> next_free_page s \<le> next_free_page s'
     \<and> (\<forall>a. a < next_free_page s \<or> RAM_BASE + RAM_SIZE \<le> a \<longrightarrow> ram s' a = ram s a)"

lemma kept_below_takes: "takes n s s' \<Longrightarrow> kept_below s s'"
  by (auto simp: takes_def grows_def kept_below_def)

lemma kept_below_trans: "kept_below s s1 \<Longrightarrow> kept_below s1 s2 \<Longrightarrow> kept_below s s2"
  unfolding kept_below_def by auto

abbreviation ms_pt :: "mstate \<Rightarrow> ptw" where "ms_pt s \<equiv> ps_pt (ms_ps s)"
abbreviation ms_phys :: "mstate \<Rightarrow> phys" where "ms_phys s \<equiv> pw_phys (ms_pt s)"

lemma set_kmem_simps [simp]: "ms_kmem (set_kmem m s) = m" "ms_ps (set_kmem m s) = (ms_ps s)\<lparr>ps_pt := phys_back m (ms_pt s)\<rparr>"
  "km_phys (ms_kmem s) = ms_phys s"
  by (simp_all add: set_kmem_def ms_kmem_def)

lemma phys_back_self [simp]: "phys_back (ms_kmem s) (ms_pt s) = ms_pt s"
  by (simp add: phys_back_def)

lemma release_owned:
  assumes ow: "owned_ok lo (vmo_owned v) (ms_phys s)" and inv: "phys_inv (ms_phys s)" and r: "r \<noteq> Panic" and eq: "release r v s = (r', s')"
  shows "r' = r \<and> (\<exists>q. s' = set_kmem ((ms_kmem s)\<lparr>km_phys := q\<rparr>) s \<and> phys_inv q \<and> next_free_page q = next_free_page (ms_phys s)
    \<and> end_free_page q = end_free_page (ms_phys s) \<and> ram q = ram (ms_phys s))"
proof -
  obtain d q where d: "drop_phys_pages (vmo_owned v) (ms_phys s) = (d, q)" by (metis prod.exhaust)
  note dp = drop_phys_pages_owned [OF ow inv d]
  then have "vmo_drop v (ms_kmem s) = (Ok (), (ms_kmem s)\<lparr>km_phys := q\<rparr>)" using d by (simp add: vmo_drop_def)
  then show ?thesis using eq r dp by (auto simp: release_def)
qed

lemma new_backing_spec:
  assumes inv: "phys_inv (ms_phys s)" and sz: "sz \<noteq> 0" "pages_for sz \<le> VMO_MAX_PAGES" "0 < pages_for sz" and eq: "new_backing sz s = (r, s')"
  shows "(\<exists>v m. r = Ok v \<and> s' = set_kmem m s \<and> vmo_ok m v \<and> all_committed m v \<and> vmo_size v = pages_for sz * 4096
      \<and> vmo_contents m v = replicate (vmo_size v) 0 \<and> owned_ok (next_free_page (ms_phys s)) (vmo_owned v) (km_phys m)
      \<and> takes (9 + pages_for sz) (ms_phys s) (km_phys m))
    \<or> r = Err NoMemory \<and> end_free_page (ms_phys s) < next_free_page (ms_phys s) + (9 + pages_for sz) * 4096"
proof -
  let ?w = "ms_kmem s" and ?lo = "next_free_page (ms_phys s)" and ?n = "pages_for sz"
  have invw: "phys_inv (km_phys ?w)" using inv by simp
  obtain q m where c: "create_with_size sz ?w = (q, m)" by (metis prod.exhaust)
  from create_owned [OF invw sz(1,2) c] show ?thesis
  proof (elim disjE conjE exE)
    assume e: "q = Err NoMemory" "end_free_page (km_phys ?w) < next_free_page (km_phys ?w) + 9 * 4096"
    then show ?thesis using eq c by (simp add: new_backing_def)
  next
    fix v assume v: "q = Ok v" and t: "takes 9 (km_phys ?w) (km_phys m)" and ow: "owned_ok (next_free_page (km_phys ?w)) (vmo_owned v) (km_phys m)"
    note cv = c [unfolded v]
    have ok: "vmo_ok m v" by (rule vmo_ok_created [OF invw cv sz(3)])
    have size: "vmo_size v = ?n * 4096" using create_with_size_OkD [OF cv] by (simp add: PAGE_SIZE_def)
    then have pc: "page_count v = ?n" by (simp add: page_count_def PAGE_SIZE_def)
    obtain x v1 m1 where cl: "commit_loop ?n 0 v m = (x, v1, m1)" by (metis prod_cases3)
    then have ca: "commit_all v m = (x, v1, m1)" using pc by (simp add: commit_all_def page_count_def)
    have lo: "?lo \<le> next_free_page (km_phys m)" using t by (simp add: takes_def grows_def)
    have cs: "vmo_kept m v m1 v1 \<and> owned_ok ?lo (vmo_owned v1) (km_phys m1) \<and> takes ?n (km_phys m) (km_phys m1)
      \<and> (x = Ok () \<and> (\<forall>j. 0 \<le> j \<and> j < 0 + ?n \<longrightarrow> slot_get m1 v1 j \<noteq> None)
         \<or> x = Err NoMemory \<and> end_free_page (km_phys m) < next_free_page (km_phys m) + ?n * 4096)"
      using commit_loop_owned [OF ok _ lo _ cl] ow pc by simp
    have ta: "takes (9 + ?n) (ms_phys s) (km_phys m1)" using takes_trans [OF t] cs by simp
    show ?thesis
    proof (cases "x = Ok ()")
      case True
      have k: "vmo_ok m1 v1" "vmo_size v1 = vmo_size v" "\<forall>i<vmo_size v. vmo_byte m1 v1 i = vmo_byte m v i"
        using cs by (simp_all add: vmo_kept_def)
      have "vmo_contents m1 v1 = vmo_contents m v" using k by (simp add: vmo_contents_def)
      then have "vmo_contents m1 v1 = replicate (vmo_size v1) 0" using vmo_contents_fresh [OF invw cv] k(2) by simp
      moreover have "all_committed m1 v1" using cs True k(2) pc by (simp add: all_committed_def page_count_def)
      ultimately show ?thesis using eq c v ca True k size cs ta by (auto simp: new_backing_def)
    next
      case False
      then have x: "x = Err NoMemory" and full: "end_free_page (km_phys m) < next_free_page (km_phys m) + ?n * 4096" using cs by auto
      have rel: "release (Err NoMemory) v1 (set_kmem m1 s) = (r, s')" using eq c v ca x by (simp add: new_backing_def)
      have "r = Err NoMemory" using release_owned [OF _ _ _ rel, of ?lo] cs ta by (simp add: takes_def)
      then show ?thesis using full t by (auto simp: takes_def)
    qed
  qed
qed

text \<open>Filling the object.\<close>

lemma vmo_ok_ram:
  assumes "vmo_ok w v" "ram_changed w v w'" "vmo_wf w' v"
  shows "vmo_ok w' v"
  using assms ram_changed_frame(1) [OF assms(2)] by (simp add: vmo_ok_def vmo_owns_def)

lemma write_payload_spec:
  assumes ok: "vmo_ok (ms_kmem s) v" and all: "all_committed (ms_kmem s) v"
    and d: "if 0 < oe_file_size e then get_segment_data e parser = FOk d else d = []"
    and eq: "write_payload e parser v s = (r, v', s')"
  shows "r = Ok () \<and> v' = v \<and> ms_ps s' = (ms_ps s)\<lparr>ps_pt := phys_back (ms_kmem s') (ms_pt s)\<rparr>
    \<and> ram_changed (ms_kmem s) v (ms_kmem s') \<and> vmo_ok (ms_kmem s') v
    \<and> vmo_contents (ms_kmem s') v = splice (unat (alignment_offset e)) d (vmo_contents (ms_kmem s) v)"
proof (cases "0 < oe_file_size e")
  case False
  then have "r = Ok ()" "v' = v" "s' = s" "d = []" using eq d by (simp_all add: write_payload_def)
  then show ?thesis using ok by (simp add: ram_changed_refl splice_def)
next
  case True
  let ?o = "unat (alignment_offset e)"
  obtain x v1 m1 where w: "vmo_write ?o d v (ms_kmem s) = (x, v1, m1)" by (metis prod_cases3)
  have r: "r = res_map (\<lambda>_. ()) x" "v' = v1" "s' = set_kmem m1 s" using eq d True w by (simp_all add: write_payload_def)
  note sh = vmo_ok_shape [OF ok]
  have wc: "v1 = v \<and> ram_changed (ms_kmem s) v m1 \<and> (\<exists>m. x = Ok m)"
  proof (cases "vmo_size v \<le> ?o")
    case True
    then show ?thesis using w by (auto simp: vmo_write_def ram_changed_refl)
  next
    case False
    then show ?thesis using w vmo_write_loop_committed [OF _ all] sh by (simp add: vmo_write_def)
  qed
  have "vmo_wf (ms_kmem s) v" "vmo_committed_pages v \<noteq> [] \<or> vmo_size v = 0" using sh by auto
  note vc = vmo_write_contents [OF this w]
  then have con: "vmo_contents m1 v = splice ?o d (vmo_contents (ms_kmem s) v)" and wf1: "vmo_wf m1 v" using wc by auto
  have "vmo_ok m1 v" using vmo_ok_ram [OF ok _ wf1] wc by blast
  then show ?thesis using r wc con by auto
qed

section \<open>Mapping the frames\<close>

text \<open>With all pages present, the loop of the loader is the loop of the mapping calls.\<close>

lemma map_frames_eq:
  assumes "vmo_ok (kmem_at m p) v" "all_committed (kmem_at m p) v" "i + n \<le> page_count v" "vmo_size v < 2 ^ 64"
    and "map_frames n i k va fl v m p = (r, p')"
  shows "\<exists>m'. map_vmo_pages n i k 0 va fl v m p = (r, v, m', p') \<and> kmem_at m' p' = kmem_at m p'"
  using assms
proof (induction n arbitrary: i m p)
  case 0
  then show ?case by simp
next
  case (Suc n)
  note sh = vmo_ok_shape [OF Suc.prems(1)]
  have i: "i < page_count v" using Suc.prems(3) by simp
  have "Suc i * 4096 \<le> page_count v * 4096" using i by (intro mult_le_mono1) simp
  then have isz: "i * 4096 < vmo_size v" using sh by simp
  have "unat (word_of_nat (i * 4096) :: u64) = i * 4096" using isz Suc.prems(4) by (simp only: unat_of_nat) simp
  then have o: "unat (0 + word_of_nat (i * 4096) :: u64) = i * 4096" by simp
  obtain pa where pa: "slot_get (kmem_at m p) v i = Some pa" using Suc.prems(2) i unfolding all_committed_def by blast
  have sg: "slot_get m v j = slot_get (kmem_at m p) v j" for j by (rule slot_get_frame) (simp_all add: kmem_at_def)
  have gp: "get_page_phys m v (i * 4096) = Some pa" "get_page_phys (kmem_at m p) v (i * 4096) = Some pa"
    using pa isz by (simp_all add: get_page_phys_def PAGE_SIZE_def sg)
  have "vmo_committed_pages v ! i = Some pa" using Suc.prems(1) i pa unfolding vmo_ok_def vmo_owns_def by simp
  then have cp: "commit_page (i * 4096) v (kmem_at m p) = (Ok None, v, kmem_at m p)"
    using isz sh i by (simp add: commit_page_def Let_def PAGE_SIZE_def)
  have bk: "phys_back (kmem_at m p) p = p" by (simp add: phys_back_def)
  obtain q p1 where mp: "pt_map_va k (va + word_of_nat (i * 4096)) (word_of_nat pa) fl p = (q, p1)" by (metis prod.exhaust)
  have step: "map_vmo_pages (Suc n) i k 0 va fl v m p =
      (case q of Ok _ \<Rightarrow> map_vmo_pages n (Suc i) k 0 va fl v (kmem_at m p) p1 | Err e \<Rightarrow> (Err e, v, kmem_at m p, p1) | Panic \<Rightarrow> (Panic, v, kmem_at m p, p1))"
    unfolding map_vmo_pages.simps Let_def o cp prod.case res.case gp(2) option.case bk mp by (cases q) simp_all
  have step': "map_frames (Suc n) i k va fl v m p =
      (case q of Ok _ \<Rightarrow> map_frames n (Suc i) k va fl v m p1 | Err e \<Rightarrow> (Err e, p1) | Panic \<Rightarrow> (Panic, p1))"
    unfolding map_frames.simps gp(1) option.case mp by (cases q) simp_all
  have at1: "kmem_at (kmem_at m p) p' = kmem_at m p'" for p' by (simp add: kmem_at_def)
  show ?case
  proof (cases q)
    case (Ok x)
    have inv: "phys_inv (pw_phys p)" using vmo_ok_inv [OF Suc.prems(1)] by simp
    have t: "takes 3 (pw_phys p) (pw_phys p1)" using table_step_map [OF mp] inv by (simp add: table_step_def)
    then have "vmo_kept (kmem_at m p) v ((kmem_at m p)\<lparr>km_phys := pw_phys p1\<rparr>) v"
      using vmo_kept_grows [OF Suc.prems(1), of "pw_phys p1"] by (simp add: takes_def)
    then have ok1: "vmo_ok (kmem_at (kmem_at m p) p1) v" by (simp add: vmo_kept_def kmem_at_def)
    have mf: "map_frames n (Suc i) k va fl v m p1 = (r, p')" using Suc.prems(5) step' Ok by simp
    have mm: "map_frames n i k va fl v (kmem_at m q) p = map_frames n i k va fl v m p" for n i q p
    proof (induction n arbitrary: i p)
      case (Suc n)
      have "get_page_phys (kmem_at m q) v (i * 4096) = get_page_phys m v (i * 4096)"
        using slot_get_frame(1) [of "kmem_at m q" m v v] by (simp add: get_page_phys_def kmem_at_def)
      then show ?case using Suc by (simp split: option.splits res.splits prod.splits)
    qed simp
    have "all_committed (kmem_at (kmem_at m p) p1) v"
      using Suc.prems(2) slot_get_frame(1) [of "kmem_at (kmem_at m p) p1" "kmem_at m p" v v] by (simp add: all_committed_def kmem_at_def)
    from Suc.IH [OF ok1 this _ Suc.prems(4)] mf mm Suc.prems(3) at1
    show ?thesis unfolding step Ok by simp
  qed (use Suc.prems(5) step step' at1 in auto)
qed

text \<open>The only changes to the process state: the tables, and \<open>n\<close> more mappings in the region of slot \<open>k\<close>.\<close>

definition maps_more :: "nat \<Rightarrow> nat \<Rightarrow> mstate \<Rightarrow> mstate \<Rightarrow> bool" where
  "maps_more k n s s' \<longleftrightarrow> (\<exists>vm. ms_ps s' = (ms_ps s)\<lparr>ps_procs := (ps_procs (ms_ps s))[k := Some ((proc k (ms_ps s))\<lparr>pr_root_vmar := vm\<rparr>)], ps_pt := ms_pt s'\<rparr>
     \<and> vmar_base vm = vmar_base (pr_root_vmar (proc k (ms_ps s))) \<and> vmar_size vm = vmar_size (pr_root_vmar (proc k (ms_ps s)))
     \<and> length (vmar_mappings vm) = length (vmar_mappings (pr_root_vmar (proc k (ms_ps s)))) + n)"

lemma maps_more_refl:
  assumes "live_proc k s"
  shows "maps_more k 0 s s"
  unfolding maps_more_def using assms by (intro exI [of _ "pr_root_vmar (proc k (ms_ps s))"]) (simp add: live_proc_def list_update_same_conv option.expand)

lemma maps_more_pt:
  assumes "maps_more k n s0 s" "ms_ps s' = (ms_ps s)\<lparr>ps_pt := q\<rparr>"
  shows "maps_more k n s0 s'"
proof -
  obtain vm where vm: "ms_ps s = (ms_ps s0)\<lparr>ps_procs := (ps_procs (ms_ps s0))[k := Some ((proc k (ms_ps s0))\<lparr>pr_root_vmar := vm\<rparr>)], ps_pt := ms_pt s\<rparr>"
     "vmar_base vm = vmar_base (pr_root_vmar (proc k (ms_ps s0)))" "vmar_size vm = vmar_size (pr_root_vmar (proc k (ms_ps s0)))"
     "length (vmar_mappings vm) = length (vmar_mappings (pr_root_vmar (proc k (ms_ps s0)))) + n"
    using assms(1) unfolding maps_more_def by blast
  have q: "ms_pt s' = q" using assms(2) by simp
  have "ms_ps s' = (ms_ps s0)\<lparr>ps_procs := (ps_procs (ms_ps s0))[k := Some ((proc k (ms_ps s0))\<lparr>pr_root_vmar := vm\<rparr>)], ps_pt := ms_pt s'\<rparr>"
    unfolding q assms(2) by (subst vm(1)) simp
  then show ?thesis unfolding maps_more_def using vm by blast
qed

lemma maps_more_trans:
  assumes "maps_more k n s s1" "maps_more k m s1 s2" "live_proc k s"
  shows "maps_more k (n + m) s s2"
proof -
  obtain vm where vm: "ms_ps s1 = (ms_ps s)\<lparr>ps_procs := (ps_procs (ms_ps s))[k := Some ((proc k (ms_ps s))\<lparr>pr_root_vmar := vm\<rparr>)], ps_pt := ms_pt s1\<rparr>"
     "vmar_base vm = vmar_base (pr_root_vmar (proc k (ms_ps s)))" "vmar_size vm = vmar_size (pr_root_vmar (proc k (ms_ps s)))"
     "length (vmar_mappings vm) = length (vmar_mappings (pr_root_vmar (proc k (ms_ps s)))) + n"
    using assms(1) unfolding maps_more_def by blast
  obtain vm' where vm': "ms_ps s2 = (ms_ps s1)\<lparr>ps_procs := (ps_procs (ms_ps s1))[k := Some ((proc k (ms_ps s1))\<lparr>pr_root_vmar := vm'\<rparr>)], ps_pt := ms_pt s2\<rparr>"
     "vmar_base vm' = vmar_base (pr_root_vmar (proc k (ms_ps s1)))" "vmar_size vm' = vmar_size (pr_root_vmar (proc k (ms_ps s1)))"
     "length (vmar_mappings vm') = length (vmar_mappings (pr_root_vmar (proc k (ms_ps s1)))) + m"
    using assms(2) unfolding maps_more_def by blast
  have p1: "ps_procs (ms_ps s1) = (ps_procs (ms_ps s))[k := Some ((proc k (ms_ps s))\<lparr>pr_root_vmar := vm\<rparr>)]" using arg_cong [OF vm(1), of ps_procs] by simp
  then have pk: "proc k (ms_ps s1) = (proc k (ms_ps s))\<lparr>pr_root_vmar := vm\<rparr>" using assms(3) by (simp add: live_proc_def)
  have "ms_ps s2 = (ms_ps s)\<lparr>ps_procs := (ps_procs (ms_ps s))[k := Some ((proc k (ms_ps s))\<lparr>pr_root_vmar := vm'\<rparr>)], ps_pt := ms_pt s2\<rparr>"
    using vm'(1) assms(3) unfolding pk p1 by (subst (asm) vm(1)) (simp add: live_proc_def)
  then show ?thesis unfolding maps_more_def using vm vm' pk by (intro exI [of _ vm']) simp
qed

lemma map_backing_spec:
  assumes wf: "pt_wf k (ms_pt s)" and live: "live_proc k s" and ok: "vmo_ok (ms_kmem s) v" and all: "all_committed (ms_kmem s) v"
    and sz: "unat sz = vmo_size v" "4096 dvd unat va" "unat va + unat sz \<le> 2 ^ 48" "fits_region va sz (pr_root_vmar (proc k (ms_ps s)))"
    and eq: "map_backing k va sz flags fl v s = (r, s')"
  shows "(r = Ok () \<or> r = Err NoMemory \<and> end_free_page (ms_phys s) < next_free_page (ms_phys s) + 4 * vmo_size v)
    \<and> pt_wf k (ms_pt s') \<and> same_roots (ms_pt s) (ms_pt s') \<and> takes (4 * page_count v) (ms_phys s) (ms_phys s')
    \<and> ms_kmem s' = (ms_kmem s)\<lparr>km_phys := ms_phys s'\<rparr> \<and> vmo_ok (ms_kmem s') v
    \<and> maps_more k 1 s s'
    \<and> (\<forall>a. \<not> (unat va div 4096 \<le> page_of a \<and> page_of a < unat va div 4096 + page_count v) \<longrightarrow> pt_translate_va k a (ms_pt s') = pt_translate_va k a (ms_pt s))
    \<and> (r = Ok () \<longrightarrow> mapped_from k 0 va 0 (ms_kmem s') v (ms_pt s') (page_count v))"
proof -
  note sh = vmo_ok_shape [OF ok]
  let ?vm = "pr_root_vmar (proc k (ms_ps s))"
  obtain en where rv: "reserve_mapping (vmo_id v) 0 va sz flags ?vm = (Ok (), ?vm\<lparr>vmar_mappings := vmar_mappings ?vm @ [en]\<rparr>)"
    using sz(2,4) by (auto simp: reserve_mapping_def fits_region_def page_aligned_iff not_le [symmetric] simp del: not_le)
  let ?s1 = "s\<lparr>ms_ps := upd_proc k (\<lambda>p. p\<lparr>pr_root_vmar := ?vm\<lparr>vmar_mappings := vmar_mappings ?vm @ [en]\<rparr>\<rparr>) (ms_ps s)\<rparr>"
  have n: "unat sz div 4096 = page_count v" using sz(1) by (simp add: page_count_def PAGE_SIZE_def)
  have pt1: "ms_pt ?s1 = ms_pt s" "ms_meta ?s1 = ms_meta s" by (simp_all add: upd_proc_def)
  obtain q p where mf: "map_frames (page_count v) 0 k va fl v (ms_meta s) (ms_pt s) = (q, p)" by (metis prod.exhaust)
  have r: "r = q" and s': "s' = ?s1\<lparr>ms_ps := (ms_ps ?s1)\<lparr>ps_pt := p\<rparr>\<rparr>"
    using eq rv mf pt1 n by (simp_all add: map_backing_def Let_def)
  have km: "ms_kmem s = kmem_at (ms_meta s) (ms_pt s)" by (simp add: ms_kmem_def)
  have vs: "vmo_size v < 2 ^ 64" using sz(1) unsigned_less [where 'a = nat, of sz] by simp
  have pcz: "page_count v * 4096 = unat sz" using sh sz(1) by simp
  obtain m' where mv: "map_vmo_pages (page_count v) 0 k 0 va fl v (ms_meta s) (ms_pt s) = (q, v, m', p)" and m': "kmem_at m' p = kmem_at (ms_meta s) p"
    using map_frames_eq [OF ok [unfolded km] all [unfolded km] _ vs mf] by auto
  have "unat (0 :: u64) + page_count v * 4096 \<le> vmo_size v" "0 + page_count v = page_count v" "4096 dvd unat (0 :: u64)" "unat va + page_count v * 4096 \<le> 2 ^ 48"
    using sz pcz by simp_all
  note sp = map_vmo_pages_spec [OF wf ok [unfolded km] this(1,2,3) sz(2) vs this(4) mv, unfolded m']
  have f: "ms_pt s' = p" "ms_kmem s' = kmem_at (ms_meta s) p" by (simp_all add: s' ms_kmem_def upd_proc_def)
  have k': "kmem_at (ms_meta s) p = (ms_kmem s)\<lparr>km_phys := pw_phys p\<rparr>" by (simp add: ms_kmem_def kmem_at_def)
  have sz4: "4 * page_count v * 4096 = 4 * vmo_size v" using sh by simp
  have "maps_more k 1 s s'"
    unfolding maps_more_def using live by (intro exI [of _ "?vm\<lparr>vmar_mappings := vmar_mappings ?vm @ [en]\<rparr>"]) (auto simp: s' upd_proc_def live_proc_def)
  note pr = this
  show ?thesis using sp pr unfolding f r sz4 by (auto simp: vmo_kept_def k')
qed

section \<open>A segment\<close>

text \<open>The pages of a segment and the bytes they hold.\<close>

definition seg_first :: "ohlk_entry \<Rightarrow> nat" where
  "seg_first e = unat (oe_virtual_address e) div 4096"

definition seg_off :: "ohlk_entry \<Rightarrow> nat" where
  "seg_off e = unat (oe_virtual_address e) mod 4096"

definition seg_pages :: "ohlk_entry \<Rightarrow> nat" where
  "seg_pages e = (unat (oe_mem_size e) + seg_off e + 4095) div 4096"

definition seg_data :: "ohlk_parser \<Rightarrow> ohlk_entry \<Rightarrow> u8 list" where
  "seg_data parser e = (if 0 < oe_file_size e then (case get_segment_data e parser of FOk d \<Rightarrow> d | _ \<Rightarrow> []) else [])"

definition seg_image :: "ohlk_parser \<Rightarrow> ohlk_entry \<Rightarrow> u8 list" where
  "seg_image parser e = splice (seg_off e) (seg_data parser e) (replicate (seg_pages e * 4096) 0)"

definition seg_fits :: "ohlk_parser \<Rightarrow> ohlk_entry \<Rightarrow> bool" where
  "seg_fits parser e \<longleftrightarrow> 0 < oe_mem_size e \<and> unat (oe_virtual_address e) + unat (oe_mem_size e) \<le> 2 ^ 28
     \<and> seg_pages e \<le> VMO_MAX_PAGES \<and> (0 < oe_file_size e \<longrightarrow> (\<exists>d. get_segment_data e parser = FOk d))"

lemma unat_page_floor: "unat ((x :: u64) AND - 4096) = unat x div 4096 * 4096"
  using unat_and_not_mask [of x 12] by (simp add: mask_eq_exp_minus_1 minus_mod_eq_div_mult)

lemma seg_words:
  assumes "seg_fits parser e"
  shows "unat (aligned_vaddr e) = seg_first e * 4096" "unat (alignment_offset e) = seg_off e" "unat (aligned_size e) = seg_pages e * 4096"
    "pages_for (aligned_size e) = seg_pages e" "0 < seg_pages e" "seg_first e * 4096 + seg_pages e * 4096 \<le> 2 ^ 28"
proof -
  let ?va = "unat (oe_virtual_address e)" and ?sz = "unat (oe_mem_size e)"
  have fit: "?va + ?sz \<le> 2 ^ 28" "0 < ?sz" using assms by (auto simp: seg_fits_def unat_gt_0)
  show a: "unat (aligned_vaddr e) = seg_first e * 4096" by (simp add: aligned_vaddr_def seg_first_def unat_page_floor)
  have le: "aligned_vaddr e \<le> oe_virtual_address e" using a by (simp add: word_le_nat_alt seg_first_def)
  show o: "unat (alignment_offset e) = seg_off e"
    using a le by (simp add: alignment_offset_def unat_sub seg_first_def seg_off_def minus_div_mult_eq_mod)
  have so: "seg_off e < 4096" "seg_off e \<le> ?va" "?va = seg_first e * 4096 + seg_off e" by (simp_all add: seg_off_def seg_first_def)
  have "unat (oe_mem_size e + alignment_offset e) = ?sz + seg_off e" using fit so by (subst unat_add_no_wrap) (simp_all add: o)
  then have "unat (oe_mem_size e + alignment_offset e + 4095) = ?sz + seg_off e + 4095" using fit so by (subst unat_add_no_wrap) simp_all
  then show s: "unat (aligned_size e) = seg_pages e * 4096" by (simp add: aligned_size_def unat_page_floor seg_pages_def)
  have bound: "seg_first e * 4096 + (?sz + seg_off e) \<le> 65536 * 4096" using fit so by simp
  have "(?sz + seg_off e + 4095) div 4096 \<le> 65536 - seg_first e"
  proof -
    have "?sz + seg_off e + 4095 < (65536 - seg_first e + 1) * 4096" using bound by simp
    then show ?thesis by (simp only: less_mult_imp_div_less less_Suc_eq_le [symmetric] Suc_eq_plus1)
  qed
  moreover have "seg_first e \<le> 65536" using bound by simp
  ultimately show b: "seg_first e * 4096 + seg_pages e * 4096 \<le> 2 ^ 28" by (simp add: seg_pages_def)
  show "0 < seg_pages e" using fit by (simp add: seg_pages_def div_greater_zero_iff)
  have "unat (aligned_size e + 4095) = seg_pages e * 4096 + 4095" using b s by (subst unat_add_no_wrap) simp_all
  then show "pages_for (aligned_size e) = seg_pages e" by (simp add: pages_for_def unat_div_distrib)
qed

text \<open>The bytes a program finds from an address on.\<close>

definition user_holds :: "nat \<Rightarrow> ptw \<Rightarrow> nat \<Rightarrow> u8 list \<Rightarrow> bool" where
  "user_holds k p start bs \<longleftrightarrow> (\<forall>j<length bs. \<exists>a. pt_translate_va k (word_of_nat (start + j)) p = Some a
     \<and> a < next_free_page (pw_phys p) \<and> ram (pw_phys p) a = bs ! j)"

definition page_disjoint :: "nat \<Rightarrow> nat \<Rightarrow> nat \<Rightarrow> nat \<Rightarrow> bool" where
  "page_disjoint f n g m \<longleftrightarrow> f + n \<le> g \<or> g + m \<le> f"

lemma page_of_nat:
  assumes "f * 4096 + n * 4096 \<le> 2 ^ 48" "j < n * 4096"
  shows "f \<le> page_of (word_of_nat (f * 4096 + j)) \<and> page_of (word_of_nat (f * 4096 + j)) < f + n"
proof -
  have "unat (word_of_nat (f * 4096 + j) :: u64) = f * 4096 + j" using assms by (simp only: unat_of_nat) simp
  moreover have "(f * 4096 + j) div 4096 = f + j div 4096" by simp
  moreover have "j div 4096 < n" using assms(2) by (simp add: less_mult_imp_div_less)
  moreover have "f + j div 4096 < 2 ^ 36" using assms(1) calculation(3) by simp
  ultimately show ?thesis by (simp add: page_of_def)
qed

lemma user_holds_kept:
  assumes h: "user_holds k p (f * 4096) bs" and l: "length bs = n * 4096" "f * 4096 + n * 4096 \<le> 2 ^ 48"
    and kb: "kept_below (pw_phys p) (pw_phys p')"
    and tr: "\<forall>a. f \<le> page_of a \<and> page_of a < f + n \<longrightarrow> pt_translate_va k a p' = pt_translate_va k a p"
  shows "user_holds k p' (f * 4096) bs"
  unfolding user_holds_def
proof (intro allI impI)
  fix j assume j: "j < length bs"
  then obtain a where a: "pt_translate_va k (word_of_nat (f * 4096 + j)) p = Some a" "a < next_free_page (pw_phys p)" "ram (pw_phys p) a = bs ! j"
    using h unfolding user_holds_def by blast
  have "pt_translate_va k (word_of_nat (f * 4096 + j)) p' = Some a" using a(1) tr page_of_nat [OF l(2)] j l(1) by simp
  moreover have "a < next_free_page (pw_phys p')" "ram (pw_phys p') a = bs ! j" using a kb by (auto simp: kept_below_def)
  ultimately show "\<exists>a. pt_translate_va k (word_of_nat (f * 4096 + j)) p' = Some a \<and> a < next_free_page (pw_phys p') \<and> ram (pw_phys p') a = bs ! j" by blast
qed

lemma mapped_holds:
  assumes mp: "mapped_from k 0 va 0 (kmem_at m p) v p (page_count v)" and ok: "vmo_ok (kmem_at m p) v"
    and va: "unat va = f * 4096" "f * 4096 + page_count v * 4096 \<le> 2 ^ 48"
  shows "user_holds k p (f * 4096) (vmo_contents (kmem_at m p) v)"
  unfolding user_holds_def
proof (intro allI impI)
  fix j assume "j < length (vmo_contents (kmem_at m p) v)"
  then have j: "j < vmo_size v" "j < page_count v * 4096" using vmo_ok_shape [OF ok] by (simp_all add: vmo_contents_def)
  have al: "4096 dvd unat (0 :: u64)" "4096 dvd unat va" "unat va + page_count v * 4096 \<le> 2 ^ 48" using va by simp_all
  obtain q where q: "slot_get (kmem_at m p) v ((unat (0 :: u64) + j) div 4096) = Some q" "pt_translate_va k (va + word_of_nat j) p = Some (q + (unat (0 :: u64) + j) mod 4096)"
    by (rule mapped_byte [OF mp al j(2)])
  have "va + word_of_nat j = word_of_nat (f * 4096 + j)" by (metis va(1) of_nat_add of_nat_unat ucast_id)
  then have tr: "pt_translate_va k (word_of_nat (f * 4096 + j)) p = Some (q + j mod 4096)" using q(2) by simp
  have pg: "j div 4096 < page_count v" using j(2) by (simp add: less_mult_imp_div_less)
  have qs: "slot_get (kmem_at m p) v (j div 4096) = Some q" using q(1) by simp
  have fs: "frame_settled (pw_phys p) q" using vmo_ok_frame(3) [OF ok pg qs] by simp
  have "q < RAM_BASE + RAM_SIZE" using ok pg qs unfolding vmo_ok_def vmo_owns_def by blast
  then have "q + j mod 4096 < next_free_page (pw_phys p)" using fs mod_less_divisor [of 4096 j] by (auto simp: frame_settled_def)
  moreover have "ram (pw_phys p) (q + j mod 4096) = vmo_contents (kmem_at m p) v ! j"
    using qs j(1) by (simp add: vmo_contents_def vmo_byte_def PAGE_SIZE_def)
  ultimately show "\<exists>a. pt_translate_va k (word_of_nat (f * 4096 + j)) p = Some a \<and> a < next_free_page (pw_phys p) \<and> ram (pw_phys p) a = vmo_contents (kmem_at m p) v ! j"
    using tr by blast
qed

section \<open>Loading the segments\<close>

definition loader_inv :: "nat \<Rightarrow> mstate \<Rightarrow> bool" where
  "loader_inv k s \<longleftrightarrow> pt_wf k (ms_pt s) \<and> live_proc k s \<and> vmar_base (pr_root_vmar (proc k (ms_ps s))) = 0
     \<and> vmar_size (pr_root_vmar (proc k (ms_ps s))) = 256 * 1024 * 1024"

lemma maps_more_region:
  assumes "maps_more k n s s'" "live_proc k s"
  shows "live_proc k s'" "vmar_base (pr_root_vmar (proc k (ms_ps s'))) = vmar_base (pr_root_vmar (proc k (ms_ps s)))"
    "vmar_size (pr_root_vmar (proc k (ms_ps s'))) = vmar_size (pr_root_vmar (proc k (ms_ps s)))"
    "length (vmar_mappings (pr_root_vmar (proc k (ms_ps s')))) = length (vmar_mappings (pr_root_vmar (proc k (ms_ps s)))) + n"
proof -
  obtain vm where vm: "ms_ps s' = (ms_ps s)\<lparr>ps_procs := (ps_procs (ms_ps s))[k := Some ((proc k (ms_ps s))\<lparr>pr_root_vmar := vm\<rparr>)], ps_pt := ms_pt s'\<rparr>"
     "vmar_base vm = vmar_base (pr_root_vmar (proc k (ms_ps s)))" "vmar_size vm = vmar_size (pr_root_vmar (proc k (ms_ps s)))"
     "length (vmar_mappings vm) = length (vmar_mappings (pr_root_vmar (proc k (ms_ps s)))) + n"
    using assms(1) unfolding maps_more_def by blast
  have p1: "ps_procs (ms_ps s') = (ps_procs (ms_ps s))[k := Some ((proc k (ms_ps s))\<lparr>pr_root_vmar := vm\<rparr>)]" using arg_cong [OF vm(1), of ps_procs] by simp
  then show "live_proc k s'" "vmar_base (pr_root_vmar (proc k (ms_ps s'))) = vmar_base (pr_root_vmar (proc k (ms_ps s)))"
    "vmar_size (pr_root_vmar (proc k (ms_ps s'))) = vmar_size (pr_root_vmar (proc k (ms_ps s)))"
    "length (vmar_mappings (pr_root_vmar (proc k (ms_ps s')))) = length (vmar_mappings (pr_root_vmar (proc k (ms_ps s)))) + n"
    using assms(2) vm by (simp_all add: live_proc_def)
qed

text \<open>What loading a range of \<open>n\<close> pages from page \<open>f\<close> on does.\<close>

definition range_loaded :: "nat \<Rightarrow> nat \<Rightarrow> nat \<Rightarrow> u8 list \<Rightarrow> mstate \<Rightarrow> mstate \<Rightarrow> bool" where
  "range_loaded k f n bs s s' \<longleftrightarrow> loader_inv k s' \<and> maps_more k 1 s s' \<and> same_roots (ms_pt s) (ms_pt s') \<and> kept_below (ms_phys s) (ms_phys s')
     \<and> next_free_page (ms_phys s') \<le> next_free_page (ms_phys s) + (9 + 5 * n) * 4096
     \<and> (\<forall>a. \<not> (f \<le> page_of a \<and> page_of a < f + n) \<longrightarrow> pt_translate_va k a (ms_pt s') = pt_translate_va k a (ms_pt s))
     \<and> user_holds k (ms_pt s') (f * 4096) bs"

lemma ms_kmem_at: "ms_kmem s = kmem_at (ms_meta s) (ms_pt s)"
  by (simp add: ms_kmem_def)

lemma loader_inv_phys: "loader_inv k s \<Longrightarrow> phys_inv (ms_phys s)"
  by (simp add: loader_inv_def pt_wf_def root_wf_def)

text \<open>Frames of the object lie above the cursor at its creation.\<close>

lemma frames_above:
  assumes ok: "vmo_ok w v" and ow: "owned_ok lo (vmo_owned v) (km_phys w)" and a: "in_frames w v a"
  shows "lo \<le> a \<and> a < RAM_BASE + RAM_SIZE"
proof -
  obtain i p where i: "i < page_count v" "slot_get w v i = Some p" "p \<le> a" "a < p + 4096" using a unfolding in_frames_def by blast
  have "vmo_committed_pages v ! i = Some p" using ok i unfolding vmo_ok_def vmo_owns_def by simp
  then have "Some p \<in> set (vmo_committed_pages v)" using vmo_ok_shape [OF ok] i(1) by (metis nth_mem)
  then have "p \<in> set (vmo_owned v)" by (simp add: vmo_owned_def set_live_slots)
  then have p: "lo \<le> p" "4096 dvd p" "p < RAM_BASE + RAM_SIZE" using ow by (auto simp: owned_ok_def)
  have "p + 4096 \<le> RAM_BASE + RAM_SIZE" by (rule aligned_step [OF p(2) RAM_end_dvd p(3)])
  then show ?thesis using i p by simp
qed

lemma ram_changed_phys:
  assumes "ram_changed w v w'"
  shows "next_free_page (km_phys w') = next_free_page (km_phys w)" "end_free_page (km_phys w') = end_free_page (km_phys w)"
    "phys_inv (km_phys w') = phys_inv (km_phys w)" "page_tags (km_phys w') = page_tags (km_phys w)"
    "\<not> in_frames w v a \<Longrightarrow> ram (km_phys w') a = ram (km_phys w) a"
  using assms by (auto simp: ram_changed_def phys_inv_def)

text \<open>Mapping a filled object at page \<open>f\<close>; its frames were taken since the state \<open>s0\<close>.\<close>

lemma map_range_loaded:
  assumes inv0: "loader_inv k s0" and room: "length (vmar_mappings (pr_root_vmar (proc k (ms_ps s0)))) < MAX_MAPPINGS"
    and ps: "ms_ps s = (ms_ps s0)\<lparr>ps_pt := phys_back (ms_kmem s) (ms_pt s0)\<rparr>"
    and ok: "vmo_ok (ms_kmem s) v" "all_committed (ms_kmem s) v" and ow: "owned_ok (next_free_page (ms_phys s0)) (vmo_owned v) (ms_phys s)"
    and kb: "kept_below (ms_phys s0) (ms_phys s)" "next_free_page (ms_phys s) \<le> next_free_page (ms_phys s0) + (9 + page_count v) * 4096"
    and va: "unat va = f * 4096" "unat sz = vmo_size v" "f * 4096 + vmo_size v \<le> 2 ^ 28" "0 < vmo_size v"
    and eq: "map_backing k va sz flags fl v s = (r, s')"
  shows "(r = Ok () \<or> r = Err NoMemory \<and> end_free_page (ms_phys s0) < next_free_page (ms_phys s0) + (9 + 5 * page_count v) * 4096)
    \<and> owned_ok (next_free_page (ms_phys s0)) (vmo_owned v) (ms_phys s') \<and> phys_inv (ms_phys s')
    \<and> (r = Ok () \<longrightarrow> range_loaded k f (page_count v) (vmo_contents (ms_kmem s) v) s0 s')"
proof -
  note i0 = inv0 [unfolded loader_inv_def]
  have pt: "pt_wf k (ms_pt s)" "same_roots (ms_pt s0) (ms_pt s)" and tr: "pt_translate_va k a (ms_pt s) = pt_translate_va k a (ms_pt s0)" for a
  proof -
    have e: "ms_pt s = phys_back (ms_kmem s) (ms_pt s0)" using arg_cong [OF ps, of ps_pt] by simp
    show "same_roots (ms_pt s0) (ms_pt s)" by (subst e) (simp add: same_roots_def)
    show "pt_translate_va k a (ms_pt s) = pt_translate_va k a (ms_pt s0)" by (subst e) simp
    have "tree_wf (pw_pte (ms_pt s0)) (pt_l0_pa (tree k (ms_pt s0))) (next_free_page (ms_phys s))"
      using i0 kb(1) by (auto simp: pt_wf_def root_wf_def kept_below_def intro: tree_wf_mono)
    moreover have "pw_pte (ms_pt s) = pw_pte (ms_pt s0)" "pw_trees (ms_pt s) = pw_trees (ms_pt s0)" by (subst e, simp)+
    ultimately show "pt_wf k (ms_pt s)" using i0 kb(1) by (simp add: pt_wf_def root_wf_def kept_below_def)
  qed
  have pr: "ps_procs (ms_ps s) = ps_procs (ms_ps s0)" using arg_cong [OF ps, of ps_procs] by simp
  have live: "live_proc k s" using i0 pr by (simp add: live_proc_def)
  note sh = vmo_ok_shape [OF ok(1)]
  have al: "4096 dvd unat va" "unat va + unat sz \<le> 2 ^ 48" using va by simp_all
  have add: "unat (va + sz) = f * 4096 + vmo_size v" using va by (subst unat_add_no_wrap) simp_all
  have "sz \<noteq> 0" using va(2,4) by auto
  moreover have "va + sz \<le> 256 * 1024 * 1024" using add va(3) by (simp add: word_le_nat_alt)
  ultimately have fits: "fits_region va sz (pr_root_vmar (proc k (ms_ps s)))" using i0 room by (simp add: fits_region_def pr)
  note mb = map_backing_spec [OF pt(1) live ok va(2) al fits eq]
  have t: "takes (4 * page_count v) (ms_phys s) (ms_phys s')" using mb by blast
  have g: "grows (ms_phys s) (ms_phys s')" "phys_inv (ms_phys s')" using t by (simp_all add: takes_def)
  have nx: "next_free_page (ms_phys s') \<le> next_free_page (ms_phys s0) + (9 + 5 * page_count v) * 4096" using t kb(2) by (simp add: takes_def)
  have kb': "kept_below (ms_phys s0) (ms_phys s')" by (rule kept_below_trans [OF kb(1) kept_below_takes [OF t]])
  have err: "r = Ok () \<or> r = Err NoMemory \<and> end_free_page (ms_phys s0) < next_free_page (ms_phys s0) + (9 + 5 * page_count v) * 4096"
    using mb kb sh by (auto simp: kept_below_def)
  have ow': "owned_ok (next_free_page (ms_phys s0)) (vmo_owned v) (ms_phys s')" by (rule owned_ok_grows [OF ow g(1)])
  have mm: "maps_more k 1 s s'" using mb by blast
  then have mm0: "maps_more k 1 s0 s'" using ps pr unfolding maps_more_def by simp
  have inv': "loader_inv k s'" using mb maps_more_region [OF mm0] i0 by (simp add: loader_inv_def)
  have km': "ms_kmem s' = (ms_kmem s)\<lparr>km_phys := ms_phys s'\<rparr>" and ok': "vmo_ok (ms_kmem s') v" using mb by blast+
  have con: "vmo_contents (ms_kmem s') v = vmo_contents (ms_kmem s) v"
    using vmo_kept_grows [OF ok(1), of "ms_phys s'"] g unfolding km' by (simp add: vmo_kept_def vmo_contents_def)
  have "range_loaded k f (page_count v) (vmo_contents (ms_kmem s) v) s0 s'" if "r = Ok ()"
  proof -
    have mf: "mapped_from k 0 va 0 (ms_kmem s') v (ms_pt s') (page_count v)" using mb that by blast
    have fp: "f * 4096 + page_count v * 4096 \<le> 2 ^ 48" using sh va(3) by simp
    have "user_holds k (ms_pt s') (f * 4096) (vmo_contents (ms_kmem s) v)"
      using mapped_holds [OF mf [unfolded ms_kmem_at] ok' [unfolded ms_kmem_at] va(1) fp] con unfolding ms_kmem_at by simp
    moreover have "unat va div 4096 = f" using va(1) by simp
    ultimately show ?thesis using mb tr inv' mm0 kb' nx same_roots_trans [OF pt(2)] by (auto simp: range_loaded_def)
  qed
  then show ?thesis using err ow' g(2) by blast
qed

lemma release_range:
  assumes "range_loaded k f n bs s0 s" "owned_ok lo (vmo_owned v) (ms_phys s)" "release (Ok x) v s = (r, s')"
  shows "r = Ok x \<and> range_loaded k f n bs s0 s'"
proof -
  have inv: "phys_inv (ms_phys s)" using assms(1) loader_inv_phys by (auto simp: range_loaded_def)
  obtain q where r: "r = Ok x" and s': "s' = set_kmem ((ms_kmem s)\<lparr>km_phys := q\<rparr>) s" and q: "phys_inv q" "next_free_page q = next_free_page (ms_phys s)"
    "end_free_page q = end_free_page (ms_phys s)" "ram q = ram (ms_phys s)"
    using release_owned [OF assms(2) inv _ assms(3)] by auto
  let ?m = "(ms_kmem s)\<lparr>km_phys := q\<rparr>"
  have ps: "ms_ps s' = (ms_ps s)\<lparr>ps_pt := phys_back ?m (ms_pt s)\<rparr>" by (simp add: s')
  have pt: "ms_pt s' = phys_back ?m (ms_pt s)" "ms_phys s' = q" by (simp_all add: s')
  have wf: "pt_wf k (ms_pt s)" using assms(1) by (simp add: range_loaded_def loader_inv_def)
  have "pt_wf k (ms_pt s')" using wf q by (simp add: pt_wf_def root_wf_def pt)
  moreover have "ps_procs (ms_ps s') = ps_procs (ms_ps s)" by (simp add: ps)
  moreover have "maps_more k 1 s0 s'" using assms(1) maps_more_pt [OF _ ps] unfolding range_loaded_def by blast
  moreover have "user_holds k (ms_pt s') (f * 4096) bs" using assms(1) q by (simp add: range_loaded_def user_holds_def pt)
  ultimately show ?thesis using assms(1) r q by (simp add: range_loaded_def loader_inv_def live_proc_def same_roots_def pt kept_below_def)
qed

lemma load_program_segment_spec:
  assumes inv: "loader_inv k s" and room: "length (vmar_mappings (pr_root_vmar (proc k (ms_ps s)))) < MAX_MAPPINGS"
    and fit: "seg_fits parser e" and eq: "load_program_segment k parser e s = (r, s')"
  shows "r = Ok () \<and> range_loaded k (seg_first e) (seg_pages e) (seg_image parser e) s s'
    \<or> r = Err NoMemory \<and> end_free_page (ms_phys s) < next_free_page (ms_phys s) + (9 + 5 * seg_pages e) * 4096"
proof -
  note w = seg_words [OF fit]
  let ?n = "seg_pages e" and ?lo = "next_free_page (ms_phys s)"
  have pinv: "phys_inv (ms_phys s)" by (rule loader_inv_phys [OF inv])
  have base: "vmar_base (pr_root_vmar (proc k (ms_ps s))) = 0" using inv by (simp add: loader_inv_def)
  have sz: "aligned_size e \<noteq> 0" "pages_for (aligned_size e) \<le> VMO_MAX_PAGES" "0 < pages_for (aligned_size e)"
    using w fit by (auto simp: seg_fits_def)
  obtain q s1 where nb: "new_backing (aligned_size e) s = (q, s1)" by (metis prod.exhaust)
  from new_backing_spec [OF pinv sz nb] show ?thesis
  proof (elim disjE exE conjE)
    assume "q = Err NoMemory" "end_free_page (ms_phys s) < next_free_page (ms_phys s) + (9 + pages_for (aligned_size e)) * 4096"
    then show ?thesis using eq nb w(4) by (simp add: load_program_segment_def Let_def)
  next
    fix v m assume q: "q = Ok v" and s1: "s1 = set_kmem m s" and ok: "vmo_ok m v" "all_committed m v" and vs: "vmo_size v = pages_for (aligned_size e) * 4096"
      and con: "vmo_contents m v = replicate (vmo_size v) 0" and ow: "owned_ok ?lo (vmo_owned v) (km_phys m)"
      and t: "takes (9 + pages_for (aligned_size e)) (ms_phys s) (km_phys m)"
    have km1: "ms_kmem s1 = m" by (simp add: s1)
    have pc: "page_count v = ?n" using vs w(4) by (simp add: page_count_def PAGE_SIZE_def)
    obtain x v2 s2 where wp: "write_payload e parser v s1 = (x, v2, s2)" by (metis prod_cases3)
    have "if 0 < oe_file_size e then get_segment_data e parser = FOk (seg_data parser e) else seg_data parser e = []"
      using fit by (auto simp: seg_data_def seg_fits_def)
    note ws = write_payload_spec [OF _ _ this wp, unfolded km1, OF ok]
    have x: "x = Ok ()" "v2 = v" and ps2: "ms_ps s2 = (ms_ps s1)\<lparr>ps_pt := phys_back (ms_kmem s2) (ms_pt s1)\<rparr>"
      and rc: "ram_changed m v (ms_kmem s2)" and ok2: "vmo_ok (ms_kmem s2) v"
      and con2: "vmo_contents (ms_kmem s2) v = splice (unat (alignment_offset e)) (seg_data parser e) (vmo_contents m v)"
      using ws by blast+
    have img: "vmo_contents (ms_kmem s2) v = seg_image parser e" using con2 con vs w(2,4) by (simp add: seg_image_def)
    have ps: "ms_ps s2 = (ms_ps s)\<lparr>ps_pt := phys_back (ms_kmem s2) (ms_pt s)\<rparr>" unfolding ps2 by (simp add: s1 phys_back_def)
    have ph: "km_phys (ms_kmem s2) = ms_phys s2" by simp
    note rp = ram_changed_phys [OF rc, unfolded ph]
    have all2: "all_committed (ms_kmem s2) v" using ok(2) ram_changed_frame(1) [OF rc] by (simp add: all_committed_def)
    have ow2: "owned_ok ?lo (vmo_owned v) (ms_phys s2)" using ow rp by (simp add: owned_ok_def)
    have "ram (ms_phys s2) a = ram (ms_phys s) a" if "a < ?lo \<or> RAM_BASE + RAM_SIZE \<le> a" for a
    proof -
      have "\<not> in_frames m v a" using frames_above [OF ok(1) ow] that by (meson linorder_not_less)
      then show ?thesis using rp(5) t that by (auto simp: takes_def grows_def)
    qed
    then have kb: "kept_below (ms_phys s) (ms_phys s2)" using rp t by (auto simp: kept_below_def takes_def grows_def)
    have nx: "next_free_page (ms_phys s2) \<le> ?lo + (9 + page_count v) * 4096" using rp t w(4) pc by (simp add: takes_def)
    obtain y s3 where mb: "map_backing k (aligned_vaddr e) (aligned_size e) (segment_flags (oe_ty e)) (segment_map_flags (oe_ty e)) v s2 = (y, s3)"
      by (metis prod.exhaust)
    have va: "unat (aligned_size e) = vmo_size v" "seg_first e * 4096 + vmo_size v \<le> 2 ^ 28" "0 < vmo_size v" using w vs by simp_all
    note ml = map_range_loaded [OF inv room ps ok2 all2 ow2 kb nx w(1) va mb]
    have rel: "release y v s3 = (r, s')" using eq nb q wp x mb base by (simp add: load_program_segment_def Let_def)
    show ?thesis
    proof (cases "y = Ok ()")
      case True
      have "range_loaded k (seg_first e) ?n (seg_image parser e) s s3" using ml True pc img by simp
      from release_range [OF this _ rel [unfolded True]] ml show ?thesis by blast
    next
      case False
      then have y: "y = Err NoMemory" "end_free_page (ms_phys s) < ?lo + (9 + 5 * ?n) * 4096" using ml pc by auto
      have "r = Err NoMemory" using release_owned [OF _ _ _ rel, of ?lo] ml y by auto
      then show ?thesis using y by simp
    qed
  qed
qed

text \<open>The whole loop: every loadable segment is in memory at the end, and no earlier range is disturbed.\<close>

definition need :: "ohlk_entry list \<Rightarrow> nat" where
  "need es = sum_list (map (\<lambda>e. 9 + 5 * seg_pages e) es)"

lemma length_seg_image [simp]: "length (seg_image parser e) = seg_pages e * 4096"
  by (simp add: seg_image_def)

lemma load_segments_spec:
  assumes "loader_inv k s" "length (vmar_mappings (pr_root_vmar (proc k (ms_ps s)))) + length (filter loadable es) \<le> MAX_MAPPINGS"
    and "map (\<lambda>i. get_entry i parser) is = map FOk es" "\<forall>e\<in>set (filter loadable es). seg_fits parser e"
    and "sorted_wrt (\<lambda>d e. page_disjoint (seg_first d) (seg_pages d) (seg_first e) (seg_pages e)) (filter loadable es)"
    and "load_segments is k parser found s = (r, s')"
  shows "r = Ok (fold (entry_in 0 (oh_entry_point (op_header parser))) (filter loadable es) found)
      \<and> loader_inv k s' \<and> maps_more k (length (filter loadable es)) s s' \<and> same_roots (ms_pt s) (ms_pt s') \<and> kept_below (ms_phys s) (ms_phys s')
      \<and> next_free_page (ms_phys s') \<le> next_free_page (ms_phys s) + need (filter loadable es) * 4096
      \<and> (\<forall>a. (\<forall>e\<in>set (filter loadable es). \<not> (seg_first e \<le> page_of a \<and> page_of a < seg_first e + seg_pages e))
           \<longrightarrow> pt_translate_va k a (ms_pt s') = pt_translate_va k a (ms_pt s))
      \<and> (\<forall>e\<in>set (filter loadable es). user_holds k (ms_pt s') (seg_first e * 4096) (seg_image parser e))
    \<or> r = Err NoMemory \<and> end_free_page (ms_phys s) < next_free_page (ms_phys s) + need (filter loadable es) * 4096"
  using assms
proof (induction es arbitrary: "is" s found)
  case Nil
  then show ?case
    by (auto simp: need_def loader_inv_def maps_more_refl same_roots_def kept_below_def pt_wf_def root_wf_def)
next
  case (Cons e es)
  obtain i "is'" where i: "is = i # is'" "get_entry i parser = FOk e" "map (\<lambda>i. get_entry i parser) is' = map FOk es"
    using Cons.prems(3) by (cases "is") auto
  show ?case
  proof (cases "loadable e")
    case False
    have "load_segments is' k parser found s = (r, s')" using Cons.prems(6) i False by simp
    from Cons.IH [OF Cons.prems(1) _ i(3) _ _ this] Cons.prems False show ?thesis by simp
  next
    case True
    let ?ls = "filter loadable es" and ?lo = "next_free_page (ms_phys s)"
    have fit: "seg_fits parser e" and room: "length (vmar_mappings (pr_root_vmar (proc k (ms_ps s)))) < MAX_MAPPINGS"
      and disj: "\<forall>d\<in>set ?ls. page_disjoint (seg_first e) (seg_pages e) (seg_first d) (seg_pages d)"
      using Cons.prems(2,4,5) True by auto
    have base: "vmar_base (pr_root_vmar (proc k (ms_ps s))) = 0" and live: "live_proc k s" using Cons.prems(1) by (simp_all add: loader_inv_def)
    obtain q s1 where ld: "load_program_segment k parser e s = (q, s1)" by (metis prod.exhaust)
    from load_program_segment_spec [OF Cons.prems(1) room fit ld] show ?thesis
    proof (elim disjE conjE)
      assume e1: "q = Err NoMemory" "end_free_page (ms_phys s) < ?lo + (9 + 5 * seg_pages e) * 4096"
      then have "r = Err NoMemory" using Cons.prems(6) i True ld by simp
      then show ?thesis using e1 True by (simp add: need_def)
    next
      assume q: "q = Ok ()" and rl: "range_loaded k (seg_first e) (seg_pages e) (seg_image parser e) s s1"
      note rl' = rl [unfolded range_loaded_def]
      let ?found = "entry_in 0 (oh_entry_point (op_header parser)) e found"
      have rest: "load_segments is' k parser ?found s1 = (r, s')" using Cons.prems(6) i True ld q base by simp
      have m1: "maps_more k 1 s s1" using rl' by blast
      have "length (vmar_mappings (pr_root_vmar (proc k (ms_ps s1)))) + length ?ls \<le> MAX_MAPPINGS"
        using Cons.prems(2) True maps_more_region(4) [OF m1 live] by simp
      note IH = Cons.IH [OF _ this i(3) _ _ rest]
      have IH: "r = Ok (fold (entry_in 0 (oh_entry_point (op_header parser))) ?ls ?found)
          \<and> loader_inv k s' \<and> maps_more k (length ?ls) s1 s' \<and> same_roots (ms_pt s1) (ms_pt s') \<and> kept_below (ms_phys s1) (ms_phys s')
          \<and> next_free_page (ms_phys s') \<le> next_free_page (ms_phys s1) + need ?ls * 4096
          \<and> (\<forall>a. (\<forall>e\<in>set ?ls. \<not> (seg_first e \<le> page_of a \<and> page_of a < seg_first e + seg_pages e))
               \<longrightarrow> pt_translate_va k a (ms_pt s') = pt_translate_va k a (ms_pt s1))
          \<and> (\<forall>e\<in>set ?ls. user_holds k (ms_pt s') (seg_first e * 4096) (seg_image parser e))
        \<or> r = Err NoMemory \<and> end_free_page (ms_phys s1) < next_free_page (ms_phys s1) + need ?ls * 4096"
        using IH rl' Cons.prems(4,5) True by simp
      have nx: "next_free_page (ms_phys s1) \<le> ?lo + (9 + 5 * seg_pages e) * 4096" "end_free_page (ms_phys s1) = end_free_page (ms_phys s)"
        using rl' by (auto simp: kept_below_def)
      from IH show ?thesis
      proof (elim disjE)
        assume "r = Err NoMemory \<and> end_free_page (ms_phys s1) < next_free_page (ms_phys s1) + need ?ls * 4096"
        then show ?thesis using nx True by (auto simp: need_def)
      next
        assume ok: "r = Ok (fold (entry_in 0 (oh_entry_point (op_header parser))) ?ls ?found)
          \<and> loader_inv k s' \<and> maps_more k (length ?ls) s1 s' \<and> same_roots (ms_pt s1) (ms_pt s') \<and> kept_below (ms_phys s1) (ms_phys s')
          \<and> next_free_page (ms_phys s') \<le> next_free_page (ms_phys s1) + need ?ls * 4096
          \<and> (\<forall>a. (\<forall>e\<in>set ?ls. \<not> (seg_first e \<le> page_of a \<and> page_of a < seg_first e + seg_pages e))
               \<longrightarrow> pt_translate_va k a (ms_pt s') = pt_translate_va k a (ms_pt s1))
          \<and> (\<forall>e\<in>set ?ls. user_holds k (ms_pt s') (seg_first e * 4096) (seg_image parser e))"
        have mm: "maps_more k (length (filter loadable (e # es))) s s'"
          using maps_more_trans [OF m1 _ live, of "length ?ls" s'] ok True by simp
        have here: "pt_translate_va k a (ms_pt s') = pt_translate_va k a (ms_pt s1)"
          if "seg_first e \<le> page_of a \<and> page_of a < seg_first e + seg_pages e" for a
        proof -
          have "\<not> (seg_first d \<le> page_of a \<and> page_of a < seg_first d + seg_pages d)" if "d \<in> set ?ls" for d
            using disj [rule_format, OF that] \<open>seg_first e \<le> page_of a \<and> page_of a < seg_first e + seg_pages e\<close> by (auto simp: page_disjoint_def)
          then show ?thesis using ok by blast
        qed
        have "user_holds k (ms_pt s') (seg_first e * 4096) (seg_image parser e)"
          by (rule user_holds_kept [where n = "seg_pages e" and p = "ms_pt s1"]) (use rl' ok here seg_words(6) [OF fit] in auto)
        moreover have "kept_below (ms_phys s) (ms_phys s')" using kept_below_trans rl' ok by blast
        moreover have "next_free_page (ms_phys s') \<le> ?lo + need (filter loadable (e # es)) * 4096" using nx ok True by (simp add: need_def)
        moreover have "same_roots (ms_pt s) (ms_pt s')" using same_roots_trans rl' ok by blast
        ultimately show ?thesis using ok mm rl' True by simp
      qed
    qed
  qed
qed

end
