(* ===== verification/Launch_Spec.thy ===== *)
theory Launch_Spec
  imports Launch_Memory
begin

text \<open>
  The launch of a program as a whole: the new address space is well formed, the segments and the stack are in
  it, and a thread is ready at the entry point.
\<close>

section \<open>The new address space\<close>

lemma alloc_table_room:
  assumes inv: "phys_inv (pw_phys s)" and room: "next_free_page (pw_phys s) < end_free_page (pw_phys s)"
  obtains s1 where "alloc_table_page s = (Ok (next_free_page (pw_phys s)), s1)" "phys_inv (pw_phys s1)" "next_free_page (pw_phys s1) = next_free_page (pw_phys s) + 4096"
    "end_free_page (pw_phys s1) = end_free_page (pw_phys s)" "pw_pte s1 = (pw_pte s)(next_free_page (pw_phys s) := (\<lambda>_. 0))" "pw_trees s1 = pw_trees s"
    "4096 dvd next_free_page (pw_phys s)" "next_free_page (pw_phys s) < 2 ^ 48" "grows (pw_phys s) (pw_phys s1)"
proof (cases rule: alloc_table_page_cases [OF inv])
  case 1
  then show ?thesis using room by simp
next
  case (2 n s1)
  have "grows (pw_phys s) (pw_phys s1)" using table_step_alloc(1) [OF 2(1)] inv by (simp add: table_step_def takes_def)
  then show ?thesis using 2 that by simp
qed

abbreviation new_entry :: "nat \<Rightarrow> u64" where
  "new_entry n \<equiv> table_entry n AND 0x0000FFFFFFFFF003"

lemma new_entry_table:
  assumes "4096 dvd n" "n < 2 ^ 48"
  shows "pte_table (new_entry n)" "pte_addr (new_entry n) = n" "pte_valid (new_entry n)"
  using user_tree.table_entry_clean [OF _ assms, of "0x0000FFFFFFFFF003"] by (simp_all add: pte_table_def pte_valid_def)

text \<open>A root with one empty table below it.\<close>

lemma root_pair_wf:
  assumes m: "m l0 = (\<lambda>_. 0)(0 := new_entry l1)" "m l1 = (\<lambda>_. 0)" and l1: "4096 dvd l1" "l1 < 2 ^ 48" and ne: "l0 \<noteq> l1" and N: "l0 < N" "l1 < N"
  shows "tree_wf m l0 N"
proof -
  note e = new_entry_table [OF l1]
  have t1: "table_at m l1 q = (if q = [] then Some l1 else None)" for q using m(2) by (cases q) simp_all
  have t0: "table_at m l0 q = (if q = [] then Some l0 else if q = [0] then Some l1 else None)" for q
    using m(1) e t1 by (cases q) auto
  have zero: "q = [0]" if "table_at m l0 q = Some t" "t = l1" for q t using that ne by (auto simp: t0 split: if_splits)
  have "p = q" if "table_at m l0 p = Some t" "table_at m l0 q = Some t" for p q t
    using that ne by (auto simp: t0 split: if_splits)
  moreover have "t < N" if "table_at m l0 p = Some t" for p t using that N by (auto simp: t0 split: if_splits)
  moreover have "\<not> (pte_valid (m t i) \<and> \<not> pte_table (m t i))" if "table_at m l0 p = Some t" for p t i
    using that m e by (auto simp: t0 split: if_splits)
  ultimately show ?thesis unfolding tree_wf_def by blast
qed

lemma allocate_root_spec:
  assumes inv: "phys_inv (pw_phys s)" and room: "next_free_page (pw_phys s) + 4096 < end_free_page (pw_phys s)"
    and tr: "k < length (pw_trees s)" "pw_trees s ! k = Some pt_new" and eq: "pt_allocate_root k s = (r, s')"
  shows "r = Ok () \<and> pt_wf k s' \<and> takes 2 (pw_phys s) (pw_phys s')
    \<and> pt_l0_pa (tree k s') = next_free_page (pw_phys s) \<and> length (pw_trees s') = length (pw_trees s)
    \<and> pw_pte s' (next_free_page (pw_phys s)) = (\<lambda>_. 0)(0 := new_entry (next_free_page (pw_phys s) + 4096))
    \<and> pw_pte s' (next_free_page (pw_phys s) + 4096) = (\<lambda>_. 0)
    \<and> (\<forall>u<next_free_page (pw_phys s). pw_pte s' u = pw_pte s u)"
proof -
  let ?l0 = "next_free_page (pw_phys s)" and ?l1 = "next_free_page (pw_phys s) + 4096"
  have r1: "?l0 < end_free_page (pw_phys s)" using room by simp
  obtain s1 where a1: "alloc_table_page s = (Ok ?l0, s1)" "phys_inv (pw_phys s1)" "next_free_page (pw_phys s1) = ?l1"
    "end_free_page (pw_phys s1) = end_free_page (pw_phys s)" "pw_pte s1 = (pw_pte s)(?l0 := (\<lambda>_. 0))" "pw_trees s1 = pw_trees s"
    "4096 dvd ?l0" "?l0 < 2 ^ 48" "grows (pw_phys s) (pw_phys s1)"
    by (rule alloc_table_room [OF inv r1])
  have r2: "next_free_page (pw_phys s1) < end_free_page (pw_phys s1)" using a1 room by simp
  obtain s2 where a2: "alloc_table_page s1 = (Ok ?l1, s2)" "phys_inv (pw_phys s2)" "next_free_page (pw_phys s2) = ?l1 + 4096"
    "end_free_page (pw_phys s2) = end_free_page (pw_phys s)" "pw_pte s2 = (pw_pte s1)(?l1 := (\<lambda>_. 0))" "pw_trees s2 = pw_trees s"
    "4096 dvd ?l1" "?l1 < 2 ^ 48" "grows (pw_phys s1) (pw_phys s2)"
    using alloc_table_room [OF a1(2) r2] a1 by metis
  let ?s3 = "write_pte ?l0 0 (new_entry ?l1) s2"
  let ?t = "(tree k ?s3)\<lparr>pt_l0_pa := ?l0, pt_tracked := (pt_tracked (tree k ?s3))[0 := ?l0, 1 := ?l1], pt_count := 2, pt_generation := 1, pt_has_root := True\<rparr>"
  have r: "r = Ok ()" and s': "s' = set_tree k ?t ?s3"
    using eq a1(1) a2(1) tr by (simp_all add: pt_allocate_root_def Let_def pt_new_def)
  have pte: "pw_pte s' ?l0 = (\<lambda>_. 0)(0 := new_entry ?l1)" "pw_pte s' ?l1 = (\<lambda>_. 0)" "\<forall>u<?l0. pw_pte s' u = pw_pte s u"
    by (simp_all add: s' set_tree_def a2(5) a1(5))
  have ph: "pw_phys s' = pw_phys s2" by (simp add: s' set_tree_def)
  have tk: "tree k s' = ?t" "length (pw_trees s') = length (pw_trees s)" using tr by (simp_all add: s' set_tree_def a2(6))
  have "tree_wf (pw_pte s') ?l0 (next_free_page (pw_phys s'))"
    by (rule root_pair_wf [OF pte(1,2) a2(7,8)]) (simp_all add: ph a2(3))
  then have "pt_wf k s'" using a2(2) by (simp add: pt_wf_def root_wf_def tk ph)
  moreover have "takes 2 (pw_phys s) (pw_phys s')" using grows_trans [OF a1(9) a2(9)] a2 by (simp add: takes_def ph)
  ultimately show ?thesis using r pte tk by simp
qed

text \<open>Mapping a page below a table that is already there touches that table and new ones only.\<close>

lemma pt_track_frame [simp]: "pw_pte (pt_track k n s) = pw_pte s" "next_free_page (pw_phys (pt_track k n s)) = next_free_page (pw_phys s)"
  "end_free_page (pw_phys (pt_track k n s)) = end_free_page (pw_phys s)" "length (pw_trees (pt_track k n s)) = length (pw_trees s)"
  by (simp_all add: pt_track_def set_tree_def Let_def)

definition new_leaf :: "ptw \<Rightarrow> nat \<Rightarrow> nat \<Rightarrow> ptw \<Rightarrow> bool" where
  "new_leaf s t i s' \<longleftrightarrow> phys_inv (pw_phys s') \<and> next_free_page (pw_phys s') = next_free_page (pw_phys s) + 4096 \<and> end_free_page (pw_phys s') = end_free_page (pw_phys s)
     \<and> length (pw_trees s') = length (pw_trees s)
     \<and> pw_pte s' = ((pw_pte s)(next_free_page (pw_phys s) := (\<lambda>_. 0)))(t := (((pw_pte s)(next_free_page (pw_phys s) := (\<lambda>_. 0))) t)(i := new_entry (next_free_page (pw_phys s))))"

lemma ensure_new:
  assumes inv: "phys_inv (pw_phys s)" and room: "next_free_page (pw_phys s) < end_free_page (pw_phys s)" and z: "pw_pte s t i = 0"
  shows "\<exists>s'. ensure_table (pt_track k) 0x0000FFFFFFFFF003 b t i s = (Ok (next_free_page (pw_phys s)), s') \<and> new_leaf s t i s'"
proof -
  let ?n = "next_free_page (pw_phys s)"
  obtain s1 where a: "alloc_table_page s = (Ok ?n, s1)" "phys_inv (pw_phys s1)" "next_free_page (pw_phys s1) = ?n + 4096"
    "end_free_page (pw_phys s1) = end_free_page (pw_phys s)" "pw_pte s1 = (pw_pte s)(?n := (\<lambda>_. 0))" "pw_trees s1 = pw_trees s"
    by (rule alloc_table_room [OF inv room])
  let ?s2 = "write_pte t i (new_entry ?n) s1"
  have "phys_inv (pw_phys (pt_track k ?n ?s2))" using pt_track_phys [of ?s2 ?n k] a(2,3) by simp
  then have "new_leaf s t i (pt_track k ?n ?s2)" using a by (simp add: new_leaf_def)
  moreover have "ensure_table (pt_track k) 0x0000FFFFFFFFF003 b t i s = (Ok ?n, pt_track k ?n ?s2)" using a(1) z by (simp add: ensure_table_def read_pte_def)
  ultimately show ?thesis by blast
qed

lemma ensure_there:
  "pte_table (pw_pte s t i) \<Longrightarrow> ensure_table reg c b t i s = (Ok (pte_addr (pw_pte s t i)), s)"
  by (simp add: ensure_table_def read_pte_def)

lemma new_leaf_pte:
  assumes "new_leaf s t i s'" "t < next_free_page (pw_phys s)"
  shows "pw_pte s' t = (pw_pte s t)(i := new_entry (next_free_page (pw_phys s)))" "pw_pte s' (next_free_page (pw_phys s)) = (\<lambda>_. 0)"
    "u \<noteq> t \<Longrightarrow> u < next_free_page (pw_phys s) \<Longrightarrow> pw_pte s' u = pw_pte s u"
  using assms by (auto simp: new_leaf_def)

lemma pt_map_va_steps:
  assumes "pt_has_root (tree k s)" "va AND 0xFFF = 0" "pa AND 0xFFF = 0"
  shows "pt_map_va k va pa fl s = map_steps (pt_track k) (pt_track k) 0x0000FFFFFFFFF003 0x0000FFFFFFFFF003 0x000F000000000FFF
             (pte_attr_bits fl) (pt_l0_pa (tree k s)) va (unat pa) s"
  using assms by (simp add: pt_map_va_def)

lemma map_first:
  assumes root: "pt_has_root (tree k s)" "pt_l0_pa (tree k s) = l0" and al: "va AND 0xFFF = 0" "pa AND 0xFFF = 0"
    and inv: "phys_inv (pw_phys s)" and room: "next_free_page (pw_phys s) + 2 * 4096 \<le> end_free_page (pw_phys s)"
    and e0: "pw_pte s l0 (va_l0_index va) = new_entry l1" "4096 dvd l1" "l1 < 2 ^ 48" "l1 < next_free_page (pw_phys s)" and e1: "pw_pte s l1 (va_l1_index va) = 0"
  shows "\<exists>s'. pt_map_va k va pa fl s = (Ok (), s') \<and> (\<forall>u<next_free_page (pw_phys s). u \<noteq> l1 \<longrightarrow> pw_pte s' u = pw_pte s u)
    \<and> pw_pte s' l1 = (pw_pte s l1)(va_l1_index va := new_entry (next_free_page (pw_phys s)))
    \<and> pw_pte s' (next_free_page (pw_phys s)) = (\<lambda>_. 0)(va_l2_index va := new_entry (next_free_page (pw_phys s) + 4096))
    \<and> next_free_page (pw_phys s') = next_free_page (pw_phys s) + 2 * 4096 \<and> end_free_page (pw_phys s') = end_free_page (pw_phys s) \<and> phys_inv (pw_phys s')
    \<and> length (pw_trees s') = length (pw_trees s)"
proof -
  let ?n = "next_free_page (pw_phys s)" and ?b1 = "shatter_l1_block (pt_track k) 0x000F000000000FFF 0x0000FFFFFFFFF003 l1 (va_l1_index va)"
  let ?b2 = "shatter_l2_block (pt_track k) 0x000F000000000FFF 0x0000FFFFFFFFF003 ?n (va_l2_index va)"
  note t = new_entry_table [OF e0(2,3)]
  have r1: "?n < end_free_page (pw_phys s)" using room by simp
  obtain s1 where s1: "ensure_table (pt_track k) 0x0000FFFFFFFFF003 ?b1 l1 (va_l1_index va) s = (Ok ?n, s1)" "new_leaf s l1 (va_l1_index va) s1"
    using ensure_new [OF inv r1 e1] by blast
  note n1 = s1(2) [unfolded new_leaf_def]
  have r2: "next_free_page (pw_phys s1) < end_free_page (pw_phys s1)" and z: "pw_pte s1 ?n (va_l2_index va) = 0"
    using n1 room new_leaf_pte(2) [OF s1(2) e0(4)] by auto
  obtain s2 where s2: "ensure_table (pt_track k) 0x0000FFFFFFFFF003 ?b2 ?n (va_l2_index va) s1 = (Ok (?n + 4096), s2)" "new_leaf s1 ?n (va_l2_index va) s2"
    using ensure_new [OF _ r2 z] n1 by metis
  note n2 = s2(2) [unfolded new_leaf_def]
  let ?s3 = "write_pte (?n + 4096) (va_l3_index va) (pa_to_pte_addr (unat pa) OR PTE_VALID OR PTE_TYPE_PAGE OR pte_attr_bits fl) s2"
  have e: "ensure_table (pt_track k) 0x0000FFFFFFFFF003 (\<lambda>e s. (Err NotAllowed, s)) l0 (va_l0_index va) s = (Ok l1, s)"
    using ensure_there [of s l0 "va_l0_index va"] t e0(1) by simp
  have "pt_map_va k va pa fl s = (Ok (), ?s3)"
    unfolding pt_map_va_steps [OF root(1) al] map_steps_def root(2) e by (simp add: s1(1) s2(1))
  moreover have "pw_pte ?s3 u = pw_pte s u" if "u < ?n" "u \<noteq> l1" for u
    using that new_leaf_pte(3) [OF s1(2) e0(4)] new_leaf_pte(3) [OF s2(2)] n1 by simp
  moreover have "pw_pte ?s3 l1 = (pw_pte s l1)(va_l1_index va := new_entry ?n)"
    using new_leaf_pte(1) [OF s1(2) e0(4)] new_leaf_pte(3) [OF s2(2), of l1] n1 e0(4) by simp
  moreover have "pw_pte ?s3 ?n = (\<lambda>_. 0)(va_l2_index va := new_entry (?n + 4096))"
    using new_leaf_pte(1) [OF s2(2)] new_leaf_pte(2) [OF s1(2) e0(4)] n1 by simp
  moreover have "next_free_page (pw_phys ?s3) = ?n + 2 * 4096" "end_free_page (pw_phys ?s3) = end_free_page (pw_phys s)" "phys_inv (pw_phys ?s3)"
    "length (pw_trees ?s3) = length (pw_trees s)"
    using n1 n2 by simp_all
  ultimately show ?thesis by blast
qed

lemma map_second:
  assumes root: "pt_has_root (tree k s)" "pt_l0_pa (tree k s) = l0" and al: "va AND 0xFFF = 0" "pa AND 0xFFF = 0"
    and inv: "phys_inv (pw_phys s)" and room: "next_free_page (pw_phys s) + 4096 \<le> end_free_page (pw_phys s)"
    and e0: "pw_pte s l0 (va_l0_index va) = new_entry l1" "4096 dvd l1" "l1 < 2 ^ 48"
    and e1: "pw_pte s l1 (va_l1_index va) = new_entry l2" "4096 dvd l2" "l2 < 2 ^ 48" "l2 < next_free_page (pw_phys s)" and e2: "pw_pte s l2 (va_l2_index va) = 0"
  shows "\<exists>s'. pt_map_va k va pa fl s = (Ok (), s') \<and> (\<forall>u<next_free_page (pw_phys s). u \<noteq> l2 \<longrightarrow> pw_pte s' u = pw_pte s u)
    \<and> length (pw_trees s') = length (pw_trees s)"
proof -
  let ?n = "next_free_page (pw_phys s)" and ?b1 = "shatter_l1_block (pt_track k) 0x000F000000000FFF 0x0000FFFFFFFFF003 l1 (va_l1_index va)"
  let ?b2 = "shatter_l2_block (pt_track k) 0x000F000000000FFF 0x0000FFFFFFFFF003 l2 (va_l2_index va)"
  note t = new_entry_table [OF e0(2,3)] and u = new_entry_table [OF e1(2,3)]
  have r1: "?n < end_free_page (pw_phys s)" using room by simp
  obtain s2 where s2: "ensure_table (pt_track k) 0x0000FFFFFFFFF003 ?b2 l2 (va_l2_index va) s = (Ok ?n, s2)" "new_leaf s l2 (va_l2_index va) s2"
    using ensure_new [OF inv r1 e2] by blast
  let ?s3 = "write_pte ?n (va_l3_index va) (pa_to_pte_addr (unat pa) OR PTE_VALID OR PTE_TYPE_PAGE OR pte_attr_bits fl) s2"
  have e: "ensure_table (pt_track k) 0x0000FFFFFFFFF003 (\<lambda>e s. (Err NotAllowed, s)) l0 (va_l0_index va) s = (Ok l1, s)"
    "ensure_table (pt_track k) 0x0000FFFFFFFFF003 ?b1 l1 (va_l1_index va) s = (Ok l2, s)"
    using ensure_there [of s l0 "va_l0_index va"] ensure_there [of s l1 "va_l1_index va"] t u e0(1) e1(1) by simp_all
  have "pt_map_va k va pa fl s = (Ok (), ?s3)"
    unfolding pt_map_va_steps [OF root(1) al] map_steps_def root(2) e by (simp add: e s2(1))
  moreover have "pw_pte ?s3 u = pw_pte s u" if "u < ?n" "u \<noteq> l2" for u
    using that new_leaf_pte(3) [OF s2(2) e1(4)] by simp
  moreover have "length (pw_trees ?s3) = length (pw_trees s)" using s2(2) by (simp add: new_leaf_def)
  ultimately show ?thesis by blast
qed

lemma device_indices:
  "va_l0_index 0x09000000 = 0" "va_l1_index 0x09000000 = 0" "va_l2_index 0x09000000 = 72"
  "va_l0_index 0x08010000 = 0" "va_l1_index 0x08010000 = 0" "va_l2_index 0x08010000 = 64"
  by (simp_all add: va_l0_index_def va_l1_index_def va_l2_index_def)

text \<open>Putting a block where no table is.\<close>

lemma block_write_wf:
  assumes wf: "tree_wf m r N" and t: "table_at m r p = Some t" "length p = 1" and old: "\<not> pte_table (m t i)"
    and e: "\<not> pte_table e" "pte_valid e \<Longrightarrow> pte_addr e = region_base 30 e"
  shows "tree_wf (m(t := (m t)(i := e))) r N"
proof -
  let ?m = "m(t := (m t)(i := e))"
  have pt: "pte_table (?m u j) = pte_table (m u j) \<and> (pte_table (m u j) \<longrightarrow> ?m u j = m u j)" for u j using old e(1) by auto
  have at: "table_at ?m r q = table_at m r q" for q
    by (induction q arbitrary: r) (use pt in auto)
  have blk: "q \<noteq> [] \<and> pte_addr (?m u j) = region_base (12 + 9 * (3 - length q)) (?m u j)"
    if "length q \<le> 2" "table_at m r q = Some u" "pte_valid (?m u j)" "\<not> pte_table (?m u j)" for q u j
  proof (cases "u = t \<and> j = i")
    case True
    then have "q = p" using tree_wf_inj [OF wf _ _ that(2)] t that(1) by auto
    then show ?thesis using True that(3) e(2) t(2) by auto
  next
    case False
    then show ?thesis using tree_wf_block [OF wf that(1,2)] that(3,4) by (auto split: if_splits)
  qed
  then show ?thesis using wf unfolding tree_wf_def at by blast
qed

text \<open>
  The tables of the caller: no entries in the high half, and its second gigabyte is not split into smaller
  pages. User programs lie below 256 MiB, so the tables of every launched program are of this form.
\<close>

definition parent_ok :: "nat \<Rightarrow> ptw \<Rightarrow> bool" where
  "parent_ok active p \<longleftrightarrow> active = 0 \<or> root_wf active p \<and> (\<forall>i. 256 \<le> i \<and> i < 512 \<longrightarrow> pw_pte p active i = 0)
     \<and> pte_table (pw_pte p active 0) \<and> \<not> pte_table (pw_pte p (pte_addr (pw_pte p active 0)) 1)"

lemma copy_entries_zero: "\<forall>i\<in>set is. pw_pte s src i = 0 \<Longrightarrow> copy_entries is src dst s = s"
  unfolding copy_entries_def by (induction "is") (auto simp: read_pte_def)

lemma clone_spec:
  assumes wf: "pt_wf k s" and l0: "pw_pte s (pt_l0_pa (tree k s)) 0 = new_entry l1" "4096 dvd l1" "l1 < 2 ^ 48" and e: "pw_pte s l1 1 = 0"
    and par: "parent_ok active s"
  shows "let s' = (if active \<noteq> 0 then pt_clone_identity_block k active (pt_clone_high_half k active s) else s) in
    pt_wf k s' \<and> pw_phys s' = pw_phys s \<and> pw_trees s' = pw_trees s"
proof (cases "active = 0")
  case True
  then show ?thesis using wf by simp
next
  case False
  let ?l0 = "pt_l0_pa (tree k s)" and ?e = "pw_pte s active 0"
  have root: "pt_has_root (tree k s)" "root_wf ?l0 s" using wf by (auto simp: pt_wf_def)
  have par': "root_wf active s" "\<forall>i. 256 \<le> i \<and> i < 512 \<longrightarrow> pw_pte s active i = 0" "pte_table ?e" "\<not> pte_table (pw_pte s (pte_addr ?e) 1)"
    using par False by (auto simp: parent_ok_def)
  have "copy_entries [256..<512] active ?l0 s = s" by (rule copy_entries_zero) (use par'(2) in \<open>simp del: upt_rec_numeral\<close>)
  then have high: "pt_clone_high_half k active s = s" unfolding pt_clone_high_half_def by (simp del: upt_rec_numeral)
  have one: "filter (\<lambda>i. \<not> (i = 0 \<or> i = 2)) [0..<3] = [1 :: nat]" by (simp add: upt_rec)
  note t = new_entry_table [OF l0(2,3)]
  let ?b = "pw_pte s (pte_addr ?e) 1"
  have "pt_clone_identity_block k active s = s \<or> pt_clone_identity_block k active s = write_pte l1 1 ?b s"
  proof -
    have mine: "read_pte ?l0 0 s = new_entry l1" using l0(1) by (simp only: read_pte_def)
    show ?thesis
      unfolding pt_clone_identity_block_def one Let_def mine t(2) copy_entries_def using root(1) by (auto simp: read_pte_def)
  qed
  then show ?thesis
  proof
    assume "pt_clone_identity_block k active s = s"
    then show ?thesis using False high wf by simp
  next
    assume c: "pt_clone_identity_block k active s = write_pte l1 1 ?b s"
    have tw: "tree_wf (pw_pte s) ?l0 (next_free_page (pw_phys s))" "tree_wf (pw_pte s) active (next_free_page (pw_phys s))"
      using root(2) par'(1) by (simp_all add: root_wf_def)
    have p1: "table_at (pw_pte s) ?l0 [0] = Some l1" "table_at (pw_pte s) active [0] = Some (pte_addr ?e)" using l0(1) t par'(3) by simp_all
    have "pte_addr ?b = region_base 30 ?b" if "pte_valid ?b" using tree_wf_block [OF tw(2) _ p1(2) that par'(4)] by simp
    then have "tree_wf ((pw_pte s)(l1 := (pw_pte s l1)(1 := ?b))) ?l0 (next_free_page (pw_phys s))"
      using block_write_wf [OF tw(1) p1(1) _ _ par'(4)] e by simp
    then show ?thesis using False high c root by (simp add: pt_wf_def root_wf_def)
  qed
qed

lemma setup_space_spec:
  assumes inv: "phys_inv (pw_phys p)" and room: "next_free_page (pw_phys p) + 5 * 4096 \<le> end_free_page (pw_phys p)"
    and tr: "k < length (pw_trees p)" "pw_trees p ! k = Some pt_new" and par: "parent_ok active p"
    and eq: "setup_space k active p = (r, p')"
  shows "r = Ok () \<and> pt_wf k p' \<and> takes 8 (pw_phys p) (pw_phys p') \<and> length (pw_trees p') = length (pw_trees p)"
proof -
  let ?l0 = "next_free_page (pw_phys p)"
  let ?l1 = "?l0 + 4096"
  let ?n = "?l0 + 2 * 4096"
  obtain x p1 where ar: "pt_allocate_root k p = (x, p1)" by (metis prod.exhaust)
  have "?l0 + 4096 < end_free_page (pw_phys p)" using room by simp
  note a = allocate_root_spec [OF inv this tr ar]
  have wf1: "pt_wf k p1" and t1: "takes 2 (pw_phys p) (pw_phys p1)" using a by blast+
  have d: "4096 dvd ?l0" using inv by (simp add: phys_inv_def)
  have end48: "end_free_page (pw_phys p) < 2 ^ 48" using inv by (auto simp: phys_inv_def RAM_BASE_def RAM_SIZE_def)
  have l1: "4096 dvd ?l1" "?l1 < 2 ^ 48" and n: "4096 dvd ?n" "?n < 2 ^ 48" using d room end48 by simp_all
  have nx1: "next_free_page (pw_phys p1) = ?n"
  proof -
    have "?l1 < next_free_page (pw_phys p1)" "4096 dvd next_free_page (pw_phys p1)"
      using tree_wf_below [of "pw_pte p1" ?l0 "next_free_page (pw_phys p1)" "[0]" ?l1] wf1 a new_entry_table [OF l1]
      by (auto simp: pt_wf_def root_wf_def phys_inv_def)
    from aligned_step [OF l1(1) this(2,1)] show ?thesis using t1 by (simp add: takes_def)
  qed
  have inv1: "phys_inv (pw_phys p1)" and end1: "end_free_page (pw_phys p1) = end_free_page (pw_phys p)" using t1 by (simp_all add: takes_def)
  have has1: "pt_has_root (tree k p1)" "pt_l0_pa (tree k p1) = ?l0" using wf1 a by (auto simp: pt_wf_def)
  have f1: "pw_pte p1 ?l0 (va_l0_index 0x09000000) = new_entry ?l1" "pw_pte p1 ?l1 (va_l1_index 0x09000000) = 0" "?l1 < next_free_page (pw_phys p1)"
    "next_free_page (pw_phys p1) + 2 * 4096 \<le> end_free_page (pw_phys p1)"
    using a room by (simp_all add: device_indices nx1 end1)
  have al: "(0x09000000 :: u64) AND 0xFFF = 0" "(0x08010000 :: u64) AND 0xFFF = 0" by simp_all
  from map_first [OF has1 al(1) al(1) inv1 f1(4) f1(1) l1 f1(3) f1(2), of device_rw_user] obtain p2 where
    m1: "pt_map_va k 0x09000000 0x09000000 device_rw_user p1 = (Ok (), p2)"
    and k1: "\<forall>u<?n. u \<noteq> ?l1 \<longrightarrow> pw_pte p2 u = pw_pte p1 u" "pw_pte p2 ?l1 = (pw_pte p1 ?l1)(0 := new_entry ?n)"
      "pw_pte p2 ?n = (\<lambda>_. 0)(72 := new_entry (?n + 4096))"
    and q2: "next_free_page (pw_phys p2) = ?n + 2 * 4096" "end_free_page (pw_phys p2) = end_free_page (pw_phys p)" "phys_inv (pw_phys p2)"
      "length (pw_trees p2) = length (pw_trees p)"
    using a by (auto simp: device_indices nx1 end1)
  have dv: "4096 dvd unat (0x09000000 :: u64)" "unat (0x09000000 :: u64) < 2 ^ 48" "4096 dvd unat (0x08010000 :: u64)" "unat (0x08010000 :: u64) < 2 ^ 48" by simp_all
  note s1 = pt_map_va_spec [OF wf1 dv(1,1,2) m1]
  have wf2: "pt_wf k p2" and has2: "pt_has_root (tree k p2)" "pt_l0_pa (tree k p2) = ?l0" using s1 has1 by (auto simp: pt_wf_def same_roots_def)
  have f2: "pw_pte p2 ?l0 (va_l0_index 0x08010000) = new_entry ?l1" "pw_pte p2 ?l1 (va_l1_index 0x08010000) = new_entry ?n" "pw_pte p2 ?n (va_l2_index 0x08010000) = 0"
    "next_free_page (pw_phys p2) + 4096 \<le> end_free_page (pw_phys p2)" "?n < next_free_page (pw_phys p2)"
    using a k1 room by (simp_all add: device_indices q2)
  from map_second [OF has2 al(2) al(2) q2(3) f2(4) f2(1) l1 f2(2) n f2(5,3), of device_rw_user] obtain p3 where
    m2: "pt_map_va k 0x08010000 0x08010000 device_rw_user p2 = (Ok (), p3)" and k2: "\<forall>u<next_free_page (pw_phys p2). u \<noteq> ?n \<longrightarrow> pw_pte p3 u = pw_pte p2 u"
    and len3: "length (pw_trees p3) = length (pw_trees p)"
    using q2 by auto
  note s2 = pt_map_va_spec [OF wf2 dv(3,3,4) m2]
  have wf3: "pt_wf k p3" and l03: "pt_l0_pa (tree k p3) = ?l0" using s2 has2 by (auto simp: same_roots_def)
  have t2: "takes 3 (pw_phys p1) (pw_phys p2)" using table_step_map [OF m1] inv1 by (simp add: table_step_def)
  have t3: "takes 3 (pw_phys p2) (pw_phys p3)" using table_step_map [OF m2] q2(3) by (simp add: table_step_def)
  have t: "takes 8 (pw_phys p) (pw_phys p3)" using takes_trans [OF takes_trans [OF t1 t2] t3] by simp
  have g: "pw_pte p3 ?l0 0 = new_entry ?l1" "pw_pte p3 ?l1 1 = 0" using a k1 k2 q2(1) by simp_all
  have old: "pw_pte p3 u = pw_pte p u" if "u < ?l0" for u using that a k1(1) k2 q2(1) by simp
  have par3: "parent_ok active p3"
  proof (cases "active = 0")
    case True
    then show ?thesis by (simp add: parent_ok_def)
  next
    case False
    have rw: "root_wf active p" and pe: "pte_table (pw_pte p active 0)" using par False by (simp_all add: parent_ok_def)
    have tw: "tree_wf (pw_pte p) active ?l0" using rw by (simp add: root_wf_def)
    have act: "active < ?l0" "pte_addr (pw_pte p active 0) < ?l0"
      using tree_wf_below [OF tw, of "[]"] tree_wf_below [OF tw, of "[0]"] pe by simp_all
    have at: "table_at (pw_pte p3) active q = table_at (pw_pte p) active q" if "length q \<le> 3" for q
      using that
    proof (induction q rule: rev_induct)
      case (snoc j q)
      then show ?case using tree_wf_below [OF tw, of q] old by (simp add: table_at_snoc split: option.splits)
    qed simp
    have eqs: "pw_pte p3 t = pw_pte p t" if "length q \<le> 3" "table_at (pw_pte p) active q = Some t" for q t
      using tree_wf_below [OF tw that] old by simp
    have "tree_wf (pw_pte p3) active ?l0"
      unfolding tree_wf_def
    proof (intro conjI allI impI)
      fix q q' t assume "length q \<le> 3 \<and> length q' \<le> 3 \<and> table_at (pw_pte p3) active q = Some t \<and> table_at (pw_pte p3) active q' = Some t"
      then show "q = q'" by (metis at tree_wf_inj [OF tw])
    next
      fix q t assume "length q \<le> 3 \<and> table_at (pw_pte p3) active q = Some t"
      then show "t < ?l0" by (metis at tree_wf_below [OF tw])
    next
      fix q t i assume h: "length q \<le> 2 \<and> table_at (pw_pte p3) active q = Some t \<and> pte_valid (pw_pte p3 t i) \<and> \<not> pte_table (pw_pte p3 t i)"
      then have "table_at (pw_pte p) active q = Some t" "pw_pte p3 t = pw_pte p t" using at [of q] eqs [of q t] by simp_all
      then show "q \<noteq> []" "pte_addr (pw_pte p3 t i) = region_base (12 + 9 * (3 - length q)) (pw_pte p3 t i)"
        using tree_wf_block [OF tw, of q t i] h by simp_all
    qed
    then have "root_wf active p3" using t tree_wf_mono by (auto simp: root_wf_def takes_def grows_def)
    then show ?thesis using par False act old by (simp add: parent_ok_def)
  qed
  have f: "setup_space k active p = (Ok (), if active \<noteq> 0 then pt_clone_identity_block k active (pt_clone_high_half k active p3) else p3)"
    using ar a m1 m2 by (simp add: setup_space_def map_device_def)
  note c = clone_spec [OF wf3 _ l1 g(2) par3, unfolded l03, OF g(1), unfolded Let_def]
  show ?thesis using c f eq t len3 by auto
qed

section \<open>The stack\<close>

lemma stack_words: "pages_for STACK_SIZE = 4" "unat STACK_SIZE = 16384" "unat STACK_OFFSET = 0x2000 * 4096" "STACK_SIZE \<noteq> 0"
  by (simp_all add: STACK_SIZE_def STACK_OFFSET_def pages_for_def)

lemma load_stack_spec:
  assumes inv: "loader_inv k s" and room: "length (vmar_mappings (pr_root_vmar (proc k (ms_ps s)))) < MAX_MAPPINGS"
    and mem: "next_free_page (ms_phys s) + 29 * 4096 \<le> end_free_page (ms_phys s)" and eq: "load_stack k STACK_OFFSET s = (r, s')"
  shows "\<exists>v. r = Ok v \<and> range_loaded k 0x2000 4 (replicate 16384 0) s s' \<and> owned_ok (next_free_page (ms_phys s)) (vmo_owned v) (ms_phys s')"
proof -
  let ?lo = "next_free_page (ms_phys s)"
  have pinv: "phys_inv (ms_phys s)" by (rule loader_inv_phys [OF inv])
  obtain q s1 where nb: "new_backing STACK_SIZE s = (q, s1)" by (metis prod.exhaust)
  have "pages_for STACK_SIZE \<le> VMO_MAX_PAGES" "0 < pages_for STACK_SIZE" by (simp_all add: stack_words VMO_MAX_PAGES_def)
  from new_backing_spec [OF pinv stack_words(4) this nb] mem obtain v m where q: "q = Ok v" and s1: "s1 = set_kmem m s" and ok: "vmo_ok m v" "all_committed m v"
    and vs: "vmo_size v = 4 * 4096" and con: "vmo_contents m v = replicate (vmo_size v) 0" and ow: "owned_ok ?lo (vmo_owned v) (km_phys m)"
    and t: "takes (9 + 4) (ms_phys s) (km_phys m)"
    by (auto simp: stack_words)
  have pc: "page_count v = 4" using vs by (simp add: page_count_def PAGE_SIZE_def)
  have km1: "ms_kmem s1 = m" "ms_phys s1 = km_phys m" by (simp_all add: s1)
  have ps: "ms_ps s1 = (ms_ps s)\<lparr>ps_pt := phys_back (ms_kmem s1) (ms_pt s)\<rparr>" by (simp add: s1)
  have nx: "next_free_page (ms_phys s1) \<le> ?lo + (9 + page_count v) * 4096" using t by (simp add: takes_def km1 pc)
  obtain y s2 where mb: "map_backing k STACK_OFFSET STACK_SIZE (VMAR_READ OR VMAR_WRITE OR VMAR_USER) stack_map_flags v s1 = (y, s2)" by (metis prod.exhaust)
  have ml: "(y = Ok () \<or> y = Err NoMemory \<and> end_free_page (ms_phys s) < ?lo + (9 + 5 * page_count v) * 4096)
    \<and> owned_ok ?lo (vmo_owned v) (ms_phys s2) \<and> phys_inv (ms_phys s2)
    \<and> (y = Ok () \<longrightarrow> range_loaded k 0x2000 (page_count v) (vmo_contents (ms_kmem s1) v) s s2)"
    by (rule map_range_loaded [OF inv room ps _ _ _ _ nx stack_words(3) _ _ _ mb])
      (use ok ow kept_below_takes [OF t] vs in \<open>simp_all add: km1 stack_words\<close>)
  then have y: "y = Ok ()" using mem by (auto simp: pc)
  then have "r = Ok v" "s' = s2" using eq nb q mb by (simp_all add: load_stack_def)
  then show ?thesis using ml y con vs by (simp add: pc km1)
qed

text \<open>Touching the zeroed stack changes nothing.\<close>

lemma touch_stack_zero:
  assumes h: "user_holds k p (0x2000 * 4096) (replicate 16384 0)"
  shows "touch_stack k 0x2004000 p = p"
proof -
  have z: "\<exists>a. pt_translate_va k (0x2003FF0 + word_of_nat i) p = Some a \<and> ram (pw_phys p) a = 0" if "i < 8" for i
  proof -
    have w: "word_of_nat (0x2000 * 4096 + (16368 + i)) = (0x2003FF0 :: u64) + word_of_nat i" by simp
    have "16368 + i < length (replicate 16384 (0 :: u8))" using that by simp
    then obtain a where "pt_translate_va k (word_of_nat (0x2000 * 4096 + (16368 + i))) p = Some a" "ram (pw_phys p) a = replicate 16384 0 ! (16368 + i)"
      using h unfolding user_holds_def by blast
    then show ?thesis unfolding w using that by auto
  qed
  obtain a where a: "pt_translate_va k 0x2003FF0 p = Some a" using z [of 0] by auto
  then have root: "pt_has_root (tree k p)" by (auto simp: pt_translate_va_def split: if_splits)
  have nxt: "pt_translate_va k (0x2003FF0 + word_of_nat i) p = Some (a + i)" if "i < 8" for i
    using translate_same_page [of "0x2003FF0" i "pt_l0_pa (tree k p)" p] a that root by (simp add: pt_translate_va_def)
  have "store_bytes a (replicate 8 0) (ram (pw_phys p)) x = ram (pw_phys p) x" for x
  proof (cases "a \<le> x \<and> x < a + 8")
    case True
    then have xa: "x - a < 8" by linarith
    have "ram (pw_phys p) (a + (x - a)) = 0" using z [OF xa] nxt [OF xa] by auto
    then have "ram (pw_phys p) x = 0" using True by simp
    then show ?thesis using xa by (simp add: store_bytes_def nth_replicate del: replicate.simps replicate_Suc)
  qed (auto simp: store_bytes_def)
  then have "store_bytes a (replicate 8 0) (ram (pw_phys p)) = ram (pw_phys p)" by blast
  moreover have "0x2004000 - 16 = (0x2003FF0 :: u64)" by simp
  ultimately show ?thesis using a by (simp add: touch_stack_def del: replicate_Suc)
qed

section \<open>The thread\<close>

lemma alloc_page_room:
  assumes "phys_inv s" "next_free_page s + 4096 \<le> end_free_page s"
  shows "\<exists>s'. alloc_page tag s = (Ok (next_free_page s), s') \<and> takes 1 s s' \<and> next_free_page s' = next_free_page s + 4096"
  using takes_alloc(1) [OF assms(1), of tag] assms by (auto simp: alloc_page_inv_eq take_page_def)

lemma alloc_more_stack_room:
  assumes "phys_inv s" "next_free_page s + n * 4096 \<le> end_free_page s"
  shows "\<exists>s'. alloc_more_stack n s = (Ok (), s') \<and> takes n s s'"
  using assms
proof (induction n arbitrary: s)
  case 0
  then show ?case by (simp add: takes_refl)
next
  case (Suc n)
  then obtain s1 where s1: "alloc_kstack_page s = (Ok (next_free_page s), s1)" "takes 1 s s1" "next_free_page s1 = next_free_page s + 4096"
    using alloc_page_room [of s] unfolding alloc_kstack_page_def by fastforce
  then obtain s' where "alloc_more_stack n s1 = (Ok (), s')" "takes n s1 s'" using Suc.IH [of s1] Suc.prems by (auto simp: takes_def)
  then show ?case using s1 takes_trans [OF s1(2)] by auto
qed

lemma new_user_room:
  assumes inv: "phys_inv s" and room: "next_free_page s + 4 * 4096 \<le> end_free_page s"
  shows "\<exists>t s'. new_user stub name entry sp ctr s = (Ok t, ctr + 1, s') \<and> takes 4 s s' \<and> th_id t = ctr \<and> th_priority t = NormalPrio
    \<and> cx_elr (th_context t) = entry \<and> cx_user_sp (th_context t) = sp \<and> length (cx_x (th_context t)) = 19"
proof -
  obtain s1 where s1: "alloc_kstack_page s = (Ok (next_free_page s), s1)" "takes 1 s s1" "next_free_page s1 = next_free_page s + 4096"
    using alloc_page_room [OF inv] room unfolding alloc_kstack_page_def by fastforce
  obtain s2 where s2: "alloc_more_stack 3 s1 = (Ok (), s2)" "takes 3 s1 s2"
    using alloc_more_stack_room [of s1 3] s1 room by (auto simp: takes_def)
  have "alloc_stack s = (Ok (next_free_page s), s2)" using s1 s2 by (simp add: alloc_stack_def KERNEL_STACK_PAGES_def)
  moreover have "takes 4 s s2" using takes_trans [OF s1(2) s2(2)] by simp
  ultimately show ?thesis
    by (simp add: new_user_def new_user_with_priority_def make_thread_def context_new_user_def context_default_def Let_def)
qed

lemma sched_add_slot:
  assumes "sched_add t s = (Ok (), s')" "length (sc_threads s) = MAX_THREADS"
  shows "\<exists>i<MAX_THREADS. sc_threads s ! i = None \<and> sc_threads s' = (sc_threads s)[i := Some (t\<lparr>th_state := Ready\<rparr>)]"
proof -
  obtain i where i: "find_empty_slot s = Some i" using assms(1) by (cases "find_empty_slot s") (auto simp: sched_add_def)
  then have "i < MAX_THREADS" "sc_threads s ! i = None" using first_freeD [of "sc_threads s" i] assms(2) by (auto simp: find_empty_slot_def)
  moreover have "sc_threads s' = (sc_threads s)[i := Some (t\<lparr>th_state := Ready\<rparr>)]"
    using assms(1) i by (auto simp: sched_add_def Let_def push_level_def set_thread_def split: prod.splits if_splits)
  ultimately show ?thesis by blast
qed

section \<open>The process\<close>

lemma ht_new_room:
  assumes inv: "phys_inv s" and room: "next_free_page s + 4096 \<le> end_free_page s" and sz: "MAX_HANDLES * slot_sz \<le> PAGE_SIZE"
  shows "\<exists>s'. ht_new slot_sz s = (Ok (replicate MAX_HANDLES None), s') \<and> takes 1 s s'"
proof -
  obtain s1 where s1: "alloc_kheap_page s = (Ok (next_free_page s), s1)" "takes 1 s s1"
    using alloc_page_room [OF inv room] unfolding alloc_kheap_page_def by blast
  have "(MAX_HANDLES * slot_sz + PAGE_SIZE - 1) div PAGE_SIZE - 1 = 0" using sz by (simp add: PAGE_SIZE_def div_le_mono less_mult_imp_div_less)
  then show ?thesis using s1 sz by (auto simp: ht_new_def)
qed

lemma vmar_create_room:
  assumes inv: "phys_inv s" and room: "next_free_page s + 4096 \<le> end_free_page s"
  shows "\<exists>v s'. vmar_create 0 (256 * 1024 * 1024) s = (Ok v, s') \<and> takes 1 s s' \<and> vmar_base v = 0 \<and> vmar_size v = 256 * 1024 * 1024 \<and> vmar_mappings v = []"
proof -
  obtain s1 where s1: "alloc_vmar_meta s = (Ok (next_free_page s), s1)" "takes 1 s s1"
    using alloc_page_room [OF inv room] unfolding alloc_vmar_meta_def by blast
  then show ?thesis by (simp add: vmar_create_def page_round_def)
qed

lemma allocate_process_room:
  assumes wf: "proc_wf s" and free: "first_free (ps_procs s) = Some k" and inv: "phys_inv (pw_phys (ps_pt s))"
    and room: "next_free_page (pw_phys (ps_pt s)) + 2 * 4096 \<le> end_free_page (pw_phys (ps_pt s))" and sz: "MAX_HANDLES * slot_sz \<le> PAGE_SIZE"
  shows "\<exists>p ph as. allocate_process slot_sz name s = (Ok k, s\<lparr>ps_procs := (ps_procs s)[k := Some p],
      ps_pt := (ps_pt s)\<lparr>pw_phys := ph, pw_trees := (pw_trees (ps_pt s))[k := Some pt_new]\<rparr>, ps_next_pid := ps_next_pid s + 1, ps_asids := as\<rparr>)
    \<and> takes 2 (pw_phys (ps_pt s)) ph \<and> pr_id p = ps_next_pid s
    \<and> vmar_base (pr_root_vmar p) = 0 \<and> vmar_size (pr_root_vmar p) = 256 * 1024 * 1024 \<and> vmar_mappings (pr_root_vmar p) = []"
proof -
  let ?q = "pw_phys (ps_pt s)"
  obtain v q1 where v: "vmar_create 0 (256 * 1024 * 1024) ?q = (Ok v, q1)" "takes 1 ?q q1" "vmar_base v = 0" "vmar_size v = 256 * 1024 * 1024" "vmar_mappings v = []"
    using vmar_create_room [OF inv] room by auto
  obtain q2 where h: "ht_new slot_sz q1 = (Ok (replicate MAX_HANDLES None), q2)" "takes 1 q1 q2"
    using ht_new_room [of q1, OF _ _ sz] v(2) room by (auto simp: takes_def)
  obtain a as where a: "asid_alloc (ps_asids s) = (a, as)" by (metis prod.exhaust)
  have t: "takes 2 ?q q2" using takes_trans [OF v(2) h(2)] by (simp add: numeral_2_eq_2)
  have k: "k < length (ps_procs s)" using first_freeD [OF free] by simp
  let ?s1 = "s\<lparr>ps_procs := (ps_procs s)[k := Some proc_new_dummy], ps_pt := set_tree k pt_new (ps_pt s)\<rparr>"
  let ?p = "proc_new_dummy\<lparr>pr_id := ps_next_pid s, pr_name := name, pr_state := ProcInitial, pr_root_vmar := v,
       pr_handle_table := replicate MAX_HANDLES None, pr_thread_count := 0, pr_cwd := 0x2F # replicate (CWD_MAX - 1) 0, pr_cwd_len := 1,
       pr_exit_status := None, pr_parent_pid := 0, pr_sig_handlers := replicate 32 0, pr_pending := 0,
       pr_fd_table := replicate FD_TABLE_SIZE None, pr_next_fd := USER_FD_BASE, pr_asid := (case a of Some x \<Rightarrow> x | None \<Rightarrow> ASID_KERNEL)\<rparr>"
  have "init_in_place slot_sz k name ?s1 = (Ok (), s\<lparr>ps_procs := (ps_procs s)[k := Some ?p],
      ps_pt := (ps_pt s)\<lparr>pw_phys := q2, pw_trees := (pw_trees (ps_pt s))[k := Some pt_new]\<rparr>, ps_next_pid := ps_next_pid s + 1, ps_asids := as\<rparr>)"
    using v(1) h(1) a k by (simp add: init_in_place_def Let_def upd_phys_def set_tree_def)
  then have "allocate_process slot_sz name s = (Ok k, s\<lparr>ps_procs := (ps_procs s)[k := Some ?p],
      ps_pt := (ps_pt s)\<lparr>pw_phys := q2, pw_trees := (pw_trees (ps_pt s))[k := Some pt_new]\<rparr>, ps_next_pid := ps_next_pid s + 1, ps_asids := as\<rparr>)"
    using free by (simp add: allocate_process_def Let_def)
  then show ?thesis using t v by (intro exI [of _ ?p] exI [of _ q2] exI [of _ as]) simp
qed

end
