(* ===== verification/Launch_Program.thy ===== *)
theory Launch_Program
  imports Launch_Spec
begin

text \<open>
  The whole launch: an image written by the linker's builder, given to \<open>launch_user_program\<close>, is found in the
  memory of the new process byte for byte, with a zeroed stack and a ready thread at its entry point.
\<close>

section \<open>Programs\<close>

text \<open>What the address space of the program holds from \<open>sg_va\<close> on.\<close>

definition segment_memory :: "segment \<Rightarrow> u8 list" where
  "segment_memory g = sg_data g @ replicate (unat (sg_mem_size g) - length (sg_data g)) 0"

text \<open>Segments that fit below 256 MiB, in pages of their own and clear of the stack.\<close>

definition program_fits :: "segment list \<Rightarrow> bool" where
  "program_fits gs \<longleftrightarrow> segments_fit gs \<and> length gs < MAX_MAPPINGS
     \<and> (\<forall>g\<in>set gs. loadable (segment_entry g) \<and> 0 < sg_mem_size g \<and> length (sg_data g) \<le> unat (sg_mem_size g)
          \<and> unat (sg_va g) + unat (sg_mem_size g) \<le> 2 ^ 28 \<and> seg_pages (segment_entry g) \<le> VMO_MAX_PAGES
          \<and> page_disjoint (seg_first (segment_entry g)) (seg_pages (segment_entry g)) 0x2000 4)
     \<and> sorted_wrt (\<lambda>g h. page_disjoint (seg_first (segment_entry g)) (seg_pages (segment_entry g))
          (seg_first (segment_entry h)) (seg_pages (segment_entry h))) gs"

text \<open>Room for the process, its tables, its segments, the stack and the thread.\<close>

definition launch_ready :: "nat \<Rightarrow> segment list \<Rightarrow> lstate \<Rightarrow> bool" where
  "launch_ready slot_sz gs s \<longleftrightarrow> (let ps = ms_ps (ls_ms s); ph = pw_phys (ps_pt ps) in
     proc_wf ps \<and> first_free (ps_procs ps) \<noteq> None \<and> phys_inv ph \<and> MAX_HANDLES * slot_sz \<le> PAGE_SIZE
     \<and> sched_wf (ps_sched ps) \<and> threads_made (ps_sched ps) < MAX_THREADS \<and> parent_ok (active_page_table ps) (ps_pt ps)
     \<and> next_free_page ph + (43 + need (map segment_entry gs)) * 4096 \<le> end_free_page ph)"

lemma user_holds_slice:
  assumes "user_holds k p start bs" "n + length xs \<le> length bs" "take (length xs) (drop n bs) = xs"
  shows "user_holds k p (start + n) xs"
  unfolding user_holds_def
proof (intro allI impI)
  fix j assume j: "j < length xs"
  then have "n + j < length bs" "bs ! (n + j) = xs ! j"
    using assms(2) arg_cong [OF assms(3), of "\<lambda>l. l ! j"] by auto
  then show "\<exists>a. pt_translate_va k (word_of_nat (start + n + j)) p = Some a \<and> a < next_free_page (pw_phys p) \<and> ram (pw_phys p) a = xs ! j"
    using assms(1) unfolding user_holds_def by (metis add.assoc)
qed

lemma pt_translate_phys [simp]: "pt_translate_va k a (p\<lparr>pw_phys := ph\<rparr>) = pt_translate_va k a p"
  unfolding pt_translate_va_def by (simp add: translate_cong [of "p\<lparr>pw_phys := ph\<rparr>" p])

lemma user_holds_phys:
  assumes "user_holds k p start bs" "kept_below (pw_phys p) ph" "p' = p\<lparr>pw_phys := ph\<rparr>"
  shows "user_holds k p' start bs"
  unfolding user_holds_def
proof (intro allI impI)
  fix j assume "j < length bs"
  then obtain a where "pt_translate_va k (word_of_nat (start + j)) p = Some a" "a < next_free_page (pw_phys p)" "ram (pw_phys p) a = bs ! j"
    using assms(1) unfolding user_holds_def by blast
  then show "\<exists>a. pt_translate_va k (word_of_nat (start + j)) p' = Some a \<and> a < next_free_page (pw_phys p') \<and> ram (pw_phys p') a = bs ! j"
    using assms(2,3) by (intro exI [of _ a]) (auto simp: kept_below_def)
qed

text \<open>An entry of a built image and the segment it came from.\<close>

definition entry_of :: "ohlk_parser \<Rightarrow> segment \<Rightarrow> ohlk_entry \<Rightarrow> bool" where
  "entry_of parser g e \<longleftrightarrow> e = (segment_entry g)\<lparr>oe_file_offset := oe_file_offset e\<rparr> \<and> get_segment_data e parser = FOk (sg_data g)"

lemma entry_of_fields:
  assumes "entry_of parser g e"
  shows "oe_ty e = sg_ty g" "oe_virtual_address e = sg_va g" "oe_mem_size e = sg_mem_size g" "oe_file_size e = word_of_nat (length (sg_data g))"
    "seg_first e = seg_first (segment_entry g)" "seg_pages e = seg_pages (segment_entry g)" "loadable e = loadable (segment_entry g)"
proof -
  obtain off where "e = (segment_entry g)\<lparr>oe_file_offset := off\<rparr>" using assms unfolding entry_of_def by blast
  then show "oe_ty e = sg_ty g" "oe_virtual_address e = sg_va g" "oe_mem_size e = sg_mem_size g" "oe_file_size e = word_of_nat (length (sg_data g))"
    "seg_first e = seg_first (segment_entry g)" "seg_pages e = seg_pages (segment_entry g)" "loadable e = loadable (segment_entry g)"
    by (simp_all add: segment_entry_def seg_first_def seg_pages_def seg_off_def loadable_def)
qed

lemma entry_of_memory:
  assumes eo: "entry_of parser g e" and l: "length (sg_data g) \<le> unat (sg_mem_size g)" "length (sg_data g) \<le> 2 ^ 32"
    and h: "user_holds k p (seg_first e * 4096) (seg_image parser e)"
  shows "user_holds k p (unat (sg_va g)) (segment_memory g)"
proof -
  note f = entry_of_fields [OF eo]
  have va: "unat (sg_va g) = seg_first e * 4096 + seg_off e" by (simp add: seg_first_def seg_off_def f)
  have "unat (oe_file_size e) = length (sg_data g)" using l(2) by (simp add: f(4) unat_of_nat)
  then have "0 < oe_file_size e \<longleftrightarrow> sg_data g \<noteq> []" by (metis length_0_conv unat_eq_zero word_gt_0)
  then have data: "seg_data parser e = sg_data g" using eo by (simp add: seg_data_def entry_of_def)
  have pg: "seg_off e + unat (sg_mem_size g) \<le> seg_pages e * 4096" using f(3) by (simp add: seg_pages_def)
  have "take (length (segment_memory g)) (drop (seg_off e) (seg_image parser e)) = segment_memory g"
    using l(1) pg by (simp add: seg_image_def splice_def data segment_memory_def min_def)
  then show ?thesis unfolding va by (intro user_holds_slice [OF h]) (use l(1) pg in \<open>simp_all add: segment_memory_def\<close>)
qed

lemma built_entries:
  assumes "segments_fit gs" "builder_build (add_segments gs (builder_new arch ft fl ep)) = FOk img"
  obtains parser es where "parser_new img = FOk parser" "oh_entry_point (op_header parser) = ep" "list_all2 (entry_of parser) gs es"
    "map (\<lambda>i. get_entry i parser) (entry_indices parser) = map FOk es"
proof -
  obtain h where p: "parser_new img = FOk \<lparr>op_data = img, op_header = h\<rparr>" "oh_header_count h = word_of_nat (length gs)"
    by (rule build_spec [OF assms])
  obtain parser where q: "parser_new img = FOk parser" "oh_entry_point (op_header parser) = ep" "length (parser_entries parser) = length gs"
      "\<forall>i<length gs. get_entry (word_of_nat i) parser = FOk (parser_entries parser ! i) \<and> entry_of parser (gs ! i) (parser_entries parser ! i)"
    using build_parse_spec [OF assms] unfolding Let_def entry_of_def by blast
  have "unat (oh_header_count (op_header parser)) = length gs"
    using p q(1) assms(1) by (auto simp: segments_fit_def unat_of_nat)
  then have "map (\<lambda>i. get_entry i parser) (entry_indices parser) = map FOk (parser_entries parser)"
    using q(3,4) by (auto simp: entry_indices_def intro!: nth_equalityI)
  moreover have "list_all2 (entry_of parser) gs (parser_entries parser)" using q(3,4) by (simp add: list_all2_conv_all_nth)
  ultimately show ?thesis using that q(1,2) by blast
qed

lemma fits_entries:
  assumes pf: "program_fits gs" and es: "list_all2 (entry_of parser) gs es"
  shows "filter loadable es = es" "\<forall>e\<in>set es. seg_fits parser e" "need es = need (map segment_entry gs)" "length es = length gs"
    "sorted_wrt (\<lambda>d e. page_disjoint (seg_first d) (seg_pages d) (seg_first e) (seg_pages e)) es"
    "\<forall>e\<in>set es. page_disjoint (seg_first e) (seg_pages e) 0x2000 4"
proof -
  have each: "\<exists>g\<in>set gs. entry_of parser g e" if "e \<in> set es" for e
    using es that by (metis in_set_conv_nth list_all2_conv_all_nth)
  have ok: "loadable e \<and> seg_fits parser e \<and> page_disjoint (seg_first e) (seg_pages e) 0x2000 4" if "e \<in> set es" for e
  proof -
    obtain g where g: "g \<in> set gs" "entry_of parser g e" using each \<open>e \<in> set es\<close> by blast
    note f = entry_of_fields [OF g(2)]
    have "loadable (segment_entry g) \<and> 0 < sg_mem_size g \<and> unat (sg_va g) + unat (sg_mem_size g) \<le> 2 ^ 28
        \<and> seg_pages (segment_entry g) \<le> VMO_MAX_PAGES \<and> page_disjoint (seg_first (segment_entry g)) (seg_pages (segment_entry g)) 0x2000 4"
      using pf g(1) unfolding program_fits_def by blast
    then show ?thesis using f g(2) by (simp add: seg_fits_def entry_of_def)
  qed
  show "filter loadable es = es" using ok by simp
  show "\<forall>e\<in>set es. seg_fits parser e" "\<forall>e\<in>set es. page_disjoint (seg_first e) (seg_pages e) 0x2000 4" using ok by blast+
  show len: "length es = length gs" using es by (simp add: list_all2_lengthD)
  have nth: "entry_of parser (gs ! i) (es ! i)" if "i < length gs" for i using es that by (simp add: list_all2_conv_all_nth)
  have "map (\<lambda>e. 9 + 5 * seg_pages e) es = map (\<lambda>e. 9 + 5 * seg_pages e) (map segment_entry gs)"
    by (rule nth_equalityI) (use len entry_of_fields(6) [OF nth] in simp_all)
  then show "need es = need (map segment_entry gs)" unfolding need_def by (simp only:)
  show "sorted_wrt (\<lambda>d e. page_disjoint (seg_first d) (seg_pages d) (seg_first e) (seg_pages e)) es"
    using pf len entry_of_fields(5,6) [OF nth] by (auto simp: program_fits_def sorted_wrt_iff_nth_less)
qed

text \<open>With base zero the entry point is \<open>ep\<close> whichever segment holds it.\<close>

lemma entry_fold: "fold (entry_in 0 ep) es found = None \<or> fold (entry_in 0 ep) es found = Some ep" if "found = None \<or> found = Some ep"
  using that by (induction es arbitrary: found) (auto simp: entry_in_def)

section \<open>The thread\<close>

definition ready_at :: "thread \<Rightarrow> u64 \<Rightarrow> u64 \<Rightarrow> u64 \<Rightarrow> u64 \<Rightarrow> bool" where
  "ready_at t pid ep sp ttbr \<longleftrightarrow> th_state t = Ready \<and> th_process_id t = pid \<and> cx_elr (th_context t) = ep \<and> cx_user_sp (th_context t) = sp
     \<and> cx_l0_user_pa (th_context t) = ttbr \<and> cx_spsr (th_context t) = 0 \<and> cx_x (th_context t) ! 0 = 0"

lemma start_user_spec:
  assumes inv: "phys_inv (pw_phys (ps_pt s))" and room: "next_free_page (pw_phys (ps_pt s)) + 4 * 4096 \<le> end_free_page (pw_phys (ps_pt s))"
    and sw: "sched_wf (ps_sched s)" and made: "threads_made (ps_sched s) < MAX_THREADS"
    and eq: "start_user stub k name ep sp [] s = (r, s')"
  shows "r = Ok () \<and> (\<exists>ph sc t i. s' = s\<lparr>ps_pt := (ps_pt s)\<lparr>pw_phys := ph\<rparr>, ps_tid_ctr := ps_tid_ctr s + 1, ps_sched := sc\<rparr>
     \<and> takes 4 (pw_phys (ps_pt s)) ph \<and> i < MAX_THREADS \<and> sc_threads (ps_sched s) ! i = None \<and> sc_threads sc ! i = Some t
     \<and> ready_at t (pr_id (proc k s)) ep sp (pack_ttbr (word_of_nat (l0_pa_of k s)) (pr_asid (proc k s))))"
proof -
  obtain t ph where nu: "new_user stub name ep sp (ps_tid_ctr s) (pw_phys (ps_pt s)) = (Ok t, ps_tid_ctr s + 1, ph)" and tk: "takes 4 (pw_phys (ps_pt s)) ph"
    and t: "cx_elr (th_context t) = ep" "cx_user_sp (th_context t) = sp" "length (cx_x (th_context t)) = 19"
    using new_user_room [OF inv room] by blast
  let ?s1 = "s\<lparr>ps_pt := (ps_pt s)\<lparr>pw_phys := ph\<rparr>, ps_tid_ctr := ps_tid_ctr s + 1\<rparr>"
  let ?t = "user_thread k 0 (pr_id (proc k ?s1)) t ?s1"
  obtain q sc where sa: "sched_add ?t (ps_sched s) = (q, sc)" by (metis prod.exhaust)
  have q: "q = Ok ()" using sched_add_spec [OF sw sa] made by simp
  then obtain i where i: "i < MAX_THREADS" "sc_threads (ps_sched s) ! i = None" "sc_threads sc = (sc_threads (ps_sched s))[i := Some (?t\<lparr>th_state := Ready\<rparr>)]"
    using sched_add_slot [of ?t "ps_sched s" sc] sa sched_wf_length [OF sw] by auto
  have "sc_threads sc ! i = Some (?t\<lparr>th_state := Ready\<rparr>)" using i sched_wf_length [OF sw] by simp
  moreover have "ready_at (?t\<lparr>th_state := Ready\<rparr>) (pr_id (proc k s)) ep sp (pack_ttbr (word_of_nat (l0_pa_of k s)) (pr_asid (proc k s)))"
    using t by (simp add: ready_at_def user_thread_def)
  moreover have "s' = ?s1\<lparr>ps_sched := sc\<rparr>" "r = Ok ()" using eq nu sa q by (simp_all add: start_user_def Let_def upd_phys_def)
  ultimately show ?thesis using tk i(1,2) by auto
qed

text \<open>The last part of the launch, after which the earlier ranges are as they were.\<close>

lemma launch_thread_spec:
  assumes inv: "loader_inv k (ls_ms s)" and room: "length (vmar_mappings (pr_root_vmar (proc k (ms_ps (ls_ms s))))) < MAX_MAPPINGS"
    and mem: "next_free_page (ms_phys (ls_ms s)) + 33 * 4096 \<le> end_free_page (ms_phys (ls_ms s))"
    and sw: "sched_wf (ps_sched (ms_ps (ls_ms s)))" and made: "threads_made (ps_sched (ms_ps (ls_ms s))) < MAX_THREADS"
    and eq: "launch_thread stub k name ep [] old daif s = (r, s')"
  shows "r = Ok () \<and> ls_daif s' = daif \<and> kept_below (ms_phys (ls_ms s)) (ms_phys (ls_ms s')) \<and> live_proc k (ls_ms s')
    \<and> pr_id (proc k (ms_ps (ls_ms s'))) = pr_id (proc k (ms_ps (ls_ms s)))
    \<and> pr_parent_pid (proc k (ms_ps (ls_ms s'))) = pr_parent_pid (proc k (ms_ps (ls_ms s)))
    \<and> (\<forall>a. \<not> (0x2000 \<le> page_of a \<and> page_of a < 0x2004) \<longrightarrow> pt_translate_va k a (ms_pt (ls_ms s')) = pt_translate_va k a (ms_pt (ls_ms s)))
    \<and> user_holds k (ms_pt (ls_ms s')) 0x2000000 (replicate 16384 0)
    \<and> (\<exists>i<MAX_THREADS. \<exists>t. sc_threads (ps_sched (ms_ps (ls_ms s))) ! i = None \<and> sc_threads (ps_sched (ms_ps (ls_ms s'))) ! i = Some t
         \<and> ready_at t (pr_id (proc k (ms_ps (ls_ms s)))) ep 0x2004000
             (pack_ttbr (word_of_nat (l0_pa_of k (ms_ps (ls_ms s')))) (pr_asid (proc k (ms_ps (ls_ms s'))))))"
proof -
  let ?m = "ls_ms s"
  let ?lo = "next_free_page (ms_phys ?m)"
  have base: "vmar_base (pr_root_vmar (proc k (ms_ps ?m))) = 0" and live: "live_proc k ?m" using inv by (simp_all add: loader_inv_def)
  obtain q m1 where ls: "load_stack k STACK_OFFSET ?m = (q, m1)" by (metis prod.exhaust)
  have "?lo + 29 * 4096 \<le> end_free_page (ms_phys ?m)" using mem by simp
  from load_stack_spec [OF inv room this ls] obtain v where q: "q = Ok v" and rl: "range_loaded k 0x2000 4 (replicate 16384 0) ?m m1"
    and ow: "owned_ok ?lo (vmo_owned v) (ms_phys m1)" by blast
  note rl' = rl [unfolded range_loaded_def]
  have uh: "user_holds k (ms_pt m1) (0x2000 * 4096) (replicate 16384 0)" using rl' by blast
  have tch: "touch_stack k 0x2004000 (ms_pt m1) = ms_pt m1" by (rule touch_stack_zero [OF uh])
  have kb1: "kept_below (ms_phys ?m) (ms_phys m1)" and mm: "maps_more k 1 ?m m1" and sr: "same_roots (ms_pt ?m) (ms_pt m1)" using rl' by blast+
  have nx1: "next_free_page (ms_phys m1) \<le> ?lo + 29 * 4096" using rl' by simp
  have ph1: "phys_inv (ms_phys m1)" "next_free_page (ms_phys m1) + 4 * 4096 \<le> end_free_page (ms_phys m1)"
    using kb1 nx1 mem by (auto simp: kept_below_def)
  obtain vm where psm: "ms_ps m1 = (ms_ps ?m)\<lparr>ps_procs := (ps_procs (ms_ps ?m))[k := Some ((proc k (ms_ps ?m))\<lparr>pr_root_vmar := vm\<rparr>)], ps_pt := ms_pt m1\<rparr>"
    using mm unfolding maps_more_def by blast
  have sc1: "ps_sched (ms_ps m1) = ps_sched (ms_ps ?m)" by (subst psm) simp
  have pr1: "ps_procs (ms_ps m1) = (ps_procs (ms_ps ?m))[k := Some ((proc k (ms_ps ?m))\<lparr>pr_root_vmar := vm\<rparr>)]" using arg_cong [OF psm, of ps_procs] by simp
  have pk: "pr_id (proc k (ms_ps m1)) = pr_id (proc k (ms_ps ?m))" "pr_parent_pid (proc k (ms_ps m1)) = pr_parent_pid (proc k (ms_ps ?m))"
    using live pr1 by (simp_all add: live_proc_def)
  obtain x ps2 where su: "start_user stub k name ep 0x2004000 [] (ms_ps m1) = (x, ps2)" by (metis prod.exhaust)
  have sw1: "sched_wf (ps_sched (ms_ps m1))" "threads_made (ps_sched (ms_ps m1)) < MAX_THREADS" using sw made sc1 by simp_all
  from start_user_spec [OF ph1 sw1 su] obtain ph sc t i where x: "x = Ok ()"
    and ps2: "ps2 = (ms_ps m1)\<lparr>ps_pt := (ms_pt m1)\<lparr>pw_phys := ph\<rparr>, ps_tid_ctr := ps_tid_ctr (ms_ps m1) + 1, ps_sched := sc\<rparr>"
    and tk: "takes 4 (ms_phys m1) ph" and i: "i < MAX_THREADS" "sc_threads (ps_sched (ms_ps m1)) ! i = None" "sc_threads sc ! i = Some t"
    and rd: "ready_at t (pr_id (proc k (ms_ps m1))) ep 0x2004000 (pack_ttbr (word_of_nat (l0_pa_of k (ms_ps m1))) (pr_asid (proc k (ms_ps m1))))"
    by blast
  let ?ps3 = "restore_user_page_table old (l0_pa_of k ps2) (pr_asid (proc k ps2)) ps2"
  let ?m2 = "set_ps ?ps3 m1"
  have m2: "ms_phys ?m2 = ph" "ms_pt ?m2 = (ms_pt m1)\<lparr>pw_phys := ph\<rparr>" "ps_procs (ms_ps ?m2) = ps_procs (ms_ps m1)"
    "sc_threads (ps_sched (ms_ps ?m2)) = sc_threads sc"
    by (simp_all add: set_ps_def restore_user_page_table_def ps2)
  have ow2: "owned_ok ?lo (vmo_owned v) (ms_phys ?m2)" unfolding m2(1) by (rule owned_ok_grows [OF ow]) (use tk in \<open>simp add: takes_def\<close>)
  obtain y m3 where rel: "release (Ok ()) v ?m2 = (y, m3)" by (metis prod.exhaust)
  have "phys_inv (ms_phys ?m2)" using tk m2(1) by (simp add: takes_def)
  from release_owned [OF ow2 this _ rel] obtain ph3 where y: "y = Ok ()" and m3: "m3 = set_kmem ((ms_kmem ?m2)\<lparr>km_phys := ph3\<rparr>) ?m2"
    and ph3: "phys_inv ph3" "next_free_page ph3 = next_free_page ph" "end_free_page ph3 = end_free_page ph" "ram ph3 = ram ph"
    unfolding m2(1) by auto
  have kb2: "kept_below (ms_phys m1) ph3" using kept_below_takes [OF tk] ph3 by (simp add: kept_below_def)
  have m3': "ms_pt m3 = (ms_pt m1)\<lparr>pw_phys := ph3\<rparr>" "ps_procs (ms_ps m3) = ps_procs (ms_ps m1)" "sc_threads (ps_sched (ms_ps m3)) = sc_threads sc"
    using m2 by (simp_all add: m3 phys_back_def)
  have "(0 + STACK_OFFSET + STACK_SIZE) AND NOT 15 = 0x2004000" "0 + STACK_OFFSET = STACK_OFFSET" by (simp_all add: STACK_OFFSET_def STACK_SIZE_def)
  then have res: "r = Ok ()" "s' = s\<lparr>ls_daif := daif, ls_ms := m3\<rparr>"
    using eq ls q su x rel y tch unfolding launch_thread_def Let_def base upd_ms_def local_irq_restore_def by simp_all
  have "user_holds k (ms_pt m3) (0x2000 * 4096) (replicate 16384 0)" by (rule user_holds_phys [OF uh kb2 m3'(1)])
  moreover have "kept_below (ms_phys ?m) (ms_phys m3)" using kept_below_trans [OF kb1 kb2] m3'(1) by simp
  moreover have "live_proc k m3" using maps_more_region(1) [OF mm live] m3'(2) by (simp add: live_proc_def)
  moreover have "pt_translate_va k a (ms_pt m3) = pt_translate_va k a (ms_pt ?m)" if "\<not> (0x2000 \<le> page_of a \<and> page_of a < 0x2004)" for a
    using rl' that m3'(1) by simp
  moreover have "pw_trees (ms_pt m3) = pw_trees (ms_pt m1)" using m3'(1) by simp
  ultimately show ?thesis using res i rd pk m3' sc1 by auto
qed

section \<open>The program\<close>

text \<open>The program has a slot that was free, and a ready thread of that process at the entry point and the top of the stack.\<close>

definition started_in :: "nat \<Rightarrow> u64 \<Rightarrow> u64 \<Rightarrow> u64 \<Rightarrow> pstate \<Rightarrow> pstate \<Rightarrow> bool" where
  "started_in k pid parent ep s s' \<longleftrightarrow> k < MAX_PROCESSES \<and> ps_procs s ! k = None
     \<and> (\<exists>p. ps_procs s' ! k = Some p \<and> pr_id p = pid \<and> pr_parent_pid p = parent
          \<and> (\<exists>i<MAX_THREADS. \<exists>t. sc_threads (ps_sched s') ! i = Some t
               \<and> ready_at t pid ep 0x2004000 (pack_ttbr (word_of_nat (l0_pa_of k s')) (pr_asid p))))"

text \<open>The state in which the loop over the segments starts.\<close>

lemma launch_begins:
  assumes rdy: "launch_ready slot_sz gs s"
  obtains k ps1 pt where "allocate_process slot_sz name (ms_ps (ls_ms s)) = (Ok k, ps1)" "ps_procs (ms_ps (ls_ms s)) ! k = None" "k < MAX_PROCESSES"
    "active_page_table (upd_proc k (\<lambda>p. p\<lparr>pr_parent_pid := parent\<rparr>) ps1) = active_page_table (ms_ps (ls_ms s))"
    "setup_space k (active_page_table (ms_ps (ls_ms s))) (ps_pt (upd_proc k (\<lambda>p. p\<lparr>pr_parent_pid := parent\<rparr>) ps1)) = (Ok (), pt)"
    "pr_id (proc k (upd_proc k (\<lambda>p. p\<lparr>pr_parent_pid := parent\<rparr>) ps1)) = ps_next_pid (ms_ps (ls_ms s))"
    "pr_parent_pid (proc k (upd_proc k (\<lambda>p. p\<lparr>pr_parent_pid := parent\<rparr>) ps1)) = parent"
    "loader_inv k (set_ps ((upd_proc k (\<lambda>p. p\<lparr>pr_parent_pid := parent\<rparr>) ps1)\<lparr>ps_pt := pt\<rparr>) (ls_ms s))"
    "vmar_mappings (pr_root_vmar (proc k (upd_proc k (\<lambda>p. p\<lparr>pr_parent_pid := parent\<rparr>) ps1))) = []"
    "takes 10 (ms_phys (ls_ms s)) (pw_phys pt)" "ps_sched ps1 = ps_sched (ms_ps (ls_ms s))"
proof -
  let ?ps = "ms_ps (ls_ms s)"
  have wf: "proc_wf ?ps" and inv: "phys_inv (pw_phys (ps_pt ?ps))" and sz: "MAX_HANDLES * slot_sz \<le> PAGE_SIZE"
    and par: "parent_ok (active_page_table ?ps) (ps_pt ?ps)"
    and room: "next_free_page (pw_phys (ps_pt ?ps)) + (43 + need (map segment_entry gs)) * 4096 \<le> end_free_page (pw_phys (ps_pt ?ps))"
    using rdy by (auto simp: launch_ready_def Let_def)
  obtain k where free: "first_free (ps_procs ?ps) = Some k" using rdy by (auto simp: launch_ready_def Let_def)
  have k: "k < length (ps_procs ?ps)" "ps_procs ?ps ! k = None" using first_freeD [OF free] by simp_all
  have kt: "k < length (pw_trees (ps_pt ?ps))" "k < MAX_PROCESSES" using wf k(1) by (simp_all add: proc_wf_def)
  have r2: "next_free_page (pw_phys (ps_pt ?ps)) + 2 * 4096 \<le> end_free_page (pw_phys (ps_pt ?ps))" using room by simp
  obtain p ph as where al: "allocate_process slot_sz name ?ps = (Ok k, ?ps\<lparr>ps_procs := (ps_procs ?ps)[k := Some p],
      ps_pt := (ps_pt ?ps)\<lparr>pw_phys := ph, pw_trees := (pw_trees (ps_pt ?ps))[k := Some pt_new]\<rparr>, ps_next_pid := ps_next_pid ?ps + 1, ps_asids := as\<rparr>)"
    and tk: "takes 2 (pw_phys (ps_pt ?ps)) ph" and p: "pr_id p = ps_next_pid ?ps" "vmar_base (pr_root_vmar p) = 0"
      "vmar_size (pr_root_vmar p) = 256 * 1024 * 1024" "vmar_mappings (pr_root_vmar p) = []"
    using allocate_process_room [OF wf free inv r2 sz] by blast
  let ?pt = "(ps_pt ?ps)\<lparr>pw_phys := ph, pw_trees := (pw_trees (ps_pt ?ps))[k := Some pt_new]\<rparr>"
  let ?ps1 = "?ps\<lparr>ps_procs := (ps_procs ?ps)[k := Some p], ps_pt := ?pt, ps_next_pid := ps_next_pid ?ps + 1, ps_asids := as\<rparr>"
  let ?ps2 = "upd_proc k (\<lambda>p. p\<lparr>pr_parent_pid := parent\<rparr>) ?ps1"
  obtain x pt where ss: "setup_space k (active_page_table ?ps) ?pt = (x, pt)" by (metis prod.exhaust)
  have par': "parent_ok (active_page_table ?ps) ?pt"
  proof (cases "active_page_table ?ps = 0")
    case False
    then have "tree_wf (pw_pte (ps_pt ?ps)) (active_page_table ?ps) (next_free_page (pw_phys (ps_pt ?ps)))" using par by (simp add: parent_ok_def root_wf_def)
    then have "tree_wf (pw_pte (ps_pt ?ps)) (active_page_table ?ps) (next_free_page ph)"
      using tk unfolding tree_wf_def takes_def grows_def by (meson order_less_le_trans)
    then show ?thesis using par tk by (auto simp: parent_ok_def root_wf_def takes_def)
  qed (simp add: parent_ok_def)
  have "phys_inv (pw_phys ?pt)" "next_free_page (pw_phys ?pt) + 5 * 4096 \<le> end_free_page (pw_phys ?pt)" using tk room by (auto simp: takes_def)
  from setup_space_spec [OF this _ _ par' ss] kt have ok: "x = Ok ()" "pt_wf k pt" "takes 8 ph (pw_phys pt)" by auto
  have pk: "proc k ?ps2 = p\<lparr>pr_parent_pid := parent\<rparr>" "ps_procs ?ps2 ! k \<noteq> None" using k(1) by (simp_all add: upd_proc_def)
  show ?thesis
  proof (rule that [of k ?ps1 pt])
    show "loader_inv k (set_ps (?ps2\<lparr>ps_pt := pt\<rparr>) (ls_ms s))" using ok pk k p by (simp add: loader_inv_def set_ps_def live_proc_def)
    show "takes 10 (ms_phys (ls_ms s)) (pw_phys pt)" using takes_trans [OF tk ok(3)] by simp
    show "active_page_table ?ps2 = active_page_table ?ps" by (simp add: active_page_table_def)
    show "setup_space k (active_page_table ?ps) (ps_pt ?ps2) = (Ok (), pt)" using ss ok(1) by simp
    show "pr_id (proc k ?ps2) = ps_next_pid ?ps" "pr_parent_pid (proc k ?ps2) = parent" "vmar_mappings (pr_root_vmar (proc k ?ps2)) = []" using pk p by simp_all
  qed (use al k kt in simp_all)
qed

text \<open>The launch of a parsed image with the entries \<open>es\<close>.\<close>

lemma launch_parsed_spec:
  assumes ents: "map (\<lambda>i. get_entry i parser) (entry_indices parser) = map FOk es" and fe: "filter loadable es = es" "\<forall>e\<in>set es. seg_fits parser e"
    "sorted_wrt (\<lambda>d e. page_disjoint (seg_first d) (seg_pages d) (seg_first e) (seg_pages e)) es"
    "\<forall>e\<in>set es. page_disjoint (seg_first e) (seg_pages e) 0x2000 4" "length es < MAX_MAPPINGS" "need es = need (map segment_entry gs)"
    and ep: "oh_entry_point (op_header parser) = ep"
    and rdy: "launch_ready slot_sz gs s" and eq: "launch_parsed slot_sz stub name parser [] parent s = (r, s')"
  shows "r = Ok (ps_next_pid (ms_ps (ls_ms s))) \<and> ls_daif s' = ls_daif s
    \<and> (\<exists>k. started_in k (ps_next_pid (ms_ps (ls_ms s))) parent ep (ms_ps (ls_ms s)) (ms_ps (ls_ms s'))
         \<and> (\<forall>e\<in>set es. user_holds k (ms_pt (ls_ms s')) (seg_first e * 4096) (seg_image parser e))
         \<and> user_holds k (ms_pt (ls_ms s')) 0x2000000 (replicate 16384 0))"
proof -
  obtain k ps1 pt where al: "allocate_process slot_sz name (ms_ps (ls_ms s)) = (Ok k, ps1)" and kf: "ps_procs (ms_ps (ls_ms s)) ! k = None" "k < MAX_PROCESSES"
    and act: "active_page_table (upd_proc k (\<lambda>p. p\<lparr>pr_parent_pid := parent\<rparr>) ps1) = active_page_table (ms_ps (ls_ms s))"
    and ss: "setup_space k (active_page_table (ms_ps (ls_ms s))) (ps_pt (upd_proc k (\<lambda>p. p\<lparr>pr_parent_pid := parent\<rparr>) ps1)) = (Ok (), pt)"
    and pid: "pr_id (proc k (upd_proc k (\<lambda>p. p\<lparr>pr_parent_pid := parent\<rparr>) ps1)) = ps_next_pid (ms_ps (ls_ms s))"
      "pr_parent_pid (proc k (upd_proc k (\<lambda>p. p\<lparr>pr_parent_pid := parent\<rparr>) ps1)) = parent"
    and li: "loader_inv k (set_ps ((upd_proc k (\<lambda>p. p\<lparr>pr_parent_pid := parent\<rparr>) ps1)\<lparr>ps_pt := pt\<rparr>) (ls_ms s))"
    and vm: "vmar_mappings (pr_root_vmar (proc k (upd_proc k (\<lambda>p. p\<lparr>pr_parent_pid := parent\<rparr>) ps1))) = []"
    and tk: "takes 10 (ms_phys (ls_ms s)) (pw_phys pt)" and sch: "ps_sched ps1 = ps_sched (ms_ps (ls_ms s))"
    by (rule launch_begins [OF rdy])
  let ?ps2 = "(upd_proc k (\<lambda>p. p\<lparr>pr_parent_pid := parent\<rparr>) ps1)\<lparr>ps_pt := pt\<rparr>"
  let ?m1 = "set_ps ?ps2 (ls_ms s)"
  let ?s1 = "s\<lparr>ls_ms := ?m1, ls_daif := ls_daif s OR 0x3C0\<rparr>"
  have m1: "ms_ps ?m1 = ?ps2" by (simp add: set_ps_def)
  obtain q m2 where lseg: "load_segments (entry_indices parser) k parser None ?m1 = (q, m2)" by (metis prod.exhaust)
  have room: "next_free_page (ms_phys (ls_ms s)) + (43 + need es) * 4096 \<le> end_free_page (ms_phys (ls_ms s))"
    and sw: "sched_wf (ps_sched (ms_ps (ls_ms s)))" "threads_made (ps_sched (ms_ps (ls_ms s))) < MAX_THREADS"
    using rdy fe(6) by (auto simp: launch_ready_def Let_def)
  have r1: "next_free_page (ms_phys ?m1) + (33 + need es) * 4096 \<le> end_free_page (ms_phys ?m1)" using tk room by (auto simp: m1 takes_def)
  have lm: "length (vmar_mappings (pr_root_vmar (proc k (ms_ps ?m1)))) + length (filter loadable es) \<le> MAX_MAPPINGS"
    using vm fe(1,5) by (simp add: m1)
  have "\<forall>e\<in>set (filter loadable es). seg_fits parser e"
    "sorted_wrt (\<lambda>d e. page_disjoint (seg_first d) (seg_pages d) (seg_first e) (seg_pages e)) (filter loadable es)"
    unfolding fe(1) by (rule fe(2), rule fe(3))
  from load_segments_spec [OF li lm ents this lseg, unfolded fe(1) ep] r1
  have q: "q = Ok (fold (entry_in 0 ep) es None)" and li2: "loader_inv k m2" and mm: "maps_more k (length es) ?m1 m2"
    and kb: "kept_below (ms_phys ?m1) (ms_phys m2)" and nx: "next_free_page (ms_phys m2) \<le> next_free_page (ms_phys ?m1) + need es * 4096"
    and held: "\<forall>e\<in>set es. user_holds k (ms_pt m2) (seg_first e * 4096) (seg_image parser e)"
    by auto
  have live: "live_proc k ?m1" using li by (simp add: loader_inv_def)
  have len: "length (vmar_mappings (pr_root_vmar (proc k (ms_ps m2)))) < MAX_MAPPINGS"
    using maps_more_region(4) [OF mm live] vm fe(5) by (simp add: m1)
  obtain vm' where psm: "ms_ps m2 = (ms_ps ?m1)\<lparr>ps_procs := (ps_procs (ms_ps ?m1))[k := Some ((proc k (ms_ps ?m1))\<lparr>pr_root_vmar := vm'\<rparr>)], ps_pt := ms_pt m2\<rparr>"
    using mm unfolding maps_more_def by blast
  have sc2: "ps_sched (ms_ps m2) = ps_sched (ms_ps (ls_ms s))" by (subst psm) (simp add: m1 sch)
  have pid2: "pr_id (proc k (ms_ps m2)) = ps_next_pid (ms_ps (ls_ms s))" "pr_parent_pid (proc k (ms_ps m2)) = parent"
    using arg_cong [OF psm, of "\<lambda>p. pr_id (proc k p)"] arg_cong [OF psm, of "\<lambda>p. pr_parent_pid (proc k p)"] live pid by (simp_all add: m1 live_proc_def)
  have base: "vmar_base (pr_root_vmar (proc k (ms_ps m2))) = 0" using li2 by (simp add: loader_inv_def)
  let ?s2 = "?s1\<lparr>ls_ms := m2\<rparr>" and ?nm = "map (\<lambda>b. char_of (unat b)) (name_bytes (ms_ps m2) name)"
  obtain y s3 where lt: "launch_thread stub k ?nm ep [] (active_page_table (ms_ps (ls_ms s))) (ls_daif s) ?s2 = (y, s3)" by (metis prod.exhaust)
  obtain found where found: "q = Ok found" "found = None \<or> found = Some ep" using q entry_fold [of None ep es] by auto
  have res: "r = res_map (\<lambda>_. ps_next_pid (ms_ps (ls_ms s))) y \<and> s' = s3"
    using found(2) eq ep al act ss lseg found(1) base lt pid
    by (elim disjE) (simp_all add: launch_parsed_def Let_def local_irq_save_def upd_ms_def)
  have r2: "next_free_page (ms_phys m2) + 33 * 4096 \<le> end_free_page (ms_phys m2)" using nx kb r1 by (auto simp: kept_below_def)
  have "loader_inv k (ls_ms ?s2)" "length (vmar_mappings (pr_root_vmar (proc k (ms_ps (ls_ms ?s2))))) < MAX_MAPPINGS"
    "next_free_page (ms_phys (ls_ms ?s2)) + 33 * 4096 \<le> end_free_page (ms_phys (ls_ms ?s2))"
    "sched_wf (ps_sched (ms_ps (ls_ms ?s2)))" "threads_made (ps_sched (ms_ps (ls_ms ?s2))) < MAX_THREADS"
    using li2 len r2 sw sc2 by simp_all
  note lts = launch_thread_spec [OF this lt]
  have y: "y = Ok ()" "ls_daif s3 = ls_daif s" and kb3: "kept_below (ms_phys m2) (ms_phys (ls_ms s3))" and l3: "live_proc k (ls_ms s3)"
    and tr: "\<forall>a. \<not> (0x2000 \<le> page_of a \<and> page_of a < 0x2004) \<longrightarrow> pt_translate_va k a (ms_pt (ls_ms s3)) = pt_translate_va k a (ms_pt m2)"
    and st: "user_holds k (ms_pt (ls_ms s3)) 0x2000000 (replicate 16384 0)"
    and pid3: "pr_id (proc k (ms_ps (ls_ms s3))) = ps_next_pid (ms_ps (ls_ms s))" "pr_parent_pid (proc k (ms_ps (ls_ms s3))) = parent"
    and thr: "\<exists>i<MAX_THREADS. \<exists>t. sc_threads (ps_sched (ms_ps (ls_ms s3))) ! i = Some t
         \<and> ready_at t (ps_next_pid (ms_ps (ls_ms s))) ep 0x2004000
             (pack_ttbr (word_of_nat (l0_pa_of k (ms_ps (ls_ms s3)))) (pr_asid (proc k (ms_ps (ls_ms s3)))))"
    using lts pid2 by auto
  have "user_holds k (ms_pt (ls_ms s3)) (seg_first e * 4096) (seg_image parser e)" if e: "e \<in> set es" for e
  proof -
    have "page_disjoint (seg_first e) (seg_pages e) 0x2000 4" using fe(4) e by blast
    then have "\<forall>a. seg_first e \<le> page_of a \<and> page_of a < seg_first e + seg_pages e \<longrightarrow> pt_translate_va k a (ms_pt (ls_ms s3)) = pt_translate_va k a (ms_pt m2)"
      using tr by (auto simp: page_disjoint_def)
    moreover have "seg_first e * 4096 + seg_pages e * 4096 \<le> 2 ^ 48" using seg_words(6) [of parser e] fe(2) e by fastforce
    ultimately show ?thesis using user_holds_kept [OF held [rule_format, OF e] _ _ kb3] by simp
  qed
  moreover obtain p where "ps_procs (ms_ps (ls_ms s3)) ! k = Some p" using l3 by (auto simp: live_proc_def)
  moreover from this have "started_in k (ps_next_pid (ms_ps (ls_ms s))) parent ep (ms_ps (ls_ms s)) (ms_ps (ls_ms s3))"
    using kf pid3 thr by (simp add: started_in_def)
  ultimately show ?thesis using res y st by (intro conjI exI [of _ k]) simp_all
qed

text \<open>The launch of a built image, by whichever parent.\<close>

lemma launch_with_argv_spec:
  assumes pf: "program_fits gs" and img: "builder_build (add_segments gs (builder_new arch ft fl ep)) = FOk img"
    and rdy: "launch_ready slot_sz gs s" and eq: "launch_with_argv slot_sz stub name img [] parent s = (r, s')"
  shows "r = Ok (ps_next_pid (ms_ps (ls_ms s))) \<and> ls_daif s' = ls_daif s
    \<and> (\<exists>k. started_in k (ps_next_pid (ms_ps (ls_ms s))) parent ep (ms_ps (ls_ms s)) (ms_ps (ls_ms s'))
         \<and> (\<forall>g\<in>set gs. user_holds k (ms_pt (ls_ms s')) (unat (sg_va g)) (segment_memory g))
         \<and> user_holds k (ms_pt (ls_ms s')) 0x2000000 (replicate 16384 0))"
proof -
  have sf: "segments_fit gs" "length gs < MAX_MAPPINGS" "\<forall>g\<in>set gs. length (sg_data g) \<le> 2 ^ 32"
    using pf by (simp_all add: program_fits_def segments_fit_def)
  have pfD: "\<forall>g\<in>set gs. length (sg_data g) \<le> unat (sg_mem_size g)" using pf by (simp add: program_fits_def)
  obtain parser es where pa: "parser_new img = FOk parser" "oh_entry_point (op_header parser) = ep" and es: "list_all2 (entry_of parser) gs es"
    and ents: "map (\<lambda>i. get_entry i parser) (entry_indices parser) = map FOk es"
    by (rule built_entries [OF sf(1) img])
  note fe = fits_entries [OF pf es]
  have eq': "launch_parsed slot_sz stub name parser [] parent s = (r, s')" using eq pa(1) by (simp add: launch_with_argv_def)
  have "user_holds k p (unat (sg_va g)) (segment_memory g)"
    if g: "g \<in> set gs" and u: "\<forall>e\<in>set es. user_holds k p (seg_first e * 4096) (seg_image parser e)" for g k p
  proof -
    obtain e where e: "e \<in> set es" "entry_of parser g e" using es g by (metis in_set_conv_nth list_all2_conv_all_nth)
    have "length (sg_data g) \<le> unat (sg_mem_size g)" using bspec [OF pfD g] by simp
    moreover have "length (sg_data g) \<le> 2 ^ 32" using sf(3) g by blast
    ultimately show ?thesis using entry_of_memory [OF e(2)] u e(1) by blast
  qed
  moreover have "length es < MAX_MAPPINGS" using fe(4) sf(2) by simp
  ultimately show ?thesis using launch_parsed_spec [OF ents fe(1,2,5,6) _ fe(3) pa(2) rdy eq'] by blast
qed


section \<open>Witness\<close>

text \<open>The first program after boot: eight bytes of code that do not start on a page, and data with a zeroed tail.\<close>

definition demo_program :: "segment list" where
  "demo_program =
     [\<lparr>sg_ty = 1, sg_flags = 5, sg_data = [0x20, 0, 0x80, 0xD2, 0, 0, 0, 0x14], sg_mem_size = 8, sg_va = 0x10010, sg_alignment = 16\<rparr>,
      \<lparr>sg_ty = 2, sg_flags = 3, sg_data = [1, 2, 3], sg_mem_size = 5, sg_va = 0x20000, sg_alignment = 0\<rparr>]"

definition demo_boot :: lstate where
  "demo_boot = \<lparr>ls_ms = \<lparr>ms_ps = demo_pstate\<lparr>ps_procs := replicate 8 None,
       ps_pt := \<lparr>pw_phys = demo_phys\<lparr>end_free_page := 0x40200000\<rparr>, pw_pte = (\<lambda>_ _. 0), pw_trees = replicate 8 None\<rparr>,
       ps_next_pid := 1, ps_sched := sched_new\<rparr>, ms_meta = demo_kmem\<rparr>, ls_daif = 0x80\<rparr>"

lemma demo_program_fits: "program_fits demo_program"
proof -
  have "alignment_ok 16" "alignment_ok 0" unfolding alignment_ok_def by (auto intro: exI [of _ 4])
  then show ?thesis
    by (simp add: program_fits_def segments_fit_def demo_program_def segment_entry_def loadable_def seg_pages_def seg_off_def seg_first_def
        page_disjoint_def VMO_MAX_PAGES_def MAX_MAPPINGS_def)
qed

lemma demo_boot_ready: "launch_ready 64 demo_program demo_boot"
proof -
  have "need (map segment_entry demo_program) = 28" by (simp add: need_def demo_program_def segment_entry_def seg_pages_def seg_off_def)
  moreover have "proc_wf (ms_ps (ls_ms demo_boot))" by (simp add: proc_wf_def demo_boot_def MAX_PROCESSES_def)
  moreover have "first_free (replicate 8 None) \<noteq> (None :: nat option)" by (simp add: first_free_None_full)
  ultimately show ?thesis
    using demo_phys_inv sched_new_wf
    by (simp add: launch_ready_def demo_boot_def Let_def active_page_table_def parent_ok_def sched_new_def threads_made_def
        demo_phys_def phys_inv_def layout_simps MAX_HANDLES_def MAX_THREADS_def)
qed


end
