(* ===== verification/Rootfs.thy ===== *)
theory Rootfs
  imports Shared_Types
begin

text \<open>
  The boot image: the packer of the build tool (\<open>tools/xtask/src/pack.rs\<close>) writes the files of the staging
  directory into one image, and the kernel (\<open>kernel/src/rootfs.rs\<close>) looks programs up in it by path. The
  directory walk of the packer is its input here: a list of paths and contents.
\<close>

definition ROOTFS_MAGIC :: "u8 list" where "ROOTFS_MAGIC = [0x48, 0x4E, 0x58, 0x46, 0x5F, 0x56, 0x46, 0x53]"
definition MAX_PATH_LEN :: nat where "MAX_PATH_LEN = 128"

section \<open>Packing\<close>

record file_entry =
  fe_path :: "u8 list"
  fe_data :: "u8 list"

text \<open>\<open>replace("\\", "/")\<close>, then the path cut to 127 bytes in a zeroed field.\<close>

definition normal_path :: "u8 list \<Rightarrow> u8 list" where
  "normal_path p = map (\<lambda>b. if b = 0x5C then 0x2F else b) p"

definition path_field :: "u8 list \<Rightarrow> u8 list" where
  "path_field p =
     (let src = normal_path p; n = min (length src) (MAX_PATH_LEN - 1) in take n src @ replicate (MAX_PATH_LEN - n) 0)"

definition padding :: "u64 \<Rightarrow> u64" where
  "padding off = (16 - off mod 16) mod 16"

text \<open>The header loop returns the headers written and the entries with their data padded.\<close>

fun pack_headers :: "file_entry list \<Rightarrow> u64 \<Rightarrow> u8 list \<times> u8 list list" where
  "pack_headers [] off = ([], [])"
| "pack_headers (e # es) off =
     (let size = word_of_nat (length (fe_data e)) :: u64;
          fin = off + size; pad = padding fin;
          (hs, ds) = pack_headers es (fin + pad)
      in (path_field (fe_path e) @ word_to_le 8 off @ word_to_le 8 size @ hs, (fe_data e @ replicate (unat pad) 0) # ds))"

definition pack_rootfs :: "file_entry list \<Rightarrow> u8 list" where
  "pack_rootfs es =
     (let (hs, ds) = pack_headers es (16 + word_of_nat (length es) * 144)
      in ROOTFS_MAGIC @ word_to_le 8 (word_of_nat (length es) :: u64) @ hs @ concat ds)"

section \<open>Looking up\<close>

text \<open>The length of a stored path: up to the first zero byte, or zero when there is none.\<close>

definition stored_path :: "u8 list \<Rightarrow> nat \<Rightarrow> u8 list" where
  "stored_path img off =
     (let field = take MAX_PATH_LEN (drop off img);
          n = (case find_index (\<lambda>b. b = 0) field of Some i \<Rightarrow> i | None \<Rightarrow> 0);
          p = take n field
      in if utf8_valid p then p else [])"

text \<open>
  The entry loop; \<open>count\<close> entries are left. The end of the data is the wrapping sum of offset and size, and a
  slice whose end lies before its start aborts.
\<close>

fun lookup_loop :: "nat \<Rightarrow> nat \<Rightarrow> u8 list \<Rightarrow> u8 list \<Rightarrow> u8 list option res" where
  "lookup_loop count off img path =
     (if count = 0 \<or> length img < off + 144 then Ok None
      else let file_offset = word_of_le (take 8 (drop (off + MAX_PATH_LEN) img)) :: u64;
               file_size = word_of_le (take 8 (drop (off + MAX_PATH_LEN + 8) img)) :: u64;
               fin = file_offset + file_size
           in if stored_path img off = path \<and> unat fin \<le> length img
              then (if fin < file_offset then Panic else Ok (Some (take (unat file_size) (drop (unat file_offset) img))))
              else lookup_loop (count - 1) (off + 144) img path)"

declare lookup_loop.simps [simp del]

definition get_file :: "u8 list \<Rightarrow> u8 list \<Rightarrow> u8 list option res" where
  "get_file img path =
     (if length img < 16 \<or> take 8 img \<noteq> ROOTFS_MAGIC then Ok None
      else lookup_loop (unat (word_of_le (take 8 (drop 8 img)) :: u64)) 16 img path)"

section \<open>Layout of a packed image\<close>

definition path_ok :: "u8 list \<Rightarrow> bool" where
  "path_ok p \<longleftrightarrow> length p < MAX_PATH_LEN \<and> 0 \<notin> set p \<and> utf8_valid (normal_path p)"

lemma length_path_field [simp]: "length (path_field p) = 128"
  by (simp add: path_field_def Let_def normal_path_def MAX_PATH_LEN_def)

lemma path_field_ok: "path_ok p \<Longrightarrow> path_field p = normal_path p @ replicate (128 - length p) 0"
  by (simp add: path_ok_def path_field_def Let_def normal_path_def MAX_PATH_LEN_def)

lemma stored_path_at:
  assumes "path_ok p" "img = a @ path_field p @ b"
  shows "stored_path img (length a) = normal_path p"
proof -
  have f: "take MAX_PATH_LEN (drop (length a) img) = normal_path p @ replicate (128 - length p) 0"
    using assms by (simp add: path_field_ok MAX_PATH_LEN_def normal_path_def path_ok_def)
  have "find_index (\<lambda>b. b = 0) (normal_path p @ replicate (128 - length p) 0) = Some (length p)"
    using assms(1) by (intro find_index_SomeI) (auto simp: path_ok_def normal_path_def nth_append MAX_PATH_LEN_def in_set_conv_nth)
  then show ?thesis using assms(1) by (simp add: stored_path_def Let_def f path_ok_def) (simp add: normal_path_def)
qed

lemma unat_padding: "unat (padding off) < 16"
proof -
  have "unat (x mod 16) < 16" for x :: u64 by (simp only: unat_mod) simp
  then show ?thesis by (simp only: padding_def)
qed

text \<open>The padded size of the files, and what the headers promise of the data that follows them.\<close>

definition data_size :: "file_entry list \<Rightarrow> nat" where
  "data_size es = (\<Sum>e\<leftarrow>es. length (fe_data e) + 16)"

lemma data_size_Cons [simp]: "data_size (e # es) = length (fe_data e) + 16 + data_size es" "data_size [] = 0"
  by (simp_all add: data_size_def)

lemma length_pack_headers: "pack_headers es off = (hs, ds) \<Longrightarrow> length hs = length es * 144 \<and> length ds = length es"
proof (induction es arbitrary: off hs ds)
  case (Cons e es)
  define nxt where "nxt = off + word_of_nat (length (fe_data e)) + padding (off + word_of_nat (length (fe_data e)))"
  obtain hs' ds' where rec: "pack_headers es nxt = (hs', ds')" by (metis prod.exhaust)
  from Cons.prems rec have "path_field (fe_path e) @ word_to_le 8 off @ word_to_le 8 (word_of_nat (length (fe_data e)) :: u64) @ hs' = hs"
    "(fe_data e @ replicate (unat (padding (off + word_of_nat (length (fe_data e))))) 0) # ds' = ds"
    by (simp_all add: Let_def nxt_def)
  then have "length hs = 144 + length hs'" "length ds = Suc (length ds')" by auto
  with Cons.IH [OF rec] show ?case by simp
qed simp

lemma lookup_loop_packed:
  assumes "pack_headers es off = (hs, ds)" "\<forall>e\<in>set es. path_ok (fe_path e)"
    and "img = pre @ hs @ rest" "img = low @ concat ds" "unat off = length low" "length low + data_size es < 2 ^ 64"
    and "length pre + length hs \<le> length low"
  shows "lookup_loop (length es) (length pre) img path
    = Ok (map_of (map (\<lambda>e. (normal_path (fe_path e), fe_data e)) es) path)"
  using assms
proof (induction es arbitrary: off hs ds pre low)
  case Nil
  then show ?case by (simp add: lookup_loop.simps)
next
  case (Cons e es)
  let ?n = "length (fe_data e)" and ?size = "word_of_nat (length (fe_data e)) :: u64"
  let ?fin = "off + ?size"
  let ?pad = "padding ?fin"
  obtain hs' ds' where rec: "pack_headers es (?fin + ?pad) = (hs', ds')" by (metis prod.exhaust)
  have hs: "hs = path_field (fe_path e) @ word_to_le 8 off @ word_to_le 8 ?size @ hs'"
    and ds: "ds = (fe_data e @ replicate (unat ?pad) 0) # ds'"
    using Cons.prems(1) rec by (simp_all add: Let_def)
  have big: "length low + ?n + 16 + data_size es < 2 ^ 64" using Cons.prems(6) by simp
  have sz: "unat ?size = ?n" using big by (simp add: unat_of_nat)
  have fin: "unat ?fin = length low + ?n" using big Cons.prems(5) sz by (subst unat_add_no_wrap) simp_all
  have pad: "unat ?pad < 16" by (rule unat_padding)
  have nxt: "unat (?fin + ?pad) = length low + ?n + unat ?pad" using big fin pad by (subst unat_add_no_wrap) simp_all
  have img: "img = low @ fe_data e @ replicate (unat ?pad) 0 @ concat ds'" using Cons.prems(4) ds by simp
  have img1: "img = pre @ path_field (fe_path e) @ word_to_le 8 off @ word_to_le 8 ?size @ hs' @ rest" using Cons.prems(3) hs by simp
  have o: "word_of_le (take 8 (drop (length pre + MAX_PATH_LEN) img)) = off" "word_of_le (take 8 (drop (length pre + MAX_PATH_LEN + 8) img)) = ?size"
    using img1 by (simp_all add: MAX_PATH_LEN_def word_of_le_to_le)
  have sp: "stored_path img (length pre) = normal_path (fe_path e)"
    using Cons.prems(2) img1 by (intro stored_path_at) auto
  have len: "length pre + 144 \<le> length img" using img1 by simp
  have nofl: "\<not> ?fin < off" using fin Cons.prems(5) by (simp add: word_less_nat_alt)
  have "lookup_loop (length es) (length (pre @ path_field (fe_path e) @ word_to_le 8 off @ word_to_le 8 ?size)) img path
      = Ok (map_of (map (\<lambda>e. (normal_path (fe_path e), fe_data e)) es) path)"
  proof (rule Cons.IH [OF rec])
    show "img = (low @ fe_data e @ replicate (unat ?pad) 0) @ concat ds'" using img by simp
    show "unat (?fin + ?pad) = length (low @ fe_data e @ replicate (unat ?pad) 0)" using nxt by simp
    show "length (low @ fe_data e @ replicate (unat ?pad) 0) + data_size es < 2 ^ 64" using big pad by simp
    show "length (pre @ path_field (fe_path e) @ word_to_le 8 off @ word_to_le 8 ?size) + length hs' \<le> length (low @ fe_data e @ replicate (unat ?pad) 0)"
      using Cons.prems(7) hs by simp
  qed (use Cons.prems(2) img1 in auto)
  moreover have "take ?n (drop (length low) img) = fe_data e" "length low + ?n \<le> length img" using img by simp_all
  ultimately show ?case
    using sp o fin sz nofl len Cons.prems(5) by (simp add: lookup_loop.simps [of "Suc (length es)"] Let_def add.assoc)
qed

lemma get_file_packed:
  assumes "\<forall>e\<in>set es. path_ok (fe_path e)" "16 + length es * 144 + data_size es < 2 ^ 64"
  shows "get_file (pack_rootfs es) path = Ok (map_of (map (\<lambda>e. (normal_path (fe_path e), fe_data e)) es) path)"
proof -
  let ?off = "16 + word_of_nat (length es) * 144 :: u64"
  obtain hs ds where ph: "pack_headers es ?off = (hs, ds)" by (metis prod.exhaust)
  let ?pre = "ROOTFS_MAGIC @ word_to_le 8 (word_of_nat (length es) :: u64)"
  let ?img = "?pre @ hs @ concat ds"
  have img: "pack_rootfs es = ?img" by (simp add: pack_rootfs_def ph)
  have hl: "length hs = length es * 144" using length_pack_headers [OF ph] by simp
  have pl: "length ?pre = 16" by (simp add: ROOTFS_MAGIC_def)
  have cnt: "unat (word_of_nat (length es) :: u64) = length es" using assms(2) by (simp add: unat_of_nat)
  have "unat (16 + word_of_nat (length es * 144) :: u64) = 16 + length es * 144"
    using assms(2) by (subst unat_add_no_wrap) (simp_all only: unat_of_nat, simp_all)
  then have off: "unat ?off = length (?pre @ hs)" using hl pl by (simp add: ac_simps)
  have "lookup_loop (length es) (length ?pre) ?img path = Ok (map_of (map (\<lambda>e. (normal_path (fe_path e), fe_data e)) es) path)"
  proof (rule lookup_loop_packed [OF ph assms(1)])
    show "?img = ?pre @ hs @ concat ds" by simp
    show "?img = (?pre @ hs) @ concat ds" by simp
    show "unat ?off = length (?pre @ hs)" by (rule off)
    show "length (?pre @ hs) + data_size es < 2 ^ 64" using assms(2) hl pl by simp
    show "length ?pre + length hs \<le> length (?pre @ hs)" by simp
  qed
  moreover have "take 8 ?img = ROOTFS_MAGIC" "take 8 (drop 8 ?img) = word_to_le 8 (word_of_nat (length es) :: u64)"
    by (simp_all add: ROOTFS_MAGIC_def)
  ultimately show ?thesis unfolding img get_file_def using cnt pl by (simp add: word_of_le_to_le)
qed

section \<open>Properties\<close>

text \<open>
  C20. The kernel finds what was packed. For every list of files whose paths fit their field, hold no zero byte
  and are text, and whose total size fits 64 bits, the lookup of any path in the packed image gives the
  contents of the first file with that path (backslashes read as slashes), and nothing for any other path.
\<close>

theorem rootfs_pack_lookup:
  assumes "\<forall>e\<in>set es. path_ok (fe_path e)" "16 + length es * 144 + data_size es < 2 ^ 64"
  shows "get_file (pack_rootfs es) path = Ok (map_of (map (\<lambda>e. (normal_path (fe_path e), fe_data e)) es) path)"
  by (rule get_file_packed [OF assms])

theorem rootfs_pack_lookup_witness:
  "get_file (pack_rootfs [\<lparr>fe_path = [0x61, 0x5C, 0x62], fe_data = [1, 2, 3]\<rparr>, \<lparr>fe_path = [0x63], fe_data = []\<rparr>]) [0x61, 0x2F, 0x62] = Ok (Some [1, 2, 3])"
proof -
  let ?es = "[\<lparr>fe_path = [0x61, 0x5C, 0x62], fe_data = [1, 2, 3]\<rparr>, \<lparr>fe_path = [0x63], fe_data = []\<rparr>]"
  have "\<forall>e\<in>set ?es. path_ok (fe_path e)" by (simp add: path_ok_def normal_path_def MAX_PATH_LEN_def)
  moreover have "16 + length ?es * 144 + data_size ?es < 2 ^ 64" by simp
  ultimately show ?thesis using rootfs_pack_lookup [of ?es "[0x61, 0x2F, 0x62]"] by (simp add: normal_path_def)
qed

end
