(* ===== verification/Spawn.thy ===== *)
theory Spawn
  imports Launch_Program Rootfs
begin

text \<open>
  Starting programs from the boot image: \<open>sys_exec\<close>, \<open>sys_execve\<close>, \<open>sys_spawn\<close> and \<open>sys_load_binary\<close> of
  \<open>syscall/handlers/process.rs\<close> and the service launcher of \<open>loader.rs\<close>. The boot image is the argument \<open>rootfs\<close>.
  Cache maintenance and the canary that only prints are left out.
\<close>

definition EXECVE_MAX_ARGS :: nat where "EXECVE_MAX_ARGS = 16"
definition EXECVE_ARG_TOTAL :: nat where "EXECVE_ARG_TOTAL = 4096"
definition LOAD_BINARY_SCRATCH_SIZE :: nat where "LOAD_BINARY_SCRATCH_SIZE = 1024 * 1024"

section \<open>Reading the request\<close>

text \<open>A name without a slash is looked up in \<open>system/bin\<close>; the joined path has room for 160 bytes.\<close>

definition SYSTEM_BIN :: "u8 list" where
  "SYSTEM_BIN = map of_char ''system/bin/''"

definition resolve_program :: "u8 list \<Rightarrow> u8 list res" where
  "resolve_program name =
     (if 0x2F \<in> set name then Ok name
      else if length SYSTEM_BIN + length name \<le> 160 then Ok (SYSTEM_BIN @ name) else Err InvalidArgs)"

text \<open>The argument loop: pairs of address and length, at most 256 bytes each.\<close>

fun read_args :: "nat \<Rightarrow> nat \<Rightarrow> u64 \<Rightarrow> ptw \<Rightarrow> u8 list list res" where
  "read_args l0 0 pair_off p = Ok []"
| "read_args l0 (Suc n) pair_off p =
     (case safe_copy_from_user l0 pair_off 16 p of
        Ok pair \<Rightarrow>
          (let s_ptr = word_of_le (take 8 pair) :: u64; s_len = unat (word_of_le (drop 8 pair) :: u64) in
           if 256 < s_len then Err InvalidArgs
           else case (if 0 < s_len then safe_copy_from_user l0 s_ptr s_len p else Ok []) of
                  Ok a \<Rightarrow> (case read_args l0 n (pair_off + 16) p of Ok as \<Rightarrow> Ok (a # as) | Err e \<Rightarrow> Err e | Panic \<Rightarrow> Panic)
                | Err e \<Rightarrow> Err e
                | Panic \<Rightarrow> Panic)
      | Err e \<Rightarrow> Err e
      | Panic \<Rightarrow> Panic)"

text \<open>What \<open>sys_execve\<close> and \<open>sys_spawn\<close> read from the caller: the name of the program and its arguments.\<close>

definition read_request :: "u64 \<Rightarrow> u64 \<Rightarrow> u64 \<Rightarrow> u64 \<Rightarrow> pstate \<Rightarrow> (u64 \<times> u8 list \<times> u8 list list) res" where
  "read_request path_ptr path_len argv_ptr argv_count s =
     (if path_ptr = 0 \<or> path_len = 0 then Err InvalidArgs
      else if EXECVE_MAX_ARGS < unat argv_count then Err InvalidArgs
      else case caller_slot NotFound s of
        Ok (pid, k) \<Rightarrow>
          (let l0 = l0_pa_of k s in
           if l0 = 0 then Err InvalidArgs
           else case safe_copy_from_user l0 path_ptr (min (unat path_len) 256) (ps_pt s) of
             Ok name \<Rightarrow>
               if \<not> utf8_valid name then Err InvalidArgs
               else if 0 < argv_count \<and> argv_ptr = 0 then Err InvalidArgs
               else (case read_args l0 (unat argv_count) argv_ptr (ps_pt s) of
                       Ok args \<Rightarrow>
                         if EXECVE_ARG_TOTAL < sum_list (map length args) + unat argv_count * 8 then Err InvalidArgs
                         else Ok (pid, name, args)
                     | Err e \<Rightarrow> Err e
                     | Panic \<Rightarrow> Panic)
           | Err e \<Rightarrow> Err e
           | Panic \<Rightarrow> Panic)
      | Err e \<Rightarrow> Err e
      | Panic \<Rightarrow> Panic)"

section \<open>Launching\<close>

definition run_program :: "nat \<Rightarrow> u64 \<Rightarrow> u8 list \<Rightarrow> u8 list \<Rightarrow> u8 list list \<Rightarrow> u64 \<Rightarrow> lstate \<Rightarrow> u64 res \<times> lstate" where
  "run_program slot_sz stub rootfs name args parent s =
     (case resolve_program name of
        Ok path \<Rightarrow>
          (case get_file rootfs path of
             Ok (Some bytes) \<Rightarrow>
               (case intern_name name (ms_ps (ls_ms s)) of
                  (Ok nm, ps) \<Rightarrow> launch_with_argv slot_sz stub nm bytes args parent (s\<lparr>ls_ms := set_ps ps (ls_ms s)\<rparr>)
                | (Err e, ps) \<Rightarrow> (Err e, s\<lparr>ls_ms := set_ps ps (ls_ms s)\<rparr>)
                | (Panic, ps) \<Rightarrow> (Panic, s\<lparr>ls_ms := set_ps ps (ls_ms s)\<rparr>))
           | Ok None \<Rightarrow> (Err NotFound, s)
           | Err e \<Rightarrow> (Err e, s)
           | Panic \<Rightarrow> (Panic, s))
      | Err e \<Rightarrow> (Err e, s)
      | Panic \<Rightarrow> (Panic, s))"

definition sys_spawn :: "nat \<Rightarrow> u64 \<Rightarrow> u8 list \<Rightarrow> u64 \<Rightarrow> u64 \<Rightarrow> u64 \<Rightarrow> u64 \<Rightarrow> lstate \<Rightarrow> u64 res \<times> lstate" where
  "sys_spawn slot_sz stub rootfs path_ptr path_len argv_ptr argv_count s =
     (case read_request path_ptr path_len argv_ptr argv_count (ms_ps (ls_ms s)) of
        Ok (pid, name, args) \<Rightarrow> run_program slot_sz stub rootfs name args pid s
      | Err e \<Rightarrow> (Err e, s)
      | Panic \<Rightarrow> (Panic, s))"

text \<open>The caller of \<open>exec\<close> is parked and the scheduler picks another thread.\<close>

definition replace_caller :: "lstate \<Rightarrow> sched_outcome \<times> lstate" where
  "replace_caller s =
     (let ps = ms_ps (ls_ms s);
          ps1 = (case get_current_thread (ps_sched ps) of
                   None \<Rightarrow> ps
                 | Some i \<Rightarrow> ps\<lparr>ps_sched := set_thread i (park_thread (the (sc_threads (ps_sched ps) ! i))) (ps_sched ps)\<rparr>);
          (out, sc) = schedule (find_process_l0_user_pa ps1) (ps_sched ps1)
      in (out, s\<lparr>ls_ms := set_ps (ps1\<lparr>ps_sched := sc\<rparr>) (ls_ms s)\<rparr>))"

definition exec_outcome :: "u64 res \<times> lstate \<Rightarrow> sched_outcome res \<times> lstate" where
  "exec_outcome x =
     (case x of
        (Ok _, s) \<Rightarrow> (case replace_caller s of (q, s1) \<Rightarrow> (if q = SPanic then Panic else Ok q, s1))
      | (Err e, s) \<Rightarrow> (Err e, s)
      | (Panic, s) \<Rightarrow> (Panic, s))"

definition sys_exec :: "nat \<Rightarrow> u64 \<Rightarrow> u8 list \<Rightarrow> u8 list \<Rightarrow> lstate \<Rightarrow> sched_outcome res \<times> lstate" where
  "sys_exec slot_sz stub rootfs name s = exec_outcome (run_program slot_sz stub rootfs name [] 0 s)"

definition sys_execve :: "nat \<Rightarrow> u64 \<Rightarrow> u8 list \<Rightarrow> u64 \<Rightarrow> u64 \<Rightarrow> u64 \<Rightarrow> u64 \<Rightarrow> lstate \<Rightarrow> sched_outcome res \<times> lstate" where
  "sys_execve slot_sz stub rootfs path_ptr path_len argv_ptr argv_count s =
     (case read_request path_ptr path_len argv_ptr argv_count (ms_ps (ls_ms s)) of
        Ok (pid, name, args) \<Rightarrow> exec_outcome (run_program slot_sz stub rootfs name args pid s)
      | Err e \<Rightarrow> (Err e, s)
      | Panic \<Rightarrow> (Panic, s))"

section \<open>Binaries in memory objects\<close>

text \<open>The copy into the scratch buffer, page by page; a read of an offset below the size gives all the bytes asked for.\<close>

function scratch_loop :: "nat \<Rightarrow> nat \<Rightarrow> vmo \<Rightarrow> kmem \<Rightarrow> u8 list" where
  "scratch_loop off tot v w =
     (let remaining = vmo_size v - off in
      if tot < remaining \<and> tot < LOAD_BINARY_SCRATCH_SIZE then
        (let want = min 4096 (min remaining LOAD_BINARY_SCRATCH_SIZE - tot) in
         case vmo_read (off + tot) want v w of
           Ok bs \<Rightarrow> if bs = [] then [] else bs @ scratch_loop off (tot + want) v w
         | _ \<Rightarrow> [])
      else [])"
  by pat_completeness auto
termination
  by (relation "measure (\<lambda>(off, tot, v, w). vmo_size v - off - tot)") auto

declare scratch_loop.simps [simp del]

definition USER_PROG :: name_ref where
  "USER_PROG = NameLit (map of_char ''user-prog'')"

definition give_process :: "nat \<Rightarrow> u64 \<Rightarrow> lstate \<Rightarrow> lstate" where
  "give_process c pid s =
     s\<lparr>ls_ms := set_ps (snd (add_handle c (KProcess pid) (RIGHT_READ OR RIGHT_WRITE) (ms_ps (ls_ms s)))) (ls_ms s)\<rparr>"

definition sys_load_binary :: "nat \<Rightarrow> u64 \<Rightarrow> nat \<Rightarrow> handle_value \<Rightarrow> u64 \<Rightarrow> lstate \<Rightarrow> u64 res \<times> lstate" where
  "sys_load_binary slot_sz stub c h vmo_offset s =
     (let off = unat vmo_offset in
      case use_vmo c h RIGHT_READ (\<lambda>v m. (Ok (vmo_size v), v, m)) (ls_ms s) of
        (Ok src_size, m1) \<Rightarrow>
          if src_size \<le> off \<or> LOAD_BINARY_SCRATCH_SIZE < src_size - off then (Err InvalidArgs, s\<lparr>ls_ms := m1\<rparr>)
          else (case use_vmo c h RIGHT_READ (\<lambda>v m. (Ok (scratch_loop off 0 v (ms_kmem m)), v, m)) m1 of
                  (Ok bytes, m2) \<Rightarrow>
                    (case launch_user_program slot_sz stub USER_PROG bytes (s\<lparr>ls_ms := m2\<rparr>) of
                       (Ok pid, s1) \<Rightarrow> (Ok pid, give_process c pid s1)
                     | (Err e, s1) \<Rightarrow> (Err e, s1)
                     | (Panic, s1) \<Rightarrow> (Panic, s1))
                | (Err e, m2) \<Rightarrow> (Err e, s\<lparr>ls_ms := m2\<rparr>)
                | (Panic, m2) \<Rightarrow> (Panic, s\<lparr>ls_ms := m2\<rparr>))
      | (Err e, m1) \<Rightarrow> (Err e, s\<lparr>ls_ms := m1\<rparr>)
      | (Panic, m1) \<Rightarrow> (Panic, s\<lparr>ls_ms := m1\<rparr>))"

section \<open>Services\<close>

text \<open>
  A descriptor in memory has the layout the compiler chooses for it; \<open>decode\<close> reads the addresses and lengths of
  the two strings and the handle index from its bytes.
\<close>

record service_desc =
  sd_name :: "u8 list"
  sd_path :: "u8 list"
  sd_vmo_index :: "u32 option"

text \<open>The handle of the boot image goes into the table of the new process; an object the table refuses is dropped.\<close>

definition give_bootfs :: "nat \<Rightarrow> usize \<Rightarrow> u32 \<Rightarrow> u64 \<Rightarrow> mstate \<Rightarrow> unit res \<times> mstate" where
  "give_bootfs bootfs_pa bootfs_size idx pid s =
     (case create_physical bootfs_pa bootfs_size (ms_kmem s) of
        (Ok v, m) \<Rightarrow>
          (let s1 = set_kmem m s in
           case find_process_mut pid (ms_ps s1) of
             None \<Rightarrow> release (Ok ()) v s1
           | Some k \<Rightarrow>
               (case ht_add_raw idx (KVmo v) (RIGHT_READ OR RIGHT_WRITE) (table_of k s1) of
                  (_, None, t) \<Rightarrow> (Ok (), set_table k t s1)
                | (_, Some _, t) \<Rightarrow> release (Ok ()) v (set_table k t s1)))
      | (Err e, m) \<Rightarrow> (Err e, set_kmem m s)
      | (Panic, m) \<Rightarrow> (Panic, set_kmem m s))"

definition service_launch :: "nat \<Rightarrow> u64 \<Rightarrow> u8 list \<Rightarrow> nat \<Rightarrow> usize \<Rightarrow> service_desc \<Rightarrow> lstate \<Rightarrow> u64 res \<times> lstate" where
  "service_launch slot_sz stub rootfs bootfs_pa bootfs_size d s =
     (case get_file rootfs (sd_path d) of
        Ok (Some bytes) \<Rightarrow>
          (case launch_user_program slot_sz stub (NameLit (sd_name d)) bytes s of
             (Ok pid, s1) \<Rightarrow>
               (case sd_vmo_index d of
                  None \<Rightarrow> (Ok pid, s1)
                | Some idx \<Rightarrow> (case upd_ms (give_bootfs bootfs_pa bootfs_size idx pid) s1 of (r, s2) \<Rightarrow> (res_map (\<lambda>_. pid) r, s2)))
           | (Err e, s1) \<Rightarrow> (Err e, s1)
           | (Panic, s1) \<Rightarrow> (Panic, s1))
      | Ok None \<Rightarrow> (Err NotFound, s)
      | Err e \<Rightarrow> (Err e, s)
      | Panic \<Rightarrow> (Panic, s))"

definition launch_loader :: "nat \<Rightarrow> u64 \<Rightarrow> u8 list \<Rightarrow> nat \<Rightarrow> usize \<Rightarrow> lstate \<Rightarrow> unit res \<times> lstate" where
  "launch_loader slot_sz stub rootfs bootfs_pa bootfs_size s =
     (case service_launch slot_sz stub rootfs bootfs_pa bootfs_size
         \<lparr>sd_name = map of_char ''loader'', sd_path = map of_char ''system/bin/loader'', sd_vmo_index = Some 100\<rparr> s of
        (r, s1) \<Rightarrow> (res_map (\<lambda>_. ()) r, s1))"

definition read_desc :: "nat \<Rightarrow> (u8 list \<Rightarrow> (u64 \<times> u64) \<times> (u64 \<times> u64) \<times> u32 option) \<Rightarrow> u64 \<Rightarrow> pstate \<Rightarrow> service_desc res" where
  "read_desc desc_sz decode desc_ptr s =
     (if desc_ptr = 0 then Err InvalidArgs
      else case caller_slot ProcessNotFound s of
        Ok (pid, k) \<Rightarrow>
          (let l0 = l0_pa_of k s in
           case safe_copy_from_user l0 desc_ptr desc_sz (ps_pt s) of
             Ok bs \<Rightarrow>
               (case decode bs of ((name_ptr, name_len), (path_ptr, path_len), idx) \<Rightarrow>
                  case safe_copy_from_user l0 name_ptr (min (unat name_len) 63) (ps_pt s) of
                    Ok name \<Rightarrow>
                      if \<not> utf8_valid name then Err InvalidArgs
                      else (case safe_copy_from_user l0 path_ptr (min (unat path_len) 127) (ps_pt s) of
                              Ok path \<Rightarrow>
                                if \<not> utf8_valid path then Err InvalidArgs
                                else Ok \<lparr>sd_name = name, sd_path = path, sd_vmo_index = idx\<rparr>
                            | Err e \<Rightarrow> Err e
                            | Panic \<Rightarrow> Panic)
                  | Err e \<Rightarrow> Err e
                  | Panic \<Rightarrow> Panic)
           | Err e \<Rightarrow> Err e
           | Panic \<Rightarrow> Panic)
      | Err e \<Rightarrow> Err e
      | Panic \<Rightarrow> Panic)"

definition sys_service_spawn ::
  "nat \<Rightarrow> u64 \<Rightarrow> u8 list \<Rightarrow> nat \<Rightarrow> usize \<Rightarrow> nat \<Rightarrow> (u8 list \<Rightarrow> (u64 \<times> u64) \<times> (u64 \<times> u64) \<times> u32 option) \<Rightarrow> nat \<Rightarrow> u64 \<Rightarrow> lstate \<Rightarrow> u64 res \<times> lstate" where
  "sys_service_spawn slot_sz stub rootfs bootfs_pa bootfs_size desc_sz decode c desc_ptr s =
     (case read_desc desc_sz decode desc_ptr (ms_ps (ls_ms s)) of
        Ok d \<Rightarrow>
          (case service_launch slot_sz stub rootfs bootfs_pa bootfs_size d s of
             (Ok pid, s1) \<Rightarrow> (Ok pid, give_process c pid s1)
           | (Err e, s1) \<Rightarrow> (Err e, s1)
           | (Panic, s1) \<Rightarrow> (Panic, s1))
      | Err e \<Rightarrow> (Err e, s)
      | Panic \<Rightarrow> (Panic, s))"

section \<open>From the packed image to the running program\<close>

lemma launch_ready_names:
  "launch_ready slot_sz gs (s\<lparr>ls_ms := set_ps ((ms_ps (ls_ms s))\<lparr>ps_names := ns, ps_name_cursor := c\<rparr>) (ls_ms s)\<rparr>) = launch_ready slot_sz gs s"
  by (simp add: launch_ready_def set_ps_def Let_def proc_wf_def active_page_table_def)

lemma read_request_plain:
  assumes "caller_slot NotFound s = Ok (pid, k)" "l0_pa_of k s \<noteq> 0" "path_ptr \<noteq> 0" "0 < unat path_len" "unat path_len \<le> 256"
    and "safe_copy_from_user (l0_pa_of k s) path_ptr (unat path_len) (ps_pt s) = Ok name" "utf8_valid name"
  shows "read_request path_ptr path_len argv_ptr 0 s = Ok (pid, name, [])"
  using assms by (auto simp: read_request_def min_def EXECVE_MAX_ARGS_def EXECVE_ARG_TOTAL_def)


section \<open>Witness\<close>

text \<open>Process 1 spawns the program \<open>s\<close>; its name is at \<open>0x50000000\<close> in the memory of the caller.\<close>

definition demo_sched_one :: sched where
  "demo_sched_one = sched_new\<lparr>sc_threads := Some demo_caller # replicate 15 None, sc_current := Some 0\<rparr>"

definition demo_spawner :: lstate where
  "demo_spawner = \<lparr>ls_ms = \<lparr>ms_ps = demo_pstate\<lparr>ps_sched := demo_sched_one,
       ps_pt := (ps_pt demo_pstate)\<lparr>pw_phys := demo_phys\<lparr>end_free_page := 0x40200000, ram := (\<lambda>_. 0)(0x50000000 := 0x73)\<rparr>\<rparr>\<rparr>,
     ms_meta = demo_kmem\<rparr>, ls_daif = 0\<rparr>"

lemma demo_sched_one_wf: "sched_wf demo_sched_one" "threads_made demo_sched_one < MAX_THREADS"
proof -
  have one: "i = 0" if "(Some demo_caller # replicate 15 None) ! i = Some t" "i < 16" for i t
    using that by (cases i) simp_all
  have q0: "queued sched_new = []" by (auto simp: sched_new_def queued_def PRIORITY_LEVELS_def eval_nat_numeral tq_new_wf)
  then have q: "queued demo_sched_one = []" by (simp add: demo_sched_one_def queued_def)
  have q2: "queues_wf demo_sched_one"
    using sched_wf_queues [OF sched_new_wf] q q0 by (simp add: demo_sched_one_def queues_wf_def sched_new_def MAX_THREADS_def)
  show "sched_wf demo_sched_one"
    by (rule sched_wfI) (use q q2 one in \<open>auto simp: demo_sched_one_def MAX_THREADS_def\<close>)
  show "threads_made demo_sched_one < MAX_THREADS" by (simp add: threads_made_def demo_sched_one_def MAX_THREADS_def)
qed

lemma demo_spawner_ready: "launch_ready 64 demo_program demo_spawner"
proof -
  have "need (map segment_entry demo_program) = 28" by (simp add: need_def demo_program_def segment_entry_def seg_pages_def seg_off_def)
  moreover have "proc_wf (ms_ps (ls_ms demo_spawner))" by (rule proc_wf_cong [OF demo_proc_wf]) (simp_all add: demo_spawner_def)
  moreover have "first_free (ps_procs (ms_ps (ls_ms demo_spawner))) \<noteq> None" by (simp add: demo_spawner_def demo_procs first_free_None_full)
  moreover have "active_page_table (ms_ps (ls_ms demo_spawner)) = 0" by (simp add: active_page_table_def demo_spawner_def demo_sched_one_def sched_new_def)
  ultimately show ?thesis
    using demo_phys_inv demo_sched_one_wf
    by (simp add: launch_ready_def demo_spawner_def Let_def parent_ok_def demo_phys_def phys_inv_def layout_simps MAX_HANDLES_def)
qed

lemma demo_spawner_caller: "caller_slot NotFound (ms_ps (ls_ms demo_spawner)) = Ok (1, 0)" "l0_pa_of 0 (ms_ps (ls_ms demo_spawner)) = 0x40000000"
  by (simp_all add: caller_slot_def current_process_id_def current_thread_def get_current_thread_def demo_spawner_def demo_sched_one_def
      demo_caller_def find_process_mut_def find_slot_def demo_procs demo_pstate_def demo_root_def)

lemma demo_spawner_name: "safe_copy_from_user 0x40000000 0x50000000 1 (ps_pt (ms_ps (ls_ms demo_spawner))) = Ok [0x73]"
proof -
  have "translate_user_va 0x40000000 0x50000000 (ps_pt (ms_ps (ls_ms demo_spawner))) = Some 0x50000000"
    using demo_block_translate [of "0x50000000"] translate_cong [of "ps_pt (ms_ps (ls_ms demo_spawner))" demo_block_ptw]
    by (simp add: demo_spawner_def demo_pstate_def)
  then show ?thesis
    by (simp add: safe_copy_from_user_def user_space.copy_from_loop_bytes range_mapped_def load_at_def demo_spawner_def)
qed


end
