(* ===== verification/System_Calls.thy ===== *)
theory System_Calls
  imports Memory_Calls
begin

text \<open>
  System calls from the wrapper to the handler and back: the wrappers of \<open>libraries/libcapsule/src/syscalls.rs\<close> and
  \<open>libraries/libc/src/syscalls.rs\<close> load six argument registers and a call number, the exception handler of
  \<open>arch/aarch64/trap.rs\<close> passes them to \<open>syscall_dispatch\<close>, which narrows them to the types of a handler and turns the
  outcome into a register value that the wrapper decodes. The dispatcher is a function of the handlers.
\<close>

named_theorems call_numbers

section \<open>Call numbers\<close>

definition SYSCALL_EXIT :: u32 where [call_numbers]: "SYSCALL_EXIT = 0"
definition SYSCALL_WRITE :: u32 where [call_numbers]: "SYSCALL_WRITE = 1"
definition SYSCALL_GET_TID :: u32 where [call_numbers]: "SYSCALL_GET_TID = 2"
definition SYSCALL_GET_PID :: u32 where [call_numbers]: "SYSCALL_GET_PID = 3"
definition SYSCALL_CHANNEL_CREATE :: u32 where [call_numbers]: "SYSCALL_CHANNEL_CREATE = 10"
definition SYSCALL_CHANNEL_READ :: u32 where [call_numbers]: "SYSCALL_CHANNEL_READ = 11"
definition SYSCALL_CHANNEL_WRITE :: u32 where [call_numbers]: "SYSCALL_CHANNEL_WRITE = 12"
definition SYSCALL_CHANNEL_CALL :: u32 where [call_numbers]: "SYSCALL_CHANNEL_CALL = 13"
definition SYSCALL_CHANNEL_REGISTER :: u32 where [call_numbers]: "SYSCALL_CHANNEL_REGISTER = 14"
definition SYSCALL_CHANNEL_LOOKUP :: u32 where [call_numbers]: "SYSCALL_CHANNEL_LOOKUP = 15"
definition SYSCALL_HANDLE_DUPLICATE :: u32 where [call_numbers]: "SYSCALL_HANDLE_DUPLICATE = 16"
definition SYSCALL_PORT_CREATE :: u32 where [call_numbers]: "SYSCALL_PORT_CREATE = 20"
definition SYSCALL_PORT_WAIT :: u32 where [call_numbers]: "SYSCALL_PORT_WAIT = 21"
definition SYSCALL_PORT_QUEUE :: u32 where [call_numbers]: "SYSCALL_PORT_QUEUE = 22"
definition SYSCALL_VMO_CREATE :: u32 where [call_numbers]: "SYSCALL_VMO_CREATE = 30"
definition SYSCALL_VMO_READ :: u32 where [call_numbers]: "SYSCALL_VMO_READ = 31"
definition SYSCALL_VMO_WRITE :: u32 where [call_numbers]: "SYSCALL_VMO_WRITE = 32"
definition SYSCALL_VMO_GET_SIZE :: u32 where [call_numbers]: "SYSCALL_VMO_GET_SIZE = 33"
definition SYSCALL_VMO_SET_SIZE :: u32 where [call_numbers]: "SYSCALL_VMO_SET_SIZE = 34"
definition SYSCALL_VMO_CREATE_CHILD :: u32 where [call_numbers]: "SYSCALL_VMO_CREATE_CHILD = 35"
definition SYSCALL_VMAR_MAP :: u32 where [call_numbers]: "SYSCALL_VMAR_MAP = 40"
definition SYSCALL_VMAR_UNMAP :: u32 where [call_numbers]: "SYSCALL_VMAR_UNMAP = 41"
definition SYSCALL_VMAR_PROTECT :: u32 where [call_numbers]: "SYSCALL_VMAR_PROTECT = 42"
definition SYSCALL_VMAR_MAP_SELF :: u32 where [call_numbers]: "SYSCALL_VMAR_MAP_SELF = 43"
definition SYSCALL_THREAD_CREATE :: u32 where [call_numbers]: "SYSCALL_THREAD_CREATE = 50"
definition SYSCALL_THREAD_START :: u32 where [call_numbers]: "SYSCALL_THREAD_START = 51"
definition SYSCALL_THREAD_EXIT :: u32 where [call_numbers]: "SYSCALL_THREAD_EXIT = 52"
definition SYSCALL_PROCESS_CREATE :: u32 where [call_numbers]: "SYSCALL_PROCESS_CREATE = 60"
definition SYSCALL_PROCESS_START :: u32 where [call_numbers]: "SYSCALL_PROCESS_START = 61"
definition SYSCALL_PROCESS_EXIT :: u32 where [call_numbers]: "SYSCALL_PROCESS_EXIT = 62"
definition SYSCALL_EVENT_CREATE :: u32 where [call_numbers]: "SYSCALL_EVENT_CREATE = 70"
definition SYSCALL_EVENT_SIGNAL :: u32 where [call_numbers]: "SYSCALL_EVENT_SIGNAL = 71"
definition SYSCALL_EVENT_ACK :: u32 where [call_numbers]: "SYSCALL_EVENT_ACK = 72"
definition SYSCALL_TIMER_CREATE :: u32 where [call_numbers]: "SYSCALL_TIMER_CREATE = 80"
definition SYSCALL_TIMER_SET :: u32 where [call_numbers]: "SYSCALL_TIMER_SET = 81"
definition SYSCALL_TIMER_CANCEL :: u32 where [call_numbers]: "SYSCALL_TIMER_CANCEL = 82"
definition SYSCALL_WAIT4 :: u32 where [call_numbers]: "SYSCALL_WAIT4 = 88"
definition SYSCALL_FUTEX_WAIT :: u32 where [call_numbers]: "SYSCALL_FUTEX_WAIT = 90"
definition SYSCALL_FUTEX_WAKE :: u32 where [call_numbers]: "SYSCALL_FUTEX_WAKE = 91"
definition SYSCALL_SIGACTION :: u32 where [call_numbers]: "SYSCALL_SIGACTION = 92"
definition SYSCALL_RAISE :: u32 where [call_numbers]: "SYSCALL_RAISE = 93"
definition SYSCALL_KILL :: u32 where [call_numbers]: "SYSCALL_KILL = 94"
definition SYSCALL_PAUSE :: u32 where [call_numbers]: "SYSCALL_PAUSE = 95"
definition SYSCALL_PIPE :: u32 where [call_numbers]: "SYSCALL_PIPE = 96"
definition SYSCALL_DUP2 :: u32 where [call_numbers]: "SYSCALL_DUP2 = 97"
definition SYSCALL_OPEN :: u32 where [call_numbers]: "SYSCALL_OPEN = 100"
definition SYSCALL_CLOSE :: u32 where [call_numbers]: "SYSCALL_CLOSE = 101"
definition SYSCALL_READ :: u32 where [call_numbers]: "SYSCALL_READ = 102"
definition SYSCALL_SEEK :: u32 where [call_numbers]: "SYSCALL_SEEK = 103"
definition SYSCALL_GETCWD :: u32 where [call_numbers]: "SYSCALL_GETCWD = 104"
definition SYSCALL_CHDIR :: u32 where [call_numbers]: "SYSCALL_CHDIR = 105"
definition SYSCALL_EXEC :: u32 where [call_numbers]: "SYSCALL_EXEC = 110"
definition SYSCALL_LOAD_BINARY :: u32 where [call_numbers]: "SYSCALL_LOAD_BINARY = 111"
definition SYSCALL_EXECVE :: u32 where [call_numbers]: "SYSCALL_EXECVE = 112"
definition SYSCALL_SPAWN :: u32 where [call_numbers]: "SYSCALL_SPAWN = 113"
definition SYSCALL_YIELD :: u32 where [call_numbers]: "SYSCALL_YIELD = 114"
definition SYSCALL_SERVICE_SPAWN :: u32 where [call_numbers]: "SYSCALL_SERVICE_SPAWN = 115"
definition SYSCALL_PROC_MGMT :: u32 where [call_numbers]: "SYSCALL_PROC_MGMT = 120"

section \<open>Calls and results\<close>

text \<open>The handler a request selects, with its arguments at the width of its parameters.\<close>

datatype capability_call =
    CVmarMap u32 u32 usize usize usize u32
  | CVmarMapSelf u32 usize usize u32
  | CVmarUnmap usize usize
  | CVmoCreate usize
  | CVmoCreateChild u32 usize usize
  | CVmoRead u32 usize usize usize
  | CVmoWrite u32 usize usize usize
  | CChannelCreate
  | CChannelRead u32 usize usize usize usize
  | CChannelWrite u32 usize usize usize usize
  | CChannelRegister usize usize u32
  | CChannelLookup usize usize
  | CHandleDuplicate u32 u32
  | CClose u32

datatype lifecycle_call =
    CExit i32
  | CProcessCreate usize usize
  | CThreadCreate u32 usize usize usize usize
  | CThreadStart u32
  | CExec usize usize
  | CExecve usize usize usize usize
  | CLoadBinary u32 usize usize usize
  | CServiceSpawn usize
  | CSpawn usize usize usize usize
  | CYield
  | CProcMgmt u32 usize usize usize
  | CGetcwd usize usize
  | CChdir usize usize
  | CWait4 u64 usize i32
  | CSigaction usize usize usize usize
  | CRaise usize
  | CKill u64 usize
  | CPause
  | CPipe usize
  | CDup2 u32 u32
  | CGetTid
  | CGetPid

datatype kcall =
    Capability capability_call
  | Lifecycle lifecycle_call
  | CConsoleWrite usize usize usize
  | CConsoleRead usize usize

text \<open>What a handler returns: a register-sized value, a handle or descriptor, two handles, nothing, or it does not return.\<close>

datatype rval = VWord usize | VHalf u32 | VPair u32 u32 | VUnit | VNever

fun reg_of :: "rval \<Rightarrow> usize" where
  "reg_of (VWord w) = w"
| "reg_of (VHalf h) = ucast h"
| "reg_of (VPair h0 h1) = ucast h0 OR push_bit 32 (ucast h1)"
| "reg_of VUnit = 0"
| "reg_of VNever = 0"

datatype outcome_reg = Reply usize | NoReply | Crash

fun reply :: "(rval \<Rightarrow> usize) \<Rightarrow> rval res \<times> 's \<Rightarrow> outcome_reg \<times> 's" where
  "reply f (Ok VNever, s) = (NoReply, s)"
| "reply f (Ok v, s) = (Reply (f v), s)"
| "reply f (Err e, s) = (Reply (to_raw e), s)"
| "reply f (Panic, s) = (Crash, s)"

type_synonym 's handler = "kcall \<Rightarrow> 's \<Rightarrow> rval res \<times> 's"

section \<open>Dispatch\<close>

definition dispatch_capability :: "'s handler \<Rightarrow> u32 \<Rightarrow> usize list \<Rightarrow> 's \<Rightarrow> (outcome_reg \<times> 's) option" where
  "dispatch_capability h num a s =
     (if num = SYSCALL_VMAR_MAP then Some (reply reg_of (h (Capability (CVmarMap (ucast (a ! 0)) (ucast (a ! 1)) (a ! 2) (a ! 3) (a ! 4) (ucast (a ! 5)))) s))
      else if num = SYSCALL_VMAR_MAP_SELF then Some (reply reg_of (h (Capability (CVmarMapSelf (ucast (a ! 0)) (a ! 1) (a ! 2) (ucast (a ! 3)))) s))
      else if num = SYSCALL_VMAR_UNMAP then Some (reply (\<lambda>_. 0) (h (Capability (CVmarUnmap (a ! 0) (a ! 1))) s))
      else if num = SYSCALL_VMO_CREATE then Some (reply reg_of (h (Capability (CVmoCreate (a ! 0))) s))
      else if num = SYSCALL_VMO_CREATE_CHILD then Some (reply reg_of (h (Capability (CVmoCreateChild (ucast (a ! 0)) (a ! 1) (a ! 2))) s))
      else if num = SYSCALL_VMO_READ then Some (reply reg_of (h (Capability (CVmoRead (ucast (a ! 0)) (a ! 1) (a ! 2) (a ! 3))) s))
      else if num = SYSCALL_VMO_WRITE then Some (reply reg_of (h (Capability (CVmoWrite (ucast (a ! 0)) (a ! 1) (a ! 2) (a ! 3))) s))
      else if num = SYSCALL_CHANNEL_CREATE then Some (reply reg_of (h (Capability CChannelCreate) s))
      else if num = SYSCALL_CHANNEL_READ then Some (reply reg_of (h (Capability (CChannelRead (ucast (a ! 0)) (a ! 1) (a ! 2) (a ! 3) (a ! 4))) s))
      else if num = SYSCALL_CHANNEL_WRITE then Some (reply reg_of (h (Capability (CChannelWrite (ucast (a ! 0)) (a ! 1) (a ! 2) (a ! 3) (a ! 4))) s))
      else if num = SYSCALL_CHANNEL_REGISTER then Some (reply (\<lambda>_. 0) (h (Capability (CChannelRegister (a ! 0) (a ! 1) (ucast (a ! 2)))) s))
      else if num = SYSCALL_CHANNEL_LOOKUP then Some (reply reg_of (h (Capability (CChannelLookup (a ! 0) (a ! 1))) s))
      else if num = SYSCALL_HANDLE_DUPLICATE then Some (reply reg_of (h (Capability (CHandleDuplicate (ucast (a ! 0)) (ucast (a ! 1)))) s))
      else if num = SYSCALL_CLOSE then Some (reply (\<lambda>_. 0) (h (Capability (CClose (ucast (a ! 0)))) s))
      else None)"

definition reserved_calls :: "u32 list" where
  "reserved_calls =
    [SYSCALL_THREAD_EXIT, SYSCALL_PROCESS_START, SYSCALL_PROCESS_EXIT, SYSCALL_VMO_GET_SIZE,
     SYSCALL_VMO_SET_SIZE, SYSCALL_VMAR_PROTECT, SYSCALL_CHANNEL_CALL, SYSCALL_PORT_CREATE, SYSCALL_PORT_WAIT,
     SYSCALL_PORT_QUEUE, SYSCALL_EVENT_CREATE, SYSCALL_EVENT_SIGNAL, SYSCALL_EVENT_ACK, SYSCALL_TIMER_CREATE,
     SYSCALL_TIMER_SET, SYSCALL_TIMER_CANCEL, SYSCALL_FUTEX_WAIT, SYSCALL_FUTEX_WAKE]"

text \<open>\<open>SYSCALL_EXEC\<close> tests its arguments before it reads the name through the caller's address.\<close>

definition dispatch_lifecycle :: "'s handler \<Rightarrow> u32 \<Rightarrow> usize list \<Rightarrow> 's \<Rightarrow> (outcome_reg \<times> 's) option" where
  "dispatch_lifecycle h num a s =
     (if num = SYSCALL_EXIT then Some (reply reg_of (h (Lifecycle (CExit (ucast (a ! 0)))) s))
      else if num = SYSCALL_PROCESS_CREATE then Some (reply reg_of (h (Lifecycle (CProcessCreate (a ! 0) (a ! 1))) s))
      else if num = SYSCALL_THREAD_CREATE then Some (reply reg_of (h (Lifecycle (CThreadCreate (ucast (a ! 0)) (a ! 1) (a ! 2) (a ! 3) (a ! 4))) s))
      else if num = SYSCALL_THREAD_START then Some (reply (\<lambda>_. 0) (h (Lifecycle (CThreadStart (ucast (a ! 0)))) s))
      else if num = SYSCALL_EXEC then Some (if a ! 0 = 0 \<or> a ! 1 = 0 then (Reply (to_raw InvalidArgs), s) else reply (\<lambda>_. 0) (h (Lifecycle (CExec (a ! 0) (a ! 1))) s))
      else if num = SYSCALL_EXECVE then Some (reply (\<lambda>_. 0) (h (Lifecycle (CExecve (a ! 0) (a ! 1) (a ! 2) (a ! 3))) s))
      else if num = SYSCALL_LOAD_BINARY then Some (reply reg_of (h (Lifecycle (CLoadBinary (ucast (a ! 0)) (a ! 1) (a ! 2) (a ! 3))) s))
      else if num = SYSCALL_SERVICE_SPAWN then Some (reply reg_of (h (Lifecycle (CServiceSpawn (a ! 0))) s))
      else if num = SYSCALL_SPAWN then Some (reply reg_of (h (Lifecycle (CSpawn (a ! 0) (a ! 1) (a ! 2) (a ! 3))) s))
      else if num = SYSCALL_YIELD then Some (reply (\<lambda>_. 0) (h (Lifecycle CYield) s))
      else if num = SYSCALL_PROC_MGMT then Some (reply reg_of (h (Lifecycle (CProcMgmt (ucast (a ! 0)) (a ! 1) (a ! 2) (a ! 3))) s))
      else if num = SYSCALL_GETCWD then Some (reply reg_of (h (Lifecycle (CGetcwd (a ! 0) (a ! 1))) s))
      else if num = SYSCALL_CHDIR then Some (reply (\<lambda>_. 0) (h (Lifecycle (CChdir (a ! 0) (a ! 1))) s))
      else if num = SYSCALL_WAIT4 then Some (reply reg_of (h (Lifecycle (CWait4 (a ! 0) (a ! 1) (ucast (a ! 2)))) s))
      else if num = SYSCALL_SIGACTION then Some (reply reg_of (h (Lifecycle (CSigaction (a ! 0) (a ! 1) (a ! 2) (a ! 3))) s))
      else if num = SYSCALL_RAISE then Some (reply (\<lambda>_. 0) (h (Lifecycle (CRaise (a ! 0))) s))
      else if num = SYSCALL_KILL then Some (reply (\<lambda>_. 0) (h (Lifecycle (CKill (a ! 0) (a ! 1))) s))
      else if num = SYSCALL_PAUSE then Some (reply (\<lambda>_. 0) (h (Lifecycle CPause) s))
      else if num = SYSCALL_PIPE then Some (reply (\<lambda>_. 0) (h (Lifecycle (CPipe (a ! 0))) s))
      else if num = SYSCALL_DUP2 then Some (reply reg_of (h (Lifecycle (CDup2 (ucast (a ! 0)) (ucast (a ! 1)))) s))
      else if num = SYSCALL_GET_TID then Some (reply reg_of (h (Lifecycle CGetTid) s))
      else if num = SYSCALL_GET_PID then Some (reply reg_of (h (Lifecycle CGetPid) s))
      else if num \<in> set reserved_calls then Some (Reply (to_raw NotAllowed), s)
      else None)"

text \<open>
  The handle table is that of the current thread, or the global one when the thread has none; handlers get it
  as an argument. The console calls come first, then the two tables of calls.
\<close>

datatype table_ref = ThreadTable u64 | GlobalTable

definition dispatch_table :: "bool \<Rightarrow> pstate \<Rightarrow> table_ref option" where
  "dispatch_table global s =
     (case current_thread s of
        Some t \<Rightarrow> (case th_handle_table t of Some pid \<Rightarrow> Some (ThreadTable pid) | None \<Rightarrow> if global then Some GlobalTable else None)
      | None \<Rightarrow> if global then Some GlobalTable else None)"

definition dispatch_calls :: "'s handler \<Rightarrow> u32 \<Rightarrow> usize list \<Rightarrow> 's \<Rightarrow> outcome_reg \<times> 's" where
  "dispatch_calls h num a s =
     (if num = SYSCALL_WRITE \<and> (a ! 0 = 1 \<or> a ! 0 = 2) then reply reg_of (h (CConsoleWrite (a ! 0) (a ! 1) (a ! 2)) s)
      else if num = SYSCALL_READ \<and> a ! 0 = 0 then reply reg_of (h (CConsoleRead (a ! 1) (a ! 2)) s)
      else case dispatch_capability h num a s of
        Some r \<Rightarrow> r
      | None \<Rightarrow> (case dispatch_lifecycle h num a s of Some r \<Rightarrow> r | None \<Rightarrow> (Reply (to_raw NotAllowed), s)))"

definition syscall_dispatch :: "(table_ref \<Rightarrow> mstate handler) \<Rightarrow> bool \<Rightarrow> u32 \<Rightarrow> usize list \<Rightarrow> mstate \<Rightarrow> outcome_reg \<times> mstate" where
  "syscall_dispatch h global num a s =
     (case dispatch_table global (ms_ps s) of
        None \<Rightarrow> (Reply (to_raw NotAllowed), s)
      | Some tbl \<Rightarrow> dispatch_calls (h tbl) num a s)"

section \<open>The handlers of the memory and process calls\<close>

text \<open>
  The handlers modelled on this state, for a table that belongs to a process; \<open>rest\<close> stands for the others. The
  fifth argument of \<open>sys_thread_create\<close> is the stack pointer and the fourth the entry point; two name arguments come
  before them.
\<close>

definition on_ps :: "(pstate \<Rightarrow> 'r res \<times> pstate) \<Rightarrow> mstate \<Rightarrow> 'r res \<times> mstate" where
  "on_ps f s = (case f (ms_ps s) of (r, p) \<Rightarrow> (r, s\<lparr>ms_ps := p\<rparr>))"

definition giving :: "('r \<Rightarrow> rval) \<Rightarrow> 'r res \<times> mstate \<Rightarrow> rval res \<times> mstate" where
  "giving f x = (case x of (r, s) \<Rightarrow> (res_map f r, s))"

fun memory_call :: "nat \<Rightarrow> mstate handler \<Rightarrow> capability_call \<Rightarrow> mstate \<Rightarrow> rval res \<times> mstate" where
  "memory_call k rest (CVmarMap p v off sz va fl) s = giving VWord (sys_vmar_map k p v off sz va fl s)"
| "memory_call k rest (CVmarMapSelf v va sz fl) s = giving VWord (sys_vmar_map_self k v va sz fl s)"
| "memory_call k rest (CVmarUnmap va sz) s = giving (\<lambda>_. VUnit) (sys_vmar_unmap va sz s)"
| "memory_call k rest (CVmoCreate sz) s = giving VHalf (sys_vmo_create k sz s)"
| "memory_call k rest (CVmoCreateChild v off sz) s = giving VHalf (sys_vmo_create_child k v off sz s)"
| "memory_call k rest (CVmoRead v off va len) s = giving (VWord \<circ> word_of_nat) (sys_vmo_read k v off va len s)"
| "memory_call k rest (CVmoWrite v off va len) s = giving (VWord \<circ> word_of_nat) (sys_vmo_write k v off va len s)"
| "memory_call k rest c s = rest (Capability c) s"

fun process_call :: "nat \<Rightarrow> u64 \<Rightarrow> nat \<Rightarrow> mstate handler \<Rightarrow> lifecycle_call \<Rightarrow> mstate \<Rightarrow> rval res \<times> mstate" where
  "process_call slot_sz stub k rest (CExit code) s = giving (\<lambda>_. VNever) (on_ps (\<lambda>p. case sys_exit code p of (q, p1) \<Rightarrow> (if q = SPanic then Panic else Ok q, p1)) s)"
| "process_call slot_sz stub k rest (CProcessCreate n l) s = giving VHalf (on_ps (sys_process_create slot_sz k) s)"
| "process_call slot_sz stub k rest (CThreadCreate p n l pc sp) s = giving VHalf (on_ps (sys_thread_create stub k p pc sp) s)"
| "process_call slot_sz stub k rest (CThreadStart t) s = giving (\<lambda>_. VUnit) (on_ps (sys_thread_start k t) s)"
| "process_call slot_sz stub k rest CYield s = giving (\<lambda>q. if q = SHalt then VNever else VUnit) (on_ps (\<lambda>p. case schedule (find_process_l0_user_pa p) (ps_sched p) of (q, sc) \<Rightarrow> (if q = SPanic then Panic else Ok q, p\<lparr>ps_sched := sc\<rparr>)) s)"
| "process_call slot_sz stub k rest (CProcMgmt cmd a b c) s = giving VWord (on_ps (sys_proc_mgmt slot_sz cmd a b c) s)"
| "process_call slot_sz stub k rest (CGetcwd p l) s = giving (VWord \<circ> word_of_nat) (on_ps (sys_getcwd p l) s)"
| "process_call slot_sz stub k rest (CChdir p l) s = giving (\<lambda>_. VUnit) (on_ps (sys_chdir p l) s)"
| "process_call slot_sz stub k rest (CWait4 pid p opts) s = giving VWord (on_ps (sys_wait4 pid p) s)"
| "process_call slot_sz stub k rest (CSigaction sig act m fl) s = giving VWord (on_ps (sys_sigaction sig act) s)"
| "process_call slot_sz stub k rest (CRaise sig) s = giving (\<lambda>_. VUnit) (on_ps (sys_raise sig) s)"
| "process_call slot_sz stub k rest (CKill pid sig) s = giving (\<lambda>_. VUnit) (on_ps (sys_kill pid sig) s)"
| "process_call slot_sz stub k rest (CPipe p) s = giving (\<lambda>_. VUnit) (on_ps (sys_pipe p) s)"
| "process_call slot_sz stub k rest (CDup2 old new) s = giving VHalf (on_ps (sys_dup2 old new) s)"
| "process_call slot_sz stub k rest CGetTid s = giving VWord (sys_gettid (ms_ps s), s)"
| "process_call slot_sz stub k rest CGetPid s = giving VWord (sys_getpid (ms_ps s), s)"
| "process_call slot_sz stub k rest c s = rest (Lifecycle c) s"

definition kernel_handler :: "nat \<Rightarrow> u64 \<Rightarrow> (table_ref \<Rightarrow> mstate handler) \<Rightarrow> table_ref \<Rightarrow> mstate handler" where
  "kernel_handler slot_sz stub rest tbl c s =
     (case tbl of
        GlobalTable \<Rightarrow> rest tbl c s
      | ThreadTable pid \<Rightarrow>
          (case find_process_mut pid (ms_ps s) of
             None \<Rightarrow> rest tbl c s
           | Some k \<Rightarrow>
               (case c of
                  Capability m \<Rightarrow> memory_call k (rest tbl) m s
                | Lifecycle p \<Rightarrow> process_call slot_sz stub k (rest tbl) p s
                | _ \<Rightarrow> rest tbl c s)))"

section \<open>Exceptions from user mode\<close>

record trap_frame =
  tf_x :: "u64 list"
  tf_spsr :: u64
  tf_elr :: u64
  tf_esr :: u64
  tf_far :: u64
  tf_lr :: u64
  tf_sp :: u64

datatype trap_out = TReturn | TEnded | TCrash | TSched sched_outcome

text \<open>After a call: the return address is saved in the thread and the tables of its process are installed again.\<close>

definition after_call :: "u64 \<Rightarrow> pstate \<Rightarrow> pstate" where
  "after_call elr s =
     (case get_current_thread (ps_sched s) of
        None \<Rightarrow> s
      | Some i \<Rightarrow>
          (let t = the (sc_threads (ps_sched s) ! i);
               sc = set_thread i (t\<lparr>th_context := (th_context t)\<lparr>cx_elr := elr\<rparr>\<rparr>) (ps_sched s)
           in s\<lparr>ps_sched := set_ttbr0 (find_process_l0_user_pa s) (th_process_id t) sc\<rparr>))"

definition el0_fault :: "pstate \<Rightarrow> trap_out \<times> pstate" where
  "el0_fault s =
     (case get_current_thread (ps_sched s) of
        None \<Rightarrow> (TReturn, s)
      | Some i \<Rightarrow>
          (let t = the (sc_threads (ps_sched s) ! i);
               s0 = respawn_init_if_anchor (th_process_id t) s;
               s1 = s0\<lparr>ps_sched := set_thread i (t\<lparr>th_state := Dead\<rparr>) (ps_sched s0)\<rparr>;
               (q, sc) = schedule (find_process_l0_user_pa s1) (ps_sched s1)
           in (TSched q, s1\<lparr>ps_sched := sc\<rparr>)))"

definition sync_el0_handler :: "(table_ref \<Rightarrow> mstate handler) \<Rightarrow> bool \<Rightarrow> trap_frame \<Rightarrow> mstate \<Rightarrow> trap_out \<times> trap_frame \<times> mstate" where
  "sync_el0_handler h global f s =
     (let ec = drop_bit 26 (tf_esr f) AND 0x3F; x = tf_x f in
      if ec = 0x11 \<or> ec = 0x15 then
        (case syscall_dispatch h global (ucast (x ! 16)) [x ! 0, x ! 1, x ! 2, x ! 3, x ! 4, x ! 5] s of
           (Reply w, s1) \<Rightarrow> (TReturn, f\<lparr>tf_x := x[0 := w]\<rparr>, s1\<lparr>ms_ps := after_call (tf_elr f) (ms_ps s1)\<rparr>)
         | (NoReply, s1) \<Rightarrow> (TEnded, f, s1)
         | (Crash, s1) \<Rightarrow> (TCrash, f, s1))
      else (case el0_fault (ms_ps s) of (r, p) \<Rightarrow> (r, f, s\<lparr>ms_ps := p\<rparr>)))"

definition serror_el0_handler :: "trap_frame \<Rightarrow> mstate \<Rightarrow> trap_out \<times> trap_frame \<times> mstate" where
  "serror_el0_handler f s = (case el0_fault (ms_ps s) of (r, p) \<Rightarrow> (r, f, s\<lparr>ms_ps := p\<rparr>))"

section \<open>Wrappers\<close>

text \<open>A request is the call number in \<open>x16\<close> and the six argument registers; a slice or string is its address and length.\<close>

type_synonym request = "u32 \<times> usize list"

definition call_channel_create :: "request" where
  "call_channel_create = (SYSCALL_CHANNEL_CREATE, [0, 0, 0, 0, 0, 0])"

definition call_channel_read :: "usize \<Rightarrow> usize \<Rightarrow> usize \<Rightarrow> usize \<Rightarrow> usize \<Rightarrow> request" where
  "call_channel_read handle buf len hs hlen = (SYSCALL_CHANNEL_READ, [handle, buf, len, hs, hlen, 0])"

definition call_channel_write :: "usize \<Rightarrow> usize \<Rightarrow> usize \<Rightarrow> usize \<Rightarrow> usize \<Rightarrow> request" where
  "call_channel_write handle buf len hs hlen = (SYSCALL_CHANNEL_WRITE, [handle, buf, len, hs, hlen, 0])"

definition call_channel_register :: "usize \<Rightarrow> usize \<Rightarrow> usize \<Rightarrow> request" where
  "call_channel_register name nlen handle = (SYSCALL_CHANNEL_REGISTER, [name, nlen, handle, 0, 0, 0])"

definition call_channel_lookup :: "usize \<Rightarrow> usize \<Rightarrow> request" where
  "call_channel_lookup name nlen = (SYSCALL_CHANNEL_LOOKUP, [name, nlen, 0, 0, 0, 0])"

definition call_close :: "usize \<Rightarrow> request" where
  "call_close handle = (SYSCALL_CLOSE, [handle, 0, 0, 0, 0, 0])"

definition call_yield_cpu :: "request" where
  "call_yield_cpu = (SYSCALL_YIELD, [0, 0, 0, 0, 0, 0])"

definition call_vmo_create :: "usize \<Rightarrow> request" where
  "call_vmo_create sz = (SYSCALL_VMO_CREATE, [sz, 0, 0, 0, 0, 0])"

definition call_vmo_create_child :: "usize \<Rightarrow> usize \<Rightarrow> usize \<Rightarrow> request" where
  "call_vmo_create_child handle off sz = (SYSCALL_VMO_CREATE_CHILD, [handle, off, sz, 0, 0, 0])"

definition call_vmo_read :: "usize \<Rightarrow> usize \<Rightarrow> usize \<Rightarrow> usize \<Rightarrow> request" where
  "call_vmo_read handle off buf len = (SYSCALL_VMO_READ, [handle, off, buf, len, 0, 0])"

definition call_vmo_write :: "usize \<Rightarrow> usize \<Rightarrow> usize \<Rightarrow> usize \<Rightarrow> request" where
  "call_vmo_write handle off buf len = (SYSCALL_VMO_WRITE, [handle, off, buf, len, 0, 0])"

definition call_handle_duplicate :: "usize \<Rightarrow> u32 \<Rightarrow> request" where
  "call_handle_duplicate handle rights32 = (SYSCALL_HANDLE_DUPLICATE, [handle, ucast rights32, 0, 0, 0, 0])"

definition call_vmar_map_self :: "usize \<Rightarrow> usize \<Rightarrow> usize \<Rightarrow> u32 \<Rightarrow> request" where
  "call_vmar_map_self handle va sz fl32 = (SYSCALL_VMAR_MAP_SELF, [handle, va, sz, ucast fl32, 0, 0])"

definition call_vmar_unmap :: "usize \<Rightarrow> usize \<Rightarrow> request" where
  "call_vmar_unmap va sz = (SYSCALL_VMAR_UNMAP, [va, sz, 0, 0, 0, 0])"

definition call_process_create :: "usize \<Rightarrow> usize \<Rightarrow> request" where
  "call_process_create name nlen = (SYSCALL_PROCESS_CREATE, [name, nlen, 0, 0, 0, 0])"

definition call_load_binary :: "usize \<Rightarrow> usize \<Rightarrow> usize \<Rightarrow> usize \<Rightarrow> request" where
  "call_load_binary handle name nlen off = (SYSCALL_LOAD_BINARY, [handle, name, nlen, off, 0, 0])"

definition call_wait4 :: "usize \<Rightarrow> usize \<Rightarrow> i32 \<Rightarrow> request" where
  "call_wait4 pid ptr opts32 = (SYSCALL_WAIT4, [pid, ptr, scast opts32, 0, 0, 0])"

definition call_service_spawn :: "usize \<Rightarrow> request" where
  "call_service_spawn desc = (SYSCALL_SERVICE_SPAWN, [desc, 0, 0, 0, 0, 0])"

definition call_spawn :: "usize \<Rightarrow> usize \<Rightarrow> usize \<Rightarrow> usize \<Rightarrow> request" where
  "call_spawn path plen argv argc = (SYSCALL_SPAWN, [path, plen, argv, argc, 0, 0])"

definition call_proc_mgmt :: "u32 \<Rightarrow> usize \<Rightarrow> usize \<Rightarrow> usize \<Rightarrow> request" where
  "call_proc_mgmt cmd32 a1 a2 a3 = (SYSCALL_PROC_MGMT, [ucast cmd32, a1, a2, a3, 0, 0])"

definition call_thread_create :: "u32 \<Rightarrow> usize \<Rightarrow> usize \<Rightarrow> usize \<Rightarrow> usize \<Rightarrow> request" where
  "call_thread_create process32 pc a0 a1 stack = (SYSCALL_THREAD_CREATE, [ucast process32, pc, a0, a1, stack, 0])"

definition call_thread_start :: "u32 \<Rightarrow> request" where
  "call_thread_start handle32 = (SYSCALL_THREAD_START, [ucast handle32, 0, 0, 0, 0, 0])"

definition libc_exit :: "i32 \<Rightarrow> request" where
  "libc_exit code32 = (SYSCALL_EXIT, [scast code32, 0, 0, 0, 0, 0])"

definition libc_exec :: "usize \<Rightarrow> usize \<Rightarrow> request" where
  "libc_exec name nlen = (SYSCALL_EXEC, [name, nlen, 0, 0, 0, 0])"

definition libc_execve :: "usize \<Rightarrow> usize \<Rightarrow> usize \<Rightarrow> usize \<Rightarrow> request" where
  "libc_execve path plen argv argc = (SYSCALL_EXECVE, [path, plen, argv, argc, 0, 0])"

definition libc_getcwd :: "usize \<Rightarrow> usize \<Rightarrow> request" where
  "libc_getcwd buf len = (SYSCALL_GETCWD, [buf, len, 0, 0, 0, 0])"

definition libc_chdir :: "usize \<Rightarrow> usize \<Rightarrow> request" where
  "libc_chdir path plen = (SYSCALL_CHDIR, [path, plen, 0, 0, 0, 0])"

definition libc_sigaction :: "usize \<Rightarrow> usize \<Rightarrow> usize \<Rightarrow> usize \<Rightarrow> request" where
  "libc_sigaction sig act m fl = (SYSCALL_SIGACTION, [sig, act, m, fl, 0, 0])"

definition libc_raise :: "usize \<Rightarrow> request" where
  "libc_raise sig = (SYSCALL_RAISE, [sig, 0, 0, 0, 0, 0])"

definition libc_kill :: "usize \<Rightarrow> usize \<Rightarrow> request" where
  "libc_kill pid sig = (SYSCALL_KILL, [pid, sig, 0, 0, 0, 0])"

definition libc_pause :: "request" where
  "libc_pause = (SYSCALL_PAUSE, [0, 0, 0, 0, 0, 0])"

definition libc_pipe :: "usize \<Rightarrow> request" where
  "libc_pipe ufds = (SYSCALL_PIPE, [ufds, 0, 0, 0, 0, 0])"

definition libc_dup2 :: "i32 \<Rightarrow> i32 \<Rightarrow> request" where
  "libc_dup2 old32 new32 = (SYSCALL_DUP2, [scast old32, scast new32, 0, 0, 0, 0])"

definition libc_write_fd :: "usize \<Rightarrow> usize \<Rightarrow> usize \<Rightarrow> request" where
  "libc_write_fd fd buf len = (SYSCALL_WRITE, [fd, buf, len, 0, 0, 0])"

definition libc_getppid :: "request" where
  "libc_getppid = (SYSCALL_GET_PID, [0, 0, 0, 0, 0, 0])"

text \<open>Loading the registers, the exception, and the value the wrapper finds in \<open>x0\<close>.\<close>

definition svc_frame :: "request \<Rightarrow> trap_frame \<Rightarrow> trap_frame" where
  "svc_frame rq f = (case rq of (num, a) \<Rightarrow>
     f\<lparr>tf_esr := push_bit 26 0x15, tf_x := (tf_x f)[0 := a ! 0, 1 := a ! 1, 2 := a ! 2, 3 := a ! 3, 4 := a ! 4, 5 := a ! 5, 16 := ucast num]\<rparr>)"

definition svc :: "(table_ref \<Rightarrow> mstate handler) \<Rightarrow> bool \<Rightarrow> request \<Rightarrow> trap_frame \<Rightarrow> mstate \<Rightarrow> outcome_reg \<times> mstate" where
  "svc h global rq f s =
     (case sync_el0_handler h global (svc_frame rq f) s of
        (TReturn, f1, s1) \<Rightarrow> (Reply (tf_x f1 ! 0), s1)
      | (TCrash, f1, s1) \<Rightarrow> (Crash, s1)
      | (_, f1, s1) \<Rightarrow> (NoReply, s1))"

text \<open>The usual decoding, and that of \<open>channel_create\<close>.\<close>

definition user_result :: "usize \<Rightarrow> usize res" where
  "user_result w = (if sint w < 0 then Err (from_raw (ucast w)) else Ok w)"

definition create_result :: "usize \<Rightarrow> usize res" where
  "create_result w = (if w = 0 then Err (from_raw (ucast w)) else Ok w)"

definition wrapper_result :: "request \<Rightarrow> usize \<Rightarrow> usize res" where
  "wrapper_result rq w = (if rq = call_channel_create then create_result w else user_result w)"

section \<open>What the wrappers are meant to do\<close>

text \<open>
  Each wrapper and the handler it is meant for, with its own arguments. Three wrappers are not in the relation:
  \<open>thread_create\<close>, whose arguments do not match the parameters of the handler, \<open>getppid\<close>, which asks for the
  identifier of the caller itself, and the write to a descriptor, which is for the console only.
\<close>

inductive wrapper_call :: "request \<Rightarrow> kcall \<Rightarrow> bool" where
  "wrapper_call call_channel_create (Capability CChannelCreate)"
| "wrapper_call (call_channel_read handle buf len hs hlen) (Capability (CChannelRead (ucast handle) buf len hs hlen))"
| "wrapper_call (call_channel_write handle buf len hs hlen) (Capability (CChannelWrite (ucast handle) buf len hs hlen))"
| "wrapper_call (call_channel_register name nlen handle) (Capability (CChannelRegister name nlen (ucast handle)))"
| "wrapper_call (call_channel_lookup name nlen) (Capability (CChannelLookup name nlen))"
| "wrapper_call (call_close handle) (Capability (CClose (ucast handle)))"
| "wrapper_call call_yield_cpu (Lifecycle CYield)"
| "wrapper_call (call_vmo_create sz) (Capability (CVmoCreate sz))"
| "wrapper_call (call_vmo_create_child handle off sz) (Capability (CVmoCreateChild (ucast handle) off sz))"
| "wrapper_call (call_vmo_read handle off buf len) (Capability (CVmoRead (ucast handle) off buf len))"
| "wrapper_call (call_vmo_write handle off buf len) (Capability (CVmoWrite (ucast handle) off buf len))"
| "wrapper_call (call_handle_duplicate handle rights32) (Capability (CHandleDuplicate (ucast handle) rights32))"
| "wrapper_call (call_vmar_map_self handle va sz fl32) (Capability (CVmarMapSelf (ucast handle) va sz fl32))"
| "wrapper_call (call_vmar_unmap va sz) (Capability (CVmarUnmap va sz))"
| "wrapper_call (call_process_create name nlen) (Lifecycle (CProcessCreate name nlen))"
| "wrapper_call (call_load_binary handle name nlen off) (Lifecycle (CLoadBinary (ucast handle) name nlen off))"
| "wrapper_call (call_wait4 pid ptr opts32) (Lifecycle (CWait4 pid ptr opts32))"
| "wrapper_call (call_service_spawn desc) (Lifecycle (CServiceSpawn desc))"
| "wrapper_call (call_spawn path plen argv argc) (Lifecycle (CSpawn path plen argv argc))"
| "wrapper_call (call_proc_mgmt cmd32 a1 a2 a3) (Lifecycle (CProcMgmt cmd32 a1 a2 a3))"
| "wrapper_call (call_thread_start handle32) (Lifecycle (CThreadStart handle32))"
| "wrapper_call (libc_exit code32) (Lifecycle (CExit code32))"
| "name \<noteq> 0 \<Longrightarrow> nlen \<noteq> 0 \<Longrightarrow> wrapper_call (libc_exec name nlen) (Lifecycle (CExec name nlen))"
| "wrapper_call (libc_execve path plen argv argc) (Lifecycle (CExecve path plen argv argc))"
| "wrapper_call (libc_getcwd buf len) (Lifecycle (CGetcwd buf len))"
| "wrapper_call (libc_chdir path plen) (Lifecycle (CChdir path plen))"
| "wrapper_call (libc_sigaction sig act m fl) (Lifecycle (CSigaction sig act m fl))"
| "wrapper_call (libc_raise sig) (Lifecycle (CRaise sig))"
| "wrapper_call (libc_kill pid sig) (Lifecycle (CKill pid sig))"
| "wrapper_call libc_pause (Lifecycle CPause)"
| "wrapper_call (libc_pipe ufds) (Lifecycle (CPipe ufds))"
| "wrapper_call (libc_dup2 old32 new32) (Lifecycle (CDup2 old32 new32))"

text \<open>The return types of the handlers.\<close>

fun capability_returns :: "capability_call \<Rightarrow> rval \<Rightarrow> bool" where
  "capability_returns (CVmoCreate sz) v = (case v of VHalf _ \<Rightarrow> True | _ \<Rightarrow> False)"
| "capability_returns (CVmoCreateChild p off sz) v = (case v of VHalf _ \<Rightarrow> True | _ \<Rightarrow> False)"
| "capability_returns (CChannelLookup n l) v = (case v of VHalf _ \<Rightarrow> True | _ \<Rightarrow> False)"
| "capability_returns (CHandleDuplicate p r) v = (case v of VHalf _ \<Rightarrow> True | _ \<Rightarrow> False)"
| "capability_returns CChannelCreate v = (case v of VPair _ _ \<Rightarrow> True | _ \<Rightarrow> False)"
| "capability_returns (CVmarUnmap va sz) v = (v = VUnit)"
| "capability_returns (CChannelRegister n l p) v = (v = VUnit)"
| "capability_returns (CClose p) v = (v = VUnit)"
| "capability_returns c v = (case v of VWord _ \<Rightarrow> True | _ \<Rightarrow> False)"

fun lifecycle_returns :: "lifecycle_call \<Rightarrow> rval \<Rightarrow> bool" where
  "lifecycle_returns (CExit code) v = (v = VNever)"
| "lifecycle_returns (CProcessCreate n l) v = (case v of VHalf _ \<Rightarrow> True | _ \<Rightarrow> False)"
| "lifecycle_returns (CThreadCreate p n l pc sp) v = (case v of VHalf _ \<Rightarrow> True | _ \<Rightarrow> False)"
| "lifecycle_returns (CDup2 old new) v = (case v of VHalf _ \<Rightarrow> True | _ \<Rightarrow> False)"
| "lifecycle_returns (CLoadBinary p n l off) v = (case v of VWord _ \<Rightarrow> True | _ \<Rightarrow> False)"
| "lifecycle_returns (CServiceSpawn d) v = (case v of VWord _ \<Rightarrow> True | _ \<Rightarrow> False)"
| "lifecycle_returns (CSpawn p l a n) v = (case v of VWord _ \<Rightarrow> True | _ \<Rightarrow> False)"
| "lifecycle_returns (CProcMgmt cmd a b c) v = (case v of VWord _ \<Rightarrow> True | _ \<Rightarrow> False)"
| "lifecycle_returns (CGetcwd p l) v = (case v of VWord _ \<Rightarrow> True | _ \<Rightarrow> False)"
| "lifecycle_returns (CWait4 pid p opts) v = (case v of VWord _ \<Rightarrow> True | _ \<Rightarrow> False)"
| "lifecycle_returns (CSigaction sig act m fl) v = (case v of VWord _ \<Rightarrow> True | _ \<Rightarrow> False)"
| "lifecycle_returns CGetTid v = (case v of VWord _ \<Rightarrow> True | _ \<Rightarrow> False)"
| "lifecycle_returns CGetPid v = (case v of VWord _ \<Rightarrow> True | _ \<Rightarrow> False)"
| "lifecycle_returns c v = (v = VUnit \<or> v = VNever)"

fun returns :: "kcall \<Rightarrow> rval \<Rightarrow> bool" where
  "returns (Capability c) v = capability_returns c v"
| "returns (Lifecycle c) v = lifecycle_returns c v"
| "returns c v = (case v of VWord _ \<Rightarrow> True | _ \<Rightarrow> False)"

definition gives :: "(rval \<Rightarrow> bool) \<Rightarrow> rval res \<times> 's \<Rightarrow> bool" where
  "gives P x \<longleftrightarrow> (case fst x of Ok v \<Rightarrow> P v | _ \<Rightarrow> True)"

definition handlers_typed :: "'s handler \<Rightarrow> bool" where
  "handlers_typed h \<longleftrightarrow> (\<forall>c s. gives (returns c) (h c s))"

section \<open>Lemmas\<close>

lemma narrow_widen [simp]: "(ucast (ucast (x :: u32) :: u64) :: u32) = x" "(ucast (scast (y :: i32) :: u64) :: i32) = y"
  by (auto intro!: bit_word_eqI simp: bit_simps)

lemma reply_unit: "\<forall>v. fst x = Ok v \<longrightarrow> v = VUnit \<or> v = VNever \<Longrightarrow> reply (\<lambda>_. 0) x = reply reg_of x"
  by (cases "(reg_of, x)" rule: reply.cases) auto

lemma typed_unit:
  assumes "handlers_typed h" "\<And>v. returns c v \<Longrightarrow> v = VUnit \<or> v = VNever"
  shows "reply (\<lambda>_. 0) (h c s) = reply reg_of (h c s)"
proof (rule reply_unit, intro allI impI)
  fix v assume "fst (h c s) = Ok v"
  then have "returns c v" using assms(1) by (auto simp: handlers_typed_def gives_def split: res.splits)
  then show "v = VUnit \<or> v = VNever" by (rule assms(2))
qed

lemmas wrapper_defs = call_channel_create_def call_channel_read_def call_channel_write_def call_channel_register_def call_channel_lookup_def call_close_def call_yield_cpu_def call_vmo_create_def call_vmo_create_child_def call_vmo_read_def call_vmo_write_def call_handle_duplicate_def call_vmar_map_self_def call_vmar_unmap_def call_process_create_def call_load_binary_def call_wait4_def call_service_spawn_def call_spawn_def call_proc_mgmt_def call_thread_create_def call_thread_start_def libc_exit_def libc_exec_def libc_execve_def libc_getcwd_def libc_chdir_def libc_sigaction_def libc_raise_def libc_kill_def libc_pause_def libc_pipe_def libc_dup2_def libc_write_fd_def libc_getppid_def

lemma wrapper_dispatch:
  assumes "wrapper_call rq c" "handlers_typed h"
  shows "dispatch_calls h (fst rq) (snd rq) s = reply reg_of (h c s) \<and> length (snd rq) = 6"
  using assms(1)
  by cases (simp_all add: wrapper_defs dispatch_calls_def dispatch_capability_def dispatch_lifecycle_def call_numbers, (rule typed_unit [OF assms(2)], auto)+)

lemma svc_dispatch:
  assumes f: "length (tf_x f) = 19" and tbl: "dispatch_table g (ms_ps s) = Some tbl" and w: "wrapper_call rq c" "handlers_typed (h tbl)"
  shows "svc h g rq f s = (case reply reg_of (h tbl c s) of
       (Reply w, s1) \<Rightarrow> (Reply w, s1\<lparr>ms_ps := after_call (tf_elr f) (ms_ps s1)\<rparr>)
     | x \<Rightarrow> x)"
proof -
  obtain num a where rq: "rq = (num, a)" by (cases rq)
  have d: "dispatch_calls (h tbl) num a s = reply reg_of (h tbl c s)" "length a = 6" using wrapper_dispatch [OF w] rq by simp_all
  have "[a ! 0, a ! 1, a ! 2, a ! 3, a ! 4, a ! 5] = a"
    using d(2) by (auto intro!: nth_equalityI simp: less_Suc_eq numeral_eq_Suc)
  then have "syscall_dispatch h g (ucast (ucast num :: u64)) [a ! 0, a ! 1, a ! 2, a ! 3, a ! 4, a ! 5] s = reply reg_of (h tbl c s)"
    using tbl d(1) by (simp add: syscall_dispatch_def)
  moreover have "tf_esr (svc_frame rq f) = 0x54000000" "tf_elr (svc_frame rq f) = tf_elr f" by (simp_all add: svc_frame_def rq)
  moreover have "tf_x (svc_frame rq f) ! 16 = ucast num" "\<And>i. i < 6 \<Longrightarrow> tf_x (svc_frame rq f) ! i = a ! i" "length (tf_x (svc_frame rq f)) = 19"
    using f by (auto simp: svc_frame_def rq nth_list_update less_Suc_eq numeral_eq_Suc)
  moreover obtain o1 s1 where "reply reg_of (h tbl c s) = (o1, s1)" by (metis prod.exhaust)
  ultimately show ?thesis
    by (cases o1) (simp_all add: svc_def sync_el0_handler_def Let_def)
qed

text \<open>Register values of 32-bit results and statuses under the decoding of the wrappers.\<close>

lemma user_result_half: "user_result (ucast (x :: u32)) = Ok (ucast x)"
proof -
  have "\<not> bit (ucast x :: usize) 63" by (auto simp: bit_simps dest: bit_imp_le_length)
  then show ?thesis using bit_last_iff [of "ucast x :: usize"] by (simp add: user_result_def word_sless_alt)
qed

lemma user_result_err: "\<not> is_ok e \<Longrightarrow> user_result (to_raw e) = Err e"
proof -
  assume "\<not> is_ok e"
  then have "sint (to_raw e) < 0" by (cases e) (simp_all add: to_raw_def is_ok_def)
  then show ?thesis by (simp add: user_result_def ucast_to_raw from_raw_status_code)
qed


lemma create_result_err: "\<not> is_ok e \<Longrightarrow> create_result (to_raw e) = Ok (to_raw e)"
  by (cases e) (simp_all add: create_result_def to_raw_def is_ok_def)

lemma user_result_word: "unat w < 2 ^ 63 \<Longrightarrow> user_result w = Ok w"
proof -
  assume "unat w < 2 ^ 63"
  then have "int (unat w) < int (2 ^ 63)" by (simp only: of_nat_less_iff)
  then have "uint w < 2 ^ 63" by simp
  moreover have "- (2 ^ 63) \<le> uint w" by (rule order_trans [OF _ uint_ge_0]) simp
  ultimately have "sint w = uint w" using signed_take_bit_int_eq_self [of 63 "uint w"] by (simp add: sint_uint)
  then show ?thesis by (simp add: user_result_def)
qed

lemma pair_halves:
  "reg_of (VPair x y) AND 0xFFFFFFFF = ucast x" "drop_bit 32 (reg_of (VPair x y)) = ucast y"
proof -
  have m: "0xFFFFFFFF = (mask 32 :: usize)" by (simp add: mask_eq_exp_minus_1)
  show "reg_of (VPair x y) AND 0xFFFFFFFF = ucast x" unfolding m using bit_imp_le_length [of x] by (auto intro!: bit_word_eqI simp: bit_simps)
  show "drop_bit 32 (reg_of (VPair x y)) = ucast y"
    using bit_imp_le_length [of x] bit_imp_le_length [of y] by (force intro!: bit_word_eqI simp: bit_simps)
qed

lemma wrapper_pair:
  assumes "wrapper_call rq c" "returns c v"
  shows "rq = call_channel_create \<longleftrightarrow> (\<exists>x y. v = VPair x y)"
  using assms by cases (auto simp: wrapper_defs call_numbers split: rval.splits)


section \<open>The modelled handlers\<close>

lemma giving_typed [simp]: "gives P (giving f (res, s)) \<longleftrightarrow> (\<forall>v. res = Ok v \<longrightarrow> P (f v))"
  by (cases res) (simp_all add: gives_def giving_def)

lemma giving_all: "(\<And>r. P (f r)) \<Longrightarrow> gives P (giving f x)"
  by (cases x) simp

lemma returns_parts: "returns (Capability c) = capability_returns c" "returns (Lifecycle d) = lifecycle_returns d"
  by (simp_all add: fun_eq_iff)

lemma memory_call_typed:
  assumes "handlers_typed rest"
  shows "gives (capability_returns c) (memory_call k rest c s)"
proof -
  have "gives (capability_returns c) (rest (Capability c) s)" using assms by (simp add: handlers_typed_def flip: returns_parts)
  then show ?thesis by (cases c) (simp_all add: giving_all)
qed

lemma process_call_typed:
  assumes "handlers_typed rest"
  shows "gives (lifecycle_returns c) (process_call slot_sz stub k rest c s)"
proof -
  have "gives (lifecycle_returns c) (rest (Lifecycle c) s)" using assms by (simp add: handlers_typed_def flip: returns_parts)
  then show ?thesis by (cases c) (simp_all add: giving_all)
qed

text \<open>The modelled handlers return values of their types whenever the others do.\<close>

lemma kernel_handler_typed:
  assumes "\<And>t. handlers_typed (rest t)"
  shows "handlers_typed (kernel_handler slot_sz stub rest tbl)"
  unfolding handlers_typed_def
proof (intro allI)
  fix c s
  have "gives (returns c) (rest tbl c s)" using assms by (simp add: handlers_typed_def)
  then show "gives (returns c) (kernel_handler slot_sz stub rest tbl c s)"
    using memory_call_typed [OF assms] process_call_typed [OF assms]
    by (cases c) (auto simp: kernel_handler_def returns_parts split: table_ref.splits option.splits)
qed

text \<open>A program of process 1 creates a memory object of 5000 bytes and gets its first handle.\<close>

definition refuse :: "table_ref \<Rightarrow> mstate handler" where
  "refuse tbl c s = (Err NotAllowed, s)"

definition demo_frame :: trap_frame where
  "demo_frame = \<lparr>tf_x = replicate 19 0, tf_spsr = 0, tf_elr = 0x10014, tf_esr = 0, tf_far = 0, tf_lr = 0, tf_sp = 0x2004000\<rparr>"

definition demo_user :: mstate where
  "demo_user = \<lparr>ms_ps = demo_pstate\<lparr>ps_procs := [Some (proc_new_dummy\<lparr>pr_id := 1, pr_handle_table := None # replicate 11 None\<rparr>)],
       ps_pt := demo_ptw\<lparr>pw_phys := demo_phys\<rparr>,
       ps_sched := (ps_sched demo_pstate)\<lparr>sc_threads := Some (demo_caller\<lparr>th_handle_table := Some 1\<rparr>) # replicate 15 None\<rparr>\<rparr>,
     ms_meta = demo_kmem\<rparr>"

lemma demo_user_table: "dispatch_table False (ms_ps demo_user) = Some (ThreadTable 1)"
  by (simp add: dispatch_table_def current_thread_def get_current_thread_def demo_user_def demo_pstate_def)

lemma demo_user_slot: "find_process_mut 1 (ms_ps demo_user) = Some 0"
  by (simp add: find_process_mut_def find_slot_def demo_user_def)

lemma demo_user_create: "\<exists>s1. sys_vmo_create 0 5000 demo_user = (Ok 1, s1)"
proof -
  have "ms_kmem demo_user = demo_kmem" by (simp add: ms_kmem_def kmem_at_def demo_user_def demo_kmem_def)
  then have "create_with_size 5000 (ms_kmem demo_user) = (Ok demo_vmo, demo_mem)" by (simp add: demo_mem_create)
  moreover have "table_of 0 (set_kmem demo_mem demo_user) = None # replicate 11 None" "ps_hctr (ms_ps (set_kmem demo_mem demo_user)) = 1"
    by (simp_all add: set_kmem_def demo_user_def demo_pstate_def)
  ultimately show ?thesis by (simp add: sys_vmo_create_def add_vmo_def ht_add_def ht_put_def first_free_def find_index_def Let_def)
qed


end
