(* ===== verification/Spec2Isabelle.thy ===== *)
theory Spec2Isabelle
  imports Futex Process_Calls Ohlink_Crc Ohlink_Runner Fdt Osh_Parser Libc Libc_Files Argv Slab Spawn System_Calls
begin

text \<open>
  A verification library for Capsule OS, a capability-based microkernel for AArch64 with a small user
  space and a tool chain of its own, all written in Rust.

  \<^bold>\<open>The system.\<close> The kernel (\<open>kernel/src\<close>) owns physical frames, page tables, threads and processes. A user
  program names kernel objects only through handles of its process's table; it asks for memory as virtual
  memory objects, maps them through address regions and page tables, talks to other programs over channels
  and ports, and waits on futexes. Files are not in the kernel: the C library (\<open>libraries/libc\<close>) sends messages
  over a channel to the file service (\<open>userspace/services/fileagent\<close>), which keeps them in memory. Programs are
  files of the OHLK format, which the tool chain (\<open>tools/ohlink-toolchain\<close>) builds, the kernel parses at launch
  and an emulator runs on the host.

  \<^bold>\<open>How code is represented.\<close> A Rust struct is a record, an enum a datatype, a fixed-size array a list whose
  length is part of an invariant. Machine integers are words wherever they can wrap: addresses, sizes,
  identifiers, register contents, checksums; array indices and lengths that the code bounds first are natural
  numbers. A function that returns \<open>Result\<close> returns a value of the outcome type of \<open>Prelude\<close>, where a panic
  (index out of range, \<open>unwrap\<close> of nothing, an explicit abort) is a third outcome besides success and error;
  state changes made before an error are kept, as in the code. Statics become fields of an explicit state. A
  loop whose end is not evident from its bounds is a partial function or takes the number of rounds as an
  argument, and that it ends is then a theorem.

  \<^bold>\<open>Shared interfaces.\<close> \<open>Fifo\<close> states what a bounded queue promises; the ready queues of the scheduler, the
  waiters of a channel end, the packets of a port and the bytes of a pipe are interpretations of it. \<open>Keyed_Table\<close>
  states what a table with unique keys promises; handle tables and the service registry are interpretations.
  \<open>Phys_Alloc\<close> states what a frame allocator promises to those who build page tables, \<open>Page_Table\<close> what one level
  of a table walk may do, which the three tree builders of the kernel share, and \<open>User_Memory\<close> what a
  translation function promises to the copy loops.

  \<^bold>\<open>Kernel theories.\<close>
  \<^item> \<open>Shared_Types\<close>: status codes, handle values, object types, rights (\<open>kernel/shared/src\<close>, \<open>object/rights.rs\<close>);
    status codes survive the register encoding.
  \<^item> \<open>Phys_Alloc\<close> (\<open>arch/aarch64/phys.rs\<close>): the frame cursor, page tags, page cache, boot scan. No frame is
    handed out twice, a double free aborts, and the boot scan's reservation of the device tree has no effect.
  \<^item> \<open>Slab\<close> (\<open>arch/aarch64/slab.rs\<close>): the kernel heap. Live blocks are disjoint after any sequence of calls; when
    two calls interleave, a block in use can be handed out again.
  \<^item> \<open>Vmo\<close>, \<open>Vmar\<close> (\<open>memory/\<close>): memory objects refine byte arrays; regions are handed out first fit and disjoint.
  \<^item> \<open>Page_Table\<close> (\<open>arch/aarch64/page_table.rs\<close>, \<open>mmu.rs\<close>), \<open>Asid\<close>: mapping an address makes exactly this page
    translate to the given frame, unmapping undoes it, and the cases in which protection bits are lost.
  \<^item> \<open>User_Memory\<close> (\<open>syscall/handlers/ipc.rs\<close>, \<open>syscall/validator.rs\<close>): copies to and from user space are the
    bytewise copy under the translation; range checks hold exactly for mapped ranges.
  \<^item> \<open>Handle_Table\<close> (\<open>object/handle_table.rs\<close>): a handle table refines a finite map from values to capabilities.
  \<^item> \<open>Thread\<close>, \<open>Scheduler\<close> (\<open>task/thread.rs\<close>, \<open>task/scheduler.rs\<close>): in every reachable state the ready queues hold
    each ready thread once; the choice of the next thread is the specified one.
  \<^item> \<open>Ipc\<close>, \<open>Port\<close> (\<open>ipc/\<close>): a message written to a channel reaches the waiting or the next reader unchanged, closing
    wakes every waiter; the packet ring of a port is a queue.
  \<^item> \<open>Futex\<close> (\<open>sync/futex.rs\<close>), \<open>Pipe\<close> (\<open>vfs/pipe.rs\<close>): waiter chains and byte streams.
  \<^item> \<open>Process\<close>, \<open>Process_Calls\<close> (\<open>task/process.rs\<close>, \<open>task/signals.rs\<close>, \<open>syscall/handlers/process.rs\<close>): the process
    table, waiting, signals, descriptors and the remaining process calls; every call keeps the invariant of
    the table, a child is reaped once, signals are delivered as their actions say.
  \<^item> \<open>Fdt\<close> (\<open>fdt.rs\<close>): the device-tree parser ends and reads inside its block on every input, and finds what the
    tree says on well-formed ones.
  \<^item> \<open>Argv\<close> (\<open>task/process.rs\<close>, \<open>libraries/libc/src/lib.rs\<close>): the arguments the kernel pushes are the arguments the
    entry code of the program finds.
  \<^item> \<open>Memory_Calls\<close> (\<open>syscall/handlers/memory.rs\<close>): the memory calls over handle tables, objects, regions and page
    tables together; a mapped range of user space is the object it maps.
  \<^item> \<open>Launch\<close>, \<open>Launch_Memory\<close>, \<open>Launch_Spec\<close>, \<open>Launch_Program\<close> (\<open>task/process.rs\<close>): the launch of a program over all
    of these; a built image is found byte for byte in the memory of the new process, with a zeroed stack and a
    ready thread at its entry point.
  \<^item> \<open>Rootfs\<close> (\<open>rootfs.rs\<close>, \<open>tools/xtask/src/pack.rs\<close>): a path looked up in a packed boot image gives the file
    that was packed under it.
  \<^item> \<open>Spawn\<close> (\<open>syscall/handlers/process.rs\<close>, \<open>loader.rs\<close>): the calls that start programs; what the linker built and the
    packer stored runs as a child of the process that spawns it by name.
  \<^item> \<open>System_Calls\<close> (\<open>syscall/mod.rs\<close>, \<open>syscall/capability\<close>, \<open>syscall/lifecycle\<close>, \<open>arch/aarch64/trap.rs\<close>, \<open>libraries/libcapsule\<close>,
    \<open>libraries/libc/src/syscalls.rs\<close>): from a wrapper through the exception and the dispatcher to a handler and
    back; the handler meant gets the arguments at their widths and the wrapper its result.

  \<^bold>\<open>User-space and tool theories.\<close>
  \<^item> \<open>Ramfs\<close>, \<open>Ramfs_Spec\<close>, \<open>File_Agent\<close> (\<open>userspace/services/fileagent/src\<close>): nodes linked by sibling lists refine a
    tree with byte-string files; while nodes are left, every request is answered; reusing a node can make a
    lookup run for ever.
  \<^item> \<open>Libc\<close>, \<open>Libc_Files\<close> (\<open>libraries/libc/src/lib.rs\<close>): memory routines and decimal output; the file functions over
    any transport, and composed with the file service: what a program writes it reads back.
  \<^item> \<open>Osh_Parser\<close> (\<open>userspace/programs/osh/src/parser.rs\<close>): the loops of the shell parser compute the split of a line
    into stages and words.
  \<^item> \<open>Ohlink\<close>, \<open>Ohlink_Crc\<close>, \<open>Ohlink_Runner\<close> (\<open>tools/ohlink-toolchain/crates\<close>): a built file parses back to its
    segments; the table-driven checksum is the polynomial division and detects every changed byte of the
    payload; the emulator starts at the first instruction of a built program.

  \<^bold>\<open>Bounds and fuel.\<close> The walk of a device tree takes as many rounds as the block has bytes, and each round
  consumes at least one token. The emulator's loop has the limit of 100000 rounds that its source has. A list
  of siblings is followed by a partial function; that it ends is proved for every state that represents a
  tree, and that it does not end is proved for the broken state. The loop of a heap allocation is given
  five steps, which suffice when nothing interleaves: it finds the list empty, refills it, loads the new
  head, reads its link and exchanges the head.

  \<^bold>\<open>Not modelled.\<close> Assembly and register access (exception entry, context switch, cache and TLB maintenance,
  boot loader, drivers) and diagnostic output. The trap instruction itself is the step from the registers a
  wrapper loads to the frame the handler finds. The dispatcher is a function of the handlers; the memory and process
  handlers are put in, those of channels run on the state of \<open>Ipc\<close>. The shell's interactive loop and the small programs only print.
  The linker, the code generator and the build tool drive external programs and are outside the running
  system. Locks are not modelled: the kernel takes them around each operation on one core with interrupts
  masked, so an operation is one step; only the heap, which uses no lock, is modelled in smaller steps.
\<close>

end
